(* ===== verification/Prelude.thy ===== *)
theory Prelude
  imports Main "HOL-Library.Word"
begin

text \<open>
  The vocabulary every component of the development shares.

  The code under \<open>src/base\<close> reports failure in three ways (\<open>check.h\<close>): a
  \<open>BASE_FATAL_CHECK\<close> terminates in every configuration, a \<open>BASE_DCHECK\<close> and a
  \<open>BASE_BUGCHECK\<close> break into the debugger. Everything else that can go wrong is undefined
  behaviour of C++: touching storage outside a block, constructing over a live object,
  assigning to or destroying storage that holds no object. All of them are values of the
  type \<open>fault\<close>; a computation that may fail returns a \<open>res\<close>, and \<open>bindE\<close> sequences
  two of them, stopping at the first fault. The model is of the configuration in which the
  checks are armed; past a failed check a shipping build is outside its contract.
\<close>

section \<open>Faults and results\<close>

datatype fault =
    FatalCheck string
  | DCheck string
  | BugCheck string
  | Lifetime
  | OutOfBounds
  | Leak
  | BadFree
  | ShiftOverflow
  | Diverges
  | DivByZero
  | SignedOverflow

type_synonym 'a res = "fault + 'a"

definition bindE :: "'a res \<Rightarrow> ('a \<Rightarrow> 'b res) \<Rightarrow> 'b res" where
  "bindE m f = (case m of Inl e \<Rightarrow> Inl e | Inr x \<Rightarrow> f x)"

definition ensure :: "bool \<Rightarrow> fault \<Rightarrow> unit res" where
  "ensure b e = (if b then Inr () else Inl e)"

lemma bindE_Inr [simp]: "bindE (Inr x) f = f x"
  by (simp add: bindE_def)

lemma bindE_Inl [simp]: "bindE (Inl e) f = Inl e"
  by (simp add: bindE_def)

lemma bindE_eq_Inr_iff: "bindE m f = Inr y \<longleftrightarrow> (\<exists>x. m = Inr x \<and> f x = Inr y)"
  by (cases m) auto

lemma bindE_assoc: "bindE (bindE m f) g = bindE m (\<lambda>x. bindE (f x) g)"
  by (cases m) auto

lemma bindE_cong [fundef_cong]:
  "m = m' \<Longrightarrow> (\<And>x. m' = Inr x \<Longrightarrow> f x = f' x) \<Longrightarrow> bindE m f = bindE m' f'"
  by (cases m') auto

lemma ensure_True [simp]: "ensure True e = Inr ()"
  by (simp add: ensure_def)

lemma ensure_False [simp]: "ensure False e = Inl e"
  by (simp add: ensure_def)

lemma bindE_ensure: "bindE (ensure b e) f = (if b then f () else Inl e)"
  by (simp add: ensure_def)

text \<open>
  A fault is a refusal when the code itself stops, by a fatal check or a debug check; the
  other faults are undefined behaviour. \<open>outcome P r\<close> says that a computation either
  refuses or returns a value with \<open>P\<close>, and in particular does nothing undefined.
\<close>

fun refusal :: "fault \<Rightarrow> bool" where
  "refusal (FatalCheck m) = True"
| "refusal (DCheck m) = True"
| "refusal (BugCheck m) = True"
| "refusal _ = False"

definition outcome :: "('a \<Rightarrow> bool) \<Rightarrow> 'a res \<Rightarrow> bool" where
  "outcome P r = (case r of Inl e \<Rightarrow> refusal e | Inr x \<Rightarrow> P x)"

lemma outcome_simps [simp]: "outcome P (Inl e) = refusal e" "outcome P (Inr x) = P x"
  by (simp_all add: outcome_def)

lemma outcome_mono: "outcome Q m \<Longrightarrow> (\<And>x. Q x \<Longrightarrow> P x) \<Longrightarrow> outcome P m"
  by (cases m) auto

lemma outcome_bindE:
  "outcome Q m \<Longrightarrow> (\<And>x. m = Inr x \<Longrightarrow> Q x \<Longrightarrow> outcome P (f x)) \<Longrightarrow> outcome P (bindE m f)"
  by (cases m) auto

section \<open>Machine sizes\<close>

text \<open>
  \<open>mem_size\<close> is an unsigned 64-bit integer (\<open>arch.h\<close>). Counts and indices are natural
  numbers, with the wrap-around or the overflow check written out where the code has one;
  values that the code mixes bitwise are 64-bit words.
\<close>

type_synonym u8 = "8 word"
type_synonym u16 = "16 word"
type_synonym u32 = "32 word"
type_synonym u64 = "64 word"

definition MEM_MAX :: nat where
  "MEM_MAX = 2 ^ 64 - 1"

lemma MEM_MAX_pos: "0 < MEM_MAX"
  by (simp add: MEM_MAX_def)

text \<open>Decrementing a 64-bit counter that is not zero.\<close>

lemma wrap_pred: "0 < n \<Longrightarrow> n < 18446744073709551616 \<Longrightarrow>
    (n + 18446744073709551615) mod 18446744073709551616 = n - (1 :: nat)"
  by (simp add: mod_if)

section \<open>Lists by position\<close>

named_theorems at_pos \<open>reading and updating a list at the length of a prefix\<close>

lemma nth_at [at_pos]: "n = length xs \<Longrightarrow> (xs @ y # ys) ! n = y"
  by simp

lemma update_at [at_pos]: "n = length xs \<Longrightarrow> (xs @ y # ys)[n := z] = xs @ z # ys"
  by simp

lemma append_Cons_eq: "xs @ y # ys = (xs @ [y]) @ ys"
  by simp

lemma replicate_Suc_end: "replicate (Suc n) x = replicate n x @ [x]"
  by (simp add: replicate_append_same)

lemma take_Suc_snoc: "i < length xs \<Longrightarrow> take (Suc i) xs = take i xs @ [xs ! i]"
  by (simp add: take_Suc_conv_app_nth)

section \<open>Indices modulo a size\<close>

lemma mod_distinct:
  assumes "t < (n::nat)" and "n < t + k"
  shows "t mod k \<noteq> n mod k"
proof
  assume "t mod k = n mod k"
  then have "k dvd n - t" using assms(1) by (metis less_imp_le mod_eq_dvd_iff_nat)
  with assms show False by (auto dest!: dvd_imp_le)
qed

lemma mod_inj_offset:
  assumes "(h + d) mod n = (h + e) mod n" and "d < n" and "e < n"
  shows "d = (e :: nat)"
proof (rule ccontr)
  assume "d \<noteq> e"
  then consider "d < e" | "e < d" by linarith
  then show False
    using assms mod_distinct [of "h + d" "h + e" n] mod_distinct [of "h + e" "h + d" n]
    by cases auto
qed

lemma mod_offset_onto:
  assumes "i < (n :: nat)"
  obtains d where "d < n" and "i = (h + d) mod n"
proof
  let ?d = "(i + (n - h mod n)) mod n"
  show "?d < n" using assms by simp
  have "(h + ?d) mod n = (h mod n + (i + (n - h mod n))) mod n" by (simp add: mod_simps)
  also have "h mod n + (i + (n - h mod n)) = i + n"
    using assms mod_less_divisor [of n h] by linarith
  finally show "i = (h + ?d) mod n" using assms by simp
qed

text \<open>Masking with a power of two minus one.\<close>

lemma and_pow2_mod: "n = 2 ^ p \<Longrightarrow> Bit_Operations.and x (n - 1) = x mod (n :: nat)"
  by (metis mask_eq_exp_minus_1 take_bit_eq_mask take_bit_eq_mod)

section \<open>Shifted words as numbers\<close>

lemma unat_push: "unat (push_bit n (w :: 'a::len word)) = unat w * 2 ^ n mod 2 ^ LENGTH('a)"
proof -
  have "unat (push_bit n w) = take_bit LENGTH('a) (push_bit n (unat w))" by (rule unsigned_push_bit_eq)
  also have "\<dots> = unat w * 2 ^ n mod 2 ^ LENGTH('a)" by (simp add: push_bit_eq_mult take_bit_eq_mod)
  finally show ?thesis .
qed

lemma unat_shift_right: "unat (drop_bit n (w :: 'a::len word)) = unat w div 2 ^ n"
  by (metis drop_bit_eq_div unsigned_drop_bit_eq take_bit_nat_eq_self unsigned_less drop_bit_nat_eq
      unat_drop_bit_eq)

lemma push_or_add:
  assumes "unat (c :: 'a::len word) < 2 ^ n"
  shows "Bit_Operations.or (push_bit n x) c = push_bit n x + c"
proof -
  have "take_bit n c = c"
    using assms by (simp add: word_eq_iff_unsigned [where ?'a = nat] unsigned_take_bit_eq take_bit_nat_eq_self)
  then have "\<not> bit c k" if "n \<le> k" for k using that by (metis bit_take_bit_iff leD)
  then have "Bit_Operations.and (push_bit n x) c = 0" by (intro bit_word_eqI) (auto simp: bit_simps)
  then show ?thesis by (simp add: disjunctive_add_eq_or)
qed

section \<open>The first offset\<close>

text \<open>The smallest offset at which a predicate holds.\<close>

lemma first_offset:
  assumes "P (e :: nat)"
  obtains d where "d \<le> e" and "P d" and "\<And>d'. d' < d \<Longrightarrow> \<not> P d'"
proof
  show "(LEAST d. P d) \<le> e" "P (LEAST d. P d)"
    using assms by (auto intro: Least_le LeastI)
  show "\<not> P d'" if "d' < (LEAST d. P d)" for d'
    using that by (rule not_less_Least)
qed

end
