(* ===== verification/Checked_Arith.thy ===== *)
theory Checked_Arith
  imports Prelude
begin

unbundle bit_operations_syntax

text \<open>
  Integer helpers: the overflow-checked sizes of \<open>memory/allocation_size.h\<close>, the minimum
  and maximum of \<open>math/value_bounds.h\<close>, the bit tricks of \<open>math/math_helpers.h\<close> and the
  alignment of \<open>math/alignment.h\<close>. The containers take their capacities from the first
  group, so its contract (an exact result or a fatal check, never a wrapped value) is what
  their block sizes rest on.
\<close>

section \<open>Allocation sizes and element counts\<close>

definition TryAllocationSize :: "nat \<Rightarrow> nat \<Rightarrow> nat option" where
  "TryAllocationSize count element_size =
     (if element_size \<noteq> 0 \<and> count > MEM_MAX div element_size then None
      else Some (count * element_size mod 2 ^ 64))"

definition CheckedAllocationSize :: "nat \<Rightarrow> nat \<Rightarrow> nat res" where
  "CheckedAllocationSize count element_size =
     (case TryAllocationSize count element_size of
        None \<Rightarrow> Inl (FatalCheck ''allocation size overflows mem_size'')
      | Some bytes \<Rightarrow> Inr bytes)"

definition CheckedCountSum :: "nat \<Rightarrow> nat \<Rightarrow> nat res" where
  "CheckedCountSum a b =
     bindE (ensure (a \<le> MEM_MAX - b) (FatalCheck ''element count sum overflows''))
       (\<lambda>_. Inr ((a + b) mod 2 ^ 64))"

definition CheckedCountProduct :: "nat \<Rightarrow> nat \<Rightarrow> nat res" where
  "CheckedCountProduct count factor = CheckedAllocationSize count factor"

text \<open>The doubling loop; \<open>None\<close> is a loop that never ends.\<close>

partial_function (option) round_up_loop :: "nat \<Rightarrow> nat \<Rightarrow> nat res option" where
  "round_up_loop v target =
     (if target < v then
        (if target \<le> MEM_MAX div 2 then round_up_loop v (target * 2 mod 2 ^ 64)
         else Some (Inl (FatalCheck ''no power of two can hold the requested count'')))
      else Some (Inr target))"

definition CheckedRoundUpToPowerOfTwo :: "nat \<Rightarrow> nat res" where
  "CheckedRoundUpToPowerOfTwo v =
     (case round_up_loop v 1 of None \<Rightarrow> Inl Diverges | Some r \<Rightarrow> r)"

section \<open>Minimum and maximum\<close>

definition Min2 :: "'a::linorder \<Rightarrow> 'a \<Rightarrow> 'a" where
  "Min2 a b = (if a < b then a else b)"

definition Max2 :: "'a::linorder \<Rightarrow> 'a \<Rightarrow> 'a" where
  "Max2 a b = (if a > b then a else b)"

fun Min_loop :: "'a::linorder \<Rightarrow> 'a list \<Rightarrow> 'a" where
  "Min_loop r [] = r"
| "Min_loop r (v # vs) = Min_loop (if v < r then v else r) vs"

fun Max_loop :: "'a::linorder \<Rightarrow> 'a list \<Rightarrow> 'a" where
  "Max_loop r [] = r"
| "Max_loop r (v # vs) = Max_loop (if v > r then v else r) vs"

text \<open>The array and the initializer-list overloads; both read the first value unchecked.\<close>

fun Min_values :: "'a::linorder list \<Rightarrow> 'a res" where
  "Min_values [] = Inl OutOfBounds"
| "Min_values (v # vs) = Inr (Min_loop v vs)"

fun Max_values :: "'a::linorder list \<Rightarrow> 'a res" where
  "Max_values [] = Inl OutOfBounds"
| "Max_values (v # vs) = Inr (Max_loop v vs)"

section \<open>Bit tricks\<close>

text \<open>The compiler's count-leading-zeros, scanning down from the top bit.\<close>

fun clz_from :: "'a::len word \<Rightarrow> nat \<Rightarrow> nat" where
  "clz_from w 0 = 0"
| "clz_from w (Suc k) = (if bit w k then 0 else Suc (clz_from w k))"

definition CountLeadingZeros32 :: "u32 \<Rightarrow> nat" where
  "CountLeadingZeros32 val = (if val = 0 then 32 else clz_from val 32)"

definition CountLeadingZeros64 :: "u64 \<Rightarrow> nat" where
  "CountLeadingZeros64 val = (if val = 0 then 64 else clz_from val 64)"

definition Log2_32 :: "u32 \<Rightarrow> u32" where
  "Log2_32 value = 31 - of_nat (CountLeadingZeros32 value)"

definition Log2_64 :: "u64 \<Rightarrow> u64" where
  "Log2_64 value = 63 - of_nat (CountLeadingZeros64 value)"

definition IsPowerOf2 :: "'a::len word \<Rightarrow> bool" where
  "IsPowerOf2 v \<longleftrightarrow> v \<noteq> 0 \<and> v AND (v - 1) = 0"

text \<open>
  \<open>1 << n\<close> on the literal \<open>1\<close>, which is a 32-bit \<open>int\<close>: shifting by 32 or more is
  undefined, shifting into the sign bit gives the most negative value, and the conversion
  to the unsigned result type sign-extends.
\<close>

definition int_one_shl :: "nat \<Rightarrow> u32 res" where
  "int_one_shl n = (if n < 32 then Inr (push_bit n 1) else Inl ShiftOverflow)"

definition LastPowerOf2_64 :: "u64 \<Rightarrow> u64 res" where
  "LastPowerOf2_64 x =
     (if x = 1 then Inr 1
      else bindE (int_one_shl (unat (63 - (of_nat (CountLeadingZeros64 x) :: u64))))
             (\<lambda>v. Inr (scast v)))"

definition LastPowerOf2_32 :: "u32 \<Rightarrow> u32 res" where
  "LastPowerOf2_32 x =
     (if x = 1 then Inr 1
      else int_one_shl (unat (31 - (of_nat (CountLeadingZeros32 x) :: u32))))"

definition NextPowerOf2_32 :: "u32 \<Rightarrow> u32 res" where
  "NextPowerOf2_32 x =
     (if x = 1 then Inr 1
      else int_one_shl (unat (32 - (of_nat (CountLeadingZeros32 (x - 1)) :: u32))))"

definition NextPowerOf2_64 :: "u64 \<Rightarrow> u64 res" where
  "NextPowerOf2_64 x =
     (if x = 1 then Inr 1
      else bindE (int_one_shl (unat (64 - (of_nat (CountLeadingZeros64 (x - 1)) :: u64))))
             (\<lambda>v. Inr (scast v)))"

definition smear :: "nat \<Rightarrow> 'a::len word \<Rightarrow> 'a word" where
  "smear k v = v OR drop_bit k v"

definition NextPowerOf2_Compile64 :: "u64 \<Rightarrow> u64" where
  "NextPowerOf2_Compile64 val =
     smear 32 (smear 16 (smear 8 (smear 4 (smear 2 (smear 1 val))))) + 1"

definition NextPowerOf2_Compile32 :: "u32 \<Rightarrow> u32" where
  "NextPowerOf2_Compile32 val = smear 16 (smear 8 (smear 4 (smear 2 (smear 1 val)))) + 1"

section \<open>Alignment\<close>

definition Log2Align :: "u64 \<Rightarrow> u64 res" where
  "Log2Align n =
     bindE (ensure (n > 0) (DCheck ''n > 0'')) (\<lambda>_.
     bindE (ensure (IsPowerOf2 n) (DCheck ''IsPowerOf2(n)'')) (\<lambda>_.
     let shift = (ucast (Log2_64 n) :: u8) in
     bindE (ensure (shift < 64) (DCheck ''shift < 64'')) (\<lambda>_.
     Inr (push_bit (unat shift) 1))))"

definition Align :: "'a::len word \<Rightarrow> 'a word \<Rightarrow> 'a word" where
  "Align n to = (n + to - 1) AND NOT (to - 1)"

definition Align_skew :: "'a::len word \<Rightarrow> 'a word \<Rightarrow> 'a word \<Rightarrow> 'a word" where
  "Align_skew n to skew =
     (let skew = skew mod to in ((n + to - 1 - skew) AND NOT (to - 1)) + skew)"

definition IsAligned :: "u64 \<Rightarrow> u64 \<Rightarrow> bool res" where
  "IsAligned lhs byte_size =
     bindE (ensure (lhs \<noteq> 0) DivByZero) (\<lambda>_. Inr (byte_size mod lhs = 0))"

section \<open>Exactness of the checked sizes\<close>

lemma TryAllocationSize_exact:
  "TryAllocationSize c e = (if c * e \<le> MEM_MAX then Some (c * e) else None)"
proof (cases "e = 0")
  case False
  then have "MEM_MAX div e < c \<longleftrightarrow> MEM_MAX < c * e"
    by (simp add: div_less_iff_less_mult)
  with False show ?thesis
    by (auto simp: TryAllocationSize_def MEM_MAX_def)
qed (simp add: TryAllocationSize_def)

lemma CheckedAllocationSize_exact:
  "CheckedAllocationSize c e =
     (if c * e \<le> MEM_MAX then Inr (c * e)
      else Inl (FatalCheck ''allocation size overflows mem_size''))"
  by (simp add: CheckedAllocationSize_def TryAllocationSize_exact)

lemma CheckedCountProduct_exact:
  "CheckedCountProduct c e =
     (if c * e \<le> MEM_MAX then Inr (c * e)
      else Inl (FatalCheck ''allocation size overflows mem_size''))"
  by (simp add: CheckedCountProduct_def CheckedAllocationSize_exact)

lemma CheckedCountSum_exact:
  assumes "b \<le> MEM_MAX"
  shows "CheckedCountSum a b =
     (if a + b \<le> MEM_MAX then Inr (a + b) else Inl (FatalCheck ''element count sum overflows''))"
proof -
  have "a \<le> MEM_MAX - b \<longleftrightarrow> a + b \<le> MEM_MAX" using assms by auto
  then show ?thesis by (auto simp: CheckedCountSum_def ensure_def MEM_MAX_def)
qed

lemmas checked_exact =
  CheckedAllocationSize_exact CheckedCountProduct_exact CheckedCountSum_exact

lemma pow2_le_half: "(2::nat) ^ k \<le> MEM_MAX div 2 \<longleftrightarrow> k < 63"
proof -
  have "MEM_MAX div 2 = 2 ^ 63 - 1" by (simp add: MEM_MAX_def)
  moreover have "(2::nat) ^ k \<le> 2 ^ 63 - 1 \<longleftrightarrow> (2::nat) ^ k < 2 ^ 63" by auto
  moreover have "(2::nat) ^ k < 2 ^ 63 \<longleftrightarrow> k < 63"
    by (rule power_strict_increasing_iff) simp
  ultimately show ?thesis by simp
qed

lemma round_up_loop_finds:
  assumes "k \<le> 63" and "v \<le> 2 ^ 63" and "\<forall>j<k. 2 ^ j < v"
  shows "\<exists>m\<le>63. round_up_loop v (2 ^ k) = Some (Inr (2 ^ m)) \<and> v \<le> 2 ^ m
           \<and> (\<forall>j<m. 2 ^ j < v)"
  using assms
proof (induction "63 - k" arbitrary: k)
  case 0
  then have "k = 63" by simp
  with 0 show ?case
    by (intro exI [of _ 63]) (auto simp: round_up_loop.simps)
next
  case (Suc d)
  show ?case
  proof (cases "2 ^ k < v")
    case True
    from Suc.hyps have k: "k < 63" by simp
    then have "(2::nat) ^ Suc k \<le> 2 ^ 63" by (intro power_increasing) auto
    then have "2 ^ k * 2 mod 2 ^ 64 = (2::nat) ^ Suc k" by simp
    with True k have step: "round_up_loop v (2 ^ k) = round_up_loop v (2 ^ Suc k)"
      by (simp add: round_up_loop.simps [of _ "2 ^ k"] pow2_le_half)
    have "\<forall>j<Suc k. 2 ^ j < v" using True Suc.prems(3) less_Suc_eq by auto
    then show ?thesis unfolding step using k Suc.hyps Suc.prems by (intro Suc.hyps) auto
  next
    case False
    then show ?thesis using Suc.prems
      by (intro exI [of _ k]) (auto simp: round_up_loop.simps [of _ "2 ^ k"])
  qed
qed

lemma round_up_loop_refuses:
  assumes "k \<le> 63" and "2 ^ 63 < v"
  shows "round_up_loop v (2 ^ k) =
     Some (Inl (FatalCheck ''no power of two can hold the requested count''))"
  using assms
proof (induction "63 - k" arbitrary: k)
  case 0
  then show ?case by (simp add: round_up_loop.simps MEM_MAX_def)
next
  case (Suc d)
  then have k: "k < 63" by simp
  then have le: "(2::nat) ^ Suc k \<le> 2 ^ 63" by (intro power_increasing) auto
  then have "2 ^ k * 2 mod 2 ^ 64 = (2::nat) ^ Suc k" by simp
  moreover have "2 ^ k < v" using le Suc.prems(2) by simp
  ultimately have "round_up_loop v (2 ^ k) = round_up_loop v (2 ^ Suc k)"
    using k by (simp add: round_up_loop.simps [of _ "2 ^ k"] pow2_le_half)
  moreover have "round_up_loop v (2 ^ Suc k) =
      Some (Inl (FatalCheck ''no power of two can hold the requested count''))"
    using Suc.hyps(2) k Suc.prems(2) by (intro Suc.hyps) auto
  ultimately show ?case by simp
qed

lemma CheckedRoundUp_finds:
  assumes "v \<le> 2 ^ 63"
  shows "\<exists>m\<le>63. CheckedRoundUpToPowerOfTwo v = Inr (2 ^ m) \<and> v \<le> 2 ^ m
           \<and> (\<forall>j<m. 2 ^ j < v)"
  using round_up_loop_finds [of 0 v] assms by (auto simp: CheckedRoundUpToPowerOfTwo_def)

lemma CheckedRoundUp_refuses:
  "2 ^ 63 < v \<Longrightarrow> CheckedRoundUpToPowerOfTwo v =
     Inl (FatalCheck ''no power of two can hold the requested count'')"
  using round_up_loop_refuses [of 0 v] by (simp add: CheckedRoundUpToPowerOfTwo_def)

section \<open>Minimum and maximum select an element\<close>

lemma Min2_eq_min [simp]: "Min2 a b = min a b"
  by (auto simp: Min2_def min_def)

lemma Max2_eq_max [simp]: "Max2 a b = max a b"
  by (auto simp: Max2_def max_def)

lemma Min_loop_eq: "Min_loop r vs = Min (insert r (set vs))"
proof (induction vs arbitrary: r)
  case (Cons v vs)
  have "(if v < r then v else r) = min r v" by (auto simp: min_def)
  then show ?case
    by (cases "vs = []") (simp_all add: Cons.IH insert_commute min.assoc)
qed simp

lemma Max_loop_eq: "Max_loop r vs = Max (insert r (set vs))"
proof (induction vs arbitrary: r)
  case (Cons v vs)
  have "(if v > r then v else r) = max r v" by (auto simp: max_def)
  then show ?case
    by (cases "vs = []") (simp_all add: Cons.IH insert_commute max.assoc)
qed simp

section \<open>The leading bit\<close>

lemma bit_unat_iff: "bit (w :: 'a::len word) m \<longleftrightarrow> odd (unat w div 2 ^ m)"
proof -
  have "bit (unat w) m \<longleftrightarrow> bit w m" by (simp add: bit_unsigned_iff)
  then show ?thesis by (simp add: bit_iff_odd)
qed

lemma clz_from_top:
  "\<lbrakk> bit w m; m < n; \<forall>j. m < j \<and> j < n \<longrightarrow> \<not> bit w j \<rbrakk> \<Longrightarrow> clz_from w n = n - Suc m"
proof (induction n)
  case (Suc n)
  show ?case
  proof (cases "m = n")
    case True
    with Suc.prems show ?thesis by simp
  next
    case False
    with Suc.prems have "m < n" and "\<not> bit w n" by auto
    with Suc show ?thesis by auto
  qed
qed simp

lemma leading_bit:
  fixes w :: "'a::len word"
  assumes "2 ^ m \<le> unat w" and "unat w < 2 ^ Suc m"
  shows "bit w m" and "m < j \<Longrightarrow> \<not> bit w j" and "m < LENGTH('a)"
proof -
  have "unat w div 2 ^ m = 1"
    using assms by (intro div_nat_eqI) (auto simp: mult.commute)
  then show b: "bit w m" by (simp add: bit_unat_iff)
  from b show "m < LENGTH('a)" by (rule bit_imp_le_length)
  assume "m < j"
  then have "2 ^ Suc m \<le> (2::nat) ^ j" by (intro power_increasing) auto
  with assms(2) have "unat w div 2 ^ j = 0" by simp
  then show "\<not> bit w j" by (simp add: bit_unat_iff)
qed

lemma leading_bit_exists: "(0::nat) < n \<Longrightarrow> \<exists>m. 2 ^ m \<le> n \<and> n < 2 ^ Suc m"
proof (induction n rule: less_induct)
  case (less n)
  show ?case
  proof (cases "n = 1")
    case True
    then show ?thesis by (intro exI [of _ 0]) simp
  next
    case False
    with less.prems have "0 < n div 2" and "n div 2 < n" by auto
    with less.IH obtain m where "2 ^ m \<le> n div 2" and "n div 2 < 2 ^ Suc m" by blast
    then show ?thesis by (intro exI [of _ "Suc m"]) auto
  qed
qed

lemma CountLeadingZeros64_eq:
  "2 ^ m \<le> unat w \<Longrightarrow> unat w < 2 ^ Suc m \<Longrightarrow> CountLeadingZeros64 w = 63 - m"
  using clz_from_top [of w m 64] leading_bit [where w = w and m = m]
  by (auto simp: CountLeadingZeros64_def)

lemma CountLeadingZeros32_eq:
  "2 ^ m \<le> unat w \<Longrightarrow> unat w < 2 ^ Suc m \<Longrightarrow> CountLeadingZeros32 w = 31 - m"
  using clz_from_top [of w m 32] leading_bit [where w = w and m = m]
  by (auto simp: CountLeadingZeros32_def)

lemma word_minus_complement:
  "m \<le> n \<Longrightarrow> n < 2 ^ LENGTH('a) \<Longrightarrow> (of_nat n :: 'a::len word) - of_nat (n - m) = of_nat m"
  by (simp add: of_nat_diff)

lemma Log2_64_eq:
  assumes "2 ^ m \<le> unat w" and "unat w < 2 ^ Suc m"
  shows "Log2_64 w = of_nat m"
proof -
  have "m < 64" using leading_bit(3) [OF assms] by simp
  then have "(63 :: u64) - of_nat (63 - m) = of_nat m"
    using word_minus_complement [of m 63, where 'a = 64] by simp
  then show ?thesis using assms by (simp add: Log2_64_def CountLeadingZeros64_eq)
qed

lemma Log2_32_eq:
  assumes "2 ^ m \<le> unat w" and "unat w < 2 ^ Suc m"
  shows "Log2_32 w = of_nat m"
proof -
  have "m < 32" using leading_bit(3) [OF assms] by simp
  then have "(31 :: u32) - of_nat (31 - m) = of_nat m"
    using word_minus_complement [of m 31, where 'a = 32] by simp
  then show ?thesis using assms by (simp add: Log2_32_def CountLeadingZeros32_eq)
qed

section \<open>Powers of two and alignment\<close>

lemma power_of_2_and_pred: "k < LENGTH('a) \<Longrightarrow> (2 ^ k :: 'a::len word) AND (2 ^ k - 1) = 0"
  unfolding mask_eq_exp_minus_1 [symmetric] by (rule bit_word_eqI) (auto simp: bit_simps)

lemma IsPowerOf2_iff: "IsPowerOf2 (v :: 'a::len word) \<longleftrightarrow> (\<exists>k<LENGTH('a). v = 2 ^ k)"
proof
  assume v: "IsPowerOf2 v"
  then have "0 < unat v" by (simp add: IsPowerOf2_def unat_gt_0)
  then obtain m where m: "2 ^ m \<le> unat v" "unat v < 2 ^ Suc m" using leading_bit_exists by blast
  note top = leading_bit [OF m]
  have "unat v = 2 ^ m"
  proof (rule ccontr)
    assume "unat v \<noteq> 2 ^ m"
    with m have "2 ^ m \<le> unat v - 1" and "unat v - 1 < 2 ^ Suc m" by auto
    moreover have "unat (v - 1) = unat v - 1"
      using v by (simp add: IsPowerOf2_def unat_minus_one)
    ultimately have "bit (v - 1) m" by (metis leading_bit(1))
    with top(1) have "bit (v AND (v - 1)) m" by (simp add: bit_and_iff)
    with v show False by (simp add: IsPowerOf2_def)
  qed
  then have "v = of_nat (2 ^ m)" by (metis of_nat_unat ucast_id)
  with top(3) show "\<exists>k<LENGTH('a). v = 2 ^ k" by auto
next
  assume "\<exists>k<LENGTH('a). v = 2 ^ k"
  then show "IsPowerOf2 v" by (auto simp: IsPowerOf2_def power_of_2_and_pred)
qed

lemma and_not_mask_eq: "(w :: 'a::len word) AND NOT (mask k) = push_bit k (drop_bit k w)"
  by (rule bit_word_eqI) (auto simp: bit_simps)

lemma unat_push_drop: "unat (push_bit k (drop_bit k w)) = unat (w :: 'a::len word) div 2 ^ k * 2 ^ k"
proof -
  have "unat w div 2 ^ k * 2 ^ k \<le> unat w" by simp
  then have "unat w div 2 ^ k * 2 ^ k < 2 ^ LENGTH('a)"
    using unsigned_less [of w] by (rule le_less_trans)
  then show ?thesis
    unfolding unsigned_push_bit_eq unsigned_drop_bit_eq
    by (simp add: push_bit_eq_mult drop_bit_eq_div take_bit_nat_eq_self)
qed

lemma unat_exp2: "k < LENGTH('a) \<Longrightarrow> unat (2 ^ k :: 'a::len word) = 2 ^ k"
  using unat_of_nat [of "2 ^ k", where 'a = 'a] by simp

lemma unat_Align:
  fixes n :: "'a::len word"
  assumes "k < LENGTH('a)" and "unat n + (2 ^ k - 1) < 2 ^ LENGTH('a)"
  shows "unat (Align n (2 ^ k)) = (unat n + (2 ^ k - 1)) div 2 ^ k * 2 ^ k"
proof -
  have "unat (2 ^ k - 1 :: 'a word) = 2 ^ k - 1"
    using assms(1) by (simp add: unat_minus_one unat_exp2)
  then have "unat (n + (2 ^ k - 1)) = unat n + (2 ^ k - 1)"
    using assms(2) by (simp add: unat_word_ariths)
  then show ?thesis
    by (simp add: Align_def flip: mask_eq_exp_minus_1 add: and_not_mask_eq unat_push_drop)
       (simp add: mask_eq_exp_minus_1 algebra_simps)
qed

section \<open>What the power-of-two helpers return\<close>

lemma scast_one_shl: "n < 31 \<Longrightarrow> (scast (2 ^ n :: u32) :: u64) = 2 ^ n"
  by (rule bit_word_eqI) (auto simp: bit_simps)

lemma unat_complement:
  "m \<le> n \<Longrightarrow> n < 2 ^ LENGTH('a) \<Longrightarrow> unat ((of_nat n :: 'a::len word) - of_nat (n - m)) = m"
  by (simp add: word_minus_complement unat_of_nat)

lemma pow2_le_1: "(2::nat) ^ m \<le> 1 \<Longrightarrow> m = 0"
  using one_less_power [of "2::nat" m] by (cases "m = 0") auto

lemma LastPowerOf2_64_eq:
  assumes m: "2 ^ m \<le> unat x" "unat x < 2 ^ Suc m"
  shows "LastPowerOf2_64 x =
     (if m < 31 then Inr (2 ^ m)
      else if m = 31 then Inr 0xFFFFFFFF80000000
      else Inl ShiftOverflow)"
proof (cases "x = 1")
  case True
  with m have "m = 0" by (intro pow2_le_1) simp
  with True show ?thesis by (simp add: LastPowerOf2_64_def)
next
  case False
  have "m < 64" using leading_bit(3) [OF m] by simp
  then have "unat (63 - (of_nat (CountLeadingZeros64 x) :: u64)) = m"
    using unat_complement [of m 63, where 'a = 64] by (simp add: CountLeadingZeros64_eq [OF m])
  moreover have "(scast (2 ^ 31 :: u32) :: u64) = 0xFFFFFFFF80000000" by simp
  ultimately show ?thesis using False
    by (auto simp: LastPowerOf2_64_def int_one_shl_def scast_one_shl)
qed

lemma LastPowerOf2_32_eq:
  assumes m: "2 ^ m \<le> unat x" "unat x < 2 ^ Suc m"
  shows "LastPowerOf2_32 x = Inr (2 ^ m)"
proof (cases "x = 1")
  case True
  with m have "m = 0" by (intro pow2_le_1) simp
  with True show ?thesis by (simp add: LastPowerOf2_32_def)
next
  case False
  have "m < 32" using leading_bit(3) [OF m] by simp
  then have "unat (31 - (of_nat (CountLeadingZeros32 x) :: u32)) = m"
    using unat_complement [of m 31, where 'a = 32] by (simp add: CountLeadingZeros32_eq [OF m])
  then show ?thesis using False \<open>m < 32\<close>
    by (simp add: LastPowerOf2_32_def int_one_shl_def push_bit_eq_mult)
qed

lemma NextPowerOf2_32_eq:
  assumes x: "1 < unat x" and m: "2 ^ m < unat x" "unat x \<le> 2 ^ Suc m"
  shows "NextPowerOf2_32 x = (if m < 31 then Inr (2 ^ Suc m) else Inl ShiftOverflow)"
proof -
  have pred: "unat (x - 1) = unat x - 1" using x by (intro unat_minus_one) auto
  then have b: "2 ^ m \<le> unat (x - 1)" "unat (x - 1) < 2 ^ Suc m" using m by auto
  have "m < 32" using leading_bit(3) [OF b] by simp
  then have "unat ((of_nat 32 :: u32) - of_nat (32 - Suc m)) = Suc m"
    by (intro unat_complement) auto
  then have "unat (32 - (of_nat (CountLeadingZeros32 (x - 1)) :: u32)) = Suc m"
    by (simp add: CountLeadingZeros32_eq [OF b])
  then show ?thesis using x
    by (auto simp: NextPowerOf2_32_def int_one_shl_def push_bit_eq_mult)
qed

end
