(* ===== verification/Storage.thy ===== *)
theory Storage
  imports Checked_Arith
begin

text \<open>
  Object lifetimes in raw storage. The containers obtain untyped blocks from an allocator,
  construct elements in place, move them out, assign to them and destroy them by hand
  (\<open>memory/cxx_lifetime.h\<close>, placement new). A block is a list of cells; a cell is raw
  storage, an object whose value has been moved out, or an object with a value. Each
  primitive checks what C++ leaves undefined: constructing needs raw storage, assigning,
  moving from and destroying need an object, and a block may only be given back with its
  true size and with no object left in it. A component that is shown not to fault therefore
  neither leaks, nor double-destroys, nor touches memory outside its block.
\<close>

section \<open>Cells and blocks\<close>

datatype 'a cell = Raw | Moved | is_Obj: Obj (content: 'a)

type_synonym 'a block = "'a cell list"

definition construct_at :: "nat \<Rightarrow> 'a cell \<Rightarrow> 'a block \<Rightarrow> 'a block res" where
  "construct_at p c b =
     (if p < length b then if b ! p = Raw then Inr (b[p := c]) else Inl Lifetime
      else Inl OutOfBounds)"

definition assign_at :: "nat \<Rightarrow> 'a cell \<Rightarrow> 'a block \<Rightarrow> 'a block res" where
  "assign_at p c b =
     (if p < length b then if b ! p \<noteq> Raw then Inr (b[p := c]) else Inl Lifetime
      else Inl OutOfBounds)"

definition move_from :: "nat \<Rightarrow> 'a block \<Rightarrow> ('a cell \<times> 'a block) res" where
  "move_from p b =
     (if p < length b then if b ! p \<noteq> Raw then Inr (b ! p, b[p := Moved]) else Inl Lifetime
      else Inl OutOfBounds)"

definition read_at :: "nat \<Rightarrow> 'a block \<Rightarrow> 'a res" where
  "read_at p b =
     (if p < length b then (case b ! p of Obj v \<Rightarrow> Inr v | _ \<Rightarrow> Inl Lifetime)
      else Inl OutOfBounds)"

definition destruct :: "nat \<Rightarrow> 'a block \<Rightarrow> 'a block res" where
  "destruct p b =
     (if p < length b then if b ! p \<noteq> Raw then Inr (b[p := Raw]) else Inl Lifetime
      else Inl OutOfBounds)"

fun destruct_n :: "'a block \<Rightarrow> nat \<Rightarrow> nat \<Rightarrow> 'a block res" where
  "destruct_n b first 0 = Inr b"
| "destruct_n b first (Suc n) = bindE (destruct first b) (\<lambda>b. destruct_n b (Suc first) n)"

text \<open>\<open>for (; first != last; ++first)\<close>: with \<open>last\<close> before \<open>first\<close> it runs off the block.\<close>

definition DestructRange :: "'a block \<Rightarrow> nat \<Rightarrow> nat \<Rightarrow> 'a block res" where
  "DestructRange b first lst =
     (if first \<le> lst then destruct_n b first (lst - first) else Inl OutOfBounds)"

section \<open>Allocator and element type\<close>

text \<open>
  What a container template takes as parameters: \<open>sizeof(T)\<close>, the value \<open>T()\<close> constructs,
  and \<open>TAllocator\<close>, of which the code relies only on whether a request of so many bytes
  is granted (a non-null block).
\<close>

record 'a traits =
  elem_size :: nat
  dflt :: 'a
  alloc_ok :: "nat \<Rightarrow> bool"

definition alloc_check :: "'a traits \<Rightarrow> string \<Rightarrow> nat \<Rightarrow> unit res" where
  "alloc_check tr msg n =
     bindE (CheckedAllocationSize n (elem_size tr)) (\<lambda>bytes.
     ensure (alloc_ok tr bytes) (FatalCheck msg))"

definition alloc_block :: "'a traits \<Rightarrow> string \<Rightarrow> nat \<Rightarrow> 'a block res" where
  "alloc_block tr msg n = bindE (alloc_check tr msg n) (\<lambda>_. Inr (replicate n Raw))"

definition free_block :: "'a block option \<Rightarrow> nat \<Rightarrow> unit res" where
  "free_block ob n =
     (case ob of None \<Rightarrow> Inr ()
      | Some b \<Rightarrow> bindE (ensure (length b = n) BadFree) (\<lambda>_.
                  ensure (\<forall>c \<in> set b. c = Raw) Leak))"

text \<open>
  A \<open>const T&\<close> parameter names either an object of the caller or an element of the
  container itself; in the second case its value is whatever the cell holds when it is read.
\<close>

datatype 'a arg = Val 'a | Ref nat

fun read_arg :: "'a arg \<Rightarrow> 'a block \<Rightarrow> 'a res" where
  "read_arg (Val x) b = Inr x"
| "read_arg (Ref i) b = read_at i b"

text \<open>Moving from an rvalue reference leaves the named element moved-from.\<close>

fun take_arg :: "'a arg \<Rightarrow> 'a block \<Rightarrow> ('a cell \<times> 'a block) res" where
  "take_arg (Val x) b = Inr (Obj x, b)"
| "take_arg (Ref i) b = move_from i b"

section \<open>Loops the containers share\<close>

text \<open>Placement new of \<open>n\<close> copies of \<open>v\<close>, of a list of values, and by moving over from
  another block.\<close>

fun construct_fill :: "'a block \<Rightarrow> nat \<Rightarrow> nat \<Rightarrow> 'a \<Rightarrow> 'a block res" where
  "construct_fill b p 0 v = Inr b"
| "construct_fill b p (Suc n) v =
     bindE (construct_at p (Obj v) b) (\<lambda>b. construct_fill b (Suc p) n v)"

fun construct_list :: "'a block \<Rightarrow> nat \<Rightarrow> 'a list \<Rightarrow> 'a block res" where
  "construct_list b p [] = Inr b"
| "construct_list b p (x # xs) =
     bindE (construct_at p (Obj x) b) (\<lambda>b. construct_list b (Suc p) xs)"

fun construct_copies :: "'a block \<Rightarrow> 'a block \<Rightarrow> nat \<Rightarrow> nat \<Rightarrow> 'a block res" where
  "construct_copies src b p 0 = Inr b"
| "construct_copies src b p (Suc n) =
     bindE (read_at p src) (\<lambda>x.
     bindE (construct_at p (Obj x) b) (\<lambda>b. construct_copies src b (Suc p) n))"

fun relocate :: "'a block \<Rightarrow> 'a block \<Rightarrow> nat \<Rightarrow> nat \<Rightarrow> ('a block \<times> 'a block) res" where
  "relocate old new p 0 = Inr (old, new)"
| "relocate old new p (Suc n) =
     bindE (move_from p old) (\<lambda>(c, old).
     bindE (construct_at p c new) (\<lambda>new. relocate old new (Suc p) n))"

fun assign_fill :: "'a block \<Rightarrow> nat \<Rightarrow> nat \<Rightarrow> 'a \<Rightarrow> 'a block res" where
  "assign_fill b p 0 v = Inr b"
| "assign_fill b p (Suc n) v = bindE (assign_at p (Obj v) b) (\<lambda>b. assign_fill b (Suc p) n v)"

text \<open>Move-assignment of \<open>n\<close> cells from \<open>src\<close> down to \<open>dest\<close> within one block.\<close>

fun shift_down :: "'a block \<Rightarrow> nat \<Rightarrow> nat \<Rightarrow> nat \<Rightarrow> 'a block res" where
  "shift_down b dest src 0 = Inr b"
| "shift_down b dest src (Suc n) =
     bindE (move_from src b) (\<lambda>(c, b).
     bindE (assign_at dest c b) (\<lambda>b. shift_down b (Suc dest) (Suc src) n))"

section \<open>Cells at a known position\<close>

named_theorems cell_ops \<open>effect of the cell primitives at the end of a known prefix\<close>

lemma construct_at_pos [cell_ops]:
  "p = length pre \<Longrightarrow> construct_at p c (pre @ Raw # post) = Inr (pre @ c # post)"
  by (simp add: construct_at_def)

lemma assign_at_pos [cell_ops]:
  "p = length pre \<Longrightarrow> Raw \<noteq> x \<Longrightarrow> assign_at p c (pre @ x # post) = Inr (pre @ c # post)"
  by (simp add: assign_at_def)

lemma move_from_pos [cell_ops]:
  "p = length pre \<Longrightarrow> Raw \<noteq> x \<Longrightarrow> move_from p (pre @ x # post) = Inr (x, pre @ Moved # post)"
  by (simp add: move_from_def)

lemma destruct_pos [cell_ops]:
  "p = length pre \<Longrightarrow> Raw \<noteq> x \<Longrightarrow> destruct p (pre @ x # post) = Inr (pre @ Raw # post)"
  by (simp add: destruct_def)

lemma read_at_Obj: "p < length b \<Longrightarrow> b ! p = Obj v \<Longrightarrow> read_at p b = Inr v"
  by (simp add: read_at_def)

lemma read_at_map_Obj: "p < length xs \<Longrightarrow> read_at p (map Obj xs @ post) = Inr (xs ! p)"
  by (simp add: read_at_def nth_append)

lemma alloc_check_eq:
  "alloc_check tr msg n =
     (if n * elem_size tr \<le> MEM_MAX
      then if alloc_ok tr (n * elem_size tr) then Inr () else Inl (FatalCheck msg)
      else Inl (FatalCheck ''allocation size overflows mem_size''))"
  by (simp add: alloc_check_def CheckedAllocationSize_exact ensure_def)

lemma free_block_None [simp]: "free_block None n = Inr ()"
  by (simp add: free_block_def)

lemma free_block_raw [simp]: "free_block (Some (replicate n Raw)) n = Inr ()"
  by (simp add: free_block_def ensure_def)

section \<open>What the loops do\<close>

lemma construct_fill_raw:
  "p = length pre \<Longrightarrow>
     construct_fill (pre @ replicate n Raw @ post) p n v = Inr (pre @ replicate n (Obj v) @ post)"
proof (induction n arbitrary: pre p)
  case (Suc n)
  have "construct_fill ((pre @ [Obj v]) @ replicate n Raw @ post) (Suc p) n v
      = Inr ((pre @ [Obj v]) @ replicate n (Obj v) @ post)"
    using Suc.prems by (intro Suc.IH) simp
  with Suc.prems show ?case by (simp add: cell_ops)
qed simp

lemma construct_list_raw:
  "p = length pre \<Longrightarrow>
     construct_list (pre @ replicate (length xs) Raw @ post) p xs = Inr (pre @ map Obj xs @ post)"
proof (induction xs arbitrary: pre p)
  case (Cons x xs)
  have "construct_list ((pre @ [Obj x]) @ replicate (length xs) Raw @ post) (Suc p) xs
      = Inr ((pre @ [Obj x]) @ map Obj xs @ post)"
    using Cons.prems by (intro Cons.IH) simp
  with Cons.prems show ?case by (simp add: cell_ops)
qed simp

lemma construct_copies_raw:
  "p = length pre \<Longrightarrow> length spre = p \<Longrightarrow>
     construct_copies (spre @ map Obj xs @ spost) (pre @ replicate (length xs) Raw @ post) p (length xs)
       = Inr (pre @ map Obj xs @ post)"
proof (induction xs arbitrary: pre spre p)
  case (Cons x xs)
  have "construct_copies ((spre @ [Obj x]) @ map Obj xs @ spost)
        ((pre @ [Obj x]) @ replicate (length xs) Raw @ post) (Suc p) (length xs)
      = Inr ((pre @ [Obj x]) @ map Obj xs @ post)"
    using Cons.prems by (intro Cons.IH) simp_all
  with Cons.prems show ?case by (simp add: cell_ops read_at_def nth_append)
qed simp

lemma relocate_objs:
  "p = length opre \<Longrightarrow> p = length npre \<Longrightarrow>
     relocate (opre @ map Obj xs @ opost) (npre @ replicate (length xs) Raw @ npost) p (length xs)
       = Inr (opre @ replicate (length xs) Moved @ opost, npre @ map Obj xs @ npost)"
proof (induction xs arbitrary: opre npre p)
  case (Cons x xs)
  have "relocate ((opre @ [Moved]) @ map Obj xs @ opost)
        ((npre @ [Obj x]) @ replicate (length xs) Raw @ npost) (Suc p) (length xs)
      = Inr ((opre @ [Moved]) @ replicate (length xs) Moved @ opost,
             (npre @ [Obj x]) @ map Obj xs @ npost)"
    using Cons.prems by (intro Cons.IH) simp_all
  with Cons.prems show ?case by (simp add: cell_ops)
qed simp

lemma destruct_n_live:
  "p = length pre \<Longrightarrow> n = length ys \<Longrightarrow> Raw \<notin> set ys \<Longrightarrow>
     destruct_n (pre @ ys @ post) p n = Inr (pre @ replicate n Raw @ post)"
proof (induction ys arbitrary: pre p n)
  case (Cons y ys)
  then have "destruct_n ((pre @ [Raw]) @ ys @ post) (Suc p) (length ys)
      = Inr ((pre @ [Raw]) @ replicate (length ys) Raw @ post)"
    by (intro Cons.IH) auto
  with Cons.prems show ?case by (simp add: cell_ops)
qed simp

lemma DestructRange_live:
  "p = length pre \<Longrightarrow> q = p + length ys \<Longrightarrow> Raw \<notin> set ys \<Longrightarrow>
     DestructRange (pre @ ys @ post) p q = Inr (pre @ replicate (length ys) Raw @ post)"
  by (simp add: DestructRange_def destruct_n_live)

lemma assign_fill_live:
  "p = length pre \<Longrightarrow> n = length ys \<Longrightarrow> Raw \<notin> set ys \<Longrightarrow>
     assign_fill (pre @ ys @ post) p n v = Inr (pre @ replicate n (Obj v) @ post)"
proof (induction ys arbitrary: pre p n)
  case (Cons y ys)
  then have "assign_fill ((pre @ [Obj v]) @ ys @ post) (Suc p) (length ys) v
      = Inr ((pre @ [Obj v]) @ replicate (length ys) (Obj v) @ post)"
    by (intro Cons.IH) auto
  with Cons.prems show ?case by (simp add: cell_ops)
qed simp

text \<open>
  Shifting a run of objects down over a gap of live cells leaves the objects at the gap's
  start and the vacated cells moved-from.
\<close>

lemma shift_down_objs:
  assumes "0 < k" and "length gap = k" and "Raw \<notin> set gap" and "p = length pre"
  shows "shift_down (pre @ gap @ map Obj xs @ post) p (p + k) (length xs)
     = Inr (pre @ map Obj xs @ (if length xs \<le> k then drop (length xs) gap @ replicate (length xs) Moved
             else replicate k Moved) @ post)"
  using assms
proof (induction xs arbitrary: pre gap p)
  case (Cons x xs)
  obtain g gs where gap: "gap = g # gs" using Cons.prems(1,2) by (cases gap) auto
  let ?gap = "gs @ [Moved]"
  have step: "shift_down (pre @ gap @ map Obj (x # xs) @ post) p (p + k) (length (x # xs))
      = shift_down ((pre @ [Obj x]) @ ?gap @ map Obj xs @ post) (Suc p) (Suc p + k) (length xs)"
    using Cons.prems move_from_pos [of "p + k" "pre @ gap" "Obj x" "map Obj xs @ post"]
      assign_at_pos [of p pre g "Obj x" "gs @ Moved # map Obj xs @ post"]
    by (simp add: gap)
  have ih: "shift_down ((pre @ [Obj x]) @ ?gap @ map Obj xs @ post) (Suc p) (Suc p + k) (length xs)
      = Inr ((pre @ [Obj x]) @ map Obj xs
          @ (if length xs \<le> k then drop (length xs) ?gap @ replicate (length xs) Moved
             else replicate k Moved) @ post)"
    using Cons.prems by (intro Cons.IH) (auto simp: gap)
  have "(if length xs \<le> k then drop (length xs) ?gap @ replicate (length xs) Moved
             else replicate k Moved) =
        (if length (x # xs) \<le> k then drop (length (x # xs)) gap @ replicate (length (x # xs)) Moved
             else replicate k Moved)"
    using Cons.prems by (auto simp: gap replicate_append_same Cons_replicate_eq)
  with step ih show ?case by simp
qed (auto)

end
