(* ===== verification/Sequence_Spec.thy ===== *)
theory Sequence_Spec
  imports Prelude
begin

text \<open>
  The contract the sequence containers share: what a client may rely on when it appends,
  removes and reads at the back, whatever the container does with its storage. The vector
  and the deque provide it; \<open>queue_end\<close> adds removal at the front, which the deque and
  the queue built on it provide.
\<close>

section \<open>Appending a list through a fallible operation\<close>

fun push_list :: "('s \<Rightarrow> 'a \<Rightarrow> 's res) \<Rightarrow> 's \<Rightarrow> 'a list \<Rightarrow> 's res" where
  "push_list push s [] = Inr s"
| "push_list push s (x # xs) = bindE (push s x) (\<lambda>s. push_list push s xs)"

fun drain :: "('s \<Rightarrow> 'a res) \<Rightarrow> ('s \<Rightarrow> 's res) \<Rightarrow> 's \<Rightarrow> nat \<Rightarrow> ('a list \<times> 's) res" where
  "drain peek pop s 0 = Inr ([], s)"
| "drain peek pop s (Suc n) =
     bindE (peek s) (\<lambda>x. bindE (pop s) (\<lambda>s. bindE (drain peek pop s n) (\<lambda>(xs, s). Inr (x # xs, s))))"

section \<open>Back end: a stack with random access\<close>

locale sequence =
  fixes invar :: "'s \<Rightarrow> bool" and seq :: "'s \<Rightarrow> 'a list" and init :: 's
    and push :: "'s \<Rightarrow> 'a \<Rightarrow> 's res" and pop :: "'s \<Rightarrow> 's res" and peek_back :: "'s \<Rightarrow> 'a res"
    and index :: "'s \<Rightarrow> nat \<Rightarrow> 'a res"
  assumes init_invar: "invar init" and init_seq: "seq init = []"
    and push_seq: "invar s \<Longrightarrow> push s x = Inr s' \<Longrightarrow> invar s' \<and> seq s' = seq s @ [x]"
    and pop_seq: "invar s \<Longrightarrow> seq s \<noteq> [] \<Longrightarrow> \<exists>s'. pop s = Inr s' \<and> invar s' \<and> seq s' = butlast (seq s)"
    and back_seq: "invar s \<Longrightarrow> seq s \<noteq> [] \<Longrightarrow> peek_back s = Inr (last (seq s))"
    and index_seq: "invar s \<Longrightarrow> i < length (seq s) \<Longrightarrow> index s i = Inr (seq s ! i)"
begin

lemma push_list_seq:
  "invar s \<Longrightarrow> push_list push s xs = Inr s' \<Longrightarrow> invar s' \<and> seq s' = seq s @ xs"
proof (induction xs arbitrary: s)
  case (Cons x xs)
  then obtain t where "push s x = Inr t" and "push_list push t xs = Inr s'"
    by (auto simp: bindE_eq_Inr_iff)
  with Cons push_seq [of s x t] show ?case by auto
qed simp

lemma pop_after_push:
  assumes "invar s" and "push s x = Inr s'"
  shows "peek_back s' = Inr x" and "\<exists>t. pop s' = Inr t \<and> invar t \<and> seq t = seq s"
  using push_seq [OF assms] back_seq [of s'] pop_seq [of s'] by auto

lemma drain_back:
  "invar s \<Longrightarrow> n \<le> length (seq s) \<Longrightarrow>
     \<exists>s'. drain peek_back pop s n = Inr (take n (rev (seq s)), s') \<and> invar s'
        \<and> seq s' = take (length (seq s) - n) (seq s)"
proof (induction n arbitrary: s)
  case (Suc n)
  then have ne: "seq s \<noteq> []" by auto
  with Suc.prems pop_seq [of s] obtain t where t: "pop s = Inr t" "invar t" "seq t = butlast (seq s)"
    by auto
  with Suc.prems have "n \<le> length (seq t)" by simp
  with Suc.IH t(2) obtain u where u: "drain peek_back pop t n = Inr (take n (rev (seq t)), u)" "invar u"
      "seq u = take (length (seq t) - n) (seq t)" by blast
  obtain ys y where y: "seq s = ys @ [y]" using ne by (cases "seq s" rule: rev_exhaust) auto
  with t u Suc.prems back_seq [OF Suc.prems(1) ne] show ?case by simp
qed auto

lemma push_then_drain_reverses:
  assumes "push_list push init xs = Inr s"
  shows "\<exists>s'. drain peek_back pop s (length xs) = Inr (rev xs, s') \<and> invar s' \<and> seq s' = []"
  using push_list_seq [OF init_invar assms] drain_back [of s "length xs"] by (auto simp: init_seq)

lemma push_list_index:
  "push_list push init xs = Inr s \<Longrightarrow> i < length xs \<Longrightarrow> index s i = Inr (xs ! i)"
  using push_list_seq [OF init_invar] index_seq by (auto simp: init_seq)

end

section \<open>Front end: a queue\<close>

locale queue_end =
  fixes invar :: "'s \<Rightarrow> bool" and seq :: "'s \<Rightarrow> 'a list" and init :: 's
    and push :: "'s \<Rightarrow> 'a \<Rightarrow> 's res" and pop :: "'s \<Rightarrow> 's res" and front :: "'s \<Rightarrow> 'a res"
  assumes init_invar: "invar init" and init_seq: "seq init = []"
    and push_seq: "invar s \<Longrightarrow> push s x = Inr s' \<Longrightarrow> invar s' \<and> seq s' = seq s @ [x]"
    and pop_seq: "invar s \<Longrightarrow> seq s \<noteq> [] \<Longrightarrow> \<exists>s'. pop s = Inr s' \<and> invar s' \<and> seq s' = tl (seq s)"
    and front_seq: "invar s \<Longrightarrow> seq s \<noteq> [] \<Longrightarrow> front s = Inr (hd (seq s))"
begin

lemma enqueue_seq:
  "invar s \<Longrightarrow> push_list push s xs = Inr s' \<Longrightarrow> invar s' \<and> seq s' = seq s @ xs"
proof (induction xs arbitrary: s)
  case (Cons x xs)
  then obtain t where "push s x = Inr t" and "push_list push t xs = Inr s'"
    by (auto simp: bindE_eq_Inr_iff)
  with Cons push_seq [of s x t] show ?case by auto
qed simp

lemma drain_front:
  "invar s \<Longrightarrow> n \<le> length (seq s) \<Longrightarrow>
     \<exists>s'. drain front pop s n = Inr (take n (seq s), s') \<and> invar s' \<and> seq s' = drop n (seq s)"
proof (induction n arbitrary: s)
  case (Suc n)
  then obtain y ys where y: "seq s = y # ys" by (cases "seq s") auto
  with Suc.prems pop_seq [of s] obtain t where t: "pop s = Inr t" "invar t" "seq t = ys" by auto
  with Suc y have "\<exists>s'. drain front pop t n = Inr (take n ys, s') \<and> invar s' \<and> seq s' = drop n ys"
    by auto
  with t y Suc.prems front_seq [of s] show ?case by auto
qed auto

lemma first_in_first_out:
  assumes "push_list push init xs = Inr s"
  shows "\<exists>s'. drain front pop s (length xs) = Inr (xs, s') \<and> invar s' \<and> seq s' = []"
  using enqueue_seq [OF init_invar assms] drain_front [of s "length xs"] by (auto simp: init_seq)

end

end
