(* ===== verification/Vector.thy ===== *)
theory Vector
  imports Storage Sequence_Spec
begin

text \<open>
  \<open>base::Vector\<close> (\<open>containers/vector.h\<close>): the growable array under most of the library. The
  three pointers \<open>data_\<close>, \<open>end_\<close>, \<open>capacity_\<close> become an optional block (\<open>None\<close> is a null
  \<open>data_\<close>; the block's length is \<open>capacity_ - data_\<close>) and the element count
  \<open>end_ - data_\<close>; a \<open>T*\<close> into the vector is an index from \<open>data_\<close>. Every operation works
  on cells, with the element lifetimes checked, and is then shown to be the list operation
  it stands for.
\<close>

record 'a vec =
  blk :: "'a block option"
  vend :: nat

abbreviation null_vec :: "'a vec" where
  "null_vec \<equiv> \<lparr>blk = None, vend = 0\<rparr>"

datatype VectorReservePolicy = kForPushback | kForData

section \<open>Observers\<close>

definition cells :: "'a vec \<Rightarrow> 'a block" where
  "cells v = (case blk v of None \<Rightarrow> [] | Some b \<Rightarrow> b)"

definition Vector_empty :: "'a vec \<Rightarrow> bool" where
  "Vector_empty v \<longleftrightarrow> blk v = None \<or> vend v = 0"

definition Vector_size :: "'a vec \<Rightarrow> nat" where
  "Vector_size v = vend v"

definition Vector_capacity :: "'a vec \<Rightarrow> nat" where
  "Vector_capacity v = length (cells v)"

section \<open>Private helpers\<close>

definition kDefaultMult :: nat where
  "kDefaultMult = 2"

definition CalculateNewCapacity :: "nat \<Rightarrow> nat res" where
  "CalculateNewCapacity cap = (if cap > 0 then CheckedCountProduct cap kDefaultMult else Inr 1)"

definition Vector_Allocate :: "'a traits \<Rightarrow> nat \<Rightarrow> 'a block res" where
  "Vector_Allocate tr cap = alloc_block tr ''Vector: allocation failed'' cap"

definition Vector_Free :: "'a block option \<Rightarrow> nat \<Rightarrow> unit res" where
  "Vector_Free block n = free_block block n"

text \<open>Moves the elements to a new block, destroys the husks and frees the old block.\<close>

definition move_over :: "'a vec \<Rightarrow> 'a block \<Rightarrow> 'a block res" where
  "move_over v new_block =
     (case blk v of
        None \<Rightarrow> Inr new_block
      | Some old \<Rightarrow>
          bindE (relocate old new_block 0 (vend v)) (\<lambda>(old, new_block).
          bindE (DestructRange old 0 (vend v)) (\<lambda>old.
          bindE (Vector_Free (Some old) (Vector_capacity v)) (\<lambda>_. Inr new_block))))"

definition GrowCapacity :: "'a traits \<Rightarrow> 'a vec \<Rightarrow> nat \<Rightarrow> nat \<Rightarrow> 'a vec res" where
  "GrowCapacity tr v current_size new_cap =
     bindE (Vector_Allocate tr new_cap) (\<lambda>new_block.
     bindE (move_over v new_block) (\<lambda>new_block.
     Inr \<lparr>blk = Some new_block, vend = current_size\<rparr>))"

text \<open>The new element is constructed before the old ones move: it may name one of them.\<close>

definition InsertAtEnd :: "'a traits \<Rightarrow> 'a vec \<Rightarrow> 'a arg \<Rightarrow> 'a vec res" where
  "InsertAtEnd tr v a =
     (let current_size = Vector_size v in
      bindE (CalculateNewCapacity current_size) (\<lambda>new_cap.
      bindE (Vector_Allocate tr new_cap) (\<lambda>new_block.
      bindE (read_arg a (cells v)) (\<lambda>x.
      bindE (construct_at current_size (Obj x) new_block) (\<lambda>new_block.
      bindE (move_over v new_block) (\<lambda>new_block.
      Inr \<lparr>blk = Some new_block, vend = current_size + 1\<rparr>))))))"

fun hole_construct :: "'a block \<Rightarrow> nat \<Rightarrow> nat \<Rightarrow> nat \<Rightarrow> nat \<Rightarrow> 'a block res" where
  "hole_construct b old_end count i 0 = Inr b"
| "hole_construct b old_end count i (Suc n) =
     (let source = old_end - (i + 1); dest = source + count in
      bindE (move_from source b) (\<lambda>(c, b).
      bindE (construct_at dest c b) (\<lambda>b. hole_construct b old_end count (i + 1) n)))"

fun hole_assign :: "'a block \<Rightarrow> nat \<Rightarrow> nat \<Rightarrow> nat \<Rightarrow> nat \<Rightarrow> 'a block res" where
  "hole_assign b old_end count i 0 = Inr b"
| "hole_assign b old_end count i (Suc n) =
     (let source = old_end - (i + 1); dest = source + count in
      bindE (move_from source b) (\<lambda>(c, b).
      bindE (assign_at dest c b) (\<lambda>b. hole_assign b old_end count (i + 1) n)))"

definition MakeHoleForInsert :: "'a vec \<Rightarrow> nat \<Rightarrow> nat \<Rightarrow> 'a block res" where
  "MakeHoleForInsert v pos count =
     (let elements_to_move = vend v - pos in
      if elements_to_move = 0 \<or> count = 0 then Inr (cells v)
      else
        (let num_to_construct = Min2 count elements_to_move in
         bindE (hole_construct (cells v) (vend v) count 0 num_to_construct) (\<lambda>b.
         hole_assign b (vend v) count num_to_construct (elements_to_move - num_to_construct))))"

definition ReleaseAll :: "'a vec \<Rightarrow> 'a vec res" where
  "ReleaseAll v =
     (case blk v of
        None \<Rightarrow> Inr v
      | Some b \<Rightarrow>
          bindE (DestructRange b 0 (vend v)) (\<lambda>b.
          bindE (Vector_Free (Some b) (Vector_capacity v)) (\<lambda>_. Inr null_vec)))"

section \<open>Construction, copy, move, destruction\<close>

definition Vector_init :: "'a vec" where
  "Vector_init = null_vec"

definition Vector_sized :: "'a traits \<Rightarrow> nat \<Rightarrow> 'a vec res" where
  "Vector_sized tr count =
     (if count > 0 then
        bindE (Vector_Allocate tr count) (\<lambda>b.
        bindE (construct_fill b 0 count (dflt tr)) (\<lambda>b.
        Inr \<lparr>blk = Some b, vend = count\<rparr>))
      else Inr null_vec)"

definition Vector_filled :: "'a traits \<Rightarrow> nat \<Rightarrow> 'a \<Rightarrow> 'a vec res" where
  "Vector_filled tr count x =
     (if count > 0 then
        bindE (Vector_Allocate tr count) (\<lambda>b.
        bindE (construct_fill b 0 count x) (\<lambda>b.
        Inr \<lparr>blk = Some b, vend = count\<rparr>))
      else Inr null_vec)"

definition Vector_reserved :: "'a traits \<Rightarrow> nat \<Rightarrow> VectorReservePolicy \<Rightarrow> 'a vec res" where
  "Vector_reserved tr reserve_count policy =
     (if reserve_count > 0 then
        bindE (Vector_Allocate tr reserve_count) (\<lambda>b.
        (case policy of
           kForData \<Rightarrow>
             bindE (construct_fill b 0 reserve_count (dflt tr)) (\<lambda>b.
             Inr \<lparr>blk = Some b, vend = reserve_count\<rparr>)
         | kForPushback \<Rightarrow> Inr \<lparr>blk = Some b, vend = 0\<rparr>))
      else Inr null_vec)"

definition Vector_of_list :: "'a traits \<Rightarrow> 'a list \<Rightarrow> 'a vec res" where
  "Vector_of_list tr xs =
     (let count = length xs in
      if count > 0 then
        bindE (Vector_Allocate tr count) (\<lambda>b.
        bindE (construct_list b 0 xs) (\<lambda>b.
        Inr \<lparr>blk = Some b, vend = count\<rparr>))
      else Inr null_vec)"

definition Vector_copy :: "'a traits \<Rightarrow> 'a vec \<Rightarrow> 'a vec res" where
  "Vector_copy tr other =
     (let count = Vector_size other in
      if count > 0 then
        bindE (Vector_Allocate tr count) (\<lambda>b.
        bindE (construct_copies (cells other) b 0 count) (\<lambda>b.
        Inr \<lparr>blk = Some b, vend = count\<rparr>))
      else Inr null_vec)"

definition destroy_elements :: "'a vec \<Rightarrow> 'a block res" where
  "destroy_elements v = DestructRange (cells v) 0 (vend v)"

definition Vector_destroy :: "'a vec \<Rightarrow> unit res" where
  "Vector_destroy v =
     bindE (destroy_elements v) (\<lambda>b.
     Vector_Free (map_option (\<lambda>_. b) (blk v)) (Vector_capacity v))"

text \<open>Assignment; \<open>same\<close> is the test \<open>this == &other\<close>.\<close>

definition Vector_copy_assign :: "'a traits \<Rightarrow> bool \<Rightarrow> 'a vec \<Rightarrow> 'a vec \<Rightarrow> 'a vec res" where
  "Vector_copy_assign tr same v other =
     (if \<not> same then bindE (Vector_destroy v) (\<lambda>_. Vector_copy tr other) else Inr v)"

definition Vector_move :: "'a vec \<Rightarrow> 'a vec \<times> 'a vec" where
  "Vector_move other = (\<lparr>blk = blk other, vend = vend other\<rparr>, null_vec)"

definition Vector_move_assign :: "bool \<Rightarrow> 'a vec \<Rightarrow> 'a vec \<Rightarrow> ('a vec \<times> 'a vec) res" where
  "Vector_move_assign same v other =
     (if \<not> same then bindE (Vector_destroy v) (\<lambda>_. Inr (Vector_move other)) else Inr (v, other))"

section \<open>Resizing\<close>

definition grow_to :: "'a traits \<Rightarrow> 'a vec \<Rightarrow> nat \<Rightarrow> 'a vec res" where
  "grow_to tr v new_size =
     (if new_size > Vector_capacity v then GrowCapacity tr v (Vector_size v) new_size else Inr v)"

definition resize_fill :: "'a traits \<Rightarrow> 'a vec \<Rightarrow> nat \<Rightarrow> 'a \<Rightarrow> 'a vec res" where
  "resize_fill tr v new_size x =
     (let current_size = Vector_size v; count = new_size - current_size in
      bindE (grow_to tr v new_size) (\<lambda>v.
      bindE (construct_fill (cells v) current_size count x) (\<lambda>b.
      Inr \<lparr>blk = Some b, vend = new_size\<rparr>)))"

definition resize_shrink :: "'a vec \<Rightarrow> nat \<Rightarrow> 'a vec res" where
  "resize_shrink v new_size =
     bindE (DestructRange (cells v) new_size (vend v)) (\<lambda>b.
     Inr \<lparr>blk = Some b, vend = new_size\<rparr>)"

definition Vector_resize_value :: "'a traits \<Rightarrow> 'a vec \<Rightarrow> nat \<Rightarrow> 'a arg \<Rightarrow> 'a vec res" where
  "Vector_resize_value tr v new_size element =
     (if new_size > Vector_size v then
        bindE (read_arg element (cells v)) (\<lambda>x. resize_fill tr v new_size x)
      else if new_size < Vector_size v then resize_shrink v new_size
      else Inr v)"

definition Vector_resize :: "'a traits \<Rightarrow> 'a vec \<Rightarrow> nat \<Rightarrow> 'a vec res" where
  "Vector_resize tr v new_size =
     (if new_size > Vector_size v then resize_fill tr v new_size (dflt tr)
      else if new_size < Vector_size v then resize_shrink v new_size
      else Inr v)"

definition Vector_reserve :: "'a traits \<Rightarrow> 'a vec \<Rightarrow> nat \<Rightarrow> 'a vec res" where
  "Vector_reserve tr v new_reserved_capacity =
     (if new_reserved_capacity = 0 then Inr v
      else if new_reserved_capacity > Vector_capacity v
        then GrowCapacity tr v (Vector_size v) new_reserved_capacity
      else Inr v)"

definition Vector_shrink_to_fit :: "'a traits \<Rightarrow> 'a vec \<Rightarrow> ('a vec \<times> nat) res" where
  "Vector_shrink_to_fit tr v =
     bindE
       (if vend v \<noteq> Vector_capacity v then
          if vend v = 0 then ReleaseAll v
          else
            (let current_size = Vector_size v in
             bindE (Vector_Allocate tr current_size) (\<lambda>new_block.
             bindE (move_over v new_block) (\<lambda>new_block.
             Inr \<lparr>blk = Some new_block, vend = current_size\<rparr>)))
        else Inr v)
       (\<lambda>v. Inr (v, Vector_size v))"

section \<open>Modifiers at the end\<close>

definition Vector_push_back :: "'a traits \<Rightarrow> 'a vec \<Rightarrow> 'a arg \<Rightarrow> 'a vec res" where
  "Vector_push_back tr v a =
     (if vend v < Vector_capacity v then
        bindE (read_arg a (cells v)) (\<lambda>x.
        bindE (construct_at (vend v) (Obj x) (cells v)) (\<lambda>b.
        Inr \<lparr>blk = Some b, vend = vend v + 1\<rparr>))
      else InsertAtEnd tr v a)"

definition Vector_back :: "'a vec \<Rightarrow> 'a res" where
  "Vector_back v =
     bindE (ensure (\<not> Vector_empty v) (DCheck ''!empty()'')) (\<lambda>_. read_at (vend v - 1) (cells v))"

definition Vector_front :: "'a vec \<Rightarrow> 'a res" where
  "Vector_front v =
     bindE (ensure (\<not> Vector_empty v) (DCheck ''Vector is empty.'')) (\<lambda>_. read_at 0 (cells v))"

definition Vector_emplace_back :: "'a traits \<Rightarrow> 'a vec \<Rightarrow> 'a arg \<Rightarrow> ('a vec \<times> 'a) res" where
  "Vector_emplace_back tr v a =
     bindE (if vend v < Vector_capacity v then
              bindE (read_arg a (cells v)) (\<lambda>x.
              bindE (construct_at (vend v) (Obj x) (cells v)) (\<lambda>b.
              Inr \<lparr>blk = Some b, vend = vend v + 1\<rparr>))
            else InsertAtEnd tr v a)
       (\<lambda>v. bindE (Vector_back v) (\<lambda>x. Inr (v, x)))"

definition Vector_pop_back :: "'a vec \<Rightarrow> 'a vec res" where
  "Vector_pop_back v =
     bindE (ensure (\<not> Vector_empty v) (DCheck ''Vector::pop_back: empty vector'')) (\<lambda>_.
     bindE (destruct (vend v - 1) (cells v)) (\<lambda>b.
     Inr \<lparr>blk = Some b, vend = vend v - 1\<rparr>))"

text \<open>The range constructor appends one element at a time.\<close>

fun push_back_all :: "'a traits \<Rightarrow> 'a vec \<Rightarrow> 'a list \<Rightarrow> 'a vec res" where
  "push_back_all tr v [] = Inr v"
| "push_back_all tr v (x # xs) =
     bindE (Vector_push_back tr v (Val x)) (\<lambda>v. push_back_all tr v xs)"

definition Vector_of_range :: "'a traits \<Rightarrow> 'a list \<Rightarrow> 'a vec res" where
  "Vector_of_range tr xs = push_back_all tr null_vec xs"

section \<open>Insertion and removal in the middle\<close>

text \<open>One element by copy; the result is the vector and the position of the new element.\<close>

definition Vector_insert :: "'a traits \<Rightarrow> 'a vec \<Rightarrow> nat \<Rightarrow> 'a arg \<Rightarrow> ('a vec \<times> nat) res" where
  "Vector_insert tr v pos element =
     bindE (ensure (pos \<le> vend v) (DCheck ''Vector::insert: Invalid position'')) (\<lambda>_.
     bindE (read_arg element (cells v)) (\<lambda>x.
     bindE (if Vector_size v = Vector_capacity v then
              bindE (CalculateNewCapacity (Vector_size v)) (\<lambda>new_cap.
              GrowCapacity tr v (Vector_size v) new_cap)
            else Inr v) (\<lambda>v.
     bindE (MakeHoleForInsert v pos 1) (\<lambda>b.
     bindE (if pos < vend v then assign_at pos (Obj x) b else construct_at pos (Obj x) b) (\<lambda>b.
     Inr (\<lparr>blk = Some b, vend = vend v + 1\<rparr>, pos))))))"

text \<open>One element moved in; it may be an element of the vector itself.\<close>

definition Vector_insert_move :: "'a traits \<Rightarrow> 'a vec \<Rightarrow> nat \<Rightarrow> 'a arg \<Rightarrow> ('a vec \<times> nat) res" where
  "Vector_insert_move tr v pos element =
     bindE (ensure (pos \<le> vend v) (DCheck ''Vector::insert: Invalid position'')) (\<lambda>_.
     bindE (take_arg element (cells v)) (\<lambda>(c, b).
     let v = (case blk v of None \<Rightarrow> v | Some _ \<Rightarrow> v\<lparr>blk := Some b\<rparr>) in
     bindE (if Vector_size v = Vector_capacity v then
              bindE (CalculateNewCapacity (Vector_size v)) (\<lambda>new_cap.
              GrowCapacity tr v (Vector_size v) new_cap)
            else Inr v) (\<lambda>v.
     bindE (MakeHoleForInsert v pos 1) (\<lambda>b.
     bindE (if pos < vend v then assign_at pos c b else construct_at pos c b) (\<lambda>b.
     Inr (\<lparr>blk = Some b, vend = vend v + 1\<rparr>, pos))))))"

definition grow_for :: "'a traits \<Rightarrow> 'a vec \<Rightarrow> nat \<Rightarrow> 'a vec res" where
  "grow_for tr v count =
     bindE (CheckedCountSum (Vector_size v) count) (\<lambda>required.
     if required > Vector_capacity v then
       bindE (CalculateNewCapacity required) (\<lambda>new_cap.
       GrowCapacity tr v (Vector_size v) new_cap)
     else Inr v)"

definition Vector_insert_count :: "'a traits \<Rightarrow> 'a vec \<Rightarrow> nat \<Rightarrow> nat \<Rightarrow> 'a arg \<Rightarrow> 'a vec res" where
  "Vector_insert_count tr v pos count element =
     (if count = 0 then Inr v
      else
        bindE (ensure (pos \<le> vend v) (DCheck ''Vector::insert: Invalid position'')) (\<lambda>_.
        bindE (read_arg element (cells v)) (\<lambda>x.
        bindE (grow_for tr v count) (\<lambda>v.
        let elements_after = vend v - pos; num_assign = Min2 count elements_after in
        bindE (MakeHoleForInsert v pos count) (\<lambda>b.
        bindE (assign_fill b pos num_assign x) (\<lambda>b.
        bindE (construct_fill b (pos + num_assign) (count - num_assign) x) (\<lambda>b.
        Inr \<lparr>blk = Some b, vend = vend v + count\<rparr>)))))))"

fun insert_range_loop :: "'a block \<Rightarrow> nat \<Rightarrow> nat \<Rightarrow> nat \<Rightarrow> 'a list \<Rightarrow> 'a block res" where
  "insert_range_loop b dest i num_assign [] = Inr b"
| "insert_range_loop b dest i num_assign (x # xs) =
     bindE (if i < num_assign then assign_at dest (Obj x) b else construct_at dest (Obj x) b) (\<lambda>b.
     insert_range_loop b (dest + 1) (i + 1) num_assign xs)"

definition Vector_insert_range :: "'a traits \<Rightarrow> 'a vec \<Rightarrow> nat \<Rightarrow> 'a list \<Rightarrow> 'a vec res" where
  "Vector_insert_range tr v pos xs =
     (let count = length xs in
      if count = 0 then Inr v
      else
        bindE (ensure (pos \<le> vend v) (DCheck ''Vector::insert: Invalid position'')) (\<lambda>_.
        bindE (grow_for tr v count) (\<lambda>v.
        let elements_after = vend v - pos; num_assign = Min2 count elements_after in
        bindE (MakeHoleForInsert v pos count) (\<lambda>b.
        bindE (insert_range_loop b pos 0 num_assign xs) (\<lambda>b.
        Inr \<lparr>blk = Some b, vend = vend v + count\<rparr>)))))"

definition Vector_erase_at :: "'a vec \<Rightarrow> nat \<Rightarrow> ('a vec \<times> bool) res" where
  "Vector_erase_at v pos =
     (if pos \<ge> Vector_size v then Inr (v, False)
      else
        bindE (shift_down (cells v) pos (pos + 1) (vend v - (pos + 1))) (\<lambda>b.
        bindE (destruct (vend v - 1) b) (\<lambda>b.
        Inr (\<lparr>blk = Some b, vend = vend v - 1\<rparr>, True))))"

text \<open>Erasing through a pointer, given as a signed distance from \<open>data_\<close>.\<close>

definition Vector_erase_ptr :: "'a vec \<Rightarrow> int \<Rightarrow> ('a vec \<times> bool) res" where
  "Vector_erase_ptr v element_ptr =
     (if element_ptr < 0 \<or> element_ptr \<ge> int (vend v) then Inr (v, False)
      else
        (let p = nat element_ptr in
         bindE (shift_down (cells v) p (p + 1) (vend v - (p + 1))) (\<lambda>b.
         bindE (destruct (vend v - 1) b) (\<lambda>b.
         Inr (\<lparr>blk = Some b, vend = vend v - 1\<rparr>, True)))))"

definition Vector_erase_range :: "'a vec \<Rightarrow> nat \<Rightarrow> nat \<Rightarrow> ('a vec \<times> nat) res" where
  "Vector_erase_range v first lst =
     bindE (ensure (first \<le> vend v) (DCheck ''Vector::erase: invalid first'')) (\<lambda>_.
     bindE (ensure (lst \<ge> first \<and> lst \<le> vend v) (DCheck ''Vector::erase: invalid last'')) (\<lambda>_.
     if first = lst then Inr (v, first)
     else
       bindE (shift_down (cells v) first lst (vend v - lst)) (\<lambda>b.
       let dest = first + (vend v - lst) in
       bindE (DestructRange b dest (vend v)) (\<lambda>b.
       Inr (\<lparr>blk = Some b, vend = dest\<rparr>, first)))))"

definition Vector_clear :: "'a vec \<Rightarrow> 'a vec res" where
  "Vector_clear v =
     bindE (destroy_elements v) (\<lambda>b. Inr \<lparr>blk = map_option (\<lambda>_. b) (blk v), vend = 0\<rparr>)"

definition Vector_assign :: "'a traits \<Rightarrow> 'a vec \<Rightarrow> nat \<Rightarrow> 'a arg \<Rightarrow> 'a vec res" where
  "Vector_assign tr v count element =
     bindE (Vector_clear v) (\<lambda>v. Vector_resize_value tr v count element)"

definition Vector_assign_range :: "'a traits \<Rightarrow> 'a vec \<Rightarrow> 'a list \<Rightarrow> 'a vec res" where
  "Vector_assign_range tr v xs = bindE (Vector_clear v) (\<lambda>v. push_back_all tr v xs)"

definition Vector_reset :: "'a vec \<Rightarrow> 'a vec res" where
  "Vector_reset v = bindE (Vector_destroy v) (\<lambda>_. Inr null_vec)"

definition Vector_swap :: "'a vec \<Rightarrow> 'a vec \<Rightarrow> 'a vec \<times> 'a vec" where
  "Vector_swap v other =
     (\<lparr>blk = blk other, vend = vend other\<rparr>, \<lparr>blk = blk v, vend = vend v\<rparr>)"

section \<open>Access, search and comparison\<close>

text \<open>\<open>at\<close> answers \<open>None\<close> for a null pointer; \<open>operator[]\<close> checks its bound.\<close>

definition Vector_at :: "'a vec \<Rightarrow> nat \<Rightarrow> 'a option res" where
  "Vector_at v pos =
     (if pos \<ge> Vector_size v then Inr None
      else bindE (read_at pos (cells v)) (\<lambda>x. Inr (Some x)))"

definition Vector_index :: "'a vec \<Rightarrow> nat \<Rightarrow> 'a res" where
  "Vector_index v pos =
     bindE (ensure (pos < Vector_size v) (DCheck ''Vector::[]: Access out of bounds'')) (\<lambda>_.
     read_at pos (cells v))"

fun find_if_loop :: "('a \<Rightarrow> bool) \<Rightarrow> 'a block \<Rightarrow> nat \<Rightarrow> nat \<Rightarrow> nat option res" where
  "find_if_loop f b p 0 = Inr None"
| "find_if_loop f b p (Suc n) =
     bindE (read_at p b) (\<lambda>x. if f x then Inr (Some p) else find_if_loop f b (p + 1) n)"

definition Vector_find :: "'a vec \<Rightarrow> 'a \<Rightarrow> nat option res" where
  "Vector_find v element_match = find_if_loop (\<lambda>x. x = element_match) (cells v) 0 (vend v)"

definition Vector_Contains :: "'a vec \<Rightarrow> 'a \<Rightarrow> bool res" where
  "Vector_Contains v element_match =
     bindE (Vector_find v element_match) (\<lambda>r. Inr (r \<noteq> None))"

definition Vector_FindIf :: "('a \<Rightarrow> bool) \<Rightarrow> 'a vec \<Rightarrow> nat option res" where
  "Vector_FindIf func v = find_if_loop func (cells v) 0 (vend v)"

fun for_each_loop :: "('s \<Rightarrow> 'a \<Rightarrow> 's) \<Rightarrow> 's \<Rightarrow> 'a block \<Rightarrow> nat \<Rightarrow> nat \<Rightarrow> 's res" where
  "for_each_loop f s b p 0 = Inr s"
| "for_each_loop f s b p (Suc n) =
     bindE (read_at p b) (\<lambda>x. for_each_loop f (f s x) b (p + 1) n)"

definition Vector_ForEach :: "('s \<Rightarrow> 'a \<Rightarrow> 's) \<Rightarrow> 's \<Rightarrow> 'a vec \<Rightarrow> 's res" where
  "Vector_ForEach func s v = for_each_loop func s (cells v) 0 (vend v)"

text \<open>Traversal from \<open>rbegin\<close> to \<open>rend\<close>: the iterator at \<open>at\<close> names the element before it.\<close>

fun reverse_from :: "'a block \<Rightarrow> nat \<Rightarrow> 'a list res" where
  "reverse_from b 0 = Inr []"
| "reverse_from b (Suc at) =
     bindE (read_at at b) (\<lambda>x. bindE (reverse_from b at) (\<lambda>xs. Inr (x # xs)))"

definition Vector_reverse_values :: "'a vec \<Rightarrow> 'a list res" where
  "Vector_reverse_values v = reverse_from (cells v) (vend v)"

fun eq_loop :: "'a block \<Rightarrow> 'a block \<Rightarrow> nat \<Rightarrow> nat \<Rightarrow> bool res" where
  "eq_loop a b i 0 = Inr True"
| "eq_loop a b i (Suc n) =
     bindE (read_at i a) (\<lambda>x. bindE (read_at i b) (\<lambda>y.
     if \<not> x = y then Inr False else eq_loop a b (i + 1) n))"

definition Vector_eq :: "'a vec \<Rightarrow> 'a vec \<Rightarrow> bool res" where
  "Vector_eq v other =
     (if Vector_size v \<noteq> Vector_size other then Inr False
      else eq_loop (cells v) (cells other) 0 (Vector_size v))"

fun less_loop :: "'a::ord block \<Rightarrow> 'a block \<Rightarrow> nat \<Rightarrow> nat \<Rightarrow> bool option res" where
  "less_loop a b i 0 = Inr None"
| "less_loop a b i (Suc n) =
     bindE (read_at i a) (\<lambda>x. bindE (read_at i b) (\<lambda>y.
     if x < y then Inr (Some True)
     else if y < x then Inr (Some False)
     else less_loop a b (i + 1) n))"

definition Vector_less :: "'a::ord vec \<Rightarrow> 'a vec \<Rightarrow> bool res" where
  "Vector_less v other =
     (let n = (if Vector_size v < Vector_size other then Vector_size v else Vector_size other) in
      bindE (less_loop (cells v) (cells other) 0 n) (\<lambda>r.
      Inr (case r of Some decided \<Rightarrow> decided | None \<Rightarrow> Vector_size v < Vector_size other)))"

section \<open>Well-formed vectors and their canonical form\<close>

definition wf_vec :: "'a vec \<Rightarrow> bool" where
  "wf_vec v \<longleftrightarrow>
     (case blk v of
        None \<Rightarrow> vend v = 0
      | Some b \<Rightarrow> b \<noteq> [] \<and> vend v \<le> length b \<and>
          list_all is_Obj (take (vend v) b) \<and> list_all (\<lambda>c. c = Raw) (drop (vend v) b))"

definition elems :: "'a vec \<Rightarrow> 'a list" where
  "elems v = map content (take (vend v) (cells v))"

definition rep :: "'a list \<Rightarrow> nat \<Rightarrow> 'a block" where
  "rep xs cap = map Obj xs @ replicate (cap - length xs) Raw"

definition mkv :: "'a list \<Rightarrow> nat \<Rightarrow> 'a vec" where
  "mkv xs cap = \<lparr>blk = (if cap = 0 then None else Some (rep xs cap)), vend = length xs\<rparr>"

lemma length_rep [simp]: "length xs \<le> cap \<Longrightarrow> length (rep xs cap) = cap"
  by (simp add: rep_def)

lemma cells_mkv [simp]: "length xs \<le> cap \<Longrightarrow> cells (mkv xs cap) = rep xs cap"
  by (auto simp: mkv_def cells_def rep_def)

lemma mkv_simps [simp]:
  "vend (mkv xs cap) = length xs"
  "blk (mkv xs cap) = (if cap = 0 then None else Some (rep xs cap))"
  "Vector_size (mkv xs cap) = length xs"
  by (simp_all add: mkv_def Vector_size_def)

lemma Vector_capacity_mkv [simp]: "length xs \<le> cap \<Longrightarrow> Vector_capacity (mkv xs cap) = cap"
  by (simp add: Vector_capacity_def)

lemma elems_mkv [simp]: "length xs \<le> cap \<Longrightarrow> elems (mkv xs cap) = xs"
  by (simp add: elems_def rep_def comp_def)

lemma wf_mkv [simp]: "length xs \<le> cap \<Longrightarrow> wf_vec (mkv xs cap)"
  by (auto simp: wf_vec_def rep_def list_all_iff)

lemma mkv_null: "null_vec = mkv [] 0"
  by (simp add: mkv_def)

lemma mkv_Some: "0 < cap \<Longrightarrow> b = rep xs cap \<Longrightarrow> n = length xs \<Longrightarrow> \<lparr>blk = Some b, vend = n\<rparr> = mkv xs cap"
  by (simp add: mkv_def)

lemma list_all_is_Obj: "list_all is_Obj b \<Longrightarrow> map Obj (map content b) = b"
  by (induction b) auto

lemma list_all_Raw: "list_all (\<lambda>c. c = Raw) b \<Longrightarrow> b = replicate (length b) Raw"
  by (induction b) auto

lemma wf_vec_canonical:
  assumes "wf_vec v"
  shows "v = mkv (elems v) (Vector_capacity v)" and "length (elems v) \<le> Vector_capacity v"
    and "length (elems v) = Vector_size v"
proof -
  have "vend v \<le> length (cells v)" and n: "length (elems v) = vend v"
    using assms by (auto simp: wf_vec_def elems_def cells_def split: option.splits)
  then show "length (elems v) \<le> Vector_capacity v" by (simp add: Vector_capacity_def)
  show "length (elems v) = Vector_size v" using n by (simp add: Vector_size_def)
  show "v = mkv (elems v) (Vector_capacity v)"
  proof (cases "blk v")
    case None
    with assms show ?thesis
      by (cases v) (simp add: wf_vec_def mkv_def elems_def cells_def Vector_capacity_def)
  next
    case (Some b)
    with assms have b: "b \<noteq> []" "vend v \<le> length b" "list_all is_Obj (take (vend v) b)"
      "list_all (\<lambda>c. c = Raw) (drop (vend v) b)"
      by (auto simp: wf_vec_def)
    have "b = take (vend v) b @ drop (vend v) b" by simp
    also have "\<dots> = map Obj (elems v) @ replicate (length b - vend v) Raw"
      using list_all_is_Obj [OF b(3)] list_all_Raw [OF b(4)]
      by (simp add: elems_def cells_def Some)
    finally have "b = rep (elems v) (length b)" using n by (simp add: rep_def)
    with Some b n show ?thesis
      by (cases v) (simp add: mkv_def Vector_capacity_def cells_def)
  qed
qed

text \<open>A property of every canonical vector holds of every well-formed one.\<close>

lemma wf_vecE:
  assumes "wf_vec v"
  obtains xs cap where "v = mkv xs cap" "length xs \<le> cap" "elems v = xs" "Vector_capacity v = cap"
  using wf_vec_canonical [OF assms] that by blast

section \<open>Growth\<close>

lemma rep_room:
  "length xs < cap \<Longrightarrow> rep xs cap = map Obj xs @ Raw # replicate (cap - Suc (length xs)) Raw"
  by (simp add: rep_def Suc_diff_Suc flip: replicate_Suc)

lemma rep_split:
  "length xs + n \<le> cap \<Longrightarrow> rep xs cap = map Obj xs @ replicate n Raw @ replicate (cap - length xs - n) Raw"
  by (simp add: rep_def flip: replicate_add)

lemma rep_append:
  "map Obj xs @ map Obj ys @ replicate (cap - length xs - length ys) Raw = rep (xs @ ys) cap"
  by (simp add: rep_def)

abbreviation vec_alloc :: "'a traits \<Rightarrow> nat \<Rightarrow> unit res" where
  "vec_alloc tr n \<equiv> alloc_check tr ''Vector: allocation failed'' n"

lemma Vector_Allocate_eq: "Vector_Allocate tr n = bindE (vec_alloc tr n) (\<lambda>_. Inr (replicate n Raw))"
  by (simp add: Vector_Allocate_def alloc_block_def)

lemma rep_take_drop: "rep xs cap = map Obj (take n xs) @ map Obj (drop n xs) @ replicate (cap - length xs) Raw"
  unfolding rep_def append_assoc [symmetric] map_append [symmetric] by simp

lemma DestructRange_rep:
  assumes "n \<le> length xs" and "length xs \<le> cap"
  shows "DestructRange (rep xs cap) n (length xs) = Inr (rep (take n xs) cap)"
proof -
  have "DestructRange (rep xs cap) n (length xs) =
      Inr (map Obj (take n xs) @ replicate (length xs - n) Raw @ replicate (cap - length xs) Raw)"
    unfolding rep_take_drop [of xs cap n] using assms by (subst DestructRange_live) auto
  also have "\<dots> = Inr (rep (take n xs) cap)"
    using assms by (simp add: rep_def flip: replicate_add)
  finally show ?thesis .
qed

lemma rep_Nil [simp]: "rep [] cap = replicate cap Raw"
  by (simp add: rep_def)

lemma move_over_mkv:
  assumes "length xs \<le> cap"
  shows "move_over (mkv xs cap) (replicate (length xs) Raw @ post) = Inr (map Obj xs @ post)"
proof (cases "cap = 0")
  case False
  have "relocate (rep xs cap) (replicate (length xs) Raw @ post) 0 (length xs)
      = Inr (replicate (length xs) Moved @ replicate (cap - length xs) Raw, map Obj xs @ post)"
    using relocate_objs [of 0 "[]" "[]" xs "replicate (cap - length xs) Raw" post]
    by (simp add: rep_def)
  moreover have "DestructRange (replicate (length xs) Moved @ replicate (cap - length xs) Raw) 0 (length xs)
      = Inr (replicate cap (Raw :: 'a cell))"
    using DestructRange_live [of 0 "[]" "length xs" "replicate (length xs) Moved"
        "replicate (cap - length xs) Raw"] assms
    by (simp flip: replicate_add)
  ultimately show ?thesis using assms False
    by (simp add: move_over_def Vector_Free_def)
qed (use assms in \<open>simp add: move_over_def\<close>)

lemma GrowCapacity_mkv:
  assumes "length xs \<le> cap" and "length xs \<le> n" and "0 < n"
  shows "GrowCapacity tr (mkv xs cap) (length xs) n = bindE (vec_alloc tr n) (\<lambda>_. Inr (mkv xs n))"
  using move_over_mkv [OF assms(1), of "replicate (n - length xs) Raw"] assms
  by (cases "vec_alloc tr n")
     (auto simp: GrowCapacity_def Vector_Allocate_eq rep_def simp flip: replicate_add intro!: mkv_Some)

lemma CalculateNewCapacity_grows: "CalculateNewCapacity n = Inr c \<Longrightarrow> n < c"
  by (auto simp: CalculateNewCapacity_def kDefaultMult_def CheckedCountProduct_exact split: if_splits)

lemma CalculateNewCapacity_fits: "n * 2 \<le> MEM_MAX \<Longrightarrow> CalculateNewCapacity n = Inr (if n > 0 then n * 2 else 1)"
  by (simp add: CalculateNewCapacity_def kDefaultMult_def CheckedCountProduct_exact)

lemma InsertAtEnd_mkv:
  assumes "length xs \<le> cap" and "read_arg a (rep xs cap) = Inr x"
  shows "InsertAtEnd tr (mkv xs cap) a =
     bindE (CalculateNewCapacity (length xs)) (\<lambda>n.
     bindE (vec_alloc tr n) (\<lambda>_. Inr (mkv (xs @ [x]) n)))"
proof -
  have "InsertAtEnd tr (mkv xs cap) a = bindE (vec_alloc tr n) (\<lambda>_. Inr (mkv (xs @ [x]) n))"
    if n: "CalculateNewCapacity (length xs) = Inr n" for n
  proof -
    have lt: "length xs < n" using CalculateNewCapacity_grows [OF n] .
    have raw: "replicate n Raw = replicate (length xs) Raw @ Raw # replicate (n - Suc (length xs)) Raw"
      using lt by (simp flip: replicate_Suc replicate_add)
    show ?thesis
      using assms n lt move_over_mkv [OF assms(1), of "Obj x # replicate (n - Suc (length xs)) Raw"]
      by (cases "vec_alloc tr n")
         (auto simp: InsertAtEnd_def Let_def Vector_Allocate_eq raw construct_at_pos rep_def intro!: mkv_Some)
  qed
  then show ?thesis
    by (cases "CalculateNewCapacity (length xs)") (auto simp: InsertAtEnd_def)
qed

section \<open>Opening a hole\<close>

text \<open>
  The block after \<open>i\<close> elements have been moved up by \<open>count\<close>: the gap below them is
  moved-from where it overlaps the old elements and raw beyond.
\<close>

definition hole_state :: "'a block \<Rightarrow> 'a list \<Rightarrow> nat \<Rightarrow> 'a block \<Rightarrow> nat \<Rightarrow> 'a block" where
  "hole_state pre ys count post i =
     pre @ map Obj (take (length ys - i) ys) @ replicate (min i count) Moved
       @ replicate (count - i) Raw @ map Obj (drop (length ys - i) ys) @ post"

lemma hole_state_0: "hole_state pre ys count post 0 = pre @ map Obj ys @ replicate count Raw @ post"
  by (simp add: hole_state_def)

lemma hole_state_all:
  "hole_state pre ys count post (length ys) =
     pre @ replicate (min (length ys) count) Moved @ replicate (count - length ys) Raw
       @ map Obj ys @ post"
  by (simp add: hole_state_def)

lemma take_drop_last:
  assumes "i < length ys"
  shows "take (length ys - i) ys = take (length ys - Suc i) ys @ [ys ! (length ys - Suc i)]"
    and "drop (length ys - Suc i) ys = ys ! (length ys - Suc i) # drop (length ys - i) ys"
  using assms take_Suc_snoc [of "length ys - Suc i" ys] Cons_nth_drop_Suc [of "length ys - Suc i" ys]
  by (simp_all add: Suc_diff_Suc)

lemma hole_construct_step:
  assumes i: "i < length ys" "i < count" and src: "source = length pre + length ys - Suc i"
  shows "bindE (move_from source (hole_state pre ys count post i)) (\<lambda>(c, b). construct_at (source + count) c b)
     = Inr (hole_state pre ys count post (Suc i))"
proof -
  let ?A = "pre @ map Obj (take (length ys - Suc i) ys)" and ?y = "ys ! (length ys - Suc i)"
  let ?D = "map Obj (drop (length ys - i) ys) @ post"
  have raw: "replicate (count - i) Raw = replicate (count - Suc i) Raw @ [Raw]"
    using i by (simp flip: replicate_Suc_end add: Suc_diff_Suc)
  have now: "hole_state pre ys count post i =
      ?A @ Obj ?y # replicate i Moved @ replicate (count - i) Raw @ ?D"
    using i by (simp add: hole_state_def take_drop_last min_def)
  have "construct_at (source + count) (Obj ?y)
        ((?A @ Moved # replicate i Moved @ replicate (count - Suc i) Raw) @ Raw # ?D)
      = Inr ((?A @ Moved # replicate i Moved @ replicate (count - Suc i) Raw) @ Obj ?y # ?D)"
    using i src by (intro construct_at_pos) simp
  moreover have "move_from source (hole_state pre ys count post i) =
      Inr (Obj ?y, ?A @ Moved # replicate i Moved @ replicate (count - i) Raw @ ?D)"
    unfolding now using i src by (intro move_from_pos) simp_all
  ultimately show ?thesis
    using i by (simp add: raw hole_state_def take_drop_last min_def)
qed

lemma hole_assign_step:
  assumes i: "i < length ys" "count \<le> i" and src: "source = length pre + length ys - Suc i"
  shows "bindE (move_from source (hole_state pre ys count post i)) (\<lambda>(c, b). assign_at (source + count) c b)
     = Inr (hole_state pre ys count post (Suc i))"
proof -
  let ?A = "pre @ map Obj (take (length ys - Suc i) ys)" and ?y = "ys ! (length ys - Suc i)"
  let ?D = "map Obj (drop (length ys - i) ys) @ post"
  have now: "hole_state pre ys count post i = ?A @ Obj ?y # replicate count Moved @ ?D"
    using i by (simp add: hole_state_def take_drop_last min_def)
  have "assign_at (source + count) (Obj ?y) ((?A @ replicate count Moved) @ Moved # ?D)
      = Inr ((?A @ replicate count Moved) @ Obj ?y # ?D)"
    using i src by (intro assign_at_pos) simp_all
  moreover have "move_from source (hole_state pre ys count post i) =
      Inr (Obj ?y, ?A @ Moved # replicate count Moved @ ?D)"
    unfolding now using i src by (intro move_from_pos) simp_all
  moreover have "Moved # replicate count Moved @ ?D = replicate count Moved @ Moved # ?D"
    by (simp add: replicate_app_Cons_same)
  ultimately show ?thesis
    using i by (simp add: hole_state_def take_drop_last min_def)
qed

lemma hole_construct_run:
  "i + k \<le> length ys \<Longrightarrow> i + k \<le> count \<Longrightarrow>
     hole_construct (hole_state pre ys count post i) (length pre + length ys) count i k
       = Inr (hole_state pre ys count post (i + k))"
proof (induction k arbitrary: i)
  case (Suc k)
  have "bindE (move_from (length pre + length ys - Suc i) (hole_state pre ys count post i))
      (\<lambda>(c, b). construct_at (length pre + length ys - Suc i + count) c b)
      = Inr (hole_state pre ys count post (Suc i))"
    using Suc.prems by (intro hole_construct_step) auto
  then obtain c b where
    "move_from (length pre + length ys - Suc i) (hole_state pre ys count post i) = Inr (c, b)"
    "construct_at (length pre + length ys - Suc i + count) c b = Inr (hole_state pre ys count post (Suc i))"
    by (auto simp: bindE_eq_Inr_iff)
  with Suc show ?case by simp
qed simp

lemma hole_assign_run:
  "i + k \<le> length ys \<Longrightarrow> count \<le> i \<Longrightarrow>
     hole_assign (hole_state pre ys count post i) (length pre + length ys) count i k
       = Inr (hole_state pre ys count post (i + k))"
proof (induction k arbitrary: i)
  case (Suc k)
  have "bindE (move_from (length pre + length ys - Suc i) (hole_state pre ys count post i))
      (\<lambda>(c, b). assign_at (length pre + length ys - Suc i + count) c b)
      = Inr (hole_state pre ys count post (Suc i))"
    using Suc.prems by (intro hole_assign_step) auto
  then obtain c b where
    "move_from (length pre + length ys - Suc i) (hole_state pre ys count post i) = Inr (c, b)"
    "assign_at (length pre + length ys - Suc i + count) c b = Inr (hole_state pre ys count post (Suc i))"
    by (auto simp: bindE_eq_Inr_iff)
  with Suc show ?case by simp
qed simp

lemma MakeHoleForInsert_mkv:
  assumes "pos \<le> length xs" and "length xs + count \<le> cap"
  shows "MakeHoleForInsert (mkv xs cap) pos count =
     Inr (map Obj (take pos xs)
       @ replicate (min (length xs - pos) count) Moved @ replicate (count - (length xs - pos)) Raw
       @ map Obj (drop pos xs) @ replicate (cap - length xs - count) Raw)"
proof -
  let ?pre = "map Obj (take pos xs)" and ?ys = "drop pos xs"
  let ?post = "replicate (cap - length xs - count) Raw"
  let ?n = "length xs - pos" and ?k = "min count (length xs - pos)"
  have start: "rep xs cap = hole_state ?pre ?ys count ?post 0"
    using assms by (simp add: hole_state_0 rep_take_drop [of xs cap pos] flip: replicate_add)
  have "hole_construct (rep xs cap) (length xs) count 0 ?k = Inr (hole_state ?pre ?ys count ?post ?k)"
    using hole_construct_run [of 0 ?k ?ys count ?pre ?post] assms by (simp add: start)
  moreover have "hole_assign (hole_state ?pre ?ys count ?post ?k) (length xs) count ?k (?n - ?k)
      = Inr (hole_state ?pre ?ys count ?post ?n)"
  proof (cases "count \<le> ?n")
    case True
    then show ?thesis using hole_assign_run [of ?k "?n - ?k" ?ys count ?pre ?post] assms by simp
  qed simp
  ultimately have "?n \<noteq> 0 \<Longrightarrow> count \<noteq> 0 \<Longrightarrow>
      MakeHoleForInsert (mkv xs cap) pos count = Inr (hole_state ?pre ?ys count ?post ?n)"
    using assms by (simp add: MakeHoleForInsert_def Let_def)
  then show ?thesis
    using assms hole_state_all [of ?pre ?ys count ?post] start
    by (cases "?n = 0 \<or> count = 0")
       (auto simp: MakeHoleForInsert_def Let_def hole_state_0)
qed

section \<open>Operations on canonical vectors\<close>

named_theorems vec_ops \<open>result of each vector operation on a canonical vector\<close>

text \<open>Room for one more element: the capacity stays, or is recomputed and allocated.\<close>

definition room_for_one :: "'a traits \<Rightarrow> nat \<Rightarrow> nat \<Rightarrow> nat res" where
  "room_for_one tr n cap =
     (if n < cap then Inr cap
      else bindE (CalculateNewCapacity n) (\<lambda>c. bindE (vec_alloc tr c) (\<lambda>_. Inr c)))"

lemma room_for_one_gt: "room_for_one tr n cap = Inr c \<Longrightarrow> n < c"
  by (auto simp: room_for_one_def bindE_eq_Inr_iff CalculateNewCapacity_grows split: if_splits)

lemma read_arg_rep_Ref: "i < length xs \<Longrightarrow> read_arg (Ref i) (rep xs cap) = Inr (xs ! i)"
  by (simp add: rep_def read_at_map_Obj)

lemma construct_at_rep:
  "length xs < cap \<Longrightarrow> construct_at (length xs) (Obj x) (rep xs cap) = Inr (rep (xs @ [x]) cap)"
  using construct_at_pos [of "length xs" "map Obj xs" "Obj x" "replicate (cap - Suc (length xs)) Raw"]
  by (simp add: rep_room) (simp add: rep_def)

lemma push_back_mkv [vec_ops]:
  assumes "length xs \<le> cap" and "read_arg a (rep xs cap) = Inr x"
  shows "Vector_push_back tr (mkv xs cap) a =
     bindE (room_for_one tr (length xs) cap) (\<lambda>c. Inr (mkv (xs @ [x]) c))"
proof (cases "length xs < cap")
  case True
  with assms show ?thesis
    by (auto simp: Vector_push_back_def room_for_one_def construct_at_rep intro!: mkv_Some)
next
  case False
  with assms show ?thesis
    by (simp add: Vector_push_back_def room_for_one_def InsertAtEnd_mkv bindE_assoc)
qed

lemma back_mkv [vec_ops]:
  "xs \<noteq> [] \<Longrightarrow> length xs \<le> cap \<Longrightarrow> Vector_back (mkv xs cap) = Inr (last xs)"
  by (cases cap) (auto simp: Vector_back_def Vector_empty_def rep_def read_at_map_Obj last_conv_nth)

lemma front_mkv [vec_ops]:
  "xs \<noteq> [] \<Longrightarrow> length xs \<le> cap \<Longrightarrow> Vector_front (mkv xs cap) = Inr (hd xs)"
  by (cases cap) (auto simp: Vector_front_def Vector_empty_def rep_def read_at_map_Obj hd_conv_nth)

lemma empty_back_front [vec_ops]:
  "Vector_back (mkv [] cap) = Inl (DCheck ''!empty()'')"
  "Vector_front (mkv [] cap) = Inl (DCheck ''Vector is empty.'')"
  by (simp_all add: Vector_back_def Vector_front_def Vector_empty_def)

lemma emplace_back_eq:
  "Vector_emplace_back tr v a =
     bindE (Vector_push_back tr v a) (\<lambda>v. bindE (Vector_back v) (\<lambda>x. Inr (v, x)))"
  by (simp add: Vector_emplace_back_def Vector_push_back_def)

lemma pop_back_mkv [vec_ops]:
  assumes "xs \<noteq> []" and "length xs \<le> cap"
  shows "Vector_pop_back (mkv xs cap) = Inr (mkv (butlast xs) cap)"
proof -
  obtain ys y where xs: "xs = ys @ [y]" using assms(1) by (cases xs rule: rev_exhaust) auto
  have "destruct (length ys) (rep xs cap) = Inr (rep ys cap)"
    using assms destruct_pos [of "length ys" "map Obj ys" "Obj y" "replicate (cap - length xs) Raw"]
    by (simp add: xs rep_def Suc_diff_Suc flip: replicate_Suc)
  with assms show ?thesis
    by (auto simp: Vector_pop_back_def Vector_empty_def xs intro!: mkv_Some)
qed

lemma pop_back_empty [vec_ops]:
  "Vector_pop_back (mkv [] cap) = Inl (DCheck ''Vector::pop_back: empty vector'')"
  by (simp add: Vector_pop_back_def Vector_empty_def)

lemma insert_mkv [vec_ops]:
  assumes "length xs \<le> cap" and "pos \<le> length xs" and "read_arg a (rep xs cap) = Inr x"
  shows "Vector_insert tr (mkv xs cap) pos a =
     bindE (room_for_one tr (length xs) cap) (\<lambda>c. Inr (mkv (take pos xs @ x # drop pos xs) c, pos))"
proof -
  have hole: "bindE (MakeHoleForInsert (mkv xs c) pos 1) (\<lambda>b.
      bindE (if pos < length xs then assign_at pos (Obj x) b else construct_at pos (Obj x) b) (\<lambda>b.
      Inr (\<lparr>blk = Some b, vend = length xs + 1\<rparr>, pos)))
    = Inr (mkv (take pos xs @ x # drop pos xs) c, pos)" if c: "length xs < c" for c
  proof (cases "pos < length xs")
    case True
    then have "assign_at pos (Obj x) (map Obj (take pos xs) @ Moved # map Obj (drop pos xs) @ p)
        = Inr (map Obj (take pos xs) @ Obj x # map Obj (drop pos xs) @ p)" for p
      by (intro assign_at_pos) auto
    moreover have "min (length xs - pos) 1 = Suc 0" "1 - (length xs - pos) = 0" using True by auto
    ultimately show ?thesis using True c
      by (auto simp: MakeHoleForInsert_mkv rep_def intro!: mkv_Some)
  next
    case False
    with assms have "pos = length xs" by simp
    with c show ?thesis
      by (auto simp: MakeHoleForInsert_mkv construct_at_pos rep_def intro!: mkv_Some)
  qed
  show ?thesis
  proof (cases "length xs < cap")
    case True
    with assms hole show ?thesis by (simp add: Vector_insert_def room_for_one_def)
  next
    case False
    with assms(1) have cap: "cap = length xs" by simp
    show ?thesis
    proof (cases "CalculateNewCapacity (length xs)")
      case (Inr c)
      then have "length xs < c" by (rule CalculateNewCapacity_grows)
      with Inr assms hole show ?thesis
        by (cases "vec_alloc tr c") (auto simp: Vector_insert_def room_for_one_def cap GrowCapacity_mkv)
    qed (use assms cap in \<open>simp add: Vector_insert_def room_for_one_def\<close>)
  qed
qed

text \<open>Room for \<open>count\<close> more elements.\<close>

definition room_for :: "'a traits \<Rightarrow> nat \<Rightarrow> nat \<Rightarrow> nat \<Rightarrow> nat res" where
  "room_for tr n count cap =
     bindE (CheckedCountSum n count) (\<lambda>required.
     if required > cap
     then bindE (CalculateNewCapacity required) (\<lambda>c. bindE (vec_alloc tr c) (\<lambda>_. Inr c))
     else Inr cap)"

lemma grow_for_mkv:
  assumes "length xs \<le> cap" and "count \<le> MEM_MAX"
  shows "grow_for tr (mkv xs cap) count = bindE (room_for tr (length xs) count cap) (\<lambda>c. Inr (mkv xs c))"
proof (cases "length xs + count \<le> MEM_MAX \<and> length xs + count > cap")
  case True
  show ?thesis
  proof (cases "CalculateNewCapacity (length xs + count)")
    case (Inr c)
    then have "length xs < c" using CalculateNewCapacity_grows [OF Inr] by simp
    with Inr True assms show ?thesis
      by (cases "vec_alloc tr c")
         (auto simp: grow_for_def room_for_def CheckedCountSum_exact GrowCapacity_mkv)
  qed (use True assms in \<open>simp add: grow_for_def room_for_def CheckedCountSum_exact\<close>)
next
  case False
  with assms show ?thesis
    by (auto simp: grow_for_def room_for_def CheckedCountSum_exact)
qed

lemma room_for_ge:
  assumes "room_for tr n count cap = Inr c" and "count \<le> MEM_MAX"
  shows "n + count \<le> c"
  using assms
  by (auto simp: room_for_def CheckedCountSum_exact bindE_eq_Inr_iff dest!: CalculateNewCapacity_grows
      split: if_splits)

lemma fill_hole:
  assumes "k \<le> count"
  shows "bindE (assign_fill (pre @ replicate k Moved @ replicate (count - k) Raw @ post) (length pre) k x) (\<lambda>b.
      construct_fill b (length pre + k) (count - k) x)
    = Inr (pre @ replicate count (Obj x) @ post)"
proof -
  have "construct_fill ((pre @ replicate k (Obj x)) @ replicate (count - k) Raw @ post) (length pre + k)
      (count - k) x = Inr ((pre @ replicate k (Obj x)) @ replicate (count - k) (Obj x) @ post)"
    by (intro construct_fill_raw) simp
  moreover have "replicate k (Obj x) @ replicate (count - k) (Obj x) @ post = replicate count (Obj x) @ post"
    using assms by (simp flip: append_assoc replicate_add)
  ultimately show ?thesis
    by (simp add: assign_fill_live)
qed

lemma insert_count_mkv [vec_ops]:
  assumes "length xs \<le> cap" and "pos \<le> length xs" and "read_arg a (rep xs cap) = Inr x"
    and "0 < count" and "count \<le> MEM_MAX"
  shows "Vector_insert_count tr (mkv xs cap) pos count a =
     bindE (room_for tr (length xs) count cap) (\<lambda>c. Inr (mkv (take pos xs @ replicate count x @ drop pos xs) c))"
proof (cases "room_for tr (length xs) count cap")
  case (Inr c)
  let ?k = "min count (length xs - pos)"
  let ?post = "map Obj (drop pos xs) @ replicate (c - length xs - count) Raw"
  have c: "length xs + count \<le> c" using room_for_ge [OF Inr assms(5)] .
  have hole: "MakeHoleForInsert (mkv xs c) pos count =
      Inr (map Obj (take pos xs) @ replicate ?k Moved @ replicate (count - ?k) Raw @ ?post)"
    using MakeHoleForInsert_mkv [OF assms(2) c] by (auto simp: min_def)
  have "bindE (assign_fill (map Obj (take pos xs) @ replicate ?k Moved @ replicate (count - ?k) Raw @ ?post) pos ?k x)
      (\<lambda>b. construct_fill b (pos + ?k) (count - ?k) x)
      = Inr (map Obj (take pos xs) @ replicate count (Obj x) @ ?post)"
    using fill_hole [of ?k count "map Obj (take pos xs)" ?post x] assms(2) by simp
  then obtain b where b: "assign_fill (map Obj (take pos xs) @ replicate ?k Moved @ replicate (count - ?k) Raw @ ?post) pos ?k x = Inr b"
      "construct_fill b (pos + ?k) (count - ?k) x = Inr (map Obj (take pos xs) @ replicate count (Obj x) @ ?post)"
    by (auto simp: bindE_eq_Inr_iff)
  show ?thesis using assms Inr hole b c
    by (auto simp: Vector_insert_count_def grow_for_mkv Let_def rep_def intro!: mkv_Some)
qed (use assms in \<open>simp add: Vector_insert_count_def grow_for_mkv\<close>)

lemma insert_range_loop_assigns:
  "i + length xs \<le> num \<Longrightarrow> p = length pre \<Longrightarrow> length gap = length xs \<Longrightarrow> Raw \<notin> set gap \<Longrightarrow>
   insert_range_loop (pre @ gap @ post) p i num (xs @ ys) =
     insert_range_loop (pre @ map Obj xs @ post) (p + length xs) (i + length xs) num ys"
proof (induction xs arbitrary: i p pre gap)
  case (Cons x xs)
  then obtain g gs where gap: "gap = g # gs" by (cases gap) auto
  have "insert_range_loop ((pre @ [Obj x]) @ gs @ post) (p + 1) (i + 1) num (xs @ ys) =
      insert_range_loop ((pre @ [Obj x]) @ map Obj xs @ post) (p + 1 + length xs) (i + 1 + length xs) num ys"
    using Cons.prems gap by (intro Cons.IH) auto
  moreover have "assign_at p (Obj x) (pre @ g # gs @ post) = Inr (pre @ Obj x # gs @ post)"
    using Cons.prems gap by (intro assign_at_pos) auto
  ultimately show ?case using Cons.prems by (simp add: gap)
qed simp

lemma insert_range_loop_constructs:
  "num \<le> i \<Longrightarrow> p = length pre \<Longrightarrow>
   insert_range_loop (pre @ replicate (length xs) Raw @ post) p i num xs = Inr (pre @ map Obj xs @ post)"
proof (induction xs arbitrary: i p pre)
  case (Cons x xs)
  have "insert_range_loop ((pre @ [Obj x]) @ replicate (length xs) Raw @ post) (p + 1) (i + 1) num xs =
      Inr ((pre @ [Obj x]) @ map Obj xs @ post)"
    using Cons.prems by (intro Cons.IH) auto
  with Cons.prems show ?case by (simp add: construct_at_pos)
qed simp

lemma insert_range_loop_fills:
  assumes "k \<le> length xs" and "p = length pre"
  shows "insert_range_loop (pre @ replicate k Moved @ replicate (length xs - k) Raw @ post) p 0 k xs
     = Inr (pre @ map Obj xs @ post)"
proof -
  have "insert_range_loop (pre @ replicate k Moved @ replicate (length xs - k) Raw @ post) p 0 k
        (take k xs @ drop k xs) =
      insert_range_loop (pre @ map Obj (take k xs) @ replicate (length xs - k) Raw @ post)
        (p + length (take k xs)) (0 + length (take k xs)) k (drop k xs)"
    using assms by (intro insert_range_loop_assigns) auto
  also have "\<dots> = Inr ((pre @ map Obj (take k xs)) @ map Obj (drop k xs) @ post)"
    using assms insert_range_loop_constructs [of k k "p + k" "pre @ map Obj (take k xs)" "drop k xs" post]
    by simp
  also have "\<dots> = Inr (pre @ map Obj xs @ post)"
    by (simp flip: append_assoc) (simp only: append_assoc flip: map_append, simp)
  finally show ?thesis by simp
qed

lemma insert_range_mkv [vec_ops]:
  assumes "length xs \<le> cap" and "pos \<le> length xs" and "ys \<noteq> []" and "length ys \<le> MEM_MAX"
  shows "Vector_insert_range tr (mkv xs cap) pos ys =
     bindE (room_for tr (length xs) (length ys) cap) (\<lambda>c. Inr (mkv (take pos xs @ ys @ drop pos xs) c))"
proof (cases "room_for tr (length xs) (length ys) cap")
  case (Inr c)
  let ?k = "min (length ys) (length xs - pos)"
  let ?post = "map Obj (drop pos xs) @ replicate (c - length xs - length ys) Raw"
  have c: "length xs + length ys \<le> c" using room_for_ge [OF Inr assms(4)] .
  have hole: "MakeHoleForInsert (mkv xs c) pos (length ys) =
      Inr (map Obj (take pos xs) @ replicate ?k Moved @ replicate (length ys - ?k) Raw @ ?post)"
    using MakeHoleForInsert_mkv [OF assms(2) c] by (auto simp: min_def)
  have "insert_range_loop (map Obj (take pos xs) @ replicate ?k Moved @ replicate (length ys - ?k) Raw @ ?post) pos 0 ?k ys
      = Inr (map Obj (take pos xs) @ map Obj ys @ ?post)"
    using assms(2) by (intro insert_range_loop_fills) auto
  with assms Inr hole c show ?thesis
    by (cases ys) (auto simp: Vector_insert_range_def grow_for_mkv Let_def rep_def intro!: mkv_Some)
qed (use assms in \<open>simp add: Vector_insert_range_def grow_for_mkv\<close>)

lemma shift_rep:
  assumes "p < q" and "q \<le> length xs" and "length xs \<le> cap"
  shows "\<exists>rest. shift_down (rep xs cap) p q (length xs - q) =
       Inr (map Obj (take p xs) @ map Obj (drop q xs) @ rest @ replicate (cap - length xs) Raw)
     \<and> length rest = q - p \<and> Raw \<notin> set rest"
proof -
  let ?gap = "map Obj (take (q - p) (drop p xs))" and ?ys = "drop q xs"
  have "drop p xs = take (q - p) (drop p xs) @ drop q xs"
    using assms append_take_drop_id [of "q - p" "drop p xs"] by (simp add: drop_drop)
  then have "rep xs cap = map Obj (take p xs) @ ?gap @ map Obj ?ys @ replicate (cap - length xs) Raw"
    unfolding rep_take_drop [of xs cap p] by (metis append_assoc map_append)
  moreover have "shift_down (map Obj (take p xs) @ ?gap @ map Obj ?ys @ replicate (cap - length xs) Raw)
        p (p + (q - p)) (length ?ys)
      = Inr (map Obj (take p xs) @ map Obj ?ys
          @ (if length ?ys \<le> q - p then drop (length ?ys) ?gap @ replicate (length ?ys) Moved
             else replicate (q - p) Moved) @ replicate (cap - length xs) Raw)"
    using assms by (intro shift_down_objs) auto
  ultimately show ?thesis using assms
    by (auto dest: in_set_dropD)
qed

lemma erase_at_mkv [vec_ops]:
  assumes "length xs \<le> cap" and "pos < length xs"
  shows "Vector_erase_at (mkv xs cap) pos = Inr (mkv (take pos xs @ drop (Suc pos) xs) cap, True)"
proof -
  obtain r where r: "shift_down (rep xs cap) pos (Suc pos) (length xs - Suc pos) =
       Inr (map Obj (take pos xs) @ map Obj (drop (Suc pos) xs) @ [r] @ replicate (cap - length xs) Raw)"
      "Raw \<noteq> r"
    using shift_rep [of pos "Suc pos" xs cap] assms by (auto simp: length_Suc_conv)
  have "destruct (length xs - 1)
      ((map Obj (take pos xs) @ map Obj (drop (Suc pos) xs)) @ r # replicate (cap - length xs) Raw)
      = Inr ((map Obj (take pos xs) @ map Obj (drop (Suc pos) xs)) @ Raw # replicate (cap - length xs) Raw)"
    using assms r by (intro destruct_pos) auto
  moreover have "cap - (length xs - Suc 0) = Suc (cap - length xs)" using assms by simp
  ultimately show ?thesis using assms r
    by (auto simp: Vector_erase_at_def rep_def intro!: mkv_Some)
qed

lemma erase_at_out [vec_ops]: "length xs \<le> pos \<Longrightarrow> Vector_erase_at (mkv xs cap) pos = Inr (mkv xs cap, False)"
  by (simp add: Vector_erase_at_def)

lemma erase_ptr_eq:
  "Vector_erase_ptr v p = (if p < 0 then Inr (v, False) else Vector_erase_at v (nat p))"
  by (auto simp: Vector_erase_ptr_def Vector_erase_at_def Vector_size_def Let_def)

lemma erase_range_mkv [vec_ops]:
  assumes "length xs \<le> cap" and "p \<le> q" and "q \<le> length xs"
  shows "Vector_erase_range (mkv xs cap) p q = Inr (mkv (take p xs @ drop q xs) cap, p)"
proof (cases "p = q")
  case False
  with assms have "p < q" by simp
  then obtain rest where r: "shift_down (rep xs cap) p q (length xs - q) =
       Inr ((map Obj (take p xs) @ map Obj (drop q xs)) @ rest @ replicate (cap - length xs) Raw)"
     "length rest = q - p" "Raw \<notin> set rest"
    using shift_rep [of p q xs cap] assms by auto
  have "DestructRange ((map Obj (take p xs) @ map Obj (drop q xs)) @ rest @ replicate (cap - length xs) Raw)
        (p + (length xs - q)) (length xs)
      = Inr ((map Obj (take p xs) @ map Obj (drop q xs)) @ replicate (length rest) Raw @ replicate (cap - length xs) Raw)"
    using assms r \<open>p < q\<close> by (intro DestructRange_live) auto
  moreover have "q - p + (cap - length xs) = cap - (p + (length xs - q))" using assms \<open>p < q\<close> by simp
  ultimately show ?thesis using assms r False
    by (auto simp: Vector_erase_range_def Let_def rep_def simp flip: replicate_add intro!: mkv_Some)
qed (use assms in \<open>simp add: Vector_erase_range_def\<close>)

lemma destroy_mkv [vec_ops]:
  assumes "length xs \<le> cap"
  shows "destroy_elements (mkv xs cap) = Inr (replicate cap Raw)"
    and "Vector_destroy (mkv xs cap) = Inr ()"
    and "Vector_clear (mkv xs cap) = Inr (mkv [] cap)"
    and "Vector_reset (mkv xs cap) = Inr (mkv [] 0)"
proof -
  show d: "destroy_elements (mkv xs cap) = Inr (replicate cap Raw)"
    using assms DestructRange_rep [of 0 xs cap] by (simp add: destroy_elements_def)
  show v: "Vector_destroy (mkv xs cap) = Inr ()"
    using assms d by (simp add: Vector_destroy_def Vector_Free_def)
  show "Vector_clear (mkv xs cap) = Inr (mkv [] cap)"
    using d by (simp add: Vector_clear_def mkv_def)
  show "Vector_reset (mkv xs cap) = Inr (mkv [] 0)"
    using v by (simp add: Vector_reset_def mkv_null)
qed

lemma fill_new_block:
  "construct_fill (replicate n Raw) 0 n x = Inr (rep (replicate n x) n)"
  using construct_fill_raw [of 0 "[]" n "[]" x] by (simp add: rep_def)

lemma Vector_init_eq [vec_ops]: "Vector_init = mkv [] 0"
  by (simp add: Vector_init_def mkv_null)

lemma filled_block:
  "0 < n \<Longrightarrow> bindE (Vector_Allocate tr n) (\<lambda>b. bindE (construct_fill b 0 n x) (\<lambda>b. Inr \<lparr>blk = Some b, vend = n\<rparr>))
     = bindE (vec_alloc tr n) (\<lambda>_. Inr (mkv (replicate n x) n))"
  by (cases "vec_alloc tr n") (simp_all add: Vector_Allocate_eq fill_new_block mkv_def)

lemma constructors_eq [vec_ops]:
  assumes "0 < n"
  shows "Vector_sized tr n = bindE (vec_alloc tr n) (\<lambda>_. Inr (mkv (replicate n (dflt tr)) n))"
    and "Vector_filled tr n x = bindE (vec_alloc tr n) (\<lambda>_. Inr (mkv (replicate n x) n))"
    and "Vector_reserved tr n kForData = bindE (vec_alloc tr n) (\<lambda>_. Inr (mkv (replicate n (dflt tr)) n))"
    and "Vector_reserved tr n kForPushback = bindE (vec_alloc tr n) (\<lambda>_. Inr (mkv [] n))"
  using assms
  by (simp_all add: Vector_sized_def Vector_filled_def Vector_reserved_def filled_block)
     (simp add: Vector_Allocate_eq bindE_assoc mkv_def)

lemma Vector_of_list_eq [vec_ops]:
  "xs \<noteq> [] \<Longrightarrow> Vector_of_list tr xs = bindE (vec_alloc tr (length xs)) (\<lambda>_. Inr (mkv xs (length xs)))"
  using construct_list_raw [of 0 "[]" xs "[]"]
  by (cases "vec_alloc tr (length xs)")
     (auto simp: Vector_of_list_def Let_def Vector_Allocate_eq rep_def intro!: mkv_Some)

lemma copy_mkv [vec_ops]:
  assumes "length xs \<le> cap"
  shows "Vector_copy tr (mkv xs cap) =
     (if xs = [] then Inr (mkv [] 0) else bindE (vec_alloc tr (length xs)) (\<lambda>_. Inr (mkv xs (length xs))))"
  using construct_copies_raw [of 0 "[]" "[]" xs "replicate (cap - length xs) Raw" "[]"] assms
  by (cases "vec_alloc tr (length xs)")
     (auto simp: Vector_copy_def Let_def Vector_Allocate_eq rep_def mkv_null intro!: mkv_Some)

lemma copy_assign_mkv [vec_ops]:
  assumes "length xs \<le> cap" and "length ys \<le> cap'"
  shows "Vector_copy_assign tr False (mkv xs cap) (mkv ys cap') =
     (if ys = [] then Inr (mkv [] 0) else bindE (vec_alloc tr (length ys)) (\<lambda>_. Inr (mkv ys (length ys))))"
    and "Vector_copy_assign tr True v v = Inr v"
  using assms by (simp_all add: Vector_copy_assign_def vec_ops)

lemma move_mkv [vec_ops]:
  "Vector_move (mkv xs cap) = (mkv xs cap, mkv [] 0)"
  "Vector_swap (mkv xs cap) (mkv ys cap') = (mkv ys cap', mkv xs cap)"
  by (simp_all add: Vector_move_def Vector_swap_def mkv_def)

lemma move_assign_mkv [vec_ops]:
  "length xs \<le> cap \<Longrightarrow> Vector_move_assign False (mkv xs cap) (mkv ys cap') = Inr (mkv ys cap', mkv [] 0)"
  by (simp add: Vector_move_assign_def vec_ops)

text \<open>Capacity of at least \<open>n\<close>, exactly \<open>n\<close> when it has to grow.\<close>

definition room_to :: "'a traits \<Rightarrow> nat \<Rightarrow> nat \<Rightarrow> nat res" where
  "room_to tr n cap = (if n > cap then bindE (vec_alloc tr n) (\<lambda>_. Inr n) else Inr cap)"

lemma room_to_ge: "room_to tr n cap = Inr c \<Longrightarrow> n \<le> c"
  by (auto simp: room_to_def bindE_eq_Inr_iff split: if_splits)

lemma reserve_mkv [vec_ops]:
  "length xs \<le> cap \<Longrightarrow> Vector_reserve tr (mkv xs cap) n = bindE (room_to tr n cap) (\<lambda>c. Inr (mkv xs c))"
  by (auto simp: Vector_reserve_def room_to_def GrowCapacity_mkv bindE_assoc)

lemma resize_fill_mkv:
  assumes "length xs \<le> cap" and "length xs < n"
  shows "resize_fill tr (mkv xs cap) n x =
     bindE (room_to tr n cap) (\<lambda>c. Inr (mkv (xs @ replicate (n - length xs) x) c))"
proof -
  have fill: "bindE (construct_fill (cells (mkv xs c)) (length xs) (n - length xs) x)
      (\<lambda>b. Inr \<lparr>blk = Some b, vend = n\<rparr>) = Inr (mkv (xs @ replicate (n - length xs) x) c)"
    if "n \<le> c" for c
    using construct_fill_raw [of "length xs" "map Obj xs" "n - length xs" "replicate (c - n) Raw" x]
      rep_split [of xs "n - length xs" c] assms that
    by (auto simp: rep_def intro!: mkv_Some)
  have "grow_to tr (mkv xs cap) n = bindE (room_to tr n cap) (\<lambda>c. Inr (mkv xs c))"
    using assms by (auto simp: grow_to_def room_to_def GrowCapacity_mkv bindE_assoc)
  then show ?thesis
    by (cases "room_to tr n cap") (auto simp: resize_fill_def fill [OF room_to_ge])
qed

lemma resize_shrink_mkv:
  "length xs \<le> cap \<Longrightarrow> n < length xs \<Longrightarrow> resize_shrink (mkv xs cap) n = Inr (mkv (take n xs) cap)"
  by (auto simp: resize_shrink_def DestructRange_rep intro!: mkv_Some)

lemma resize_value_mkv [vec_ops]:
  assumes "length xs \<le> cap" and "read_arg a (rep xs cap) = Inr x"
  shows "Vector_resize_value tr (mkv xs cap) n a =
     (if n > length xs then bindE (room_to tr n cap) (\<lambda>c. Inr (mkv (xs @ replicate (n - length xs) x) c))
      else Inr (mkv (take n xs) cap))"
  using assms by (auto simp: Vector_resize_value_def resize_fill_mkv resize_shrink_mkv)

lemma resize_mkv [vec_ops]:
  assumes "length xs \<le> cap"
  shows "Vector_resize tr (mkv xs cap) n =
     (if n > length xs then bindE (room_to tr n cap) (\<lambda>c. Inr (mkv (xs @ replicate (n - length xs) (dflt tr)) c))
      else Inr (mkv (take n xs) cap))"
  using assms by (auto simp: Vector_resize_def resize_fill_mkv resize_shrink_mkv)

lemma shrink_to_fit_mkv [vec_ops]:
  fixes xs :: "'a list"
  assumes "length xs \<le> cap"
  shows "Vector_shrink_to_fit tr (mkv xs cap) =
     (if length xs = cap then Inr (mkv xs cap, length xs)
      else if xs = [] then Inr (mkv [] 0, 0)
      else bindE (vec_alloc tr (length xs)) (\<lambda>_. Inr (mkv xs (length xs), length xs)))"
proof -
  have "move_over (mkv xs cap) (replicate (length xs) Raw) = Inr (map Obj xs)"
    using move_over_mkv [OF assms, of "[]"] by simp
  moreover have "xs \<noteq> [] \<Longrightarrow> \<lparr>blk = Some (map Obj xs), vend = length xs\<rparr> = mkv xs (length xs)"
    by (rule mkv_Some) (auto simp: rep_def)
  moreover have "ReleaseAll (mkv ([] :: 'a list) cap) = Inr (mkv [] 0)"
    by (auto simp: ReleaseAll_def DestructRange_def Vector_Free_def mkv_def Vector_capacity_def cells_def)
  ultimately show ?thesis using assms
    by (cases "vec_alloc tr (length xs)")
       (auto simp: Vector_shrink_to_fit_def Vector_Allocate_eq)
qed

lemma push_back_all_ok:
  "length xs \<le> cap \<Longrightarrow> push_back_all tr (mkv xs cap) ys = Inr v \<Longrightarrow>
     \<exists>c. v = mkv (xs @ ys) c \<and> length (xs @ ys) \<le> c"
proof (induction ys arbitrary: xs cap)
  case (Cons y ys)
  then obtain c where c: "room_for_one tr (length xs) cap = Inr c"
      "push_back_all tr (mkv (xs @ [y]) c) ys = Inr v"
    by (auto simp: push_back_mkv bindE_eq_Inr_iff)
  with Cons.IH [of "xs @ [y]" c] room_for_one_gt [OF c(1)] show ?case by simp
qed auto

lemma assign_mkv [vec_ops]:
  "length xs \<le> cap \<Longrightarrow> Vector_assign tr (mkv xs cap) n (Val x) =
     bindE (if n > 0 then room_to tr n cap else Inr cap) (\<lambda>c. Inr (mkv (replicate n x) c))"
  by (simp add: Vector_assign_def vec_ops)

lemma assign_own_element:
  "length xs \<le> cap \<Longrightarrow> i < length xs \<Longrightarrow> 0 < n \<Longrightarrow>
     Vector_assign tr (mkv xs cap) n (Ref i) = Inl Lifetime"
  by (simp add: Vector_assign_def vec_ops Vector_resize_value_def read_at_def)

section \<open>Searching and comparing\<close>

lemma read_rep [simp]: "p < length xs \<Longrightarrow> read_at p (rep xs cap) = Inr (xs ! p)"
  by (simp add: rep_def read_at_map_Obj)

lemma index_mkv [vec_ops]:
  assumes "length xs \<le> cap"
  shows "Vector_at (mkv xs cap) i = Inr (if i < length xs then Some (xs ! i) else None)"
    and "Vector_index (mkv xs cap) i =
      (if i < length xs then Inr (xs ! i) else Inl (DCheck ''Vector::[]: Access out of bounds''))"
  using assms by (auto simp: Vector_at_def Vector_index_def)

lemma find_if_loop_rep:
  "p + n = length xs \<Longrightarrow> find_if_loop f (rep xs cap) p n =
     Inr (map_option (\<lambda>i. p + i) (List.find (\<lambda>i. f (xs ! (p + i))) [0..<n]))"
proof (induction n arbitrary: p)
  case (Suc n)
  have "[0..<Suc n] = 0 # map Suc [0..<n]" by (simp add: map_Suc_upt upt_conv_Cons)
  moreover have "List.find P (map Suc ks) = map_option Suc (List.find (\<lambda>i. P (Suc i)) ks)" for P ks
    by (induction ks) auto
  ultimately show ?case using Suc.prems Suc.IH [of "p + 1"]
    by (auto simp: option.map_comp comp_def)
qed simp

lemma FindIf_mkv [vec_ops]:
  assumes "length xs \<le> cap"
  shows "Vector_FindIf f (mkv xs cap) = Inr (List.find (\<lambda>i. f (xs ! i)) [0..<length xs])"
    and "Vector_find (mkv xs cap) x = Inr (List.find (\<lambda>i. xs ! i = x) [0..<length xs])"
  using assms find_if_loop_rep [of 0 "length xs" xs _ cap]
  by (simp_all add: Vector_FindIf_def Vector_find_def option.map_ident)

lemma Contains_mkv [vec_ops]: "length xs \<le> cap \<Longrightarrow> Vector_Contains (mkv xs cap) x = Inr (x \<in> set xs)"
  by (auto simp: Vector_Contains_def FindIf_mkv find_None_iff find_Some_iff in_set_conv_nth
      simp del: not_None_eq)

lemma for_each_loop_rep:
  "p + n = length xs \<Longrightarrow> for_each_loop f s (rep xs cap) p n = Inr (foldl f s (drop p xs))"
  by (induction n arbitrary: p s) (auto simp: Cons_nth_drop_Suc [symmetric])

lemma ForEach_mkv [vec_ops]: "length xs \<le> cap \<Longrightarrow> Vector_ForEach f s (mkv xs cap) = Inr (foldl f s xs)"
  by (simp add: Vector_ForEach_def for_each_loop_rep)

lemma reverse_from_rep: "n \<le> length xs \<Longrightarrow> reverse_from (rep xs cap) n = Inr (rev (take n xs))"
  by (induction n) (auto simp: take_Suc_snoc)

lemma reverse_values_mkv [vec_ops]:
  "length xs \<le> cap \<Longrightarrow> Vector_reverse_values (mkv xs cap) = Inr (rev xs)"
  by (simp add: Vector_reverse_values_def reverse_from_rep)

lemma eq_loop_rep:
  "p + n = length xs \<Longrightarrow> length xs = length ys \<Longrightarrow>
     eq_loop (rep xs cap) (rep ys cap') p n = Inr (drop p xs = drop p ys)"
  by (induction n arbitrary: p) (auto simp: Cons_nth_drop_Suc [symmetric])

lemma eq_mkv [vec_ops]:
  "length xs \<le> cap \<Longrightarrow> length ys \<le> cap' \<Longrightarrow> Vector_eq (mkv xs cap) (mkv ys cap') = Inr (xs = ys)"
  by (auto simp: Vector_eq_def eq_loop_rep)

text \<open>The lexicographic order of \<open>operator<\<close>, on lists.\<close>

fun lex_less :: "'a::ord list \<Rightarrow> 'a list \<Rightarrow> bool" where
  "lex_less [] ys = (ys \<noteq> [])"
| "lex_less (x # xs) [] = False"
| "lex_less (x # xs) (y # ys) = (if x < y then True else if y < x then False else lex_less xs ys)"

lemma less_loop_rep:
  "p + n = min (length xs) (length ys) \<Longrightarrow>
     bindE (less_loop (rep xs cap) (rep ys cap') p n)
       (\<lambda>r. Inr (case r of Some d \<Rightarrow> d | None \<Rightarrow> length xs < length ys))
     = Inr (lex_less (drop p xs) (drop p ys))"
proof (induction n arbitrary: p)
  case 0
  show ?case
  proof (cases "length xs \<le> length ys")
    case True
    with 0 show ?thesis by (auto simp: min_def)
  next
    case False
    with 0 have "drop p ys = []" and "drop p xs \<noteq> []" by auto
    with False show ?thesis by (cases "drop p xs") auto
  qed
next
  case (Suc n)
  then have "p < length xs" "p < length ys" by auto
  then show ?case using Suc.prems Suc.IH [of "p + 1"]
    by (auto simp: Cons_nth_drop_Suc [symmetric])
qed

lemma less_mkv [vec_ops]:
  "length xs \<le> cap \<Longrightarrow> length ys \<le> cap' \<Longrightarrow> Vector_less (mkv xs cap) (mkv ys cap') = Inr (lex_less xs ys)"
  using less_loop_rep [of 0 "min (length xs) (length ys)" xs ys cap cap']
  unfolding Vector_less_def mkv_simps
  by (cases "length xs < length ys") (simp_all add: Let_def min_absorb1 min_absorb2)

lemma insert_refuses [vec_ops]:
  assumes "length xs < p"
  shows "Vector_insert tr (mkv xs cap) p a = Inl (DCheck ''Vector::insert: Invalid position'')"
    and "0 < n \<Longrightarrow> Vector_insert_count tr (mkv xs cap) p n a = Inl (DCheck ''Vector::insert: Invalid position'')"
    and "ys \<noteq> [] \<Longrightarrow> Vector_insert_range tr (mkv xs cap) p ys = Inl (DCheck ''Vector::insert: Invalid position'')"
  using assms by (simp_all add: Vector_insert_def Vector_insert_count_def Vector_insert_range_def)

lemma insert_nothing [vec_ops]:
  "Vector_insert_count tr v p 0 a = Inr v" "Vector_insert_range tr v p [] = Inr v"
  by (simp_all add: Vector_insert_count_def Vector_insert_range_def)

lemma insert_move_value [vec_ops]:
  "Vector_insert_move tr v pos (Val x) = Vector_insert tr v pos (Val x)"
proof -
  have "(case blk v of None \<Rightarrow> v | Some _ \<Rightarrow> v\<lparr>blk := Some (cells v)\<rparr>) = v"
    by (cases v) (auto simp: cells_def split: option.split)
  then show ?thesis by (simp add: Vector_insert_move_def Vector_insert_def)
qed

section \<open>The vector as a sequence\<close>

interpretation vec_seq: sequence wf_vec elems Vector_init "\<lambda>v x. Vector_push_back tr v (Val x)"
  Vector_pop_back Vector_back Vector_index for tr
proof unfold_locales
  show "wf_vec Vector_init" and "elems Vector_init = []" by (simp_all add: vec_ops)
next
  fix v :: "'a vec" and x v'
  assume "wf_vec v" and r: "Vector_push_back tr v (Val x) = Inr v'"
  then obtain xs cap where v: "v = mkv xs cap" "length xs \<le> cap" "elems v = xs" by (elim wf_vecE)
  with r obtain c where "room_for_one tr (length xs) cap = Inr c" "v' = mkv (xs @ [x]) c"
    by (auto simp: push_back_mkv bindE_eq_Inr_iff)
  with v show "wf_vec v' \<and> elems v' = elems v @ [x]" by (auto dest!: room_for_one_gt)
next
  fix v :: "'a vec"
  assume "wf_vec v" and "elems v \<noteq> []"
  then show "\<exists>v'. Vector_pop_back v = Inr v' \<and> wf_vec v' \<and> elems v' = butlast (elems v)"
    by (elim wf_vecE) (simp add: vec_ops)
next
  fix v :: "'a vec"
  assume "wf_vec v" and "elems v \<noteq> []"
  then show "Vector_back v = Inr (last (elems v))" by (elim wf_vecE) (simp add: vec_ops)
next
  fix v :: "'a vec" and i
  assume "wf_vec v" and "i < length (elems v)"
  then show "Vector_index v i = Inr (elems v ! i)" by (elim wf_vecE) (simp add: vec_ops)
qed

section \<open>Sequences of operations\<close>

text \<open>
  The calls a client can make, with references into the vector (\<open>PushOwn\<close>, \<open>InsertOwn\<close>)
  where the code takes care of them, and what each means for the list of elements.
\<close>

datatype 'a vec_op =
    PushBack 'a | PushOwn nat | PopBack
  | InsertOne nat 'a | InsertOwn nat nat | InsertMany nat nat 'a | InsertRange nat "'a list"
  | EraseAt nat | EraseRange nat nat
  | Resize nat | ResizeValue nat 'a | Reserve nat | ShrinkToFit
  | Clear | AssignMany nat 'a | Reset

fun vec_step :: "'a traits \<Rightarrow> 'a vec_op \<Rightarrow> 'a vec \<Rightarrow> 'a vec res" where
  "vec_step tr (PushBack x) v = Vector_push_back tr v (Val x)"
| "vec_step tr (PushOwn i) v = Vector_push_back tr v (Ref i)"
| "vec_step tr PopBack v = Vector_pop_back v"
| "vec_step tr (InsertOne p x) v = bindE (Vector_insert tr v p (Val x)) (\<lambda>(v, _). Inr v)"
| "vec_step tr (InsertOwn p i) v = bindE (Vector_insert tr v p (Ref i)) (\<lambda>(v, _). Inr v)"
| "vec_step tr (InsertMany p n x) v = Vector_insert_count tr v p n (Val x)"
| "vec_step tr (InsertRange p xs) v = Vector_insert_range tr v p xs"
| "vec_step tr (EraseAt p) v = bindE (Vector_erase_at v p) (\<lambda>(v, _). Inr v)"
| "vec_step tr (EraseRange p q) v = bindE (Vector_erase_range v p q) (\<lambda>(v, _). Inr v)"
| "vec_step tr (Resize n) v = Vector_resize tr v n"
| "vec_step tr (ResizeValue n x) v = Vector_resize_value tr v n (Val x)"
| "vec_step tr (Reserve n) v = Vector_reserve tr v n"
| "vec_step tr ShrinkToFit v = bindE (Vector_shrink_to_fit tr v) (\<lambda>(v, _). Inr v)"
| "vec_step tr Clear v = Vector_clear v"
| "vec_step tr (AssignMany n x) v = Vector_assign tr v n (Val x)"
| "vec_step tr Reset v = Vector_reset v"

fun list_step :: "'a traits \<Rightarrow> 'a vec_op \<Rightarrow> 'a list \<Rightarrow> 'a list" where
  "list_step tr (PushBack x) xs = xs @ [x]"
| "list_step tr (PushOwn i) xs = xs @ [xs ! i]"
| "list_step tr PopBack xs = butlast xs"
| "list_step tr (InsertOne p x) xs = take p xs @ x # drop p xs"
| "list_step tr (InsertOwn p i) xs = take p xs @ xs ! i # drop p xs"
| "list_step tr (InsertMany p n x) xs = take p xs @ replicate n x @ drop p xs"
| "list_step tr (InsertRange p ys) xs = take p xs @ ys @ drop p xs"
| "list_step tr (EraseAt p) xs = take p xs @ drop (Suc p) xs"
| "list_step tr (EraseRange p q) xs = take p xs @ drop q xs"
| "list_step tr (Resize n) xs = take n xs @ replicate (n - length xs) (dflt tr)"
| "list_step tr (ResizeValue n x) xs = take n xs @ replicate (n - length xs) x"
| "list_step tr (Reserve n) xs = xs"
| "list_step tr ShrinkToFit xs = xs"
| "list_step tr Clear xs = []"
| "list_step tr (AssignMany n x) xs = replicate n x"
| "list_step tr Reset xs = []"

text \<open>What the caller owes: references that name an element, counts that fit \<open>mem_size\<close>.\<close>

fun op_pre :: "'a vec_op \<Rightarrow> nat \<Rightarrow> bool" where
  "op_pre (PushOwn i) n = (i < n)"
| "op_pre (InsertOwn p i) n = (i < n)"
| "op_pre (InsertMany p k x) n = (k \<le> MEM_MAX)"
| "op_pre (InsertRange p ys) n = (length ys \<le> MEM_MAX)"
| "op_pre _ n = True"

fun vec_run :: "'a traits \<Rightarrow> 'a vec_op list \<Rightarrow> 'a vec \<Rightarrow> 'a vec res" where
  "vec_run tr [] v = Inr v"
| "vec_run tr (op # ops) v = bindE (vec_step tr op v) (\<lambda>v. vec_run tr ops v)"

fun list_run :: "'a traits \<Rightarrow> 'a vec_op list \<Rightarrow> 'a list \<Rightarrow> 'a list" where
  "list_run tr [] xs = xs"
| "list_run tr (op # ops) xs = list_run tr ops (list_step tr op xs)"

fun run_pre :: "'a traits \<Rightarrow> 'a vec_op list \<Rightarrow> 'a list \<Rightarrow> bool" where
  "run_pre tr [] xs = True"
| "run_pre tr (op # ops) xs = (op_pre op (length xs) \<and> run_pre tr ops (list_step tr op xs))"

lemma vec_alloc_outcome: "outcome (\<lambda>_. True) (vec_alloc tr n)"
  by (simp add: alloc_check_eq)

lemma CalculateNewCapacity_outcome: "outcome (\<lambda>c. n < c) (CalculateNewCapacity n)"
  by (simp add: CalculateNewCapacity_def kDefaultMult_def CheckedCountProduct_exact)

lemma room_outcomes:
  "outcome (\<lambda>c. n < c) (room_for_one tr n cap)"
  "outcome (\<lambda>c. n \<le> c \<and> cap \<le> c) (room_to tr n cap)"
  by (auto simp: room_for_one_def room_to_def
      intro!: outcome_bindE [OF CalculateNewCapacity_outcome] outcome_bindE [OF vec_alloc_outcome])

lemma room_for_outcome: "k \<le> MEM_MAX \<Longrightarrow> outcome (\<lambda>c. n + k \<le> c) (room_for tr n k cap)"
  by (auto simp: room_for_def CheckedCountSum_exact
      intro!: outcome_bindE [OF CalculateNewCapacity_outcome] outcome_bindE [OF vec_alloc_outcome])

lemma vec_step_outcome:
  assumes "wf_vec v" and "op_pre op (Vector_size v)"
  shows "outcome (\<lambda>v'. wf_vec v' \<and> elems v' = list_step tr op (elems v)) (vec_step tr op v)"
proof -
  obtain xs cap where v: "v = mkv xs cap" "length xs \<le> cap" "elems v = xs"
    using assms(1) by (elim wf_vecE)
  note room = room_outcomes [THEN outcome_bindE] room_for_outcome [THEN outcome_bindE]
  show ?thesis
  proof (cases op)
    case (InsertOne p x)
    with v show ?thesis
      by (cases "p \<le> length xs")
         (auto simp: vec_ops bindE_assoc intro!: room)
  next
    case (InsertOwn p i)
    with v assms(2) show ?thesis
      by (cases "p \<le> length xs")
         (auto simp: insert_mkv [where x = "xs ! i"] insert_refuses read_arg_rep_Ref bindE_assoc simp del: read_arg.simps intro!: room)
  next
    case (InsertMany p n x)
    with v assms(2) show ?thesis
      by (cases "p \<le> length xs"; cases "n = 0")
         (auto simp: vec_ops intro!: room)
  next
    case (InsertRange p ys)
    with v assms(2) show ?thesis
      by (cases "p \<le> length xs"; cases "ys = []")
         (auto simp: vec_ops intro!: room)
  next
    case (EraseAt p)
    with v show ?thesis by (cases "p < length xs") (auto simp: vec_ops)
  next
    case (EraseRange p q)
    with v show ?thesis
      by (cases "p \<le> q \<and> q \<le> length xs") (auto simp: vec_ops, auto simp: Vector_erase_range_def ensure_def)
  next
    case PopBack
    with v show ?thesis by (cases "xs = []") (auto simp: vec_ops)
  next
    case (PushOwn i)
    with v assms(2) show ?thesis
      by (auto simp: push_back_mkv [where x = "xs ! i"] read_arg_rep_Ref simp del: read_arg.simps intro!: room)
  next
    case ShrinkToFit
    with v show ?thesis
      by (auto simp: vec_ops bindE_assoc intro!: outcome_bindE [OF vec_alloc_outcome])
  next
    case (AssignMany n x)
    with v show ?thesis by (cases "n = 0") (auto simp: vec_ops intro!: room)
  qed (use v in \<open>auto simp: vec_ops intro!: room\<close>)
qed

lemma vec_run_outcome:
  "wf_vec v \<Longrightarrow> run_pre tr ops (elems v) \<Longrightarrow>
     outcome (\<lambda>v'. wf_vec v' \<and> elems v' = list_run tr ops (elems v)) (vec_run tr ops v)"
proof (induction ops arbitrary: v)
  case (Cons op ops)
  have "length (elems v) = Vector_size v" using wf_vec_canonical(3) [OF Cons.prems(1)] .
  with Cons.prems have "op_pre op (Vector_size v)" by simp
  note step = vec_step_outcome [OF Cons.prems(1) this, of tr]
  show ?case unfolding vec_run.simps
  proof (rule outcome_bindE [OF step])
    fix u assume "wf_vec u \<and> elems u = list_step tr op (elems v)"
    with Cons.IH [of u] Cons.prems(2)
    show "outcome (\<lambda>v'. wf_vec v' \<and> elems v' = list_run tr (op # ops) (elems v)) (vec_run tr ops u)"
      by simp
  qed
qed simp

lemma destroy_wf: "wf_vec v \<Longrightarrow> Vector_destroy v = Inr ()"
  by (elim wf_vecE) (simp add: vec_ops)

section \<open>Properties\<close>

text \<open>
  (C1) Any sequence of vector operations started from the empty vector either stops at a
  check of the code (overflow, allocation failure, bad position) or yields a well-formed
  vector whose elements are those the same operations give on lists, and destroying it
  then neither leaks nor double-destroys: no operation reads, assigns, constructs over or
  destroys a cell outside its lifetime, or touches memory outside the block.
\<close>

theorem vector_run_refines:
  assumes "run_pre tr ops []"
  shows "outcome (\<lambda>v. wf_vec v \<and> elems v = list_run tr ops [] \<and> Vector_destroy v = Inr ())
     (vec_run tr ops Vector_init)"
proof -
  have "outcome (\<lambda>v. wf_vec v \<and> elems v = list_run tr ops []) (vec_run tr ops Vector_init)"
    using vec_run_outcome [of Vector_init tr ops] assms by (simp add: vec_ops)
  then show ?thesis by (cases "vec_run tr ops Vector_init") (auto simp: destroy_wf)
qed

abbreviation demo_traits :: "nat traits" where
  "demo_traits \<equiv> \<lparr>elem_size = 8, dflt = 0, alloc_ok = (\<lambda>bytes. bytes \<le> 4096)\<rparr>"

abbreviation demo_ops :: "nat vec_op list" where
  "demo_ops \<equiv> [PushBack 1, PushBack 2, PushOwn 0, InsertMany 1 3 7, InsertOwn 0 5, EraseRange 1 3, Resize 6]"

theorem vector_run_refines_witness:
  "run_pre demo_traits demo_ops [] \<and>
   outcome (\<lambda>v. wf_vec v \<and> elems v = list_run demo_traits demo_ops [] \<and> Vector_destroy v = Inr ())
     (vec_run demo_traits demo_ops Vector_init) \<and> list_run demo_traits demo_ops [] = [1, 7, 7, 2, 1, 0]"
proof -
  have pre: "run_pre demo_traits demo_ops []" by (simp add: MEM_MAX_def)
  show ?thesis using pre vector_run_refines [OF pre] by (simp add: numeral_eq_Suc)
qed

text \<open>
  An argument may name an element of the vector itself: \<open>push_back(v[i])\<close>,
  \<open>insert(pos, v[i])\<close>, \<open>insert(pos, n, v[i])\<close> and \<open>resize(n, v[i])\<close> behave as if the element had been copied out
  first, also when the call reallocates the block or shifts that element.
\<close>

theorem vector_own_element:
  assumes "wf_vec v" and "i < Vector_size v" and "pos \<le> Vector_size v" and "n \<le> MEM_MAX"
  shows "Vector_push_back tr v (Ref i) = Vector_push_back tr v (Val (elems v ! i))
     \<and> Vector_insert tr v pos (Ref i) = Vector_insert tr v pos (Val (elems v ! i))
     \<and> Vector_insert_count tr v pos n (Ref i) = Vector_insert_count tr v pos n (Val (elems v ! i))
     \<and> Vector_resize_value tr v n (Ref i) = Vector_resize_value tr v n (Val (elems v ! i))"
proof -
  obtain xs cap where v: "v = mkv xs cap" "length xs \<le> cap" "elems v = xs" "i < length xs" "pos \<le> length xs"
    using assms by (elim wf_vecE) auto
  note own = read_arg_rep_Ref [OF v(4), of cap]
  have "Vector_insert_count tr v pos n (Ref i) = Vector_insert_count tr v pos n (Val (elems v ! i))"
    using v own assms(4)
    by (cases "n = 0") (simp_all add: insert_nothing insert_count_mkv [where x = "xs ! i"] del: read_arg.simps(2))
  with v own show ?thesis
    by (simp add: push_back_mkv [where x = "xs ! i"] insert_mkv [where x = "xs ! i"]
        resize_value_mkv [where x = "xs ! i"] del: read_arg.simps(2))
qed

theorem vector_own_element_witness:
  "wf_vec (mkv [1::nat, 2] 2) \<and> 0 < Vector_size (mkv [1::nat, 2] 2) \<and>
   Vector_push_back demo_traits (mkv [1, 2] 2) (Ref 0) = Vector_push_back demo_traits (mkv [1, 2] 2) (Val 1) \<and>
   Vector_insert_count demo_traits (mkv [1, 2] 2) 0 2 (Ref 0)
     = Vector_insert_count demo_traits (mkv [1, 2] 2) 0 2 (Val 1)"
  using vector_own_element [of "mkv [1::nat, 2] 2" 0 0 2 demo_traits] by (simp add: MEM_MAX_def)

text \<open>
  Appending always succeeds while memory lasts: if the doubled size fits in \<open>mem_size\<close>
  and the allocator grants it, \<open>push_back\<close> returns a vector with the element at the end,
  and the capacity is unchanged or exactly doubled (1 for the first element).
\<close>

theorem vector_push_back_returns:
  assumes "wf_vec v" and "2 * Vector_size v * elem_size tr \<le> MEM_MAX" and "elem_size tr \<le> MEM_MAX"
    and "0 < elem_size tr" and "\<forall>bytes. alloc_ok tr bytes"
  shows "\<exists>v'. Vector_push_back tr v (Val x) = Inr v' \<and> elems v' = elems v @ [x] \<and> wf_vec v'
     \<and> Vector_capacity v' = (if Vector_size v < Vector_capacity v then Vector_capacity v
                             else if Vector_size v = 0 then 1 else 2 * Vector_size v)"
proof -
  obtain xs cap where v: "v = mkv xs cap" "length xs \<le> cap" "elems v = xs"
    using assms(1) by (elim wf_vecE)
  have "length xs * 2 \<le> 2 * Vector_size v * elem_size tr" using assms(4) v by simp
  also note assms(2)
  finally have "length xs * 2 \<le> MEM_MAX" .
  then have "room_for_one tr (length xs) cap =
      Inr (if length xs < cap then cap else if length xs = 0 then 1 else 2 * length xs)"
    using assms v by (auto simp: room_for_one_def CalculateNewCapacity_fits alloc_check_eq mult.commute)
  then show ?thesis using v by (auto simp: push_back_mkv)
qed

theorem vector_push_back_returns_witness:
  "\<exists>v'. Vector_push_back \<lparr>elem_size = 8, dflt = 0, alloc_ok = (\<lambda>_. True)\<rparr> (mkv [1::nat, 2] 2) (Val 3) = Inr v'
     \<and> elems v' = [1, 2, 3] \<and> wf_vec v' \<and> Vector_capacity v' = 4"
  using vector_push_back_returns [of "mkv [1::nat, 2] 2" "\<lparr>elem_size = 8, dflt = 0, alloc_ok = (\<lambda>_. True)\<rparr>" 3]
  by (simp add: MEM_MAX_def)

text \<open>
  Elements appended one by one come back in reverse order when they are read and
  removed from the end, and the vector is empty afterwards.
\<close>

theorem vector_lifo:
  assumes "push_list (\<lambda>v x. Vector_push_back tr v (Val x)) Vector_init xs = Inr v"
  shows "\<exists>v'. drain Vector_back Vector_pop_back v (length xs) = Inr (rev xs, v') \<and> wf_vec v' \<and> elems v' = []"
  using vec_seq.push_then_drain_reverses [OF assms] .

theorem vector_lifo_witness:
  "\<exists>v v'. push_list (\<lambda>v x. Vector_push_back demo_traits v (Val x)) Vector_init [1, 2, 3] = Inr v \<and>
     drain Vector_back Vector_pop_back v 3 = Inr ([3, 2, 1], v')"
proof -
  have "push_list (\<lambda>v x. Vector_push_back demo_traits v (Val x)) Vector_init [1, 2, 3] = Inr (mkv [1, 2, 3] 4)"
    by (simp add: vec_ops room_for_one_def CalculateNewCapacity_fits MEM_MAX_def alloc_check_eq)
  moreover from vector_lifo [OF this] obtain v' where
    "drain Vector_back Vector_pop_back (mkv [1, 2, 3 :: nat] 4) (length [1, 2, 3 :: nat]) = Inr (rev [1, 2, 3], v')"
    by blast
  moreover have "length [1, 2, 3 :: nat] = 3" and "rev [1, 2, 3 :: nat] = [3, 2, 1]" by simp_all
  ultimately show ?thesis by metis
qed

text \<open>
  \<open>assign(count, v[i])\<close> is the one value-taking operation that does not guard against
  its own elements: it destroys them first and then reads the destroyed element.
\<close>

theorem vector_assign_own_element_reads_destroyed:
  assumes "wf_vec v" and "i < Vector_size v" and "0 < n"
  shows "Vector_assign tr v n (Ref i) = Inl Lifetime"
  using assms by (elim wf_vecE) (auto simp: assign_own_element)

theorem vector_assign_own_element_witness:
  "wf_vec (mkv [5::nat] 1) \<and> Vector_assign demo_traits (mkv [5] 1) 3 (Ref 0) = Inl Lifetime"
  using vector_assign_own_element_reads_destroyed [of "mkv [5::nat] 1" 0 3 demo_traits] by simp

end
