(* ===== verification/Deque.thy ===== *)
theory Deque
  imports Storage Sequence_Spec
begin

text \<open>
  \<open>base::SimpleDeque\<close> (\<open>containers/deque.h\<close>), a growable ring of default-constructed slots,
  and \<open>base::Queue\<close> (\<open>containers/queue.h\<close>) on top of it. Every slot holds an object from
  the moment the block is allocated, so pushing assigns and popping only moves an index.
  The invariant ties \<open>back_index_\<close> to \<open>front_index_\<close> and \<open>size_\<close> modulo the capacity, and the
  contents are the slots read round the ring from the front.
\<close>

record 'a deque =
  ddata :: "'a block option"
  dcapacity :: nat
  front_index :: nat
  back_index :: nat
  dsize :: nat

section \<open>Operations\<close>

definition dcells :: "'a deque \<Rightarrow> 'a block" where
  "dcells d = (case ddata d of None \<Rightarrow> [] | Some b \<Rightarrow> b)"

text \<open>Index arithmetic modulo the capacity; a zero capacity would divide by zero.\<close>

definition ring_mod :: "nat \<Rightarrow> nat \<Rightarrow> nat res" where
  "ring_mod i cap = bindE (ensure (cap \<noteq> 0) DivByZero) (\<lambda>_. Inr (i mod cap))"

definition ring_prev :: "nat \<Rightarrow> nat \<Rightarrow> nat" where
  "ring_prev i cap = (if i = 0 then cap - 1 else i - 1)"

fun ring_move :: "'a block \<Rightarrow> 'a block \<Rightarrow> nat \<Rightarrow> nat \<Rightarrow> nat \<Rightarrow> nat \<Rightarrow> ('a block \<times> 'a block) res" where
  "ring_move old new old_cap src i 0 = Inr (old, new)"
| "ring_move old new old_cap src i (Suc n) =
     bindE (move_from src old) (\<lambda>(c, old).
     bindE (assign_at i c new) (\<lambda>new.
     bindE (ring_mod (src + 1) old_cap) (\<lambda>src. ring_move old new old_cap src (i + 1) n)))"

definition destroy_slots :: "'a deque \<Rightarrow> 'a block \<Rightarrow> unit res" where
  "destroy_slots d b =
     bindE (destruct_n b 0 (dcapacity d)) (\<lambda>b. free_block (Some b) (dcapacity d))"

definition Deque_Grow :: "'a traits \<Rightarrow> 'a deque \<Rightarrow> nat \<Rightarrow> 'a deque res" where
  "Deque_Grow tr d new_capacity =
     bindE (alloc_block tr ''SimpleDeque: allocation failed'' new_capacity) (\<lambda>new_data.
     bindE (construct_fill new_data 0 new_capacity (dflt tr)) (\<lambda>new_data.
     bindE (case ddata d of
              None \<Rightarrow> Inr new_data
            | Some b \<Rightarrow>
                bindE (if dsize d > 0 then ring_move b new_data (dcapacity d) (front_index d) 0 (dsize d)
                       else Inr (b, new_data)) (\<lambda>(b, new_data).
                bindE (destroy_slots d b) (\<lambda>_. Inr new_data))) (\<lambda>new_data.
     Inr \<lparr>ddata = Some new_data, dcapacity = new_capacity, front_index = 0,
          back_index = dsize d, dsize = dsize d\<rparr>)))"

definition Deque_init :: "'a deque" where
  "Deque_init = \<lparr>ddata = None, dcapacity = 0, front_index = 0, back_index = 0, dsize = 0\<rparr>"

definition Deque_destroy :: "'a deque \<Rightarrow> unit res" where
  "Deque_destroy d = (case ddata d of None \<Rightarrow> Inr () | Some b \<Rightarrow> destroy_slots d b)"

definition Deque_move :: "'a deque \<Rightarrow> 'a deque \<times> 'a deque" where
  "Deque_move other =
     (\<lparr>ddata = ddata other, dcapacity = dcapacity other, front_index = front_index other,
       back_index = back_index other, dsize = dsize other\<rparr>, Deque_init)"

definition Deque_move_assign :: "bool \<Rightarrow> 'a deque \<Rightarrow> 'a deque \<Rightarrow> ('a deque \<times> 'a deque) res" where
  "Deque_move_assign same d other =
     (if \<not> same then bindE (Deque_destroy d) (\<lambda>_. Inr (Deque_move other)) else Inr (d, other))"

text \<open>The growth step of the push operations.\<close>

definition grow_if_full :: "'a traits \<Rightarrow> 'a deque \<Rightarrow> 'a deque res" where
  "grow_if_full tr d =
     (if dsize d = dcapacity d then
        bindE (if dcapacity d = 0 then Inr 4 else CheckedCountProduct (dcapacity d) 2) (\<lambda>n.
        Deque_Grow tr d n)
      else Inr d)"

text \<open>
  The argument is read after the growth step. A reference into the old block dangles if
  there was one.
\<close>

definition read_pushed :: "'a deque \<Rightarrow> 'a deque \<Rightarrow> 'a arg \<Rightarrow> 'a res" where
  "read_pushed before d a =
     (case a of
        Val x \<Rightarrow> Inr x
      | Ref i \<Rightarrow> if dsize before = dcapacity before then Inl Lifetime else read_at i (dcells d))"

definition Deque_push_front :: "'a traits \<Rightarrow> 'a deque \<Rightarrow> 'a arg \<Rightarrow> 'a deque res" where
  "Deque_push_front tr d a =
     bindE (grow_if_full tr d) (\<lambda>d'.
     let f = ring_prev (front_index d') (dcapacity d') in
     bindE (read_pushed d d' a) (\<lambda>x.
     bindE (assign_at f (Obj x) (dcells d')) (\<lambda>b.
     Inr (d'\<lparr>ddata := Some b, front_index := f, dsize := dsize d' + 1\<rparr>))))"

definition Deque_push_back :: "'a traits \<Rightarrow> 'a deque \<Rightarrow> 'a arg \<Rightarrow> 'a deque res" where
  "Deque_push_back tr d a =
     bindE (grow_if_full tr d) (\<lambda>d'.
     bindE (read_pushed d d' a) (\<lambda>x.
     bindE (assign_at (back_index d') (Obj x) (dcells d')) (\<lambda>b.
     bindE (ring_mod (back_index d' + 1) (dcapacity d')) (\<lambda>bi.
     Inr (d'\<lparr>ddata := Some b, back_index := bi, dsize := dsize d' + 1\<rparr>)))))"

text \<open>Returns the deque and the slot the new element is in.\<close>

definition Deque_emplace_back :: "'a traits \<Rightarrow> 'a deque \<Rightarrow> 'a \<Rightarrow> ('a deque \<times> nat) res" where
  "Deque_emplace_back tr d x =
     bindE (grow_if_full tr d) (\<lambda>d'.
     let slot = back_index d' in
     bindE (assign_at slot (Obj x) (dcells d')) (\<lambda>b.
     bindE (ring_mod (back_index d' + 1) (dcapacity d')) (\<lambda>bi.
     Inr (d'\<lparr>ddata := Some b, back_index := bi, dsize := dsize d' + 1\<rparr>, slot))))"

definition Deque_pop_front :: "'a deque \<Rightarrow> 'a deque res" where
  "Deque_pop_front d =
     bindE (ensure (dsize d > 0) (DCheck ''SimpleDeque::pop_front: empty'')) (\<lambda>_.
     bindE (ring_mod (front_index d + 1) (dcapacity d)) (\<lambda>f.
     Inr (d\<lparr>front_index := f, dsize := dsize d - 1\<rparr>)))"

definition Deque_pop_back :: "'a deque \<Rightarrow> 'a deque res" where
  "Deque_pop_back d =
     bindE (ensure (dsize d > 0) (DCheck ''SimpleDeque::pop_back: empty'')) (\<lambda>_.
     Inr (d\<lparr>back_index := ring_prev (back_index d) (dcapacity d), dsize := dsize d - 1\<rparr>))"

definition Deque_front :: "'a deque \<Rightarrow> 'a res" where
  "Deque_front d =
     bindE (ensure (dsize d > 0) (DCheck ''SimpleDeque::front: empty'')) (\<lambda>_.
     read_at (front_index d) (dcells d))"

definition Deque_back :: "'a deque \<Rightarrow> 'a res" where
  "Deque_back d =
     bindE (ensure (dsize d > 0) (DCheck ''SimpleDeque::back: empty'')) (\<lambda>_.
     read_at (ring_prev (back_index d) (dcapacity d)) (dcells d))"

definition Deque_index :: "'a deque \<Rightarrow> nat \<Rightarrow> 'a res" where
  "Deque_index d i =
     bindE (ensure (i < dsize d) (DCheck ''SimpleDeque::[]: out of bounds'')) (\<lambda>_.
     bindE (ring_mod (front_index d + i) (dcapacity d)) (\<lambda>j. read_at j (dcells d)))"

definition Deque_empty :: "'a deque \<Rightarrow> bool" where
  "Deque_empty d \<longleftrightarrow> dsize d = 0"

definition Deque_size :: "'a deque \<Rightarrow> nat" where
  "Deque_size d = dsize d"

text \<open>Traversal with the iterators: an index counting from 0 to \<open>size_\<close>.\<close>

fun iterate_from :: "'a deque \<Rightarrow> nat \<Rightarrow> nat \<Rightarrow> 'a list res" where
  "iterate_from d i 0 = Inr []"
| "iterate_from d i (Suc n) =
     bindE (Deque_index d i) (\<lambda>x. bindE (iterate_from d (i + 1) n) (\<lambda>xs. Inr (x # xs)))"

definition Deque_iterate :: "'a deque \<Rightarrow> 'a list res" where
  "Deque_iterate d = iterate_from d 0 (dsize d)"

definition Deque_clear :: "'a deque \<Rightarrow> 'a deque" where
  "Deque_clear d = d\<lparr>dsize := 0, front_index := 0, back_index := 0\<rparr>"

section \<open>The queue adapter\<close>

definition Queue_push :: "'a traits \<Rightarrow> 'a deque \<Rightarrow> 'a \<Rightarrow> 'a deque res" where
  "Queue_push tr q x = Deque_push_back tr q (Val x)"

definition Queue_pop :: "'a deque \<Rightarrow> 'a deque res" where
  "Queue_pop q = Deque_pop_front q"

definition Queue_front :: "'a deque \<Rightarrow> 'a res" where
  "Queue_front q = Deque_front q"

definition Queue_back :: "'a deque \<Rightarrow> 'a res" where
  "Queue_back q = Deque_back q"

definition Queue_empty :: "'a deque \<Rightarrow> bool" where
  "Queue_empty q = Deque_empty q"

definition Queue_size :: "'a deque \<Rightarrow> nat" where
  "Queue_size q = Deque_size q"

section \<open>Invariant and contents\<close>

definition wf_deque :: "'a deque \<Rightarrow> bool" where
  "wf_deque d \<longleftrightarrow>
     (case ddata d of
        None \<Rightarrow> d = Deque_init
      | Some b \<Rightarrow> length b = dcapacity d \<and> list_all is_Obj b \<and> dcapacity d \<in> (\<lambda>k. 2 ^ k) ` {2..63}
          \<and> front_index d < dcapacity d \<and> dsize d \<le> dcapacity d
          \<and> back_index d = (front_index d + dsize d) mod dcapacity d)"

definition slot :: "'a deque \<Rightarrow> nat \<Rightarrow> 'a" where
  "slot d i = content (dcells d ! ((front_index d + i) mod dcapacity d))"

definition contents :: "'a deque \<Rightarrow> 'a list" where
  "contents d = map (slot d) [0..<dsize d]"

lemma length_contents [simp]: "length (contents d) = dsize d"
  by (simp add: contents_def)

lemma nth_contents [simp]: "i < dsize d \<Longrightarrow> contents d ! i = slot d i"
  by (simp add: contents_def)

lemma wf_deque_init [simp]: "wf_deque Deque_init"
  by (simp add: wf_deque_def) (simp add: Deque_init_def)

text \<open>The facts of a deque that has a block.\<close>

lemma wf_dequeD:
  assumes "wf_deque d" and "ddata d = Some b"
  shows "length b = dcapacity d" and "\<And>i. i < dcapacity d \<Longrightarrow> b ! i = Obj (content (b ! i))"
    and "0 < dcapacity d" and "front_index d < dcapacity d" and "dsize d \<le> dcapacity d"
    and "back_index d = (front_index d + dsize d) mod dcapacity d" and "dcells d = b"
    and "back_index d < dcapacity d"
  using assms by (auto simp: wf_deque_def dcells_def list_all_length)

lemma wf_deque_nonempty:
  "wf_deque d \<Longrightarrow> 0 < dsize d \<Longrightarrow> \<exists>b. ddata d = Some b"
  by (auto simp: wf_deque_def Deque_init_def split: option.splits)

lemma ring_inj:
  assumes "i < cap" and "j < cap" and "(f + i) mod cap = (f + j) mod cap"
  shows "i = (j::nat)"
proof -
  have "i = j" if "i \<le> j" "j < cap" "(f + i) mod cap = (f + j) mod cap" for i j :: nat
  proof -
    from that have "cap dvd (f + j) - (f + i)" by (metis add_le_cancel_left mod_eq_dvd_iff_nat)
    with that show ?thesis by (auto dest!: dvd_imp_le)
  qed
  with assms show ?thesis by (metis nat_le_linear)
qed

lemma ring_mod_pos [simp]: "0 < cap \<Longrightarrow> ring_mod i cap = Inr (i mod cap)"
  by (simp add: ring_mod_def)

lemma ring_prev_add: "0 < cap \<Longrightarrow> f < cap \<Longrightarrow> (ring_prev f cap + 1) mod cap = f"
  by (auto simp: ring_prev_def)

lemma ring_prev_less: "f < cap \<Longrightarrow> ring_prev f cap < cap"
  by (auto simp: ring_prev_def)

lemma ring_prev_mod: "0 < cap \<Longrightarrow> ring_prev (Suc n mod cap) cap = n mod cap"
  by (auto simp: ring_prev_def mod_Suc)

section \<open>Growing\<close>

lemma ring_move_spec:
  "\<lbrakk> length old = cap; src < cap; n \<le> cap; i + n \<le> length new; Raw \<notin> set old; Raw \<notin> set new \<rbrakk> \<Longrightarrow>
   \<exists>old'. ring_move old new cap src i n =
       Inr (old', take i new @ map (\<lambda>j. old ! ((src + j) mod cap)) [0..<n] @ drop (i + n) new)
     \<and> length old' = cap \<and> Raw \<notin> set old'"
proof (induction n arbitrary: old new src i)
  case (Suc n)
  then have pos: "0 < cap" and iln: "i < length new" by auto
  let ?old = "old[src := Moved]" and ?new = "new[i := old ! src]" and ?src = "(src + 1) mod cap"
  have raw: "Raw \<notin> set ?old" "Raw \<notin> set ?new" "old ! src \<noteq> Raw" "new ! i \<noteq> Raw"
    using Suc.prems iln by (auto simp: in_set_conv_nth nth_list_update split: if_splits)
  obtain old' where IH: "ring_move ?old ?new cap ?src (i + 1) n =
       Inr (old', take (i + 1) ?new @ map (\<lambda>j. ?old ! ((?src + j) mod cap)) [0..<n] @ drop (i + 1 + n) ?new)"
      "length old' = cap" "Raw \<notin> set old'"
    using Suc.IH [of ?old ?src "i + 1" ?new] Suc.prems raw pos by auto
  have other: "?old ! ((?src + j) mod cap) = old ! ((src + Suc j) mod cap)" if "j < n" for j
  proof -
    have "(src + Suc j) mod cap \<noteq> (src + 0) mod cap"
      using ring_inj [of "Suc j" cap 0 src] that Suc.prems by auto
    moreover have "(?src + j) mod cap = (src + Suc j) mod cap" by (simp add: mod_add_left_eq)
    ultimately show ?thesis using Suc.prems by simp
  qed
  have "map (\<lambda>j. old ! ((src + j) mod cap)) [0..<Suc n]
      = old ! src # map (\<lambda>j. old ! ((src + Suc j) mod cap)) [0..<n]"
    using Suc.prems by (simp add: upt_conv_Cons map_Suc_upt [symmetric] comp_def del: upt_Suc)
  moreover have "take (i + 1) ?new = take i new @ [old ! src]"
    using iln by (simp add: take_Suc_conv_app_nth)
  moreover have "drop (i + 1 + n) ?new = drop (i + Suc n) new" using iln by simp
  moreover have "map (\<lambda>j. ?old ! ((?src + j) mod cap)) [0..<n] = map (\<lambda>j. old ! ((src + Suc j) mod cap)) [0..<n]"
    using other by simp
  ultimately show ?case using IH Suc.prems raw iln pos
    by (simp add: move_from_def assign_at_def del: upt_Suc)
qed auto

definition fresh :: "'a traits \<Rightarrow> 'a list \<Rightarrow> nat \<Rightarrow> 'a deque" where
  "fresh tr xs n = \<lparr>ddata = Some (map Obj xs @ replicate (n - length xs) (Obj (dflt tr))),
     dcapacity = n, front_index = 0, back_index = length xs, dsize = length xs\<rparr>"

abbreviation deque_alloc :: "'a traits \<Rightarrow> nat \<Rightarrow> unit res" where
  "deque_alloc tr n \<equiv> alloc_check tr ''SimpleDeque: allocation failed'' n"

lemma contents_fresh [simp]: "length xs \<le> n \<Longrightarrow> contents (fresh tr xs n) = xs"
  by (rule nth_equalityI) (auto simp: fresh_def slot_def dcells_def nth_append)

lemma wf_fresh: "length xs < n \<Longrightarrow> n \<in> (\<lambda>k. 2 ^ k) ` {2..63} \<Longrightarrow> wf_deque (fresh tr xs n)"
  by (auto simp: wf_deque_def fresh_def list_all_iff)

lemma destroy_slots_live:
  "length b = dcapacity d \<Longrightarrow> Raw \<notin> set b \<Longrightarrow> destroy_slots d b = Inr ()"
  using destruct_n_live [of 0 "[]" "dcapacity d" b "[]"] by (simp add: destroy_slots_def)

lemma not_Raw: "wf_deque d \<Longrightarrow> ddata d = Some b \<Longrightarrow> Raw \<notin> set b"
  by (auto simp: wf_deque_def list_all_iff)

lemma Deque_Grow_wf:
  assumes "wf_deque d" and "dsize d \<le> n"
  shows "Deque_Grow tr d n = bindE (deque_alloc tr n) (\<lambda>_. Inr (fresh tr (contents d) n))"
proof -
  let ?new = "replicate n (Obj (dflt tr))"
  have fill: "construct_fill (replicate n Raw) 0 n (dflt tr) = Inr ?new"
    using construct_fill_raw [of 0 "[]" n "[]" "dflt tr"] by simp
  show ?thesis
  proof (cases "ddata d")
    case None
    with assms have "d = Deque_init" by (simp add: wf_deque_def)
    then show ?thesis using fill
      by (cases "deque_alloc tr n")
         (auto simp: Deque_Grow_def alloc_block_def fresh_def contents_def Deque_init_def)
  next
    case (Some b)
    note d = wf_dequeD [OF assms(1) Some]
    obtain b' where mv: "ring_move b ?new (dcapacity d) (front_index d) 0 (dsize d) =
        Inr (b', map (\<lambda>j. b ! ((front_index d + j) mod dcapacity d)) [0..<dsize d] @ drop (dsize d) ?new)"
        "length b' = dcapacity d" "Raw \<notin> set b'"
      using ring_move_spec [of b "dcapacity d" "front_index d" "dsize d" 0 ?new] d assms(2)
        not_Raw [OF assms(1) Some] by auto
    have "map (\<lambda>j. b ! ((front_index d + j) mod dcapacity d)) [0..<dsize d] = map Obj (contents d)"
      using d(2,3) by (auto simp: contents_def slot_def d(7))
    then show ?thesis
      using Some fill mv destroy_slots_live [of b' d] destroy_slots_live [of b d] d
        not_Raw [OF assms(1) Some]
      by (cases "deque_alloc tr n"; cases "dsize d = 0")
         (auto simp: Deque_Grow_def alloc_block_def fresh_def contents_def)
  qed
qed

text \<open>What the growth step leaves: the same contents, with room for one more.\<close>

definition roomy :: "'a deque \<Rightarrow> 'a list \<Rightarrow> bool" where
  "roomy d xs \<longleftrightarrow> wf_deque d \<and> contents d = xs \<and> dsize d < dcapacity d \<and> ddata d \<noteq> None"

lemma double_pow: "c \<in> (\<lambda>k. 2 ^ k) ` {2..63} \<Longrightarrow> c * 2 \<le> MEM_MAX \<Longrightarrow> c * 2 \<in> (\<lambda>k. (2::nat) ^ k) ` {2..63}"
proof -
  assume "c \<in> (\<lambda>k. 2 ^ k) ` {2..63}" and le: "c * 2 \<le> MEM_MAX"
  then obtain k where k: "c = 2 ^ k" "2 \<le> k" "k \<le> 63" by auto
  from le k have "(2::nat) ^ Suc k < 2 ^ 64" by (simp add: MEM_MAX_def)
  then have "Suc k < 64" by (rule power_less_imp_less_exp [rotated]) simp
  with k show ?thesis by (intro image_eqI [of _ _ "Suc k"]) auto
qed

lemma grow_if_full_outcome:
  assumes "wf_deque d"
  shows "outcome (\<lambda>d'. roomy d' (contents d)) (grow_if_full tr d)"
proof (cases "dsize d = dcapacity d")
  case full: True
  have grown: "outcome (\<lambda>d'. roomy d' (contents d)) (Deque_Grow tr d n)"
    if "dsize d < n" and "n \<in> (\<lambda>k. 2 ^ k) ` {2..63}" for n
    using that assms wf_fresh [of "contents d" n tr]
    by (simp add: Deque_Grow_wf alloc_check_eq roomy_def) (simp add: fresh_def)
  show ?thesis
  proof (cases "dcapacity d = 0")
    case True
    have "(4::nat) \<in> (\<lambda>k. 2 ^ k) ` {2..63}" by (intro image_eqI [of _ _ 2]) auto
    with True full grown [of 4] show ?thesis by (simp add: grow_if_full_def)
  next
    case False
    then have "dcapacity d \<in> (\<lambda>k. 2 ^ k) ` {2..63}"
      using assms by (auto simp: wf_deque_def Deque_init_def split: option.splits)
    with False full grown [of "dcapacity d * 2"] double_pow [of "dcapacity d"] show ?thesis
      by (auto simp: grow_if_full_def CheckedCountProduct_exact)
  qed
next
  case False
  moreover have "ddata d \<noteq> None" and "dsize d \<le> dcapacity d"
    using assms False by (auto simp: wf_deque_def Deque_init_def split: option.splits)
  ultimately show ?thesis using assms by (simp add: grow_if_full_def roomy_def)
qed

section \<open>Pushing and popping\<close>

lemma assign_slot:
  assumes "wf_deque d" and "ddata d = Some b" and "p < dcapacity d"
  shows "assign_at p (Obj x) (dcells d) = Inr (b[p := Obj x])"
proof -
  have "b ! p \<noteq> Raw" using wf_dequeD(2) [OF assms] by (metis cell.distinct(3))
  then show ?thesis using wf_dequeD(1,7) [OF assms(1,2)] assms(3) by (simp add: assign_at_def)
qed

lemma list_all_update: "list_all P b \<Longrightarrow> P x \<Longrightarrow> list_all P (b[p := x])"
  by (cases "p < length b") (auto simp: list_all_length nth_list_update list_update_beyond)

lemma push_back_room:
  assumes "roomy d xs" and "read_pushed d0 d a = Inr x" and "grow_if_full tr d0 = Inr d"
  shows "\<exists>d'. Deque_push_back tr d0 a = Inr d' \<and> wf_deque d' \<and> contents d' = xs @ [x]"
proof -
  obtain b where wf: "wf_deque d" and b: "ddata d = Some b" and n: "dsize d < dcapacity d"
    and xs: "xs = contents d" using assms(1) by (auto simp: roomy_def)
  note d = wf_dequeD [OF wf b]
  let ?d = "d\<lparr>ddata := Some (b[back_index d := Obj x]), back_index := (back_index d + 1) mod dcapacity d,
              dsize := dsize d + 1\<rparr>"
  have "slot ?d i = (xs @ [x]) ! i" if "i < Suc (dsize d)" for i
  proof (cases "i = dsize d")
    case True
    with d show ?thesis by (simp add: slot_def dcells_def xs nth_append)
  next
    case False
    with that have i: "i < dsize d" by simp
    then have "(front_index d + i) mod dcapacity d \<noteq> back_index d"
      using ring_inj [of i "dcapacity d" "dsize d" "front_index d"] n d(6) by auto
    with i d b show ?thesis by (simp add: slot_def dcells_def xs nth_append)
  qed
  then have "contents ?d = xs @ [x]"
    by (intro nth_equalityI) (simp_all add: xs)
  moreover have "wf_deque ?d"
    using wf b n d(6) by (auto simp: wf_deque_def list_all_update mod_Suc_eq)
  ultimately show ?thesis
    using assms assign_slot [OF wf b d(8), of x] d(3) by (auto simp: Deque_push_back_def)
qed

lemma push_front_room:
  assumes "roomy d xs" and "read_pushed d0 d a = Inr x" and "grow_if_full tr d0 = Inr d"
  shows "\<exists>d'. Deque_push_front tr d0 a = Inr d' \<and> wf_deque d' \<and> contents d' = x # xs"
proof -
  obtain b where wf: "wf_deque d" and b: "ddata d = Some b" and n: "dsize d < dcapacity d"
    and xs: "xs = contents d" using assms(1) by (auto simp: roomy_def)
  note d = wf_dequeD [OF wf b]
  let ?f = "ring_prev (front_index d) (dcapacity d)"
  let ?d = "d\<lparr>ddata := Some (b[?f := Obj x]), front_index := ?f, dsize := dsize d + 1\<rparr>"
  have f: "?f < dcapacity d" using d(4) by (rule ring_prev_less)
  have shift: "(?f + Suc i) mod dcapacity d = (front_index d + i) mod dcapacity d" for i
    using ring_prev_add [OF d(3,4)] by (metis add.assoc add.commute add_Suc_right mod_add_left_eq plus_1_eq_Suc)
  have "slot ?d i = (x # xs) ! i" if "i < Suc (dsize d)" for i
  proof (cases i)
    case 0
    with d f show ?thesis by (simp add: slot_def dcells_def)
  next
    case (Suc j)
    with that have j: "j < dsize d" by simp
    then have "(?f + Suc j) mod dcapacity d \<noteq> ?f"
      using ring_inj [of "Suc j" "dcapacity d" 0 ?f] n f by auto
    with Suc j d b show ?thesis
      by (simp add: slot_def dcells_def xs del: add_Suc_right) (simp add: shift del: add_Suc_right)
  qed
  then have "contents ?d = x # xs"
    by (intro nth_equalityI) (simp_all add: xs)
  moreover have "wf_deque ?d"
    using wf b n f shift [of "dsize d"] by (auto simp: wf_deque_def list_all_update)
  ultimately show ?thesis
    using assms assign_slot [OF wf b f, of x] by (auto simp: Deque_push_front_def Let_def)
qed

lemma pop_front_wf:
  assumes "wf_deque d" and "contents d \<noteq> []"
  shows "\<exists>d'. Deque_pop_front d = Inr d' \<and> wf_deque d' \<and> contents d' = tl (contents d)"
proof -
  have pos: "0 < dsize d" using assms(2) by (simp add: contents_def)
  then obtain b where b: "ddata d = Some b" using wf_deque_nonempty assms(1) by blast
  note d = wf_dequeD [OF assms(1) b]
  let ?d = "d\<lparr>front_index := (front_index d + 1) mod dcapacity d, dsize := dsize d - 1\<rparr>"
  have "slot ?d i = slot d (Suc i)" for i
    by (simp add: slot_def dcells_def mod_add_left_eq)
  then have "contents ?d = tl (contents d)"
    by (intro nth_equalityI) (auto simp: nth_tl)
  moreover have "((front_index d + 1) mod dcapacity d + (dsize d - 1)) mod dcapacity d
      = (front_index d + dsize d) mod dcapacity d"
    using pos by (cases "dsize d") (simp_all add: mod_add_left_eq)
  then have "wf_deque ?d" using assms(1) b d(3) by (auto simp: wf_deque_def)
  ultimately show ?thesis using pos d(3) by (auto simp: Deque_pop_front_def)
qed

lemma pop_back_wf:
  assumes "wf_deque d" and "contents d \<noteq> []"
  shows "\<exists>d'. Deque_pop_back d = Inr d' \<and> wf_deque d' \<and> contents d' = butlast (contents d)"
proof -
  have pos: "0 < dsize d" using assms(2) by (simp add: contents_def)
  then obtain b where b: "ddata d = Some b" using wf_deque_nonempty assms(1) by blast
  note d = wf_dequeD [OF assms(1) b]
  let ?d = "d\<lparr>back_index := ring_prev (back_index d) (dcapacity d), dsize := dsize d - 1\<rparr>"
  have "contents ?d = butlast (contents d)"
    by (rule nth_equalityI) (auto simp: nth_butlast slot_def dcells_def)
  moreover have "back_index ?d = (front_index d + (dsize d - 1)) mod dcapacity d"
    using d(3,6) pos ring_prev_mod [of "dcapacity d" "front_index d + (dsize d - 1)"] by simp
  then have "wf_deque ?d" using assms(1) b pos by (auto simp: wf_deque_def)
  ultimately show ?thesis using pos by (auto simp: Deque_pop_back_def)
qed

lemma index_wf:
  assumes "wf_deque d" and "i < dsize d"
  shows "Deque_index d i = Inr (contents d ! i)"
proof -
  obtain b where b: "ddata d = Some b" using wf_deque_nonempty assms by (metis gr_implies_not_zero not_gr_zero)
  note d = wf_dequeD [OF assms(1) b]
  have "(front_index d + i) mod dcapacity d < dcapacity d" using d(3) by simp
  with d assms show ?thesis by (simp add: Deque_index_def slot_def read_at_Obj)
qed

lemma front_wf:
  assumes "wf_deque d" and "contents d \<noteq> []"
  shows "Deque_front d = Inr (hd (contents d))"
proof -
  have pos: "0 < dsize d" using assms(2) by (simp add: contents_def)
  then obtain b where b: "ddata d = Some b" using wf_deque_nonempty assms(1) by blast
  note d = wf_dequeD [OF assms(1) b]
  have "hd (contents d) = slot d 0" using assms(2) pos by (simp add: hd_conv_nth)
  then show ?thesis using d pos by (simp add: Deque_front_def slot_def read_at_Obj)
qed

lemma back_wf:
  assumes "wf_deque d" and "contents d \<noteq> []"
  shows "Deque_back d = Inr (last (contents d))"
proof -
  have pos: "0 < dsize d" using assms(2) by (simp add: contents_def)
  then obtain b where b: "ddata d = Some b" using wf_deque_nonempty assms(1) by blast
  note d = wf_dequeD [OF assms(1) b]
  have "last (contents d) = slot d (dsize d - 1)" using assms(2) pos by (simp add: last_conv_nth)
  moreover have "ring_prev (back_index d) (dcapacity d) = (front_index d + (dsize d - 1)) mod dcapacity d"
    using d(3,6) pos ring_prev_mod [of "dcapacity d" "front_index d + (dsize d - 1)"] by simp
  ultimately show ?thesis using d pos by (simp add: Deque_back_def slot_def read_at_Obj)
qed

lemma iterate_from_wf:
  "wf_deque d \<Longrightarrow> i + n = dsize d \<Longrightarrow> iterate_from d i n = Inr (drop i (contents d))"
proof (induction n arbitrary: i)
  case (Suc n)
  then have "i < length (contents d)" by simp
  with Suc show ?case by (simp add: index_wf flip: Cons_nth_drop_Suc)
qed simp

lemma read_pushed_Val [simp]: "read_pushed d0 d (Val x) = Inr x"
  by (simp add: read_pushed_def)

lemma push_outcome:
  assumes "wf_deque d"
  shows "outcome (\<lambda>d'. wf_deque d' \<and> contents d' = contents d @ [x]) (Deque_push_back tr d (Val x))"
    and "outcome (\<lambda>d'. wf_deque d' \<and> contents d' = x # contents d) (Deque_push_front tr d (Val x))"
proof -
  from grow_if_full_outcome [OF assms, of tr]
  consider e where "grow_if_full tr d = Inl e" "refusal e"
    | d1 where "grow_if_full tr d = Inr d1" "roomy d1 (contents d)"
    by (cases "grow_if_full tr d") auto
  then have "outcome (\<lambda>d'. wf_deque d' \<and> contents d' = contents d @ [x]) (Deque_push_back tr d (Val x))
      \<and> outcome (\<lambda>d'. wf_deque d' \<and> contents d' = x # contents d) (Deque_push_front tr d (Val x))"
  proof cases
    case 2
    then show ?thesis
      using push_back_room [OF 2(2) read_pushed_Val 2(1), of x] push_front_room [OF 2(2) read_pushed_Val 2(1), of x]
      by auto
  qed (simp add: Deque_push_back_def Deque_push_front_def)
  then show "outcome (\<lambda>d'. wf_deque d' \<and> contents d' = contents d @ [x]) (Deque_push_back tr d (Val x))"
    and "outcome (\<lambda>d'. wf_deque d' \<and> contents d' = x # contents d) (Deque_push_front tr d (Val x))"
    by simp_all
qed

section \<open>The deque as a sequence and as a queue\<close>

lemma push_back_Inr:
  "wf_deque d \<Longrightarrow> Deque_push_back tr d (Val x) = Inr d' \<Longrightarrow> wf_deque d' \<and> contents d' = contents d @ [x]"
  using push_outcome(1) [of d x tr] by simp

lemma init_fields: "dsize Deque_init = 0" "dcapacity Deque_init = 0"
  by (simp_all add: Deque_init_def)

lemma contents_init [simp]: "contents Deque_init = []"
  by (simp add: contents_def Deque_init_def)

interpretation deque_seq: sequence wf_deque contents Deque_init "\<lambda>d x. Deque_push_back tr d (Val x)"
  Deque_pop_back Deque_back Deque_index for tr
  by unfold_locales (auto simp: push_back_Inr pop_back_wf back_wf index_wf simp del: nth_contents)

interpretation queue: queue_end wf_deque contents Deque_init "Queue_push tr" Queue_pop Queue_front for tr
  by unfold_locales
     (auto simp: Queue_push_def Queue_pop_def Queue_front_def push_back_Inr pop_front_wf front_wf)

lemma Deque_destroy_wf: "wf_deque d \<Longrightarrow> Deque_destroy d = Inr ()"
  using wf_dequeD(1) not_Raw
  by (auto simp: Deque_destroy_def intro!: destroy_slots_live split: option.split)

section \<open>Sequences of operations\<close>

datatype 'a deque_op = DPushFront 'a | DPushBack 'a | DPopFront | DPopBack | DClear

fun deque_step :: "'a traits \<Rightarrow> 'a deque_op \<Rightarrow> 'a deque \<Rightarrow> 'a deque res" where
  "deque_step tr (DPushFront x) d = Deque_push_front tr d (Val x)"
| "deque_step tr (DPushBack x) d = Deque_push_back tr d (Val x)"
| "deque_step tr DPopFront d = Deque_pop_front d"
| "deque_step tr DPopBack d = Deque_pop_back d"
| "deque_step tr DClear d = Inr (Deque_clear d)"

fun dlist_step :: "'a deque_op \<Rightarrow> 'a list \<Rightarrow> 'a list" where
  "dlist_step (DPushFront x) xs = x # xs"
| "dlist_step (DPushBack x) xs = xs @ [x]"
| "dlist_step DPopFront xs = tl xs"
| "dlist_step DPopBack xs = butlast xs"
| "dlist_step DClear xs = []"

fun deque_run :: "'a traits \<Rightarrow> 'a deque_op list \<Rightarrow> 'a deque \<Rightarrow> 'a deque res" where
  "deque_run tr [] d = Inr d"
| "deque_run tr (op # ops) d = bindE (deque_step tr op d) (\<lambda>d. deque_run tr ops d)"

lemma clear_wf: "wf_deque d \<Longrightarrow> wf_deque (Deque_clear d) \<and> contents (Deque_clear d) = []"
  by (auto simp: wf_deque_def Deque_clear_def contents_def Deque_init_def split: option.splits)

lemma deque_step_outcome:
  assumes "wf_deque d"
  shows "outcome (\<lambda>d'. wf_deque d' \<and> contents d' = dlist_step op (contents d)) (deque_step tr op d)"
proof (cases op)
  case DPopFront
  with pop_front_wf [OF assms] show ?thesis
    by (cases "contents d = []") (auto simp: Deque_pop_front_def contents_def)
next
  case DPopBack
  with pop_back_wf [OF assms] show ?thesis
    by (cases "contents d = []") (auto simp: Deque_pop_back_def contents_def)
qed (use push_outcome [OF assms] clear_wf [OF assms] in auto)

lemma deque_run_outcome:
  "wf_deque d \<Longrightarrow>
     outcome (\<lambda>d'. wf_deque d' \<and> contents d' = foldl (\<lambda>xs op. dlist_step op xs) (contents d) ops) (deque_run tr ops d)"
proof (induction ops arbitrary: d)
  case (Cons op ops)
  show ?case unfolding deque_run.simps
  proof (rule outcome_bindE [OF deque_step_outcome [OF Cons.prems]])
    fix u assume "wf_deque u \<and> contents u = dlist_step op (contents d)"
    with Cons.IH [of u] show "outcome (\<lambda>d'. wf_deque d' \<and>
        contents d' = foldl (\<lambda>xs op. dlist_step op xs) (contents d) (op # ops)) (deque_run tr ops u)"
      by simp
  qed
qed simp

section \<open>Properties\<close>

text \<open>
  (C8) Any sequence of pushes and pops at both ends and clears, from the empty deque, stops
  at a check of the code or leaves the ring holding exactly the elements the same
  operations give on lists, in order; iterating visits them front to back, and destroying
  the deque then releases every slot.
\<close>

theorem deque_run_refines:
  "outcome (\<lambda>d. wf_deque d \<and> Deque_iterate d = Inr (foldl (\<lambda>xs op. dlist_step op xs) [] ops)
       \<and> Deque_destroy d = Inr ())
     (deque_run tr ops Deque_init)"
proof -
  have "outcome (\<lambda>d'. wf_deque d' \<and> contents d' = foldl (\<lambda>xs op. dlist_step op xs) [] ops)
      (deque_run tr ops Deque_init)"
    using deque_run_outcome [of Deque_init ops tr] by simp
  then show ?thesis
    by (cases "deque_run tr ops Deque_init") (auto simp: Deque_destroy_wf Deque_iterate_def iterate_from_wf)
qed

text \<open>
  The queue is first in, first out: whatever is enqueued comes back from \<open>front\<close> and
  \<open>pop\<close> in the same order, leaving the queue empty.
\<close>

theorem queue_fifo:
  assumes "push_list (Queue_push tr) Deque_init xs = Inr q"
  shows "\<exists>q'. drain Queue_front Queue_pop q (length xs) = Inr (xs, q') \<and> wf_deque q' \<and> Queue_empty q'"
  using queue.first_in_first_out [OF assms]
  by (auto simp: Queue_empty_def Deque_empty_def simp flip: length_contents)

theorem queue_fifo_witness:
  "\<exists>q q'. push_list (Queue_push \<lparr>elem_size = 8, dflt = 0, alloc_ok = (\<lambda>_. True)\<rparr>) Deque_init [7, 8, 9 :: nat] = Inr q \<and>
     drain Queue_front Queue_pop q (length [7, 8, 9 :: nat]) = Inr ([7, 8, 9], q')"
proof -
  let ?tr = "\<lparr>elem_size = 8, dflt = 0 :: nat, alloc_ok = (\<lambda>_. True)\<rparr>"
  let ?d = "\<lambda>a b c n. \<lparr>ddata = Some [Obj a, Obj b, Obj c, Obj 0], dcapacity = 4, front_index = 0, back_index = n, dsize = n\<rparr>"
  have "replicate 4 (Obj (0::nat)) = [Obj 0, Obj 0, Obj 0, Obj 0]" by (simp add: eval_nat_numeral)
  then have "grow_if_full ?tr Deque_init = Inr (?d 0 0 0 0)"
    by (simp add: grow_if_full_def init_fields Deque_Grow_wf alloc_check_eq MEM_MAX_def fresh_def)
  then have "Queue_push ?tr Deque_init 7 = Inr (?d 7 0 0 1)"
    by (simp add: Queue_push_def Deque_push_back_def dcells_def assign_at_def)
  moreover have "Queue_push ?tr (?d 7 0 0 1) 8 = Inr (?d 7 8 0 2)" and "Queue_push ?tr (?d 7 8 0 2) 9 = Inr (?d 7 8 9 3)"
    by (simp_all add: Queue_push_def Deque_push_back_def grow_if_full_def dcells_def assign_at_def)
  ultimately have "push_list (Queue_push ?tr) Deque_init [7, 8, 9] = Inr (?d 7 8 9 3)" by simp
  from this queue_fifo [OF this] show ?thesis by blast
qed

text \<open>
  Pushing a reference to an element of the deque itself works while there is room, but
  when the deque is full the ring is reallocated first and the reference is read after its
  block has been destroyed and freed.
\<close>

theorem deque_own_element_dangles:
  assumes "wf_deque d" and "0 < dsize d" and "dsize d = dcapacity d" and "i < dcapacity d"
    and "dcapacity d * 2 \<le> MEM_MAX" and "deque_alloc tr (dcapacity d * 2) = Inr ()"
  shows "Deque_push_back tr d (Ref i) = Inl Lifetime \<and> Deque_push_front tr d (Ref i) = Inl Lifetime"
proof -
  have "grow_if_full tr d = Inr (fresh tr (contents d) (dcapacity d * 2))"
    using assms by (simp add: grow_if_full_def CheckedCountProduct_exact Deque_Grow_wf)
  then show ?thesis using assms
    by (simp add: Deque_push_back_def Deque_push_front_def read_pushed_def)
qed

theorem deque_own_element_dangles_witness:
  "wf_deque \<lparr>ddata = Some [Obj (1::nat), Obj 2, Obj 3, Obj 4], dcapacity = 4, front_index = 0, back_index = 0, dsize = 4\<rparr> \<and>
   Deque_push_back \<lparr>elem_size = 8, dflt = 0, alloc_ok = (\<lambda>_. True)\<rparr>
     \<lparr>ddata = Some [Obj (1::nat), Obj 2, Obj 3, Obj 4], dcapacity = 4, front_index = 0, back_index = 0, dsize = 4\<rparr>
     (Ref 0) = Inl Lifetime"
proof -
  let ?d = "\<lparr>ddata = Some [Obj (1::nat), Obj 2, Obj 3, Obj 4], dcapacity = 4, front_index = 0, back_index = 0, dsize = 4\<rparr>"
  have "(4::nat) \<in> (\<lambda>k. 2 ^ k) ` {2..63}" by (intro image_eqI [of _ _ 2]) auto
  then have wf: "wf_deque ?d" by (simp add: wf_deque_def)
  moreover have "Deque_push_back \<lparr>elem_size = 8, dflt = 0, alloc_ok = (\<lambda>_. True)\<rparr> ?d (Ref 0) = Inl Lifetime"
    using deque_own_element_dangles [OF wf, of 0 "\<lparr>elem_size = 8, dflt = 0, alloc_ok = (\<lambda>_. True)\<rparr>"]
    by (simp add: MEM_MAX_def alloc_check_eq)
  ultimately show ?thesis by blast
qed

text \<open>
  The ring indices never wrap the 64-bit \<open>mem_size\<close>: the capacity is a power of two of
  at most \<open>2 ^ 63\<close>, so \<open>front_index_ + index\<close> stays below \<open>2 ^ 64\<close> before it is reduced, and
  the slot it selects is inside the block.
\<close>

theorem deque_index_no_wrap:
  assumes "wf_deque d" and "index < dsize d"
  shows "front_index d + index < 2 ^ 64 \<and> (front_index d + index) mod dcapacity d < length (dcells d)"
proof -
  obtain b where b: "ddata d = Some b" using wf_deque_nonempty assms by (metis gr_implies_not_zero not_gr_zero)
  note d = wf_dequeD [OF assms(1) b]
  obtain k where k: "dcapacity d = 2 ^ k" "k \<le> 63" using assms(1) b by (auto simp: wf_deque_def)
  then have "dcapacity d \<le> 2 ^ 63" using power_increasing [of k 63 "2::nat"] by simp
  then show ?thesis using d assms(2) by auto
qed

theorem deque_index_no_wrap_witness:
  "wf_deque \<lparr>ddata = Some [Obj (1::nat), Obj 2, Obj 3, Obj 4], dcapacity = 4, front_index = 3, back_index = 1, dsize = 2\<rparr>
   \<and> (3 + 1 :: nat) < 2 ^ 64 \<and> (3 + 1) mod 4 < (4::nat)"
proof -
  let ?d = "\<lparr>ddata = Some [Obj (1::nat), Obj 2, Obj 3, Obj 4], dcapacity = 4, front_index = 3, back_index = 1, dsize = 2\<rparr>"
  have "(4::nat) \<in> (\<lambda>k. 2 ^ k) ` {2..63}" by (intro image_eqI [of _ _ 2]) auto
  then have wf: "wf_deque ?d" by (simp add: wf_deque_def)
  from wf deque_index_no_wrap [OF wf, of 1] show ?thesis by (simp add: dcells_def)
qed

end
