(* ===== verification/Ring_Buffer.thy ===== *)
theory Ring_Buffer
  imports Prelude
begin

text \<open>
  \<open>base::RingBuffer\<close> (\<open>containers/ring_buffer.h\<close>): the last \<open>kSize\<close> values saved, addressed
  from the oldest. The buffer is a list of length \<open>kSize\<close>; \<open>current_index_\<close> counts the saves
  in a 64-bit integer. The iterator is the index with its out-of-range flag.
\<close>

record 'a ring_buffer =
  buffer :: "'a list"
  current_index :: nat

record rb_iterator =
  it_index :: nat
  out_of_range :: bool

section \<open>Operations\<close>

definition kSize :: "'a ring_buffer \<Rightarrow> nat" where
  "kSize r = length (buffer r)"

definition RingBuffer_init :: "'a list \<Rightarrow> 'a ring_buffer" where
  "RingBuffer_init storage = \<lparr>buffer = storage, current_index = 0\<rparr>"

definition BufferIndex :: "'a ring_buffer \<Rightarrow> nat \<Rightarrow> nat" where
  "BufferIndex r n = (current_index r + n) mod 2 ^ 64 mod kSize r"

definition IsFilledIndexByBufferIndex :: "'a ring_buffer \<Rightarrow> nat \<Rightarrow> bool" where
  "IsFilledIndexByBufferIndex r buffer_index \<longleftrightarrow> buffer_index < current_index r"

definition IsFilledIndex :: "'a ring_buffer \<Rightarrow> nat \<Rightarrow> bool" where
  "IsFilledIndex r n \<longleftrightarrow> IsFilledIndexByBufferIndex r (BufferIndex r n)"

definition ReadBuffer :: "'a ring_buffer \<Rightarrow> nat \<Rightarrow> 'a res" where
  "ReadBuffer r n =
     (let buffer_index = BufferIndex r n in
      bindE (ensure (IsFilledIndexByBufferIndex r buffer_index) (DCheck ''IsFilledIndexByBufferIndex'')) (\<lambda>_.
      if buffer_index < kSize r then Inr (buffer r ! buffer_index) else Inl OutOfBounds))"

text \<open>Writing through the pointer \<open>MutableReadBuffer\<close> returns.\<close>

definition MutableReadBuffer_store :: "'a ring_buffer \<Rightarrow> nat \<Rightarrow> 'a \<Rightarrow> 'a ring_buffer res" where
  "MutableReadBuffer_store r n v =
     (let buffer_index = BufferIndex r n in
      bindE (ensure (IsFilledIndexByBufferIndex r buffer_index) (DCheck ''IsFilledIndexByBufferIndex'')) (\<lambda>_.
      if buffer_index < kSize r then Inr (r\<lparr>buffer := (buffer r)[buffer_index := v]\<rparr>) else Inl OutOfBounds))"

definition SaveToBuffer :: "'a ring_buffer \<Rightarrow> 'a \<Rightarrow> 'a ring_buffer" where
  "SaveToBuffer r v =
     r\<lparr>buffer := (buffer r)[BufferIndex r 0 := v], current_index := (current_index r + 1) mod 2 ^ 64\<rparr>"

definition RingBuffer_Clear :: "'a ring_buffer \<Rightarrow> 'a ring_buffer" where
  "RingBuffer_Clear r = r\<lparr>current_index := 0\<rparr>"

definition RingBuffer_Begin :: "'a ring_buffer \<Rightarrow> rb_iterator" where
  "RingBuffer_Begin r =
     (if current_index r < kSize r then \<lparr>it_index = kSize r - current_index r, out_of_range = False\<rparr>
      else \<lparr>it_index = 0, out_of_range = False\<rparr>)"

definition RingBuffer_End :: "'a ring_buffer \<Rightarrow> rb_iterator" where
  "RingBuffer_End r = \<lparr>it_index = kSize r - 1, out_of_range = False\<rparr>"

definition it_inc :: "'a ring_buffer \<Rightarrow> rb_iterator \<Rightarrow> rb_iterator" where
  "it_inc r it =
     (let i = (it_index it + 1) mod 2 ^ 64 in
      \<lparr>it_index = i, out_of_range = (if i = kSize r then True else out_of_range it)\<rparr>)"

definition it_dec :: "'a ring_buffer \<Rightarrow> rb_iterator \<Rightarrow> rb_iterator" where
  "it_dec r it =
     \<lparr>it_index = (if it_index it = 0 then 2 ^ 64 - 1 else it_index it - 1),
      out_of_range = (if it_index it = 0 then True else out_of_range it)\<rparr>"

definition it_valid :: "'a ring_buffer \<Rightarrow> rb_iterator \<Rightarrow> bool" where
  "it_valid r it \<longleftrightarrow> \<not> out_of_range it \<and> IsFilledIndex r (it_index it)"

text \<open>
  The loops of the header's example, \<open>for (it = Begin(); it; ++it)\<close> and
  \<open>for (it = End(); it; --it)\<close>, with the number of iterations bounded by fuel.
\<close>

fun rb_walk :: "nat \<Rightarrow> (rb_iterator \<Rightarrow> rb_iterator) \<Rightarrow> 'a ring_buffer \<Rightarrow> rb_iterator \<Rightarrow> 'a list option" where
  "rb_walk 0 next r it = None"
| "rb_walk (Suc fuel) next r it =
     (if it_valid r it then
        (case ReadBuffer r (it_index it) of
           Inl e \<Rightarrow> None
         | Inr x \<Rightarrow> map_option (\<lambda>xs. x # xs) (rb_walk fuel next r (next it)))
      else Some [])"

section \<open>The buffer holds the last values saved\<close>

definition holds :: "'a ring_buffer \<Rightarrow> 'a list \<Rightarrow> bool" where
  "holds r vs \<longleftrightarrow> current_index r = length vs \<and> 0 < kSize r \<and> length vs + kSize r \<le> 2 ^ 64 \<and>
     (\<forall>t < length vs. length vs \<le> t + kSize r \<longrightarrow> buffer r ! (t mod kSize r) = vs ! t)"

lemma holds_init: "0 < length storage \<Longrightarrow> length storage \<le> 2 ^ 64 \<Longrightarrow> holds (RingBuffer_init storage) []"
  by (simp add: holds_def RingBuffer_init_def kSize_def)

lemma SaveToBuffer_size [simp]: "kSize (SaveToBuffer r v) = kSize r"
  by (simp add: SaveToBuffer_def kSize_def)

lemma holds_save:
  assumes "holds r vs" and "Suc (length vs) + kSize r \<le> 2 ^ 64"
  shows "holds (SaveToBuffer r v) (vs @ [v])"
proof -
  let ?k = "kSize r" and ?n = "length vs"
  have idx: "BufferIndex r 0 = ?n mod ?k" and ci: "current_index r = ?n" and k: "0 < ?k"
    using assms by (auto simp: BufferIndex_def holds_def)
  have val: "buffer (SaveToBuffer r v) ! (t mod ?k) = (vs @ [v]) ! t"
    if t: "t < Suc ?n" "Suc ?n \<le> t + ?k" for t
  proof (cases "t = ?n")
    case True
    have "?n mod ?k < length (buffer r)" using k by (simp add: kSize_def)
    with True show ?thesis by (simp add: SaveToBuffer_def idx)
  next
    case False
    with t have "t < ?n" by simp
    with t mod_distinct [of t ?n ?k] have "t mod ?k \<noteq> ?n mod ?k" by simp
    with t \<open>t < ?n\<close> assms(1) show ?thesis
      by (simp add: SaveToBuffer_def idx holds_def nth_append)
  qed
  have "Suc ?n < 2 ^ 64" using assms(2) k by simp
  with assms ci k val show ?thesis by (auto simp: holds_def) (simp add: SaveToBuffer_def)
qed

lemma ReadBuffer_holds:
  assumes "holds r vs" and "n < kSize r"
  shows "ReadBuffer r n =
     (if kSize r \<le> length vs + n then Inr (vs ! (length vs + n - kSize r))
      else Inl (DCheck ''IsFilledIndexByBufferIndex''))"
    and "IsFilledIndex r n \<longleftrightarrow> kSize r \<le> length vs + n"
proof -
  let ?k = "kSize r" and ?n = "length vs"
  have ci: "current_index r = ?n" and k: "0 < ?k" using assms by (auto simp: holds_def)
  have idx: "BufferIndex r n = (?n + n) mod ?k"
    using assms by (simp add: BufferIndex_def holds_def)
  have filled: "(?n + n) mod ?k < ?n \<longleftrightarrow> ?k \<le> ?n + n"
  proof (cases "?k \<le> ?n + n")
    case True
    then have eq: "(?n + n) mod ?k = (?n + n - ?k) mod ?k" by (simp add: le_mod_geq)
    have "(?n + n - ?k) mod ?k \<le> ?n + n - ?k" by simp
    moreover have "?n + n - ?k < ?n" using True assms(2) by linarith
    ultimately have "(?n + n) mod ?k < ?n" using eq by linarith
    with True show ?thesis by simp
  qed simp
  then show "IsFilledIndex r n \<longleftrightarrow> ?k \<le> ?n + n"
    by (simp add: IsFilledIndex_def IsFilledIndexByBufferIndex_def idx ci)
  have "buffer r ! ((?n + n) mod ?k) = vs ! (?n + n - ?k)" if "?k \<le> ?n + n"
    using assms that by (simp add: holds_def le_mod_geq)
  with filled k show "ReadBuffer r n =
     (if ?k \<le> ?n + n then Inr (vs ! (?n + n - ?k)) else Inl (DCheck ''IsFilledIndexByBufferIndex''))"
    by (auto simp: ReadBuffer_def Let_def IsFilledIndexByBufferIndex_def idx ci)
qed

text \<open>The values still in the buffer, oldest first.\<close>

definition recent :: "nat \<Rightarrow> 'a list \<Rightarrow> 'a list" where
  "recent k vs = drop (length vs - k) vs"

lemma walk_forward:
  assumes "holds r vs" and "kSize r - i < fuel" and "i \<le> kSize r" and "kSize r \<le> length vs + i"
  shows "rb_walk fuel (it_inc r) r \<lparr>it_index = i, out_of_range = (i = kSize r)\<rparr>
     = Some (drop (length vs + i - kSize r) vs)"
  using assms(2-)
proof (induction fuel arbitrary: i)
  case (Suc fuel)
  show ?case
  proof (cases "i = kSize r")
    case True
    then show ?thesis by (simp add: it_valid_def)
  next
    case False
    with Suc.prems have i: "i < kSize r" by simp
    have "i + 1 < 2 ^ 64" using i assms(1) Suc.prems by (auto simp: holds_def)
    then have "it_inc r \<lparr>it_index = i, out_of_range = (i = kSize r)\<rparr>
        = \<lparr>it_index = i + 1, out_of_range = (i + 1 = kSize r)\<rparr>"
      using False by (simp add: it_inc_def)
    moreover have "rb_walk fuel (it_inc r) r \<lparr>it_index = i + 1, out_of_range = (i + 1 = kSize r)\<rparr>
        = Some (drop (length vs + (i + 1) - kSize r) vs)"
      using Suc.prems i by (intro Suc.IH) auto
    moreover have "length vs + i - kSize r < length vs" using i Suc.prems by simp
    ultimately show ?thesis
      using Suc.prems i ReadBuffer_holds [OF assms(1) i]
      by (simp add: it_valid_def Cons_nth_drop_Suc Suc_diff_le)
  qed
qed simp

lemma walk_backward:
  assumes "holds r vs" and "j < fuel" and "j \<le> kSize r"
  shows "rb_walk fuel (it_dec r) r
       \<lparr>it_index = (if j = 0 then 2 ^ 64 - 1 else j - 1), out_of_range = (j = 0)\<rparr>
     = Some (rev (drop (length vs - kSize r) (take (length vs + j - kSize r) vs)))"
  using assms(2-)
proof (induction fuel arbitrary: j)
  case (Suc fuel)
  show ?case
  proof (cases j)
    case 0
    then show ?thesis by (simp add: it_valid_def)
  next
    case (Suc i)
    with Suc.prems have i: "i < kSize r" by simp
    note read = ReadBuffer_holds [OF assms(1) i]
    have dec: "it_dec r \<lparr>it_index = i, out_of_range = False\<rparr>
        = \<lparr>it_index = (if i = 0 then 2 ^ 64 - 1 else i - 1), out_of_range = (i = 0)\<rparr>"
      by (simp add: it_dec_def)
    show ?thesis
    proof (cases "kSize r \<le> length vs + i")
      case True
      let ?t = "length vs + i - kSize r"
      have t: "?t < length vs" "length vs + Suc i - kSize r = Suc ?t" "length vs - kSize r \<le> ?t"
        using True i by auto
      have "rb_walk fuel (it_dec r) r \<lparr>it_index = (if i = 0 then 2 ^ 64 - 1 else i - 1), out_of_range = (i = 0)\<rparr>
          = Some (rev (drop (length vs - kSize r) (take ?t vs)))"
        using Suc.prems Suc by (intro Suc.IH) auto
      with Suc True t read dec show ?thesis
        by (simp add: it_valid_def take_Suc_conv_app_nth)
    next
      case False
      with Suc read show ?thesis by (simp add: it_valid_def)
    qed
  qed
qed simp

section \<open>Properties\<close>

lemma holds_all:
  "holds r ws \<Longrightarrow> length ws + length vs + kSize r \<le> 2 ^ 64 \<Longrightarrow>
     holds (foldl SaveToBuffer r vs) (ws @ vs) \<and> kSize (foldl SaveToBuffer r vs) = kSize r"
proof (induction vs arbitrary: r ws)
  case (Cons v vs)
  then have "holds (SaveToBuffer r v) (ws @ [v])" by (intro holds_save) auto
  with Cons.IH [of "SaveToBuffer r v" "ws @ [v]"] Cons.prems show ?case by simp
qed simp

text \<open>
  (C23) After any values have been saved into an empty ring buffer, walking from \<open>Begin\<close>
  with \<open>++\<close> visits exactly the last \<open>kSize\<close> of them from oldest to newest, walking from
  \<open>End\<close> with \<open>--\<close> visits the same values from newest to oldest, both loops stop, and
  reading index \<open>kSize - 1\<close> gives the newest value.
\<close>

theorem ring_buffer_keeps_recent:
  assumes "0 < length storage" and "length vs + length storage \<le> 2 ^ 64"
  defines "r \<equiv> foldl SaveToBuffer (RingBuffer_init storage) vs" and "k \<equiv> length storage"
  shows "rb_walk (Suc k) (it_inc r) r (RingBuffer_Begin r) = Some (recent k vs)
     \<and> rb_walk (Suc k) (it_dec r) r (RingBuffer_End r) = Some (rev (recent k vs))
     \<and> (vs \<noteq> [] \<longrightarrow> ReadBuffer r (k - 1) = Inr (last vs))"
proof -
  have "holds (RingBuffer_init storage) []" using assms by (intro holds_init) auto
  from holds_all [OF this, of vs] assms
  have h: "holds r vs" and k: "kSize r = k" by (auto simp: kSize_def RingBuffer_init_def)
  have n: "current_index r = length vs" using h by (simp add: holds_def)
  have "RingBuffer_Begin r = \<lparr>it_index = k - length vs, out_of_range = (k - length vs = k)\<rparr>"
    if "vs \<noteq> []"
    using that assms(1) unfolding RingBuffer_Begin_def k n
    by (cases vs) (auto simp: k_def)
  moreover have "length vs + (k - length vs) - k = length vs - k" by arith
  ultimately have "rb_walk (Suc k) (it_inc r) r (RingBuffer_Begin r) = Some (recent k vs)" if "vs \<noteq> []"
    using walk_forward [OF h, of "k - length vs" "Suc k"] that by (simp add: k recent_def del: rb_walk.simps)
  moreover have "\<not> it_valid r it" if "vs = []" for it
    using that n by (simp add: it_valid_def IsFilledIndex_def IsFilledIndexByBufferIndex_def)
  then have "rb_walk (Suc k) (it_inc r) r (RingBuffer_Begin r) = Some (recent k vs)" if "vs = []"
    using that by (simp add: recent_def)
  ultimately have fwd: "rb_walk (Suc k) (it_inc r) r (RingBuffer_Begin r) = Some (recent k vs)"
    by blast
  have "RingBuffer_End r = \<lparr>it_index = (if k = 0 then 2 ^ 64 - 1 else k - 1), out_of_range = (k = 0)\<rparr>"
    using assms(1) unfolding RingBuffer_End_def k by (simp add: k_def)
  then have bwd: "rb_walk (Suc k) (it_dec r) r (RingBuffer_End r) = Some (rev (recent k vs))"
    using walk_backward [OF h, of k "Suc k"] by (simp add: k recent_def)
  have "k - 1 < kSize r" using assms k by simp
  then have "ReadBuffer r (k - 1) = Inr (last vs)" if "vs \<noteq> []"
  proof -
    have "0 < length vs" "0 < k" using that assms(1) by (simp_all add: k_def)
    then have "k \<le> length vs + (k - 1)" "length vs + (k - 1) - k = length vs - 1" by linarith+
    with ReadBuffer_holds(1) [OF h \<open>k - 1 < kSize r\<close>] that show ?thesis
      by (simp add: k last_conv_nth)
  qed
  with fwd bwd show ?thesis by blast
qed

theorem ring_buffer_keeps_recent_witness:
  "rb_walk 4 (it_inc (foldl SaveToBuffer (RingBuffer_init [0, 0, 0]) [1, 2, 3, 4, 5 :: nat]))
     (foldl SaveToBuffer (RingBuffer_init [0, 0, 0]) [1, 2, 3, 4, 5 :: nat])
     (RingBuffer_Begin (foldl SaveToBuffer (RingBuffer_init [0, 0, 0]) [1, 2, 3, 4, 5 :: nat])) = Some [3, 4, 5]"
proof -
  have eqs: "Suc (length [0, 0, 0 :: nat]) = 4"
      "recent (length [0, 0, 0 :: nat]) [1, 2, 3, 4, 5 :: nat] = [3, 4, 5]"
    by (simp_all add: recent_def)
  have "0 < length [0, 0, 0 :: nat]" and "length [1, 2, 3, 4, 5 :: nat] + length [0, 0, 0 :: nat] \<le> 2 ^ 64"
    by simp_all
  from ring_buffer_keeps_recent [OF this, THEN conjunct1] show ?thesis unfolding eqs .
qed

end
