(* ===== verification/Map_Spec.thy ===== *)
theory Map_Spec
  imports Prelude
begin

text \<open>
  The contract the hash tables and the ordered maps of \<open>containers/\<close> share: a state that
  stands for a finite map, a lookup, an insertion that leaves an existing key alone, and an
  erasure. The locale states the laws once; its lemmas are what a user of any of the maps
  relies on, and every map interprets it on its own definitions.
\<close>

section \<open>Sequences of operations\<close>

datatype ('k, 'v) map_op = MInsert 'k 'v | MErase 'k

fun map_run ::
  "('s \<Rightarrow> 'k \<Rightarrow> 'v \<Rightarrow> ('s \<times> bool) res) \<Rightarrow> ('s \<Rightarrow> 'k \<Rightarrow> ('s \<times> bool) res) \<Rightarrow>
     ('k, 'v) map_op list \<Rightarrow> 's \<Rightarrow> 's res" where
  "map_run ins era [] s = Inr s"
| "map_run ins era (MInsert k v # ops) s = bindE (ins s k v) (\<lambda>(s, b). map_run ins era ops s)"
| "map_run ins era (MErase k # ops) s = bindE (era s k) (\<lambda>(s, b). map_run ins era ops s)"

text \<open>The same sequence on a mathematical map: the first value inserted for a key stays.\<close>

fun map_effect :: "('k, 'v) map_op list \<Rightarrow> ('k \<rightharpoonup> 'v) \<Rightarrow> ('k \<rightharpoonup> 'v)" where
  "map_effect [] f = f"
| "map_effect (MInsert k v # ops) f = map_effect ops (if f k = None then f(k \<mapsto> v) else f)"
| "map_effect (MErase k # ops) f = map_effect ops (f(k := None))"

lemma map_effect_inserts:
  "map_effect (map (\<lambda>(k, v). MInsert k v) kvs) f = map_of kvs ++ f"
proof (induction kvs arbitrary: f)
  case (Cons kv kvs)
  obtain k v where kv: "kv = (k, v)" by (cases kv)
  show ?case
  proof (cases "f k")
    case None
    then show ?thesis using Cons by (auto simp: kv fun_eq_iff map_add_def split: option.splits)
  next
    case (Some w)
    then show ?thesis using Cons by (auto simp: kv fun_eq_iff map_add_def split: option.splits)
  qed
qed simp

section \<open>The contract\<close>

locale map_store =
  fixes inv :: "'s \<Rightarrow> bool"
    and abs :: "'s \<Rightarrow> 'k \<rightharpoonup> 'v"
    and look :: "'s \<Rightarrow> 'k \<Rightarrow> 'v option res"
    and ins :: "'s \<Rightarrow> 'k \<Rightarrow> 'v \<Rightarrow> ('s \<times> bool) res"
    and era :: "'s \<Rightarrow> 'k \<Rightarrow> ('s \<times> bool) res"
    and siz :: "'s \<Rightarrow> nat"
  assumes look_law: "inv s \<Longrightarrow> look s k = Inr (abs s k)"
    and ins_law: "inv s \<Longrightarrow>
      outcome (\<lambda>(s', b). inv s' \<and> b = (abs s k = None) \<and>
         abs s' = (if abs s k = None then (abs s)(k \<mapsto> v) else abs s)) (ins s k v)"
    and era_law: "inv s \<Longrightarrow>
      \<exists>s'. era s k = Inr (s', abs s k \<noteq> None) \<and> inv s' \<and> abs s' = (abs s)(k := None)"
    and siz_law: "inv s \<Longrightarrow> finite (dom (abs s)) \<and> siz s = card (dom (abs s))"
begin

lemma run_refines:
  "inv s \<Longrightarrow> outcome (\<lambda>s'. inv s' \<and> abs s' = map_effect ops (abs s)) (map_run ins era ops s)"
proof (induction ops arbitrary: s)
  case (Cons oper ops)
  show ?case
  proof (cases oper)
    case (MInsert k v)
    show ?thesis unfolding MInsert map_run.simps
    proof (rule outcome_bindE [OF ins_law [OF Cons.prems]])
      fix r assume r: "case r of (s', b) \<Rightarrow> inv s' \<and> b = (abs s k = None) \<and>
         abs s' = (if abs s k = None then (abs s)(k \<mapsto> v) else abs s)"
      obtain s' b where "r = (s', b)" by (cases r)
      with r Cons.IH [of s'] show "outcome (\<lambda>s'. inv s' \<and> abs s' = map_effect (MInsert k v # ops) (abs s))
          (case r of (s, b) \<Rightarrow> map_run ins era ops s)" by simp
    qed
  next
    case (MErase k)
    obtain s' where "era s k = Inr (s', abs s k \<noteq> None)" "inv s'" "abs s' = (abs s)(k := None)"
      using era_law [OF Cons.prems] by blast
    with Cons.IH [of s'] show ?thesis by (simp add: MErase del: fun_upd_apply)
  qed
qed simp

lemma look_after_run:
  assumes "inv s" and "map_run ins era ops s = Inr s'"
  shows "inv s'" and "look s' k = Inr (map_effect ops (abs s) k)"
    and "siz s' = card (dom (map_effect ops (abs s)))"
  using run_refines [OF assms(1), of ops] assms(2) look_law [of s'] siz_law [of s'] by auto

lemma look_after_ins:
  assumes "inv s" and "ins s k v = Inr (s', b)"
  shows "look s' k' = (if k' = k \<and> b then Inr (Some v) else look s k')"
  using ins_law [OF assms(1), of k v] assms(2) look_law [OF assms(1)] look_law [of s'] by auto

lemma look_after_era:
  assumes "inv s" and "era s k = Inr (s', b)"
  shows "look s' k' = (if k' = k then Inr None else look s k')"
    and "b \<longleftrightarrow> look s k \<noteq> Inr None"
  using era_law [OF assms(1), of k] assms(2) look_law [OF assms(1)] look_law [of s'] by auto

lemma siz_after_ins:
  assumes "inv s" and "ins s k v = Inr (s', b)"
  shows "siz s' = siz s + (if b then 1 else 0)"
  using ins_law [OF assms(1), of k v] assms(2) siz_law [OF assms(1)] siz_law [of s']
  by (auto simp: domIff)

lemma siz_after_era:
  assumes "inv s" and "era s k = Inr (s', b)"
  shows "siz s' = siz s - (if b then 1 else 0)"
  using era_law [OF assms(1), of k] assms(2) siz_law [OF assms(1)] siz_law [of s']
  by (auto simp: domIff card_Diff_singleton_if)

end

section \<open>Sets of keys\<close>

text \<open>
  The set containers are maps with a value that carries nothing. Their contract follows from
  the one of the map: a membership test, an insertion and an erasure on the set of keys.
\<close>

datatype 'k set_op = SInsert 'k | SErase 'k

fun set_run :: "('s \<Rightarrow> 'k \<Rightarrow> ('s \<times> bool) res) \<Rightarrow> ('s \<Rightarrow> 'k \<Rightarrow> ('s \<times> bool) res) \<Rightarrow> 'k set_op list \<Rightarrow> 's \<Rightarrow> 's res" where
  "set_run add del [] s = Inr s"
| "set_run add del (SInsert k # ops) s = bindE (add s k) (\<lambda>(s, b). set_run add del ops s)"
| "set_run add del (SErase k # ops) s = bindE (del s k) (\<lambda>(s, b). set_run add del ops s)"

fun set_effect :: "'k set_op list \<Rightarrow> 'k set \<Rightarrow> 'k set" where
  "set_effect [] A = A"
| "set_effect (SInsert k # ops) A = set_effect ops (insert k A)"
| "set_effect (SErase k # ops) A = set_effect ops (A - {k})"

locale set_store =
  fixes inv :: "'s \<Rightarrow> bool"
    and els :: "'s \<Rightarrow> 'k set"
    and mem :: "'s \<Rightarrow> 'k \<Rightarrow> bool res"
    and add :: "'s \<Rightarrow> 'k \<Rightarrow> ('s \<times> bool) res"
    and del :: "'s \<Rightarrow> 'k \<Rightarrow> ('s \<times> bool) res"
    and siz :: "'s \<Rightarrow> nat"
  assumes mem_law: "inv s \<Longrightarrow> mem s k = Inr (k \<in> els s)"
    and add_law: "inv s \<Longrightarrow>
      outcome (\<lambda>(s', b). inv s' \<and> b = (k \<notin> els s) \<and> els s' = insert k (els s)) (add s k)"
    and del_law: "inv s \<Longrightarrow>
      \<exists>s'. del s k = Inr (s', k \<in> els s) \<and> inv s' \<and> els s' = els s - {k}"
    and card_law: "inv s \<Longrightarrow> finite (els s) \<and> siz s = card (els s)"
begin

lemma set_run_refines:
  "inv s \<Longrightarrow> outcome (\<lambda>s'. inv s' \<and> els s' = set_effect ops (els s)) (set_run add del ops s)"
proof (induction ops arbitrary: s)
  case (Cons oper ops)
  show ?case
  proof (cases oper)
    case (SInsert k)
    show ?thesis unfolding SInsert set_run.simps
    proof (rule outcome_bindE [OF add_law [OF Cons.prems]])
      fix r assume r: "case r of (s', b) \<Rightarrow> inv s' \<and> b = (k \<notin> els s) \<and> els s' = insert k (els s)"
      obtain s' b where "r = (s', b)" by (cases r)
      with r Cons.IH [of s'] show "outcome (\<lambda>s'. inv s' \<and> els s' = set_effect (SInsert k # ops) (els s))
          (case r of (s, b) \<Rightarrow> set_run add del ops s)" by simp
    qed
  next
    case (SErase k)
    obtain s' where "del s k = Inr (s', k \<in> els s)" "inv s'" "els s' = els s - {k}"
      using del_law [OF Cons.prems] by blast
    with Cons.IH [of s'] show ?thesis by (simp add: SErase)
  qed
qed simp

lemma mem_after_run:
  assumes "inv s" and "set_run add del ops s = Inr s'"
  shows "inv s'" and "mem s' k = Inr (k \<in> set_effect ops (els s))"
    and "siz s' = card (set_effect ops (els s))"
  using set_run_refines [OF assms(1), of ops] assms(2) mem_law [of s'] card_law [of s'] by auto

end

text \<open>A map whose insertions all carry one value is a set of keys.\<close>

context map_store
begin

lemma keys_set_store:
  "set_store inv (\<lambda>s. dom (abs s)) (\<lambda>s k. bindE (look s k) (\<lambda>r. Inr (r \<noteq> None)))
     (\<lambda>s k. ins s k v) era siz"
proof
  fix s k assume s: "inv s"
  show "bindE (look s k) (\<lambda>r. Inr (r \<noteq> None)) = Inr (k \<in> dom (abs s))"
    using look_law [OF s] by (simp add: domIff)
  show "outcome (\<lambda>(s', b). inv s' \<and> b = (k \<notin> dom (abs s)) \<and> dom (abs s') = insert k (dom (abs s))) (ins s k v)"
    using ins_law [OF s, of k v] by (auto simp: outcome_def domIff split: sum.splits if_splits)
  show "\<exists>s'. era s k = Inr (s', k \<in> dom (abs s)) \<and> inv s' \<and> dom (abs s') = dom (abs s) - {k}"
    using era_law [OF s, of k] by (auto simp: domIff)
  show "finite (dom (abs s)) \<and> siz s = card (dom (abs s))" by (rule siz_law [OF s])
qed

end

end
