(* ===== verification/Unordered_Map.thy ===== *)
theory Unordered_Map
  imports Checked_Arith Map_Spec
begin

text \<open>
  \<open>base::UnorderedMap\<close> (\<open>containers/unordered_map.h\<close>): an open-addressing hash table with
  linear probing and tombstones. A slot's state byte and the lifetimes of its key and value
  are one datatype: key and value are objects exactly in an occupied slot. The table is a
  list of slots, or none before the first allocation. The hash functor, the size of a slot,
  the value \<open>V()\<close> constructs and the allocator are the parameters of the template; keys are
  compared with \<open>==\<close>.

  The two probing loops without a counter can run forever. They are given fuel and end in
  the fault \<open>Diverges\<close> when it runs out; the code's calls get \<open>bucket_count_\<close> units, and
  \<open>prepare_loop_stuck\<close> shows that a probe which has not ended by then never ends.
\<close>

section \<open>State\<close>

datatype ('k, 'v) slot = Empty | Occupied 'k 'v | Deleted

record ('k, 'v) umap =
  slots :: "('k, 'v) slot list option"
  bucket_count :: nat
  usize :: nat
  tombstone_count :: nat

record ('k, 'v) map_traits =
  hasher :: "'k \<Rightarrow> nat"
  slot_size :: nat
  vdflt :: 'v
  map_alloc_ok :: "nat \<Rightarrow> bool"

definition slot_at :: "('k, 'v) slot list \<Rightarrow> nat \<Rightarrow> ('k, 'v) slot res" where
  "slot_at s i = (if i < length s then Inr (s ! i) else Inl OutOfBounds)"

definition table :: "('k, 'v) umap \<Rightarrow> ('k, 'v) slot list" where
  "table m = (case slots m of None \<Rightarrow> [] | Some s \<Rightarrow> s)"

section \<open>Private operations\<close>

text \<open>\<open>h & (bucket_count_ - 1)\<close>\<close>

definition mask_to :: "nat \<Rightarrow> nat \<Rightarrow> nat" where
  "mask_to n h = h AND (n - 1)"

definition BucketFor :: "('k, 'v) map_traits \<Rightarrow> ('k, 'v) umap \<Rightarrow> 'k \<Rightarrow> nat" where
  "BucketFor tr m key = mask_to (bucket_count m) (hasher tr key)"

text \<open>\<open>static_cast<mem_size>(bucket_count_ * kMaxLoadFactor)\<close>: exact for a power of two.\<close>

definition load_limit :: "nat \<Rightarrow> nat" where
  "load_limit n = n * 3 div 4"

fun DestroySlot :: "('k, 'v) slot \<Rightarrow> ('k, 'v) slot" where
  "DestroySlot (Occupied k v) = Empty"
| "DestroySlot c = c"

definition AllocSlots :: "('k, 'v) map_traits \<Rightarrow> nat \<Rightarrow> ('k, 'v) slot list res" where
  "AllocSlots tr count =
     bindE (CheckedAllocationSize count (slot_size tr)) (\<lambda>bytes.
     bindE (ensure (map_alloc_ok tr bytes) (FatalCheck ''UnorderedMap: slot allocation failed'')) (\<lambda>_.
     Inr (replicate count Empty)))"

text \<open>Freeing with the wrong size or with a key and value still alive would be an error.\<close>

definition FreeSlots :: "('k, 'v) slot list option \<Rightarrow> nat \<Rightarrow> unit res" where
  "FreeSlots os count =
     (case os of None \<Rightarrow> Inr ()
      | Some s \<Rightarrow> bindE (ensure (length s = count) BadFree) (\<lambda>_.
                  ensure (\<forall>c \<in> set s. DestroySlot c = c) Leak))"

text \<open>The loop that looks for a slot that is not occupied, and the one that fills it.\<close>

fun place_loop :: "nat \<Rightarrow> ('k, 'v) slot list \<Rightarrow> nat \<Rightarrow> nat \<Rightarrow> nat res" where
  "place_loop 0 s n idx = Inl Diverges"
| "place_loop (Suc fuel) s n idx =
     bindE (slot_at s idx) (\<lambda>c.
     case c of Occupied k v \<Rightarrow> place_loop fuel s n (mask_to n (idx + 1)) | _ \<Rightarrow> Inr idx)"

fun rehash_loop :: "('k, 'v) map_traits \<Rightarrow> ('k, 'v) slot list \<Rightarrow> nat \<Rightarrow> ('k, 'v) slot list
    \<Rightarrow> ('k, 'v) slot list res" where
  "rehash_loop tr new n [] = Inr new"
| "rehash_loop tr new n (c # old) =
     (case c of
        Occupied k v \<Rightarrow>
          bindE (place_loop n new n (mask_to n (hasher tr k))) (\<lambda>idx.
          rehash_loop tr (new[idx := Occupied k v]) n old)
      | _ \<Rightarrow> rehash_loop tr new n old)"

definition GrowAndRehash :: "('k, 'v) map_traits \<Rightarrow> ('k, 'v) umap \<Rightarrow> nat \<Rightarrow> ('k, 'v) umap res" where
  "GrowAndRehash tr m target_count =
     bindE (if target_count > 0 then Inr target_count
            else if bucket_count m = 0 then Inr 16
            else CheckedCountProduct (bucket_count m) 2) (\<lambda>new_count.
     bindE (AllocSlots tr new_count) (\<lambda>new_slots.
     bindE (case slots m of
              None \<Rightarrow> Inr new_slots
            | Some s \<Rightarrow>
                bindE (rehash_loop tr new_slots new_count s) (\<lambda>new_slots.
                bindE (FreeSlots (Some (map DestroySlot s)) (bucket_count m)) (\<lambda>_. Inr new_slots))) (\<lambda>new_slots.
     Inr (m\<lparr>slots := Some new_slots, bucket_count := new_count, tombstone_count := 0\<rparr>))))"

text \<open>\<open>FindSlot\<close>; the index \<open>~mem_size(0)\<close> is \<open>None\<close>, \<open>left\<close> is \<open>bucket_count_ - probes\<close>.\<close>

fun find_loop :: "('k, 'v) slot list \<Rightarrow> nat \<Rightarrow> 'k \<Rightarrow> nat \<Rightarrow> nat \<Rightarrow> nat option res" where
  "find_loop s n key idx 0 = Inr None"
| "find_loop s n key idx (Suc left) =
     bindE (slot_at s idx) (\<lambda>c.
     case c of
       Empty \<Rightarrow> Inr None
     | Occupied k v \<Rightarrow>
         if k = key then Inr (Some idx) else find_loop s n key (mask_to n (idx + 1)) left
     | Deleted \<Rightarrow> find_loop s n key (mask_to n (idx + 1)) left)"

definition FindSlot :: "('k, 'v) map_traits \<Rightarrow> ('k, 'v) umap \<Rightarrow> 'k \<Rightarrow> nat option res" where
  "FindSlot tr m key =
     (if bucket_count m = 0 then Inr None
      else find_loop (table m) (bucket_count m) key (BucketFor tr m key) (bucket_count m))"

fun prepare_loop :: "nat \<Rightarrow> ('k, 'v) slot list \<Rightarrow> nat \<Rightarrow> 'k \<Rightarrow> nat option \<Rightarrow> nat \<Rightarrow> (nat \<times> bool) res" where
  "prepare_loop 0 s n key tombstone idx = Inl Diverges"
| "prepare_loop (Suc fuel) s n key tombstone idx =
     bindE (slot_at s idx) (\<lambda>c.
     case c of
       Empty \<Rightarrow> Inr (case tombstone of None \<Rightarrow> idx | Some t \<Rightarrow> t, True)
     | Deleted \<Rightarrow>
         prepare_loop fuel s n key (case tombstone of None \<Rightarrow> Some idx | Some t \<Rightarrow> Some t) (mask_to n (idx + 1))
     | Occupied k v \<Rightarrow>
         if k = key then Inr (idx, False)
         else prepare_loop fuel s n key tombstone (mask_to n (idx + 1)))"

definition FindOrPrepareInsert ::
  "('k, 'v) map_traits \<Rightarrow> ('k, 'v) umap \<Rightarrow> 'k \<Rightarrow> (('k, 'v) umap \<times> nat \<times> bool) res" where
  "FindOrPrepareInsert tr m key =
     bindE (if bucket_count m = 0 \<or>
               (usize m + tombstone_count m + 1) mod 2 ^ 64 > load_limit (bucket_count m)
            then GrowAndRehash tr m 0 else Inr m) (\<lambda>m.
     bindE (prepare_loop (bucket_count m) (table m) (bucket_count m) key None (BucketFor tr m key)) (\<lambda>r.
     Inr (m, r)))"

text \<open>Constructing key and value in slot \<open>i\<close>, then \<open>MarkOccupied\<close>.\<close>

definition MarkOccupied :: "('k, 'v) umap \<Rightarrow> nat \<Rightarrow> 'k \<Rightarrow> 'v \<Rightarrow> ('k, 'v) umap res" where
  "MarkOccupied m i k v =
     bindE (slot_at (table m) i) (\<lambda>c.
     bindE (ensure (DestroySlot c = c) Lifetime) (\<lambda>_.
     Inr (m\<lparr>slots := Some ((table m)[i := Occupied k v]),
            tombstone_count := (if c = Deleted then (tombstone_count m + (2 ^ 64 - 1)) mod 2 ^ 64
                                else tombstone_count m),
            usize := (usize m + 1) mod 2 ^ 64\<rparr>)))"

section \<open>Public operations\<close>

definition UMap_init :: "('k, 'v) umap" where
  "UMap_init = \<lparr>slots = None, bucket_count = 0, usize = 0, tombstone_count = 0\<rparr>"

definition UMap_emplace ::
  "('k, 'v) map_traits \<Rightarrow> ('k, 'v) umap \<Rightarrow> 'k \<Rightarrow> 'v \<Rightarrow> (('k, 'v) umap \<times> nat \<times> bool) res" where
  "UMap_emplace tr m key val =
     bindE (FindOrPrepareInsert tr m key) (\<lambda>(m, i, fresh).
     if fresh then bindE (MarkOccupied m i key val) (\<lambda>m. Inr (m, i, True))
     else Inr (m, i, False))"

definition UMap_insert ::
  "('k, 'v) map_traits \<Rightarrow> ('k, 'v) umap \<Rightarrow> 'k \<Rightarrow> 'v \<Rightarrow> (('k, 'v) umap \<times> bool) res" where
  "UMap_insert tr m key val =
     bindE (FindOrPrepareInsert tr m key) (\<lambda>(m, i, fresh).
     if fresh then bindE (MarkOccupied m i key val) (\<lambda>m. Inr (m, True))
     else Inr (m, False))"

definition slot_value :: "('k, 'v) slot list \<Rightarrow> nat \<Rightarrow> 'v res" where
  "slot_value s i =
     bindE (slot_at s i) (\<lambda>c. case c of Occupied k v \<Rightarrow> Inr v | _ \<Rightarrow> Inl Lifetime)"

definition UMap_index ::
  "('k, 'v) map_traits \<Rightarrow> ('k, 'v) umap \<Rightarrow> 'k \<Rightarrow> (('k, 'v) umap \<times> 'v) res" where
  "UMap_index tr m key =
     bindE (FindOrPrepareInsert tr m key) (\<lambda>(m, i, fresh).
     bindE (if fresh then MarkOccupied m i key (vdflt tr) else Inr m) (\<lambda>m.
     bindE (slot_value (table m) i) (\<lambda>v. Inr (m, v))))"

definition UMap_find :: "('k, 'v) map_traits \<Rightarrow> ('k, 'v) umap \<Rightarrow> 'k \<Rightarrow> 'v option res" where
  "UMap_find tr m key =
     bindE (FindSlot tr m key) (\<lambda>r.
     case r of None \<Rightarrow> Inr None
     | Some i \<Rightarrow> bindE (slot_value (table m) i) (\<lambda>v. Inr (Some v)))"

definition UMap_contains :: "('k, 'v) map_traits \<Rightarrow> ('k, 'v) umap \<Rightarrow> 'k \<Rightarrow> bool res" where
  "UMap_contains tr m key = bindE (FindSlot tr m key) (\<lambda>r. Inr (r \<noteq> None))"

definition UMap_count :: "('k, 'v) map_traits \<Rightarrow> ('k, 'v) umap \<Rightarrow> 'k \<Rightarrow> nat res" where
  "UMap_count tr m key = bindE (UMap_contains tr m key) (\<lambda>b. Inr (if b then 1 else 0))"

definition UMap_at :: "('k, 'v) map_traits \<Rightarrow> ('k, 'v) umap \<Rightarrow> 'k \<Rightarrow> 'v res" where
  "UMap_at tr m key =
     bindE (UMap_find tr m key) (\<lambda>r.
     case r of None \<Rightarrow> Inl (BugCheck ''UnorderedMap::at: key not present'') | Some v \<Rightarrow> Inr v)"

definition UMap_erase ::
  "('k, 'v) map_traits \<Rightarrow> ('k, 'v) umap \<Rightarrow> 'k \<Rightarrow> (('k, 'v) umap \<times> bool) res" where
  "UMap_erase tr m key =
     bindE (FindSlot tr m key) (\<lambda>r.
     case r of None \<Rightarrow> Inr (m, False)
     | Some i \<Rightarrow>
         bindE (slot_value (table m) i) (\<lambda>_.
         Inr (m\<lparr>slots := Some ((table m)[i := Deleted]),
                usize := (usize m + (2 ^ 64 - 1)) mod 2 ^ 64,
                tombstone_count := (tombstone_count m + 1) mod 2 ^ 64\<rparr>, True)))"

definition UMap_clear :: "('k, 'v) umap \<Rightarrow> ('k, 'v) umap" where
  "UMap_clear m =
     m\<lparr>slots := map_option (map DestroySlot) (slots m), usize := 0, tombstone_count := 0\<rparr>"

definition UMap_reserve :: "('k, 'v) map_traits \<Rightarrow> ('k, 'v) umap \<Rightarrow> nat \<Rightarrow> ('k, 'v) umap res" where
  "UMap_reserve tr m count =
     bindE (CheckedCountProduct count 4) (\<lambda>scaled.
     bindE (CheckedCountSum (scaled div 3) 1) (\<lambda>required.
     bindE (CheckedRoundUpToPowerOfTwo required) (\<lambda>rounded.
     let target = Max2 16 rounded in
     if target > bucket_count m then GrowAndRehash tr m target else Inr m)))"

definition UMap_remaining_capacity :: "('k, 'v) umap \<Rightarrow> nat" where
  "UMap_remaining_capacity m =
     (if bucket_count m = 0 then 0
      else let used = (usize m + tombstone_count m) mod 2 ^ 64 in
           if load_limit (bucket_count m) > used then load_limit (bucket_count m) - used else 0)"

fun insert_entries :: "('k, 'v) map_traits \<Rightarrow> ('k, 'v) umap \<Rightarrow> ('k \<times> 'v) list \<Rightarrow> ('k, 'v) umap res" where
  "insert_entries tr m [] = Inr m"
| "insert_entries tr m ((k, v) # kvs) = bindE (UMap_insert tr m k v) (\<lambda>(m, b). insert_entries tr m kvs)"

definition UMap_of_list :: "('k, 'v) map_traits \<Rightarrow> ('k \<times> 'v) list \<Rightarrow> ('k, 'v) umap res" where
  "UMap_of_list tr kvs =
     bindE (UMap_reserve tr UMap_init (length kvs)) (\<lambda>m. insert_entries tr m kvs)"

text \<open>The copy loop: as in a rehash, but counting the entries.\<close>

fun copy_loop :: "('k, 'v) map_traits \<Rightarrow> ('k, 'v) slot list \<Rightarrow> nat \<Rightarrow> nat \<Rightarrow> ('k, 'v) slot list
    \<Rightarrow> (('k, 'v) slot list \<times> nat) res" where
  "copy_loop tr new n cnt [] = Inr (new, cnt)"
| "copy_loop tr new n cnt (c # old) =
     (case c of
        Occupied k v \<Rightarrow>
          bindE (place_loop n new n (mask_to n (hasher tr k))) (\<lambda>idx.
          copy_loop tr (new[idx := Occupied k v]) n ((cnt + 1) mod 2 ^ 64) old)
      | _ \<Rightarrow> copy_loop tr new n cnt old)"

definition UMap_copy :: "('k, 'v) map_traits \<Rightarrow> ('k, 'v) umap \<Rightarrow> ('k, 'v) umap res" where
  "UMap_copy tr other =
     (if usize other > 0 then
        bindE (AllocSlots tr (bucket_count other)) (\<lambda>new.
        bindE (copy_loop tr new (bucket_count other) 0 (table other)) (\<lambda>(new, cnt).
        Inr \<lparr>slots = Some new, bucket_count = bucket_count other, usize = cnt, tombstone_count = 0\<rparr>))
      else Inr UMap_init)"

definition UMap_destroy :: "('k, 'v) umap \<Rightarrow> unit res" where
  "UMap_destroy m = (let m = UMap_clear m in FreeSlots (slots m) (bucket_count m))"

definition UMap_copy_assign ::
  "('k, 'v) map_traits \<Rightarrow> bool \<Rightarrow> ('k, 'v) umap \<Rightarrow> ('k, 'v) umap \<Rightarrow> ('k, 'v) umap res" where
  "UMap_copy_assign tr same m other =
     (if same then Inr m else bindE (UMap_destroy m) (\<lambda>_. UMap_copy tr other))"

text \<open>Moving: the new map and what is left in the old one.\<close>

definition UMap_move :: "('k, 'v) umap \<Rightarrow> ('k, 'v) umap \<times> ('k, 'v) umap" where
  "UMap_move other = (other, UMap_init)"

definition UMap_move_assign ::
  "bool \<Rightarrow> ('k, 'v) umap \<Rightarrow> ('k, 'v) umap \<Rightarrow> (('k, 'v) umap \<times> ('k, 'v) umap) res" where
  "UMap_move_assign same m other =
     (if same then Inr (m, m) else bindE (UMap_destroy m) (\<lambda>_. Inr (UMap_move other)))"

text \<open>
  Iterators: \<open>AdvanceToOccupied\<close>, then the walk from \<open>begin\<close> to \<open>end\<close>; \<open>ForEach\<close> visits
  every index.
\<close>

function AdvanceToOccupied :: "('k, 'v) slot list \<Rightarrow> nat \<Rightarrow> nat \<Rightarrow> nat res" where
  "AdvanceToOccupied s n i =
     (if i < n then
        bindE (slot_at s i) (\<lambda>c. case c of Occupied k v \<Rightarrow> Inr i | _ \<Rightarrow> AdvanceToOccupied s n (i + 1))
      else Inr i)"
  by pat_completeness auto
termination by (relation "measure (\<lambda>(s, n, i). n - i)") auto

declare AdvanceToOccupied.simps [simp del]

fun iterate_umap :: "nat \<Rightarrow> ('k, 'v) slot list \<Rightarrow> nat \<Rightarrow> nat \<Rightarrow> ('k \<times> 'v) list res" where
  "iterate_umap 0 s n i = Inl Diverges"
| "iterate_umap (Suc fuel) s n i =
     bindE (AdvanceToOccupied s n i) (\<lambda>i.
     if i = n then Inr []
     else bindE (slot_at s i) (\<lambda>c.
          case c of
            Occupied k v \<Rightarrow> bindE (iterate_umap fuel s n (i + 1)) (\<lambda>kvs. Inr ((k, v) # kvs))
          | _ \<Rightarrow> Inl Lifetime))"

definition UMap_iterate :: "('k, 'v) umap \<Rightarrow> ('k \<times> 'v) list res" where
  "UMap_iterate m = iterate_umap (Suc (bucket_count m)) (table m) (bucket_count m) 0"

fun for_each_slot :: "('k \<Rightarrow> 'v \<Rightarrow> 's \<Rightarrow> 's) \<Rightarrow> ('k, 'v) slot list \<Rightarrow> nat \<Rightarrow> nat \<Rightarrow> 's \<Rightarrow> 's res" where
  "for_each_slot func s i 0 st = Inr st"
| "for_each_slot func s i (Suc n) st =
     bindE (slot_at s i) (\<lambda>c.
     for_each_slot func s (i + 1) n (case c of Occupied k v \<Rightarrow> func k v st | _ \<Rightarrow> st))"

definition UMap_ForEach :: "('k \<Rightarrow> 'v \<Rightarrow> 's \<Rightarrow> 's) \<Rightarrow> ('k, 'v) umap \<Rightarrow> 's \<Rightarrow> 's res" where
  "UMap_ForEach func m st = for_each_slot func (table m) 0 (bucket_count m) st"

definition UMap_size :: "('k, 'v) umap \<Rightarrow> nat" where
  "UMap_size m = usize m"

definition UMap_empty :: "('k, 'v) umap \<Rightarrow> bool" where
  "UMap_empty m \<longleftrightarrow> usize m = 0"

section \<open>Entries of a table\<close>

fun entries :: "('k, 'v) slot list \<Rightarrow> ('k \<times> 'v) list" where
  "entries [] = []"
| "entries (Occupied k v # s) = (k, v) # entries s"
| "entries (Empty # s) = entries s"
| "entries (Deleted # s) = entries s"

definition keys_of :: "('k, 'v) slot list \<Rightarrow> 'k list" where
  "keys_of s = map fst (entries s)"

definition umap_abs :: "('k, 'v) umap \<Rightarrow> 'k \<rightharpoonup> 'v" where
  "umap_abs m = map_of (entries (table m))"

lemma entries_append [simp]: "entries (s @ t) = entries s @ entries t"
  by (induction s rule: entries.induct) auto

lemma entries_nth_iff: "(k, v) \<in> set (entries s) \<longleftrightarrow> (\<exists>i < length s. s ! i = Occupied k v)"
proof -
  have "(k, v) \<in> set (entries s) \<longleftrightarrow> Occupied k v \<in> set s"
    by (induction s rule: entries.induct) auto
  then show ?thesis by (simp add: in_set_conv_nth)
qed

lemma entries_free [simp]: "entries (replicate n Empty) = []" "entries (replicate n Deleted) = []"
  by (induction n) auto

lemma entries_destroyed [simp]: "entries (map DestroySlot s) = []"
  by (induction s rule: entries.induct) auto

lemma DestroySlot_idem [simp]: "DestroySlot (DestroySlot c) = DestroySlot c"
  by (cases c) auto

lemma DestroySlot_fixed: "DestroySlot c = c \<longleftrightarrow> (\<forall>k v. c \<noteq> Occupied k v)"
  by (cases c) auto

text \<open>Writing one slot, seen through the entries.\<close>

lemma entries_update:
  assumes "i < length s" and "DestroySlot (s ! i) = s ! i"
  obtains xs ys where "entries s = xs @ ys"
    and "entries (s[i := Occupied k v]) = xs @ (k, v) # ys"
proof
  have s: "s = take i s @ s ! i # drop (Suc i) s" using assms(1) by (rule id_take_nth_drop)
  have "entries (s ! i # drop (Suc i) s) = entries (drop (Suc i) s)"
    using assms(2) by (cases "s ! i") auto
  then show "entries s = entries (take i s) @ entries (drop (Suc i) s)"
    using s by (metis entries_append)
  show "entries (s[i := Occupied k v]) = entries (take i s) @ (k, v) # entries (drop (Suc i) s)"
    using assms(1) by (simp add: upd_conv_take_nth_drop)
qed

lemma entries_erase:
  assumes "i < length s" and "s ! i = Occupied k v"
  obtains xs ys where "entries s = xs @ (k, v) # ys"
    and "entries (s[i := Deleted]) = xs @ ys"
proof
  have s: "s = take i s @ s ! i # drop (Suc i) s" using assms(1) by (rule id_take_nth_drop)
  then show "entries s = entries (take i s) @ (k, v) # entries (drop (Suc i) s)"
    using assms(2) by (metis entries.simps(2) entries_append)
  show "entries (s[i := Deleted]) = entries (take i s) @ entries (drop (Suc i) s)"
    using assms(1) by (simp add: upd_conv_take_nth_drop)
qed

definition tombs :: "('k, 'v) slot list \<Rightarrow> nat" where
  "tombs s = length (filter (\<lambda>c. c = Deleted) s)"

lemma tombs_update:
  assumes "i < length s"
  shows "tombs (s[i := c]) + (if s ! i = Deleted then 1 else 0) = tombs s + (if c = Deleted then 1 else 0)"
proof -
  have "tombs s = tombs (take i s @ s ! i # drop (Suc i) s)"
    using assms by (simp add: id_take_nth_drop [symmetric])
  then show ?thesis using assms by (simp add: upd_conv_take_nth_drop tombs_def)
qed

lemma tombs_free [simp]: "tombs (replicate n Empty) = 0"
  by (simp add: tombs_def)

lemma occupied_bound: "length (entries s) + tombs s + length (filter (\<lambda>c. c = Empty) s) = length s"
  by (induction s rule: entries.induct) (auto simp: tombs_def)

lemma empty_slot_exists:
  assumes "length (entries s) + tombs s < length s"
  shows "\<exists>i < length s. s ! i = Empty"
proof -
  have "filter (\<lambda>c. c = Empty) s \<noteq> []" using assms occupied_bound [of s] by auto
  then show ?thesis by (metis (mono_tags, lifting) filter_False in_set_conv_nth)
qed

lemma free_slot_exists:
  assumes "length (entries s) < length s"
  shows "\<exists>i < length s. DestroySlot (s ! i) = s ! i"
proof (rule ccontr)
  assume "\<not> ?thesis"
  then have "\<forall>c \<in> set s. c \<noteq> Empty \<and> c \<noteq> Deleted" by (metis DestroySlot.simps(2,3) in_set_conv_nth)
  then have "tombs s = 0" "filter (\<lambda>c. c = Empty) s = []" by (auto simp: tombs_def filter_empty_conv)
  with occupied_bound [of s] assms show False by simp
qed

section \<open>Probe sequences\<close>

text \<open>The slot at distance \<open>d\<close> from the home bucket of a hash.\<close>

abbreviation probe :: "('k, 'v) slot list \<Rightarrow> nat \<Rightarrow> nat \<Rightarrow> ('k, 'v) slot" where
  "probe s h d \<equiv> s ! ((h + d) mod length s)"

definition reachable :: "('k, 'v) slot list \<Rightarrow> nat \<Rightarrow> nat \<Rightarrow> bool" where
  "reachable s h i \<longleftrightarrow>
     (\<exists>d < length s. i = (h + d) mod length s \<and> (\<forall>e < d. probe s h e \<noteq> Empty))"

definition pow2_len :: "'a list \<Rightarrow> bool" where
  "pow2_len s \<longleftrightarrow> (\<exists>p. length s = 2 ^ p)"

lemma pow2_len_pos: "pow2_len s \<Longrightarrow> s \<noteq> []"
  by (auto simp: pow2_len_def)

lemma pow2_len_update [simp]: "pow2_len (s[i := c]) = pow2_len s"
  by (simp add: pow2_len_def)

definition table_ok :: "('k, 'v) map_traits \<Rightarrow> ('k, 'v) slot list \<Rightarrow> bool" where
  "table_ok tr s \<longleftrightarrow> pow2_len s \<and> distinct (keys_of s) \<and>
     (\<forall>i < length s. \<forall>k v. s ! i = Occupied k v \<longrightarrow> reachable s (hasher tr k) i)"

lemma table_ok_pos: "table_ok tr s \<Longrightarrow> 0 < length s"
  by (auto simp: table_ok_def dest: pow2_len_pos)

lemma mask_step:
  assumes "n = 2 ^ p"
  shows "mask_to n h = h mod n" and "mask_to n (h mod n + 1) = (h + 1) mod n"
  using assms and_pow2_mod [OF assms] by (simp_all add: mask_to_def mod_simps)

lemma same_key_same_slot:
  assumes "distinct (keys_of s)" and "i < length s" and "j < length s"
    and "s ! i = Occupied k v" and "s ! j = Occupied k w"
  shows "i = j"
  using assms
proof (induction s arbitrary: i j)
  case (Cons c s)
  have no: "x \<noteq> Occupied k' u" if "c = Occupied k' w'" "x \<in> set s" for k' w' x u
    using Cons.prems(1) that entries_nth_iff [of k' u s]
    by (force simp: keys_of_def in_set_conv_nth image_iff)
  have ih: "distinct (keys_of s)"
    using Cons.prems(1) by (cases c) (auto simp: keys_of_def)
  show ?case
  proof (cases i; cases j)
    fix j' assume "i = 0" "j = Suc j'"
    with Cons.prems no [of k v "s ! j'" w] nth_mem [of j' s] show ?thesis by simp
  next
    fix i' assume "i = Suc i'" "j = 0"
    with Cons.prems no [of k w "s ! i'" v] nth_mem [of i' s] show ?thesis by simp
  next
    fix i' j' assume "i = Suc i'" "j = Suc j'"
    with Cons.prems Cons.IH [OF ih] show ?thesis by simp
  qed simp
qed simp

lemma absent_key: "k \<notin> set (keys_of s) \<Longrightarrow> i < length s \<Longrightarrow> s ! i \<noteq> Occupied k v"
  using entries_nth_iff [of k v s] by (force simp: keys_of_def)

section \<open>What the probing loops return\<close>

lemma slot_at_probe: "pow2_len s \<Longrightarrow> slot_at s ((h + d) mod length s) = Inr (probe s h d)"
  by (simp add: slot_at_def pow2_len_pos)

lemma mask_probe:
  assumes "pow2_len s"
  shows "mask_to (length s) ((h + d) mod length s + 1) = (h + Suc d) mod length s"
    and "mask_to (length s) (Suc ((h + d) mod length s)) = (h + Suc d) mod length s"
    and "mask_to (length s) h = h mod length s"
proof -
  obtain p where p: "length s = 2 ^ p" using assms by (auto simp: pow2_len_def)
  show "mask_to (length s) ((h + d) mod length s + 1) = (h + Suc d) mod length s"
    using mask_step(2) [OF p, of "h + d"] by simp
  then show "mask_to (length s) (Suc ((h + d) mod length s)) = (h + Suc d) mod length s" by simp
  show "mask_to (length s) h = h mod length s" by (rule mask_step(1) [OF p])
qed

lemmas probe_simps = slot_at_probe mask_probe pow2_len_pos mod_Suc_eq

lemma find_loop_hit:
  assumes "pow2_len s" and "d \<le> e" and "e < d + left" and "probe s h e = Occupied key v"
    and "\<And>e'. d \<le> e' \<Longrightarrow> e' < e \<Longrightarrow> probe s h e' \<noteq> Empty \<and> (\<forall>w. probe s h e' \<noteq> Occupied key w)"
  shows "find_loop s (length s) key ((h + d) mod length s) left = Inr (Some ((h + e) mod length s))"
  using assms(2-)
proof (induction left arbitrary: d)
  case (Suc left)
  show ?case
  proof (cases "d = e")
    case True
    then show ?thesis using Suc.prems assms(1) by (simp add: probe_simps)
  next
    case False
    then have "find_loop s (length s) key ((h + Suc d) mod length s) left = Inr (Some ((h + e) mod length s))"
      using Suc.prems by (intro Suc.IH) auto
    with Suc.prems(4) [of d] Suc.prems(1) False assms(1) show ?thesis
      by (auto simp: probe_simps split: slot.split)
  qed
qed simp

lemma find_loop_miss:
  assumes "pow2_len s" and "key \<notin> set (keys_of s)"
  shows "find_loop s (length s) key ((h + d) mod length s) left = Inr None"
proof (induction left arbitrary: d)
  case (Suc left)
  have "\<forall>w. probe s h d \<noteq> Occupied key w" using absent_key [OF assms(2)] assms(1) by (simp add: pow2_len_pos)
  with Suc.IH [of "Suc d"] assms(1) show ?case by (auto simp: probe_simps split: slot.split)
qed simp

lemma prepare_loop_hit:
  assumes "pow2_len s" and "d \<le> e" and "e < d + fuel" and "probe s h e = Occupied key v"
    and "\<And>e'. d \<le> e' \<Longrightarrow> e' < e \<Longrightarrow> probe s h e' \<noteq> Empty \<and> (\<forall>w. probe s h e' \<noteq> Occupied key w)"
  shows "prepare_loop fuel s (length s) key t ((h + d) mod length s) = Inr ((h + e) mod length s, False)"
  using assms(2-)
proof (induction fuel arbitrary: d t)
  case (Suc fuel)
  show ?case
  proof (cases "d = e")
    case True
    then show ?thesis using Suc.prems assms(1) by (simp add: probe_simps)
  next
    case False
    then have "prepare_loop fuel s (length s) key t' ((h + Suc d) mod length s) = Inr ((h + e) mod length s, False)" for t'
      using Suc.prems by (intro Suc.IH) auto
    with Suc.prems(4) [of d] Suc.prems(1) False assms(1) show ?thesis
      by (auto simp: probe_simps split: slot.split)
  qed
qed simp

lemma prepare_loop_keep:
  assumes "pow2_len s" and "d \<le> e" and "e < d + fuel" and "probe s h e = Empty"
    and "\<And>e'. d \<le> e' \<Longrightarrow> e' < e \<Longrightarrow> probe s h e' \<noteq> Empty"
    and "key \<notin> set (keys_of s)"
  shows "prepare_loop fuel s (length s) key (Some t) ((h + d) mod length s) = Inr (t, True)"
  using assms(2-)
proof (induction fuel arbitrary: d)
  case (Suc fuel)
  show ?case
  proof (cases "d = e")
    case True
    then show ?thesis using Suc.prems assms(1) by (simp add: probe_simps)
  next
    case False
    then have "prepare_loop fuel s (length s) key (Some t) ((h + Suc d) mod length s) = Inr (t, True)"
      using Suc.prems by (intro Suc.IH) auto
    moreover have "\<forall>w. probe s h d \<noteq> Occupied key w" using absent_key [OF assms(6)] assms(1) by (simp add: pow2_len_pos)
    ultimately show ?thesis using Suc.prems(4) [of d] Suc.prems(1) False assms(1)
      by (auto simp: probe_simps split: slot.split)
  qed
qed simp

lemma prepare_loop_fresh:
  assumes "pow2_len s" and "d \<le> e" and "e < d + fuel" and "probe s h e = Empty"
    and "\<And>e'. d \<le> e' \<Longrightarrow> e' < e \<Longrightarrow> probe s h e' \<noteq> Empty"
    and "key \<notin> set (keys_of s)"
  shows "\<exists>x. d \<le> x \<and> x \<le> e \<and> DestroySlot (probe s h x) = probe s h x \<and>
     prepare_loop fuel s (length s) key None ((h + d) mod length s) = Inr ((h + x) mod length s, True)"
  using assms(2-)
proof (induction fuel arbitrary: d)
  case (Suc fuel)
  have here: "\<forall>w. probe s h d \<noteq> Occupied key w" using absent_key [OF assms(6)] assms(1) by (simp add: pow2_len_pos)
  show ?case
  proof (cases "probe s h d")
    case Empty
    then have "d = e" using Suc.prems(1,4) by force
    with Empty assms(1) show ?thesis by (intro exI [of _ e]) (simp add: probe_simps)
  next
    case Deleted
    then have "d \<noteq> e" using Suc.prems(3) by auto
    then have "prepare_loop fuel s (length s) key (Some ((h + d) mod length s)) ((h + Suc d) mod length s)
        = Inr ((h + d) mod length s, True)"
      using Suc.prems by (intro prepare_loop_keep [OF assms(1), where e = e]) auto
    with Deleted assms(1) Suc.prems(1) show ?thesis by (intro exI [of _ d]) (simp add: probe_simps)
  next
    case (Occupied k v)
    then have "d \<noteq> e" using Suc.prems(3) by auto
    then obtain x where "Suc d \<le> x" "x \<le> e" "DestroySlot (probe s h x) = probe s h x"
        "prepare_loop fuel s (length s) key None ((h + Suc d) mod length s) = Inr ((h + x) mod length s, True)"
      using Suc.IH [of "Suc d"] Suc.prems by auto
    with Occupied here assms(1) show ?thesis by (intro exI [of _ x]) (auto simp: probe_simps)
  qed
qed simp

text \<open>A table with no empty slot and without the key: the probe never ends.\<close>

lemma prepare_loop_stuck:
  assumes "pow2_len s" and "Empty \<notin> set s" and "key \<notin> set (keys_of s)"
  shows "prepare_loop fuel s (length s) key t ((h + d) mod length s) = Inl Diverges"
proof (induction fuel arbitrary: d t)
  case (Suc fuel)
  have "\<forall>w. probe s h d \<noteq> Occupied key w" using absent_key [OF assms(3)] assms(1) by (simp add: pow2_len_pos)
  moreover have "probe s h d \<in> set s" using assms(1) by (intro nth_mem) (simp add: pow2_len_pos)
  then have "probe s h d \<noteq> Empty" using assms(2) by metis
  ultimately show ?case using Suc.IH [where d = "Suc d"] assms(1)
    by (auto simp: probe_simps split: slot.split)
qed simp

lemma place_loop_free:
  assumes "pow2_len s" and "d \<le> e" and "e < d + fuel" and "DestroySlot (probe s h e) = probe s h e"
    and "\<And>e'. d \<le> e' \<Longrightarrow> e' < e \<Longrightarrow> DestroySlot (probe s h e') \<noteq> probe s h e'"
  shows "place_loop fuel s (length s) ((h + d) mod length s) = Inr ((h + e) mod length s)"
  using assms(2-)
proof (induction fuel arbitrary: d)
  case (Suc fuel)
  show ?case
  proof (cases "d = e")
    case True
    then show ?thesis using Suc.prems(3) assms(1)
      by (auto simp: probe_simps DestroySlot_fixed split: slot.split)
  next
    case False
    then have "place_loop fuel s (length s) ((h + Suc d) mod length s) = Inr ((h + e) mod length s)"
      using Suc.prems by (intro Suc.IH) auto
    with Suc.prems(4) [of d] Suc.prems(1) False assms(1) show ?thesis
      by (auto simp: probe_simps split: slot.split)
  qed
qed simp

section \<open>Writing a slot keeps the table searchable\<close>

lemma reachable_mono:
  assumes "reachable s h i" and "length s' = length s"
    and "\<And>j. j < length s \<Longrightarrow> s ! j \<noteq> Empty \<Longrightarrow> s' ! j \<noteq> Empty"
  shows "reachable s' h i"
proof -
  obtain d where d: "d < length s" "i = (h + d) mod length s" "\<forall>e < d. probe s h e \<noteq> Empty"
    using assms(1) by (auto simp: reachable_def)
  moreover have "0 < length s" using d(1) by linarith
  ultimately show ?thesis unfolding reachable_def assms(2)
    by (intro exI [of _ d]) (auto simp: assms(3))
qed

lemma table_ok_insert:
  assumes "table_ok tr s" and "i < length s" and "DestroySlot (s ! i) = s ! i"
    and "reachable s (hasher tr k) i" and "k \<notin> set (keys_of s)"
  shows "table_ok tr (s[i := Occupied k v])"
    and "map_of (entries (s[i := Occupied k v])) = (map_of (entries s))(k \<mapsto> v)"
    and "length (entries (s[i := Occupied k v])) = Suc (length (entries s))"
    and "set (keys_of (s[i := Occupied k v])) = insert k (set (keys_of s))"
proof -
  let ?s = "s[i := Occupied k v]"
  obtain xs ys where e: "entries s = xs @ ys" "entries ?s = xs @ (k, v) # ys"
    using entries_update [OF assms(2,3)] .
  have fresh: "k \<notin> fst ` set xs" "k \<notin> fst ` set ys" using assms(5) e by (auto simp: keys_of_def)
  then have "map_of xs k = None" by (simp add: map_of_eq_None_iff)
  then show "map_of (entries ?s) = (map_of (entries s))(k \<mapsto> v)"
    by (auto simp: e fun_eq_iff map_add_def split: option.split)
  show "length (entries ?s) = Suc (length (entries s))" using e by simp
  show "set (keys_of ?s) = insert k (set (keys_of s))" using e by (auto simp: keys_of_def)
  have dist: "distinct (keys_of ?s)"
    using assms(1) e fresh by (auto simp: table_ok_def keys_of_def)
  have mono: "reachable ?s h j" if "reachable s h j" for h j
    using that by (rule reachable_mono) (use assms(2) in \<open>auto simp: nth_list_update split: if_splits\<close>)
  show "table_ok tr ?s" unfolding table_ok_def
  proof (intro conjI allI impI)
    fix j k' v' assume "j < length ?s" "?s ! j = Occupied k' v'"
    with assms mono show "reachable ?s (hasher tr k') j"
      by (cases "j = i") (auto simp: table_ok_def)
  qed (use assms(1) dist in \<open>auto simp: table_ok_def\<close>)
qed

lemma table_ok_erase:
  assumes "table_ok tr s" and "i < length s" and "s ! i = Occupied k v"
  shows "table_ok tr (s[i := Deleted])"
    and "map_of (entries (s[i := Deleted])) = (map_of (entries s))(k := None)"
    and "Suc (length (entries (s[i := Deleted]))) = length (entries s)"
proof -
  let ?s = "s[i := Deleted]"
  obtain xs ys where e: "entries s = xs @ (k, v) # ys" "entries ?s = xs @ ys"
    using entries_erase [OF assms(2,3)] .
  have dist: "distinct (map fst (xs @ (k, v) # ys))"
    using assms(1) e by (simp add: table_ok_def keys_of_def)
  then have "map_of xs k = None" "map_of ys k = None" by (simp_all add: map_of_eq_None_iff)
  then show "map_of (entries ?s) = (map_of (entries s))(k := None)"
    by (auto simp: e fun_eq_iff map_add_def split: option.split)
  show "Suc (length (entries ?s)) = length (entries s)" using e by simp
  have mono: "reachable ?s h j" if "reachable s h j" for h j
    using that by (rule reachable_mono) (use assms(2) in \<open>auto simp: nth_list_update split: if_splits\<close>)
  show "table_ok tr ?s" unfolding table_ok_def
  proof (intro conjI allI impI)
    fix j k' v' assume "j < length ?s" "?s ! j = Occupied k' v'"
    with assms mono show "reachable ?s (hasher tr k') j"
      by (cases "j = i") (auto simp: table_ok_def)
  qed (use assms(1) dist e in \<open>auto simp: table_ok_def keys_of_def\<close>)
qed

section \<open>The invariant\<close>

definition wf_table :: "('k, 'v) map_traits \<Rightarrow> ('k, 'v) umap \<Rightarrow> bool" where
  "wf_table tr m \<longleftrightarrow>
     bucket_count m = length (table m) \<and> 16 \<le> length (table m) \<and> length (table m) \<le> 2 ^ 63 \<and>
     usize m = length (entries (table m)) \<and> tombstone_count m = tombs (table m) \<and>
     usize m + tombstone_count m \<le> load_limit (bucket_count m) \<and> table_ok tr (table m)"

definition wf_umap :: "('k, 'v) map_traits \<Rightarrow> ('k, 'v) umap \<Rightarrow> bool" where
  "wf_umap tr m \<longleftrightarrow> (if slots m = None then m = UMap_init else wf_table tr m)"

lemma wf_umap_init: "wf_umap tr UMap_init"
  by (simp add: wf_umap_def UMap_init_def)

lemma wf_umap_cases:
  assumes "wf_umap tr m"
  obtains (none) "m = UMap_init" | (some) "wf_table tr m"
  using assms by (auto simp: wf_umap_def split: if_splits)

lemma table_some [simp]: "slots m = Some s \<Longrightarrow> table m = s"
  by (simp add: table_def)

lemma umap_abs_init [simp]: "umap_abs UMap_init = Map.empty"
  by (simp add: umap_abs_def UMap_init_def table_def)

lemma wf_table_slots: "wf_table tr m \<Longrightarrow> slots m = Some (table m)"
  by (cases "slots m") (auto simp: wf_table_def table_def)

lemma wf_table_wf: "wf_table tr m \<Longrightarrow> wf_umap tr m"
  unfolding wf_umap_def by (metis option.distinct(1) wf_table_slots)

lemma wf_table_mask: "wf_table tr m \<Longrightarrow> BucketFor tr m k = (hasher tr k + 0) mod length (table m)"
  using mask_probe(3) [of "table m"] by (simp add: BucketFor_def wf_table_def table_ok_def)

lemma umap_abs_Some:
  assumes "wf_table tr m"
  shows "umap_abs m k = Some v \<longleftrightarrow> (\<exists>i < length (table m). table m ! i = Occupied k v)"
  using assms entries_nth_iff [of k v "table m"]
  by (auto simp: umap_abs_def wf_table_def table_ok_def keys_of_def map_of_eq_Some_iff)

lemma umap_abs_None: "umap_abs m k = None \<longleftrightarrow> k \<notin> set (keys_of (table m))"
  by (simp add: umap_abs_def keys_of_def map_of_eq_None_iff)

text \<open>The way from the home bucket of a stored key to its slot.\<close>

lemma key_path:
  assumes "table_ok tr s" and "i < length s" and "s ! i = Occupied k v"
  obtains e where "e < length s" and "i = (hasher tr k + e) mod length s"
    and "probe s (hasher tr k) e = Occupied k v"
    and "\<And>e'. e' < e \<Longrightarrow> probe s (hasher tr k) e' \<noteq> Empty \<and> (\<forall>w. probe s (hasher tr k) e' \<noteq> Occupied k w)"
proof -
  obtain e where e: "e < length s" "i = (hasher tr k + e) mod length s"
      "\<forall>e' < e. probe s (hasher tr k) e' \<noteq> Empty"
    using assms by (auto simp: table_ok_def reachable_def)
  have "probe s (hasher tr k) e' \<noteq> Occupied k w" if "e' < e" for e' w
  proof
    assume "probe s (hasher tr k) e' = Occupied k w"
    moreover have "0 < length s" using e(1) by linarith
    ultimately have "(hasher tr k + e') mod length s = i"
      using assms by (intro same_key_same_slot [of s]) (auto simp: table_ok_def)
    with e(2) have "e' = e" using e(1) that by (intro mod_inj_offset [of "hasher tr k" e' "length s" e]) auto
    with that show False by simp
  qed
  with e assms(3) that show thesis by blast
qed

section \<open>Lookup\<close>

lemma FindSlot_hit:
  assumes "wf_table tr m" and "umap_abs m k = Some v"
  obtains i where "FindSlot tr m k = Inr (Some i)" and "i < length (table m)" and "table m ! i = Occupied k v"
proof -
  let ?s = "table m"
  obtain i where i: "i < length ?s" "?s ! i = Occupied k v"
    using assms(2) umap_abs_Some [OF assms(1)] by blast
  have ok: "table_ok tr ?s" and n: "bucket_count m = length ?s" using assms by (auto simp: wf_table_def)
  obtain e where e: "e < length ?s" "i = (hasher tr k + e) mod length ?s" "probe ?s (hasher tr k) e = Occupied k v"
      "\<And>e'. e' < e \<Longrightarrow> probe ?s (hasher tr k) e' \<noteq> Empty \<and> (\<forall>w. probe ?s (hasher tr k) e' \<noteq> Occupied k w)"
    using key_path [OF ok i] by blast
  have "find_loop ?s (length ?s) k ((hasher tr k + 0) mod length ?s) (length ?s) = Inr (Some i)"
    unfolding e(2) using ok e by (intro find_loop_hit) (auto simp: table_ok_def)
  then have "FindSlot tr m k = Inr (Some i)"
    using n i(1) by (auto simp: FindSlot_def wf_table_mask [OF assms(1)])
  with i that show thesis by blast
qed

lemma FindSlot_miss:
  assumes "wf_umap tr m" and "umap_abs m k = None"
  shows "FindSlot tr m k = Inr None"
  using assms(1)
proof (cases rule: wf_umap_cases)
  case none
  then show ?thesis by (simp add: FindSlot_def UMap_init_def)
next
  case some
  have "find_loop (table m) (length (table m)) k ((hasher tr k + 0) mod length (table m)) (length (table m)) = Inr None"
    using some assms(2) by (intro find_loop_miss) (auto simp: umap_abs_None wf_table_def table_ok_def)
  with some show ?thesis
    by (simp add: FindSlot_def wf_table_mask [OF some]) (simp add: wf_table_def)
qed

lemma wf_umap_hit_table: "wf_umap tr m \<Longrightarrow> umap_abs m k = Some v \<Longrightarrow> wf_table tr m"
  by (auto elim: wf_umap_cases)

lemma slot_value_hit: "i < length s \<Longrightarrow> s ! i = Occupied k v \<Longrightarrow> slot_value s i = Inr v"
  by (simp add: slot_value_def slot_at_def)

lemma UMap_find_eq: "wf_umap tr m \<Longrightarrow> UMap_find tr m k = Inr (umap_abs m k)"
proof (cases "umap_abs m k")
  case None
  moreover assume "wf_umap tr m"
  ultimately show ?thesis by (simp add: UMap_find_def FindSlot_miss)
next
  case (Some v)
  moreover assume "wf_umap tr m"
  ultimately obtain i where "FindSlot tr m k = Inr (Some i)" "i < length (table m)" "table m ! i = Occupied k v"
    using FindSlot_hit wf_umap_hit_table by metis
  with Some show ?thesis by (simp add: UMap_find_def slot_value_hit)
qed

lemma UMap_contains_eq: "wf_umap tr m \<Longrightarrow> UMap_contains tr m k = Inr (umap_abs m k \<noteq> None)"
proof (cases "umap_abs m k")
  case None
  moreover assume "wf_umap tr m"
  ultimately show ?thesis by (simp add: UMap_contains_def FindSlot_miss)
next
  case (Some v)
  moreover assume "wf_umap tr m"
  ultimately obtain i where "FindSlot tr m k = Inr (Some i)"
    using FindSlot_hit wf_umap_hit_table by metis
  with Some show ?thesis by (simp add: UMap_contains_def)
qed

lemma UMap_at_eq:
  "wf_umap tr m \<Longrightarrow> UMap_at tr m k =
     (case umap_abs m k of None \<Rightarrow> Inl (BugCheck ''UnorderedMap::at: key not present'') | Some v \<Rightarrow> Inr v)"
  by (simp add: UMap_at_def UMap_find_eq)

section \<open>Growth\<close>

lemma load_limit_less: "0 < n \<Longrightarrow> load_limit n < n"
  by (simp add: load_limit_def)

lemma place_free:
  assumes "table_ok tr s" and "length (entries s) < length s" and "tombs s = 0"
  obtains i where "place_loop (length s) s (length s) (mask_to (length s) h) = Inr i"
    and "i < length s" and "DestroySlot (s ! i) = s ! i" and "reachable s h i"
proof -
  obtain j where j: "j < length s" "DestroySlot (s ! j) = s ! j" using free_slot_exists [OF assms(2)] by blast
  obtain d where "d < length s" "j = (h + d) mod length s" using mod_offset_onto [OF j(1)] .
  with j(2) obtain e where e: "e \<le> d" "DestroySlot (probe s h e) = probe s h e"
      "\<And>e'. e' < e \<Longrightarrow> DestroySlot (probe s h e') \<noteq> probe s h e'"
    using first_offset [of "\<lambda>e. DestroySlot (probe s h e) = probe s h e" d] by auto
  with \<open>d < length s\<close> have "e < length s" by linarith
  have pow: "pow2_len s" using assms(1) by (simp add: table_ok_def)
  show thesis
  proof (rule that)
    show "place_loop (length s) s (length s) (mask_to (length s) h) = Inr ((h + e) mod length s)"
      using place_loop_free [OF pow, of 0 e "length s" h] e(2,3) \<open>e < length s\<close> mask_probe(3) [OF pow, of h] by simp
    show "reachable s h ((h + e) mod length s)" unfolding reachable_def
      using \<open>e < length s\<close> e(3) by (intro exI [of _ e]) force
  qed (use e pow in \<open>auto simp: pow2_len_pos\<close>)
qed

lemma tombs_placed: "i < length s \<Longrightarrow> tombs s = 0 \<Longrightarrow> tombs (s[i := Occupied k v]) = 0"
  using tombs_update [of i s "Occupied k v"] by (simp split: if_splits)

lemma rehash_loop_spec:
  assumes "table_ok tr new" and "tombs new = 0" and "length (entries new) + length (entries old) < length new"
    and "distinct (keys_of old)" and "set (keys_of old) \<inter> set (keys_of new) = {}"
  shows "\<exists>new'. rehash_loop tr new (length new) old = Inr new' \<and> table_ok tr new' \<and> tombs new' = 0 \<and>
     length new' = length new \<and> length (entries new') = length (entries new) + length (entries old) \<and>
     map_of (entries new') = map_of (entries new) ++ map_of (entries old)"
  using assms
proof (induction old arbitrary: new rule: entries.induct)
  case (2 k v old)
  have "length (entries new) < length new" using "2.prems"(3) by simp
  then obtain i where i: "place_loop (length new) new (length new) (mask_to (length new) (hasher tr k)) = Inr i"
      "i < length new" "DestroySlot (new ! i) = new ! i" "reachable new (hasher tr k) i"
    using place_free "2.prems"(1,2) by blast
  let ?new = "new[i := Occupied k v]"
  have k: "k \<notin> set (keys_of new)" using "2.prems"(5) by (simp add: keys_of_def)
  note ok = table_ok_insert [OF "2.prems"(1) i(2-4) k, of v]
  have k': "k \<notin> set (keys_of old)" using "2.prems"(4) by (simp add: keys_of_def)
  have "\<exists>new'. rehash_loop tr ?new (length ?new) old = Inr new' \<and> table_ok tr new' \<and> tombs new' = 0 \<and>
     length new' = length ?new \<and> length (entries new') = length (entries ?new) + length (entries old) \<and>
     map_of (entries new') = map_of (entries ?new) ++ map_of (entries old)"
    using "2.prems" k' by (intro "2.IH") (auto simp: ok tombs_placed i(2), auto simp: keys_of_def)
  moreover have "(map_of (entries new))(k \<mapsto> v) ++ map_of (entries old)
      = map_of (entries new) ++ (map_of (entries old))(k \<mapsto> v)"
  proof -
    have "map_of (entries old) k = None" using k' by (simp add: keys_of_def map_of_eq_None_iff)
    then show ?thesis by (auto simp: fun_eq_iff map_add_def split: option.split)
  qed
  ultimately show ?case using i(1) ok by (simp del: fun_upd_apply)
qed (auto simp: keys_of_def)

lemma AllocSlots_outcome: "outcome (\<lambda>s. s = replicate n Empty) (AllocSlots tr n)"
  by (simp add: AllocSlots_def CheckedAllocationSize_exact bindE_ensure)

lemma table_ok_free: "table_ok tr (replicate (2 ^ p) Empty)"
  by (simp add: table_ok_def keys_of_def pow2_len_def)

definition grown :: "('k, 'v) map_traits \<Rightarrow> ('k, 'v) umap \<Rightarrow> nat \<Rightarrow> ('k, 'v) umap \<Rightarrow> bool" where
  "grown tr m n m' \<longleftrightarrow> wf_table tr m' \<and> umap_abs m' = umap_abs m \<and> usize m' = usize m \<and>
     tombstone_count m' = 0 \<and> bucket_count m' = n \<and> usize m' < load_limit n"

lemma FreeSlots_destroyed: "length s = n \<Longrightarrow> FreeSlots (Some (map DestroySlot s)) n = Inr ()"
  by (simp add: FreeSlots_def ensure_def)

lemma wf_umap_load:
  assumes "wf_umap tr m"
  shows "bucket_count m = length (table m)" and "usize m = length (entries (table m))"
    and "distinct (keys_of (table m))" and "usize m \<le> load_limit (bucket_count m)"
    and "usize m + tombstone_count m \<le> load_limit (bucket_count m)" and "bucket_count m \<le> 2 ^ 63"
  using assms
  by (cases rule: wf_umap_cases; simp add: UMap_init_def table_def load_limit_def wf_table_def table_ok_def keys_of_def)+

lemma GrowAndRehash_target:
  assumes "wf_umap tr m" and "n = 2 ^ p" and "16 \<le> n" and "n \<le> 2 ^ 63" and "2 * bucket_count m \<le> n"
  shows "outcome (grown tr m n) (GrowAndRehash tr m n)"
proof -
  note load = wf_umap_load [OF assms(1)]
  have size: "length (entries (table m)) < load_limit n" "length (entries (table m)) < n"
    using load(1,2,4) assms(3,5) by (auto simp: load_limit_def)
  let ?new = "replicate n Empty :: ('a, 'b) slot list"
  have pow: "table_ok tr ?new" by (simp only: assms(2) table_ok_free)
  have "length (entries ?new) + length (entries (table m)) < length ?new" using size by simp
  from rehash_loop_spec [OF pow tombs_free this load(3)]
  obtain s where s: "rehash_loop tr ?new n (table m) = Inr s" "table_ok tr s" "tombs s = 0" "length s = n"
      "length (entries s) = length (entries (table m))" "map_of (entries s) = map_of (entries (table m))"
    by (auto simp: keys_of_def)
  let ?m = "m\<lparr>slots := Some s, bucket_count := n, tombstone_count := 0\<rparr>"
  have g: "grown tr m n ?m"
    using s size load(2) assms(3,4) by (simp add: grown_def wf_table_def umap_abs_def table_def)
  have n: "0 < n" using assms(3) by simp
  show ?thesis
  proof (cases "slots m")
    case None
    then have "s = ?new" using s(1) by (simp add: table_def)
    with None n g show ?thesis unfolding GrowAndRehash_def
      by (simp add: outcome_bindE [OF AllocSlots_outcome])
  next
    case (Some t)
    then have "table m = t" by simp
    with Some n g s(1) load(1) show ?thesis unfolding GrowAndRehash_def
      by (simp add: outcome_bindE [OF AllocSlots_outcome] FreeSlots_destroyed)
  qed
qed

lemma GrowAndRehash_double:
  assumes "wf_umap tr m"
  shows "outcome (\<lambda>m'. \<exists>n. grown tr m n m') (GrowAndRehash tr m 0)"
proof -
  let ?n = "if bucket_count m = 0 then 16 else bucket_count m * 2"
  have eq: "GrowAndRehash tr m 0 =
      (if bucket_count m * 2 \<le> MEM_MAX then GrowAndRehash tr m ?n
       else Inl (FatalCheck ''allocation size overflows mem_size''))"
    by (simp add: GrowAndRehash_def CheckedCountProduct_exact)
  show ?thesis
  proof (cases "bucket_count m * 2 \<le> MEM_MAX")
    case True
    have "\<exists>p. ?n = 2 ^ p \<and> 16 \<le> ?n \<and> ?n \<le> 2 ^ 63 \<and> 2 * bucket_count m \<le> ?n"
      using assms
    proof (cases rule: wf_umap_cases)
      case none
      then show ?thesis by (auto simp: UMap_init_def intro: exI [of _ 4])
    next
      case some
      then obtain p where p: "bucket_count m = 2 ^ p" "16 \<le> bucket_count m"
        by (auto simp: wf_table_def table_ok_def pow2_len_def)
      have "2 ^ p \<le> MEM_MAX div 2" using True p(1) by (simp add: less_eq_div_iff_mult_less_eq)
      then have "p < 63" by (simp only: pow2_le_half)
      then have "(2::nat) ^ Suc p \<le> 2 ^ 63" by (intro power_increasing) auto
      then show ?thesis using p by (auto intro!: exI [of _ "Suc p"])
    qed
    then have "outcome (grown tr m ?n) (GrowAndRehash tr m ?n)"
      using GrowAndRehash_target [OF assms] by blast
    then have "outcome (\<lambda>m'. \<exists>n. grown tr m n m') (GrowAndRehash tr m ?n)"
      by (auto simp: outcome_def split: sum.splits)
    with True eq show ?thesis by simp
  qed (simp add: eq)
qed

section \<open>Insertion and erasure\<close>

definition prepared :: "('k, 'v) map_traits \<Rightarrow> ('k, 'v) umap \<Rightarrow> 'k \<Rightarrow> ('k, 'v) umap \<times> nat \<times> bool \<Rightarrow> bool" where
  "prepared tr m k = (\<lambda>(m', i, b). wf_table tr m' \<and> umap_abs m' = umap_abs m \<and>
     usize m' + tombstone_count m' < load_limit (bucket_count m') \<and> i < length (table m') \<and>
     b = (umap_abs m k = None) \<and>
     (b \<longrightarrow> DestroySlot (table m' ! i) = table m' ! i \<and> reachable (table m') (hasher tr k) i) \<and>
     (\<not> b \<longrightarrow> table m' ! i = Occupied k (the (umap_abs m k))))"

lemma prepare_wf:
  assumes wf: "wf_table tr m" and room: "usize m + tombstone_count m < load_limit (bucket_count m)"
  shows "\<exists>i b. prepare_loop (bucket_count m) (table m) (bucket_count m) k None (BucketFor tr m k) = Inr (i, b)
     \<and> prepared tr m k (m, i, b)"
proof -
  let ?s = "table m" and ?h = "hasher tr k"
  have ok: "table_ok tr ?s" and n: "bucket_count m = length ?s" using wf by (auto simp: wf_table_def)
  have pow: "pow2_len ?s" using ok by (simp add: table_ok_def)
  show ?thesis
  proof (cases "umap_abs m k")
    case (Some v)
    then obtain i where i: "i < length ?s" "?s ! i = Occupied k v" using umap_abs_Some [OF wf] by blast
    obtain e where e: "e < length ?s" "i = (?h + e) mod length ?s" "probe ?s ?h e = Occupied k v"
      "\<And>e'. e' < e \<Longrightarrow> probe ?s ?h e' \<noteq> Empty \<and> (\<forall>w. probe ?s ?h e' \<noteq> Occupied k w)"
      using key_path [OF ok i] by blast
    have "prepare_loop (length ?s) ?s (length ?s) k None ((?h + 0) mod length ?s) = Inr (i, False)"
      unfolding e(2) using e by (intro prepare_loop_hit [OF pow]) auto
    with Some i wf room n show ?thesis by (auto simp: wf_table_mask [OF wf] prepared_def)
  next
    case None
    have absent: "k \<notin> set (keys_of ?s)" using None by (simp add: umap_abs_None)
    have "load_limit (length ?s) < length ?s" using load_limit_less pow2_len_pos [OF pow] by auto
    then obtain j where j: "j < length ?s" "?s ! j = Empty"
      using empty_slot_exists [of ?s] wf by (auto simp: wf_table_def)
    obtain d where "d < length ?s" "j = (?h + d) mod length ?s" using mod_offset_onto [OF j(1)] .
    with j(2) obtain e where e: "e \<le> d" "probe ?s ?h e = Empty" "\<And>e'. e' < e \<Longrightarrow> probe ?s ?h e' \<noteq> Empty"
      using first_offset [of "\<lambda>e. probe ?s ?h e = Empty" d] by auto
    with \<open>d < length ?s\<close> have "e < 0 + length ?s" by linarith
    then obtain x where x: "x \<le> e" "DestroySlot (probe ?s ?h x) = probe ?s ?h x"
        "prepare_loop (length ?s) ?s (length ?s) k None ((?h + 0) mod length ?s) = Inr ((?h + x) mod length ?s, True)"
      using prepare_loop_fresh [OF pow _ _ e(2) _ absent, of 0 "length ?s"] e(3) by auto
    have "reachable ?s ?h ((?h + x) mod length ?s)"
      unfolding reachable_def using x(1) e(3) \<open>e < 0 + length ?s\<close> by (intro exI [of _ x]) auto
    with None x wf room n pow2_len_pos [OF pow] show ?thesis
      by (auto simp: wf_table_mask [OF wf] prepared_def)
  qed
qed

lemma FindOrPrepareInsert_spec:
  assumes "wf_umap tr m"
  shows "outcome (prepared tr m k) (FindOrPrepareInsert tr m k)"
proof -
  let ?grow = "bucket_count m = 0 \<or> (usize m + tombstone_count m + 1) mod 2 ^ 64 > load_limit (bucket_count m)"
  have "outcome (\<lambda>m'. wf_table tr m' \<and> umap_abs m' = umap_abs m \<and>
      usize m' + tombstone_count m' < load_limit (bucket_count m'))
      (if ?grow then GrowAndRehash tr m 0 else Inr m)"
  proof (cases ?grow)
    case True
    then show ?thesis using GrowAndRehash_double [OF assms]
      by (auto simp: outcome_def grown_def split: sum.splits)
  next
    case False
    note load = wf_umap_load [OF assms]
    have "usize m + tombstone_count m + 1 < 2 ^ 64" using load(5,6) by (simp add: load_limit_def)
    moreover have "wf_table tr m" using assms False by (auto elim: wf_umap_cases simp: UMap_init_def)
    ultimately show ?thesis using False by simp
  qed
  then show ?thesis unfolding FindOrPrepareInsert_def
  proof (rule outcome_bindE)
    fix m' assume m': "wf_table tr m' \<and> umap_abs m' = umap_abs m \<and>
      usize m' + tombstone_count m' < load_limit (bucket_count m')"
    then obtain i b where "prepare_loop (bucket_count m') (table m') (bucket_count m') k None (BucketFor tr m' k) = Inr (i, b)"
        "prepared tr m' k (m', i, b)"
      using prepare_wf [of tr m' k] by blast
    with m' show "outcome (prepared tr m k)
        (bindE (prepare_loop (bucket_count m') (table m') (bucket_count m') k None (BucketFor tr m' k)) (\<lambda>r. Inr (m', r)))"
      by (simp add: prepared_def)
  qed
qed

definition inserted :: "('k, 'v) map_traits \<Rightarrow> ('k, 'v) umap \<Rightarrow> 'k \<Rightarrow> 'v \<Rightarrow> ('k, 'v) umap \<Rightarrow> bool" where
  "inserted tr m k v m' \<longleftrightarrow> wf_umap tr m' \<and>
     umap_abs m' = (if umap_abs m k = None then (umap_abs m)(k \<mapsto> v) else umap_abs m)"

lemma MarkOccupied_spec:
  assumes "prepared tr m k (m', i, True)"
  shows "\<exists>m''. MarkOccupied m' i k v = Inr m'' \<and> inserted tr m k v m'' \<and>
     i < length (table m'') \<and> table m'' ! i = Occupied k v"
proof -
  let ?s = "table m'" and ?s' = "(table m')[i := Occupied k v]"
  have p: "wf_table tr m'" "umap_abs m' = umap_abs m" "i < length ?s" "umap_abs m k = None"
      "usize m' + tombstone_count m' < load_limit (bucket_count m')"
      "DestroySlot (?s ! i) = ?s ! i" "reachable ?s (hasher tr k) i"
    using assms by (auto simp: prepared_def)
  have ok: "table_ok tr ?s" and n: "bucket_count m' = length ?s" "16 \<le> length ?s" "length ?s \<le> 2 ^ 63"
      and cnt: "usize m' = length (entries ?s)" "tombstone_count m' = tombs ?s"
    using p(1) by (auto simp: wf_table_def)
  have absent: "k \<notin> set (keys_of ?s)" using p(2,4) umap_abs_None by metis
  note ins = table_ok_insert [OF ok p(3,6,7) absent, of v]
  define m'' where "m'' = m'\<lparr>slots := Some ?s',
      tombstone_count := (if ?s ! i = Deleted then (tombstone_count m' + (2 ^ 64 - 1)) mod 2 ^ 64 else tombstone_count m'),
      usize := (usize m' + 1) mod 2 ^ 64\<rparr>"
  have mark: "MarkOccupied m' i k v = Inr m''"
    using p(3,6) by (simp add: MarkOccupied_def slot_at_def m''_def)
  have tab: "table m'' = ?s'" "bucket_count m'' = length ?s'" by (simp_all add: m''_def table_def n)
  have t: "tombs ?s' + (if ?s ! i = Deleted then 1 else 0) = tombs ?s"
    using tombs_update [OF p(3), of "Occupied k v"] by simp
  have small: "load_limit (length ?s) < 2 ^ 63" using n(2,3) load_limit_less [of "length ?s"] by linarith
  have us: "usize m'' = length (entries ?s')"
    using p(5) small n(1) cnt(1) by (simp add: m''_def ins(3))
  have tb: "tombstone_count m'' = tombs ?s'"
    using t p(5) small n(1) cnt(2) by (auto simp: m''_def wrap_pred)
  have "wf_table tr m''"
    using us tb tab n(2,3) p(5) n(1) cnt ins(1,3) t by (simp add: wf_table_def)
  moreover have "umap_abs m'' = (umap_abs m)(k \<mapsto> v)"
    using ins(2) p(2) by (simp add: umap_abs_def tab)
  ultimately show ?thesis
    using mark p(3,4) tab by (simp add: inserted_def wf_table_wf)
qed

lemma UMap_emplace_spec:
  assumes "wf_umap tr m"
  shows "outcome (\<lambda>(m', i, b). inserted tr m k v m' \<and> b = (umap_abs m k = None)) (UMap_emplace tr m k v)"
  unfolding UMap_emplace_def
proof (rule outcome_bindE [OF FindOrPrepareInsert_spec [OF assms, of k]])
  fix r assume r: "prepared tr m k r"
  obtain m' i b where mib: "r = (m', i, b)" by (cases r)
  show "outcome (\<lambda>(m', i, b). inserted tr m k v m' \<and> b = (umap_abs m k = None))
     (case r of (m, i, fresh) \<Rightarrow>
        if fresh then bindE (MarkOccupied m i k v) (\<lambda>m. Inr (m, i, True)) else Inr (m, i, False))"
  proof (cases b)
    case True
    with r mib have "umap_abs m k = None" by (simp add: prepared_def)
    with True r mib MarkOccupied_spec [of tr m k m' i v] show ?thesis by auto
  next
    case False
    with r mib show ?thesis by (auto simp: prepared_def inserted_def wf_table_wf)
  qed
qed

lemma UMap_insert_emplace: "UMap_insert tr m k v = bindE (UMap_emplace tr m k v) (\<lambda>(m, i, b). Inr (m, b))"
  unfolding UMap_insert_def UMap_emplace_def bindE_assoc
  by (intro bindE_cong refl) (auto simp: bindE_assoc)

lemma UMap_insert_spec:
  assumes "wf_umap tr m"
  shows "outcome (\<lambda>(m', b). inserted tr m k v m' \<and> b = (umap_abs m k = None)) (UMap_insert tr m k v)"
  unfolding UMap_insert_emplace
  by (rule outcome_bindE [OF UMap_emplace_spec [OF assms]]) auto

lemma UMap_index_spec:
  assumes "wf_umap tr m"
  shows "outcome (\<lambda>(m', w). inserted tr m k (vdflt tr) m' \<and>
     w = (case umap_abs m k of None \<Rightarrow> vdflt tr | Some v \<Rightarrow> v)) (UMap_index tr m k)"
  unfolding UMap_index_def
proof (rule outcome_bindE [OF FindOrPrepareInsert_spec [OF assms, of k]])
  fix r assume r: "prepared tr m k r"
  obtain m' i b where mib: "r = (m', i, b)" by (cases r)
  show "outcome (\<lambda>(m', w). inserted tr m k (vdflt tr) m' \<and> w = (case umap_abs m k of None \<Rightarrow> vdflt tr | Some v \<Rightarrow> v))
     (case r of (m, i, fresh) \<Rightarrow> bindE (if fresh then MarkOccupied m i k (vdflt tr) else Inr m)
         (\<lambda>m. bindE (slot_value (table m) i) (\<lambda>v. Inr (m, v))))"
  proof (cases b)
    case True
    with r mib have none: "umap_abs m k = None" by (simp add: prepared_def)
    obtain m'' where "MarkOccupied m' i k (vdflt tr) = Inr m''" "inserted tr m k (vdflt tr) m''"
        "i < length (table m'')" "table m'' ! i = Occupied k (vdflt tr)"
      using MarkOccupied_spec [of tr m k m' i "vdflt tr"] True r mib by auto
    with True mib none show ?thesis by (simp add: slot_value_hit)
  next
    case False
    with r mib obtain v where "umap_abs m k = Some v" by (auto simp: prepared_def)
    with False r mib show ?thesis by (auto simp: prepared_def inserted_def wf_table_wf slot_value_hit)
  qed
qed

lemma UMap_erase_spec:
  assumes "wf_umap tr m"
  shows "\<exists>m'. UMap_erase tr m k = Inr (m', umap_abs m k \<noteq> None) \<and> wf_umap tr m' \<and>
     umap_abs m' = (umap_abs m)(k := None)"
proof (cases "umap_abs m k")
  case None
  then show ?thesis using assms by (auto simp: UMap_erase_def FindSlot_miss fun_upd_idem)
next
  case (Some v)
  have wf: "wf_table tr m" using wf_umap_hit_table [OF assms Some] .
  let ?s = "table m"
  obtain i where i: "FindSlot tr m k = Inr (Some i)" "i < length ?s" "?s ! i = Occupied k v"
    using FindSlot_hit [OF wf Some] .
  have ok: "table_ok tr ?s" and n: "bucket_count m = length ?s" "16 \<le> length ?s" "length ?s \<le> 2 ^ 63"
      and cnt: "usize m = length (entries ?s)" "tombstone_count m = tombs ?s"
      and load: "usize m + tombstone_count m \<le> load_limit (length ?s)"
    using wf by (auto simp: wf_table_def)
  note era = table_ok_erase [OF ok i(2,3)]
  have t: "tombs (?s[i := Deleted]) = tombs ?s + 1" using tombs_update [OF i(2), of Deleted] i(3) by simp
  have small: "load_limit (length ?s) < 2 ^ 63" using n(2,3) load_limit_less [of "length ?s"] by linarith
  define m' where "m' = m\<lparr>slots := Some (?s[i := Deleted]), usize := (usize m + (2 ^ 64 - 1)) mod 2 ^ 64,
      tombstone_count := (tombstone_count m + 1) mod 2 ^ 64\<rparr>"
  have tab: "table m' = ?s[i := Deleted]" by (simp add: m'_def table_def)
  have "0 < usize m" using era(3) cnt(1) by linarith
  moreover have "usize m < 18446744073709551616" using load small by simp
  ultimately have us: "Suc (usize m') = usize m" using wrap_pred [of "usize m"] by (simp add: m'_def)
  have tb: "tombstone_count m' = tombs (?s[i := Deleted])" using t cnt(2) load small by (simp add: m'_def)
  have "wf_table tr m'"
    using us tb t tab n era cnt load by (auto simp: wf_table_def) (auto simp: m'_def)
  moreover have "umap_abs m' = (umap_abs m)(k := None)" using era(2) by (simp add: umap_abs_def tab)
  moreover have "UMap_erase tr m k = Inr (m', True)"
    using i by (simp add: UMap_erase_def slot_value_hit m'_def)
  ultimately show ?thesis using Some wf_table_wf by auto
qed

lemma UMap_size_eq:
  assumes "wf_umap tr m"
  shows "finite (dom (umap_abs m)) \<and> UMap_size m = card (dom (umap_abs m))"
proof -
  have "dom (umap_abs m) = set (keys_of (table m))" by (simp add: umap_abs_def dom_map_of_conv_image_fst keys_of_def)
  with wf_umap_load(2,3) [OF assms] show ?thesis
    by (simp add: UMap_size_def distinct_card) (simp add: keys_of_def)
qed

interpretation umap: map_store "wf_umap tr" umap_abs "UMap_find tr" "UMap_insert tr" "UMap_erase tr" UMap_size
  for tr
proof unfold_locales
  fix s k v assume "wf_umap tr s"
  then show "outcome (\<lambda>(s', b). wf_umap tr s' \<and> b = (umap_abs s k = None) \<and>
      umap_abs s' = (if umap_abs s k = None then (umap_abs s)(k \<mapsto> v) else umap_abs s)) (UMap_insert tr s k v)"
    using UMap_insert_spec [of tr s k v] by (auto simp: outcome_def inserted_def split: sum.splits)
qed (simp_all add: UMap_find_eq UMap_erase_spec UMap_size_eq del: not_None_eq)

section \<open>Copies, clearing, iteration\<close>

lemma copy_loop_eq:
  "cnt + length (entries old) < 2 ^ 64 \<Longrightarrow>
     copy_loop tr new n cnt old = bindE (rehash_loop tr new n old) (\<lambda>new. Inr (new, cnt + length (entries old)))"
  by (induction tr new n old arbitrary: cnt rule: rehash_loop.induct)
     (auto simp: bindE_assoc intro!: bindE_cong split: slot.split)

lemma UMap_copy_spec:
  assumes "wf_umap tr m"
  shows "outcome (\<lambda>m'. wf_umap tr m' \<and> umap_abs m' = umap_abs m) (UMap_copy tr m)"
proof (cases "usize m > 0")
  case False
  then have "entries (table m) = []" using wf_umap_load(2) [OF assms] by simp
  then have "umap_abs m = Map.empty" by (simp add: umap_abs_def)
  with False show ?thesis by (simp add: UMap_copy_def wf_umap_init)
next
  case True
  then have wf: "wf_table tr m" using assms by (auto elim: wf_umap_cases simp: UMap_init_def)
  then obtain p where p: "length (table m) = 2 ^ p" by (auto simp: wf_table_def table_ok_def pow2_len_def)
  note load = wf_umap_load [OF assms]
  have n: "bucket_count m = length (table m)" "16 \<le> length (table m)" "length (table m) \<le> 2 ^ 63"
    using wf by (auto simp: wf_table_def)
  have lim: "load_limit (length (table m)) < length (table m)" using n(2) by (intro load_limit_less) linarith
  let ?n = "length (table m)" and ?new = "replicate (length (table m)) Empty :: ('a, 'b) slot list"
  have ok: "table_ok tr ?new" unfolding p by (rule table_ok_free)
  have "length (entries ?new) + length (entries (table m)) < length ?new"
    using load(2,4) lim n(1) by simp
  from rehash_loop_spec [OF ok tombs_free this load(3)]
  obtain s where s: "rehash_loop tr ?new ?n (table m) = Inr s" "table_ok tr s" "tombs s = 0" "length s = ?n"
      "length (entries s) = length (entries (table m))" "map_of (entries s) = map_of (entries (table m))"
    by (auto simp: keys_of_def)
  have "0 + length (entries (table m)) < 2 ^ 64" using load(2,4) lim n by simp
  then have copy: "copy_loop tr ?new ?n 0 (table m) = Inr (s, length (entries s))"
    using copy_loop_eq [of 0 "table m" tr ?new ?n] s(1,5) by simp
  let ?m = "\<lparr>slots = Some s, bucket_count = ?n, usize = length (entries s), tombstone_count = 0\<rparr>"
  have "wf_table tr ?m" using s n load(2,4) by (simp add: wf_table_def table_def)
  moreover have "umap_abs ?m = umap_abs m" using s(6) by (simp add: umap_abs_def table_def)
  ultimately have "outcome (\<lambda>m'. wf_umap tr m' \<and> umap_abs m' = umap_abs m)
      (bindE (copy_loop tr ?new ?n 0 (table m)) (\<lambda>(new, cnt).
       Inr \<lparr>slots = Some new, bucket_count = ?n, usize = cnt, tombstone_count = 0\<rparr>))"
    using wf_table_wf by (simp add: copy)
  with True show ?thesis unfolding UMap_copy_def n(1)
    by (simp add: outcome_bindE [OF AllocSlots_outcome])
qed

lemma UMap_destroy_ok: "wf_umap tr m \<Longrightarrow> UMap_destroy m = Inr ()"
  using wf_umap_load(1) [of tr m]
  by (cases "slots m") (simp_all add: UMap_destroy_def UMap_clear_def FreeSlots_def ensure_def)

lemma UMap_clear_spec:
  assumes "wf_umap tr m" and "tombstone_count m = 0"
  shows "wf_umap tr (UMap_clear m) \<and> umap_abs (UMap_clear m) = Map.empty \<and>
     bucket_count (UMap_clear m) = bucket_count m"
  using assms(1)
proof (cases rule: wf_umap_cases)
  case none
  then show ?thesis using wf_umap_init [of tr] by (simp add: UMap_clear_def UMap_init_def umap_abs_def table_def)
next
  case some
  have "filter (\<lambda>c. c = Deleted) (table m) = []" using some assms(2) by (simp add: wf_table_def tombs_def)
  then have no: "Deleted \<notin> set (table m)" unfolding filter_empty_conv by blast
  have "map DestroySlot (table m) = map (\<lambda>_. Empty) (table m)"
  proof (rule map_cong [OF refl])
    fix c assume "c \<in> set (table m)"
    then have "c \<noteq> Deleted" using no by metis
    then show "DestroySlot c = Empty" by (cases c) simp_all
  qed
  also have "\<dots> = replicate (length (table m)) Empty" by (rule map_replicate_const)
  finally have eq: "map DestroySlot (table m) = replicate (length (table m)) Empty" .
  obtain t where t: "slots m = Some t" using wf_table_slots [OF some] by blast
  then have tab: "table (UMap_clear m) = replicate (length (table m)) Empty"
    using eq by (simp add: UMap_clear_def table_def)
  obtain p where "length (table m) = 2 ^ p" using some by (auto simp: wf_table_def table_ok_def pow2_len_def)
  then have "table_ok tr (replicate (length (table m)) Empty)" using table_ok_free [of tr p] by simp
  then have "wf_table tr (UMap_clear m)"
    using some by (simp add: wf_table_def tab) (simp add: UMap_clear_def)
  then show ?thesis using wf_table_wf by (simp add: umap_abs_def tab) (simp add: UMap_clear_def)
qed

lemma drop_occupied:
  "i < length s \<Longrightarrow> entries (drop i s) =
     (case s ! i of Occupied k v \<Rightarrow> (k, v) # entries (drop (Suc i) s) | _ \<Rightarrow> entries (drop (Suc i) s))"
  by (simp flip: Cons_nth_drop_Suc split: slot.split)

lemma AdvanceToOccupied_spec:
  assumes "i \<le> length s"
  shows "\<exists>j. AdvanceToOccupied s (length s) i = Inr j \<and> i \<le> j \<and> j \<le> length s \<and>
     entries (drop j s) = entries (drop i s) \<and> (j < length s \<longrightarrow> (\<exists>k v. s ! j = Occupied k v))"
  using assms
proof (induction "length s - i" arbitrary: i)
  case 0
  then show ?case by (simp add: AdvanceToOccupied.simps)
next
  case (Suc d)
  then have i: "i < length s" by simp
  show ?case
  proof (cases "\<exists>k v. s ! i = Occupied k v")
    case True
    with i show ?thesis by (auto simp: AdvanceToOccupied.simps [of s "length s" i] slot_at_def)
  next
    case False
    have "d = length s - Suc i" "Suc i \<le> length s" using Suc.hyps(2) i by auto
    from Suc.hyps(1) [OF this] False i show ?thesis
      by (cases "s ! i") (auto simp: AdvanceToOccupied.simps [of s "length s" i] slot_at_def drop_occupied [of i]
        dest: Suc_leD)
  qed
qed

lemma iterate_umap_entries:
  "i \<le> length s \<Longrightarrow> length s - i < fuel \<Longrightarrow> iterate_umap fuel s (length s) i = Inr (entries (drop i s))"
proof (induction fuel arbitrary: i)
  case (Suc fuel)
  obtain j where j: "AdvanceToOccupied s (length s) i = Inr j" "i \<le> j" "j \<le> length s"
      "entries (drop j s) = entries (drop i s)" "j < length s \<longrightarrow> (\<exists>k v. s ! j = Occupied k v)"
    using AdvanceToOccupied_spec [OF Suc.prems(1)] by blast
  show ?case
  proof (cases "j = length s")
    case True
    with j show ?thesis by simp
  next
    case False
    with j obtain k v where kv: "s ! j = Occupied k v" "j < length s" by auto
    have "iterate_umap fuel s (length s) (j + 1) = Inr (entries (drop (j + 1) s))"
      using Suc.prems kv j by (intro Suc.IH) auto
    with j(1) kv False show ?thesis
      by (simp add: slot_at_def j(4) [symmetric] drop_occupied [of j])
  qed
qed simp

lemma for_each_slot_fold:
  "n = length s - i \<Longrightarrow> i \<le> length s \<Longrightarrow>
     for_each_slot func s i n st = Inr (fold (\<lambda>(k, v). func k v) (entries (drop i s)) st)"
proof (induction n arbitrary: i st)
  case (Suc n)
  then have i: "i < length s" by simp
  then have "for_each_slot func s (i + 1) n st = Inr (fold (\<lambda>(k, v). func k v) (entries (drop (i + 1) s)) st)" for st
    using Suc.prems by (intro Suc.IH) auto
  with i show ?case by (simp add: slot_at_def drop_occupied [of i] split: slot.split)
qed simp

lemma UMap_iterate_eq: "wf_umap tr m \<Longrightarrow> UMap_iterate m = Inr (entries (table m))"
  using wf_umap_load(1) [of tr m] iterate_umap_entries [of 0 "table m" "Suc (length (table m))"]
  by (simp add: UMap_iterate_def del: iterate_umap.simps)

lemma UMap_ForEach_eq:
  "wf_umap tr m \<Longrightarrow> UMap_ForEach func m st = Inr (fold (\<lambda>(k, v). func k v) (entries (table m)) st)"
  using wf_umap_load(1) [of tr m] for_each_slot_fold [of "length (table m)" "table m" 0]
  by (simp add: UMap_ForEach_def)

section \<open>Reserving\<close>

lemma UMap_reserve_spec:
  assumes "wf_umap tr m"
  shows "outcome (\<lambda>m'. wf_table tr m' \<and> umap_abs m' = umap_abs m \<and> usize m' = usize m \<and>
     tombstone_count m' \<le> tombstone_count m \<and> c \<le> load_limit (bucket_count m')) (UMap_reserve tr m c)"
proof (cases "c * 4 \<le> MEM_MAX \<and> c * 4 div 3 + 1 \<le> 2 ^ 63")
  case False
  then show ?thesis
    using CheckedRoundUp_refuses [of "c * 4 div 3 + 1"]
    by (auto simp: UMap_reserve_def checked_exact)
next
  case True
  let ?v = "c * 4 div 3 + 1"
  obtain k where k: "CheckedRoundUpToPowerOfTwo ?v = Inr (2 ^ k)" "?v \<le> 2 ^ k" "k \<le> 63"
    using True CheckedRoundUp_finds [of ?v] by auto
  let ?t = "max 16 (2 ^ k) :: nat"
  have t: "\<exists>p. ?t = 2 ^ p" "16 \<le> ?t" "?t \<le> 2 ^ 63" "c \<le> load_limit ?t"
  proof -
    have "(16::nat) = 2 ^ 4" by simp
    then show "\<exists>p. ?t = 2 ^ p" by (metis max_def)
    have "(2::nat) ^ k \<le> 2 ^ 63" using k(3) by (intro power_increasing) auto
    then show "?t \<le> 2 ^ 63" by simp
    have "?v \<le> ?t" using k(2) by linarith
    then have "c * 4 < ?t * 3" by linarith
    then show "c \<le> load_limit ?t" unfolding load_limit_def by linarith
  qed simp
  have "CheckedCountProduct c 4 = Inr (c * 4)" "CheckedCountSum (c * 4 div 3) 1 = Inr ?v"
    using True by (simp_all add: checked_exact MEM_MAX_def)
  with k(1) have eq: "UMap_reserve tr m c = (if ?t > bucket_count m then GrowAndRehash tr m ?t else Inr m)"
    by (simp add: UMap_reserve_def Let_def)
  show ?thesis
  proof (cases "?t > bucket_count m")
    case True
    obtain p where p: "?t = 2 ^ p" using t(1) by blast
    have "2 * bucket_count m \<le> ?t" using assms
    proof (cases rule: wf_umap_cases)
      case some
      then obtain q where q: "bucket_count m = 2 ^ q" by (auto simp: wf_table_def table_ok_def pow2_len_def)
      with True p have "q < p" by simp
      then have "(2::nat) ^ Suc q \<le> 2 ^ p" by (intro power_increasing) auto
      with p q show ?thesis by simp
    qed (simp add: UMap_init_def)
    from GrowAndRehash_target [OF assms p t(2,3) this] True t(4) eq show ?thesis
      by (auto simp: outcome_def grown_def split: sum.splits)
  next
    case False
    then have "wf_table tr m" using assms t(2) by (auto elim: wf_umap_cases simp: UMap_init_def)
    moreover have "load_limit ?t \<le> load_limit (bucket_count m)"
      using False by (simp add: load_limit_def div_le_mono)
    ultimately show ?thesis using False t(4) by (simp add: eq)
  qed
qed

text \<open>An insertion below the load limit neither allocates nor rehashes.\<close>

lemma insert_below_limit:
  assumes "wf_table tr m" and "usize m + tombstone_count m < load_limit (bucket_count m)"
  shows "\<exists>m' b. UMap_insert tr m k v = Inr (m', b) \<and> wf_table tr m' \<and> bucket_count m' = bucket_count m \<and>
     usize m' + tombstone_count m' \<le> usize m + tombstone_count m + 1"
proof -
  let ?s = "table m"
  have n: "bucket_count m = length ?s" "16 \<le> length ?s" "length ?s \<le> 2 ^ 63" using assms(1) by (auto simp: wf_table_def)
  have small: "load_limit (length ?s) < 2 ^ 63" using n(2,3) load_limit_less [of "length ?s"] by linarith
  obtain i b where p: "prepare_loop (bucket_count m) ?s (bucket_count m) k None (BucketFor tr m k) = Inr (i, b)"
      "prepared tr m k (m, i, b)"
    using prepare_wf [OF assms] by blast
  have prep: "FindOrPrepareInsert tr m k = Inr (m, i, b)"
    using assms(2) n small p(1) by (auto simp: FindOrPrepareInsert_def)
  show ?thesis
  proof (cases b)
    case False
    with prep assms(1) show ?thesis by (auto simp: UMap_insert_def)
  next
    case True
    from MarkOccupied_spec [of tr m k m i v] p(2) True
    obtain m' where m': "MarkOccupied m i k v = Inr m'" "inserted tr m k v m'" by auto
    have f: "i < length ?s" "DestroySlot (?s ! i) = ?s ! i" using p(2) True by (auto simp: prepared_def)
    have m'_eq: "m' = m\<lparr>slots := Some (?s[i := Occupied k v]),
      tombstone_count := (if ?s ! i = Deleted then (tombstone_count m + (2 ^ 64 - 1)) mod 2 ^ 64 else tombstone_count m),
      usize := (usize m + 1) mod 2 ^ 64\<rparr>"
      using m'(1) f by (auto simp: MarkOccupied_def slot_at_def)
    have "?s ! i = Deleted \<Longrightarrow> 0 < tombstone_count m"
      using assms(1) f(1) by (auto simp: wf_table_def tombs_def filter_empty_conv) (metis nth_mem)
    moreover have "wf_table tr m'"
      using m'(2) m'_eq by (auto simp: inserted_def wf_umap_def)
    ultimately have "usize m' + tombstone_count m' \<le> usize m + tombstone_count m + 1"
      using assms(2) n(1) small by (auto simp: m'_eq wrap_pred)
    with True prep m'(1) \<open>wf_table tr m'\<close> show ?thesis
      by (intro exI [of _ m'] exI [of _ True]) (simp add: UMap_insert_def m'_eq)
  qed
qed

lemma insert_entries_below_limit:
  "wf_table tr m \<Longrightarrow> usize m + tombstone_count m + length kvs \<le> load_limit (bucket_count m) \<Longrightarrow>
     \<exists>m'. insert_entries tr m kvs = Inr m' \<and> wf_table tr m' \<and> bucket_count m' = bucket_count m"
proof (induction kvs arbitrary: m)
  case (Cons kv kvs)
  obtain k v where kv: "kv = (k, v)" by (cases kv)
  have "usize m + tombstone_count m < load_limit (bucket_count m)" using Cons.prems(2) by simp
  from insert_below_limit [OF Cons.prems(1) this]
  obtain m' b where "UMap_insert tr m k v = Inr (m', b)" "wf_table tr m'" "bucket_count m' = bucket_count m"
      "usize m' + tombstone_count m' \<le> usize m + tombstone_count m + 1" by blast
  with Cons.IH [of m'] Cons.prems(2) kv show ?case by auto
qed simp

lemma insert_entries_run:
  "insert_entries tr m kvs = map_run (UMap_insert tr) (UMap_erase tr) (map (\<lambda>(k, v). MInsert k v) kvs) m"
  by (induction kvs arbitrary: m) (auto intro: bindE_cong)

section \<open>Evaluating concrete tables\<close>

definition id_traits :: "(nat, nat) map_traits" where
  "id_traits = \<lparr>hasher = (\<lambda>k. k), slot_size = 24, vdflt = 0, map_alloc_ok = (\<lambda>_. True)\<rparr>"

lemma prepare_eval:
  assumes "i < length s" "0 < fuel"
  shows "s ! i = Empty \<Longrightarrow> prepare_loop fuel s n key t i = Inr (case t of None \<Rightarrow> i | Some t \<Rightarrow> t, True)"
    and "s ! i = Deleted \<Longrightarrow> prepare_loop fuel s n key t i =
      prepare_loop (fuel - 1) s n key (case t of None \<Rightarrow> Some i | Some t \<Rightarrow> Some t) (mask_to n (i + 1))"
    and "s ! i = Occupied k v \<Longrightarrow> prepare_loop fuel s n key t i =
      (if k = key then Inr (i, False) else prepare_loop (fuel - 1) s n key t (mask_to n (i + 1)))"
  using assms by (cases fuel; simp add: slot_at_def)+

lemma find_eval:
  assumes "i < length s" "0 < left"
  shows "s ! i = Empty \<Longrightarrow> find_loop s n key i left = Inr None"
    and "s ! i = Deleted \<Longrightarrow> find_loop s n key i left = find_loop s n key (mask_to n (i + 1)) (left - 1)"
    and "s ! i = Occupied k v \<Longrightarrow> find_loop s n key i left =
      (if k = key then Inr (Some i) else find_loop s n key (mask_to n (i + 1)) (left - 1))"
  using assms by (cases left; simp add: slot_at_def)+

lemma replicate_16: "replicate 16 x = [x, x, x, x, x, x, x, x, x, x, x, x, x, x, x, x]"
  by (simp add: numeral_eq_Suc)

lemma mask_eval: "mask_to 16 h = h mod 16" "mask_to 32 h = h mod 32"
  using mask_step(1) [of 16 4] mask_step(1) [of 32 5] by simp_all

lemma replicate_12: "replicate 12 x = [x, x, x, x, x, x, x, x, x, x, x, x]"
  by (simp add: numeral_eq_Suc)

lemmas umap_eval = UMap_init_def UMap_insert_def UMap_erase_def FindOrPrepareInsert_def FindSlot_def
  GrowAndRehash_def AllocSlots_def CheckedAllocationSize_exact MEM_MAX_def BucketFor_def mask_eval
  slot_at_def MarkOccupied_def load_limit_def table_def id_traits_def slot_value_def ensure_def
  prepare_eval find_eval replicate_16

text \<open>Twelve keys inserted and erased again: the table is empty but for its tombstones.\<close>

definition churn :: "(nat, nat) map_op list" where
  "churn = map (\<lambda>k. MInsert k 0) [0, 1, 2, 3, 4, 5, 6, 7, 8, 9, 10, 11]
     @ map MErase [0, 1, 2, 3, 4, 5, 6, 7, 8, 9, 10, 11]"

definition churned :: "(nat, nat) umap" where
  "churned = \<lparr>slots = Some (replicate 12 Deleted @ replicate 4 Empty), bucket_count = 16, usize = 0, tombstone_count = 12\<rparr>"

lemma slots_16: "replicate 12 x @ replicate 4 y = [x, x, x, x, x, x, x, x, x, x, x, x, y, y, y, y]"
  by (simp add: numeral_eq_Suc)

lemma run_churn: "map_run (UMap_insert id_traits) (UMap_erase id_traits) churn UMap_init = Inr churned"
  unfolding churn_def churned_def slots_16 by (simp add: umap_eval)

section \<open>Properties\<close>

text \<open>
  (C4) Any sequence of insertions and erasures on an empty unordered map stops at an
  allocation check or leaves a well-formed table that finds exactly the keys of the same
  sequence on a mathematical map, with their values, and whose \<open>size()\<close> is the number of
  keys: no probe runs out of the table, reads a destroyed key or fails to end.
\<close>

theorem umap_run_refines:
  "outcome (\<lambda>m. wf_umap tr m \<and> (\<forall>k. UMap_find tr m k = Inr (map_effect ops Map.empty k)) \<and>
       UMap_size m = card (dom (map_effect ops Map.empty)))
     (map_run (UMap_insert tr) (UMap_erase tr) ops UMap_init)"
  using umap.run_refines [OF wf_umap_init, of tr ops] umap.look_after_run [OF wf_umap_init, of tr ops]
  by (auto simp: outcome_def split: sum.splits)

text \<open>
  Iterating over a map that any insertions and erasures have built, and \<open>ForEach\<close>,
  visit every entry exactly once; copying it yields a well-formed map with the same entries,
  and destroying it gives the block back with its true size and nothing alive in it.
\<close>

theorem umap_iterates_and_copies:
  assumes "map_run (UMap_insert tr) (UMap_erase tr) ops UMap_init = Inr m"
  shows "\<exists>kvs. UMap_iterate m = Inr kvs \<and> distinct (map fst kvs) \<and> map_of kvs = map_effect ops Map.empty \<and>
     (\<forall>func st. UMap_ForEach func m (st :: 's) = Inr (fold (\<lambda>(k, v). func k v) kvs st)) \<and>
     outcome (\<lambda>m'. wf_umap tr m' \<and> (\<forall>k. UMap_find tr m' k = Inr (map_of kvs k))) (UMap_copy tr m) \<and>
     UMap_destroy m = Inr ()"
proof -
  have wf: "wf_umap tr m" and abs: "umap_abs m = map_effect ops Map.empty"
    using umap.run_refines [OF wf_umap_init, of tr ops] assms by auto
  have "outcome (\<lambda>m'. wf_umap tr m' \<and> (\<forall>k. UMap_find tr m' k = Inr (map_of (entries (table m)) k))) (UMap_copy tr m)"
    using UMap_copy_spec [OF wf] by (auto simp: outcome_def UMap_find_eq umap_abs_def split: sum.splits)
  with wf abs wf_umap_load(3) [OF wf] show ?thesis
    by (intro exI [of _ "entries (table m)"])
       (auto simp: UMap_iterate_eq UMap_ForEach_eq UMap_destroy_ok umap_abs_def keys_of_def)
qed

theorem umap_iterates_and_copies_witness:
  "\<exists>m kvs. map_run (UMap_insert id_traits) (UMap_erase id_traits) [MInsert 3 10, MInsert 19 20, MErase 3] UMap_init = Inr m
     \<and> UMap_iterate m = Inr kvs \<and> distinct (map fst kvs) \<and> map_of kvs 19 = Some 20 \<and> map_of kvs 3 = None"
proof -
  have "\<exists>m. map_run (UMap_insert id_traits) (UMap_erase id_traits) [MInsert 3 10, MInsert 19 20, MErase 3] UMap_init = Inr m"
    by (simp add: umap_eval)
  then obtain m where m: "map_run (UMap_insert id_traits) (UMap_erase id_traits) [MInsert 3 10, MInsert 19 20, MErase 3] UMap_init = Inr m" ..
  from umap_iterates_and_copies [OF this] show ?thesis using m by auto
qed

text \<open>
  (C27) After \<open>reserve(count)\<close> on a map without tombstones, entries can be inserted until the
  map has \<open>count\<close> elements with no further allocation, rehash or failure.
\<close>

theorem umap_reserve_holds:
  assumes "wf_umap tr m" and "tombstone_count m = 0" and "UMap_reserve tr m c = Inr m'"
    and "UMap_size m + length kvs \<le> c"
  shows "\<exists>m''. insert_entries tr m' kvs = Inr m'' \<and> bucket_count m'' = bucket_count m' \<and>
     (\<forall>k. UMap_find tr m'' k = Inr ((map_of kvs ++ umap_abs m) k))"
proof -
  have m': "wf_table tr m'" "umap_abs m' = umap_abs m" "usize m' = usize m" "tombstone_count m' = 0"
      "c \<le> load_limit (bucket_count m')"
    using UMap_reserve_spec [OF assms(1), of c] assms(2,3) by auto
  obtain m'' where m'': "insert_entries tr m' kvs = Inr m''" "bucket_count m'' = bucket_count m'"
    using insert_entries_below_limit [OF m'(1), of kvs] m' assms(4) by (auto simp: UMap_size_def)
  then have "UMap_find tr m'' k = Inr ((map_of kvs ++ umap_abs m) k)" for k
    using umap.look_after_run(2) [OF wf_table_wf [OF m'(1)]] m'(2)
    by (simp add: insert_entries_run map_effect_inserts)
  with m'' show ?thesis by blast
qed

theorem umap_reserve_holds_witness:
  "\<exists>m' m''. UMap_reserve id_traits UMap_init 2 = Inr m' \<and> insert_entries id_traits m' [(3, 4), (19, 5)] = Inr m''
     \<and> bucket_count m'' = bucket_count m' \<and> UMap_find id_traits m'' 19 = Inr (Some 5)"
proof -
  have "CheckedRoundUpToPowerOfTwo 3 = Inr 4"
    by (simp add: CheckedRoundUpToPowerOfTwo_def round_up_loop.simps MEM_MAX_def)
  then have "\<exists>m'. UMap_reserve id_traits UMap_init 2 = Inr m'"
    by (simp add: UMap_reserve_def checked_exact umap_eval)
  then obtain m' where m': "UMap_reserve id_traits UMap_init 2 = Inr m'" ..
  have "tombstone_count UMap_init = 0" "UMap_size UMap_init + length [(3, 4), (19, 5)] \<le> 2"
    by (simp_all add: UMap_init_def UMap_size_def)
  from umap_reserve_holds [OF wf_umap_init this(1) m' this(2)] show ?thesis
    using m' by (auto simp: map_add_def)
qed

text \<open>
  \<open>clear()\<close> on a map without tombstones leaves a well-formed empty map with the same
  buckets.
\<close>

theorem umap_clear_empties:
  assumes "wf_umap tr m" and "tombstone_count m = 0"
  shows "wf_umap tr (UMap_clear m) \<and> bucket_count (UMap_clear m) = bucket_count m \<and>
     (\<forall>k. UMap_find tr (UMap_clear m) k = Inr None) \<and> UMap_empty (UMap_clear m)"
  using UMap_clear_spec [OF assms] UMap_find_eq [of tr "UMap_clear m"]
  by (simp add: UMap_empty_def) (simp add: UMap_clear_def)

theorem umap_clear_empties_witness:
  "\<exists>m. map_run (UMap_insert id_traits) (UMap_erase id_traits) [MInsert 3 10, MInsert 19 20] UMap_init = Inr m
     \<and> UMap_find id_traits (UMap_clear m) 19 = Inr None"
proof -
  have "\<exists>m. map_run (UMap_insert id_traits) (UMap_erase id_traits) [MInsert 3 10, MInsert 19 20] UMap_init = Inr m
      \<and> tombstone_count m = 0"
    by (simp add: umap_eval)
  then obtain m where m: "map_run (UMap_insert id_traits) (UMap_erase id_traits) [MInsert 3 10, MInsert 19 20] UMap_init = Inr m"
      "tombstone_count m = 0" by blast
  from umap_clear_empties [OF umap.look_after_run(1) [OF wf_umap_init m(1)] m(2)] m(1) show ?thesis by blast
qed

text \<open>
  \<open>clear()\<close> on a map with tombstones forgets their number but leaves them in the table.
  After twelve insertions, twelve erasures, \<open>clear()\<close> and four more insertions the map of
  sixteen buckets holds four elements and no empty slot, and the next insertion of a new key
  probes for ever.
\<close>

theorem umap_clear_forgets_tombstones:
  "\<exists>m1 m2. map_run (UMap_insert id_traits) (UMap_erase id_traits) churn UMap_init = Inr m1 \<and>
     map_run (UMap_insert id_traits) (UMap_erase id_traits)
       [MInsert 12 0, MInsert 13 0, MInsert 14 0, MInsert 15 0] (UMap_clear m1) = Inr m2 \<and>
     UMap_size m2 = 4 \<and> bucket_count m2 = 16 \<and>
     (\<forall>fuel. prepare_loop fuel (table m2) (bucket_count m2) 16 None (BucketFor id_traits m2 16) = Inl Diverges)"
proof -
  let ?s = "replicate 12 Deleted @ [Occupied 12 0, Occupied 13 0, Occupied 14 0, Occupied (15::nat) (0::nat)]"
  let ?m = "\<lparr>slots = Some ?s, bucket_count = 16, usize = 4, tombstone_count = 0\<rparr>"
  have clear: "UMap_clear churned = churned\<lparr>tombstone_count := 0\<rparr>"
    unfolding churned_def slots_16 by (simp add: UMap_clear_def)
  have "map_run (UMap_insert id_traits) (UMap_erase id_traits)
       [MInsert 12 0, MInsert 13 0, MInsert 14 0, MInsert 15 0] (UMap_clear churned) = Inr ?m"
    unfolding clear unfolding churned_def slots_16 by (simp add: umap_eval replicate_12)
  moreover have "prepare_loop fuel ?s 16 16 None (mask_to 16 16) = Inl Diverges" for fuel
  proof -
    have len: "length ?s = 16" by simp
    have "pow2_len ?s" unfolding pow2_len_def len by (rule exI [of _ 4]) simp
    then show ?thesis
      using prepare_loop_stuck [of ?s 16 fuel None 16 0] unfolding len
      by (simp add: keys_of_def mask_to_def)
  qed
  ultimately show ?thesis
    using run_churn by (intro exI [of _ churned] exI [of _ ?m]) (simp add: UMap_size_def BucketFor_def id_traits_def table_def)
qed

text \<open>
  On a map with tombstones \<open>reserve(count)\<close> does not keep the promise that \<open>count\<close>
  elements fit without a rehash: the emptied map of sixteen buckets is left as it is by
  \<open>reserve(11)\<close>, and the first insertion rehashes it to thirty-two.
\<close>

theorem umap_reserve_ignores_tombstones:
  "map_run (UMap_insert id_traits) (UMap_erase id_traits) churn UMap_init = Inr churned \<and>
     UMap_reserve id_traits churned 11 = Inr churned \<and> UMap_size churned = 0 \<and>
     (\<exists>m. UMap_insert id_traits churned 20 0 = Inr (m, True) \<and> bucket_count m \<noteq> bucket_count churned)"
proof -
  have "CheckedRoundUpToPowerOfTwo 15 = Inr 16"
    by (simp add: CheckedRoundUpToPowerOfTwo_def round_up_loop.simps MEM_MAX_def)
  then have "UMap_reserve id_traits churned 11 = Inr churned"
    by (simp add: UMap_reserve_def checked_exact MEM_MAX_def churned_def)
  moreover have "\<exists>m. UMap_insert id_traits churned 20 0 = Inr (m, True) \<and> bucket_count m = 32"
    unfolding churned_def slots_16
    by (simp add: umap_eval CheckedCountProduct_exact FreeSlots_def)
  ultimately show ?thesis using run_churn by (auto simp: churned_def UMap_size_def)
qed

end
