(* ===== verification/Unordered_Set.thy ===== *)
theory Unordered_Set
  imports Unordered_Map
begin

text \<open>
  \<open>base::UnorderedSet\<close> (\<open>containers/unordered_set.h\<close>): the keys of an \<open>UnorderedMap\<close> whose
  values are all \<open>true\<close>. Its contract is the one every map gives for its keys.
\<close>

type_synonym 'k uset = "('k, bool) umap"

section \<open>Operations\<close>

definition USet_insert :: "('k, bool) map_traits \<Rightarrow> 'k uset \<Rightarrow> 'k \<Rightarrow> ('k uset \<times> bool) res" where
  "USet_insert tr s key = UMap_insert tr s key True"

fun uset_insert_all :: "('k, bool) map_traits \<Rightarrow> 'k uset \<Rightarrow> 'k list \<Rightarrow> 'k uset res" where
  "uset_insert_all tr s [] = Inr s"
| "uset_insert_all tr s (k # ks) = bindE (USet_insert tr s k) (\<lambda>(s, b). uset_insert_all tr s ks)"

definition USet_of_list :: "('k, bool) map_traits \<Rightarrow> 'k list \<Rightarrow> 'k uset res" where
  "USet_of_list tr keys =
     bindE (UMap_reserve tr UMap_init (length keys)) (\<lambda>s. uset_insert_all tr s keys)"

definition USet_contains :: "('k, bool) map_traits \<Rightarrow> 'k uset \<Rightarrow> 'k \<Rightarrow> bool res" where
  "USet_contains tr s key = UMap_contains tr s key"

definition USet_count :: "('k, bool) map_traits \<Rightarrow> 'k uset \<Rightarrow> 'k \<Rightarrow> nat res" where
  "USet_count tr s key = bindE (UMap_contains tr s key) (\<lambda>b. Inr (if b then 1 else 0))"

definition USet_erase :: "('k, bool) map_traits \<Rightarrow> 'k uset \<Rightarrow> 'k \<Rightarrow> ('k uset \<times> bool) res" where
  "USet_erase tr s key = UMap_erase tr s key"

definition USet_clear :: "'k uset \<Rightarrow> 'k uset" where
  "USet_clear s = UMap_clear s"

definition USet_reserve :: "('k, bool) map_traits \<Rightarrow> 'k uset \<Rightarrow> nat \<Rightarrow> 'k uset res" where
  "USet_reserve tr s count = UMap_reserve tr s count"

definition USet_size :: "'k uset \<Rightarrow> nat" where
  "USet_size s = UMap_size s"

definition USet_empty :: "'k uset \<Rightarrow> bool" where
  "USet_empty s = UMap_empty s"

definition USet_iterate :: "'k uset \<Rightarrow> 'k list res" where
  "USet_iterate s = bindE (UMap_iterate s) (\<lambda>kvs. Inr (map fst kvs))"

definition USet_ForEach :: "('k \<Rightarrow> 's \<Rightarrow> 's) \<Rightarrow> 'k uset \<Rightarrow> 's \<Rightarrow> 's res" where
  "USet_ForEach func s st = UMap_ForEach (\<lambda>k v. func k) s st"

section \<open>The set contract\<close>

interpretation uset: set_store "wf_umap tr" "\<lambda>s. dom (umap_abs s)" "USet_contains tr" "USet_insert tr" "USet_erase tr" USet_size
  for tr
proof unfold_locales
  note laws = umap.keys_set_store [of tr True]
  fix s k assume s: "wf_umap tr s"
  show "USet_contains tr s k = Inr (k \<in> dom (umap_abs s))"
    using s by (simp add: USet_contains_def UMap_contains_eq domIff)
  show "outcome (\<lambda>(s', b). wf_umap tr s' \<and> b = (k \<notin> dom (umap_abs s)) \<and>
      dom (umap_abs s') = insert k (dom (umap_abs s))) (USet_insert tr s k)"
    unfolding USet_insert_def by (rule set_store.add_law [OF laws s])
  show "\<exists>s'. USet_erase tr s k = Inr (s', k \<in> dom (umap_abs s)) \<and> wf_umap tr s' \<and>
      dom (umap_abs s') = dom (umap_abs s) - {k}"
    unfolding USet_erase_def by (rule set_store.del_law [OF laws s])
  show "finite (dom (umap_abs s)) \<and> USet_size s = card (dom (umap_abs s))"
    unfolding USet_size_def by (rule set_store.card_law [OF laws s])
qed

section \<open>Properties\<close>

text \<open>
  Any sequence of insertions and erasures on an empty unordered set stops at an
  allocation check or leaves a set whose membership test is that of the mathematical set and
  whose iteration lists each of its keys once.
\<close>

theorem uset_run_refines:
  "outcome (\<lambda>s. (\<forall>k. USet_contains tr s k = Inr (k \<in> set_effect ops {})) \<and>
       USet_size s = card (set_effect ops {}) \<and>
       (\<exists>ks. USet_iterate s = Inr ks \<and> distinct ks \<and> set ks = set_effect ops {}))
     (set_run (USet_insert tr) (USet_erase tr) ops UMap_init)"
proof -
  have init: "dom (umap_abs UMap_init) = {}" by simp
  have "\<exists>ks. USet_iterate s = Inr ks \<and> distinct ks \<and> set ks = dom (umap_abs s)" if "wf_umap tr s" for s
    using UMap_iterate_eq [OF that] wf_umap_load(3) [OF that]
    by (auto simp: USet_iterate_def keys_of_def umap_abs_def dom_map_of_conv_image_fst)
  note iter = this
  have run: "outcome (\<lambda>s. wf_umap tr s \<and> dom (umap_abs s) = set_effect ops {})
      (set_run (USet_insert tr) (USet_erase tr) ops UMap_init)"
    using uset.set_run_refines [OF wf_umap_init, of tr ops] unfolding init .
  show ?thesis
  proof (cases "set_run (USet_insert tr) (USet_erase tr) ops UMap_init")
    case (Inr s)
    with run have s: "wf_umap tr s" "dom (umap_abs s) = set_effect ops {}" by simp_all
    with iter [OF s(1)] uset.mem_law [OF s(1)] uset.card_law [OF s(1)] Inr show ?thesis by simp
  qed (use run in simp)
qed

end
