(* ===== verification/Hash_Map.thy ===== *)
theory Hash_Map
  imports Checked_Arith Map_Spec "HOL-Library.Multiset"
begin

text \<open>
  \<open>base::HashMap\<close> and \<open>base::HashSet\<close> (\<open>containers/hash_map.h\<close>): chained hash tables in
  which every element is a node of its own. A node carries the address the allocator gave
  it, the stored hash, the key and the value; the chain of a bucket is the list of its nodes
  from the head, so a node's \<open>next\<close> pointer is the rest of its chain. Hash functor and
  allocator are parameters: \<open>node_alloc\<close> answers a request for a node from the addresses
  that are in use, \<open>bucket_alloc\<close> says whether an array of so many bytes is granted.
\<close>

section \<open>State\<close>

record ('k, 'v) hnode =
  naddr :: nat
  nhash :: u64
  nkey :: 'k
  nval :: 'v

record ('k, 'v) hmap =
  buckets :: "('k, 'v) hnode list list option"
  hcount :: nat
  bucket_shift :: nat
  hsize :: nat

record ('k, 'v) hash_traits =
  khash :: "'k \<Rightarrow> u64"
  hdflt :: 'v
  node_alloc :: "nat list \<Rightarrow> nat option"
  bucket_alloc :: "nat \<Rightarrow> bool"

definition heads :: "('k, 'v) hmap \<Rightarrow> ('k, 'v) hnode list list" where
  "heads m = (case buckets m of None \<Rightarrow> [] | Some bs \<Rightarrow> bs)"

definition HashMap_init :: "('k, 'v) hmap" where
  "HashMap_init = \<lparr>buckets = None, hcount = 0, bucket_shift = 0, hsize = 0\<rparr>"

section \<open>Private operations\<close>

text \<open>The doubling loop, on 64-bit values; \<open>None\<close> is a loop that never ends.\<close>

partial_function (option) doubling_loop :: "nat \<Rightarrow> nat \<Rightarrow> nat option" where
  "doubling_loop p n = (if p < n then doubling_loop (p * 2 mod 2 ^ 64) n else Some p)"

definition RoundUpToPowerOfTwo :: "nat \<Rightarrow> nat res" where
  "RoundUpToPowerOfTwo n = (case doubling_loop 16 n of None \<Rightarrow> Inl Diverges | Some p \<Rightarrow> Inr p)"

text \<open>\<open>while ((mem_size(1) << shift) < count) shift++\<close>; shifting by 64 is undefined.\<close>

function shift_loop :: "nat \<Rightarrow> nat \<Rightarrow> nat res" where
  "shift_loop shift cnt =
     (if shift \<ge> 64 then Inl ShiftOverflow
      else if 2 ^ shift < cnt then shift_loop (shift + 1) cnt else Inr shift)"
  by pat_completeness auto
termination by (relation "measure (\<lambda>(shift, cnt). 64 - shift)") auto

declare shift_loop.simps [simp del]

definition BucketOf :: "nat \<Rightarrow> u64 \<Rightarrow> nat res" where
  "BucketOf shift h =
     (if 0 < shift \<and> shift \<le> 64 then Inr (unat (drop_bit (64 - shift) (h * 0x9E3779B97F4A7C15)))
      else Inl ShiftOverflow)"

definition bucket_at :: "('k, 'v) hnode list list \<Rightarrow> nat \<Rightarrow> ('k, 'v) hnode list res" where
  "bucket_at bs b = (if b < length bs then Inr (bs ! b) else Inl OutOfBounds)"

fun find_chain :: "('k, 'v) hnode list \<Rightarrow> u64 \<Rightarrow> 'k \<Rightarrow> ('k, 'v) hnode option" where
  "find_chain [] h key = None"
| "find_chain (n # ns) h key = (if nhash n = h \<and> nkey n = key then Some n else find_chain ns h key)"

definition FindNode_hashed :: "('k, 'v) hmap \<Rightarrow> 'k \<Rightarrow> u64 \<Rightarrow> ('k, 'v) hnode option res" where
  "FindNode_hashed m key h =
     (if hcount m = 0 then Inr None
      else bindE (BucketOf (bucket_shift m) h) (\<lambda>b.
           bindE (bucket_at (heads m) b) (\<lambda>ns. Inr (find_chain ns h key))))"

definition FindNode :: "('k, 'v) hash_traits \<Rightarrow> ('k, 'v) hmap \<Rightarrow> 'k \<Rightarrow> ('k, 'v) hnode option res" where
  "FindNode tr m key = (if hcount m \<noteq> 0 then FindNode_hashed m key (khash tr key) else Inr None)"

text \<open>The first node of the buckets from \<open>b\<close> on; \<open>left\<close> is \<open>bucket_count_ - b\<close>.\<close>

fun first_from :: "('k, 'v) hnode list list \<Rightarrow> nat \<Rightarrow> nat \<Rightarrow> ('k, 'v) hnode option res" where
  "first_from bs b 0 = Inr None"
| "first_from bs b (Suc left) =
     bindE (bucket_at bs b) (\<lambda>ns. case ns of [] \<Rightarrow> first_from bs (b + 1) left | n # _ \<Rightarrow> Inr (Some n))"

definition FirstNode :: "('k, 'v) hmap \<Rightarrow> ('k, 'v) hnode option res" where
  "FirstNode m = first_from (heads m) 0 (hcount m)"

text \<open>The successor of the node at an address in its chain.\<close>

fun chain_next :: "nat \<Rightarrow> ('k, 'v) hnode list \<Rightarrow> ('k, 'v) hnode option res" where
  "chain_next a [] = Inl Lifetime"
| "chain_next a (n # ns) =
     (if naddr n = a then Inr (case ns of [] \<Rightarrow> None | n' # _ \<Rightarrow> Some n') else chain_next a ns)"

definition NextNode :: "('k, 'v) hmap \<Rightarrow> ('k, 'v) hnode \<Rightarrow> ('k, 'v) hnode option res" where
  "NextNode m node =
     bindE (BucketOf (bucket_shift m) (nhash node)) (\<lambda>b.
     bindE (bucket_at (heads m) b) (\<lambda>ns.
     bindE (chain_next (naddr node) ns) (\<lambda>r.
     case r of Some n \<Rightarrow> Inr (Some n)
     | None \<Rightarrow> first_from (heads m) (b + 1) (hcount m - (b + 1)))))"

definition push_chain :: "nat \<Rightarrow> ('k, 'v) hnode list list \<Rightarrow> ('k, 'v) hnode \<Rightarrow> ('k, 'v) hnode list list res" where
  "push_chain shift bs node =
     bindE (BucketOf shift (nhash node)) (\<lambda>b.
     bindE (bucket_at bs b) (\<lambda>ns. Inr (bs[b := node # ns])))"

fun relink :: "nat \<Rightarrow> ('k, 'v) hnode list list \<Rightarrow> ('k, 'v) hnode list \<Rightarrow> ('k, 'v) hnode list list res" where
  "relink shift bs [] = Inr bs"
| "relink shift bs (n # ns) = bindE (push_chain shift bs n) (\<lambda>bs. relink shift bs ns)"

fun relink_all :: "nat \<Rightarrow> ('k, 'v) hnode list list \<Rightarrow> ('k, 'v) hnode list list \<Rightarrow> nat \<Rightarrow> nat
    \<Rightarrow> ('k, 'v) hnode list list res" where
  "relink_all shift bs old b 0 = Inr bs"
| "relink_all shift bs old b (Suc left) =
     bindE (bucket_at old b) (\<lambda>ns.
     bindE (relink shift bs ns) (\<lambda>bs. relink_all shift bs old (b + 1) left))"

text \<open>
  \<open>count * sizeof(Node*)\<close> is not checked for overflow: when it wraps, the loop that clears
  the \<open>count\<close> heads runs off the block.
\<close>

definition alloc_heads :: "('k, 'v) hash_traits \<Rightarrow> nat \<Rightarrow> ('k, 'v) hnode list list res" where
  "alloc_heads tr cnt =
     (let bytes = cnt * 8 mod 2 ^ 64 in
      bindE (ensure (bucket_alloc tr bytes) (FatalCheck ''HashMap: bucket allocation failed'')) (\<lambda>_.
      bindE (ensure (cnt * 8 \<le> bytes) OutOfBounds) (\<lambda>_. Inr (replicate cnt []))))"

definition Rehash :: "('k, 'v) hash_traits \<Rightarrow> ('k, 'v) hmap \<Rightarrow> nat \<Rightarrow> ('k, 'v) hmap res" where
  "Rehash tr m wanted =
     bindE (RoundUpToPowerOfTwo wanted) (\<lambda>cnt.
     bindE (shift_loop 0 cnt) (\<lambda>shift.
     bindE (alloc_heads tr cnt) (\<lambda>fresh.
     bindE (relink_all shift fresh (heads m) 0 (hcount m)) (\<lambda>fresh.
     bindE (ensure (length (heads m) = hcount m) BadFree) (\<lambda>_.
     Inr (m\<lparr>buckets := Some fresh, hcount := cnt, bucket_shift := shift\<rparr>))))))"

definition live_addrs :: "('k, 'v) hmap \<Rightarrow> nat list" where
  "live_addrs m = map naddr (concat (heads m))"

definition Link :: "('k, 'v) hash_traits \<Rightarrow> ('k, 'v) hmap \<Rightarrow> u64 \<Rightarrow> 'k \<Rightarrow> 'v
    \<Rightarrow> (('k, 'v) hmap \<times> ('k, 'v) hnode) res" where
  "Link tr m h key val =
     bindE (if (hsize m + 1) mod 2 ^ 64 > hcount m then Rehash tr m ((hsize m + 1) mod 2 ^ 64) else Inr m) (\<lambda>m.
     case node_alloc tr (live_addrs m) of
       None \<Rightarrow> Inl (FatalCheck ''HashMap: node allocation failed'')
     | Some a \<Rightarrow>
         let node = \<lparr>naddr = a, nhash = h, nkey = key, nval = val\<rparr> in
         bindE (push_chain (bucket_shift m) (heads m) node) (\<lambda>bs.
         Inr (m\<lparr>buckets := Some bs, hsize := (hsize m + 1) mod 2 ^ 64\<rparr>, node)))"

section \<open>Public operations\<close>

definition HashMap_find :: "('k, 'v) hash_traits \<Rightarrow> ('k, 'v) hmap \<Rightarrow> 'k \<Rightarrow> ('k, 'v) hnode option res" where
  "HashMap_find tr m key = FindNode tr m key"

definition HashMap_contains :: "('k, 'v) hash_traits \<Rightarrow> ('k, 'v) hmap \<Rightarrow> 'k \<Rightarrow> bool res" where
  "HashMap_contains tr m key = bindE (FindNode tr m key) (\<lambda>r. Inr (r \<noteq> None))"

definition HashMap_count :: "('k, 'v) hash_traits \<Rightarrow> ('k, 'v) hmap \<Rightarrow> 'k \<Rightarrow> nat res" where
  "HashMap_count tr m key = bindE (HashMap_contains tr m key) (\<lambda>b. Inr (if b then 1 else 0))"

definition HashMap_emplace :: "('k, 'v) hash_traits \<Rightarrow> ('k, 'v) hmap \<Rightarrow> 'k \<Rightarrow> 'v
    \<Rightarrow> (('k, 'v) hmap \<times> ('k, 'v) hnode \<times> bool) res" where
  "HashMap_emplace tr m key val =
     (let h = khash tr key in
      bindE (FindNode_hashed m key h) (\<lambda>r.
      case r of Some node \<Rightarrow> Inr (m, node, False)
      | None \<Rightarrow> bindE (Link tr m h key val) (\<lambda>(m, node). Inr (m, node, True))))"

definition HashMap_insert :: "('k, 'v) hash_traits \<Rightarrow> ('k, 'v) hmap \<Rightarrow> 'k \<Rightarrow> 'v \<Rightarrow> (('k, 'v) hmap \<times> bool) res" where
  "HashMap_insert tr m key val = bindE (HashMap_emplace tr m key val) (\<lambda>(m, node, b). Inr (m, b))"

text \<open>Assigning to the value of the node at an address.\<close>

definition set_value :: "nat \<Rightarrow> 'v \<Rightarrow> ('k, 'v) hmap \<Rightarrow> ('k, 'v) hmap" where
  "set_value a val m =
     m\<lparr>buckets := map_option (map (map (\<lambda>n. if naddr n = a then n\<lparr>nval := val\<rparr> else n))) (buckets m)\<rparr>"

definition HashMap_insert_or_assign :: "('k, 'v) hash_traits \<Rightarrow> ('k, 'v) hmap \<Rightarrow> 'k \<Rightarrow> 'v
    \<Rightarrow> (('k, 'v) hmap \<times> bool) res" where
  "HashMap_insert_or_assign tr m key val =
     bindE (FindNode tr m key) (\<lambda>r.
     case r of Some node \<Rightarrow> Inr (set_value (naddr node) val m, False)
     | None \<Rightarrow> HashMap_insert tr m key val)"

definition HashMap_index :: "('k, 'v) hash_traits \<Rightarrow> ('k, 'v) hmap \<Rightarrow> 'k \<Rightarrow> (('k, 'v) hmap \<times> 'v) res" where
  "HashMap_index tr m key =
     bindE (HashMap_emplace tr m key (hdflt tr)) (\<lambda>(m, node, b). Inr (m, nval node))"

definition HashMap_at :: "('k, 'v) hash_traits \<Rightarrow> ('k, 'v) hmap \<Rightarrow> 'k \<Rightarrow> 'v res" where
  "HashMap_at tr m key =
     bindE (FindNode tr m key) (\<lambda>r.
     case r of None \<Rightarrow> Inl (BugCheck ''HashMap::at: key not present'') | Some node \<Rightarrow> Inr (nval node))"

text \<open>The two unlinking loops: by key, and by the node's address.\<close>

fun unlink_key :: "('k, 'v) hnode list \<Rightarrow> u64 \<Rightarrow> 'k \<Rightarrow> ('k, 'v) hnode list option" where
  "unlink_key [] h key = None"
| "unlink_key (n # ns) h key =
     (if nhash n = h \<and> nkey n = key then Some ns
      else map_option (\<lambda>ns. n # ns) (unlink_key ns h key))"

definition HashMap_erase :: "('k, 'v) hash_traits \<Rightarrow> ('k, 'v) hmap \<Rightarrow> 'k \<Rightarrow> (('k, 'v) hmap \<times> bool) res" where
  "HashMap_erase tr m key =
     (if hcount m = 0 then Inr (m, False)
      else bindE (BucketOf (bucket_shift m) (khash tr key)) (\<lambda>b.
           bindE (bucket_at (heads m) b) (\<lambda>ns.
           case unlink_key ns (khash tr key) key of
             None \<Rightarrow> Inr (m, False)
           | Some ns \<Rightarrow> Inr (m\<lparr>buckets := Some ((heads m)[b := ns]),
                                hsize := (hsize m + (2 ^ 64 - 1)) mod 2 ^ 64\<rparr>, True))))"

fun unlink_addr :: "('k, 'v) hnode list \<Rightarrow> nat \<Rightarrow> ('k, 'v) hnode list res" where
  "unlink_addr [] a = Inl Lifetime"
| "unlink_addr (n # ns) a =
     (if naddr n = a then Inr ns else bindE (unlink_addr ns a) (\<lambda>ns. Inr (n # ns)))"

definition HashMap_erase_at :: "('k, 'v) hmap \<Rightarrow> ('k, 'v) hnode \<Rightarrow> (('k, 'v) hmap \<times> ('k, 'v) hnode option) res" where
  "HashMap_erase_at m victim =
     bindE (NextNode m victim) (\<lambda>next.
     bindE (BucketOf (bucket_shift m) (nhash victim)) (\<lambda>b.
     bindE (bucket_at (heads m) b) (\<lambda>ns.
     bindE (unlink_addr ns (naddr victim)) (\<lambda>ns.
     Inr (m\<lparr>buckets := Some ((heads m)[b := ns]), hsize := (hsize m + (2 ^ 64 - 1)) mod 2 ^ 64\<rparr>, next)))))"

definition HashMap_clear :: "('k, 'v) hmap \<Rightarrow> ('k, 'v) hmap" where
  "HashMap_clear m = m\<lparr>buckets := map_option (map (\<lambda>_. [])) (buckets m), hsize := 0\<rparr>"

definition HashMap_reserve :: "('k, 'v) hash_traits \<Rightarrow> ('k, 'v) hmap \<Rightarrow> nat \<Rightarrow> ('k, 'v) hmap res" where
  "HashMap_reserve tr m cnt = (if cnt > hcount m then Rehash tr m cnt else Inr m)"

text \<open>Walking from \<open>begin()\<close> to \<open>end()\<close>, with the number of steps bounded by fuel.\<close>

fun walk_nodes :: "nat \<Rightarrow> ('k, 'v) hmap \<Rightarrow> ('k, 'v) hnode option \<Rightarrow> ('k, 'v) hnode list res" where
  "walk_nodes 0 m it = Inl Diverges"
| "walk_nodes (Suc fuel) m it =
     (case it of None \<Rightarrow> Inr []
      | Some node \<Rightarrow> bindE (NextNode m node) (\<lambda>it. bindE (walk_nodes fuel m it) (\<lambda>ns. Inr (node # ns))))"

definition HashMap_iterate :: "('k, 'v) hmap \<Rightarrow> ('k, 'v) hnode list res" where
  "HashMap_iterate m = bindE (FirstNode m) (\<lambda>it. walk_nodes (Suc (hsize m)) m it)"

fun emplace_all :: "('k, 'v) hash_traits \<Rightarrow> ('k, 'v) hmap \<Rightarrow> ('k \<times> 'v) list \<Rightarrow> ('k, 'v) hmap res" where
  "emplace_all tr m [] = Inr m"
| "emplace_all tr m ((k, v) # kvs) = bindE (HashMap_emplace tr m k v) (\<lambda>(m, node, b). emplace_all tr m kvs)"

definition HashMap_of_list :: "('k, 'v) hash_traits \<Rightarrow> ('k \<times> 'v) list \<Rightarrow> ('k, 'v) hmap res" where
  "HashMap_of_list tr kvs =
     bindE (HashMap_reserve tr HashMap_init (length kvs)) (\<lambda>m. emplace_all tr m kvs)"

definition CopyFrom :: "('k, 'v) hash_traits \<Rightarrow> ('k, 'v) hmap \<Rightarrow> ('k, 'v) hmap \<Rightarrow> ('k, 'v) hmap res" where
  "CopyFrom tr m other =
     bindE (HashMap_reserve tr m (hsize other)) (\<lambda>m.
     bindE (HashMap_iterate other) (\<lambda>ns. emplace_all tr m (map (\<lambda>n. (nkey n, nval n)) ns)))"

definition HashMap_copy :: "('k, 'v) hash_traits \<Rightarrow> ('k, 'v) hmap \<Rightarrow> ('k, 'v) hmap res" where
  "HashMap_copy tr other = CopyFrom tr HashMap_init other"

text \<open>\<open>StealFrom\<close>: the new map and what is left in the old one.\<close>

definition StealFrom :: "('k, 'v) hmap \<Rightarrow> ('k, 'v) hmap \<times> ('k, 'v) hmap" where
  "StealFrom other = (other, HashMap_init)"

definition Release :: "('k, 'v) hmap \<Rightarrow> ('k, 'v) hmap res" where
  "Release m =
     bindE (case buckets (HashMap_clear m) of None \<Rightarrow> Inr ()
            | Some bs \<Rightarrow> bindE (ensure (length bs = hcount m) BadFree) (\<lambda>_.
                          ensure (\<forall>ns \<in> set bs. ns = []) Leak)) (\<lambda>_.
     Inr ((HashMap_clear m)\<lparr>buckets := None, hcount := 0, bucket_shift := 0\<rparr>))"

definition HashMap_copy_assign :: "('k, 'v) hash_traits \<Rightarrow> bool \<Rightarrow> ('k, 'v) hmap \<Rightarrow> ('k, 'v) hmap
    \<Rightarrow> ('k, 'v) hmap res" where
  "HashMap_copy_assign tr same m other =
     (if same then Inr m else bindE (Release m) (\<lambda>m. CopyFrom tr m other))"

definition HashMap_move_assign :: "bool \<Rightarrow> ('k, 'v) hmap \<Rightarrow> ('k, 'v) hmap \<Rightarrow> (('k, 'v) hmap \<times> ('k, 'v) hmap) res" where
  "HashMap_move_assign same m other =
     (if same then Inr (m, m) else bindE (Release m) (\<lambda>_. Inr (StealFrom other)))"

definition HashMap_size :: "('k, 'v) hmap \<Rightarrow> nat" where
  "HashMap_size m = hsize m"

definition HashMap_empty :: "('k, 'v) hmap \<Rightarrow> bool" where
  "HashMap_empty m \<longleftrightarrow> hsize m = 0"

section \<open>Doubling and shifting\<close>

lemma doubling_loop_finds:
  assumes "2 ^ k < n" and "n \<le> 2 ^ 63"
  shows "\<exists>q. k < q \<and> q \<le> 63 \<and> doubling_loop (2 ^ k) n = Some (2 ^ q) \<and> n \<le> 2 ^ q \<and> 2 ^ (q - 1) < n"
  using assms(1)
proof (induction "63 - k" arbitrary: k)
  case 0
  then have "(2::nat) ^ 63 \<le> 2 ^ k" by (intro power_increasing) auto
  with 0 assms(2) show ?case by simp
next
  case (Suc d)
  then have k: "k < 63" by simp
  then have "(2::nat) ^ Suc k \<le> 2 ^ 63" by (intro power_increasing) auto
  then have step: "doubling_loop (2 ^ k) n = doubling_loop (2 ^ Suc k) n"
    using Suc.prems by (simp add: doubling_loop.simps [of "2 ^ k"] mult.commute)
  show ?case
  proof (cases "2 ^ Suc k < n")
    case True
    have "d = 63 - Suc k" using Suc.hyps(2) k by simp
    from Suc.hyps(1) [OF this True] step show ?thesis by (metis Suc_lessD)
  next
    case False
    then show ?thesis using step k Suc.prems
      by (intro exI [of _ "Suc k"]) (simp add: doubling_loop.simps [of "2 * 2 ^ k"])
  qed
qed

text \<open>Rounding up: 16 or the least power of two that is enough; above \<open>2^63\<close> the loop
  wraps to zero and never ends.\<close>

lemma RoundUpToPowerOfTwo_finds:
  assumes "n \<le> 2 ^ 63"
  shows "\<exists>q. 4 \<le> q \<and> q \<le> 63 \<and> RoundUpToPowerOfTwo n = Inr (2 ^ q) \<and> n \<le> 2 ^ q \<and> (q = 4 \<or> 2 ^ (q - 1) < n)"
proof (cases "16 < n")
  case True
  have "(2::nat) ^ 4 < n" using True by simp
  from doubling_loop_finds [OF this assms] show ?thesis
    by (force simp: RoundUpToPowerOfTwo_def)
next
  case False
  then show ?thesis by (intro exI [of _ 4]) (simp add: RoundUpToPowerOfTwo_def doubling_loop.simps)
qed

lemma doubling_loop_positive: "doubling_loop p n = Some r \<Longrightarrow> 0 < n \<Longrightarrow> p \<noteq> 0"
proof -
  assume "doubling_loop p n = Some r"
  then have "0 < n \<longrightarrow> p \<noteq> 0"
  proof (rule doubling_loop.raw_induct [where P = "\<lambda>p n r. 0 < n \<longrightarrow> p \<noteq> 0", rotated])
    fix f p n r
    assume ih: "\<And>p n r. f p n = Some r \<Longrightarrow> 0 < n \<longrightarrow> p \<noteq> (0 :: nat)"
      and step: "(if p < n then f (p * 2 mod 2 ^ 64) n else Some p) = Some r"
    show "0 < n \<longrightarrow> p \<noteq> 0"
    proof (intro impI notI)
      assume "0 < n" "p = 0"
      with step have "f 0 n = Some r" by simp
      with ih [of 0 n r] \<open>0 < n\<close> show False by simp
    qed
  qed
  then show "0 < n \<Longrightarrow> p \<noteq> 0" by simp
qed

lemma doubling_loop_zero: "0 < n \<Longrightarrow> doubling_loop 0 n = None"
  using doubling_loop_positive [of 0 n] by fastforce

lemma RoundUpToPowerOfTwo_diverges:
  assumes "2 ^ 63 < n"
  shows "RoundUpToPowerOfTwo n = Inl Diverges"
proof -
  have "doubling_loop (2 ^ k) n = None" if "k \<le> 63" for k
    using that
  proof (induction "63 - k" arbitrary: k)
    case 0
    then have "k = 63" by simp
    have "doubling_loop (2 ^ 63) n = doubling_loop 0 n"
      using assms by (subst doubling_loop.simps) simp
    with \<open>k = 63\<close> assms show ?case using doubling_loop_zero [of n] by simp
  next
    case (Suc d)
    then have k: "k < 63" by simp
    then have "(2::nat) ^ Suc k \<le> 2 ^ 63" by (intro power_increasing) auto
    then have "doubling_loop (2 ^ k) n = doubling_loop (2 ^ Suc k) n"
      using assms by (simp add: doubling_loop.simps [of "2 ^ k"] mult.commute)
    with Suc.hyps(1) [of "Suc k"] Suc.hyps(2) k show ?case by simp
  qed
  from this [of 4] show ?thesis by (simp add: RoundUpToPowerOfTwo_def)
qed

lemma shift_loop_exact:
  assumes "q \<le> 63" and "shift \<le> q"
  shows "shift_loop shift (2 ^ q) = Inr q"
  using assms(2)
proof (induction "q - shift" arbitrary: shift)
  case 0
  with assms show ?case by (simp add: shift_loop.simps)
next
  case (Suc d)
  then have "(2::nat) ^ shift < 2 ^ q" by (intro power_strict_increasing) auto
  with Suc.hyps(1) [of "Suc shift"] Suc.hyps(2) Suc.prems assms(1) show ?case
    by (simp add: shift_loop.simps [of shift])
qed

section \<open>Buckets\<close>

definition bucket_of :: "nat \<Rightarrow> u64 \<Rightarrow> nat" where
  "bucket_of shift h = unat (drop_bit (64 - shift) (h * 0x9E3779B97F4A7C15))"

lemma BucketOf_eq: "0 < shift \<Longrightarrow> shift \<le> 64 \<Longrightarrow> BucketOf shift h = Inr (bucket_of shift h)"
  by (simp add: BucketOf_def bucket_of_def)

lemma bucket_of_less:
  assumes "shift \<le> 64"
  shows "bucket_of shift h < 2 ^ shift"
proof -
  let ?w = "h * 0x9E3779B97F4A7C15"
  have "unat ?w < 2 ^ shift * 2 ^ (64 - shift)"
    using assms unsigned_less [of ?w] by (simp flip: power_add)
  then show ?thesis
    unfolding bucket_of_def unat_drop_bit_eq by (simp add: drop_bit_eq_div less_mult_imp_div_less)
qed

definition placed :: "('k, 'v) hash_traits \<Rightarrow> nat \<Rightarrow> ('k, 'v) hnode list list \<Rightarrow> bool" where
  "placed tr shift bs \<longleftrightarrow> length bs = 2 ^ shift \<and>
     (\<forall>b < length bs. \<forall>n \<in> set (bs ! b). nhash n = khash tr (nkey n) \<and> bucket_of shift (khash tr (nkey n)) = b)"

lemma mset_concat_update:
  "b < length bs \<Longrightarrow> mset (concat (bs[b := ns])) + mset (bs ! b) = mset (concat bs) + mset ns"
proof (induction bs arbitrary: b)
  case (Cons c bs)
  then show ?case by (cases b) auto
qed simp

lemma mset_concat_push:
  assumes "b < length bs"
  shows "mset (concat (bs[b := n # bs ! b])) = add_mset n (mset (concat bs))"
  using mset_concat_update [OF assms, of "n # bs ! b"] by simp

lemma in_concat_bucket: "n \<in> set (concat bs) \<longleftrightarrow> (\<exists>b < length bs. n \<in> set (bs ! b))"
  by (auto simp: set_conv_nth [of bs])

lemma concat_free [simp]: "concat (replicate n []) = []"
  by simp

lemma placed_node:
  assumes "placed tr shift bs" and "n \<in> set (concat bs)"
  shows "nhash n = khash tr (nkey n)" and "bucket_of shift (nhash n) < length bs"
    and "n \<in> set (bs ! bucket_of shift (nhash n))"
proof -
  obtain b where b: "b < length bs" "n \<in> set (bs ! b)" using assms(2) unfolding in_concat_bucket by blast
  then have "nhash n = khash tr (nkey n)" "bucket_of shift (khash tr (nkey n)) = b"
    using assms(1) unfolding placed_def by blast+
  with b show "nhash n = khash tr (nkey n)" "bucket_of shift (nhash n) < length bs"
    "n \<in> set (bs ! bucket_of shift (nhash n))" by simp_all
qed

lemma push_chain_spec:
  assumes "placed tr shift bs" and "0 < shift" and "shift \<le> 64" and "nhash n = khash tr (nkey n)"
  shows "\<exists>bs'. push_chain shift bs n = Inr bs' \<and> placed tr shift bs' \<and>
     mset (concat bs') = add_mset n (mset (concat bs))"
proof -
  let ?b = "bucket_of shift (nhash n)"
  have b: "?b < length bs" using assms bucket_of_less by (simp add: placed_def)
  have "placed tr shift (bs[?b := n # bs ! ?b])"
    using assms b by (auto simp: placed_def nth_list_update)
  with b assms show ?thesis
    by (simp add: push_chain_def BucketOf_eq bucket_at_def mset_concat_push)
qed

lemma relink_spec:
  assumes "placed tr shift bs" and "0 < shift" and "shift \<le> 64"
    and "\<forall>n \<in> set ns. nhash n = khash tr (nkey n)"
  shows "\<exists>bs'. relink shift bs ns = Inr bs' \<and> placed tr shift bs' \<and>
     mset (concat bs') = mset (concat bs) + mset ns"
  using assms(1,4)
proof (induction ns arbitrary: bs)
  case (Cons n ns)
  obtain bs1 where b1: "push_chain shift bs n = Inr bs1" "placed tr shift bs1"
      "mset (concat bs1) = add_mset n (mset (concat bs))"
    using push_chain_spec [OF Cons.prems(1) assms(2,3)] Cons.prems(2) by auto
  with Cons.IH [of bs1] Cons.prems(2) show ?case by auto
qed auto

lemma relink_all_spec:
  assumes "placed tr shift bs" and "0 < shift" and "shift \<le> 64"
    and "\<forall>n \<in> set (concat old). nhash n = khash tr (nkey n)" and "length old = b + left"
  shows "\<exists>bs'. relink_all shift bs old b left = Inr bs' \<and> placed tr shift bs' \<and>
     mset (concat bs') = mset (concat bs) + mset (concat (drop b old))"
  using assms(1,5)
proof (induction left arbitrary: bs b)
  case (Suc left)
  then have b: "b < length old" by simp
  then have "\<forall>n \<in> set (old ! b). nhash n = khash tr (nkey n)" using assms(4) by auto
  from relink_spec [OF Suc.prems(1) assms(2,3) this]
  obtain bs1 where b1: "relink shift bs (old ! b) = Inr bs1" "placed tr shift bs1"
      "mset (concat bs1) = mset (concat bs) + mset (old ! b)" by blast
  obtain bs2 where "relink_all shift bs1 old (b + 1) left = Inr bs2" "placed tr shift bs2"
      "mset (concat bs2) = mset (concat bs1) + mset (concat (drop (b + 1) old))"
    using Suc.IH [OF b1(2), of "b + 1"] Suc.prems(2) by auto
  moreover have "drop b old = old ! b # drop (Suc b) old" using b by (simp add: Cons_nth_drop_Suc)
  ultimately show ?case using b b1 by (simp add: bucket_at_def ac_simps)
qed simp

section \<open>The invariant\<close>

text \<open>
  What the code relies on from the allocator: a node it hands out is not in use, is aligned
  to sixteen bytes and lies in the lower half of the address space.
\<close>

definition fresh_nodes :: "('k, 'v) hash_traits \<Rightarrow> bool" where
  "fresh_nodes tr \<longleftrightarrow> (\<forall>live a. node_alloc tr live = Some a \<longrightarrow> a \<notin> set live \<and> a mod 16 = 0 \<and> a < 2 ^ 63)"

definition hnodes :: "('k, 'v) hmap \<Rightarrow> ('k, 'v) hnode list" where
  "hnodes m = concat (heads m)"

definition node_map :: "('k, 'v) hnode list \<Rightarrow> 'k \<rightharpoonup> 'v" where
  "node_map ns = map_of (map (\<lambda>n. (nkey n, nval n)) ns)"

definition hmap_abs :: "('k, 'v) hmap \<Rightarrow> 'k \<rightharpoonup> 'v" where
  "hmap_abs m = node_map (hnodes m)"

definition nodes_ok :: "('k, 'v) hnode list \<Rightarrow> bool" where
  "nodes_ok ns \<longleftrightarrow> distinct (map nkey ns) \<and> distinct (map naddr ns) \<and>
     (\<forall>n \<in> set ns. naddr n mod 16 = 0 \<and> naddr n < 2 ^ 63)"

definition wf_buckets :: "('k, 'v) hash_traits \<Rightarrow> ('k, 'v) hmap \<Rightarrow> bool" where
  "wf_buckets tr m \<longleftrightarrow> hcount m = length (heads m) \<and> 4 \<le> bucket_shift m \<and> bucket_shift m \<le> 60 \<and>
     placed tr (bucket_shift m) (heads m)"

definition wf_hmap :: "('k, 'v) hash_traits \<Rightarrow> ('k, 'v) hmap \<Rightarrow> bool" where
  "wf_hmap tr m \<longleftrightarrow> fresh_nodes tr \<and> hsize m = length (hnodes m) \<and> nodes_ok (hnodes m) \<and>
     (m = HashMap_init \<or> buckets m \<noteq> None \<and> wf_buckets tr m)"

lemma heads_init [simp]: "heads HashMap_init = []"
  by (simp add: heads_def HashMap_init_def)

lemma wf_hmap_init: "fresh_nodes tr \<Longrightarrow> wf_hmap tr HashMap_init"
  by (simp add: wf_hmap_def hnodes_def nodes_ok_def) (simp add: HashMap_init_def)

lemma hmap_abs_init [simp]: "hmap_abs HashMap_init = Map.empty"
  by (simp add: hmap_abs_def hnodes_def node_map_def)

lemma wf_hmap_count: "wf_hmap tr m \<Longrightarrow> hcount m = length (heads m)"
  by (auto simp: wf_hmap_def wf_buckets_def HashMap_init_def heads_def)

lemma wf_hmap_buckets:
  assumes "wf_hmap tr m" and "hcount m \<noteq> 0"
  shows "wf_buckets tr m" and "buckets m \<noteq> None"
  using assms by (auto simp: wf_hmap_def HashMap_init_def)

lemma nodes_ok_mset: "mset ns = mset ns' \<Longrightarrow> nodes_ok ns \<Longrightarrow> nodes_ok ns'"
  unfolding nodes_ok_def
  by (metis mset_eq_imp_distinct_iff mset_eq_setD mset_map)

text \<open>Sixteen-byte aligned addresses below \<open>2^63\<close>: at most \<open>2^59\<close> nodes.\<close>

lemma nodes_ok_bound:
  assumes "nodes_ok ns"
  shows "length ns \<le> 2 ^ 59"
proof -
  let ?A = "set (map naddr ns)"
  have "inj_on (\<lambda>a. a div 16) ?A"
  proof (rule inj_onI)
    fix a b assume "a \<in> ?A" "b \<in> ?A" and eq: "a div 16 = b div 16"
    then have "a mod 16 = 0" "b mod 16 = 0" using assms by (auto simp: nodes_ok_def)
    with eq show "a = b" using div_mult_mod_eq [of a 16] div_mult_mod_eq [of b 16] by linarith
  qed
  moreover have "(\<lambda>a. a div 16) ` ?A \<subseteq> {..< 2 ^ 59}"
    using assms by (auto simp: nodes_ok_def less_mult_imp_div_less)
  ultimately have "card ?A \<le> card {..< 2 ^ 59 :: nat}" by (intro card_inj_on_le) auto
  with assms show ?thesis by (simp add: nodes_ok_def distinct_card del: set_map)
qed

lemma node_map_Some:
  "distinct (map nkey ns) \<Longrightarrow> node_map ns k = Some v \<longleftrightarrow> (\<exists>n \<in> set ns. nkey n = k \<and> nval n = v)"
  by (auto simp: node_map_def map_of_eq_Some_iff comp_def image_iff)

lemma node_map_None: "node_map ns k = None \<longleftrightarrow> (\<forall>n \<in> set ns. nkey n \<noteq> k)"
  by (auto simp: node_map_def map_of_eq_None_iff image_iff)

lemma node_map_mset:
  assumes "mset ns = mset ns'" and "distinct (map nkey ns)"
  shows "node_map ns = node_map ns'"
proof -
  have "distinct (map nkey ns')" using assms by (metis mset_eq_imp_distinct_iff mset_map)
  moreover have "set ns = set ns'" using assms(1) by (rule mset_eq_setD)
  ultimately have eq: "node_map ns k = Some v \<longleftrightarrow> node_map ns' k = Some v" for k v
    using assms(2) by (simp add: node_map_Some)
  show ?thesis
  proof
    fix k show "node_map ns k = node_map ns' k"
    proof (cases "node_map ns' k")
      case None
      then have "node_map ns k \<noteq> Some v" for v unfolding eq by simp
      with None show ?thesis by (cases "node_map ns k") auto
    next
      case (Some v)
      then have "node_map ns k = Some v" unfolding eq .
      with Some show ?thesis by simp
    qed
  qed
qed

section \<open>Lookup\<close>

lemma find_chain_Some: "find_chain ns h key = Some n \<Longrightarrow> n \<in> set ns \<and> nkey n = key"
  by (induction ns) (auto split: if_splits)

lemma find_chain_None: "find_chain ns h key = None \<Longrightarrow> n \<in> set ns \<Longrightarrow> nhash n = h \<Longrightarrow> nkey n \<noteq> key"
  by (induction ns) (auto split: if_splits)

lemma FindNode_hashed_spec:
  assumes "wf_hmap tr m"
  shows "\<exists>r. FindNode_hashed m key (khash tr key) = Inr r \<and>
     (case r of None \<Rightarrow> \<forall>n \<in> set (hnodes m). nkey n \<noteq> key
      | Some n \<Rightarrow> n \<in> set (hnodes m) \<and> nkey n = key)"
proof (cases "hcount m = 0")
  case True
  then have "hnodes m = []" using wf_hmap_count [OF assms] by (simp add: hnodes_def)
  with True show ?thesis by (simp add: FindNode_hashed_def)
next
  case False
  then have wf: "placed tr (bucket_shift m) (heads m)" "4 \<le> bucket_shift m" "bucket_shift m \<le> 60"
    using wf_hmap_buckets [OF assms] by (auto simp: wf_buckets_def)
  let ?b = "bucket_of (bucket_shift m) (khash tr key)" and ?bs = "heads m"
  have b: "?b < length ?bs" using wf bucket_of_less by (simp add: placed_def)
  have eq: "FindNode_hashed m key (khash tr key) = Inr (find_chain (?bs ! ?b) (khash tr key) key)"
    using False wf b by (simp add: FindNode_hashed_def BucketOf_eq bucket_at_def)
  show ?thesis
  proof (cases "find_chain (?bs ! ?b) (khash tr key) key")
    case None
    have "nkey n \<noteq> key" if n: "n \<in> set (hnodes m)" for n
    proof
      assume "nkey n = key"
      with placed_node [OF wf(1)] n have "n \<in> set (?bs ! ?b)" "nhash n = khash tr key"
        unfolding hnodes_def by metis+
      with find_chain_None [OF None] \<open>nkey n = key\<close> show False by blast
    qed
    with None eq show ?thesis by simp
  next
    case (Some n)
    with find_chain_Some [OF Some] b eq show ?thesis
      by (auto simp: hnodes_def in_concat_bucket simp del: set_concat)
  qed
qed

lemma FindNode_hash: "FindNode tr m key = FindNode_hashed m key (khash tr key)"
  by (simp add: FindNode_def FindNode_hashed_def)

lemma FindNode_cases:
  assumes "wf_hmap tr m"
  obtains (absent) "FindNode tr m key = Inr None" "hmap_abs m key = None"
  | (present) n where "FindNode tr m key = Inr (Some n)" "n \<in> set (hnodes m)" "nkey n = key"
      "hmap_abs m key = Some (nval n)"
proof -
  have dist: "distinct (map nkey (hnodes m))" using assms by (simp add: wf_hmap_def nodes_ok_def)
  obtain r where r: "FindNode tr m key = Inr r"
    "case r of None \<Rightarrow> \<forall>n \<in> set (hnodes m). nkey n \<noteq> key | Some n \<Rightarrow> n \<in> set (hnodes m) \<and> nkey n = key"
    using FindNode_hashed_spec [OF assms, of key] unfolding FindNode_hash by blast
  show thesis
  proof (cases r)
    case None
    with r show thesis by (intro absent) (simp_all add: hmap_abs_def node_map_None)
  next
    case (Some n)
    with r node_map_Some [OF dist, of key "nval n"] show thesis
      by (intro present) (auto simp: hmap_abs_def)
  qed
qed

section \<open>Rehashing and linking\<close>

lemma placed_free: "placed tr q (replicate (2 ^ q) [])"
  by (simp add: placed_def)

lemma Rehash_spec:
  assumes "wf_hmap tr m" and "wanted \<le> 2 ^ 60" and "hcount m < wanted"
  shows "outcome (\<lambda>m'. wf_hmap tr m' \<and> wf_buckets tr m' \<and> mset (hnodes m') = mset (hnodes m) \<and> wanted \<le> hcount m')
    (Rehash tr m wanted)"
proof -
  have "wanted \<le> 2 ^ 63" using assms(2) by simp
  then obtain q where q: "4 \<le> q" "q \<le> 63" "RoundUpToPowerOfTwo wanted = Inr (2 ^ q)" "wanted \<le> 2 ^ q"
      "q = 4 \<or> 2 ^ (q - 1) < wanted"
    using RoundUpToPowerOfTwo_finds by blast
  have "q \<le> 60"
  proof (rule ccontr)
    assume "\<not> q \<le> 60"
    then have "(2::nat) ^ 60 \<le> 2 ^ (q - 1)" by (intro power_increasing) auto
    with q(1,5) assms(2) \<open>\<not> q \<le> 60\<close> show False by linarith
  qed
  then have "(2::nat) ^ q \<le> 2 ^ 60" by (intro power_increasing) auto
  then have heads: "alloc_heads tr (2 ^ q) =
      (if bucket_alloc tr (2 ^ q * 8) then Inr (replicate (2 ^ q) []) else Inl (FatalCheck ''HashMap: bucket allocation failed''))"
    by (simp add: alloc_heads_def Let_def ensure_def)
  have shift: "shift_loop 0 (2 ^ q) = Inr q" using q(2) by (intro shift_loop_exact) auto
  have "\<forall>n \<in> set (concat (heads m)). nhash n = khash tr (nkey n)"
    using assms(1) placed_node(1) unfolding wf_hmap_def wf_buckets_def by fastforce
  from relink_all_spec [OF placed_free [of tr q] _ _ this, of 0 "length (heads m)"] q(1,2)
  obtain bs where bs: "relink_all q (replicate (2 ^ q) []) (heads m) 0 (length (heads m)) = Inr bs"
      "placed tr q bs" "mset (concat bs) = mset (hnodes m)"
    by (auto simp: hnodes_def simp del: mset_concat)
  let ?m = "m\<lparr>buckets := Some bs, hcount := 2 ^ q, bucket_shift := q\<rparr>"
  have ch: "heads ?m = bs" "hnodes ?m = concat bs" by (simp_all add: heads_def hnodes_def)
  have wfb: "wf_buckets tr ?m" using bs(2) q(1) \<open>q \<le> 60\<close> by (simp add: wf_buckets_def ch) (simp add: placed_def)
  have "nodes_ok (concat bs)" using nodes_ok_mset [OF bs(3) [symmetric]] assms(1) by (simp add: wf_hmap_def)
  moreover have "length (concat bs) = length (hnodes m)" using bs(3) by (metis size_mset)
  ultimately have "wf_hmap tr ?m" using assms(1) wfb by (simp add: wf_hmap_def ch)
  with wfb bs(3) q(4) have "wf_hmap tr ?m \<and> wf_buckets tr ?m \<and> mset (hnodes ?m) = mset (hnodes m) \<and> wanted \<le> hcount ?m"
    by (simp add: ch)
  moreover have "Rehash tr m wanted =
      (if bucket_alloc tr (2 ^ q * 8) then Inr ?m else Inl (FatalCheck ''HashMap: bucket allocation failed''))"
    using wf_hmap_count [OF assms(1)] bs(1) by (simp add: Rehash_def q(3) shift heads)
  ultimately show ?thesis by simp
qed

lemma Link_spec:
  assumes "wf_hmap tr m" and "\<forall>n \<in> set (hnodes m). nkey n \<noteq> key"
  shows "outcome (\<lambda>(m', n). wf_hmap tr m' \<and> mset (hnodes m') = add_mset n (mset (hnodes m)) \<and>
      nkey n = key \<and> nval n = v) (Link tr m (khash tr key) key v)"
proof -
  have size: "hsize m = length (hnodes m)" "hsize m \<le> 2 ^ 59"
    using assms(1) nodes_ok_bound [of "hnodes m"] by (simp_all add: wf_hmap_def)
  then have sz: "(hsize m + 1) mod 2 ^ 64 = hsize m + 1" by simp
  have "outcome (\<lambda>m'. wf_hmap tr m' \<and> wf_buckets tr m' \<and> mset (hnodes m') = mset (hnodes m))
      (if hsize m + 1 > hcount m then Rehash tr m (hsize m + 1) else Inr m)"
  proof (cases "hsize m + 1 > hcount m")
    case True
    then show ?thesis using Rehash_spec [OF assms(1), of "hsize m + 1"] size(2)
      by (auto simp: outcome_def split: sum.splits)
  next
    case False
    with assms(1) wf_hmap_buckets [OF assms(1)] show ?thesis by simp
  qed
  then show ?thesis unfolding Link_def sz
  proof (rule outcome_bindE)
    fix m' assume m': "wf_hmap tr m' \<and> wf_buckets tr m' \<and> mset (hnodes m') = mset (hnodes m)"
    have fresh: "fresh_nodes tr" using assms(1) by (simp add: wf_hmap_def)
    have len: "length (hnodes m') = hsize m'" "hsize m' = hsize m"
      using m' size(1) by (auto simp: wf_hmap_def) (metis m' size_mset)+
    show "outcome (\<lambda>(m', n). wf_hmap tr m' \<and> mset (hnodes m') = add_mset n (mset (hnodes m)) \<and> nkey n = key \<and> nval n = v)
        (case node_alloc tr (live_addrs m') of None \<Rightarrow> Inl (FatalCheck ''HashMap: node allocation failed'')
         | Some a \<Rightarrow> let node = \<lparr>naddr = a, nhash = khash tr key, nkey = key, nval = v\<rparr> in
             bindE (push_chain (bucket_shift m') (heads m') node) (\<lambda>bs.
             Inr (m'\<lparr>buckets := Some bs, hsize := (hsize m' + 1) mod 2 ^ 64\<rparr>, node)))"
    proof (cases "node_alloc tr (live_addrs m')")
      case (Some a)
      let ?n = "\<lparr>naddr = a, nhash = khash tr key, nkey = key, nval = v\<rparr>"
      have a: "a \<notin> naddr ` set (hnodes m')" "a mod 16 = 0" "a < 2 ^ 63"
        using fresh Some unfolding fresh_nodes_def live_addrs_def hnodes_def by (metis set_map)+
      have "placed tr (bucket_shift m') (heads m')" "0 < bucket_shift m'" "bucket_shift m' \<le> 64"
        using m' by (auto simp: wf_buckets_def)
      from push_chain_spec [OF this, of ?n]
      obtain bs where bs: "push_chain (bucket_shift m') (heads m') ?n = Inr bs" "placed tr (bucket_shift m') bs"
          "mset (concat bs) = add_mset ?n (mset (concat (heads m')))" by auto
      let ?m = "m'\<lparr>buckets := Some bs, hsize := (hsize m' + 1) mod 2 ^ 64\<rparr>"
      have ch: "heads (m'\<lparr>buckets := Some bs, hsize := x\<rparr>) = bs"
          "hnodes (m'\<lparr>buckets := Some bs, hsize := x\<rparr>) = concat bs" for x
        by (simp_all add: heads_def hnodes_def)
      have ms: "mset (concat bs) = mset (?n # hnodes m')" using bs(3) by (simp add: hnodes_def)
      have "\<forall>n \<in> set (hnodes m'). nkey n \<noteq> key" using assms(2) m' mset_eq_setD by metis
      with m' a have "nodes_ok (?n # hnodes m')" by (auto simp: wf_hmap_def nodes_ok_def)
      then have ok: "nodes_ok (concat bs)" using nodes_ok_mset ms by metis
      have "length (concat bs) = hsize m' + 1" using ms len by (metis Suc_eq_plus1 length_Cons size_mset)
      moreover have "length (heads m') = length bs" using m' bs(2) by (simp add: placed_def wf_buckets_def)
      ultimately have "wf_hmap tr ?m"
        using m' bs(2) ok fresh len(2) size(2) by (simp add: wf_hmap_def ch wf_buckets_def)
      moreover have "mset (hnodes ?m) = add_mset ?n (mset (hnodes m))" using m' ms by (simp add: ch)
      ultimately show ?thesis using Some bs(1) by simp
    qed simp
  qed
qed

section \<open>Insertion and erasure\<close>

text \<open>The effect on the nodes: the addresses, keys and values of all others stay.\<close>

lemma HashMap_emplace_spec:
  assumes "wf_hmap tr m"
  shows "outcome (\<lambda>(m', n, b). wf_hmap tr m' \<and> b = (hmap_abs m key = None) \<and> n \<in> set (hnodes m') \<and> nkey n = key \<and>
      mset (hnodes m') = (if b then add_mset n (mset (hnodes m)) else mset (hnodes m)) \<and>
      (b \<longrightarrow> nval n = v) \<and> (\<not> b \<longrightarrow> m' = m \<and> hmap_abs m key = Some (nval n))) (HashMap_emplace tr m key v)"
  using assms
proof (cases rule: FindNode_cases [of tr m key])
  case absent
  have "\<forall>n \<in> set (hnodes m). nkey n \<noteq> key" using absent(2) by (simp add: hmap_abs_def node_map_None)
  from Link_spec [OF assms this, of v] absent show ?thesis
    unfolding HashMap_emplace_def FindNode_hash Let_def
    by (auto simp: outcome_def split: sum.splits) (metis mset_eq_setD set_mset_add_mset_insert set_mset_mset insertI1)
next
  case (present n)
  with assms show ?thesis unfolding HashMap_emplace_def FindNode_hash Let_def by simp
qed

lemma hmap_abs_add:
  assumes "wf_hmap tr m'" and "mset (hnodes m') = add_mset n (mset (hnodes m))"
  shows "hmap_abs m' = (hmap_abs m)(nkey n \<mapsto> nval n)"
proof -
  have "mset (hnodes m') = mset (n # hnodes m)" using assms(2) by simp
  then have "node_map (hnodes m') = node_map (n # hnodes m)"
    using assms(1) by (intro node_map_mset) (simp_all add: wf_hmap_def nodes_ok_def)
  then show ?thesis by (simp add: hmap_abs_def node_map_def)
qed

lemma HashMap_insert_spec:
  assumes "wf_hmap tr m"
  shows "outcome (\<lambda>(m', b). wf_hmap tr m' \<and> b = (hmap_abs m key = None) \<and>
     hmap_abs m' = (if hmap_abs m key = None then (hmap_abs m)(key \<mapsto> v) else hmap_abs m)) (HashMap_insert tr m key v)"
  unfolding HashMap_insert_def
proof (rule outcome_bindE [OF HashMap_emplace_spec [OF assms, of key v]])
  fix r assume r: "case r of (m', n, b) \<Rightarrow> wf_hmap tr m' \<and> b = (hmap_abs m key = None) \<and> n \<in> set (hnodes m') \<and> nkey n = key \<and>
      mset (hnodes m') = (if b then add_mset n (mset (hnodes m)) else mset (hnodes m)) \<and>
      (b \<longrightarrow> nval n = v) \<and> (\<not> b \<longrightarrow> m' = m \<and> hmap_abs m key = Some (nval n))"
  obtain m' n b where mnb: "r = (m', n, b)" by (cases r)
  have "hmap_abs m' = (if hmap_abs m key = None then (hmap_abs m)(key \<mapsto> v) else hmap_abs m)"
  proof (cases b)
    case True
    with r mnb have "wf_hmap tr m'" "mset (hnodes m') = add_mset n (mset (hnodes m))" by simp_all
    from hmap_abs_add [OF this] True r mnb show ?thesis by simp
  next
    case False
    with r mnb show ?thesis by auto
  qed
  with r mnb show "outcome (\<lambda>(m', b). wf_hmap tr m' \<and> b = (hmap_abs m key = None) \<and>
     hmap_abs m' = (if hmap_abs m key = None then (hmap_abs m)(key \<mapsto> v) else hmap_abs m))
     (case r of (m, node, b) \<Rightarrow> Inr (m, b))"
    by simp
qed

lemma unlink_key_Some: "unlink_key ns h key = Some ns' \<Longrightarrow>
    \<exists>n. mset ns = add_mset n (mset ns') \<and> nkey n = key"
  by (induction ns arbitrary: ns') (auto split: if_splits)

lemma unlink_key_None: "unlink_key ns h key = None \<longleftrightarrow> find_chain ns h key = None"
  by (induction ns) auto

text \<open>Taking one node out of its chain.\<close>

lemma unlink_wf:
  assumes "wf_hmap tr m" and "b < length (heads m)" and "mset (heads m ! b) = add_mset n (mset ns)"
  defines "m' \<equiv> m\<lparr>buckets := Some ((heads m)[b := ns]), hsize := (hsize m + (2 ^ 64 - 1)) mod 2 ^ 64\<rparr>"
  shows "wf_hmap tr m'" and "mset (hnodes m) = add_mset n (mset (hnodes m'))"
    and "hmap_abs m' = (hmap_abs m)(nkey n := None)"
proof -
  have ch: "heads m' = (heads m)[b := ns]" "hnodes m' = concat ((heads m)[b := ns])"
    by (simp_all add: m'_def heads_def hnodes_def)
  show ms: "mset (hnodes m) = add_mset n (mset (hnodes m'))"
    using mset_concat_update [OF assms(2), of ns] assms(3) by (simp add: ch) (simp add: hnodes_def)
  then have ms': "mset (hnodes m) = mset (n # hnodes m')" by simp
  have ok: "nodes_ok (n # hnodes m')" using assms(1) nodes_ok_mset [OF ms'] by (simp add: wf_hmap_def)
  have "length (hnodes m) = Suc (length (hnodes m'))" using ms' by (metis length_Cons size_mset)
  then have size: "hsize m = Suc (length (hnodes m'))" using assms(1) by (simp add: wf_hmap_def)
  then have "hsize m < 18446744073709551616"
    using assms(1) nodes_ok_bound [of "hnodes m"] by (simp add: wf_hmap_def)
  moreover have "hsize m' = (hsize m + 18446744073709551615) mod 18446744073709551616" by (simp add: m'_def)
  ultimately have hs: "hsize m' = length (hnodes m')" using size wrap_pred [of "hsize m"] by simp
  have "hcount m \<noteq> 0" using assms(2) wf_hmap_count [OF assms(1)] by linarith
  then have "wf_buckets tr m" using wf_hmap_buckets(1) [OF assms(1)] by blast
  moreover have "set ns \<subseteq> set (heads m ! b)" using arg_cong [OF assms(3), of set_mset] by auto
  ultimately have "wf_buckets tr m'" using assms(2)
    by (auto simp: wf_buckets_def ch placed_def nth_list_update) (auto simp: m'_def)
  then show "wf_hmap tr m'" using assms(1) ok hs by (simp add: wf_hmap_def nodes_ok_def) (simp add: m'_def)
  have "distinct (map nkey (n # hnodes m'))" using ok by (simp add: nodes_ok_def)
  then have "node_map (hnodes m') (nkey n) = None" by (simp add: node_map_None) (metis imageI)
  moreover have "node_map (hnodes m) = node_map (n # hnodes m')"
    using assms(1) by (intro node_map_mset [OF ms']) (simp add: wf_hmap_def nodes_ok_def)
  then have "hmap_abs m = (hmap_abs m')(nkey n \<mapsto> nval n)" by (simp add: hmap_abs_def node_map_def)
  ultimately show "hmap_abs m' = (hmap_abs m)(nkey n := None)" by (simp add: hmap_abs_def fun_upd_idem)
qed

lemma HashMap_erase_spec:
  assumes "wf_hmap tr m"
  shows "\<exists>m'. HashMap_erase tr m key = Inr (m', hmap_abs m key \<noteq> None) \<and> wf_hmap tr m' \<and>
     hmap_abs m' = (hmap_abs m)(key := None) \<and>
     (m' = m \<or> (\<exists>n. nkey n = key \<and> mset (hnodes m) = add_mset n (mset (hnodes m'))))"
proof (cases "hcount m = 0")
  case True
  then have "hmap_abs m = Map.empty" using wf_hmap_count [OF assms] by (simp add: hmap_abs_def hnodes_def node_map_def)
  with True assms show ?thesis by (simp add: HashMap_erase_def)
next
  case False
  then have wf: "placed tr (bucket_shift m) (heads m)" "4 \<le> bucket_shift m" "bucket_shift m \<le> 60"
    using wf_hmap_buckets [OF assms] by (auto simp: wf_buckets_def)
  let ?b = "bucket_of (bucket_shift m) (khash tr key)"
  have b: "?b < length (heads m)" using wf bucket_of_less by (simp add: placed_def)
  have find: "FindNode tr m key = Inr (find_chain (heads m ! ?b) (khash tr key) key)"
    using False wf b by (simp add: FindNode_hash FindNode_hashed_def BucketOf_eq bucket_at_def)
  have erase: "HashMap_erase tr m key = (case unlink_key (heads m ! ?b) (khash tr key) key of
             None \<Rightarrow> Inr (m, False)
           | Some ns \<Rightarrow> Inr (m\<lparr>buckets := Some ((heads m)[?b := ns]), hsize := (hsize m + (2 ^ 64 - 1)) mod 2 ^ 64\<rparr>, True))"
    using False wf b by (simp add: HashMap_erase_def BucketOf_eq bucket_at_def)
  show ?thesis
  proof (cases "unlink_key (heads m ! ?b) (khash tr key) key")
    case None
    then have "FindNode tr m key = Inr None" using find by (simp add: unlink_key_None)
    then have "hmap_abs m key = None" by (cases rule: FindNode_cases [OF assms, of key]) simp_all
    with None erase assms show ?thesis by (simp add: fun_upd_idem)
  next
    case (Some ns)
    then obtain n where n: "mset (heads m ! ?b) = add_mset n (mset ns)" "nkey n = key"
      using unlink_key_Some [OF Some] by blast
    have "find_chain (heads m ! ?b) (khash tr key) key \<noteq> None" using Some unlink_key_None by (metis option.distinct(1))
    with find have "hmap_abs m key \<noteq> None" by (cases rule: FindNode_cases [OF assms, of key]) auto
    with Some erase unlink_wf [OF assms b n(1)] n(2) show ?thesis by auto
  qed
qed

lemma HashMap_size_eq:
  assumes "wf_hmap tr m"
  shows "finite (dom (hmap_abs m)) \<and> HashMap_size m = card (dom (hmap_abs m))"
proof -
  have "dom (hmap_abs m) = set (map nkey (hnodes m))"
    by (auto simp: hmap_abs_def node_map_def dom_map_of_conv_image_fst image_comp comp_def)
  moreover have "card (set (map nkey (hnodes m))) = length (map nkey (hnodes m))"
    using assms by (intro distinct_card) (simp add: wf_hmap_def nodes_ok_def)
  ultimately show ?thesis using assms by (simp add: HashMap_size_def wf_hmap_def)
qed

text \<open>The value a lookup leads to.\<close>

definition found_value :: "('k, 'v) hash_traits \<Rightarrow> ('k, 'v) hmap \<Rightarrow> 'k \<Rightarrow> 'v option res" where
  "found_value tr m key = bindE (HashMap_find tr m key) (\<lambda>r. Inr (map_option nval r))"

lemma found_value_eq: "wf_hmap tr m \<Longrightarrow> found_value tr m key = Inr (hmap_abs m key)"
  by (rule FindNode_cases [of tr m key]) (simp_all add: found_value_def HashMap_find_def)

interpretation hash_map: map_store "wf_hmap tr" hmap_abs "found_value tr" "HashMap_insert tr" "HashMap_erase tr" HashMap_size
  for tr
proof unfold_locales
  fix s k v assume s: "wf_hmap tr s"
  show "outcome (\<lambda>(s', b). wf_hmap tr s' \<and> b = (hmap_abs s k = None) \<and>
      hmap_abs s' = (if hmap_abs s k = None then (hmap_abs s)(k \<mapsto> v) else hmap_abs s)) (HashMap_insert tr s k v)"
    by (rule HashMap_insert_spec [OF s])
  show "\<exists>s'. HashMap_erase tr s k = Inr (s', hmap_abs s k \<noteq> None) \<and> wf_hmap tr s' \<and> hmap_abs s' = (hmap_abs s)(k := None)"
    using HashMap_erase_spec [OF s] by blast
qed (simp_all add: found_value_eq HashMap_size_eq)

section \<open>Iteration\<close>

definition hd_opt :: "'a list \<Rightarrow> 'a option" where
  "hd_opt xs = (case xs of [] \<Rightarrow> None | x # _ \<Rightarrow> Some x)"

lemma hd_opt_simps [simp]: "hd_opt [] = None" "hd_opt (x # xs) = Some x"
  by (simp_all add: hd_opt_def)

lemma first_from_eq:
  "length bs = b + left \<Longrightarrow> first_from bs b left = Inr (hd_opt (concat (drop b bs)))"
proof (induction left arbitrary: b)
  case (Suc left)
  then have b: "b < length bs" by simp
  then have "drop b bs = bs ! b # drop (Suc b) bs" by (simp add: Cons_nth_drop_Suc)
  moreover have "first_from bs (b + 1) left = Inr (hd_opt (concat (drop (b + 1) bs)))"
    using Suc.prems by (intro Suc.IH) simp
  ultimately show ?case using b by (cases "bs ! b") (simp_all add: bucket_at_def)
qed simp

lemma chain_next_eq:
  "naddr n \<notin> naddr ` set pre \<Longrightarrow> chain_next (naddr n) (pre @ n # post) = Inr (hd_opt post)"
  by (induction pre) (auto simp: hd_opt_def)

lemma unlink_addr_eq:
  "naddr n \<notin> naddr ` set pre \<Longrightarrow> unlink_addr (pre @ n # post) (naddr n) = Inr (pre @ post)"
  by (induction pre) auto

lemma concat_split:
  "concat bs = xs @ n # ys \<Longrightarrow>
     \<exists>b pre post. b < length bs \<and> bs ! b = pre @ n # post \<and> xs = concat (take b bs) @ pre \<and>
       ys = post @ concat (drop (Suc b) bs)"
proof (induction bs arbitrary: xs)
  case (Cons c bs)
  then have "(\<exists>zs. c = xs @ n # zs \<and> ys = zs @ concat bs) \<or> (\<exists>zs. xs = c @ zs \<and> concat bs = zs @ n # ys)"
    by (auto simp: append_eq_append_conv2) (metis append_eq_Cons_conv)+
  then show ?case
  proof (elim disjE exE conjE)
    fix zs assume "c = xs @ n # zs" "ys = zs @ concat bs"
    then show ?thesis by (intro exI [of _ 0] exI [of _ xs] exI [of _ zs]) simp
  next
    fix zs assume xs: "xs = c @ zs" and "concat bs = zs @ n # ys"
    from Cons.IH [OF this(2)] obtain b pre post where "b < length bs" "bs ! b = pre @ n # post"
        "zs = concat (take b bs) @ pre" "ys = post @ concat (drop (Suc b) bs)" by blast
    with xs show ?thesis by (intro exI [of _ "Suc b"] exI [of _ pre] exI [of _ post]) simp
  qed
qed simp

lemma located:
  assumes "wf_hmap tr m" and "hnodes m = xs @ n # ys"
  obtains b pre post where "BucketOf (bucket_shift m) (nhash n) = Inr b" and "b < length (heads m)"
    and "heads m ! b = pre @ n # post" and "xs = concat (take b (heads m)) @ pre"
    and "ys = post @ concat (drop (Suc b) (heads m))" and "naddr n \<notin> naddr ` set pre"
proof -
  obtain b pre post where b: "b < length (heads m)" "heads m ! b = pre @ n # post"
      "xs = concat (take b (heads m)) @ pre" "ys = post @ concat (drop (Suc b) (heads m))"
    using concat_split [of "heads m" xs n ys] assms(2) by (auto simp: hnodes_def)
  have "hcount m \<noteq> 0" using b(1) wf_hmap_count [OF assms(1)] by linarith
  then have wf: "wf_buckets tr m" using wf_hmap_buckets(1) [OF assms(1)] by blast
  then have pl: "placed tr (bucket_shift m) (heads m)" by (simp add: wf_buckets_def)
  have "n \<in> set (heads m ! b)" using b(2) by simp
  then have "nhash n = khash tr (nkey n) \<and> bucket_of (bucket_shift m) (khash tr (nkey n)) = b"
    using pl b(1) unfolding placed_def by blast
  then have "BucketOf (bucket_shift m) (nhash n) = Inr b"
    using wf by (simp add: wf_buckets_def BucketOf_eq)
  moreover have "naddr n \<notin> naddr ` set pre"
    using assms b(3) by (auto simp: wf_hmap_def nodes_ok_def)
  ultimately show thesis using b that by blast
qed

lemma NextNode_eq:
  assumes "wf_hmap tr m" and "hnodes m = xs @ n # ys"
  shows "NextNode m n = Inr (hd_opt ys)"
  using assms
proof (rule located)
  fix b pre post
  assume b: "BucketOf (bucket_shift m) (nhash n) = Inr b" "b < length (heads m)" "heads m ! b = pre @ n # post"
    "ys = post @ concat (drop (Suc b) (heads m))" "naddr n \<notin> naddr ` set pre"
  have "first_from (heads m) (b + 1) (hcount m - (b + 1)) = Inr (hd_opt (concat (drop (Suc b) (heads m))))"
    using b(2) wf_hmap_count [OF assms(1)] first_from_eq [of "heads m" "b + 1" "hcount m - (b + 1)"] by simp
  with b show ?thesis by (cases post) (simp_all add: NextNode_def bucket_at_def chain_next_eq)
qed

lemma walk_nodes_eq:
  assumes "wf_hmap tr m"
  shows "hnodes m = xs @ ys \<Longrightarrow> length ys < fuel \<Longrightarrow> walk_nodes fuel m (hd_opt ys) = Inr ys"
proof (induction fuel arbitrary: xs ys)
  case (Suc fuel)
  show ?case
  proof (cases ys)
    case (Cons n zs)
    then have "NextNode m n = Inr (hd_opt zs)" using NextNode_eq [OF assms] Suc.prems(1) by simp
    moreover have "walk_nodes fuel m (hd_opt zs) = Inr zs"
      using Suc.prems Cons by (intro Suc.IH [of "xs @ [n]"]) simp_all
    ultimately show ?thesis by (simp add: Cons)
  qed simp
qed simp

lemma HashMap_iterate_eq:
  assumes "wf_hmap tr m"
  shows "HashMap_iterate m = Inr (hnodes m)"
proof -
  have "FirstNode m = Inr (hd_opt (hnodes m))"
    using first_from_eq [of "heads m" 0] wf_hmap_count [OF assms] by (simp add: FirstNode_def hnodes_def)
  moreover have "walk_nodes (Suc (hsize m)) m (hd_opt (hnodes m)) = Inr (hnodes m)"
    using assms by (intro walk_nodes_eq [OF assms, where xs = "[]"]) (simp_all add: wf_hmap_def)
  ultimately show ?thesis by (simp add: HashMap_iterate_def)
qed

lemma HashMap_erase_at_eq:
  assumes "wf_hmap tr m" and "hnodes m = xs @ n # ys"
  shows "\<exists>m'. HashMap_erase_at m n = Inr (m', hd_opt ys) \<and> wf_hmap tr m' \<and> hnodes m' = xs @ ys \<and>
     hmap_abs m' = (hmap_abs m)(nkey n := None)"
  using assms
proof (rule located)
  fix b pre post
  assume b: "BucketOf (bucket_shift m) (nhash n) = Inr b" "b < length (heads m)" "heads m ! b = pre @ n # post"
    "xs = concat (take b (heads m)) @ pre"
    "ys = post @ concat (drop (Suc b) (heads m))" "naddr n \<notin> naddr ` set pre"
  let ?m = "m\<lparr>buckets := Some ((heads m)[b := pre @ post]), hsize := (hsize m + (2 ^ 64 - 1)) mod 2 ^ 64\<rparr>"
  have "mset (heads m ! b) = add_mset n (mset (pre @ post))" using b(3) by simp
  note wf = unlink_wf [OF assms(1) b(2) this]
  have "HashMap_erase_at m n = Inr (?m, hd_opt ys)"
    using b NextNode_eq [OF assms] by (simp add: HashMap_erase_at_def bucket_at_def unlink_addr_eq)
  moreover have "hnodes ?m = xs @ ys"
    using b(2,4,5) unfolding hnodes_def heads_def [of ?m] by (simp add: upd_conv_take_nth_drop)
  ultimately show ?thesis using wf by auto
qed

section \<open>Copies and release\<close>

lemma emplace_all_run:
  "emplace_all tr m kvs = map_run (HashMap_insert tr) (HashMap_erase tr) (map (\<lambda>(k, v). MInsert k v) kvs) m"
  by (induction kvs arbitrary: m) (auto simp: HashMap_insert_def bindE_assoc intro!: bindE_cong)

lemma HashMap_reserve_spec:
  assumes "wf_hmap tr m" and "c \<le> 2 ^ 60"
  shows "outcome (\<lambda>m'. wf_hmap tr m' \<and> hmap_abs m' = hmap_abs m \<and> c \<le> hcount m' \<and> mset (hnodes m') = mset (hnodes m))
     (HashMap_reserve tr m c)"
proof (cases "c > hcount m")
  case True
  have "hmap_abs m' = hmap_abs m" if "mset (hnodes m') = mset (hnodes m)" "wf_hmap tr m'" for m'
    using node_map_mset [OF that(1)] that(2) by (simp add: hmap_abs_def wf_hmap_def nodes_ok_def)
  then show ?thesis using Rehash_spec [OF assms True] True
    by (auto simp: HashMap_reserve_def outcome_def split: sum.splits)
qed (use assms in \<open>simp add: HashMap_reserve_def\<close>)

lemma HashMap_copy_spec:
  assumes "wf_hmap tr m"
  shows "outcome (\<lambda>m'. wf_hmap tr m' \<and> hmap_abs m' = hmap_abs m) (HashMap_copy tr m)"
proof -
  have fresh: "fresh_nodes tr" and size: "hsize m \<le> 2 ^ 59"
    using assms nodes_ok_bound [of "hnodes m"] by (simp_all add: wf_hmap_def)
  have le: "hsize m \<le> 2 ^ 60" using size by simp
  show ?thesis unfolding HashMap_copy_def CopyFrom_def
  proof (rule outcome_bindE [OF HashMap_reserve_spec [OF wf_hmap_init [OF fresh] le]])
    fix m0 :: "('a, 'b) hmap" assume m0: "wf_hmap tr m0 \<and> hmap_abs m0 = hmap_abs HashMap_init \<and> hsize m \<le> hcount m0 \<and>
      mset (hnodes m0) = mset (hnodes HashMap_init)"
    let ?kvs = "map (\<lambda>n. (nkey n, nval n)) (hnodes m)"
    have "map_effect (map (\<lambda>(k, v). MInsert k v) ?kvs) Map.empty = hmap_abs m"
      unfolding map_effect_inserts by (simp add: hmap_abs_def node_map_def)
    moreover have "outcome (\<lambda>m'. wf_hmap tr m' \<and> hmap_abs m' = map_effect (map (\<lambda>(k, v). MInsert k v) ?kvs) (hmap_abs m0))
       (emplace_all tr m0 ?kvs)"
      unfolding emplace_all_run using m0 hash_map.run_refines by blast
    ultimately show "outcome (\<lambda>m'. wf_hmap tr m' \<and> hmap_abs m' = hmap_abs m)
       (bindE (HashMap_iterate m) (\<lambda>ns. emplace_all tr m0 (map (\<lambda>n. (nkey n, nval n)) ns)))"
      using m0 by (simp add: HashMap_iterate_eq [OF assms])
  qed
qed

lemma Release_spec: "wf_hmap tr m \<Longrightarrow> Release m = Inr HashMap_init"
  using wf_hmap_count [of tr m]
  by (cases "buckets m") (auto simp: Release_def HashMap_clear_def HashMap_init_def heads_def ensure_def)

lemma HashMap_clear_spec:
  assumes "wf_hmap tr m"
  shows "wf_hmap tr (HashMap_clear m) \<and> hmap_abs (HashMap_clear m) = Map.empty \<and> hcount (HashMap_clear m) = hcount m"
proof -
  have h: "heads (HashMap_clear m) = map (\<lambda>_. []) (heads m)"
    by (cases "buckets m") (simp_all add: HashMap_clear_def heads_def)
  then have n: "hnodes (HashMap_clear m) = []" by (simp add: hnodes_def)
  have "m = HashMap_init \<Longrightarrow> HashMap_clear m = HashMap_init" by (simp add: HashMap_clear_def HashMap_init_def)
  moreover have "wf_buckets tr m \<Longrightarrow> wf_buckets tr (HashMap_clear m)"
    by (auto simp: wf_buckets_def h placed_def) (auto simp: HashMap_clear_def)
  ultimately show ?thesis using assms n
    by (auto simp: wf_hmap_def nodes_ok_def hmap_abs_def node_map_def) (auto simp: HashMap_clear_def)
qed

section \<open>HashSet\<close>

type_synonym 'k hset = "('k, unit) hmap"

definition HashSet_insert :: "('k, unit) hash_traits \<Rightarrow> 'k hset \<Rightarrow> 'k \<Rightarrow> ('k hset \<times> bool) res" where
  "HashSet_insert tr s key = bindE (HashMap_emplace tr s key ()) (\<lambda>(s, node, b). Inr (s, b))"

fun hset_insert_all :: "('k, unit) hash_traits \<Rightarrow> 'k hset \<Rightarrow> 'k list \<Rightarrow> 'k hset res" where
  "hset_insert_all tr s [] = Inr s"
| "hset_insert_all tr s (k # ks) = bindE (HashSet_insert tr s k) (\<lambda>(s, b). hset_insert_all tr s ks)"

definition HashSet_of_list :: "('k, unit) hash_traits \<Rightarrow> 'k list \<Rightarrow> 'k hset res" where
  "HashSet_of_list tr keys =
     bindE (HashMap_reserve tr HashMap_init (length keys)) (\<lambda>s. hset_insert_all tr s keys)"

definition HashSet_contains :: "('k, unit) hash_traits \<Rightarrow> 'k hset \<Rightarrow> 'k \<Rightarrow> bool res" where
  "HashSet_contains tr s key = HashMap_contains tr s key"

definition HashSet_erase :: "('k, unit) hash_traits \<Rightarrow> 'k hset \<Rightarrow> 'k \<Rightarrow> ('k hset \<times> bool) res" where
  "HashSet_erase tr s key = HashMap_erase tr s key"

definition HashSet_erase_at :: "'k hset \<Rightarrow> ('k, unit) hnode \<Rightarrow> ('k hset \<times> ('k, unit) hnode option) res" where
  "HashSet_erase_at s it = HashMap_erase_at s it"

definition HashSet_clear :: "'k hset \<Rightarrow> 'k hset" where
  "HashSet_clear s = HashMap_clear s"

definition HashSet_reserve :: "('k, unit) hash_traits \<Rightarrow> 'k hset \<Rightarrow> nat \<Rightarrow> 'k hset res" where
  "HashSet_reserve tr s cnt = HashMap_reserve tr s cnt"

definition HashSet_size :: "'k hset \<Rightarrow> nat" where
  "HashSet_size s = HashMap_size s"

definition HashSet_iterate :: "'k hset \<Rightarrow> 'k list res" where
  "HashSet_iterate s = bindE (HashMap_iterate s) (\<lambda>ns. Inr (map nkey ns))"

lemma HashMap_contains_eq: "wf_hmap tr m \<Longrightarrow> HashMap_contains tr m k = Inr (hmap_abs m k \<noteq> None)"
  by (rule FindNode_cases [of tr m k]) (simp_all add: HashMap_contains_def)

interpretation hash_set: set_store "wf_hmap tr" "\<lambda>s. dom (hmap_abs s)" "HashSet_contains tr" "HashSet_insert tr"
    "HashSet_erase tr" HashSet_size
  for tr
proof unfold_locales
  note laws = hash_map.keys_set_store [of tr "()"]
  fix s k assume s: "wf_hmap tr s"
  show "HashSet_contains tr s k = Inr (k \<in> dom (hmap_abs s))"
    using s by (simp add: HashSet_contains_def HashMap_contains_eq domIff)
  show "outcome (\<lambda>(s', b). wf_hmap tr s' \<and> b = (k \<notin> dom (hmap_abs s)) \<and>
      dom (hmap_abs s') = insert k (dom (hmap_abs s))) (HashSet_insert tr s k)"
    using set_store.add_law [OF laws s, of k] unfolding HashSet_insert_def HashMap_insert_def .
  show "\<exists>s'. HashSet_erase tr s k = Inr (s', k \<in> dom (hmap_abs s)) \<and> wf_hmap tr s' \<and>
      dom (hmap_abs s') = dom (hmap_abs s) - {k}"
    unfolding HashSet_erase_def by (rule set_store.del_law [OF laws s])
  show "finite (dom (hmap_abs s)) \<and> HashSet_size s = card (dom (hmap_abs s))"
    unfolding HashSet_size_def by (rule set_store.card_law [OF laws s])
qed

section \<open>Assigning to an entry\<close>

lemma set_value_map:
  assumes "distinct (map naddr (xs @ n # ys))"
  shows "map (\<lambda>x. if naddr x = naddr n then x\<lparr>nval := v\<rparr> else x) (xs @ n # ys) = xs @ n\<lparr>nval := v\<rparr> # ys"
proof -
  have "naddr n \<notin> naddr ` set xs" "naddr n \<notin> naddr ` set ys" using assms by simp_all
  then have "\<forall>x \<in> set xs \<union> set ys. naddr x \<noteq> naddr n" by (metis UnE imageI)
  then have "map (\<lambda>x. if naddr x = naddr n then x\<lparr>nval := v\<rparr> else x) xs = xs"
      "map (\<lambda>x. if naddr x = naddr n then x\<lparr>nval := v\<rparr> else x) ys = ys"
    by (simp_all add: map_idI)
  then show ?thesis by simp
qed

lemma set_value_spec:
  assumes "wf_hmap tr m" and "n \<in> set (hnodes m)"
  shows "wf_hmap tr (set_value (naddr n) v m)" and "hmap_abs (set_value (naddr n) v m) = (hmap_abs m)(nkey n \<mapsto> v)"
proof -
  let ?f = "\<lambda>x. if naddr x = naddr n then x\<lparr>nval := v\<rparr> else x" and ?m = "set_value (naddr n) v m"
  have keep: "nkey (?f x) = nkey x" "nhash (?f x) = nhash x" "naddr (?f x) = naddr x" for x by simp_all
  have h: "heads ?m = map (map ?f) (heads m)" by (cases "buckets m") (simp_all add: set_value_def heads_def)
  then have hn: "hnodes ?m = map ?f (hnodes m)" by (simp add: hnodes_def map_concat)
  have same: "hcount ?m = hcount m" "bucket_shift ?m = bucket_shift m" "hsize ?m = hsize m" by (simp_all add: set_value_def)
  have ok: "nodes_ok (hnodes m)" using assms(1) by (simp add: wf_hmap_def)
  have "m \<noteq> HashMap_init" using assms(2) by (auto simp: hnodes_def)
  then have wfb: "buckets m \<noteq> None" "wf_buckets tr m" using assms(1) by (auto simp: wf_hmap_def)
  have "placed tr (bucket_shift m) (heads ?m)"
    using wfb(2) unfolding wf_buckets_def placed_def h by (auto simp: keep)
  then have "wf_buckets tr ?m" using wfb(2) by (simp add: wf_buckets_def same h)
  moreover have "nodes_ok (hnodes ?m)"
    using ok by (auto simp: nodes_ok_def hn comp_def keep)
  ultimately show "wf_hmap tr ?m"
    using assms(1) wfb(1) by (simp add: wf_hmap_def same hn) (simp add: set_value_def)
  obtain xs ys where split: "hnodes m = xs @ n # ys" using assms(2) by (meson split_list)
  have "hnodes ?m = xs @ n\<lparr>nval := v\<rparr> # ys"
    unfolding hn split using ok by (intro set_value_map) (simp add: nodes_ok_def split)
  moreover have "nkey n \<notin> nkey ` set xs" using ok by (auto simp: nodes_ok_def split)
  ultimately show "hmap_abs ?m = (hmap_abs m)(nkey n \<mapsto> v)"
    by (auto simp: hmap_abs_def node_map_def split fun_eq_iff map_add_def map_of_eq_None_iff split: option.split)
       (force dest: map_of_SomeD)+
qed

lemma HashMap_insert_or_assign_spec:
  assumes "wf_hmap tr m"
  shows "outcome (\<lambda>(m', b). wf_hmap tr m' \<and> b = (hmap_abs m key = None) \<and> hmap_abs m' = (hmap_abs m)(key \<mapsto> v))
     (HashMap_insert_or_assign tr m key v)"
  using assms
proof (cases rule: FindNode_cases [of tr m key])
  case absent
  with HashMap_insert_spec [OF assms, of key v] show ?thesis
    by (auto simp: HashMap_insert_or_assign_def outcome_def split: sum.splits)
next
  case (present n)
  with set_value_spec [OF assms present(2)] show ?thesis by (simp add: HashMap_insert_or_assign_def)
qed

section \<open>Stability\<close>

lemma insert_keeps_nodes:
  assumes "wf_hmap tr m" and "HashMap_insert tr m k v = Inr (m', b)"
  shows "wf_hmap tr m'" and "set (hnodes m) \<subseteq> set (hnodes m')"
proof -
  obtain n where "HashMap_emplace tr m k v = Inr (m', n, b)"
    using assms(2) by (auto simp: HashMap_insert_def bindE_eq_Inr_iff)
  then have e: "wf_hmap tr m'" "mset (hnodes m') = (if b then add_mset n (mset (hnodes m)) else mset (hnodes m))"
    using HashMap_emplace_spec [OF assms(1), of k v] by auto
  then show "wf_hmap tr m'" by simp
  have "set_mset (mset (hnodes m)) \<subseteq> set_mset (mset (hnodes m'))" unfolding e(2) by auto
  then show "set (hnodes m) \<subseteq> set (hnodes m')" by simp
qed

lemma erase_keeps_nodes:
  assumes "wf_hmap tr m" and "HashMap_erase tr m k = Inr (m', b)" and "n \<in> set (hnodes m)" and "nkey n \<noteq> k"
  shows "wf_hmap tr m'" and "n \<in> set (hnodes m')"
proof -
  have e: "wf_hmap tr m'" "m' = m \<or> (\<exists>x. nkey x = k \<and> mset (hnodes m) = add_mset x (mset (hnodes m')))"
    using HashMap_erase_spec [OF assms(1), of k] assms(2) by auto
  then show "wf_hmap tr m'" by simp
  from e(2) show "n \<in> set (hnodes m')"
  proof (elim disjE exE conjE)
    fix x assume "nkey x = k" "mset (hnodes m) = add_mset x (mset (hnodes m'))"
    then have "set (hnodes m) = insert x (set (hnodes m'))"
      by (metis set_mset_add_mset_insert set_mset_mset)
    with assms(3,4) \<open>nkey x = k\<close> show ?thesis by auto
  qed (use assms(3) in simp)
qed

lemma run_keeps_node:
  assumes "wf_hmap tr m" and "n \<in> set (hnodes m)" and "MErase (nkey n) \<notin> set ops"
    and "map_run (HashMap_insert tr) (HashMap_erase tr) ops m = Inr m'"
  shows "wf_hmap tr m' \<and> n \<in> set (hnodes m')"
  using assms
proof (induction ops arbitrary: m)
  case (Cons oper ops)
  show ?case
  proof (cases oper)
    case (MInsert k v)
    with Cons.prems(4) obtain m1 b where m1: "HashMap_insert tr m k v = Inr (m1, b)"
        "map_run (HashMap_insert tr) (HashMap_erase tr) ops m1 = Inr m'"
      by (auto simp: bindE_eq_Inr_iff)
    with insert_keeps_nodes [OF Cons.prems(1) m1(1)] Cons.prems(2,3) Cons.IH [of m1] show ?thesis by auto
  next
    case (MErase k)
    with Cons.prems(4) obtain m1 b where m1: "HashMap_erase tr m k = Inr (m1, b)"
        "map_run (HashMap_insert tr) (HashMap_erase tr) ops m1 = Inr m'"
      by (auto simp: bindE_eq_Inr_iff)
    have "nkey n \<noteq> k" using Cons.prems(3) MErase by auto
    from erase_keeps_nodes [OF Cons.prems(1) m1(1) Cons.prems(2) this] m1(2) Cons.prems(3) Cons.IH [of m1] show ?thesis by simp
  qed
qed simp

lemma found_node:
  assumes "wf_hmap tr m" and "n \<in> set (hnodes m)"
  shows "HashMap_find tr m (nkey n) = Inr (Some n)"
  using assms(1)
proof (cases rule: FindNode_cases [of tr m "nkey n"])
  case absent
  with assms show ?thesis by (auto simp: hmap_abs_def node_map_None)
next
  case (present x)
  moreover have "inj_on nkey (set (hnodes m))" using assms(1) by (simp add: wf_hmap_def nodes_ok_def distinct_map)
  ultimately have "x = n" using assms(2) by (auto dest: inj_onD)
  with present show ?thesis by (simp add: HashMap_find_def)
qed

section \<open>Properties\<close>

text \<open>
  (C5) With an allocator that hands out fresh nodes, any sequence of insertions and erasures
  on an empty hash map stops at an allocation check or leaves a well-formed map that finds
  exactly the keys of the same sequence on a mathematical map, with their values.
\<close>

theorem hash_map_run_refines:
  assumes "fresh_nodes tr"
  shows "outcome (\<lambda>m. wf_hmap tr m \<and> (\<forall>k. found_value tr m k = Inr (map_effect ops Map.empty k)) \<and>
       HashMap_size m = card (dom (map_effect ops Map.empty)))
     (map_run (HashMap_insert tr) (HashMap_erase tr) ops HashMap_init)"
  using hash_map.run_refines [OF wf_hmap_init [OF assms], of ops]
    hash_map.look_after_run [OF wf_hmap_init [OF assms], of ops]
  by (auto simp: outcome_def split: sum.splits)

text \<open>An allocator that satisfies the contract: the address above all that are in use.\<close>

definition bump :: "nat list \<Rightarrow> nat option" where
  "bump live = (let a = 16 * (foldr (\<lambda>x m. max (x div 16) m) live 0 + 1) in if a < 2 ^ 63 then Some a else None)"

definition bump_traits :: "(nat, nat) hash_traits" where
  "bump_traits = \<lparr>khash = of_nat, hdflt = 0, node_alloc = bump, bucket_alloc = (\<lambda>_. True)\<rparr>"

lemma foldr_max_ge: "x \<in> set xs \<Longrightarrow> x div 16 \<le> foldr (\<lambda>x m. max (x div 16) m) xs (0 :: nat)"
  by (induction xs) (auto simp: le_max_iff_disj)

lemma bump_fresh: "fresh_nodes bump_traits"
proof -
  have "x \<noteq> 16 * (foldr (\<lambda>x m. max (x div 16) m) live 0 + 1)" if "x \<in> set live" for x and live :: "nat list"
  proof
    assume "x = 16 * (foldr (\<lambda>x m. max (x div 16) m) live 0 + 1)"
    then have "x div 16 = foldr (\<lambda>x m. max (x div 16) m) live 0 + 1" by simp
    with foldr_max_ge [OF that] show False by simp
  qed
  then show ?thesis
    by (auto simp: fresh_nodes_def bump_traits_def bump_def Let_def split: if_splits)
qed

lemma heads_16: "replicate 16 x = [x, x, x, x, x, x, x, x, x, x, x, x, x, x, x, x]"
  by (simp add: numeral_eq_Suc)

lemma shift_16: "shift_loop 0 16 = Inr 4"
  using shift_loop_exact [of 4 0] by simp

lemmas hash_map_eval = HashMap_insert_def HashMap_emplace_def HashMap_erase_def HashMap_find_def
  FindNode_hash FindNode_hashed_def bump_traits_def bump_def HashMap_init_def Link_def Rehash_def
  RoundUpToPowerOfTwo_def doubling_loop.simps shift_16 alloc_heads_def heads_def live_addrs_def
  push_chain_def BucketOf_def bucket_at_def heads_16 ensure_def Let_def

definition two_entries :: "(nat, nat) hmap" where
  "two_entries = \<lparr>buckets = Some [[], [], [], [], [], [\<lparr>naddr = 16, nhash = 7, nkey = 7, nval = 10\<rparr>],
     [], [], [], [], [], [], [], [], [], [\<lparr>naddr = 32, nhash = 8, nkey = 8, nval = 20\<rparr>]],
     hcount = 16, bucket_shift = 4, hsize = 2\<rparr>"

lemma run_two_entries:
  "map_run (HashMap_insert bump_traits) (HashMap_erase bump_traits) [MInsert 7 10, MInsert 8 20] HashMap_init
     = Inr two_entries"
  unfolding two_entries_def by (simp add: hash_map_eval)

lemma wf_two_entries: "wf_hmap bump_traits two_entries"
  by (rule hash_map.look_after_run(1) [OF wf_hmap_init [OF bump_fresh] run_two_entries])

theorem hash_map_run_refines_witness:
  "outcome (\<lambda>m. found_value bump_traits m 7 = Inr (Some 1) \<and> found_value bump_traits m 8 = Inr None)
     (map_run (HashMap_insert bump_traits) (HashMap_erase bump_traits)
        [MInsert 7 1, MInsert 8 2, MInsert 7 3, MErase 8] HashMap_init)"
  using hash_map_run_refines [OF bump_fresh, of "[MInsert 7 1, MInsert 8 2, MInsert 7 3, MErase 8]"]
  by (simp add: outcome_def split: sum.splits)

text \<open>
  (C24) Nodes are stable: once an entry is in the map, a lookup after any further insertions,
  rehashes included, and any erasures of other keys leads to the same node, at the same
  address and with the same value.
\<close>

theorem hash_map_nodes_stable:
  assumes "fresh_nodes tr" and "map_run (HashMap_insert tr) (HashMap_erase tr) ops HashMap_init = Inr m"
    and "HashMap_find tr m k = Inr (Some n)" and "MErase k \<notin> set later"
    and "map_run (HashMap_insert tr) (HashMap_erase tr) later m = Inr m'"
  shows "HashMap_find tr m' k = Inr (Some n)"
proof -
  have wf: "wf_hmap tr m" using hash_map.look_after_run(1) [OF wf_hmap_init [OF assms(1)] assms(2)] .
  then have n: "n \<in> set (hnodes m)" "nkey n = k"
    using assms(3) by (auto elim!: FindNode_cases [of tr m k] simp: HashMap_find_def)
  with run_keeps_node [OF wf n(1) _ assms(5)] assms(4) found_node show ?thesis by blast
qed

theorem hash_map_nodes_stable_witness:
  "\<exists>m'. map_run (HashMap_insert bump_traits) (HashMap_erase bump_traits) [MInsert 9 30, MErase 8, MInsert 7 40] two_entries = Inr m'
     \<and> HashMap_find bump_traits m' 7 = Inr (Some \<lparr>naddr = 16, nhash = 7, nkey = 7, nval = 10\<rparr>)"
proof -
  have "\<exists>m'. map_run (HashMap_insert bump_traits) (HashMap_erase bump_traits) [MInsert 9 30, MErase 8, MInsert 7 40] two_entries = Inr m'"
    unfolding two_entries_def by (simp add: hash_map_eval)
  then obtain m' where m': "map_run (HashMap_insert bump_traits) (HashMap_erase bump_traits) [MInsert 9 30, MErase 8, MInsert 7 40] two_entries = Inr m'" ..
  have "HashMap_find bump_traits two_entries 7 = Inr (Some \<lparr>naddr = 16, nhash = 7, nkey = 7, nval = 10\<rparr>)"
    unfolding two_entries_def by (simp add: hash_map_eval)
  from hash_map_nodes_stable [OF bump_fresh run_two_entries this _ m'] m' show ?thesis by auto
qed

text \<open>
  Walking from \<open>begin()\<close> to \<open>end()\<close> ends and visits every entry once; erasing through an
  iterator removes exactly that entry and returns the position of the one after it, so a
  loop that erases as it walks still visits everything.
\<close>

theorem hash_map_erase_while_walking:
  assumes "wf_hmap tr m"
  shows "\<exists>ns. HashMap_iterate m = Inr ns \<and> distinct (map nkey ns) \<and>
     (\<forall>k v. found_value tr m k = Inr (Some v) \<longleftrightarrow> (\<exists>n \<in> set ns. nkey n = k \<and> nval n = v)) \<and>
     (\<forall>xs n ys. ns = xs @ n # ys \<longrightarrow>
        (\<exists>m'. HashMap_erase_at m n = Inr (m', hd_opt ys) \<and> wf_hmap tr m' \<and> HashMap_iterate m' = Inr (xs @ ys)))"
proof (rule exI [of _ "hnodes m"], intro conjI allI impI)
  show "HashMap_iterate m = Inr (hnodes m)" by (rule HashMap_iterate_eq [OF assms])
  show dist: "distinct (map nkey (hnodes m))" using assms by (simp add: wf_hmap_def nodes_ok_def)
  show "found_value tr m k = Inr (Some v) \<longleftrightarrow> (\<exists>n \<in> set (hnodes m). nkey n = k \<and> nval n = v)" for k v
    using node_map_Some [OF dist] by (simp add: found_value_eq [OF assms] hmap_abs_def)
  fix xs n ys assume "hnodes m = xs @ n # ys"
  from HashMap_erase_at_eq [OF assms this] obtain m' where m': "HashMap_erase_at m n = Inr (m', hd_opt ys)"
      "wf_hmap tr m'" "hnodes m' = xs @ ys" by blast
  then show "\<exists>m'. HashMap_erase_at m n = Inr (m', hd_opt ys) \<and> wf_hmap tr m' \<and> HashMap_iterate m' = Inr (xs @ ys)"
    using HashMap_iterate_eq [OF m'(2)] by auto
qed

theorem hash_map_erase_while_walking_witness:
  "\<exists>m'. HashMap_erase_at two_entries \<lparr>naddr = 16, nhash = 7, nkey = 7, nval = 10\<rparr>
       = Inr (m', Some \<lparr>naddr = 32, nhash = 8, nkey = 8, nval = 20\<rparr>)
     \<and> HashMap_iterate m' = Inr [\<lparr>naddr = 32, nhash = 8, nkey = 8, nval = 20\<rparr>]"
proof -
  have nodes: "HashMap_iterate two_entries
      = Inr ([] @ \<lparr>naddr = 16, nhash = 7, nkey = 7, nval = 10\<rparr> # [\<lparr>naddr = 32, nhash = 8, nkey = 8, nval = 20\<rparr>])"
    unfolding HashMap_iterate_eq [OF wf_two_entries] by (simp add: hnodes_def heads_def two_entries_def)
  from hash_map_erase_while_walking [OF wf_two_entries] show ?thesis
    unfolding nodes by fastforce
qed

text \<open>
  \<open>insert_or_assign\<close> always leaves the given value under the key; a copy has the same
  entries, \<open>clear()\<close> has none and keeps the buckets, and releasing gives everything back.
\<close>

theorem hash_map_assign_copy_clear:
  assumes "wf_hmap tr m"
  shows "outcome (\<lambda>(m', b). wf_hmap tr m' \<and> b = (found_value tr m k = Inr None) \<and>
       (\<forall>k'. found_value tr m' k' = (if k' = k then Inr (Some v) else found_value tr m k')))
       (HashMap_insert_or_assign tr m k v) \<and>
     outcome (\<lambda>m'. wf_hmap tr m' \<and> (\<forall>k. found_value tr m' k = found_value tr m k)) (HashMap_copy tr m) \<and>
     wf_hmap tr (HashMap_clear m) \<and> (\<forall>k. found_value tr (HashMap_clear m) k = Inr None) \<and>
     hcount (HashMap_clear m) = hcount m \<and> Release m = Inr HashMap_init"
proof (intro conjI)
  show "outcome (\<lambda>(m', b). wf_hmap tr m' \<and> b = (found_value tr m k = Inr None) \<and>
       (\<forall>k'. found_value tr m' k' = (if k' = k then Inr (Some v) else found_value tr m k')))
       (HashMap_insert_or_assign tr m k v)"
    using HashMap_insert_or_assign_spec [OF assms, of k v]
    by (auto simp: outcome_def found_value_eq [OF assms] found_value_eq split: sum.splits)
  show "outcome (\<lambda>m'. wf_hmap tr m' \<and> (\<forall>k. found_value tr m' k = found_value tr m k)) (HashMap_copy tr m)"
    using HashMap_copy_spec [OF assms]
    by (auto simp: outcome_def found_value_eq [OF assms] found_value_eq split: sum.splits)
  show "\<forall>k. found_value tr (HashMap_clear m) k = Inr None"
    using HashMap_clear_spec [OF assms] by (simp add: found_value_eq)
qed (use HashMap_clear_spec [OF assms] Release_spec [OF assms] in simp_all)

theorem hash_map_assign_copy_clear_witness:
  "outcome (\<lambda>(m', b). \<not> b \<and> found_value bump_traits m' 7 = Inr (Some 99) \<and> found_value bump_traits m' 8 = Inr (Some 20))
     (HashMap_insert_or_assign bump_traits two_entries 7 99)"
proof -
  have "found_value bump_traits two_entries 7 = Inr (Some 10)" "found_value bump_traits two_entries 8 = Inr (Some 20)"
    unfolding two_entries_def found_value_def by (simp_all add: hash_map_eval)
  with hash_map_assign_copy_clear [OF wf_two_entries, of 7 99, THEN conjunct1] show ?thesis
    by (auto simp: outcome_def split: sum.splits)
qed

text \<open>
  (C37) \<open>reserve\<close> does not check its sizes. Up to \<open>2^60\<close> elements it makes room or stops at the
  allocation check; at \<open>2^61\<close> the byte count of the bucket array wraps to zero and clearing
  the buckets writes past the block; above \<open>2^63\<close> the doubling loop wraps to zero and never
  ends.
\<close>

theorem hash_map_reserve_overflows:
  assumes "fresh_nodes tr" and "bucket_alloc tr 0"
  shows "(\<forall>c \<le> 2 ^ 60. outcome (\<lambda>m. wf_hmap tr m \<and> c \<le> hcount m) (HashMap_reserve tr HashMap_init c)) \<and>
     HashMap_reserve tr HashMap_init (2 ^ 61) = Inl OutOfBounds \<and>
     (\<forall>c > 2 ^ 63. HashMap_reserve tr HashMap_init c = Inl Diverges)"
proof (intro conjI allI impI)
  show "outcome (\<lambda>m. wf_hmap tr m \<and> c \<le> hcount m) (HashMap_reserve tr HashMap_init c)" if "c \<le> 2 ^ 60" for c
    using HashMap_reserve_spec [OF wf_hmap_init [OF assms(1)] that]
    by (auto simp: outcome_def split: sum.splits)
  have "RoundUpToPowerOfTwo (2 ^ 61) = Inr (2 ^ 61)"
  proof -
    obtain q where q: "q \<le> 63" "RoundUpToPowerOfTwo (2 ^ 61) = Inr (2 ^ q)" "(2::nat) ^ 61 \<le> 2 ^ q"
        "q = 4 \<or> (2::nat) ^ (q - 1) < 2 ^ 61"
      using RoundUpToPowerOfTwo_finds [of "2 ^ 61"] by auto
    from q(3) have "61 \<le> q" by (rule power_le_imp_le_exp [rotated]) simp
    moreover from this q(4) have "q - 1 < 61" using power_less_imp_less_exp [of 2 "q - 1" 61] by force
    ultimately have "q = 61" by linarith
    with q(2) show ?thesis by simp
  qed
  moreover have "shift_loop 0 (2 ^ 61) = Inr 61" by (rule shift_loop_exact) simp_all
  ultimately show "HashMap_reserve tr HashMap_init (2 ^ 61) = Inl OutOfBounds"
    using assms(2) by (simp add: HashMap_reserve_def Rehash_def HashMap_init_def alloc_heads_def Let_def)
  show "HashMap_reserve tr HashMap_init c = Inl Diverges" if "c > 2 ^ 63" for c
    using RoundUpToPowerOfTwo_diverges [OF that] that
    by (simp add: HashMap_reserve_def Rehash_def HashMap_init_def)
qed

theorem hash_map_reserve_overflows_witness:
  "HashMap_reserve bump_traits HashMap_init (2 ^ 61) = Inl OutOfBounds \<and>
     HashMap_reserve bump_traits HashMap_init (2 ^ 63 + 1) = Inl Diverges"
  using hash_map_reserve_overflows [OF bump_fresh] by (simp add: bump_traits_def)

text \<open>
  Any sequence of insertions and erasures on an empty hash set behaves as on the
  mathematical set.
\<close>

theorem hash_set_run_refines:
  assumes "fresh_nodes tr"
  shows "outcome (\<lambda>s. (\<forall>k. HashSet_contains tr s k = Inr (k \<in> set_effect ops {})) \<and>
       HashSet_size s = card (set_effect ops {}) \<and>
       (\<exists>ks. HashSet_iterate s = Inr ks \<and> distinct ks \<and> set ks = set_effect ops {}))
     (set_run (HashSet_insert tr) (HashSet_erase tr) ops HashMap_init)"
proof -
  have run: "outcome (\<lambda>s. wf_hmap tr s \<and> dom (hmap_abs s) = set_effect ops {})
      (set_run (HashSet_insert tr) (HashSet_erase tr) ops HashMap_init)"
    using hash_set.set_run_refines [OF wf_hmap_init [OF assms], of ops] by simp
  show ?thesis
  proof (cases "set_run (HashSet_insert tr) (HashSet_erase tr) ops HashMap_init")
    case (Inr s)
    with run have s: "wf_hmap tr s" "dom (hmap_abs s) = set_effect ops {}" by simp_all
    have "HashSet_iterate s = Inr (map nkey (hnodes s))" "distinct (map nkey (hnodes s))"
      using s(1) HashMap_iterate_eq [OF s(1)] by (simp_all add: HashSet_iterate_def wf_hmap_def nodes_ok_def)
    moreover have "set (map nkey (hnodes s)) = dom (hmap_abs s)"
      by (auto simp: hmap_abs_def node_map_def dom_map_of_conv_image_fst image_comp comp_def)
    ultimately show ?thesis
      using s(2) hash_set.mem_law [OF s(1)] hash_set.card_law [OF s(1)] Inr by simp
  qed (use run in simp)
qed

definition bump_set_traits :: "(nat, unit) hash_traits" where
  "bump_set_traits = \<lparr>khash = of_nat, hdflt = (), node_alloc = bump, bucket_alloc = (\<lambda>_. True)\<rparr>"

theorem hash_set_run_refines_witness:
  "outcome (\<lambda>s. HashSet_contains bump_set_traits s 3 = Inr True \<and> HashSet_contains bump_set_traits s 4 = Inr False)
     (set_run (HashSet_insert bump_set_traits) (HashSet_erase bump_set_traits) [SInsert 3, SInsert 4, SErase 4] HashMap_init)"
proof -
  have "fresh_nodes bump_set_traits"
    using bump_fresh by (simp add: fresh_nodes_def bump_traits_def bump_set_traits_def)
  from hash_set_run_refines [OF this, of "[SInsert 3, SInsert 4, SErase 4]"] show ?thesis
    by (simp add: outcome_def split: sum.splits)
qed

end
