(* ===== verification/Order_Spec.thy ===== *)
theory Order_Spec
  imports Prelude
begin

text \<open>
  The contract of the comparators that the sorting and searching routines and the ordered
  containers take as parameters: a strict weak order, and one that comes with the equality it
  induces. The comparators of the code, \<open><\<close> and \<open>==\<close> of an ordered type, provide both.
\<close>

section \<open>Comparators\<close>

text \<open>What the sorting and searching routines need from a comparator.\<close>

locale weak_order =
  fixes lt :: "'a \<Rightarrow> 'a \<Rightarrow> bool"
  assumes irrefl: "\<not> lt x x"
    and trans: "lt x y \<Longrightarrow> lt y z \<Longrightarrow> lt x z"
    and neg_trans: "\<not> lt x y \<Longrightarrow> \<not> lt y z \<Longrightarrow> \<not> lt x z"
begin

definition ordered :: "'a list \<Rightarrow> bool" where
  "ordered xs \<longleftrightarrow> sorted_wrt (\<lambda>x y. \<not> lt y x) xs"

lemma asym: "lt x y \<Longrightarrow> \<not> lt y x"
  using irrefl trans by blast

lemma ordered_simps [simp]: "ordered []" "ordered [x]"
  by (simp_all add: ordered_def)

lemma ordered_append:
  "ordered (xs @ ys) \<longleftrightarrow> ordered xs \<and> ordered ys \<and> (\<forall>x \<in> set xs. \<forall>y \<in> set ys. \<not> lt y x)"
  by (auto simp: ordered_def sorted_wrt_append)

text \<open>Inserting a key after the last element it is not less than.\<close>

lemma ordered_insert:
  assumes "ordered (xs @ ys)" and "\<forall>y \<in> set ys. lt key y" and "xs = [] \<or> \<not> lt key (last xs)"
  shows "ordered (xs @ key # ys)"
proof -
  have "\<not> lt key x" if "x \<in> set xs" for x
  proof (cases "x = last xs")
    case True
    then show ?thesis using assms(3) that by auto
  next
    case False
    have "xs = butlast xs @ [last xs]" using that by (cases xs rule: rev_cases) auto
    then have "x \<in> set (butlast xs)" "ordered (butlast xs @ [last xs])"
      using that False assms(1) ordered_append by (metis Un_iff set_append set_ConsD empty_iff empty_set, metis)
    then have "\<not> lt (last xs) x" by (simp add: ordered_append)
    then show ?thesis using assms(3) that neg_trans [of key "last xs" x] by auto
  qed
  moreover have "\<not> lt y key" if "y \<in> set ys" for y using assms(2) asym that by blast
  ultimately show ?thesis using assms(1)
    by (auto simp: ordered_append ordered_def sorted_wrt_append)
qed

text \<open>The two sides of a partition, each in order, with the pivot between them.\<close>

lemma ordered_join:
  assumes "ordered xs" and "ordered ys" and "\<forall>x \<in> set xs. lt x p" and "\<forall>y \<in> set ys. \<not> lt y p"
  shows "ordered (xs @ p # ys)"
proof -
  have "\<not> lt y x" if "x \<in> set xs" "y \<in> set ys" for x y
    using assms(3,4) that trans [of y x p] asym [of y x] by blast
  moreover have "\<not> lt p x" if "x \<in> set xs" for x using assms(3) that asym by blast
  ultimately show ?thesis using assms
    by (auto simp: ordered_append ordered_def sorted_wrt_append)
qed

end

interpretation less: weak_order "(<) :: 'a::linorder \<Rightarrow> 'a \<Rightarrow> bool"
  by unfold_locales auto

lemma less_ordered: "less.ordered xs \<longleftrightarrow> sorted xs"
  by (simp add: less.ordered_def not_less)

section \<open>A comparator with its equality\<close>

locale keyed_order = weak_order lt for lt :: "'a \<Rightarrow> 'a \<Rightarrow> bool" +
  fixes eq :: "'a \<Rightarrow> 'a \<Rightarrow> bool"
  assumes eq_iff: "eq x y \<longleftrightarrow> \<not> lt x y \<and> \<not> lt y x"
begin

lemma eq_refl: "eq x x"
  by (simp add: eq_iff irrefl)

lemma eq_sym: "eq x y \<Longrightarrow> eq y x"
  by (simp add: eq_iff)

lemma lt_eq_trans: "lt x y \<Longrightarrow> eq y z \<Longrightarrow> lt x z"
  using neg_trans eq_iff by blast

lemma eq_lt_trans: "eq x y \<Longrightarrow> lt y z \<Longrightarrow> lt x z"
  using neg_trans eq_iff by blast

lemma lt_total: "lt x y \<or> eq x y \<or> lt y x"
  using eq_iff by blast

end

interpretation less_eq: keyed_order "(<) :: 'a::linorder \<Rightarrow> 'a \<Rightarrow> bool" "(=)"
  by unfold_locales auto

end
