(* ===== verification/Algorithms.thy ===== *)
theory Algorithms
  imports Vector Order_Spec "HOL-Library.Multiset"
begin

text \<open>
  \<open>algorithm.h\<close>: the algorithms on ranges. A range that is written is a part of a block of
  cells, given by the indices of its first element and of its end; every read needs a live
  element and moving one out leaves a moved-from cell, so a routine that is shown not to
  fault never compares or copies a moved-from object. Ranges that are only read are lists.
  The comparator of the sorting and searching routines is a parameter whose contract, a
  strict weak order, is the locale \<open>weak_order\<close>.
\<close>

section \<open>Element access\<close>

text \<open>\<open>Swap(a, b)\<close>: three moves, also when both name the same element.\<close>

definition Swap :: "nat \<Rightarrow> nat \<Rightarrow> 'a block \<Rightarrow> 'a block res" where
  "Swap i j b =
     bindE (move_from i b) (\<lambda>(tmp, b).
     bindE (move_from j b) (\<lambda>(c, b).
     bindE (assign_at i c b) (\<lambda>b. assign_at j tmp b)))"

definition Clamp :: "'a::linorder \<Rightarrow> 'a \<Rightarrow> 'a \<Rightarrow> 'a" where
  "Clamp val lo hi = Max2 lo (Min2 val hi)"

fun Fill :: "'a block \<Rightarrow> nat \<Rightarrow> nat \<Rightarrow> 'a \<Rightarrow> 'a block res" where
  "Fill b first 0 val = Inr b"
| "Fill b first (Suc n) val = bindE (assign_at first (Obj val) b) (\<lambda>b. Fill b (first + 1) n val)"

text \<open>\<open>Copy\<close> and \<open>CopyN\<close> from the elements of a list to cells of a block.\<close>

fun Copy :: "'a list \<Rightarrow> 'a block \<Rightarrow> nat \<Rightarrow> ('a block \<times> nat) res" where
  "Copy [] b dest = Inr (b, dest)"
| "Copy (x # xs) b dest = bindE (assign_at dest (Obj x) b) (\<lambda>b. Copy xs b (dest + 1))"

fun CopyN :: "'a list \<Rightarrow> nat \<Rightarrow> 'a block \<Rightarrow> nat \<Rightarrow> ('a block \<times> nat) res" where
  "CopyN xs 0 b dest = Inr (b, dest)"
| "CopyN [] (Suc n) b dest = Inl OutOfBounds"
| "CopyN (x # xs) (Suc n) b dest = bindE (assign_at dest (Obj x) b) (\<lambda>b. CopyN xs n b (dest + 1))"

section \<open>Queries on a range\<close>

text \<open>Positions are counted from the start of the range; the end is its length.\<close>

fun FindIf :: "('a \<Rightarrow> bool) \<Rightarrow> 'a list \<Rightarrow> nat" where
  "FindIf pred [] = 0"
| "FindIf pred (x # xs) = (if pred x then 0 else FindIf pred xs + 1)"

fun Find :: "'a \<Rightarrow> 'a list \<Rightarrow> nat" where
  "Find val [] = 0"
| "Find val (x # xs) = (if x = val then 0 else Find val xs + 1)"

fun AnyOf :: "('a \<Rightarrow> bool) \<Rightarrow> 'a list \<Rightarrow> bool" where
  "AnyOf pred [] = False"
| "AnyOf pred (x # xs) = (if pred x then True else AnyOf pred xs)"

definition NoneOf :: "('a \<Rightarrow> bool) \<Rightarrow> 'a list \<Rightarrow> bool" where
  "NoneOf pred xs \<longleftrightarrow> \<not> AnyOf pred xs"

fun AllOf :: "('a \<Rightarrow> bool) \<Rightarrow> 'a list \<Rightarrow> bool" where
  "AllOf pred [] = True"
| "AllOf pred (x # xs) = (if \<not> pred x then False else AllOf pred xs)"

fun count_loop :: "('a \<Rightarrow> bool) \<Rightarrow> nat \<Rightarrow> 'a list \<Rightarrow> nat" where
  "count_loop pred n [] = n"
| "count_loop pred n (x # xs) = count_loop pred (if pred x then (n + 1) mod 2 ^ 64 else n) xs"

definition CountOf :: "'a \<Rightarrow> 'a list \<Rightarrow> nat" where
  "CountOf val xs = count_loop (\<lambda>x. x = val) 0 xs"

definition CountIf :: "('a \<Rightarrow> bool) \<Rightarrow> 'a list \<Rightarrow> nat" where
  "CountIf pred xs = count_loop pred 0 xs"

fun Accumulate :: "('b \<Rightarrow> 'a \<Rightarrow> 'b) \<Rightarrow> 'a list \<Rightarrow> 'b \<Rightarrow> 'b" where
  "Accumulate add [] init = init"
| "Accumulate add (x # xs) init = Accumulate add xs (add init x)"

fun Iota :: "'a block \<Rightarrow> nat \<Rightarrow> nat \<Rightarrow> ('a \<Rightarrow> 'a) \<Rightarrow> 'a \<Rightarrow> 'a block res" where
  "Iota b first 0 inc val = Inr b"
| "Iota b first (Suc n) inc val =
     bindE (assign_at first (Obj val) b) (\<lambda>b. Iota b (first + 1) n inc (inc val))"

section \<open>Removing\<close>

text \<open>\<open>left\<close> is \<open>last - first\<close>; the result is the new end.\<close>

fun remove_if_loop :: "('a \<Rightarrow> bool) \<Rightarrow> 'a block \<Rightarrow> nat \<Rightarrow> nat \<Rightarrow> nat \<Rightarrow> ('a block \<times> nat) res" where
  "remove_if_loop pred b result first 0 = Inr (b, result)"
| "remove_if_loop pred b result first (Suc left) =
     bindE (read_at first b) (\<lambda>x.
     if \<not> pred x then
       bindE (if result \<noteq> first
              then bindE (move_from first b) (\<lambda>(c, b). assign_at result c b)
              else Inr b) (\<lambda>b.
       remove_if_loop pred b (result + 1) (first + 1) left)
     else remove_if_loop pred b result (first + 1) left)"

definition RemoveIf :: "('a \<Rightarrow> bool) \<Rightarrow> 'a block \<Rightarrow> nat \<Rightarrow> nat \<Rightarrow> ('a block \<times> nat) res" where
  "RemoveIf pred b first lst = remove_if_loop pred b first first (lst - first)"

fun unique_loop :: "'a block \<Rightarrow> nat \<Rightarrow> nat \<Rightarrow> nat \<Rightarrow> ('a block \<times> nat) res" where
  "unique_loop b result first 0 = Inr (b, result + 1)"
| "unique_loop b result first (Suc left) =
     bindE (read_at result b) (\<lambda>r.
     bindE (read_at first b) (\<lambda>x.
     if r \<noteq> x then
       bindE (if result + 1 \<noteq> first
              then bindE (move_from first b) (\<lambda>(c, b). assign_at (result + 1) c b)
              else Inr b) (\<lambda>b.
       unique_loop b (result + 1) (first + 1) left)
     else unique_loop b result (first + 1) left))"

definition Unique :: "'a block \<Rightarrow> nat \<Rightarrow> nat \<Rightarrow> ('a block \<times> nat) res" where
  "Unique b first lst = (if first = lst then Inr (b, lst) else unique_loop b first (first + 1) (lst - first - 1))"

text \<open>\<open>EraseIf\<close> on a contiguous container, here the vector.\<close>

definition EraseIf :: "('a \<Rightarrow> bool) \<Rightarrow> 'a vec \<Rightarrow> ('a vec \<times> nat) res" where
  "EraseIf pred v =
     bindE (RemoveIf pred (cells v) 0 (vend v)) (\<lambda>(b, kept).
     let v = (if blk v = None then v else v\<lparr>blk := Some b\<rparr>); removed = vend v - kept in
     if removed > 0 then bindE (Vector_erase_range v kept (vend v)) (\<lambda>(v, _). Inr (v, removed))
     else Inr (v, removed))"

section \<open>Sorting\<close>

text \<open>
  The inner loop of the insertion sort: \<open>k\<close> is \<open>j + 1\<close>, the cell the key may go to, so that
  \<open>j >= first\<close> is \<open>k > first\<close>.
\<close>

fun insert_down :: "('a \<Rightarrow> 'a \<Rightarrow> bool) \<Rightarrow> 'a block \<Rightarrow> nat \<Rightarrow> nat \<Rightarrow> 'a \<Rightarrow> 'a block res" where
  "insert_down cmp b first 0 key = assign_at 0 (Obj key) b"
| "insert_down cmp b first (Suc j) key =
     (if j \<ge> first then
        bindE (read_at j b) (\<lambda>x.
        if cmp key x then
          bindE (move_from j b) (\<lambda>(c, b).
          bindE (assign_at (Suc j) c b) (\<lambda>b. insert_down cmp b first j key))
        else assign_at (Suc j) (Obj key) b)
      else assign_at (Suc j) (Obj key) b)"

fun insertion_loop :: "('a \<Rightarrow> 'a \<Rightarrow> bool) \<Rightarrow> 'a block \<Rightarrow> nat \<Rightarrow> nat \<Rightarrow> nat \<Rightarrow> 'a block res" where
  "insertion_loop cmp b first i 0 = Inr b"
| "insertion_loop cmp b first i (Suc left) =
     bindE (read_at i b) (\<lambda>key.
     bindE (move_from i b) (\<lambda>(_, b).
     bindE (insert_down cmp b first i key) (\<lambda>b. insertion_loop cmp b first (i + 1) left)))"

definition InsertionSortComp :: "('a \<Rightarrow> 'a \<Rightarrow> bool) \<Rightarrow> 'a block \<Rightarrow> nat \<Rightarrow> nat \<Rightarrow> 'a block res" where
  "InsertionSortComp cmp b first lst = insertion_loop cmp b first (first + 1) (lst - (first + 1))"

fun partition_loop :: "('a \<Rightarrow> 'a \<Rightarrow> bool) \<Rightarrow> 'a block \<Rightarrow> nat \<Rightarrow> nat \<Rightarrow> nat \<Rightarrow> nat \<Rightarrow> ('a block \<times> nat) res" where
  "partition_loop cmp b pivot i j 0 = Inr (b, i)"
| "partition_loop cmp b pivot i j (Suc left) =
     bindE (read_at j b) (\<lambda>x.
     bindE (read_at pivot b) (\<lambda>p.
     if cmp x p then bindE (Swap i j b) (\<lambda>b. partition_loop cmp b pivot (i + 1) (j + 1) left)
     else partition_loop cmp b pivot i (j + 1) left))"

definition PartitionComp :: "('a \<Rightarrow> 'a \<Rightarrow> bool) \<Rightarrow> 'a block \<Rightarrow> nat \<Rightarrow> nat \<Rightarrow> ('a block \<times> nat) res" where
  "PartitionComp cmp b first lst =
     (let pivot = lst - 1 in
      bindE (partition_loop cmp b pivot first first (pivot - first)) (\<lambda>(b, i).
      bindE (Swap i pivot b) (\<lambda>b. Inr (b, i))))"

text \<open>The loop around the partition, each turn of which has one less in \<open>depth\<close>.\<close>

fun IntroSortImplComp :: "('a \<Rightarrow> 'a \<Rightarrow> bool) \<Rightarrow> 'a block \<Rightarrow> nat \<Rightarrow> nat \<Rightarrow> nat \<Rightarrow> 'a block res" where
  "IntroSortImplComp cmp b first lst 0 = InsertionSortComp cmp b first lst"
| "IntroSortImplComp cmp b first lst (Suc depth) =
     (if lst - first > 16 then
        bindE (PartitionComp cmp b first lst) (\<lambda>(b, pivot).
        if pivot - first < lst - pivot then
          bindE (IntroSortImplComp cmp b first pivot depth) (\<lambda>b.
          IntroSortImplComp cmp b (pivot + 1) lst depth)
        else
          bindE (IntroSortImplComp cmp b (pivot + 1) lst depth) (\<lambda>b.
          IntroSortImplComp cmp b first pivot depth))
      else InsertionSortComp cmp b first lst)"

fun Log2_steps :: "nat \<Rightarrow> nat" where
  "Log2_steps n = (if n > 1 then Log2_steps (n div 2) + 1 else 0)"

declare Log2_steps.simps [simp del]

definition SortComp :: "('a \<Rightarrow> 'a \<Rightarrow> bool) \<Rightarrow> 'a block \<Rightarrow> nat \<Rightarrow> nat \<Rightarrow> 'a block res" where
  "SortComp cmp b first lst =
     (if lst - first \<le> 1 then Inr b
      else IntroSortImplComp cmp b first lst (2 * Log2_steps (lst - first)))"

text \<open>The overloads without a comparator use \<open>operator<\<close>.\<close>

definition InsertionSort :: "'a::linorder block \<Rightarrow> nat \<Rightarrow> nat \<Rightarrow> 'a block res" where
  "InsertionSort = InsertionSortComp (<)"

definition Partition :: "'a::linorder block \<Rightarrow> nat \<Rightarrow> nat \<Rightarrow> ('a block \<times> nat) res" where
  "Partition = PartitionComp (<)"

definition IntroSortImpl :: "'a::linorder block \<Rightarrow> nat \<Rightarrow> nat \<Rightarrow> nat \<Rightarrow> 'a block res" where
  "IntroSortImpl = IntroSortImplComp (<)"

definition Sort :: "'a::linorder block \<Rightarrow> nat \<Rightarrow> nat \<Rightarrow> 'a block res" where
  "Sort b first lst =
     (if lst - first \<le> 1 then Inr b else IntroSortImpl b first lst (2 * Log2_steps (lst - first)))"

function Reverse :: "'a block \<Rightarrow> nat \<Rightarrow> nat \<Rightarrow> 'a block res" where
  "Reverse b first lst =
     (if first < lst then bindE (Swap first (lst - 1) b) (\<lambda>b. Reverse b (first + 1) (lst - 1)) else Inr b)"
  by pat_completeness auto
termination by (relation "measure (\<lambda>(b, first, lst). lst - first)") auto

declare Reverse.simps [simp del]

section \<open>Binary search\<close>

text \<open>The loop of the four overloads; \<open>goes_right\<close> is the test on \<open>*mid\<close>.\<close>

function bound_loop :: "('a \<Rightarrow> bool) \<Rightarrow> 'a list \<Rightarrow> nat \<Rightarrow> nat \<Rightarrow> nat res" where
  "bound_loop goes_right xs first lst =
     (if first < lst then
        let mid = first + (lst - first) div 2 in
        if mid < length xs then
          (if goes_right (xs ! mid) then bound_loop goes_right xs (mid + 1) lst
           else bound_loop goes_right xs first mid)
        else Inl OutOfBounds
      else Inr first)"
  by pat_completeness auto
termination by (relation "measure (\<lambda>(g, xs, first, lst). lst - first)") auto

declare bound_loop.simps [simp del]

definition LowerBound :: "'a::linorder list \<Rightarrow> nat \<Rightarrow> nat \<Rightarrow> 'a \<Rightarrow> nat res" where
  "LowerBound xs first lst val = bound_loop (\<lambda>x. x < val) xs first lst"

definition LowerBoundComp :: "('a \<Rightarrow> 'v \<Rightarrow> bool) \<Rightarrow> 'a list \<Rightarrow> nat \<Rightarrow> nat \<Rightarrow> 'v \<Rightarrow> nat res" where
  "LowerBoundComp cmp xs first lst val = bound_loop (\<lambda>x. cmp x val) xs first lst"

definition UpperBoundComp :: "('v \<Rightarrow> 'a \<Rightarrow> bool) \<Rightarrow> 'a list \<Rightarrow> nat \<Rightarrow> nat \<Rightarrow> 'v \<Rightarrow> nat res" where
  "UpperBoundComp cmp xs first lst val = bound_loop (\<lambda>x. \<not> cmp val x) xs first lst"

definition UpperBound :: "'a::linorder list \<Rightarrow> nat \<Rightarrow> nat \<Rightarrow> 'a \<Rightarrow> nat res" where
  "UpperBound xs first lst val = UpperBoundComp (<) xs first lst val"

section \<open>What the writing loops do\<close>

lemma Swap_same: "i = length pre \<Longrightarrow> Raw \<noteq> x \<Longrightarrow> Swap i i (pre @ x # post) = Inr (pre @ x # post)"
  by (simp add: Swap_def cell_ops)

lemma Swap_two:
  assumes "i = length pre" and "j = length pre + length mid + 1" and "Raw \<noteq> x" and "Raw \<noteq> y"
  shows "Swap i j (pre @ x # mid @ y # post) = Inr (pre @ y # mid @ x # post)"
  using assms move_from_pos [of j "pre @ Moved # mid" y post]
    assign_at_pos [of j "pre @ y # mid" Moved x post]
  by (simp add: Swap_def cell_ops)

lemma insert_down_spec:
  assumes "first = length pre"
  shows "\<exists>xs ys. zs = xs @ ys \<and> (\<forall>y \<in> set ys. cmp key y) \<and> (xs = [] \<or> \<not> cmp key (last xs)) \<and>
     insert_down cmp (pre @ map Obj zs @ Moved # post) first (first + length zs) key
       = Inr (pre @ map Obj (xs @ key # ys) @ post)"
proof (induction zs arbitrary: post rule: rev_induct)
  case Nil
  have "assign_at first (Obj key) (pre @ Moved # post) = Inr (pre @ Obj key # post)"
    using assms by (simp add: cell_ops)
  then show ?case by (cases first) simp_all
next
  case (snoc z zs)
  let ?b = "pre @ map Obj (zs @ [z]) @ Moved # post" and ?j = "first + length zs"
  have rd: "read_at ?j ?b = Inr z"
    using assms by (simp add: read_at_def nth_append)
  show ?case
  proof (cases "cmp key z")
    case False
    have "assign_at (Suc ?j) (Obj key) ?b = Inr (pre @ map Obj ((zs @ [z]) @ [key]) @ post)"
      using assms assign_at_pos [of "Suc ?j" "pre @ map Obj (zs @ [z])" Moved "Obj key" post] by simp
    with False rd show ?thesis by (intro exI [of _ "zs @ [z]"] exI [of _ "[]"]) simp
  next
    case True
    have mv: "move_from ?j ?b = Inr (Obj z, pre @ map Obj zs @ Moved # Moved # post)"
      using assms move_from_pos [of ?j "pre @ map Obj zs" "Obj z" "Moved # post"] by simp
    have as: "assign_at (Suc ?j) (Obj z) (pre @ map Obj zs @ Moved # Moved # post)
        = Inr (pre @ map Obj zs @ Moved # Obj z # post)"
      using assms assign_at_pos [of "Suc ?j" "pre @ map Obj zs @ [Moved]" Moved "Obj z" post] by simp
    obtain xs ys where ih: "zs = xs @ ys" "\<forall>y \<in> set ys. cmp key y" "xs = [] \<or> \<not> cmp key (last xs)"
        "insert_down cmp (pre @ map Obj zs @ Moved # Obj z # post) first ?j key
          = Inr (pre @ map Obj (xs @ key # ys) @ Obj z # post)"
      using snoc.IH [of "Obj z # post"] by blast
    with True rd mv as show ?thesis by (intro exI [of _ xs] exI [of _ "ys @ [z]"]) simp
  qed
qed

context weak_order
begin

lemma insertion_loop_spec:
  assumes "first = length pre"
  shows "ordered zs \<Longrightarrow> \<exists>zs'. mset zs' = mset (zs @ ws) \<and> ordered zs' \<and>
     insertion_loop lt (pre @ map Obj (zs @ ws) @ post) first (first + length zs) (length ws)
       = Inr (pre @ map Obj zs' @ post)"
proof (induction ws arbitrary: zs)
  case (Cons w ws)
  let ?i = "first + length zs"
  have rd: "read_at ?i (pre @ map Obj (zs @ w # ws) @ post) = Inr w"
    using assms by (simp add: read_at_def nth_append)
  have mv: "move_from ?i (pre @ map Obj (zs @ w # ws) @ post) = Inr (Obj w, pre @ map Obj zs @ Moved # map Obj ws @ post)"
    using assms move_from_pos [of ?i "pre @ map Obj zs" "Obj w" "map Obj ws @ post"] by simp
  obtain xs ys where ins: "zs = xs @ ys" "\<forall>y \<in> set ys. lt w y" "xs = [] \<or> \<not> lt w (last xs)"
      "insert_down lt (pre @ map Obj zs @ Moved # map Obj ws @ post) first ?i w
        = Inr (pre @ map Obj (xs @ w # ys) @ map Obj ws @ post)"
    using insert_down_spec [OF assms, of zs lt w "map Obj ws @ post"] by blast
  have "ordered (xs @ w # ys)" using Cons.prems ins by (intro ordered_insert) auto
  from Cons.IH [OF this] obtain zs' where zs': "mset zs' = mset ((xs @ w # ys) @ ws)" "ordered zs'"
      "insertion_loop lt (pre @ map Obj ((xs @ w # ys) @ ws) @ post) first (first + length (xs @ w # ys)) (length ws)
        = Inr (pre @ map Obj zs' @ post)" by blast
  with rd mv ins show ?case by (intro exI [of _ zs']) simp
qed auto

lemma InsertionSort_spec:
  assumes "first = length pre" and "lst = first + length zs"
  shows "\<exists>zs'. mset zs' = mset zs \<and> ordered zs' \<and>
     InsertionSortComp lt (pre @ map Obj zs @ post) first lst = Inr (pre @ map Obj zs' @ post)"
proof (cases zs)
  case (Cons z ws)
  with insertion_loop_spec [OF assms(1), of "[z]" ws post] assms show ?thesis
    by (simp add: InsertionSortComp_def)
qed (use assms in \<open>simp add: InsertionSortComp_def\<close>)

end

section \<open>Partition and introsort\<close>

text \<open>
  While partitioning, the elements before \<open>i\<close> are less than the pivot and those from \<open>i\<close>
  to \<open>j\<close> are not.
\<close>

lemma Swap_to_front:
  assumes "i = length pre" and "j = i + length gs"
  shows "\<exists>hs. mset hs = mset gs \<and>
     Swap i j (pre @ map Obj gs @ Obj x # post) = Inr (pre @ Obj x # map Obj hs @ post)"
proof (cases gs)
  case Nil
  with assms Swap_same [of i pre "Obj x" post] show ?thesis by simp
next
  case (Cons g gs')
  with assms Swap_two [of i pre j "map Obj gs'" "Obj g" "Obj x" post] show ?thesis
    by (intro exI [of _ "gs' @ [g]"]) simp
qed

lemma partition_loop_spec:
  assumes "i = length pre + length ls" and "j = i + length gs" and "pivot = j + length ws"
    and "\<forall>x \<in> set ls. cmp x p" and "\<forall>x \<in> set gs. \<not> cmp x p"
  shows "\<exists>ls' gs'. mset (ls' @ gs') = mset (ls @ gs @ ws) \<and> (\<forall>x \<in> set ls'. cmp x p) \<and> (\<forall>x \<in> set gs'. \<not> cmp x p) \<and>
     partition_loop cmp (pre @ map Obj (ls @ gs @ ws) @ Obj p # post) pivot i j (length ws)
       = Inr (pre @ map Obj (ls' @ gs') @ Obj p # post, length pre + length ls')"
  using assms
proof (induction ws arbitrary: i j ls gs)
  case Nil
  then show ?case by (intro exI [of _ ls] exI [of _ gs]) simp
next
  case (Cons w ws)
  let ?b = "pre @ map Obj (ls @ gs @ w # ws) @ Obj p # post"
  have rd: "read_at j ?b = Inr w" "read_at pivot ?b = Inr p"
    using Cons.prems by (simp_all add: read_at_def nth_append)
  show ?case
  proof (cases "cmp w p")
    case True
    obtain hs where hs: "mset hs = mset gs"
        "Swap i j ((pre @ map Obj ls) @ map Obj gs @ Obj w # map Obj ws @ Obj p # post)
          = Inr ((pre @ map Obj ls) @ Obj w # map Obj hs @ map Obj ws @ Obj p # post)"
      using Swap_to_front [of i "pre @ map Obj ls" j gs w "map Obj ws @ Obj p # post"] Cons.prems by auto
    have len: "length hs = length gs" "set hs = set gs" using hs(1) by (metis size_mset, metis mset_eq_setD)
    obtain ls' gs' where "mset (ls' @ gs') = mset ((ls @ [w]) @ hs @ ws)" "\<forall>x \<in> set ls'. cmp x p" "\<forall>x \<in> set gs'. \<not> cmp x p"
       "partition_loop cmp (pre @ map Obj ((ls @ [w]) @ hs @ ws) @ Obj p # post) pivot (i + 1) (j + 1) (length ws)
         = Inr (pre @ map Obj (ls' @ gs') @ Obj p # post, length pre + length ls')"
      using Cons.IH [of "i + 1" "ls @ [w]" "j + 1" hs] Cons.prems True len by auto
    with True rd hs show ?thesis by (intro exI [of _ ls'] exI [of _ gs']) simp
  next
    case False
    obtain ls' gs' where "mset (ls' @ gs') = mset (ls @ (gs @ [w]) @ ws)" "\<forall>x \<in> set ls'. cmp x p" "\<forall>x \<in> set gs'. \<not> cmp x p"
       "partition_loop cmp (pre @ map Obj (ls @ (gs @ [w]) @ ws) @ Obj p # post) pivot i (j + 1) (length ws)
         = Inr (pre @ map Obj (ls' @ gs') @ Obj p # post, length pre + length ls')"
      using Cons.IH [of i ls "j + 1" "gs @ [w]"] Cons.prems False by auto
    with False rd show ?thesis by (intro exI [of _ ls'] exI [of _ gs']) simp
  qed
qed

lemma Partition_spec:
  assumes "first = length pre" and "lst = first + length zs" and "zs \<noteq> []"
  shows "\<exists>ls p gs. mset (ls @ p # gs) = mset zs \<and> (\<forall>x \<in> set ls. cmp x p) \<and> (\<forall>x \<in> set gs. \<not> cmp x p) \<and>
     PartitionComp cmp (pre @ map Obj zs @ post) first lst
       = Inr (pre @ map Obj (ls @ p # gs) @ post, first + length ls)"
proof -
  obtain ws p where zs: "zs = ws @ [p]" using assms(3) by (cases zs rule: rev_cases) auto
  obtain ls gs where part: "mset (ls @ gs) = mset ws" "\<forall>x \<in> set ls. cmp x p" "\<forall>x \<in> set gs. \<not> cmp x p"
     "partition_loop cmp (pre @ map Obj ws @ Obj p # post) (lst - 1) first first (length ws)
       = Inr (pre @ map Obj (ls @ gs) @ Obj p # post, length pre + length ls)"
    using partition_loop_spec [of first pre "[]" first "[]" "lst - 1" ws cmp p post] assms zs by auto
  have len: "length ws = length ls + length gs" using part(1) by (metis length_append size_mset)
  obtain hs where hs: "mset hs = mset gs"
     "Swap (first + length ls) (lst - 1) ((pre @ map Obj ls) @ map Obj gs @ Obj p # post)
       = Inr ((pre @ map Obj ls) @ Obj p # map Obj hs @ post)"
    using Swap_to_front [of "first + length ls" "pre @ map Obj ls" "lst - 1" gs p post] assms zs len by auto
  have "set hs = set gs" using hs(1) by (rule mset_eq_setD)
  with part hs zs assms show ?thesis
    by (intro exI [of _ ls] exI [of _ p] exI [of _ hs]) (simp add: PartitionComp_def Let_def)
qed

context weak_order
begin

lemma IntroSort_spec:
  assumes "first = length pre" and "lst = first + length zs"
  shows "\<exists>zs'. mset zs' = mset zs \<and> ordered zs' \<and>
     IntroSortImplComp lt (pre @ map Obj zs @ post) first lst depth = Inr (pre @ map Obj zs' @ post)"
  using assms
proof (induction depth arbitrary: pre zs post first lst)
  case 0
  then show ?case using InsertionSort_spec by simp
next
  case (Suc depth)
  show ?case
  proof (cases "lst - first > 16")
    case False
    then show ?thesis using InsertionSort_spec [OF Suc.prems, of post] by simp
  next
    case True
    then have "zs \<noteq> []" using Suc.prems by auto
    from Partition_spec [OF Suc.prems this, of lt post]
    obtain ls p gs where part: "mset (ls @ p # gs) = mset zs" "\<forall>x \<in> set ls. lt x p" "\<forall>x \<in> set gs. \<not> lt x p"
      "PartitionComp lt (pre @ map Obj zs @ post) first lst = Inr (pre @ map Obj (ls @ p # gs) @ post, first + length ls)"
      by blast
    have "length zs = length ls + 1 + length gs" using part(1) by (metis add.assoc length_Cons length_append plus_1_eq_Suc size_mset)
    then have lst: "lst = first + length ls + 1 + length gs" using Suc.prems by simp
    have left: "\<exists>ls'. mset ls' = mset ls \<and> ordered ls' \<and>
        IntroSortImplComp lt (pre @ map Obj ls @ q) first (first + length ls) depth = Inr (pre @ map Obj ls' @ q)" for q
      using Suc.IH [of first pre "first + length ls" ls q] Suc.prems by simp
    have right: "\<exists>gs'. mset gs' = mset gs \<and> ordered gs' \<and>
        IntroSortImplComp lt (pre @ map Obj (xs @ [p]) @ map Obj gs @ post) (first + length ls + 1) lst depth
          = Inr (pre @ map Obj (xs @ [p]) @ map Obj gs' @ post)" if "length xs = length ls" for xs
      using Suc.IH [of "first + length ls + 1" "pre @ map Obj (xs @ [p])" lst gs post] Suc.prems(1) lst that by simp
    have join: "mset (ls' @ p # gs') = mset zs \<and> ordered (ls' @ p # gs')"
      if "mset ls' = mset ls" "ordered ls'" "mset gs' = mset gs" "ordered gs'" for ls' gs'
      using that part(1-3) ordered_join [OF that(2,4), of p] mset_eq_setD [OF that(1)] mset_eq_setD [OF that(3)] by simp
    show ?thesis
    proof (cases "length ls < lst - (first + length ls)")
      case True
      obtain ls' where l: "mset ls' = mset ls" "ordered ls'"
          "IntroSortImplComp lt (pre @ map Obj ls @ Obj p # map Obj gs @ post) first (first + length ls) depth
            = Inr (pre @ map Obj ls' @ Obj p # map Obj gs @ post)" using left by blast
      have "length ls' = length ls" using l(1) by (metis size_mset)
      from right [OF this] obtain gs' where g: "mset gs' = mset gs" "ordered gs'"
          "IntroSortImplComp lt (pre @ map Obj (ls' @ [p]) @ map Obj gs @ post) (first + length ls + 1) lst depth
            = Inr (pre @ map Obj (ls' @ [p]) @ map Obj gs' @ post)" by blast
      from join [OF l(1,2) g(1,2)] True part(4) l(3) g(3) \<open>lst - first > 16\<close> show ?thesis
        by (intro exI [of _ "ls' @ p # gs'"]) simp
    next
      case False
      obtain gs' where g: "mset gs' = mset gs" "ordered gs'"
          "IntroSortImplComp lt (pre @ map Obj (ls @ [p]) @ map Obj gs @ post) (first + length ls + 1) lst depth
            = Inr (pre @ map Obj (ls @ [p]) @ map Obj gs' @ post)" using right [of ls] by blast
      obtain ls' where l: "mset ls' = mset ls" "ordered ls'"
          "IntroSortImplComp lt (pre @ map Obj ls @ Obj p # map Obj gs' @ post) first (first + length ls) depth
            = Inr (pre @ map Obj ls' @ Obj p # map Obj gs' @ post)" using left by blast
      from join [OF l(1,2) g(1,2)] False part(4) l(3) g(3) \<open>lst - first > 16\<close> show ?thesis
        by (intro exI [of _ "ls' @ p # gs'"]) simp
    qed
  qed
qed

lemma SortComp_spec:
  assumes "first = length pre" and "lst = first + length zs"
  shows "\<exists>zs'. mset zs' = mset zs \<and> ordered zs' \<and>
     SortComp lt (pre @ map Obj zs @ post) first lst = Inr (pre @ map Obj zs' @ post)"
proof (cases "length zs \<le> 1")
  case True
  then have "ordered zs" by (cases zs) auto
  with True assms show ?thesis by (intro exI [of _ zs]) (simp add: SortComp_def)
next
  case False
  with IntroSort_spec [OF assms] assms show ?thesis by (simp add: SortComp_def)
qed

end

section \<open>Removing, compacting, reversing\<close>

lemma remove_if_loop_spec:
  assumes "result = length pre + length kept" and "first = result + length hole" and "Raw \<notin> set hole"
  shows "\<exists>hole'. Raw \<notin> set hole' \<and> length hole' = length hole + length (filter pred ws) \<and>
     remove_if_loop pred (pre @ map Obj kept @ hole @ map Obj ws @ post) result first (length ws)
       = Inr (pre @ map Obj (kept @ filter (\<lambda>x. \<not> pred x) ws) @ hole' @ post,
              result + length (filter (\<lambda>x. \<not> pred x) ws))"
  using assms
proof (induction ws arbitrary: result first kept hole)
  case Nil
  then show ?case by (intro exI [of _ hole]) simp
next
  case (Cons w ws)
  let ?b = "pre @ map Obj kept @ hole @ map Obj (w # ws) @ post"
  have rd: "read_at first ?b = Inr w" using Cons.prems by (simp add: read_at_def nth_append)
  show ?case
  proof (cases "pred w")
    case True
    from Cons.IH [of result kept "first + 1" "hole @ [Obj w]"] Cons.prems True rd show ?thesis by auto
  next
    case False
    show ?thesis
    proof (cases hole)
      case Nil
      with Cons.IH [of "result + 1" "kept @ [w]" "first + 1" "[]"] Cons.prems False rd show ?thesis by simp
    next
      case (Cons h hs)
      then have mv: "move_from first ?b = Inr (Obj w, pre @ map Obj kept @ h # hs @ Moved # map Obj ws @ post)"
        using Cons.prems move_from_pos [of first "pre @ map Obj kept @ hole" "Obj w" "map Obj ws @ post"] by simp
      have as: "assign_at result (Obj w) (pre @ map Obj kept @ h # hs @ Moved # map Obj ws @ post)
          = Inr (pre @ map Obj (kept @ [w]) @ (hs @ [Moved]) @ map Obj ws @ post)"
        using Cons.prems Cons assign_at_pos [of result "pre @ map Obj kept" h "Obj w" "hs @ Moved # map Obj ws @ post"] by auto
      from Cons.IH [of "result + 1" "kept @ [w]" "first + 1" "hs @ [Moved]"] Cons.prems Cons False rd mv as
      show ?thesis by auto
    qed
  qed
qed

lemma RemoveIf_spec:
  assumes "first = length pre" and "lst = first + length ws"
  shows "\<exists>hole. Raw \<notin> set hole \<and> length hole = length (filter pred ws) \<and>
     RemoveIf pred (pre @ map Obj ws @ post) first lst
       = Inr (pre @ map Obj (filter (\<lambda>x. \<not> pred x) ws) @ hole @ post, first + length (filter (\<lambda>x. \<not> pred x) ws))"
  using remove_if_loop_spec [of first pre "[]" first "[]" pred ws post] assms by (auto simp: RemoveIf_def)

lemma unique_loop_spec:
  assumes "result = length pre + length kept" and "first = result + 1 + length hole" and "Raw \<notin> set hole"
  shows "\<exists>hole' keep. Raw \<notin> set hole' \<and> keep = kept @ remdups_adj (r # ws) \<and>
     length keep + length hole' = length kept + 1 + length hole + length ws \<and>
     unique_loop (pre @ map Obj (kept @ [r]) @ hole @ map Obj ws @ post) result first (length ws)
       = Inr (pre @ map Obj keep @ hole' @ post, length pre + length keep)"
  using assms
proof (induction ws arbitrary: result first kept hole r)
  case Nil
  then show ?case by (intro exI [of _ hole]) simp
next
  case (Cons w ws)
  let ?b = "pre @ map Obj (kept @ [r]) @ hole @ map Obj (w # ws) @ post"
  have rd: "read_at first ?b = Inr w" "read_at result ?b = Inr r"
    using Cons.prems by (simp_all add: read_at_def nth_append)
  show ?case
  proof (cases "r = w")
    case True
    from Cons.IH [of result kept "first + 1" "hole @ [Obj w]" r] Cons.prems True rd show ?thesis by auto
  next
    case False
    show ?thesis
    proof (cases hole)
      case Nil
      with Cons.IH [of "result + 1" "kept @ [r]" "first + 1" "[]" w] Cons.prems False rd show ?thesis by simp
    next
      case (Cons h hs)
      then have mv: "move_from first ?b = Inr (Obj w, pre @ map Obj (kept @ [r]) @ h # hs @ Moved # map Obj ws @ post)"
        using Cons.prems move_from_pos [of first "pre @ map Obj (kept @ [r]) @ hole" "Obj w" "map Obj ws @ post"] by simp
      have as: "assign_at (result + 1) (Obj w) (pre @ map Obj (kept @ [r]) @ h # hs @ Moved # map Obj ws @ post)
          = Inr (pre @ map Obj ((kept @ [r]) @ [w]) @ (hs @ [Moved]) @ map Obj ws @ post)"
        using Cons.prems Cons assign_at_pos [of "result + 1" "pre @ map Obj (kept @ [r])" h "Obj w" "hs @ Moved # map Obj ws @ post"] by auto
      from Cons.IH [of "result + 1" "kept @ [r]" "first + 1" "hs @ [Moved]" w] Cons.prems Cons False rd mv as
      show ?thesis by auto
    qed
  qed
qed

lemma Unique_spec:
  assumes "first = length pre" and "lst = first + length ws"
  shows "\<exists>hole. Raw \<notin> set hole \<and> length (remdups_adj ws) + length hole = length ws \<and>
     Unique (pre @ map Obj ws @ post) first lst
       = Inr (pre @ map Obj (remdups_adj ws) @ hole @ post, first + length (remdups_adj ws))"
proof (cases ws)
  case (Cons w ws')
  with unique_loop_spec [of first pre "[]" "first + 1" "[]" w ws' post] assms show ?thesis
    by (auto simp: Unique_def)
qed (use assms in \<open>simp add: Unique_def\<close>)

lemma Reverse_spec:
  assumes "first = length pre" and "lst = first + length zs"
  shows "Reverse (pre @ map Obj zs @ post) first lst = Inr (pre @ map Obj (rev zs) @ post)"
  using assms
proof (induction "length zs" arbitrary: pre zs post first lst rule: less_induct)
  case less
  show ?case
  proof (cases "length zs \<le> 1")
    case True
    then consider "zs = []" | z where "zs = [z]" by (cases zs) auto
    then show ?thesis
    proof cases
      case 1
      with less.prems show ?thesis by (simp add: Reverse.simps)
    next
      case 2
      with less.prems Swap_same [of first pre "Obj z" post] show ?thesis by (simp add: Reverse.simps)
    qed
  next
    case False
    then obtain x mid y where zs: "zs = x # mid @ [y]"
      by (cases zs; cases "tl zs" rule: rev_cases) auto
    have swap: "Swap first (lst - 1) (pre @ map Obj zs @ post) = Inr ((pre @ [Obj y]) @ map Obj mid @ Obj x # post)"
      using Swap_two [of first pre "lst - 1" "map Obj mid" "Obj x" "Obj y" post] less.prems zs by simp
    have "Reverse ((pre @ [Obj y]) @ map Obj mid @ Obj x # post) (first + 1) (lst - 1)
        = Inr ((pre @ [Obj y]) @ map Obj (rev mid) @ Obj x # post)"
      using less.prems zs by (intro less.hyps) auto
    with swap zs less.prems show ?thesis by (subst Reverse.simps) simp
  qed
qed

lemma EraseIf_spec:
  assumes "length xs \<le> cap"
  shows "EraseIf pred (mkv xs cap) = Inr (mkv (filter (\<lambda>x. \<not> pred x) xs) cap, length (filter pred xs))"
proof (cases "cap = 0")
  case True
  with assms show ?thesis by (simp add: EraseIf_def mkv_def RemoveIf_def cells_def)
next
  case False
  let ?ys = "filter (\<lambda>x. \<not> pred x) xs"
  have len: "length ?ys + length (filter pred xs) = length xs"
    using sum_length_filter_compl [of pred xs] by simp
  have less: "length ?ys < length xs" if "filter pred xs \<noteq> []"
  proof -
    have "0 < length (filter pred xs)" using that by simp
    with len show ?thesis by linarith
  qed
  obtain hole where rem: "Raw \<notin> set hole" "length hole = length (filter pred xs)"
      "RemoveIf pred (rep xs cap) 0 (length xs) = Inr (map Obj ?ys @ hole @ replicate (cap - length xs) Raw, length ?ys)"
    using RemoveIf_spec [of 0 "[]" "length xs" xs pred "replicate (cap - length xs) Raw"] by (auto simp: rep_def)
  let ?v = "\<lparr>blk = Some (map Obj ?ys @ hole @ replicate (cap - length xs) Raw), vend = length xs\<rparr>"
  have "DestructRange (map Obj ?ys @ hole @ replicate (cap - length xs) Raw) (length ?ys) (length xs)
      = Inr (map Obj ?ys @ replicate (length hole) Raw @ replicate (cap - length xs) Raw)"
    using rem len by (intro DestructRange_live) auto
  also have "map Obj ?ys @ replicate (length hole) Raw @ replicate (cap - length xs) Raw = rep ?ys cap"
    using rem(2) len assms by (simp add: rep_def flip: replicate_add)
  finally have destroy: "DestructRange (map Obj ?ys @ hole @ replicate (cap - length xs) Raw) (length ?ys) (length xs)
      = Inr (rep ?ys cap)" .
  have "Vector_erase_range ?v (length ?ys) (length xs) = Inr (mkv ?ys cap, length ?ys)" if "filter pred xs \<noteq> []"
    using less [OF that] len False destroy by (simp add: Vector_erase_range_def Let_def cells_def mkv_def)
  moreover have "?ys = xs \<and> hole = []" if "filter pred xs = []"
    using that rem(2) by (simp add: filter_empty_conv filter_id_conv)
  ultimately show ?thesis using rem len less assms False
    by (cases "filter pred xs = []") (auto simp: EraseIf_def mkv_def rep_def cells_def Let_def)
qed

lemma Fill_spec:
  "first = length pre \<Longrightarrow> n = length mid \<Longrightarrow> Raw \<notin> set mid \<Longrightarrow>
     Fill (pre @ mid @ post) first n v = Inr (pre @ replicate n (Obj v) @ post)"
proof (induction mid arbitrary: pre first n)
  case (Cons c mid)
  then have "Fill ((pre @ [Obj v]) @ mid @ post) (first + 1) (length mid) v
      = Inr ((pre @ [Obj v]) @ replicate (length mid) (Obj v) @ post)"
    by (intro Cons.IH) auto
  with Cons.prems show ?case by (simp add: cell_ops)
qed simp

lemma Copy_spec:
  "dest = length pre \<Longrightarrow> length xs = length mid \<Longrightarrow> Raw \<notin> set mid \<Longrightarrow>
     Copy xs (pre @ mid @ post) dest = Inr (pre @ map Obj xs @ post, dest + length xs)"
proof (induction xs arbitrary: pre mid dest)
  case (Cons x xs)
  then obtain c mid' where mid: "mid = c # mid'" by (cases mid) auto
  with Cons.prems have "Copy xs ((pre @ [Obj x]) @ mid' @ post) (dest + 1)
      = Inr ((pre @ [Obj x]) @ map Obj xs @ post, dest + 1 + length xs)"
    by (intro Cons.IH) auto
  with Cons.prems mid show ?case by (simp add: cell_ops)
qed simp

lemma CopyN_Copy: "n \<le> length xs \<Longrightarrow> CopyN xs n b dest = Copy (take n xs) b dest"
proof (induction xs arbitrary: n b dest)
  case (Cons x xs)
  then show ?case by (cases n) (auto intro: bindE_cong)
qed simp

lemma queries_eq:
  "FindIf p xs = length (takeWhile (\<lambda>x. \<not> p x) xs)" "Find v xs = length (takeWhile (\<lambda>x. x \<noteq> v) xs)"
  "AnyOf p xs \<longleftrightarrow> (\<exists>x \<in> set xs. p x)" "AllOf p xs \<longleftrightarrow> (\<forall>x \<in> set xs. p x)"
  by (induction xs) auto

lemma count_loop_eq: "n + length xs < 2 ^ 64 \<Longrightarrow> count_loop p n xs = n + length (filter p xs)"
  by (induction xs arbitrary: n) auto

section \<open>Binary search\<close>

lemma bound_loop_finds:
  assumes "lst \<le> length xs"
  shows "first \<le> c \<Longrightarrow> c \<le> lst \<Longrightarrow> (\<And>i. first \<le> i \<Longrightarrow> i < c \<Longrightarrow> p (xs ! i)) \<Longrightarrow>
     (\<And>i. c \<le> i \<Longrightarrow> i < lst \<Longrightarrow> \<not> p (xs ! i)) \<Longrightarrow> bound_loop p xs first lst = Inr c"
  using assms
proof (induction "lst - first" arbitrary: first lst rule: less_induct)
  case less
  show ?case
  proof (cases "first < lst")
    case False
    with less.prems show ?thesis by (simp add: bound_loop.simps)
  next
    case True
    let ?mid = "first + (lst - first) div 2"
    have mid: "first \<le> ?mid" "?mid < lst" "?mid < length xs" using True less.prems(5) by linarith+
    show ?thesis
    proof (cases "p (xs ! ?mid)")
      case p: True
      then have "?mid < c" using less.prems(4) [of ?mid] mid by (meson not_less)
      then have "bound_loop p xs (?mid + 1) lst = Inr c"
        using less.prems mid by (intro less.hyps) auto
      with True p mid show ?thesis by (subst bound_loop.simps) (simp add: Let_def)
    next
      case p: False
      then have "c \<le> ?mid" using less.prems(3) [of ?mid] mid by (meson not_less)
      then have "bound_loop p xs first ?mid = Inr c"
        using less.prems mid by (intro less.hyps) auto
      with True p mid show ?thesis by (subst bound_loop.simps) (simp add: Let_def)
    qed
  qed
qed

lemma partition_point:
  assumes "first \<le> lst" and "\<And>i j. first \<le> i \<Longrightarrow> i \<le> j \<Longrightarrow> j < lst \<Longrightarrow> p (xs ! j) \<Longrightarrow> p (xs ! i)"
  shows "\<exists>c. first \<le> c \<and> c \<le> lst \<and> (\<forall>i. first \<le> i \<and> i < c \<longrightarrow> p (xs ! i)) \<and> (\<forall>i. c \<le> i \<and> i < lst \<longrightarrow> \<not> p (xs ! i))"
  using assms
proof (induction "lst - first" arbitrary: lst)
  case (Suc d)
  then obtain l where l: "lst = Suc l" "first \<le> l" by (cases lst) auto
  show ?case
  proof (cases "p (xs ! l)")
    case True
    then have "p (xs ! i)" if "first \<le> i" "i < lst" for i
      using Suc.prems(2) [of i l] that l by simp
    then show ?thesis using Suc.prems(1) by (intro exI [of _ lst]) simp
  next
    case False
    have "\<exists>c. first \<le> c \<and> c \<le> l \<and> (\<forall>i. first \<le> i \<and> i < c \<longrightarrow> p (xs ! i)) \<and> (\<forall>i. c \<le> i \<and> i < l \<longrightarrow> \<not> p (xs ! i))"
      using Suc.hyps(2) Suc.prems l by (intro Suc.hyps(1)) auto
    then obtain c where c: "first \<le> c" "c \<le> l" "\<forall>i. first \<le> i \<and> i < c \<longrightarrow> p (xs ! i)"
        "\<forall>i. c \<le> i \<and> i < l \<longrightarrow> \<not> p (xs ! i)" by blast
    have "\<forall>i. c \<le> i \<and> i < lst \<longrightarrow> \<not> p (xs ! i)" using c(4) False l by (auto simp: less_Suc_eq)
    with c l show ?thesis by (intro exI [of _ c]) simp
  qed
qed auto

lemma bound_loop_sound:
  assumes "first \<le> lst" and "lst \<le> length xs"
    and "\<And>i j. first \<le> i \<Longrightarrow> i \<le> j \<Longrightarrow> j < lst \<Longrightarrow> p (xs ! j) \<Longrightarrow> p (xs ! i)"
  shows "\<exists>c. bound_loop p xs first lst = Inr c \<and> first \<le> c \<and> c \<le> lst \<and>
     (\<forall>i. first \<le> i \<and> i < lst \<longrightarrow> (p (xs ! i) \<longleftrightarrow> i < c))"
proof -
  obtain c where c: "first \<le> c" "c \<le> lst" "\<forall>i. first \<le> i \<and> i < c \<longrightarrow> p (xs ! i)"
      "\<forall>i. c \<le> i \<and> i < lst \<longrightarrow> \<not> p (xs ! i)"
    using partition_point [OF assms(1), of p xs] assms(3) by blast
  with bound_loop_finds [OF assms(2), of first c p] show ?thesis
    by (intro exI [of _ c]) (auto simp: not_less)
qed

section \<open>Properties\<close>

text \<open>
  (C7) \<open>Sort\<close> with a comparator that is a strict weak order returns for every range, reads
  only live elements inside it, and leaves a permutation of the range in order, with the rest
  of the block untouched.
\<close>

theorem sort_comp_sorts:
  assumes "weak_order lt" and "first = length pre" and "lst = first + length zs"
  shows "\<exists>zs'. SortComp lt (pre @ map Obj zs @ post) first lst = Inr (pre @ map Obj zs' @ post) \<and>
     mset zs' = mset zs \<and> sorted_wrt (\<lambda>x y. \<not> lt y x) zs'"
  using weak_order.SortComp_spec [OF assms, of post] weak_order.ordered_def [OF assms(1)] by auto

theorem sort_comp_sorts_witness:
  "\<exists>zs'. SortComp (\<lambda>x y. y < (x :: nat)) ([Raw] @ map Obj [3, 1, 2] @ [Moved]) 1 4 = Inr ([Raw] @ map Obj zs' @ [Moved])
     \<and> mset zs' = {#1, 2, 3#} \<and> sorted_wrt (\<ge>) zs'"
proof -
  have "weak_order (\<lambda>x y. y < (x :: nat))" by unfold_locales auto
  moreover have "(1 :: nat) = length [Raw]" "(4 :: nat) = 1 + length [3, 1, 2 :: nat]" by simp_all
  ultimately obtain zs' where "SortComp (\<lambda>x y. y < (x :: nat)) ([Raw] @ map Obj [3, 1, 2] @ [Moved]) 1 4 = Inr ([Raw] @ map Obj zs' @ [Moved])"
      "mset zs' = mset [3, 1, 2]" "sorted_wrt (\<lambda>x y. \<not> x < y) zs'"
    using sort_comp_sorts by blast
  then show ?thesis by (auto simp: not_less)
qed

text \<open>
  \<open>Sort\<close> on a linearly ordered type puts the range into the one sorted order of its
  elements.
\<close>

theorem sort_is_sort:
  assumes "first = length pre" and "lst = first + length zs"
  shows "Sort (pre @ map Obj zs @ post) first lst = Inr (pre @ map Obj (sort zs) @ post)"
proof -
  obtain zs' where "mset zs' = mset zs" "sorted zs'" "SortComp (<) (pre @ map Obj zs @ post) first lst = Inr (pre @ map Obj zs' @ post)"
    using less.SortComp_spec [OF assms, of post] less_ordered by blast
  moreover from this have "zs' = sort zs" by (intro properties_for_sort [symmetric]) auto
  ultimately have "SortComp (<) (pre @ map Obj zs @ post) first lst = Inr (pre @ map Obj (sort zs) @ post)" by simp
  then show ?thesis unfolding Sort_def SortComp_def IntroSortImpl_def .
qed

theorem sort_is_sort_witness:
  "Sort (map Obj [5, 3, 9, 1 :: nat]) 0 4 = Inr (map Obj [1, 3, 5, 9])"
  using sort_is_sort [of 0 "[]" 4 "[5, 3, 9, 1 :: nat]" "[]"] by simp

text \<open>
  \<open>EraseIf\<close> on a vector leaves exactly the elements that do not match, in their order,
  destroys every other one once and returns how many went.
\<close>

theorem erase_if_vector:
  assumes "wf_vec v"
  shows "\<exists>v'. EraseIf pred v = Inr (v', length (filter pred (elems v))) \<and> wf_vec v' \<and>
     elems v' = filter (\<lambda>x. \<not> pred x) (elems v) \<and> Vector_capacity v' = Vector_capacity v"
proof -
  obtain xs cap where v: "v = mkv xs cap" and le: "length xs \<le> cap" by (rule wf_vecE [OF assms])
  have le': "length (filter (\<lambda>x. \<not> pred x) xs) \<le> cap" by (rule le_trans [OF length_filter_le le])
  show ?thesis using EraseIf_spec [OF le, of pred] le le' v by simp
qed

theorem erase_if_vector_witness:
  "\<exists>v'. EraseIf even (mkv [1, 2, 3, 4 :: nat] 8) = Inr (v', 2) \<and> wf_vec v' \<and> elems v' = [1, 3] \<and>
     Vector_capacity v' = 8"
  using erase_if_vector [OF wf_mkv [of "[1, 2, 3, 4 :: nat]" 8], of even] by (simp flip: numeral_2_eq_2)

text \<open>
  (C36) The four binary searches return the partition point of the range: every element
  before it goes right and no element from it on does, for any comparator along which the
  range is partitioned.
\<close>

theorem bounds_find_partition_point:
  assumes "first \<le> lst" and "lst \<le> length xs"
    and "\<And>i j. first \<le> i \<Longrightarrow> i \<le> j \<Longrightarrow> j < lst \<Longrightarrow> cmp (xs ! j) v \<Longrightarrow> cmp (xs ! i) v"
    and "\<And>i j. first \<le> i \<Longrightarrow> i \<le> j \<Longrightarrow> j < lst \<Longrightarrow> cmp' v (xs ! i) \<Longrightarrow> cmp' v (xs ! j)"
  shows "(\<exists>c. LowerBoundComp cmp xs first lst v = Inr c \<and> first \<le> c \<and> c \<le> lst \<and>
       (\<forall>i. first \<le> i \<and> i < lst \<longrightarrow> (cmp (xs ! i) v \<longleftrightarrow> i < c))) \<and>
     (\<exists>c. UpperBoundComp cmp' xs first lst v = Inr c \<and> first \<le> c \<and> c \<le> lst \<and>
       (\<forall>i. first \<le> i \<and> i < lst \<longrightarrow> (cmp' v (xs ! i) \<longleftrightarrow> c \<le> i)))"
proof
  show "\<exists>c. LowerBoundComp cmp xs first lst v = Inr c \<and> first \<le> c \<and> c \<le> lst \<and>
       (\<forall>i. first \<le> i \<and> i < lst \<longrightarrow> (cmp (xs ! i) v \<longleftrightarrow> i < c))"
    unfolding LowerBoundComp_def by (rule bound_loop_sound [OF assms(1,2)]) (rule assms(3))
  have "\<exists>c. bound_loop (\<lambda>x. \<not> cmp' v x) xs first lst = Inr c \<and> first \<le> c \<and> c \<le> lst \<and>
       (\<forall>i. first \<le> i \<and> i < lst \<longrightarrow> (\<not> cmp' v (xs ! i) \<longleftrightarrow> i < c))"
    by (rule bound_loop_sound [OF assms(1,2)]) (use assms(4) in blast)
  then show "\<exists>c. UpperBoundComp cmp' xs first lst v = Inr c \<and> first \<le> c \<and> c \<le> lst \<and>
       (\<forall>i. first \<le> i \<and> i < lst \<longrightarrow> (cmp' v (xs ! i) \<longleftrightarrow> c \<le> i))"
    unfolding UpperBoundComp_def by (meson not_less)
qed

theorem bounds_find_partition_point_witness:
  "(\<exists>c. LowerBoundComp (<) [1, 3, 3, 7 :: nat] 0 4 3 = Inr c \<and> c = 1) \<and>
     (\<exists>c. UpperBoundComp (<) [1, 3, 3, 7 :: nat] 0 4 3 = Inr c \<and> c = 3)"
proof -
  let ?xs = "[1, 3, 3, 7 :: nat]"
  have "sorted ?xs" by simp
  then have "?xs ! i \<le> ?xs ! j" if "i \<le> j" "j < 4" for i j using that by (intro sorted_nth_mono) auto
  then have "(\<exists>c. LowerBoundComp (<) ?xs 0 4 3 = Inr c \<and> 0 \<le> c \<and> c \<le> 4 \<and> (\<forall>i. 0 \<le> i \<and> i < 4 \<longrightarrow> (?xs ! i < 3 \<longleftrightarrow> i < c))) \<and>
      (\<exists>c. UpperBoundComp (<) ?xs 0 4 3 = Inr c \<and> 0 \<le> c \<and> c \<le> 4 \<and> (\<forall>i. 0 \<le> i \<and> i < 4 \<longrightarrow> (3 < ?xs ! i \<longleftrightarrow> c \<le> i)))"
    by (intro bounds_find_partition_point) (auto intro: le_less_trans less_le_trans)
  then obtain c d where c: "LowerBoundComp (<) ?xs 0 4 3 = Inr c" "c \<le> 4" "\<forall>i < 4. ?xs ! i < 3 \<longleftrightarrow> i < c"
      and d: "UpperBoundComp (<) ?xs 0 4 3 = Inr d" "d \<le> 4" "\<forall>i < 4. 3 < ?xs ! i \<longleftrightarrow> d \<le> i" by auto
  have "0 < c" "\<not> 1 < c" using c(3) [rule_format, of 0] c(3) [rule_format, of 1] by simp_all
  moreover have "\<not> d \<le> 2" "d \<le> 3" using d(3) [rule_format, of 2] d(3) [rule_format, of 3] by simp_all
  ultimately show ?thesis using c(1) d(1) by simp
qed

text \<open>
  \<open>Unique\<close> collapses every run of equal elements to one, \<open>Reverse\<close> reverses the range;
  both touch only cells of the range and leave no raw cell in it.
\<close>

theorem unique_and_reverse:
  assumes "first = length pre" and "lst = first + length zs"
  shows "(\<exists>hole. Unique (pre @ map Obj zs @ post) first lst
        = Inr (pre @ map Obj (remdups_adj zs) @ hole @ post, first + length (remdups_adj zs)) \<and>
        Raw \<notin> set hole \<and> length (remdups_adj zs) + length hole = length zs) \<and>
     Reverse (pre @ map Obj zs @ post) first lst = Inr (pre @ map Obj (rev zs) @ post)"
  using Unique_spec [OF assms, of post] Reverse_spec [OF assms, of post] by auto

theorem unique_and_reverse_witness:
  "Reverse (map Obj [1, 2, 3 :: nat]) 0 3 = Inr (map Obj [3, 2, 1])"
  using unique_and_reverse [of 0 "[]" 3 "[1, 2, 3 :: nat]" "[]"] by simp

end
