(* ===== verification/Char_Algorithms.thy ===== *)
theory Char_Algorithms
  imports Prelude
begin

text \<open>
  \<open>strings/char_algorithms.h\<close> and \<open>strings/string_search.h\<close>: scans over characters behind
  a raw pointer. The pointer is the list of the characters that may be read from it on;
  a scan that runs past the end of that list faults. Positions are offsets from the pointer.
\<close>

section \<open>Null-terminated strings\<close>

text \<open>\<open>CountStringLength\<close>; \<open>n\<close> is the index, \<open>limit\<close> defaults to the largest
  \<open>mem_size\<close> (the builtin \<open>strlen\<close> taken in that case computes the same scan).\<close>

fun length_scan :: "'a::zero list \<Rightarrow> nat \<Rightarrow> nat \<Rightarrow> nat res" where
  "length_scan [] n limit = (if n \<noteq> limit then Inl OutOfBounds else Inr n)"
| "length_scan (c # p) n limit =
     (if n \<noteq> limit then if c \<noteq> 0 then length_scan p (n + 1) limit else Inr n else Inr n)"

definition CountStringLength :: "'a::zero list \<Rightarrow> nat \<Rightarrow> nat res" where
  "CountStringLength p limit = length_scan p 0 limit"

fun find_char :: "'a::zero list \<Rightarrow> 'a \<Rightarrow> nat \<Rightarrow> nat option res" where
  "find_char [] needle n = Inl OutOfBounds"
| "find_char (c # p) needle n =
     (if c = needle then Inr (Some n) else if c = 0 then Inr None else find_char p needle (n + 1))"

definition FindChar :: "'a::zero list \<Rightarrow> 'a \<Rightarrow> nat option res" where
  "FindChar haystack needle = find_char haystack needle 0"

fun find_last_char :: "'a::zero list \<Rightarrow> 'a \<Rightarrow> nat \<Rightarrow> nat option \<Rightarrow> nat option res" where
  "find_last_char [] needle n found = Inl OutOfBounds"
| "find_last_char (c # p) needle n found =
     (let found = (if c = needle then Some n else found) in
      if c = 0 then Inr found else find_last_char p needle (n + 1) found)"

definition FindLastChar :: "'a::zero list \<Rightarrow> 'a \<Rightarrow> nat option res" where
  "FindLastChar haystack needle = find_last_char haystack needle 0 None"

text \<open>\<open>FindNullTerminator\<close>: \<open>s\<close> is the offset reached, \<open>n\<close> what is left to scan.\<close>

fun terminator_scan :: "'a::zero list \<Rightarrow> nat \<Rightarrow> nat \<Rightarrow> nat res" where
  "terminator_scan p s 0 = Inr 0"
| "terminator_scan [] s (Suc n) = Inl OutOfBounds"
| "terminator_scan (c # p) s (Suc n) = (if c = 0 then Inr s else terminator_scan p (s + 1) n)"

definition FindNullTerminator :: "'a::zero list \<Rightarrow> nat \<Rightarrow> nat res" where
  "FindNullTerminator p n = terminator_scan p 0 n"

section \<open>Substring search\<close>

definition kStringNotFoundPos :: nat where
  "kStringNotFoundPos = 2 ^ 64 - 1"

text \<open>
  \<open>StringSearch\<close>. The haystack is a list, \<open>size\<close> the length the caller gives. \<open>i\<close>
  is the candidate position, \<open>lst\<close> the index of the needle's last character, \<open>iend\<close> the
  first position at which the needle no longer fits, and \<open>skip\<close> the distance to the previous
  occurrence of the last character in the needle, computed when it is first needed.
\<close>

function skip_scan :: "'a list \<Rightarrow> nat \<Rightarrow> nat \<Rightarrow> nat" where
  "skip_scan needle lst skip =
     (if skip \<le> lst \<and> needle ! (lst - skip) \<noteq> needle ! lst then skip_scan needle lst (skip + 1) else skip)"
  by pat_completeness auto
termination by (relation "measure (\<lambda>(needle, lst, skip). lst + 1 - skip)") auto

declare skip_scan.simps [simp del]

text \<open>The inner loop that looks for the last character: the position at which it matches,
  or nothing when the end of the haystack comes first.\<close>

function match_last :: "'a list \<Rightarrow> 'a \<Rightarrow> nat \<Rightarrow> nat \<Rightarrow> nat \<Rightarrow> nat option res" where
  "match_last haystack c lst i iend =
     (if i + lst < length haystack then
        if haystack ! (i + lst) \<noteq> c then
          (if i + 1 = iend then Inr None else match_last haystack c lst (i + 1) iend)
        else Inr (Some i)
      else Inl OutOfBounds)"
  by pat_completeness auto
termination by (relation "measure (\<lambda>(haystack, c, lst, i, iend). length haystack - i)") auto

declare match_last.simps [simp del]

text \<open>\<open>Pedestrian mode\<close>: whether the needle stands at \<open>i\<close>, one character at a time.\<close>

function match_here :: "'a list \<Rightarrow> 'a list \<Rightarrow> nat \<Rightarrow> nat \<Rightarrow> bool res" where
  "match_here haystack needle i j =
     (if j < length needle then
        if i + j < length haystack then
          if haystack ! (i + j) \<noteq> needle ! j then Inr False
          else if j + 1 = length needle then Inr True
          else match_here haystack needle i (j + 1)
        else Inl OutOfBounds
      else Inl (DCheck ''j < needle_size''))"
  by pat_completeness auto
termination by (relation "measure (\<lambda>(haystack, needle, i, j). length needle - j)") auto

declare match_here.simps [simp del]

text \<open>The outer loop. Every round moves \<open>i\<close> on by \<open>skip\<close>, which is never zero by then;
  the fuel is the number of positions, so that it cannot run out.\<close>

fun search_loop :: "nat \<Rightarrow> 'a list \<Rightarrow> 'a list \<Rightarrow> nat \<Rightarrow> nat \<Rightarrow> nat \<Rightarrow> nat res" where
  "search_loop 0 haystack needle i iend skip =
     (if i < iend then Inl Diverges else Inr kStringNotFoundPos)"
| "search_loop (Suc fuel) haystack needle i iend skip =
     (if i < iend then
        let lst = length needle - 1 in
        bindE (match_last haystack (needle ! lst) lst i iend) (\<lambda>r.
        case r of None \<Rightarrow> Inr kStringNotFoundPos
        | Some i \<Rightarrow>
            bindE (match_here haystack needle i 0) (\<lambda>found.
            if found then Inr i
            else (let skip = (if skip = 0 then skip_scan needle lst 1 else skip)
                  in search_loop fuel haystack needle (i + skip) iend skip)))
      else Inr kStringNotFoundPos)"

definition StringSearch :: "'a list \<Rightarrow> nat \<Rightarrow> 'a list \<Rightarrow> nat \<Rightarrow> nat res" where
  "StringSearch haystack hsize needle start_pos =
     bindE (ensure (hsize \<noteq> 0) (DCheck ''size is null'')) (\<lambda>_.
     bindE (ensure (length needle \<noteq> 0) (DCheck ''needle_size is null'')) (\<lambda>_.
     let needle_size = length needle; sum = (needle_size + start_pos) mod 2 ^ 64 in
     if sum > hsize \<or> sum < start_pos then Inr kStringNotFoundPos
     else if needle_size = 0 then Inr start_pos
     else search_loop (hsize + 1) haystack needle start_pos (hsize - (needle_size - 1)) 0))"

text \<open>\<open>StringSearchNotOf\<close> and \<open>StringSearchLastNotOf\<close>: the first and the last character
  that is not in the set.\<close>

fun in_set :: "'a \<Rightarrow> 'a list \<Rightarrow> bool" where
  "in_set c [] = False"
| "in_set c (x # xs) = (if c = x then True else in_set c xs)"

fun not_of_loop :: "'a list \<Rightarrow> 'a list \<Rightarrow> nat \<Rightarrow> nat \<Rightarrow> nat res" where
  "not_of_loop haystack needle pos 0 = Inr kStringNotFoundPos"
| "not_of_loop haystack needle pos (Suc n) =
     (if pos < length haystack then
        if \<not> in_set (haystack ! pos) needle then Inr pos else not_of_loop haystack needle (pos + 1) n
      else Inl OutOfBounds)"

definition StringSearchNotOf :: "'a list \<Rightarrow> nat \<Rightarrow> 'a list \<Rightarrow> nat \<Rightarrow> nat res" where
  "StringSearchNotOf haystack hsize needle start_pos =
     bindE (ensure (hsize \<noteq> 0) (DCheck ''size is null'')) (\<lambda>_.
     bindE (ensure (length needle \<noteq> 0) (DCheck ''needle_size is null'')) (\<lambda>_.
     not_of_loop haystack needle start_pos (hsize - start_pos)))"

text \<open>
  The walk down ends when the pointer drops below the start of the haystack. The next pointer
  below the start is not one C++ lets a program form, but no check stops it; \<open>n\<close> is the
  number of characters at or below the current one.
\<close>

fun last_not_of_loop :: "'a list \<Rightarrow> 'a list \<Rightarrow> nat \<Rightarrow> nat res" where
  "last_not_of_loop haystack needle 0 = Inr kStringNotFoundPos"
| "last_not_of_loop haystack needle (Suc n) =
     (if n < length haystack then
        if \<not> in_set (haystack ! n) needle then Inr n else last_not_of_loop haystack needle n
      else Inl OutOfBounds)"

definition StringSearchLastNotOf :: "'a list \<Rightarrow> nat \<Rightarrow> 'a list \<Rightarrow> nat res" where
  "StringSearchLastNotOf haystack hsize needle = last_not_of_loop haystack needle hsize"

section \<open>Null-terminated strings: what the scans find\<close>

lemma length_scan_terminated:
  "0 \<notin> set cs \<Longrightarrow> n + length cs \<le> limit \<Longrightarrow> length_scan (cs @ 0 # rest) n limit = Inr (n + length cs)"
  by (induction cs arbitrary: n) auto

lemma CountStringLength_terminated [simp]:
  "0 \<notin> set cs \<Longrightarrow> length cs \<le> limit \<Longrightarrow> CountStringLength (cs @ 0 # rest) limit = Inr (length cs)"
  by (simp add: CountStringLength_def length_scan_terminated)

lemma length_scan_limited:
  "0 \<notin> set cs \<Longrightarrow> limit = n + length cs \<Longrightarrow> length_scan (cs @ rest) n limit = Inr limit"
proof (induction cs arbitrary: n)
  case Nil
  then show ?case by (cases rest) auto
qed auto

lemma CountStringLength_limited:
  "0 \<notin> set cs \<Longrightarrow> CountStringLength (cs @ rest) (length cs) = Inr (length cs)"
  by (simp add: CountStringLength_def length_scan_limited)

lemma find_char_terminated:
  "0 \<notin> set cs \<Longrightarrow> find_char (cs @ 0 # rest) c n =
     Inr (if c \<in> set (cs @ [0]) then Some (n + length (takeWhile (\<lambda>x. x \<noteq> c) cs)) else None)"
  by (induction cs arbitrary: n) auto

lemma find_last_char_terminated:
  "0 \<notin> set cs \<Longrightarrow> find_last_char (cs @ 0 # rest) c n found =
     Inr (if c = 0 then Some (n + length cs)
          else if c \<in> set cs then Some (n + length cs - 1 - length (takeWhile (\<lambda>x. x \<noteq> c) (rev cs)))
          else found)"
proof (induction cs arbitrary: n found)
  case (Cons x cs)
  have "length (takeWhile (\<lambda>x. x \<noteq> c) (rev cs)) \<le> length cs"
    using length_takeWhile_le [of _ "rev cs"] by simp
  moreover have "length (takeWhile (\<lambda>x. x \<noteq> c) (rev cs @ [x])) =
      (if c \<in> set cs then length (takeWhile (\<lambda>x. x \<noteq> c) (rev cs)) else length cs + (if x = c then 0 else 1))"
  proof (cases "c \<in> set cs")
    case False
    then have "takeWhile (\<lambda>x. x \<noteq> c) (rev cs @ [x]) = rev cs @ takeWhile (\<lambda>x. x \<noteq> c) [x]"
      by (intro takeWhile_append2) auto
    with False show ?thesis by simp
  qed (simp add: takeWhile_append1)
  ultimately show ?case using Cons by (auto simp: Let_def)
qed (simp add: Let_def)

lemma terminator_scan_terminated:
  "0 \<notin> set cs \<Longrightarrow> terminator_scan (cs @ 0 # rest) s n = Inr (if length cs < n then s + length cs else 0)"
  by (induction cs arbitrary: s n) (case_tac n, auto)+

section \<open>Substring search finds the first occurrence\<close>

definition occurs :: "'a list \<Rightarrow> nat \<Rightarrow> 'a list \<Rightarrow> nat \<Rightarrow> bool" where
  "occurs haystack hsize needle i \<longleftrightarrow>
     i + length needle \<le> hsize \<and> (\<forall>j < length needle. haystack ! (i + j) = needle ! j)"

lemma skip_scan_spec:
  assumes "1 \<le> skip" and "skip \<le> lst + 1"
  shows "skip \<le> skip_scan needle lst skip \<and> skip_scan needle lst skip \<le> lst + 1 \<and>
     (\<forall>j. skip \<le> j \<and> j < skip_scan needle lst skip \<longrightarrow> needle ! (lst - j) \<noteq> needle ! lst)"
  using assms
proof (induction needle lst skip rule: skip_scan.induct)
  case (1 needle lst skip)
  show ?case
  proof (cases "skip \<le> lst \<and> needle ! (lst - skip) \<noteq> needle ! lst")
    case True
    then have "skip_scan needle lst skip = skip_scan needle lst (skip + 1)" by (simp add: skip_scan.simps)
    moreover note "1.IH" [OF True]
    ultimately show ?thesis using True 1(2,3) by (metis Suc_eq_plus1 Suc_leD Suc_le_eq add_le_mono1 le_add2 nat_less_le)
  next
    case False
    then show ?thesis using 1(2,3) by (auto simp: skip_scan.simps)
  qed
qed

lemma match_last_spec:
  assumes "i < iend" and "iend + lst \<le> length haystack"
  shows "\<exists>r. match_last haystack c lst i iend = Inr r \<and>
     (case r of None \<Rightarrow> \<forall>k. i \<le> k \<and> k < iend \<longrightarrow> haystack ! (k + lst) \<noteq> c
      | Some m \<Rightarrow> i \<le> m \<and> m < iend \<and> haystack ! (m + lst) = c \<and>
          (\<forall>k. i \<le> k \<and> k < m \<longrightarrow> haystack ! (k + lst) \<noteq> c))"
  using assms
proof (induction haystack c lst i iend rule: match_last.induct)
  case (1 haystack c lst i iend)
  have in_bounds: "i + lst < length haystack" using 1(2,3) by simp
  consider (found) "haystack ! (i + lst) = c" | (ended) "haystack ! (i + lst) \<noteq> c" "i + 1 = iend"
    | (step) "haystack ! (i + lst) \<noteq> c" "i + 1 \<noteq> iend" by blast
  then show ?case
  proof cases
    case found
    then show ?thesis using in_bounds 1(2) by (auto simp: match_last.simps [of haystack c lst i iend])
  next
    case ended
    then show ?thesis using in_bounds 1(2)
      by (auto simp: match_last.simps [of haystack c lst i iend] less_Suc_eq_le dest: le_antisym)
  next
    case step
    then have eq: "match_last haystack c lst i iend = match_last haystack c lst (i + 1) iend"
      using in_bounds by (simp add: match_last.simps [of haystack c lst i iend])
    obtain r where r: "match_last haystack c lst (i + 1) iend = Inr r"
      and post: "case r of None \<Rightarrow> \<forall>k. i + 1 \<le> k \<and> k < iend \<longrightarrow> haystack ! (k + lst) \<noteq> c
      | Some m \<Rightarrow> i + 1 \<le> m \<and> m < iend \<and> haystack ! (m + lst) = c \<and>
          (\<forall>k. i + 1 \<le> k \<and> k < m \<longrightarrow> haystack ! (k + lst) \<noteq> c)"
      using "1.IH" [OF in_bounds step] 1(2,3) step by force
    have "case r of None \<Rightarrow> \<forall>k. i \<le> k \<and> k < iend \<longrightarrow> haystack ! (k + lst) \<noteq> c
      | Some m \<Rightarrow> i \<le> m \<and> m < iend \<and> haystack ! (m + lst) = c \<and>
          (\<forall>k. i \<le> k \<and> k < m \<longrightarrow> haystack ! (k + lst) \<noteq> c)"
      using post step(1) by (cases r) (auto, (metis Suc_leI le_neq_implies_less)+)
    then show ?thesis using r eq by simp
  qed
qed

lemma match_here_spec:
  assumes "j < length needle" and "i + length needle \<le> length haystack"
  shows "match_here haystack needle i j = Inr (\<forall>k. j \<le> k \<and> k < length needle \<longrightarrow> haystack ! (i + k) = needle ! k)"
  using assms
proof (induction haystack needle i j rule: match_here.induct)
  case (1 haystack needle i j)
  note eq = match_here.simps [of haystack needle i j]
  have in_bounds: "i + j < length haystack" using 1(2,3) by simp
  have split: "(\<forall>k. j \<le> k \<and> k < n \<longrightarrow> P k) \<longleftrightarrow> P j \<and> (\<forall>k. j + 1 \<le> k \<and> k < n \<longrightarrow> P k)" if "j < n" for P n
    using that by (metis Suc_eq_plus1 Suc_le_eq le_refl nat_less_le order.strict_implies_order)
  show ?case
  proof (cases "haystack ! (i + j) = needle ! j")
    case False
    then show ?thesis using eq 1(2,3) in_bounds by auto
  next
    case True
    show ?thesis
    proof (cases "j + 1 = length needle")
      case True
      then show ?thesis using eq \<open>haystack ! (i + j) = needle ! j\<close> 1(2,3) in_bounds
        by (auto simp: less_Suc_eq_le dest!: le_antisym)
    next
      case False
      then show ?thesis
        using eq True "1.IH" [OF 1(2) in_bounds _ False] 1(2,3) in_bounds by (simp add: split)
    qed
  qed
qed

lemma search_loop_spec:
  assumes "needle \<noteq> []" and "hsize \<le> length haystack" and "iend = hsize - (length needle - 1)"
    and "skip = 0 \<or> skip = skip_scan needle (length needle - 1) 1" and "iend \<le> i + fuel"
  shows "\<exists>r. search_loop fuel haystack needle i iend skip = Inr r \<and>
     (r = kStringNotFoundPos \<and> (\<forall>k. i \<le> k \<longrightarrow> \<not> occurs haystack hsize needle k) \<or>
      i \<le> r \<and> occurs haystack hsize needle r \<and> (\<forall>k. i \<le> k \<and> k < r \<longrightarrow> \<not> occurs haystack hsize needle k))"
  using assms(4,5)
proof (induction fuel arbitrary: i skip)
  case 0
  then have "\<not> occurs haystack hsize needle k" if "i \<le> k" for k
    using that assms(1,3) by (cases needle) (auto simp: occurs_def)
  then show ?case using 0 by simp
next
  case (Suc fuel)
  let ?lst = "length needle - 1"
  have out: "\<not> occurs haystack hsize needle k" if "iend \<le> k" for k
    using that assms(1,3) by (cases needle) (auto simp: occurs_def)
  have lastc: "haystack ! (k + ?lst) = needle ! ?lst" if "occurs haystack hsize needle k" for k
    using that assms(1) by (auto simp: occurs_def)
  show ?case
  proof (cases "i < iend")
    case False
    then show ?thesis using out by simp
  next
    case True
    then have bounds: "iend + ?lst \<le> length haystack" "iend + ?lst = hsize" using assms(2,3) by simp_all
    obtain m where m: "match_last haystack (needle ! ?lst) ?lst i iend = Inr m"
      and post: "case m of None \<Rightarrow> \<forall>k. i \<le> k \<and> k < iend \<longrightarrow> haystack ! (k + ?lst) \<noteq> needle ! ?lst
      | Some m \<Rightarrow> i \<le> m \<and> m < iend \<and> haystack ! (m + ?lst) = needle ! ?lst \<and>
          (\<forall>k. i \<le> k \<and> k < m \<longrightarrow> haystack ! (k + ?lst) \<noteq> needle ! ?lst)"
      using match_last_spec [OF True bounds(1)] by blast
    show ?thesis
    proof (cases m)
      case None
      then have "\<not> occurs haystack hsize needle k" if "i \<le> k" for k
        using that post lastc out by (cases "k < iend") auto
      then show ?thesis using m None True by (simp add: Let_def)
    next
      case (Some p)
      then have p: "i \<le> p" "p < iend" "haystack ! (p + ?lst) = needle ! ?lst"
        and apart: "\<forall>k. i \<le> k \<and> k < p \<longrightarrow> haystack ! (k + ?lst) \<noteq> needle ! ?lst"
        using post by simp_all
      have before: "\<not> occurs haystack hsize needle k" if "i \<le> k" "k < p" for k
        using that apart lastc [of k] by blast
      have here: "match_here haystack needle p 0 = Inr (occurs haystack hsize needle p)"
        using match_here_spec [of 0 needle p haystack] assms(1,2) p(2) bounds by (cases needle) (simp_all add: occurs_def)
      show ?thesis
      proof (cases "occurs haystack hsize needle p")
        case True
        then show ?thesis using m Some here before p \<open>i < iend\<close> by (auto simp: Let_def)
      next
        case False
        let ?skip = "skip_scan needle ?lst 1"
        have skip: "1 \<le> ?skip" "\<And>j. 1 \<le> j \<Longrightarrow> j < ?skip \<Longrightarrow> needle ! (?lst - j) \<noteq> needle ! ?lst"
          "?skip \<le> ?lst + 1"
          using skip_scan_spec [of 1 ?lst needle] by auto
        have no: "\<not> occurs haystack hsize needle k" if "i \<le> k" "k < p + ?skip" for k
        proof (cases "k \<le> p")
          case True
          then show ?thesis using before that(1) False by (cases "k = p") auto
        next
          case False
          let ?j = "k - p"
          have j: "1 \<le> ?j" "?j < ?skip" "p + ?lst = k + (?lst - ?j)" "?lst - ?j < length needle"
            using False that skip(3) assms(1) by auto
          show ?thesis
          proof
            assume "occurs haystack hsize needle k"
            then have "haystack ! (k + (?lst - ?j)) = needle ! (?lst - ?j)" using j(4) by (simp add: occurs_def)
            with j(3) p(3) skip(2) [OF j(1,2)] show False by simp
          qed
        qed
        have skip_eq: "skip = 0 \<or> skip = ?skip" using Suc.prems by auto
        obtain r where r: "search_loop fuel haystack needle (p + ?skip) iend ?skip = Inr r"
          "r = kStringNotFoundPos \<and> (\<forall>k. p + ?skip \<le> k \<longrightarrow> \<not> occurs haystack hsize needle k) \<or>
           p + ?skip \<le> r \<and> occurs haystack hsize needle r \<and>
             (\<forall>k. p + ?skip \<le> k \<and> k < r \<longrightarrow> \<not> occurs haystack hsize needle k)"
          using Suc.IH [of ?skip "p + ?skip"] Suc.prems(2) p skip(1) by auto
        have "search_loop (Suc fuel) haystack needle i iend skip = Inr r"
          using skip_eq m Some here False r(1) skip(1) \<open>i < iend\<close> by (elim disjE) (simp_all add: Let_def)
        moreover have "\<not> occurs haystack hsize needle k" if "i \<le> k" "p + ?skip \<le> k \<longrightarrow> \<not> occurs haystack hsize needle k" for k
          using that no by (cases "k < p + ?skip") auto
        ultimately show ?thesis using r(2) p(1) by (metis le_add1 le_trans)
      qed
    qed
  qed
qed

declare search_loop.simps [simp del]

lemma sum_guard:
  assumes "n < 2 ^ 64" and "s < 2 ^ 64" and "hsize < 2 ^ 64"
  shows "((n + s) mod 2 ^ 64 > hsize \<or> (n + s) mod 2 ^ 64 < s) \<longleftrightarrow> hsize < n + (s :: nat)"
proof (cases "n + s < 2 ^ 64")
  case False
  then have "(n + s) mod 2 ^ 64 = n + s - 2 ^ 64" using assms by (simp add: mod_if)
  then show ?thesis using assms False by auto
qed auto

text \<open>
  The substring search returns the first position from \<open>start_pos\<close> on at which the
  needle stands inside the haystack, or the not-found value when there is none; the skipping
  never jumps over an occurrence, never reads past the haystack and always ends, also for
  start positions so large that the length sum wraps around.
\<close>

theorem string_search_first:
  assumes "needle \<noteq> []" and "0 < hsize" and "hsize \<le> length haystack"
    and "hsize < 2 ^ 64" and "length needle < 2 ^ 64" and "start_pos < 2 ^ 64"
  shows "\<exists>r. StringSearch haystack hsize needle start_pos = Inr r \<and>
     (r = kStringNotFoundPos \<and> (\<forall>k. start_pos \<le> k \<longrightarrow> \<not> occurs haystack hsize needle k) \<or>
      r < hsize \<and> start_pos \<le> r \<and> occurs haystack hsize needle r \<and>
        (\<forall>k. start_pos \<le> k \<and> k < r \<longrightarrow> \<not> occurs haystack hsize needle k))"
proof (cases "hsize < length needle + start_pos")
  case True
  then have "StringSearch haystack hsize needle start_pos = Inr kStringNotFoundPos"
    using sum_guard [OF assms(5,6,4)] assms(1,2) by (simp add: StringSearch_def Let_def del: One_nat_def)
  then show ?thesis using True by (auto simp: occurs_def)
next
  case False
  then have "StringSearch haystack hsize needle start_pos
      = search_loop (hsize + 1) haystack needle start_pos (hsize - (length needle - 1)) 0"
    using sum_guard [OF assms(5,6,4)] assms(1,2)
    by (simp add: StringSearch_def Let_def del: One_nat_def)
  moreover have "r < hsize" if "occurs haystack hsize needle r" for r
    using that assms(1) by (cases needle) (auto simp: occurs_def)
  moreover have le: "hsize - (length needle - 1) \<le> start_pos + (hsize + 1)" by simp
  moreover obtain r where
    "search_loop (hsize + 1) haystack needle start_pos (hsize - (length needle - 1)) 0 = Inr r"
    "r = kStringNotFoundPos \<and> (\<forall>k. start_pos \<le> k \<longrightarrow> \<not> occurs haystack hsize needle k) \<or>
      start_pos \<le> r \<and> occurs haystack hsize needle r \<and>
        (\<forall>k. start_pos \<le> k \<and> k < r \<longrightarrow> \<not> occurs haystack hsize needle k)"
    using search_loop_spec [OF assms(1,3) refl disjI1 [OF refl] le] by blast
  ultimately show ?thesis by (intro exI [of _ r]) (simp, blast)
qed

theorem string_search_first_witness:
  "StringSearch [2, 2, 3 :: nat] 3 [2, 3] 0 = Inr 1"
proof -
  let ?occ = "occurs [2, 2, 3 :: nat] 3 [2, 3]"
  have facts: "\<not> ?occ 0" "?occ 1" by (simp_all add: occurs_def All_less_Suc)
  obtain r where r: "StringSearch [2, 2, 3 :: nat] 3 [2, 3] 0 = Inr r"
    and "r = kStringNotFoundPos \<and> (\<forall>k. 0 \<le> k \<longrightarrow> \<not> ?occ k) \<or>
      r < 3 \<and> 0 \<le> r \<and> ?occ r \<and> (\<forall>k. 0 \<le> k \<and> k < r \<longrightarrow> \<not> ?occ k)"
    by (rule exE [OF string_search_first [of "[2, 3 :: nat]" 3 "[2, 2, 3 :: nat]" 0]])
      (simp_all only: list.distinct, simp_all)
  then have "?occ r" "\<not> 1 < r" using facts(2) by auto
  then have "r = 1" using facts(1) by (cases r) auto
  with r show ?thesis by simp
qed

text \<open>
  The null-terminated scans: the length stops at the terminator or at the limit, the
  character searches find the first and the last occurrence and treat a search for the
  terminator as \<open>strchr\<close> does. \<open>FindNullTerminator\<close> reports the terminator's position but
  answers 0 both for a string that is empty and for a range with no terminator in it.
\<close>

theorem c_string_scans:
  fixes cs :: "'a::zero list"
  assumes "0 \<notin> set cs"
  shows "CountStringLength (cs @ 0 # rest) limit = Inr (min (length cs) limit) \<and>
     FindChar (cs @ 0 # rest) c
       = Inr (if c \<in> set (cs @ [0]) then Some (length (takeWhile (\<lambda>x. x \<noteq> c) cs)) else None) \<and>
     FindLastChar (cs @ 0 # rest) c
       = Inr (if c = 0 then Some (length cs)
              else if c \<in> set cs then Some (length cs - 1 - length (takeWhile (\<lambda>x. x \<noteq> c) (rev cs)))
              else None) \<and>
     FindNullTerminator (cs @ 0 # rest) n = Inr (if length cs < n then length cs else 0)"
proof (intro conjI)
  have sub: "0 \<notin> set (take limit cs)" using assms by (meson in_set_takeD)
  show "CountStringLength (cs @ 0 # rest) limit = Inr (min (length cs) limit)"
  proof (cases "length cs \<le> limit")
    case False
    then have "cs @ 0 # rest = take limit cs @ (drop limit cs @ 0 # rest)" by simp
    then show ?thesis
      using CountStringLength_limited [OF sub, of "drop limit cs @ 0 # rest"] False
      by (simp only: append_take_drop_id length_take min_def) auto
  qed (use assms in simp)
qed (simp_all add: assms FindChar_def FindLastChar_def FindNullTerminator_def find_char_terminated
    find_last_char_terminated terminator_scan_terminated)

theorem c_string_scans_witness:
  "CountStringLength [1, 2, 1, 0, 5 :: int] 9 = Inr 3 \<and> FindChar [1, 2, 1, 0, 5 :: int] 1 = Inr (Some 0) \<and>
     FindLastChar [1, 2, 1, 0, 5 :: int] 1 = Inr (Some 2) \<and> FindNullTerminator [1, 2, 1, 0, 5 :: int] 3 = Inr 0"
  using c_string_scans [of "[1, 2, 1 :: int]" "[5]" 9 1 3] by simp

end
