(* ===== verification/Base_String.thy ===== *)
theory Base_String
  imports Char_Algorithms Sequence_Spec
begin

unbundle bit_operations_syntax

text \<open>
  \<open>strings/base_string.h\<close>: the string class with inline storage, for \<open>char\<close> and a 64-bit
  \<open>size_type\<close> (\<open>base::String\<close>). The object is the 24 bytes of the union, of which the
  layout of a heap string (pointer, size, capacity) and that of an inline string (23 characters
  and the flag byte) are two readings: the flag byte is the last byte of either, and so the
  high byte of \<open>capacity_\<close>. A byte is undefined, a byte of the address of the string's own
  heap block, or a value; the block itself is kept beside the bytes. Reading an undefined byte
  as a number or a character, reading through a pointer that is not there, leaving a block
  behind and giving one back with the wrong size are faults.
\<close>

section \<open>Bytes\<close>

datatype mbyte = Undef | PtrByte nat | is_Byte: Byte (byte_val: u8)

record bstr =
  raw :: "mbyte list"
  heap :: "mbyte list option"

fun le_bytes :: "nat \<Rightarrow> nat \<Rightarrow> mbyte list" where
  "le_bytes 0 n = []"
| "le_bytes (Suc k) n = Byte (word_of_nat (n mod 256)) # le_bytes k (n div 256)"

fun le_value :: "mbyte list \<Rightarrow> nat res" where
  "le_value [] = Inr 0"
| "le_value (Byte w # bs) = bindE (le_value bs) (\<lambda>v. Inr (unat w + 256 * v))"
| "le_value (_ # bs) = Inl Lifetime"

definition overwrite :: "'a list \<Rightarrow> nat \<Rightarrow> 'a list \<Rightarrow> 'a list" where
  "overwrite b off bs = take off b @ bs @ drop (off + length bs) b"

definition write_block :: "mbyte list \<Rightarrow> nat \<Rightarrow> mbyte list \<Rightarrow> mbyte list res" where
  "write_block b off bs = (if off + length bs \<le> length b then Inr (overwrite b off bs) else Inl OutOfBounds)"

definition defined_chars :: "mbyte list \<Rightarrow> u8 list res" where
  "defined_chars bs = (if list_all is_Byte bs then Inr (map byte_val bs) else Inl Lifetime)"

section \<open>Layout\<close>

definition npos :: nat where
  "npos = 2 ^ 64 - 1"

definition kLargeFlag :: u8 where
  "kLargeFlag = 0x80"

definition sizeof_LargeLayout :: nat where
  "sizeof_LargeLayout = 8 + 8 + 8"

definition kSmallCapacity :: nat where
  "kSmallCapacity = (sizeof_LargeLayout - 1) div 1 - 1"

definition kSmallTailBytes :: nat where
  "kSmallTailBytes = sizeof_LargeLayout - (kSmallCapacity + 1) * 1"

text \<open>The offset of \<open>small_.tail_[kSmallTailBytes - 1]\<close> in the union.\<close>

definition flag_offset :: nat where
  "flag_offset = kSmallCapacity + 1 + (kSmallTailBytes - 1)"

definition flag_byte :: "bstr \<Rightarrow> u8 res" where
  "flag_byte s = (case raw s ! flag_offset of Byte w \<Rightarrow> Inr w | _ \<Rightarrow> Inl Lifetime)"

definition put_flag :: "bstr \<Rightarrow> u8 \<Rightarrow> bstr" where
  "put_flag s f = s\<lparr>raw := (raw s)[flag_offset := Byte f]\<rparr>"

definition is_large :: "bstr \<Rightarrow> bool res" where
  "is_large s = bindE (flag_byte s) (\<lambda>f. Inr (f AND kLargeFlag \<noteq> 0))"

text \<open>The three fields of \<open>large_\<close>.\<close>

definition ptr_bytes :: "mbyte list" where
  "ptr_bytes = map PtrByte [0..<8]"

definition large_data :: "bstr \<Rightarrow> mbyte list res" where
  "large_data s =
     (if take 8 (raw s) = ptr_bytes then case heap s of Some b \<Rightarrow> Inr b | None \<Rightarrow> Inl Lifetime
      else Inl Lifetime)"

definition large_size :: "bstr \<Rightarrow> nat res" where
  "large_size s = le_value (take 8 (drop 8 (raw s)))"

definition large_capacity :: "bstr \<Rightarrow> nat res" where
  "large_capacity s = le_value (take 8 (drop 16 (raw s)))"

definition put_large :: "bstr \<Rightarrow> mbyte list \<Rightarrow> nat \<Rightarrow> nat \<Rightarrow> bstr res" where
  "put_large s new_data n cap =
     bindE (ensure (heap s = None) Leak) (\<lambda>_.
     Inr \<lparr>raw = ptr_bytes @ le_bytes 8 n @ le_bytes 8 cap, heap = Some new_data\<rparr>)"

definition get_size :: "bstr \<Rightarrow> nat res" where
  "get_size s =
     bindE (is_large s) (\<lambda>large.
     if large then large_size s else bindE (flag_byte s) (\<lambda>f. Inr (unat (f AND NOT kLargeFlag))))"

text \<open>\<open>get_data\<close> stands for the buffer it points to; \<open>put_data\<close> is what a store through it
  leaves.\<close>

definition get_data :: "bstr \<Rightarrow> mbyte list res" where
  "get_data s =
     bindE (is_large s) (\<lambda>large. if large then large_data s else Inr (take (kSmallCapacity + 1) (raw s)))"

definition put_data :: "bstr \<Rightarrow> mbyte list \<Rightarrow> bstr res" where
  "put_data s b =
     bindE (is_large s) (\<lambda>large.
     Inr (if large then s\<lparr>heap := Some b\<rparr> else s\<lparr>raw := b @ drop (kSmallCapacity + 1) (raw s)\<rparr>))"

definition kCapacityFlagBit :: u64 where
  "kCapacityFlagBit = push_bit ((8 - 1) * 8) (ucast kLargeFlag)"

definition get_capacity :: "bstr \<Rightarrow> nat res" where
  "get_capacity s =
     bindE (is_large s) (\<lambda>large.
     if \<not> large then Inr kSmallCapacity
     else bindE (large_capacity s) (\<lambda>c. Inr (unat (word_of_nat c AND NOT kCapacityFlagBit))))"

definition set_size :: "bstr \<Rightarrow> nat \<Rightarrow> bstr res" where
  "set_size s new_size =
     bindE (is_large s) (\<lambda>large.
     Inr (if large then s\<lparr>raw := overwrite (raw s) 8 (le_bytes 8 new_size)\<rparr>
          else put_flag s (word_of_nat new_size AND NOT kLargeFlag)))"

definition peek :: "bstr \<Rightarrow> nat \<Rightarrow> nat \<Rightarrow> mbyte list res" where
  "peek s off n =
     bindE (get_data s) (\<lambda>b. if off + n \<le> length b then Inr (take n (drop off b)) else Inl OutOfBounds)"

definition poke :: "bstr \<Rightarrow> nat \<Rightarrow> mbyte list \<Rightarrow> bstr res" where
  "poke s off bs =
     bindE (get_data s) (\<lambda>b. bindE (write_block b off bs) (\<lambda>b. put_data s b))"

definition load :: "bstr \<Rightarrow> nat \<Rightarrow> nat \<Rightarrow> u8 list res" where
  "load s off n = bindE (peek s off n) defined_chars"

definition ensure_null_terminated :: "bstr \<Rightarrow> bstr res" where
  "ensure_null_terminated s = bindE (get_size s) (\<lambda>n. poke s n [Byte 0])"

definition init_empty :: "bstr \<Rightarrow> bstr" where
  "init_empty s =
     (let s = s\<lparr>raw := overwrite (raw s) 8 (le_bytes 8 0)\<rparr>; s = put_flag s 0
      in s\<lparr>raw := (raw s)[0 := Byte 0]\<rparr>)"

section \<open>Capacity and allocation\<close>

definition kCapacityFieldMax :: nat where
  "kCapacityFieldMax = unat ((- 1 :: u64) AND NOT kCapacityFlagBit)"

definition kBufferBytesMax :: nat where
  "kBufferBytesMax = min (2 ^ 64 - 1) (2 ^ 63 - 1)"

definition kCharCountMax :: nat where
  "kCharCountMax = kBufferBytesMax div 1 - 1"

definition kMaxCapacity :: nat where
  "kMaxCapacity = (if kCapacityFieldMax < kCharCountMax then kCapacityFieldMax else kCharCountMax)"

definition buffer_byte_size :: "nat \<Rightarrow> nat" where
  "buffer_byte_size cap = (cap + 1) mod 2 ^ 64 * 1"

text \<open>The allocator of the template is the parameter \<open>ok\<close>: whether a request of so many
  bytes is granted.\<close>

definition allocate_buffer :: "(nat \<Rightarrow> bool) \<Rightarrow> nat \<Rightarrow> mbyte list res" where
  "allocate_buffer ok cap =
     bindE (ensure (cap \<le> kMaxCapacity) (FatalCheck ''BasicBaseString: capacity exceeds max_size()'')) (\<lambda>_.
     bindE (ensure (ok (buffer_byte_size cap)) (FatalCheck ''BasicBaseString: allocation failed'')) (\<lambda>_.
     Inr (replicate (buffer_byte_size cap) Undef)))"

definition checked_length_sum :: "nat \<Rightarrow> nat \<Rightarrow> nat res" where
  "checked_length_sum a b =
     bindE (ensure (a \<le> (2 ^ 64 - 1) - b) (FatalCheck ''BasicBaseString: length sum overflows'')) (\<lambda>_.
     Inr (a + b))"

definition grow_capacity :: "nat \<Rightarrow> nat" where
  "grow_capacity required =
     (if required \<ge> kMaxCapacity then required
      else let headroom = kMaxCapacity - required; extra = required div 2
           in required + (if extra < headroom then extra else headroom))"

definition deallocate_large :: "bstr \<Rightarrow> bstr res" where
  "deallocate_large s =
     bindE (is_large s) (\<lambda>large.
     if large then
       bindE (large_data s) (\<lambda>b.
       bindE (get_capacity s) (\<lambda>cap.
       bindE (ensure (length b = buffer_byte_size cap) BadFree) (\<lambda>_. Inr (s\<lparr>heap := None\<rparr>))))
     else Inr s)"

text \<open>The step every reallocation ends with: the old block goes back, the fields name the new
  one, and the flag is put over the high byte of the capacity.\<close>

definition adopt_buffer :: "bstr \<Rightarrow> mbyte list \<Rightarrow> nat \<Rightarrow> nat \<Rightarrow> bstr res" where
  "adopt_buffer s new_data n cap =
     bindE (deallocate_large s) (\<lambda>s.
     bindE (put_large s new_data n cap) (\<lambda>s.
     bindE (flag_byte s) (\<lambda>f. Inr (put_flag s (f OR kLargeFlag)))))"

definition realloc_to :: "(nat \<Rightarrow> bool) \<Rightarrow> bstr \<Rightarrow> nat \<Rightarrow> bstr res" where
  "realloc_to ok s target_capacity =
     bindE (get_size s) (\<lambda>cur_size.
     bindE (ensure (target_capacity \<ge> cur_size) (BugCheck ''realloc_to would lose data'')) (\<lambda>_.
     bindE (allocate_buffer ok target_capacity) (\<lambda>new_data.
     bindE (if cur_size > 0 then bindE (peek s 0 cur_size) (write_block new_data 0) else Inr new_data) (\<lambda>new_data.
     bindE (write_block new_data cur_size [Byte 0]) (\<lambda>new_data.
     adopt_buffer s new_data cur_size target_capacity)))))"

definition grow_to_at_least :: "(nat \<Rightarrow> bool) \<Rightarrow> bstr \<Rightarrow> nat \<Rightarrow> bstr res" where
  "grow_to_at_least ok s min_capacity =
     bindE (get_capacity s) (\<lambda>cap.
     if min_capacity > cap then realloc_to ok s (grow_capacity min_capacity) else Inr s)"

section \<open>Arguments\<close>

text \<open>
  A \<open>const char*\<close> argument is null, names characters of the caller, or points into the
  string's own buffer; in the last case what it reads is what the buffer holds by then.
\<close>

datatype cptr = Null | Ext "u8 list" | Own nat

definition read_ptr :: "bstr \<Rightarrow> cptr \<Rightarrow> nat \<Rightarrow> mbyte list res" where
  "read_ptr s p n =
     (case p of Null \<Rightarrow> Inl OutOfBounds
      | Ext cs \<Rightarrow> if n \<le> length cs then Inr (map Byte (take n cs)) else Inl OutOfBounds
      | Own off \<Rightarrow> peek s off n)"

definition ptr_chars :: "bstr \<Rightarrow> cptr \<Rightarrow> u8 list res" where
  "ptr_chars s p =
     (case p of Null \<Rightarrow> Inl OutOfBounds
      | Ext cs \<Rightarrow> Inr cs
      | Own off \<Rightarrow> bindE (get_data s) (\<lambda>b. Inr (map byte_val (takeWhile is_Byte (drop off b)))))"

definition ptr_length :: "bstr \<Rightarrow> cptr \<Rightarrow> nat res" where
  "ptr_length s p = bindE (ptr_chars s p) (\<lambda>cs. CountStringLength cs npos)"

text \<open>The characters of another string object.\<close>

definition other_chars :: "bstr \<Rightarrow> u8 list res" where
  "other_chars s = bindE (get_size s) (load s 0)"

section \<open>Construction and assignment\<close>

definition fresh :: bstr where
  "fresh = \<lparr>raw = replicate sizeof_LargeLayout Undef, heap = None\<rparr>"

definition Str_new :: bstr where
  "Str_new = init_empty fresh"

definition Str_clear :: "bstr \<Rightarrow> bstr res" where
  "Str_clear s = bindE (deallocate_large s) (\<lambda>s. Inr (init_empty s))"

definition Str_assign :: "(nat \<Rightarrow> bool) \<Rightarrow> bstr \<Rightarrow> cptr \<Rightarrow> nat \<Rightarrow> bstr res" where
  "Str_assign ok s str len =
     (if str = Null \<or> len = 0 then Str_clear s
      else
        bindE (get_capacity s) (\<lambda>cap.
        if len > cap then
          bindE (allocate_buffer ok len) (\<lambda>new_data.
          bindE (read_ptr s str len) (\<lambda>src.
          bindE (write_block new_data 0 src) (\<lambda>new_data.
          bindE (write_block new_data len [Byte 0]) (\<lambda>new_data.
          adopt_buffer s new_data len len))))
        else
          bindE (read_ptr s str len) (\<lambda>src.
          bindE (poke s 0 src) (\<lambda>s.
          bindE (set_size s len) ensure_null_terminated))))"

definition Str_assign_cstr :: "(nat \<Rightarrow> bool) \<Rightarrow> bstr \<Rightarrow> cptr \<Rightarrow> bstr res" where
  "Str_assign_cstr ok s str = bindE (ptr_length s str) (Str_assign ok s str)"

definition Str_assign_str :: "(nat \<Rightarrow> bool) \<Rightarrow> bstr \<Rightarrow> bstr \<Rightarrow> bstr res" where
  "Str_assign_str ok s other =
     bindE (other_chars other) (\<lambda>cs. Str_assign ok s (Ext cs) (length cs))"

definition Str_of_cstr :: "(nat \<Rightarrow> bool) \<Rightarrow> cptr \<Rightarrow> bstr res" where
  "Str_of_cstr ok str = (if str \<noteq> Null then Str_assign_cstr ok Str_new str else Inr Str_new)"

definition Str_of_chars :: "(nat \<Rightarrow> bool) \<Rightarrow> cptr \<Rightarrow> nat \<Rightarrow> bstr res" where
  "Str_of_chars ok str len = Str_assign ok Str_new str len"

definition Str_of_array :: "(nat \<Rightarrow> bool) \<Rightarrow> u8 list \<Rightarrow> bstr res" where
  "Str_of_array ok arr =
     bindE (CountStringLength arr (if length arr > 0 then length arr - 1 else 0)) (\<lambda>n.
     Str_assign ok Str_new (Ext arr) n)"

definition Str_fill :: "(nat \<Rightarrow> bool) \<Rightarrow> nat \<Rightarrow> u8 \<Rightarrow> bstr res" where
  "Str_fill ok cnt c =
     (if cnt > 0 then
        bindE (grow_to_at_least ok Str_new cnt) (\<lambda>s.
        bindE (poke s 0 (replicate cnt (Byte c))) (\<lambda>s.
        bindE (set_size s cnt) ensure_null_terminated))
      else Inr Str_new)"

definition Str_copy :: "(nat \<Rightarrow> bool) \<Rightarrow> bstr \<Rightarrow> bstr res" where
  "Str_copy ok other =
     bindE (is_large other) (\<lambda>large.
     if large then
       bindE (large_data other) (\<lambda>b.
       bindE (large_size other) (\<lambda>n.
       bindE (if n \<le> length b then defined_chars (take n b) else Inl OutOfBounds) (\<lambda>cs.
       Str_assign ok Str_new (Ext cs) n)))
     else Inr \<lparr>raw = raw other, heap = None\<rparr>)"

text \<open>Moving takes over all 24 bytes, and with them the block; the results are the new
  string and what is left of the other one.\<close>

definition Str_move :: "bstr \<Rightarrow> bstr \<times> bstr" where
  "Str_move other = (other, init_empty (other\<lparr>heap := None\<rparr>))"

definition Str_destroy :: "bstr \<Rightarrow> bstr res" where
  "Str_destroy s = deallocate_large s"

text \<open>In the two assignment operators \<open>None\<close> is the string itself.\<close>

definition Str_copy_assign :: "(nat \<Rightarrow> bool) \<Rightarrow> bstr \<Rightarrow> bstr option \<Rightarrow> bstr res" where
  "Str_copy_assign ok s other = (case other of None \<Rightarrow> Inr s | Some other \<Rightarrow> Str_assign_str ok s other)"

definition Str_move_assign :: "bstr \<Rightarrow> bstr option \<Rightarrow> (bstr \<times> bstr option) res" where
  "Str_move_assign s other =
     (case other of None \<Rightarrow> Inr (s, None)
      | Some other \<Rightarrow> bindE (deallocate_large s) (\<lambda>_.
                      Inr (other, Some (init_empty (other\<lparr>heap := None\<rparr>)))))"

section \<open>Access, size and capacity\<close>

definition char_at :: "bstr \<Rightarrow> nat \<Rightarrow> u8 res" where
  "char_at s i = bindE (load s i 1) (\<lambda>cs. Inr (hd cs))"

definition Str_empty :: "bstr \<Rightarrow> bool res" where
  "Str_empty s = bindE (get_size s) (\<lambda>n. Inr (n = 0))"

definition Str_front :: "bstr \<Rightarrow> u8 res" where
  "Str_front s =
     bindE (Str_empty s) (\<lambda>e.
     bindE (ensure (\<not> e) (BugCheck ''Cannot access .front() of an empty string'')) (\<lambda>_. char_at s 0))"

definition Str_back :: "bstr \<Rightarrow> u8 res" where
  "Str_back s =
     bindE (Str_empty s) (\<lambda>e.
     bindE (ensure (\<not> e) (BugCheck ''Cannot access .back() of an empty string'')) (\<lambda>_.
     bindE (get_size s) (\<lambda>n. char_at s (n - 1))))"

definition Str_index :: "bstr \<Rightarrow> nat \<Rightarrow> u8 res" where
  "Str_index s i =
     bindE (get_size s) (\<lambda>n.
     bindE (ensure (i < n) (BugCheck ''Index out of bounds'')) (\<lambda>_. char_at s i))"

definition Str_at :: "bstr \<Rightarrow> nat \<Rightarrow> u8 res" where
  "Str_at s pos =
     bindE (get_size s) (\<lambda>n.
     bindE (ensure (pos < n) (BugCheck ''Position out of bounds'')) (\<lambda>_. char_at s pos))"

text \<open>A store through the reference that the non-const \<open>operator[]\<close> returns.\<close>

definition Str_index_store :: "bstr \<Rightarrow> nat \<Rightarrow> u8 \<Rightarrow> bstr res" where
  "Str_index_store s i c =
     bindE (get_size s) (\<lambda>n.
     bindE (ensure (i < n) (BugCheck ''Index out of bounds'')) (\<lambda>_. poke s i [Byte c]))"

definition Str_is_inline :: "bstr \<Rightarrow> bool res" where
  "Str_is_inline s = bindE (is_large s) (\<lambda>large. Inr (\<not> large))"

definition Str_max_size :: nat where
  "Str_max_size = kMaxCapacity"

definition Str_reserve :: "(nat \<Rightarrow> bool) \<Rightarrow> bstr \<Rightarrow> nat \<Rightarrow> bstr res" where
  "Str_reserve ok s new_capacity =
     bindE (get_capacity s) (\<lambda>cap. if new_capacity > cap then realloc_to ok s new_capacity else Inr s)"

definition Str_resize :: "(nat \<Rightarrow> bool) \<Rightarrow> bstr \<Rightarrow> nat \<Rightarrow> bstr res" where
  "Str_resize ok s new_size =
     bindE (get_size s) (\<lambda>old_size.
     bindE (if new_size > old_size then
              bindE (grow_to_at_least ok s new_size) (\<lambda>s.
              poke s old_size (replicate (new_size - old_size) (Byte 0)))
            else Inr s) (\<lambda>s.
     bindE (set_size s new_size) ensure_null_terminated))"

definition Str_shrink_to_fit :: "(nat \<Rightarrow> bool) \<Rightarrow> bstr \<Rightarrow> bstr res" where
  "Str_shrink_to_fit ok s =
     bindE (is_large s) (\<lambda>large.
     bindE (get_size s) (\<lambda>current_size.
     bindE (get_capacity s) (\<lambda>cap.
     if \<not> large \<or> current_size = cap then Inr s
     else if current_size \<le> kSmallCapacity then
       bindE (large_data s) (\<lambda>old_data.
       bindE (if current_size > 0 then peek s 0 current_size else Inr []) (\<lambda>buf.
       let s = init_empty (s\<lparr>heap := None\<rparr>);
           s = s\<lparr>raw := overwrite (raw s) 0 buf\<rparr>;
           s = put_flag s (word_of_nat current_size AND NOT kLargeFlag)
       in bindE (ensure_null_terminated s) (\<lambda>s.
          bindE (ensure (length old_data = buffer_byte_size cap) BadFree) (\<lambda>_. Inr s))))
     else
       bindE (allocate_buffer ok current_size) (\<lambda>new_data.
       bindE (large_data s) (\<lambda>old_data.
       bindE (if current_size \<le> length old_data then write_block new_data 0 (take current_size old_data)
              else Inl OutOfBounds) (\<lambda>new_data.
       bindE (write_block new_data current_size [Byte 0]) (\<lambda>new_data.
       adopt_buffer s new_data current_size current_size)))))))"

section \<open>Modification\<close>

text \<open>The copy of \<open>append\<close> into spare room is a \<open>memcpy\<close>, whose two ranges may not overlap.\<close>

definition disjoint_src :: "cptr \<Rightarrow> nat \<Rightarrow> nat \<Rightarrow> bool" where
  "disjoint_src p dest n = (case p of Own off \<Rightarrow> off + n \<le> dest \<or> dest + n \<le> off | _ \<Rightarrow> True)"

definition Str_append :: "(nat \<Rightarrow> bool) \<Rightarrow> bstr \<Rightarrow> cptr \<Rightarrow> nat \<Rightarrow> bstr res" where
  "Str_append ok s str cnt =
     (if cnt = 0 then Inr s
      else
        bindE (get_size s) (\<lambda>old_size.
        bindE (checked_length_sum old_size cnt) (\<lambda>new_size.
        bindE (get_capacity s) (\<lambda>cap.
        if new_size > cap then
          (let new_capacity = grow_capacity new_size in
           bindE (allocate_buffer ok new_capacity) (\<lambda>new_data.
           bindE (if old_size > 0 then bindE (peek s 0 old_size) (write_block new_data 0) else Inr new_data) (\<lambda>new_data.
           bindE (read_ptr s str cnt) (\<lambda>src.
           bindE (write_block new_data old_size src) (\<lambda>new_data.
           bindE (write_block new_data new_size [Byte 0]) (\<lambda>new_data.
           adopt_buffer s new_data new_size new_capacity))))))
        else
          bindE (ensure (disjoint_src str old_size cnt) Lifetime) (\<lambda>_.
          bindE (read_ptr s str cnt) (\<lambda>src.
          bindE (poke s old_size src) (\<lambda>s.
          bindE (set_size s new_size) ensure_null_terminated)))))))"

definition Str_append_cstr :: "(nat \<Rightarrow> bool) \<Rightarrow> bstr \<Rightarrow> cptr \<Rightarrow> bstr res" where
  "Str_append_cstr ok s str = bindE (ptr_length s str) (Str_append ok s str)"

text \<open>\<open>append(const BasicBaseString&)\<close>; again \<open>None\<close> is the string itself.\<close>

definition Str_append_str :: "(nat \<Rightarrow> bool) \<Rightarrow> bstr \<Rightarrow> bstr option \<Rightarrow> bstr res" where
  "Str_append_str ok s other =
     (case other of
        None \<Rightarrow> bindE (get_size s) (Str_append ok s (Own 0))
      | Some other \<Rightarrow> bindE (other_chars other) (\<lambda>cs. Str_append ok s (Ext cs) (length cs)))"

definition Str_append_fill :: "(nat \<Rightarrow> bool) \<Rightarrow> bstr \<Rightarrow> nat \<Rightarrow> u8 \<Rightarrow> bstr res" where
  "Str_append_fill ok s cnt c =
     (if cnt = 0 then Inr s
      else
        bindE (get_size s) (\<lambda>old_size.
        bindE (checked_length_sum old_size cnt) (\<lambda>new_size.
        bindE (grow_to_at_least ok s new_size) (\<lambda>s.
        bindE (poke s old_size (replicate cnt (Byte c))) (\<lambda>s.
        bindE (set_size s new_size) ensure_null_terminated)))))"

definition Str_pop_back :: "bstr \<Rightarrow> bstr res" where
  "Str_pop_back s =
     bindE (Str_empty s) (\<lambda>e.
     bindE (ensure (\<not> e) (DCheck ''Cannot pop_back an empty string'')) (\<lambda>_.
     bindE (get_size s) (\<lambda>n. bindE (set_size s (n - 1)) ensure_null_terminated)))"

definition Str_push_back :: "(nat \<Rightarrow> bool) \<Rightarrow> bstr \<Rightarrow> u8 \<Rightarrow> bstr res" where
  "Str_push_back ok s c =
     bindE (get_size s) (\<lambda>old_size.
     bindE (checked_length_sum old_size 1) (\<lambda>new_size.
     bindE (get_capacity s) (\<lambda>cap.
     bindE (if old_size = cap then grow_to_at_least ok s new_size else Inr s) (\<lambda>s.
     bindE (poke s old_size [Byte c]) (\<lambda>s.
     bindE (set_size s new_size) ensure_null_terminated)))))"

definition Str_insert :: "(nat \<Rightarrow> bool) \<Rightarrow> bstr \<Rightarrow> nat \<Rightarrow> nat \<Rightarrow> u8 \<Rightarrow> bstr res" where
  "Str_insert ok s pos cnt c =
     bindE (get_size s) (\<lambda>old_size.
     bindE (ensure (pos \<le> old_size) (BugCheck ''Invalid position'')) (\<lambda>_.
     if cnt = 0 then Inr s
     else
       bindE (checked_length_sum old_size cnt) (\<lambda>new_size.
       bindE (grow_to_at_least ok s new_size) (\<lambda>s.
       bindE (peek s pos (old_size - pos)) (\<lambda>tail.
       bindE (poke s (pos + cnt) tail) (\<lambda>s.
       bindE (poke s pos (replicate cnt (Byte c))) (\<lambda>s.
       bindE (set_size s new_size) ensure_null_terminated)))))))"

definition Str_erase :: "bstr \<Rightarrow> nat \<Rightarrow> nat \<Rightarrow> bstr res" where
  "Str_erase s pos cnt =
     bindE (get_size s) (\<lambda>current_size.
     bindE (ensure (pos \<le> current_size) (BugCheck ''Invalid position'')) (\<lambda>_.
     let cnt = min cnt (current_size - pos) in
     if cnt = 0 then Inr s
     else
       bindE (peek s (pos + cnt) (current_size - pos - cnt)) (\<lambda>tail.
       bindE (poke s pos tail) (\<lambda>s.
       bindE (set_size s (current_size - cnt)) ensure_null_terminated))))"

text \<open>The two pointer overloads; the pointers are offsets into the string's own buffer.\<close>

definition Str_erase_at :: "bstr \<Rightarrow> nat \<Rightarrow> bstr res" where
  "Str_erase_at s pos =
     bindE (get_size s) (\<lambda>n.
     bindE (ensure (pos < n) (BugCheck ''Pointer out of bounds'')) (\<lambda>_. Str_erase s pos 1))"

definition Str_erase_range :: "bstr \<Rightarrow> nat \<Rightarrow> nat \<Rightarrow> bstr res" where
  "Str_erase_range s start lst =
     bindE (ensure (start < lst) (BugCheck ''Invalid range'')) (\<lambda>_.
     bindE (get_size s) (\<lambda>n.
     bindE (ensure (start < n) (BugCheck ''Pointer out of bounds'')) (\<lambda>_. Str_erase s start (lst - start))))"

definition Str_remove_suffix :: "bstr \<Rightarrow> nat \<Rightarrow> bstr res" where
  "Str_remove_suffix s n =
     bindE (get_size s) (\<lambda>current_size.
     bindE (ensure (n \<le> current_size) (BugCheck ''Invalid count'')) (\<lambda>_.
     bindE (set_size s (current_size - n)) ensure_null_terminated))"

definition Str_substr :: "(nat \<Rightarrow> bool) \<Rightarrow> bstr \<Rightarrow> nat \<Rightarrow> nat \<Rightarrow> bstr res" where
  "Str_substr ok s pos cnt =
     bindE (get_size s) (\<lambda>current_size.
     bindE (ensure (pos \<le> current_size) (BugCheck ''Invalid position'')) (\<lambda>_.
     let cnt = min cnt (current_size - pos) in
     bindE (load s pos cnt) (\<lambda>cs. Str_of_chars ok (Ext cs) cnt)))"

text \<open>Concatenation.\<close>

definition Str_plus :: "(nat \<Rightarrow> bool) \<Rightarrow> bstr \<Rightarrow> bstr \<Rightarrow> bstr res" where
  "Str_plus ok lhs rhs =
     bindE (get_size lhs) (\<lambda>n.
     bindE (get_size rhs) (\<lambda>m.
     bindE (Str_reserve ok Str_new ((n + m) mod 2 ^ 64)) (\<lambda>result.
     bindE (Str_append_str ok result (Some lhs)) (\<lambda>result.
     Str_append_str ok result (Some rhs)))))"

definition Str_plus_cstr :: "(nat \<Rightarrow> bool) \<Rightarrow> bstr \<Rightarrow> cptr \<Rightarrow> bstr res" where
  "Str_plus_cstr ok lhs rhs = bindE (Str_copy ok lhs) (\<lambda>result. Str_append_cstr ok result rhs)"

definition cstr_plus_Str :: "(nat \<Rightarrow> bool) \<Rightarrow> cptr \<Rightarrow> bstr \<Rightarrow> bstr res" where
  "cstr_plus_Str ok lhs rhs = bindE (Str_of_cstr ok lhs) (\<lambda>result. Str_append_str ok result (Some rhs))"

section \<open>The two layouts as states\<close>

lemma le_bytes_add_mult: "le_bytes k (n + 256 ^ k * m) = le_bytes k n"
proof (induction k arbitrary: n)
  case (Suc k)
  have "(n + 256 * (256 ^ k * m)) div 256 = n div 256 + 256 ^ k * m" by simp
  then show ?case using Suc [of "n div 256"] by (simp add: mult.assoc add.commute)
qed simp

lemma le_bytes_snoc: "le_bytes (Suc k) n = le_bytes k n @ [Byte (word_of_nat (n div 256 ^ k mod 256))]"
proof (induction k arbitrary: n)
  case (Suc k)
  then show ?case by (simp add: div_mult2_eq)
qed simp

lemma length_le_bytes [simp]: "length (le_bytes k n) = k"
  by (induction k arbitrary: n) simp_all

lemma le_value_le_bytes: "le_value (le_bytes k n) = Inr (n mod 256 ^ k)"
proof (induction k arbitrary: n)
  case (Suc k)
  have "n mod 256 + 256 * (n div 256 mod 256 ^ k) = n mod (256 * 256 ^ k)"
    by (simp add: mod_mult2_eq)
  then show ?case using Suc by (simp add: unat_of_nat)
qed simp

lemma le_value_u64 [simp]: "n < 2 ^ 64 \<Longrightarrow> le_value (le_bytes 8 n) = Inr n"
  by (simp add: le_value_le_bytes)

lemma kSmallCapacity_eq [simp]: "kSmallCapacity = 22"
  by (simp add: kSmallCapacity_def sizeof_LargeLayout_def)

lemma flag_offset_eq [simp]: "flag_offset = 23"
  by (simp add: flag_offset_def kSmallTailBytes_def sizeof_LargeLayout_def)

lemma kCapacityFlagBit_eq: "kCapacityFlagBit = 2 ^ 63"
  by (simp add: kCapacityFlagBit_def kLargeFlag_def)

lemma and_not_top: "(w :: u64) AND NOT kCapacityFlagBit = take_bit 63 w"
proof (rule bit_word_eqI)
  fix n assume n: "n < LENGTH(64)"
  have "bit kCapacityFlagBit n \<longleftrightarrow> n = 63" by (simp only: kCapacityFlagBit_eq bit_exp_iff) auto
  then show "bit (w AND NOT kCapacityFlagBit) n = bit (take_bit 63 w) n"
    using n by (auto simp: bit_and_iff bit_not_iff bit_take_bit_iff)
qed

lemma kMaxCapacity_eq: "kMaxCapacity = 2 ^ 63 - 2"
  by (simp add: kMaxCapacity_def kCapacityFieldMax_def kCharCountMax_def kBufferBytesMax_def and_not_top
      take_bit_minus_one_eq_mask mask_eq_exp_minus_1)

lemma bit7_iff: "bit (w :: u8) 7 \<longleftrightarrow> 128 \<le> unat w"
proof -
  have "bit w 7 \<longleftrightarrow> bit (unat w) 7" by (simp add: bit_unsigned_iff)
  also have "\<dots> \<longleftrightarrow> odd (unat w div 128)" by (simp add: bit_iff_odd)
  also have "\<dots> \<longleftrightarrow> 128 \<le> unat w"
  proof (cases "128 \<le> unat w")
    case True
    then have "unat w div 128 = 1" using unsigned_less [of w] by (intro div_nat_eqI) simp_all
    with True show ?thesis by simp
  qed simp
  finally show ?thesis .
qed

lemma has_large_flag: "(w :: u8) AND kLargeFlag = 0 \<longleftrightarrow> unat w < 128"
  using and_exp_eq_0_iff_not_bit [of w 7] bit7_iff [of w] by (simp add: kLargeFlag_def not_le)

lemma bit_large_flag: "bit kLargeFlag n \<longleftrightarrow> n = 7"
proof -
  have eq: "kLargeFlag = 2 ^ 7" by (simp add: kLargeFlag_def)
  show ?thesis by (simp only: eq bit_exp_iff) auto
qed

lemma or_large_flag:
  assumes "x < 128"
  shows "word_of_nat x OR kLargeFlag = (word_of_nat (x + 128) :: u8)"
proof -
  have "\<not> bit (word_of_nat x :: u8) n \<or> \<not> bit kLargeFlag n" for n
    using assms bit7_iff [of "word_of_nat x"] by (auto simp: bit_large_flag unat_of_nat)
  then have "word_of_nat x OR kLargeFlag = (word_of_nat x :: u8) + kLargeFlag" by (simp add: disjunctive_add)
  then show ?thesis by (simp add: kLargeFlag_def)
qed

lemma drop_large_flag: "unat (w :: u8) < 128 \<Longrightarrow> w AND NOT kLargeFlag = w"
  by (rule bit_word_eqI) (use bit7_iff [of w] in \<open>auto simp: bit_and_iff bit_not_iff bit_large_flag\<close>)

text \<open>
  \<open>st large n b\<close> is the object of size \<open>n\<close> over the buffer \<open>b\<close>, and \<open>lay\<close> the condition
  under which its bytes mean that.
\<close>

definition flagged :: "nat \<Rightarrow> mbyte list" where
  "flagged cap = (le_bytes 8 cap)[7 := Byte (word_of_nat (cap div 256 ^ 7) OR kLargeFlag)]"

definition st :: "bool \<Rightarrow> nat \<Rightarrow> mbyte list \<Rightarrow> bstr" where
  "st large n b =
     (if large then \<lparr>raw = ptr_bytes @ le_bytes 8 n @ flagged (length b - 1), heap = Some b\<rparr>
      else \<lparr>raw = b @ [Byte (word_of_nat n)], heap = None\<rparr>)"

definition lay :: "bool \<Rightarrow> nat \<Rightarrow> mbyte list \<Rightarrow> bool" where
  "lay large n b \<longleftrightarrow> n < length b \<and> (if large then length b \<le> kMaxCapacity + 1 else length b = 23)"

lemma length_flagged [simp]: "length (flagged cap) = 8"
  by (simp add: flagged_def)

lemma flagged_eq:
  assumes "cap < 2 ^ 63"
  shows "flagged cap = le_bytes 8 (cap + 2 ^ 63)"
proof -
  have "cap div 256 ^ 7 < 128" using assms by (simp add: less_mult_imp_div_less)
  moreover have "(cap + 2 ^ 63) div 256 ^ 7 = cap div 256 ^ 7 + 128"
    using div_mult_self1 [of "256 ^ 7" cap 128] by simp
  moreover have "le_bytes 7 (cap + 2 ^ 63) = le_bytes 7 cap"
    using le_bytes_add_mult [of 7 cap 128] by simp
  ultimately show ?thesis
    using le_bytes_snoc [of 7 cap] le_bytes_snoc [of 7 "cap + 2 ^ 63"] or_large_flag
    by (simp add: flagged_def list_update_append)
qed

lemma length_ptr_bytes [simp]: "length ptr_bytes = 8"
  by (simp add: ptr_bytes_def)

named_theorems string_ops \<open>effect of the private members on a laid out object\<close>

lemma large_bounds: "lay True n b \<Longrightarrow> n < 2 ^ 63 \<and> length b - 1 < 2 ^ 63 \<and> 0 < length b"
  by (auto simp: lay_def kMaxCapacity_eq)

lemma small_bounds: "lay False n b \<Longrightarrow> n \<le> 22 \<and> length b = 23"
  by (auto simp: lay_def)

lemma flag_large: "heap s = h \<Longrightarrow> raw s = pre @ flagged cap \<Longrightarrow> length pre = 16 \<Longrightarrow>
    flag_byte s = Inr (word_of_nat (cap div 256 ^ 7) OR kLargeFlag)"
  by (simp add: flag_byte_def flagged_def nth_append)

lemma kLargeFlag_nonzero [simp]: "kLargeFlag \<noteq> 0"
  by (simp add: kLargeFlag_def)

lemma or_has_flag: "(w OR kLargeFlag) AND kLargeFlag \<noteq> 0"
  by (simp add: word_ao_absorbs)

lemma is_large_st [string_ops]: "lay large n b \<Longrightarrow> is_large (st large n b) = Inr large"
proof (cases large)
  case True
  have "flag_byte (st True n b) = Inr (word_of_nat ((length b - 1) div 256 ^ 7) OR kLargeFlag)"
    by (rule flag_large [of _ "Some b" "ptr_bytes @ le_bytes 8 n"]) (simp_all add: st_def)
  then show ?thesis using True by (simp add: is_large_def or_has_flag)
next
  case False
  assume "lay large n b"
  then have "n \<le> 22" "length b = 23" using small_bounds False by auto
  then show ?thesis using False
    by (simp add: is_large_def flag_byte_def st_def nth_append has_large_flag unat_of_nat)
qed

lemma get_size_st [string_ops]: "lay large n b \<Longrightarrow> get_size (st large n b) = Inr n"
proof (cases large)
  case True
  assume lay: "lay large n b"
  then show ?thesis using True large_bounds [of n b] is_large_st [OF lay]
    by (simp add: get_size_def large_size_def st_def)
next
  case False
  assume lay: "lay large n b"
  then have "n \<le> 22" "length b = 23" using small_bounds False by auto
  then show ?thesis using False is_large_st [OF lay]
    by (simp add: get_size_def flag_byte_def st_def nth_append drop_large_flag unat_of_nat)
qed

lemma get_data_st [string_ops]: "lay large n b \<Longrightarrow> get_data (st large n b) = Inr b"
  using is_large_st [of large n b] small_bounds [of n b]
  by (cases large) (simp_all add: get_data_def large_data_def st_def)

lemma put_data_st [string_ops]:
  "lay large n b \<Longrightarrow> length b' = length b \<Longrightarrow> put_data (st large n b) b' = Inr (st large n b')"
  using is_large_st [of large n b] small_bounds [of n b]
  by (cases large) (simp_all add: put_data_def st_def)

lemma get_capacity_st [string_ops]:
  "lay large n b \<Longrightarrow> get_capacity (st large n b) = Inr (length b - 1)"
proof (cases large)
  case True
  assume lay: "lay large n b"
  define cap where "cap = length b - 1"
  have cap: "cap < 2 ^ 63" using large_bounds [of n b] lay True by (simp add: cap_def)
  have "flagged (length b - 1) = le_bytes 8 (cap + 2 ^ 63)" using flagged_eq [OF cap] by (simp add: cap_def)
  then have "large_capacity (st True n b) = le_value (le_bytes 8 (cap + 2 ^ 63))"
    by (simp add: large_capacity_def st_def)
  then have "large_capacity (st True n b) = Inr (cap + 2 ^ 63)" using cap by simp
  moreover have "unat (take_bit 63 (word_of_nat (cap + 2 ^ 63) :: u64)) = cap"
  proof -
    have "unat (take_bit 63 w) = unat w mod 2 ^ 63" for w :: u64
      by (subst unsigned_take_bit_eq) (simp add: take_bit_eq_mod)
    moreover have "unat (word_of_nat (cap + 2 ^ 63) :: u64) = cap + 2 ^ 63"
      using cap by (simp only: unat_of_nat) simp
    ultimately show ?thesis using cap by (simp only:) simp
  qed
  ultimately show ?thesis using True is_large_st [OF lay]
    by (simp add: get_capacity_def and_not_top cap_def)
next
  case False
  assume lay: "lay large n b"
  then show ?thesis using False is_large_st [OF lay] small_bounds [of n b] by (simp add: get_capacity_def)
qed

lemma overwrite_at: "off = length pre \<Longrightarrow> length bs = length old \<Longrightarrow> overwrite (pre @ old @ post) off bs = pre @ bs @ post"
  by (simp add: overwrite_def)

lemma length_overwrite [simp]: "off + length bs \<le> length b \<Longrightarrow> length (overwrite b off bs) = length b"
  by (simp add: overwrite_def)

lemma set_size_st [string_ops]:
  "lay large n b \<Longrightarrow> m < length b \<Longrightarrow> set_size (st large n b) m = Inr (st large m b)"
proof (cases large)
  case True
  assume lay: "lay large n b"
  then show ?thesis using True is_large_st [OF lay] by (simp add: set_size_def st_def overwrite_at)
next
  case False
  assume lay: "lay large n b" and m: "m < length b"
  then have b: "length b = 23" "m \<le> 22" using False small_bounds [of n b] by auto
  then have "word_of_nat m AND NOT kLargeFlag = (word_of_nat m :: u8)" by (simp add: drop_large_flag unat_of_nat)
  then show ?thesis using False is_large_st [OF lay] b
    by (simp add: set_size_def st_def put_flag_def list_update_append)
qed

lemma lay_cong: "lay large n b \<Longrightarrow> length b' = length b \<Longrightarrow> m < length b \<Longrightarrow> lay large m b'"
  by (auto simp: lay_def)

lemma peek_st [string_ops]:
  "lay large n b \<Longrightarrow> off + k \<le> length b \<Longrightarrow> peek (st large n b) off k = Inr (take k (drop off b))"
  by (simp add: peek_def string_ops)

lemma poke_st [string_ops]:
  "lay large n b \<Longrightarrow> off + length bs \<le> length b \<Longrightarrow> poke (st large n b) off bs = Inr (st large n (overwrite b off bs))"
  by (simp add: poke_def string_ops write_block_def)

lemma ensure_null_terminated_st [string_ops]:
  "lay large n b \<Longrightarrow> ensure_null_terminated (st large n b) = Inr (st large n (overwrite b n [Byte 0]))"
  using poke_st [of large n b n "[Byte 0]"] get_size_st [of large n b]
  by (cases large) (simp_all add: ensure_null_terminated_def Suc_le_eq lay_def)

lemma buffer_byte_size_eq: "cap \<le> kMaxCapacity \<Longrightarrow> buffer_byte_size cap = cap + 1"
  by (simp add: buffer_byte_size_def kMaxCapacity_eq)

lemma deallocate_large_st [string_ops]:
  "lay large n b \<Longrightarrow> deallocate_large (st large n b) = Inr ((st large n b)\<lparr>heap := None\<rparr>)"
proof (cases large)
  case True
  assume lay: "lay large n b"
  then have "length b - 1 \<le> kMaxCapacity" "0 < length b" using True by (auto simp: lay_def)
  then have "buffer_byte_size (length b - 1) = length b" by (simp only: buffer_byte_size_eq)
  moreover have "large_data (st True n b) = Inr b" by (simp add: large_data_def st_def)
  ultimately show ?thesis using True is_large_st [OF lay] get_capacity_st [OF lay]
    by (simp add: deallocate_large_def)
next
  case False
  assume lay: "lay large n b"
  then show ?thesis using False is_large_st [OF lay] by (simp add: deallocate_large_def st_def)
qed

lemma adopt_buffer_st [string_ops]:
  assumes "lay large n b" and "length nd = cap + 1" and "cap \<le> kMaxCapacity"
  shows "adopt_buffer (st large n b) nd m cap = Inr (st True m nd)"
proof -
  have "cap < 2 ^ 64" using assms(3) by (simp add: kMaxCapacity_eq)
  have "put_large ((st large n b)\<lparr>heap := None\<rparr>) nd m cap
      = Inr \<lparr>raw = ptr_bytes @ le_bytes 8 m @ le_bytes 8 cap, heap = Some nd\<rparr>"
    by (simp add: put_large_def)
  moreover have "flag_byte \<lparr>raw = ptr_bytes @ le_bytes 8 m @ le_bytes 8 cap, heap = Some nd\<rparr>
      = Inr (word_of_nat (cap div 256 ^ 7))"
    using assms(3) le_bytes_snoc [of 7 cap]
    by (simp add: flag_byte_def nth_append kMaxCapacity_eq less_mult_imp_div_less)
  moreover have "st True m nd = \<lparr>raw = ptr_bytes @ le_bytes 8 m @ flagged cap, heap = Some nd\<rparr>"
    using assms(2) by (simp add: st_def)
  ultimately show ?thesis using deallocate_large_st [OF assms(1)]
    by (simp add: adopt_buffer_def put_flag_def flagged_def list_update_append)
qed

section \<open>Well-formed strings and their contents\<close>

text \<open>
  A well-formed string keeps its characters and then the terminator at the front of its
  buffer; the rest of the buffer is arbitrary.
\<close>

definition str_of :: "bool \<Rightarrow> u8 list \<Rightarrow> mbyte list \<Rightarrow> bstr" where
  "str_of large cs junk = st large (length cs) (map Byte cs @ Byte 0 # junk)"

definition wf_junk :: "bool \<Rightarrow> u8 list \<Rightarrow> mbyte list \<Rightarrow> bool" where
  "wf_junk large cs junk \<longleftrightarrow> lay large (length cs) (map Byte cs @ Byte 0 # junk)"

definition str_rep :: "bstr \<Rightarrow> u8 list \<Rightarrow> bool" where
  "str_rep s cs \<longleftrightarrow> (\<exists>large junk. s = str_of large cs junk \<and> wf_junk large cs junk)"

lemma wf_junk_iff:
  "wf_junk large cs junk \<longleftrightarrow>
     (if large then length cs + length junk \<le> kMaxCapacity else length cs + length junk = 22)"
  by (auto simp: wf_junk_def lay_def)

lemma str_repI: "wf_junk large cs junk \<Longrightarrow> str_rep (str_of large cs junk) cs"
  by (auto simp: str_rep_def)

lemma str_repE:
  assumes "str_rep s cs"
  obtains large junk where "s = str_of large cs junk" and "wf_junk large cs junk"
  using assms by (auto simp: str_rep_def)

text \<open>
  \<open>yields room P r\<close>: the computation returns a value with \<open>P\<close>, unless the code refuses, which
  it does not when there is room.
\<close>

definition yields :: "bool \<Rightarrow> ('a \<Rightarrow> bool) \<Rightarrow> 'a res \<Rightarrow> bool" where
  "yields room P r = (case r of Inl e \<Rightarrow> refusal e \<and> \<not> room | Inr x \<Rightarrow> P x)"

lemma yields_simps [simp]: "yields room P (Inl e) \<longleftrightarrow> refusal e \<and> \<not> room" "yields room P (Inr x) = P x"
  by (simp_all add: yields_def)

lemma yields_bindE:
  "yields room Q m \<Longrightarrow> (\<And>x. Q x \<Longrightarrow> yields room P (f x)) \<Longrightarrow> yields room P (bindE m f)"
  by (cases m) auto

lemma yields_mono: "yields room P m \<Longrightarrow> (\<And>x. P x \<Longrightarrow> Q x) \<Longrightarrow> yields room Q m"
  by (cases m) auto

lemma yields_weaken: "yields room P m \<Longrightarrow> (room' \<Longrightarrow> room) \<Longrightarrow> yields room' P m"
  by (cases m) auto

lemma yields_outcome: "yields room P m \<Longrightarrow> outcome P m"
  by (cases m) auto

lemma yields_ensure [simp]: "yields room P (bindE (ensure b e) f) \<longleftrightarrow>
    (if b then yields room P (f ()) else refusal e \<and> \<not> room)"
  by (simp add: ensure_def)

definition room_for :: "(nat \<Rightarrow> bool) \<Rightarrow> nat \<Rightarrow> bool" where
  "room_for ok n \<longleftrightarrow> (\<forall>k. ok k) \<and> n \<le> kMaxCapacity"

lemma room_for_mono: "room_for ok n \<Longrightarrow> m \<le> n \<Longrightarrow> room_for ok m"
  by (auto simp: room_for_def)

lemma lay_str: "wf_junk large cs junk \<Longrightarrow> lay large (length cs) (map Byte cs @ Byte 0 # junk)"
  by (simp add: wf_junk_def)

lemma str_of_size [string_ops]: "wf_junk large cs junk \<Longrightarrow> get_size (str_of large cs junk) = Inr (length cs)"
  by (simp add: str_of_def wf_junk_def string_ops)

lemma str_of_capacity [string_ops]:
  "wf_junk large cs junk \<Longrightarrow> get_capacity (str_of large cs junk) = Inr (length cs + length junk)"
  by (simp add: str_of_def wf_junk_def string_ops)

lemma str_of_large [string_ops]: "wf_junk large cs junk \<Longrightarrow> is_large (str_of large cs junk) = Inr large"
  by (simp add: str_of_def wf_junk_def string_ops)

lemma str_of_data [string_ops]:
  "wf_junk large cs junk \<Longrightarrow> get_data (str_of large cs junk) = Inr (map Byte cs @ Byte 0 # junk)"
  by (simp add: str_of_def wf_junk_def string_ops)

lemma defined_chars_map [simp]: "defined_chars (map Byte cs) = Inr cs"
  by (simp add: defined_chars_def list_all_iff comp_def)

lemma str_of_peek [string_ops]:
  "wf_junk large cs junk \<Longrightarrow> off + k \<le> length cs \<Longrightarrow>
     peek (str_of large cs junk) off k = Inr (map Byte (take k (drop off cs)))"
  by (simp add: peek_def string_ops take_map drop_map)

lemma str_of_load [string_ops]:
  "wf_junk large cs junk \<Longrightarrow> off + k \<le> length cs \<Longrightarrow>
     load (str_of large cs junk) off k = Inr (take k (drop off cs))"
  by (simp add: load_def string_ops)

text \<open>Writing a size and the terminator finishes every modification.\<close>

lemma seal:
  assumes "lay large n (map Byte cs @ post)" and "post \<noteq> []"
  shows "bindE (set_size (st large n (map Byte cs @ post)) (length cs)) ensure_null_terminated
      = Inr (str_of large cs (tl post)) \<and> wf_junk large cs (tl post)"
proof -
  obtain x xs where post: "post = x # xs" using assms(2) by (cases post) auto
  have lay: "lay large (length cs) (map Byte cs @ post)"
    by (rule lay_cong [OF assms(1)]) (simp_all add: post)
  have "overwrite (map Byte cs @ post) (length cs) [Byte 0] = map Byte cs @ Byte 0 # xs"
    using overwrite_at [of "length cs" "map Byte cs" "[Byte 0]" "[x]" xs] by (simp add: post)
  moreover have "lay large (length cs) (map Byte cs @ Byte 0 # xs)"
    by (rule lay_cong [OF lay]) (simp_all add: post)
  ultimately show ?thesis
    using set_size_st [OF assms(1), of "length cs"] ensure_null_terminated_st [OF lay] post
    by (simp add: str_of_def wf_junk_def)
qed

lemma seal_poke:
  assumes "wf_junk large cs junk" and "poke (str_of large cs junk) off bs = Inr (st large (length cs) (map Byte cs' @ post))"
    and "length cs' + length post = length cs + length junk + 1" and "post \<noteq> []"
  shows "bindE (poke (str_of large cs junk) off bs)
      (\<lambda>s. bindE (set_size s (length cs')) ensure_null_terminated) = Inr (str_of large cs' (tl post)) \<and>
    wf_junk large cs' (tl post)"
proof -
  have "lay large (length cs) (map Byte cs' @ post)"
    by (rule lay_cong [OF lay_str [OF assms(1)]]) (use assms(3,4) in auto)
  from seal [OF this assms(4)] show ?thesis using assms(2) by simp
qed

lemma init_empty_rep:
  assumes "length (raw s) = 24" and "heap s = None"
  shows "\<exists>junk. init_empty s = str_of False [] junk \<and> wf_junk False [] junk"
proof -
  let ?b = "take 23 (raw (init_empty s))"
  have len: "length (raw (init_empty s)) = 24"
    using assms by (simp add: init_empty_def Let_def put_flag_def)
  have "raw (init_empty s) = ?b @ [raw (init_empty s) ! 23]"
    using take_Suc_conv_app_nth [of 23 "raw (init_empty s)"] len by simp
  moreover have "raw (init_empty s) ! 23 = Byte 0"
    using assms by (simp add: init_empty_def Let_def put_flag_def)
  moreover have "?b = Byte 0 # tl ?b"
    using assms by (cases "raw s") (auto simp: init_empty_def Let_def put_flag_def overwrite_def)
  moreover have "heap (init_empty s) = None" using assms(2) by (simp add: init_empty_def Let_def put_flag_def)
  ultimately have "init_empty s = str_of False [] (tl ?b)"
    by (cases "init_empty s") (simp add: str_of_def st_def)
  moreover have "wf_junk False [] (tl ?b)" using len by (simp add: wf_junk_iff)
  ultimately show ?thesis by blast
qed

lemma Str_new_rep: "str_rep Str_new []"
proof -
  have "length (raw fresh) = 24" "heap fresh = None" by (simp_all add: fresh_def sizeof_LargeLayout_def)
  from init_empty_rep [OF this] show ?thesis by (auto simp: Str_new_def intro: str_repI)
qed

lemma length_raw_st: "lay large n b \<Longrightarrow> length (raw (st large n b)) = 24"
  by (auto simp: st_def lay_def)

lemma Str_clear_rep: "str_rep s cs \<Longrightarrow> \<exists>s'. Str_clear s = Inr s' \<and> str_rep s' []"
proof (erule str_repE)
  fix large junk assume s: "s = str_of large cs junk" and wf: "wf_junk large cs junk"
  have "length (raw (s\<lparr>heap := None\<rparr>)) = 24" using length_raw_st [OF lay_str [OF wf]] by (simp add: s str_of_def)
  then have "str_rep (init_empty (s\<lparr>heap := None\<rparr>)) []"
    using init_empty_rep [of "s\<lparr>heap := None\<rparr>"] by (auto intro: str_repI)
  then show ?thesis using deallocate_large_st [OF lay_str [OF wf]]
    by (simp add: Str_clear_def s str_of_def)
qed

lemma Str_destroy_frees: "str_rep s cs \<Longrightarrow> \<exists>s'. Str_destroy s = Inr s' \<and> heap s' = None"
  by (auto simp: Str_destroy_def str_of_def elim!: str_repE dest!: lay_str simp: deallocate_large_st)

section \<open>Reallocation\<close>

lemma allocate_buffer_yields:
  "yields (room_for ok cap) (\<lambda>b. b = replicate (cap + 1) Undef \<and> cap \<le> kMaxCapacity) (allocate_buffer ok cap)"
proof (cases "cap \<le> kMaxCapacity")
  case True
  then show ?thesis by (auto simp: allocate_buffer_def buffer_byte_size_eq room_for_def)
qed (simp add: allocate_buffer_def room_for_def)

lemma write_block_at:
  "off = length pre \<Longrightarrow> length bs = length old \<Longrightarrow> write_block (pre @ old @ post) off bs = Inr (pre @ bs @ post)"
  by (simp add: write_block_def overwrite_at)

text \<open>The new block of every reallocation: characters, terminator, rest undefined.\<close>

lemma fill_block:
  assumes "length cs \<le> cap"
  shows "write_block (replicate (cap + 1) Undef) 0 (map Byte cs)
      = Inr (map Byte cs @ replicate (cap + 1 - length cs) Undef)"
    and "off = length cs \<Longrightarrow> write_block (map Byte cs @ replicate (cap + 1 - length cs) Undef) off [Byte 0]
      = Inr (map Byte cs @ Byte 0 # replicate (cap - length cs) Undef)"
proof -
  have "replicate (cap + 1) Undef = [] @ replicate (length cs) Undef @ replicate (cap + 1 - length cs) Undef"
    using assms by (simp flip: replicate_add)
  then show "write_block (replicate (cap + 1) Undef) 0 (map Byte cs)
      = Inr (map Byte cs @ replicate (cap + 1 - length cs) Undef)"
    using write_block_at [of 0 "[]" "map Byte cs" "replicate (length cs) Undef"] by simp
  assume off: "off = length cs"
  have "replicate (cap + 1 - length cs) Undef = [Undef] @ replicate (cap - length cs) Undef"
    using assms by (simp add: Suc_diff_le)
  then show "write_block (map Byte cs @ replicate (cap + 1 - length cs) Undef) off [Byte 0]
      = Inr (map Byte cs @ Byte 0 # replicate (cap - length cs) Undef)"
    using write_block_at [of off "map Byte cs" "[Byte 0]" "[Undef]"] off by simp
qed

lemma adopt_str_of:
  assumes "wf_junk large cs junk" and "length cs' \<le> cap" and "cap \<le> kMaxCapacity"
  shows "adopt_buffer (str_of large cs junk) (map Byte cs' @ Byte 0 # replicate (cap - length cs') Undef) (length cs') cap
      = Inr (str_of True cs' (replicate (cap - length cs') Undef)) \<and>
    wf_junk True cs' (replicate (cap - length cs') Undef)"
  using adopt_buffer_st [OF lay_str [OF assms(1)], of _ cap "length cs'"] assms(2,3)
  by (simp add: str_of_def wf_junk_iff)

definition grown :: "u8 list \<Rightarrow> nat \<Rightarrow> bstr \<Rightarrow> bool" where
  "grown cs m s \<longleftrightarrow> (\<exists>large junk. s = str_of large cs junk \<and> wf_junk large cs junk \<and> m \<le> length cs + length junk)"

lemma grownI: "wf_junk large cs junk \<Longrightarrow> m \<le> length cs + length junk \<Longrightarrow> grown cs m (str_of large cs junk)"
  by (auto simp: grown_def)

lemma realloc_to_yields:
  assumes "wf_junk large cs junk" and "length cs \<le> cap"
  shows "yields (room_for ok cap) (grown cs cap) (realloc_to ok (str_of large cs junk) cap)"
proof -
  have copied: "(if length cs > 0 then bindE (peek (str_of large cs junk) 0 (length cs))
        (write_block (replicate (cap + 1) Undef) 0) else Inr (replicate (cap + 1) Undef))
      = Inr (map Byte cs @ replicate (cap + 1 - length cs) Undef)"
    using assms fill_block(1) [OF assms(2)] by (simp add: string_ops del: replicate_Suc)
  show ?thesis
    unfolding realloc_to_def str_of_size [OF assms(1)] bindE_Inr
  proof (simp only: yields_ensure assms(2) if_True, rule yields_bindE [OF allocate_buffer_yields], elim conjE)
    fix b assume b: "b = replicate (cap + 1) Undef" and cap: "cap \<le> kMaxCapacity"
    show "yields (room_for ok cap) (grown cs cap)
      (bindE (if length cs > 0 then bindE (peek (str_of large cs junk) 0 (length cs)) (write_block b 0) else Inr b)
        (\<lambda>b. bindE (write_block b (length cs) [Byte 0]) (\<lambda>b. adopt_buffer (str_of large cs junk) b (length cs) cap)))"
      unfolding b copied
      using adopt_str_of [OF assms(1,2) cap] fill_block(2) [OF assms(2) refl] assms(2)
      by (simp add: grownI)
  qed
qed

lemma grow_capacity_bounds: "required \<le> grow_capacity required"
    "required \<le> kMaxCapacity \<Longrightarrow> grow_capacity required \<le> kMaxCapacity"
  by (auto simp: grow_capacity_def Let_def)

lemma room_for_grow: "room_for ok (grow_capacity n) = room_for ok n"
  using grow_capacity_bounds [of n] by (auto simp: room_for_def)

lemma grow_to_at_least_yields:
  assumes "wf_junk large cs junk" and "length cs \<le> m"
  shows "yields (room_for ok m) (grown cs m) (grow_to_at_least ok (str_of large cs junk) m)"
proof (cases "m > length cs + length junk")
  case True
  have "length cs \<le> grow_capacity m" using assms(2) grow_capacity_bounds(1) [of m] by simp
  from realloc_to_yields [OF assms(1) this, of ok]
  have "yields (room_for ok m) (grown cs m) (realloc_to ok (str_of large cs junk) (grow_capacity m))"
    unfolding room_for_grow
    by (rule yields_mono) (use grow_capacity_bounds(1) [of m] in \<open>unfold grown_def, blast intro: le_trans\<close>)
  then show ?thesis using True by (simp add: grow_to_at_least_def string_ops assms(1))
next
  case False
  then show ?thesis using assms(1) by (simp add: grow_to_at_least_def string_ops grownI)
qed

section \<open>What the modifiers do to the contents\<close>

definition src_denotes :: "u8 list \<Rightarrow> cptr \<Rightarrow> nat \<Rightarrow> u8 list \<Rightarrow> bool" where
  "src_denotes cs p n ys \<longleftrightarrow>
     (case p of Null \<Rightarrow> False
      | Ext xs \<Rightarrow> n \<le> length xs \<and> ys = take n xs
      | Own off \<Rightarrow> off + n \<le> length cs \<and> ys = take n (drop off cs))"

lemma src_denotes_length: "src_denotes cs p n ys \<Longrightarrow> length ys = n"
  by (auto simp: src_denotes_def split: cptr.splits)

lemma src_denotes_read:
  "wf_junk large cs junk \<Longrightarrow> src_denotes cs p n ys \<Longrightarrow> read_ptr (str_of large cs junk) p n = Inr (map Byte ys)"
  by (auto simp: src_denotes_def read_ptr_def string_ops split: cptr.splits)

lemma poke_str_of:
  assumes "wf_junk large cs junk" and "off \<le> length cs" and "off + length bs \<le> length cs + length junk + 1"
  shows "poke (str_of large cs junk) off bs
    = Inr (st large (length cs) (map Byte (take off cs) @ bs @ drop (off + length bs) (map Byte cs @ Byte 0 # junk)))"
  using poke_st [OF lay_str [OF assms(1)], of off bs] assms(2,3)
  by (simp add: str_of_def overwrite_def take_map)

lemma write_tail:
  assumes "wf_junk large cs junk" and "off \<le> length cs" and "off + length ys \<le> length cs + length junk"
    and "n = off + length ys"
  shows "\<exists>s'. bindE (poke (str_of large cs junk) off (map Byte ys))
      (\<lambda>s. bindE (set_size s n) ensure_null_terminated) = Inr s' \<and> str_rep s' (take off cs @ ys)"
proof -
  let ?post = "drop (off + length ys) (map Byte cs @ Byte 0 # junk)"
  have "map Byte (take off cs) @ map Byte ys @ ?post = map Byte (take off cs @ ys) @ ?post" by simp
  then have poke: "poke (str_of large cs junk) off (map Byte ys)
      = Inr (st large (length cs) (map Byte (take off cs @ ys) @ ?post))"
    using poke_str_of [OF assms(1,2), of "map Byte ys"] assms(3) by simp
  have lay: "lay large (length cs) (map Byte (take off cs @ ys) @ ?post)"
    by (rule lay_cong [OF lay_str [OF assms(1)]]) (use assms(2,3) in auto)
  have "?post \<noteq> []" using assms(3) by (simp, linarith)
  from seal [OF lay this] have "bindE (set_size (st large (length cs) (map Byte (take off cs @ ys) @ ?post)) n)
      ensure_null_terminated = Inr (str_of large (take off cs @ ys) (tl ?post))"
    "wf_junk large (take off cs @ ys) (tl ?post)" using assms(2,4) by simp_all
  then show ?thesis unfolding poke bindE_Inr by (blast intro: str_repI)
qed

lemma truncate:
  assumes "wf_junk large cs junk" and "n \<le> length cs"
  shows "\<exists>s'. bindE (set_size (str_of large cs junk) n) ensure_null_terminated = Inr s' \<and> str_rep s' (take n cs)"
proof -
  let ?post = "map Byte (drop n cs) @ Byte 0 # junk"
  have split: "map Byte cs @ Byte 0 # junk = map Byte (take n cs) @ ?post"
    by (simp flip: map_append append_assoc)
  have len: "length (take n cs) = n" using assms(2) by simp
  have "lay large (length cs) (map Byte (take n cs) @ ?post)" using lay_str [OF assms(1)] by (simp only: split)
  from seal [OF this] len have "bindE (set_size (st large (length cs) (map Byte (take n cs) @ ?post)) n)
      ensure_null_terminated = Inr (str_of large (take n cs) (tl ?post))" "wf_junk large (take n cs) (tl ?post)"
    by simp_all
  then show ?thesis unfolding str_of_def [of large cs junk] split by (blast intro: str_repI)
qed

lemma yields_ex: "\<exists>s'. m = Inr s' \<and> P s' \<Longrightarrow> yields room P m"
  by auto

lemma Str_assign_yields:
  assumes "str_rep s cs" and "src_denotes cs p n ys"
  shows "yields (room_for ok n) (\<lambda>s'. str_rep s' ys) (Str_assign ok s p n)"
proof (cases "n = 0")
  case True
  then have "ys = []" using src_denotes_length [OF assms(2)] by simp
  then show ?thesis using True Str_clear_rep [OF assms(1)] by (auto simp: Str_assign_def)
next
  case False
  have nonnull: "p \<noteq> Null" using assms(2) by (auto simp: src_denotes_def)
  obtain large junk where s: "s = str_of large cs junk" and wf: "wf_junk large cs junk"
    by (rule str_repE [OF assms(1)])
  note read = src_denotes_read [OF wf assms(2)]
  have len: "length ys = n" by (rule src_denotes_length [OF assms(2)])
  show ?thesis
  proof (cases "n > length cs + length junk")
    case True
    have "yields (room_for ok n) (\<lambda>s'. str_rep s' ys)
      (bindE (allocate_buffer ok n) (\<lambda>new_data.
       bindE (write_block new_data 0 (map Byte ys)) (\<lambda>new_data.
       bindE (write_block new_data n [Byte 0]) (\<lambda>new_data. adopt_buffer (str_of large cs junk) new_data n n))))"
    proof (rule yields_bindE [OF allocate_buffer_yields], elim conjE)
      fix b assume b: "b = replicate (n + 1) Undef" and cap: "n \<le> kMaxCapacity"
      show "yields (room_for ok n) (\<lambda>s'. str_rep s' ys)
        (bindE (write_block b 0 (map Byte ys)) (\<lambda>new_data.
         bindE (write_block new_data n [Byte 0]) (\<lambda>new_data. adopt_buffer (str_of large cs junk) new_data n n)))"
        using fill_block [of ys n] adopt_str_of [OF wf, of ys n] cap len
        by (simp add: b str_repI del: replicate_Suc)
    qed
    then show ?thesis using True False nonnull wf read by (simp add: Str_assign_def s string_ops)
  next
    case small: False
    then have fits: "0 + length ys \<le> length cs + length junk" using len by simp
    obtain s' where "bindE (poke (str_of large cs junk) 0 (map Byte ys))
        (\<lambda>s. bindE (set_size s n) ensure_null_terminated) = Inr s'" "str_rep s' ys"
      using write_tail [OF wf le0 fits refl] len by (elim exE conjE) simp
    then show ?thesis using small False nonnull wf read by (simp add: Str_assign_def s string_ops)
  qed
qed

lemma Str_append_yields:
  assumes "str_rep s cs" and "src_denotes cs p n ys"
  shows "yields (room_for ok (length cs + n)) (\<lambda>s'. str_rep s' (cs @ ys)) (Str_append ok s p n)"
proof (cases "n = 0")
  case True
  then show ?thesis using src_denotes_length [OF assms(2)] assms(1) by (simp add: Str_append_def)
next
  case False
  obtain large junk where s: "s = str_of large cs junk" and wf: "wf_junk large cs junk"
    by (rule str_repE [OF assms(1)])
  note read = src_denotes_read [OF wf assms(2)]
  have len: "length ys = n" by (rule src_denotes_length [OF assms(2)])
  have disj: "disjoint_src p (length cs) n"
    using assms(2) by (auto simp: src_denotes_def disjoint_src_def split: cptr.splits)
  show ?thesis
  proof (cases "length cs \<le> 2 ^ 64 - 1 - n")
    case overflow: False
    then have "\<not> room_for ok (length cs + n)" by (auto simp: room_for_def kMaxCapacity_eq)
    then show ?thesis using overflow False wf
      by (simp add: Str_append_def s string_ops checked_length_sum_def)
  next
    case fits: True
    then have sum: "checked_length_sum (length cs) n = Inr (length cs + n)"
      by (simp add: checked_length_sum_def)
    show ?thesis
    proof (cases "length cs + n > length cs + length junk")
      case True
      let ?cap = "grow_capacity (length cs + n)"
      have le: "length (cs @ ys) \<le> ?cap" using grow_capacity_bounds(1) [of "length cs + n"] len by simp
      have "yields (room_for ok (length cs + n)) (\<lambda>s'. str_rep s' (cs @ ys))
        (bindE (allocate_buffer ok ?cap) (\<lambda>new_data.
         bindE (if length cs > 0 then bindE (peek (str_of large cs junk) 0 (length cs)) (write_block new_data 0)
                else Inr new_data) (\<lambda>new_data.
         bindE (write_block new_data (length cs) (map Byte ys)) (\<lambda>new_data.
         bindE (write_block new_data (length cs + n) [Byte 0]) (\<lambda>new_data.
         adopt_buffer (str_of large cs junk) new_data (length cs + n) ?cap)))))"
      proof (subst room_for_grow [symmetric], rule yields_bindE [OF allocate_buffer_yields], elim conjE)
        fix b assume b: "b = replicate (?cap + 1) Undef" and cap: "?cap \<le> kMaxCapacity"
        have first: "(if length cs > 0 then bindE (peek (str_of large cs junk) 0 (length cs)) (write_block b 0)
                else Inr b) = Inr (map Byte cs @ replicate (?cap + 1 - length cs) Undef)"
          using fill_block(1) [of cs ?cap] le wf by (simp add: b string_ops del: replicate_Suc)
        have "map Byte cs @ replicate (?cap + 1 - length cs) Undef
            = map Byte cs @ replicate n Undef @ replicate (?cap + 1 - length (cs @ ys)) Undef"
          using le len by (simp flip: replicate_add)
        then have second: "write_block (map Byte cs @ replicate (?cap + 1 - length cs) Undef) (length cs) (map Byte ys)
            = Inr (map Byte (cs @ ys) @ replicate (?cap + 1 - length (cs @ ys)) Undef)"
          using write_block_at [of "length cs" "map Byte cs" "map Byte ys" "replicate n Undef"] len by simp
        show "yields (room_for ok ?cap) (\<lambda>s'. str_rep s' (cs @ ys))
          (bindE (if length cs > 0 then bindE (peek (str_of large cs junk) 0 (length cs)) (write_block b 0)
                else Inr b) (\<lambda>new_data.
           bindE (write_block new_data (length cs) (map Byte ys)) (\<lambda>new_data.
           bindE (write_block new_data (length cs + n) [Byte 0]) (\<lambda>new_data.
           adopt_buffer (str_of large cs junk) new_data (length cs + n) ?cap))))"
          unfolding first second bindE_Inr
          using fill_block(2) [OF le refl] adopt_str_of [OF wf le cap] len by (simp add: str_repI)
      qed
      then show ?thesis using True False wf read sum by (simp add: Str_append_def s string_ops Let_def)
    next
      case small: False
      then have fits: "length cs + length ys \<le> length cs + length junk" using len by simp
      obtain s' where "bindE (poke (str_of large cs junk) (length cs) (map Byte ys))
          (\<lambda>s. bindE (set_size s (length cs + n)) ensure_null_terminated) = Inr s'" "str_rep s' (cs @ ys)"
        using write_tail [OF wf le_refl fits refl] len by (elim exE conjE) simp
      then show ?thesis using small False wf read sum disj by (simp add: Str_append_def s string_ops)
    qed
  qed
qed

lemma grow_write_tail:
  assumes "wf_junk large cs junk" and "off \<le> length cs" and "n = off + length ys" and "length cs \<le> n"
  shows "yields (room_for ok n) (\<lambda>s'. str_rep s' (take off cs @ ys))
    (bindE (grow_to_at_least ok (str_of large cs junk) n) (\<lambda>s.
     bindE (poke s off (map Byte ys)) (\<lambda>s. bindE (set_size s n) ensure_null_terminated)))"
proof (rule yields_bindE [OF grow_to_at_least_yields [OF assms(1,4)]])
  fix s assume "grown cs n s"
  then obtain large' junk' where s: "s = str_of large' cs junk'" and wf: "wf_junk large' cs junk'"
    and fits: "off + length ys \<le> length cs + length junk'" by (auto simp: grown_def assms(3))
  show "yields (room_for ok n) (\<lambda>s'. str_rep s' (take off cs @ ys))
    (bindE (poke s off (map Byte ys)) (\<lambda>s. bindE (set_size s n) ensure_null_terminated))"
    unfolding s by (rule yields_ex, rule write_tail [OF wf assms(2) fits assms(3)])
qed

lemma sum_yields:
  assumes "\<And>r. a + b < 2 ^ 64 \<Longrightarrow> yields (room_for ok (a + b)) P (f (a + b))" and "b < 2 ^ 64"
  shows "yields (room_for ok (a + b)) P (bindE (checked_length_sum a b) f)"
proof (cases "a \<le> 2 ^ 64 - 1 - b")
  case True
  then have "a + b < 2 ^ 64" using assms(2) by simp
  with assms(1) True show ?thesis by (simp add: checked_length_sum_def)
next
  case False
  then have "\<not> room_for ok (a + b)" by (auto simp: room_for_def kMaxCapacity_eq)
  then show ?thesis using False by (simp add: checked_length_sum_def)
qed

lemma replicate_Byte: "replicate n (Byte c) = map Byte (replicate n c)"
  by simp

lemma Str_append_fill_yields:
  assumes "str_rep s cs" and "n < 2 ^ 64"
  shows "yields (room_for ok (length cs + n)) (\<lambda>s'. str_rep s' (cs @ replicate n c)) (Str_append_fill ok s n c)"
proof (cases "n = 0")
  case False
  obtain large junk where s: "s = str_of large cs junk" and wf: "wf_junk large cs junk"
    by (rule str_repE [OF assms(1)])
  show ?thesis
    unfolding Str_append_fill_def s str_of_size [OF wf] bindE_Inr if_not_P [OF False] replicate_Byte
    using grow_write_tail [OF wf le_refl, of "length cs + n" "replicate n c" ok] assms(2)
    by (intro sum_yields) simp_all
qed (use assms(1) in \<open>simp add: Str_append_fill_def\<close>)

lemma Str_fill_yields:
  "yields (room_for ok n) (\<lambda>s'. str_rep s' (replicate n c)) (Str_fill ok n c)"
proof (cases "n = 0")
  case False
  obtain large junk where s: "Str_new = str_of large [] junk" and wf: "wf_junk large [] junk"
    by (rule str_repE [OF Str_new_rep])
  show ?thesis
    using grow_write_tail [OF wf le0, of n "replicate n c" ok] False
    unfolding Str_fill_def s replicate_Byte by simp
qed (simp add: Str_fill_def Str_new_rep)

lemma Str_push_back_yields:
  assumes "str_rep s cs"
  shows "yields (room_for ok (length cs + 1)) (\<lambda>s'. str_rep s' (cs @ [c])) (Str_push_back ok s c)"
proof -
  obtain large junk where s: "s = str_of large cs junk" and wf: "wf_junk large cs junk"
    by (rule str_repE [OF assms(1)])
  have byte: "[Byte c] = map Byte [c]" by simp
  show ?thesis
    unfolding Str_push_back_def s str_of_size [OF wf] str_of_capacity [OF wf] bindE_Inr byte
  proof (rule sum_yields)
    show "yields (room_for ok (length cs + 1)) (\<lambda>s'. str_rep s' (cs @ [c]))
      (bindE (if length cs = length cs + length junk
          then grow_to_at_least ok (str_of large cs junk) (length cs + 1) else Inr (str_of large cs junk)) (\<lambda>s.
       bindE (poke s (length cs) (map Byte [c])) (\<lambda>s.
       bindE (set_size s (length cs + 1)) ensure_null_terminated)))"
    proof (cases "length cs = length cs + length junk")
      case True
      then show ?thesis
        using grow_write_tail [OF wf le_refl, of "length cs + 1" "[c]" ok] by (simp only: if_True) simp
    next
      case False
      then have "length cs + length [c] \<le> length cs + length junk" by (cases junk) simp_all
      from yields_ex [OF write_tail [OF wf le_refl this, of "length cs + 1"]]
      show ?thesis unfolding if_not_P [OF False] bindE_Inr by simp
    qed
  qed simp
qed

lemma Str_resize_yields:
  assumes "str_rep s cs"
  shows "yields (room_for ok n) (\<lambda>s'. str_rep s' (take n cs @ replicate (n - length cs) 0)) (Str_resize ok s n)"
proof -
  obtain large junk where s: "s = str_of large cs junk" and wf: "wf_junk large cs junk"
    by (rule str_repE [OF assms(1)])
  show ?thesis
  proof (cases "n > length cs")
    case True
    then show ?thesis
      using grow_write_tail [OF wf le_refl, of n "replicate (n - length cs) 0" ok]
      unfolding Str_resize_def s str_of_size [OF wf] bindE_Inr if_P [OF True] replicate_Byte bindE_assoc
      by simp
  next
    case False
    with yields_ex [OF truncate [OF wf, of n]] show ?thesis
      by (simp add: Str_resize_def s str_of_size [OF wf])
  qed
qed

lemma Str_pop_back_yields:
  assumes "str_rep s cs"
  shows "yields (cs \<noteq> []) (\<lambda>s'. str_rep s' (butlast cs)) (Str_pop_back s)"
proof -
  obtain large junk where s: "s = str_of large cs junk" and wf: "wf_junk large cs junk"
    by (rule str_repE [OF assms(1)])
  have e: "Str_empty (str_of large cs junk) = Inr (cs = [])" by (simp add: Str_empty_def str_of_size [OF wf])
  show ?thesis
  proof (cases "cs = []")
    case False
    then show ?thesis using yields_ex [OF truncate [OF wf, of "length cs - 1"]]
      by (simp add: Str_pop_back_def s str_of_size [OF wf] e butlast_conv_take)
  qed (use e in \<open>simp add: Str_pop_back_def s\<close>)
qed

lemma Str_remove_suffix_yields:
  assumes "str_rep s cs"
  shows "yields (n \<le> length cs) (\<lambda>s'. str_rep s' (take (length cs - n) cs)) (Str_remove_suffix s n)"
proof -
  obtain large junk where s: "s = str_of large cs junk" and wf: "wf_junk large cs junk"
    by (rule str_repE [OF assms(1)])
  show ?thesis using yields_ex [OF truncate [OF wf, of "length cs - n"]]
    by (simp add: Str_remove_suffix_def s str_of_size [OF wf])
qed

lemma Str_erase_yields:
  assumes "str_rep s cs"
  shows "yields (pos \<le> length cs) (\<lambda>s'. str_rep s' (take pos cs @ drop (pos + cnt) cs)) (Str_erase s pos cnt)"
proof -
  obtain large junk where s: "s = str_of large cs junk" and wf: "wf_junk large cs junk"
    by (rule str_repE [OF assms(1)])
  let ?cnt = "min cnt (length cs - pos)"
  have tail: "drop (pos + ?cnt) cs = drop (pos + cnt) cs" by (auto simp: min_def)
  show ?thesis
  proof (cases "pos \<le> length cs")
    case True
    show ?thesis
    proof (cases "?cnt = 0")
      case zero: True
      have "drop (pos + cnt) cs = drop pos cs" using tail zero by simp
      then show ?thesis using True zero str_repI [OF wf]
        by (simp add: Str_erase_def s str_of_size [OF wf] Let_def)
    next
      case False
      let ?tail = "drop (pos + ?cnt) cs"
      have peek: "peek (str_of large cs junk) (pos + ?cnt) (length cs - pos - ?cnt) = Inr (map Byte ?tail)"
        using str_of_peek [OF wf, of "pos + ?cnt" "length cs - pos - ?cnt"] True by simp
      have "pos + length ?tail \<le> length cs + length junk" "length cs - ?cnt = pos + length ?tail" using True by simp_all
      note written = yields_ex [OF write_tail [OF wf True this]]
      show ?thesis unfolding Str_erase_def s str_of_size [OF wf] bindE_Inr Let_def if_not_P [OF False] peek yields_ensure
        using written True by (simp add: tail)
    qed
  next
    case False
    then show ?thesis by (simp add: Str_erase_def s str_of_size [OF wf])
  qed
qed

lemma take_overwrite: "off \<le> length b \<Longrightarrow> take off (overwrite b off bs) = take off b"
  by (simp add: overwrite_def)

lemma drop_overwrite:
  "off \<le> length b \<Longrightarrow> drop off (overwrite b off bs) = bs @ drop (off + length bs) b"
  by (simp add: overwrite_def)

lemma Str_insert_yields:
  assumes "str_rep s cs" and "cnt < 2 ^ 64"
  shows "yields (pos \<le> length cs \<and> room_for ok (length cs + cnt))
     (\<lambda>s'. str_rep s' (take pos cs @ replicate cnt c @ drop pos cs)) (Str_insert ok s pos cnt c)"
proof -
  obtain large junk where s: "s = str_of large cs junk" and wf: "wf_junk large cs junk"
    by (rule str_repE [OF assms(1)])
  let ?cs = "take pos cs @ replicate cnt c @ drop pos cs"
  show ?thesis
  proof (cases "pos \<le> length cs \<and> cnt \<noteq> 0")
    case True
    then have pos: "pos \<le> length cs" and cnt: "cnt \<noteq> 0" by auto
    have "yields (room_for ok (length cs + cnt)) (\<lambda>s'. str_rep s' ?cs)
      (bindE (checked_length_sum (length cs) cnt) (\<lambda>new_size.
       bindE (grow_to_at_least ok (str_of large cs junk) new_size) (\<lambda>s.
       bindE (peek s pos (length cs - pos)) (\<lambda>tail.
       bindE (poke s (pos + cnt) tail) (\<lambda>s.
       bindE (poke s pos (replicate cnt (Byte c))) (\<lambda>s.
       bindE (set_size s new_size) ensure_null_terminated))))))"
    proof (rule sum_yields [OF _ assms(2)], rule yields_bindE [OF grow_to_at_least_yields [OF wf]])
      fix t assume "grown cs (length cs + cnt) t"
      then obtain large' junk' where t: "t = str_of large' cs junk'" and wf': "wf_junk large' cs junk'"
        and fits: "cnt \<le> length junk'" by (auto simp: grown_def)
      let ?b = "map Byte cs @ Byte 0 # junk'" and ?tail = "map Byte (drop pos cs)"
      let ?b1 = "overwrite ?b (pos + cnt) ?tail"
      let ?b2 = "overwrite ?b1 pos (map Byte (replicate cnt c))"
      have lay: "lay large' (length cs) ?b" by (rule lay_str [OF wf'])
      have len1: "length ?b1 = length ?b" using pos fits by simp
      have lay1: "lay large' (length cs) ?b1" by (rule lay_cong [OF lay len1]) simp
      have len2: "length ?b2 = length ?b" using pos fits len1 by simp
      have lay2: "lay large' (length cs) ?b2" by (rule lay_cong [OF lay1]) (use len1 len2 in simp_all)
      have peek: "peek t pos (length cs - pos) = Inr ?tail"
        using str_of_peek [OF wf', of pos "length cs - pos"] pos t by simp
      have poke1: "poke t (pos + cnt) ?tail = Inr (st large' (length cs) ?b1)"
        using poke_st [OF lay, of "pos + cnt" ?tail] pos fits by (simp add: t str_of_def)
      have poke2: "poke (st large' (length cs) ?b1) pos (replicate cnt (Byte c)) = Inr (st large' (length cs) ?b2)"
        unfolding replicate_Byte by (rule poke_st [OF lay1]) (use pos fits len1 in simp)
      have le: "pos + cnt \<le> length ?b" "pos \<le> length ?b1" using pos fits len1 by simp_all
      have "take pos ?b1 = take pos (take (pos + cnt) ?b1)" by (simp only: take_take min_def le_add1 if_True)
      then have "take pos ?b1 = take pos ?b" by (simp only: take_overwrite [OF le(1)] take_take min_def le_add1 if_True)
      moreover have "drop (pos + cnt) ?b1 = ?tail @ drop (length cs + cnt) ?b"
        using pos by (simp only: drop_overwrite [OF le(1)]) (simp add: add.assoc)
      moreover have "?b2 = take pos ?b1 @ map Byte (replicate cnt c) @ drop (pos + cnt) ?b1"
        by (simp only: overwrite_def [of ?b1] length_map length_replicate)
      ultimately have b2: "?b2 = map Byte ?cs @ drop (length cs + cnt) ?b"
        using pos by (simp add: take_map)
      have "drop (length cs + cnt) ?b \<noteq> []" using fits by simp
      from seal [OF lay2 [unfolded b2] this] pos
      have "bindE (set_size (st large' (length cs) ?b2) (length cs + cnt)) ensure_null_terminated
          = Inr (str_of large' ?cs (tl (drop (length cs + cnt) ?b)))" "wf_junk large' ?cs (tl (drop (length cs + cnt) ?b))"
        unfolding b2 by (simp_all add: add.commute)
      then show "yields (room_for ok (length cs + cnt)) (\<lambda>s'. str_rep s' ?cs)
        (bindE (peek t pos (length cs - pos)) (\<lambda>tail.
         bindE (poke t (pos + cnt) tail) (\<lambda>s.
         bindE (poke s pos (replicate cnt (Byte c))) (\<lambda>s.
         bindE (set_size s (length cs + cnt)) ensure_null_terminated))))"
        unfolding peek bindE_Inr poke1 poke2 by (simp only: yields_simps str_repI)
    qed simp
    then show ?thesis using pos cnt by (simp add: Str_insert_def s str_of_size [OF wf])
  next
    case False
    then show ?thesis using str_repI [OF wf] by (auto simp: Str_insert_def s str_of_size [OF wf])
  qed
qed

lemma Str_reserve_yields:
  assumes "str_rep s cs"
  shows "yields (room_for ok n) (\<lambda>s'. str_rep s' cs \<and> (\<exists>cap. get_capacity s' = Inr cap \<and> n \<le> cap)) (Str_reserve ok s n)"
proof -
  obtain large junk where s: "s = str_of large cs junk" and wf: "wf_junk large cs junk"
    by (rule str_repE [OF assms(1)])
  show ?thesis
  proof (cases "n > length cs + length junk")
    case True
    then have "length cs \<le> n" by simp
    from realloc_to_yields [OF wf this, of ok]
    have "yields (room_for ok n) (\<lambda>s'. str_rep s' cs \<and> (\<exists>cap. get_capacity s' = Inr cap \<and> n \<le> cap))
      (realloc_to ok (str_of large cs junk) n)"
      by (rule yields_mono) (auto simp: grown_def str_of_capacity intro: str_repI)
    then show ?thesis using True by (simp add: Str_reserve_def s str_of_capacity [OF wf])
  next
    case False
    then show ?thesis using str_repI [OF wf] str_of_capacity [OF wf] by (simp add: Str_reserve_def s)
  qed
qed

lemma inline_from_empty:
  assumes "wf_junk False [] junk" and "length cs \<le> 22"
    and "t = str_of False [] junk"
  shows "\<exists>s'. ensure_null_terminated (put_flag (t\<lparr>raw := overwrite (raw t) 0 (map Byte cs)\<rparr>)
      (word_of_nat (length cs) AND NOT kLargeFlag)) = Inr s' \<and> str_rep s' cs"
proof -
  define b where "b = Byte 0 # junk"
  define b' where "b' = map Byte cs @ drop (length cs) b"
  have len: "length b = 23" using assms(1) by (simp add: wf_junk_iff b_def)
  then have len': "length b' = 23" using assms(2) by (simp add: b'_def)
  have flag: "word_of_nat (length cs) AND NOT kLargeFlag = (word_of_nat (length cs) :: u8)"
    using assms(2) by (simp add: drop_large_flag unat_of_nat)
  have t: "raw t = b @ [Byte 0]" "heap t = None" by (simp_all add: assms(3) str_of_def st_def b_def)
  then have "overwrite (raw t) 0 (map Byte cs) = b' @ [Byte 0]"
    using assms(2) len by (simp add: overwrite_def b'_def)
  moreover have "(b' @ [Byte 0])[23 := f] = b' @ [f]" for f
    using list_update_length [of b' "Byte 0" "[]" f] by (simp only: len')
  ultimately have eq: "put_flag (t\<lparr>raw := overwrite (raw t) 0 (map Byte cs)\<rparr>) (word_of_nat (length cs) AND NOT kLargeFlag)
      = st False (length cs) b'"
    using len' t(2) by (cases t) (simp add: put_flag_def st_def flag)
  have lay: "lay False (length cs) b'" using len' assms(2) by (simp add: lay_def)
  have "drop (length cs) b \<noteq> []" using len assms(2) by simp
  from seal [OF lay [unfolded b'_def] this] set_size_st [OF lay, of "length cs"] lay
  show ?thesis unfolding eq by (auto simp: lay_def b'_def intro: str_repI)
qed

lemma Str_shrink_to_fit_yields:
  assumes "str_rep s cs"
  shows "yields (room_for ok (length cs)) (\<lambda>s'. str_rep s' cs) (Str_shrink_to_fit ok s)"
proof -
  obtain large junk where s: "s = str_of large cs junk" and wf: "wf_junk large cs junk"
    by (rule str_repE [OF assms(1)])
  note facts = str_of_large [OF wf] str_of_size [OF wf] str_of_capacity [OF wf]
  consider (same) "\<not> large \<or> junk = []" | (inline) "large" "junk \<noteq> []" "length cs \<le> 22"
    | (heap) "large" "junk \<noteq> []" "\<not> length cs \<le> 22" by blast
  then show ?thesis
  proof cases
    case same
    then show ?thesis using str_repI [OF wf] by (auto simp: Str_shrink_to_fit_def s facts)
  next
    case inline
    let ?b = "map Byte cs @ Byte 0 # junk"
    have data: "large_data (str_of True cs junk) = Inr ?b" by (simp add: large_data_def str_of_def st_def)
    have "length (raw ((str_of True cs junk)\<lparr>heap := None\<rparr>)) = 24"
      using length_raw_st [OF lay_str [OF wf]] inline(1) by (simp add: str_of_def)
    then obtain junk' where e: "init_empty ((str_of True cs junk)\<lparr>heap := None\<rparr>) = str_of False [] junk'"
      and wf': "wf_junk False [] junk'"
      using init_empty_rep [of "(str_of True cs junk)\<lparr>heap := None\<rparr>"] by auto
    obtain s' where s': "ensure_null_terminated (put_flag ((str_of False [] junk')\<lparr>raw := overwrite (raw (str_of False [] junk')) 0 (map Byte cs)\<rparr>)
      (word_of_nat (length cs) AND NOT kLargeFlag)) = Inr s'" "str_rep s' cs"
      using inline_from_empty [OF wf' inline(3) refl] by blast
    have peek: "(if length cs > 0 then peek (str_of True cs junk) 0 (length cs) else Inr []) = Inr (map Byte cs)"
      using str_of_peek [of True cs junk 0 "length cs"] wf inline(1) by simp
    have cond: "\<not> (\<not> True \<or> length cs = length cs + length junk)" using inline(2) by simp
    have small: "length cs \<le> kSmallCapacity" using inline(3) by simp
    have size: "buffer_byte_size (length cs + length junk) = length ?b"
      using wf inline(1) by (simp add: wf_junk_iff buffer_byte_size_eq)
    have large: "large = True" using inline(1) by simp
    have "Str_shrink_to_fit ok s = Inr s'"
      unfolding Str_shrink_to_fit_def s large facts [unfolded large] bindE_Inr if_not_P [OF cond] if_P [OF small]
        data peek Let_def e s'(1)
      by (simp add: size)
    then show ?thesis using s'(2) by simp
  next
    case heap
    let ?b = "map Byte cs @ Byte 0 # junk"
    have data: "large_data (str_of True cs junk) = Inr ?b" by (simp add: large_data_def str_of_def st_def)
    have "yields (room_for ok (length cs)) (\<lambda>s'. str_rep s' cs)
      (bindE (allocate_buffer ok (length cs)) (\<lambda>new_data.
       bindE (write_block new_data 0 (map Byte cs)) (\<lambda>new_data.
       bindE (write_block new_data (length cs) [Byte 0]) (\<lambda>new_data.
       adopt_buffer (str_of large cs junk) new_data (length cs) (length cs)))))"
    proof (rule yields_bindE [OF allocate_buffer_yields], elim conjE)
      fix b assume b: "b = replicate (length cs + 1) Undef" and cap: "length cs \<le> kMaxCapacity"
      show "yields (room_for ok (length cs)) (\<lambda>s'. str_rep s' cs)
        (bindE (write_block b 0 (map Byte cs)) (\<lambda>new_data.
         bindE (write_block new_data (length cs) [Byte 0]) (\<lambda>new_data.
         adopt_buffer (str_of large cs junk) new_data (length cs) (length cs))))"
        using fill_block [of cs "length cs"] adopt_str_of [OF wf le_refl cap]
        by (simp add: b str_repI del: replicate_Suc)
    qed
    then show ?thesis using heap facts by (simp add: Str_shrink_to_fit_def s data)
  qed
qed

lemma CountStringLength_zero:
  assumes "0 \<in> set xs" and "length (takeWhile (\<lambda>x. x \<noteq> 0) xs) \<le> limit"
  shows "CountStringLength xs limit = Inr (length (takeWhile (\<lambda>x. x \<noteq> 0) xs))"
proof -
  let ?ys = "takeWhile (\<lambda>x. x \<noteq> 0) xs"
  have "dropWhile (\<lambda>x. x \<noteq> 0) xs \<noteq> []" using assms(1) by (simp add: dropWhile_eq_Nil_conv)
  then obtain z zs where d: "dropWhile (\<lambda>x. x \<noteq> 0) xs = z # zs" by (cases "dropWhile (\<lambda>x. x \<noteq> 0) xs") auto
  then have "z = 0" using hd_dropWhile [of "\<lambda>x. x \<noteq> 0" xs] by simp
  then have xs: "xs = ?ys @ 0 # zs" using takeWhile_dropWhile_id [of "\<lambda>x. x \<noteq> 0" xs] d by simp
  have "0 \<notin> set ?ys" using set_takeWhileD by fastforce
  from CountStringLength_terminated [OF this assms(2), of zs] show ?thesis using xs by simp
qed

text \<open>The characters of a null-terminated argument.\<close>

definition cstr_denotes :: "u8 list \<Rightarrow> cptr \<Rightarrow> u8 list \<Rightarrow> bool" where
  "cstr_denotes cs p ys \<longleftrightarrow>
     (case p of Null \<Rightarrow> False
      | Ext xs \<Rightarrow> 0 \<in> set xs \<and> ys = takeWhile (\<lambda>x. x \<noteq> 0) xs \<and> length ys \<le> npos
      | Own off \<Rightarrow> off \<le> length cs \<and> ys = takeWhile (\<lambda>x. x \<noteq> 0) (drop off cs))"

lemma takeWhile_sentinel: "takeWhile (\<lambda>x. x \<noteq> 0) (xs @ 0 # ys) = takeWhile (\<lambda>x. x \<noteq> 0) xs"
  by (induction xs) auto

lemma cstr_denotes_src: "cstr_denotes cs p ys \<Longrightarrow> src_denotes cs p (length ys) ys"
proof (cases p)
  case (Ext xs)
  assume "cstr_denotes cs p ys"
  then show ?thesis using Ext length_takeWhile_le [of _ xs] by (auto simp: cstr_denotes_def src_denotes_def simp flip: takeWhile_eq_take)
next
  case (Own off)
  assume "cstr_denotes cs p ys"
  moreover have "length (takeWhile (\<lambda>x. x \<noteq> 0) (drop off cs)) \<le> length cs - off"
    using length_takeWhile_le [of _ "drop off cs"] by simp
  ultimately show ?thesis using Own
    by (simp add: cstr_denotes_def src_denotes_def le_diff_conv2 add.commute flip: takeWhile_eq_take)
qed (simp add: cstr_denotes_def)

lemma wf_junk_bound: "wf_junk large cs junk \<Longrightarrow> length cs \<le> npos"
  by (auto simp: wf_junk_iff kMaxCapacity_eq npos_def split: if_splits)

lemma cstr_denotes_length:
  assumes "wf_junk large cs junk" and "cstr_denotes cs p ys"
  shows "ptr_length (str_of large cs junk) p = Inr (length ys)"
proof (cases p)
  case Null
  then show ?thesis using assms(2) by (simp add: cstr_denotes_def)
next
  case (Ext xs)
  then show ?thesis using assms(2) CountStringLength_zero [of xs npos]
    by (auto simp: ptr_length_def ptr_chars_def cstr_denotes_def)
next
  case (Own off)
  then have off: "off \<le> length cs" and ys: "ys = takeWhile (\<lambda>x. x \<noteq> 0) (drop off cs)"
    using assms(2) by (auto simp: cstr_denotes_def)
  let ?rest = "map byte_val (takeWhile is_Byte junk)"
  have "drop off (map Byte cs @ Byte 0 # junk) = map Byte (drop off cs) @ Byte 0 # junk"
    using off by (simp add: drop_map)
  moreover have "takeWhile is_Byte (map Byte (drop off cs) @ Byte 0 # junk) = map Byte (drop off cs) @ Byte 0 # takeWhile is_Byte junk"
    by (subst takeWhile_append2) auto
  ultimately have chars: "ptr_chars (str_of large cs junk) p = Inr (drop off cs @ 0 # ?rest)"
    by (simp add: ptr_chars_def Own str_of_data [OF assms(1)] comp_def)
  have "length ys \<le> npos"
    using length_takeWhile_le [of "\<lambda>x. x \<noteq> 0" "drop off cs"] wf_junk_bound [OF assms(1)] by (simp add: ys)
  then show ?thesis
    using CountStringLength_zero [of "drop off cs @ 0 # ?rest" npos] by (simp add: ptr_length_def chars takeWhile_sentinel ys)
qed

lemma Str_assign_cstr_yields:
  assumes "str_rep s cs" and "cstr_denotes cs p ys"
  shows "yields (room_for ok (length ys)) (\<lambda>s'. str_rep s' ys) (Str_assign_cstr ok s p)"
proof (rule str_repE [OF assms(1)])
  fix large junk assume s: "s = str_of large cs junk" and wf: "wf_junk large cs junk"
  from Str_assign_yields [OF assms(1) cstr_denotes_src [OF assms(2)]] cstr_denotes_length [OF wf assms(2)]
  show ?thesis by (simp add: Str_assign_cstr_def s)
qed

lemma Str_append_cstr_yields:
  assumes "str_rep s cs" and "cstr_denotes cs p ys"
  shows "yields (room_for ok (length cs + length ys)) (\<lambda>s'. str_rep s' (cs @ ys)) (Str_append_cstr ok s p)"
proof (rule str_repE [OF assms(1)])
  fix large junk assume s: "s = str_of large cs junk" and wf: "wf_junk large cs junk"
  from Str_append_yields [OF assms(1) cstr_denotes_src [OF assms(2)]] cstr_denotes_length [OF wf assms(2)]
  show ?thesis by (simp add: Str_append_cstr_def s)
qed

lemma other_chars_rep: "str_rep s cs \<Longrightarrow> other_chars s = Inr cs"
  by (auto simp: other_chars_def str_of_size str_of_load elim!: str_repE)

lemma get_size_rep: "str_rep s cs \<Longrightarrow> get_size s = Inr (length cs)"
  by (auto simp: str_of_size elim!: str_repE)

lemma load_rep: "str_rep s cs \<Longrightarrow> off + k \<le> length cs \<Longrightarrow> load s off k = Inr (take k (drop off cs))"
  by (auto simp: str_of_load elim!: str_repE)

lemma src_denotes_all: "src_denotes xs (Ext cs) (length cs) cs"
  by (simp add: src_denotes_def)

lemma Str_assign_str_yields:
  assumes "str_rep s cs" and "str_rep t ds"
  shows "yields (room_for ok (length ds)) (\<lambda>s'. str_rep s' ds) (Str_assign_str ok s t)"
  using Str_assign_yields [OF assms(1) src_denotes_all, of ok ds] by (simp add: Str_assign_str_def other_chars_rep [OF assms(2)])

lemma Str_append_str_yields:
  assumes "str_rep s cs" and "case t of None \<Rightarrow> ds = cs | Some t \<Rightarrow> str_rep t ds"
  shows "yields (room_for ok (length cs + length ds)) (\<lambda>s'. str_rep s' (cs @ ds)) (Str_append_str ok s t)"
proof (cases t)
  case None
  then have "src_denotes cs (Own 0) (length cs) ds" using assms(2) by (simp add: src_denotes_def)
  from Str_append_yields [OF assms(1) this] show ?thesis
    using None assms(2) by (simp add: Str_append_str_def get_size_rep [OF assms(1)])
next
  case (Some u)
  then show ?thesis using Str_append_yields [OF assms(1) src_denotes_all, of ok ds] assms(2)
    by (simp add: Str_append_str_def other_chars_rep)
qed

lemma Str_copy_yields:
  assumes "str_rep s cs"
  shows "yields (room_for ok (length cs)) (\<lambda>s'. str_rep s' cs) (Str_copy ok s)"
proof (rule str_repE [OF assms(1)])
  fix large junk assume s: "s = str_of large cs junk" and wf: "wf_junk large cs junk"
  show ?thesis
  proof (cases large)
    case True
    then have s: "s = str_of True cs junk" using s by simp
    have fields: "large_data s = Inr (map Byte cs @ Byte 0 # junk)" "large_size s = Inr (length cs)"
      using True wf_junk_bound [OF wf] str_of_size [OF wf] str_of_large [OF wf]
      by (simp_all add: s large_data_def str_of_def st_def get_size_def)
    show ?thesis using Str_assign_yields [OF Str_new_rep src_denotes_all, of ok cs] str_of_large [OF wf] True
      by (simp add: Str_copy_def s fields [unfolded s])
  next
    case False
    have "\<lparr>raw = raw s, heap = None\<rparr> = s" using False by (cases s) (simp add: s str_of_def st_def)
    then show ?thesis using False assms str_of_large [OF wf] by (simp add: Str_copy_def s)
  qed
qed

lemma Str_move_rep:
  assumes "str_rep s cs"
  shows "str_rep (fst (Str_move s)) cs" and "str_rep (snd (Str_move s)) []"
proof -
  show "str_rep (fst (Str_move s)) cs" using assms by (simp add: Str_move_def)
  obtain large junk where s: "s = str_of large cs junk" and wf: "wf_junk large cs junk"
    by (rule str_repE [OF assms])
  have "length (raw (s\<lparr>heap := None\<rparr>)) = 24" using length_raw_st [OF lay_str [OF wf]] by (simp add: s str_of_def)
  from init_empty_rep [OF this] show "str_rep (snd (Str_move s)) []"
    by (auto simp: Str_move_def intro: str_repI)
qed

lemma Str_plus_yields:
  assumes "str_rep s cs" and "str_rep t ds"
  shows "yields (room_for ok (length cs + length ds)) (\<lambda>s'. str_rep s' (cs @ ds)) (Str_plus ok s t)"
proof -
  let ?room = "room_for ok (length cs + length ds)"
  have weaken: "yields (room_for ok n) P m \<Longrightarrow> n \<le> length cs + length ds \<Longrightarrow> yields ?room P m" for n P and m :: "bstr res"
    using room_for_mono [of ok "length cs + length ds" n] by (cases m) auto
  have "(length cs + length ds) mod 2 ^ 64 \<le> length cs + length ds" by simp
  note reserve = weaken [OF Str_reserve_yields [OF Str_new_rep] this]
  show ?thesis
    unfolding Str_plus_def get_size_rep [OF assms(1)] get_size_rep [OF assms(2)] bindE_Inr
  proof (rule yields_bindE [OF reserve], elim conjE)
    fix u assume u: "str_rep u []"
    have "yields ?room (\<lambda>s'. str_rep s' cs) (Str_append_str ok u (Some s))"
      using weaken [OF Str_append_str_yields [OF u, where t = "Some s" and ds = cs and ok = ok]] assms(1) by simp
    then show "yields ?room (\<lambda>s'. str_rep s' (cs @ ds))
        (bindE (Str_append_str ok u (Some s)) (\<lambda>result. Str_append_str ok result (Some t)))"
      by (rule yields_bindE) (use Str_append_str_yields [where cs = cs and t = "Some t" and ds = ds and ok = ok] assms(2) in simp)
  qed
qed

lemma Str_substr_yields:
  assumes "str_rep s cs"
  shows "yields (pos \<le> length cs \<and> room_for ok (min n (length cs - pos)))
     (\<lambda>s'. str_rep s' (take n (drop pos cs))) (Str_substr ok s pos n)"
proof (cases "pos \<le> length cs")
  case True
  let ?n = "min n (length cs - pos)"
  have load: "load s pos ?n = Inr (take n (drop pos cs))"
    using load_rep [OF assms, of pos ?n] True by (auto simp: min_def)
  have "src_denotes [] (Ext (take n (drop pos cs))) ?n (take n (drop pos cs))"
    using True by (auto simp: src_denotes_def min_def)
  from Str_assign_yields [OF Str_new_rep this, of ok] show ?thesis
    using True load by (simp add: Str_substr_def get_size_rep [OF assms] Let_def Str_of_chars_def)
next
  case False
  then show ?thesis by (simp add: Str_substr_def get_size_rep [OF assms])
qed

section \<open>Access\<close>

lemma char_at_rep: "str_rep s cs \<Longrightarrow> i < length cs \<Longrightarrow> char_at s i = Inr (cs ! i)"
  by (simp add: char_at_def load_rep Suc_le_eq hd_drop_conv_nth)

lemma Str_empty_rep: "str_rep s cs \<Longrightarrow> Str_empty s = Inr (cs = [])"
  by (simp add: Str_empty_def get_size_rep)

lemma Str_front_rep: "str_rep s cs \<Longrightarrow> cs \<noteq> [] \<Longrightarrow> Str_front s = Inr (hd cs)"
  by (simp add: Str_front_def Str_empty_rep char_at_rep hd_conv_nth)

lemma Str_back_rep: "str_rep s cs \<Longrightarrow> cs \<noteq> [] \<Longrightarrow> Str_back s = Inr (last cs)"
  by (simp add: Str_back_def Str_empty_rep get_size_rep char_at_rep last_conv_nth)

lemma Str_index_rep:
  "str_rep s cs \<Longrightarrow> Str_index s i = (if i < length cs then Inr (cs ! i) else Inl (BugCheck ''Index out of bounds''))"
  by (simp add: Str_index_def get_size_rep char_at_rep bindE_ensure)

lemma Str_at_rep:
  "str_rep s cs \<Longrightarrow> Str_at s i = (if i < length cs then Inr (cs ! i) else Inl (BugCheck ''Position out of bounds''))"
  by (simp add: Str_at_def get_size_rep char_at_rep bindE_ensure)

lemma Str_index_store_yields:
  assumes "str_rep s cs"
  shows "yields (i < length cs) (\<lambda>s'. str_rep s' (cs[i := c])) (Str_index_store s i c)"
proof (cases "i < length cs")
  case True
  obtain large junk where s: "s = str_of large cs junk" and wf: "wf_junk large cs junk"
    by (rule str_repE [OF assms(1)])
  have eq: "map Byte (take i cs) @ [Byte c] @ drop (i + length [Byte c]) (map Byte cs @ Byte 0 # junk)
      = map Byte (cs[i := c]) @ Byte 0 # junk"
    using True by (simp add: upd_conv_take_nth_drop drop_map)
  have "poke (str_of large cs junk) i [Byte c] = Inr (st large (length cs) (map Byte (cs[i := c]) @ Byte 0 # junk))"
    unfolding eq [symmetric] by (rule poke_str_of [OF wf]) (use True in simp_all)
  then have "poke (str_of large cs junk) i [Byte c] = Inr (str_of large (cs[i := c]) junk)"
    by (simp add: str_of_def)
  moreover have "wf_junk large (cs[i := c]) junk" using wf by (simp add: wf_junk_iff)
  ultimately show ?thesis using True
    by (simp add: Str_index_store_def get_size_rep [OF assms]) (simp add: s str_repI)
next
  case False
  then show ?thesis by (simp add: Str_index_store_def get_size_rep [OF assms])
qed

section \<open>Runs of modifiers\<close>

text \<open>Counts are \<open>size_type\<close> values, hence words.\<close>

datatype str_op =
    SAssign cptr u64
  | SAssignCstr cptr
  | SAppend cptr u64
  | SAppendCstr cptr
  | SAppendSelf
  | SAppendFill u64 u8
  | SPushBack u8
  | SPopBack
  | SInsert u64 u64 u8
  | SErase u64 u64
  | SRemoveSuffix u64
  | SResize u64
  | SReserve u64
  | SShrink
  | SClear
  | SStore u64 u8

fun str_step :: "(nat \<Rightarrow> bool) \<Rightarrow> str_op \<Rightarrow> bstr \<Rightarrow> bstr res" where
  "str_step ok (SAssign p n) s = Str_assign ok s p (unat n)"
| "str_step ok (SAssignCstr p) s = Str_assign_cstr ok s p"
| "str_step ok (SAppend p n) s = Str_append ok s p (unat n)"
| "str_step ok (SAppendCstr p) s = Str_append_cstr ok s p"
| "str_step ok SAppendSelf s = Str_append_str ok s None"
| "str_step ok (SAppendFill n c) s = Str_append_fill ok s (unat n) c"
| "str_step ok (SPushBack c) s = Str_push_back ok s c"
| "str_step ok SPopBack s = Str_pop_back s"
| "str_step ok (SInsert pos n c) s = Str_insert ok s (unat pos) (unat n) c"
| "str_step ok (SErase pos n) s = Str_erase s (unat pos) (unat n)"
| "str_step ok (SRemoveSuffix n) s = Str_remove_suffix s (unat n)"
| "str_step ok (SResize n) s = Str_resize ok s (unat n)"
| "str_step ok (SReserve n) s = Str_reserve ok s (unat n)"
| "str_step ok SShrink s = Str_shrink_to_fit ok s"
| "str_step ok SClear s = Str_clear s"
| "str_step ok (SStore i c) s = Str_index_store s (unat i) c"

text \<open>What a pointer argument names, as a function.\<close>

fun src_chars :: "u8 list \<Rightarrow> cptr \<Rightarrow> nat \<Rightarrow> u8 list" where
  "src_chars cs Null n = []"
| "src_chars cs (Ext xs) n = take n xs"
| "src_chars cs (Own off) n = take n (drop off cs)"

fun cstr_chars :: "u8 list \<Rightarrow> cptr \<Rightarrow> u8 list" where
  "cstr_chars cs Null = []"
| "cstr_chars cs (Ext xs) = takeWhile (\<lambda>x. x \<noteq> 0) xs"
| "cstr_chars cs (Own off) = takeWhile (\<lambda>x. x \<noteq> 0) (drop off cs)"

text \<open>The same operations on the list of characters, the obligation of the caller (pointer
  arguments name characters that are there), and the condition under which the code accepts.\<close>

fun str_effect :: "str_op \<Rightarrow> u8 list \<Rightarrow> u8 list" where
  "str_effect (SAssign p n) cs = src_chars cs p (unat n)"
| "str_effect (SAssignCstr p) cs = cstr_chars cs p"
| "str_effect (SAppend p n) cs = cs @ src_chars cs p (unat n)"
| "str_effect (SAppendCstr p) cs = cs @ cstr_chars cs p"
| "str_effect SAppendSelf cs = cs @ cs"
| "str_effect (SAppendFill n c) cs = cs @ replicate (unat n) c"
| "str_effect (SPushBack c) cs = cs @ [c]"
| "str_effect SPopBack cs = butlast cs"
| "str_effect (SInsert pos n c) cs = take (unat pos) cs @ replicate (unat n) c @ drop (unat pos) cs"
| "str_effect (SErase pos n) cs = take (unat pos) cs @ drop (unat pos + unat n) cs"
| "str_effect (SRemoveSuffix n) cs = take (length cs - unat n) cs"
| "str_effect (SResize n) cs = take (unat n) cs @ replicate (unat n - length cs) 0"
| "str_effect (SReserve n) cs = cs"
| "str_effect SShrink cs = cs"
| "str_effect SClear cs = []"
| "str_effect (SStore i c) cs = cs[unat i := c]"

fun str_arg_ok :: "str_op \<Rightarrow> u8 list \<Rightarrow> bool" where
  "str_arg_ok (SAssign p n) cs = src_denotes cs p (unat n) (src_chars cs p (unat n))"
| "str_arg_ok (SAppend p n) cs = src_denotes cs p (unat n) (src_chars cs p (unat n))"
| "str_arg_ok (SAssignCstr p) cs = cstr_denotes cs p (cstr_chars cs p)"
| "str_arg_ok (SAppendCstr p) cs = cstr_denotes cs p (cstr_chars cs p)"
| "str_arg_ok _ cs = True"

fun str_accepts :: "(nat \<Rightarrow> bool) \<Rightarrow> str_op \<Rightarrow> u8 list \<Rightarrow> bool" where
  "str_accepts ok SPopBack cs = (cs \<noteq> [])"
| "str_accepts ok (SInsert pos n c) cs = (unat pos \<le> length cs \<and> room_for ok (length cs + unat n))"
| "str_accepts ok (SErase pos n) cs = (unat pos \<le> length cs)"
| "str_accepts ok (SRemoveSuffix n) cs = (unat n \<le> length cs)"
| "str_accepts ok (SStore i c) cs = (unat i < length cs)"
| "str_accepts ok (SReserve n) cs = room_for ok (unat n)"
| "str_accepts ok op cs = room_for ok (length (str_effect op cs))"

fun str_run :: "(nat \<Rightarrow> bool) \<Rightarrow> str_op list \<Rightarrow> bstr \<Rightarrow> bstr res" where
  "str_run ok [] s = Inr s"
| "str_run ok (op # ops) s = bindE (str_step ok op s) (str_run ok ops)"

fun str_effects :: "str_op list \<Rightarrow> u8 list \<Rightarrow> u8 list" where
  "str_effects [] cs = cs"
| "str_effects (op # ops) cs = str_effects ops (str_effect op cs)"

fun str_args_ok :: "str_op list \<Rightarrow> u8 list \<Rightarrow> bool" where
  "str_args_ok [] cs = True"
| "str_args_ok (op # ops) cs = (str_arg_ok op cs \<and> str_args_ok ops (str_effect op cs))"

fun str_all_accepted :: "(nat \<Rightarrow> bool) \<Rightarrow> str_op list \<Rightarrow> u8 list \<Rightarrow> bool" where
  "str_all_accepted ok [] cs = True"
| "str_all_accepted ok (op # ops) cs = (str_accepts ok op cs \<and> str_all_accepted ok ops (str_effect op cs))"

lemma unat_u64_less: "unat (w :: u64) < 18446744073709551616"
  using unsigned_less [of w] by simp

lemma resize_length: "length (take n cs @ replicate (n - length cs) 0) = n"
  by simp

lemma str_step_yields:
  assumes "str_rep s cs" and "str_arg_ok op cs"
  shows "yields (str_accepts ok op cs) (\<lambda>s'. str_rep s' (str_effect op cs)) (str_step ok op s)"
proof (cases op)
  case (SAssign p n)
  have "str_arg_ok op cs \<Longrightarrow> length (src_chars cs p (unat n)) = unat n" using SAssign src_denotes_length by auto
  then show ?thesis using SAssign Str_assign_yields [OF assms(1), of p "unat n" _ ok] assms(2) by simp
next
  case (SAppend p n)
  have "str_arg_ok op cs \<Longrightarrow> length (src_chars cs p (unat n)) = unat n" using SAppend src_denotes_length by auto
  then show ?thesis using SAppend Str_append_yields [OF assms(1), of p "unat n" _ ok] assms(2) by simp
next
  case SAppendSelf
  then show ?thesis using Str_append_str_yields [OF assms(1), where t = None and ds = cs and ok = ok] by simp
next
  case (SReserve n)
  then show ?thesis using Str_reserve_yields [OF assms(1), of ok "unat n"] by (auto elim: yields_mono)
next
  case (SResize n)
  have "min (length cs) k + (k - length cs) = k" for k by (simp add: min_def)
  then show ?thesis using SResize Str_resize_yields [OF assms(1), of ok "unat n"] by simp
next
  case SClear
  then show ?thesis using Str_clear_rep [OF assms(1)] by auto
qed (use assms(2) unat_u64_less in
  \<open>simp_all add: Str_assign_cstr_yields [OF assms(1)] Str_append_cstr_yields [OF assms(1)]
     Str_append_fill_yields [OF assms(1)] Str_push_back_yields [OF assms(1), simplified] Str_pop_back_yields [OF assms(1)]
     Str_insert_yields [OF assms(1)] Str_erase_yields [OF assms(1)] Str_remove_suffix_yields [OF assms(1)]
     Str_shrink_to_fit_yields [OF assms(1)] Str_index_store_yields [OF assms(1)]\<close>)

lemma str_run_yields:
  "str_rep s cs \<Longrightarrow> str_args_ok ops cs \<Longrightarrow>
     yields (str_all_accepted ok ops cs) (\<lambda>s'. str_rep s' (str_effects ops cs)) (str_run ok ops s)"
proof (induction ops arbitrary: s cs)
  case (Cons op ops)
  have step: "yields (str_accepts ok op cs) (\<lambda>s'. str_rep s' (str_effect op cs)) (str_step ok op s)"
    using Cons.prems by (intro str_step_yields) simp_all
  have rest: "yields (str_all_accepted ok (op # ops) cs) (\<lambda>s'. str_rep s' (str_effects ops (str_effect op cs)))
      (str_run ok ops t)" if "str_rep t (str_effect op cs)" for t
    by (rule yields_weaken [OF Cons.IH [OF that]]) (use Cons.prems in simp_all)
  show ?case
    unfolding str_run.simps str_effects.simps
    by (rule yields_bindE [OF yields_weaken [OF step]]) (use rest in simp_all)
qed simp

section \<open>The string as a sequence of characters\<close>

definition wf_str :: "bstr \<Rightarrow> bool" where
  "wf_str s \<longleftrightarrow> (\<exists>cs. str_rep s cs)"

definition str_chars :: "bstr \<Rightarrow> u8 list" where
  "str_chars s = (case other_chars s of Inr cs \<Rightarrow> cs | Inl _ \<Rightarrow> [])"

lemma str_chars_rep: "str_rep s cs \<Longrightarrow> str_chars s = cs"
  by (simp add: str_chars_def other_chars_rep)

lemma wf_str_rep: "wf_str s \<longleftrightarrow> str_rep s (str_chars s)"
  by (auto simp: wf_str_def str_chars_rep)

interpretation string_seq: sequence wf_str str_chars Str_new "Str_push_back ok" Str_pop_back Str_back Str_index
proof unfold_locales
  show "wf_str Str_new" "str_chars Str_new = []" using Str_new_rep by (auto simp: wf_str_def str_chars_rep)
next
  fix s s' x assume "wf_str s" "Str_push_back ok s x = Inr s'"
  then have "str_rep s' (str_chars s @ [x])"
    using Str_push_back_yields [of s "str_chars s" ok x] by (simp add: wf_str_rep)
  then show "wf_str s' \<and> str_chars s' = str_chars s @ [x]" by (auto simp: wf_str_def str_chars_rep)
next
  fix s assume "wf_str s" "str_chars s \<noteq> []"
  then obtain s' where "Str_pop_back s = Inr s'" "str_rep s' (butlast (str_chars s))"
    using Str_pop_back_yields [of s "str_chars s"] by (cases "Str_pop_back s") (auto simp: wf_str_rep)
  then show "\<exists>s'. Str_pop_back s = Inr s' \<and> wf_str s' \<and> str_chars s' = butlast (str_chars s)"
    by (auto simp: wf_str_def str_chars_rep)
next
  fix s assume "wf_str s" "str_chars s \<noteq> []"
  then show "Str_back s = Inr (last (str_chars s))" by (simp add: wf_str_rep Str_back_rep)
next
  fix s i assume "wf_str s" "i < length (str_chars s)"
  then show "Str_index s i = Inr (str_chars s ! i)" by (simp add: wf_str_rep Str_index_rep)
qed

section \<open>Properties\<close>

text \<open>
  (C6) Any sequence of modifiers, among them assigning and appending parts of the string to
  itself, from the empty string: either the code stops at one of its checks, or the string
  holds exactly the characters the same operations give on lists, is still well formed, is
  null terminated and gives its block back when destroyed. If every argument is in range, every
  length fits \<open>max_size()\<close> and the allocator grants every request, the run does not stop.
\<close>

theorem string_run_refines:
  assumes "str_args_ok ops []"
  shows "yields (str_all_accepted ok ops [])
     (\<lambda>s. wf_str s \<and> str_chars s = str_effects ops [] \<and> get_size s = Inr (length (str_effects ops [])) \<and>
          char_at s (length (str_effects ops [])) = Inr 0 \<and> (\<exists>s'. Str_destroy s = Inr s' \<and> heap s' = None))
     (str_run ok ops Str_new)"
proof (rule yields_mono [OF str_run_yields [OF Str_new_rep assms]])
  fix s assume rep: "str_rep s (str_effects ops [])"
  then obtain large junk where s: "s = str_of large (str_effects ops []) junk" "wf_junk large (str_effects ops []) junk"
    by (rule str_repE)
  then have "char_at s (length (str_effects ops [])) = Inr 0"
    using defined_chars_map [of "[0]"]
    by (simp add: char_at_def load_def peek_def str_of_data wf_junk_def del: defined_chars_map)
  then show "wf_str s \<and> str_chars s = str_effects ops [] \<and> get_size s = Inr (length (str_effects ops [])) \<and>
      char_at s (length (str_effects ops [])) = Inr 0 \<and> (\<exists>s'. Str_destroy s = Inr s' \<and> heap s' = None)"
    using rep Str_destroy_frees [OF rep] by (auto simp: wf_str_def str_chars_rep get_size_rep)
qed

theorem string_run_refines_witness:
  "\<exists>s. str_run (\<lambda>_. True) [SAssignCstr (Ext [104, 105, 0]), SAppendSelf, SAppend (Own 1) 2] Str_new = Inr s \<and>
     str_chars s = [104, 105, 104, 105, 105, 104]"
proof -
  let ?ops = "[SAssignCstr (Ext [104, 105, 0]), SAppendSelf, SAppend (Own 1) 2]"
  have args: "str_args_ok ?ops []" by (simp add: cstr_denotes_def src_denotes_def npos_def)
  have "str_all_accepted (\<lambda>_. True) ?ops []" by (simp add: room_for_def kMaxCapacity_eq)
  moreover have "str_effects ?ops [] = [104, 105, 104, 105, 105, 104]" by simp
  ultimately show ?thesis using string_run_refines [OF args, of "\<lambda>_. True"]
    by (cases "str_run (\<lambda>_. True) ?ops Str_new") auto
qed

text \<open>
  (C26) The flag bit and the capacity share a byte without getting in each other's way: after
  a string has taken over a block of any capacity up to \<open>max_size()\<close>, the size, the capacity
  and the block read back as they were stored and the string counts as large; an inline string
  reads back as not large with the inline capacity, whatever its characters are.
\<close>

theorem sso_layout_roundtrip:
  assumes "str_rep s cs" and "length b = cap + 1" and "n \<le> cap" and "cap \<le> Str_max_size"
  shows "(\<exists>s'. adopt_buffer s b n cap = Inr s' \<and> is_large s' = Inr True \<and> get_size s' = Inr n \<and>
       get_capacity s' = Inr cap \<and> get_data s' = Inr b \<and> length (raw s') = sizeof_LargeLayout) \<and>
     (Str_is_inline s = Inr True \<longrightarrow> get_capacity s = Inr 22 \<and> heap s = None)"
proof
  obtain large junk where s: "s = str_of large cs junk" and wf: "wf_junk large cs junk"
    by (rule str_repE [OF assms(1)])
  have lay: "lay True n b" using assms(2-4) by (simp add: lay_def Str_max_size_def)
  have "adopt_buffer s b n cap = Inr (st True n b)"
    using adopt_buffer_st [OF lay_str [OF wf] assms(2)] assms(4) by (simp add: s str_of_def Str_max_size_def)
  then show "\<exists>s'. adopt_buffer s b n cap = Inr s' \<and> is_large s' = Inr True \<and> get_size s' = Inr n \<and>
       get_capacity s' = Inr cap \<and> get_data s' = Inr b \<and> length (raw s') = sizeof_LargeLayout"
    using lay assms(2) length_raw_st [OF lay] by (simp add: string_ops sizeof_LargeLayout_def)
  show "Str_is_inline s = Inr True \<longrightarrow> get_capacity s = Inr 22 \<and> heap s = None"
    using wf str_of_large [OF wf] str_of_capacity [OF wf]
    by (cases large) (simp_all add: Str_is_inline_def s wf_junk_iff str_of_def st_def)
qed

theorem sso_layout_roundtrip_witness:
  "\<exists>s'. adopt_buffer Str_new (replicate 31 (Byte 7)) 5 30 = Inr s' \<and> get_size s' = Inr 5 \<and> get_capacity s' = Inr 30"
  using sso_layout_roundtrip [OF Str_new_rep, of "replicate 31 (Byte 7)" 30 5]
  by (auto simp: Str_max_size_def kMaxCapacity_eq)

text \<open>
  Characters pushed onto a string come back in reverse order from \<open>back\<close> and
  \<open>pop_back\<close>, across the change from inline to heap storage, and leave it empty.
\<close>

theorem string_push_drain:
  assumes "push_list (Str_push_back ok) Str_new cs = Inr s"
  shows "\<exists>s'. drain Str_back Str_pop_back s (length cs) = Inr (rev cs, s') \<and> wf_str s' \<and> str_chars s' = []"
  by (rule string_seq.push_then_drain_reverses [OF assms])

theorem string_push_drain_witness:
  "\<exists>s s'. push_list (Str_push_back (\<lambda>_. True)) Str_new [1, 2] = Inr s \<and>
     drain Str_back Str_pop_back s 2 = Inr ([2, 1], s')"
proof -
  obtain s where s: "Str_push_back (\<lambda>_. True) Str_new 1 = Inr s" "str_rep s [1]"
    using Str_push_back_yields [OF Str_new_rep, of "\<lambda>_. True" 1]
    by (cases "Str_push_back (\<lambda>_. True) Str_new 1") (auto simp: room_for_def kMaxCapacity_eq)
  obtain t where t: "Str_push_back (\<lambda>_. True) s 2 = Inr t"
    using Str_push_back_yields [OF s(2), of "\<lambda>_. True" 2]
    by (cases "Str_push_back (\<lambda>_. True) s 2") (auto simp: room_for_def kMaxCapacity_eq)
  have "push_list (Str_push_back (\<lambda>_. True)) Str_new [1, 2] = Inr t" using s t by simp
  from string_push_drain [OF this] this show ?thesis by (auto simp: numeral_2_eq_2)
qed

end
