(* ===== verification/Base_String_Query.thy ===== *)
theory Base_String_Query
  imports Base_String
begin

text \<open>
  The const operations of \<open>strings/base_string.h\<close>: comparison and search. A pointer argument
  is null, characters of the caller, or the string's own buffer; where the code walks a loop
  over the characters the model walks the list it loads them into.
\<close>

section \<open>Comparison\<close>

text \<open>\<open>memcmp\<close> over two ranges of one length; only the sign of its result is specified.\<close>

fun MemCompare :: "u8 list \<Rightarrow> u8 list \<Rightarrow> int" where
  "MemCompare (x # xs) (y # ys) = (if x < y then - 1 else if y < x then 1 else MemCompare xs ys)"
| "MemCompare _ _ = 0"

definition ptr_load :: "bstr \<Rightarrow> cptr \<Rightarrow> nat \<Rightarrow> u8 list res" where
  "ptr_load s p n = bindE (read_ptr s p n) defined_chars"

definition by_length :: "int \<Rightarrow> nat \<Rightarrow> nat \<Rightarrow> int" where
  "by_length result left_size right_size =
     (if result \<noteq> 0 then result
      else if left_size < right_size then - 1 else if left_size > right_size then 1 else 0)"

definition Str_compare :: "bstr \<Rightarrow> bstr \<Rightarrow> int res" where
  "Str_compare s other =
     bindE (get_size s) (\<lambda>left_size.
     bindE (get_size other) (\<lambda>right_size.
     let min_size = min left_size right_size in
     bindE (load s 0 min_size) (\<lambda>xs.
     bindE (load other 0 min_size) (\<lambda>ys.
     Inr (by_length (MemCompare xs ys) left_size right_size)))))"

definition Str_compare_n :: "bstr \<Rightarrow> cptr \<Rightarrow> nat \<Rightarrow> int res" where
  "Str_compare_n s str cnt =
     bindE (get_size s) (\<lambda>left_size.
     let min_size = min left_size cnt in
     bindE (load s 0 min_size) (\<lambda>xs.
     bindE (ptr_load s str min_size) (\<lambda>ys.
     Inr (by_length (MemCompare xs ys) left_size cnt))))"

definition Str_compare_cstr :: "bstr \<Rightarrow> cptr \<Rightarrow> int res" where
  "Str_compare_cstr s str =
     bindE (get_size s) (\<lambda>left_size.
     bindE (ptr_length s str) (\<lambda>right_size.
     let min_size = min left_size right_size in
     bindE (load s 0 min_size) (\<lambda>xs.
     bindE (ptr_load s str min_size) (\<lambda>ys.
     Inr (by_length (MemCompare xs ys) left_size right_size)))))"

text \<open>The window at \<open>offset\<close> against the first \<open>cnt\<close> characters of \<open>str\<close>.\<close>

definition Str_compare_at :: "bstr \<Rightarrow> nat \<Rightarrow> nat \<Rightarrow> cptr \<Rightarrow> int res" where
  "Str_compare_at s offset cnt str =
     bindE (get_size s) (\<lambda>n.
     bindE (ensure (offset \<le> n) (BugCheck ''Offset out of bounds'')) (\<lambda>_.
     let left_size = n - offset; min_size = min left_size cnt in
     bindE (load s offset min_size) (\<lambda>xs.
     bindE (ptr_load s str min_size) (\<lambda>ys.
     let result = MemCompare xs ys in
     Inr (if result \<noteq> 0 then result else if left_size < cnt then - 1 else 0)))))"

definition Str_compare_sub :: "bstr \<Rightarrow> nat \<Rightarrow> nat \<Rightarrow> bstr \<Rightarrow> int res" where
  "Str_compare_sub s pos len str =
     bindE (get_size s) (\<lambda>n.
     bindE (ensure (pos \<le> n) (BugCheck ''Position out of bounds'')) (\<lambda>_.
     bindE (get_size str) (\<lambda>other_len.
     let rlen = min len (n - pos); min_len = min rlen other_len in
     bindE (load s pos min_len) (\<lambda>xs.
     bindE (load str 0 min_len) (\<lambda>ys.
     Inr (by_length (MemCompare xs ys) rlen other_len))))))"

section \<open>Search\<close>

text \<open>The loops: up and down through the characters \<open>cs\<close>, testing each one, and up and down
  through the positions at which a needle is compared.\<close>

fun scan_up :: "(u8 \<Rightarrow> bool) \<Rightarrow> u8 list \<Rightarrow> nat \<Rightarrow> nat" where
  "scan_up P [] i = npos"
| "scan_up P (c # cs) i = (if P c then i else scan_up P cs (i + 1))"

fun scan_down :: "(u8 \<Rightarrow> bool) \<Rightarrow> u8 list \<Rightarrow> nat \<Rightarrow> nat" where
  "scan_down P cs 0 = (if P (cs ! 0) then 0 else npos)"
| "scan_down P cs (Suc i) = (if P (cs ! Suc i) then Suc i else scan_down P cs i)"

fun sub_up :: "u8 list \<Rightarrow> u8 list \<Rightarrow> nat \<Rightarrow> nat \<Rightarrow> nat" where
  "sub_up d t i 0 = npos"
| "sub_up d t i (Suc k) = (if MemCompare (take (length t) (drop i d)) t = 0 then i else sub_up d t (i + 1) k)"

fun sub_down :: "u8 list \<Rightarrow> u8 list \<Rightarrow> nat \<Rightarrow> nat" where
  "sub_down d t 0 = (if MemCompare (take (length t) d) t = 0 then 0 else npos)"
| "sub_down d t (Suc i) =
     (if MemCompare (take (length t) (drop (Suc i) d)) t = 0 then Suc i else sub_down d t i)"

text \<open>The characters up to the terminator, as \<open>CountStringLength\<close> and the reads after it see
  them, of an argument and of another string's \<open>c_str()\<close>.\<close>

definition cstr_load :: "bstr \<Rightarrow> cptr \<Rightarrow> u8 list res" where
  "cstr_load s p = bindE (ptr_length s p) (ptr_load s p)"

definition c_str_of :: "bstr \<Rightarrow> cptr res" where
  "c_str_of t = bindE (get_data t) (\<lambda>b. Inr (Ext (map byte_val (takeWhile is_Byte b))))"

definition Str_find_char :: "bstr \<Rightarrow> u8 \<Rightarrow> nat \<Rightarrow> nat res" where
  "Str_find_char s c pos =
     bindE (get_size s) (\<lambda>n.
     if pos \<ge> n then Inr npos
     else bindE (load s pos (n - pos)) (\<lambda>cs. Inr (scan_up (\<lambda>x. x = c) cs pos)))"

definition Str_find :: "bstr \<Rightarrow> cptr \<Rightarrow> nat \<Rightarrow> nat res" where
  "Str_find s str pos =
     (if str = Null then Inr npos
      else
        bindE (get_size s) (\<lambda>cur.
        bindE (ptr_length s str) (\<lambda>s_len.
        if s_len = 0 then Inr (if pos \<le> cur then pos else npos)
        else if s_len > cur then Inr npos
        else if pos > cur - s_len then Inr npos
        else
          bindE (load s 0 cur) (\<lambda>d.
          bindE (ptr_load s str s_len) (\<lambda>t. Inr (sub_up d t pos (cur - s_len + 1 - pos)))))))"

definition Str_find_str :: "bstr \<Rightarrow> bstr \<Rightarrow> nat \<Rightarrow> nat res" where
  "Str_find_str s t pos = bindE (c_str_of t) (\<lambda>p. Str_find s p pos)"

definition Str_find_first_of :: "bstr \<Rightarrow> cptr \<Rightarrow> nat \<Rightarrow> nat res" where
  "Str_find_first_of s chars pos =
     (if chars = Null then Inr npos
      else
        bindE (cstr_load s chars) (\<lambda>t.
        bindE (get_size s) (\<lambda>n.
        bindE (load s 0 n) (\<lambda>d. Inr (scan_up (\<lambda>c. in_set c t) (drop pos d) pos)))))"

definition Str_find_first_not_of :: "bstr \<Rightarrow> cptr \<Rightarrow> nat \<Rightarrow> nat res" where
  "Str_find_first_not_of s chars pos =
     (if chars = Null then Inr npos
      else
        bindE (cstr_load s chars) (\<lambda>t.
        bindE (get_size s) (\<lambda>n.
        bindE (load s 0 n) (\<lambda>d. Inr (scan_up (\<lambda>c. \<not> in_set c t) (drop pos d) pos)))))"

definition Str_find_first_not_char :: "bstr \<Rightarrow> u8 \<Rightarrow> nat \<Rightarrow> nat res" where
  "Str_find_first_not_char s c pos =
     bindE (get_size s) (\<lambda>n. bindE (load s 0 n) (\<lambda>d. Inr (scan_up (\<lambda>x. x \<noteq> c) (drop pos d) pos)))"

definition Str_find_last_not_of :: "bstr \<Rightarrow> cptr \<Rightarrow> nat \<Rightarrow> nat res" where
  "Str_find_last_not_of s chars pos =
     (if chars = Null then Inr npos
      else
        bindE (get_size s) (\<lambda>n.
        if n = 0 then Inr npos
        else
          bindE (cstr_load s chars) (\<lambda>t.
          let i = (if pos = npos \<or> pos \<ge> n then n - 1 else pos) in
          bindE (load s 0 n) (\<lambda>d. Inr (scan_down (\<lambda>c. \<not> in_set c t) d i)))))"

definition Str_find_last_not_char :: "bstr \<Rightarrow> u8 \<Rightarrow> nat \<Rightarrow> nat res" where
  "Str_find_last_not_char s c pos =
     bindE (get_size s) (\<lambda>n.
     if n = 0 then Inr npos
     else
       let i = (if pos = npos \<or> pos \<ge> n then n - 1 else pos) in
       bindE (load s 0 n) (\<lambda>d. Inr (scan_down (\<lambda>x. x \<noteq> c) d i)))"

definition Str_contains_char :: "bstr \<Rightarrow> u8 \<Rightarrow> bool res" where
  "Str_contains_char s c = bindE (Str_find_char s c 0) (\<lambda>i. Inr (i \<noteq> npos))"

definition Str_contains :: "bstr \<Rightarrow> cptr \<Rightarrow> bool res" where
  "Str_contains s str = bindE (Str_find s str 0) (\<lambda>i. Inr (i \<noteq> npos))"

definition Str_contains_str :: "bstr \<Rightarrow> bstr \<Rightarrow> bool res" where
  "Str_contains_str s t = bindE (Str_find_str s t 0) (\<lambda>i. Inr (i \<noteq> npos))"

definition Str_starts_with_char :: "bstr \<Rightarrow> u8 \<Rightarrow> bool res" where
  "Str_starts_with_char s c =
     bindE (Str_empty s) (\<lambda>e. if \<not> e then bindE (char_at s 0) (\<lambda>x. Inr (x = c)) else Inr False)"

definition Str_starts_with :: "bstr \<Rightarrow> cptr \<Rightarrow> bool res" where
  "Str_starts_with s str =
     (if str = Null then Inr False
      else
        bindE (ptr_length s str) (\<lambda>s_len.
        bindE (get_size s) (\<lambda>n.
        if s_len > n then Inr False
        else bindE (load s 0 s_len) (\<lambda>xs. bindE (ptr_load s str s_len) (\<lambda>ys. Inr (MemCompare xs ys = 0))))))"

definition Str_starts_with_str :: "bstr \<Rightarrow> bstr \<Rightarrow> bool res" where
  "Str_starts_with_str s t =
     bindE (get_size t) (\<lambda>m.
     bindE (get_size s) (\<lambda>n.
     if m > n then Inr False
     else bindE (load s 0 m) (\<lambda>xs. bindE (load t 0 m) (\<lambda>ys. Inr (MemCompare xs ys = 0)))))"

definition Str_ends_with_char :: "bstr \<Rightarrow> u8 \<Rightarrow> bool res" where
  "Str_ends_with_char s c =
     bindE (Str_empty s) (\<lambda>e. if \<not> e then bindE (Str_back s) (\<lambda>x. Inr (x = c)) else Inr False)"

definition Str_ends_with :: "bstr \<Rightarrow> cptr \<Rightarrow> bool res" where
  "Str_ends_with s str =
     (if str = Null then Inr False
      else
        bindE (ptr_length s str) (\<lambda>s_len.
        bindE (get_size s) (\<lambda>n.
        if s_len > n then Inr False
        else bindE (load s (n - s_len) s_len) (\<lambda>xs. bindE (ptr_load s str s_len) (\<lambda>ys. Inr (MemCompare xs ys = 0))))))"

definition Str_ends_with_str :: "bstr \<Rightarrow> bstr \<Rightarrow> bool res" where
  "Str_ends_with_str s t =
     bindE (get_size t) (\<lambda>m.
     bindE (get_size s) (\<lambda>n.
     if m > n then Inr False
     else bindE (load s (n - m) m) (\<lambda>xs. bindE (load t 0 m) (\<lambda>ys. Inr (MemCompare xs ys = 0)))))"

definition Str_find_last_char :: "bstr \<Rightarrow> u8 \<Rightarrow> nat \<Rightarrow> nat res" where
  "Str_find_last_char s c pos =
     bindE (get_size s) (\<lambda>current_size.
     if current_size = 0 then Inr npos
     else
       let search_end = (if pos = npos \<or> pos \<ge> current_size then current_size - 1 else pos) in
       bindE (load s 0 current_size) (\<lambda>d. Inr (scan_down (\<lambda>x. x = c) d search_end)))"

definition Str_rfind_char :: "bstr \<Rightarrow> u8 \<Rightarrow> nat \<Rightarrow> nat res" where
  "Str_rfind_char s c pos = Str_find_last_char s c pos"

definition Str_rfind :: "bstr \<Rightarrow> cptr \<Rightarrow> nat \<Rightarrow> nat res" where
  "Str_rfind s str pos =
     (if str = Null then Inr npos
      else
        bindE (get_size s) (\<lambda>cur.
        bindE (ptr_length s str) (\<lambda>s_len.
        if s_len = 0 then Inr (if pos < cur then pos else cur)
        else if s_len > cur then Inr npos
        else
          let i = (if pos = npos \<or> pos > cur - s_len then cur - s_len else pos) in
          bindE (load s 0 cur) (\<lambda>d.
          bindE (ptr_load s str s_len) (\<lambda>t. Inr (sub_down d t i))))))"

definition Str_rfind_str :: "bstr \<Rightarrow> bstr \<Rightarrow> nat \<Rightarrow> nat res" where
  "Str_rfind_str s t pos = bindE (c_str_of t) (\<lambda>p. Str_rfind s p pos)"

text \<open>
  \<open>find_last_of\<close> over a set takes the length of the set as an argument and does not measure
  it: the search through the set runs for \<open>s_len\<close> characters, whatever is there.
\<close>

fun set_find :: "u8 list \<Rightarrow> nat \<Rightarrow> u8 \<Rightarrow> bool res" where
  "set_find [] n c = (if n = 0 then Inr False else Inl OutOfBounds)"
| "set_find (x # xs) n c = (if n = 0 then Inr False else if x = c then Inr True else set_find xs (n - 1) c)"

fun last_of_loop :: "u8 list \<Rightarrow> u8 list \<Rightarrow> nat \<Rightarrow> nat \<Rightarrow> nat res" where
  "last_of_loop d t s_len 0 = Inr npos"
| "last_of_loop d t s_len (Suc i) =
     bindE (set_find t s_len (d ! i)) (\<lambda>found. if found then Inr i else last_of_loop d t s_len i)"

definition Str_find_last_of :: "bstr \<Rightarrow> cptr \<Rightarrow> nat \<Rightarrow> nat \<Rightarrow> nat res" where
  "Str_find_last_of s str pos s_len =
     bindE (get_size s) (\<lambda>current_size.
     if current_size = 0 \<or> str = Null \<or> s_len = 0 then Inr npos
     else
       let pos = (if pos = npos \<or> pos \<ge> current_size then current_size - 1 else pos) in
       bindE (load s 0 current_size) (\<lambda>d.
       bindE (ptr_chars s str) (\<lambda>t. last_of_loop d t s_len (pos + 1))))"

section \<open>Operators\<close>

definition Str_eq :: "bstr \<Rightarrow> bstr \<Rightarrow> bool res" where
  "Str_eq lhs rhs =
     bindE (get_size lhs) (\<lambda>n.
     bindE (get_size rhs) (\<lambda>m.
     if n \<noteq> m then Inr False
     else bindE (load lhs 0 n) (\<lambda>xs. bindE (load rhs 0 n) (\<lambda>ys. Inr (MemCompare xs ys = 0)))))"

definition Str_eq_cstr :: "bstr \<Rightarrow> cptr \<Rightarrow> bool res" where
  "Str_eq_cstr lhs rhs =
     bindE (Str_empty lhs) (\<lambda>e.
     if e \<and> rhs = Null then Inr True
     else if rhs = Null then Inr False
     else
       bindE (ptr_length lhs rhs) (\<lambda>m.
       bindE (get_size lhs) (\<lambda>n.
       if m \<noteq> n then Inr False
       else bindE (load lhs 0 n) (\<lambda>xs. bindE (ptr_load lhs rhs n) (\<lambda>ys. Inr (MemCompare xs ys = 0))))))"

text \<open>Against any other string-like object, given by its characters.\<close>

definition Str_eq_view :: "bstr \<Rightarrow> u8 list \<Rightarrow> bool res" where
  "Str_eq_view lhs rhs =
     bindE (get_size lhs) (\<lambda>lhs_size.
     if lhs_size \<noteq> length rhs then Inr False
     else if lhs_size = 0 then Inr True
     else bindE (load lhs 0 lhs_size) (\<lambda>xs. Inr (MemCompare xs rhs = 0)))"

definition Str_neq :: "bstr \<Rightarrow> bstr \<Rightarrow> bool res" where
  "Str_neq lhs rhs = bindE (Str_eq lhs rhs) (\<lambda>b. Inr (\<not> b))"

definition Str_less :: "bstr \<Rightarrow> bstr \<Rightarrow> bool res" where
  "Str_less lhs rhs = bindE (Str_compare lhs rhs) (\<lambda>r. Inr (r < 0))"

definition Str_less_eq :: "bstr \<Rightarrow> bstr \<Rightarrow> bool res" where
  "Str_less_eq lhs rhs = bindE (Str_compare lhs rhs) (\<lambda>r. Inr (r \<le> 0))"

definition Str_greater :: "bstr \<Rightarrow> bstr \<Rightarrow> bool res" where
  "Str_greater lhs rhs = bindE (Str_compare lhs rhs) (\<lambda>r. Inr (r > 0))"

definition Str_greater_eq :: "bstr \<Rightarrow> bstr \<Rightarrow> bool res" where
  "Str_greater_eq lhs rhs = bindE (Str_compare lhs rhs) (\<lambda>r. Inr (r \<ge> 0))"

section \<open>Reading the arguments\<close>

lemma ptr_load_denotes:
  "str_rep s cs \<Longrightarrow> src_denotes cs p n ys \<Longrightarrow> ptr_load s p n = Inr ys"
  by (auto simp: ptr_load_def src_denotes_read elim!: str_repE)

lemma ptr_length_denotes: "str_rep s cs \<Longrightarrow> cstr_denotes cs p ys \<Longrightarrow> ptr_length s p = Inr (length ys)"
  by (auto simp: cstr_denotes_length elim!: str_repE)

lemma ptr_load_cstr: "str_rep s cs \<Longrightarrow> cstr_denotes cs p ys \<Longrightarrow> ptr_load s p (length ys) = Inr ys"
  by (rule ptr_load_denotes) (auto intro: cstr_denotes_src)

lemma cstr_load_denotes: "str_rep s cs \<Longrightarrow> cstr_denotes cs p ys \<Longrightarrow> cstr_load s p = Inr ys"
  by (simp add: cstr_load_def ptr_length_denotes ptr_load_cstr)

lemma load_all: "str_rep s cs \<Longrightarrow> load s 0 (length cs) = Inr cs"
  by (simp add: load_rep)

lemma c_str_of_denotes:
  assumes "str_rep t ds" and "0 \<notin> set ds"
  shows "\<exists>p. c_str_of t = Inr p \<and> p \<noteq> Null \<and> cstr_denotes cs p ds"
proof -
  obtain large junk where t: "t = str_of large ds junk" and wf: "wf_junk large ds junk"
    by (rule str_repE [OF assms(1)])
  let ?rest = "map byte_val (takeWhile is_Byte junk)"
  have "takeWhile is_Byte (map Byte ds @ Byte 0 # junk) = map Byte ds @ Byte 0 # takeWhile is_Byte junk"
    by (subst takeWhile_append2) auto
  then have "c_str_of t = Inr (Ext (ds @ 0 # ?rest))" by (simp add: c_str_of_def t str_of_data [OF wf] comp_def)
  moreover have "takeWhile (\<lambda>x. x \<noteq> 0) ds = ds" by (subst takeWhile_eq_all_conv) (use assms(2) in auto)
  ultimately show ?thesis using wf_junk_bound [OF wf]
    by (intro exI [of _ "Ext (ds @ 0 # ?rest)"]) (simp add: cstr_denotes_def takeWhile_sentinel del: takeWhile_eq_all_conv)
qed

lemma cstr_denotes_nonnull: "cstr_denotes cs p ys \<Longrightarrow> p \<noteq> Null"
  by (auto simp: cstr_denotes_def)

section \<open>Comparison is lexicographic\<close>

lemma MemCompare_zero: "length xs = length ys \<Longrightarrow> MemCompare xs ys = 0 \<longleftrightarrow> xs = ys"
  by (induction xs ys rule: list_induct2) auto

lemma by_length_Suc: "by_length r (Suc a) (Suc b) = by_length r a b"
  by (simp add: by_length_def)

lemma compare_lex:
  "by_length (MemCompare (take (min (length xs) (length ys)) xs) (take (min (length xs) (length ys)) ys)) (length xs) (length ys)
     = (if ord_class.lexordp xs ys then - 1 else if xs = ys then 0 else 1)"
proof (induction xs arbitrary: ys)
  case Nil
  then show ?case by (cases ys) (simp_all add: by_length_def)
next
  case (Cons x xs)
  show ?case
  proof (cases ys)
    case Nil
    then show ?thesis by (simp add: by_length_def)
  next
    case (Cons y zs)
    consider "x < y" | "y < x" | "x = y" by (rule linorder_cases)
    then show ?thesis
    proof cases
      case 3
      then show ?thesis using Cons Cons.IH [of zs] by (simp add: by_length_Suc)
    qed (auto simp: Cons by_length_def)
  qed
qed

text \<open>
  (C25) Comparison of two strings is the lexicographic order of their characters as unsigned
  bytes, and two strings are equal exactly when their characters are, however each is stored.
\<close>

theorem string_compare_lex:
  assumes "wf_str s" and "wf_str t"
  shows "Str_compare s t = Inr (if ord_class.lexordp (str_chars s) (str_chars t) then - 1
            else if str_chars s = str_chars t then 0 else 1) \<and>
     Str_less s t = Inr (ord_class.lexordp (str_chars s) (str_chars t)) \<and>
     Str_eq s t = Inr (str_chars s = str_chars t)"
proof -
  have s: "str_rep s (str_chars s)" and t: "str_rep t (str_chars t)" using assms by (simp_all add: wf_str_rep)
  let ?n = "min (length (str_chars s)) (length (str_chars t))"
  have cmp: "Str_compare s t = Inr (if ord_class.lexordp (str_chars s) (str_chars t) then - 1
            else if str_chars s = str_chars t then 0 else 1)"
    using load_rep [OF s, of 0 ?n] load_rep [OF t, of 0 ?n] compare_lex [of "str_chars s" "str_chars t"]
    by (simp add: Str_compare_def get_size_rep [OF s] get_size_rep [OF t] Let_def)
  moreover have "Str_eq s t = Inr (str_chars s = str_chars t)"
    using load_all [OF s] load_all [OF t] MemCompare_zero [of "str_chars s" "str_chars t"]
    by (auto simp: Str_eq_def get_size_rep [OF s] get_size_rep [OF t])
  ultimately show ?thesis by (simp add: Str_less_def)
qed

theorem string_compare_lex_witness:
  "Str_compare Str_new Str_new = Inr 0 \<and> Str_eq Str_new Str_new = Inr True"
proof -
  have "wf_str Str_new" "str_chars Str_new = []" using Str_new_rep by (auto simp: wf_str_def str_chars_rep)
  then show ?thesis using string_compare_lex [of Str_new Str_new] by simp
qed

section \<open>Search finds the first and the last occurrence\<close>

lemma occurs_take:
  "i + length t \<le> length d \<Longrightarrow> occurs d (length d) t i \<longleftrightarrow> MemCompare (take (length t) (drop i d)) t = 0"
  by (subst MemCompare_zero) (auto simp: occurs_def list_eq_iff_nth_eq)

lemma sub_up_spec:
  assumes "i + k = length d - length t + 1" and "length t \<le> length d"
  shows "(sub_up d t i k = npos \<and> (\<forall>j. i \<le> j \<longrightarrow> \<not> occurs d (length d) t j)) \<or>
     (i \<le> sub_up d t i k \<and> occurs d (length d) t (sub_up d t i k) \<and>
      (\<forall>j. i \<le> j \<and> j < sub_up d t i k \<longrightarrow> \<not> occurs d (length d) t j))"
  using assms(1)
proof (induction k arbitrary: i)
  case 0
  then show ?case using assms(2) by (auto simp: occurs_def)
next
  case (Suc k)
  then have fits: "i + length t \<le> length d" using assms(2) by simp
  show ?case
  proof (cases "occurs d (length d) t i")
    case True
    then show ?thesis using occurs_take [OF fits] by auto
  next
    case False
    then have eq: "sub_up d t i (Suc k) = sub_up d t (i + 1) k" using occurs_take [OF fits] by simp
    have step: "i \<le> j \<Longrightarrow> occurs d (length d) t j \<Longrightarrow> i + 1 \<le> j" for j using False by (cases "i = j") auto
    show ?thesis using Suc.IH [of "i + 1"] Suc.prems step unfolding eq by (metis Suc_eq_plus1 Suc_leD add_Suc_right add_Suc)
  qed
qed

lemma sub_down_spec:
  assumes "i + length t \<le> length d"
  shows "(sub_down d t i = npos \<and> (\<forall>j \<le> i. \<not> occurs d (length d) t j)) \<or>
     (sub_down d t i \<le> i \<and> occurs d (length d) t (sub_down d t i) \<and>
      (\<forall>j. sub_down d t i < j \<and> j \<le> i \<longrightarrow> \<not> occurs d (length d) t j))"
  using assms
proof (induction i)
  case 0
  then show ?case using occurs_take [of 0 t d] by auto
next
  case (Suc i)
  show ?case
  proof (cases "occurs d (length d) t (Suc i)")
    case True
    then show ?thesis using occurs_take [of "Suc i" t d] Suc.prems by auto
  next
    case False
    then have "sub_down d t (Suc i) = sub_down d t i" using occurs_take [of "Suc i" t d] Suc.prems by simp
    then show ?thesis using Suc False by (auto simp: le_Suc_eq)
  qed
qed

lemma string_find_first:
  assumes s: "str_rep s cs" and arg: "cstr_denotes cs p t"
  shows "\<exists>r. Str_find s p pos = Inr r \<and>
      (r = npos \<and> (\<forall>j. pos \<le> j \<longrightarrow> \<not> occurs cs (length cs) t j) \<or>
       pos \<le> r \<and> occurs cs (length cs) t r \<and> (\<forall>j. pos \<le> j \<and> j < r \<longrightarrow> \<not> occurs cs (length cs) t j))"
proof -
  note reads = cstr_denotes_nonnull [OF arg] get_size_rep [OF s] ptr_length_denotes [OF s arg] load_all [OF s]
    ptr_load_cstr [OF s arg]
  have beyond: "\<not> occurs cs (length cs) t j" if "length cs < j + length t" for j using that by (simp add: occurs_def)
  show ?thesis
  proof (cases "t = []")
    case True
    then show ?thesis using reads by (auto simp: Str_find_def occurs_def)
  next
    case False
    show ?thesis
    proof (cases "length cs < pos + length t")
      case True
      then have "Str_find s p pos = Inr npos" using reads False by (auto simp: Str_find_def)
      then show ?thesis using beyond True by auto
    next
      case fits: False
      then have "Str_find s p pos = Inr (sub_up cs t pos (length cs - length t + 1 - pos))"
        using reads False by (simp add: Str_find_def)
      moreover have "pos + (length cs - length t + 1 - pos) = length cs - length t + 1" "length t \<le> length cs"
        using fits by simp_all
      ultimately show ?thesis using sub_up_spec by blast
    qed
  qed
qed

text \<open>
  (C33) \<open>find\<close> returns the first occurrence of the substring at or after \<open>pos\<close> and \<open>rfind\<close>
  the last one at or before it, and \<open>npos\<close> exactly when there is none, the empty substring
  and positions past the end included.
\<close>

theorem string_find_rfind:
  assumes "wf_str s" and "cstr_denotes (str_chars s) p t"
  shows "(\<exists>r. Str_find s p pos = Inr r \<and>
      (r = npos \<and> (\<forall>j. pos \<le> j \<longrightarrow> \<not> occurs (str_chars s) (length (str_chars s)) t j) \<or>
       pos \<le> r \<and> occurs (str_chars s) (length (str_chars s)) t r \<and>
         (\<forall>j. pos \<le> j \<and> j < r \<longrightarrow> \<not> occurs (str_chars s) (length (str_chars s)) t j))) \<and>
    (\<exists>r. Str_rfind s p pos = Inr r \<and>
      (r = npos \<and> (\<forall>j \<le> pos. \<not> occurs (str_chars s) (length (str_chars s)) t j) \<or>
       r \<le> pos \<and> occurs (str_chars s) (length (str_chars s)) t r \<and>
         (\<forall>j. r < j \<and> j \<le> pos \<longrightarrow> \<not> occurs (str_chars s) (length (str_chars s)) t j)))"
proof -
  define cs where "cs = str_chars s"
  have s: "str_rep s cs" using assms(1) by (simp add: wf_str_rep cs_def)
  have arg: "cstr_denotes cs p t" using assms(2) by (simp add: cs_def)
  note reads = cstr_denotes_nonnull [OF arg] get_size_rep [OF s] ptr_length_denotes [OF s arg] load_all [OF s]
    ptr_load_cstr [OF s arg]
  have beyond: "\<not> occurs cs (length cs) t j" if "length cs < j + length t" for j using that by (simp add: occurs_def)
  have up: "\<exists>r. Str_find s p pos = Inr r \<and>
      (r = npos \<and> (\<forall>j. pos \<le> j \<longrightarrow> \<not> occurs cs (length cs) t j) \<or>
       pos \<le> r \<and> occurs cs (length cs) t r \<and> (\<forall>j. pos \<le> j \<and> j < r \<longrightarrow> \<not> occurs cs (length cs) t j))"
    by (rule string_find_first [OF s arg])
  have down: "\<exists>r. Str_rfind s p pos = Inr r \<and>
      (r = npos \<and> (\<forall>j \<le> pos. \<not> occurs cs (length cs) t j) \<or>
       r \<le> pos \<and> occurs cs (length cs) t r \<and> (\<forall>j. r < j \<and> j \<le> pos \<longrightarrow> \<not> occurs cs (length cs) t j))"
  proof (cases "t = []")
    case True
    then show ?thesis using reads by (auto simp: Str_rfind_def occurs_def)
  next
    case False
    show ?thesis
    proof (cases "length cs < length t")
      case True
      then have "Str_rfind s p pos = Inr npos" using reads False by (auto simp: Str_rfind_def)
      then show ?thesis using beyond True by auto
    next
      case fits: False
      define i where "i = (if pos = npos \<or> pos > length cs - length t then length cs - length t else pos)"
      have i: "i + length t \<le> length cs" using fits by (auto simp: i_def)
      define r where "r = sub_down cs t i"
      have eq: "Str_rfind s p pos = Inr r" using reads False fits by (simp add: Str_rfind_def i_def r_def)
      have le: "i \<le> pos"
      proof -
        have "length cs \<le> npos" by (rule str_repE [OF s]) (simp add: wf_junk_bound)
        then show ?thesis by (auto simp: i_def)
      qed
      have gap: "\<not> occurs cs (length cs) t j" if "i < j" "j \<le> pos" for j
        using that beyond [of j] fits i by (auto simp: i_def split: if_splits)
      have widen: "\<forall>j. m < j \<and> j \<le> pos \<longrightarrow> \<not> occurs cs (length cs) t j"
        if "\<forall>j. m < j \<and> j \<le> i \<longrightarrow> \<not> occurs cs (length cs) t j" for m
        using that gap by (metis not_less)
      have none: "\<forall>j \<le> pos. \<not> occurs cs (length cs) t j" if "\<forall>j \<le> i. \<not> occurs cs (length cs) t j"
        using that gap by (metis not_less)
      from sub_down_spec [OF i, folded r_def]
      have "r = npos \<and> (\<forall>j \<le> pos. \<not> occurs cs (length cs) t j) \<or>
          r \<le> pos \<and> occurs cs (length cs) t r \<and> (\<forall>j. r < j \<and> j \<le> pos \<longrightarrow> \<not> occurs cs (length cs) t j)"
      proof (elim disjE conjE)
        assume "r \<le> i" "occurs cs (length cs) t r" "\<forall>j. r < j \<and> j \<le> i \<longrightarrow> \<not> occurs cs (length cs) t j"
        then show ?thesis using widen [of r] le_trans [OF _ le, of r] by (intro disjI2 conjI)
      qed (use none in simp)
      then show ?thesis using eq by simp
    qed
  qed
  show ?thesis using up down by (simp only: cs_def)
qed

theorem string_find_rfind_witness:
  "Str_find Str_new (Ext [0]) 0 = Inr 0 \<and> Str_rfind Str_new (Ext [0]) npos = Inr 0"
proof -
  have wf: "wf_str Str_new" and e: "str_chars Str_new = []" using Str_new_rep by (auto simp: wf_str_def str_chars_rep)
  have arg: "cstr_denotes (str_chars Str_new) (Ext [0]) []" by (simp add: cstr_denotes_def)
  have occ: "occurs [] 0 ([] :: u8 list) k \<longleftrightarrow> k = 0" for k by (simp add: occurs_def)
  note found = string_find_rfind [OF wf arg, unfolded e list.size occ]
  obtain r where "Str_find Str_new (Ext [0]) 0 = Inr r" "r = 0"
    using found [of 0, THEN conjunct1] by blast
  moreover obtain q where "Str_rfind Str_new (Ext [0]) npos = Inr q" "q = 0"
    using found [of npos, THEN conjunct2] by blast
  ultimately show ?thesis by (auto intro: le0)
qed

section \<open>The last character of a set\<close>

lemma set_find_exact: "set_find (t @ rest) (length t) c = Inr (c \<in> set t)"
  by (induction t) (cases rest, auto)

lemma set_find_past: "c \<notin> set t \<Longrightarrow> length t < n \<Longrightarrow> set_find t n c = Inl OutOfBounds"
  by (induction t arbitrary: n) auto

lemma last_of_loop_spec:
  assumes "\<And>c. set_find t s_len c = Inr (c \<in> S)"
  shows "\<exists>r. last_of_loop d t s_len i = Inr r \<and>
     (r = npos \<and> (\<forall>j < i. d ! j \<notin> S) \<or> r < i \<and> d ! r \<in> S \<and> (\<forall>j. r < j \<and> j < i \<longrightarrow> d ! j \<notin> S))"
proof (induction i)
  case (Suc i)
  then show ?case using assms less_Suc_eq by (cases "d ! i \<in> S") auto
qed simp

text \<open>
  \<open>find_last_of\<close> over a set of characters finds the last member when it is told the
  length of the set. Called with the length left at its default, it reads past the set's
  terminator as soon as the last character of the string is not in the set.
\<close>

theorem find_last_of_needs_length:
  assumes "wf_str s" and "str_chars s \<noteq> []" and "t \<noteq> []"
  shows "(\<exists>r. Str_find_last_of s (Ext (t @ [0])) npos (length t) = Inr r \<and>
       (r = npos \<and> set (str_chars s) \<inter> set t = {} \<or>
        r < length (str_chars s) \<and> str_chars s ! r \<in> set t \<and>
          (\<forall>j. r < j \<and> j < length (str_chars s) \<longrightarrow> str_chars s ! j \<notin> set t))) \<and>
     (last (str_chars s) \<notin> set (t @ [0]) \<and> length t + 1 < npos \<longrightarrow>
        Str_find_last_of s (Ext (t @ [0])) npos npos = Inl OutOfBounds)"
proof -
  define cs where "cs = str_chars s"
  have s: "str_rep s cs" using assms(1) by (simp add: wf_str_rep cs_def)
  have ne: "cs \<noteq> []" using assms(2) by (simp add: cs_def)
  have chars: "ptr_chars s (Ext (t @ [0])) = Inr (t @ [0])" by (simp add: ptr_chars_def)
  have eq: "Str_find_last_of s (Ext (t @ [0])) npos n = last_of_loop cs (t @ [0]) n (length cs)" if "n \<noteq> 0" for n
    using that ne by (simp add: Str_find_last_of_def get_size_rep [OF s] load_all [OF s] chars Let_def del: last_of_loop.simps)
  obtain r where r: "last_of_loop cs (t @ [0]) (length t) (length cs) = Inr r"
    "r = npos \<and> (\<forall>j < length cs. cs ! j \<notin> set t) \<or>
     r < length cs \<and> cs ! r \<in> set t \<and> (\<forall>j. r < j \<and> j < length cs \<longrightarrow> cs ! j \<notin> set t)"
    using last_of_loop_spec [of "t @ [0]" "length t" "set t" cs "length cs"] set_find_exact [of t "[0]"] by blast
  have "(\<forall>j < length cs. cs ! j \<notin> set t) \<longleftrightarrow> set cs \<inter> set t = {}"
    using all_set_conv_all_nth [of cs "\<lambda>x. x \<notin> set t"] by (auto simp: disjoint_iff)
  then have "\<exists>r. Str_find_last_of s (Ext (t @ [0])) npos (length t) = Inr r \<and>
       (r = npos \<and> set cs \<inter> set t = {} \<or>
        r < length cs \<and> cs ! r \<in> set t \<and> (\<forall>j. r < j \<and> j < length cs \<longrightarrow> cs ! j \<notin> set t))"
    using r eq [of "length t"] assms(3) by auto
  moreover have "Str_find_last_of s (Ext (t @ [0])) npos npos = Inl OutOfBounds"
    if "last cs \<notin> set (t @ [0])" "length t + 1 < npos"
  proof -
    obtain k where k: "length cs = Suc k" using ne by (cases cs) auto
    then have "cs ! k = last cs" using ne by (simp add: last_conv_nth)
    then show ?thesis using eq [of npos] set_find_past [OF that(1), of npos] that(2) k by simp
  qed
  ultimately show ?thesis by (simp add: cs_def)
qed

theorem find_last_of_needs_length_witness:
  "\<exists>s. str_chars s = [97] \<and> Str_find_last_of s (Ext ([47] @ [0])) npos npos = Inl OutOfBounds"
proof -
  obtain s where "str_rep s [97]"
    using Str_push_back_yields [OF Str_new_rep, of "\<lambda>_. True" 97]
    by (cases "Str_push_back (\<lambda>_. True) Str_new 97") (auto simp: room_for_def kMaxCapacity_eq)
  then have "wf_str s" "str_chars s = [97]" by (auto simp: wf_str_def str_chars_rep)
  then show ?thesis using find_last_of_needs_length [of s "[47]"] by (auto simp: npos_def)
qed

text \<open>
  \<open>starts_with\<close>, \<open>ends_with\<close> and \<open>contains\<close> decide prefix, suffix and occurrence.
\<close>

theorem string_affixes:
  assumes "wf_str s" and "cstr_denotes (str_chars s) p t"
  shows "Str_starts_with s p = Inr (length t \<le> length (str_chars s) \<and> take (length t) (str_chars s) = t) \<and>
     Str_ends_with s p = Inr (length t \<le> length (str_chars s) \<and>
        drop (length (str_chars s) - length t) (str_chars s) = t) \<and>
     Str_contains s p = Inr (\<exists>i. occurs (str_chars s) (length (str_chars s)) t i)"
proof -
  define cs where "cs = str_chars s"
  have s: "str_rep s cs" using assms(1) by (simp add: wf_str_rep cs_def)
  have arg: "cstr_denotes cs p t" using assms(2) by (simp add: cs_def)
  note reads = cstr_denotes_nonnull [OF arg] get_size_rep [OF s] ptr_length_denotes [OF s arg] load_rep [OF s]
    ptr_load_cstr [OF s arg]
  have "Str_starts_with s p = Inr (length t \<le> length cs \<and> take (length t) cs = t)"
    using reads(1) MemCompare_zero [of "take (length t) cs" t] by (auto simp: Str_starts_with_def reads not_le)
  moreover have "Str_ends_with s p = Inr (length t \<le> length cs \<and> drop (length cs - length t) cs = t)"
    using reads(1) MemCompare_zero [of "drop (length cs - length t) cs" t] by (auto simp: Str_ends_with_def reads not_le)
  moreover have "Str_contains s p = Inr (\<exists>i. occurs cs (length cs) t i)"
  proof -
    obtain r where r: "Str_find s p 0 = Inr r"
      "r = npos \<and> (\<forall>j. 0 \<le> j \<longrightarrow> \<not> occurs cs (length cs) t j) \<or> 0 \<le> r \<and> occurs cs (length cs) t r"
      using string_find_first [OF s arg, of 0] by auto
    have "length cs < npos"
      by (rule str_repE [OF s]) (auto simp: wf_junk_iff kMaxCapacity_eq npos_def split: if_splits)
    then have "r \<noteq> npos" if "occurs cs (length cs) t r" using that by (auto simp: occurs_def)
    then show ?thesis using r by (cases "r = npos") (auto simp: Str_contains_def)
  qed
  ultimately show ?thesis by (simp add: cs_def)
qed

theorem string_affixes_witness:
  "Str_starts_with Str_new (Ext [0]) = Inr True \<and> Str_ends_with Str_new (Ext [0]) = Inr True \<and>
     Str_contains Str_new (Ext [0]) = Inr True"
proof -
  have wf: "wf_str Str_new" and e: "str_chars Str_new = []" using Str_new_rep by (auto simp: wf_str_def str_chars_rep)
  have arg: "cstr_denotes (str_chars Str_new) (Ext [0]) []" by (simp add: cstr_denotes_def)
  have "occurs [] 0 ([] :: u8 list) 0" by (simp add: occurs_def)
  then show ?thesis using string_affixes [OF wf arg, unfolded e] by auto
qed

end
