(* ===== verification/RB_Tree.thy ===== *)
theory RB_Tree
  imports Order_Spec
begin

text \<open>
  \<open>containers/tree/red_black_tree_2.h\<close>: the red-black tree with parent pointers and a
  sentinel. The nodes live in a heap from addresses to nodes; the sentinel is one of them, with
  no value constructed in it. Following a pointer to a node that is not in the heap, reading
  the sentinel's value and deleting a node twice are faults. A loop or recursion takes the number of addresses handed out so far
  as fuel, which bounds the number of nodes; running out of it is the fault \<open>Diverges\<close>.
\<close>

section \<open>Nodes and pointer operations\<close>

datatype NodeColor = RED | BLACK

record 'a node =
  nval :: "'a option"
  color :: NodeColor
  left :: nat
  right :: nat
  parent :: nat

record 'a rbtree =
  root :: nat
  nil :: nat
  nodes :: "nat \<Rightarrow> 'a node option"
  next_addr :: nat

text \<open>\<open>TComparator\<close>.\<close>

record 'a comparator =
  less_than :: "'a \<Rightarrow> 'a \<Rightarrow> bool"
  equals :: "'a \<Rightarrow> 'a \<Rightarrow> bool"

definition RBComparator :: "'a::linorder comparator" where
  "RBComparator = \<lparr>less_than = (<), equals = (=)\<rparr>"

definition deref :: "'a rbtree \<Rightarrow> nat \<Rightarrow> 'a node res" where
  "deref t p = (case nodes t p of Some n \<Rightarrow> Inr n | None \<Rightarrow> Inl Lifetime)"

definition node_value :: "'a rbtree \<Rightarrow> nat \<Rightarrow> 'a res" where
  "node_value t p = bindE (deref t p) (\<lambda>n. case nval n of Some v \<Rightarrow> Inr v | None \<Rightarrow> Inl Lifetime)"

definition get_color :: "'a rbtree \<Rightarrow> nat \<Rightarrow> NodeColor res" where
  "get_color t p = bindE (deref t p) (\<lambda>n. Inr (color n))"

definition get_left :: "'a rbtree \<Rightarrow> nat \<Rightarrow> nat res" where
  "get_left t p = bindE (deref t p) (\<lambda>n. Inr (left n))"

definition get_right :: "'a rbtree \<Rightarrow> nat \<Rightarrow> nat res" where
  "get_right t p = bindE (deref t p) (\<lambda>n. Inr (right n))"

definition get_parent :: "'a rbtree \<Rightarrow> nat \<Rightarrow> nat res" where
  "get_parent t p = bindE (deref t p) (\<lambda>n. Inr (parent n))"

definition modify :: "'a rbtree \<Rightarrow> nat \<Rightarrow> ('a node \<Rightarrow> 'a node) \<Rightarrow> 'a rbtree res" where
  "modify t p f = bindE (deref t p) (\<lambda>n. Inr (t\<lparr>nodes := (nodes t)(p := Some (f n))\<rparr>))"

definition set_color :: "'a rbtree \<Rightarrow> nat \<Rightarrow> NodeColor \<Rightarrow> 'a rbtree res" where
  "set_color t p c = modify t p (\<lambda>n. n\<lparr>color := c\<rparr>)"

definition set_left :: "'a rbtree \<Rightarrow> nat \<Rightarrow> nat \<Rightarrow> 'a rbtree res" where
  "set_left t p q = modify t p (\<lambda>n. n\<lparr>left := q\<rparr>)"

definition set_right :: "'a rbtree \<Rightarrow> nat \<Rightarrow> nat \<Rightarrow> 'a rbtree res" where
  "set_right t p q = modify t p (\<lambda>n. n\<lparr>right := q\<rparr>)"

definition set_parent :: "'a rbtree \<Rightarrow> nat \<Rightarrow> nat \<Rightarrow> 'a rbtree res" where
  "set_parent t p q = modify t p (\<lambda>n. n\<lparr>parent := q\<rparr>)"

definition nullptr :: nat where
  "nullptr = 0"

text \<open>\<open>new\<close> takes an address that was never used before; when the 64-bit address space has none left
  it throws, before the tree is changed.\<close>

definition new_node :: "'a rbtree \<Rightarrow> 'a \<Rightarrow> ('a rbtree \<times> nat) res" where
  "new_node t v =
     (if next_addr t < MEM_MAX then
        Inr (t\<lparr>nodes := (nodes t)(next_addr t := Some \<lparr>nval = Some v, color = RED, left = nullptr, right = nullptr, parent = nullptr\<rparr>),
              next_addr := next_addr t + 1\<rparr>, next_addr t)
      else Inl (FatalCheck ''operator new: std::bad_alloc''))"

definition delete_node :: "'a rbtree \<Rightarrow> nat \<Rightarrow> 'a rbtree res" where
  "delete_node t p = bindE (deref t p) (\<lambda>_. Inr (t\<lparr>nodes := (nodes t)(p := None)\<rparr>))"

section \<open>Rotations\<close>

text \<open>The link from above is redirected from \<open>x\<close> to \<open>y\<close>; \<open>RotateLeft\<close> and \<open>Transplant\<close> ask first
  whether \<open>x\<close> is a left child, \<open>RotateRight\<close> whether it is a right one.\<close>

definition redirect_left_first :: "'a rbtree \<Rightarrow> nat \<Rightarrow> nat \<Rightarrow> nat \<Rightarrow> 'a rbtree res" where
  "redirect_left_first t xp x y =
     (if xp = nil t then Inr (t\<lparr>root := y\<rparr>)
      else bindE (get_left t xp) (\<lambda>l. if x = l then set_left t xp y else set_right t xp y))"

definition redirect_right_first :: "'a rbtree \<Rightarrow> nat \<Rightarrow> nat \<Rightarrow> nat \<Rightarrow> 'a rbtree res" where
  "redirect_right_first t xp x y =
     (if xp = nil t then Inr (t\<lparr>root := y\<rparr>)
      else bindE (get_right t xp) (\<lambda>r. if x = r then set_right t xp y else set_left t xp y))"

definition RotateLeft :: "'a rbtree \<Rightarrow> nat \<Rightarrow> 'a rbtree res" where
  "RotateLeft t x =
     bindE (get_right t x) (\<lambda>y.
     bindE (get_left t y) (\<lambda>yl.
     bindE (set_right t x yl) (\<lambda>t.
     bindE (if yl \<noteq> nil t then set_parent t yl x else Inr t) (\<lambda>t.
     bindE (get_parent t x) (\<lambda>xp.
     bindE (set_parent t y xp) (\<lambda>t.
     bindE (redirect_left_first t xp x y) (\<lambda>t.
     bindE (set_left t y x) (\<lambda>t. set_parent t x y))))))))"

definition RotateRight :: "'a rbtree \<Rightarrow> nat \<Rightarrow> 'a rbtree res" where
  "RotateRight t x =
     bindE (get_left t x) (\<lambda>y.
     bindE (get_right t y) (\<lambda>yr.
     bindE (set_left t x yr) (\<lambda>t.
     bindE (if yr \<noteq> nil t then set_parent t yr x else Inr t) (\<lambda>t.
     bindE (get_parent t x) (\<lambda>xp.
     bindE (set_parent t y xp) (\<lambda>t.
     bindE (redirect_right_first t xp x y) (\<lambda>t.
     bindE (set_right t y x) (\<lambda>t. set_parent t x y))))))))"

section \<open>Rebalancing\<close>

text \<open>
  One iteration of each loop is a function of its own, per side, from the node the loop is at
  to the tree and the node it goes on with. \<open>near\<close> and \<open>far\<close> are the sibling's
  children on the side of the node and on the other side.
\<close>

definition insert_left :: "'a rbtree \<Rightarrow> nat \<Rightarrow> nat \<Rightarrow> nat \<Rightarrow> ('a rbtree \<times> nat) res" where
  "insert_left t k p g =
     bindE (get_right t g) (\<lambda>u.
     bindE (get_color t u) (\<lambda>uc.
     if uc = RED then
       bindE (set_color t u BLACK) (\<lambda>t.
       bindE (set_color t p BLACK) (\<lambda>t.
       bindE (set_color t g RED) (\<lambda>t. Inr (t, g))))
     else
       bindE (get_right t p) (\<lambda>inner.
       bindE (if k = inner then bindE (RotateLeft t p) (\<lambda>t. Inr (t, p)) else Inr (t, k)) (\<lambda>(t, k).
       bindE (get_parent t k) (\<lambda>p.
       bindE (set_color t p BLACK) (\<lambda>t.
       bindE (get_parent t p) (\<lambda>g.
       bindE (set_color t g RED) (\<lambda>t.
       bindE (RotateRight t g) (\<lambda>t. Inr (t, k))))))))))"

definition insert_right :: "'a rbtree \<Rightarrow> nat \<Rightarrow> nat \<Rightarrow> nat \<Rightarrow> ('a rbtree \<times> nat) res" where
  "insert_right t k p g =
     bindE (get_left t g) (\<lambda>u.
     bindE (get_color t u) (\<lambda>uc.
     if uc = RED then
       bindE (set_color t u BLACK) (\<lambda>t.
       bindE (set_color t p BLACK) (\<lambda>t.
       bindE (set_color t g RED) (\<lambda>t. Inr (t, g))))
     else
       bindE (get_left t p) (\<lambda>inner.
       bindE (if k = inner then bindE (RotateRight t p) (\<lambda>t. Inr (t, p)) else Inr (t, k)) (\<lambda>(t, k).
       bindE (get_parent t k) (\<lambda>p.
       bindE (set_color t p BLACK) (\<lambda>t.
       bindE (get_parent t p) (\<lambda>g.
       bindE (set_color t g RED) (\<lambda>t.
       bindE (RotateLeft t g) (\<lambda>t. Inr (t, k))))))))))"

fun FixInsert :: "nat \<Rightarrow> 'a rbtree \<Rightarrow> nat \<Rightarrow> 'a rbtree res" where
  "FixInsert fuel t k =
     bindE (get_parent t k) (\<lambda>p.
     bindE (get_color t p) (\<lambda>c.
     if c = RED then
       case fuel of 0 \<Rightarrow> Inl Diverges
       | Suc fuel \<Rightarrow>
           bindE (get_parent t p) (\<lambda>g.
           bindE (get_left t g) (\<lambda>l.
           bindE (if p = l then insert_left t k p g else insert_right t k p g) (\<lambda>(t, k).
           FixInsert fuel t k)))
     else set_color t (root t) BLACK))"

declare FixInsert.simps [simp del]

text \<open>\<open>sibling_left\<close> is the case of a red sibling, \<open>far_left\<close> the one of a black far child.\<close>

definition sibling_left :: "'a rbtree \<Rightarrow> nat \<Rightarrow> nat \<Rightarrow> ('a rbtree \<times> nat) res" where
  "sibling_left t x p =
     bindE (get_right t p) (\<lambda>w.
     bindE (get_color t w) (\<lambda>wc.
     if wc = RED then
       bindE (set_color t w BLACK) (\<lambda>t.
       bindE (set_color t p RED) (\<lambda>t.
       bindE (RotateLeft t p) (\<lambda>t.
       bindE (get_parent t x) (\<lambda>p.
       bindE (get_right t p) (\<lambda>w. Inr (t, w))))))
     else Inr (t, w)))"

definition far_left :: "'a rbtree \<Rightarrow> nat \<Rightarrow> nat \<Rightarrow> nat \<Rightarrow> NodeColor \<Rightarrow> ('a rbtree \<times> nat) res" where
  "far_left t x w near farc =
     (if farc = BLACK then
        bindE (set_color t near BLACK) (\<lambda>t.
        bindE (set_color t w RED) (\<lambda>t.
        bindE (RotateRight t w) (\<lambda>t.
        bindE (get_parent t x) (\<lambda>p.
        bindE (get_right t p) (\<lambda>w. Inr (t, w))))))
      else Inr (t, w))"

definition last_left :: "'a rbtree \<Rightarrow> nat \<Rightarrow> nat \<Rightarrow> 'a rbtree res" where
  "last_left t x w =
     bindE (get_parent t x) (\<lambda>p.
     bindE (get_color t p) (\<lambda>pc.
     bindE (set_color t w pc) (\<lambda>t.
     bindE (set_color t p BLACK) (\<lambda>t.
     bindE (get_right t w) (\<lambda>far.
     bindE (set_color t far BLACK) (\<lambda>t. RotateLeft t p))))))"

definition delete_left :: "'a rbtree \<Rightarrow> nat \<Rightarrow> nat \<Rightarrow> ('a rbtree \<times> nat) res" where
  "delete_left t x p =
     bindE (sibling_left t x p) (\<lambda>(t, w).
     bindE (get_left t w) (\<lambda>near.
     bindE (get_color t near) (\<lambda>nearc.
     bindE (get_right t w) (\<lambda>far.
     bindE (get_color t far) (\<lambda>farc.
     if nearc = BLACK \<and> farc = BLACK then
       bindE (set_color t w RED) (\<lambda>t.
       bindE (get_parent t x) (\<lambda>p. Inr (t, p)))
     else
       bindE (far_left t x w near farc) (\<lambda>(t, w).
       bindE (last_left t x w) (\<lambda>t. Inr (t, root t))))))))"

definition sibling_right :: "'a rbtree \<Rightarrow> nat \<Rightarrow> nat \<Rightarrow> ('a rbtree \<times> nat) res" where
  "sibling_right t x p =
     bindE (get_left t p) (\<lambda>w.
     bindE (get_color t w) (\<lambda>wc.
     if wc = RED then
       bindE (set_color t w BLACK) (\<lambda>t.
       bindE (set_color t p RED) (\<lambda>t.
       bindE (RotateRight t p) (\<lambda>t.
       bindE (get_parent t x) (\<lambda>p.
       bindE (get_left t p) (\<lambda>w. Inr (t, w))))))
     else Inr (t, w)))"

definition far_right :: "'a rbtree \<Rightarrow> nat \<Rightarrow> nat \<Rightarrow> nat \<Rightarrow> NodeColor \<Rightarrow> ('a rbtree \<times> nat) res" where
  "far_right t x w near farc =
     (if farc = BLACK then
        bindE (set_color t near BLACK) (\<lambda>t.
        bindE (set_color t w RED) (\<lambda>t.
        bindE (RotateLeft t w) (\<lambda>t.
        bindE (get_parent t x) (\<lambda>p.
        bindE (get_left t p) (\<lambda>w. Inr (t, w))))))
      else Inr (t, w))"

definition last_right :: "'a rbtree \<Rightarrow> nat \<Rightarrow> nat \<Rightarrow> 'a rbtree res" where
  "last_right t x w =
     bindE (get_parent t x) (\<lambda>p.
     bindE (get_color t p) (\<lambda>pc.
     bindE (set_color t w pc) (\<lambda>t.
     bindE (set_color t p BLACK) (\<lambda>t.
     bindE (get_left t w) (\<lambda>far.
     bindE (set_color t far BLACK) (\<lambda>t. RotateRight t p))))))"

definition delete_right :: "'a rbtree \<Rightarrow> nat \<Rightarrow> nat \<Rightarrow> ('a rbtree \<times> nat) res" where
  "delete_right t x p =
     bindE (sibling_right t x p) (\<lambda>(t, w).
     bindE (get_right t w) (\<lambda>near.
     bindE (get_color t near) (\<lambda>nearc.
     bindE (get_left t w) (\<lambda>far.
     bindE (get_color t far) (\<lambda>farc.
     if nearc = BLACK \<and> farc = BLACK then
       bindE (set_color t w RED) (\<lambda>t.
       bindE (get_parent t x) (\<lambda>p. Inr (t, p)))
     else
       bindE (far_right t x w near farc) (\<lambda>(t, w).
       bindE (last_right t x w) (\<lambda>t. Inr (t, root t))))))))"

fun FixDelete :: "nat \<Rightarrow> 'a rbtree \<Rightarrow> nat \<Rightarrow> 'a rbtree res" where
  "FixDelete fuel t x =
     bindE (if x \<noteq> root t then get_color t x else Inr RED) (\<lambda>c.
     if x \<noteq> root t \<and> c = BLACK then
       case fuel of 0 \<Rightarrow> Inl Diverges
       | Suc fuel \<Rightarrow>
           bindE (get_parent t x) (\<lambda>p.
           bindE (get_left t p) (\<lambda>l.
           bindE (if x = l then delete_left t x p else delete_right t x p) (\<lambda>(t, x).
           FixDelete fuel t x)))
     else set_color t x BLACK)"

declare FixDelete.simps [simp del]

section \<open>Searching\<close>

definition fuel_of :: "'a rbtree \<Rightarrow> nat" where
  "fuel_of t = next_addr t"

fun SearchTree :: "nat \<Rightarrow> 'a comparator \<Rightarrow> 'a rbtree \<Rightarrow> nat \<Rightarrow> 'a \<Rightarrow> nat res" where
  "SearchTree fuel C t node val =
     (if node = nil t then Inr node
      else
        bindE (node_value t node) (\<lambda>v.
        if equals C val v then Inr node
        else
          case fuel of 0 \<Rightarrow> Inl Diverges
          | Suc fuel \<Rightarrow>
              if less_than C val v then bindE (get_left t node) (\<lambda>l. SearchTree fuel C t l val)
              else bindE (get_right t node) (\<lambda>r. SearchTree fuel C t r val)))"

declare SearchTree.simps [simp del]

fun Minimum :: "nat \<Rightarrow> 'a rbtree \<Rightarrow> nat \<Rightarrow> nat res" where
  "Minimum fuel t node =
     bindE (get_left t node) (\<lambda>l.
     if l \<noteq> nil t then (case fuel of 0 \<Rightarrow> Inl Diverges | Suc fuel \<Rightarrow> Minimum fuel t l) else Inr node)"

fun Maximum :: "nat \<Rightarrow> 'a rbtree \<Rightarrow> nat \<Rightarrow> nat res" where
  "Maximum fuel t node =
     bindE (get_right t node) (\<lambda>r.
     if r \<noteq> nil t then (case fuel of 0 \<Rightarrow> Inl Diverges | Suc fuel \<Rightarrow> Maximum fuel t r) else Inr node)"

declare Minimum.simps [simp del] Maximum.simps [simp del]

definition RB_empty :: "'a rbtree \<Rightarrow> bool" where
  "RB_empty t = (root t = nil t)"

text \<open>The climbing loops of \<open>Predecessor\<close> and \<open>Successor\<close>.\<close>

fun climb_from_left :: "nat \<Rightarrow> 'a rbtree \<Rightarrow> nat \<Rightarrow> nat \<Rightarrow> nat res" where
  "climb_from_left fuel t node par =
     (if par \<noteq> nil t then
        bindE (get_left t par) (\<lambda>l.
        if node = l then
          case fuel of 0 \<Rightarrow> Inl Diverges
          | Suc fuel \<Rightarrow> bindE (get_parent t par) (\<lambda>q. climb_from_left fuel t par q)
        else Inr par)
      else Inr par)"

fun climb_from_right :: "nat \<Rightarrow> 'a rbtree \<Rightarrow> nat \<Rightarrow> nat \<Rightarrow> nat res" where
  "climb_from_right fuel t node par =
     (if par \<noteq> nil t then
        bindE (get_right t par) (\<lambda>r.
        if node = r then
          case fuel of 0 \<Rightarrow> Inl Diverges
          | Suc fuel \<Rightarrow> bindE (get_parent t par) (\<lambda>q. climb_from_right fuel t par q)
        else Inr par)
      else Inr par)"

declare climb_from_left.simps [simp del] climb_from_right.simps [simp del]

definition Predecessor :: "'a rbtree \<Rightarrow> nat \<Rightarrow> nat res" where
  "Predecessor t node =
     (if node = nil t then (if RB_empty t then Inr (nil t) else Maximum (fuel_of t) t (root t))
      else
        bindE (get_left t node) (\<lambda>l.
        if l \<noteq> nil t then Maximum (fuel_of t) t l
        else bindE (get_parent t node) (\<lambda>p. climb_from_left (fuel_of t) t node p)))"

definition Successor :: "'a rbtree \<Rightarrow> nat \<Rightarrow> nat res" where
  "Successor t node =
     bindE (get_right t node) (\<lambda>r.
     if r \<noteq> nil t then Minimum (fuel_of t) t r
     else bindE (get_parent t node) (\<lambda>p. climb_from_right (fuel_of t) t node p))"

fun lower_loop :: "nat \<Rightarrow> 'a comparator \<Rightarrow> 'a rbtree \<Rightarrow> 'a \<Rightarrow> nat \<Rightarrow> nat \<Rightarrow> nat res" where
  "lower_loop fuel C t val found node =
     (if node \<noteq> nil t then
        case fuel of 0 \<Rightarrow> Inl Diverges
        | Suc fuel \<Rightarrow>
            bindE (node_value t node) (\<lambda>v.
            if less_than C v val then bindE (get_right t node) (\<lambda>r. lower_loop fuel C t val found r)
            else bindE (get_left t node) (\<lambda>l. lower_loop fuel C t val node l))
      else Inr found)"

fun upper_loop :: "nat \<Rightarrow> 'a comparator \<Rightarrow> 'a rbtree \<Rightarrow> 'a \<Rightarrow> nat \<Rightarrow> nat \<Rightarrow> nat res" where
  "upper_loop fuel C t val found node =
     (if node \<noteq> nil t then
        case fuel of 0 \<Rightarrow> Inl Diverges
        | Suc fuel \<Rightarrow>
            bindE (node_value t node) (\<lambda>v.
            if less_than C val v then bindE (get_left t node) (\<lambda>l. upper_loop fuel C t val node l)
            else bindE (get_right t node) (\<lambda>r. upper_loop fuel C t val found r))
      else Inr found)"

declare lower_loop.simps [simp del] upper_loop.simps [simp del]

definition RB_LowerBound :: "'a comparator \<Rightarrow> 'a rbtree \<Rightarrow> 'a \<Rightarrow> nat res" where
  "RB_LowerBound C t val = lower_loop (fuel_of t) C t val (nil t) (root t)"

definition RB_UpperBound :: "'a comparator \<Rightarrow> 'a rbtree \<Rightarrow> 'a \<Rightarrow> nat res" where
  "RB_UpperBound C t val = upper_loop (fuel_of t) C t val (nil t) (root t)"

definition RB_Find :: "'a comparator \<Rightarrow> 'a rbtree \<Rightarrow> 'a \<Rightarrow> nat res" where
  "RB_Find C t val = SearchTree (fuel_of t) C t (root t) val"

definition RB_Contains :: "'a comparator \<Rightarrow> 'a rbtree \<Rightarrow> 'a \<Rightarrow> bool res" where
  "RB_Contains C t val = bindE (SearchTree (fuel_of t) C t (root t) val) (\<lambda>p. Inr (p \<noteq> nil t))"

section \<open>Insertion\<close>

text \<open>The descent: the last node passed and, at the end, the place that is free.\<close>

fun descend :: "nat \<Rightarrow> 'a comparator \<Rightarrow> 'a rbtree \<Rightarrow> 'a \<Rightarrow> nat \<Rightarrow> nat \<Rightarrow> nat res" where
  "descend fuel C t val y x =
     (if x \<noteq> nil t then
        case fuel of 0 \<Rightarrow> Inl Diverges
        | Suc fuel \<Rightarrow>
            bindE (node_value t x) (\<lambda>v.
            if less_than C val v then bindE (get_left t x) (\<lambda>l. descend fuel C t val x l)
            else bindE (get_right t x) (\<lambda>r. descend fuel C t val x r))
      else Inr y)"

declare descend.simps [simp del]

definition link_below :: "'a comparator \<Rightarrow> 'a rbtree \<Rightarrow> 'a \<Rightarrow> nat \<Rightarrow> nat \<Rightarrow> 'a rbtree res" where
  "link_below C t v y node =
     (if y = nil t then Inr (t\<lparr>root := node\<rparr>)
      else bindE (node_value t y) (\<lambda>w.
           if less_than C v w then set_left t y node else set_right t y node))"

text \<open>The result is the tree, the node and \<open>*inserted\<close>.\<close>

definition FindOrInsert :: "'a comparator \<Rightarrow> 'a rbtree \<Rightarrow> 'a \<Rightarrow> ('a rbtree \<times> nat \<times> bool) res" where
  "FindOrInsert C t val =
     bindE (SearchTree (fuel_of t) C t (root t) val) (\<lambda>existing.
     if existing \<noteq> nil t then Inr (t, existing, False)
     else
       bindE (new_node t val) (\<lambda>(t, node).
       bindE (set_left t node (nil t)) (\<lambda>t.
       bindE (set_right t node (nil t)) (\<lambda>t.
       bindE (node_value t node) (\<lambda>v.
       bindE (descend (fuel_of t) C t v (nil t) (root t)) (\<lambda>y.
       bindE (set_parent t node y) (\<lambda>t.
       bindE (link_below C t v y node) (\<lambda>t.
       bindE (FixInsert (fuel_of t) t node) (\<lambda>t. Inr (t, node, True))))))))))"

definition RB_Insert :: "'a comparator \<Rightarrow> 'a rbtree \<Rightarrow> 'a \<Rightarrow> ('a rbtree \<times> bool) res" where
  "RB_Insert C t val = bindE (FindOrInsert C t val) (\<lambda>(t, node, inserted). Inr (t, inserted))"

section \<open>Deletion\<close>

definition Transplant :: "'a rbtree \<Rightarrow> nat \<Rightarrow> nat \<Rightarrow> 'a rbtree res" where
  "Transplant t u v =
     bindE (get_parent t u) (\<lambda>p.
     bindE (redirect_left_first t p u v) (\<lambda>t.
     bindE (get_parent t u) (\<lambda>p. set_parent t v p)))"

text \<open>\<open>y\<close>, already out of its own place, takes the place of \<open>z\<close>.\<close>

definition take_place :: "'a rbtree \<Rightarrow> nat \<Rightarrow> nat \<Rightarrow> 'a rbtree res" where
  "take_place t z y =
     bindE (Transplant t z y) (\<lambda>t.
     bindE (get_left t z) (\<lambda>zl.
     bindE (set_left t y zl) (\<lambda>t.
     bindE (set_parent t zl y) (\<lambda>t.
     bindE (get_color t z) (\<lambda>zc. set_color t y zc)))))"

text \<open>Unlinking \<open>z\<close>: the node \<open>x\<close> that takes the place of the one removed, and that one's
  original colour.\<close>

definition unlink :: "'a rbtree \<Rightarrow> nat \<Rightarrow> ('a rbtree \<times> nat \<times> NodeColor) res" where
  "unlink t z =
     bindE (get_color t z) (\<lambda>zc.
     bindE (get_left t z) (\<lambda>zl.
     bindE (get_right t z) (\<lambda>zr.
     if zl = nil t then bindE (Transplant t z zr) (\<lambda>t. Inr (t, zr, zc))
     else if zr = nil t then bindE (Transplant t z zl) (\<lambda>t. Inr (t, zl, zc))
     else
       bindE (Minimum (fuel_of t) t zr) (\<lambda>y.
       bindE (get_color t y) (\<lambda>yc.
       bindE (get_right t y) (\<lambda>x.
       bindE (get_parent t y) (\<lambda>yp.
       bindE (if yp = z then set_parent t x y
              else
                bindE (Transplant t y x) (\<lambda>t.
                bindE (get_right t z) (\<lambda>zr.
                bindE (set_right t y zr) (\<lambda>t. set_parent t zr y)))) (\<lambda>t.
       bindE (take_place t z y) (\<lambda>t. Inr (t, x, yc))))))))))"

definition RB_Erase :: "'a comparator \<Rightarrow> 'a rbtree \<Rightarrow> 'a \<Rightarrow> ('a rbtree \<times> bool) res" where
  "RB_Erase C t val =
     bindE (SearchTree (fuel_of t) C t (root t) val) (\<lambda>z.
     if z = nil t then Inr (t, False)
     else
       bindE (unlink t z) (\<lambda>(t, x, original_color).
       bindE (delete_node t z) (\<lambda>t.
       bindE (if original_color = BLACK then FixDelete (fuel_of t) t x else Inr t) (\<lambda>t.
       Inr (t, True)))))"

section \<open>Whole trees\<close>

definition RB_new :: "'a rbtree" where
  "RB_new =
     \<lparr>root = 1, nil = 1,
      nodes = (\<lambda>_. None)(1 := Some \<lparr>nval = None, color = BLACK, left = 1, right = 1, parent = 1\<rparr>),
      next_addr = 2\<rparr>"

fun DeleteTree :: "nat \<Rightarrow> 'a rbtree \<Rightarrow> nat \<Rightarrow> 'a rbtree res" where
  "DeleteTree fuel t node =
     (if node \<noteq> nil t then
        case fuel of 0 \<Rightarrow> Inl Diverges
        | Suc fuel \<Rightarrow>
            bindE (get_left t node) (\<lambda>l.
            bindE (DeleteTree fuel t l) (\<lambda>t.
            bindE (get_right t node) (\<lambda>r.
            bindE (DeleteTree fuel t r) (\<lambda>t. delete_node t node))))
      else Inr t)"

declare DeleteTree.simps [simp del]

definition RB_Clear :: "'a rbtree \<Rightarrow> 'a rbtree res" where
  "RB_Clear t = bindE (DeleteTree (fuel_of t) t (root t)) (\<lambda>t. Inr (t\<lparr>root := nil t\<rparr>))"

text \<open>The destructor also returns the sentinel's memory; what is left of the heap is leaked.\<close>

definition RB_destroy :: "'a rbtree \<Rightarrow> 'a rbtree res" where
  "RB_destroy t = bindE (DeleteTree (fuel_of t) t (root t)) (\<lambda>t. delete_node t (nil t))"

text \<open>\<open>CopySubtree\<close> reads the other tree and inserts into this one.\<close>

fun CopySubtree :: "nat \<Rightarrow> 'a comparator \<Rightarrow> 'a rbtree \<Rightarrow> 'a rbtree \<Rightarrow> nat \<Rightarrow> 'a rbtree res" where
  "CopySubtree fuel C t other node =
     (if node = nil other then Inr t
      else
        case fuel of 0 \<Rightarrow> Inl Diverges
        | Suc fuel \<Rightarrow>
            bindE (node_value other node) (\<lambda>v.
            bindE (FindOrInsert C t v) (\<lambda>(t, _, _).
            bindE (get_left other node) (\<lambda>l.
            bindE (CopySubtree fuel C t other l) (\<lambda>t.
            bindE (get_right other node) (\<lambda>r. CopySubtree fuel C t other r))))))"

declare CopySubtree.simps [simp del]

definition RB_CopyFrom :: "'a comparator \<Rightarrow> 'a rbtree \<Rightarrow> 'a rbtree \<Rightarrow> 'a rbtree res" where
  "RB_CopyFrom C t other = CopySubtree (fuel_of other) C t other (root other)"

definition RB_copy :: "'a comparator \<Rightarrow> 'a rbtree \<Rightarrow> 'a rbtree res" where
  "RB_copy C other = RB_CopyFrom C RB_new other"

text \<open>In the assignment operators \<open>None\<close> is the tree itself.\<close>

definition RB_copy_assign :: "'a comparator \<Rightarrow> 'a rbtree \<Rightarrow> 'a rbtree option \<Rightarrow> 'a rbtree res" where
  "RB_copy_assign C t other =
     (case other of None \<Rightarrow> Inr t | Some other \<Rightarrow> bindE (RB_Clear t) (\<lambda>t. RB_CopyFrom C t other))"

text \<open>\<open>Swap\<close> exchanges the pointers, and with them the nodes each tree owns.\<close>

definition RB_Swap :: "'a rbtree \<Rightarrow> 'a rbtree \<Rightarrow> 'a rbtree \<times> 'a rbtree" where
  "RB_Swap t other = (other, t)"

definition RB_move :: "'a rbtree \<Rightarrow> 'a rbtree \<times> 'a rbtree" where
  "RB_move other = RB_Swap RB_new other"

definition RB_move_assign :: "'a rbtree \<Rightarrow> 'a rbtree option \<Rightarrow> ('a rbtree \<times> 'a rbtree option) res" where
  "RB_move_assign t other =
     (case other of None \<Rightarrow> Inr (t, None)
      | Some other \<Rightarrow> bindE (RB_Clear t) (\<lambda>t. case RB_Swap t other of (t, other) \<Rightarrow> Inr (t, Some other)))"

end
