(* ===== verification/RB_Heap.thy ===== *)
theory RB_Heap
  imports RB_Tree
begin

text \<open>
  The heap of the red-black tree against trees as data: \<open>RB s T\<close> says that the pointers of \<open>s\<close>
  form the tree \<open>T\<close>, whose nodes carry their addresses, and that the heap holds nothing else.
  A place in the tree is a context, the list of frames from there up to the root. A read or
  a recolouring is shown once, at an arbitrary place.
\<close>

section \<open>Trees with addresses, and places in them\<close>

datatype 'a rt = Lf | Nd nat NodeColor 'a "'a rt" "'a rt"

datatype 'a fr = FL nat NodeColor 'a "'a rt" | FR nat NodeColor 'a "'a rt"

fun addr :: "nat \<Rightarrow> 'a rt \<Rightarrow> nat" where
  "addr z Lf = z"
| "addr z (Nd a c v l r) = a"

fun addrs :: "'a rt \<Rightarrow> nat list" where
  "addrs Lf = []"
| "addrs (Nd a c v l r) = addrs l @ a # addrs r"

fun vals :: "'a rt \<Rightarrow> 'a list" where
  "vals Lf = []"
| "vals (Nd a c v l r) = vals l @ v # vals r"

fun faddr :: "'a fr \<Rightarrow> nat" where
  "faddr (FL a c v r) = a"
| "faddr (FR a c v l) = a"

fun par :: "nat \<Rightarrow> 'a fr list \<Rightarrow> nat" where
  "par z [] = z"
| "par z (f # k) = faddr f"

fun plug :: "'a fr list \<Rightarrow> 'a rt \<Rightarrow> 'a rt" where
  "plug [] t = t"
| "plug (FL a c v r # k) t = plug k (Nd a c v t r)"
| "plug (FR a c v l # k) t = plug k (Nd a c v l t)"

text \<open>Addresses and values to the left and to the right of a place.\<close>

fun lefts :: "'a fr list \<Rightarrow> nat list" where
  "lefts [] = []"
| "lefts (FL a c v r # k) = lefts k"
| "lefts (FR a c v l # k) = lefts k @ addrs l @ [a]"

fun rights :: "'a fr list \<Rightarrow> nat list" where
  "rights [] = []"
| "rights (FL a c v r # k) = a # addrs r @ rights k"
| "rights (FR a c v l # k) = rights k"

fun lvals :: "'a fr list \<Rightarrow> 'a list" where
  "lvals [] = []"
| "lvals (FL a c v r # k) = lvals k"
| "lvals (FR a c v l # k) = lvals k @ vals l @ [v]"

fun rvals :: "'a fr list \<Rightarrow> 'a list" where
  "rvals [] = []"
| "rvals (FL a c v r # k) = v # vals r @ rvals k"
| "rvals (FR a c v l # k) = rvals k"

lemma addrs_plug: "addrs (plug k t) = lefts k @ addrs t @ rights k"
  by (induction k t rule: plug.induct) simp_all

lemma vals_plug: "vals (plug k t) = lvals k @ vals t @ rvals k"
  by (induction k t rule: plug.induct) simp_all

lemma plug_append: "plug (k @ k') t = plug k' (plug k t)"
  by (induction k t rule: plug.induct) simp_all

fun top :: "nat \<Rightarrow> 'a fr list \<Rightarrow> nat" where
  "top p [] = p"
| "top p (f # k) = top (faddr f) k"

lemma addr_plug: "addr z (plug k t) = top (addr z t) k"
  by (induction k t rule: plug.induct) simp_all

section \<open>Representation\<close>

declare fun_upd_apply [simp del] fun_upd_same [simp] fun_upd_other [simp]

definition mk :: "'a \<Rightarrow> NodeColor \<Rightarrow> nat \<Rightarrow> nat \<Rightarrow> nat \<Rightarrow> 'a node" where
  "mk v c l r p = \<lparr>nval = Some v, color = c, left = l, right = r, parent = p\<rparr>"

lemma mk_simps [simp]:
  "nval (mk v c l r p) = Some v" "color (mk v c l r p) = c" "left (mk v c l r p) = l"
  "right (mk v c l r p) = r" "parent (mk v c l r p) = p"
  "(mk v c l r p)\<lparr>color := c'\<rparr> = mk v c' l r p" "(mk v c l r p)\<lparr>left := q\<rparr> = mk v c q r p"
  "(mk v c l r p)\<lparr>right := q\<rparr> = mk v c l q p" "(mk v c l r p)\<lparr>parent := q\<rparr> = mk v c l r q"
  by (simp_all add: mk_def)

fun rept :: "(nat \<Rightarrow> 'a node option) \<Rightarrow> nat \<Rightarrow> nat \<Rightarrow> 'a rt \<Rightarrow> bool" where
  "rept h z q Lf = True"
| "rept h z q (Nd a c v l r) =
     (h a = Some (mk v c (addr z l) (addr z r) q) \<and> rept h z a l \<and> rept h z a r)"

fun repc :: "(nat \<Rightarrow> 'a node option) \<Rightarrow> nat \<Rightarrow> nat \<Rightarrow> 'a fr list \<Rightarrow> bool" where
  "repc h z p [] = True"
| "repc h z p (FL a c v r # k) = (h a = Some (mk v c p (addr z r) (par z k)) \<and> rept h z a r \<and> repc h z a k)"
| "repc h z p (FR a c v l # k) = (h a = Some (mk v c (addr z l) p (par z k)) \<and> rept h z a l \<and> repc h z a k)"

lemma rept_plug: "rept h z z (plug k t) \<longleftrightarrow> repc h z (addr z t) k \<and> rept h z (par z k) t"
  by (induction k t rule: plug.induct) auto

lemma rept_upd [simp]: "a \<notin> set (addrs t) \<Longrightarrow> rept (h(a := x)) z q t = rept h z q t"
  by (induction t arbitrary: q) auto

lemma repc_upd [simp]: "a \<notin> set (lefts k) \<Longrightarrow> a \<notin> set (rights k) \<Longrightarrow> repc (h(a := x)) z p k = repc h z p k"
proof (induction k arbitrary: p)
  case (Cons f k)
  then show ?case by (cases f) auto
qed simp

definition nil_node :: "nat \<Rightarrow> nat \<Rightarrow> 'a node" where
  "nil_node z q = \<lparr>nval = None, color = BLACK, left = z, right = z, parent = q\<rparr>"

lemma nil_node_simps [simp]:
  "nval (nil_node z q) = None" "color (nil_node z q) = BLACK" "left (nil_node z q) = z"
  "right (nil_node z q) = z" "parent (nil_node z q) = q"
  "(nil_node z q)\<lparr>parent := p\<rparr> = nil_node z p" "(nil_node z q)\<lparr>color := BLACK\<rparr> = nil_node z q"
  by (simp_all add: nil_node_def)

text \<open>\<open>extra\<close> are nodes that are allocated but not linked into the tree.\<close>

definition RBx :: "nat set \<Rightarrow> 'a rbtree \<Rightarrow> nat \<Rightarrow> 'a rt \<Rightarrow> bool" where
  "RBx extra s q T \<longleftrightarrow>
     root s = addr (nil s) T \<and> rept (nodes s) (nil s) (nil s) T \<and> distinct (addrs T) \<and>
     nil s \<notin> set (addrs T) \<and> nodes s (nil s) = Some (nil_node (nil s) q) \<and>
     dom (nodes s) = insert (nil s) (set (addrs T) \<union> extra) \<and> extra \<inter> insert (nil s) (set (addrs T)) = {} \<and>
     (\<forall>a \<in> dom (nodes s). 0 < a \<and> a < next_addr s) \<and> next_addr s \<le> MEM_MAX"

abbreviation RB :: "'a rbtree \<Rightarrow> nat \<Rightarrow> 'a rt \<Rightarrow> bool" where
  "RB s q T \<equiv> RBx {} s q T"

text \<open>What no operation on the links changes.\<close>

definition stays :: "'a rbtree \<Rightarrow> 'a rbtree \<Rightarrow> bool" where
  "stays s s' \<longleftrightarrow> nil s' = nil s \<and> next_addr s' = next_addr s"

lemma stays_refl [simp]: "stays s s"
  by (simp add: stays_def)

lemma stays_trans: "stays s t \<Longrightarrow> stays t u \<Longrightarrow> stays s u"
  by (simp add: stays_def)

section \<open>Reading\<close>

lemma node_at:
  assumes "RBx X s q (plug k (Nd a c v l r))"
  shows "nodes s a = Some (mk v c (addr (nil s) l) (addr (nil s) r) (par (nil s) k))"
  using assms by (simp add: RBx_def rept_plug)

lemma nil_at: "RBx X s q T \<Longrightarrow> nodes s (nil s) = Some (nil_node (nil s) q)"
  by (simp add: RBx_def)

named_theorems rb_read \<open>field reads at a known node\<close>

lemma deref_some [rb_read]: "nodes s p = Some n \<Longrightarrow> deref s p = Inr n"
  by (simp add: deref_def)

lemma reads_some [rb_read]:
  assumes "nodes s p = Some n"
  shows "get_color s p = Inr (color n)" "get_left s p = Inr (left n)" "get_right s p = Inr (right n)"
    "get_parent s p = Inr (parent n)" "nval n = Some v \<Longrightarrow> node_value s p = Inr v"
  using assms by (simp_all add: get_color_def get_left_def get_right_def get_parent_def node_value_def deref_def)

lemma writes_some [rb_read]:
  assumes "nodes s p = Some n"
  shows "modify s p f = Inr (s\<lparr>nodes := (nodes s)(p := Some (f n))\<rparr>)"
  using assms by (simp add: modify_def deref_def)

lemma addr_nil_iff: "RBx X s q (plug k t) \<Longrightarrow> addr (nil s) t = nil s \<longleftrightarrow> t = Lf"
  by (cases t) (auto simp: RBx_def addrs_plug)

section \<open>Colouring\<close>

lemma set_color_RB:
  assumes "RBx X s q (plug k (Nd a c v l r))"
  shows "\<exists>s'. set_color s a c' = Inr s' \<and> RBx X s' q (plug k (Nd a c' v l r)) \<and> stays s s'"
proof -
  note at = node_at [OF assms]
  let ?s = "s\<lparr>nodes := (nodes s)(a := Some (mk v c' (addr (nil s) l) (addr (nil s) r) (par (nil s) k)))\<rparr>"
  have "set_color s a c' = Inr ?s" using at by (simp add: set_color_def rb_read)
  moreover have "RBx X ?s q (plug k (Nd a c' v l r))"
    using assms unfolding RBx_def by (auto simp: rept_plug addrs_plug addr_plug)
  ultimately show ?thesis by (simp add: stays_def)
qed

end
