(* ===== verification/RB_Relink.thy ===== *)
theory RB_Relink
  imports RB_Heap
begin

text \<open>
  Rotating, transplanting and unlinking in the heap of the red-black tree, each shown once at an
  arbitrary place of the tree: what the pointer surgery does is one equation on trees. What goes
  to the left also goes to the right: \<open>mirror\<close> exchanges the two sides of a heap.
\<close>

section \<open>Relinking\<close>

lemma RBx_parts:
  assumes "RBx X s q (plug k t)"
  shows "distinct (lefts k @ addrs t @ rights k)" "nil s \<notin> set (lefts k @ addrs t @ rights k)"
    "repc (nodes s) (nil s) (addr (nil s) t) k" "rept (nodes s) (nil s) (par (nil s) k) t"
    "root s = top (addr (nil s) t) k"
  using assms by (auto simp: RBx_def addrs_plug rept_plug addr_plug)

text \<open>A state with the same nodes, linked the other way.\<close>

lemma RBx_relink:
  assumes "RBx X s q (plug k t)" and "set (addrs t') = set (addrs t)" and "distinct (addrs t')"
    and "root s' = top (addr (nil s) t') k"
    and "repc (nodes s') (nil s) (addr (nil s) t') k" and "rept (nodes s') (nil s) (par (nil s) k) t'"
    and "nodes s' (nil s) = Some (nil_node (nil s) q')" and "dom (nodes s') = dom (nodes s)"
    and "stays s s'"
  shows "RBx X s' q' (plug k t')"
  using assms by (simp add: RBx_def addrs_plug rept_plug addr_plug stays_def)

lemma rept_cong: "(\<And>a. a \<in> set (addrs t) \<Longrightarrow> h a = h' a) \<Longrightarrow> rept h z q t = rept h' z q t"
  by (induction t arbitrary: q) auto

lemma repc_cong: "(\<And>a. a \<in> set (lefts k @ rights k) \<Longrightarrow> h a = h' a) \<Longrightarrow> repc h z p k = repc h' z p k"
proof (induction k arbitrary: p)
  case (Cons f k)
  have tail: "repc h z p' k = repc h' z p' k" for p'
    by (rule Cons.IH) (use Cons.prems in \<open>cases f; fastforce\<close>)
  show ?case
  proof (cases f)
    case (FL a c v r)
    then show ?thesis using tail Cons.prems rept_cong [of r h h' z a] by simp
  next
    case (FR a c v l)
    then show ?thesis using tail Cons.prems rept_cong [of l h h' z a] by simp
  qed
qed simp

lemma addr_in: "addr z t = z \<or> addr z t \<in> set (addrs t)"
  by (cases t) auto

lemma top_redirect: "k \<noteq> [] \<Longrightarrow> top p k = top p' k"
  by (cases k) auto

text \<open>Redirecting the link into a place changes one node of the context and nothing else.\<close>

definition redirected :: "'a rbtree \<Rightarrow> nat \<Rightarrow> 'a fr list \<Rightarrow> 'a rbtree \<Rightarrow> bool" where
  "redirected s y k s' \<longleftrightarrow>
     repc (nodes s') (nil s) y k \<and> root s' = (if k = [] then y else root s) \<and> stays s s' \<and>
     dom (nodes s') = dom (nodes s) \<and> (\<forall>a. a \<notin> set (lefts k @ rights k) \<longrightarrow> nodes s' a = nodes s a)"

lemma redirect_left_ctx:
  assumes "repc (nodes s) (nil s) x k" and "distinct (lefts k @ rights k)" and "nil s \<notin> set (lefts k @ rights k)"
    and "x \<notin> insert (nil s) (set (lefts k @ rights k))" and "xp = par (nil s) k"
  shows "\<exists>s'. redirect_left_first s xp x y = Inr s' \<and> redirected s y k s'"
proof (cases k)
  case Nil
  then show ?thesis using assms(5) by (simp add: redirect_left_first_def redirected_def stays_def)
next
  case (Cons f k')
  show ?thesis
  proof (cases f)
    case (FL a c v r)
    show ?thesis using assms
      by (auto simp: Cons FL redirect_left_first_def redirected_def stays_def rb_read set_left_def fun_upd_apply [of _ a])
  next
    case (FR a c v l)
    have "x \<noteq> addr (nil s) l" using assms(4) addr_in [of "nil s" l] by (auto simp: Cons FR)
    then show ?thesis using assms
      by (auto simp: Cons FR redirect_left_first_def redirected_def stays_def rb_read set_right_def fun_upd_apply [of _ a])
  qed
qed

section \<open>Rotations\<close>

text \<open>The parent pointer of the subtree \<open>B\<close> moves from one node to another.\<close>

definition reparented :: "'a rbtree \<Rightarrow> nat \<Rightarrow> 'a rt \<Rightarrow> 'a rbtree \<Rightarrow> bool" where
  "reparented s x B s' \<longleftrightarrow>
     rept (nodes s') (nil s) x B \<and> root s' = root s \<and> stays s s' \<and> dom (nodes s') = dom (nodes s) \<and>
     (\<forall>a. a \<notin> set (addrs B) \<longrightarrow> nodes s' a = nodes s a)"

lemma reparent:
  assumes "rept (nodes s) (nil s) y B" and "distinct (addrs B)" and "nil s \<notin> set (addrs B)"
  shows "\<exists>s'. (if addr (nil s) B \<noteq> nil s then set_parent s (addr (nil s) B) x else Inr s) = Inr s' \<and> reparented s x B s'"
  using assms by (cases B) (auto simp: reparented_def stays_def set_parent_def rb_read)

lemma RotateLeft_RB:
  assumes "RBx X s q (plug k (Nd x c v A (Nd y d w B C)))"
  shows "\<exists>s'. RotateLeft s x = Inr s' \<and> RBx X s' q (plug k (Nd y d w (Nd x c v A B) C)) \<and> stays s s'"
proof -
  note parts = RBx_parts [OF assms] and nila = nil_at [OF assms]
  let ?z = "nil s" and ?h = "nodes s" and ?xp = "par (nil s) k"
  have hx: "?h x = Some (mk v c (addr ?z A) y ?xp)" and hy: "?h y = Some (mk w d (addr ?z B) (addr ?z C) x)"
    and dist: "distinct (lefts k @ addrs A @ x # addrs B @ y # addrs C @ rights k)"
    and zn: "?z \<notin> set (lefts k @ addrs A @ x # addrs B @ y # addrs C @ rights k)"
    using parts by simp_all
  define s1 where "s1 = s\<lparr>nodes := ?h(x := Some (mk v c (addr ?z A) (addr ?z B) ?xp))\<rparr>"
  have nil1: "nil s1 = ?z" "next_addr s1 = next_addr s" by (simp_all add: s1_def)
  have "rept (nodes s1) ?z y B" using parts dist by (simp add: s1_def)
  then obtain s2 where s2: "(if addr ?z B \<noteq> ?z then set_parent s1 (addr ?z B) x else Inr s1) = Inr s2" "reparented s1 x B s2"
    using reparent [of s1 y B x, unfolded nil1] dist zn by auto
  have keep2: "nodes s2 a = nodes s1 a" if "a \<notin> set (addrs B)" for a using s2(2) that by (simp add: reparented_def)
  have hx2: "nodes s2 x = Some (mk v c (addr ?z A) (addr ?z B) ?xp)" and hy2: "nodes s2 y = ?h y"
    using keep2 [of x] keep2 [of y] dist by (simp_all add: s1_def)
  have two: "nil s2 = ?z" "next_addr s2 = next_addr s" "root s2 = root s" "dom (nodes s2) = dom (nodes s)"
    using s2(2) hx by (auto simp: reparented_def stays_def s1_def)
  define s3 where "s3 = s2\<lparr>nodes := (nodes s2)(y := Some (mk w d (addr ?z B) (addr ?z C) ?xp))\<rparr>"
  have keep3: "nodes s3 a = ?h a" if "a \<notin> set (x # y # addrs B)" for a
    using keep2 [of a] that by (simp add: s3_def s1_def)
  have three: "nil s3 = ?z" "next_addr s3 = next_addr s" "root s3 = root s" "dom (nodes s3) = dom (nodes s)"
    using two hy by (auto simp: s3_def)
  have ctx: "distinct (lefts k @ rights k)" "?z \<notin> set (lefts k @ rights k)" "x \<notin> insert ?z (set (lefts k @ rights k))"
    using dist zn by auto
  have "repc (nodes s3) ?z x k"
  proof -
    have "repc (nodes s3) ?z x k = repc ?h ?z x k" using dist by (intro repc_cong keep3) auto
    then show ?thesis using parts by simp
  qed
  then obtain s4 where s4: "redirect_left_first s3 ?xp x y = Inr s4" "redirected s3 y k s4"
    using redirect_left_ctx [of s3 x k ?xp y, unfolded three] ctx by blast
  have keep4: "nodes s4 a = nodes s3 a" if "a \<notin> set (lefts k @ rights k)" for a using s4(2) that by (simp add: redirected_def)
  have hx4: "nodes s4 x = nodes s2 x" and hy4: "nodes s4 y = Some (mk w d (addr ?z B) (addr ?z C) ?xp)"
    using keep4 [of x] keep4 [of y] dist by (simp_all add: s3_def)
  have four: "nil s4 = ?z" "next_addr s4 = next_addr s" "root s4 = (if k = [] then y else root s)" "dom (nodes s4) = dom (nodes s)"
      "repc (nodes s4) ?z y k"
    using s4(2) three by (auto simp: redirected_def stays_def)
  have ky: "repc (nodes s4) ?z y k" using s4(2) three by (simp add: redirected_def)
  define s5 where "s5 = s4\<lparr>nodes := (nodes s4)(y := Some (mk w d x (addr ?z C) ?xp), x := Some (mk v c (addr ?z A) (addr ?z B) y))\<rparr>"
  have run: "RotateLeft s x = Inr s5"
  proof -
    have "modify s x (\<lambda>n. n\<lparr>right := addr ?z B\<rparr>) = Inr s1" using hx by (simp add: rb_read s1_def)
    moreover have "modify s2 y (\<lambda>n. n\<lparr>parent := ?xp\<rparr>) = Inr s3" using hy hy2 by (simp add: rb_read s3_def)
    moreover have "bindE (set_left s4 y x) (\<lambda>t. set_parent t x y) = Inr s5"
      using hx4 hy4 hx2 dist by (simp add: set_left_def set_parent_def rb_read s5_def)
    ultimately show ?thesis using s2(1) s4(1) hx2
      by (simp add: RotateLeft_def reads_some [OF hx] reads_some [OF hy] reads_some [OF hx2] set_right_def set_parent_def nil1)
  qed
  have frame: "rept (nodes s5) ?z p t = rept ?h ?z p t" if "set (addrs t) \<subseteq> set (addrs A) \<union> set (addrs C)" for p and t :: "'a rt"
  proof (rule rept_cong)
    fix a assume "a \<in> set (addrs t)"
    then have "a \<noteq> x" "a \<noteq> y" "a \<notin> set (lefts k @ rights k)" "a \<notin> set (addrs B)" using that dist by auto
    then show "nodes s5 a = ?h a" using keep3 keep4 by (simp add: s5_def)
  qed
  have frB: "rept (nodes s5) ?z x B"
  proof -
    have "rept (nodes s5) ?z x B = rept (nodes s2) ?z x B"
    proof (rule rept_cong)
      fix a assume "a \<in> set (addrs B)"
      then have "a \<noteq> x" "a \<noteq> y" "a \<notin> set (lefts k @ rights k)" using dist by auto
      then show "nodes s5 a = nodes s2 a" using keep4 by (simp add: s5_def s3_def)
    qed
    then show ?thesis using s2(2) by (simp add: reparented_def nil1)
  qed
  have "RBx X s5 q (plug k (Nd y d w (Nd x c v A B) C))"
  proof (rule RBx_relink [OF assms])
    show "distinct (addrs (Nd y d w (Nd x c v A B) C))" using dist by auto
    show "root s5 = top (addr ?z (Nd y d w (Nd x c v A B) C)) k"
      using four(3) parts(5) top_redirect [of k x y] by (auto simp: s5_def)
    show "repc (nodes s5) ?z (addr ?z (Nd y d w (Nd x c v A B) C)) k" using ky dist by (simp add: s5_def)
    show "rept (nodes s5) ?z (par ?z k) (Nd y d w (Nd x c v A B) C)"
      using parts(4) frB frame [of A x] frame [of C y] dist by (simp add: s5_def)
    show "nodes s5 ?z = Some (nil_node ?z q)"
      using nila keep4 [of ?z] keep3 [of ?z] zn by (simp add: s5_def)
    show "dom (nodes s5) = dom (nodes s)" using four(4) hx hy by (auto simp: s5_def)
    show "stays s s5" using four by (simp add: stays_def s5_def)
  qed auto
  then show ?thesis using run four by (auto simp: stays_def s5_def)
qed

section \<open>Left and right exchanged\<close>

definition mapE :: "('a \<Rightarrow> 'b) \<Rightarrow> 'a res \<Rightarrow> 'b res" where
  "mapE f m = bindE m (\<lambda>x. Inr (f x))"

definition mirror_node :: "'a node \<Rightarrow> 'a node" where
  "mirror_node n = n\<lparr>left := right n, right := left n\<rparr>"

definition mirror :: "'a rbtree \<Rightarrow> 'a rbtree" where
  "mirror s = s\<lparr>nodes := (\<lambda>a. map_option mirror_node (nodes s a))\<rparr>"

fun mir :: "'a rt \<Rightarrow> 'a rt" where
  "mir Lf = Lf"
| "mir (Nd a c v l r) = Nd a c v (mir r) (mir l)"

fun mirf :: "'a fr \<Rightarrow> 'a fr" where
  "mirf (FL a c v r) = FR a c v (mir r)"
| "mirf (FR a c v l) = FL a c v (mir l)"

lemma mapE_simps [simp]:
  "mapE f (Inr x) = Inr (f x)" "mapE f (Inl e) = Inl e"
  by (simp_all add: mapE_def)

lemma mapE_bindE [simp]: "mapE f (bindE m g) = bindE m (\<lambda>x. mapE f (g x))"
  by (simp add: mapE_def bindE_assoc)

lemma bindE_mapE [simp]: "bindE (mapE f m) k = bindE m (\<lambda>x. k (f x))"
  by (simp add: mapE_def bindE_assoc)

lemma bindE_if: "bindE (if b then m else n) f = (if b then bindE m f else bindE n f)"
  by simp

lemma mapE_if: "mapE f (if b then m else n) = (if b then mapE f m else mapE f n)"
  by simp

lemma mapE_id: "mapE (\<lambda>x. x) m = m"
  by (cases m) simp_all

lemma mapE_mapE: "mapE f (mapE g m) = mapE (\<lambda>x. f (g x)) m"
  by (cases m) simp_all

lemma mirror_fields [simp]: "root (mirror s) = root s" "nil (mirror s) = nil s" "next_addr (mirror s) = next_addr s"
  "mirror (s\<lparr>root := x\<rparr>) = mirror s\<lparr>root := x\<rparr>"
  by (simp_all add: mirror_def)

lemma mirror_mirror [simp]: "mirror (mirror s) = s"
  by (simp add: mirror_def mirror_node_def option.map_comp comp_def option.map_ident)

lemma mir_mir [simp]: "mir (mir t) = t"
  by (induction t) simp_all

lemma mirf_mirf [simp]: "mirf (mirf f) = f"
  by (cases f) simp_all

lemma mirror_reads [simp]:
  "get_left (mirror s) p = get_right s p" "get_right (mirror s) p = get_left s p"
  "get_parent (mirror s) p = get_parent s p" "get_color (mirror s) p = get_color s p"
  "node_value (mirror s) p = node_value s p"
  by (simp_all add: get_left_def get_right_def get_parent_def get_color_def node_value_def deref_def mirror_def
      mirror_node_def split: option.split)

lemma mirror_modify:
  assumes "\<And>n. mirror_node (g n) = f (mirror_node n)"
  shows "modify (mirror s) p f = mapE mirror (modify s p g)"
  using assms by (cases "nodes s p") (auto simp: modify_def deref_def mirror_def fun_eq_iff fun_upd_apply)

lemma mirror_writes [simp]:
  "set_left (mirror s) p x = mapE mirror (set_right s p x)" "set_right (mirror s) p x = mapE mirror (set_left s p x)"
  "set_parent (mirror s) p x = mapE mirror (set_parent s p x)" "set_color (mirror s) p c = mapE mirror (set_color s p c)"
  unfolding set_left_def set_right_def set_parent_def set_color_def
  by (rule mirror_modify; simp add: mirror_node_def)+

lemma mirror_redirect [simp]:
  "redirect_right_first (mirror s) xp x y = mapE mirror (redirect_left_first s xp x y)"
  by (simp add: redirect_right_first_def redirect_left_first_def mapE_if cong: if_cong)

lemma mirror_rotate_right [simp]: "RotateRight (mirror s) x = mapE mirror (RotateLeft s x)"
  by (simp add: RotateRight_def RotateLeft_def mapE_if bindE_if bindE_assoc cong: if_cong)

lemma mirror_rotate_left [simp]: "RotateLeft (mirror s) x = mapE mirror (RotateRight s x)"
  using mirror_rotate_right [of "mirror s" x] by (simp add: mapE_mapE mapE_id)

lemma mirror_insert: "insert_right (mirror s) k p g = mapE (map_prod mirror id) (insert_left s k p g)"
  by (simp add: insert_right_def insert_left_def mapE_if bindE_if bindE_assoc cong: if_cong)

lemma mirror_delete_parts [simp]:
  "sibling_right (mirror s) x p = mapE (map_prod mirror id) (sibling_left s x p)"
  "far_right (mirror s) x w near c = mapE (map_prod mirror id) (far_left s x w near c)"
  "last_right (mirror s) x w = mapE mirror (last_left s x w)"
  by (simp_all add: sibling_right_def sibling_left_def far_right_def far_left_def last_right_def last_left_def
      mapE_if bindE_if cong: if_cong)

lemma mapE_split: "mapE f (case q of (a, b) \<Rightarrow> g a b) = (case q of (a, b) \<Rightarrow> mapE f (g a b))"
  by (cases q) simp

lemma case_map_prod: "(case map_prod f id q of (a, b) \<Rightarrow> g a b) = (case q of (a, b) \<Rightarrow> g (f a) b)"
  by (cases q) simp

lemma mirror_delete: "delete_right (mirror s) k p = mapE (map_prod mirror id) (delete_left s k p)"
  by (simp add: delete_right_def delete_left_def mapE_if bindE_if mapE_split case_map_prod cong: if_cong)

lemma addrs_mir [simp]: "addrs (mir t) = rev (addrs t)" "addr z (mir t) = addr z t"
proof -
  show "addrs (mir t) = rev (addrs t)" by (induction t) simp_all
  show "addr z (mir t) = addr z t" by (cases t) simp_all
qed

lemma plug_mir: "plug (map mirf k) (mir t) = mir (plug k t)"
  by (induction k t rule: plug.induct) simp_all

lemma mirror_node_eq: "mirror_node n = m \<longleftrightarrow> n = mirror_node m"
  by (auto simp: mirror_node_def)

lemma mirror_node_at [simp]:
  "mirror_node (mk v c l r p) = mk v c r l p" "mirror_node (nil_node z q) = nil_node z q"
  by (simp_all add: mirror_node_def mk_def nil_node_def)

lemma nodes_mirror: "nodes (mirror s) a = Some n \<longleftrightarrow> nodes s a = Some (mirror_node n)"
  by (auto simp: mirror_def mirror_node_eq)

lemma rept_mirror: "rept (nodes (mirror s)) z p (mir t) = rept (nodes s) z p t"
proof (induction t arbitrary: p)
  case (Nd a c v l r)
  have "nodes (mirror s) a = Some (mk v c (addr z r) (addr z l) p) \<longleftrightarrow> nodes s a = Some (mk v c (addr z l) (addr z r) p)"
    by (simp add: nodes_mirror)
  with Nd show ?case by auto
qed simp

lemma RBx_mirror [simp]: "RBx X (mirror s) q (mir T) = RBx X s q T"
proof -
  have "nodes (mirror s) (nil s) = Some (nil_node (nil s) q) \<longleftrightarrow> nodes s (nil s) = Some (nil_node (nil s) q)"
    by (simp add: nodes_mirror)
  moreover have "dom (nodes (mirror s)) = dom (nodes s)" by (auto simp: mirror_def)
  ultimately show ?thesis by (simp add: RBx_def rept_mirror)
qed

lemma stays_mirror [simp]: "stays (mirror s) s' = stays s s'" "stays s (mirror s') = stays s s'"
  by (simp_all add: stays_def)

lemma RotateRight_RB:
  assumes "RBx X s q (plug k (Nd x c v (Nd y d w C B) A))"
  shows "\<exists>s'. RotateRight s x = Inr s' \<and> RBx X s' q (plug k (Nd y d w C (Nd x c v B A))) \<and> stays s s'"
proof -
  have "RBx X (mirror s) q (plug (map mirf k) (Nd x c v (mir A) (Nd y d w (mir B) (mir C))))"
    using assms RBx_mirror [of X s q "plug k (Nd x c v (Nd y d w C B) A)"] by (simp flip: plug_mir)
  from RotateLeft_RB [OF this] obtain s' where s': "RotateLeft (mirror s) x = Inr s'" "stays s s'"
      "RBx X s' q (plug (map mirf k) (Nd y d w (Nd x c v (mir A) (mir B)) (mir C)))" by auto
  then have "RotateRight s x = Inr (mirror s')" using mirror_rotate_right [of "mirror s" x] by simp
  moreover have "RBx X (mirror s') q (plug k (Nd y d w C (Nd x c v B A)))"
    using s'(3) RBx_mirror [of X "mirror s'" q "plug k (Nd y d w C (Nd x c v B A))"] by (simp flip: plug_mir)
  ultimately show ?thesis using s'(2) by simp
qed

section \<open>Transplanting\<close>

text \<open>Setting the parent of a subtree that may be empty writes to the sentinel then.\<close>

lemma reparent_nil:
  assumes "rept (nodes s) (nil s) y B" and "distinct (addrs B)" and "nil s \<notin> set (addrs B)"
    and "nodes s (nil s) = Some (nil_node (nil s) q)"
  shows "\<exists>s'. set_parent s (addr (nil s) B) x = Inr s' \<and> rept (nodes s') (nil s) x B \<and> root s' = root s \<and>
     stays s s' \<and> dom (nodes s') = dom (nodes s) \<and> nodes s' (nil s) = Some (nil_node (nil s) (if B = Lf then x else q)) \<and>
     (\<forall>a. a \<notin> insert (nil s) (set (addrs B)) \<longrightarrow> nodes s' a = nodes s a)"
  using assms by (cases B) (auto simp: stays_def set_parent_def rb_read)

lemma Transplant_out:
  assumes "RBx X s q (plug k (Nd a c v l r))" and t: "l = Lf \<and> t = r \<or> r = Lf \<and> t = l"
  shows "\<exists>s'. Transplant s a (addr (nil s) t) = Inr s' \<and>
     RBx (insert a X) s' (if t = Lf then par (nil s) k else q) (plug k t) \<and> stays s s' \<and> nodes s' a = nodes s a"
proof -
  note parts = RBx_parts [OF assms(1)] and nila = nil_at [OF assms(1)]
  let ?z = "nil s"
  have at: "nodes s a = Some (mk v c (addr ?z l) (addr ?z r) (par ?z k))" and kid: "rept (nodes s) ?z a t"
    and dist: "distinct (lefts k @ addrs t @ rights k)" and an: "a \<notin> insert ?z (set (lefts k @ addrs t @ rights k))"
    and zn: "?z \<notin> set (lefts k @ addrs t @ rights k)"
    using parts t by auto
  have ctx: "distinct (lefts k @ rights k)" "?z \<notin> set (lefts k @ rights k)" "a \<notin> insert ?z (set (lefts k @ rights k))"
    using dist zn an by auto
  obtain s1 where s1: "redirect_left_first s (par ?z k) a (addr ?z t) = Inr s1" "redirected s (addr ?z t) k s1"
    using redirect_left_ctx [of s a k "par ?z k" "addr ?z t"] ctx parts by auto
  have keep1: "nodes s1 b = nodes s b" if "b \<notin> set (lefts k @ rights k)" for b using s1(2) that by (simp add: redirected_def)
  have one: "nil s1 = ?z" "next_addr s1 = next_addr s" "repc (nodes s1) ?z (addr ?z t) k"
      "root s1 = (if k = [] then addr ?z t else root s)" "dom (nodes s1) = dom (nodes s)"
    using s1(2) by (auto simp: redirected_def stays_def)
  have tn: "distinct (addrs t)" "?z \<notin> set (addrs t)" using dist zn by auto
  have "rept (nodes s1) ?z a t"
  proof -
    have "rept (nodes s1) ?z a t = rept (nodes s) ?z a t" using dist by (intro rept_cong keep1) auto
    then show ?thesis using kid by simp
  qed
  moreover have "nodes s1 ?z = Some (nil_node ?z q)" using keep1 zn nila by auto
  ultimately obtain s2 where s2: "set_parent s1 (addr ?z t) (par ?z k) = Inr s2" "rept (nodes s2) ?z (par ?z k) t"
      "root s2 = root s1" "stays s1 s2" "dom (nodes s2) = dom (nodes s1)"
      "nodes s2 ?z = Some (nil_node ?z (if t = Lf then par ?z k else q))"
      and keep2: "\<And>b. b \<notin> insert ?z (set (addrs t)) \<Longrightarrow> nodes s2 b = nodes s1 b"
    using reparent_nil [of s1 a t q "par ?z k"] tn unfolding one(1) by blast
  have "nodes s1 a = nodes s a" using keep1 an by auto
  then have run: "Transplant s a (addr ?z t) = Inr s2" and same: "nodes s2 a = nodes s a"
    using s1(1) s2(1) at keep2 [of a] an by (simp_all add: Transplant_def reads_some [OF at] rb_read)
  have kk: "repc (nodes s2) ?z (addr ?z t) k"
  proof -
    have "repc (nodes s2) ?z (addr ?z t) k = repc (nodes s1) ?z (addr ?z t) k"
      using dist zn by (intro repc_cong keep2) auto
    then show ?thesis using one by simp
  qed
  have "RBx (insert a X) s2 (if t = Lf then par ?z k else q) (plug k t)"
  proof -
    have "dom (nodes s) = insert ?z (set (addrs (plug k (Nd a c v l r))) \<union> X)" "\<forall>b \<in> dom (nodes s). 0 < b \<and> b < next_addr s" "next_addr s \<le> MEM_MAX"
      "X \<inter> insert ?z (set (addrs (plug k (Nd a c v l r)))) = {}" using assms(1) by (simp_all add: RBx_def)
    moreover have "set (addrs (plug k (Nd a c v l r))) = insert a (set (addrs (plug k t)))"
      using t by (auto simp: addrs_plug)
    moreover have "root s2 = top (addr ?z t) k"
      using one(4) s2(3) parts(5) top_redirect [of k a "addr ?z t"] by auto
    moreover have "distinct (addrs (plug k t))" "?z \<notin> set (addrs (plug k t))" "a \<notin> insert ?z (set (addrs (plug k t)))"
      using dist zn an by (simp_all add: addrs_plug)
    moreover have "rept (nodes s2) ?z ?z (plug k t)" using kk s2(2) by (simp add: rept_plug)
    moreover have "dom (nodes s2) = dom (nodes s)" "nil s2 = ?z" "next_addr s2 = next_addr s" using s2(4,5) one by (simp_all add: stays_def)
    ultimately show ?thesis using s2(6) unfolding RBx_def by (auto simp: addr_plug)
  qed
  then show ?thesis using run same s2(4) one by (auto simp: stays_def)
qed


text \<open>
  \<open>y\<close> takes the place of \<open>z\<close>: it keeps what hangs on its right and gets the link from above,
  the left subtree and the colour of \<open>z\<close>. That \<open>z\<close> still points to its old right child does
  not matter any more.
\<close>

lemma take_place_RB:
  assumes k: "repc (nodes s) (nil s) z k" and root: "root s = top z k"
    and at_z: "nodes s z = Some (mk zv zc (addr (nil s) l) zr (par (nil s) k))" and l: "rept (nodes s) (nil s) z l" "l \<noteq> Lf"
    and at_y: "nodes s y = Some (mk yv yc yl (addr (nil s) r) yp)" and r: "rept (nodes s) (nil s) y r"
    and dist: "distinct (z # lefts k @ addrs l @ y # addrs r @ rights k)"
    and zn: "nil s \<notin> set (z # lefts k @ addrs l @ y # addrs r @ rights k)"
    and nila: "nodes s (nil s) = Some (nil_node (nil s) q)"
    and all: "dom (nodes s) = insert (nil s) (set (z # lefts k @ addrs l @ y # addrs r @ rights k))"
      "\<forall>b \<in> dom (nodes s). 0 < b \<and> b < next_addr s" "next_addr s \<le> MEM_MAX"
  shows "\<exists>s'. take_place s z y = Inr s' \<and> RBx {z} s' q (plug k (Nd y zc yv l r)) \<and> stays s s'"
proof -
  let ?z = "nil s" and ?kp = "par (nil s) k"
  have ctx: "distinct (lefts k @ rights k)" "?z \<notin> set (lefts k @ rights k)" "z \<notin> insert ?z (set (lefts k @ rights k))"
    using dist zn by auto
  obtain s1 where s1: "redirect_left_first s ?kp z y = Inr s1" "redirected s y k s1"
    using redirect_left_ctx [OF k ctx refl] by blast
  have keep1: "nodes s1 b = nodes s b" if "b \<notin> set (lefts k @ rights k)" for b using s1(2) that by (simp add: redirected_def)
  have one: "nil s1 = ?z" "next_addr s1 = next_addr s" "repc (nodes s1) ?z y k"
      "root s1 = (if k = [] then y else root s)" "dom (nodes s1) = dom (nodes s)"
    using s1(2) by (auto simp: redirected_def stays_def)
  have at_z1: "nodes s1 z = Some (mk zv zc (addr ?z l) zr ?kp)" and at_y1: "nodes s1 y = Some (mk yv yc yl (addr ?z r) yp)"
    using keep1 [of z] keep1 [of y] dist at_z at_y by auto
  define s2 where "s2 = s1\<lparr>nodes := (nodes s1)(y := Some (mk yv yc (addr ?z l) (addr ?z r) ?kp))\<rparr>"
  have trans: "Transplant s z y = set_parent s1 y ?kp"
    using s1(1) at_z at_z1 by (simp add: Transplant_def reads_some [OF at_z] reads_some [OF at_z1])
  have l2: "rept (nodes s2) ?z z l"
  proof -
    have "rept (nodes s2) ?z z l = rept (nodes s) ?z z l"
    proof (rule rept_cong)
      fix b assume "b \<in> set (addrs l)"
      then have "b \<noteq> y" "b \<notin> set (lefts k @ rights k)" using dist by auto
      then show "nodes s2 b = nodes s b" using keep1 by (simp add: s2_def)
    qed
    then show ?thesis using l by simp
  qed
  have two: "nil s2 = ?z" "next_addr s2 = next_addr s" "root s2 = root s1" "dom (nodes s2) = dom (nodes s)"
    using one at_y1 by (auto simp: s2_def)
  have "nodes s2 ?z = Some (nil_node ?z q)" using keep1 zn nila by (auto simp: s2_def)
  moreover have ln: "distinct (addrs l)" "?z \<notin> set (addrs l)" using dist zn by auto
  ultimately obtain s3 where s3: "set_parent s2 (addr ?z l) y = Inr s3" "rept (nodes s3) ?z y l"
      "root s3 = root s2" "stays s2 s3" "dom (nodes s3) = dom (nodes s2)" "nodes s3 ?z = Some (nil_node ?z q)"
      and keep3: "\<And>b. b \<notin> insert ?z (set (addrs l)) \<Longrightarrow> nodes s3 b = nodes s2 b"
    using reparent_nil [of s2 z l q y] l2 l(2) unfolding two(1) by auto
  have at_y3: "nodes s3 y = Some (mk yv yc (addr ?z l) (addr ?z r) ?kp)" and at_z3: "nodes s3 z = nodes s1 z"
    using keep3 [of y] keep3 [of z] dist zn by (auto simp: s2_def)
  define s4 where "s4 = s3\<lparr>nodes := (nodes s3)(y := Some (mk yv zc (addr ?z l) (addr ?z r) ?kp))\<rparr>"
  have run: "take_place s z y = Inr s4"
  proof -
    have yz: "z \<noteq> y" using dist by auto
    define s2' where "s2' = s1\<lparr>nodes := (nodes s1)(y := Some (mk yv yc yl (addr ?z r) ?kp))\<rparr>"
    have a: "set_parent s1 y ?kp = Inr s2'" using at_y1 by (simp add: set_parent_def rb_read s2'_def)
    have b: "get_left s2' z = Inr (addr ?z l)" using at_z1 yz by (simp add: s2'_def get_left_def rb_read)
    have c: "set_left s2' y (addr ?z l) = Inr s2" by (simp add: s2'_def s2_def set_left_def rb_read)
    have d: "get_color s3 z = Inr zc" using at_z3 at_z1 by (simp add: get_color_def rb_read)
    have e: "set_color s3 y zc = Inr s4" using at_y3 by (simp add: set_color_def rb_read s4_def)
    show ?thesis using trans a b c s3(1) d e by (simp add: take_place_def)
  qed
  have out: "nodes s4 b = nodes s b" if "b \<notin> insert ?z (insert y (set (addrs l @ lefts k @ rights k)))" for b
    using that keep1 keep3 by (simp add: s4_def s2_def)
  have "RBx {z} s4 q (plug k (Nd y zc yv l r))"
  proof -
    have "repc (nodes s4) ?z y k"
    proof -
      have "repc (nodes s4) ?z y k = repc (nodes s1) ?z y k"
      proof (rule repc_cong)
        fix b assume "b \<in> set (lefts k @ rights k)"
        then have "b \<noteq> y" "b \<notin> insert ?z (set (addrs l))" using dist zn by auto
        then show "nodes s4 b = nodes s1 b" using keep3 by (simp add: s4_def s2_def)
      qed
      then show ?thesis using one by simp
    qed
    moreover have "rept (nodes s4) ?z y r"
    proof -
      have "rept (nodes s4) ?z y r = rept (nodes s) ?z y r"
        by (rule rept_cong, rule out) (use dist zn in auto)
      then show ?thesis using r by simp
    qed
    moreover have "rept (nodes s4) ?z y l" using s3(2) dist by (simp add: s4_def)
    moreover have "nodes s4 ?z = Some (nil_node ?z q)" using s3(6) zn by (auto simp: s4_def)
    moreover have "dom (nodes s4) = dom (nodes s)" using s3(5) two at_y3 by (auto simp: s4_def)
    moreover have "root s4 = top y k" using one(4) two(3) s3(3) root top_redirect [of k z y] by (auto simp: s4_def)
    moreover have "nil s4 = ?z" "next_addr s4 = next_addr s" using s3(4) two by (simp_all add: s4_def stays_def)
    ultimately show ?thesis using dist zn all by (auto simp: RBx_def rept_plug addr_plug addrs_plug s4_def)
  qed
  then show ?thesis using run s3(4) two by (auto simp: stays_def s4_def)
qed

section \<open>The outermost nodes\<close>

text \<open>The nodes are at different positive addresses below \<open>next_addr\<close>, so that is fuel enough.\<close>

lemma RBx_fuel:
  assumes "RBx X s q T"
  shows "length (addrs T) < next_addr s"
proof -
  have "insert (nil s) (set (addrs T)) \<subseteq> {1..<next_addr s}" 
  proof -
    have "dom (nodes s) \<subseteq> {1..<next_addr s}" "insert (nil s) (set (addrs T)) \<subseteq> dom (nodes s)"
      using assms by (auto simp: RBx_def Suc_le_eq)
    then show ?thesis by blast
  qed
  then have "card (insert (nil s) (set (addrs T))) \<le> next_addr s - 1" by (metis card_atLeastLessThan card_mono finite_atLeastLessThan)
  moreover have "card (insert (nil s) (set (addrs T))) = Suc (length (addrs T))"
    using assms by (simp add: RBx_def distinct_card)
  moreover have "nil s < next_addr s" using assms by (simp add: RBx_def)
  ultimately show ?thesis by linarith
qed

lemma addrs_Nil_iff [simp]: "addrs t = [] \<longleftrightarrow> t = Lf"
  by (cases t) simp_all

lemma addr_nil [simp]: "z \<notin> set (addrs t) \<Longrightarrow> addr z t = z \<longleftrightarrow> t = Lf"
  by (cases t) auto

lemma Minimum_hd:
  assumes "rept (nodes s) (nil s) p t" and "t \<noteq> Lf" and "nil s \<notin> set (addrs t)" and "length (addrs t) \<le> n"
  shows "Minimum n s (addr (nil s) t) = Inr (hd (addrs t))"
  using assms
proof (induction t arbitrary: p n)
  case (Nd a c v l r)
  show ?case
  proof (cases "l = Lf")
    case True
    then show ?thesis using Nd.prems by (simp add: Minimum.simps [of n] reads_some)
  next
    case False
    obtain m where n: "n = Suc m" using Nd.prems by (cases n) auto
    have "Minimum m s (addr (nil s) l) = Inr (hd (addrs l))" using Nd.prems False n by (intro Nd.IH(1)) auto
    then show ?thesis using Nd.prems False by (simp add: n Minimum.simps [of "Suc m"] reads_some)
  qed
qed simp

lemma mirror_Minimum: "Maximum n (mirror s) a = Minimum n s a"
proof (induction n arbitrary: a)
  case 0
  then show ?case by (simp add: Maximum.simps [of 0] Minimum.simps [of 0] cong: if_cong)
next
  case (Suc n)
  then show ?case by (simp add: Maximum.simps [of "Suc n"] Minimum.simps [of "Suc n"] cong: if_cong)
qed

lemma Maximum_last:
  assumes "rept (nodes s) (nil s) p t" and "t \<noteq> Lf" and "nil s \<notin> set (addrs t)" and "length (addrs t) \<le> n"
  shows "Maximum n s (addr (nil s) t) = Inr (last (addrs t))"
proof -
  have "mir t \<noteq> Lf" using assms(2) by (cases t) simp_all
  then have "Minimum n (mirror s) (addr (nil s) (mir t)) = Inr (hd (addrs (mir t)))"
    using assms Minimum_hd [of "mirror s" p "mir t" n] by (simp add: rept_mirror)
  then show ?thesis using mirror_Minimum [of n "mirror s"] assms(2) by (simp add: hd_rev)
qed

definition lspine :: "'a fr list \<Rightarrow> bool" where
  "lspine k \<longleftrightarrow> (\<forall>f \<in> set k. case f of FL a c v r \<Rightarrow> True | FR a c v l \<Rightarrow> False)"

lemma lspine_simps [simp]: "lspine []" "lspine (FL a c v r # k) = lspine k" "\<not> lspine (FR a c v r # k)"
   "lspine (k @ k') \<longleftrightarrow> lspine k \<and> lspine k'"
  by (auto simp: lspine_def)

lemma leftmost:
  "t \<noteq> Lf \<Longrightarrow> \<exists>k c v r. t = plug k (Nd (hd (addrs t)) c v Lf r) \<and> lspine k"
proof (induction t)
  case (Nd a c v l r)
  show ?case
  proof (cases "l = Lf")
    case True
    then have "Nd a c v l r = plug [] (Nd (hd (addrs (Nd a c v l r))) c v Lf r)" "lspine []" by simp_all
    then show ?thesis by blast
  next
    case False
    then obtain k c' v' r' where k: "l = plug k (Nd (hd (addrs l)) c' v' Lf r')" "lspine k" using Nd.IH by blast
    then have "Nd a c v l r = plug (k @ [FL a c v r]) (Nd (hd (addrs (Nd a c v l r))) c' v' Lf r')" "lspine (k @ [FL a c v r])"
      using False by (simp_all add: plug_append)
    then show ?thesis by blast
  qed
qed simp

lemma lefts_append: "lefts (k @ k') = lefts k' @ lefts k" "rights (k @ k') = rights k @ rights k'"
proof -
  show "lefts (k @ k') = lefts k' @ lefts k" by (induction k rule: lefts.induct) simp_all
  show "rights (k @ k') = rights k @ rights k'" by (induction k rule: rights.induct) simp_all
qed

lemma lspine_lefts [simp]: "lspine k \<Longrightarrow> lefts k = []"
  by (induction k rule: lefts.induct) simp_all

lemma faddr_in: "k \<noteq> [] \<Longrightarrow> par z k \<in> set (lefts k @ rights k)"
  by (cases k; cases "hd k") auto

section \<open>Unlinking\<close>

text \<open>What is left of \<open>plug k (Nd z c v l r)\<close>: the tree \<open>t\<close> in the context \<open>k'\<close>, where a node of
  colour \<open>oc\<close> is missing.\<close>

definition unlinked :: "'a fr list \<Rightarrow> NodeColor \<Rightarrow> 'a rt \<Rightarrow> 'a rt \<Rightarrow> 'a fr list \<Rightarrow> 'a rt \<Rightarrow> NodeColor \<Rightarrow> bool" where
  "unlinked k c l r k' t oc \<longleftrightarrow>
     l = Lf \<and> k' = k \<and> t = r \<and> oc = c \<or> r = Lf \<and> k' = k \<and> t = l \<and> oc = c \<or>
     (\<exists>ky y w. l \<noteq> Lf \<and> r = plug ky (Nd y oc w Lf t) \<and> lspine ky \<and> k' = ky @ FR y c w l # k)"

lemma unlink_RB:
  assumes "RB s q (plug k (Nd z c v l r))"
  shows "\<exists>s' k' t oc q'. unlink s z = Inr (s', addr (nil s) t, oc) \<and> unlinked k c l r k' t oc \<and>
     RBx {z} s' q' (plug k' t) \<and> (t = Lf \<longrightarrow> q' = par (nil s) k') \<and> stays s s'"
proof -
  note parts = RBx_parts [OF assms(1)] and nila = nil_at [OF assms(1)]
  let ?z = "nil s"
  have at: "nodes s z = Some (mk v c (addr ?z l) (addr ?z r) (par ?z k))" using parts by simp
  have zl: "addr ?z l = ?z \<longleftrightarrow> l = Lf" and zr: "addr ?z r = ?z \<longleftrightarrow> r = Lf" using parts by auto
  consider "l = Lf" | "l \<noteq> Lf" "r = Lf" | "l \<noteq> Lf" "r \<noteq> Lf" by blast
  then show ?thesis
  proof cases
    case 1
    obtain s' where "Transplant s z (addr ?z r) = Inr s'" "RBx {z} s' (if r = Lf then par ?z k else q) (plug k r)" "stays s s'"
      using Transplant_out [OF assms, of r] 1 by auto
    moreover have "unlinked k c l r k r c" using 1 by (simp add: unlinked_def)
    moreover have "unlink s z = bindE (Transplant s z (addr ?z r)) (\<lambda>t. Inr (t, addr ?z r, c))"
      using 1 by (simp add: unlink_def reads_some [OF at])
    ultimately show ?thesis by (intro exI [of _ s'] exI [of _ k] exI [of _ r] exI [of _ c] exI) auto
  next
    case 2
    obtain s' where "Transplant s z (addr ?z l) = Inr s'" "RBx {z} s' (if l = Lf then par ?z k else q) (plug k l)" "stays s s'"
      using Transplant_out [OF assms, of l] 2 by auto
    moreover have "unlinked k c l r k l c" using 2 by (simp add: unlinked_def)
    moreover have "unlink s z = bindE (Transplant s z (addr ?z l)) (\<lambda>t. Inr (t, addr ?z l, c))"
      using 2 zl by (simp add: unlink_def reads_some [OF at])
    ultimately show ?thesis by (intro exI [of _ s'] exI [of _ k] exI [of _ l] exI [of _ c] exI) auto
  next
    case 3
    obtain ky yc w t where ky: "r = plug ky (Nd (hd (addrs r)) yc w Lf t)" "lspine ky" using leftmost 3 by blast
    define y where "y = hd (addrs r)"
    have r: "r = plug ky (Nd y yc w Lf t)" using ky by (simp add: y_def)
    have sh: "unlinked k c l r (ky @ FR y c w l # k) t yc" using 3 r ky(2) by (auto simp: unlinked_def)
    let ?K = "ky @ FR z c v l # k"
    have T: "RB s q (plug ?K (Nd y yc w Lf t))" using assms by (simp add: r plug_append)
    note partsK = RBx_parts [OF T]
    have at_y: "nodes s y = Some (mk w yc ?z (addr ?z t) (par ?z ?K))" and t_y: "rept (nodes s) ?z y t" using partsK by simp_all
    have dist: "distinct (lefts k @ addrs l @ z # addrs t @ y # rights ky @ rights k)"
      and zn: "?z \<notin> set (lefts k @ addrs l @ z # y # addrs t @ rights ky @ rights k)"
      using partsK(1,2) ky(2) by (auto simp: lefts_append)
    have min: "Minimum (fuel_of s) s (addr ?z r) = Inr y"
    proof -
      have "length (addrs r) \<le> fuel_of s" using RBx_fuel [OF assms] by (simp add: addrs_plug fuel_of_def)
      then show ?thesis using Minimum_hd [of s z r "fuel_of s"] parts 3 by (simp add: y_def)
    qed
    have yp: "par ?z ?K = z \<longleftrightarrow> ky = []"
    proof (cases ky)
      case (Cons f ky')
      have "par ?z ky \<in> set (lefts ky @ rights ky)" using faddr_in [of ky ?z] Cons by simp
      then show ?thesis using dist ky(2) Cons by auto
    qed simp
    let ?r = "plug ky t"
    define ready where "ready s2 q2 \<longleftrightarrow> stays s s2 \<and> dom (nodes s2) = dom (nodes s) \<and> root s2 = root s \<and>
       repc (nodes s2) ?z z k \<and> rept (nodes s2) ?z z l \<and> rept (nodes s2) ?z y ?r \<and>
       (\<exists>b. nodes s2 z = Some (mk v c (addr ?z l) b (par ?z k))) \<and> (\<exists>b p. nodes s2 y = Some (mk w yc b (addr ?z ?r) p)) \<and>
       nodes s2 ?z = Some (nil_node ?z q2) \<and> (t = Lf \<longrightarrow> q2 = par ?z (ky @ FR y c w l # k))" for s2 q2
    define first where "first = (if par ?z ?K = z then set_parent s (addr ?z t) y
              else
                bindE (Transplant s y (addr ?z t)) (\<lambda>t.
                bindE (get_right t z) (\<lambda>zr.
                bindE (set_right t y zr) (\<lambda>t. set_parent t zr y))))"
    have "\<exists>s2 q2. first = Inr s2 \<and> ready s2 q2"
    proof (cases "ky = []")
      case True
      have tn: "distinct (addrs t)" "?z \<notin> set (addrs t)" using dist zn by auto
      obtain s2 where s2: "set_parent s (addr ?z t) y = Inr s2" "rept (nodes s2) ?z y t" "root s2 = root s" "stays s s2"
          "dom (nodes s2) = dom (nodes s)" "nodes s2 ?z = Some (nil_node ?z (if t = Lf then y else q))"
          and keep: "\<And>b. b \<notin> insert ?z (set (addrs t)) \<Longrightarrow> nodes s2 b = nodes s b"
        using reparent_nil [OF t_y tn nila, of y] by blast
      have "repc (nodes s2) ?z z k = repc (nodes s) ?z z k"
        by (intro repc_cong keep) (use dist zn in auto)
      moreover have "rept (nodes s2) ?z z l = rept (nodes s) ?z z l"
        by (intro rept_cong keep) (use dist zn in auto)
      moreover have "nodes s2 z = nodes s z" "nodes s2 y = nodes s y" using keep dist zn by auto
      ultimately have "ready s2 (if t = Lf then y else q)"
        using s2 parts at at_y True by (auto simp: ready_def)
      moreover have "first = Inr s2" using s2(1) True by (simp add: first_def)
      ultimately show ?thesis by blast
    next
      case False
      obtain s1 where s1: "Transplant s y (addr ?z t) = Inr s1" "stays s s1" "nodes s1 y = nodes s y"
          and R1: "RBx {y} s1 (if t = Lf then par ?z ?K else q) (plug k (Nd z c v l ?r))"
        using Transplant_out [OF T, of t] by (auto simp: plug_append)
      have one: "nil s1 = ?z" "next_addr s1 = next_addr s" using s1(2) by (simp_all add: stays_def)
      note parts1 = RBx_parts [OF R1, unfolded one] and nil1 = nil_at [OF R1, unfolded one]
      have rn: "?r \<noteq> Lf" using False by (cases ky; cases "hd ky") (auto simp: addrs_plug simp flip: addrs_Nil_iff)
      have ar: "addrs ?r = addrs t @ rights ky" using ky(2) by (simp add: addrs_plug)
      have at_z1: "nodes s1 z = Some (mk v c (addr ?z l) (addr ?z ?r) (par ?z k))" using parts1 by simp
      define s1' where "s1' = s1\<lparr>nodes := (nodes s1)(y := Some (mk w yc ?z (addr ?z ?r) (par ?z ?K)))\<rparr>"
      have one': "nil s1' = ?z" "next_addr s1' = next_addr s" "root s1' = root s1" by (simp_all add: s1'_def one)
      have yn: "y \<notin> set (addrs ?r)" "y \<noteq> ?z" "y \<noteq> z" "z \<notin> set (addrs ?r)" using dist zn ar by auto
      have "rept (nodes s1') ?z z ?r" using parts1(4) yn by (simp add: s1'_def)
      moreover have rd: "distinct (addrs ?r)" "?z \<notin> set (addrs ?r)" using dist zn ar by auto
      moreover have "nodes s1' ?z = Some (nil_node ?z (if t = Lf then par ?z ?K else q))" using nil1 yn by (simp add: s1'_def)
      ultimately obtain s2 where s2: "set_parent s1' (addr ?z ?r) y = Inr s2" "rept (nodes s2) ?z y ?r" "root s2 = root s1" "stays s1' s2"
          "dom (nodes s2) = dom (nodes s1')" "nodes s2 ?z = Some (nil_node ?z (if t = Lf then par ?z ?K else q))"
          and keep: "\<And>b. b \<notin> insert ?z (set (addrs ?r)) \<Longrightarrow> nodes s2 b = nodes s1' b"
        using reparent_nil [of s1' z ?r "if t = Lf then par ?z ?K else q" y] rn unfolding one' by auto
      have keep1: "nodes s2 b = nodes s1 b" if "b \<notin> insert ?z (insert y (set (addrs ?r)))" for b
        using keep [of b] that by (simp add: s1'_def)
      have "repc (nodes s2) ?z z k = repc (nodes s1) ?z z k"
        by (intro repc_cong keep1) (use dist zn ar in auto)
      moreover have "rept (nodes s2) ?z z l = rept (nodes s1) ?z z l"
        by (intro rept_cong keep1) (use dist zn ar in auto)
      moreover have "nodes s2 z = nodes s1 z" using keep1 [of z] dist zn ar by auto
      moreover have "nodes s2 y = Some (mk w yc ?z (addr ?z ?r) (par ?z ?K))" using keep [of y] yn by (simp add: s1'_def)
      moreover have "par ?z ?K = par ?z (ky @ FR y c w l # k)" using False by (cases ky) auto
      moreover have "dom (nodes s2) = dom (nodes s)"
      proof -
        have "y \<in> dom (nodes s1)" using s1(3) at_y by auto
        moreover have "dom (nodes s1) = dom (nodes s)"
          using R1 T one ky(2) by (auto simp: RBx_def addrs_plug lefts_append)
        ultimately show ?thesis using s2(5) by (auto simp: s1'_def)
      qed
      moreover have "root s2 = root s" using s2(3) one' parts1(5) parts(5) by simp
      ultimately have "ready s2 (if t = Lf then par ?z ?K else q)"
        using s2 parts1 one' at_z1 by (auto simp: ready_def stays_def)
      moreover have "first = Inr s2"
      proof -
        have "set_right s1 y (addr ?z ?r) = Inr s1'" using s1(3) at_y by (simp add: set_right_def rb_read s1'_def)
        then show ?thesis using s1(1) s2(1) False yp by (simp add: first_def reads_some [OF at_z1])
      qed
      ultimately show ?thesis by blast
    qed
    then obtain s2 q2 where s2: "first = Inr s2" "ready s2 q2" by blast
    obtain b where two: "nil s2 = ?z" "dom (nodes s2) = dom (nodes s)" "root s2 = root s"
        "repc (nodes s2) ?z z k" "rept (nodes s2) ?z z l" "rept (nodes s2) ?z y ?r"
        "nodes s2 z = Some (mk v c (addr ?z l) b (par ?z k))"
        "nodes s2 ?z = Some (nil_node ?z q2)" "t = Lf \<longrightarrow> q2 = par ?z (ky @ FR y c w l # k)" "next_addr s2 = next_addr s"
      using s2(2) by (auto simp: ready_def stays_def)
    obtain d p where at_y2: "nodes s2 y = Some (mk w yc d (addr ?z ?r) p)" using s2(2) by (auto simp: ready_def)
    have ar: "addrs ?r = addrs t @ rights ky" using ky(2) by (simp add: addrs_plug)
    have "\<exists>s3. take_place s2 z y = Inr s3 \<and> RBx {z} s3 q2 (plug k (Nd y c w l ?r)) \<and> stays s2 s3"
    proof (rule take_place_RB [where yp = p and yl = d and yc = yc and zr = b and zv = v], unfold two(1))
      show "distinct (z # lefts k @ addrs l @ y # addrs ?r @ rights k)" using dist unfolding ar by auto
      show "?z \<notin> set (z # lefts k @ addrs l @ y # addrs ?r @ rights k)" using zn unfolding ar by auto
      show "dom (nodes s2) = insert ?z (set (z # lefts k @ addrs l @ y # addrs ?r @ rights k))"
        using T ky(2) unfolding two ar by (auto simp: RBx_def addrs_plug lefts_append)
      show "\<forall>b\<in>dom (nodes s2). 0 < b \<and> b < next_addr s2" using assms unfolding two by (simp add: RBx_def)
      show "root s2 = top z k" using two parts by simp
      show "next_addr s2 \<le> MEM_MAX" using assms unfolding two by (simp add: RBx_def)
    qed (use two at_y2 3 in auto)
    then obtain s3 where s3: "take_place s2 z y = Inr s3" "RBx {z} s3 q2 (plug k (Nd y c w l ?r))" "stays s2 s3" by blast
    have "unlink s z = bindE first (\<lambda>t'. bindE (take_place t' z y) (\<lambda>t'. Inr (t', addr ?z t, yc)))"
      using 3 zl zr min by (simp add: unlink_def reads_some [OF at] reads_some [OF at_y] first_def)
    then have "unlink s z = Inr (s3, addr ?z t, yc)" using s2(1) s3(1) by simp
    moreover have "plug (ky @ FR y c w l # k) t = plug k (Nd y c w l ?r)" by (simp add: plug_append)
    moreover have "stays s s3" using s3(3) two by (simp add: stays_def)
    ultimately show ?thesis using sh s3(2) two(9)
      by (intro exI [of _ s3] exI [of _ "ky @ FR y c w l # k"] exI [of _ t] exI [of _ yc] exI [of _ q2]) simp
  qed
qed

end
