(* ===== verification/RB_Insertion.thy ===== *)
theory RB_Insertion
  imports RB_Relink
begin

text \<open>
  The colour invariant of the red-black tree and \<open>FixInsert\<close>, which restores it: an iteration
  either moves the red node two levels up or ends the loop, and the sequence of nodes never
  changes.
\<close>

section \<open>The nodes in order\<close>

fun nds :: "'a rt \<Rightarrow> (nat \<times> 'a) list" where
  "nds Lf = []"
| "nds (Nd a c v l r) = nds l @ (a, v) # nds r"

fun lnds :: "'a fr list \<Rightarrow> (nat \<times> 'a) list" where
  "lnds [] = []"
| "lnds (FL a c v r # k) = lnds k"
| "lnds (FR a c v l # k) = lnds k @ nds l @ [(a, v)]"

fun rnds :: "'a fr list \<Rightarrow> (nat \<times> 'a) list" where
  "rnds [] = []"
| "rnds (FL a c v r # k) = (a, v) # nds r @ rnds k"
| "rnds (FR a c v l # k) = rnds k"

lemma nds_plug: "nds (plug k t) = lnds k @ nds t @ rnds k"
  by (induction k t rule: plug.induct) simp_all

lemma addrs_nds: "addrs t = map fst (nds t)"
  by (induction t) simp_all

lemma vals_nds: "vals t = map snd (nds t)"
  by (induction t) simp_all

section \<open>Red-black trees\<close>

fun tcol :: "'a rt \<Rightarrow> NodeColor" where
  "tcol Lf = BLACK"
| "tcol (Nd a c v l r) = c"

fun bh :: "'a rt \<Rightarrow> nat" where
  "bh Lf = 0"
| "bh (Nd a c v l r) = bh l + (if c = BLACK then 1 else 0)"

fun ok :: "'a rt \<Rightarrow> bool" where
  "ok Lf = True"
| "ok (Nd a c v l r) \<longleftrightarrow> ok l \<and> ok r \<and> bh l = bh r \<and> (c = RED \<longrightarrow> tcol l = BLACK \<and> tcol r = BLACK)"

definition rbt :: "'a rt \<Rightarrow> bool" where
  "rbt t \<longleftrightarrow> ok t \<and> tcol t = BLACK"

fun ccol :: "'a fr list \<Rightarrow> NodeColor" where
  "ccol [] = BLACK"
| "ccol (FL a c v r # k) = c"
| "ccol (FR a c v l # k) = c"

text \<open>A context that makes a red-black tree of a subtree with black height \<open>n\<close> (and a black root,
  below a red node).\<close>

fun okc :: "'a fr list \<Rightarrow> nat \<Rightarrow> bool" where
  "okc [] n = True"
| "okc (FL a c v r # k) n \<longleftrightarrow> ok r \<and> bh r = n \<and>
     (if c = RED then k \<noteq> [] \<and> tcol r = BLACK \<and> ccol k = BLACK \<and> okc k n else okc k (Suc n))"
| "okc (FR a c v l # k) n \<longleftrightarrow> ok l \<and> bh l = n \<and>
     (if c = RED then k \<noteq> [] \<and> tcol l = BLACK \<and> ccol k = BLACK \<and> okc k n else okc k (Suc n))"

fun blacken :: "'a rt \<Rightarrow> 'a rt" where
  "blacken Lf = Lf"
| "blacken (Nd a c v l r) = Nd a BLACK v l r"

lemma not_RED [simp]: "c \<noteq> RED \<longleftrightarrow> c = BLACK"
  by (cases c) simp_all

lemma not_BLACK [simp]: "c \<noteq> BLACK \<longleftrightarrow> c = RED"
  by (cases c) simp_all

lemma rbt_plug:
  "rbt (plug k t) \<longleftrightarrow> ok t \<and> okc k (bh t) \<and> (ccol k = RED \<or> k = [] \<longrightarrow> tcol t = BLACK)"
proof (induction k t rule: plug.induct)
  case (2 a c v r k t)
  then show ?case by (cases c) auto
next
  case (3 a c v l k t)
  then show ?case by (cases c) auto
qed (auto simp: rbt_def)

lemma blacken_simps [simp]: "tcol t = BLACK \<Longrightarrow> blacken t = t" "tcol (blacken t) = BLACK" "nds (blacken t) = nds t"
  "ok t \<Longrightarrow> ok (blacken t)" "addr z (blacken t) = addr z t"
  by (cases t; simp)+

lemma bh_mir [simp]: "ok t \<Longrightarrow> bh (mir t) = bh t"
  by (induction t) auto

lemma tcol_mir [simp]: "tcol (mir t) = tcol t" "ccol (map mirf k) = ccol k"
  by (cases t; simp) (cases k; cases "hd k"; auto)

lemma ok_mir [simp]: "ok (mir t) = ok t"
proof (induction t)
  case (Nd a c v l r)
  show ?case
  proof (cases "ok l \<and> ok r")
    case True
    then show ?thesis using Nd by auto
  qed (use Nd in auto)
qed simp

lemma okc_mir [simp]: "okc (map mirf k) n = okc k n"
  by (induction k n rule: okc.induct) (auto cong: conj_cong)

lemma nds_mir [simp]: "nds (mir t) = rev (nds t)"
  by (induction t) simp_all

section \<open>Reading at a place\<close>

lemma at_place:
  assumes "RBx X s q (plug k t)"
  shows "get_color s (addr (nil s) t) = Inr (tcol t)"
    and "t = Lf \<longrightarrow> q = par (nil s) k \<Longrightarrow> get_parent s (addr (nil s) t) = Inr (par (nil s) k)"
  using RBx_parts(4) [OF assms] nil_at [OF assms] by (cases t; auto simp: reads_some)+

lemma at_node:
  assumes "RBx X s q (plug k (Nd a c v l r))"
  shows "get_color s a = Inr c" "get_left s a = Inr (addr (nil s) l)" "get_right s a = Inr (addr (nil s) r)"
    "get_parent s a = Inr (par (nil s) k)" "node_value s a = Inr v"
  using RBx_parts(4) [OF assms] by (simp_all add: reads_some)

section \<open>Rebalancing after an insertion\<close>

lemma insert_left_red_uncle:
  assumes R: "RBx X s q (plug k (Nd g BLACK gv (Nd p RED pv pl pr) (Nd u RED uv ul ur)))"
  shows "\<exists>s'. insert_left s x p g = Inr (s', g) \<and> stays s s' \<and>
     RBx X s' q (plug k (Nd g RED gv (Nd p BLACK pv pl pr) (Nd u BLACK uv ul ur)))"
proof -
  obtain s1 where s1: "set_color s u BLACK = Inr s1" "stays s s1"
      "RBx X s1 q (plug k (Nd g BLACK gv (Nd p RED pv pl pr) (Nd u BLACK uv ul ur)))"
    using set_color_RB [of X s q "FR g BLACK gv (Nd p RED pv pl pr) # k" u RED uv ul ur BLACK] R by auto
  obtain s2 where s2: "set_color s1 p BLACK = Inr s2" "stays s1 s2"
      "RBx X s2 q (plug k (Nd g BLACK gv (Nd p BLACK pv pl pr) (Nd u BLACK uv ul ur)))"
    using set_color_RB [of X s1 q "FL g BLACK gv (Nd u BLACK uv ul ur) # k" p RED pv pl pr BLACK] s1(3) by auto
  obtain s3 where s3: "set_color s2 g RED = Inr s3" "stays s2 s3"
      "RBx X s3 q (plug k (Nd g RED gv (Nd p BLACK pv pl pr) (Nd u BLACK uv ul ur)))"
    using set_color_RB [OF s2(3), of RED] by auto
  have "get_right s g = Inr u" "get_color s u = Inr RED"
    using at_node(3) [OF R] at_node(1) [of X s q "FR g BLACK gv (Nd p RED pv pl pr) # k" u] R by simp_all
  then show ?thesis using s1 s2 s3 by (auto simp: insert_left_def stays_def)
qed

text \<open>The uncle is black: a rotation at the grandparent, after one that brings the node to the
  outside.\<close>

lemma rotate_grandparent:
  assumes R: "RBx X s q (plug k (Nd g BLACK gv (Nd p RED pv (Nd a RED v l r) w) u))"
  shows "\<exists>s'. bindE (get_parent s a) (\<lambda>p. bindE (set_color s p BLACK) (\<lambda>t. bindE (get_parent t p) (\<lambda>g.
       bindE (set_color t g RED) (\<lambda>t. bindE (RotateRight t g) (\<lambda>t. Inr (t, a)))))) = Inr (s', a) \<and> stays s s' \<and>
     RBx X s' q (plug k (Nd p BLACK pv (Nd a RED v l r) (Nd g RED gv w u)))"
proof -
  have pa: "get_parent s a = Inr p"
    using at_node(4) [of X s q "FL p RED pv w # FL g BLACK gv u # k" a] R by simp
  obtain s1 where s1: "set_color s p BLACK = Inr s1" "stays s s1"
      "RBx X s1 q (plug k (Nd g BLACK gv (Nd p BLACK pv (Nd a RED v l r) w) u))"
    using set_color_RB [of X s q "FL g BLACK gv u # k" p RED pv "Nd a RED v l r" w BLACK] R by auto
  have pg: "get_parent s1 p = Inr g"
    using at_node(4) [of X s1 q "FL g BLACK gv u # k" p] s1(3) by simp
  obtain s2 where s2: "set_color s1 g RED = Inr s2" "stays s1 s2"
      "RBx X s2 q (plug k (Nd g RED gv (Nd p BLACK pv (Nd a RED v l r) w) u))"
    using set_color_RB [OF s1(3), of RED] by auto
  obtain s3 where s3: "RotateRight s2 g = Inr s3" "stays s2 s3"
      "RBx X s3 q (plug k (Nd p BLACK pv (Nd a RED v l r) (Nd g RED gv w u)))"
    using RotateRight_RB [OF s2(3)] by auto
  show ?thesis using pa s1 pg s2 s3 by (auto simp: stays_def)
qed

lemma insert_left_outer:
  assumes R: "RBx X s q (plug k (Nd g BLACK gv (Nd p RED pv (Nd a RED v l r) w) u))" and "tcol u = BLACK"
  shows "\<exists>s'. insert_left s a p g = Inr (s', a) \<and> stays s s' \<and>
     RBx X s' q (plug k (Nd p BLACK pv (Nd a RED v l r) (Nd g RED gv w u)))"
proof -
  have "get_right s g = Inr (addr (nil s) u)" using at_node(3) [OF R] .
  moreover have "get_color s (addr (nil s) u) = Inr BLACK"
    using at_place(1) [of X s q "FR g BLACK gv (Nd p RED pv (Nd a RED v l r) w) # k" u] R assms(2) by simp
  moreover have "get_right s p = Inr (addr (nil s) w)"
    using at_node(3) [of X s q "FL g BLACK gv u # k" p] R by simp
  moreover have "a \<noteq> addr (nil s) w" using RBx_parts(1,2) [OF R] addr_in [of "nil s" w] by auto
  ultimately show ?thesis using rotate_grandparent [OF R] by (simp add: insert_left_def)
qed

lemma insert_left_inner:
  assumes R: "RBx X s q (plug k (Nd g BLACK gv (Nd p RED pv w (Nd a RED v l r)) u))" and "tcol u = BLACK"
  shows "\<exists>s'. insert_left s a p g = Inr (s', p) \<and> stays s s' \<and>
     RBx X s' q (plug k (Nd a BLACK v (Nd p RED pv w l) (Nd g RED gv r u)))"
proof -
  have "get_right s g = Inr (addr (nil s) u)" using at_node(3) [OF R] .
  moreover have "get_color s (addr (nil s) u) = Inr BLACK"
    using at_place(1) [of X s q "FR g BLACK gv (Nd p RED pv w (Nd a RED v l r)) # k" u] R assms(2) by simp
  moreover have "get_right s p = Inr a"
    using at_node(3) [of X s q "FL g BLACK gv u # k" p] R by simp
  moreover obtain s1 where s1: "RotateLeft s p = Inr s1" "stays s s1"
      "RBx X s1 q (plug k (Nd g BLACK gv (Nd a RED v (Nd p RED pv w l) r) u))"
    using RotateLeft_RB [of X s q "FL g BLACK gv u # k" p RED pv w a RED v l r] R by auto
  ultimately show ?thesis using rotate_grandparent [OF s1(3)] by (auto simp: insert_left_def stays_def)
qed


text \<open>One iteration: the red node moves towards the root, or the tree is in order.\<close>

definition insert_next :: "nat set \<Rightarrow> 'a rbtree \<Rightarrow> nat \<Rightarrow> 'a fr list \<Rightarrow> 'a rt \<Rightarrow> ('a rbtree \<times> nat) res \<Rightarrow> bool" where
  "insert_next X s q k t m \<longleftrightarrow>
     (\<exists>s' k' t'. m = Inr (s', addr (nil s) t') \<and> RBx X s' q (plug k' t') \<and> stays s s' \<and> length k' < length k \<and>
        t' \<noteq> Lf \<and> tcol t' = RED \<and> ok t' \<and> okc k' (bh t') \<and> nds (plug k' t') = nds (plug k t))"

lemma insert_left_step:
  assumes R: "RBx X s q (plug (f # FL g c gv u # k) t)" and t: "t \<noteq> Lf" "tcol t = RED" "ok t"
    and okc: "okc (f # FL g c gv u # k) (bh t)" and red: "ccol [f] = RED"
  shows "insert_next X s q (f # FL g c gv u # k) t (insert_left s (addr (nil s) t) (faddr f) g)"
proof -
  obtain a v l r where tt: "t = Nd a RED v l r" using t by (cases t) auto
  have c: "c = BLACK" using okc red by (cases f) auto
  obtain p pv pl pr where P: "plug [f] t = Nd p RED pv pl pr" "p = faddr f" using red by (cases f) auto
  have RP: "RBx X s q (plug k (Nd g BLACK gv (Nd p RED pv pl pr) u))"
    using R P(1) c plug_append [of "[f]" "FL g c gv u # k" t] by simp
  show ?thesis
  proof (cases "tcol u")
    case RED
    then obtain b uv ul ur where u: "u = Nd b RED uv ul ur" by (cases u) auto
    obtain s' where s': "insert_left s (addr (nil s) t) (faddr f) g = Inr (s', g)" "stays s s'"
        "RBx X s' q (plug k (Nd g RED gv (Nd p BLACK pv pl pr) (Nd b BLACK uv ul ur)))"
      using insert_left_red_uncle [of X s q k g gv p pv pl pr b uv ul ur "addr (nil s) t"] RP P(2) u by auto
    have "bh pl = bh t"
      using okc t red P(1) unfolding tt by (cases f) auto
    moreover have "ok (Nd p BLACK pv pl pr)" using okc t red P(1) unfolding tt by (cases f) auto
    moreover have "ok u" "bh u = bh t" "okc k (Suc (bh t))" using okc c red by (cases f; simp)+
    ultimately show ?thesis using s' P c red unfolding insert_next_def
      by (intro exI [of _ s'] exI [of _ k] exI [of _ "Nd g RED gv (Nd p BLACK pv pl pr) (Nd b BLACK uv ul ur)"])
        (cases f; simp add: u nds_plug)
  next
    case BLACK
    show ?thesis
    proof (cases f)
      case (FL p' pc pv' w)
      then obtain s' where s': "insert_left s a (faddr f) g = Inr (s', a)" "stays s s'"
          "RBx X s' q (plug k (Nd p BLACK pv t (Nd g RED gv w u)))"
        using insert_left_outer [of X s q k g gv p pv a v l r w u] RP P BLACK tt by auto
      then show ?thesis using FL P c okc red BLACK t unfolding insert_next_def
        by (intro exI [of _ s'] exI [of _ "FL p BLACK pv (Nd g RED gv w u) # k"] exI [of _ t])
          (auto simp: tt nds_plug)
    next
      case (FR p' pc pv' w)
      then obtain s' where s': "insert_left s a (faddr f) g = Inr (s', p)" "stays s s'"
          "RBx X s' q (plug k (Nd a BLACK v (Nd p RED pv w l) (Nd g RED gv r u)))"
        using insert_left_inner [of X s q k g gv p pv w a v l r u] RP P BLACK tt by auto
      then show ?thesis using FR P c okc red BLACK t unfolding insert_next_def
        by (intro exI [of _ s'] exI [of _ "FL a BLACK v (Nd g RED gv r u) # k"] exI [of _ "Nd p RED pv w l"])
          (auto simp: tt nds_plug)
    qed
  qed
qed

lemma lnds_mir: "lnds (map mirf k) = rev (rnds k)" "rnds (map mirf k) = rev (lnds k)"
proof -
  show "lnds (map mirf k) = rev (rnds k)" by (induction k rule: rnds.induct) simp_all
  show "rnds (map mirf k) = rev (lnds k)" by (induction k rule: lnds.induct) simp_all
qed

lemma mir_Lf [simp]: "mir t = Lf \<longleftrightarrow> t = Lf"
  by (cases t) simp_all

lemma map_mirf_mirf [simp]: "map mirf (map mirf k) = k"
  by (induction k) simp_all

lemma RBx_mirror_plug: "RBx X (mirror s) q (plug (map mirf k) (mir t)) = RBx X s q (plug k t)"
  by (simp add: plug_mir)

lemma insert_right_step:
  assumes R: "RBx X s q (plug (f # FR g c gv u # k) t)" and t: "t \<noteq> Lf" "tcol t = RED" "ok t"
    and okc: "okc (f # FR g c gv u # k) (bh t)" and red: "ccol [f] = RED"
  shows "insert_next X s q (f # FR g c gv u # k) t (insert_right s (addr (nil s) t) (faddr f) g)"
proof -
  let ?K = "f # FR g c gv u # k"
  have f: "faddr (mirf f) = faddr f" "ccol [mirf f] = ccol [f]" by (cases f; simp)+
  have "insert_next X (mirror s) q (map mirf ?K) (mir t) (insert_left (mirror s) (addr (nil s) t) (faddr f) g)"
    using insert_left_step [of X "mirror s" q "mirf f" g c gv "mir u" "map mirf k" "mir t"]
      RBx_mirror_plug [of X s q ?K t] okc_mir [of ?K "bh t"] R t okc red f by simp
  then obtain s' k' t' where *: "insert_left (mirror s) (addr (nil s) t) (faddr f) g = Inr (s', addr (nil s) t')"
      "RBx X s' q (plug k' t')" "stays s s'" "length k' < length ?K"
      "t' \<noteq> Lf" "tcol t' = RED" "ok t'" "okc k' (bh t')" "nds (plug k' t') = nds (plug (map mirf ?K) (mir t))"
    unfolding insert_next_def by auto
  have "insert_right s (addr (nil s) t) (faddr f) g = Inr (mirror s', addr (nil s) t')"
    using mirror_insert [of "mirror s"] *(1) by simp
  moreover have "RBx X (mirror s') q (plug (map mirf k') (mir t'))" using *(2) by (simp add: RBx_mirror_plug)
  moreover have "nds (plug (map mirf k') (mir t')) = nds (plug ?K t)"
    using *(9) unfolding plug_mir by simp
  ultimately show ?thesis using * unfolding insert_next_def
    by (intro exI [of _ "mirror s'"] exI [of _ "map mirf k'"] exI [of _ "mir t'"]) simp
qed

lemma blacken_RB:
  assumes "RBx X s q (plug k t)"
  shows "\<exists>s'. set_color s (addr (nil s) t) BLACK = Inr s' \<and> RBx X s' q (plug k (blacken t)) \<and> stays s s'"
proof (cases t)
  case Lf
  have "set_color s (nil s) BLACK = Inr (s\<lparr>nodes := (nodes s)(nil s := Some (nil_node (nil s) q))\<rparr>)"
    using nil_at [OF assms] by (simp add: set_color_def rb_read)
  moreover have "(nodes s)(nil s := Some (nil_node (nil s) q)) = nodes s"
    using nil_at [OF assms] by (rule fun_upd_idem)
  ultimately show ?thesis using assms Lf by (simp add: stays_def)
next
  case (Nd a c v l r)
  then show ?thesis using set_color_RB [of X s q k a c v l r BLACK] assms by simp
qed

lemma ccol_at:
  assumes "RBx X s q (plug k t)"
  shows "get_color s (par (nil s) k) = Inr (ccol k)"
proof (cases k)
  case Nil
  then show ?thesis using nil_at [OF assms] by (simp add: reads_some)
next
  case (Cons f k')
  have "repc (nodes s) (nil s) (addr (nil s) t) k" by (rule RBx_parts(3) [OF assms])
  then show ?thesis by (cases f) (auto simp: Cons reads_some)
qed

lemma FixInsert_RB:
  assumes "RBx X s q (plug k t)" and "t \<noteq> Lf" "tcol t = RED" "ok t" and "okc k (bh t)" and "length k \<le> n"
  shows "\<exists>s' T. FixInsert n s (addr (nil s) t) = Inr s' \<and> RBx X s' q T \<and> rbt T \<and> nds T = nds (plug k t) \<and> stays s s'"
  using assms
proof (induction n arbitrary: s k t rule: less_induct)
  case (less n)
  note R = less.prems(1)
  have p: "get_parent s (addr (nil s) t) = Inr (par (nil s) k)" using at_place(2) [OF R] less.prems(2) by blast
  note c = ccol_at [OF R]
  show ?case
  proof (cases "ccol k")
    case BLACK
    obtain s' where s': "set_color s (root s) BLACK = Inr s'" "RBx X s' q (blacken (plug k t))" "stays s s'"
      using blacken_RB [of X s q "[]" "plug k t"] R by (auto simp: RBx_def)
    have "rbt (blacken (plug k t))"
    proof (cases k)
      case Nil
      then show ?thesis using less.prems by (simp add: rbt_def)
    next
      case (Cons f k')
      then have "rbt (plug k t)" using less.prems BLACK by (simp add: rbt_plug)
      then show ?thesis by (simp add: rbt_def)
    qed
    then show ?thesis using s' p c BLACK by (intro exI [of _ s'] exI [of _ "blacken (plug k t)"]) (simp add: FixInsert.simps [of n])
  next
    case RED
    then obtain f g k' where k: "k = f # g # k'" and f: "ccol [f] = RED"
      using less.prems(5) by (cases k; cases "hd k"; cases "tl k") auto
    obtain m where n: "n = Suc m" using less.prems(6) k by (cases n) auto
    let ?a = "addr (nil s) t"
    have up: "repc (nodes s) (nil s) ?a k" and dist: "distinct (lefts k @ addrs t @ rights k)"
        "nil s \<notin> set (lefts k @ addrs t @ rights k)" using RBx_parts [OF R] by simp_all
    have pg: "get_parent s (faddr f) = Inr (faddr g)" using up by (cases f) (auto simp: k reads_some)
    define body where "body = (case g of FL _ _ _ _ \<Rightarrow> insert_left | FR _ _ _ _ \<Rightarrow> insert_right) s ?a (faddr f) (faddr g)"
    have run: "FixInsert n s ?a = bindE body (\<lambda>(t, k). FixInsert m t k)"
    proof (cases g)
      case (FL b d w x)
      then have "get_left s (faddr g) = Inr (faddr f)" using up by (cases f) (auto simp: k reads_some)
      then show ?thesis using p c RED pg by (simp add: FixInsert.simps [of "Suc m"] n k FL body_def)
    next
      case (FR b d w x)
      then have "get_left s (faddr g) = Inr (addr (nil s) x)" using up by (cases f) (auto simp: k reads_some)
      moreover have "faddr f \<noteq> addr (nil s) x" using dist addr_in [of "nil s" x] unfolding k FR by (cases f) auto
      ultimately show ?thesis using p c RED pg by (simp add: FixInsert.simps [of "Suc m"] n k FR body_def)
    qed
    have "insert_next X s q k t body"
    proof (cases g)
      case (FL b d w x)
      then show ?thesis using insert_left_step [of X s q f b d w x k' t] less.prems f unfolding k body_def by simp
    next
      case (FR b d w x)
      then show ?thesis using insert_right_step [of X s q f b d w x k' t] less.prems f unfolding k body_def by simp
    qed
    then obtain s' k2 t2 where *: "body = Inr (s', addr (nil s) t2)" "RBx X s' q (plug k2 t2)" "stays s s'" "length k2 < length k"
        "t2 \<noteq> Lf" "tcol t2 = RED" "ok t2" "okc k2 (bh t2)" "nds (plug k2 t2) = nds (plug k t)"
      unfolding insert_next_def by blast
    have "nil s' = nil s" using *(3) by (simp add: stays_def)
    then obtain s3 T where "FixInsert m s' (addr (nil s) t2) = Inr s3" "RBx X s3 q T" "rbt T" "nds T = nds (plug k2 t2)" "stays s' s3"
      using less.IH [of m s' k2 t2] * less.prems(6) n by auto
    then show ?thesis using run * stays_trans by (intro exI [of _ s3] exI [of _ T]) auto
  qed
qed

end
