(* ===== verification/RB_Deletion.thy ===== *)
theory RB_Deletion
  imports RB_Insertion
begin

text \<open>
  \<open>FixDelete\<close>: the subtree it is at is one black short. An iteration moves the place towards the
  root, makes it end at a red node, or ends the loop; \<open>height_left\<close> bounds the iterations.
\<close>

section \<open>The red sibling\<close>

text \<open>The node is one black short: \<open>ok\<close> holds of it once its root is black, and the context
  expects a black height of one more.\<close>

lemma sibling_left_RB:
  assumes R: "RBx X s q (plug (FL p c pv w # k) t)" and q: "t = Lf \<longrightarrow> q = p"
    and okc: "okc (FL p c pv w # k) (Suc (bh t))"
  shows "\<exists>s' c' b wv wl wr k'. sibling_left s (addr (nil s) t) p = Inr (s', b) \<and> stays s s' \<and>
     RBx X s' q (plug (FL p c' pv (Nd b BLACK wv wl wr) # k') t) \<and>
     okc (FL p c' pv (Nd b BLACK wv wl wr) # k') (Suc (bh t)) \<and>
     nds (plug (FL p c' pv (Nd b BLACK wv wl wr) # k') t) = nds (plug (FL p c pv w # k) t) \<and>
     (c' = RED \<or> length k' \<le> length k)"
proof -
  obtain b d wv wl wr where w: "w = Nd b d wv wl wr" using okc by (cases w) auto
  have gr: "get_right s p = Inr b" using at_node(3) [of X s q k p] R w by simp
  have gc: "get_color s b = Inr d" using at_node(1) [of X s q "FR p c pv t # k" b] R w by simp
  show ?thesis
  proof (cases d)
    case BLACK
    then show ?thesis using R okc gr gc w
      by (intro exI [of _ s] exI [of _ c] exI [of _ b] exI [of _ wv] exI [of _ wl] exI [of _ wr] exI [of _ k])
        (simp add: sibling_left_def)
  next
    case RED
    obtain s1 where s1: "set_color s b BLACK = Inr s1" "stays s s1" "RBx X s1 q (plug k (Nd p c pv t (Nd b BLACK wv wl wr)))"
      using set_color_RB [of X s q "FR p c pv t # k" b d wv wl wr BLACK] R w by auto
    obtain s2 where s2: "set_color s1 p RED = Inr s2" "stays s1 s2" "RBx X s2 q (plug k (Nd p RED pv t (Nd b BLACK wv wl wr)))"
      using set_color_RB [OF s1(3), of RED] by auto
    obtain s3 where s3: "RotateLeft s2 p = Inr s3" "stays s2 s3" "RBx X s3 q (plug k (Nd b BLACK wv (Nd p RED pv t wl) wr))"
      using RotateLeft_RB [OF s2(3)] by auto
    have nn: "nil s3 = nil s" using s1(2) s2(2) s3(2) by (simp add: stays_def)
    have "c = BLACK" "tcol wl = BLACK" "bh wl = Suc (bh t)" using okc RED w by (cases c; auto)+
    then obtain e ev el er where wl: "wl = Nd e BLACK ev el er" by (cases wl) auto
    have gp: "get_parent s3 (addr (nil s) t) = Inr p"
      using at_place(2) [of X s3 q "FL p RED pv wl # FL b BLACK wv wr # k" t] s3(3) q nn by simp
    have gr': "get_right s3 p = Inr e"
      using at_node(3) [of X s3 q "FL b BLACK wv wr # k" p RED pv t wl] s3(3) wl by simp
    have "okc (FL p RED pv wl # FL b BLACK wv wr # k) (Suc (bh t))" using okc RED w by (cases c) auto
    then show ?thesis using s1 s2 s3 gr gc gp gr' RED w \<open>c = BLACK\<close> wl
      by (intro exI [of _ s3] exI [of _ RED] exI [of _ e] exI [of _ ev] exI [of _ el] exI [of _ er]
          exI [of _ "FL b BLACK wv wr # k"])
        (auto simp: sibling_left_def stays_def nds_plug)
  qed
qed

section \<open>The black sibling\<close>

lemma far_left_RB:
  assumes R: "RBx X s q (plug (FL p c pv (Nd b BLACK wv wl wr) # k) t)" and q: "t = Lf \<longrightarrow> q = p"
    and okc: "okc (FL p c pv (Nd b BLACK wv wl wr) # k) (Suc (bh t))" and one: "tcol wl = RED \<or> tcol wr = RED"
  shows "\<exists>s' e ev el d dv dl dr. far_left s (addr (nil s) t) b (addr (nil s) wl) (tcol wr) = Inr (s', e) \<and> stays s s' \<and>
     RBx X s' q (plug (FL p c pv (Nd e BLACK ev el (Nd d RED dv dl dr)) # k) t) \<and>
     okc (FL p c pv (Nd e BLACK ev el (Nd d RED dv dl dr)) # k) (Suc (bh t)) \<and>
     nds (plug (FL p c pv (Nd e BLACK ev el (Nd d RED dv dl dr)) # k) t) =
       nds (plug (FL p c pv (Nd b BLACK wv wl wr) # k) t)"
proof (cases "tcol wr")
  case RED
  then obtain d dv dl dr where "wr = Nd d RED dv dl dr" by (cases wr) auto
  then show ?thesis using R okc
    by (intro exI [of _ s] exI [of _ b] exI [of _ wv] exI [of _ wl] exI [of _ d] exI [of _ dv] exI [of _ dl] exI [of _ dr])
      (simp add: far_left_def)
next
  case BLACK
  then obtain e ev el er where wl: "wl = Nd e RED ev el er" using one by (cases wl) auto
  obtain s1 where s1: "set_color s e BLACK = Inr s1" "stays s s1"
      "RBx X s1 q (plug k (Nd p c pv t (Nd b BLACK wv (Nd e BLACK ev el er) wr)))"
    using set_color_RB [of X s q "FL b BLACK wv wr # FR p c pv t # k" e RED ev el er BLACK] R wl by auto
  obtain s2 where s2: "set_color s1 b RED = Inr s2" "stays s1 s2"
      "RBx X s2 q (plug k (Nd p c pv t (Nd b RED wv (Nd e BLACK ev el er) wr)))"
    using set_color_RB [of X s1 q "FR p c pv t # k" b BLACK wv "Nd e BLACK ev el er" wr RED] s1(3) by auto
  obtain s3 where s3: "RotateRight s2 b = Inr s3" "stays s2 s3"
      "RBx X s3 q (plug k (Nd p c pv t (Nd e BLACK ev el (Nd b RED wv er wr))))"
    using RotateRight_RB [of X s2 q "FR p c pv t # k" b RED wv e BLACK ev el er wr] s2(3) by auto
  have nn: "nil s3 = nil s" using s1(2) s2(2) s3(2) by (simp add: stays_def)
  have gp: "get_parent s3 (addr (nil s) t) = Inr p"
    using at_place(2) [of X s3 q "FL p c pv (Nd e BLACK ev el (Nd b RED wv er wr)) # k" t] s3(3) q nn by simp
  have gr: "get_right s3 p = Inr e"
    using at_node(3) [of X s3 q k p c pv t "Nd e BLACK ev el (Nd b RED wv er wr)"] s3(3) by simp
  have "okc (FL p c pv (Nd e BLACK ev el (Nd b RED wv er wr)) # k) (Suc (bh t))"
    using okc wl BLACK by (auto split: if_splits)
  then show ?thesis using s1 s2 s3 gp gr wl BLACK
    by (intro exI [of _ s3] exI [of _ e] exI [of _ ev] exI [of _ el] exI [of _ b] exI [of _ wv] exI [of _ er] exI [of _ wr])
      (auto simp: far_left_def stays_def nds_plug)
qed

lemma last_left_RB:
  assumes R: "RBx X s q (plug (FL p c pv (Nd e BLACK ev el (Nd d RED dv dl dr)) # k) t)" and q: "t = Lf \<longrightarrow> q = p"
  shows "\<exists>s'. last_left s (addr (nil s) t) e = Inr s' \<and> stays s s' \<and>
     RBx X s' q (plug k (Nd e c ev (Nd p BLACK pv t el) (Nd d BLACK dv dl dr)))"
proof -
  let ?w = "Nd e BLACK ev el (Nd d RED dv dl dr)"
  have gp: "get_parent s (addr (nil s) t) = Inr p" using at_place(2) [OF R] q by simp
  have gc: "get_color s p = Inr c" using at_node(1) [of X s q k p c pv t ?w] R by simp
  obtain s1 where s1: "set_color s e c = Inr s1" "stays s s1"
      "RBx X s1 q (plug k (Nd p c pv t (Nd e c ev el (Nd d RED dv dl dr))))"
    using set_color_RB [of X s q "FR p c pv t # k" e BLACK ev el "Nd d RED dv dl dr" c] R by auto
  obtain s2 where s2: "set_color s1 p BLACK = Inr s2" "stays s1 s2"
      "RBx X s2 q (plug k (Nd p BLACK pv t (Nd e c ev el (Nd d RED dv dl dr))))"
    using set_color_RB [OF s1(3), of BLACK] by auto
  have gr: "get_right s2 e = Inr d" using at_node(3) [of X s2 q "FR p BLACK pv t # k" e c ev el] s2(3) by simp
  obtain s3 where s3: "set_color s2 d BLACK = Inr s3" "stays s2 s3"
      "RBx X s3 q (plug k (Nd p BLACK pv t (Nd e c ev el (Nd d BLACK dv dl dr))))"
    using set_color_RB [of X s2 q "FR e c ev el # FR p BLACK pv t # k" d RED dv dl dr BLACK] s2(3) by auto
  obtain s4 where s4: "RotateLeft s3 p = Inr s4" "stays s3 s4"
      "RBx X s4 q (plug k (Nd e c ev (Nd p BLACK pv t el) (Nd d BLACK dv dl dr)))"
    using RotateLeft_RB [OF s3(3)] by auto
  show ?thesis using gp gc s1 s2 gr s3 s4 by (auto simp: last_left_def stays_def)
qed

section \<open>One iteration and the loop\<close>

definition height_left :: "'a fr list \<Rightarrow> 'a rt \<Rightarrow> nat" where
  "height_left k t = (if tcol t = RED then 0 else length k)"

definition delete_next :: "nat set \<Rightarrow> 'a rbtree \<Rightarrow> nat \<Rightarrow> 'a fr list \<Rightarrow> 'a rt \<Rightarrow> ('a rbtree \<times> nat) res \<Rightarrow> bool" where
  "delete_next X s q k t m \<longleftrightarrow>
     (\<exists>s' k' t'. m = Inr (s', addr (nil s) t') \<and> RBx X s' q (plug k' t') \<and> stays s s' \<and> t' \<noteq> Lf \<and>
        ok (blacken t') \<and> okc k' (Suc (bh t')) \<and> height_left k' t' < length k \<and>
        nds (plug k' t') = nds (plug k t))"

lemma delete_left_step:
  assumes R: "RBx X s q (plug (FL p c pv w # k) t)" and q: "t = Lf \<longrightarrow> q = p" and t: "ok t" "tcol t = BLACK"
    and okc: "okc (FL p c pv w # k) (Suc (bh t))"
  shows "delete_next X s q (FL p c pv w # k) t (delete_left s (addr (nil s) t) p)"
proof -
  let ?x = "addr (nil s) t"
  obtain s1 c1 b wv wl wr k1 where s1: "sibling_left s ?x p = Inr (s1, b)" "stays s s1"
      and R1: "RBx X s1 q (plug (FL p c1 pv (Nd b BLACK wv wl wr) # k1) t)"
      and ok1: "okc (FL p c1 pv (Nd b BLACK wv wl wr) # k1) (Suc (bh t))"
      and n1: "nds (plug (FL p c1 pv (Nd b BLACK wv wl wr) # k1) t) = nds (plug (FL p c pv w # k) t)"
      and len: "c1 = RED \<or> length k1 \<le> length k"
    using sibling_left_RB [OF R q okc] by blast
  have nn: "nil s1 = nil s" using s1(2) by (simp add: stays_def)
  have "RBx X s1 q (plug (FR p c1 pv t # k1) (Nd b BLACK wv wl wr))" using R1 by simp
  note at = at_node [OF this, unfolded nn]
  have nc: "get_color s1 (addr (nil s) wl) = Inr (tcol wl)"
    using at_place(1) [of X s1 q "FL b BLACK wv wr # FR p c1 pv t # k1" wl] R1 nn by simp
  have fc: "get_color s1 (addr (nil s) wr) = Inr (tcol wr)"
    using at_place(1) [of X s1 q "FR b BLACK wv wl # FR p c1 pv t # k1" wr] R1 nn by simp
  show ?thesis
  proof (cases "tcol wl = BLACK \<and> tcol wr = BLACK")
    case True
    obtain s2 where s2: "set_color s1 b RED = Inr s2" "stays s1 s2" "RBx X s2 q (plug k1 (Nd p c1 pv t (Nd b RED wv wl wr)))"
      using set_color_RB [of X s1 q "FR p c1 pv t # k1" b BLACK wv wl wr RED] R1 by auto
    have gp: "get_parent s2 ?x = Inr p"
      using at_place(2) [of X s2 q "FL p c1 pv (Nd b RED wv wl wr) # k1" t] s2 q nn by (simp add: stays_def)
    have "delete_left s ?x p = Inr (s2, p)" using s1(1) at nc fc True s2(1) gp by (simp add: delete_left_def)
    moreover have "ok (blacken (Nd p c1 pv t (Nd b RED wv wl wr)))" "okc k1 (Suc (bh (Nd p c1 pv t (Nd b RED wv wl wr))))"
      using ok1 t True by (cases c1; auto)+
    moreover have "height_left k1 (Nd p c1 pv t (Nd b RED wv wl wr)) < length (FL p c pv w # k)"
      using len by (cases c1) (auto simp: height_left_def)
    moreover have "nds (plug k1 (Nd p c1 pv t (Nd b RED wv wl wr))) = nds (plug (FL p c pv w # k) t)"
      using n1 by (simp add: nds_plug)
    ultimately show ?thesis using s1(2) s2 stays_trans unfolding delete_next_def
      by (intro exI [of _ s2] exI [of _ k1] exI [of _ "Nd p c1 pv t (Nd b RED wv wl wr)"]) auto
  next
    case False
    then have one: "tcol wl = RED \<or> tcol wr = RED" by (cases "tcol wl"; cases "tcol wr") auto
    obtain s2 e ev el d dv dl dr where s2: "far_left s1 ?x b (addr (nil s) wl) (tcol wr) = Inr (s2, e)" "stays s1 s2"
        and R2: "RBx X s2 q (plug (FL p c1 pv (Nd e BLACK ev el (Nd d RED dv dl dr)) # k1) t)"
        and ok2: "okc (FL p c1 pv (Nd e BLACK ev el (Nd d RED dv dl dr)) # k1) (Suc (bh t))"
        and n2: "nds (plug (FL p c1 pv (Nd e BLACK ev el (Nd d RED dv dl dr)) # k1) t) =
          nds (plug (FL p c1 pv (Nd b BLACK wv wl wr) # k1) t)"
      using far_left_RB [OF R1 q ok1 one] unfolding nn by blast
    let ?U = "Nd e c1 ev (Nd p BLACK pv t el) (Nd d BLACK dv dl dr)"
    obtain s3 where s3: "last_left s2 ?x e = Inr s3" "stays s2 s3" "RBx X s3 q (plug k1 ?U)"
      using last_left_RB [OF R2 q] s2(2) nn by (auto simp: stays_def)
    have "rbt (plug k1 ?U) \<or> k1 = [] \<and> ok ?U" "c1 = RED \<longrightarrow> k1 \<noteq> []"
      using ok2 t unfolding rbt_plug by (cases c1; auto)+
    then have "rbt (plug k1 ?U)" by (cases "k1 = []") (auto simp: rbt_def)
    moreover have "plug k1 ?U \<noteq> Lf" by (auto simp: addrs_plug simp flip: addrs_Nil_iff)
    moreover have "root s3 = addr (nil s) (plug k1 ?U)" using s3 s2(2) nn by (simp add: RBx_def stays_def)
    then have "delete_left s ?x p = Inr (s3, addr (nil s) (plug k1 ?U))"
      using s1(1) at nc fc one s2(1) s3(1) by (auto simp: delete_left_def)
    moreover have "nds (plug k1 ?U) = nds (plug (FL p c pv w # k) t)" using n1 n2 by (simp add: nds_plug)
    moreover have "stays s s3" using s1(2) s2(2) s3(2) by (simp add: stays_def)
    ultimately show ?thesis using s3(3) unfolding delete_next_def
      by (intro exI [of _ s3] exI [of _ "[]"] exI [of _ "plug k1 ?U"]) (auto simp: rbt_def height_left_def)
  qed
qed


lemma blacken_mir: "blacken (mir t) = mir (blacken t)"
  by (cases t) simp_all

lemma delete_right_step:
  assumes R: "RBx X s q (plug (FR p c pv w # k) t)" and q: "t = Lf \<longrightarrow> q = p" and t: "ok t" "tcol t = BLACK"
    and okc: "okc (FR p c pv w # k) (Suc (bh t))"
  shows "delete_next X s q (FR p c pv w # k) t (delete_right s (addr (nil s) t) p)"
proof -
  let ?K = "FR p c pv w # k"
  have "delete_next X (mirror s) q (map mirf ?K) (mir t) (delete_left (mirror s) (addr (nil s) t) p)"
    using delete_left_step [of X "mirror s" q p c pv "mir w" "map mirf k" "mir t"]
      RBx_mirror_plug [of X s q ?K t] okc_mir [of ?K "Suc (bh t)"] R q t okc by simp
  then obtain s' k' t' where *: "delete_left (mirror s) (addr (nil s) t) p = Inr (s', addr (nil s) t')"
      "RBx X s' q (plug k' t')" "stays s s'" "t' \<noteq> Lf" "ok (blacken t')" "okc k' (Suc (bh t'))"
      "height_left k' t' < length ?K" "nds (plug k' t') = nds (plug (map mirf ?K) (mir t))"
    unfolding delete_next_def by auto
  have "delete_right s (addr (nil s) t) p = Inr (mirror s', addr (nil s) t')"
    using mirror_delete [of "mirror s"] *(1) by simp
  moreover have "RBx X (mirror s') q (plug (map mirf k') (mir t'))" using *(2) by (simp add: RBx_mirror_plug)
  moreover have "nds (plug (map mirf k') (mir t')) = nds (plug ?K t)"
    using *(8) unfolding plug_mir by simp
  moreover have "bh (mir t') = bh t'" using *(4,5) by (cases t') auto
  moreover have "height_left (map mirf k') (mir t') = height_left k' t'" by (simp add: height_left_def)
  ultimately show ?thesis using * unfolding delete_next_def
    by (intro exI [of _ "mirror s'"] exI [of _ "map mirf k'"] exI [of _ "mir t'"]) (simp add: blacken_mir)
qed

lemma root_place:
  assumes "RBx X s q (plug k t)"
  shows "root s = addr (nil s) t \<longleftrightarrow> k = []"
proof (cases "k = []")
  case False
  have "top (addr (nil s) t) k \<in> set (lefts k @ rights k)"
    using False
  proof (induction k arbitrary: t)
    case (Cons f k)
    show ?case
    proof (cases "k = []")
      case True
      then show ?thesis by (cases f) auto
    next
      case False
      then have "top (faddr f) k \<in> set (lefts k @ rights k)" using Cons.IH [of "Nd (faddr f) RED undefined Lf Lf"] by simp
      then show ?thesis by (cases f) auto
    qed
  qed simp
  then have "top (addr (nil s) t) k \<noteq> addr (nil s) t"
    using RBx_parts(1,2) [OF assms] addr_in [of "nil s" t] by auto
  then show ?thesis using RBx_parts(5) [OF assms] False by simp
qed (use RBx_parts(5) [OF assms] in simp)

lemma FixDelete_RB:
  assumes "RBx X s q (plug k t)" and "t = Lf \<longrightarrow> q = par (nil s) k" and "ok (blacken t)" and "okc k (Suc (bh t))"
    and "height_left k t \<le> n"
  shows "\<exists>s' T. FixDelete n s (addr (nil s) t) = Inr s' \<and> RBx X s' q T \<and> rbt T \<and> nds T = nds (plug k t) \<and> stays s s'"
  using assms
proof (induction n arbitrary: s k t rule: less_induct)
  case (less n)
  note R = less.prems(1)
  let ?x = "addr (nil s) t"
  have rt: "root s = ?x \<longleftrightarrow> k = []" by (rule root_place [OF R])
  have xc: "get_color s ?x = Inr (tcol t)" by (rule at_place(1) [OF R])
  show ?case
  proof (cases "k = [] \<or> tcol t = RED")
    case True
    obtain s' where s': "set_color s ?x BLACK = Inr s'" "RBx X s' q (plug k (blacken t))" "stays s s'"
      using blacken_RB [OF R] by blast
    have "bh (blacken t) = Suc (bh t)" if "tcol t = RED" using that by (cases t) auto
    then have "rbt (plug k (blacken t))" using True less.prems(3,4) by (auto simp: rbt_plug)
    moreover have "nds (plug k (blacken t)) = nds (plug k t)" by (simp add: nds_plug)
    moreover have "FixDelete n s ?x = Inr s'"
    proof (cases "root s = ?x")
      case True
      then show ?thesis using s'(1) by (simp add: FixDelete.simps [of n])
    next
      case False
      then have "tcol t = RED" using True rt by blast
      then show ?thesis using False s'(1) xc by (simp add: FixDelete.simps [of n])
    qed
    ultimately show ?thesis using s' by blast
  next
    case False
    then obtain f k' where k: "k = f # k'" and black: "tcol t = BLACK" by (cases k) auto
    obtain m where n: "n = Suc m" using less.prems(5) black k by (cases n) (auto simp: height_left_def)
    have ok: "ok t" using less.prems(3) black by simp
    have gp: "get_parent s ?x = Inr (faddr f)" using at_place(2) [OF R less.prems(2)] k by simp
    have up: "repc (nodes s) (nil s) ?x k" and dist: "distinct (lefts k @ addrs t @ rights k)"
        "nil s \<notin> set (lefts k @ addrs t @ rights k)" using RBx_parts [OF R] by simp_all
    define body where "body = (case f of FL _ _ _ _ \<Rightarrow> delete_left | FR _ _ _ _ \<Rightarrow> delete_right) s ?x (faddr f)"
    have run: "FixDelete n s ?x = bindE body (\<lambda>(t, x). FixDelete m t x)"
    proof (cases f)
      case (FL b d w x)
      then have "get_left s (faddr f) = Inr ?x" using up by (auto simp: k reads_some)
      then show ?thesis using gp xc rt black by (simp add: FixDelete.simps [of "Suc m"] n k FL body_def)
    next
      case (FR b d w x)
      then have "get_left s (faddr f) = Inr (addr (nil s) x)" using up by (auto simp: k reads_some)
      moreover have "x \<noteq> Lf" using less.prems(4) k FR by auto
      then have "?x \<noteq> addr (nil s) x" using dist unfolding k FR by (cases x; cases t) auto
      ultimately show ?thesis using gp xc rt black by (simp add: FixDelete.simps [of "Suc m"] n k FR body_def)
    qed
    have "delete_next X s q k t body"
    proof (cases f)
      case (FL b d w x)
      then show ?thesis using delete_left_step [of X s q b d w x k' t] less.prems black ok unfolding k body_def by simp
    next
      case (FR b d w x)
      then show ?thesis using delete_right_step [of X s q b d w x k' t] less.prems black ok unfolding k body_def by simp
    qed
    then obtain s' k2 t2 where *: "body = Inr (s', addr (nil s) t2)" "RBx X s' q (plug k2 t2)" "stays s s'" "t2 \<noteq> Lf"
        "ok (blacken t2)" "okc k2 (Suc (bh t2))" "height_left k2 t2 < length k" "nds (plug k2 t2) = nds (plug k t)"
      unfolding delete_next_def by blast
    have "nil s' = nil s" using *(3) by (simp add: stays_def)
    moreover have "height_left k2 t2 \<le> m" using *(7) less.prems(5) n black by (simp add: height_left_def)
    ultimately obtain s3 T where "FixDelete m s' (addr (nil s) t2) = Inr s3" "RBx X s3 q T" "rbt T" "nds T = nds (plug k2 t2)" "stays s' s3"
      using less.IH [of m s' k2 t2] * n by auto
    then show ?thesis using run * stays_trans by (intro exI [of _ s3] exI [of _ T]) auto
  qed
qed

end
