(* ===== verification/RB_Search.thy ===== *)
theory RB_Search
  imports RB_Deletion Order_Spec
begin

text \<open>
  What the searches of the red-black tree find: the first node of the in-order sequence that
  satisfies a predicate, the free place an insertion descends to, and the neighbours of a node.
  The comparator is the interface \<open>ordered_tree\<close>.
\<close>

section \<open>Searching\<close>

text \<open>The interface of the tree's comparator: an order and the equality that goes with it.\<close>

locale ordered_tree = keyed_order "less_than C" "equals C" for C :: "'a comparator"

definition entry :: "nat \<Rightarrow> ('a \<Rightarrow> bool) \<Rightarrow> (nat \<times> 'a) list \<Rightarrow> nat" where
  "entry d P es = (case List.find (\<lambda>(a, v). P v) es of Some (a, v) \<Rightarrow> a | None \<Rightarrow> d)"

lemma entry_simps [simp]:
  "entry d P [] = d" "entry d P ((a, v) # es) = (if P v then a else entry d P es)"
  by (simp_all add: entry_def)

lemma entry_append: "entry d P (es @ es') = entry (entry d P es') P es"
  by (induction es) auto

lemma entry_none [simp]: "\<forall>v \<in> snd ` set es. \<not> P v \<Longrightarrow> entry d P es = d"
  by (induction es) auto

lemma entry_cong: "(\<And>v. v \<in> snd ` set es \<Longrightarrow> P v = Q v) \<Longrightarrow> entry d P es = entry d Q es"
  by (induction es) auto

lemma snd_nds: "snd ` set (nds t) = set (vals t)"
  by (simp add: vals_nds)

lemma entry_cases:
  obtains "entry d P es = d" "\<forall>v \<in> snd ` set es. \<not> P v"
  | es1 a v es2 where "es = es1 @ (a, v) # es2" "P v" "\<forall>v \<in> snd ` set es1. \<not> P v" "entry d P es = a"
proof (cases "\<exists>v \<in> snd ` set es. P v")
  case True
  then obtain e where "e \<in> set es" "(\<lambda>(a, v). P v) e" by auto
  then obtain es1 e' es2 where s: "es = es1 @ e' # es2" "(\<lambda>(a, v). P v) e'" "\<forall>e \<in> set es1. \<not> (\<lambda>(a, v). P v) e"
    using split_list_first_prop [of es "\<lambda>(a, v). P v"] by metis
  obtain a v where "e' = (a, v)" by (cases e')
  moreover have "\<forall>v \<in> snd ` set es1. \<not> P v" using s(3) by auto
  ultimately show thesis using s that(2) [of es1 a v es2] by (simp add: entry_append)
qed (use that(1) in auto)

fun ht :: "'a rt \<Rightarrow> nat" where
  "ht Lf = 0"
| "ht (Nd a c v l r) = Suc (max (ht l) (ht r))"

lemma ht_length: "ht t \<le> length (addrs t)"
  by (induction t) auto

context ordered_tree
begin

lemma SearchTree_entry:
  assumes "rept (nodes s) (nil s) p t" and "nil s \<notin> set (addrs t)" and "ht t \<le> n"
    and "sorted_wrt (less_than C) (vals t)"
  shows "SearchTree n C s (addr (nil s) t) val = Inr (entry (nil s) (equals C val) (nds t))"
  using assms
proof (induction t arbitrary: p n)
  case Lf
  then show ?case by (simp add: SearchTree.simps [of n])
next
  case (Nd a c v l r)
  have at: "nodes s a = Some (mk v c (addr (nil s) l) (addr (nil s) r) p)" and an: "a \<noteq> nil s" using Nd.prems by auto
  obtain m where n: "n = Suc m" using Nd.prems(3) by (cases n) auto
  have L: "SearchTree m C s (addr (nil s) l) val = Inr (entry (nil s) (equals C val) (nds l))"
    and R: "SearchTree m C s (addr (nil s) r) val = Inr (entry (nil s) (equals C val) (nds r))"
    using Nd.IH(1) [of a m] Nd.IH(2) [of a m] Nd.prems n by (auto simp: sorted_wrt_append)
  have lo: "\<forall>w \<in> set (vals l). less_than C w v" and hi: "\<forall>w \<in> set (vals r). less_than C v w"
    using Nd.prems(4) by (auto simp: sorted_wrt_append)
  consider "equals C val v" | "less_than C val v" "\<not> equals C val v" | "less_than C v val" "\<not> equals C val v" "\<not> less_than C val v"
    using lt_total eq_sym by blast
  then show ?case
  proof cases
    case 1
    then have "\<forall>w \<in> set (vals l). \<not> equals C val w" using lo lt_eq_trans eq_iff eq_sym by blast
    then show ?thesis using 1 an by (simp add: SearchTree.simps [of n] reads_some [OF at] entry_append snd_nds)
  next
    case 2
    then have "\<forall>w \<in> set (vals r). \<not> equals C val w" using hi trans eq_iff by blast
    then show ?thesis using 2 an L by (simp add: n SearchTree.simps [of "Suc m"] reads_some [OF at] entry_append snd_nds)
  next
    case 3
    then have "\<forall>w \<in> set (vals l). \<not> equals C val w" using lo trans eq_iff by blast
    then show ?thesis using 3 an R by (simp add: n SearchTree.simps [of "Suc m"] reads_some [OF at] entry_append snd_nds)
  qed
qed

lemma lower_loop_entry:
  assumes "rept (nodes s) (nil s) p t" and "nil s \<notin> set (addrs t)" and "length (addrs t) \<le> n"
    and "sorted_wrt (less_than C) (vals t)"
  shows "lower_loop n C s val found (addr (nil s) t) = Inr (entry found (\<lambda>v. \<not> less_than C v val) (nds t))"
  using assms
proof (induction t arbitrary: p n found)
  case Lf
  then show ?case by (simp add: lower_loop.simps [of n])
next
  case (Nd a c v l r)
  have at: "nodes s a = Some (mk v c (addr (nil s) l) (addr (nil s) r) p)" and an: "a \<noteq> nil s" using Nd.prems by auto
  obtain m where n: "n = Suc m" using Nd.prems(3) by (cases n) auto
  have L: "lower_loop m C s val d (addr (nil s) l) = Inr (entry d (\<lambda>v. \<not> less_than C v val) (nds l))"
    and R: "lower_loop m C s val d (addr (nil s) r) = Inr (entry d (\<lambda>v. \<not> less_than C v val) (nds r))" for d
    using Nd.IH(1) [of a m] Nd.IH(2) [of a m] Nd.prems n by (auto simp: sorted_wrt_append)
  have lo: "\<forall>w \<in> set (vals l). less_than C w v" using Nd.prems(4) by (auto simp: sorted_wrt_append)
  show ?case
  proof (cases "less_than C v val")
    case True
    then have "\<forall>w \<in> set (vals l). less_than C w val" using lo trans by blast
    then show ?thesis using True an R by (simp add: n lower_loop.simps [of "Suc m"] reads_some [OF at] entry_append snd_nds)
  next
    case False
    then show ?thesis using an L by (simp add: n lower_loop.simps [of "Suc m"] reads_some [OF at] entry_append)
  qed
qed

lemma upper_loop_entry:
  assumes "rept (nodes s) (nil s) p t" and "nil s \<notin> set (addrs t)" and "length (addrs t) \<le> n"
    and "sorted_wrt (less_than C) (vals t)"
  shows "upper_loop n C s val found (addr (nil s) t) = Inr (entry found (less_than C val) (nds t))"
  using assms
proof (induction t arbitrary: p n found)
  case Lf
  then show ?case by (simp add: upper_loop.simps [of n])
next
  case (Nd a c v l r)
  have at: "nodes s a = Some (mk v c (addr (nil s) l) (addr (nil s) r) p)" and an: "a \<noteq> nil s" using Nd.prems by auto
  obtain m where n: "n = Suc m" using Nd.prems(3) by (cases n) auto
  have L: "upper_loop m C s val d (addr (nil s) l) = Inr (entry d (less_than C val) (nds l))"
    and R: "upper_loop m C s val d (addr (nil s) r) = Inr (entry d (less_than C val) (nds r))" for d
    using Nd.IH(1) [of a m] Nd.IH(2) [of a m] Nd.prems n by (auto simp: sorted_wrt_append)
  have lo: "\<forall>w \<in> set (vals l). less_than C w v" using Nd.prems(4) by (auto simp: sorted_wrt_append)
  show ?case
  proof (cases "less_than C val v")
    case True
    then show ?thesis using an L by (simp add: n upper_loop.simps [of "Suc m"] reads_some [OF at] entry_append)
  next
    case False
    then have "\<forall>w \<in> set (vals l). \<not> less_than C val w" using lo trans by blast
    then show ?thesis using False an R by (simp add: n upper_loop.simps [of "Suc m"] reads_some [OF at] entry_append snd_nds)
  qed
qed

text \<open>The descent ends at the one free place that keeps the order.\<close>

lemma descend_place:
  assumes "RBx X s q (plug k t)" and "length (addrs t) \<le> n" and "sorted_wrt (less_than C) (vals (plug k t))"
    and "\<forall>w \<in> set (lvals k). \<not> less_than C val w" "\<forall>w \<in> set (rvals k). less_than C val w"
  shows "\<exists>k'. descend n C s val (par (nil s) k) (addr (nil s) t) = Inr (par (nil s) k') \<and> plug k' Lf = plug k t \<and>
     (\<forall>w \<in> set (lvals k'). \<not> less_than C val w) \<and> (\<forall>w \<in> set (rvals k'). less_than C val w)"
  using assms
proof (induction t arbitrary: k n)
  case Lf
  then show ?case by (simp add: descend.simps [of n]) blast
next
  case (Nd a c v l r)
  note at = at_node [OF Nd.prems(1)]
  have an: "a \<noteq> nil s" using RBx_parts(2) [OF Nd.prems(1)] by auto
  obtain m where n: "n = Suc m" using Nd.prems(2) by (cases n) auto
  have lo: "\<forall>w \<in> set (vals l). less_than C w v" and hi: "\<forall>w \<in> set (vals r). less_than C v w"
    using Nd.prems(3) by (auto simp: vals_plug sorted_wrt_append)
  show ?case
  proof (cases "less_than C val v")
    case True
    then have "\<forall>w \<in> set (rvals (FL a c v r # k)). less_than C val w" using hi trans Nd.prems(5) by auto
    then show ?thesis using Nd.IH(1) [of "FL a c v r # k" m] Nd.prems True an at by (simp add: n descend.simps [of "Suc m"])
  next
    case False
    then have "\<forall>w \<in> set (lvals (FR a c v l # k)). \<not> less_than C val w" using lo trans Nd.prems(4) by auto
    then show ?thesis using Nd.IH(2) [of "FR a c v l # k" m] Nd.prems False an at by (simp add: n descend.simps [of "Suc m"])
  qed
qed

end

section \<open>The neighbours of a node\<close>

lemma place_of:
  assumes "a \<in> set (addrs T)"
  obtains k c v l r where "T = plug k (Nd a c v l r)"
proof -
  have "\<exists>k c v l r. T = plug k (Nd a c v l r)"
    using assms
  proof (induction T)
    case (Nd b d w x y)
    consider "a = b" | "a \<in> set (addrs x)" | "a \<in> set (addrs y)" using Nd.prems by auto
    then show ?case
    proof cases
      case 1
      then show ?thesis by (intro exI [of _ "[]"]) simp
    next
      case 2
      then obtain k c v l r where "x = plug k (Nd a c v l r)" using Nd.IH(1) by blast
      then have "Nd b d w x y = plug (k @ [FL b d w y]) (Nd a c v l r)" by (simp add: plug_append)
      then show ?thesis by blast
    next
      case 3
      then obtain k c v l r where "y = plug k (Nd a c v l r)" using Nd.IH(2) by blast
      then have "Nd b d w x y = plug (k @ [FR b d w x]) (Nd a c v l r)" by (simp add: plug_append)
      then show ?thesis by blast
    qed
  qed simp
  then show thesis using that by blast
qed

lemma climb_right:
  assumes "RBx X s q (plug k t)" and "t \<noteq> Lf" and "length k \<le> n"
  shows "climb_from_right n s (addr (nil s) t) (par (nil s) k) = Inr (case rights k of [] \<Rightarrow> nil s | b # _ \<Rightarrow> b)"
  using assms
proof (induction k arbitrary: t n)
  case Nil
  then show ?case by (simp add: climb_from_right.simps [of n])
next
  case (Cons f k)
  note parts = RBx_parts [OF Cons.prems(1)]
  have fn: "faddr f \<noteq> nil s" using parts(2) by (cases f) auto
  show ?case
  proof (cases f)
    case (FL a c v r)
    have "get_right s a = Inr (addr (nil s) r)" using at_node(3) [of X s q k a c v t r] Cons.prems(1) FL by simp
    moreover have "addr (nil s) t \<noteq> addr (nil s) r"
      using parts(1,2) Cons.prems(2) addr_in [of "nil s" r] unfolding FL by (cases t) auto
    ultimately show ?thesis using fn by (simp add: FL climb_from_right.simps [of n])
  next
    case (FR a c v l)
    obtain m where n: "n = Suc m" using Cons.prems(3) by (cases n) auto
    have "get_right s a = Inr (addr (nil s) t)" "get_parent s a = Inr (par (nil s) k)"
      using at_node(3,4) [of X s q k a c v l t] Cons.prems(1) FR by simp_all
    moreover have "climb_from_right m s a (par (nil s) k) = Inr (case rights k of [] \<Rightarrow> nil s | b # _ \<Rightarrow> b)"
      using Cons.IH [of "Nd a c v l t" m] Cons.prems(1,3) FR n by simp
    ultimately show ?thesis using fn by (simp add: FR n climb_from_right.simps [of "Suc m"])
  qed
qed

lemma length_ctx: "length k \<le> length (lefts k @ rights k)"
proof (induction k)
  case (Cons f k)
  then show ?case by (cases f) auto
qed simp

lemma split_unique: "distinct (xs @ a # ys) \<Longrightarrow> xs @ a # ys = xs' @ a # ys' \<Longrightarrow> xs' = xs \<and> ys' = ys"
proof (induction xs arbitrary: xs')
  case Nil
  then show ?case by (cases xs') auto
next
  case (Cons x xs)
  note IH = Cons.IH and prems = Cons.prems
  show ?case
  proof (cases xs')
    case (Cons y zs)
    have d: "distinct (xs @ a # ys)" using prems(1) by simp
    have "xs @ a # ys = zs @ a # ys'" using prems(2) Cons by simp
    from IH [OF d this] show ?thesis using Cons prems(2) by simp
  qed (use prems in auto)
qed

lemma Successor_next:
  assumes "RBx X s q T" and "addrs T = xs @ a # ys"
  shows "Successor s a = Inr (case ys of [] \<Rightarrow> nil s | b # _ \<Rightarrow> b)"
proof -
  have "a \<in> set (addrs T)" using assms(2) by simp
  then obtain k c v l r where T: "T = plug k (Nd a c v l r)" by (rule place_of)
  note R = assms(1) [unfolded T]
  note parts = RBx_parts [OF R] and at = at_node [OF R]
  have "distinct (addrs T)" using assms(1) by (simp add: RBx_def)
  moreover have "addrs T = (lefts k @ addrs l) @ a # addrs r @ rights k" by (simp add: T addrs_plug)
  ultimately have ys: "ys = addrs r @ rights k"
    using assms(2) split_unique [of xs a ys "lefts k @ addrs l" "addrs r @ rights k"] by simp
  have fuel: "length (addrs r) \<le> fuel_of s" "length k \<le> fuel_of s"
    using RBx_fuel [OF R] length_ctx [of k] by (simp_all add: addrs_plug fuel_of_def)
  show ?thesis
  proof (cases "r = Lf")
    case True
    then show ?thesis using climb_right [OF R _ fuel(2)] at ys by (simp add: Successor_def)
  next
    case False
    moreover have "addr (nil s) r \<noteq> nil s" using False parts(2) by auto
    moreover have "Minimum (fuel_of s) s (addr (nil s) r) = Inr (hd (addrs r))"
      using Minimum_hd [of s a r "fuel_of s"] parts False fuel by simp
    ultimately show ?thesis using at ys by (cases "addrs r") (simp_all add: Successor_def)
  qed
qed

lemma mirror_climb: "climb_from_left n (mirror s) = climb_from_right n s"
proof (induction n)
  case 0
  show ?case by (intro ext) (simp add: climb_from_left.simps [of 0] climb_from_right.simps [of 0] cong: if_cong)
next
  case (Suc n)
  then show ?case
    by (intro ext) (simp add: climb_from_left.simps [of "Suc n"] climb_from_right.simps [of "Suc n"] cong: if_cong)
qed

lemma mirror_Successor: "a \<noteq> nil s \<Longrightarrow> Predecessor s a = Successor (mirror s) a"
  using mirror_climb [of "fuel_of s" "mirror s"] mirror_Minimum [of "fuel_of s" "mirror s"]
  by (simp add: Predecessor_def Successor_def fuel_of_def cong: if_cong)

lemma Predecessor_prev:
  assumes "RBx X s q T" and "addrs T = xs @ a # ys"
  shows "Predecessor s a = Inr (if xs = [] then nil s else last xs)"
proof -
  have "a \<noteq> nil s" using assms by (auto simp: RBx_def)
  moreover have "RBx X (mirror s) q (mir T)" using assms(1) by simp
  from Successor_next [OF this, of "rev ys" a "rev xs"] assms(2)
  have "Successor (mirror s) a = Inr (if xs = [] then nil s else last xs)"
    by (cases xs rule: rev_cases) simp_all
  ultimately show ?thesis by (simp add: mirror_Successor)
qed

lemma Predecessor_end:
  assumes "RBx X s q T"
  shows "Predecessor s (nil s) = Inr (if T = Lf then nil s else last (addrs T))"
proof -
  have "root s = addr (nil s) T" "nil s \<notin> set (addrs T)" "rept (nodes s) (nil s) (nil s) T" using assms by (simp_all add: RBx_def)
  then show ?thesis using Maximum_last [of s "nil s" T "fuel_of s"] RBx_fuel [OF assms]
    by (simp add: Predecessor_def RB_empty_def fuel_of_def)
qed

end
