(* ===== verification/RB_Operations.thy ===== *)
theory RB_Operations
  imports RB_Search
begin

text \<open>
  The operations of the red-black tree on the sequence of its nodes in order: insertion puts one
  node into it, erasure takes one out, and every other node stays where it is. The invariant is
  that the heap is a red-black tree in the order of the comparator and nothing else.
\<close>

section \<open>What a tree holds\<close>

text \<open>The nodes below an address in order, each with its address.\<close>

fun traverse :: "nat \<Rightarrow> 'a rbtree \<Rightarrow> nat \<Rightarrow> (nat \<times> 'a) list" where
  "traverse 0 s p = []"
| "traverse (Suc n) s p =
     (if p = nil s then []
      else case nodes s p of None \<Rightarrow> []
      | Some b \<Rightarrow> (case nval b of None \<Rightarrow> [] | Some v \<Rightarrow> traverse n s (left b) @ (p, v) # traverse n s (right b)))"

definition contents :: "'a rbtree \<Rightarrow> (nat \<times> 'a) list" where
  "contents s = traverse (next_addr s) s (root s)"

lemma traverse_nds:
  assumes "rept (nodes s) (nil s) p t" and "nil s \<notin> set (addrs t)" and "length (addrs t) < n"
  shows "traverse n s (addr (nil s) t) = nds t"
  using assms
proof (induction t arbitrary: n p)
  case Lf
  then show ?case by (cases n) simp_all
next
  case (Nd a c v l r)
  then show ?case by (cases n) auto
qed

lemma contents_RB: "RBx X s q T \<Longrightarrow> contents s = nds T"
  using traverse_nds [of s "nil s" T "next_addr s"] RBx_fuel [of X s q T] by (simp add: contents_def RBx_def)

section \<open>The invariant\<close>

definition rb_shape :: "'a comparator \<Rightarrow> 'a rbtree \<Rightarrow> 'a rt \<Rightarrow> bool" where
  "rb_shape C s T \<longleftrightarrow> (\<exists>q. RB s q T) \<and> rbt T \<and> sorted_wrt (less_than C) (vals T)"

definition rb_inv :: "'a comparator \<Rightarrow> 'a rbtree \<Rightarrow> bool" where
  "rb_inv C s \<longleftrightarrow> (\<exists>T. rb_shape C s T)"

lemma rb_invE:
  assumes "rb_inv C s"
  obtains q T where "RB s q T" "rbt T" "sorted_wrt (less_than C) (vals T)" "contents s = nds T"
  using assms contents_RB unfolding rb_inv_def rb_shape_def by blast

lemma rb_invI: "RB s q T \<Longrightarrow> rbt T \<Longrightarrow> sorted_wrt (less_than C) (vals T) \<Longrightarrow> rb_inv C s"
  unfolding rb_inv_def rb_shape_def by blast

lemma rb_inv_contents:
  assumes "rb_inv C s"
  shows "sorted_wrt (less_than C) (map snd (contents s))" "distinct (map fst (contents s))"
    "length (contents s) < next_addr s" "next_addr s \<le> MEM_MAX" "nil s \<notin> fst ` set (contents s)"
    "dom (nodes s) = insert (nil s) (fst ` set (contents s))" "0 < nil s"
proof -
  from assms obtain q T where R: "RB s q T" and T: "rbt T" "sorted_wrt (less_than C) (vals T)" "contents s = nds T" by (rule rb_invE)
  have "length (nds T) = length (addrs T)" by (simp add: addrs_nds)
  then show "length (contents s) < next_addr s" using RBx_fuel [OF R] T by simp
  show "sorted_wrt (less_than C) (map snd (contents s))" using T by (simp add: vals_nds)
  show "distinct (map fst (contents s))" "next_addr s \<le> MEM_MAX" "nil s \<notin> fst ` set (contents s)"
    "dom (nodes s) = insert (nil s) (fst ` set (contents s))" "0 < nil s"
    using R T by (auto simp: RBx_def addrs_nds)
qed

lemma RB_new_RB: "RB RB_new 1 Lf"
  by (auto simp: RB_new_def RBx_def nil_node_def MEM_MAX_def split: if_splits)

lemma RB_new_inv [simp]: "rb_inv C RB_new"
  by (rule rb_invI [OF RB_new_RB]) (simp_all add: rbt_def)

lemma RB_new_contents [simp]: "contents RB_new = []"
  using contents_RB [OF RB_new_RB] by simp

section \<open>Deleting nodes\<close>

lemma delete_node_RB:
  assumes "RBx {z} s q T"
  shows "\<exists>s'. delete_node s z = Inr s' \<and> RB s' q T \<and> stays s s'"
proof -
  have zd: "z \<in> dom (nodes s)" and zn: "z \<notin> insert (nil s) (set (addrs T))" using assms by (auto simp: RBx_def)
  let ?s = "s\<lparr>nodes := (nodes s)(z := None)\<rparr>"
  have "delete_node s z = Inr ?s" using zd by (auto simp: delete_node_def deref_def)
  moreover have "RB ?s q T" using assms zn by (auto simp: RBx_def)
  ultimately show ?thesis by (simp add: stays_def)
qed

lemma DeleteTree_run:
  assumes "rept (nodes s) (nil s) p t" and "nil s \<notin> set (addrs t)" and "distinct (addrs t)" and "ht t \<le> n"
  shows "DeleteTree n s (addr (nil s) t) = Inr (s\<lparr>nodes := nodes s |` (- set (addrs t))\<rparr>)"
  using assms
proof (induction t arbitrary: s p n)
  case Lf
  then show ?case by (simp add: DeleteTree.simps [of n])
next
  case (Nd a c v l r)
  have at: "nodes s a = Some (mk v c (addr (nil s) l) (addr (nil s) r) p)" and an: "a \<noteq> nil s" using Nd.prems by auto
  obtain m where n: "n = Suc m" "ht l \<le> m" "ht r \<le> m" using Nd.prems(4) by (cases n) auto
  define s1 where "s1 = s\<lparr>nodes := nodes s |` (- set (addrs l))\<rparr>"
  define s2 where "s2 = s1\<lparr>nodes := nodes s1 |` (- set (addrs r))\<rparr>"
  have L: "DeleteTree m s (addr (nil s) l) = Inr s1"
    unfolding s1_def by (rule Nd.IH(1) [of s a m]) (use Nd.prems n in auto)
  have keep: "nodes s1 b = nodes s b" if "b \<notin> set (addrs l)" for b using that by (simp add: s1_def restrict_map_def)
  have "rept (nodes s1) (nil s) a r = rept (nodes s) (nil s) a r"
    by (intro rept_cong keep) (use Nd.prems in auto)
  then have R: "DeleteTree m s1 (addr (nil s) r) = Inr s2"
    unfolding s2_def using Nd.IH(2) [of s1 a m] Nd.prems n by (simp add: s1_def)
  have at1: "nodes s1 a = nodes s a" using keep Nd.prems by auto
  have at2: "nodes s2 a = nodes s a" using at1 Nd.prems by (auto simp: s2_def restrict_map_def)
  have "delete_node s2 a = Inr (s\<lparr>nodes := nodes s |` (- set (addrs (Nd a c v l r)))\<rparr>)"
    using at2 at by (auto simp: delete_node_def deref_def s2_def s1_def restrict_map_def fun_eq_iff fun_upd_apply)
  then show ?case using L R an at at1 by (simp add: n DeleteTree.simps [of "Suc m"] reads_some [OF at] reads_some)
qed

lemma RB_Clear_RB:
  assumes "RB s q T"
  shows "\<exists>s'. RB_Clear s = Inr s' \<and> RB s' q Lf \<and> stays s s'"
    and "\<exists>s'. RB_destroy s = Inr s' \<and> nodes s' = (\<lambda>a. None)"
proof -
  have all: "dom (nodes s) = insert (nil s) (set (addrs T))" "nil s \<notin> set (addrs T)" using assms by (simp_all add: RBx_def)
  have f: "ht T \<le> fuel_of s" using RBx_fuel [OF assms] ht_length [of T] by (simp add: fuel_of_def)
  have d: "DeleteTree (fuel_of s) s (root s) = Inr (s\<lparr>nodes := nodes s |` (- set (addrs T))\<rparr>)"
    using DeleteTree_run [of s "nil s" T "fuel_of s"] assms f by (simp add: RBx_def)
  have left: "nodes s |` (- set (addrs T)) = (\<lambda>_. None)(nil s := Some (nil_node (nil s) q))"
  proof
    fix a
    show "(nodes s |` (- set (addrs T))) a = ((\<lambda>_. None)(nil s := Some (nil_node (nil s) q))) a"
      using all nil_at [OF assms] by (cases "a = nil s") (auto simp: restrict_map_def fun_upd_apply)
  qed
  have "RB (s\<lparr>nodes := nodes s |` (- set (addrs T)), root := nil s\<rparr>) q Lf"
    unfolding left using assms by (auto simp: RBx_def)
  then show "\<exists>s'. RB_Clear s = Inr s' \<and> RB s' q Lf \<and> stays s s'" using d by (simp add: RB_Clear_def stays_def)
  show "\<exists>s'. RB_destroy s = Inr s' \<and> nodes s' = (\<lambda>a. None)"
    using d by (simp add: RB_destroy_def delete_node_def deref_def left fun_upd_idem)
qed

section \<open>Finding, inserting and erasing\<close>

context ordered_tree
begin

lemma Find_entry:
  assumes "rb_inv C s"
  shows "RB_Find C s val = Inr (entry (nil s) (equals C val) (contents s))"
    and "RB_LowerBound C s val = Inr (entry (nil s) (\<lambda>v. \<not> less_than C v val) (contents s))"
    and "RB_UpperBound C s val = Inr (entry (nil s) (less_than C val) (contents s))"
proof -
  from assms obtain q T where R: "RB s q T" and T: "rbt T" "sorted_wrt (less_than C) (vals T)" "contents s = nds T" by (rule rb_invE)
  have parts: "root s = addr (nil s) T" "rept (nodes s) (nil s) (nil s) T" "nil s \<notin> set (addrs T)" using R by (simp_all add: RBx_def)
  have f: "length (addrs T) \<le> fuel_of s" using RBx_fuel [OF R] by (simp add: fuel_of_def)
  then have h: "ht T \<le> fuel_of s" using ht_length [of T] by simp
  show "RB_Find C s val = Inr (entry (nil s) (equals C val) (contents s))"
    using SearchTree_entry [OF parts(2,3) h T(2)] parts T by (simp add: RB_Find_def)
  show "RB_LowerBound C s val = Inr (entry (nil s) (\<lambda>v. \<not> less_than C v val) (contents s))"
    using lower_loop_entry [OF parts(2,3) f T(2)] parts T by (simp add: RB_LowerBound_def)
  show "RB_UpperBound C s val = Inr (entry (nil s) (less_than C val) (contents s))"
    using upper_loop_entry [OF parts(2,3) f T(2)] parts T by (simp add: RB_UpperBound_def)
qed

lemma link_below_RB:
  assumes R: "RBx X s q (plug k Lf)" and a: "a \<in> X" and at: "nodes s a = Some (mk v RED (nil s) (nil s) p)"
    and fits: "\<forall>w \<in> set (lvals k). \<not> less_than C v w" "\<forall>w \<in> set (rvals k). less_than C v w"
  shows "\<exists>s'. bindE (set_parent s a (par (nil s) k)) (\<lambda>t. link_below C t v (par (nil s) k) a) = Inr s' \<and>
     RBx (X - {a}) s' q (plug k (Nd a RED v Lf Lf)) \<and> stays s s'"
proof -
  note parts = RBx_parts [OF R]
  let ?z = "nil s"
  have an: "a \<notin> insert ?z (set (lefts k @ rights k))" using R a by (auto simp: RBx_def addrs_plug)
  define s1 where "s1 = s\<lparr>nodes := (nodes s)(a := Some (mk v RED ?z ?z (par ?z k)))\<rparr>"
  have run1: "set_parent s a (par ?z k) = Inr s1" using at by (simp add: set_parent_def rb_read s1_def)
  have up: "repc (nodes s1) ?z ?z k" using parts(3) an by (simp add: s1_def)
  have dom1: "dom (nodes s1) = dom (nodes s)" using at by (auto simp: s1_def)
  have nz: "nodes s1 ?z = Some (nil_node ?z q)" using nil_at [OF R] an by (simp add: s1_def)
  have "\<exists>s2. link_below C s1 v (par ?z k) a = Inr s2 \<and> repc (nodes s2) ?z a k \<and> root s2 = top a k \<and> stays s1 s2 \<and>
      dom (nodes s2) = dom (nodes s1) \<and> nodes s2 ?z = nodes s1 ?z \<and> nodes s2 a = nodes s1 a"
  proof (cases k)
    case Nil
    then show ?thesis using an by (simp add: link_below_def s1_def stays_def)
  next
    case (Cons f k')
    have dist: "distinct (lefts k @ rights k)" "?z \<notin> set (lefts k @ rights k)" using parts by simp_all
    have root: "root s1 = top ?z k" using parts(5) by (simp add: s1_def)
    show ?thesis
    proof (cases f)
      case (FL b d w r)
      let ?s2 = "s1\<lparr>nodes := (nodes s1)(b := Some (mk w d a (addr ?z r) (par ?z k')))\<rparr>"
      have "link_below C s1 v b a = Inr ?s2" using up fits dist
        by (auto simp: link_below_def Cons FL s1_def reads_some set_left_def rb_read)
      moreover have "repc (nodes ?s2) ?z a k" using up dist by (auto simp: Cons FL)
      ultimately show ?thesis using up an dist root by (auto simp: Cons FL stays_def)
    next
      case (FR b d w l)
      let ?s2 = "s1\<lparr>nodes := (nodes s1)(b := Some (mk w d (addr ?z l) a (par ?z k')))\<rparr>"
      have "link_below C s1 v b a = Inr ?s2" using up fits dist
        by (auto simp: link_below_def Cons FR s1_def reads_some set_right_def rb_read)
      moreover have "repc (nodes ?s2) ?z a k" using up dist by (auto simp: Cons FR)
      ultimately show ?thesis using up an dist root by (auto simp: Cons FR stays_def)
    qed
  qed
  then obtain s2 where s2: "link_below C s1 v (par ?z k) a = Inr s2" "repc (nodes s2) ?z a k" "root s2 = top a k" "stays s1 s2"
      "dom (nodes s2) = dom (nodes s1)" "nodes s2 ?z = nodes s1 ?z" "nodes s2 a = nodes s1 a" by blast
  have "nil s2 = ?z" "next_addr s2 = next_addr s" using s2(4) by (simp_all add: stays_def s1_def)
  moreover have "nodes s2 a = Some (mk v RED ?z ?z (par ?z k))" using s2(7) by (simp add: s1_def)
  moreover have "distinct (addrs (plug k (Nd a RED v Lf Lf)))" "?z \<notin> set (addrs (plug k (Nd a RED v Lf Lf)))"
    using parts an by (auto simp: addrs_plug)
  moreover have "dom (nodes s) = insert ?z (set (addrs (plug k (Nd a RED v Lf Lf))) \<union> (X - {a}))"
      "(X - {a}) \<inter> insert ?z (set (addrs (plug k (Nd a RED v Lf Lf)))) = {}"
      "\<forall>a \<in> dom (nodes s). 0 < a \<and> a < next_addr s" "next_addr s \<le> MEM_MAX"
    using R a by (auto simp: RBx_def addrs_plug)
  ultimately have "RBx (X - {a}) s2 q (plug k (Nd a RED v Lf Lf))"
    using s2 nz dom1 unfolding RBx_def by (simp add: rept_plug addr_plug)
  then show ?thesis using run1 s2 by (auto simp: stays_def s1_def)
qed

lemma FindOrInsert_found:
  assumes "rb_inv C s" and "entry (nil s) (equals C val) (contents s) \<noteq> nil s"
  shows "FindOrInsert C s val = Inr (s, entry (nil s) (equals C val) (contents s), False)"
  using Find_entry(1) [OF assms(1), of val] assms(2) by (simp add: FindOrInsert_def RB_Find_def)

lemma absent_entry:
  assumes "rb_inv C s"
  shows "entry (nil s) P (contents s) = nil s \<longleftrightarrow> (\<forall>w \<in> snd ` set (contents s). \<not> P w)"
proof (cases rule: entry_cases [of "nil s" P "contents s"])
  case (2 es1 a v es2)
  then have "a \<noteq> nil s" using rb_inv_contents(5) [OF assms] by auto
  then show ?thesis using 2 by auto
qed auto

lemma FindOrInsert_full:
  assumes "rb_inv C s" and "\<forall>w \<in> snd ` set (contents s). \<not> equals C val w" and "\<not> next_addr s < MEM_MAX"
  shows "FindOrInsert C s val = Inl (FatalCheck ''operator new: std::bad_alloc'')"
  using Find_entry(1) [OF assms(1), of val] absent_entry [OF assms(1), of "equals C val"] assms(2,3)
  by (simp add: FindOrInsert_def RB_Find_def new_node_def)

lemma new_node_RB:
  assumes "RB s q T" and "next_addr s < MEM_MAX"
  shows "\<exists>s1. bindE (new_node s val) (\<lambda>(t, node). bindE (set_left t node (nil t)) (\<lambda>t. bindE (set_right t node (nil t)) (\<lambda>t. Inr (t, node)))) =
      Inr (s1, next_addr s) \<and> RBx {next_addr s} s1 q T \<and> nodes s1 (next_addr s) = Some (mk val RED (nil s) (nil s) nullptr) \<and>
      nil s1 = nil s \<and> next_addr s1 = Suc (next_addr s)"
proof -
  let ?a = "next_addr s"
  let ?s1 = "s\<lparr>nodes := (nodes s)(?a := Some (mk val RED (nil s) (nil s) nullptr)), next_addr := Suc ?a\<rparr>"
  have out: "?a \<notin> insert (nil s) (set (addrs T))" using assms(1) by (auto simp: RBx_def)
  have "RBx {?a} ?s1 q T" using assms out by (auto simp: RBx_def less_Suc_eq)
  moreover have "bindE (new_node s val) (\<lambda>(t, node). bindE (set_left t node (nil t)) (\<lambda>t. bindE (set_right t node (nil t)) (\<lambda>t. Inr (t, node)))) =
      Inr (?s1, ?a)"
    using assms(2) by (simp add: new_node_def set_left_def set_right_def rb_read mk_def)
  ultimately show ?thesis by (intro exI [of _ ?s1]) simp
qed

lemma FindOrInsert_new:
  assumes "rb_inv C s" and "\<forall>w \<in> snd ` set (contents s). \<not> equals C val w" and "next_addr s < MEM_MAX"
  shows "\<exists>s' es1 es2. FindOrInsert C s val = Inr (s', next_addr s, True) \<and> rb_inv C s' \<and> contents s = es1 @ es2 \<and>
     contents s' = es1 @ (next_addr s, val) # es2 \<and> nil s' = nil s \<and> next_addr s' = Suc (next_addr s)"
proof -
  from assms(1) obtain q T where R: "RB s q T" and T: "rbt T" "sorted_wrt (less_than C) (vals T)" "contents s = nds T" by (rule rb_invE)
  let ?a = "next_addr s"
  obtain s1 where s1: "bindE (new_node s val) (\<lambda>(t, node). bindE (set_left t node (nil t)) (\<lambda>t. bindE (set_right t node (nil t)) (\<lambda>t. Inr (t, node)))) = Inr (s1, ?a)"
      "RBx {?a} s1 q T" "nodes s1 ?a = Some (mk val RED (nil s) (nil s) nullptr)" "nil s1 = nil s" "next_addr s1 = Suc ?a"
    using new_node_RB [OF R assms(3)] by blast
  have fuel: "length (addrs T) \<le> fuel_of s1" using RBx_fuel [OF s1(2)] by (simp add: fuel_of_def)
  obtain k where k: "descend (fuel_of s1) C s1 val (nil s) (root s1) = Inr (par (nil s) k)" "plug k Lf = T"
      "\<forall>w \<in> set (lvals k). \<not> less_than C val w" "\<forall>w \<in> set (rvals k). less_than C val w"
    using descend_place [of "{?a}" s1 q "[]" T "fuel_of s1" val] s1 fuel T(2) by (auto simp: RBx_def)
  obtain s2 where s2: "bindE (set_parent s1 ?a (par (nil s) k)) (\<lambda>t. link_below C t val (par (nil s) k) ?a) = Inr s2"
      "RB s2 q (plug k (Nd ?a RED val Lf Lf))" "stays s1 s2"
    using link_below_RB [of "{?a}" s1 q k ?a val nullptr] s1 k by auto
  have okk: "okc k 0" using T(1) unfolding k(2) [symmetric] rbt_plug by simp
  have "length k \<le> fuel_of s2" using RBx_fuel [OF s2(2)] length_ctx [of k] by (simp add: addrs_plug fuel_of_def)
  then obtain s3 T3 where s3: "FixInsert (fuel_of s2) s2 ?a = Inr s3" "RB s3 q T3" "rbt T3"
      "nds T3 = nds (plug k (Nd ?a RED val Lf Lf))" "stays s2 s3"
    using FixInsert_RB [OF s2(2), of "fuel_of s2"] okk by auto
  have run: "FindOrInsert C s val = Inr (s3, ?a, True)"
  proof -
    have "SearchTree (fuel_of s) C s (root s) val = Inr (nil s)"
      using Find_entry(1) [OF assms(1), of val] absent_entry [OF assms(1), of "equals C val"] assms(2) by (simp add: RB_Find_def)
    moreover have "node_value s1 ?a = Inr val" using s1(3) by (simp add: reads_some)
    ultimately have "FindOrInsert C s val =
        bindE (bindE (new_node s val) (\<lambda>(t, node). bindE (set_left t node (nil t)) (\<lambda>t. bindE (set_right t node (nil t)) (\<lambda>t. Inr (t, node)))))
          (\<lambda>(t, node). bindE (node_value t node) (\<lambda>v.
             bindE (descend (fuel_of t) C t v (nil t) (root t)) (\<lambda>y.
             bindE (bindE (set_parent t node y) (\<lambda>t. link_below C t v y node)) (\<lambda>t.
             bindE (FixInsert (fuel_of t) t node) (\<lambda>t. Inr (t, node, True))))))"
      by (simp add: FindOrInsert_def bindE_assoc case_prod_unfold)
    then show ?thesis using s1(1,4) k(1) s2(1) s3(1) \<open>node_value s1 ?a = Inr val\<close> by simp
  qed
  have c3: "contents s3 = lnds k @ (?a, val) # rnds k" using contents_RB [OF s3(2)] s3(4) by (simp add: nds_plug)
  have c: "contents s = lnds k @ rnds k" using T(3) k(2) nds_plug [of k Lf] by simp
  have lv: "lvals k = map snd (lnds k)" "rvals k = map snd (rnds k)"
  proof -
    show "lvals k = map snd (lnds k)" by (induction k rule: lvals.induct) (simp_all add: vals_nds)
    show "rvals k = map snd (rnds k)" by (induction k rule: rvals.induct) (simp_all add: vals_nds)
  qed
  have "less_than C w val" if "w \<in> set (lvals k)" for w
  proof -
    have "\<not> less_than C val w" using k(3) that by blast
    moreover have "\<not> equals C val w" using assms(2) that unfolding c lv by auto
    ultimately show ?thesis using lt_total [of w val] eq_sym by blast
  qed
  then have "sorted_wrt (less_than C) (vals T3)"
    using T(2) k s3(4) lv unfolding k(2) [symmetric] vals_nds [of T3] vals_plug by (auto simp: nds_plug sorted_wrt_append)
  then have "rb_inv C s3" using rb_invI [OF s3(2,3)] by blast
  then show ?thesis using run c c3 s1(4,5) s2(3) s3(5) by (auto simp: stays_def)
qed

end

lemma ctx_rename:
  "okc (k' @ FR z c v l # k) n = okc (k' @ FR y c w l # k) n" "ccol (k' @ FR z c v l # k) = ccol (k' @ FR y c w l # k)"
proof -
  show c: "ccol (k' @ FR z c v l # k) = ccol (k' @ FR y c w l # k)" for k' :: "'a fr list"
    by (cases k'; cases "hd k'") auto
  show "okc (k' @ FR z c v l # k) n = okc (k' @ FR y c w l # k) n"
  proof (induction k' arbitrary: n)
    case (Cons f k')
    then show ?case using c [of k'] by (cases f) simp_all
  qed simp
qed

lemma lspine_lnds: "lspine k \<Longrightarrow> lnds k = []"
  by (induction k rule: lnds.induct) simp_all

lemma ctx_nds_append: "lnds (k @ k') = lnds k' @ lnds k" "rnds (k @ k') = rnds k @ rnds k'"
proof -
  show "lnds (k @ k') = lnds k' @ lnds k" by (induction k rule: lnds.induct) simp_all
  show "rnds (k @ k') = rnds k @ rnds k'" by (induction k rule: rnds.induct) simp_all
qed

text \<open>Unlinking a black node leaves a place that is one black short, unlinking a red one a red-black
  tree.\<close>

lemma unlinked_nds:
  assumes "unlinked k c l r k' t oc"
  shows "nds (plug k' t) = lnds k @ nds l @ nds r @ rnds k"
  using assms by (auto simp: unlinked_def nds_plug ctx_nds_append lspine_lnds)

lemma unlinked_ok:
  assumes "rbt (plug k (Nd z c v l r))" and "unlinked k c l r k' t oc"
  shows "oc = RED \<Longrightarrow> rbt (plug k' t)" and "oc = BLACK \<Longrightarrow> ok (blacken t) \<and> okc k' (Suc (bh t))"
proof -
  have *: "ok (Nd z c v l r)" "okc k (bh (Nd z c v l r))" "ccol k = RED \<or> k = [] \<longrightarrow> c = BLACK"
    using assms(1) unfolding rbt_plug tcol.simps by blast+
  consider "l = Lf" "k' = k" "t = r" "oc = c" | "r = Lf" "k' = k" "t = l" "oc = c"
    | ky y w where "r = plug ky (Nd y oc w Lf t)" "lspine ky" "k' = ky @ FR y c w l # k"
    using assms(2) unfolding unlinked_def by blast
  then have "(oc = RED \<longrightarrow> rbt (plug k' t)) \<and> (oc = BLACK \<longrightarrow> ok (blacken t) \<and> okc k' (Suc (bh t)))"
  proof cases
    case 1
    then show ?thesis using * by (cases c) (auto simp: rbt_plug)
  next
    case 2
    then show ?thesis using * by (cases c) (auto simp: rbt_plug)
  next
    case 3
    have "rbt (plug (ky @ FR z c v l # k) (Nd y oc w Lf t))" using assms(1) 3 by (simp add: plug_append)
    then have "ok (Nd y oc w Lf t)" "okc k' (bh (Nd y oc w Lf t))" "ccol k' = RED \<or> k' = [] \<longrightarrow> oc = BLACK"
      unfolding rbt_plug 3(3) by (simp_all add: ctx_rename(1) [of ky z c v l k _ y w] ctx_rename(2) [of ky z c v l k y w])
    then show ?thesis by (cases oc) (auto simp: rbt_plug)
  qed
  then show "oc = RED \<Longrightarrow> rbt (plug k' t)" "oc = BLACK \<Longrightarrow> ok (blacken t) \<and> okc k' (Suc (bh t))" by blast+
qed

context ordered_tree
begin

lemma Erase_absent:
  assumes "rb_inv C s" and "\<forall>w \<in> snd ` set (contents s). \<not> equals C val w"
  shows "RB_Erase C s val = Inr (s, False)"
  using Find_entry(1) [OF assms(1), of val] absent_entry [OF assms(1), of "equals C val"] assms(2)
  by (simp add: RB_Erase_def RB_Find_def)

lemma Erase_present:
  assumes "rb_inv C s" and "contents s = es1 @ (a, w) # es2" and "equals C val w"
  shows "\<exists>s'. RB_Erase C s val = Inr (s', True) \<and> rb_inv C s' \<and> contents s' = es1 @ es2 \<and> stays s s'"
proof -
  from assms(1) obtain q T where R: "RB s q T" and T: "rbt T" "sorted_wrt (less_than C) (vals T)" "contents s = nds T" by (rule rb_invE)
  have sorted: "sorted_wrt (less_than C) (map snd (es1 @ (a, w) # es2))" using rb_inv_contents(1) [OF assms(1)] assms(2) by simp
  have an: "a \<noteq> nil s" using rb_inv_contents(5) [OF assms(1)] assms(2) by auto
  have "\<forall>u \<in> snd ` set es1. \<not> equals C val u"
  proof
    fix u assume "u \<in> snd ` set es1"
    then have "less_than C u w" using sorted by (auto simp: sorted_wrt_append)
    then show "\<not> equals C val u" using lt_eq_trans [OF _ eq_sym [OF assms(3)]] eq_iff by blast
  qed
  then have "entry (nil s) (equals C val) (contents s) = a" using assms(2,3) by (simp add: entry_append)
  then have find: "SearchTree (fuel_of s) C s (root s) val = Inr a" using Find_entry(1) [OF assms(1), of val] by (simp add: RB_Find_def)
  have "a \<in> set (addrs T)" using assms(2) T(3) by (simp add: addrs_nds)
  then obtain k c v l r where Tk: "T = plug k (Nd a c v l r)" by (rule place_of)
  have dn: "distinct (map fst (nds T))" using R by (simp add: RBx_def addrs_nds)
  have split: "nds T = (lnds k @ nds l) @ (a, v) # nds r @ rnds k" by (simp add: Tk nds_plug)
  have "nds T = es1 @ (a, w) # es2" using T(3) assms(2) by simp
  then have "(a, w) \<in> set (nds T)" by simp
  moreover have "(a, v) \<in> set (nds T)" unfolding split by simp
  ultimately have vw: "v = w" using dn eq_key_imp_eq_value by metis
  have d: "distinct (es1 @ (a, w) # es2)" using dn T(3) assms(2) distinct_map by metis
  have "es1 @ (a, w) # es2 = (lnds k @ nds l) @ (a, w) # nds r @ rnds k" using split T(3) assms(2) vw by simp
  from split_unique [OF d this] have es: "es1 = lnds k @ nds l" "es2 = nds r @ rnds k" by simp_all
  obtain s1 k1 t oc q1 where s1: "unlink s a = Inr (s1, addr (nil s) t, oc)" "unlinked k c l r k1 t oc" "RBx {a} s1 q1 (plug k1 t)"
      "t = Lf \<longrightarrow> q1 = par (nil s) k1" "stays s s1"
    using unlink_RB [OF R [unfolded Tk]] by blast
  obtain s2 where s2: "delete_node s1 a = Inr s2" "RB s2 q1 (plug k1 t)" "stays s1 s2" using delete_node_RB [OF s1(3)] by blast
  have nn: "nil s2 = nil s" using s1(5) s2(3) by (simp add: stays_def)
  have nds1: "nds (plug k1 t) = es1 @ es2" using unlinked_nds [OF s1(2)] es by simp
  have "\<exists>s3 T3. (if oc = BLACK then FixDelete (fuel_of s2) s2 (addr (nil s) t) else Inr s2) = Inr s3 \<and> RB s3 q1 T3 \<and> rbt T3 \<and>
      nds T3 = es1 @ es2 \<and> stays s2 s3"
  proof (cases oc)
    case RED
    have "rbt (plug k1 t)" by (rule unlinked_ok(1) [OF T(1) [unfolded Tk] s1(2) RED])
    then show ?thesis using RED s2(2) nds1 by (intro exI [of _ s2] exI [of _ "plug k1 t"]) simp
  next
    case BLACK
    have short: "ok (blacken t)" "okc k1 (Suc (bh t))" using unlinked_ok(2) [OF T(1) [unfolded Tk] s1(2) BLACK] by blast+
    have h: "height_left k1 t \<le> fuel_of s2"
      using RBx_fuel [OF s2(2)] length_ctx [of k1] by (simp add: addrs_plug fuel_of_def height_left_def)
    have q: "t = Lf \<longrightarrow> q1 = par (nil s2) k1" using s1(4) nn by simp
    from FixDelete_RB [OF s2(2) q short h] show ?thesis unfolding nn nds1 using BLACK by simp
  qed
  then obtain s3 T3 where s3: "(if oc = BLACK then FixDelete (fuel_of s2) s2 (addr (nil s) t) else Inr s2) = Inr s3" "RB s3 q1 T3" "rbt T3"
      "nds T3 = es1 @ es2" "stays s2 s3" by blast
  have "sorted_wrt (less_than C) (vals T3)" using sorted s3(4) by (simp add: vals_nds sorted_wrt_append)
  then have "rb_inv C s3" "contents s3 = es1 @ es2" using rb_invI [OF s3(2,3)] contents_RB [OF s3(2)] s3(4) by simp_all
  moreover have "RB_Erase C s val = Inr (s3, True)"
    using find an s1(1) s2(1) s3(1) by (simp add: RB_Erase_def)
  moreover have "stays s s3" using s1(5) s2(3) s3(5) by (simp add: stays_def)
  ultimately show ?thesis by blast
qed

end

section \<open>How deep a search goes\<close>

lemma ht_bh: "ok t \<Longrightarrow> ht t \<le> 2 * bh t + (if tcol t = RED then 1 else 0)"
proof (induction t)
  case (Nd a c v l r)
  then show ?case by (cases c; cases "tcol l"; cases "tcol r") auto
qed simp

lemma bh_length: "ok t \<Longrightarrow> 2 ^ bh t \<le> length (addrs t) + 1"
  by (induction t) auto

lemma ht_bound:
  assumes "rbt t" and "(length (addrs t) + 1)\<^sup>2 \<le> 2 ^ n"
  shows "ht t \<le> n"
proof -
  have "(2 :: nat) ^ (2 * bh t) = (2 ^ bh t)\<^sup>2" by (simp add: power_even_eq)
  also have "\<dots> \<le> (length (addrs t) + 1)\<^sup>2" using assms(1) bh_length [of t] by (intro power_mono) (auto simp: rbt_def)
  also have "\<dots> \<le> 2 ^ n" by (rule assms(2))
  finally have "2 * bh t \<le> n" by (rule power_le_imp_le_exp [rotated]) simp
  then show ?thesis using ht_bh [of t] assms(1) by (simp add: rbt_def)
qed

context ordered_tree
begin

lemma search_depth:
  assumes "rb_inv C s" and "(length (contents s) + 1)\<^sup>2 \<le> 2 ^ n"
  shows "SearchTree n C s (root s) val = RB_Find C s val"
proof -
  from assms(1) obtain q T where R: "RB s q T" and T: "rbt T" "sorted_wrt (less_than C) (vals T)" "contents s = nds T" by (rule rb_invE)
  have "ht T \<le> n" by (rule ht_bound) (use assms(2) T in \<open>auto simp: addrs_nds\<close>)
  then show ?thesis using SearchTree_entry [of s "nil s" T n val] Find_entry(1) [OF assms(1), of val] R T by (simp add: RBx_def)
qed

section \<open>Clearing and copying\<close>

lemma Clear_inv:
  assumes "rb_inv C s"
  shows "\<exists>s'. RB_Clear s = Inr s' \<and> rb_inv C s' \<and> contents s' = [] \<and> stays s s'"
proof -
  from assms obtain q T where R: "RB s q T" by (rule rb_invE)
  obtain s' where s': "RB_Clear s = Inr s'" "RB s' q Lf" "stays s s'" using RB_Clear_RB(1) [OF R] by blast
  have "rb_inv C s'" by (rule rb_invI [OF s'(2)]) (simp_all add: rbt_def)
  then show ?thesis using s' contents_RB [OF s'(2)] by simp
qed

lemma FindOrInsert_outcome:
  assumes "rb_inv C s"
  shows "outcome (\<lambda>(s', a, b). rb_inv C s' \<and> nil s' = nil s \<and> b = (\<forall>w \<in> snd ` set (contents s). \<not> equals C val w) \<and>
      (\<exists>w. (a, w) \<in> set (contents s') \<and> equals C val w) \<and>
      (if b then \<exists>es1 es2. contents s = es1 @ es2 \<and> contents s' = es1 @ (a, val) # es2 \<and> a \<notin> fst ` set (contents s) \<and> a \<noteq> nil s
       else s' = s)) (FindOrInsert C s val)"
proof (cases "\<forall>w \<in> snd ` set (contents s). \<not> equals C val w")
  case True
  show ?thesis
  proof (cases "next_addr s < MEM_MAX")
    case room: True
    obtain s' es1 es2 where s': "FindOrInsert C s val = Inr (s', next_addr s, True)" "rb_inv C s'" "contents s = es1 @ es2"
        "contents s' = es1 @ (next_addr s, val) # es2" "nil s' = nil s" using FindOrInsert_new [OF assms True room] by blast
    have "distinct (map fst (contents s'))" "nil s' \<notin> fst ` set (contents s')" using rb_inv_contents(2,5) [OF s'(2)] by blast+
    then have "next_addr s \<notin> fst ` set (contents s)" "next_addr s \<noteq> nil s" using s' by auto
    moreover have "(next_addr s, val) \<in> set (contents s')" using s'(4) by simp
    moreover have "equals C val val" by (rule eq_refl)
    ultimately have "(\<exists>w. (next_addr s, w) \<in> set (contents s') \<and> equals C val w) \<and>
       (\<exists>es1 es2. contents s = es1 @ es2 \<and> contents s' = es1 @ (next_addr s, val) # es2 \<and> next_addr s \<notin> fst ` set (contents s) \<and> next_addr s \<noteq> nil s)"
      using s'(3,4) by blast
    then show ?thesis using s'(1,2,5) True by simp
  next
    case False
    then show ?thesis using FindOrInsert_full [OF assms True] by simp
  qed
next
  case False
  then have n: "entry (nil s) (equals C val) (contents s) \<noteq> nil s" using absent_entry [OF assms] by blast
  have "\<exists>w. (entry (nil s) (equals C val) (contents s), w) \<in> set (contents s) \<and> equals C val w"
    by (cases rule: entry_cases [of "nil s" "equals C val" "contents s"]) (use n in auto)
  then show ?thesis using FindOrInsert_found [OF assms n] False assms by simp
qed

lemma sorted_unique:
  "sorted_wrt (less_than C) xs \<Longrightarrow> sorted_wrt (less_than C) ys \<Longrightarrow> set xs = set ys \<Longrightarrow> xs = ys"
proof (induction xs arbitrary: ys)
  case (Cons x xs)
  then obtain y zs where ys: "ys = y # zs" by (cases ys) auto
  have "x = y"
  proof (rule ccontr)
    assume "x \<noteq> y"
    then have "x \<in> set zs" "y \<in> set xs" using Cons.prems(3) ys by auto
    then show False using Cons.prems ys asym by auto
  qed
  moreover have "x \<notin> set xs" "y \<notin> set zs" using Cons.prems ys irrefl by auto
  ultimately have "set xs = set zs" using Cons.prems(3) ys by auto
  then show ?case using Cons.IH [of zs] Cons.prems ys \<open>x = y\<close> by auto
qed simp

lemma CopySubtree_outcome:
  assumes "rept (nodes o') (nil o') p t" and "nil o' \<notin> set (addrs t)" and "sorted_wrt (less_than C) (vals t)" and "ht t \<le> n"
    and "rb_inv C s" and "\<forall>v \<in> set (vals t). \<forall>w \<in> snd ` set (contents s). \<not> equals C v w"
  shows "outcome (\<lambda>s'. rb_inv C s' \<and> snd ` set (contents s') = snd ` set (contents s) \<union> set (vals t))
     (CopySubtree n C s o' (addr (nil o') t))"
  using assms
proof (induction t arbitrary: s p n)
  case Lf
  then show ?case by (simp add: CopySubtree.simps [of n])
next
  case (Nd a c v l r)
  have at: "nodes o' a = Some (mk v c (addr (nil o') l) (addr (nil o') r) p)" and an: "a \<noteq> nil o'" using Nd.prems by auto
  obtain m where n: "n = Suc m" "ht l \<le> m" "ht r \<le> m" using Nd.prems(4) by (cases n) auto
  have lo: "\<forall>w \<in> set (vals l). less_than C w v" and hi: "\<forall>w \<in> set (vals r). less_than C v w"
    and mid: "\<forall>w \<in> set (vals l). \<forall>u \<in> set (vals r). less_than C w u"
    using Nd.prems(3) by (auto simp: sorted_wrt_append)
  have run: "CopySubtree n C s o' a = bindE (FindOrInsert C s v) (\<lambda>(t, _, _).
      bindE (CopySubtree m C t o' (addr (nil o') l)) (\<lambda>t. CopySubtree m C t o' (addr (nil o') r)))"
    using an by (simp add: n(1) CopySubtree.simps [of "Suc m"] reads_some [OF at])
  show ?case unfolding addr.simps run
  proof (rule outcome_bindE [OF FindOrInsert_outcome [OF Nd.prems(5), of v]])
    fix x assume "case x of (s', a, b) \<Rightarrow> rb_inv C s' \<and> nil s' = nil s \<and> b = (\<forall>w \<in> snd ` set (contents s). \<not> equals C v w) \<and>
      (\<exists>w. (a, w) \<in> set (contents s') \<and> equals C v w) \<and>
      (if b then \<exists>es1 es2. contents s = es1 @ es2 \<and> contents s' = es1 @ (a, v) # es2 \<and> a \<notin> fst ` set (contents s) \<and> a \<noteq> nil s
       else s' = s)"
    moreover obtain s1 a' b where x: "x = (s1, a', b)" by (cases x)
    moreover have "\<forall>w \<in> snd ` set (contents s). \<not> equals C v w" using Nd.prems(6) by simp
    ultimately obtain es1 es2 where "rb_inv C s1" "contents s = es1 @ es2" "contents s1 = es1 @ (a', v) # es2" by auto
    then have i1: "rb_inv C s1" and c1: "snd ` set (contents s1) = insert v (snd ` set (contents s))" by auto
    have "\<forall>u \<in> set (vals l). \<forall>w \<in> snd ` set (contents s1). \<not> equals C u w"
      using c1 Nd.prems(6) lo eq_iff by auto
    then have L: "outcome (\<lambda>s'. rb_inv C s' \<and> snd ` set (contents s') = snd ` set (contents s1) \<union> set (vals l))
        (CopySubtree m C s1 o' (addr (nil o') l))"
      using Nd.IH(1) [of a m s1] Nd.prems n(2) i1 by (simp add: sorted_wrt_append)
    have "outcome (\<lambda>s'. rb_inv C s' \<and> snd ` set (contents s') = snd ` set (contents s) \<union> set (vals (Nd a c v l r)))
        (bindE (CopySubtree m C s1 o' (addr (nil o') l)) (\<lambda>t. CopySubtree m C t o' (addr (nil o') r)))"
    proof (rule outcome_bindE [OF L])
      fix s2 assume s2: "rb_inv C s2 \<and> snd ` set (contents s2) = snd ` set (contents s1) \<union> set (vals l)"
      have "\<forall>u \<in> set (vals r). \<forall>w \<in> snd ` set (contents s2). \<not> equals C u w"
        using s2 c1 Nd.prems(6) hi mid eq_iff by auto
      then have "outcome (\<lambda>s'. rb_inv C s' \<and> snd ` set (contents s') = snd ` set (contents s2) \<union> set (vals r))
          (CopySubtree m C s2 o' (addr (nil o') r))"
        using Nd.IH(2) [of a m s2] Nd.prems n(3) s2 by (simp add: sorted_wrt_append)
      then show "outcome (\<lambda>s'. rb_inv C s' \<and> snd ` set (contents s') = snd ` set (contents s) \<union> set (vals (Nd a c v l r)))
          (CopySubtree m C s2 o' (addr (nil o') r))"
        using s2 c1 by (simp add: Un_assoc Un_left_commute insert_commute)
    qed
    then show "outcome (\<lambda>s'. rb_inv C s' \<and> snd ` set (contents s') = snd ` set (contents s) \<union> set (vals (Nd a c v l r)))
        (case x of (t, _, _) \<Rightarrow> bindE (CopySubtree m C t o' (addr (nil o') l)) (\<lambda>t. CopySubtree m C t o' (addr (nil o') r)))"
      by (simp add: x)
  qed
qed

lemma CopyFrom_outcome:
  assumes "rb_inv C s" and "contents s = []" and "rb_inv C o'"
  shows "outcome (\<lambda>s'. rb_inv C s' \<and> map snd (contents s') = map snd (contents o')) (RB_CopyFrom C s o')"
proof -
  from assms(3) obtain q T where R: "RB o' q T" and T: "rbt T" "sorted_wrt (less_than C) (vals T)" "contents o' = nds T" by (rule rb_invE)
  have f: "ht T \<le> fuel_of o'" using RBx_fuel [OF R] ht_length [of T] by (simp add: fuel_of_def)
  have "outcome (\<lambda>s'. rb_inv C s' \<and> snd ` set (contents s') = set (vals T)) (RB_CopyFrom C s o')"
    using CopySubtree_outcome [of o' "nil o'" T "fuel_of o'" s] R T(2) f assms(1,2) by (simp add: RB_CopyFrom_def RBx_def)
  then show ?thesis
  proof (cases "RB_CopyFrom C s o'")
    case (Inr s')
    then have s': "rb_inv C s'" "set (map snd (contents s')) = set (vals T)" using \<open>outcome _ _\<close> by simp_all
    then have "map snd (contents s') = vals T" using sorted_unique rb_inv_contents(1) T(2) by blast
    then show ?thesis using Inr s' T(3) by (simp add: vals_nds)
  qed simp
qed

end

end
