(* ===== verification/RB_Reach.thy ===== *)
theory RB_Reach
  imports RB_Operations
begin

text \<open>
  The states a red-black tree can reach by its public operations, and what holds in all of them.
\<close>

section \<open>Walking\<close>

definition first_addr :: "nat \<Rightarrow> (nat \<times> 'a) list \<Rightarrow> nat" where
  "first_addr d es = (case es of [] \<Rightarrow> d | e # _ \<Rightarrow> fst e)"

lemma first_addr_simps [simp]: "first_addr d [] = d" "first_addr d ((a, v) # es) = a"
  by (simp_all add: first_addr_def)

definition First :: "'a rbtree \<Rightarrow> nat res" where
  "First t = (if RB_empty t then Inr (nil t) else Minimum (fuel_of t) t (root t))"

lemma First_contents:
  assumes "rb_inv C s"
  shows "First s = Inr (first_addr (nil s) (contents s))"
proof -
  from assms obtain q T where R: "RB s q T" and T: "contents s = nds T" by (rule rb_invE)
  have parts: "root s = addr (nil s) T" "rept (nodes s) (nil s) (nil s) T" "nil s \<notin> set (addrs T)" using R by (simp_all add: RBx_def)
  have f: "length (addrs T) \<le> fuel_of s" using RBx_fuel [OF R] by (simp add: fuel_of_def)
  have hd: "hd (map fst (nds T)) = first_addr d (nds T)" if "nds T \<noteq> []" for d
    using that by (cases "nds T") (auto simp: first_addr_def)
  show ?thesis
  proof (cases "T = Lf")
    case False
    then have "nds T \<noteq> []" by (cases T) auto
    then show ?thesis using Minimum_hd [OF parts(2) False parts(3) f] parts False hd T
      by (simp add: First_def RB_empty_def addrs_nds)
  qed (use parts T in \<open>simp add: First_def RB_empty_def\<close>)
qed

lemma neighbours:
  assumes "rb_inv C s" and "contents s = es1 @ (a, v) # es2"
  shows "Successor s a = Inr (first_addr (nil s) es2)"
    and "Predecessor s a = Inr (if es1 = [] then nil s else fst (last es1))"
    and "node_value s a = Inr v"
proof -
  from assms(1) obtain q T where R: "RB s q T" and T: "contents s = nds T" by (rule rb_invE)
  have es: "nds T = es1 @ (a, v) # es2" using T assms(2) by simp
  then have as: "addrs T = map fst es1 @ a # map fst es2" by (simp add: addrs_nds)
  show "Successor s a = Inr (first_addr (nil s) es2)"
    using Successor_next [OF R as] by (cases es2) (auto simp: first_addr_def)
  show "Predecessor s a = Inr (if es1 = [] then nil s else fst (last es1))"
    using Predecessor_prev [OF R as] by (simp add: last_map)
  have "a \<in> set (addrs T)" using as by simp
  then obtain k c w l r where Tk: "T = plug k (Nd a c w l r)" by (rule place_of)
  have "node_value s a = Inr w" by (rule at_node(5) [OF R [unfolded Tk]])
  moreover have "(a, w) \<in> set (nds T)" by (simp add: Tk nds_plug)
  moreover have "(a, v) \<in> set (nds T)" unfolding es by simp
  moreover have "distinct (map fst (nds T))" using R by (simp add: RBx_def addrs_nds)
  ultimately show "node_value s a = Inr v" using eq_key_imp_eq_value by metis
qed

lemma Predecessor_of_end:
  assumes "rb_inv C s"
  shows "Predecessor s (nil s) = Inr (if contents s = [] then nil s else fst (last (contents s)))"
proof -
  from assms obtain q T where R: "RB s q T" and T: "contents s = nds T" by (rule rb_invE)
  have "nds T = [] \<longleftrightarrow> T = Lf" by (cases T) auto
  then show ?thesis using Predecessor_end [OF R] T by (simp add: addrs_nds last_map)
qed

section \<open>Reachable trees\<close>

text \<open>Every tree a program can have: the public operations in any order, on trees with one comparator.\<close>

inductive tree_reach :: "'a comparator \<Rightarrow> 'a rbtree \<Rightarrow> bool" for C where
  reach_new: "tree_reach C RB_new"
| reach_insert: "tree_reach C s \<Longrightarrow> FindOrInsert C s v = Inr (s', a, b) \<Longrightarrow> tree_reach C s'"
| reach_erase: "tree_reach C s \<Longrightarrow> RB_Erase C s v = Inr (s', b) \<Longrightarrow> tree_reach C s'"
| reach_clear: "tree_reach C s \<Longrightarrow> RB_Clear s = Inr s' \<Longrightarrow> tree_reach C s'"
| reach_copy: "tree_reach C t \<Longrightarrow> RB_copy C t = Inr s' \<Longrightarrow> tree_reach C s'"
| reach_assign: "tree_reach C s \<Longrightarrow> tree_reach C t \<Longrightarrow> RB_copy_assign C s (Some t) = Inr s' \<Longrightarrow> tree_reach C s'"
| reach_move: "tree_reach C t \<Longrightarrow> RB_move t = (s', t') \<Longrightarrow> tree_reach C s'"
| reach_moved: "tree_reach C t \<Longrightarrow> RB_move t = (s', t') \<Longrightarrow> tree_reach C t'"
| reach_move_assign: "tree_reach C s \<Longrightarrow> tree_reach C t \<Longrightarrow> RB_move_assign s (Some t) = Inr (s', t') \<Longrightarrow> tree_reach C s'"
| reach_move_assigned: "tree_reach C s \<Longrightarrow> tree_reach C t \<Longrightarrow> RB_move_assign s (Some t) = Inr (s', Some t') \<Longrightarrow> tree_reach C t'"

context ordered_tree
begin

lemma Erase_inv:
  assumes "rb_inv C s"
  shows "\<exists>s' b. RB_Erase C s val = Inr (s', b) \<and> rb_inv C s' \<and> nil s' = nil s \<and> next_addr s' = next_addr s \<and>
     (if b then \<exists>es1 a w es2. contents s = es1 @ (a, w) # es2 \<and> equals C val w \<and> contents s' = es1 @ es2
      else s' = s \<and> (\<forall>w \<in> snd ` set (contents s). \<not> equals C val w))"
proof (cases "\<forall>w \<in> snd ` set (contents s). \<not> equals C val w")
  case True
  then show ?thesis using Erase_absent [OF assms True] assms by (intro exI [of _ s] exI [of _ False]) simp
next
  case False
  then obtain es1 a w es2 where es: "contents s = es1 @ (a, w) # es2" "equals C val w"
    by (auto simp: in_set_conv_decomp)
  obtain s' where "RB_Erase C s val = Inr (s', True)" "rb_inv C s'" "contents s' = es1 @ es2" "stays s s'"
    using Erase_present [OF assms es] by blast
  then show ?thesis using es by (intro exI [of _ s'] exI [of _ True]) (auto simp: stays_def)
qed

lemma copy_assign_outcome:
  assumes "rb_inv C s" and "rb_inv C t"
  shows "outcome (\<lambda>s'. rb_inv C s' \<and> map snd (contents s') = map snd (contents t)) (RB_copy_assign C s (Some t))"
    and "outcome (\<lambda>s'. rb_inv C s' \<and> map snd (contents s') = map snd (contents t)) (RB_copy C t)"
proof -
  obtain s1 where "RB_Clear s = Inr s1" "rb_inv C s1" "contents s1 = []" using Clear_inv [OF assms(1)] by blast
  then show "outcome (\<lambda>s'. rb_inv C s' \<and> map snd (contents s') = map snd (contents t)) (RB_copy_assign C s (Some t))"
    using CopyFrom_outcome [of s1 t] assms(2) by (simp add: RB_copy_assign_def)
  show "outcome (\<lambda>s'. rb_inv C s' \<and> map snd (contents s') = map snd (contents t)) (RB_copy C t)"
    using CopyFrom_outcome [of RB_new t] assms(2) by (simp add: RB_copy_def)
qed

lemma reach_inv: "tree_reach C s \<Longrightarrow> rb_inv C s"
proof (induction rule: tree_reach.induct)
  case (reach_insert s v s' a b)
  then show ?case using FindOrInsert_outcome [of s v] by simp
next
  case (reach_erase s v s' b)
  then show ?case using Erase_inv [of s v] by auto
next
  case (reach_clear s s')
  then show ?case using Clear_inv [of s] by auto
next
  case (reach_copy t s')
  then show ?case using copy_assign_outcome(2) [of t t] by simp
next
  case (reach_assign s t s')
  then show ?case using copy_assign_outcome(1) [of s t] by simp
next
  case (reach_move t s' t')
  then show ?case by (simp add: RB_move_def RB_Swap_def)
next
  case (reach_moved t s' t')
  then show ?case using RB_new_inv by (auto simp: RB_move_def RB_Swap_def)
next
  case (reach_move_assign s t s' t')
  then show ?case using Clear_inv [of s] by (auto simp: RB_move_assign_def RB_Swap_def)
next
  case (reach_move_assigned s t s' t')
  then show ?case using Clear_inv [of s] by (auto simp: RB_move_assign_def RB_Swap_def)
qed simp

end

section \<open>The comparators\<close>

interpretation set_order: ordered_tree "RBComparator :: 'a::linorder comparator"
  by unfold_locales (auto simp: RBComparator_def)

lemma comparator_simps [simp]:
  "less_than RBComparator x y \<longleftrightarrow> x < y" "equals RBComparator x y \<longleftrightarrow> x = y"
  by (simp_all add: RBComparator_def)

text \<open>A tree with one element, for the instances below.\<close>

lemma reach_five: "\<exists>s. tree_reach RBComparator s \<and> contents s = [(2, 5 :: nat)]"
proof -
  have "\<forall>w \<in> snd ` set (contents RB_new). \<not> equals RBComparator (5 :: nat) w" by simp
  moreover have "next_addr (RB_new :: nat rbtree) < MEM_MAX" by (simp add: RB_new_def MEM_MAX_def)
  ultimately obtain s :: "nat rbtree" and es1 es2 where
      s: "FindOrInsert RBComparator RB_new 5 = Inr (s, next_addr (RB_new :: nat rbtree), True)"
      "[] = es1 @ es2" "contents s = es1 @ (next_addr (RB_new :: nat rbtree), 5) # es2"
    using set_order.FindOrInsert_new [of RB_new 5] by auto
  have "tree_reach RBComparator s" by (rule reach_insert [OF reach_new s(1)])
  moreover have "contents s = [(2, 5)]" using s(2,3) by (simp add: RB_new_def)
  ultimately show ?thesis by blast
qed

section \<open>Properties\<close>

text \<open>
  (C2) Whatever sequence of public operations a tree went through, its pointers form a binary
  tree that is in the order of the comparator, whose root is black, in which no red node has a
  red child and all paths have the same number of black nodes; the heap holds the sentinel
  and the nodes of the tree and no other node; and the destructor frees all of it.
\<close>

theorem rb_tree_invariant:
  assumes "ordered_tree C" and "tree_reach C s"
  shows "\<exists>q T. RB s q T \<and> contents s = nds T \<and> sorted_wrt (less_than C) (vals T) \<and> ok T \<and> tcol T = BLACK \<and>
      dom (nodes s) = insert (nil s) (fst ` set (contents s)) \<and> (\<exists>s'. RB_destroy s = Inr s' \<and> nodes s' = (\<lambda>a. None))"
proof -
  have i: "rb_inv C s" by (rule ordered_tree.reach_inv [OF assms])
  then obtain q T where R: "RB s q T" and T: "rbt T" "sorted_wrt (less_than C) (vals T)" "contents s = nds T" by (rule rb_invE)
  then show ?thesis using rb_inv_contents(6) [OF i] RB_Clear_RB(2) [OF R] unfolding rbt_def by blast
qed

theorem rb_tree_invariant_witness:
  "\<exists>s :: nat rbtree. contents s = [(2, 5)] \<and> (\<exists>q T. RB s q T \<and> contents s = nds T \<and> ok T \<and> tcol T = BLACK \<and>
      dom (nodes s) = insert (nil s) (fst ` set (contents s)))"
proof -
  obtain s :: "nat rbtree" where s: "tree_reach RBComparator s" "contents s = [(2, 5)]" using reach_five by blast
  show ?thesis using rb_tree_invariant [OF set_order.ordered_tree_axioms s(1)] s(2) by blast
qed

text \<open>
  (C34) The recursion of \<open>SearchTree\<close> on a tree with \<open>m\<close> elements is at most \<open>2 log\<^sub>2 (m + 1)\<close>
  deep, so balancing does what it is for: with so much fuel a search ends and its answer is the
  one of \<open>Find\<close>.
\<close>

theorem rb_search_depth:
  assumes "ordered_tree C" and "tree_reach C s" and "(length (contents s) + 1)\<^sup>2 \<le> 2 ^ n"
  shows "\<exists>p. SearchTree n C s (root s) val = Inr p \<and> RB_Find C s val = Inr p"
proof -
  have i: "rb_inv C s" by (rule ordered_tree.reach_inv [OF assms(1,2)])
  then show ?thesis
    using ordered_tree.search_depth [OF assms(1) i assms(3)] ordered_tree.Find_entry(1) [OF assms(1) i] by simp
qed

theorem rb_search_depth_witness:
  "\<exists>s :: nat rbtree. contents s = [(2, 5)] \<and> (\<exists>p. SearchTree 2 RBComparator s (root s) 7 = Inr p)"
proof -
  obtain s :: "nat rbtree" where s: "tree_reach RBComparator s" "contents s = [(2, 5)]" using reach_five by blast
  have "(length (contents s) + 1)\<^sup>2 \<le> 2 ^ 2" using s(2) by (simp add: power2_eq_square)
  then show ?thesis using rb_search_depth [OF set_order.ordered_tree_axioms s(1)] s(2) by blast
qed

text \<open>
  (C21) An insertion puts one node, at a new address, into the sequence of nodes and an erasure
  takes one out; no other node moves and no value is copied between nodes, so pointers to them
  stay valid. An insertion of a value that is there returns its node and changes nothing.
\<close>

theorem rb_nodes_stable:
  assumes "ordered_tree C" and "tree_reach C s"
  shows "outcome (\<lambda>(s', a, b).
      if b then \<exists>es1 es2. contents s = es1 @ es2 \<and> contents s' = es1 @ (a, v) # es2 \<and> a \<notin> fst ` set (contents s)
      else s' = s \<and> (\<exists>w. (a, w) \<in> set (contents s) \<and> equals C v w)) (FindOrInsert C s v) \<and>
    (\<exists>s' b. RB_Erase C s v = Inr (s', b) \<and>
      (if b then \<exists>es1 a w es2. contents s = es1 @ (a, w) # es2 \<and> equals C v w \<and> contents s' = es1 @ es2
       else s' = s \<and> (\<forall>w \<in> snd ` set (contents s). \<not> equals C v w)))"
proof
  have i: "rb_inv C s" by (rule ordered_tree.reach_inv [OF assms])
  show "outcome (\<lambda>(s', a, b).
      if b then \<exists>es1 es2. contents s = es1 @ es2 \<and> contents s' = es1 @ (a, v) # es2 \<and> a \<notin> fst ` set (contents s)
      else s' = s \<and> (\<exists>w. (a, w) \<in> set (contents s) \<and> equals C v w)) (FindOrInsert C s v)"
  proof (rule outcome_mono [OF ordered_tree.FindOrInsert_outcome [OF assms(1) i, of v]], goal_cases)
    case (1 x)
    obtain s' a b where x: "x = (s', a, b)" by (cases x)
    show ?case using 1 unfolding x prod.case by (cases b) (simp_all, blast+)
  qed
  show "\<exists>s' b. RB_Erase C s v = Inr (s', b) \<and>
      (if b then \<exists>es1 a w es2. contents s = es1 @ (a, w) # es2 \<and> equals C v w \<and> contents s' = es1 @ es2
       else s' = s \<and> (\<forall>w \<in> snd ` set (contents s). \<not> equals C v w))"
    using ordered_tree.Erase_inv [OF assms(1) i, of v] by blast
qed

theorem rb_nodes_stable_witness:
  "\<exists>(s :: nat rbtree) s'. contents s = [(2, 5)] \<and> RB_Erase RBComparator s 5 = Inr (s', True) \<and> contents s' = []"
proof -
  obtain s :: "nat rbtree" where s: "tree_reach RBComparator s" "contents s = [(2, 5)]" using reach_five by blast
  obtain s' b where r: "RB_Erase RBComparator s 5 = Inr (s', b)"
      "if b then \<exists>es1 a w es2. contents s = es1 @ (a, w) # es2 \<and> equals RBComparator 5 w \<and> contents s' = es1 @ es2
       else s' = s \<and> (\<forall>w \<in> snd ` set (contents s). \<not> equals RBComparator 5 w)"
    using rb_nodes_stable [OF set_order.ordered_tree_axioms s(1), of 5] by blast
  then have "b" using s(2) by (cases b) auto
  then obtain es1 a w es2 where "[(2, 5)] = es1 @ (a, w) # es2" "contents s' = es1 @ es2" using r(2) s(2) by auto
  then have "contents s' = []" by (cases es1) auto
  then show ?thesis using s(2) r(1) \<open>b\<close> by (intro exI [of _ s] exI [of _ s']) simp
qed

text \<open>
  \<open>Find\<close>, \<open>LowerBound\<close> and \<open>UpperBound\<close> return the first node in order whose value is equal
  to, not less than, or greater than the argument, the sentinel when there is none; and
  \<open>Successor\<close> and \<open>Predecessor\<close> step through the nodes in order, \<open>Predecessor\<close> from the
  sentinel to the last node.
\<close>

theorem rb_searches:
  assumes "ordered_tree C" and "tree_reach C s"
  shows "RB_Find C s v = Inr (entry (nil s) (equals C v) (contents s)) \<and>
    RB_LowerBound C s v = Inr (entry (nil s) (\<lambda>w. \<not> less_than C w v) (contents s)) \<and>
    RB_UpperBound C s v = Inr (entry (nil s) (less_than C v) (contents s)) \<and>
    (\<forall>es1 a w es2. contents s = es1 @ (a, w) # es2 \<longrightarrow> Successor s a = Inr (first_addr (nil s) es2) \<and>
       Predecessor s a = Inr (if es1 = [] then nil s else fst (last es1)) \<and> node_value s a = Inr w) \<and>
    Predecessor s (nil s) = Inr (if contents s = [] then nil s else fst (last (contents s)))"
proof -
  have i: "rb_inv C s" by (rule ordered_tree.reach_inv [OF assms])
  show ?thesis using ordered_tree.Find_entry [OF assms(1) i] neighbours [OF i] Predecessor_of_end [OF i] by auto
qed

theorem rb_searches_witness:
  "\<exists>s :: nat rbtree. contents s = [(2, 5)] \<and> RB_Find RBComparator s 5 = Inr 2 \<and> RB_LowerBound RBComparator s 3 = Inr 2 \<and>
     Successor s 2 = Inr (nil s) \<and> Predecessor s (nil s) = Inr 2"
proof -
  obtain s :: "nat rbtree" where s: "tree_reach RBComparator s" "contents s = [(2, 5)]" using reach_five by blast
  have "contents s = [] @ (2, 5) # []" using s(2) by simp
  then have "Successor s 2 = Inr (nil s)" "Predecessor s (nil s) = Inr 2"
    using rb_searches [OF set_order.ordered_tree_axioms s(1)] s(2) by fastforce+
  then show ?thesis using rb_searches [OF set_order.ordered_tree_axioms s(1), of 5]
      rb_searches [OF set_order.ordered_tree_axioms s(1), of 3] s(2)
    by (intro exI [of _ s]) simp
qed


end
