(* ===== verification/Ordered_Set.thy ===== *)
theory Ordered_Set
  imports RB_Reach Map_Spec
begin

text \<open>
  \<open>base::Set\<close> (\<open>containers/set.h\<close>): an ordered set over the red-black tree, with iterators in
  both directions. An iterator is the address of its node; its tree is the set's.
\<close>

section \<open>Set\<close>

text \<open>An iterator is the address of its node together with the tree it belongs to.\<close>

record 'a oset =
  stree :: "'a rbtree"
  ssize :: nat

definition Set_init :: "'a oset" where
  "Set_init = \<lparr>stree = RB_new, ssize = 0\<rparr>"

definition Set_begin :: "'a oset \<Rightarrow> nat res" where
  "Set_begin m =
     (if RB_empty (stree m) then Inr (nil (stree m)) else Minimum (fuel_of (stree m)) (stree m) (root (stree m)))"

definition Set_end :: "'a oset \<Rightarrow> nat" where
  "Set_end m = nil (stree m)"

definition Set_empty :: "'a oset \<Rightarrow> bool" where
  "Set_empty m = (ssize m = 0)"

definition Set_deref :: "'a oset \<Rightarrow> nat \<Rightarrow> 'a res" where
  "Set_deref m it = node_value (stree m) it"

definition Set_next :: "'a oset \<Rightarrow> nat \<Rightarrow> nat res" where
  "Set_next m it = Successor (stree m) it"

definition Set_prev :: "'a oset \<Rightarrow> nat \<Rightarrow> nat res" where
  "Set_prev m it = Predecessor (stree m) it"

definition Set_insert :: "'a::linorder oset \<Rightarrow> 'a \<Rightarrow> ('a oset \<times> nat \<times> bool) res" where
  "Set_insert m v =
     bindE (FindOrInsert RBComparator (stree m) v) (\<lambda>(t, node, inserted).
     Inr (m\<lparr>stree := t, ssize := (ssize m + (if inserted then 1 else 0)) mod 2 ^ 64\<rparr>, node, inserted))"

definition Set_find :: "'a::linorder oset \<Rightarrow> 'a \<Rightarrow> nat res" where
  "Set_find m v = RB_Find RBComparator (stree m) v"

definition Set_contains :: "'a::linorder oset \<Rightarrow> 'a \<Rightarrow> bool res" where
  "Set_contains m v = RB_Contains RBComparator (stree m) v"

definition Set_count :: "'a::linorder oset \<Rightarrow> 'a \<Rightarrow> nat res" where
  "Set_count m v = bindE (Set_contains m v) (\<lambda>b. Inr (if b then 1 else 0))"

definition Set_lower_bound :: "'a::linorder oset \<Rightarrow> 'a \<Rightarrow> nat res" where
  "Set_lower_bound m v = RB_LowerBound RBComparator (stree m) v"

definition Set_upper_bound :: "'a::linorder oset \<Rightarrow> 'a \<Rightarrow> nat res" where
  "Set_upper_bound m v = RB_UpperBound RBComparator (stree m) v"

definition Set_erase :: "'a::linorder oset \<Rightarrow> 'a \<Rightarrow> ('a oset \<times> bool) res" where
  "Set_erase m v =
     bindE (RB_Erase RBComparator (stree m) v) (\<lambda>(t, found).
     if \<not> found then Inr (m\<lparr>stree := t\<rparr>, False)
     else Inr (m\<lparr>stree := t, ssize := (ssize m + (2 ^ 64 - 1)) mod 2 ^ 64\<rparr>, True))"

text \<open>\<open>Insert\<close>, \<open>Remove\<close>, \<open>Contains\<close> and \<open>Clear\<close> are other names; \<open>Insert\<close> drops the iterator.\<close>

definition Set_Insert :: "'a::linorder oset \<Rightarrow> 'a \<Rightarrow> ('a oset \<times> bool) res" where
  "Set_Insert m v = bindE (Set_insert m v) (\<lambda>(m, it, b). Inr (m, b))"

text \<open>\<open>erase(iterator)\<close> returns the iterator after the erased element.\<close>

definition Set_erase_at :: "'a::linorder oset \<Rightarrow> nat \<Rightarrow> ('a oset \<times> nat) res" where
  "Set_erase_at m it =
     bindE (Successor (stree m) it) (\<lambda>next.
     bindE (node_value (stree m) it) (\<lambda>v.
     bindE (RB_Erase RBComparator (stree m) v) (\<lambda>(t, found).
     Inr (m\<lparr>stree := t, ssize := (if found then (ssize m + (2 ^ 64 - 1)) mod 2 ^ 64 else ssize m)\<rparr>, next))))"

definition Set_clear :: "'a oset \<Rightarrow> 'a oset res" where
  "Set_clear m = bindE (RB_Clear (stree m)) (\<lambda>t. Inr (m\<lparr>stree := t, ssize := 0\<rparr>))"

definition Set_copy :: "'a::linorder oset \<Rightarrow> 'a oset res" where
  "Set_copy other = bindE (RB_copy RBComparator (stree other)) (\<lambda>t. Inr \<lparr>stree = t, ssize = ssize other\<rparr>)"

text \<open>In the assignments \<open>None\<close> is the set itself.\<close>

definition Set_assign :: "'a::linorder oset \<Rightarrow> 'a oset option \<Rightarrow> 'a oset res" where
  "Set_assign m other =
     (case other of None \<Rightarrow> Inr m
      | Some other \<Rightarrow>
          bindE (RB_copy_assign RBComparator (stree m) (Some (stree other))) (\<lambda>t. Inr \<lparr>stree = t, ssize = ssize other\<rparr>))"

definition Set_move :: "'a oset \<Rightarrow> 'a oset \<times> 'a oset" where
  "Set_move other =
     (case RB_move (stree other) of (t, t') \<Rightarrow> (\<lparr>stree = t, ssize = ssize other\<rparr>, other\<lparr>stree := t', ssize := 0\<rparr>))"

definition Set_move_assign :: "'a oset \<Rightarrow> 'a oset option \<Rightarrow> ('a oset \<times> 'a oset option) res" where
  "Set_move_assign m other =
     (case other of None \<Rightarrow> Inr (m, None)
      | Some other \<Rightarrow>
          bindE (RB_move_assign (stree m) (Some (stree other))) (\<lambda>(t, t').
          case t' of None \<Rightarrow> Inr (m, None)
          | Some t' \<Rightarrow> Inr (\<lparr>stree = t, ssize = ssize other\<rparr>, Some (other\<lparr>stree := t', ssize := 0\<rparr>))))"

fun Set_insert_all :: "'a::linorder oset \<Rightarrow> 'a list \<Rightarrow> 'a oset res" where
  "Set_insert_all m [] = Inr m"
| "Set_insert_all m (v # vs) = bindE (Set_insert m v) (\<lambda>(m, it, b). Set_insert_all m vs)"

definition Set_of_list :: "'a::linorder list \<Rightarrow> 'a oset res" where
  "Set_of_list vs = Set_insert_all Set_init vs"

section \<open>What a set holds\<close>

definition set_elems :: "'a oset \<Rightarrow> 'a list" where
  "set_elems m = map snd (contents (stree m))"

definition set_inv :: "'a::linorder oset \<Rightarrow> bool" where
  "set_inv m \<longleftrightarrow> rb_inv RBComparator (stree m) \<and> ssize m = length (contents (stree m))"

lemma set_inv_init [simp]: "set_inv Set_init" "set_elems Set_init = []"
  by (simp_all add: set_inv_def set_elems_def Set_init_def)

lemma set_inv_size: "set_inv m \<Longrightarrow> ssize m + 1 < 2 ^ 64"
  using rb_inv_contents(3,4) [of RBComparator "stree m"] by (simp add: set_inv_def MEM_MAX_def)

lemma RBComparator_less: "less_than RBComparator = (<)" "equals RBComparator = (=)"
  by (intro ext; simp)+

lemma set_elems_sorted:
  assumes "set_inv m"
  shows "sorted_wrt (<) (set_elems m)" "distinct (set_elems m)" "set_elems m = sorted_list_of_set (set (set_elems m))"
proof -
  show s: "sorted_wrt (<) (set_elems m)"
    using rb_inv_contents(1) [of RBComparator "stree m"] assms by (simp add: set_inv_def set_elems_def RBComparator_less)
  then show "distinct (set_elems m)" by (simp add: strict_sorted_iff)
  show "set_elems m = sorted_list_of_set (set (set_elems m))"
    using s by (simp add: sorted_list_of_set.idem_if_sorted_distinct strict_sorted_iff)
qed

lemma Set_insert_outcome:
  assumes "set_inv m"
  shows "outcome (\<lambda>(m', it, b). set_inv m' \<and> Set_end m' = Set_end m \<and> b = (v \<notin> set (set_elems m)) \<and>
      set (set_elems m') = insert v (set (set_elems m)) \<and> (it, v) \<in> set (contents (stree m'))) (Set_insert m v)"
  unfolding Set_insert_def
proof (rule outcome_bindE [OF set_order.FindOrInsert_outcome [of "stree m" v]], goal_cases)
  case 1
  show ?case using assms by (simp add: set_inv_def)
next
  case (2 x)
  obtain t it b where x: "x = (t, it, b)" by (cases x)
  have b: "b \<longleftrightarrow> v \<notin> set (set_elems m)" using 2(2) by (auto simp: x set_elems_def)
  have i: "rb_inv RBComparator t" "nil t = nil (stree m)" "(it, v) \<in> set (contents t)" using 2(2) by (auto simp: x)
  have "length (contents t) = length (contents (stree m)) + (if b then 1 else 0) \<and> snd ` set (contents t) = insert v (snd ` set (contents (stree m)))"
    using 2(2) b by (auto simp: x set_elems_def split: if_splits)
  moreover have "ssize m + 1 < 2 ^ 64" by (rule set_inv_size [OF assms])
  ultimately show ?case using i b assms by (simp add: x set_inv_def set_elems_def Set_end_def)
qed

lemma Set_erase_run:
  assumes "set_inv m"
  shows "\<exists>m'. Set_erase m v = Inr (m', v \<in> set (set_elems m)) \<and> set_inv m' \<and> set (set_elems m') = set (set_elems m) - {v}"
proof -
  have i: "rb_inv RBComparator (stree m)" "ssize m = length (contents (stree m))" using assms by (simp_all add: set_inv_def)
  obtain t b where t: "RB_Erase RBComparator (stree m) v = Inr (t, b)" "rb_inv RBComparator t"
    and b: "if b then \<exists>es1 a w es2. contents (stree m) = es1 @ (a, w) # es2 \<and> equals RBComparator v w \<and> contents t = es1 @ es2
      else t = stree m \<and> (\<forall>w \<in> snd ` set (contents (stree m)). \<not> equals RBComparator v w)"
    using set_order.Erase_inv [OF i(1), of v] by blast
  show ?thesis
  proof (cases b)
    case True
    then obtain es1 a es2 where es: "contents (stree m) = es1 @ (a, v) # es2" "contents t = es1 @ es2" using b by auto
    have "distinct (map snd (contents (stree m)))" using set_elems_sorted(2) [OF assms] by (simp add: set_elems_def)
    then have "snd ` set (es1 @ es2) = snd ` set (contents (stree m)) - {v}" unfolding es by auto
    moreover have "(ssize m + (2 ^ 64 - 1)) mod 2 ^ 64 = length (contents t)"
      using set_inv_size [OF assms] i(2) es wrap_pred [of "ssize m"] by simp
    moreover have "v \<in> set (set_elems m)" by (simp add: set_elems_def es(1))
    ultimately show ?thesis using t True es(2) by (simp add: Set_erase_def set_inv_def set_elems_def)
  next
    case False
    then have "t = stree m" "v \<notin> set (set_elems m)" using b by (auto simp: set_elems_def)
    then show ?thesis using t False assms by (simp add: Set_erase_def)
  qed
qed

lemma Set_contains_run:
  assumes "set_inv m"
  shows "Set_contains m v = Inr (v \<in> set (set_elems m))"
proof -
  have i: "rb_inv RBComparator (stree m)" using assms by (simp add: set_inv_def)
  have "entry (nil (stree m)) (equals RBComparator v) (contents (stree m)) \<noteq> nil (stree m) \<longleftrightarrow> v \<in> set (set_elems m)"
    using set_order.absent_entry [OF i, of "equals RBComparator v"] by (auto simp: set_elems_def)
  then show ?thesis using set_order.Find_entry(1) [OF i, of v] by (simp add: Set_contains_def RB_Contains_def RB_Find_def)
qed

interpretation oset: set_store set_inv "\<lambda>m. set (set_elems m)" Set_contains Set_Insert Set_erase ssize
proof
  fix m :: "'a oset" and v
  assume m: "set_inv m"
  show "Set_contains m v = Inr (v \<in> set (set_elems m))" by (rule Set_contains_run [OF m])
  show "outcome (\<lambda>(s', b). set_inv s' \<and> b = (v \<notin> set (set_elems m)) \<and> set (set_elems s') = insert v (set (set_elems m))) (Set_Insert m v)"
    unfolding Set_Insert_def by (rule outcome_bindE [OF Set_insert_outcome [OF m]]) auto
  show "\<exists>s'. Set_erase m v = Inr (s', v \<in> set (set_elems m)) \<and> set_inv s' \<and> set (set_elems s') = set (set_elems m) - {v}"
    by (rule Set_erase_run [OF m])
  show "finite (set (set_elems m)) \<and> ssize m = card (set (set_elems m))"
    using m distinct_card [OF set_elems_sorted(2) [OF m]] by (simp add: set_inv_def set_elems_def)
qed

text \<open>Walking over a set, as \<open>for\<close> does, and backwards from its end; at most \<open>n\<close> steps.\<close>

fun set_walk :: "nat \<Rightarrow> 'a oset \<Rightarrow> nat \<Rightarrow> 'a list res" where
  "set_walk n m it =
     (if it = Set_end m then Inr []
      else case n of 0 \<Rightarrow> Inl Diverges
      | Suc n \<Rightarrow> bindE (Set_deref m it) (\<lambda>v. bindE (Set_next m it) (\<lambda>it. bindE (set_walk n m it) (\<lambda>vs. Inr (v # vs)))))"

fun set_walk_back :: "nat \<Rightarrow> 'a oset \<Rightarrow> nat \<Rightarrow> 'a list res" where
  "set_walk_back n m it =
     (case n of 0 \<Rightarrow> Inr []
      | Suc n \<Rightarrow> bindE (Set_prev m it) (\<lambda>it. bindE (Set_deref m it) (\<lambda>v. bindE (set_walk_back n m it) (\<lambda>vs. Inr (v # vs)))))"

declare set_walk.simps [simp del] set_walk_back.simps [simp del]

lemma set_walk_contents:
  assumes "rb_inv C (stree m)" and "contents (stree m) = es1 @ es2" and "length es2 \<le> n"
  shows "set_walk n m (first_addr (Set_end m) es2) = Inr (map snd es2)"
  using assms
proof (induction es2 arbitrary: es1 n)
  case Nil
  then show ?case by (simp add: set_walk.simps [of n])
next
  case (Cons e es2)
  obtain a v where e: "e = (a, v)" by (cases e)
  obtain k where n: "n = Suc k" using Cons.prems(3) by (cases n) auto
  have c: "contents (stree m) = es1 @ (a, v) # es2" using Cons.prems(2) e by simp
  have "a \<noteq> nil (stree m)" using rb_inv_contents(5) [OF Cons.prems(1)] c by auto
  moreover have "set_walk k m (first_addr (Set_end m) es2) = Inr (map snd es2)"
    using Cons.IH [of "es1 @ [e]" k] Cons.prems n by simp
  ultimately show ?case using neighbours [OF Cons.prems(1) c]
    by (simp add: e n set_walk.simps [of "Suc k"] Set_end_def Set_deref_def Set_next_def)
qed

lemma set_walk_back_contents:
  assumes "rb_inv C (stree m)" and "contents (stree m) = es1 @ es2"
  shows "set_walk_back (length es1) m (first_addr (Set_end m) es2) = Inr (rev (map snd es1))"
  using assms
proof (induction es1 arbitrary: es2 rule: rev_induct)
  case Nil
  then show ?case by (simp add: set_walk_back.simps [of 0])
next
  case (snoc e es1)
  obtain a v where e: "e = (a, v)" by (cases e)
  have c: "contents (stree m) = es1 @ (a, v) # es2" using snoc.prems(2) e by simp
  have "Set_prev m (first_addr (Set_end m) es2) = Inr a"
  proof (cases es2)
    case Nil
    then show ?thesis using Predecessor_of_end [OF snoc.prems(1)] c by (simp add: Set_prev_def Set_end_def)
  next
    case (Cons e' es3)
    obtain b w where "e' = (b, w)" by (cases e')
    then show ?thesis using neighbours(2) [OF snoc.prems(1), of "es1 @ [(a, v)]" b w es3] c Cons by (simp add: Set_prev_def)
  qed
  moreover have "set_walk_back (length es1) m a = Inr (rev (map snd es1))"
    using snoc.IH [of "(a, v) # es2"] snoc.prems(1) c by simp
  ultimately show ?case using neighbours(3) [OF snoc.prems(1) c]
    by (simp add: e set_walk_back.simps [of "Suc (length es1)"] Set_deref_def)
qed

section \<open>Properties of the set\<close>

text \<open>
  (C35) After any sequence of insertions and erasures the set answers \<open>contains\<close>, \<open>count\<close> and
  \<open>size\<close> like the mathematical set with the same history. It refuses only when no memory is
  left, and follows no dangling pointer on the way.
\<close>

theorem ordered_set_run_refines:
  "outcome (\<lambda>m. set_inv m \<and> ssize m = card (set_effect ops {}) \<and> Set_empty m = (set_effect ops {} = {}) \<and>
      (\<forall>v. Set_contains m v = Inr (v \<in> set_effect ops {}) \<and> Set_count m v = Inr (if v \<in> set_effect ops {} then 1 else 0)))
    (set_run Set_Insert Set_erase ops Set_init)"
proof (cases "set_run Set_Insert Set_erase ops Set_init")
  case (Inl f)
  then show ?thesis using oset.set_run_refines [OF set_inv_init(1), of ops] by simp
next
  case (Inr m)
  have i: "set_inv m" and els: "set (set_elems m) = set_effect ops {}"
    using oset.set_run_refines [OF set_inv_init(1), of ops] Inr by simp_all
  have "ssize m = card (set_effect ops {})" "finite (set_effect ops {})" using oset.card_law [OF i] els by simp_all
  then show ?thesis using i Set_contains_run [OF i] els Inr by (auto simp: Set_count_def Set_empty_def)
qed

text \<open>
  (C22) Whatever was inserted and erased, walking from \<open>begin()\<close> to \<open>end()\<close> visits the elements
  in ascending order, each once, and stops; walking back from \<open>end()\<close> visits them in descending
  order.
\<close>

theorem ordered_set_iterates:
  "outcome (\<lambda>m. bindE (Set_begin m) (set_walk (ssize m) m) = Inr (sorted_list_of_set (set_effect ops {})) \<and>
      set_walk_back (ssize m) m (Set_end m) = Inr (rev (sorted_list_of_set (set_effect ops {}))))
    (set_run Set_Insert Set_erase ops Set_init)"
proof (cases "set_run Set_Insert Set_erase ops Set_init")
  case (Inl f)
  then show ?thesis using oset.set_run_refines [OF set_inv_init(1), of ops] by simp
next
  case (Inr m)
  have i: "set_inv m" and els: "set (set_elems m) = set_effect ops {}"
    using oset.set_run_refines [OF set_inv_init(1), of ops] Inr by simp_all
  have r: "rb_inv RBComparator (stree m)" "ssize m = length (contents (stree m))" using i by (simp_all add: set_inv_def)
  have all: "map snd (contents (stree m)) = sorted_list_of_set (set_effect ops {})"
    using set_elems_sorted(3) [OF i] els by (simp add: set_elems_def)
  have "Set_begin m = Inr (first_addr (Set_end m) (contents (stree m)))"
    using First_contents [OF r(1)] by (simp add: Set_begin_def First_def Set_end_def)
  moreover have "set_walk (ssize m) m (first_addr (Set_end m) (contents (stree m))) = Inr (sorted_list_of_set (set_effect ops {}))"
    using set_walk_contents [OF r(1), of "[]" "contents (stree m)" "ssize m"] r(2) all by simp
  moreover have "set_walk_back (ssize m) m (Set_end m) = Inr (rev (sorted_list_of_set (set_effect ops {})))"
    using set_walk_back_contents [OF r(1), of "contents (stree m)" "[]"] r(2) all by (simp add: Set_end_def)
  ultimately show ?thesis using Inr by simp
qed

text \<open>
  \<open>erase(it)\<close> takes the element at the iterator out of the set and returns the iterator after
  it. The other nodes stay where they are, so a loop that erases while it walks visits every
  other element.
\<close>

theorem ordered_set_erase_at:
  assumes "set_inv m" and "contents (stree m) = es1 @ (it, v) # es2"
  shows "\<exists>m'. Set_erase_at m it = Inr (m', first_addr (Set_end m') es2) \<and> set_inv m' \<and>
      contents (stree m') = es1 @ es2 \<and> ssize m' = ssize m - 1 \<and>
      set_walk (length es2) m' (first_addr (Set_end m') es2) = Inr (map snd es2)"
proof -
  have i: "rb_inv RBComparator (stree m)" "ssize m = length (contents (stree m))" using assms by (simp_all add: set_inv_def)
  obtain t where t: "RB_Erase RBComparator (stree m) v = Inr (t, True)" "rb_inv RBComparator t" "contents t = es1 @ es2" "stays (stree m) t"
    using set_order.Erase_present [OF i(1) assms(2), of v] by auto
  let ?m = "m\<lparr>stree := t, ssize := ssize m - 1\<rparr>"
  have "(ssize m + (2 ^ 64 - 1)) mod 2 ^ 64 = ssize m - 1"
    using set_inv_size [OF assms(1)] i(2) assms(2) wrap_pred [of "ssize m"] by simp
  then have "Set_erase_at m it = Inr (?m, first_addr (Set_end ?m) es2)"
    using neighbours [OF i(1) assms(2)] t by (simp add: Set_erase_at_def Set_end_def stays_def)
  moreover have "set_inv ?m" using t i(2) assms(2) by (simp add: set_inv_def)
  moreover have "set_walk (length es2) ?m (first_addr (Set_end ?m) es2) = Inr (map snd es2)"
    using set_walk_contents [of RBComparator ?m es1 es2 "length es2"] t by simp
  ultimately show ?thesis using t by (intro exI [of _ ?m]) simp
qed

lemma set_with_five: "\<exists>m :: nat oset. set_inv m \<and> contents (stree m) = [(2, 5)]"
proof -
  obtain s :: "nat rbtree" where "tree_reach RBComparator s" "contents s = [(2, 5)]" using reach_five by blast
  then have "set_inv \<lparr>stree = s, ssize = 1\<rparr>" "contents (stree \<lparr>stree = s, ssize = 1\<rparr>) = [(2, 5)]"
    using set_order.reach_inv by (simp_all add: set_inv_def)
  then show ?thesis by blast
qed

theorem ordered_set_erase_at_witness:
  "\<exists>(m :: nat oset) m'. contents (stree m) = [(2, 5)] \<and> Set_erase_at m 2 = Inr (m', Set_end m') \<and> contents (stree m') = []"
proof -
  obtain m :: "nat oset" where m: "set_inv m" "contents (stree m) = [(2, 5)]" using set_with_five by blast
  then have "contents (stree m) = [] @ (2, 5) # []" by simp
  from ordered_set_erase_at [OF m(1) this] show ?thesis using m(2) by auto
qed

section \<open>Copies and moves\<close>

lemma Set_clear_run:
  assumes "set_inv m"
  shows "\<exists>m'. Set_clear m = Inr m' \<and> set_inv m' \<and> set_elems m' = []"
proof -
  obtain t where "RB_Clear (stree m) = Inr t" "rb_inv RBComparator t" "contents t = []"
    using set_order.Clear_inv [of "stree m"] assms by (auto simp: set_inv_def)
  then show ?thesis by (simp add: Set_clear_def set_inv_def set_elems_def)
qed

text \<open>
  A copied or copy-assigned set has the elements of the other one in nodes of its own; a
  move takes over the nodes themselves, and leaves the other set empty and usable.
\<close>

theorem ordered_set_copy_move:
  assumes "set_inv m" and "set_inv other"
  shows "outcome (\<lambda>m'. set_inv m' \<and> set_elems m' = set_elems other) (Set_copy other) \<and>
    outcome (\<lambda>m'. set_inv m' \<and> set_elems m' = set_elems other) (Set_assign m (Some other)) \<and>
    Set_assign m None = Inr m \<and>
    (case Set_move other of (m', other') \<Rightarrow> set_inv m' \<and> contents (stree m') = contents (stree other) \<and>
       set_inv other' \<and> set_elems other' = []) \<and>
    (\<exists>m' other'. Set_move_assign m (Some other) = Inr (m', Some other') \<and> set_inv m' \<and>
       contents (stree m') = contents (stree other) \<and> set_inv other' \<and> set_elems other' = [])"
proof (intro conjI)
  have i: "rb_inv RBComparator (stree m)" "rb_inv RBComparator (stree other)" using assms by (simp_all add: set_inv_def)
  show "outcome (\<lambda>m'. set_inv m' \<and> set_elems m' = set_elems other) (Set_copy other)"
    unfolding Set_copy_def by (rule outcome_bindE [OF set_order.copy_assign_outcome(2) [OF i(2,2)]])
      (use assms in \<open>auto simp: set_inv_def set_elems_def dest: map_eq_imp_length_eq\<close>)
  show "outcome (\<lambda>m'. set_inv m' \<and> set_elems m' = set_elems other) (Set_assign m (Some other))"
    unfolding Set_assign_def option.case by (rule outcome_bindE [OF set_order.copy_assign_outcome(1) [OF i]])
      (use assms in \<open>auto simp: set_inv_def set_elems_def dest: map_eq_imp_length_eq\<close>)
  show "Set_assign m None = Inr m" by (simp add: Set_assign_def)
  show "case Set_move other of (m', other') \<Rightarrow> set_inv m' \<and> contents (stree m') = contents (stree other) \<and>
       set_inv other' \<and> set_elems other' = []"
    using assms by (simp add: Set_move_def RB_move_def RB_Swap_def set_inv_def set_elems_def)
  obtain t where "RB_Clear (stree m) = Inr t" "rb_inv RBComparator t" "contents t = []"
    using set_order.Clear_inv [OF i(1)] by blast
  then show "\<exists>m' other'. Set_move_assign m (Some other) = Inr (m', Some other') \<and> set_inv m' \<and>
       contents (stree m') = contents (stree other) \<and> set_inv other' \<and> set_elems other' = []"
    using assms by (simp add: Set_move_assign_def RB_move_assign_def RB_Swap_def set_inv_def set_elems_def)
qed

theorem ordered_set_copy_move_witness:
  "\<exists>(m :: nat oset) (other :: nat oset). set_elems other = [5] \<and> set_elems m = [] \<and>
     outcome (\<lambda>m'. set_inv m' \<and> set_elems m' = [5]) (Set_copy other)"
proof -
  obtain other :: "nat oset" where o: "set_inv other" "contents (stree other) = [(2, 5)]" using set_with_five by blast
  then have "set_elems other = [5]" by (simp add: set_elems_def)
  then show ?thesis using ordered_set_copy_move [OF set_inv_init(1) o(1)]
    by (intro exI [of _ Set_init] exI [of _ other]) simp
qed

lemma Set_insert_all_outcome:
  "set_inv m \<Longrightarrow> outcome (\<lambda>m'. set_inv m' \<and> set (set_elems m') = set (set_elems m) \<union> set vs) (Set_insert_all m vs)"
proof (induction vs arbitrary: m)
  case (Cons v vs)
  show ?case unfolding Set_insert_all.simps
  proof (rule outcome_bindE [OF Set_insert_outcome [OF Cons.prems, of v]], goal_cases)
    case (1 x)
    obtain m' it b where x: "x = (m', it, b)" by (cases x)
    have "set_inv m'" "set (set_elems m') = insert v (set (set_elems m))" using 1(2) by (simp_all add: x)
    then show ?case using Cons.IH [of m'] by (simp add: x)
  qed
qed simp

lemma Set_of_list_outcome: "outcome (\<lambda>m. set_inv m \<and> set_elems m = sorted_list_of_set (set vs)) (Set_of_list vs)"
  unfolding Set_of_list_def
  by (rule outcome_mono [OF Set_insert_all_outcome [OF set_inv_init(1), of vs]])
    (metis set_elems_sorted(3) set_inv_init(2) list.set(1) Un_empty_left)

lemma set_bounds:
  assumes "set_inv m"
  shows "Set_find m v = Inr (entry (Set_end m) (\<lambda>w. v = w) (contents (stree m)))"
    and "Set_lower_bound m v = Inr (entry (Set_end m) (\<lambda>w. v \<le> w) (contents (stree m)))"
    and "Set_upper_bound m v = Inr (entry (Set_end m) (\<lambda>w. v < w) (contents (stree m)))"
  using set_order.Find_entry [of "stree m" v] assms
  by (simp_all add: set_inv_def Set_find_def Set_lower_bound_def Set_upper_bound_def Set_end_def RBComparator_less not_less)

end
