(* ===== verification/Ordered_Map.thy ===== *)
theory Ordered_Map
  imports RB_Reach Map_Spec
begin

text \<open>
  \<open>base::Map\<close> (\<open>containers/map.h\<close>): an ordered map over the red-black tree of its
  key-value pairs, compared by key. A reference to a value is the address of its node.
\<close>

section \<open>State and operations\<close>

definition map_comparator :: "('k::linorder \<times> 'v) comparator" where
  "map_comparator = \<lparr>less_than = (\<lambda>x y. fst x < fst y), equals = (\<lambda>x y. fst x = fst y)\<rparr>"

record ('k, 'v) omap =
  mtree :: "('k \<times> 'v) rbtree"
  msize :: nat

text \<open>Lookups build a probe pair with a default value, the parameter \<open>dflt\<close>.\<close>

definition Map_Probe :: "'v \<Rightarrow> 'k \<Rightarrow> 'k \<times> 'v" where
  "Map_Probe dflt k = (k, dflt)"

definition Map_init :: "('k, 'v) omap" where
  "Map_init = \<lparr>mtree = RB_new, msize = 0\<rparr>"

definition Map_copy :: "('k::linorder, 'v) omap \<Rightarrow> ('k, 'v) omap res" where
  "Map_copy other = bindE (RB_copy map_comparator (mtree other)) (\<lambda>t. Inr \<lparr>mtree = t, msize = msize other\<rparr>)"

definition Map_assign :: "('k::linorder, 'v) omap \<Rightarrow> ('k, 'v) omap option \<Rightarrow> ('k, 'v) omap res" where
  "Map_assign m other =
     (case other of None \<Rightarrow> Inr m
      | Some other \<Rightarrow>
          bindE (RB_copy_assign map_comparator (mtree m) (Some (mtree other))) (\<lambda>t. Inr \<lparr>mtree = t, msize = msize other\<rparr>))"

definition Map_move :: "('k, 'v) omap \<Rightarrow> ('k, 'v) omap \<times> ('k, 'v) omap" where
  "Map_move other =
     (case RB_move (mtree other) of (t, t') \<Rightarrow> (\<lparr>mtree = t, msize = msize other\<rparr>, other\<lparr>mtree := t', msize := 0\<rparr>))"

definition Map_move_assign :: "('k, 'v) omap \<Rightarrow> ('k, 'v) omap option \<Rightarrow> (('k, 'v) omap \<times> ('k, 'v) omap option) res" where
  "Map_move_assign m other =
     (case other of None \<Rightarrow> Inr (m, None)
      | Some other \<Rightarrow>
          bindE (RB_move_assign (mtree m) (Some (mtree other))) (\<lambda>(t, t').
          case t' of None \<Rightarrow> Inr (m, None)
          | Some t' \<Rightarrow> Inr (\<lparr>mtree = t, msize = msize other\<rparr>, Some (other\<lparr>mtree := t', msize := 0\<rparr>))))"

definition Map_empty :: "('k, 'v) omap \<Rightarrow> bool" where
  "Map_empty m = (msize m = 0)"

definition Map_clear :: "('k, 'v) omap \<Rightarrow> ('k, 'v) omap res" where
  "Map_clear m = bindE (RB_Clear (mtree m)) (\<lambda>t. Inr (m\<lparr>mtree := t, msize := 0\<rparr>))"

definition Map_FirstNode :: "('k, 'v) omap \<Rightarrow> nat res" where
  "Map_FirstNode m =
     (if RB_empty (mtree m) then Inr (nil (mtree m)) else Minimum (fuel_of (mtree m)) (mtree m) (root (mtree m)))"

definition Map_end :: "('k, 'v) omap \<Rightarrow> nat" where
  "Map_end m = nil (mtree m)"

definition Map_deref :: "('k, 'v) omap \<Rightarrow> nat \<Rightarrow> ('k \<times> 'v) res" where
  "Map_deref m it = node_value (mtree m) it"

definition Map_next :: "('k, 'v) omap \<Rightarrow> nat \<Rightarrow> nat res" where
  "Map_next m it = Successor (mtree m) it"

definition Map_prev :: "('k, 'v) omap \<Rightarrow> nat \<Rightarrow> nat res" where
  "Map_prev m it = Predecessor (mtree m) it"

definition Map_find :: "'v \<Rightarrow> ('k::linorder, 'v) omap \<Rightarrow> 'k \<Rightarrow> nat res" where
  "Map_find dflt m k = RB_Find map_comparator (mtree m) (Map_Probe dflt k)"

definition Map_contains :: "'v \<Rightarrow> ('k::linorder, 'v) omap \<Rightarrow> 'k \<Rightarrow> bool res" where
  "Map_contains dflt m k = RB_Contains map_comparator (mtree m) (Map_Probe dflt k)"

definition Map_count :: "'v \<Rightarrow> ('k::linorder, 'v) omap \<Rightarrow> 'k \<Rightarrow> nat res" where
  "Map_count dflt m k = bindE (Map_contains dflt m k) (\<lambda>b. Inr (if b then 1 else 0))"

definition Map_lower_bound :: "'v \<Rightarrow> ('k::linorder, 'v) omap \<Rightarrow> 'k \<Rightarrow> nat res" where
  "Map_lower_bound dflt m k = RB_LowerBound map_comparator (mtree m) (Map_Probe dflt k)"

definition Map_upper_bound :: "'v \<Rightarrow> ('k::linorder, 'v) omap \<Rightarrow> 'k \<Rightarrow> nat res" where
  "Map_upper_bound dflt m k = RB_UpperBound map_comparator (mtree m) (Map_Probe dflt k)"

definition Map_Emplace :: "('k::linorder, 'v) omap \<Rightarrow> 'k \<Rightarrow> 'v \<Rightarrow> (('k, 'v) omap \<times> nat \<times> bool) res" where
  "Map_Emplace m k v =
     bindE (FindOrInsert map_comparator (mtree m) (k, v)) (\<lambda>(t, node, inserted).
     Inr (m\<lparr>mtree := t, msize := (if inserted then (msize m + 1) mod 2 ^ 64 else msize m)\<rparr>, node, inserted))"

text \<open>\<open>operator[]\<close> returns a reference into the node, here the node's address; writing through it is
  \<open>set_second\<close>.\<close>

definition Map_index :: "'v \<Rightarrow> ('k::linorder, 'v) omap \<Rightarrow> 'k \<Rightarrow> (('k, 'v) omap \<times> nat) res" where
  "Map_index dflt m k = bindE (Map_Emplace m k dflt) (\<lambda>(m, node, inserted). Inr (m, node))"

definition set_second :: "('k, 'v) omap \<Rightarrow> nat \<Rightarrow> 'v \<Rightarrow> ('k, 'v) omap res" where
  "set_second m it v =
     bindE (node_value (mtree m) it) (\<lambda>(k, w).
     bindE (modify (mtree m) it (\<lambda>n. n\<lparr>nval := Some (k, v)\<rparr>)) (\<lambda>t. Inr (m\<lparr>mtree := t\<rparr>)))"

text \<open>\<open>Insert\<close> and \<open>insert\<close> are \<open>Emplace\<close>, the former without the iterator.\<close>

definition Map_Insert :: "('k::linorder, 'v) omap \<Rightarrow> 'k \<Rightarrow> 'v \<Rightarrow> (('k, 'v) omap \<times> bool) res" where
  "Map_Insert m k v = bindE (Map_Emplace m k v) (\<lambda>(m, it, b). Inr (m, b))"

definition Map_erase :: "'v \<Rightarrow> ('k::linorder, 'v) omap \<Rightarrow> 'k \<Rightarrow> (('k, 'v) omap \<times> bool) res" where
  "Map_erase dflt m k =
     bindE (RB_Erase map_comparator (mtree m) (Map_Probe dflt k)) (\<lambda>(t, found).
     if found then Inr (m\<lparr>mtree := t, msize := (msize m + (2 ^ 64 - 1)) mod 2 ^ 64\<rparr>, True)
     else Inr (m\<lparr>mtree := t\<rparr>, False))"

definition Map_erase_at :: "('k::linorder, 'v) omap \<Rightarrow> nat \<Rightarrow> (('k, 'v) omap \<times> nat) res" where
  "Map_erase_at m it =
     bindE (Successor (mtree m) it) (\<lambda>next.
     bindE (node_value (mtree m) it) (\<lambda>p.
     bindE (RB_Erase map_comparator (mtree m) p) (\<lambda>(t, found).
     Inr (m\<lparr>mtree := t, msize := (if found then (msize m + (2 ^ 64 - 1)) mod 2 ^ 64 else msize m)\<rparr>, next))))"

text \<open>\<open>Value* Find\<close>; \<open>None\<close> is the null pointer, otherwise the node that holds the value.\<close>

definition Map_Find :: "'v \<Rightarrow> ('k::linorder, 'v) omap \<Rightarrow> 'k \<Rightarrow> nat option res" where
  "Map_Find dflt m k =
     bindE (RB_Find map_comparator (mtree m) (Map_Probe dflt k)) (\<lambda>node.
     Inr (if node \<noteq> nil (mtree m) then Some node else None))"

section \<open>What a map holds\<close>

interpretation map_order: ordered_tree "map_comparator :: ('k::linorder \<times> 'v) comparator"
  by unfold_locales (auto simp: map_comparator_def)

lemma map_comparator_simps [simp]:
  "less_than map_comparator p q \<longleftrightarrow> fst p < fst q" "equals map_comparator p q \<longleftrightarrow> fst p = fst q"
  by (simp_all add: map_comparator_def)

definition map_items :: "('k, 'v) omap \<Rightarrow> ('k \<times> 'v) list" where
  "map_items m = map snd (contents (mtree m))"

definition map_inv :: "('k::linorder, 'v) omap \<Rightarrow> bool" where
  "map_inv m \<longleftrightarrow> rb_inv map_comparator (mtree m) \<and> msize m = length (contents (mtree m))"

lemma map_inv_init [simp]: "map_inv Map_init" "map_items Map_init = []"
  by (simp_all add: map_inv_def map_items_def Map_init_def)

lemma map_inv_size: "map_inv m \<Longrightarrow> msize m + 1 < 2 ^ 64"
  using rb_inv_contents(3,4) [of map_comparator "mtree m"] by (simp add: map_inv_def MEM_MAX_def)

lemma map_items_sorted:
  assumes "map_inv m"
  shows "sorted_wrt (<) (map fst (map_items m))" "distinct (map fst (map_items m))"
proof -
  show s: "sorted_wrt (<) (map fst (map_items m))"
    using rb_inv_contents(1) [of map_comparator "mtree m"] assms by (simp add: map_inv_def map_items_def sorted_wrt_map)
  then show "distinct (map fst (map_items m))" by (simp add: strict_sorted_iff)
qed

lemma map_of_insert_mid:
  assumes "k \<notin> fst ` set (xs @ ys)"
  shows "map_of (xs @ (k, v) # ys) = (map_of (xs @ ys))(k \<mapsto> v)"
proof -
  have "map_of xs k = None" "map_of ys k = None" using assms by (auto simp: map_of_eq_None_iff)
  then show ?thesis by (auto simp: map_add_def fun_eq_iff fun_upd_apply split: option.splits)
qed

lemma map_of_mid:
  assumes "k \<notin> fst ` set xs"
  shows "map_of (xs @ (k, v) # ys) k = Some v"
proof -
  have "map_of xs k = None" using assms by (auto simp: map_of_eq_None_iff)
  then show ?thesis by (simp add: map_add_def)
qed

lemma distinct_key_mid: "distinct (map fst (xs @ (k, w) # ys)) \<Longrightarrow> k \<notin> fst ` set (xs @ ys)"
  by auto

lemma items_split:
  assumes "map_inv m" and "contents (mtree m) = es1 @ (a, k, w) # es2"
  shows "k \<notin> fst ` set (map snd es1 @ map snd es2)"
  using map_items_sorted(2) [OF assms(1)] assms(2) distinct_key_mid [of "map snd es1" k w "map snd es2"]
  by (simp add: map_items_def)

lemma items_keys: "fst ` snd ` set (contents (mtree m)) = dom (map_of (map_items m))"
  by (simp add: map_items_def dom_map_of_conv_image_fst image_comp comp_def)

lemma Map_Emplace_outcome:
  assumes "map_inv m"
  shows "outcome (\<lambda>(m', it, b). map_inv m' \<and> Map_end m' = Map_end m \<and> b = (map_of (map_items m) k = None) \<and>
      map_of (map_items m') = (if b then (map_of (map_items m))(k \<mapsto> v) else map_of (map_items m)) \<and>
      (\<exists>w. (it, k, w) \<in> set (contents (mtree m')))) (Map_Emplace m k v)"
  unfolding Map_Emplace_def
proof (rule outcome_bindE [OF map_order.FindOrInsert_outcome [of "mtree m" "(k, v)"]], goal_cases)
  case 1
  show ?case using assms by (simp add: map_inv_def)
next
  case (2 x)
  obtain t it b where x: "x = (t, it, b)" by (cases x)
  have i: "rb_inv map_comparator t" "nil t = nil (mtree m)" "\<exists>w. (it, k, w) \<in> set (contents t)" using 2(2) by (auto simp: x)
  have "b \<longleftrightarrow> k \<notin> fst ` snd ` set (contents (mtree m))" using 2(2) by (auto simp: x)
  then have b: "b \<longleftrightarrow> map_of (map_items m) k = None" unfolding items_keys by (simp add: domIff)
  have lt: "msize m + 1 < 2 ^ 64" by (rule map_inv_size [OF assms])
  show ?case
  proof (cases b)
    case True
    then obtain es1 es2 where es: "contents (mtree m) = es1 @ es2" "contents t = es1 @ (it, k, v) # es2"
      using 2(2) by (auto simp: x)
    have "k \<notin> fst ` set (map snd es1 @ map snd es2)"
      using b True es(1) unfolding items_keys [symmetric] map_items_def by (simp add: map_of_eq_None_iff image_Un)
    then have "map_of (map snd (contents t)) = (map_of (map_items m))(k \<mapsto> v)"
      using es map_of_insert_mid [of k "map snd es1" "map snd es2" v] by (simp add: map_items_def)
    then show ?thesis using i b True lt assms es by (simp add: x map_inv_def map_items_def Map_end_def)
  next
    case False
    then have "t = mtree m" using 2(2) by (auto simp: x)
    then show ?thesis using i b False assms by (simp add: x map_inv_def map_items_def Map_end_def)
  qed
qed

lemma Map_erase_run:
  assumes "map_inv m"
  shows "\<exists>m'. Map_erase dflt m k = Inr (m', map_of (map_items m) k \<noteq> None) \<and> map_inv m' \<and>
     map_of (map_items m') = (map_of (map_items m))(k := None)"
proof -
  have i: "rb_inv map_comparator (mtree m)" "msize m = length (contents (mtree m))" using assms by (simp_all add: map_inv_def)
  obtain t b where t: "RB_Erase map_comparator (mtree m) (Map_Probe dflt k) = Inr (t, b)" "rb_inv map_comparator t"
    and b: "if b then \<exists>es1 a w es2. contents (mtree m) = es1 @ (a, w) # es2 \<and> equals map_comparator (Map_Probe dflt k) w \<and> contents t = es1 @ es2
      else t = mtree m \<and> (\<forall>w \<in> snd ` set (contents (mtree m)). \<not> equals map_comparator (Map_Probe dflt k) w)"
    using map_order.Erase_inv [OF i(1), of "Map_Probe dflt k"] by blast
  show ?thesis
  proof (cases b)
    case True
    then obtain es1 a w es2 where es: "contents (mtree m) = es1 @ (a, k, w) # es2" "contents t = es1 @ es2"
      using b by (auto simp: Map_Probe_def)
    have "k \<notin> fst ` set (map snd es1 @ map snd es2)" by (rule items_split [OF assms es(1)])
    then have mm: "map_of (map_items m) = (map_of (map snd es1 @ map snd es2))(k \<mapsto> w)" "map_of (map snd es1 @ map snd es2) k = None"
      using es map_of_insert_mid [of k "map snd es1" "map snd es2" w] by (simp_all add: map_items_def map_of_eq_None_iff image_Un)
    have "(msize m + (2 ^ 64 - 1)) mod 2 ^ 64 = length (contents t)"
      using map_inv_size [OF assms] i(2) es wrap_pred [of "msize m"] by simp
    then have "Map_erase dflt m k = Inr (m\<lparr>mtree := t, msize := length (contents t)\<rparr>, True)" using t True by (simp add: Map_erase_def)
    moreover have "map_of (map snd (contents t)) = (map_of (map_items m))(k := None)"
      using mm es(2) by (simp add: fun_upd_idem)
    ultimately show ?thesis using t mm by (simp add: map_inv_def map_items_def)
  next
    case False
    then have "t = mtree m" "k \<notin> fst ` snd ` set (contents (mtree m))" using b by (auto simp: Map_Probe_def)
    then have "t = mtree m" "map_of (map_items m) k = None" unfolding items_keys by (simp_all add: domIff)
    then show ?thesis using t False assms by (simp add: Map_erase_def fun_upd_idem)
  qed
qed

text \<open>Reading through the pointer \<open>Find\<close> returns.\<close>

definition Map_get :: "'v \<Rightarrow> ('k::linorder, 'v) omap \<Rightarrow> 'k \<Rightarrow> 'v option res" where
  "Map_get dflt m k =
     bindE (Map_Find dflt m k) (\<lambda>r.
     case r of None \<Rightarrow> Inr None | Some it \<Rightarrow> bindE (Map_deref m it) (\<lambda>p. Inr (Some (snd p))))"

lemma Map_find_run:
  assumes "map_inv m"
  shows "Map_find dflt m k = Inr (entry (Map_end m) (\<lambda>p. k = fst p) (contents (mtree m)))"
    and "Map_lower_bound dflt m k = Inr (entry (Map_end m) (\<lambda>p. k \<le> fst p) (contents (mtree m)))"
    and "Map_upper_bound dflt m k = Inr (entry (Map_end m) (\<lambda>p. k < fst p) (contents (mtree m)))"
  using map_order.Find_entry [of "mtree m" "Map_Probe dflt k"] assms
  by (simp_all add: map_inv_def Map_find_def Map_lower_bound_def Map_upper_bound_def Map_end_def Map_Probe_def
      map_comparator_def not_less)

lemma Map_get_run:
  assumes "map_inv m"
  shows "Map_get dflt m k = Inr (map_of (map_items m) k)" and "Map_contains dflt m k = Inr (k \<in> dom (map_of (map_items m)))"
proof -
  have i: "rb_inv map_comparator (mtree m)" using assms by (simp add: map_inv_def)
  let ?e = "entry (nil (mtree m)) (\<lambda>p. k = fst p) (contents (mtree m))"
  have f: "RB_Find map_comparator (mtree m) (Map_Probe dflt k) = Inr ?e"
    using Map_find_run(1) [OF assms, of dflt k] by (simp add: Map_find_def Map_end_def)
  have "Map_get dflt m k = Inr (map_of (map_items m) k) \<and> (?e \<noteq> nil (mtree m) \<longleftrightarrow> map_of (map_items m) k \<noteq> None)"
  proof (cases rule: entry_cases [of "nil (mtree m)" "\<lambda>p. k = fst p" "contents (mtree m)"])
    case 1
    then have "k \<notin> fst ` snd ` set (contents (mtree m))" by auto
    then have "map_of (map_items m) k = None" unfolding items_keys by (simp add: domIff)
    then show ?thesis using f 1 by (simp add: Map_get_def Map_Find_def)
  next
    case (2 es1 a p es2)
    obtain w where p: "p = (k, w)" using 2(2) by (cases p) simp
    have c: "contents (mtree m) = es1 @ (a, k, w) # es2" using 2(1) p by simp
    have "a \<noteq> nil (mtree m)" using rb_inv_contents(5) [OF i] c by auto
    moreover have "map_of (map_items m) k = Some w"
      using map_of_mid [of k "map snd es1" w "map snd es2"] 2(3) c by (auto simp: map_items_def)
    ultimately show ?thesis using f 2(4) neighbours(3) [OF i c] by (simp add: Map_get_def Map_Find_def Map_deref_def)
  qed
  then show "Map_get dflt m k = Inr (map_of (map_items m) k)" "Map_contains dflt m k = Inr (k \<in> dom (map_of (map_items m)))"
    using f by (auto simp: Map_contains_def RB_Contains_def RB_Find_def domIff)
qed

interpretation omap: map_store map_inv "\<lambda>m. map_of (map_items m)" "Map_get dflt" Map_Insert "Map_erase dflt" msize
proof
  fix m :: "('a, 'b) omap" and k v
  assume m: "map_inv m"
  show "Map_get dflt m k = Inr (map_of (map_items m) k)" by (rule Map_get_run(1) [OF m])
  show "outcome (\<lambda>(s', b). map_inv s' \<and> b = (map_of (map_items m) k = None) \<and>
      map_of (map_items s') = (if map_of (map_items m) k = None then (map_of (map_items m))(k \<mapsto> v) else map_of (map_items m))) (Map_Insert m k v)"
    unfolding Map_Insert_def by (rule outcome_bindE [OF Map_Emplace_outcome [OF m, of k v]]) auto
  show "\<exists>s'. Map_erase dflt m k = Inr (s', map_of (map_items m) k \<noteq> None) \<and> map_inv s' \<and> map_of (map_items s') = (map_of (map_items m))(k := None)"
    by (rule Map_erase_run [OF m])
  have "card (dom (map_of (map_items m))) = length (map_items m)"
    using distinct_card [OF map_items_sorted(2) [OF m]] by (simp add: dom_map_of_conv_image_fst)
  then show "finite (dom (map_of (map_items m))) \<and> msize m = card (dom (map_of (map_items m)))"
    using m by (simp add: map_inv_def map_items_def finite_dom_map_of)
qed

section \<open>Writing through a reference\<close>

lemma set_value_RB:
  assumes "RBx X s q (plug k (Nd a c v l r))"
  shows "\<exists>s'. modify s a (\<lambda>n. n\<lparr>nval := Some w\<rparr>) = Inr s' \<and> RBx X s' q (plug k (Nd a c w l r)) \<and> stays s s'"
proof -
  note at = node_at [OF assms]
  let ?s = "s\<lparr>nodes := (nodes s)(a := Some (mk w c (addr (nil s) l) (addr (nil s) r) (par (nil s) k)))\<rparr>"
  have "modify s a (\<lambda>n. n\<lparr>nval := Some w\<rparr>) = Inr ?s" using at by (simp add: rb_read mk_def)
  moreover have "RBx X ?s q (plug k (Nd a c w l r))"
    using assms unfolding RBx_def by (auto simp: rept_plug addrs_plug addr_plug)
  ultimately show ?thesis by (simp add: stays_def)
qed

lemma set_second_run:
  assumes "map_inv m" and "contents (mtree m) = es1 @ (a, k, w) # es2"
  shows "\<exists>m'. set_second m a v = Inr m' \<and> map_inv m' \<and> contents (mtree m') = es1 @ (a, k, v) # es2"
proof -
  have i: "rb_inv map_comparator (mtree m)" "msize m = length (contents (mtree m))" using assms by (simp_all add: map_inv_def)
  obtain q T where R: "RB (mtree m) q T" and T: "rbt T" "sorted_wrt (less_than map_comparator) (vals T)" "contents (mtree m) = nds T"
    by (rule rb_invE [OF i(1)])
  have ndsT: "nds T = es1 @ (a, k, w) # es2" using T(3) assms(2) by simp
  then have "a \<in> set (addrs T)" by (simp add: addrs_nds)
  then obtain c d p l r where Tk: "T = plug c (Nd a d p l r)" by (rule place_of)
  have split: "nds T = (lnds c @ nds l) @ (a, p) # nds r @ rnds c" by (simp add: Tk nds_plug)
  have dn: "distinct (map fst (nds T))" using R by (simp add: RBx_def addrs_nds)
  have "(a, p) \<in> set (nds T)" unfolding split by simp
  moreover have "(a, k, w) \<in> set (nds T)" unfolding ndsT by simp
  ultimately have p: "p = (k, w)" using dn eq_key_imp_eq_value by metis
  have d: "distinct (es1 @ (a, k, w) # es2)" using dn ndsT distinct_map by metis
  have "es1 @ (a, k, w) # es2 = (lnds c @ nds l) @ (a, k, w) # nds r @ rnds c" using split ndsT p by simp
  from split_unique [OF d this] have es: "es1 = lnds c @ nds l" "es2 = nds r @ rnds c" by simp_all
  obtain t where t: "modify (mtree m) a (\<lambda>n. n\<lparr>nval := Some (k, v)\<rparr>) = Inr t" "RB t q (plug c (Nd a d (k, v) l r))" "stays (mtree m) t"
    using set_value_RB [OF R [unfolded Tk]] by blast
  have ct: "contents t = es1 @ (a, k, v) # es2" using contents_RB [OF t(2)] es by (simp add: nds_plug)
  have "rbt (plug c (Nd a d (k, v) l r))" using T(1) unfolding Tk rbt_plug ok.simps bh.simps tcol.simps by blast
  moreover have "sorted_wrt (less_than map_comparator) (vals (plug c (Nd a d (k, v) l r)))"
    using T(2) unfolding Tk vals_nds by (simp add: p nds_plug sorted_wrt_append)
  ultimately have "rb_inv map_comparator t" using rb_invI [OF t(2)] by blast
  moreover have "node_value (mtree m) a = Inr (k, w)" by (rule neighbours(3) [OF i(1) assms(2)])
  ultimately show ?thesis using t(1) ct i(2) assms(2) by (simp add: set_second_def map_inv_def)
qed

section \<open>Properties of the map\<close>

text \<open>
  (C3) After any sequence of \<open>Insert\<close> and \<open>Erase\<close> the map answers \<open>Find\<close>, \<open>contains\<close> and \<open>size\<close> like
  the mathematical map with the same history, in which the first value inserted for a key stays.
  It refuses only when no memory is left, and follows no dangling pointer on the way.
\<close>

theorem ordered_map_run_refines:
  "outcome (\<lambda>m. map_inv m \<and> msize m = card (dom (map_effect ops Map.empty)) \<and>
      (\<forall>k. Map_get dflt m k = Inr (map_effect ops Map.empty k) \<and> Map_contains dflt m k = Inr (k \<in> dom (map_effect ops Map.empty))))
    (map_run Map_Insert (Map_erase dflt) ops Map_init)"
proof (cases "map_run Map_Insert (Map_erase dflt) ops Map_init")
  case (Inl f)
  then show ?thesis using omap.run_refines [OF map_inv_init(1), where dflt = dflt and ops = ops] by simp
next
  case (Inr m)
  have i: "map_inv m" and els: "map_of (map_items m) = map_effect ops Map.empty"
    using omap.run_refines [OF map_inv_init(1), where dflt = dflt and ops = ops] Inr by simp_all
  then show ?thesis using Map_get_run [OF i] omap.siz_law [OF i] Inr by simp
qed

text \<open>
  \<open>m[k] = v\<close>: \<open>operator[]\<close> returns a reference into the node of \<open>k\<close>, inserted with a default
  value when there was none, and writing through it binds \<open>k\<close> to \<open>v\<close> and changes no other key. The
  nodes stay at their addresses.
\<close>

theorem ordered_map_index_assign:
  assumes "map_inv m"
  shows "outcome (\<lambda>(m1, it). \<exists>m2. set_second m1 it v = Inr m2 \<and> map_inv m2 \<and>
      map_of (map_items m2) = (map_of (map_items m))(k \<mapsto> v) \<and>
      map fst (contents (mtree m2)) = map fst (contents (mtree m1))) (Map_index dflt m k)"
  unfolding Map_index_def
proof (rule outcome_bindE [OF Map_Emplace_outcome [OF assms, of k dflt]], goal_cases)
  case (1 x)
  obtain m1 it b where x: "x = (m1, it, b)" by (cases x)
  have i: "map_inv m1" and mm: "map_of (map_items m1) = (if b then (map_of (map_items m))(k \<mapsto> dflt) else map_of (map_items m))"
    using 1(2) by (simp_all add: x)
  obtain w where "(it, k, w) \<in> set (contents (mtree m1))" using 1(2) by (auto simp: x)
  then obtain es1 es2 where es: "contents (mtree m1) = es1 @ (it, k, w) # es2" by (meson split_list)
  obtain m2 where m2: "set_second m1 it v = Inr m2" "map_inv m2" "contents (mtree m2) = es1 @ (it, k, v) # es2"
    using set_second_run [OF i es] by blast
  have "k \<notin> fst ` set (map snd es1 @ map snd es2)" by (rule items_split [OF i es])
  then have "map_of (map_items m2) = (map_of (map_items m1))(k \<mapsto> v)"
    using map_of_insert_mid [of k "map snd es1" "map snd es2"] es m2(3) by (simp add: map_items_def)
  then have "map_of (map_items m2) = (map_of (map_items m))(k \<mapsto> v)" using mm by simp
  then show ?case using m2 es by (simp add: x)
qed

theorem ordered_map_index_assign_witness:
  "outcome (\<lambda>(m1, it). \<exists>m2. set_second m1 it (7 :: nat) = Inr m2 \<and> map_inv m2 \<and> map_of (map_items m2) = [5 :: nat \<mapsto> 7])
     (Map_index 0 Map_init 5)"
  by (rule outcome_mono [OF ordered_map_index_assign [OF map_inv_init(1)]]) auto

lemma Map_erase_at_run:
  assumes "map_inv m" and "contents (mtree m) = es1 @ (it, k, v) # es2"
  shows "\<exists>m'. Map_erase_at m it = Inr (m', first_addr (Map_end m') es2) \<and> map_inv m' \<and> contents (mtree m') = es1 @ es2"
proof -
  have i: "rb_inv map_comparator (mtree m)" "msize m = length (contents (mtree m))" using assms by (simp_all add: map_inv_def)
  obtain t where t: "RB_Erase map_comparator (mtree m) (k, v) = Inr (t, True)" "rb_inv map_comparator t" "contents t = es1 @ es2" "stays (mtree m) t"
    using map_order.Erase_present [OF i(1) assms(2), of "(k, v)"] by auto
  let ?m = "m\<lparr>mtree := t, msize := msize m - 1\<rparr>"
  have "(msize m + (2 ^ 64 - 1)) mod 2 ^ 64 = msize m - 1"
    using map_inv_size [OF assms(1)] i(2) assms(2) wrap_pred [of "msize m"] by simp
  then have "Map_erase_at m it = Inr (?m, first_addr (Map_end ?m) es2)"
    using neighbours [OF i(1) assms(2)] t by (simp add: Map_erase_at_def Map_end_def stays_def)
  moreover have "map_inv ?m" using t i(2) assms(2) by (simp add: map_inv_def)
  ultimately show ?thesis using t by (intro exI [of _ ?m]) simp
qed

lemma Map_copy_outcome:
  assumes "map_inv m" and "map_inv other"
  shows "outcome (\<lambda>m'. map_inv m' \<and> map_items m' = map_items other) (Map_copy other)"
    and "outcome (\<lambda>m'. map_inv m' \<and> map_items m' = map_items other) (Map_assign m (Some other))"
proof -
  have i: "rb_inv map_comparator (mtree m)" "rb_inv map_comparator (mtree other)" using assms by (simp_all add: map_inv_def)
  show "outcome (\<lambda>m'. map_inv m' \<and> map_items m' = map_items other) (Map_copy other)"
    unfolding Map_copy_def by (rule outcome_bindE [OF map_order.copy_assign_outcome(2) [OF i(2,2)]])
      (use assms in \<open>auto simp: map_inv_def map_items_def dest: map_eq_imp_length_eq\<close>)
  show "outcome (\<lambda>m'. map_inv m' \<and> map_items m' = map_items other) (Map_assign m (Some other))"
    unfolding Map_assign_def option.case by (rule outcome_bindE [OF map_order.copy_assign_outcome(1) [OF i]])
      (use assms in \<open>auto simp: map_inv_def map_items_def dest: map_eq_imp_length_eq\<close>)
qed

lemma Map_move_run:
  assumes "map_inv m" and "map_inv other"
  shows "case Map_move other of (m', other') \<Rightarrow> map_inv m' \<and> contents (mtree m') = contents (mtree other) \<and>
       map_inv other' \<and> map_items other' = []"
    and "\<exists>m' other'. Map_move_assign m (Some other) = Inr (m', Some other') \<and> map_inv m' \<and>
       contents (mtree m') = contents (mtree other) \<and> map_inv other' \<and> map_items other' = []"
proof -
  show "case Map_move other of (m', other') \<Rightarrow> map_inv m' \<and> contents (mtree m') = contents (mtree other) \<and>
       map_inv other' \<and> map_items other' = []"
    using assms by (simp add: Map_move_def RB_move_def RB_Swap_def map_inv_def map_items_def)
  obtain t where "RB_Clear (mtree m) = Inr t" "rb_inv map_comparator t" "contents t = []"
    using map_order.Clear_inv [of "mtree m"] assms by (auto simp: map_inv_def)
  then show "\<exists>m' other'. Map_move_assign m (Some other) = Inr (m', Some other') \<and> map_inv m' \<and>
       contents (mtree m') = contents (mtree other) \<and> map_inv other' \<and> map_items other' = []"
    using assms by (simp add: Map_move_assign_def RB_move_assign_def RB_Swap_def map_inv_def map_items_def)
qed

end
