(* ===== verification/Decimal_Bignum.thy ===== *)
theory Decimal_Bignum
  imports Prelude
begin

unbundle bit_operations_syntax

text \<open>
  \<open>strings/decimal_bignum.h\<close>: the fixed-capacity big integer behind the exact conversions
  between decimal text and doubles. A number is the list of its used limbs, the least
  significant first (\<open>limb_[0]\<close> to \<open>limb_[used_ - 1]\<close>; the limbs past \<open>used_\<close> are never read
  before they are written), so that \<open>limb_[used_++] = v\<close> appends. \<open>bval\<close> is the natural number
  it stands for, and every operation is shown to be the operation on natural numbers as long
  as the result fits the capacity. A C \<open>int\<close> that the code lets go below zero is an \<open>int\<close>.
\<close>

section \<open>Operations\<close>

type_synonym BigUInt = "u32 list"

definition kMaxLimbs :: nat where
  "kMaxLimbs = 224"

function SetU64_loop :: "BigUInt \<Rightarrow> u64 \<Rightarrow> BigUInt" where
  "SetU64_loop b v =
     (if v \<noteq> 0 then SetU64_loop (b @ [ucast (v AND 0xFFFFFFFF)]) (drop_bit 32 v) else b)"
  by pat_completeness auto
termination
  by (relation "measure (\<lambda>(b, v). unat v)")
    (auto simp: drop_bit_eq_div unat_div_distrib unat_gt_0 intro!: div_less_dividend)

declare SetU64_loop.simps [simp del]

definition SetU64 :: "u64 \<Rightarrow> BigUInt" where
  "SetU64 v = SetU64_loop [] v"

definition Big_IsZero :: "BigUInt \<Rightarrow> bool" where
  "Big_IsZero b = (length b = 0)"

text \<open>The limbs rewritten in place, with the carry out of the top one.\<close>

fun mul_limbs :: "BigUInt \<Rightarrow> u32 \<Rightarrow> u64 \<Rightarrow> BigUInt \<times> u64" where
  "mul_limbs [] multiplier carry = ([], carry)"
| "mul_limbs (x # xs) multiplier carry =
     (let product = ucast x * ucast multiplier + carry;
          (ys, carry') = mul_limbs xs multiplier (drop_bit 32 product)
      in (ucast (product AND 0xFFFFFFFF) # ys, carry'))"

function push_carry :: "BigUInt \<Rightarrow> u64 \<Rightarrow> BigUInt" where
  "push_carry b carry =
     (if carry \<noteq> 0 \<and> length b < kMaxLimbs
      then push_carry (b @ [ucast (carry AND 0xFFFFFFFF)]) (drop_bit 32 carry) else b)"
  by pat_completeness auto
termination by (relation "measure (\<lambda>(b, c). kMaxLimbs - length b)") auto

declare push_carry.simps [simp del]

definition MulAddSmall :: "BigUInt \<Rightarrow> u32 \<Rightarrow> u32 \<Rightarrow> BigUInt" where
  "MulAddSmall b multiplier addend =
     (let (b', carry) = mul_limbs b multiplier (ucast addend) in push_carry b' carry)"

definition MulSmall :: "BigUInt \<Rightarrow> u32 \<Rightarrow> BigUInt" where
  "MulSmall b multiplier = MulAddSmall b multiplier 0"

fun shift_limbs :: "BigUInt \<Rightarrow> nat \<Rightarrow> u32 \<Rightarrow> BigUInt \<times> u32" where
  "shift_limbs [] part carry = ([], carry)"
| "shift_limbs (x # xs) part carry =
     (let nxt = drop_bit (32 - part) x;
          (ys, carry') = shift_limbs xs part nxt
      in ((push_bit part x OR carry) # ys, carry'))"

definition ShiftLeft :: "BigUInt \<Rightarrow> int \<Rightarrow> BigUInt" where
  "ShiftLeft b bits =
     (if Big_IsZero b \<or> bits \<le> 0 then b
      else let whole = nat bits div 32; part = nat bits mod 32;
               b = (if part \<noteq> 0
                    then let (b', carry) = shift_limbs b part 0
                         in if carry \<noteq> 0 \<and> length b' < kMaxLimbs then b' @ [carry] else b'
                    else b)
           in if whole \<noteq> 0 then take kMaxLimbs (replicate whole 0 @ b) else b)"

fun Trim :: "BigUInt \<Rightarrow> BigUInt" where
  "Trim [] = []"
| "Trim (x # xs) = (case Trim xs of [] \<Rightarrow> if x = 0 then [] else [x] | y # ys \<Rightarrow> x # y # ys)"

text \<open>The division runs from the top limb down, so the tail of the list comes first.\<close>

fun div_limbs :: "BigUInt \<Rightarrow> u32 \<Rightarrow> BigUInt \<times> u64" where
  "div_limbs [] divisor = ([], 0)"
| "div_limbs (x # xs) divisor =
     (let (qs, remainder) = div_limbs xs divisor;
          current = push_bit 32 remainder OR ucast x
      in (ucast (current div ucast divisor) # qs, current mod ucast divisor))"

definition DivModSmall :: "BigUInt \<Rightarrow> u32 \<Rightarrow> BigUInt \<times> u32" where
  "DivModSmall b divisor =
     (let (q, remainder) = div_limbs b divisor in (Trim q, ucast remainder))"

function top_bits :: "u32 \<Rightarrow> int \<Rightarrow> int" where
  "top_bits v bits = (if v \<noteq> 0 then top_bits (drop_bit 1 v) (bits + 1) else bits)"
  by pat_completeness auto
termination
  by (relation "measure (\<lambda>(v, b). unat v)")
    (auto simp: drop_bit_eq_div unat_div_distrib unat_gt_0 intro!: div_less_dividend)

declare top_bits.simps [simp del]

definition BitLength :: "BigUInt \<Rightarrow> int" where
  "BitLength b =
     (if length b = 0 then 0
      else (int (length b) - 1) * 32 + top_bits (b ! (length b - 1)) 0)"

definition BitAt :: "BigUInt \<Rightarrow> int \<Rightarrow> bool" where
  "BitAt b index =
     (if index < 0 \<or> index \<ge> int (length b) * 32 then False
      else drop_bit (nat (index mod 32)) (b ! nat (index div 32)) AND 1 = 1)"

text \<open>The loop over the bits from \<open>i\<close> up, \<open>n\<close> of them left.\<close>

fun any_bit :: "BigUInt \<Rightarrow> int \<Rightarrow> nat \<Rightarrow> bool" where
  "any_bit b i 0 = False"
| "any_bit b i (Suc n) = (if BitAt b i then True else any_bit b (i + 1) n)"

definition AnyBitBelow :: "BigUInt \<Rightarrow> int \<Rightarrow> bool" where
  "AnyBitBelow b index =
     (if index \<le> 0 then False
      else let limit = (if index < int (length b) * 32 then index else int (length b) * 32)
           in any_bit b 0 (nat limit))"

text \<open>The loop over the bits from \<open>i\<close> down, \<open>n\<close> of them left.\<close>

fun high_bits :: "BigUInt \<Rightarrow> int \<Rightarrow> nat \<Rightarrow> u64 \<Rightarrow> u64" where
  "high_bits b i 0 value = value"
| "high_bits b i (Suc n) value =
     high_bits b (i - 1) n (push_bit 1 value OR (if BitAt b i then 1 else 0))"

definition HighBits :: "BigUInt \<Rightarrow> int \<Rightarrow> u64 \<times> bool" where
  "HighBits b n =
     (let len = BitLength b; lowest = len - n
      in (high_bits b (len - 1) (nat (len - max lowest 0)) 0, any_bit b 0 (nat lowest)))"

section \<open>The number a list of limbs stands for\<close>

fun bval :: "BigUInt \<Rightarrow> nat" where
  "bval [] = 0"
| "bval (x # xs) = unat x + 2 ^ 32 * bval xs"

definition normal :: "BigUInt \<Rightarrow> bool" where
  "normal b = (b \<noteq> [] \<longrightarrow> last b \<noteq> 0)"

lemma normal_simps [simp]: "normal []" "normal (b @ [x]) = (x \<noteq> 0)"
  by (simp_all add: normal_def)

lemma bval_append: "bval (xs @ ys) = bval xs + 2 ^ (32 * length xs) * bval ys"
  by (induction xs) (simp_all add: algebra_simps power_add)

lemma bval_zeros [simp]: "bval (replicate n 0) = 0"
  by (induction n) simp_all

lemma limb_less: "unat (x :: u32) < 2 ^ 32"
  using unsigned_less [of x] by simp

lemma bval_less: "bval b < 2 ^ (32 * length b)"
proof (induction b)
  case (Cons x xs)
  have "unat x + 2 ^ 32 * bval xs < 2 ^ 32 + 2 ^ 32 * bval xs" using limb_less [of x] by simp
  also have "\<dots> \<le> 2 ^ 32 * 2 ^ (32 * length xs)" using Cons by (simp add: Suc_le_eq flip: mult_Suc_right)
  finally show ?case by (simp add: power_add)
qed simp

lemma normal_last:
  assumes "normal b" and "b \<noteq> []"
  obtains ys y where "b = ys @ [y]" and "y \<noteq> 0"
  using assms by (cases b rule: rev_cases) auto

lemma bval_normal_ge:
  assumes "normal b" and "b \<noteq> []"
  shows "2 ^ (32 * (length b - 1)) \<le> bval b"
proof -
  obtain ys y where b: "b = ys @ [y]" and y: "y \<noteq> 0" using assms by (rule normal_last)
  have "1 \<le> unat y" using y by (simp add: Suc_le_eq unat_gt_0)
  then have "2 ^ (32 * length ys) * 1 \<le> 2 ^ (32 * length ys) * unat y" by (rule mult_le_mono2)
  then show ?thesis by (simp add: b bval_append trans_le_add2)
qed

lemma bval_eq_0_iff: "normal b \<Longrightarrow> bval b = 0 \<longleftrightarrow> b = []"
  using bval_normal_ge [of b] by (cases "b = []") (auto intro: ccontr)

lemma normal_fits:
  assumes "normal b" and "bval b < 2 ^ (32 * n)"
  shows "length b \<le> n"
proof (cases "b = []")
  case False
  then have "(2::nat) ^ (32 * (length b - 1)) < 2 ^ (32 * n)"
    using bval_normal_ge [OF assms(1)] assms(2) by linarith
  then have "32 * (length b - 1) < 32 * n" by (simp only: power_strict_increasing_iff)
  then show ?thesis by simp
qed simp

section \<open>The operations compute on numbers\<close>

text \<open>What a number of \<open>kMaxLimbs\<close> limbs cannot reach.\<close>

definition BIG_LIMIT :: nat where
  "BIG_LIMIT = 2 ^ (32 * kMaxLimbs)"

lemma below_limit:
  assumes "2 ^ (32 * n) \<le> m" and "m < BIG_LIMIT"
  shows "n < kMaxLimbs"
proof -
  have "(2::nat) ^ (32 * n) < 2 ^ (32 * kMaxLimbs)" using assms unfolding BIG_LIMIT_def by linarith
  then have "32 * n < 32 * kMaxLimbs" by (simp only: power_strict_increasing_iff)
  then show ?thesis by simp
qed

lemma unat_widen [simp]: "unat (ucast (x :: u32) :: u64) = unat x"
  using limb_less [of x] by (simp add: unsigned_ucast_eq take_bit_nat_eq_self)

lemma unat_narrow: "unat (ucast (w :: u64) :: u32) = unat w mod 2 ^ 32"
  by (simp add: unsigned_ucast_eq take_bit_eq_mod)

lemma unat_low: "unat (w AND 0xFFFFFFFF) = unat (w :: u64) mod 2 ^ 32"
  using and_pow2_mod [of "2 ^ 32" 32 "unat w"] by (simp add: unsigned_and_eq)

lemma low_limb: "unat (ucast (w AND 0xFFFFFFFF) :: u32) = unat (w :: u64) mod 2 ^ 32"
  by (simp only: unat_narrow unat_low mod_mod_trivial)

lemma high_limb: "unat (drop_bit 32 (w :: u64)) = unat w div 2 ^ 32"
  by (rule unat_shift_right)

lemma limb_step_fits:
  assumes "unat (c :: u64) < 2 ^ 32"
  shows "unat (ucast (x :: u32) * ucast (m :: u32) + c :: u64) = unat x * unat m + unat c"
proof -
  have "unat x \<le> 2 ^ 32 - 1" "unat m \<le> 2 ^ 32 - 1" using limb_less [of x] limb_less [of m] by simp_all
  then have "unat x * unat m \<le> (2 ^ 32 - 1) * (2 ^ 32 - 1)" by (rule mult_le_mono)
  then have "unat x * unat m + unat c < 2 ^ 64" using assms by simp
  then have "unat x * unat m + unat c < 2 ^ LENGTH(64)" "unat x * unat m < 2 ^ LENGTH(64)" by simp_all
  then show ?thesis by (simp only: unat_word_ariths unat_widen mod_less)
qed

lemma mul_limbs_correct:
  assumes "unat c < 2 ^ 32" and "mul_limbs b m c = (b', c')"
  shows "length b' = length b \<and> unat c' < 2 ^ 32
    \<and> bval b' + 2 ^ (32 * length b) * unat c' = bval b * unat m + unat c"
  using assms
proof (induction b arbitrary: b' c c')
  case (Cons x xs)
  define p :: u64 where "p = ucast x * ucast m + c"
  have p: "unat p = unat x * unat m + unat c" unfolding p_def using Cons.prems(1) by (rule limb_step_fits)
  obtain ys where r: "mul_limbs xs m (drop_bit 32 p) = (ys, c')" and b': "b' = ucast (p AND 0xFFFFFFFF) # ys"
    using Cons.prems(2) by (auto simp: p_def Let_def split: prod.splits)
  have "unat p div 2 ^ 32 < 2 ^ 32" using unsigned_less [where 'a = nat, of p] by (simp add: less_mult_imp_div_less)
  from Cons.IH [OF this [folded high_limb] r]
  have IH: "length ys = length xs" "unat c' < 2 ^ 32"
    "bval ys + 2 ^ (32 * length xs) * unat c' = bval xs * unat m + unat p div 2 ^ 32"
    by (simp_all add: high_limb)
  have "bval b' + 2 ^ (32 * length (x # xs)) * unat c' =
      unat p mod 2 ^ 32 + 2 ^ 32 * (bval ys + 2 ^ (32 * length xs) * unat c')"
    by (simp add: b' low_limb power_add algebra_simps)
  also have "\<dots> = unat p + 2 ^ 32 * (bval xs * unat m)"
    unfolding IH(3) by (simp only: distrib_left) simp
  finally show ?case using IH(1,2) b' p by (simp add: algebra_simps)
qed auto

lemma push_carry_correct:
  assumes "unat c < 2 ^ 32" and "bval b + 2 ^ (32 * length b) * unat c < BIG_LIMIT"
  shows "push_carry b c = (if c = 0 then b else b @ [ucast c])"
proof (cases "c = 0")
  case False
  then have "1 \<le> unat c" by (simp add: Suc_le_eq unat_gt_0)
  then have "2 ^ (32 * length b) * 1 \<le> 2 ^ (32 * length b) * unat c" by (rule mult_le_mono2)
  then have "length b < kMaxLimbs" by (intro below_limit [OF _ assms(2)]) linarith
  moreover have "unat (drop_bit 32 c) = 0" using assms(1) by (simp add: high_limb)
  then have "drop_bit 32 c = 0" by (simp add: unat_eq_zero)
  moreover have "unat (ucast (c AND 0xFFFFFFFF) :: u32) = unat (ucast c :: u32)" by (simp add: unat_narrow unat_low)
  then have "(ucast (c AND 0xFFFFFFFF) :: u32) = ucast c" by (rule word_unat_eq_iff [THEN iffD2])
  ultimately show ?thesis using False by (simp add: push_carry.simps)
qed (simp add: push_carry.simps)

lemma MulAddSmall_correct:
  assumes "bval b * unat m + unat a < BIG_LIMIT"
  shows "bval (MulAddSmall b m a) = bval b * unat m + unat a"
proof -
  obtain b' c where r: "mul_limbs b m (ucast a) = (b', c)" by (cases "mul_limbs b m (ucast a)")
  have a: "unat (ucast a :: u64) = unat a" by simp
  have R: "length b' = length b" "unat c < 2 ^ 32" "bval b' + 2 ^ (32 * length b) * unat c = bval b * unat m + unat a"
    using mul_limbs_correct [OF _ r] a limb_less [of a] by simp_all
  have "unat (ucast c :: u32) = unat c" using R(2) by (simp add: unat_narrow)
  then have "bval (push_carry b' c) = bval b' + 2 ^ (32 * length b) * unat c"
    using push_carry_correct [of c b'] R assms by (auto simp: bval_append)
  then show ?thesis using R(3) by (simp add: MulAddSmall_def r)
qed


lemma mul_limbs_last:
  assumes "mul_limbs b m c = (b', c')" and "unat c < 2 ^ 32" and "normal b" and "m \<noteq> 0" and "c' = 0"
  shows "normal b'"
proof (cases "b = []")
  case False
  have R: "length b' = length b" "bval b' = bval b * unat m + unat c"
    using mul_limbs_correct [OF assms(2,1)] assms(5) by simp_all
  have "1 \<le> unat m" using assms(4) by (simp add: Suc_le_eq unat_gt_0)
  then have "bval b * 1 \<le> bval b * unat m" by (rule mult_le_mono2)
  then have ge: "2 ^ (32 * (length b - 1)) \<le> bval b'"
    using bval_normal_ge [OF assms(3) False] R(2) by linarith
  obtain ys y where b': "b' = ys @ [y]" using R(1) False by (cases b' rule: rev_cases) auto
  have "length ys = length b - 1" using R(1) b' by simp
  then have "y \<noteq> 0" using ge bval_less [of ys] by (auto simp: b' bval_append)
  then show ?thesis by (simp add: b')
qed (use assms in simp)

lemma MulAddSmall_normal:
  assumes "normal b" and "m \<noteq> 0" and "bval b * unat m + unat a < BIG_LIMIT"
  shows "normal (MulAddSmall b m a)"
proof -
  obtain b' c where r: "mul_limbs b m (ucast a) = (b', c)" by (cases "mul_limbs b m (ucast a)")
  have R: "length b' = length b" "unat c < 2 ^ 32" "bval b' + 2 ^ (32 * length b) * unat c = bval b * unat m + unat a"
    using mul_limbs_correct [OF _ r] limb_less [of a] by simp_all
  have push: "push_carry b' c = (if c = 0 then b' else b' @ [ucast c])"
    by (rule push_carry_correct) (use R assms(3) in simp_all)
  have "(ucast c :: u32) \<noteq> 0" if "c \<noteq> 0"
  proof -
    have "unat (ucast c :: u32) \<noteq> 0" using that R(2) by (simp add: unat_narrow unat_eq_zero)
    then show ?thesis by auto
  qed
  then show ?thesis using mul_limbs_last [OF r _ assms(1,2)] limb_less [of a] by (simp add: MulAddSmall_def r push)
qed

text \<open>What the callers see: a number and its normal form.\<close>

definition holds :: "BigUInt \<Rightarrow> nat \<Rightarrow> bool" where
  "holds b n = (normal b \<and> bval b = n)"

lemma holds_zero: "holds b 0 \<longleftrightarrow> b = []"
  using bval_eq_0_iff [of b] by (auto simp: holds_def)

lemma holds_IsZero: "holds b n \<Longrightarrow> Big_IsZero b \<longleftrightarrow> n = 0"
  using bval_eq_0_iff [of b] by (auto simp: holds_def Big_IsZero_def)

lemma holds_MulAddSmall:
  "holds b n \<Longrightarrow> m \<noteq> 0 \<Longrightarrow> n * unat m + unat a < BIG_LIMIT \<Longrightarrow> holds (MulAddSmall b m a) (n * unat m + unat a)"
  using MulAddSmall_correct [of b m a] MulAddSmall_normal [of b m a] by (simp add: holds_def)

lemma holds_MulSmall:
  "holds b n \<Longrightarrow> m \<noteq> 0 \<Longrightarrow> n * unat m < BIG_LIMIT \<Longrightarrow> holds (MulSmall b m) (n * unat m)"
  using holds_MulAddSmall [of b n m 0] by (simp add: MulSmall_def)

lemma holds_SetU64: "holds (SetU64 v) (unat v)"
proof -
  have lo: "unat v = unat (ucast (v AND 0xFFFFFFFF) :: u32) + 2 ^ 32 * unat (drop_bit 32 v)"
    by (simp add: low_limb high_limb)
  let ?w = "drop_bit 32 v"
  have w: "unat ?w < 2 ^ 32" using unsigned_less [where 'a = nat, of v] by (simp add: high_limb less_mult_imp_div_less)
  have "unat (drop_bit 32 ?w) = 0" using w by (simp add: high_limb)
  then have z: "drop_bit 32 ?w = 0" by (simp add: unat_eq_zero)
  have hi: "unat (ucast (?w AND 0xFFFFFFFF) :: u32) = unat ?w" using w by (simp add: low_limb)
  consider "v = 0" | "v \<noteq> 0" "?w = 0" | "v \<noteq> 0" "?w \<noteq> 0" by blast
  then show ?thesis
  proof cases
    case 2
    then have "unat (ucast (v AND 0xFFFFFFFF) :: u32) = unat v" using lo by simp
    moreover from this have "(ucast (v AND 0xFFFFFFFF) :: u32) \<noteq> 0" using 2(1) by (metis unat_eq_zero)
    ultimately show ?thesis
      using 2 by (simp add: SetU64_def SetU64_loop.simps [of "[]"] SetU64_loop.simps [of _ 0] holds_def normal_def)
  next
    case 3
    have "(ucast (?w AND 0xFFFFFFFF) :: u32) \<noteq> 0" using hi 3(2) by (metis unat_eq_zero)
    then show ?thesis
      using 3 z lo hi by (simp add: SetU64_def SetU64_loop.simps [of "[]"] SetU64_loop.simps [of _ ?w]
          SetU64_loop.simps [of _ 0] holds_def normal_def)
  qed (simp add: SetU64_def SetU64_loop.simps holds_def)
qed


subsection \<open>Shifting\<close>

lemma unat_push_or:
  assumes "unat (c :: u32) < 2 ^ n" and "n \<le> 32"
  shows "unat (push_bit n x OR c) + 2 ^ 32 * (unat x div 2 ^ (32 - n)) = unat x * 2 ^ n + unat c"
proof -
  have e: "(2::nat) ^ 32 = 2 ^ n * 2 ^ (32 - n)" using assms(2) by (simp flip: power_add)
  have sh: "unat (push_bit n x) = unat x * 2 ^ n mod 2 ^ 32"
    by (simp only: unat_push) simp
  also have "\<dots> = 2 ^ n * (unat x mod 2 ^ (32 - n))" unfolding e by (simp add: mult.commute)
  finally have sh': "unat (push_bit n x) = 2 ^ n * (unat x mod 2 ^ (32 - n))" .
  have "unat x mod 2 ^ (32 - n) + 1 \<le> 2 ^ (32 - n)" by (simp add: Suc_le_eq)
  then have "2 ^ n * (unat x mod 2 ^ (32 - n) + 1) \<le> 2 ^ n * 2 ^ (32 - n)" by (rule mult_le_mono2)
  then have "unat (push_bit n x) + unat c < 2 ^ 32" using assms(1) e sh' by simp
  then have "unat (push_bit n x OR c) = unat (push_bit n x) + unat c"
    using assms(1) by (simp add: push_or_add unat_word_ariths)
  moreover have "unat x * 2 ^ n = 2 ^ n * (unat x mod 2 ^ (32 - n)) + 2 ^ 32 * (unat x div 2 ^ (32 - n))"
    unfolding e by (simp add: algebra_simps flip: distrib_left)
  ultimately show ?thesis using sh' by simp
qed

lemma shift_limbs_correct:
  assumes "0 < n" and "n < 32" and "unat c < 2 ^ n" and "shift_limbs b n c = (b', c')"
  shows "length b' = length b \<and> unat c' < 2 ^ n
    \<and> bval b' + 2 ^ (32 * length b) * unat c' = bval b * 2 ^ n + unat c"
  using assms(3,4)
proof (induction b arbitrary: b' c c')
  case (Cons x xs)
  let ?d = "drop_bit (32 - n) x"
  obtain ys where r: "shift_limbs xs n ?d = (ys, c')" and b': "b' = (push_bit n x OR c) # ys"
    using Cons.prems(2) by (auto simp: Let_def split: prod.splits)
  have "(2::nat) ^ 32 = 2 ^ n * 2 ^ (32 - n)" using assms(2) by (simp flip: power_add)
  then have "unat x < 2 ^ n * 2 ^ (32 - n)" using limb_less [of x] by simp
  then have d: "unat ?d < 2 ^ n" by (simp add: unat_shift_right less_mult_imp_div_less)
  from Cons.IH [OF d r]
  have IH: "length ys = length xs" "unat c' < 2 ^ n"
    "bval ys + 2 ^ (32 * length xs) * unat c' = bval xs * 2 ^ n + unat ?d" by simp_all
  have "bval b' + 2 ^ (32 * length (x # xs)) * unat c' =
      unat (push_bit n x OR c) + 2 ^ 32 * (bval ys + 2 ^ (32 * length xs) * unat c')"
    by (simp add: b' power_add algebra_simps)
  also have "\<dots> = (unat (push_bit n x OR c) + 2 ^ 32 * unat ?d) + 2 ^ 32 * (bval xs * 2 ^ n)"
    unfolding IH(3) by (simp only: distrib_left ac_simps)
  also have "\<dots> = unat x * 2 ^ n + unat c + 2 ^ 32 * (bval xs * 2 ^ n)"
    using unat_push_or [OF Cons.prems(1), of x] assms(2) by (simp add: unat_shift_right)
  finally show ?case using IH(1,2) b' by (simp add: algebra_simps)
qed simp

lemma normal_top_limb:
  assumes "length b' = length b" and "bval b' \<ge> bval b" and "normal b"
  shows "normal b'"
proof (cases "b = []")
  case False
  obtain ys y where b': "b' = ys @ [y]" using assms(1) False by (cases b' rule: rev_cases) auto
  have "length ys = length b - 1" using assms(1) b' by simp
  moreover have "2 ^ (32 * (length b - 1)) \<le> bval b'" using bval_normal_ge [OF assms(3) False] assms(2) by linarith
  ultimately have "y \<noteq> 0" using bval_less [of ys] by (auto simp: b' bval_append)
  then show ?thesis by (simp add: b')
qed (use assms in simp)

lemma holds_shift_part:
  assumes "holds b n" and "0 < p" and "p < 32" and "n * 2 ^ p < BIG_LIMIT"
    and "shift_limbs b p 0 = (b', c)"
  shows "holds (if c \<noteq> 0 \<and> length b' < kMaxLimbs then b' @ [c] else b') (n * 2 ^ p)"
proof -
  have R: "length b' = length b" "bval b' + 2 ^ (32 * length b) * unat c = n * 2 ^ p"
    using shift_limbs_correct [OF assms(2,3) _ assms(5)] assms(1) by (auto simp: holds_def)
  show ?thesis
  proof (cases "c = 0")
    case True
    have "n * 1 \<le> n * 2 ^ p" by (rule mult_le_mono2) simp
    then show ?thesis using R True assms(1) normal_top_limb [of b' b] by (simp add: holds_def)
  next
    case False
    then have "1 \<le> unat c" by (simp add: Suc_le_eq unat_gt_0)
    then have "2 ^ (32 * length b) * 1 \<le> 2 ^ (32 * length b) * unat c" by (rule mult_le_mono2)
    then have "length b < kMaxLimbs" by (intro below_limit [OF _ assms(4)]) (use R(2) in linarith)
    then show ?thesis using R False by (simp add: holds_def bval_append)
  qed
qed

lemma holds_limbs: "holds b n \<Longrightarrow> n < BIG_LIMIT \<Longrightarrow> length b \<le> kMaxLimbs"
  using normal_fits [of b kMaxLimbs] by (simp add: holds_def BIG_LIMIT_def)

lemma holds_ShiftLeft:
  assumes "holds b n" and "0 \<le> k" and "n * 2 ^ nat k < BIG_LIMIT"
  shows "holds (ShiftLeft b k) (n * 2 ^ nat k)"
proof (cases "n = 0 \<or> k = 0")
  case True
  then show ?thesis using assms(1) holds_zero [of b] by (auto simp: ShiftLeft_def Big_IsZero_def)
next
  case False
  then have b: "\<not> Big_IsZero b" using assms(1) by (simp add: holds_IsZero)
  define whole where "whole = nat k div 32"
  define part where "part = nat k mod 32"
  have k: "nat k = part + 32 * whole" by (simp add: whole_def part_def)
  define b1 where "b1 = (if part \<noteq> 0 then let (b', carry) = shift_limbs b part 0
      in if carry \<noteq> 0 \<and> length b' < kMaxLimbs then b' @ [carry] else b' else b)"
  have fit: "n * 2 ^ part * 2 ^ (32 * whole) < BIG_LIMIT" using assms(3) by (simp add: k power_add mult.assoc)
  have "n * 2 ^ part * 1 \<le> n * 2 ^ part * 2 ^ (32 * whole)" by (rule mult_le_mono2) simp
  then have fit': "n * 2 ^ part < BIG_LIMIT" using fit by linarith
  have b1: "holds b1 (n * 2 ^ part)"
  proof (cases "part = 0")
    case False
    have "part < 32" by (simp add: part_def)
    moreover obtain b' c where r: "shift_limbs b part 0 = (b', c)" by (cases "shift_limbs b part 0")
    ultimately show ?thesis
      using holds_shift_part [OF assms(1) _ _ fit' r] False by (simp add: b1_def r)
  qed (use assms(1) in \<open>simp add: b1_def\<close>)
  have S: "ShiftLeft b k = (if whole \<noteq> 0 then take kMaxLimbs (replicate whole 0 @ b1) else b1)"
    using False b assms(2) by (simp add: ShiftLeft_def Let_def whole_def part_def b1_def)
  have v: "bval (replicate whole 0 @ b1) = n * 2 ^ part * 2 ^ (32 * whole)"
    using b1 by (simp add: bval_append holds_def)
  have "b1 \<noteq> []" using b1 False holds_zero [of b1] by (auto simp: holds_def)
  then have "normal (replicate whole 0 @ b1)" using b1 by (simp add: holds_def normal_def)
  then have h: "holds (replicate whole 0 @ b1) (n * 2 ^ part * 2 ^ (32 * whole))"
    using v by (simp add: holds_def)
  have "take kMaxLimbs (replicate whole 0 @ b1) = replicate whole 0 @ b1"
    using holds_limbs [OF h fit] by simp
  then show ?thesis using S h b1 by (simp add: k power_add mult.assoc)
qed

subsection \<open>Division\<close>

lemma bval_Trim [simp]: "bval (Trim b) = bval b"
  by (induction b) (auto split: list.splits)

lemma normal_Trim: "normal (Trim b)"
  by (induction b) (auto simp: normal_def split: list.splits)

lemma div_limbs_correct:
  assumes "d \<noteq> 0" and "div_limbs b d = (q, r)"
  shows "bval q = bval b div unat d \<and> unat r = bval b mod unat d"
  using assms(2)
proof (induction b arbitrary: q r)
  case (Cons x xs)
  obtain qs r' where R: "div_limbs xs d = (qs, r')" by (cases "div_limbs xs d")
  have IH: "bval qs = bval xs div unat d" "unat r' = bval xs mod unat d" using Cons.IH [OF R] by simp_all
  let ?c = "push_bit 32 r' OR ucast x :: u64"
  have d: "0 < unat d" using assms(1) by (simp add: unat_gt_0)
  then have r': "unat r' < unat d" using IH(2) by simp
  have "unat (push_bit 32 r') = unat r' * 2 ^ 32"
    unfolding unat_push using r' limb_less [of d] by simp
  then have c: "unat ?c = unat r' * 2 ^ 32 + unat x"
    using push_or_add [of "ucast x :: u64" 32 r'] limb_less [of x] limb_less [of d] r' by (simp add: unat_word_ariths)
  have "unat r' * 2 ^ 32 + unat x < (unat r' + 1) * 2 ^ 32" using limb_less [of x] by simp
  also have "\<dots> \<le> unat d * 2 ^ 32" using r' by (intro mult_le_mono1) simp
  finally have "unat ?c < unat d * 2 ^ 32" by (simp only: c)
  then have qfit: "unat ?c div unat d < 2 ^ 32" using d by (simp add: div_less_iff_less_mult mult.commute)
  have q: "q = ucast (?c div ucast d) # qs" and r: "r = ?c mod ucast d"
    using Cons.prems by (simp_all add: R Let_def)
  have uq: "unat (ucast (?c div ucast d) :: u32) = unat ?c div unat d"
    using qfit by (simp add: unat_narrow unat_div_distrib)
  have ur: "unat r = unat ?c mod unat d" by (simp add: r unat_mod_distrib)
  have b: "bval (x # xs) = unat ?c + unat d * (2 ^ 32 * (bval xs div unat d))"
  proof -
    have "bval xs = unat r' + unat d * (bval xs div unat d)" by (simp add: IH(2))
    then have "bval (x # xs) = unat x + 2 ^ 32 * (unat r' + unat d * (bval xs div unat d))" by simp
    also have "\<dots> = unat ?c + unat d * (2 ^ 32 * (bval xs div unat d))"
      unfolding c by (simp add: algebra_simps)
    finally show ?thesis .
  qed
  have "bval q = unat ?c div unat d + 2 ^ 32 * (bval xs div unat d)" by (simp add: q uq IH(1))
  also have "\<dots> = bval (x # xs) div unat d" unfolding b using d by simp
  finally show ?case using ur by (simp only: b mod_mult_self2)
qed simp

lemma holds_DivModSmall:
  assumes "holds b n" and "d \<noteq> 0" and "DivModSmall b d = (q, r)"
  shows "holds q (n div unat d) \<and> unat r = n mod unat d"
proof -
  obtain q' r' where R: "div_limbs b d = (q', r')" by (cases "div_limbs b d")
  have c: "bval q' = n div unat d" "unat r' = n mod unat d"
    using div_limbs_correct [OF assms(2) R] assms(1) by (simp_all add: holds_def)
  have "unat r' < unat d" using c(2) assms(2) by (simp add: unat_gt_0)
  then have "unat (ucast r' :: u32) = unat r'" using limb_less [of d] by (simp add: unat_narrow)
  then show ?thesis using assms(3) c by (auto simp: DivModSmall_def R holds_def normal_Trim)
qed


subsection \<open>Reading bits\<close>

lemma top_bits_correct: "v \<noteq> 0 \<Longrightarrow> \<exists>k. top_bits v n = n + int k \<and> 0 < k \<and> 2 ^ (k - 1) \<le> unat v \<and> unat v < 2 ^ k"
proof (induction v n rule: top_bits.induct)
  case (1 v n)
  show ?case
  proof (cases "drop_bit 1 v = 0")
    case True
    then have "unat v div 2 = 0" using unat_shift_right [of 1 v] by simp
    then have "unat v < 2" by simp
    moreover have "1 \<le> unat v" using 1(2) by (simp add: Suc_le_eq unat_gt_0)
    ultimately show ?thesis
      using 1(2) True by (intro exI [of _ 1]) (simp add: top_bits.simps [of v] top_bits.simps [of 0])
  next
    case False
    from 1(1) [OF 1(2) False] obtain k where
      k: "top_bits (drop_bit 1 v) (n + 1) = n + 1 + int k" "0 < k"
        "2 ^ (k - 1) \<le> unat v div 2" "unat v div 2 < 2 ^ k"
      using unat_shift_right [of 1 v] by auto
    have "2 ^ (k - 1) * 2 = (2 :: nat) ^ k" using k(2) by (cases k) simp_all
    then have "2 ^ k \<le> unat v" "unat v < 2 ^ Suc k" using k(3,4) by simp_all
    then show ?thesis using 1(2) k by (intro exI [of _ "Suc k"]) (simp add: top_bits.simps [of v])
  qed
qed

lemma BitLength_zero: "BitLength [] = 0"
  by (simp add: BitLength_def)

lemma BitLength_correct:
  assumes "holds b n" and "0 < n"
  obtains k where "BitLength b = int k" and "0 < k" and "2 ^ (k - 1) \<le> n" and "n < 2 ^ k"
proof -
  have "b \<noteq> []" using assms by (auto simp: holds_def)
  then obtain ys y where b: "b = ys @ [y]" "y \<noteq> 0" using assms(1) normal_last [of b] by (auto simp: holds_def)
  from top_bits_correct [OF b(2), of 0] obtain j where
    j: "top_bits y 0 = int j" "0 < j" "2 ^ (j - 1) \<le> unat y" "unat y < 2 ^ j" by auto
  have n: "n = bval ys + 2 ^ (32 * length ys) * unat y" using assms(1) by (simp add: holds_def b bval_append)
  let ?k = "32 * length ys + j"
  have "2 ^ (32 * length ys) * 2 ^ (j - 1) \<le> 2 ^ (32 * length ys) * unat y" using j(3) by (rule mult_le_mono2)
  then have "2 ^ (?k - 1) \<le> n" using j(2) by (simp add: n trans_le_add2 flip: power_add)
  moreover have "n < 2 ^ ?k"
  proof -
    have "n < 2 ^ (32 * length ys) * (unat y + 1)" using bval_less [of ys] by (simp add: n)
    also have "\<dots> \<le> 2 ^ (32 * length ys) * 2 ^ j" using j(4) by (intro mult_le_mono2) simp
    finally show ?thesis by (simp add: power_add)
  qed
  moreover have "BitLength b = int ?k" using j(1) by (simp add: BitLength_def b)
  ultimately show ?thesis using j(2) by (intro that [of ?k]) simp_all
qed

lemma bval_bit: "i < 32 * length b \<Longrightarrow> bit (bval b) i = bit (b ! (i div 32)) (i mod 32)"
proof (induction b arbitrary: i)
  case (Cons x xs)
  show ?case
  proof (cases "i < 32")
    case True
    then have "bit (bval (x # xs)) i = bit (take_bit 32 (bval (x # xs))) i" by (simp add: bit_take_bit_iff)
    also have "take_bit 32 (bval (x # xs)) = unat x" using limb_less [of x] by (simp add: take_bit_eq_mod)
    finally show ?thesis using True by (simp add: bit_unsigned_iff)
  next
    case False
    then obtain j where j: "i = 32 + j" by (metis add_diff_inverse_nat)
    have "bit (bval (x # xs)) i = bit (drop_bit 32 (bval (x # xs))) j" by (simp add: bit_drop_bit_eq j)
    also have "drop_bit 32 (bval (x # xs)) = bval xs" using limb_less [of x] by (simp add: drop_bit_eq_div)
    also have "bit (bval xs) j = bit (xs ! (j div 32)) (j mod 32)" using Cons.IH [of j] Cons.prems by (simp add: j)
    also have "i div 32 = Suc (j div 32)" unfolding j by presburger
    then have "xs ! (j div 32) = (x # xs) ! (i div 32)" by simp
    finally show ?thesis by (simp add: j)
  qed
qed simp

lemma BitAt_correct:
  assumes "holds b n"
  shows "BitAt b i = (0 \<le> i \<and> bit n (nat i))"
proof -
  consider "i < 0" | "0 \<le> i" "i < int (length b) * 32" | "int (length b) * 32 \<le> i" by linarith
  then show ?thesis
  proof cases
    case 2
    then have "nat i < 32 * length b" by linarith
    then have "bit n (nat i) = bit (b ! (nat i div 32)) (nat i mod 32)" using bval_bit [of "nat i" b] assms by (simp add: holds_def)
    then show ?thesis using 2
      by (simp add: BitAt_def nat_div_distrib nat_mod_distrib bit_iff_odd_drop_bit and_one_eq odd_iff_mod_2_eq_one)
  next
    case 3
    then have "32 * length b \<le> nat i" by linarith
    then have "(2::nat) ^ (32 * length b) \<le> 2 ^ nat i" by (rule power_increasing) simp
    then have "n < 2 ^ nat i" using bval_less [of b] assms unfolding holds_def by linarith
    then show ?thesis using 3 by (simp add: BitAt_def bit_nat_def)
  qed (simp add: BitAt_def)
qed

lemma any_bit_correct:
  "holds b n \<Longrightarrow> 0 \<le> i \<Longrightarrow> any_bit b i k = (\<exists>j. nat i \<le> j \<and> j < nat i + k \<and> bit n j)"
proof (induction k arbitrary: i)
  case (Suc k)
  let ?i = "nat i"
  have IH: "any_bit b (i + 1) k = (\<exists>j. Suc ?i \<le> j \<and> j < Suc ?i + k \<and> bit n j)"
    using Suc.IH [of "i + 1"] Suc.prems by (simp add: nat_add_distrib)
  have split: "(\<exists>j. ?i \<le> j \<and> j < ?i + Suc k \<and> P j) = (P ?i \<or> (\<exists>j. Suc ?i \<le> j \<and> j < Suc ?i + k \<and> P j))" for P
    by (metis Suc_leD Suc_le_eq add_Suc_right add_Suc less_add_Suc1 order_refl le_neq_implies_less)
  show ?case using Suc.prems IH split [of "bit n"] by (simp add: BitAt_correct)
qed simp

lemma low_bits_zero: "(\<exists>j < k. bit (n :: nat) j) \<longleftrightarrow> n mod 2 ^ k \<noteq> 0"
proof -
  have "take_bit k n = 0 \<longleftrightarrow> (\<forall>j. \<not> bit (take_bit k n) j)"
    by (auto intro: bit_eqI)
  also have "\<dots> \<longleftrightarrow> (\<forall>j < k. \<not> bit n j)" by (simp add: bit_take_bit_iff)
  finally show ?thesis by (auto simp: take_bit_eq_mod)
qed

lemma AnyBitBelow_correct:
  assumes "holds b n"
  shows "AnyBitBelow b i = (n mod 2 ^ nat i \<noteq> 0)"
proof (cases "i \<le> 0")
  case False
  let ?l = "if i < int (length b) * 32 then i else int (length b) * 32"
  have "any_bit b 0 (nat ?l) = (\<exists>j < nat ?l. bit n j)" using any_bit_correct [OF assms] by simp
  also have "\<dots> = (\<exists>j < nat i. bit n j)"
  proof
    have "nat ?l \<le> nat i" by (simp add: nat_mono)
    then show "\<exists>j < nat i. bit n j" if "\<exists>j < nat ?l. bit n j" using that less_le_trans by blast
    show "\<exists>j < nat ?l. bit n j" if "\<exists>j < nat i. bit n j"
    proof -
      from that obtain j where j: "j < nat i" "bit n j" by blast
      have "n < 2 ^ (32 * length b)" using assms bval_less [of b] by (simp add: holds_def)
      then have "take_bit (32 * length b) n = n" by (simp add: take_bit_nat_eq_self)
      then have "bit (take_bit (32 * length b) n) j" using j(2) by simp
      then have "j < 32 * length b" by (simp add: bit_take_bit_iff)
      then have "j < nat ?l" using j(1) by (auto simp: nat_mult_distrib)
      then show ?thesis using j(2) by blast
    qed
  qed
  finally show ?thesis using False by (simp add: AnyBitBelow_def Let_def low_bits_zero)
qed (use assms in \<open>simp add: AnyBitBelow_def\<close>)


lemma div_step: "n div 2 ^ i = 2 * (n div 2 ^ Suc i) + of_bool (bit (n :: nat) i)"
proof -
  have "n div 2 ^ Suc i = n div 2 ^ i div 2" by (simp only: power_Suc2 div_mult2_eq)
  moreover have "m = 2 * (m div 2) + of_bool (odd m)" for m :: nat by (cases "even m") simp_all
  ultimately show ?thesis by (simp only: bit_iff_odd)
qed

lemma high_bits_correct:
  assumes "holds b n" and "n < 2 ^ (64 + l)" and "unat v = n div 2 ^ (l + k)"
  shows "unat (high_bits b (int (l + k) - 1) k v) = n div 2 ^ l"
  using assms(3)
proof (induction k arbitrary: v)
  case (Suc k)
  let ?b = "if BitAt b (int (l + Suc k) - 1) then 1 else 0 :: u64"
  have bit: "BitAt b (int (l + Suc k) - 1) = bit n (l + k)"
    using BitAt_correct [OF assms(1), of "int (l + k)"] by (simp flip: of_nat_add)
  have "n div 2 ^ (l + k) \<le> n div 2 ^ l" by (rule div_le_mono2) simp_all
  also have "n div 2 ^ l < 2 ^ 64" using assms(2) by (simp add: power_add less_mult_imp_div_less)
  finally have fit: "n div 2 ^ (l + k) < 2 ^ 64" .
  have step: "n div 2 ^ (l + k) = 2 * unat v + of_bool (bit n (l + k))"
    using div_step [of n "l + k"] Suc.prems by simp
  have "unat (push_bit 1 v) = 2 * unat v" unfolding unat_push using fit step by simp
  moreover have "push_bit 1 v OR ?b = push_bit 1 v + ?b" by (rule push_or_add) simp
  ultimately have "unat (push_bit 1 v OR ?b) = n div 2 ^ (l + k)"
    using fit step bit by (simp add: unat_word_ariths split: if_splits)
  from Suc.IH [OF this] show ?case by (simp add: algebra_simps)
qed simp

lemma HighBits_correct:
  assumes "holds b n" and "BitLength b = int len" and "n < 2 ^ len"
    and "len - k = low" and "len \<le> 64 + low"
  shows "unat (fst (HighBits b (int k))) = n div 2 ^ low"
proof -
  have "nat (int len - max (int len - int k) 0) = len - low" using assms(4) by auto
  moreover have "low + (len - low) = len" using assms(4) by simp
  moreover have "n < 2 ^ (64 + low)"
    using assms(3) power_increasing [OF assms(5), of "2 :: nat"] by linarith
  ultimately show ?thesis
    using high_bits_correct [of b n low 0 "len - low"] assms by (simp add: HighBits_def Let_def)
qed

end
