(* ===== verification/Float_Format.thy ===== *)
theory Float_Format
  imports Decimal_Bignum
begin

unbundle bit_operations_syntax

text \<open>
  \<open>strings/float_format.cc\<close>: a double printed from its exact decimal expansion. A \<open>Decimal\<close> is its
  digits, the \<open>count\<close> characters of the array that are in use, and the exponent of
  \<open>0.digits * 10 ^ exponent\<close>. The scratch array of the expansion has 800 characters and a write past
  it faults. A \<open>Writer\<close> stores what fits and counts everything.
\<close>

section \<open>Exact expansion\<close>

record Decimal =
  dec_digits :: "u8 list"
  dec_exponent :: int

definition kPow5Table :: "nat \<Rightarrow> u32" where
  "kPow5Table n = [1, 5, 25, 125, 625, 3125, 15625, 78125, 390625, 1953125, 9765625, 48828125, 244140625] ! n"

text \<open>Multiplies by five to the power; \<open>5 ^ 13 = 1220703125\<close> is the largest that fits a limb.\<close>

fun multiply_fives :: "nat \<Rightarrow> BigUInt \<Rightarrow> BigUInt" where
  "multiply_fives fives n =
     (if fives \<ge> 13 then multiply_fives (fives - 13) (MulSmall n 1220703125)
      else if fives \<noteq> 0 then MulSmall n (kPow5Table fives) else n)"

declare multiply_fives.simps [simp del]

text \<open>The digits of a group, the last one first.\<close>

fun group_digits :: "nat \<Rightarrow> u32 \<Rightarrow> u8 list" where
  "group_digits 0 g = []"
| "group_digits (Suc n) g = ucast (48 + g mod 10) # group_digits n (g div 10)"

lemma DivModSmall_smaller:
  assumes "\<not> Big_IsZero n" and "1 < unat d"
  shows "(fst (DivModSmall n d), n) \<in> measures [bval, length]"
proof -
  obtain q r where R: "div_limbs n d = (q, r)" by (cases "div_limbs n d")
  have "bval q = bval n div unat d" using div_limbs_correct [OF _ R] assms(2) by fastforce
  then have v: "bval (Trim q) = bval n div unat d" by simp
  show ?thesis
  proof (cases "bval n = 0")
    case True
    then have "Trim q = []" using v bval_eq_0_iff [OF normal_Trim, of q] by simp
    then show ?thesis using assms(1) True by (simp add: DivModSmall_def R Big_IsZero_def)
  next
    case False
    then show ?thesis using v assms(2) by (simp add: DivModSmall_def R)
  qed
qed

text \<open>Nine digits per division, the least significant group first.\<close>

function extract_digits :: "BigUInt \<Rightarrow> u8 list \<Rightarrow> u8 list res" where
  "extract_digits n reversed =
     (if Big_IsZero n then Inr reversed
      else let (n', g) = DivModSmall n 1000000000 in
           if length reversed + 9 \<le> 800 then extract_digits n' (reversed @ group_digits 9 g)
           else Inl OutOfBounds)"
  by pat_completeness auto
termination
proof (relation "inv_image (measures [bval, length]) fst")
  show "wf (inv_image (measures [bval, length]) (fst :: BigUInt \<times> u8 list \<Rightarrow> BigUInt))" by simp
next
  fix n n' g x and reversed :: "u8 list"
  assume "\<not> Big_IsZero n" "x = DivModSmall n 1000000000" "(n', g) = x"
  moreover from this have "n' = fst (DivModSmall n 1000000000)" by (metis fst_conv)
  ultimately show "((n', reversed @ group_digits 9 g), n, reversed) \<in> inv_image (measures [bval, length]) fst"
    using DivModSmall_smaller [of n 1000000000] by simp
qed

declare extract_digits.simps [simp del]

text \<open>Drops the zeros at the end of an array.\<close>

definition drop_zeros :: "u8 list \<Rightarrow> u8 list" where
  "drop_zeros ds = rev (dropWhile (\<lambda>c. c = 48) (rev ds))"

definition ExpandExact :: "u64 \<Rightarrow> int \<Rightarrow> Decimal res" where
  "ExpandExact mantissa exponent2 =
     (let n = SetU64 mantissa;
          fraction_digits = (if exponent2 \<ge> 0 then 0 else - exponent2);
          n = (if exponent2 \<ge> 0 then ShiftLeft n exponent2 else multiply_fives (nat (- exponent2)) n)
      in bindE (extract_digits n []) (\<lambda>reversed.
         let reversed = drop_zeros reversed
         in Inr \<lparr>dec_digits = rev reversed, dec_exponent = int (length reversed) - fraction_digits\<rparr>))"

section \<open>Rounding to a number of digits\<close>

text \<open>The carry through the nines at the end; the digits come last first. Nothing is left over
  when a digit took the carry.\<close>

fun carry_nines :: "u8 list \<Rightarrow> u8 list \<times> bool" where
  "carry_nines [] = ([], True)"
| "carry_nines (c # cs) =
     (if c \<noteq> 57 then ((c + 1) # cs, False) else let (ds, over) = carry_nines cs in (48 # ds, over))"

definition RoundTo :: "Decimal \<Rightarrow> int \<Rightarrow> Decimal" where
  "RoundTo val keep =
     (let ds = dec_digits val; n = nat keep in
      if keep \<ge> int (length ds) then val
      else if keep < 0 then val\<lparr>dec_digits := []\<rparr>
      else let first_dropped = ds ! n;
               rest_nonzero = (\<exists>c \<in> set (drop (n + 1) ds). c \<noteq> 48);
               round_up = (if first_dropped > 53 then True else if first_dropped < 53 then False
                           else rest_nonzero \<or> (keep > 0 \<and> (ds ! (n - 1) - 48) AND 1 \<noteq> 0));
               kept = take n ds
           in if \<not> round_up then val\<lparr>dec_digits := kept\<rparr>
              else let (ds, over) = carry_nines (rev kept) in
                   if \<not> over then val\<lparr>dec_digits := rev ds\<rparr>
                   else val\<lparr>dec_digits := 49 # drop 1 (rev ds), dec_exponent := dec_exponent val + 1\<rparr>)"

section \<open>Writing\<close>

record Writer =
  w_out :: "u8 list"
  w_capacity :: nat
  w_length :: nat

definition Put :: "Writer \<Rightarrow> u8 \<Rightarrow> Writer" where
  "Put w c = (let w = (if w_length w < w_capacity w then w\<lparr>w_out := w_out w @ [c]\<rparr> else w)
              in w\<lparr>w_length := w_length w + 1\<rparr>)"

definition PutAll :: "Writer \<Rightarrow> u8 list \<Rightarrow> Writer" where
  "PutAll w text = foldl Put w text"

definition WriteSign :: "Writer \<Rightarrow> bool \<Rightarrow> u8 \<Rightarrow> Writer" where
  "WriteSign w negative sg =
     (if negative then Put w 45 else if sg = 43 \<or> sg = 32 then Put w sg else w)"

definition digit_or_zero :: "Decimal \<Rightarrow> int \<Rightarrow> u8" where
  "digit_or_zero val i =
     (if i \<ge> 0 \<and> i < int (length (dec_digits val)) then dec_digits val ! nat i else 48)"

definition WriteFixed :: "Writer \<Rightarrow> Decimal \<Rightarrow> int \<Rightarrow> bool \<Rightarrow> Writer" where
  "WriteFixed w val precision alt =
     (let w = (if dec_exponent val \<le> 0 then Put w 48
               else foldl (\<lambda>w i. Put w (digit_or_zero val i)) w [0 .. dec_exponent val - 1])
      in if precision \<le> 0 then (if alt then Put w 46 else w)
         else foldl (\<lambda>w k. Put w (digit_or_zero val (dec_exponent val + k - 1))) (Put w 46) [1 .. precision])"

definition WriteScientific :: "Writer \<Rightarrow> Decimal \<Rightarrow> int \<Rightarrow> bool \<Rightarrow> bool \<Rightarrow> Writer" where
  "WriteScientific w val precision alt uppercase =
     (let zero = (dec_digits val = []);
          w = Put w (if zero then 48 else dec_digits val ! 0);
          w = (if precision > 0 then foldl (\<lambda>w i. Put w (digit_or_zero val i)) (Put w 46) [1 .. precision]
               else if alt then Put w 46 else w);
          w = Put w (if uppercase then 69 else 101);
          exponent = (if zero then 0 else dec_exponent val - 1);
          w = Put w (if exponent < 0 then 45 else 43);
          magnitude = (if exponent < 0 then - exponent else exponent)
      in if magnitude \<ge> 100
         then Put (Put (Put w (of_int (48 + magnitude div 100))) (of_int (48 + magnitude div 10 mod 10))) (of_int (48 + magnitude mod 10))
         else Put (Put w (of_int (48 + magnitude div 10))) (of_int (48 + magnitude mod 10)))"

definition WriteGeneral :: "Writer \<Rightarrow> Decimal \<Rightarrow> int \<Rightarrow> bool \<Rightarrow> bool \<Rightarrow> Writer" where
  "WriteGeneral w val precision alt uppercase =
     (let significant = (if precision < 0 then 6 else if precision = 0 then 1 else precision);
          val = RoundTo val significant;
          zero = (dec_digits val = []);
          scientific_exponent = (if zero then 0 else dec_exponent val - 1);
          val = (if \<not> alt then val\<lparr>dec_digits := drop_zeros (dec_digits val)\<rparr> else val);
          count' = int (length (dec_digits val))
      in if scientific_exponent \<ge> -4 \<and> scientific_exponent < significant
         then let needed = count' - dec_exponent val;
                  fraction = (if \<not> alt then (if needed > 0 then needed else 0) else significant - 1 - scientific_exponent)
              in WriteFixed w val fraction alt
         else let fraction = (if \<not> alt then (if count' > 0 then count' - 1 else 0) else significant - 1)
              in WriteScientific w val fraction alt uppercase)"

definition WriteNonFinite :: "Writer \<Rightarrow> bool \<Rightarrow> u8 \<Rightarrow> bool \<Rightarrow> bool \<Rightarrow> Writer" where
  "WriteNonFinite w negative sg is_nan uppercase =
     (let w = WriteSign w negative sg;
          text = (if is_nan then (if uppercase then [78, 65, 78] else [110, 97, 110])
                  else (if uppercase then [73, 78, 70] else [105, 110, 102]))
      in PutAll w text)"

text \<open>\<open>FormatFloatTo\<close>; the result holds the buffer and the length that the code returns.\<close>

definition FormatFloatTo :: "nat \<Rightarrow> u64 \<Rightarrow> u8 \<Rightarrow> int \<Rightarrow> u8 \<Rightarrow> bool \<Rightarrow> Writer res" where
  "FormatFloatTo capacity bits type precision sg alt =
     (let w = \<lparr>w_out = [], w_capacity = capacity, w_length = 0\<rparr>;
          uppercase = (65 \<le> type \<and> type \<le> 90);
          lower = (if uppercase then type - 65 + 97 else type);
          negative = (drop_bit 63 bits \<noteq> 0);
          biased_exponent = drop_bit 52 bits AND 0x7FF;
          fraction = bits AND 0xFFFFFFFFFFFFF
      in if biased_exponent = 0x7FF then Inr (WriteNonFinite w negative sg (fraction \<noteq> 0) uppercase)
         else let (mantissa, exponent2) =
                (if biased_exponent = 0 then (fraction, -1074)
                 else (fraction OR push_bit 52 1, uint biased_exponent - 1075))
              in bindE (if mantissa = 0 then Inr \<lparr>dec_digits = [], dec_exponent = 1\<rparr> else ExpandExact mantissa exponent2) (\<lambda>decimal.
                 let w = WriteSign w negative sg in
                 Inr (if lower = 101 then
                        WriteScientific w (RoundTo decimal ((if precision < 0 then 6 else precision) + 1))
                          (if precision < 0 then 6 else precision) alt uppercase
                      else if lower = 103 then WriteGeneral w decimal precision alt uppercase
                      else let fraction_digits = (if precision < 0 then 6 else precision);
                               decimal = RoundTo decimal (dec_exponent decimal + fraction_digits);
                               decimal = (if dec_digits decimal = [] then decimal\<lparr>dec_exponent := 1\<rparr> else decimal)
                           in WriteFixed w decimal fraction_digits alt)))"

end
