(* ===== verification/Float_Value.thy ===== *)
theory Float_Value
  imports Complex_Main Prelude
begin

text \<open>
  What a double is and what correct rounding means, the specification that
  \<open>strings/number_parse.cc\<close> and \<open>strings/float_format.cc\<close> are measured against. A double
  is its bit pattern. Without the sign bit, the patterns from 0 to \<open>INF_BITS\<close> are the finite
  doubles in ascending order followed by infinity, which takes part in rounding as if it were
  \<open>2 ^ 1024\<close>. \<open>nearest x b\<close> says that the pattern \<open>b\<close> is at least as close to \<open>x\<close> as every
  other one, and that of two equally close ones the even one is meant.
\<close>

section \<open>The value of a bit pattern\<close>

definition INF_BITS :: nat where
  "INF_BITS = 2047 * 2 ^ 52"

text \<open>The value in units of the smallest subnormal.\<close>

definition grid :: "nat \<Rightarrow> nat" where
  "grid b = (if b div 2 ^ 52 = 0 then b mod 2 ^ 52
             else (2 ^ 52 + b mod 2 ^ 52) * 2 ^ (b div 2 ^ 52 - 1))"

definition dval :: "nat \<Rightarrow> real" where
  "dval b = real (grid b) / 2 ^ 1074"

definition nearest :: "real \<Rightarrow> nat \<Rightarrow> bool" where
  "nearest x b \<longleftrightarrow> b \<le> INF_BITS \<and>
     (\<forall>c \<le> INF_BITS. c = b \<or> \<bar>x - dval b\<bar> < \<bar>x - dval c\<bar> \<or> (\<bar>x - dval b\<bar> = \<bar>x - dval c\<bar> \<and> even b))"

lemma grid_at:
  assumes "s \<le> 2 ^ 53" and "k = 0 \<or> 2 ^ 52 \<le> s"
  shows "grid (k * 2 ^ 52 + s) = s * 2 ^ k"
proof -
  consider "s < 2 ^ 52" "k = 0" | t where "s = 2 ^ 52 + t" "t < 2 ^ 52" | "s = 2 ^ 53"
  proof (cases "s < 2 ^ 52")
    case True
    then show ?thesis using assms that(1) by auto
  next
    case False
    then have "s = 2 ^ 52 + (s - 2 ^ 52)" by simp
    then show ?thesis using assms(1) that(2) [of "s - 2 ^ 52"] that(3) by (cases "s = 2 ^ 53") auto
  qed
  then show ?thesis
  proof cases
    case (2 t)
    then have "k * 2 ^ 52 + s = (k + 1) * 2 ^ 52 + t" by simp
    then have "(k * 2 ^ 52 + s) div 2 ^ 52 = k + 1" "(k * 2 ^ 52 + s) mod 2 ^ 52 = t"
      using 2 by (simp_all only: div_mult_self3 mod_mult_self3) simp_all
    then show ?thesis using 2 by (simp add: grid_def)
  next
    case 3
    then have "k * 2 ^ 52 + s = (k + 2) * 2 ^ 52 + 0" by simp
    then have "(k * 2 ^ 52 + s) div 2 ^ 52 = k + 2" "(k * 2 ^ 52 + s) mod 2 ^ 52 = 0"
      by (simp_all only: div_mult_self3 mod_mult_self3) simp_all
    then show ?thesis using 3 by (simp add: grid_def)
  qed (simp add: grid_def)
qed

lemma grid_split:
  fixes b :: nat
  obtains k s where "b = k * 2 ^ 52 + s" and "s < 2 ^ 53" and "k = 0 \<or> 2 ^ 52 \<le> s"
proof (cases "b < 2 ^ 52")
  case True
  then show ?thesis by (intro that [of 0 b]) simp_all
next
  case False
  then have "0 < b div 2 ^ 52" by (simp add: div_greater_zero_iff)
  then have "(b div 2 ^ 52 - 1) * 2 ^ 52 + 2 ^ 52 = b div 2 ^ 52 * 2 ^ 52" by (simp add: diff_mult_distrib)
  then have "b = (b div 2 ^ 52 - 1) * 2 ^ 52 + (2 ^ 52 + b mod 2 ^ 52)" using div_mult_mod_eq [of b "2 ^ 52"] by linarith
  then show ?thesis by (rule that) (simp_all add: less_imp_le [OF mod_less_divisor])
qed

lemma grid_step:
  assumes "s < 2 ^ 53" and "k = 0 \<or> 2 ^ 52 \<le> s"
  shows "grid (Suc (k * 2 ^ 52 + s)) = grid (k * 2 ^ 52 + s) + 2 ^ k"
proof -
  have "Suc (k * 2 ^ 52 + s) = k * 2 ^ 52 + Suc s" by simp
  then have "grid (Suc (k * 2 ^ 52 + s)) = Suc s * 2 ^ k"
    using grid_at [of "Suc s" k] assms by auto
  then show ?thesis using grid_at [of s k] assms by auto
qed

lemma strict_mono_grid: "strict_mono grid"
  unfolding strict_mono_Suc_iff
proof
  fix b :: nat
  obtain k s where "b = k * 2 ^ 52 + s" "s < 2 ^ 53" "k = 0 \<or> 2 ^ 52 \<le> s" by (rule grid_split)
  then show "grid b < grid (Suc b)" using grid_step [of s k] by simp
qed

lemma dval_less_iff: "dval b < dval c \<longleftrightarrow> b < c"
  by (simp add: dval_def divide_less_cancel strict_mono_less [OF strict_mono_grid])

lemma dval_le_iff: "dval b \<le> dval c \<longleftrightarrow> b \<le> c"
  by (simp add: dval_def divide_le_cancel strict_mono_less_eq [OF strict_mono_grid])

lemma dval_eq_iff: "dval b = dval c \<longleftrightarrow> b = c"
  by (metis dval_le_iff order_antisym order_refl)

lemma dval_zero [simp]: "dval 0 = 0"
  by (simp add: dval_def grid_def)

lemma dval_nonneg [simp]: "0 \<le> dval b"
  by (simp add: dval_def)

section \<open>Rounding to a neighbour\<close>

text \<open>The even one of the integers closest to \<open>y\<close>, where \<open>S\<close> is \<open>y\<close> rounded down.\<close>

definition half_even :: "real \<Rightarrow> nat \<Rightarrow> nat" where
  "half_even y S = (if y - real S < 1 / 2 then S else if y - real S > 1 / 2 then S + 1
     else if even S then S else S + 1)"

lemma nearest_neighbour:
  assumes "b < INF_BITS" and "dval b \<le> x" and "x < dval (Suc b)"
    and "r = (if x - dval b < dval (Suc b) - x then b else if x - dval b > dval (Suc b) - x then Suc b
              else if even b then b else Suc b)"
  shows "nearest x r"
  unfolding nearest_def
proof (intro conjI allI impI)
  show "r \<le> INF_BITS" using assms(1,4) by simp
  fix c assume "c \<le> INF_BITS"
  consider "c = b" | "c = Suc b" | "c < b" | "Suc b < c" by linarith
  then show "c = r \<or> \<bar>x - dval r\<bar> < \<bar>x - dval c\<bar> \<or> \<bar>x - dval r\<bar> = \<bar>x - dval c\<bar> \<and> even r"
  proof cases
    case 3
    then have "dval c < dval b" by (simp add: dval_less_iff)
    then show ?thesis using assms by (auto simp: abs_if split: if_splits)
  next
    case 4
    then have "dval (Suc b) < dval c" by (simp add: dval_less_iff)
    then show ?thesis using assms by (auto simp: abs_if split: if_splits)
  qed (use assms in \<open>auto simp: abs_if split: if_splits\<close>)
qed

lemma nearest_overflow:
  assumes "dval INF_BITS \<le> x"
  shows "nearest x INF_BITS"
proof -
  have "c = INF_BITS \<or> dval c < dval INF_BITS" if "c \<le> INF_BITS" for c
    using that by (auto simp: dval_less_iff)
  then show ?thesis unfolding nearest_def using assms by fastforce
qed

lemma nearest_unique:
  assumes "nearest x b" and "nearest x c"
  shows "b = c"
proof -
  have sym: False if "nearest x b" "nearest x c" "b < c" for b c
  proof -
    have le: "c \<le> INF_BITS" "b \<le> INF_BITS" using that by (simp_all add: nearest_def)
    have tie: "\<bar>x - dval b\<bar> = \<bar>x - dval c\<bar>" "even b" "even c"
      using that le unfolding nearest_def by (metis less_irrefl less_asym)+
    have lt: "dval b < dval c" using that(3) by (simp add: dval_less_iff)
    have "Suc b < c" using that(3) tie(2,3) by (metis Suc_lessI even_Suc)
    then have between: "dval b < dval (Suc b)" "dval (Suc b) < dval c" by (simp_all add: dval_less_iff)
    have "Suc b \<le> INF_BITS" using \<open>Suc b < c\<close> le by simp
    then have "\<bar>x - dval b\<bar> \<le> \<bar>x - dval (Suc b)\<bar>" using that(1) unfolding nearest_def by (metis less_imp_le order_refl)
    then show False using tie(1) lt between by (auto simp: abs_if split: if_splits)
  qed
  show ?thesis using sym [OF assms] sym [OF assms(2,1)] by (cases b c rule: linorder_cases) auto
qed

text \<open>Rounding a real given as a multiple \<open>y\<close> of the spacing \<open>2 ^ l\<close> of its binade.\<close>

lemma dval_at:
  assumes "s \<le> 2 ^ 53" and "l = -1074 \<or> 2 ^ 52 \<le> s" and "-1074 \<le> l"
  shows "dval (nat (l + 1074) * 2 ^ 52 + s) = real s * 2 powi l"
proof -
  have "dval (nat (l + 1074) * 2 ^ 52 + s) = real s * (2 ^ nat (l + 1074) / 2 ^ 1074)"
    using grid_at [of s "nat (l + 1074)"] assms by (auto simp: dval_def)
  also have "(2::real) ^ nat (l + 1074) / 2 ^ 1074 = 2 powi (l + 1074) / 2 powi 1074"
    using assms(3) by (simp add: power_int_def)
  also have "\<dots> = 2 powi l" by (subst power_int_diff [symmetric]) simp_all
  finally show ?thesis .
qed

theorem nearest_significand:
  assumes "S < 2 ^ 53" and "l = -1074 \<or> 2 ^ 52 \<le> S" and "-1074 \<le> l"
    and "real S \<le> y" and "y < real S + 1"
    and "x = y * 2 powi l" and "nat (l + 1074) * 2 ^ 52 + S < INF_BITS"
  shows "nearest x (nat (l + 1074) * 2 ^ 52 + half_even y S)"
proof -
  let ?k = "nat (l + 1074) * 2 ^ 52" and ?u = "2 powi l :: real"
  have u: "0 < ?u" by simp
  have lo: "dval (?k + S) = real S * ?u" using dval_at assms by simp
  have hi: "dval (Suc (?k + S)) = (real S + 1) * ?u" using dval_at [of "Suc S" l] assms by (auto simp: algebra_simps)
  have ev: "even (?k + S) = even S" by simp
  show ?thesis
  proof (rule nearest_neighbour [OF assms(7)])
    show "dval (?k + S) \<le> x" "x < dval (Suc (?k + S))" 
      unfolding lo hi assms(6) using assms(4,5) u by (simp_all add: mult_right_mono)
    have "x - dval (?k + S) < dval (Suc (?k + S)) - x \<longleftrightarrow> (y - real S) * ?u < (real S + 1 - y) * ?u"
      unfolding lo hi assms(6) by (simp add: algebra_simps)
    also have "\<dots> \<longleftrightarrow> y - real S < 1 / 2" using u by (simp only: mult_less_cancel_right_pos) linarith
    finally have l: "x - dval (?k + S) < dval (Suc (?k + S)) - x \<longleftrightarrow> y - real S < 1 / 2" .
    have "x - dval (?k + S) > dval (Suc (?k + S)) - x \<longleftrightarrow> (y - real S) * ?u > (real S + 1 - y) * ?u"
      unfolding lo hi assms(6) by (simp add: algebra_simps)
    also have "\<dots> \<longleftrightarrow> y - real S > 1 / 2" using u by (simp only: mult_less_cancel_right_pos) linarith
    finally have g: "x - dval (?k + S) > dval (Suc (?k + S)) - x \<longleftrightarrow> y - real S > 1 / 2" .
    show "?k + half_even y S = (if x - dval (?k + S) < dval (Suc (?k + S)) - x then ?k + S
      else if x - dval (?k + S) > dval (Suc (?k + S)) - x then Suc (?k + S)
      else if even (?k + S) then ?k + S else Suc (?k + S))"
      unfolding l g ev by (simp add: half_even_def)
  qed
qed

end
