(* ===== verification/Number_Parse.thy ===== *)
theory Number_Parse
  imports Decimal_Bignum Float_Value
begin

unbundle bit_operations_syntax

text \<open>
  \<open>strings/number_parse.cc\<close>: text to integer and text to double. A \<open>const char*\<close> is the list
  of the characters that may be read from it on, so moving the pointer drops characters and a
  read past the list faults; characters are bytes in ASCII. A parser returns \<open>None\<close> where the
  code returns \<open>false\<close> and the value with the characters from \<open>end\<close> on where it returns \<open>true\<close>.
  A double is its bit pattern, which is how the code builds it.
\<close>

section \<open>Characters\<close>

definition peek :: "'a list \<Rightarrow> nat \<Rightarrow> 'a res" where
  "peek p i = (if i < length p then Inr (p ! i) else Inl OutOfBounds)"

definition andE :: "bool res \<Rightarrow> bool res \<Rightarrow> bool res" where
  "andE a b = bindE a (\<lambda>x. if x then b else Inr False)"

lemma peek_simps [simp]: "peek [] i = Inl OutOfBounds" "peek (c # p) 0 = Inr c" "peek (c # p) (Suc i) = peek p i"
  by (simp_all add: peek_def)

lemma andE_simps [simp]: "andE (Inr True) b = b" "andE (Inr False) b = Inr False" "andE (Inl e) b = Inl e"
  by (simp_all add: andE_def)

text \<open>Space, tab, newline, vertical tab, form feed, carriage return.\<close>

definition IsSpace :: "u8 \<Rightarrow> bool" where
  "IsSpace c \<longleftrightarrow> c = 32 \<or> c = 9 \<or> c = 10 \<or> c = 11 \<or> c = 12 \<or> c = 13"

text \<open>\<open>'A'\<close> is 65, \<open>'Z'\<close> 90, \<open>'a'\<close> 97, \<open>'z'\<close> 122, \<open>'0'\<close> 48 and \<open>'9'\<close> 57.\<close>

definition Lower :: "u8 \<Rightarrow> u8" where
  "Lower c = (if 65 \<le> c \<and> c \<le> 90 then c - 65 + 97 else c)"

definition DigitValue :: "u8 \<Rightarrow> int \<Rightarrow> int" where
  "DigitValue c radix =
     (if 48 \<le> c \<and> c \<le> 57 then let v = uint c - 48 in if v < radix then v else -1
      else if 97 \<le> c \<and> c \<le> 122 then let v = uint c - 97 + 10 in if v < radix then v else -1
      else if 65 \<le> c \<and> c \<le> 90 then let v = uint c - 65 + 10 in if v < radix then v else -1
      else -1)"

fun skip_space :: "u8 list \<Rightarrow> u8 list res" where
  "skip_space [] = Inl OutOfBounds"
| "skip_space (c # p) = (if IsSpace c then skip_space p else Inr (c # p))"

text \<open>\<open>'+'\<close> is 43 and \<open>'-'\<close> 45; the result is the cursor and whether the sign is negative.\<close>

definition SkipSpaceAndSign :: "u8 list \<Rightarrow> (u8 list \<times> bool) res" where
  "SkipSpaceAndSign text =
     bindE (skip_space text) (\<lambda>p. bindE (peek p 0) (\<lambda>c.
       if c = 43 \<or> c = 45 then Inr (tl p, c = 45) else Inr (p, False)))"

section \<open>Integers\<close>

definition ApplyRadixPrefix :: "u8 list \<Rightarrow> int \<Rightarrow> (u8 list \<times> int) res" where
  "ApplyRadixPrefix p radix =
     bindE (andE (Inr (radix = 0 \<or> radix = 16))
             (andE (bindE (peek p 0) (\<lambda>c. Inr (c = 48)))
               (andE (bindE (peek p 1) (\<lambda>c. Inr (Lower c = 120)))
                 (bindE (peek p 2) (\<lambda>c. Inr (DigitValue c 16 \<ge> 0))))))
       (\<lambda>hex. if hex then Inr (drop 2 p, 16)
              else if radix = 0 then
                bindE (andE (bindE (peek p 0) (\<lambda>c. Inr (c = 48))) (bindE (peek p 1) (\<lambda>c. Inr (DigitValue c 8 \<ge> 0))))
                  (\<lambda>oct. Inr (p, if oct then 8 else 10))
              else Inr (p, radix))"

fun accumulate :: "u8 list \<Rightarrow> int \<Rightarrow> u64 \<Rightarrow> u64 \<Rightarrow> bool \<Rightarrow> bool \<Rightarrow> (bool \<times> u64 \<times> bool \<times> u8 list) res" where
  "accumulate [] radix limit val any saturated = Inl OutOfBounds"
| "accumulate (c # p) radix limit val any saturated =
     (let cutoff = limit div of_int radix; cutoff_digit = limit mod of_int radix;
          digit = DigitValue c radix
      in if digit < 0 then Inr (any, val, saturated, c # p)
         else if saturated then accumulate p radix limit val True saturated
         else if val > cutoff \<or> (val = cutoff \<and> of_int digit > cutoff_digit)
              then accumulate p radix limit limit True True
         else accumulate p radix limit (val * of_int radix + of_int digit) True False)"

definition AccumulateDigits :: "u8 list \<Rightarrow> int \<Rightarrow> u64 \<Rightarrow> (bool \<times> u64 \<times> bool \<times> u8 list) res" where
  "AccumulateDigits p radix limit = accumulate p radix limit 0 False False"

text \<open>The result of \<open>ParseInteger\<close> is an \<open>i64\<close>, a word read as two's complement.\<close>

definition ParseInteger :: "u8 list option \<Rightarrow> int \<Rightarrow> (u64 \<times> u8 list) option res" where
  "ParseInteger text base_radix =
     (case text of None \<Rightarrow> Inr None
      | Some text \<Rightarrow>
          bindE (SkipSpaceAndSign text) (\<lambda>(cursor, negative).
          bindE (ApplyRadixPrefix cursor base_radix) (\<lambda>(p, radix).
          if radix < 2 \<or> radix > 36 then Inr None
          else let limit = (if negative then 0x7FFFFFFFFFFFFFFF + 1 else 0x7FFFFFFFFFFFFFFF)
               in bindE (AccumulateDigits p radix limit) (\<lambda>(any, magnitude, saturated, p).
                  if \<not> any then Inr None
                  else Inr (Some (if negative then NOT magnitude + 1 else magnitude, p))))))"

definition ParseUnsigned :: "u8 list option \<Rightarrow> int \<Rightarrow> (u64 \<times> u8 list) option res" where
  "ParseUnsigned text base_radix =
     (case text of None \<Rightarrow> Inr None
      | Some text \<Rightarrow>
          bindE (SkipSpaceAndSign text) (\<lambda>(cursor, negative).
          bindE (ApplyRadixPrefix cursor base_radix) (\<lambda>(p, radix).
          if radix < 2 \<or> radix > 36 then Inr None
          else bindE (AccumulateDigits p radix 0xFFFFFFFFFFFFFFFF) (\<lambda>(any, magnitude, saturated, p).
               if \<not> any then Inr None
               else Inr (Some (if negative then NOT magnitude + 1 else magnitude, p))))))"

section \<open>Assembling a double\<close>

definition SIGN_BIT :: u64 where
  "SIGN_BIT = push_bit 63 1"

definition INFINITY_BITS :: u64 where
  "INFINITY_BITS = push_bit 52 0x7FF"

definition round_at :: "BigUInt \<Rightarrow> int \<Rightarrow> bool \<Rightarrow> int \<Rightarrow> int \<Rightarrow> u64" where
  "round_at mantissa exponent2 sticky lowest keep =
     (let cut = lowest - exponent2;
          (significand, round_bit, below) =
            (if cut \<le> 0 then
               (push_bit (nat (- cut)) (fst (HighBits mantissa (BitLength mantissa))), False, sticky)
             else (fst (HighBits mantissa keep), BitAt mantissa (cut - 1),
                   sticky \<or> AnyBitBelow mantissa (cut - 1)))
      in if round_bit \<and> (below \<or> significand AND 1 \<noteq> 0) then significand + 1 else significand)"

definition AssembleDouble :: "BigUInt \<Rightarrow> int \<Rightarrow> bool \<Rightarrow> bool \<Rightarrow> u64" where
  "AssembleDouble mantissa exponent2 sticky negative =
     (let sign_bit = (if negative then SIGN_BIT else 0);
          len = BitLength mantissa;
          msb = (len - 1) + exponent2
      in if len = 0 then sign_bit
         else if msb - 52 < -1074 then
           (let keep = msb - (-1074) + 1
            in if keep \<le> 0 then
                 (if msb < -1075 then sign_bit
                  else let above_half = len > 1 \<or> sticky
                       in sign_bit OR (if above_half then 1 else 0))
               else sign_bit OR round_at mantissa exponent2 sticky (-1074) keep)
         else
           (let significand = round_at mantissa exponent2 sticky (msb - 52) 53;
                carried = drop_bit 53 significand \<noteq> 0;
                significand = (if carried then drop_bit 1 significand else significand);
                exponent = (if carried then msb + 1 else msb)
            in if exponent > 1023 then sign_bit OR INFINITY_BITS
               else let biased = of_int (exponent + 1023) :: u64
                    in sign_bit OR push_bit 52 biased OR (significand AND 0xFFFFFFFFFFFFF)))"

section \<open>Decimal to double\<close>

fun multiply_tens :: "nat \<Rightarrow> BigUInt \<Rightarrow> BigUInt \<times> nat" where
  "multiply_tens tens val =
     (if tens \<ge> 9 then multiply_tens (tens - 9) (MulSmall val 1000000000) else (val, tens))"

declare multiply_tens.simps [simp del]

text \<open>\<open>kPow10\<close>; ten to the ninth is in the table of the division only.\<close>

definition kPow10 :: "nat \<Rightarrow> u32" where
  "kPow10 n = [1, 10, 100, 1000, 10000, 100000, 1000000, 10000000, 100000000, 1000000000] ! n"

fun divide_tens :: "nat \<Rightarrow> BigUInt \<Rightarrow> bool \<Rightarrow> BigUInt \<times> bool" where
  "divide_tens remaining val sticky =
     (if remaining > 0 then
        let chunk = (if remaining \<ge> 9 then 9 else remaining);
            (val, rest) = DivModSmall val (kPow10 chunk)
        in divide_tens (remaining - chunk) val (if rest \<noteq> 0 then True else sticky)
      else (val, sticky))"

declare divide_tens.simps [simp del]

text \<open>
  \<open>static_cast<int>(power * 3.3219280948873626)\<close>: the integer times the double
  \<open>3740158532571577 * 2 ^ (-50)\<close>, rounded half to even to 53 bits and truncated.
\<close>

fun extra_bits :: "nat \<Rightarrow> nat" where
  "extra_bits m = (if m < 2 ^ 53 then 0 else Suc (extra_bits (m div 2)))"

declare extra_bits.simps [simp del]

definition bits_of_power :: "nat \<Rightarrow> nat" where
  "bits_of_power tens =
     (let product = tens * 3740158532571577; extra = extra_bits product;
          low = product mod 2 ^ extra; high = product div 2 ^ extra;
          rounded = (if 2 * low < 2 ^ extra then high else if 2 * low > 2 ^ extra then high + 1
                     else if even high then high else high + 1)
      in rounded * 2 ^ extra div 2 ^ 50)"

definition DecimalToDouble :: "BigUInt \<Rightarrow> int \<Rightarrow> bool \<Rightarrow> bool \<Rightarrow> u64" where
  "DecimalToDouble digits decimal_exponent sticky negative =
     (if Big_IsZero digits then AssembleDouble digits 0 False negative
      else if decimal_exponent \<ge> 0 then
        (let (val, tens) = multiply_tens (nat decimal_exponent) digits;
             val = (if tens \<noteq> 0 then MulSmall val (kPow10 tens) else val)
         in AssembleDouble val 0 sticky negative)
      else
        (let tens = nat (- decimal_exponent);
             shift = int (bits_of_power tens) + 64;
             val = ShiftLeft digits shift;
             (val, sticky) = divide_tens tens val sticky
         in AssembleDouble val (- shift) sticky negative))"

definition kMaxSignificantDigits :: nat where
  "kMaxSignificantDigits = 800"

section \<open>Text to double\<close>

text \<open>\<open>MatchWord\<close>: the position after the word, or nothing when the text does not start with it.\<close>

fun MatchWord :: "u8 list \<Rightarrow> u8 list \<Rightarrow> u8 list option res" where
  "MatchWord p [] = Inr (Some p)"
| "MatchWord [] (w # ws) = Inl OutOfBounds"
| "MatchWord (c # p) (w # ws) = (if Lower c \<noteq> w then Inr None else MatchWord p ws)"

record decimal =
  d_digits :: BigUInt
  d_significant :: nat
  d_exponent :: int
  d_any :: bool
  d_sticky :: bool

fun integer_part :: "u8 list \<Rightarrow> decimal \<Rightarrow> (decimal \<times> u8 list) res" where
  "integer_part [] d = Inl OutOfBounds"
| "integer_part (c # p) d =
     (if 48 \<le> c \<and> c \<le> 57 then
        (let d = d\<lparr>d_any := True\<rparr> in
         if Big_IsZero (d_digits d) \<and> c = 48 then integer_part p d
         else if d_significant d < kMaxSignificantDigits then
           integer_part p (d\<lparr>d_digits := MulAddSmall (d_digits d) 10 (ucast (c - 48)), d_significant := d_significant d + 1\<rparr>)
         else integer_part p (d\<lparr>d_exponent := d_exponent d + 1, d_sticky := (if c \<noteq> 48 then True else d_sticky d)\<rparr>))
      else Inr (d, c # p))"

fun fraction_part :: "u8 list \<Rightarrow> decimal \<Rightarrow> (decimal \<times> u8 list) res" where
  "fraction_part [] d = Inl OutOfBounds"
| "fraction_part (c # p) d =
     (if 48 \<le> c \<and> c \<le> 57 then
        (let d = d\<lparr>d_any := True\<rparr> in
         if Big_IsZero (d_digits d) \<and> c = 48 then fraction_part p (d\<lparr>d_exponent := d_exponent d - 1\<rparr>)
         else if d_significant d < kMaxSignificantDigits then
           fraction_part p (d\<lparr>d_digits := MulAddSmall (d_digits d) 10 (ucast (c - 48)),
             d_significant := d_significant d + 1, d_exponent := d_exponent d - 1\<rparr>)
         else fraction_part p (if c \<noteq> 48 then d\<lparr>d_sticky := True\<rparr> else d))
      else Inr (d, c # p))"

fun exponent_digits :: "u8 list \<Rightarrow> int \<Rightarrow> (int \<times> u8 list) res" where
  "exponent_digits [] magnitude = Inl OutOfBounds"
| "exponent_digits (c # p) magnitude =
     (if 48 \<le> c \<and> c \<le> 57 then
        exponent_digits p (if magnitude < 100000 then magnitude * 10 + (uint c - 48) else magnitude)
      else Inr (magnitude, c # p))"

text \<open>The exponent after an \<open>e\<close> (101): what it adds, and the position after it; a sign that no
  digit follows is not consumed, nor is the \<open>e\<close> before it.\<close>

definition exponent_part :: "u8 list \<Rightarrow> (int \<times> u8 list) res" where
  "exponent_part p =
     bindE (peek p 0) (\<lambda>c.
     if Lower c = 101 then
       bindE (peek p 1) (\<lambda>s.
       let (after, exponent_negative) = (if s = 43 \<or> s = 45 then (drop 2 p, s = 45) else (drop 1 p, False)) in
       bindE (peek after 0) (\<lambda>c.
       if 48 \<le> c \<and> c \<le> 57 then
         bindE (exponent_digits after 0) (\<lambda>(magnitude, after).
           Inr (if exponent_negative then - magnitude else magnitude, after))
       else Inr (0, p)))
     else Inr (0, p))"

definition ParseFloat :: "u8 list option \<Rightarrow> (u64 \<times> u8 list) option res" where
  "ParseFloat text =
     (case text of None \<Rightarrow> Inr None
      | Some text \<Rightarrow>
        bindE (SkipSpaceAndSign text) (\<lambda>(p, negative).
        let sign_bit = (if negative then SIGN_BIT else 0) in
        bindE (MatchWord p [105, 110, 102]) (\<lambda>inf.
        case inf of Some q \<Rightarrow>
          bindE (MatchWord q [105, 110, 105, 116, 121]) (\<lambda>inity.
            Inr (Some (sign_bit OR INFINITY_BITS, case inity of Some q' \<Rightarrow> q' | None \<Rightarrow> q)))
        | None \<Rightarrow>
        bindE (MatchWord p [110, 97, 110]) (\<lambda>nan.
        case nan of Some q \<Rightarrow> Inr (Some (sign_bit OR INFINITY_BITS OR push_bit 51 1, q))
        | None \<Rightarrow>
        bindE (integer_part p \<lparr>d_digits = [], d_significant = 0, d_exponent = 0, d_any = False, d_sticky = False\<rparr>) (\<lambda>(d, p).
        bindE (bindE (peek p 0) (\<lambda>c. if c = 46 then fraction_part (tl p) d else Inr (d, p))) (\<lambda>(d, p).
        if \<not> d_any d then Inr None
        else bindE (exponent_part p) (\<lambda>(ex, p).
          let d = d\<lparr>d_exponent := d_exponent d + ex\<rparr>;
              magnitude_estimate = int (d_significant d) + d_exponent d
          in if Big_IsZero (d_digits d) \<or> magnitude_estimate < -400 then Inr (Some (sign_bit, p))
             else if magnitude_estimate > 350 then Inr (Some (sign_bit OR INFINITY_BITS, p))
             else Inr (Some (DecimalToDouble (d_digits d) (d_exponent d) (d_sticky d) negative, p)))))))))"

section \<open>Skipping spaces and the sign\<close>

definition sign_text :: "u8 list \<Rightarrow> bool" where
  "sign_text sg \<longleftrightarrow> sg = [] \<or> sg = [43] \<or> sg = [45]"

lemma skip_space_all: "\<forall>c \<in> set ws. IsSpace c \<Longrightarrow> \<not> IsSpace c \<Longrightarrow> skip_space (ws @ c # p) = Inr (c # p)"
  by (induction ws) simp_all

lemma SkipSpaceAndSign_text:
  assumes "\<forall>c \<in> set ws. IsSpace c" and "sign_text sg"
    and "\<not> IsSpace c" and "c \<noteq> 43" and "c \<noteq> 45"
  shows "SkipSpaceAndSign (ws @ sg @ c # p) = Inr (c # p, sg = [45])"
  using assms skip_space_all [OF assms(1), of 43 "c # p"] skip_space_all [OF assms(1), of 45 "c # p"]
    skip_space_all [OF assms(1,3)]
  by (auto simp: SkipSpaceAndSign_def IsSpace_def sign_text_def)

end
