(* ===== verification/Number_Rounding.thy ===== *)
theory Number_Rounding
  imports Number_Parse
begin

unbundle bit_operations_syntax

text \<open>
  The numeric core of \<open>ParseFloat\<close> rounds correctly: \<open>AssembleDouble\<close> and \<open>DecimalToDouble\<close>
  against \<open>nearest\<close>. The one exception is written into \<open>rounds_to\<close>.
\<close>

section \<open>Rounding the significand\<close>

text \<open>
  \<open>stands_for n e st x l\<close>: the integer \<open>n\<close>, scaled by \<open>2 ^ e\<close>, and the sticky bit \<open>st\<close> say all
  about \<open>x\<close> that rounding to multiples of \<open>2 ^ l\<close> needs. Without the sticky bit they are \<open>x\<close>;
  with it, \<open>x\<close> is greater, but no multiple of \<open>2 ^ (l - 1)\<close> lies in between.
\<close>

definition stands_for :: "nat \<Rightarrow> int \<Rightarrow> bool \<Rightarrow> real \<Rightarrow> int \<Rightarrow> bool" where
  "stands_for n e st x l \<longleftrightarrow>
     (if st then real n * 2 powi e < x \<and>
        (\<forall>k :: nat. real n * 2 powi e < real k * 2 powi (l - 1) \<longrightarrow> x < real k * 2 powi (l - 1))
      else x = real n * 2 powi e)"

lemma and_one: "w AND 1 \<noteq> (0 :: 'a::len word) \<longleftrightarrow> odd (unat w)"
proof -
  have "unat (w AND 1) = unat w mod 2" by (simp only: unsigned_and_eq) (simp add: and_one_eq)
  then show ?thesis by (metis odd_iff_mod_2_eq_one unat_eq_zero even_iff_mod_2_eq_zero)
qed

text \<open>The bits below the cut decide on which side of the middle the number lies.\<close>

lemma cut_bits:
  fixes n :: nat
  assumes "0 < c"
  shows "n mod 2 ^ c = (if bit n (c - 1) then 2 ^ (c - 1) else 0) + n mod 2 ^ (c - 1)"
proof -
  obtain d where c: "c = Suc d" using assms by (cases c) auto
  have "n mod 2 ^ Suc d = take_bit (Suc d) n" by (simp add: take_bit_eq_mod)
  also have "\<dots> = take_bit d n + (if bit n d then 2 ^ d else 0)"
    by (subst take_bit_Suc_from_most) (simp add: mult.commute)
  finally show ?thesis by (simp add: c take_bit_eq_mod)
qed

lemma rounded_half_even:
  assumes "0 < c" and "S = n div 2 ^ c" and "stands_for n (- int c) st y 0"
  shows "real S \<le> y \<and> y < real S + 1 \<and> half_even y S =
    (if bit n (c - 1) \<and> (st \<or> n mod 2 ^ (c - 1) \<noteq> 0 \<or> odd S) then S + 1 else S)"
proof -
  define q where "q = real n / 2 ^ c"
  have qe: "real n * 2 powi (- int c) = q" by (simp add: q_def power_int_minus divide_inverse)
  have half: "(2::real) ^ c = 2 * 2 ^ (c - 1)" using assms(1) by (cases c) simp_all
  have q: "q = real S + real (n mod 2 ^ c) / 2 ^ c"
  proof -
    have "n = S * 2 ^ c + n mod 2 ^ c" unfolding assms(2) by (rule div_mult_mod_eq [symmetric])
    then have "real n = real (S * 2 ^ c + n mod 2 ^ c)" by (rule arg_cong)
    then have "real n = real S * 2 ^ c + real (n mod 2 ^ c)" by simp
    then show ?thesis by (simp add: q_def add_divide_distrib)
  qed
  have "(2 :: real) powi (0 - 1) = 1 / 2" by (simp add: power_int_def)
  then have mid: "real k * 2 powi (0 - 1) = real k / 2" for k by (simp only: times_divide_eq_right mult_1_right)
  have y: "if st then q < y \<and> (\<forall>k. q < real k / 2 \<longrightarrow> y < real k / 2) else y = q"
    using assms(3) unfolding stands_for_def qe mid by simp
  have below: "y < real k / 2" if "q < real k / 2" for k using y that by (cases st) auto
  have lo: "real S \<le> q" and hi: "q < real S + 1"
    unfolding q by (simp_all add: mod_less_divisor [THEN order.strict_trans2])
  show ?thesis
  proof (cases "bit n (c - 1)")
    case False
    then have "n mod 2 ^ c < 2 ^ (c - 1)" using cut_bits [OF assms(1), of n] by simp
    then have "2 * real (n mod 2 ^ c) < 2 ^ c" unfolding half by (simp flip: of_nat_less_iff)
    then have "q < real S + 1 / 2" unfolding q by (simp add: divide_less_eq)
    then have "q < real (2 * S + 1) / 2" by simp
    from below [OF this] have "y < real S + 1 / 2" by simp
    then show ?thesis using False y lo by (auto simp: half_even_def split: if_splits)
  next
    case True
    then have m: "n mod 2 ^ c = 2 ^ (c - 1) + n mod 2 ^ (c - 1)" using cut_bits [OF assms(1), of n] by simp
    then have "real (n mod 2 ^ c) / 2 ^ c = 1 / 2 + real (n mod 2 ^ (c - 1)) / 2 ^ c"
      unfolding half by (simp add: add_divide_distrib)
    then have q': "q = real S + 1 / 2 + real (n mod 2 ^ (c - 1)) / 2 ^ c" using q by simp
    have tail: "0 \<le> real (n mod 2 ^ (c - 1)) / 2 ^ c" by simp
    have "q < real (2 * S + 2) / 2" using hi by simp
    from below [OF this] have "y < real S + 1" by simp
    moreover have yq: "q \<le> y" "q = y \<longleftrightarrow> \<not> st" using y by (cases st; simp)+
    have "real S + 1 / 2 \<le> y" using yq(1) q' tail by linarith
    moreover have "real S + 1 / 2 = y \<longleftrightarrow> \<not> st \<and> real (n mod 2 ^ (c - 1)) / 2 ^ c = 0"
      using yq q' tail by linarith
    then have "real S + 1 / 2 = y \<longleftrightarrow> \<not> st \<and> n mod 2 ^ (c - 1) = 0" by simp
    ultimately show ?thesis using True by (auto simp: half_even_def)
  qed
qed


lemma two_powi: "(2 :: real) powi a * 2 powi b = 2 powi (a + b)"
  by (simp add: power_int_add)

lemma stands_for_scale:
  assumes "stands_for n e st x l"
  shows "stands_for n (e - l) st (x * 2 powi (- l)) 0"
proof -
  have u: "(0::real) < 2 powi (- l)" by simp
  have e: "real n * 2 powi (e - l) = real n * 2 powi e * 2 powi (- l)"
    by (simp add: mult.assoc two_powi)
  have k: "real k * 2 powi (0 - 1) = real k * 2 powi (l - 1) * 2 powi (- l)" for k
    by (simp add: mult.assoc two_powi)
  show ?thesis using assms unfolding stands_for_def e k mult_less_cancel_right_pos [OF u] by simp
qed

text \<open>
  The cut is at \<open>2 ^ l\<close>, at most 53 bits below the leading one; \<open>S\<close> is what is kept.
\<close>

lemma round_at_correct:
  assumes "holds b n" and "BitLength b = int len" and "2 ^ (len - 1) \<le> n" and "n < 2 ^ len" and "0 < len"
    and "keep = int len - (l - e)" and "1 \<le> keep" and "keep \<le> 53" and "st \<longrightarrow> e < l"
    and "stands_for n e st x l" and "y = x * 2 powi (- l)"
  obtains S where "real S \<le> y" and "y < real S + 1" and "2 ^ (nat keep - 1) \<le> S" and "S < 2 ^ nat keep"
    and "unat (round_at b e st l keep) = half_even y S"
proof (cases "l \<le> e")
  case True
  define z where "z = nat (e - l)"
  have z: "e - l = int z" using True by (simp add: z_def)
  have st: "\<not> st" using assms(9) True by auto
  have keep: "nat keep = len + z" "len + z \<le> 53" using assms(6,8) z by linarith+
  let ?S = "n * 2 ^ z"
  have "x = real n * 2 powi e" using assms(10) st by (simp add: stands_for_def)
  then have "y = real n * (2 powi e * 2 powi (- l))" using assms(11) by simp
  also have "2 powi e * 2 powi (- l) = (2 powi (e - l) :: real)" by (simp add: two_powi)
  finally have y: "y = real ?S" by (simp add: z)
  have lt: "?S < 2 ^ (len + z)" using assms(4) by (simp add: power_add)
  have "(2::nat) ^ (len + z) \<le> 2 ^ 53" using keep(2) by (rule power_increasing) simp
  then have fit: "n * 2 ^ z < 2 ^ 64" using lt by simp
  have "unat (fst (HighBits b (int len))) = n"
    using HighBits_correct [OF assms(1,2,4), of len 0] keep(2) by simp
  then have "unat (push_bit z (fst (HighBits b (int len)))) = ?S" unfolding unat_push using fit by simp
  then have r: "unat (round_at b e st l keep) = ?S"
    using True z by (simp add: round_at_def Let_def assms(2))
  have "2 ^ (len - 1) * 2 ^ z \<le> ?S" using assms(3) by (rule mult_le_mono1)
  then have "2 ^ (nat keep - 1) \<le> ?S" using assms(5) keep(1) by (simp flip: power_add)
  then show ?thesis using that [of ?S] y lt keep(1) r by (simp add: half_even_def)
next
  case False
  define c where "c = nat (l - e)"
  have c: "l - e = int c" "0 < c" using False by (simp_all add: c_def)
  have keep: "nat keep = len - c" "keep = int (len - c)" "c < len" "len - c \<le> 53"
    using assms(6-8) c by linarith+
  define S where "S = n div 2 ^ c"
  have e: "e - l = - int c" using c by simp
  have R: "real S \<le> y \<and> y < real S + 1 \<and> half_even y S =
      (if bit n (c - 1) \<and> (st \<or> n mod 2 ^ (c - 1) \<noteq> 0 \<or> odd S) then S + 1 else S)"
    using rounded_half_even [OF c(2) S_def] stands_for_scale [OF assms(10)] unfolding e assms(11) [symmetric] by blast
  have "n < 2 ^ (len - c) * 2 ^ c" using assms(4) keep(3) by (simp flip: power_add)
  then have hi: "S < 2 ^ (len - c)" by (simp add: S_def less_mult_imp_div_less)
  have "2 ^ (len - c - 1) * 2 ^ c \<le> n" using assms(3) keep(3) by (simp flip: power_add)
  then have lo: "2 ^ (len - c - 1) \<le> S" by (simp add: S_def less_eq_div_iff_mult_less_eq)
  have "(2::nat) ^ (len - c) \<le> 2 ^ 53" using keep(4) by (rule power_increasing) simp
  then have fit: "S + 1 < 2 ^ 64" using hi by simp
  have sig: "unat (fst (HighBits b keep)) = S"
    using HighBits_correct [OF assms(1,2,4), of "len - c" c] keep by (simp add: S_def)
  have "unat (round_at b e st l keep) =
      (if bit n (c - 1) \<and> (st \<or> n mod 2 ^ (c - 1) \<noteq> 0 \<or> odd S) then S + 1 else S)"
    using c BitAt_correct [OF assms(1), of "int c - 1"] AnyBitBelow_correct [OF assms(1), of "int c - 1"] sig fit
    by (simp add: round_at_def Let_def and_one unat_word_ariths nat_diff_distrib)
  then show ?thesis using that [of S] R hi lo keep by simp
qed


section \<open>The double nearest to an integer times a power of two\<close>

text \<open>
  \<open>rounds_to x p\<close>: the magnitude of the double built for \<open>x\<close> is the nearest pattern. The one
  exception is the exact middle between zero and the smallest subnormal, which is a tie and
  belongs to zero, the even one, but goes to the subnormal.
\<close>

definition HALF_SUBNORMAL :: real where
  "HALF_SUBNORMAL = 2 powi (-1075)"

definition rounds_to :: "real \<Rightarrow> nat \<Rightarrow> bool" where
  "rounds_to x p \<longleftrightarrow> (if x = HALF_SUBNORMAL then p = 1 else nearest x p)"

definition sign_of :: "bool \<Rightarrow> nat" where
  "sign_of negative = (if negative then 2 ^ 63 else 0)"

lemma sign_or:
  assumes "unat w < 2 ^ 63"
  shows "unat ((if negative then SIGN_BIT else 0) OR w) = sign_of negative + unat w"
proof (cases negative)
  case True
  have "unat SIGN_BIT = 2 ^ 63" by (simp add: SIGN_BIT_def)
  moreover have "SIGN_BIT OR w = SIGN_BIT + w" unfolding SIGN_BIT_def by (rule push_or_add [OF assms])
  ultimately show ?thesis using True assms by (simp add: unat_word_ariths sign_of_def)
qed (simp add: sign_of_def)

lemma INF_less: "INF_BITS < 2 ^ 63"
  by (simp add: INF_BITS_def)

lemma unat_INFINITY: "unat INFINITY_BITS = INF_BITS"
  by (simp add: INFINITY_BITS_def INF_BITS_def)

lemma low_52: "unat ((w :: u64) AND 0xFFFFFFFFFFFFF) = unat w mod 2 ^ 52"
  using and_pow2_mod [of "2 ^ 52" 52 "unat w"] by (simp add: unsigned_and_eq)

lemma pack_fields:
  assumes "0 \<le> ex" and "ex < 2 ^ 11"
  shows "unat (push_bit 52 (of_int ex) OR ((w :: u64) AND 0xFFFFFFFFFFFFF)) = nat ex * 2 ^ 52 + unat w mod 2 ^ 52"
proof -
  have "nat ex < 2 ^ 11" using assms by simp
  have "(of_int ex :: u64) = of_nat (nat ex)" using assms by simp
  then have "unat (of_int ex :: u64) = nat ex" using \<open>nat ex < 2 ^ 11\<close> by (simp add: unsigned_of_nat take_bit_nat_eq_self)
  then have h: "unat (push_bit 52 (of_int ex :: u64)) = nat ex * 2 ^ 52"
    unfolding unat_push using \<open>nat ex < 2 ^ 11\<close> by simp
  have l: "unat (w AND 0xFFFFFFFFFFFFF) < 2 ^ 52" unfolding low_52 by simp
  have "nat ex * 2 ^ 52 + unat w mod 2 ^ 52 < 2 ^ 64"
  proof -
    have "nat ex * 2 ^ 52 + unat w mod 2 ^ 52 < (nat ex + 1) * 2 ^ 52" by simp
    also have "\<dots> \<le> 2 ^ 11 * 2 ^ 52" using \<open>nat ex < 2 ^ 11\<close> by (intro mult_le_mono1) simp
    finally show ?thesis by simp
  qed
  then show ?thesis using h l low_52 [of w] by (simp add: push_or_add [OF l] unat_word_ariths)
qed

lemma dval_INF: "dval INF_BITS = 2 powi 1024"
proof -
  have "dval (nat (972 + 1074) * 2 ^ 52 + 2 ^ 52) = real (2 ^ 52) * 2 powi 972"
    by (rule dval_at) simp_all
  also have "real (2 ^ 52) * 2 powi 972 = 2 powi 52 * 2 powi 972" by (simp add: power_int_def)
  also have "\<dots> = 2 powi 1024" by (subst two_powi) simp
  finally show ?thesis by (simp add: INF_BITS_def)
qed

lemma stands_for_ge: "stands_for n e st x l \<Longrightarrow> real n * 2 powi e \<le> x"
  by (auto simp: stands_for_def split: if_splits)

lemma half_even_le: "half_even y S \<le> S + 1" "S \<le> half_even y S"
  by (auto simp: half_even_def)

lemma normal_pattern:
  assumes "unat sig \<le> 2 ^ 53" and "2 ^ 52 \<le> unat sig" and "-1022 \<le> msb"
    and "c = (drop_bit 53 sig \<noteq> (0 :: u64))"
    and "ex = (if c then msb + 1 else msb)" and "ex \<le> 1023"
  shows "unat (push_bit 52 (of_int (ex + 1023)) OR ((if c then drop_bit 1 sig else sig) AND 0xFFFFFFFFFFFFF)) =
    nat (msb - 52 + 1074) * 2 ^ 52 + unat sig"
proof -
  have "c \<longleftrightarrow> unat (drop_bit 53 sig) \<noteq> 0" unfolding assms(4) by (simp add: unat_eq_zero)
  also have "\<dots> \<longleftrightarrow> unat sig = 2 ^ 53"
    unfolding unat_shift_right using assms(1) by (auto simp: div_eq_0_iff)
  finally have c: "c \<longleftrightarrow> unat sig = 2 ^ 53" .
  have "0 \<le> ex + 1023" "ex + 1023 < 2 ^ 11" using assms(3,5,6) by auto
  note pack = pack_fields [OF this, of "if c then drop_bit 1 sig else sig"]
  have "nat (ex + 1023) * 2 ^ 52 + unat (if c then drop_bit 1 sig else sig) mod 2 ^ 52 =
      nat (msb - 52 + 1074) * 2 ^ 52 + unat sig"
  proof (cases c)
    case True
    then have "unat (drop_bit 1 sig) = 2 ^ 52" using c unat_shift_right [of 1 sig] by simp
    moreover have "nat (ex + 1023) = nat (msb - 52 + 1074) + 2" using True assms(3,5) by simp
    ultimately show ?thesis using True c by simp
  next
    case False
    then have "unat sig = 2 ^ 52 + (unat sig - 2 ^ 52)" "unat sig - 2 ^ 52 < 2 ^ 52" using c assms(1,2) by auto
    then have "unat sig mod 2 ^ 52 = unat sig - 2 ^ 52" by (metis mod_add_self1 mod_less)
    moreover have "nat (ex + 1023) = nat (msb - 52 + 1074) + 1" using False assms(3,5) by simp
    ultimately show ?thesis using False assms(2) by simp
  qed
  then show ?thesis unfolding pack .
qed

lemma scaled_bounds:
  assumes "2 ^ (len - 1) \<le> n" and "n < 2 ^ len" and "0 < len"
  shows "2 powi (int len - 1 + e) \<le> real n * 2 powi e" and "real n * 2 powi e < 2 powi (int len - 1 + e + 1)"
proof -
  have "real (2 ^ (len - 1)) \<le> real n" "real n < real (2 ^ len)" using assms(1,2) by (simp_all only: of_nat_le_iff of_nat_less_iff)
  then have "2 powi (int len - 1) \<le> real n" "real n < 2 powi int len" using assms(3) by (simp_all add: power_int_def nat_diff_distrib)
  then have "2 powi (int len - 1) * 2 powi e \<le> real n * 2 powi e" "real n * 2 powi e < 2 powi int len * 2 powi e"
    by simp_all
  then show "2 powi (int len - 1 + e) \<le> real n * 2 powi e" "real n * 2 powi e < 2 powi (int len - 1 + e + 1)"
    unfolding two_powi by simp_all
qed

theorem AssembleDouble_rounds:
  assumes b: "holds b n" "0 < n" "BitLength b = int len"
    and x: "stands_for n e st x (max (int len - 1 + e - 52) (- 1074))"
    and st: "st \<Longrightarrow> 54 \<le> len" and tie: "1 < len \<or> st \<or> x \<noteq> HALF_SUBNORMAL"
  shows "\<exists>p \<le> INF_BITS. unat (AssembleDouble b e st neg) = sign_of neg + p \<and> rounds_to x p"
proof -
  obtain k where k: "BitLength b = int k" "0 < k" "2 ^ (k - 1) \<le> n" "n < 2 ^ k"
    using BitLength_correct [OF b(1,2)] .
  then have len: "0 < len" "2 ^ (len - 1) \<le> n" "n < 2 ^ len" using b(3) by simp_all
  define msb where "msb = int len - 1 + e"
  define l where "l = max (msb - 52) (- 1074)"
  define y where "y = x * 2 powi (- l)"
  have X: "stands_for n e st x l" using x by (simp add: l_def msb_def)
  have xy: "x = y * 2 powi l" by (simp add: y_def mult.assoc two_powi)
  have ge: "real n * 2 powi e \<le> x" by (rule stands_for_ge [OF X])
  have sg: "unat ((if neg then SIGN_BIT else 0) OR w) = sign_of neg + unat w" if "unat w \<le> INF_BITS" for w
    by (rule sign_or) (use that INF_less in simp)
  have above: "x \<noteq> HALF_SUBNORMAL" if "-1074 \<le> msb"
  proof -
    have "(2 :: real) powi (-1075) < 2 powi msb" using that by (intro power_int_strict_increasing) simp_all
    then show ?thesis using scaled_bounds(1) [OF len(2,3,1), of e] ge unfolding msb_def HALF_SUBNORMAL_def by linarith
  qed
  consider (tiny) "msb < -1074" | (sub) "-1074 \<le> msb" "msb - 52 < -1074" | (normal) "-1074 \<le> msb - 52" by linarith
  then show ?thesis
  proof cases
    case tiny
    have l: "l = -1074" using tiny by (simp add: l_def)
    have lt: "x < real k * 2 powi (-1075)" if "real n * 2 powi e < real k * 2 powi (-1075)" for k
      using X that by (auto simp: stands_for_def l split: if_splits)
    have one: "dval 1 = 2 * 2 powi (-1075)" using dval_at [of 1 "-1074"] two_powi [of 1 "-1075"] by simp
    have "0 < real n * 2 powi e" using b(2) by simp
    then have pos: "0 < x" using ge by linarith
    have hi: "real n * 2 powi e < 2 powi (msb + 1)" and lo: "2 powi msb \<le> real n * 2 powi e"
      using scaled_bounds [OF len(2,3,1), of e] by (simp_all add: msb_def)
    show ?thesis
    proof (cases "msb < -1075")
      case True
      have "(2 :: real) powi (msb + 1) \<le> 2 powi (-1075)" using True by (intro power_int_increasing) simp_all
      then have "x < 2 powi (-1075)" using lt [of 1] hi by simp
      then have "nearest x 0"
        using nearest_neighbour [of 0 x 0] pos one by (simp add: INF_BITS_def)
      moreover have "AssembleDouble b e st neg = (if neg then SIGN_BIT else 0) OR 0"
        using True len(1) b(3) by (simp add: AssembleDouble_def Let_def msb_def)
      ultimately show ?thesis using sg [of 0] \<open>x < 2 powi (-1075)\<close> by (intro exI [of _ 0]) (auto simp: rounds_to_def HALF_SUBNORMAL_def)
    next
      case False
      then have msb: "msb = -1075" using tiny by simp
      have "x < dval 1" using lt [of 2] hi two_powi [of 1 "-1075"] unfolding one msb by simp
      have A: "AssembleDouble b e st neg = (if neg then SIGN_BIT else 0) OR (if int len > 1 \<or> st then 1 else 0)"
        using msb len(1) b(3) by (simp add: AssembleDouble_def Let_def msb_def)
      have or: "len > 1 \<or> st"
      proof (rule ccontr)
        assume not: "\<not> (len > 1 \<or> st)"
        then have "n = 1" "len = 1" using len by (cases len; simp)+
        then have "x = HALF_SUBNORMAL" using X not msb by (simp add: stands_for_def msb_def HALF_SUBNORMAL_def)
        then show False using tie not by simp
      qed
      have "2 powi (-1075) \<le> x" using ge lo msb by simp
      then have "rounds_to x 1" unfolding rounds_to_def
        using nearest_neighbour [of 0 x 1] \<open>x < dval 1\<close> pos one
        by (cases "x = HALF_SUBNORMAL") (simp_all add: INF_BITS_def HALF_SUBNORMAL_def)
      then show ?thesis using sg [of 1] or A by (intro exI [of _ 1]) (auto simp: INF_BITS_def)
    qed
  next
    case sub
    define keep where "keep = msb - (-1074) + 1"
    have l: "l = -1074" using sub by (simp add: l_def)
    obtain S where S: "real S \<le> y" "y < real S + 1" "2 ^ (nat keep - 1) \<le> S" "S < 2 ^ nat keep"
      "unat (round_at b e st l keep) = half_even y S"
      by (rule round_at_correct [OF b(1,3) len(2,3,1) _ _ _ _ X y_def, of keep])
        (use sub l st in \<open>auto simp: msb_def keep_def\<close>)
    have "(2::nat) ^ nat keep \<le> 2 ^ 52" using sub by (intro power_increasing) (simp_all add: keep_def)
    then have S52: "S < 2 ^ 52" using S(4) by simp
    have "nearest x (nat (l + 1074) * 2 ^ 52 + half_even y S)"
      by (rule nearest_significand [OF _ _ _ S(1,2) xy]) (use S52 l in \<open>simp_all add: INF_BITS_def\<close>)
    then have near: "nearest x (half_even y S)" by (simp add: l)
    then have le: "half_even y S \<le> INF_BITS" by (simp add: nearest_def)
    have "AssembleDouble b e st neg = (if neg then SIGN_BIT else 0) OR round_at b e st (-1074) keep"
      using sub len(1) b(3) by (simp add: AssembleDouble_def Let_def msb_def keep_def algebra_simps)
    then have "unat (AssembleDouble b e st neg) = sign_of neg + half_even y S"
      using sg [of "round_at b e st (-1074) keep"] S(5) le by (simp add: l)
    then show ?thesis using near le above sub by (auto simp: rounds_to_def)
  next
    case normal
    have l: "l = msb - 52" using normal by (simp add: l_def)
    define sig where "sig = round_at b e st l 53"
    obtain S where S: "real S \<le> y" "y < real S + 1" "2 ^ (nat 53 - 1) \<le> S" "S < 2 ^ nat 53"
      "unat sig = half_even y S"
      unfolding sig_def
      by (rule round_at_correct [OF b(1,3) len(2,3,1) _ _ _ _ X y_def, of 53])
        (use normal l st in \<open>auto simp: msb_def\<close>)
    have sig: "unat sig \<le> 2 ^ 53" "2 ^ 52 \<le> unat sig" using S(3-5) half_even_le [where y = y and S = S] by simp_all
    define c where "c = (drop_bit 53 sig \<noteq> 0)"
    define ex where "ex = (if c then msb + 1 else msb)"
    have A: "AssembleDouble b e st neg = (if ex > 1023 then (if neg then SIGN_BIT else 0) OR INFINITY_BITS
      else (if neg then SIGN_BIT else 0) OR (push_bit 52 (of_int (ex + 1023)) OR
        ((if c then drop_bit 1 sig else sig) AND 0xFFFFFFFFFFFFF)))"
      using normal len(1) b(3) unfolding AssembleDouble_def Let_def ex_def c_def sig_def l msb_def by simp
    show ?thesis
    proof (cases "msb \<le> 1023")
      case True
      let ?p = "nat (msb - 52 + 1074) * 2 ^ 52"
      have "nat (msb - 52 + 1074) * 2 ^ 52 \<le> 2045 * 2 ^ 52" using True by (intro mult_le_mono1) simp
      then have "nat (l + 1074) * 2 ^ 52 + S < INF_BITS" using S(4) by (simp add: l INF_BITS_def)
      then have near: "nearest x (?p + half_even y S)"
        using nearest_significand [OF _ _ _ S(1,2) xy] S(3,4) normal by (simp add: l)
      then have le: "?p + half_even y S \<le> INF_BITS" by (simp add: nearest_def)
      have "unat (AssembleDouble b e st neg) = sign_of neg + (?p + half_even y S)"
      proof (cases "ex \<le> 1023")
        case True
        have "unat (push_bit 52 (of_int (ex + 1023)) OR ((if c then drop_bit 1 sig else sig) AND 0xFFFFFFFFFFFFF)) = ?p + unat sig"
          by (rule normal_pattern [OF sig _ c_def ex_def True]) (use normal in simp)
        then show ?thesis using A True S(5) le sg by simp
      next
        case False
        then have m: "msb = 1023" "c" using \<open>msb \<le> 1023\<close> by (auto simp: ex_def split: if_splits)
        then have "unat (drop_bit 53 sig) \<noteq> 0" by (simp add: c_def unat_eq_zero)
        then have "unat sig = 2 ^ 53" unfolding unat_shift_right using sig(1) by (auto simp: div_eq_0_iff)
        then have "?p + half_even y S = INF_BITS" using S(5) m by (simp add: INF_BITS_def)
        then show ?thesis using A False sg [of INFINITY_BITS] by (simp add: unat_INFINITY)
      qed
      then show ?thesis using near le above normal by (auto simp: rounds_to_def)
    next
      case False
      have "(2 :: real) powi 1024 \<le> 2 powi msb" using False by (intro power_int_increasing) simp_all
      then have "dval INF_BITS \<le> x"
        using ge scaled_bounds(1) [OF len(2,3,1), of e] unfolding dval_INF msb_def by simp
      then have "nearest x INF_BITS" by (rule nearest_overflow)
      moreover have "ex > 1023" using False by (simp add: ex_def)
      ultimately show ?thesis using A sg [of INFINITY_BITS] above normal by (auto simp: unat_INFINITY rounds_to_def)
    qed
  qed
qed

end
