(* ===== verification/Number_Decimal.thy ===== *)
theory Number_Decimal
  imports Number_Rounding
begin

unbundle bit_operations_syntax

text \<open>
  \<open>DecimalToDouble\<close> of \<open>strings/number_parse.cc\<close>: decimal digits times a power of ten, rounded
  once. The scaled numbers stay below the capacity of the big integer, the quotient keeps more
  than 54 bits, and the digits dropped after the eight hundredth cannot move the value across
  the middle between two doubles.
\<close>

section \<open>Powers of ten\<close>

lemma kPow10_correct: "c \<le> 9 \<Longrightarrow> unat (kPow10 c) = 10 ^ c"
proof -
  assume "c \<le> 9"
  then have "c = 0 \<or> c = 1 \<or> c = 2 \<or> c = 3 \<or> c = 4 \<or> c = 5 \<or> c = 6 \<or> c = 7 \<or> c = 8 \<or> c = 9" by arith
  then show ?thesis by (elim disjE) (simp_all add: kPow10_def)
qed

lemma kPow10_nonzero: "c \<le> 9 \<Longrightarrow> kPow10 c \<noteq> 0"
  using kPow10_correct [of c] by (metis power_eq_0_iff unsigned_0 zero_neq_numeral)

lemma holds_multiply_tens:
  "holds b n \<Longrightarrow> n * 10 ^ t < BIG_LIMIT \<Longrightarrow> multiply_tens t b = (b', r) \<Longrightarrow>
    r < 9 \<and> (\<exists>m. holds b' m \<and> m * 10 ^ r = n * 10 ^ t)"
proof (induction t b arbitrary: n rule: multiply_tens.induct)
  case (1 t b)
  show ?case
  proof (cases "t \<ge> 9")
    case True
    have e: "n * 10 ^ 9 * 10 ^ (t - 9) = n * 10 ^ t" using True by (simp only: mult.assoc flip: power_add) simp
    have "n * 10 ^ 9 * 1 \<le> n * 10 ^ 9 * 10 ^ (t - 9)" by (rule mult_le_mono2) simp
    then have "n * 10 ^ 9 < BIG_LIMIT" using 1(3) e by linarith
    then have h: "holds (MulSmall b 1000000000) (n * 10 ^ 9)" using holds_MulSmall [OF 1(2), of 1000000000] by simp
    have "multiply_tens (t - 9) (MulSmall b 1000000000) = (b', r)"
      using 1(4) True by (simp add: multiply_tens.simps [of t])
    then show ?thesis using 1(1) [OF True h, unfolded e] 1(3) by blast
  next
    case False
    then show ?thesis using 1(2,4) by (auto simp: multiply_tens.simps [of t])
  qed
qed

lemma holds_divide_tens:
  "holds b n \<Longrightarrow> divide_tens t b st = (b', st') \<Longrightarrow>
    holds b' (n div 10 ^ t) \<and> st' = (st \<or> n mod 10 ^ t \<noteq> 0)"
proof (induction t b st arbitrary: n rule: divide_tens.induct)
  case (1 t b st)
  show ?case
  proof (cases "t > 0")
    case True
    define c where "c = (if t \<ge> 9 then 9 else t)"
    have c: "c \<le> 9" "0 < c" "c \<le> t" using True by (auto simp: c_def)
    obtain q r where d: "DivModSmall b (kPow10 c) = (q, r)" by (cases "DivModSmall b (kPow10 c)")
    have q: "holds q (n div 10 ^ c)" "unat r = n mod 10 ^ c"
      using holds_DivModSmall [OF 1(2) kPow10_nonzero [OF c(1)] d] kPow10_correct [OF c(1)] by simp_all
    have step: "divide_tens (t - c) q (if r \<noteq> 0 then True else st) = (b', st')"
      using 1(3) True d by (simp add: divide_tens.simps [of t] flip: c_def)
    have "10 ^ t = (10 :: nat) ^ c * 10 ^ (t - c)" using c(3) by (simp flip: power_add)
    then have "n div 10 ^ t = n div 10 ^ c div 10 ^ (t - c)"
      "n mod 10 ^ t = 10 ^ c * (n div 10 ^ c mod 10 ^ (t - c)) + n mod 10 ^ c"
      by (simp_all only: div_mult2_eq mod_mult2_eq)
    moreover have "r \<noteq> 0 \<longleftrightarrow> n mod 10 ^ c \<noteq> 0" using q(2) by (metis unat_eq_zero)
    ultimately show ?thesis
      using 1(1) [OF True c_def d [symmetric] refl q(1) step] by auto
  next
    case False
    then show ?thesis using 1(2,3) by (simp add: divide_tens.simps)
  qed
qed

lemma extra_bits_le: "m < 2 ^ (53 + k) \<Longrightarrow> extra_bits m \<le> k"
proof (induction m arbitrary: k rule: extra_bits.induct)
  case (1 m)
  show ?case
  proof (cases "m < 2 ^ 53")
    case False
    then obtain j where k: "k = Suc j" using 1(2) by (cases k) simp_all
    then have "m < 2 * 2 ^ (53 + j)" using 1(2) by (simp add: power_add)
    then have "m div 2 < 2 ^ (53 + j)" by linarith
    then show ?thesis using 1(1) [OF False] False k by (simp add: extra_bits.simps [of m])
  qed (simp add: extra_bits.simps)
qed

text \<open>The product is off by less than the unit it was rounded to, which is far below one bit.\<close>

lemma bits_of_power_near:
  assumes "t \<le> 1200"
  shows "bits_of_power t * 2 ^ 50 \<le> t * 3740158532571577 + 2 ^ 10"
    and "t * 3740158532571577 < (bits_of_power t + 1) * 2 ^ 50 + 2 ^ 10"
proof -
  define p where "p = t * 3740158532571577"
  define x where "x = extra_bits p"
  define r where "r = (if 2 * (p mod 2 ^ x) < 2 ^ x then p div 2 ^ x else if 2 * (p mod 2 ^ x) > 2 ^ x
    then p div 2 ^ x + 1 else if even (p div 2 ^ x) then p div 2 ^ x else p div 2 ^ x + 1)"
  have b: "bits_of_power t = r * 2 ^ x div 2 ^ 50"
    unfolding bits_of_power_def Let_def p_def [symmetric] x_def [symmetric] r_def by (rule refl)
  have "p < 2 ^ (53 + 10)" using assms by (simp add: p_def)
  then have "x \<le> 10" unfolding x_def by (rule extra_bits_le)
  then have x: "(2::nat) ^ x \<le> 2 ^ 10" by (rule power_increasing) simp
  have p: "p = p div 2 ^ x * 2 ^ x + p mod 2 ^ x" by (rule div_mult_mod_eq [symmetric])
  have "p mod 2 ^ x < 2 ^ x" by simp
  have "r * 2 ^ x = p div 2 ^ x * 2 ^ x \<or> r * 2 ^ x = p div 2 ^ x * 2 ^ x + 2 ^ x" by (simp add: r_def)
  then have "r * 2 ^ x \<le> p + 2 ^ x" "p \<le> r * 2 ^ x + 2 ^ x" using p \<open>p mod 2 ^ x < 2 ^ x\<close> by linarith+
  then have R: "r * 2 ^ x \<le> p + 2 ^ 10" "p \<le> r * 2 ^ x + 2 ^ 10" using x by linarith+
  show "bits_of_power t * 2 ^ 50 \<le> t * 3740158532571577 + 2 ^ 10"
    using R(1) div_times_less_eq_dividend [of "r * 2 ^ x" "2 ^ 50"] unfolding b p_def by linarith
  have "r * 2 ^ x < (r * 2 ^ x div 2 ^ 50 + 1) * 2 ^ 50"
    using dividend_less_div_times [of "2 ^ 50" "r * 2 ^ x"] by simp
  then show "t * 3740158532571577 < (bits_of_power t + 1) * 2 ^ 50 + 2 ^ 10"
    using R(2) unfolding b p_def by linarith
qed

lemma bits_of_power_upper: "t \<le> 1200 \<Longrightarrow> 10 * bits_of_power t \<le> 34 * t"
  using bits_of_power_near(1) [of t] by (cases t) auto

lemma bits_of_power_lower:
  assumes "t \<le> 1200"
  shows "10 ^ t \<le> (2 :: nat) ^ (bits_of_power t + 2)"
proof -
  have "196 * t \<le> 59 * (bits_of_power t + 2)"
    using bits_of_power_near(2) [OF assms] assms by simp
  then have "(2::nat) ^ (196 * t) \<le> 2 ^ (59 * (bits_of_power t + 2))" by (rule power_increasing) simp
  moreover have "((10::nat) ^ 59) ^ t \<le> (2 ^ 196) ^ t" by (rule power_mono) simp_all
  ultimately have "(10 ^ t) ^ 59 \<le> ((2::nat) ^ (bits_of_power t + 2)) ^ 59"
    by (simp only: mult.commute flip: power_mult)
  then show ?thesis by (subst (asm) power_mono_iff) simp_all
qed


section \<open>Sizes\<close>

lemma ten_800: "(10 :: nat) ^ 800 \<le> 2 ^ 2670"
proof -
  have "(10 :: nat) ^ 800 \<le> (10 ^ 3) ^ 267" unfolding power_mult [symmetric] by (rule power_increasing) simp_all
  also have "\<dots> \<le> (2 ^ 10) ^ 267" by (rule power_mono) simp_all
  also have "\<dots> = 2 ^ 2670" unfolding power_mult [symmetric] by simp
  finally show ?thesis .
qed

lemma ten_799: "(2 :: nat) ^ 2604 \<le> 10 ^ 799"
proof -
  have "(2 :: nat) ^ 2604 = (2 ^ 93) ^ 28" unfolding power_mult [symmetric] by simp
  also have "\<dots> \<le> (10 ^ 28) ^ 28" by (rule power_mono) simp_all
  also have "\<dots> \<le> 10 ^ 799" unfolding power_mult [symmetric] by (rule power_increasing) simp_all
  finally show ?thesis .
qed

lemma small_fits:
  assumes "D < 10 ^ 800" and "a \<le> 1000"
  shows "D * 10 ^ a < BIG_LIMIT"
proof -
  have "(10::nat) ^ a \<le> 16 ^ a" by (rule power_mono) simp_all
  also have "(16::nat) ^ a = (2 ^ 4) ^ a" by simp
  also have "\<dots> = 2 ^ (4 * a)" by (simp only: power_mult)
  also have "\<dots> \<le> 2 ^ 4498" using assms(2) by (intro power_increasing) simp_all
  finally have a: "(10::nat) ^ a \<le> 2 ^ 4498" .
  have "D < 2 ^ 2670" using assms(1) ten_800 by (rule less_le_trans)
  then have "D * 10 ^ a < 2 ^ 2670 * 2 ^ 4498" using a by (intro mult_less_le_imp_less) simp_all
  also have "\<dots> = BIG_LIMIT" unfolding BIG_LIMIT_def kMaxLimbs_def power_add [symmetric] by simp
  finally show ?thesis .
qed

lemma shifted_fits:
  assumes "D < 10 ^ 800" and "t \<le> 1200"
  shows "D * 2 ^ (bits_of_power t + 64) < BIG_LIMIT"
proof -
  have "bits_of_power t + 64 \<le> 4498" using bits_of_power_upper [OF assms(2)] assms(2) by linarith
  then have a: "(2::nat) ^ (bits_of_power t + 64) \<le> 2 ^ 4498" by (rule power_increasing) simp
  have "D < 2 ^ 2670" using assms(1) ten_800 by (rule less_le_trans)
  then have "D * 2 ^ (bits_of_power t + 64) < 2 ^ 2670 * 2 ^ 4498" using a by (intro mult_less_le_imp_less) simp_all
  also have "\<dots> = BIG_LIMIT" unfolding BIG_LIMIT_def kMaxLimbs_def power_add [symmetric] by simp
  finally show ?thesis .
qed

text \<open>A number of 800 digits is so far to the right of its point that every middle between two
  doubles near it is a multiple of its last decimal place.\<close>

lemma middle_is_decimal:
  assumes "10 ^ 799 \<le> D" and "0 < t" and "real D < 10 ^ t * 2 powi (msb + 1)"
    and "l = max (msb - 52) (- 1074)"
  shows "1 - l \<le> int t"
proof (rule ccontr)
  assume "\<not> 1 - l \<le> int t"
  then have l: "l < 1 - int t" by simp
  have D: "(2::real) ^ 2604 \<le> real D"
  proof -
    have "(2 :: nat) ^ 2604 \<le> D" using ten_799 assms(1) by (rule le_trans)
    then have "real (2 ^ 2604) \<le> real D" by (simp only: of_nat_le_iff)
    then show ?thesis by simp
  qed
  have t: "t \<le> 1074" using l assms(4) by linarith
  have "msb + 1 \<le> 53 - int t" using l assms(4) by linarith
  then have "(2::real) powi (msb + 1) \<le> 2 powi (53 - int t)" by (intro power_int_increasing) simp_all
  also have "\<dots> = 2 ^ 53 / 2 ^ t" by (simp add: power_int_diff)
  finally have m: "(2::real) powi (msb + 1) \<le> 2 ^ 53 / 2 ^ t" .
  have "real D < 10 ^ t * (2 ^ 53 / 2 ^ t)"
    using assms(3) m by (rule less_le_trans [OF _ mult_left_mono]) simp
  also have "10 ^ t * (2 ^ 53 / 2 ^ t) = (10 / 2 :: real) ^ t * 2 ^ 53" by (simp only: power_divide) simp
  also have "\<dots> = 5 ^ t * 2 ^ 53" by simp
  also have "(5::real) ^ t \<le> 5 ^ (3 * 358)" using t by (intro power_increasing) simp_all
  also have "(5::real) ^ (3 * 358) = (5 ^ 3) ^ 358" by (rule power_mult)
  also have "\<dots> \<le> (2 ^ 7) ^ 358" by (rule power_mono) simp_all
  also have "(2 ^ 7) ^ 358 * 2 ^ 53 = (2 :: real) ^ (7 * 358 + 53)" by (simp only: power_mult power_add)
  finally have "real D < 2 ^ (7 * 358 + 53)" by (rule less_le_trans) simp_all
  moreover have "(2::real) ^ (7 * 358 + 53) \<le> 2 ^ 2604" by (rule power_increasing) simp_all
  ultimately show False using D by linarith
qed


section \<open>The quotient stands for the decimal number\<close>

lemma bit_length_ge:
  assumes "BitLength b = int len" and "holds b M" and "2 ^ k \<le> M"
  shows "k < len"
proof -
  have "0 < M" using assms(3) by (rule less_le_trans [rotated]) simp
  then obtain j where "BitLength b = int j" "M < 2 ^ j" using BitLength_correct [OF assms(2)] by metis
  then have "M < 2 ^ len" using assms(1) by simp
  with assms(3) have "(2::nat) ^ k < 2 ^ len" by (rule le_less_trans)
  then show ?thesis by (simp only: power_strict_increasing_iff)
qed

lemma quotient_stands_for:
  fixes x :: real
  defines "q \<equiv> \<lambda>D t. real D / 10 ^ t"
  assumes M: "M = D * 2 ^ s div 10 ^ t" and l: "- int s < l"
    and x: "if st then q D t < x \<and> x < q (D + 1) t else x = q D t"
    and st: "st \<Longrightarrow> 1 - l \<le> int t"
  shows "stands_for M (- int s) (st \<or> D * 2 ^ s mod 10 ^ t \<noteq> 0) x l"
proof -
  have pw: "(2::real) powi (- int s) = 1 / 2 ^ s" by (simp add: power_int_minus divide_inverse)
  have eq: "real (D * 2 ^ s) = real M * 10 ^ t + real (D * 2 ^ s mod 10 ^ t)"
  proof -
    have "D * 2 ^ s = M * 10 ^ t + D * 2 ^ s mod 10 ^ t" unfolding M by (rule div_mult_mod_eq [symmetric])
    then have "real (D * 2 ^ s) = real (M * 10 ^ t + D * 2 ^ s mod 10 ^ t)" by (rule arg_cong)
    then show ?thesis by simp
  qed
  have q: "q D t = real M / 2 ^ s + real (D * 2 ^ s mod 10 ^ t) / (10 ^ t * 2 ^ s)"
  proof -
    have "q D t = real (D * 2 ^ s) / (10 ^ t * 2 ^ s)" by (simp add: q_def)
    also have "\<dots> = real M / 2 ^ s + real (D * 2 ^ s mod 10 ^ t) / (10 ^ t * 2 ^ s)"
      unfolding eq by (simp add: add_divide_distrib)
    finally show ?thesis .
  qed
  have low: "real M / 2 ^ s \<le> q D t" unfolding q by simp
  define j where "j = nat (l - 1 + int s)"
  have j: "l - 1 = int j - int s" using l by (simp add: j_def)
  have grid: "(2::real) powi (l - 1) = 2 ^ j / 2 ^ s" unfolding j by (simp add: power_int_diff)
  have above: "x < real k * 2 powi (l - 1)" if "real M / 2 ^ s < real k * 2 powi (l - 1)" for k
  proof -
    have "real M / 2 ^ s < real (k * 2 ^ j) / 2 ^ s" using that by (simp add: grid)
    then have "real M < real (k * 2 ^ j)" by (simp only: divide_less_cancel) simp
    then have "M < k * 2 ^ j" by (simp only: of_nat_less_iff)
    then have K: "D * 2 ^ s < k * 2 ^ j * 10 ^ t" unfolding M by (simp add: div_less_iff_less_mult)
    show ?thesis
    proof (cases st)
      case False
      have "real (D * 2 ^ s) < real (k * 2 ^ j * 10 ^ t)" using K by (simp only: of_nat_less_iff)
      then have "q D t < real (k * 2 ^ j) / 2 ^ s" by (simp add: q_def field_simps)
      then show ?thesis using x False by (simp add: grid)
    next
      case True
      have "s \<le> j + t" using st [OF True] l by (simp add: j_def)
      then obtain i where i: "j + t = s + i" using le_Suc_ex by blast
      have "(10::nat) ^ t = 2 ^ t * 5 ^ t" by (simp flip: power_mult_distrib)
      then have "k * 2 ^ j * 10 ^ t = k * 5 ^ t * 2 ^ (j + t)" by (simp add: power_add)
      also have "\<dots> = k * 5 ^ t * 2 ^ i * 2 ^ s" unfolding i by (simp add: power_add)
      finally have e: "k * 2 ^ j * 10 ^ t = k * 5 ^ t * 2 ^ i * 2 ^ s" .
      from K have "D < k * 5 ^ t * 2 ^ i" unfolding e by simp
      then have "(D + 1) * 2 ^ s \<le> k * 5 ^ t * 2 ^ i * 2 ^ s" by (intro mult_le_mono1) simp
      then have "(D + 1) * 2 ^ s \<le> k * 2 ^ j * 10 ^ t" unfolding e .
      then have "real ((D + 1) * 2 ^ s) \<le> real (k * 2 ^ j * 10 ^ t)" by (simp only: of_nat_le_iff)
      then have "q (D + 1) t \<le> real (k * 2 ^ j) / 2 ^ s" by (simp add: q_def field_simps)
      then show ?thesis using x True by (simp add: grid)
    qed
  qed
  show ?thesis
  proof (cases "st \<or> D * 2 ^ s mod 10 ^ t \<noteq> 0")
    case True
    have "real M / 2 ^ s < x"
    proof (cases st)
      case False
      then have "0 < real (D * 2 ^ s mod 10 ^ t) / (10 ^ t * 2 ^ s)" using True by simp
      then show ?thesis using x False q by simp
    qed (use x low in auto)
    then show ?thesis using True above unfolding stands_for_def pw by simp
  next
    case False
    then show ?thesis using x q unfolding stands_for_def pw by simp
  qed
qed


section \<open>The double nearest to a decimal number\<close>

theorem DecimalToDouble_rounds:
  assumes b: "holds b D" "0 < D" "D < 10 ^ 800" and E: "- 1200 \<le> E" "E \<le> 1000"
    and x: "if st then real D * 10 powi E < x \<and> x < real (D + 1) * 10 powi E else x = real D * 10 powi E"
    and st: "st \<Longrightarrow> 10 ^ 799 \<le> D \<and> E < 0"
  shows "\<exists>p \<le> INF_BITS. unat (DecimalToDouble b E st neg) = sign_of neg + p \<and> rounds_to x p"
proof (cases "0 \<le> E")
  case True
  then have "\<not> st" using st by auto
  have fit: "D * 10 ^ nat E < BIG_LIMIT" using small_fits [OF b(3)] E(2) by simp
  obtain b' r where m: "multiply_tens (nat E) b = (b', r)" by (cases "multiply_tens (nat E) b")
  obtain n where n: "r < 9" "holds b' n" "n * 10 ^ r = D * 10 ^ nat E"
    using holds_multiply_tens [OF b(1) fit m] by blast
  have v: "holds (if r \<noteq> 0 then MulSmall b' (kPow10 r) else b') (D * 10 ^ nat E)"
    using holds_MulSmall [OF n(2) kPow10_nonzero [of r]] kPow10_correct [of r] n fit by (cases "r = 0") auto
  have pos: "0 < D * 10 ^ nat E" using b(2) by simp
  obtain len where len: "BitLength (if r \<noteq> 0 then MulSmall b' (kPow10 r) else b') = int len"
    using BitLength_correct [OF v pos] by metis
  have "stands_for (D * 10 ^ nat E) 0 False x l" for l
    using x \<open>\<not> st\<close> True by (simp add: stands_for_def power_int_def)
  moreover have "HALF_SUBNORMAL < 1" by (simp add: HALF_SUBNORMAL_def power_int_minus)
  moreover have "1 \<le> real (D * 10 ^ nat E)" using pos by (simp only: of_nat_1_eq_iff One_nat_def Suc_leI flip: of_nat_1 of_nat_le_iff)
  then have "1 \<le> x" using x \<open>\<not> st\<close> True by (simp add: power_int_def)
  ultimately have "\<exists>p \<le> INF_BITS. unat (AssembleDouble (if r \<noteq> 0 then MulSmall b' (kPow10 r) else b') 0 False neg) =
      sign_of neg + p \<and> rounds_to x p"
    using AssembleDouble_rounds [OF v pos len, of 0 False x neg] by simp
  then
  show ?thesis using True \<open>\<not> st\<close> holds_IsZero [OF b(1)] b(2) m by (simp add: DecimalToDouble_def)
next
  case False
  define t where "t = nat (- E)"
  have t: "t \<le> 1200" "0 < t" using E False by (simp_all add: t_def)
  define s where "s = bits_of_power t + 64"
  define M where "M = D * 2 ^ s div 10 ^ t"
  define st' where "st' = (st \<or> D * 2 ^ s mod 10 ^ t \<noteq> 0)"
  have h: "holds (ShiftLeft b (int (bits_of_power t) + 64)) (D * 2 ^ s)"
  proof -
    have "nat (int (bits_of_power t) + 64) = s" by (simp add: s_def nat_add_distrib)
    then show ?thesis using holds_ShiftLeft [OF b(1), of "int (bits_of_power t) + 64"] shifted_fits [OF b(3) t(1)]
      by (simp add: s_def)
  qed
  obtain b' st'' where d: "divide_tens t (ShiftLeft b (int (bits_of_power t) + 64)) st = (b', st'')"
    by (cases "divide_tens t (ShiftLeft b (int (bits_of_power t) + 64)) st")
  have v: "holds b' M" "st'' = st'" using holds_divide_tens [OF h d] by (simp_all add: M_def st'_def)
  have big: "2 ^ 62 \<le> M"
  proof -
    have "2 ^ 62 * 10 ^ t \<le> 2 ^ 62 * (2::nat) ^ (bits_of_power t + 2)"
      using bits_of_power_lower [OF t(1)] by (rule mult_le_mono2)
    also have "\<dots> = 2 ^ s" unfolding s_def power_add [symmetric] by (simp add: add.commute)
    also have "\<dots> \<le> D * 2 ^ s" using b(2) by simp
    finally show ?thesis by (simp add: M_def less_eq_div_iff_mult_less_eq)
  qed
  have pos: "0 < M" using big by (rule less_le_trans [rotated]) simp
  obtain len where len: "BitLength b' = int len" "0 < len" "2 ^ (len - 1) \<le> M" "M < 2 ^ len"
    using BitLength_correct [OF v(1) pos] by metis
  have len62: "62 < len" by (rule bit_length_ge [OF len(1) v(1) big])
  define msb where "msb = int len - 1 - int s"
  define l where "l = max (msb - 52) (- 1074)"
  have l: "- int s < l" using len62 by (simp add: l_def msb_def)
  have pE: "(10::real) powi E = 1 / 10 ^ t"
  proof -
    have "E = - int t" using False by (simp add: t_def)
    then show ?thesis by (simp add: power_int_minus inverse_eq_divide)
  qed
  have x': "if st then real D / 10 ^ t < x \<and> x < real (D + 1) / 10 ^ t else x = real D / 10 ^ t"
    using x unfolding pE by (cases st) simp_all
  have far: "1 - l \<le> int t" if st
  proof (rule middle_is_decimal [OF _ t(2)])
    show "10 ^ 799 \<le> D" using st that by simp
    have "D * 2 ^ s < 2 ^ len * 10 ^ t" using len(4) unfolding M_def by (simp add: div_less_iff_less_mult)
    then have "real (D * 2 ^ s) < real (2 ^ len * 10 ^ t)" by (simp only: of_nat_less_iff)
    then have "real D < 10 ^ t * (2 ^ len / 2 ^ s)" by (simp add: field_simps)
    also have "(2::real) ^ len / 2 ^ s = 2 powi (msb + 1)" by (simp add: msb_def power_int_diff)
    finally show "real D < 10 ^ t * 2 powi (msb + 1)" .
  qed (rule l_def)
  have sf: "stands_for M (- int s) st' x (max (int len - 1 + - int s - 52) (- 1074))"
    using quotient_stands_for [OF M_def l x' far] by (simp add: st'_def l_def msb_def)
  have "54 \<le> len" "1 < len \<or> st' \<or> x \<noteq> HALF_SUBNORMAL" using len62 by simp_all
  from AssembleDouble_rounds [OF v(1) pos len(1) sf this, of neg]
  have "\<exists>p \<le> INF_BITS. unat (AssembleDouble b' (- int s) st' neg) = sign_of neg + p \<and> rounds_to x p" .
  moreover have "DecimalToDouble b E st neg = AssembleDouble b' (- int s) st' neg"
    using False holds_IsZero [OF b(1)] b(2) d v(2) unfolding DecimalToDouble_def Let_def t_def [symmetric]
    by (simp add: s_def)
  ultimately show ?thesis by simp
qed

end
