(* ===== verification/Float_Text.thy ===== *)
theory Float_Text
  imports Number_Decimal
begin

text \<open>
  \<open>ParseFloat\<close> against a grammar of decimal numbers: every number the grammar describes is
  consumed whole and converted to the nearest double.
\<close>

section \<open>The grammar and what a text means\<close>

definition is_digit :: "u8 \<Rightarrow> bool" where
  "is_digit c \<longleftrightarrow> 48 \<le> c \<and> c \<le> 57"

definition decimal_value :: "u8 list \<Rightarrow> nat" where
  "decimal_value ds = foldl (\<lambda>n c. 10 * n + (unat c - 48)) 0 ds"

text \<open>An exponent is a letter, an optional sign and digits.\<close>

type_synonym exponent_syntax = "(u8 \<times> u8 list \<times> u8 list) option"

definition exponent_text :: "exponent_syntax \<Rightarrow> u8 list" where
  "exponent_text ex = (case ex of None \<Rightarrow> [] | Some (e, sg, ds) \<Rightarrow> e # sg @ ds)"

definition exponent_value :: "exponent_syntax \<Rightarrow> int" where
  "exponent_value ex =
     (case ex of None \<Rightarrow> 0
      | Some (e, sg, ds) \<Rightarrow> if sg = [45] then - int (decimal_value ds) else int (decimal_value ds))"

definition exponent_ok :: "exponent_syntax \<Rightarrow> bool" where
  "exponent_ok ex =
     (case ex of None \<Rightarrow> True
      | Some (e, sg, ds) \<Rightarrow> (e = 101 \<or> e = 69) \<and> sign_text sg \<and> ds \<noteq> [] \<and> (\<forall>c \<in> set ds. is_digit c))"

text \<open>What may follow a number: not a digit, not a point, not an exponent letter.\<close>

definition number_ends :: "u8 list \<Rightarrow> bool" where
  "number_ends rest \<longleftrightarrow> (case rest of [] \<Rightarrow> False | c # r \<Rightarrow> \<not> is_digit c \<and> c \<noteq> 46 \<and> c \<noteq> 101 \<and> c \<noteq> 69)"

text \<open>Spaces, a sign, digits before the point, the point, digits after it, an exponent.\<close>

definition float_syntax :: "u8 list \<Rightarrow> u8 list \<Rightarrow> u8 list \<Rightarrow> u8 list \<Rightarrow> u8 list \<Rightarrow> exponent_syntax \<Rightarrow> u8 list \<Rightarrow> bool" where
  "float_syntax ws sg ip point fp ex rest \<longleftrightarrow>
     (\<forall>c \<in> set ws. IsSpace c) \<and> sign_text sg \<and> (\<forall>c \<in> set (ip @ fp). is_digit c) \<and> ip @ fp \<noteq> [] \<and>
     (point = [46] \<or> point = [] \<and> fp = []) \<and> exponent_ok ex \<and> number_ends rest"

section \<open>Digits\<close>

lemma decimal_value_snoc [simp]: "decimal_value (ds @ [c]) = 10 * decimal_value ds + (unat c - 48)"
  by (simp add: decimal_value_def)

lemma decimal_value_Nil [simp]: "decimal_value [] = 0"
  by (simp add: decimal_value_def)

lemma digit_unat: "is_digit c \<Longrightarrow> 48 \<le> unat c \<and> unat c \<le> 57"
  by (simp add: is_digit_def word_le_nat_alt)

lemma digit_values:
  assumes "is_digit c"
  shows "unat (ucast (c - 48) :: u32) = unat c - 48" and "uint c - 48 = int (unat c - 48)"
    and "unat c - 48 < 10" and "unat c - 48 = 0 \<longleftrightarrow> c = 48"
proof -
  have d: "48 \<le> unat c" "unat c \<le> 57" using digit_unat [OF assms] by simp_all
  have s: "unat (c - 48) = unat c - 48" using d(1) by (simp add: unat_sub word_le_nat_alt)
  then show "unat (ucast (c - 48) :: u32) = unat c - 48" using d(2) by (simp add: unsigned_ucast_eq take_bit_nat_eq_self)
  show "uint c - 48 = int (unat c - 48)" using d(1) by (simp add: of_nat_diff)
  show "unat c - 48 < 10" using d by simp
  show "unat c - 48 = 0 \<longleftrightarrow> c = 48" using d(1) by (auto simp: word_unat_eq_iff)
qed

lemma decimal_value_append:
  "decimal_value (xs @ ys) = decimal_value xs * 10 ^ length ys + decimal_value ys"
  by (induction ys rule: rev_induct) (simp_all add: algebra_simps flip: append_assoc)

lemma decimal_value_less: "\<forall>c \<in> set ds. is_digit c \<Longrightarrow> decimal_value ds < 10 ^ length ds"
  by (induction ds rule: rev_induct) (use digit_values(3) in fastforce)+

lemma decimal_value_zeros: "\<forall>c \<in> set ds. c = 48 \<Longrightarrow> decimal_value ds = 0"
  by (induction ds rule: rev_induct) simp_all

lemma decimal_value_eq_0: "\<forall>c \<in> set ds. is_digit c \<Longrightarrow> decimal_value ds = 0 \<longleftrightarrow> (\<forall>c \<in> set ds. c = 48)"
  by (induction ds rule: rev_induct) (use digit_values(4) in auto)

lemma decimal_value_ge:
  assumes "\<forall>c \<in> set (c # ds). is_digit c" and "c \<noteq> 48"
  shows "10 ^ length ds \<le> decimal_value (c # ds)"
proof -
  have "1 \<le> decimal_value [c]" using assms digit_values(4) [of c] by (simp add: decimal_value_def)
  then have "1 * 10 ^ length ds \<le> decimal_value [c] * 10 ^ length ds" by (rule mult_le_mono1)
  then show ?thesis using decimal_value_append [of "[c]" ds] by (simp add: trans_le_add1)
qed

section \<open>Collecting the significant digits\<close>

text \<open>
  The state after the digits \<open>ds\<close>, \<open>f\<close> of them after the point: leading zeros, at most 800
  digits kept, and the rest, of which only being non-zero is remembered.
\<close>

definition collected :: "decimal \<Rightarrow> u8 list \<Rightarrow> nat \<Rightarrow> bool" where
  "collected d ds f \<longleftrightarrow> (\<forall>c \<in> set ds. is_digit c) \<and> d_any d = (ds \<noteq> []) \<and>
     (\<exists>zs kept rest. ds = zs @ kept @ rest \<and> (\<forall>c \<in> set zs. c = 48)
        \<and> (kept = [] \<longrightarrow> rest = []) \<and> (kept \<noteq> [] \<longrightarrow> hd kept \<noteq> 48)
        \<and> length kept \<le> 800 \<and> (rest \<noteq> [] \<longrightarrow> length kept = 800)
        \<and> holds (d_digits d) (decimal_value kept) \<and> d_significant d = length kept
        \<and> d_sticky d = (\<exists>c \<in> set rest. c \<noteq> 48) \<and> d_exponent d = int (length rest) - int f)"

lemma collectedI:
  assumes "\<forall>c \<in> set ds. is_digit c" and "d_any d = (ds \<noteq> [])" and "ds = zs @ kept @ rest"
    and "\<forall>c \<in> set zs. c = 48" and "kept = [] \<longrightarrow> rest = []" and "kept \<noteq> [] \<longrightarrow> hd kept \<noteq> 48"
    and "length kept \<le> 800" and "rest \<noteq> [] \<longrightarrow> length kept = 800"
    and "holds (d_digits d) (decimal_value kept)" and "d_significant d = length kept"
    and "d_sticky d = (\<exists>c \<in> set rest. c \<noteq> 48)" and "d_exponent d = int (length rest) - int f"
  shows "collected d ds f"
  unfolding collected_def using assms by blast

lemma collectedE:
  assumes "collected d ds f"
  obtains zs kept rest where "ds = zs @ kept @ rest" "\<forall>c \<in> set zs. c = 48"
    "kept = [] \<longrightarrow> rest = []" "kept \<noteq> [] \<longrightarrow> hd kept \<noteq> 48" "length kept \<le> 800"
    "rest \<noteq> [] \<longrightarrow> length kept = 800" "holds (d_digits d) (decimal_value kept)" "d_significant d = length kept"
    "d_sticky d = (\<exists>c \<in> set rest. c \<noteq> 48)" "d_exponent d = int (length rest) - int f"
  using assms unfolding collected_def by (elim conjE exE) (rule that; assumption)

definition add_digit :: "decimal \<Rightarrow> u8 \<Rightarrow> int \<Rightarrow> decimal" where
  "add_digit d c scale =
     (if Big_IsZero (d_digits d) \<and> c = 48 then d\<lparr>d_any := True, d_exponent := d_exponent d - scale\<rparr>
      else if d_significant d < 800
      then d\<lparr>d_any := True, d_digits := MulAddSmall (d_digits d) 10 (ucast (c - 48)),
             d_significant := d_significant d + 1, d_exponent := d_exponent d - scale\<rparr>
      else d\<lparr>d_any := True, d_sticky := (if c \<noteq> 48 then True else d_sticky d), d_exponent := d_exponent d - scale + 1\<rparr>)"

lemma kept_fits:
  assumes "\<forall>c \<in> set ds. is_digit c" and "length ds \<le> 800"
  shows "decimal_value ds < 10 ^ 800"
proof -
  have "decimal_value ds < 10 ^ length ds" by (rule decimal_value_less [OF assms(1)])
  also have "\<dots> \<le> 10 ^ 800" using assms(2) by (rule power_increasing) simp
  finally show ?thesis .
qed

lemma collected_add:
  assumes "collected d ds f" and "is_digit c"
  shows "collected (add_digit d c (int k)) (ds @ [c]) (f + k)"
proof -
  obtain zs kept rest where S: "ds = zs @ kept @ rest" "\<forall>c \<in> set zs. c = 48"
    "kept = [] \<longrightarrow> rest = []" "kept \<noteq> [] \<longrightarrow> hd kept \<noteq> 48" "length kept \<le> 800"
    "rest \<noteq> [] \<longrightarrow> length kept = 800" "holds (d_digits d) (decimal_value kept)" "d_significant d = length kept"
    "d_sticky d = (\<exists>c \<in> set rest. c \<noteq> 48)" "d_exponent d = int (length rest) - int f"
    using assms(1) by (rule collectedE)
  have D: "\<forall>c \<in> set ds. is_digit c" using assms(1) by (simp add: collected_def)
  have zero: "Big_IsZero (d_digits d) \<longleftrightarrow> kept = []"
  proof -
    have "decimal_value kept = 0 \<longleftrightarrow> kept = []"
      using decimal_value_eq_0 [of kept] D S(1,4) by (cases kept) auto
    then show ?thesis using holds_IsZero [OF S(7)] by simp
  qed
  consider (skip) "kept = []" "c = 48" | (keep) "kept \<noteq> [] \<or> c \<noteq> 48" "length kept < 800"
    | (drop) "kept \<noteq> []" "length kept = 800" using S(5) by force
  then show ?thesis
  proof cases
    case skip
    show ?thesis
      by (rule collectedI [where zs = "zs @ [48]" and kept = "[]" and rest = "[]"])
        (use skip S D zero assms(2) in \<open>simp_all add: add_digit_def\<close>)
  next
    case keep
    then have r: "rest = []" using S(6) by auto
    have K: "\<forall>c \<in> set (kept @ [c]). is_digit c" using D S(1) assms(2) by auto
    have "holds (MulAddSmall (d_digits d) 10 (ucast (c - 48))) (decimal_value kept * unat (10::u32) + unat (ucast (c - 48) :: u32))"
    proof (rule holds_MulAddSmall [OF S(7)])
      have "decimal_value (kept @ [c]) < 10 ^ 800" using kept_fits [OF K] keep(2) by simp
      then have "decimal_value (kept @ [c]) * 10 ^ 0 < BIG_LIMIT" by (rule small_fits) simp
      then show "decimal_value kept * unat (10::u32) + unat (ucast (c - 48) :: u32) < BIG_LIMIT"
        using digit_values(1) [OF assms(2)] by (simp add: mult.commute)
    qed simp
    then have h: "holds (MulAddSmall (d_digits d) 10 (ucast (c - 48))) (decimal_value (kept @ [c]))"
      using digit_values(1) [OF assms(2)] by (simp add: mult.commute)
    have hd: "hd (kept @ [c]) \<noteq> 48" using S(4) keep(1) by (cases kept) auto
    have a: "add_digit d c (int k) = d\<lparr>d_any := True, d_digits := MulAddSmall (d_digits d) 10 (ucast (c - 48)),
        d_significant := d_significant d + 1, d_exponent := d_exponent d - int k\<rparr>"
      using keep zero S(8) by (auto simp: add_digit_def)
    show ?thesis unfolding a
      by (rule collectedI [where zs = zs and kept = "kept @ [c]" and rest = "[]"])
        (use S D r keep(2) h hd assms(2) in simp_all)
  next
    case drop
    then have a: "add_digit d c (int k) = d\<lparr>d_any := True, d_sticky := (if c \<noteq> 48 then True else d_sticky d),
        d_exponent := d_exponent d - int k + 1\<rparr>"
      using zero S(8) by (simp add: add_digit_def)
    show ?thesis unfolding a
      by (rule collectedI [where zs = zs and kept = kept and rest = "rest @ [c]"])
        (use S D drop assms(2) in auto)
  qed
qed


lemma collected_digits:
  "collected d es f \<Longrightarrow> \<forall>c \<in> set ds. is_digit c \<Longrightarrow>
    collected (foldl (\<lambda>d c. add_digit d c (int k)) d ds) (es @ ds) (f + k * length ds)"
proof (induction ds arbitrary: d es f)
  case (Cons c ds)
  have "collected (add_digit d c (int k)) (es @ [c]) (f + k)" using Cons.prems by (intro collected_add) simp_all
  from Cons.IH [OF this] show ?case using Cons.prems(2) by (simp add: algebra_simps)
qed simp

lemma integer_part_digits:
  assumes "\<forall>c \<in> set ds. is_digit c" and "\<not> is_digit c"
  shows "integer_part (ds @ c # r) d = Inr (foldl (\<lambda>d c. add_digit d c 0) d ds, c # r)"
  using assms(1)
proof (induction ds arbitrary: d)
  case Nil
  then show ?case using assms(2) by (auto simp: is_digit_def)
next
  case (Cons x ds)
  then have "48 \<le> x \<and> x \<le> 57" by (simp add: is_digit_def)
  then have "integer_part ((x # ds) @ c # r) d = integer_part (ds @ c # r) (add_digit d x 0)"
    by (cases d) (simp add: add_digit_def kMaxSignificantDigits_def Let_def)
  then show ?case using Cons by simp
qed

lemma fraction_part_digits:
  assumes "\<forall>c \<in> set ds. is_digit c" and "\<not> is_digit c"
  shows "fraction_part (ds @ c # r) d = Inr (foldl (\<lambda>d c. add_digit d c 1) d ds, c # r)"
  using assms(1)
proof (induction ds arbitrary: d)
  case Nil
  then show ?case using assms(2) by (auto simp: is_digit_def)
next
  case (Cons x ds)
  then have "48 \<le> x \<and> x \<le> 57" by (simp add: is_digit_def)
  then have "fraction_part ((x # ds) @ c # r) d = fraction_part (ds @ c # r) (add_digit d x 1)"
    by (simp add: add_digit_def kMaxSignificantDigits_def Let_def)
  then show ?case using Cons by simp
qed

section \<open>The exponent\<close>

definition capped :: "int \<Rightarrow> u8 list \<Rightarrow> int" where
  "capped m ds = foldl (\<lambda>m c. if m < 100000 then m * 10 + (uint c - 48) else m) m ds"

lemma exponent_digits_capped:
  assumes "\<forall>c \<in> set ds. is_digit c" and "\<not> is_digit c"
  shows "exponent_digits (ds @ c # r) m = Inr (capped m ds, c # r)"
  using assms(1)
proof (induction ds arbitrary: m)
  case Nil
  then show ?case using assms(2) by (auto simp: is_digit_def capped_def)
next
  case (Cons x ds)
  then have "48 \<le> x \<and> x \<le> 57" by (simp add: is_digit_def)
  then show ?case using Cons by (simp add: capped_def)
qed

text \<open>The cap changes the exponent only from a million on, and keeps it above a hundred thousand.\<close>

lemma capped_value:
  "\<forall>c \<in> set ds. is_digit c \<Longrightarrow>
    (if decimal_value ds < 1000000 then capped 0 ds = int (decimal_value ds) else 100000 \<le> capped 0 ds)"
proof (induction ds rule: rev_induct)
  case (snoc c ds)
  have c: "uint c - 48 = int (unat c - 48)" "unat c - 48 < 10" using digit_values(2,3) [of c] snoc.prems by simp_all
  have IH: "if decimal_value ds < 1000000 then capped 0 ds = int (decimal_value ds) else 100000 \<le> capped 0 ds"
    using snoc by simp
  have step: "capped 0 (ds @ [c]) = (if capped 0 ds < 100000 then capped 0 ds * 10 + int (unat c - 48) else capped 0 ds)"
    by (simp add: capped_def c(1))
  show ?case
  proof (cases "decimal_value ds < 1000000")
    case True
    then show ?thesis using IH step c(2) by auto
  next
    case False
    then show ?thesis using IH step by auto
  qed
qed (simp add: capped_def)

definition exponent_read :: "exponent_syntax \<Rightarrow> int" where
  "exponent_read ex =
     (case ex of None \<Rightarrow> 0 | Some (e, sg, ds) \<Rightarrow> if sg = [45] then - capped 0 ds else capped 0 ds)"

lemma Lower_cases: "Lower c = 101 \<longleftrightarrow> c = 101 \<or> c = 69"
proof -
  have "c - 65 + 97 = c + 32" by simp
  moreover have "c + 32 = 101 \<longleftrightarrow> c = 101 - (32 :: u8)" by (rule eq_diff_eq [symmetric])
  ultimately have "c - 65 + 97 = 101 \<longleftrightarrow> c = (69 :: u8)" by simp
  then show ?thesis by (auto simp: Lower_def word_le_nat_alt)
qed

lemma exponent_part_read:
  assumes "exponent_ok ex" and "number_ends rest"
  shows "exponent_part (exponent_text ex @ rest) = Inr (exponent_read ex, rest)"
proof -
  obtain c r where r: "rest = c # r" and c: "\<not> is_digit c" "c \<noteq> 46" "c \<noteq> 101" "c \<noteq> 69"
    using assms(2) by (cases rest) (auto simp: number_ends_def)
  show ?thesis
  proof (cases ex)
    case None
    then show ?thesis using c r by (simp add: exponent_text_def exponent_read_def exponent_part_def Lower_cases)
  next
    case (Some x)
    obtain e sg ds where x: "x = (e, sg, ds)" by (cases x)
    have E: "e = 101 \<or> e = 69" "sign_text sg" "ds \<noteq> []" "\<forall>c \<in> set ds. is_digit c"
      using assms(1) by (simp_all add: Some x exponent_ok_def)
    obtain a as where ds: "ds = a # as" using E(3) by (cases ds) auto
    have a: "48 \<le> a" "a \<le> 57" "a \<noteq> 43" "a \<noteq> 45" using E(4) by (auto simp: ds is_digit_def)
    have L: "Lower e = 101" using E(1) by (simp add: Lower_cases)
    have D: "exponent_digits (a # as @ c # r) 0 = Inr (capped 0 ds, c # r)"
      using exponent_digits_capped [OF E(4) c(1)] by (simp add: ds)
    show ?thesis using E(2) L a D
      by (auto simp: Some x exponent_text_def exponent_read_def exponent_part_def sign_text_def ds r
          numeral_2_eq_2 simp del: exponent_digits.simps)
  qed
qed


section \<open>The value the collected digits stand for\<close>

lemma huge_rounds:
  assumes "10 powi 350 \<le> x"
  shows "rounds_to x INF_BITS"
proof -
  have "(2::real) powi 1024 \<le> 10 powi 350"
  proof -
    have "(2::real) ^ 1024 \<le> 2 ^ (3 * 350)" by (rule power_increasing) simp_all
    also have "\<dots> = (2 ^ 3) ^ 350" by (rule power_mult)
    also have "\<dots> \<le> 10 ^ 350" by (rule power_mono) simp_all
    finally show ?thesis by (simp add: power_int_def)
  qed
  then have "dval INF_BITS \<le> x" using assms unfolding dval_INF by linarith
  then have "nearest x INF_BITS" by (rule nearest_overflow)
  moreover have "HALF_SUBNORMAL < 1" by (simp add: HALF_SUBNORMAL_def power_int_minus)
  then have "x \<noteq> HALF_SUBNORMAL" using assms one_le_power [of "10::real" 350] by (simp add: power_int_def)
  ultimately show ?thesis by (simp add: rounds_to_def)
qed

lemma tiny_rounds:
  assumes "0 \<le> x" and "x < 10 powi (-400)"
  shows "rounds_to x 0"
proof -
  have "(10::real) powi (-400) \<le> 2 powi (-1075)"
  proof -
    have "(2::real) ^ 1075 \<le> 2 ^ (3 * 400)" by (rule power_increasing) simp_all
    also have "\<dots> = (2 ^ 3) ^ 400" by (rule power_mult)
    also have "\<dots> \<le> 10 ^ 400" by (rule power_mono) simp_all
    finally have "inverse ((10::real) ^ 400) \<le> inverse (2 ^ 1075)" by (rule le_imp_inverse_le) simp
    then show ?thesis by (simp only: power_int_minus power_int_numeral)
  qed
  then have x: "x < HALF_SUBNORMAL" using assms(2) unfolding HALF_SUBNORMAL_def by linarith
  have "dval 1 = 2 * HALF_SUBNORMAL"
    using dval_at [of 1 "-1074"] two_powi [of 1 "-1075"] by (simp add: HALF_SUBNORMAL_def)
  then have "nearest x 0" using nearest_neighbour [of 0 x 0] assms(1) x by (simp add: INF_BITS_def)
  then show ?thesis using x by (simp add: rounds_to_def)
qed

text \<open>The decimal value against the collected digits \<open>D\<close> and the exponent \<open>E\<close>.\<close>

lemma collected_value:
  assumes "collected d ds f" and "x = real (decimal_value ds) * 10 powi (ev - int f)" and "E = d_exponent d + ev"
  obtains kept where "holds (d_digits d) (decimal_value kept)" and "d_significant d = length kept"
    and "length kept \<le> 800" and "\<forall>c \<in> set kept. is_digit c" and "kept = [] \<longrightarrow> x = 0 \<and> \<not> d_sticky d"
    and "kept \<noteq> [] \<longrightarrow> 10 ^ (length kept - 1) \<le> decimal_value kept"
    and "d_sticky d \<longrightarrow> length kept = 800"
    and "if d_sticky d then real (decimal_value kept) * 10 powi E < x \<and> x < real (decimal_value kept + 1) * 10 powi E
      else x = real (decimal_value kept) * 10 powi E"
    and "int (length kept) + E \<le> int (length ds) - int f + ev" and "- int f \<le> E - ev"
proof -
  obtain zs kept rest where S: "ds = zs @ kept @ rest" "\<forall>c \<in> set zs. c = 48"
    "kept = [] \<longrightarrow> rest = []" "kept \<noteq> [] \<longrightarrow> hd kept \<noteq> 48" "length kept \<le> 800"
    "rest \<noteq> [] \<longrightarrow> length kept = 800" "holds (d_digits d) (decimal_value kept)" "d_significant d = length kept"
    "d_sticky d = (\<exists>c \<in> set rest. c \<noteq> 48)" "d_exponent d = int (length rest) - int f"
    using assms(1) by (rule collectedE)
  have D: "\<forall>c \<in> set kept. is_digit c" "\<forall>c \<in> set rest. is_digit c" using assms(1) by (auto simp: collected_def S(1))
  define K where "K = decimal_value kept"
  define R where "R = decimal_value rest"
  let ?n = "length rest"
  have v: "decimal_value ds = K * 10 ^ ?n + R"
    using decimal_value_append [of zs "kept @ rest"] decimal_value_append [of kept rest] decimal_value_zeros [OF S(2)]
    by (simp add: S(1) K_def R_def)
  have R: "R < 10 ^ ?n" unfolding R_def by (rule decimal_value_less [OF D(2)])
  have st: "d_sticky d \<longleftrightarrow> R \<noteq> 0" using decimal_value_eq_0 [OF D(2)] by (auto simp: S(9) R_def)
  have E: "E = int ?n + (ev - int f)" by (simp add: assms(3) S(10))
  let ?u = "10 powi (ev - int f) :: real"
  have u: "0 < ?u" by simp
  have k: "real m * 10 powi E = real (m * 10 ^ ?n) * ?u" for m
    unfolding E by (simp add: power_int_add)
  have x: "x = real (K * 10 ^ ?n + R) * ?u" using assms(2) by (simp only: v)
  show ?thesis
  proof (rule that [of kept])
    show "kept = [] \<longrightarrow> x = 0 \<and> \<not> d_sticky d" using S(3,9) x by (auto simp: K_def R_def)
    show "kept \<noteq> [] \<longrightarrow> 10 ^ (length kept - 1) \<le> decimal_value kept"
      using D(1) S(4) decimal_value_ge [of "hd kept" "tl kept"] by (cases kept) auto
    show "d_sticky d \<longrightarrow> length kept = 800" using S(6,9) by auto
    have "K * 10 ^ ?n + R < (K + 1) * 10 ^ ?n" using R by simp
    moreover have "d_sticky d \<Longrightarrow> K * 10 ^ ?n < K * 10 ^ ?n + R" using st by simp
    moreover have "\<not> d_sticky d \<Longrightarrow> R = 0" using st by simp
    ultimately show "if d_sticky d then real (decimal_value kept) * 10 powi E < x \<and> x < real (decimal_value kept + 1) * 10 powi E
      else x = real (decimal_value kept) * 10 powi E"
      unfolding k x K_def [symmetric] mult_less_cancel_right_pos [OF u] of_nat_less_iff by simp
    show "int (length kept) + E \<le> int (length ds) - int f + ev" by (simp add: S(1) E)
  qed (use S D E in simp_all)
qed


definition convert :: "decimal \<Rightarrow> bool \<Rightarrow> u64" where
  "convert d negative =
     (let sign_bit = (if negative then SIGN_BIT else 0); magnitude_estimate = int (d_significant d) + d_exponent d
      in if Big_IsZero (d_digits d) \<or> magnitude_estimate < -400 then sign_bit
         else if magnitude_estimate > 350 then sign_bit OR INFINITY_BITS
         else DecimalToDouble (d_digits d) (d_exponent d) (d_sticky d) negative)"

lemma sign_only: "unat (if negative then SIGN_BIT else 0) = sign_of negative"
  using sign_or [of 0 negative] by simp

lemma sign_infinity: "unat ((if negative then SIGN_BIT else 0) OR INFINITY_BITS) = sign_of negative + INF_BITS"
  using sign_or [of INFINITY_BITS negative] INF_less by (simp add: unat_INFINITY)

lemma kept_below:
  assumes "\<forall>c \<in> set kept. is_digit c" and "x < real (decimal_value kept + 1) * 10 powi E \<or> x = real (decimal_value kept) * 10 powi E"
    and "int (length kept) + E \<le> - 401"
  shows "x < 10 powi (-400)"
proof -
  have "decimal_value kept + 1 \<le> 10 ^ length kept" using decimal_value_less [OF assms(1)] by simp
  then have "real (decimal_value kept + 1) \<le> real (10 ^ length kept)" by (simp only: of_nat_le_iff)
  then have "real (decimal_value kept + 1) * 10 powi E \<le> 10 ^ length kept * 10 powi E"
    by (intro mult_right_mono) simp_all
  moreover have "real (decimal_value kept) * 10 powi E \<le> real (decimal_value kept + 1) * 10 powi E" by simp
  moreover have "10 ^ length kept * 10 powi E = (10::real) powi (int (length kept) + E)" by (simp add: power_int_add)
  moreover have "(10::real) powi (int (length kept) + E) \<le> 10 powi (-401)" by (rule power_int_increasing [OF assms(3)]) simp
  moreover have "(10::real) powi (-401) < 10 powi (-400)" by (rule power_int_strict_increasing) simp_all
  ultimately show ?thesis using assms(2) by linarith
qed

lemma kept_above:
  assumes "10 ^ (length kept - 1) \<le> decimal_value kept" and "kept \<noteq> []" and "real (decimal_value kept) * 10 powi E \<le> x"
    and "351 \<le> int (length kept) + E"
  shows "10 powi 350 \<le> x"
proof -
  have "real (10 ^ (length kept - 1)) \<le> real (decimal_value kept)" using assms(1) by (simp only: of_nat_le_iff)
  then have "10 ^ (length kept - 1) * 10 powi E \<le> real (decimal_value kept) * 10 powi E" by (intro mult_right_mono) simp_all
  moreover have "10 ^ (length kept - 1) * 10 powi E = (10::real) powi (int (length kept - 1) + E)" by (simp add: power_int_add)
  moreover have "(10::real) powi 350 \<le> 10 powi (int (length kept - 1) + E)"
    using assms(2,4) by (intro power_int_increasing) (cases kept; simp)+
  ultimately show ?thesis using assms(3) by linarith
qed

lemma convert_rounds:
  assumes "collected d ds f" and "x = real (decimal_value ds) * 10 powi (ev - int f)" and "f \<le> length ds"
    and "er = ev \<or> length ds \<le> 99000 \<and> (100000 \<le> er \<and> 1000000 \<le> ev \<or> er \<le> -100000 \<and> ev \<le> -1000000)"
  shows "\<exists>p \<le> INF_BITS. unat (convert (d\<lparr>d_exponent := d_exponent d + er\<rparr>) neg) = sign_of neg + p \<and> rounds_to x p"
proof -
  define E where "E = d_exponent d + ev"
  obtain kept where K: "holds (d_digits d) (decimal_value kept)" "d_significant d = length kept"
    "length kept \<le> 800" "\<forall>c \<in> set kept. is_digit c" "kept = [] \<longrightarrow> x = 0 \<and> \<not> d_sticky d"
    "kept \<noteq> [] \<longrightarrow> 10 ^ (length kept - 1) \<le> decimal_value kept"
    "d_sticky d \<longrightarrow> length kept = 800"
    and X: "if d_sticky d then real (decimal_value kept) * 10 powi E < x \<and> x < real (decimal_value kept + 1) * 10 powi E
      else x = real (decimal_value kept) * 10 powi E"
    and L: "int (length kept) + E \<le> int (length ds) - int f + ev" "- int f \<le> E - ev"
    by (rule collected_value [OF assms(1,2) E_def])
  have x0: "0 \<le> x" using assms(2) by simp
  define D where "D = decimal_value kept"
  have D0: "kept \<noteq> [] \<Longrightarrow> 0 < D" using K(6) by (auto simp: D_def intro: less_le_trans [rotated])
  have zero: "Big_IsZero (d_digits d) \<longleftrightarrow> kept = []"
    using holds_IsZero [OF K(1)] D0 by (cases "kept = []") (auto simp: D_def)
  have le: "real D * 10 powi E \<le> x" using X by (auto simp: D_def split: if_splits)
  let ?m = "int (length kept) + d_exponent d + er"
  consider (none) "kept = []" | (tiny) "kept \<noteq> []" "?m < -400" | (huge) "kept \<noteq> []" "?m > 350"
    | (mid) "kept \<noteq> []" "-400 \<le> ?m" "?m \<le> 350" by linarith
  then show ?thesis
  proof cases
    case none
    then have "rounds_to x 0" using K(5) by (intro tiny_rounds) simp_all
    then show ?thesis using none zero by (intro exI [of _ 0]) (simp add: convert_def sign_only)
  next
    case tiny
    have "int (length kept) + E \<le> - 401"
    proof (cases "er = ev")
      case False
      then have "ev \<le> -1000000" "length ds \<le> 99000" using assms(3,4) tiny(2) L(2) by (auto simp: E_def)
      then show ?thesis using L(1) by linarith
    qed (use tiny in \<open>simp add: E_def\<close>)
    moreover have "x < real (decimal_value kept + 1) * 10 powi E \<or> x = real (decimal_value kept) * 10 powi E"
      using X by (cases "d_sticky d") simp_all
    ultimately have "x < 10 powi (-400)" by (intro kept_below [OF K(4)])
    then have "rounds_to x 0" using x0 by (intro tiny_rounds)
    then show ?thesis using tiny zero K(2) by (intro exI [of _ 0]) (simp add: convert_def sign_only algebra_simps)
  next
    case huge
    have "351 \<le> int (length kept) + E"
    proof (cases "er = ev")
      case False
      then have "1000000 \<le> ev" "length ds \<le> 99000" using assms(4) huge(2) L E_def by auto
      then show ?thesis using L(2) assms(3) by linarith
    qed (use huge in \<open>simp add: E_def\<close>)
    then have "10 powi 350 \<le> x" using kept_above [OF K(6) [rule_format, OF huge(1)] huge(1)] le by (simp add: D_def)
    then have "rounds_to x INF_BITS" by (rule huge_rounds)
    then show ?thesis using huge zero K(2)
      by (intro exI [of _ INF_BITS]) (simp add: convert_def sign_infinity algebra_simps)
  next
    case mid
    have e: "er = ev" using mid assms(3,4) L by (auto simp: E_def)
    have E: "d_exponent d + er = E" by (simp add: E_def e)
    have D: "D < 10 ^ 800" unfolding D_def by (rule kept_fits [OF K(4,3)])
    have "\<exists>p \<le> INF_BITS. unat (DecimalToDouble (d_digits d) E (d_sticky d) neg) = sign_of neg + p \<and> rounds_to x p"
    proof (rule DecimalToDouble_rounds [where D = D])
      show "holds (d_digits d) D" using K(1) by (simp add: D_def)
      show "0 < D" using D0 mid(1) by simp
      show "- 1200 \<le> E" "E \<le> 1000" using mid K(3) E by linarith+
      show "if d_sticky d then real D * 10 powi E < x \<and> x < real (D + 1) * 10 powi E else x = real D * 10 powi E"
        using X unfolding D_def .
      show "10 ^ 799 \<le> D \<and> E < 0" if "d_sticky d"
        using that K(6,7) mid E by (auto simp: D_def)
    qed (rule D)
    then show ?thesis using mid zero K(2) E by (simp add: convert_def Let_def)
  qed
qed


section \<open>The whole parser\<close>

lemma digit_first:
  assumes "is_digit c \<or> c = 46"
  shows "\<not> IsSpace c \<and> c \<noteq> 43 \<and> c \<noteq> 45 \<and> Lower c = c \<and> c \<noteq> 105 \<and> c \<noteq> 110"
  using assms by (auto simp: is_digit_def IsSpace_def Lower_def word_le_nat_alt)

lemma exponents_agree:
  assumes "exponent_ok ex" and "exponent_value ex > - 1000000 \<and> exponent_value ex < 1000000 \<or> n \<le> 99000"
  shows "exponent_read ex = exponent_value ex \<or> n \<le> 99000 \<and>
    (100000 \<le> exponent_read ex \<and> 1000000 \<le> exponent_value ex \<or>
     exponent_read ex \<le> -100000 \<and> exponent_value ex \<le> -1000000)"
proof (cases ex)
  case (Some x)
  obtain e sg ds where x: "x = (e, sg, ds)" by (cases x)
  have "\<forall>c \<in> set ds. is_digit c" using assms(1) by (simp add: Some x exponent_ok_def)
  from capped_value [OF this] show ?thesis using assms(2)
    by (auto simp: Some x exponent_read_def exponent_value_def split: if_splits)
qed (simp add: exponent_read_def exponent_value_def)

lemma ParseFloat_numbers:
  assumes "float_syntax ws sg ip point fp ex rest"
  shows "\<exists>d. collected d (ip @ fp) (length fp) \<and>
    ParseFloat (Some (ws @ sg @ ip @ point @ fp @ exponent_text ex @ rest)) =
      Inr (Some (convert (d\<lparr>d_exponent := d_exponent d + exponent_read ex\<rparr>) (sg = [45]), rest))"
proof -
  have S: "\<forall>c \<in> set ws. IsSpace c" "sign_text sg" "\<forall>c \<in> set ip. is_digit c" "\<forall>c \<in> set fp. is_digit c"
    "ip @ fp \<noteq> []" "point = [46] \<or> point = [] \<and> fp = []" "exponent_ok ex" "number_ends rest"
    using assms by (auto simp: float_syntax_def)
  let ?tail = "exponent_text ex @ rest"
  obtain t ts where T: "?tail = t # ts" and t: "\<not> is_digit t" "t \<noteq> 46"
  proof (cases ex)
    case None
    then show ?thesis using S(8) that by (cases rest) (auto simp: exponent_text_def number_ends_def)
  next
    case (Some x)
    then show ?thesis using S(7) that
      by (cases x) (auto simp: exponent_text_def exponent_ok_def is_digit_def word_le_nat_alt)
  qed
  obtain c p where P: "ip @ point @ fp @ ?tail = c # p" and c: "is_digit c \<or> c = 46"
    using S(3-6) by (cases ip) auto
  have skip: "SkipSpaceAndSign (ws @ sg @ ip @ point @ fp @ ?tail) = Inr (c # p, sg = [45])"
    unfolding P using digit_first [OF c] by (intro SkipSpaceAndSign_text S) simp_all
  let ?z = "\<lparr>d_digits = [], d_significant = 0, d_exponent = 0, d_any = False, d_sticky = False\<rparr>"
  define d1 where "d1 = foldl (\<lambda>d c. add_digit d c 0) ?z ip"
  define d2 where "d2 = foldl (\<lambda>d c. add_digit d c 1) d1 fp"
  have "collected ?z [] 0" by (rule collectedI [where zs = "[]" and kept = "[]" and rest = "[]"]) (simp_all add: holds_def)
  from collected_digits [OF this S(3), of 0] have d1: "collected d1 ip 0" by (simp add: d1_def)
  from collected_digits [OF this S(4), of 1] have d2: "collected d2 (ip @ fp) (length fp)" by (simp add: d2_def)
  have int: "integer_part (c # p) ?z = Inr (d1, point @ fp @ ?tail)"
  proof (cases "point = []")
    case True
    then show ?thesis using S(6) t T integer_part_digits [OF S(3) t(1), of ts ?z] unfolding P [symmetric] d1_def by simp
  next
    case False
    then have "point = [46]" using S(6) by simp
    moreover have "\<not> is_digit 46" by (simp add: is_digit_def)
    ultimately show ?thesis using integer_part_digits [OF S(3), of 46 "fp @ ?tail" ?z] unfolding P [symmetric] d1_def by simp
  qed
  have frac: "bindE (peek (point @ fp @ ?tail) 0) (\<lambda>c. if c = 46 then fraction_part (tl (point @ fp @ ?tail)) d1
      else Inr (d1, point @ fp @ ?tail)) = Inr (d2, ?tail)"
    using S(6) t fraction_part_digits [OF S(4) t(1), of ts d1] by (auto simp: T d2_def)
  have any: "d_any d2" using d2 S(5) by (simp add: collected_def)
  have word: "MatchWord (c # p) [105, 110, 102] = Inr None" "MatchWord (c # p) [110, 97, 110] = Inr None"
    using digit_first [OF c] by simp_all
  have "ParseFloat (Some (ws @ sg @ ip @ point @ fp @ ?tail)) =
      Inr (Some (convert (d2\<lparr>d_exponent := d_exponent d2 + exponent_read ex\<rparr>) (sg = [45]), rest))"
    unfolding ParseFloat_def skip option.case bindE_Inr prod.case word int frac Let_def
      exponent_part_read [OF S(7,8)] convert_def
    using any by simp
  then show ?thesis using d2 by blast
qed

lemma ParseFloat_rounds:
  assumes "float_syntax ws sg ip point fp ex rest"
    and "exponent_value ex > - 1000000 \<and> exponent_value ex < 1000000 \<or> length (ip @ fp) \<le> 99000"
  shows "\<exists>w p. ParseFloat (Some (ws @ sg @ ip @ point @ fp @ exponent_text ex @ rest)) = Inr (Some (w, rest))
    \<and> p \<le> INF_BITS \<and> unat w = sign_of (sg = [45]) + p
    \<and> rounds_to (real (decimal_value (ip @ fp)) * 10 powi (exponent_value ex - int (length fp))) p"
proof -
  obtain d where d: "collected d (ip @ fp) (length fp)"
    "ParseFloat (Some (ws @ sg @ ip @ point @ fp @ exponent_text ex @ rest)) =
      Inr (Some (convert (d\<lparr>d_exponent := d_exponent d + exponent_read ex\<rparr>) (sg = [45]), rest))"
    using ParseFloat_numbers [OF assms(1)] by blast
  have "exponent_ok ex" using assms(1) by (simp add: float_syntax_def)
  from convert_rounds [OF d(1) refl _ exponents_agree [OF this assms(2)], of "sg = [45]"] d(2)
  show ?thesis by auto
qed


text \<open>
  (C19) \<open>ParseFloat\<close> consumes a decimal number of the grammar whole and returns the nearest double, ties
  to even, of its exact value, with the sign of the text; the exact half of the smallest subnormal
  is the one value it rounds the wrong way. The exponent has to stay below a million or the number
  short, since the digits of a longer exponent are not accumulated.
\<close>

theorem parse_float_rounds:
  assumes "float_syntax ws sg ip point fp ex rest"
    and "exponent_value ex > - 1000000 \<and> exponent_value ex < 1000000 \<or> length (ip @ fp) \<le> 99000"
  shows "\<exists>w p. ParseFloat (Some (ws @ sg @ ip @ point @ fp @ exponent_text ex @ rest)) = Inr (Some (w, rest))
    \<and> p \<le> INF_BITS \<and> unat w = sign_of (sg = [45]) + p
    \<and> rounds_to (real (decimal_value (ip @ fp)) * 10 powi (exponent_value ex - int (length fp))) p"
  by (rule ParseFloat_rounds [OF assms])

theorem parse_float_rounds_witness:
  "\<exists>w p. ParseFloat (Some ([32] @ [45] @ [49] @ [46] @ [53] @ exponent_text (Some (101, [], [49])) @ [0])) = Inr (Some (w, [0]))
    \<and> p \<le> INF_BITS \<and> unat w = sign_of ([45 :: u8] = [45]) + p
    \<and> rounds_to (real (decimal_value ([49] @ [53])) * 10 powi (exponent_value (Some (101, [], [49])) - int (length [53 :: u8]))) p"
  by (rule parse_float_rounds)
    (simp_all add: float_syntax_def IsSpace_def sign_text_def is_digit_def exponent_ok_def number_ends_def
      exponent_value_def)

text \<open>
  (C38) A mantissa of one bit with an exponent that makes it the exact half of the smallest subnormal: the
  nearest double, of two equally near the even one, is zero. \<open>AssembleDouble\<close> gives zero for the mantissa
  one only; for every larger power of two, the same number, it gives the smallest subnormal.
\<close>

theorem assemble_half_subnormal:
  assumes "holds b (2 ^ k)"
  shows "unat (AssembleDouble b (- 1075 - int k) False neg) = sign_of neg + (if k = 0 then 0 else 1)
    \<and> nearest (real (2 ^ k) * 2 powi (- 1075 - int k)) 0 \<and> \<not> nearest (real (2 ^ k) * 2 powi (- 1075 - int k)) 1"
proof -
  have half: "real (2 ^ k) * 2 powi (- 1075 - int k) = HALF_SUBNORMAL"
  proof -
    have "(2 :: real) powi (- 1075 - int k) * 2 powi int k = 2 powi (- 1075)" by (subst power_int_add [symmetric]) simp_all
    then show ?thesis by (simp add: HALF_SUBNORMAL_def mult.commute)
  qed
  obtain j where j: "BitLength b = int j" "0 < j" "2 ^ (j - 1) \<le> (2 :: nat) ^ k" "(2 :: nat) ^ k < 2 ^ j"
    using BitLength_correct [OF assms] by auto
  then have len: "j = Suc k" by (simp add: power_increasing_iff power_strict_increasing_iff)
  have "AssembleDouble b (- 1075 - int k) False neg = (if neg then SIGN_BIT else 0) OR (if k = 0 then 0 else 1)"
    using j(1) by (simp add: AssembleDouble_def Let_def len)
  then have code: "unat (AssembleDouble b (- 1075 - int k) False neg) = sign_of neg + (if k = 0 then 0 else 1)"
    using sign_or [of 0 neg] sign_or [of 1 neg] by simp
  have one: "dval 1 = 2 * HALF_SUBNORMAL"
    using dval_at [of 1 "-1074"] two_powi [of 1 "-1075"] by (simp add: HALF_SUBNORMAL_def)
  have "0 < HALF_SUBNORMAL" by (simp add: HALF_SUBNORMAL_def)
  then have zero: "nearest HALF_SUBNORMAL 0"
    using one nearest_neighbour [of 0 HALF_SUBNORMAL 0] by (simp add: INF_BITS_def)
  then have "\<not> nearest HALF_SUBNORMAL 1" using nearest_unique [of HALF_SUBNORMAL 0 1] by auto
  then show ?thesis using code zero unfolding half by blast
qed

theorem assemble_half_subnormal_witness:
  "unat (AssembleDouble [8] (- 1078) False True) = 2 ^ 63 + 1 \<and> nearest (8 * 2 powi (- 1078)) 0"
proof -
  have "holds [8] (2 ^ 3)" by (simp add: holds_def normal_def)
  from assemble_half_subnormal [OF this, of True] show ?thesis by (simp add: sign_of_def)
qed

end
