(* ===== verification/Float_Print.thy ===== *)
theory Float_Print
  imports Float_Format Float_Text
begin

unbundle bit_operations_syntax

text \<open>
  The decimal text of a double: its expansion is exact, the rounding to a number of digits is half
  to even, and what \<open>FormatFloatTo\<close> writes reads back through \<open>ParseFloat\<close> as the same double.
\<close>

section \<open>The expansion is exact\<close>

lemma kPow5_correct: "c < 13 \<Longrightarrow> unat (kPow5Table c) = 5 ^ c"
proof -
  assume "c < 13"
  then have "c = 0 \<or> c = 1 \<or> c = 2 \<or> c = 3 \<or> c = 4 \<or> c = 5 \<or> c = 6 \<or> c = 7 \<or> c = 8 \<or> c = 9 \<or> c = 10 \<or> c = 11 \<or> c = 12"
    by arith
  then show ?thesis by (elim disjE) (simp_all add: kPow5Table_def)
qed

lemma kPow5_nonzero: "c < 13 \<Longrightarrow> kPow5Table c \<noteq> 0"
  using kPow5_correct [of c] by (metis power_eq_0_iff unsigned_0 zero_neq_numeral)

lemma holds_multiply_fives:
  "holds b n \<Longrightarrow> n * 5 ^ k < BIG_LIMIT \<Longrightarrow> holds (multiply_fives k b) (n * 5 ^ k)"
proof (induction k b arbitrary: n rule: multiply_fives.induct)
  case (1 k b)
  show ?case
  proof (cases "k \<ge> 13")
    case True
    have e: "n * 5 ^ 13 * 5 ^ (k - 13) = n * 5 ^ k" using True by (simp only: mult.assoc flip: power_add) simp
    have "n * 5 ^ 13 * 1 \<le> n * 5 ^ 13 * 5 ^ (k - 13)" by (rule mult_le_mono2) simp
    then have "n * 5 ^ 13 < BIG_LIMIT" using 1(3) e by linarith
    then have "holds (MulSmall b 1220703125) (n * 5 ^ 13)" using holds_MulSmall [OF 1(2), of 1220703125] by simp
    from 1(1) [OF True this, unfolded e, OF 1(3)] show ?thesis using True by (simp add: multiply_fives.simps [of k])
  next
    case False
    then show ?thesis
      using 1(2,3) holds_MulSmall [OF 1(2) kPow5_nonzero [of k]] kPow5_correct [of k]
      by (cases "k = 0") (auto simp: multiply_fives.simps [of k] multiply_fives.simps [of 0])
  qed
qed

lemma digit_char:
  fixes g :: u32
  shows "is_digit (ucast (48 + g mod 10))" and "unat (ucast (48 + g mod 10) :: u8) - 48 = unat g mod 10"
proof -
  have m: "unat (g mod 10) = unat g mod 10" by (simp add: unat_mod_distrib)
  have "unat g mod 10 < 10" by simp
  then have "unat (48 + g mod 10) = 48 + unat g mod 10" using m by (simp add: unat_word_ariths)
  then have u: "unat (ucast (48 + g mod 10) :: u8) = 48 + unat g mod 10"
    using \<open>unat g mod 10 < 10\<close> by (simp add: unsigned_ucast_eq take_bit_nat_eq_self)
  then show "unat (ucast (48 + g mod 10) :: u8) - 48 = unat g mod 10" by simp
  show "is_digit (ucast (48 + g mod 10))" using u \<open>unat g mod 10 < 10\<close> by (simp add: is_digit_def word_le_nat_alt)
qed

lemma group_digits_value:
  "length (group_digits k g) = k \<and> (\<forall>c \<in> set (group_digits k g). is_digit c)
    \<and> decimal_value (rev (group_digits k g)) = unat g mod 10 ^ k"
proof (induction k arbitrary: g)
  case (Suc k)
  have "unat g mod 10 ^ Suc k = 10 * (unat g div 10 mod 10 ^ k) + unat g mod 10"
    using mod_mult2_eq [of "unat g" 10 "10 ^ k"] by simp
  then show ?case using Suc.IH [of "g div 10"] digit_char [of g] by (simp add: unat_div_distrib)
qed simp

lemma extract_digits_value:
  "holds n v \<Longrightarrow> v * 10 ^ length acc < 10 ^ 792 \<Longrightarrow> \<forall>c \<in> set acc. is_digit c \<Longrightarrow>
    \<exists>r. extract_digits n acc = Inr r \<and> (\<forall>c \<in> set r. is_digit c)
      \<and> decimal_value (rev r) = v * 10 ^ length acc + decimal_value (rev acc)"
proof (induction n acc arbitrary: v rule: extract_digits.induct)
  case (1 n acc)
  show ?case
  proof (cases "Big_IsZero n")
    case True
    then show ?thesis using 1(2,4) holds_IsZero [OF 1(2)] by (simp add: extract_digits.simps)
  next
    case False
    obtain n' g where d: "DivModSmall n 1000000000 = (n', g)" by (cases "DivModSmall n 1000000000")
    have D: "holds n' (v div 10 ^ 9)" "unat g = v mod 10 ^ 9" using holds_DivModSmall [OF 1(2) _ d] by simp_all
    have "0 < v" using False holds_IsZero [OF 1(2)] by simp
    then have "1 * 10 ^ length acc \<le> v * 10 ^ length acc" by (intro mult_le_mono1) simp
    then have "(10::nat) ^ length acc < 10 ^ 792" using 1(3) by linarith
    then have len: "length acc < 792" by (simp only: power_strict_increasing_iff)
    define acc' where "acc' = acc @ group_digits 9 g"
    have G: "length (group_digits 9 g) = 9" "\<forall>c \<in> set (group_digits 9 g). is_digit c"
      "decimal_value (rev (group_digits 9 g)) = v mod 10 ^ 9"
      using group_digits_value [of 9 g] D(2) by simp_all
    have l: "length acc' = length acc + 9" using G(1) by (simp add: acc'_def)
    have split: "v div 10 ^ 9 * 10 ^ (length acc + 9) + v mod 10 ^ 9 * 10 ^ length acc = v * 10 ^ length acc"
    proof -
      have "q * (L * P) + r * L = (q * P + r) * L" for q r P L :: nat by (simp add: algebra_simps)
      then show ?thesis unfolding power_add by (simp only: div_mult_mod_eq)
    qed
    then have "v div 10 ^ 9 * 10 ^ length acc' \<le> v * 10 ^ length acc" unfolding l by linarith
    then have "v div 10 ^ 9 * 10 ^ length acc' < 10 ^ 792" using 1(3) by (rule le_less_trans)
    moreover have "\<forall>c \<in> set acc'. is_digit c" using 1(4) G(2) by (auto simp: acc'_def)
    moreover have "length acc + 9 \<le> 800" using len by simp
    ultimately obtain r where r: "extract_digits n' acc' = Inr r" "\<forall>c \<in> set r. is_digit c"
      "decimal_value (rev r) = v div 10 ^ 9 * 10 ^ length acc' + decimal_value (rev acc')"
      using 1(1) [OF False d [symmetric] refl _ D(1), folded acc'_def] by blast
    have "decimal_value (rev acc') = v mod 10 ^ 9 * 10 ^ length acc + decimal_value (rev acc)"
      using decimal_value_append [of "rev (group_digits 9 g)" "rev acc"] G(3) by (simp add: acc'_def)
    then have "decimal_value (rev r) = v * 10 ^ length acc + decimal_value (rev acc)" using r(3) split unfolding l by linarith
    moreover have "extract_digits n acc = extract_digits n' acc'"
      using False d \<open>length acc + 9 \<le> 800\<close> by (simp add: extract_digits.simps [of n] acc'_def)
    ultimately show ?thesis using r by auto
  qed
qed

text \<open>The value of a \<open>Decimal\<close>, and its normal form: no leading zero.\<close>

definition decimal_of :: "Decimal \<Rightarrow> real" where
  "decimal_of val = real (decimal_value (dec_digits val)) * 10 powi (dec_exponent val - int (length (dec_digits val)))"

definition expansion :: "Decimal \<Rightarrow> bool" where
  "expansion val \<longleftrightarrow> (\<forall>c \<in> set (dec_digits val). is_digit c) \<and> (dec_digits val \<noteq> [] \<longrightarrow> hd (dec_digits val) \<noteq> 48)"

lemma decimal_value_leading: "decimal_value (dropWhile (\<lambda>c. c = 48) ds) = decimal_value ds"
proof -
  have "decimal_value ds = decimal_value (takeWhile (\<lambda>c. c = 48) ds @ dropWhile (\<lambda>c. c = 48) ds)" by simp
  also have "\<dots> = decimal_value (dropWhile (\<lambda>c. c = 48) ds)"
    using decimal_value_zeros [of "takeWhile (\<lambda>c. c = 48) ds"] set_takeWhileD
    by (subst decimal_value_append) fastforce
  finally show ?thesis by simp
qed

lemma expand_bound: "(2 :: nat) ^ 53 * 5 ^ (3 * 358) < 10 ^ 792"
proof -
  have "(5::nat) ^ (3 * 358) = (5 ^ 3) ^ 358" by (rule power_mult)
  also have "\<dots> \<le> (2 ^ 7) ^ 358" by (rule power_mono) simp_all
  finally have "(2 :: nat) ^ 53 * 5 ^ (3 * 358) \<le> 2 ^ 53 * (2 ^ 7) ^ 358" by (rule mult_le_mono2)
  also have "\<dots> = 2 ^ (53 + 7 * 358)" by (simp only: power_mult power_add)
  also have "\<dots> \<le> 2 ^ (93 * 28)" by (rule power_increasing) simp_all
  also have "\<dots> = (2 ^ 93) ^ 28" by (rule power_mult)
  also have "\<dots> \<le> (10 ^ 28) ^ 28" by (rule power_mono) simp_all
  also have "\<dots> = 10 ^ (28 * 28)" by (rule power_mult [symmetric])
  also have "\<dots> < 10 ^ 792" by (rule power_strict_increasing) simp_all
  finally show ?thesis .
qed

lemma ten_792: "(10 :: nat) ^ 792 \<le> BIG_LIMIT"
proof -
  have "(1::nat) < 10 ^ 800" by (rule one_less_power) simp_all
  then have "(1::nat) * 10 ^ 792 < BIG_LIMIT" by (rule small_fits) simp
  then show ?thesis by (simp only: mult_1)
qed

lemma ExpandExact_correct:
  assumes "0 < unat m" and "unat m < 2 ^ 53" and "- 1074 \<le> e" and "e \<le> 971"
  obtains val where "ExpandExact m e = Inr val" and "expansion val" and "dec_digits val \<noteq> []"
    and "decimal_of val = real (unat m) * 2 powi e"
proof -
  define f where "f = (if e \<ge> 0 then 0 else - e)"
  define v where "v = unat m * (if e \<ge> 0 then 2 ^ nat e else 5 ^ nat (- e))"
  define n where "n = (if e \<ge> 0 then ShiftLeft (SetU64 m) e else multiply_fives (nat (- e)) (SetU64 m))"
  have small: "v < 10 ^ 792"
  proof (cases "e \<ge> 0")
    case True
    have "(2::nat) ^ nat e \<le> 2 ^ (3 * 358)" using assms(4) by (intro power_increasing) simp_all
    also have "\<dots> \<le> 5 ^ (3 * 358)" by (rule power_mono) simp_all
    finally have "v \<le> 2 ^ 53 * 5 ^ (3 * 358)" using True assms(2) unfolding v_def by (simp only: if_True) (rule mult_le_mono, rule less_imp_le)
    then show ?thesis using expand_bound by (rule le_less_trans)
  next
    case False
    have "(5::nat) ^ nat (- e) \<le> 5 ^ (3 * 358)" using assms(3) by (intro power_increasing) simp_all
    then have "v \<le> 2 ^ 53 * 5 ^ (3 * 358)" using False assms(2) unfolding v_def by (simp only: if_False) (rule mult_le_mono, rule less_imp_le)
    then show ?thesis using expand_bound by (rule le_less_trans)
  qed
  then have fits: "v < BIG_LIMIT" using ten_792 by (rule less_le_trans)
  have n: "holds n v"
  proof (cases "e \<ge> 0")
    case True
    then show ?thesis using holds_ShiftLeft [OF holds_SetU64, of e m] fits by (simp add: n_def v_def)
  next
    case False
    then show ?thesis using holds_multiply_fives [OF holds_SetU64, of m "nat (- e)"] fits by (simp add: n_def v_def)
  qed
  obtain r where r: "extract_digits n [] = Inr r" "\<forall>c \<in> set r. is_digit c" "decimal_value (rev r) = v"
    using extract_digits_value [OF n, of "[]"] small by auto
  define ds where "ds = dropWhile (\<lambda>c. c = 48) (rev r)"
  have ds: "rev (drop_zeros r) = ds" "length (drop_zeros r) = length ds" by (simp_all add: ds_def drop_zeros_def)
  define val where "val = \<lparr>dec_digits = ds, dec_exponent = int (length ds) - f\<rparr>"
  have E: "ExpandExact m e = Inr val"
    unfolding ExpandExact_def Let_def n_def [symmetric] r(1) bindE_Inr ds by (simp add: val_def f_def)
  have dv: "decimal_value ds = v" using r(3) by (simp add: ds_def decimal_value_leading)
  have "\<forall>c \<in> set ds. is_digit c" using r(2) by (auto simp: ds_def dest: set_dropWhileD)
  moreover have "ds \<noteq> [] \<longrightarrow> hd ds \<noteq> 48" using hd_dropWhile [of "\<lambda>c. c = 48" "rev r"] by (auto simp: ds_def)
  ultimately have X: "expansion val" by (simp add: expansion_def val_def)
  have "0 < v" using assms(1) by (simp add: v_def)
  then have ne: "dec_digits val \<noteq> []" using dv by (auto simp: val_def)
  have "decimal_of val = real v * 10 powi (- f)" by (simp add: decimal_of_def val_def dv)
  also have "\<dots> = real (unat m) * 2 powi e"
  proof (cases "e \<ge> 0")
    case False
    define k where "k = nat (- e)"
    have k: "e = - int k" using False by (simp add: k_def)
    have "real v * 10 powi (- f) = real (unat m) * (5 ^ k * inverse (10 ^ k))"
      using False by (simp add: v_def f_def k power_int_minus)
    also have "5 ^ k * inverse (10 ^ k) = (5 * inverse 10 :: real) ^ k"
      by (simp only: power_mult_distrib power_inverse)
    also have "5 * inverse 10 = (inverse 2 :: real)" by simp
    also have "inverse 2 ^ k = inverse ((2 :: real) ^ k)" by (rule power_inverse)
    also have "\<dots> = 2 powi e" by (simp add: k power_int_minus)
    finally show ?thesis .
  qed (simp add: v_def f_def power_int_def)
  finally show ?thesis using that E X ne by blast
qed


section \<open>Rounding to a number of digits\<close>

lemma carry_nines_value:
  "\<forall>c \<in> set cs. is_digit c \<Longrightarrow> carry_nines cs = (es, over) \<Longrightarrow>
    length es = length cs \<and> (\<forall>c \<in> set es. is_digit c)
      \<and> (if over then (\<forall>c \<in> set es. c = 48) \<and> decimal_value (rev cs) + 1 = 10 ^ length cs
         else decimal_value (rev es) = decimal_value (rev cs) + 1)"
proof (induction cs arbitrary: es over)
  case (Cons c cs)
  have c: "48 \<le> unat c" "unat c \<le> 57" using Cons.prems(1) digit_unat [of c] by simp_all
  show ?case
  proof (cases "c = 57")
    case True
    obtain fs where fs: "carry_nines cs = (fs, over)" "es = 48 # fs"
      using Cons.prems(2) True by (auto split: prod.splits)
    have "is_digit 48" by (simp add: is_digit_def)
    then show ?thesis using Cons.IH [OF _ fs(1)] Cons.prems(1) True by (auto simp: fs(2))
  next
    case False
    then have "unat c \<noteq> 57" by (simp add: word_unat_eq_iff)
    then have "unat c < 57" using c by simp
    then have s: "unat (c + 1) = unat c + 1" by (simp add: unat_word_ariths)
    then have "is_digit (c + 1)" using c \<open>unat c < 57\<close> by (simp add: is_digit_def word_le_nat_alt)
    then show ?thesis using Cons.prems False s c by auto
  qed
qed simp

text \<open>The digits kept and the digits dropped.\<close>

lemma cut_digits:
  assumes "\<forall>c \<in> set ds. is_digit c" and "n < length ds"
  shows "decimal_value ds = decimal_value (take n ds) * 10 ^ (length ds - n) + decimal_value (drop n ds)"
    and "decimal_value (drop n ds) = (unat (ds ! n) - 48) * 10 ^ (length ds - n - 1) + decimal_value (drop (n + 1) ds)"
    and "decimal_value (drop (n + 1) ds) < 10 ^ (length ds - n - 1)"
    and "decimal_value (drop (n + 1) ds) \<noteq> 0 \<longleftrightarrow> (\<exists>c \<in> set (drop (n + 1) ds). c \<noteq> 48)"
proof -
  show "decimal_value ds = decimal_value (take n ds) * 10 ^ (length ds - n) + decimal_value (drop n ds)"
    using decimal_value_append [of "take n ds" "drop n ds"] assms(2) by simp
  have "drop n ds = [ds ! n] @ drop (n + 1) ds" using assms(2) by (simp add: Cons_nth_drop_Suc)
  then show "decimal_value (drop n ds) = (unat (ds ! n) - 48) * 10 ^ (length ds - n - 1) + decimal_value (drop (n + 1) ds)"
    using decimal_value_append [of "[ds ! n]" "drop (n + 1) ds"] decimal_value_snoc [of "[]" "ds ! n"] by simp
  have D: "\<forall>c \<in> set (drop (n + 1) ds). is_digit c" using assms(1) by (auto dest: in_set_dropD)
  show "decimal_value (drop (n + 1) ds) < 10 ^ (length ds - n - 1)" using decimal_value_less [OF D] by simp
  show "decimal_value (drop (n + 1) ds) \<noteq> 0 \<longleftrightarrow> (\<exists>c \<in> set (drop (n + 1) ds). c \<noteq> 48)"
    using decimal_value_eq_0 [OF D] by auto
qed

lemma last_digit_odd:
  assumes "\<forall>c \<in> set ds. is_digit c" and "0 < n" and "n < length ds"
  shows "(ds ! (n - 1) - 48) AND 1 \<noteq> 0 \<longleftrightarrow> odd (decimal_value (take n ds))"
proof -
  obtain m where n: "n = Suc m" using assms(2) by (cases n) auto
  have "take n ds = take m ds @ [ds ! m]" using assms(3) by (simp add: n take_Suc_conv_app_nth)
  then have "odd (decimal_value (take n ds)) \<longleftrightarrow> odd (unat (ds ! m) - 48)" by simp
  have "is_digit (ds ! m)" using assms by (simp add: n)
  then have "unat (ds ! m - 48) = unat (ds ! m) - 48" using digit_unat [of "ds ! m"] by (simp add: unat_sub word_le_nat_alt)
  then show ?thesis using \<open>odd _ \<longleftrightarrow> _\<close> by (simp add: n and_one)
qed

text \<open>The decision is the half-to-even one.\<close>

lemma rounding_decision:
  assumes "\<forall>c \<in> set ds. is_digit c" and "n < length ds" and "S = decimal_value (take n ds)"
    and "y = real (decimal_value ds) / 10 ^ (length ds - n)"
    and "up = (if ds ! n > 53 then True else if ds ! n < 53 then False
           else (\<exists>c \<in> set (drop (n + 1) ds). c \<noteq> 48) \<or> (0 < n \<and> (ds ! (n - 1) - 48) AND 1 \<noteq> 0))"
  shows "real S \<le> y \<and> y < real S + 1 \<and> half_even y S = (if up then S + 1 else S)"
proof -
  define k where "k = length ds - n - 1"
  define r where "r = decimal_value (drop (n + 1) ds)"
  define d where "d = unat (ds ! n) - 48"
  note C = cut_digits [OF assms(1,2)]
  have len: "length ds - n = Suc k" using assms(2) by (simp add: k_def)
  have D: "is_digit (ds ! n)" using assms(1,2) by simp
  have d: "d \<le> 9" using digit_unat [OF D] unfolding d_def by linarith
  have r: "r < 10 ^ k" using C(3) by (simp add: r_def k_def)
  have "decimal_value ds = S * 10 ^ Suc k + (d * 10 ^ k + r)"
    using C(1,2) unfolding assms(3) len by (simp add: d_def r_def k_def)
  then have "real (decimal_value ds) = real S * 10 ^ Suc k + (real d * 10 ^ k + real r)" by simp
  then have y: "y = real S + (real d + real r / 10 ^ k) / 10"
    unfolding assms(4) len by (simp add: field_simps)
  define t where "t = real r / 10 ^ k"
  have t: "0 \<le> t" "t < 1" "t = 0 \<longleftrightarrow> r = 0" using r by (simp_all add: t_def divide_less_eq flip: of_nat_less_iff)
  have cmp: "ds ! n > 53 \<longleftrightarrow> 5 < d" "ds ! n < 53 \<longleftrightarrow> d < 5"
    using digit_unat [OF D] by (auto simp: word_less_nat_alt d_def)
  have rest: "(\<exists>c \<in> set (drop (n + 1) ds). c \<noteq> 48) \<longleftrightarrow> t \<noteq> 0" using C(4) t(3) by (simp add: r_def)
  have odd: "0 < n \<and> (ds ! (n - 1) - 48) AND 1 \<noteq> 0 \<longleftrightarrow> odd S"
    using last_digit_odd [OF assms(1) _ assms(2)] by (cases "n = 0") (auto simp: assms(3))
  have up: "up \<longleftrightarrow> 5 < d \<or> \<not> d < 5 \<and> (t \<noteq> 0 \<or> odd S)" unfolding assms(5) cmp rest odd by auto
  have y: "y = real S + (real d + t) / 10" using y by (simp add: t_def)
  consider "d \<le> 4" | "d = 5" | "6 \<le> d" by linarith
  then show ?thesis
  proof cases
    case 1
    then have "real d \<le> 4" by simp
    then show ?thesis using t up 1 unfolding half_even_def y by auto
  next
    case 2
    then show ?thesis using t up unfolding half_even_def y by auto
  next
    case 3
    then have "6 \<le> real d" "real d \<le> 9" using d by simp_all
    then show ?thesis using t up 3 unfolding half_even_def y by auto
  qed
qed


lemma hd_not_zero:
  assumes "\<forall>c \<in> set ds. is_digit c" and "ds \<noteq> []" and "10 ^ (length ds - 1) \<le> decimal_value ds"
  shows "hd ds \<noteq> 48"
proof
  assume "hd ds = 48"
  then obtain es where ds: "ds = [48] @ es" using assms(2) by (cases ds) auto
  have "decimal_value ds = decimal_value es"
    unfolding ds by (subst decimal_value_append) (simp add: decimal_value_def)
  also have "\<dots> < 10 ^ length es" using assms(1) ds by (intro decimal_value_less) simp
  finally show False using assms(3) ds by simp
qed

lemma expansion_ge:
  assumes "expansion val" and "dec_digits val \<noteq> []"
  shows "10 ^ (length (dec_digits val) - 1) \<le> decimal_value (dec_digits val)"
proof -
  obtain c cs where ds: "dec_digits val = c # cs" using assms(2) by (cases "dec_digits val") auto
  show ?thesis using decimal_value_ge [of c cs] assms(1) by (simp add: ds expansion_def)
qed

lemma half_even_exact: "y = real S \<Longrightarrow> half_even y S = S"
  by (simp add: half_even_def)

text \<open>What the rounded digits are and how they are placed.\<close>

definition rounded :: "Decimal \<Rightarrow> int \<Rightarrow> Decimal \<Rightarrow> nat \<Rightarrow> bool" where
  "rounded val keep val' R \<longleftrightarrow> expansion val' \<and> decimal_of val' = real R * 10 powi (dec_exponent val - keep)
     \<and> (dec_digits val' \<noteq> [] \<longrightarrow> int (length (dec_digits val')) \<le> keep + (dec_exponent val' - dec_exponent val))
     \<and> (0 < keep \<longrightarrow> int (length (dec_digits val')) \<le> keep)
     \<and> dec_exponent val \<le> dec_exponent val' \<and> dec_exponent val' \<le> dec_exponent val + 1
     \<and> (0 < keep \<longrightarrow> dec_digits val' \<noteq> []) \<and> (dec_digits val' = [] \<longrightarrow> dec_exponent val' = dec_exponent val)"

lemma decimal_of_prefix:
  assumes "dec_exponent val' - int (length (dec_digits val')) = dec_exponent val - keep" and "decimal_value (dec_digits val') = R"
  shows "decimal_of val' = real R * 10 powi (dec_exponent val - keep)"
  using assms by (simp add: decimal_of_def)

lemma RoundTo_rounded:
  assumes X: "expansion val" "dec_digits val \<noteq> []" and keep: "0 \<le> keep" "keep < int (length (dec_digits val))"
    and n: "n = nat keep" and ds: "ds = dec_digits val" and S: "S = decimal_value (take n ds)"
    and up: "up = (if ds ! n > 53 then True else if ds ! n < 53 then False
           else (\<exists>c \<in> set (drop (n + 1) ds). c \<noteq> 48) \<or> (0 < n \<and> (ds ! (n - 1) - 48) AND 1 \<noteq> 0))"
  shows "rounded val keep (RoundTo val keep) (if up then S + 1 else S)"
proof -
  have D: "\<forall>c \<in> set (take n ds). is_digit c" using X(1) by (auto simp: expansion_def ds dest: in_set_takeD)
  have len: "length (take n ds) = n" "n < length ds" using keep by (simp_all add: n ds)
  have hd: "n \<noteq> 0 \<Longrightarrow> hd (take n ds) \<noteq> 48" using X by (simp add: expansion_def ds)
  have ge: "n \<noteq> 0 \<Longrightarrow> 10 ^ (n - 1) \<le> S"
    using expansion_ge [of "\<lparr>dec_digits = take n ds, dec_exponent = 0\<rparr>"] D hd len
    by (cases "ds = []") (auto simp: expansion_def S)
  have R: "RoundTo val keep = (if \<not> up then val\<lparr>dec_digits := take n ds\<rparr>
      else let (es, over) = carry_nines (rev (take n ds)) in
           if \<not> over then val\<lparr>dec_digits := rev es\<rparr>
           else val\<lparr>dec_digits := 49 # drop 1 (rev es), dec_exponent := dec_exponent val + 1\<rparr>)"
    using keep unfolding RoundTo_def Let_def up n ds by simp
  have neg: "int n = keep" "0 < keep \<longleftrightarrow> n \<noteq> 0" using keep(1) by (auto simp: n)
  show ?thesis
  proof (cases up)
    case False
    have "expansion (val\<lparr>dec_digits := take n ds\<rparr>)" using D hd by (auto simp: expansion_def)
    then show ?thesis unfolding R using False len neg S
      by (auto simp: rounded_def intro!: decimal_of_prefix)
  next
    case True
    obtain es over where c: "carry_nines (rev (take n ds)) = (es, over)" by (cases "carry_nines (rev (take n ds))")
    have "\<forall>c \<in> set (rev (take n ds)). is_digit c" using D by simp
    from carry_nines_value [OF this c] len
    have C: "length es = n" "\<forall>c \<in> set es. is_digit c" "over \<Longrightarrow> (\<forall>c \<in> set es. c = 48) \<and> S + 1 = 10 ^ n"
      "\<not> over \<Longrightarrow> decimal_value (rev es) = S + 1" by (auto simp: S split: if_splits)
    show ?thesis
    proof (cases over)
      case False
      have n0: "n \<noteq> 0" using False c len by (cases "take n ds") auto
      have "hd (rev es) \<noteq> 48"
        by (rule hd_not_zero) (use C False ge [OF n0] n0 in \<open>auto simp: le_Suc_eq\<close>)
      then have "expansion (val\<lparr>dec_digits := rev es\<rparr>)" using C(2) by (simp add: expansion_def)
      moreover have "decimal_of (val\<lparr>dec_digits := rev es\<rparr>) = real (S + 1) * 10 powi (dec_exponent val - keep)"
        by (rule decimal_of_prefix) (use C False neg in simp_all)
      ultimately show ?thesis unfolding R c using True False C neg n0 by (auto simp: rounded_def)
    next
      case over: True
      define val' where "val' = val\<lparr>dec_digits := 49 # drop 1 (rev es), dec_exponent := dec_exponent val + 1\<rparr>"
      have z: "\<forall>c \<in> set (drop 1 (rev es)). c = 48" using C(3) over by (auto dest: in_set_dropD)
      have dv: "decimal_value (49 # drop 1 (rev es)) = 10 ^ (n - 1)"
      proof -
        have "decimal_value ([49] @ drop 1 (rev es)) = 1 * 10 ^ length (drop 1 (rev es)) + 0"
          unfolding decimal_value_append decimal_value_zeros [OF z] by (simp add: decimal_value_def)
        then show ?thesis using C(1) by simp
      qed
      have one: "is_digit 49" "is_digit 48" by (simp_all add: is_digit_def)
      have "expansion val'" using z one by (auto simp: expansion_def val'_def)
      moreover have "decimal_of val' = real (S + 1) * 10 powi (dec_exponent val - keep)"
      proof -
        have "decimal_of val' = 10 ^ (n - 1) * 10 powi (dec_exponent val + 1 - int (length (dec_digits val')))"
          unfolding decimal_of_def val'_def using dv by simp
        also have "\<dots> = 10 ^ n * 10 powi (dec_exponent val - keep)"
        proof (cases n)
          case 0
          then show ?thesis using C(1) neg(1) by (simp add: val'_def)
        next
          case (Suc m)
          have q: "dec_exponent val + 1 - int (length (dec_digits val')) = (dec_exponent val - keep) + 1"
            using Suc C(1) neg(1) by (simp add: val'_def)
          have "(10::real) powi ((dec_exponent val - keep) + 1) = 10 * 10 powi (dec_exponent val - keep)"
            by (subst power_int_add) simp_all
          then show ?thesis unfolding q Suc by simp
        qed
        finally show ?thesis using C(3) over by (metis of_nat_numeral of_nat_power)
      qed
      moreover have "int (length (dec_digits val')) \<le> keep + 1" "0 < keep \<longrightarrow> int (length (dec_digits val')) \<le> keep"
        using C(1) neg(1) by (simp_all add: val'_def)
      ultimately show ?thesis unfolding R c using True over
        by (simp add: rounded_def flip: val'_def) (simp add: val'_def)
    qed
  qed
qed


lemma decimal_of_bounds:
  assumes "expansion val" and "dec_digits val \<noteq> []"
  shows "10 powi (dec_exponent val - 1) \<le> decimal_of val" and "decimal_of val < 10 powi dec_exponent val"
proof -
  define c where "c = length (dec_digits val)"
  have c: "0 < c" using assms(2) by (simp add: c_def)
  have "10 ^ (c - 1) \<le> decimal_value (dec_digits val)" using expansion_ge [OF assms] by (simp add: c_def)
  then have lo: "10 ^ (c - 1) \<le> real (decimal_value (dec_digits val))" by (metis of_nat_le_iff of_nat_numeral of_nat_power)
  have "decimal_value (dec_digits val) < 10 ^ c" using decimal_value_less assms(1) by (simp add: expansion_def c_def)
  then have hi: "real (decimal_value (dec_digits val)) < 10 ^ c" by (metis of_nat_less_iff of_nat_numeral of_nat_power)
  have u: "(0::real) < 10 powi (dec_exponent val - int c)" by simp
  have "(10::real) powi (dec_exponent val - 1) = 10 ^ (c - 1) * 10 powi (dec_exponent val - int c)"
    using c by (simp add: power_int_add [symmetric] of_nat_diff flip: power_int_of_nat)
  then show "10 powi (dec_exponent val - 1) \<le> decimal_of val"
    using lo u by (simp add: decimal_of_def flip: c_def)
  have "(10::real) powi dec_exponent val = 10 ^ c * 10 powi (dec_exponent val - int c)"
    by (simp add: power_int_add [symmetric] flip: power_int_of_nat)
  then show "decimal_of val < 10 powi dec_exponent val"
    using hi u by (simp add: decimal_of_def flip: c_def)
qed

text \<open>\<open>RoundTo\<close> keeps the half-to-even multiple of the last kept place.\<close>

lemma RoundTo_correct:
  assumes X: "expansion val" "dec_digits val \<noteq> []" and y: "y = decimal_of val * 10 powi (keep - dec_exponent val)"
  obtains S R where "real S \<le> y" and "y < real S + 1" and "R = half_even y S" and "rounded val keep (RoundTo val keep) R"
proof -
  define ds where "ds = dec_digits val"
  define c where "c = length ds"
  have cancel: "(10::real) powi a * 10 powi b = 10 powi (a + b)" for a b by (simp add: power_int_add)
  have y': "y = real (decimal_value ds) * 10 powi (keep - int c)"
    by (simp add: y decimal_of_def ds_def c_def mult.assoc cancel)
  consider (all) "int c \<le> keep" | (neg) "keep < 0" | (cut) "0 \<le> keep" "keep < int c" by linarith
  then show ?thesis
  proof cases
    case all
    define S where "S = decimal_value ds * 10 ^ nat (keep - int c)"
    have yS: "y = real S" using all by (simp add: y' S_def power_int_def)
    have R: "RoundTo val keep = val" using all by (simp add: RoundTo_def c_def ds_def)
    have "decimal_of val = real S * 10 powi (dec_exponent val - keep)"
      unfolding yS [symmetric] y by (simp add: mult.assoc cancel)
    then have "rounded val keep val S" using all X by (simp add: rounded_def c_def ds_def)
    then show ?thesis using that [of S S] yS half_even_exact [OF yS] R by simp
  next
    case neg
    have R: "RoundTo val keep = val\<lparr>dec_digits := []\<rparr>" using neg by (simp add: RoundTo_def)
    have "y < 10 powi dec_exponent val * 10 powi (keep - dec_exponent val)"
      unfolding y using decimal_of_bounds(2) [OF X] by simp
    also have "\<dots> = 10 powi keep" by (simp add: cancel)
    also have "\<dots> \<le> 10 powi (-1)" using neg by (intro power_int_increasing) simp_all
    finally have "y < 1 / 10" by simp
    moreover have "0 \<le> y" by (simp add: y')
    moreover have "rounded val keep (val\<lparr>dec_digits := []\<rparr>) 0" using neg by (simp add: rounded_def expansion_def decimal_of_def)
    ultimately show ?thesis using that [of 0 0] R by (simp add: half_even_def)
  next
    case cut
    define n where "n = nat keep"
    define S where "S = decimal_value (take n ds)"
    define up where "up = (if ds ! n > 53 then True else if ds ! n < 53 then False
           else (\<exists>c \<in> set (drop (n + 1) ds). c \<noteq> 48) \<or> (0 < n \<and> (ds ! (n - 1) - 48) AND 1 \<noteq> 0))"
    have D: "\<forall>c \<in> set ds. is_digit c" using X(1) by (simp add: expansion_def ds_def)
    have "keep - int c = - int (c - n)" using cut by (simp add: n_def)
    then have y'': "y = real (decimal_value ds) / 10 ^ (length ds - n)"
      by (simp add: y' c_def power_int_minus inverse_eq_divide)
    have "n < length ds" using cut by (simp add: n_def c_def)
    from rounding_decision [OF D this S_def y'' up_def]
    have H: "real S \<le> y" "y < real S + 1" "half_even y S = (if up then S + 1 else S)" by simp_all
    have "rounded val keep (RoundTo val keep) (if up then S + 1 else S)"
      by (rule RoundTo_rounded [OF X _ _ n_def ds_def S_def up_def]) (use cut in \<open>simp_all add: c_def ds_def\<close>)
    then show ?thesis using that [of S] H by simp
  qed
qed

lemma half_even_close:
  assumes "real S \<le> y" and "y < real S + 1"
  shows "\<bar>real (half_even y S) - y\<bar> \<le> 1 / 2"
  using assms by (auto simp: half_even_def)

section \<open>The writer\<close>

lemma PutAll_simps: "PutAll w [] = w" "PutAll w (c # cs) = PutAll (Put w c) cs"
  by (simp_all add: PutAll_def)

lemma Put_PutAll: "Put w c = PutAll w [c]"
  by (simp add: PutAll_def)

lemma PutAll_append: "PutAll (PutAll w xs) ys = PutAll w (xs @ ys)"
  by (simp add: PutAll_def)

lemma foldl_Put: "foldl (\<lambda>w i. Put w (f i)) w xs = PutAll w (map f xs)"
  by (induction xs arbitrary: w) (simp_all add: PutAll_simps)

lemma PutAll_stores:
  "w_length (PutAll w xs) = w_length w + length xs \<and> w_capacity (PutAll w xs) = w_capacity w
    \<and> w_out (PutAll w xs) = w_out w @ take (w_capacity w - w_length w) xs"
proof (induction xs arbitrary: w)
  case (Cons c cs)
  have "w_length (Put w c) = w_length w + 1" "w_capacity (Put w c) = w_capacity w"
    "w_out (Put w c) = (if w_length w < w_capacity w then w_out w @ [c] else w_out w)"
    by (simp_all add: Put_def Let_def)
  then show ?case using Cons.IH [of "Put w c"] by (auto simp: PutAll_simps take_Cons')
qed (simp add: PutAll_simps)

text \<open>The digits of an array padded with zeros to \<open>n\<close>.\<close>

lemma padded_digits:
  assumes "int (length (dec_digits val)) \<le> n"
  shows "map (digit_or_zero val) [0 .. n - 1] = dec_digits val @ replicate (nat n - length (dec_digits val)) 48"
proof (rule nth_equalityI)
  show "length (map (digit_or_zero val) [0 .. n - 1]) = length (dec_digits val @ replicate (nat n - length (dec_digits val)) 48)"
    using assms by simp
  fix i assume "i < length (map (digit_or_zero val) [0 .. n - 1])"
  then have i: "int i < n" by simp
  then have "[0 .. n - 1] ! i = int i" by (simp add: nth_upto)
  then show "map (digit_or_zero val) [0 .. n - 1] ! i = (dec_digits val @ replicate (nat n - length (dec_digits val)) 48) ! i"
    using i assms by (simp add: digit_or_zero_def nth_append)
qed

lemma decimal_value_padded: "decimal_value (ds @ replicate n 48) = decimal_value ds * 10 ^ n"
  by (simp add: decimal_value_append decimal_value_zeros)


section \<open>Scientific notation\<close>

lemma digit_of_int:
  assumes "0 \<le> k" and "k \<le> 9"
  shows "is_digit (of_int (48 + k))" and "unat (of_int (48 + k) :: u8) - 48 = nat k"
proof -
  have "(of_int (48 + k) :: u8) = of_nat (nat (48 + k))" using assms by simp
  moreover have "unat (of_nat (nat (48 + k)) :: u8) = nat (48 + k)"
    using assms by (subst unsigned_of_nat) (simp add: take_bit_nat_eq_self)
  ultimately have u: "unat (of_int (48 + k) :: u8) = nat (48 + k)" by (simp only:)
  then show "unat (of_int (48 + k) :: u8) - 48 = nat k" using assms by simp
  have "48 \<le> unat (of_int (48 + k) :: u8) \<and> unat (of_int (48 + k) :: u8) \<le> 57" unfolding u using assms by arith
  then show "is_digit (of_int (48 + k))" unfolding is_digit_def word_le_nat_alt by simp
qed

definition exponent_digits_text :: "int \<Rightarrow> u8 list" where
  "exponent_digits_text m =
     (if m \<ge> 100 then [of_int (48 + m div 100), of_int (48 + m div 10 mod 10), of_int (48 + m mod 10)]
      else [of_int (48 + m div 10), of_int (48 + m mod 10)])"

lemma decimal_two: "decimal_value [a, b] = 10 * (unat a - 48) + (unat b - 48)"
  by (simp add: decimal_value_def)

lemma decimal_three: "decimal_value [a, b, c] = 100 * (unat a - 48) + 10 * (unat b - 48) + (unat c - 48)"
  by (simp add: decimal_value_def)

lemma exponent_digits_text_value:
  assumes "0 \<le> m" and "m < 1000"
  shows "exponent_digits_text m \<noteq> [] \<and> (\<forall>c \<in> set (exponent_digits_text m). is_digit c)
    \<and> int (decimal_value (exponent_digits_text m)) = m"
proof -
  have r: "0 \<le> k mod 10" "k mod 10 \<le> 9" for k :: int
    using pos_mod_sign [of 10 k] pos_mod_bound [of 10 k] by linarith+
  have "0 \<le> m div 100" "m div 100 \<le> 9"
    using assms mult_div_mod_eq [of 100 m] pos_mod_sign [of 100 m] pos_mod_bound [of 100 m] by linarith+
  moreover have "0 \<le> m div 10 \<and> m div 10 \<le> 9" if "m < 100"
    using assms that mult_div_mod_eq [of 10 m] r [of m] by linarith
  ultimately have d: "0 \<le> m div 100" "m div 100 \<le> 9" "0 \<le> m div 10 mod 10" "m div 10 mod 10 \<le> 9" "0 \<le> m mod 10" "m mod 10 \<le> 9"
    "m < 100 \<Longrightarrow> 0 \<le> m div 10 \<and> m div 10 \<le> 9" using r by blast+
  show ?thesis
  proof (cases "m \<ge> 100")
    case True
    have "m div 10 div 10 = m div 100" by (simp flip: zdiv_zmult2_eq)
    then have m: "100 * (m div 100) + 10 * (m div 10 mod 10) + m mod 10 = m"
      using mult_div_mod_eq [of 10 m] mult_div_mod_eq [of 10 "m div 10"] by linarith
    have gen: "int (100 * nat a + 10 * nat b + nat c) = 100 * a + 10 * b + c" if "0 \<le> a" "0 \<le> b" "0 \<le> c" for a b c
      using that by simp
    have v: "decimal_value (exponent_digits_text m) = 100 * nat (m div 100) + 10 * nat (m div 10 mod 10) + nat (m mod 10)"
      unfolding exponent_digits_text_def if_P [OF True] decimal_three
        digit_of_int(2) [OF d(1,2)] digit_of_int(2) [OF d(3,4)] digit_of_int(2) [OF d(5,6)] ..
    have "int (decimal_value (exponent_digits_text m)) = m" unfolding v gen [OF d(1,3,5)] by (rule m)
    then show ?thesis
      using digit_of_int(1) [OF d(1,2)] digit_of_int(1) [OF d(3,4)] digit_of_int(1) [OF d(5,6)]
      unfolding exponent_digits_text_def if_P [OF True] list.set by blast
  next
    case False
    then have q: "0 \<le> m div 10" "m div 10 \<le> 9" using d(7) by simp_all
    have gen: "int (10 * nat b + nat c) = 10 * b + c" if "0 \<le> b" "0 \<le> c" for b c using that by simp
    have v: "decimal_value (exponent_digits_text m) = 10 * nat (m div 10) + nat (m mod 10)"
      unfolding exponent_digits_text_def if_not_P [OF False] decimal_two
        digit_of_int(2) [OF q] digit_of_int(2) [OF d(5,6)] ..
    have "int (decimal_value (exponent_digits_text m)) = m"
      unfolding v gen [OF q(1) d(5)] by (rule mult_div_mod_eq)
    then show ?thesis
      using digit_of_int(1) [OF q] digit_of_int(1) [OF d(5,6)]
      unfolding exponent_digits_text_def if_not_P [OF False] list.set by blast
  qed
qed

definition scientific_text :: "Decimal \<Rightarrow> int \<Rightarrow> bool \<Rightarrow> u8 list" where
  "scientific_text val precision uppercase =
     (let exponent = (if dec_digits val = [] then 0 else dec_exponent val - 1)
      in [digit_or_zero val 0] @ [46] @ map (digit_or_zero val) [1 .. precision] @
         (if uppercase then 69 else 101) # (if exponent < 0 then [45] else [43]) @ exponent_digits_text \<bar>exponent\<bar>)"

lemma WriteScientific_text:
  assumes "0 < precision"
  shows "WriteScientific w val precision alt uppercase = PutAll w (scientific_text val precision uppercase)"
proof -
  have first: "(if dec_digits val = [] then 48 else dec_digits val ! 0) = digit_or_zero val 0"
    by (simp add: digit_or_zero_def)
  define ex where "ex = (if dec_digits val = [] then 0 else dec_exponent val - 1)"
  have m: "(if ex < 0 then - ex else ex) = \<bar>ex\<bar>" by simp
  show ?thesis
    unfolding WriteScientific_def scientific_text_def Let_def first ex_def [symmetric] m foldl_Put exponent_digits_text_def
    using assms by (simp add: Put_PutAll PutAll_append)
qed

lemma first_and_rest: "0 < n \<Longrightarrow> [0 .. n] = 0 # [1 .. n :: int]"
  by (simp add: upto_rec1)

section \<open>Reading the bits of a double\<close>

lemma decode_double:
  assumes "p = unat bits mod 2 ^ 63"
  shows "drop_bit 63 bits \<noteq> 0 \<longleftrightarrow> 2 ^ 63 \<le> unat bits"
    and "unat bits = sign_of (drop_bit 63 bits \<noteq> 0) + p"
    and "unat (drop_bit 52 (bits :: u64) AND 0x7FF) = p div 2 ^ 52"
    and "unat (bits AND 0xFFFFFFFFFFFFF) = p mod 2 ^ 52"
proof -
  have lt: "unat bits < 2 ^ 64" using unsigned_less [where 'a = nat, of bits] by simp
  have "drop_bit 63 bits \<noteq> 0 \<longleftrightarrow> unat bits div 2 ^ 63 \<noteq> 0"
    by (metis unat_shift_right unat_eq_zero)
  also have "\<dots> \<longleftrightarrow> 2 ^ 63 \<le> unat bits" by (simp add: div_eq_0_iff not_less)
  finally show neg: "drop_bit 63 bits \<noteq> 0 \<longleftrightarrow> 2 ^ 63 \<le> unat bits" .
  show "unat bits = sign_of (drop_bit 63 bits \<noteq> 0) + p"
  proof (cases "2 ^ 63 \<le> unat bits")
    case True
    then have "unat bits mod 2 ^ 63 = unat bits - 2 ^ 63" using lt by (simp add: le_mod_geq)
    then show ?thesis using True by (simp add: neg assms sign_of_def)
  qed (use neg in \<open>simp add: assms sign_of_def\<close>)
  have "unat (drop_bit 52 bits AND 0x7FF) = unat bits div 2 ^ 52 mod 2 ^ 11"
    using and_pow2_mod [of "2 ^ 11" 11 "unat (drop_bit 52 bits)"] by (simp add: unsigned_and_eq unat_shift_right)
  also have "\<dots> = p div 2 ^ 52" unfolding assms by (simp add: mod_mult2_eq [of "unat bits" "2 ^ 52" "2 ^ 11", simplified] div_add1_eq)
  finally show "unat (drop_bit 52 bits AND 0x7FF) = p div 2 ^ 52" .
  show "unat (bits AND 0xFFFFFFFFFFFFF) = p mod 2 ^ 52"
    unfolding low_52 assms by (simp add: mod_mod_cancel)
qed

end
