(* ===== verification/Float_Round_Trip.thy ===== *)
theory Float_Round_Trip
  imports Float_Print
begin

text \<open>
  What \<open>FormatFloatTo\<close> writes in scientific notation with seventeen or more digits reads back
  through \<open>ParseFloat\<close> as the same double, bit for bit.
\<close>

section \<open>A decimal close enough to a double\<close>

lemma near_is_nearest:
  assumes "b < INF_BITS" and "0 < b" and "\<bar>v - dval b\<bar> \<le> dval b / (2 * 10 ^ 16)"
  shows "nearest v b \<and> v \<noteq> HALF_SUBNORMAL"
proof -
  obtain k s :: nat where b: "b = k * 2 ^ 52 + s" "s < 2 ^ 53" "k = 0 \<or> 2 ^ 52 \<le> s" by (rule grid_split)
  define u :: real where "u = 2 ^ k / 2 ^ 1074"
  have u: "0 < u" by (simp add: u_def)
  have "grid b = s * 2 ^ k" unfolding b(1) by (rule grid_at) (use b in simp_all)
  then have x: "dval b = real s * u" by (simp add: dval_def u_def)
  have "grid (Suc b) = grid b + 2 ^ k" unfolding b(1) by (rule grid_step) (use b in simp_all)
  then have hi: "dval (Suc b) = dval b + u" by (simp add: dval_def u_def add_divide_distrib)
  have s53: "real s \<le> 2 ^ 53" using b(2) by simp
  have close: "\<bar>v - dval b\<bar> < u / 2"
  proof -
    have "dval b / (2 * 10 ^ 16) \<le> 2 ^ 53 * u / (2 * 10 ^ 16)"
      unfolding x using s53 u by (intro divide_right_mono mult_right_mono) simp_all
    also have "\<dots> < u / 2" using u by simp
    finally show ?thesis using assms(3) by linarith
  qed
  have lower: "dval b - dval c > 2 * \<bar>v - dval b\<bar>" if "c < b" for c
  proof -
    have "c \<le> b - 1" using that by simp
    then have "dval c \<le> dval (b - 1)" by (simp add: dval_le_iff)
    moreover have "dval b - dval (b - 1) > 2 * \<bar>v - dval b\<bar>"
    proof (cases "k \<noteq> 0 \<and> s = 2 ^ 52")
      case True
      then obtain j where j: "k = Suc j" by (cases k) auto
      have "b - 1 = j * 2 ^ 52 + (2 ^ 53 - 1)" using True j b(1) by simp
      then have "grid (b - 1) = (2 ^ 53 - 1) * 2 ^ j" using grid_at [of "2 ^ 53 - 1" j] by simp
      then have "dval (b - 1) = (2 ^ 53 - 1) * (2 ^ j / 2 ^ 1074)" by (simp add: dval_def)
      also have "2 ^ j / 2 ^ 1074 = u / 2" by (simp add: u_def j)
      finally have "dval b - dval (b - 1) = u / 2" using True x by (simp add: field_simps)
      moreover have "2 * \<bar>v - dval b\<bar> < u / 2"
      proof -
        have "2 * \<bar>v - dval b\<bar> \<le> dval b / 10 ^ 16" using assms(3) by simp
        also have "\<dots> < u / 2" using True x u by simp
        finally show ?thesis .
      qed
      ultimately show ?thesis by simp
    next
      case False
      then obtain t where t: "s = Suc t" "k = 0 \<or> 2 ^ 52 \<le> t" using b assms(2) by (cases s) auto
      have "grid (Suc (k * 2 ^ 52 + t)) = grid (k * 2 ^ 52 + t) + 2 ^ k"
        by (rule grid_step) (use b t in simp_all)
      then have "grid b = grid (b - 1) + 2 ^ k" by (simp add: b(1) t(1))
      then have "dval b - dval (b - 1) = u" by (simp add: dval_def u_def add_divide_distrib)
      then show ?thesis using close by simp
    qed
    ultimately show ?thesis by linarith
  qed
  have gen: "\<bar>x\<bar> < \<bar>x + d\<bar>" if "2 * \<bar>x\<bar> < d" for x d :: real using that by (simp add: abs_if split: if_splits)
  have "nearest v b"
    unfolding nearest_def
  proof (intro conjI allI impI)
    fix c assume "c \<le> INF_BITS"
    consider "c = b" | "c < b" | "Suc b \<le> c" by linarith
    then show "c = b \<or> \<bar>v - dval b\<bar> < \<bar>v - dval c\<bar> \<or> \<bar>v - dval b\<bar> = \<bar>v - dval c\<bar> \<and> even b"
    proof cases
      case 2
      then have "\<bar>v - dval b\<bar> < \<bar>v - dval c\<bar>"  using gen [OF lower [OF 2]] by simp
      then show ?thesis by simp
    next
      case 3
      then have "dval (Suc b) \<le> dval c" by (simp add: dval_le_iff)
      then have "\<bar>v - dval b\<bar> < \<bar>v - dval c\<bar>" using hi close by linarith
      then show ?thesis by simp
    qed simp
  qed (use assms in simp)
  moreover have "v \<noteq> HALF_SUBNORMAL"
  proof
    assume v: "v = HALF_SUBNORMAL"
    have "dval 1 \<le> dval b" using assms(2) by (simp add: dval_le_iff)
    moreover have "dval 1 = 2 * HALF_SUBNORMAL"
      using dval_at [of 1 "-1074"] two_powi [of 1 "-1075"] by (simp add: HALF_SUBNORMAL_def)
    moreover have "0 < HALF_SUBNORMAL" by (simp add: HALF_SUBNORMAL_def)
    moreover have "dval b - v \<le> \<bar>v - dval b\<bar>" by simp
    moreover have "dval b / (2 * 10 ^ 16) \<le> dval b / 4" by (rule divide_left_mono) simp_all
    ultimately show False using assms(3) v by linarith
  qed
  ultimately show ?thesis ..
qed

section \<open>The mantissa and exponent of a finite double\<close>

lemma mantissa_value:
  assumes "p = unat (bits :: u64) mod 2 ^ 63" and "p < INF_BITS"
    and "(m, e) = (if drop_bit 52 bits AND 0x7FF = 0 then (bits AND 0xFFFFFFFFFFFFF, -1074)
         else ((bits AND 0xFFFFFFFFFFFFF) OR push_bit 52 1, uint (drop_bit 52 bits AND 0x7FF) - 1075))"
  shows "drop_bit 52 bits AND 0x7FF \<noteq> 0x7FF" and "(m = 0) = (p = 0)" and "unat m < 2 ^ 53" and "- 1074 \<le> e" and "e \<le> 971"
    and "dval p = real (unat m) * 2 powi e"
proof -
  note D = decode_double [OF assms(1)]
  define q where "q = p div 2 ^ 52"
  define f where "f = p mod 2 ^ 52"
  have p: "p = q * 2 ^ 52 + f" unfolding q_def f_def by (rule div_mult_mod_eq [symmetric])
  have f: "f < 2 ^ 52" by (simp add: f_def)
  have q: "q < 2047" unfolding q_def using assms(2) by (simp add: INF_BITS_def less_mult_imp_div_less)
  have uq: "unat (drop_bit 52 bits AND 0x7FF) = q" using D(3) by (simp add: q_def)
  then show "drop_bit 52 bits AND 0x7FF \<noteq> 0x7FF" using q by auto
  have zero: "drop_bit 52 bits AND 0x7FF = 0 \<longleftrightarrow> q = 0" using uq by (metis unat_eq_zero)
  have uf: "unat (bits AND 0xFFFFFFFFFFFFF) = f" using D(4) by (simp add: f_def)
  have or: "unat ((bits AND 0xFFFFFFFFFFFFF) OR push_bit 52 1) = 2 ^ 52 + f"
  proof -
    have "push_bit 52 1 OR (bits AND 0xFFFFFFFFFFFFF) = push_bit 52 1 + (bits AND 0xFFFFFFFFFFFFF)"
      by (rule push_or_add) (use uf f in simp)
    then have "(bits AND 0xFFFFFFFFFFFFF) OR push_bit 52 1 = push_bit 52 1 + (bits AND 0xFFFFFFFFFFFFF)"
      by (simp only: or.commute)
    moreover have "unat (push_bit 52 1 :: u64) = 2 ^ 52" unfolding unat_push by simp
    ultimately show ?thesis using uf f by (simp add: unat_word_ariths)
  qed
  have "(m = 0) = (p = 0) \<and> unat m < 2 ^ 53 \<and> - 1074 \<le> e \<and> e \<le> 971 \<and> dval p = real (unat m) * 2 powi e"
  proof (cases "q = 0")
    case True
    then have me: "m = bits AND 0xFFFFFFFFFFFFF" "e = -1074" using assms(3) zero by simp_all
    have "dval (nat (-1074 + 1074) * 2 ^ 52 + f) = real f * 2 powi (-1074)" by (rule dval_at) (use f in simp_all)
    then have "dval p = real f * 2 powi (-1074)" using True p by simp
    moreover have "(m = 0) = (p = 0)" using uf True p unfolding me by (metis add.left_neutral mult_0 unat_eq_zero)
    ultimately show ?thesis using uf f me by simp
  next
    case False
    then have me: "m = (bits AND 0xFFFFFFFFFFFFF) OR push_bit 52 1" "e = uint (drop_bit 52 bits AND 0x7FF) - 1075"
      using assms(3) zero by simp_all
    have e: "e = int q - 1075" unfolding me(2) uq [symmetric] by simp
    have m: "unat m = 2 ^ 52 + f" unfolding me(1) by (rule or)
    have "nat (e + 1074) = q - 1" using False by (simp add: e)
    moreover have "p = (q - 1) * 2 ^ 52 + (2 ^ 52 + f)" using False p by (cases q) simp_all
    ultimately have "p = nat (e + 1074) * 2 ^ 52 + (2 ^ 52 + f)" by simp
    moreover have "dval (nat (e + 1074) * 2 ^ 52 + (2 ^ 52 + f)) = real (2 ^ 52 + f) * 2 powi e"
      by (rule dval_at) (use f False e in simp_all)
    ultimately have "dval p = real (unat m) * 2 powi e" by (simp only: m)
    moreover have "m \<noteq> 0" using m by auto
    moreover have "p \<noteq> 0" using False p by simp
    ultimately show ?thesis using m f e q False by simp
  qed
  then show "(m = 0) = (p = 0)" "unat m < 2 ^ 53" "- 1074 \<le> e" "e \<le> 971" "dval p = real (unat m) * 2 powi e" by simp_all
qed


section \<open>The text in scientific notation\<close>

definition sign_prefix :: "bool \<Rightarrow> u8 \<Rightarrow> u8 list" where
  "sign_prefix negative sg = (if negative then [45] else if sg = 43 \<or> sg = 32 then [sg] else [])"

lemma WriteSign_text: "WriteSign w negative sg = PutAll w (sign_prefix negative sg)"
  by (auto simp: WriteSign_def sign_prefix_def PutAll_def)

lemma written: "PutAll \<lparr>w_out = [], w_capacity = c, w_length = 0\<rparr> ts = \<lparr>w_out = take c ts, w_capacity = c, w_length = length ts\<rparr>"
  using PutAll_stores [of "\<lparr>w_out = [], w_capacity = c, w_length = 0\<rparr>" ts]
  by (cases "PutAll \<lparr>w_out = [], w_capacity = c, w_length = 0\<rparr> ts") simp

definition expanded :: "nat \<Rightarrow> Decimal \<Rightarrow> bool" where
  "expanded p val \<longleftrightarrow> (if p = 0 then val = \<lparr>dec_digits = [], dec_exponent = 1\<rparr>
     else expansion val \<and> dec_digits val \<noteq> [] \<and> decimal_of val = dval p)"

text \<open>Up to the layout: what a finite double is turned into.\<close>

lemma FormatFloatTo_expanded:
  assumes p_def: "p = unat (bits :: u64) mod 2 ^ 63" and "p < INF_BITS"
  obtains val where "expanded p val"
    and "\<And>cap type precision sg alt. FormatFloatTo cap bits type precision sg alt =
      (let w = PutAll \<lparr>w_out = [], w_capacity = cap, w_length = 0\<rparr> (sign_prefix (drop_bit 63 bits \<noteq> 0) sg);
           uppercase = (65 \<le> type \<and> type \<le> 90); lower = (if uppercase then type - 65 + 97 else type)
       in Inr (if lower = 101 then
                 WriteScientific w (RoundTo val ((if precision < 0 then 6 else precision) + 1))
                   (if precision < 0 then 6 else precision) alt uppercase
               else if lower = 103 then WriteGeneral w val precision alt uppercase
               else let fraction_digits = (if precision < 0 then 6 else precision);
                        decimal = RoundTo val (dec_exponent val + fraction_digits);
                        decimal = (if dec_digits decimal = [] then decimal\<lparr>dec_exponent := 1\<rparr> else decimal)
                    in WriteFixed w decimal fraction_digits alt))"
proof -
  obtain m e where me: "(m, e) = (if drop_bit 52 bits AND 0x7FF = 0 then (bits AND 0xFFFFFFFFFFFFF, -1074)
         else ((bits AND 0xFFFFFFFFFFFFF) OR push_bit 52 1, uint (drop_bit 52 bits AND 0x7FF) - 1075))"
    by (metis surj_pair)
  note M = mantissa_value [OF p_def assms(2) me]
  have "\<exists>val. expanded p val \<and>
      (if m = 0 then Inr \<lparr>dec_digits = [], dec_exponent = 1\<rparr> else ExpandExact m e) = Inr val"
  proof (cases "m = 0")
    case True
    then show ?thesis using M(2) by (simp add: expanded_def)
  next
    case False
    then have "0 < unat m" by (simp add: unat_gt_0)
    from ExpandExact_correct [OF this M(3-5)] obtain val where "ExpandExact m e = Inr val" "expansion val"
      "dec_digits val \<noteq> []" "decimal_of val = real (unat m) * 2 powi e" .
    then show ?thesis using False M(2,6) by (simp add: expanded_def)
  qed
  then obtain val where V: "expanded p val"
    "(if m = 0 then Inr \<lparr>dec_digits = [], dec_exponent = 1\<rparr> else ExpandExact m e) = Inr val" by blast
  show ?thesis
    by (rule that [OF V(1)])
      (simp only: FormatFloatTo_def Let_def M(1) if_False me [symmetric] prod.case V(2) bindE_Inr WriteSign_text)
qed


section \<open>Reading it back\<close>

lemma decimal_of_padded:
  assumes "int (length (dec_digits val)) \<le> n" and "ds = map (digit_or_zero val) [0 .. n - 1]"
  shows "real (decimal_value ds) * 10 powi (dec_exponent val - n) = decimal_of val"
proof -
  let ?c = "length (dec_digits val)"
  have n: "n = int ?c + int (nat n - ?c)" using assms(1) by simp
  have "real (decimal_value ds) = real (decimal_value (dec_digits val)) * 10 ^ (nat n - ?c)"
    unfolding assms(2) padded_digits [OF assms(1)] decimal_value_padded by simp
  also have "\<dots> * 10 powi (dec_exponent val - n) = decimal_of val"
    unfolding decimal_of_def by (subst n) (simp add: power_int_diff power_int_add)
  finally show ?thesis .
qed

lemma digit_or_zero_digit: "expansion val \<Longrightarrow> is_digit (digit_or_zero val i)"
  by (auto simp: digit_or_zero_def expansion_def is_digit_def)

text \<open>A scientific text is in the grammar of \<open>ParseFloat\<close> and means the value of its digits.\<close>

lemma scientific_text_parses:
  assumes "expansion val" and "0 < prec" and "int (length (dec_digits val)) \<le> prec + 1"
    and "\<bar>if dec_digits val = [] then 0 else dec_exponent val - 1\<bar> < 1000"
    and "number_ends rest" and "p \<le> INF_BITS"
    and "\<And>q. rounds_to (decimal_of val) q \<Longrightarrow> q \<le> INF_BITS \<Longrightarrow> q = p"
  shows "\<exists>w. ParseFloat (Some (sign_prefix negative sg @ scientific_text val prec uppercase @ rest)) = Inr (Some (w, rest))
    \<and> unat w = sign_of negative + p"
proof -
  define ex where "ex = (if dec_digits val = [] then 0 else dec_exponent val - 1)"
  define e where "e = (if uppercase then 69 else 101 :: u8)"
  define es where "es = (if ex < 0 then [45] else [43] :: u8 list)"
  define ed where "ed = exponent_digits_text \<bar>ex\<bar>"
  define ip where "ip = [digit_or_zero val 0]"
  define fp where "fp = map (digit_or_zero val) [1 .. prec]"
  define sn where "sn = sign_prefix negative sg"
  define ws where "ws = (if sn = [32] then [32] else [] :: u8 list)"
  define sign where "sign = (if sn = [32] then [] else sn)"
  have ed: "ed \<noteq> [] \<and> (\<forall>c \<in> set ed. is_digit c) \<and> int (decimal_value ed) = \<bar>ex\<bar>"
    unfolding ed_def by (rule exponent_digits_text_value) (use assms(4) in \<open>simp_all add: ex_def\<close>)
  have sn: "sn = ws @ sign" "sign_text sign" "(sign = [45]) = negative" "\<forall>c \<in> set ws. IsSpace c"
    by (auto simp: sn_def ws_def sign_def sign_prefix_def sign_text_def IsSpace_def split: if_splits)
  have T: "sn @ scientific_text val prec uppercase @ rest = ws @ sign @ ip @ [46] @ fp @ exponent_text (Some (e, es, ed)) @ rest"
    unfolding sn(1) by (simp add: scientific_text_def ip_def fp_def exponent_text_def e_def es_def ed_def ex_def Let_def)
  have ev: "exponent_value (Some (e, es, ed)) = ex" using ed by (simp add: exponent_value_def es_def)
  have "float_syntax ws sign ip [46] fp (Some (e, es, ed)) rest"
    using sn ed assms(1,5) digit_or_zero_digit
    by (auto simp: float_syntax_def exponent_ok_def e_def es_def sign_text_def ip_def fp_def)
  moreover have "exponent_value (Some (e, es, ed)) > - 1000000 \<and> exponent_value (Some (e, es, ed)) < 1000000 \<or> length (ip @ fp) \<le> 99000"
    unfolding ev using assms(4) unfolding ex_def [symmetric] by linarith
  ultimately obtain w q where w: "ParseFloat (Some (sn @ scientific_text val prec uppercase @ rest)) = Inr (Some (w, rest))"
    "q \<le> INF_BITS" "unat w = sign_of negative + q"
    "rounds_to (real (decimal_value (ip @ fp)) * 10 powi (ex - int (length fp))) q"
    using ParseFloat_rounds [of ws sign ip "[46]" fp "Some (e, es, ed)" rest] unfolding T ev sn(3) by blast
  have all: "ip @ fp = map (digit_or_zero val) [0 .. (prec + 1) - 1]"
    using first_and_rest [OF assms(2)] by (simp add: ip_def fp_def)
  have "real (decimal_value (ip @ fp)) * 10 powi (dec_exponent val - (prec + 1)) = decimal_of val"
    by (rule decimal_of_padded [OF assms(3) all])
  moreover have "real (decimal_value (ip @ fp)) * 10 powi (ex - int (length fp)) = decimal_of val"
  proof (cases "dec_digits val = []")
    case True
    then have "decimal_value (ip @ fp) = 0"
      unfolding all by (intro decimal_value_zeros) (auto simp: digit_or_zero_def)
    then show ?thesis using True by (simp add: decimal_of_def)
  next
    case False
    have "ex - int (length fp) = dec_exponent val - (prec + 1)" using False assms(2) by (simp add: ex_def fp_def)
    then show ?thesis using calculation by simp
  qed
  ultimately have "rounds_to (decimal_of val) q" using w(4) by simp
  then show ?thesis using w assms(7) by (auto simp: sn_def)
qed

section \<open>Seventeen digits are enough\<close>

lemma dval_range:
  assumes "0 < p" and "p < INF_BITS"
  shows "10 powi (-358) < dval p" and "dval p < 10 powi 342"
proof -
  have "(8 :: real) powi (-358) = 2 powi (3 * - 358)" by (subst power_int_mult) simp
  then have e8: "(8 :: real) powi (-358) = 2 powi (-1074)" by simp
  have "dval 1 = 2 powi (-1074)" using dval_at [of 1 "-1074"] by simp
  moreover have "dval 1 \<le> dval p" using assms(1) by (simp add: dval_le_iff)
  moreover have "(10 :: real) powi (-358) < 8 powi (-358)"
    by (simp only: power_int_minus power_int_numeral) (intro less_imp_inverse_less power_strict_mono; simp)
  ultimately show "10 powi (-358) < dval p" using e8 by linarith
  have "dval p < dval INF_BITS" using assms(2) by (simp add: dval_less_iff)
  also have "\<dots> = 2 powi 1024" by (rule dval_INF)
  also have "\<dots> = 2 * 8 powi 341"
  proof -
    have "(8 :: real) powi 341 = 2 powi (3 * 341)" by (subst power_int_mult) simp
    then show ?thesis using two_powi [of 1 1023] by simp
  qed
  also have "\<dots> \<le> 10 * 10 powi 341"
    by (simp only: power_int_numeral) (intro mult_mono power_mono; simp)
  also have "\<dots> = 10 powi 342" using power_int_add [of "10 :: real" 1 341] by simp
  finally show "dval p < 10 powi 342" .
qed

lemma RoundTo_close:
  assumes "expansion val" and "dec_digits val \<noteq> []" and "decimal_of val = dval p" and "0 < p" and "p < INF_BITS" and "17 \<le> keep"
  shows "expansion (RoundTo val keep)" and "dec_digits (RoundTo val keep) \<noteq> []" and "int (length (dec_digits (RoundTo val keep))) \<le> keep"
    and "\<bar>dec_exponent (RoundTo val keep) - 1\<bar> < 1000"
    and "\<bar>decimal_of (RoundTo val keep) - dval p\<bar> \<le> dval p / (2 * 10 ^ 16)"
proof -
  define y where "y = decimal_of val * 10 powi (keep - dec_exponent val)"
  obtain S R where SR: "real S \<le> y" "y < real S + 1" "R = half_even y S" "rounded val keep (RoundTo val keep) R"
    using RoundTo_correct [OF assms(1,2) y_def] .
  then show "expansion (RoundTo val keep)" "dec_digits (RoundTo val keep) \<noteq> []" "int (length (dec_digits (RoundTo val keep))) \<le> keep"
    using assms(6) by (simp_all add: rounded_def)
  note B = decimal_of_bounds [OF assms(1,2), unfolded assms(3)]
  note D = dval_range [OF assms(4,5)]
  have "(10 :: real) powi (dec_exponent val - 1) < 10 powi 342" using B(1) D(2) by linarith
  then have "dec_exponent val - 1 < 342" by (meson linorder_not_less power_int_increasing one_le_numeral)
  moreover have "(10 :: real) powi (-358) < 10 powi dec_exponent val" using B(2) D(1) by linarith
  then have "- 358 < dec_exponent val" by (meson linorder_not_less power_int_increasing one_le_numeral)
  ultimately show "\<bar>dec_exponent (RoundTo val keep) - 1\<bar> < 1000" using SR(4) unfolding rounded_def by linarith
  define u :: real where "u = 10 powi (dec_exponent val - keep)"
  have u: "0 < u" by (simp add: u_def)
  have V: "decimal_of (RoundTo val keep) = real R * u" using SR(4) by (simp add: rounded_def u_def)
  have x: "dval p = y * u" by (simp add: y_def u_def assms(3) mult.assoc flip: power_int_add)
  have "\<bar>decimal_of (RoundTo val keep) - dval p\<bar> = \<bar>real R - y\<bar> * u"
    using u by (simp add: V x abs_mult flip: left_diff_distrib)
  also have "\<dots> \<le> (1 / 2) * u" using half_even_close [OF SR(1,2)] u unfolding SR(3) by (intro mult_right_mono) simp_all
  also have "\<dots> \<le> dval p / (2 * 10 ^ 16)"
  proof -
    have "u \<le> 10 powi (dec_exponent val - 1 - 16)" unfolding u_def using assms(6) by (intro power_int_increasing) simp_all
    also have "\<dots> = 10 powi (dec_exponent val - 1) / 10 ^ 16" by (simp add: power_int_diff)
    also have "\<dots> \<le> dval p / 10 ^ 16" using B(1) by (intro divide_right_mono) simp_all
    finally show ?thesis by simp
  qed
  finally show "\<bar>decimal_of (RoundTo val keep) - dval p\<bar> \<le> dval p / (2 * 10 ^ 16)" .
qed

lemma expanded_reads_back:
  assumes "expanded p val" and "p < INF_BITS" and "17 \<le> keep" and r: "r = RoundTo val keep"
  shows "expansion r" and "int (length (dec_digits r)) \<le> keep" and "\<bar>if dec_digits r = [] then 0 else dec_exponent r - 1\<bar> < 1000"
    and "rounds_to (decimal_of r) q \<Longrightarrow> q \<le> INF_BITS \<Longrightarrow> q = p"
proof -
  have "expansion r \<and> int (length (dec_digits r)) \<le> keep \<and> \<bar>if dec_digits r = [] then 0 else dec_exponent r - 1\<bar> < 1000
    \<and> nearest (decimal_of r) p \<and> decimal_of r \<noteq> HALF_SUBNORMAL"
  proof (cases "p = 0")
    case True
    then have v: "r = \<lparr>dec_digits = [], dec_exponent = 1\<rparr>" using assms by (simp add: expanded_def RoundTo_def)
    have "\<bar>dval c\<bar> = dval c" for c by simp
    moreover have "0 < dval c" if "c \<noteq> 0" for c using that dval_less_iff [of 0 c] by simp
    ultimately have "nearest 0 0" unfolding nearest_def by fastforce
    then show ?thesis using assms(3) True by (simp add: v expansion_def decimal_of_def HALF_SUBNORMAL_def)
  next
    case False
    then have "expansion val" "dec_digits val \<noteq> []" "decimal_of val = dval p" using assms(1) by (simp_all add: expanded_def)
    note C = RoundTo_close [OF this _ assms(2,3), folded r]
    show ?thesis using near_is_nearest [OF assms(2) _ C(5)] C(1-4) False by simp
  qed
  then show "expansion r" "int (length (dec_digits r)) \<le> keep" "\<bar>if dec_digits r = [] then 0 else dec_exponent r - 1\<bar> < 1000"
    "rounds_to (decimal_of r) q \<Longrightarrow> q \<le> INF_BITS \<Longrightarrow> q = p"
    using nearest_unique by (auto simp: rounds_to_def)
qed

section \<open>The round trip\<close>

text \<open>
  (C9) A finite double printed in scientific notation with at least sixteen digits after the point is a
  text of some length, of which the buffer gets what fits; in front of anything that does not
  continue a number, that text parses back to the same bits, the sign of zero included.
\<close>

theorem float_round_trip:
  assumes "unat bits mod 2 ^ 63 < INF_BITS" and "type = 101 \<or> type = 69" and "16 \<le> precision" and "number_ends rest"
  shows "\<exists>ts. (\<forall>cap. FormatFloatTo cap bits type precision sg alt = Inr \<lparr>w_out = take cap ts, w_capacity = cap, w_length = length ts\<rparr>)
    \<and> ParseFloat (Some (ts @ rest)) = Inr (Some (bits, rest))"
proof -
  define p where "p = unat bits mod 2 ^ 63"
  have p: "p < INF_BITS" using assms(1) by (simp add: p_def)
  obtain val where val: "expanded p val" and F: "\<And>cap type precision sg alt. FormatFloatTo cap bits type precision sg alt =
      (let w = PutAll \<lparr>w_out = [], w_capacity = cap, w_length = 0\<rparr> (sign_prefix (drop_bit 63 bits \<noteq> 0) sg);
           uppercase = (65 \<le> type \<and> type \<le> 90); lower = (if uppercase then type - 65 + 97 else type)
       in Inr (if lower = 101 then
                 WriteScientific w (RoundTo val ((if precision < 0 then 6 else precision) + 1))
                   (if precision < 0 then 6 else precision) alt uppercase
               else if lower = 103 then WriteGeneral w val precision alt uppercase
               else let fraction_digits = (if precision < 0 then 6 else precision);
                        decimal = RoundTo val (dec_exponent val + fraction_digits);
                        decimal = (if dec_digits decimal = [] then decimal\<lparr>dec_exponent := 1\<rparr> else decimal)
                    in WriteFixed w decimal fraction_digits alt))"
    using FormatFloatTo_expanded [OF p_def p] by blast
  define r where "r = RoundTo val (precision + 1)"
  define ts where "ts = sign_prefix (drop_bit 63 bits \<noteq> 0) sg @ scientific_text r precision (type = 69)"
  have keep: "17 \<le> precision + 1" and pos: "0 < precision" using assms(3) by simp_all
  have "FormatFloatTo cap bits type precision sg alt = Inr \<lparr>w_out = take cap ts, w_capacity = cap, w_length = length ts\<rparr>" for cap
  proof -
    have "FormatFloatTo cap bits type precision sg alt =
        Inr (WriteScientific (PutAll \<lparr>w_out = [], w_capacity = cap, w_length = 0\<rparr> (sign_prefix (drop_bit 63 bits \<noteq> 0) sg))
          r precision alt (type = 69))"
      unfolding F using assms(2) pos by (auto simp: r_def)
    then show ?thesis unfolding WriteScientific_text [OF pos] PutAll_append ts_def [symmetric] unfolding written .
  qed
  moreover have "ParseFloat (Some (ts @ rest)) = Inr (Some (bits, rest))"
  proof -
    note E = expanded_reads_back [OF val p keep r_def]
    obtain w where "ParseFloat (Some (ts @ rest)) = Inr (Some (w, rest))" "unat w = sign_of (drop_bit 63 bits \<noteq> 0) + p"
      using scientific_text_parses [OF E(1) pos E(2,3) assms(4) less_imp_le [OF p] E(4), of "drop_bit 63 bits \<noteq> 0" sg "type = 69"]
      unfolding ts_def append_assoc by blast
    moreover have "unat bits = sign_of (drop_bit 63 bits \<noteq> 0) + p" by (rule decode_double(2) [OF p_def])
    ultimately show ?thesis by (metis word_unat_eq_iff)
  qed
  ultimately show ?thesis by blast
qed

theorem float_round_trip_witness:
  "\<exists>ts. (\<forall>cap. FormatFloatTo cap 0xBFF8000000000000 101 17 43 False = Inr \<lparr>w_out = take cap ts, w_capacity = cap, w_length = length ts\<rparr>)
    \<and> ParseFloat (Some (ts @ [0])) = Inr (Some (0xBFF8000000000000, [0]))"
  by (rule float_round_trip) (simp_all add: INF_BITS_def number_ends_def is_digit_def)

end
