(* ===== verification/Integer_Text.thy ===== *)
theory Integer_Text
  imports Number_Parse
begin

unbundle bit_operations_syntax

text \<open>
  \<open>ParseInteger\<close> and \<open>ParseUnsigned\<close> against the integer their digits denote: the result is the
  value, saturated at the limits of the type, and the whole number is consumed. \<open>ParseUnsigned\<close>
  saturates the magnitude and negates it modulo \<open>2 ^ 64\<close> after a minus.
\<close>

section \<open>Digits in a radix\<close>

definition radix_digit :: "int \<Rightarrow> u8 \<Rightarrow> bool" where
  "radix_digit r c \<longleftrightarrow> 0 \<le> DigitValue c r"

definition radix_value :: "int \<Rightarrow> u8 list \<Rightarrow> int" where
  "radix_value r ds = foldl (\<lambda>v c. v * r + DigitValue c r) 0 ds"

definition digits_end :: "int \<Rightarrow> u8 list \<Rightarrow> bool" where
  "digits_end r rest \<longleftrightarrow> (case rest of [] \<Rightarrow> False | c # p \<Rightarrow> \<not> radix_digit r c)"

lemma DigitValue_less: "0 \<le> DigitValue c r \<Longrightarrow> DigitValue c r < r"
  by (auto simp: DigitValue_def Let_def split: if_splits)

lemma radix_value_step:
  "foldl (\<lambda>v c. v * r + DigitValue c r) v ds \<ge> 0"
  if "0 \<le> v" "2 \<le> r" "\<forall>c \<in> set ds. radix_digit r c"
  using that by (induction ds arbitrary: v) (simp_all add: radix_digit_def)

text \<open>A value that has passed the limit stays past it.\<close>

lemma radix_value_grows:
  assumes "2 \<le> r" and "\<forall>c \<in> set ds. radix_digit r c" and "0 \<le> v"
  shows "v \<le> foldl (\<lambda>v c. v * r + DigitValue c r) v ds"
  using assms(2,3)
proof (induction ds arbitrary: v)
  case (Cons c ds)
  have "v * 1 \<le> v * r" using Cons.prems(2) assms(1) by (intro mult_left_mono) simp_all
  then have "v \<le> v * r + DigitValue c r" using Cons.prems(1) by (simp add: radix_digit_def)
  also have "\<dots> \<le> foldl (\<lambda>v c. v * r + DigitValue c r) (v * r + DigitValue c r) ds"
    using Cons.prems calculation by (intro Cons.IH) simp_all
  finally show ?case by simp
qed simp

lemma uint_radix:
  assumes "2 \<le> r" and "r \<le> 36"
  shows "uint (of_int r :: u64) = r"
  using assms by (simp add: unsigned_of_int take_bit_int_eq_self)

lemma uint_digit:
  assumes "0 \<le> DigitValue c r" and "r \<le> 36"
  shows "uint (of_int (DigitValue c r) :: u64) = DigitValue c r"
  using assms DigitValue_less [OF assms(1)] by (simp add: unsigned_of_int take_bit_int_eq_self)

text \<open>The test against the cutoff is the test whether the next value is past the limit.\<close>

lemma cutoff_test:
  assumes "2 \<le> r" and "r \<le> 36" and "0 \<le> DigitValue c r" and "d = of_int (DigitValue c r)"
  shows "(v > limit div of_int r \<or> v = limit div of_int r \<and> d > limit mod of_int r) \<longleftrightarrow>
    uint (v :: u64) * r + DigitValue c r > uint limit"
proof -
  define q m where "q = uint limit div r" and "m = uint limit mod r"
  have L: "uint limit = q * r + m" "0 \<le> m" "m < r" using assms(1) by (simp_all add: q_def m_def)
  have D: "0 \<le> DigitValue c r" "DigitValue c r < r" using assms(3) DigitValue_less by simp_all
  have "uint (limit div of_int r) = q" "uint (limit mod of_int r) = m"
    using uint_radix [OF assms(1,2)] by (simp_all add: uint_div_distrib uint_mod_distrib q_def m_def)
  then have e: "(v > limit div of_int r \<or> v = limit div of_int r \<and> d > limit mod of_int r) \<longleftrightarrow>
      (uint v > q \<or> uint v = q \<and> DigitValue c r > m)"
    using uint_digit [OF assms(3,2)] by (simp add: word_less_def word_uint_eq_iff assms(4))
  consider "uint v < q" | "uint v = q" | "q < uint v" by linarith
  then show ?thesis
  proof cases
    case 1
    then have "(uint v + 1) * r \<le> q * r" using assms(1) by (intro mult_right_mono) simp_all
    then show ?thesis unfolding e using 1 D L by (simp add: distrib_right)
  next
    case 3
    then have "(q + 1) * r \<le> uint v * r" using assms(1) by (intro mult_right_mono) simp_all
    then show ?thesis unfolding e using 3 D L by (simp add: distrib_right)
  qed (use e L in simp)
qed

lemma accumulate_digits:
  assumes "2 \<le> r" and "r \<le> 36" and "\<forall>c \<in> set ds. radix_digit r c" and "\<not> radix_digit r c"
    and "if sat then val = limit \<and> v > uint limit else uint val = v \<and> v \<le> uint limit"
  shows "\<exists>w s. accumulate (ds @ c # p) r limit val any sat = Inr (any \<or> ds \<noteq> [], w, s, c # p)
    \<and> uint w = min (foldl (\<lambda>v c. v * r + DigitValue c r) v ds) (uint limit)"
  using assms(3,5)
proof (induction ds arbitrary: val v any sat)
  case Nil
  then show ?case using assms(4) by (auto simp: radix_digit_def split: if_splits)
next
  case (Cons x ds)
  have x: "0 \<le> DigitValue x r" using Cons.prems(1) by (simp add: radix_digit_def)
  have pos: "0 \<le> v" using Cons.prems(2) by (auto split: if_splits intro: order_trans less_imp_le)
  have past: "sat' \<Longrightarrow> v * r + DigitValue x r > uint limit" if "sat' \<longrightarrow> v > uint limit" for sat'
  proof -
    assume sat'
    have "v * 1 \<le> v * r" using pos assms(1) by (intro mult_left_mono) simp_all
    then show ?thesis using that \<open>sat'\<close> x by simp
  qed
  consider (sat) "sat" | (over) "\<not> sat" "v * r + DigitValue x r > uint limit" | (add) "\<not> sat" "v * r + DigitValue x r \<le> uint limit"
    by linarith
  then show ?case
  proof cases
    case sat
    have "\<exists>w s. accumulate (ds @ c # p) r limit val True True = Inr (True \<or> ds \<noteq> [], w, s, c # p)
      \<and> uint w = min (foldl (\<lambda>v c. v * r + DigitValue c r) (v * r + DigitValue x r) ds) (uint limit)"
      by (rule Cons.IH) (use Cons.prems sat past [of True] in simp_all)
    then show ?thesis using sat x by (simp add: Let_def)
  next
    case over
    have "\<exists>w s. accumulate (ds @ c # p) r limit limit True True = Inr (True \<or> ds \<noteq> [], w, s, c # p)
      \<and> uint w = min (foldl (\<lambda>v c. v * r + DigitValue c r) (v * r + DigitValue x r) ds) (uint limit)"
      by (rule Cons.IH) (use Cons.prems over in simp_all)
    then show ?thesis using over x cutoff_test [OF assms(1,2) x refl, of limit val] Cons.prems(2) by (simp add: Let_def)
  next
    case add
    have v: "uint val = v" using Cons.prems(2) add by simp
    have "0 \<le> v * r" using pos assms(1) by simp
    moreover have "uint limit < 2 ^ 64" using unsigned_less [where 'a = int, of limit] by simp
    ultimately have "v * r mod 2 ^ 64 = v * r" "(v * r + DigitValue x r) mod 2 ^ 64 = v * r + DigitValue x r"
      using add(2) x by (simp_all add: mod_pos_pos_trivial)
    then have "uint (val * of_int r + of_int (DigitValue x r)) = v * r + DigitValue x r"
      using v uint_radix [OF assms(1,2)] uint_digit [OF x assms(2)]
      by (simp add: uint_word_ariths)
    then have "\<exists>w s. accumulate (ds @ c # p) r limit (val * of_int r + of_int (DigitValue x r)) True False = Inr (True \<or> ds \<noteq> [], w, s, c # p)
      \<and> uint w = min (foldl (\<lambda>v c. v * r + DigitValue c r) (v * r + DigitValue x r) ds) (uint limit)"
      by (intro Cons.IH) (use Cons.prems add in simp_all)
    then show ?thesis using add x cutoff_test [OF assms(1,2) x refl, of limit val] v by (auto simp: Let_def)
  qed
qed


section \<open>The radix prefix\<close>

text \<open>
  The forms in which a number may be written for a given \<open>base_radix\<close>: \<open>0x\<close> and hexadecimal
  digits for 16 and 0, a leading zero and octal digits for 0, and digits of the radix alone, for 0
  and 16 not starting with a zero.
\<close>

definition radix_form :: "int \<Rightarrow> u8 list \<Rightarrow> u8 list \<Rightarrow> int \<Rightarrow> bool" where
  "radix_form base prefix ds r \<longleftrightarrow> 2 \<le> r \<and> r \<le> 36 \<and> ds \<noteq> [] \<and> (\<forall>c \<in> set ds. radix_digit r c) \<and>
     (prefix = [] \<and> base = r \<and> r \<noteq> 16 \<or>
      (prefix = [48, 120] \<or> prefix = [48, 88]) \<and> (base = 0 \<or> base = 16) \<and> r = 16 \<or>
      prefix = [] \<and> base = 0 \<and> r = 8 \<and> hd ds = 48 \<and> length ds \<ge> 2 \<or>
      prefix = [] \<and> hd ds \<noteq> 48 \<and> (base = 0 \<and> r = 10 \<or> base = 16 \<and> r = 16))"

lemma Lower_120: "Lower c = 120 \<longleftrightarrow> c = 120 \<or> c = 88"
proof -
  have "c - 65 + 97 = c + 32" by simp
  moreover have "c + 32 = 120 \<longleftrightarrow> c = 120 - (32 :: u8)" by (rule eq_diff_eq [symmetric])
  ultimately have "c - 65 + 97 = 120 \<longleftrightarrow> c = (88 :: u8)" by simp
  then show ?thesis by (auto simp: Lower_def word_le_nat_alt)
qed

lemma radix_digit_not_x: "r \<le> 16 \<Longrightarrow> radix_digit r c \<Longrightarrow> Lower c \<noteq> 120"
  by (auto simp: Lower_120 radix_digit_def DigitValue_def Let_def split: if_splits)

lemma ApplyRadixPrefix_form:
  assumes "radix_form base prefix ds r" and "digits_end r rest"
  shows "ApplyRadixPrefix (prefix @ ds @ rest) base = Inr (ds @ rest, r)"
proof -
  obtain d es where ds: "ds = d # es" using assms(1) by (cases ds) (auto simp: radix_form_def)
  obtain c p where rest: "rest = c # p" using assms(2) by (cases rest) (auto simp: digits_end_def)
  have R: "2 \<le> r" "r \<le> 36" "\<forall>c \<in> set ds. radix_digit r c" using assms(1) by (simp_all add: radix_form_def)
  consider (plain) "prefix = []" "base = r" "r \<noteq> 16"
    | (hex) "prefix = [48, 120] \<or> prefix = [48, 88]" "base = 0 \<or> base = 16" "r = 16"
    | (oct) "prefix = []" "base = 0" "r = 8" "d = 48" "es \<noteq> []"
    | (first) "prefix = []" "d \<noteq> 48" "base = 0 \<and> r = 10 \<or> base = 16 \<and> r = 16"
    using assms(1) by (fastforce simp: radix_form_def ds)
  then show ?thesis
  proof cases
    case plain
    then show ?thesis using R by (simp add: ApplyRadixPrefix_def)
  next
    case hex
    have "0 \<le> DigitValue d 16" using R(3) hex(3) by (simp add: ds radix_digit_def)
    then show ?thesis using hex
      by (auto simp: ApplyRadixPrefix_def ds numeral_2_eq_2 Lower_120)
  next
    case oct
    then obtain e fs where es: "es = e # fs" by (cases es) auto
    have "Lower e \<noteq> 120" "0 \<le> DigitValue e 8"
      using R(3) oct radix_digit_not_x [of 8 e] by (simp_all add: ds es radix_digit_def)
    then show ?thesis using oct by (simp add: ApplyRadixPrefix_def ds es)
  next
    case first
    then show ?thesis by (auto simp: ApplyRadixPrefix_def ds)
  qed
qed

section \<open>The parsers\<close>

lemma radix_digit_start: "radix_digit r c \<Longrightarrow> \<not> IsSpace c \<and> c \<noteq> 43 \<and> c \<noteq> 45"
  by (auto simp: radix_digit_def DigitValue_def IsSpace_def word_le_nat_alt split: if_splits)

lemma AccumulateDigits_form:
  assumes "radix_form base prefix ds r" and "digits_end r rest"
  obtains w s where "AccumulateDigits (ds @ rest) r limit = Inr (True, w, s, rest)"
    and "uint w = min (radix_value r ds) (uint limit)"
proof -
  obtain c p where rest: "rest = c # p" "\<not> radix_digit r c"
    using assms(2) by (cases rest) (auto simp: digits_end_def)
  have R: "2 \<le> r" "r \<le> 36" "\<forall>c \<in> set ds. radix_digit r c" "ds \<noteq> []" using assms(1) by (simp_all add: radix_form_def)
  then show ?thesis
    using accumulate_digits [OF R(1-3) rest(2), where sat = False and val = 0 and v = 0 and any = False and p = p and limit = limit]
      that rest
    by (auto simp: AccumulateDigits_def radix_value_def)
qed

lemma parse_start:
  assumes "\<forall>c \<in> set ws. IsSpace c" and "sign_text sg" and "radix_form base prefix ds r"
  shows "SkipSpaceAndSign (ws @ sg @ prefix @ ds @ rest) = Inr (prefix @ ds @ rest, sg = [45])"
proof -
  obtain d es where ds: "ds = d # es" "radix_digit r d" using assms(3) by (cases ds) (auto simp: radix_form_def)
  have "\<exists>c p. prefix @ ds @ rest = c # p \<and> \<not> IsSpace c \<and> c \<noteq> 43 \<and> c \<noteq> 45"
    using assms(3) radix_digit_start [OF ds(2)] by (auto simp: radix_form_def ds IsSpace_def)
  then obtain c p where P: "prefix @ ds @ rest = c # p" and c: "\<not> IsSpace c" "c \<noteq> 43" "c \<noteq> 45" by blast
  show ?thesis unfolding P by (rule SkipSpaceAndSign_text [OF assms(1,2) c])
qed

text \<open>
  \<open>ParseInteger\<close> reads spaces, a sign, the prefix of its radix and digits, stops right after them and
  returns the number they denote, or the nearer limit of \<open>i64\<close> if it does not fit.
\<close>

lemma ParseInteger_number:
  assumes "\<forall>c \<in> set ws. IsSpace c" and "sign_text sg"
    and "radix_form base prefix ds r" and "digits_end r rest"
  shows "\<exists>w. ParseInteger (Some (ws @ sg @ prefix @ ds @ rest)) base = Inr (Some (w, rest))
    \<and> sint w = max (- (2 ^ 63)) (min (2 ^ 63 - 1) (if sg = [45] then - radix_value r ds else radix_value r ds))"
proof -
  define limit :: u64 where "limit = (if sg = [45] then 0x7FFFFFFFFFFFFFFF + 1 else 0x7FFFFFFFFFFFFFFF)"
  obtain w s where A: "AccumulateDigits (ds @ rest) r limit = Inr (True, w, s, rest)"
    "uint w = min (radix_value r ds) (uint limit)"
    using assms(3,4) by (rule AccumulateDigits_form)
  have R: "2 \<le> r" "r \<le> 36" "\<forall>c \<in> set ds. radix_digit r c" using assms(3) by (simp_all add: radix_form_def)
  have pos: "0 \<le> radix_value r ds" unfolding radix_value_def by (rule radix_value_step [OF order_refl R(1,3)])
  have P: "ParseInteger (Some (ws @ sg @ prefix @ ds @ rest)) base =
      Inr (Some (if sg = [45] then NOT w + 1 else w, rest))"
    unfolding ParseInteger_def option.case parse_start [OF assms(1-3)] bindE_Inr prod.case
      ApplyRadixPrefix_form [OF assms(3,4)] Let_def limit_def [symmetric] A(1)
    using R by simp
  have "sint (if sg = [45] then NOT w + 1 else w) =
      max (- (2 ^ 63)) (min (2 ^ 63 - 1) (if sg = [45] then - radix_value r ds else radix_value r ds))"
  proof (cases "sg = [45]")
    case True
    then have w: "uint w = min (radix_value r ds) (2 ^ 63)" using A(2) by (simp add: limit_def)
    have n: "NOT w + 1 = - w" by (simp add: minus_eq_not_plus_1)
    have m: "- w = of_int (- uint w)" by simp
    have "sint (NOT w + 1) = signed_take_bit 63 (- uint w)" 
      unfolding n by (subst m) (simp only: sint_sbintrunc', simp)
    also have "\<dots> = - uint w" using w pos by (intro signed_take_bit_int_eq_self) simp_all
    finally show ?thesis using True w pos by simp
  next
    case False
    then have w: "uint w = min (radix_value r ds) (2 ^ 63 - 1)" using A(2) by (simp add: limit_def)
    have "sint w = signed_take_bit 63 (uint w)" by (simp add: sint_uint)
    also have "\<dots> = uint w" using w pos by (intro signed_take_bit_int_eq_self) simp_all
    finally show ?thesis using False w pos by simp
  qed
  then show ?thesis using P by blast
qed


lemma ParseUnsigned_number:
  assumes "\<forall>c \<in> set ws. IsSpace c" and "sign_text sg"
    and "radix_form base prefix ds r" and "digits_end r rest"
  shows "\<exists>w. ParseUnsigned (Some (ws @ sg @ prefix @ ds @ rest)) base = Inr (Some (w, rest))
    \<and> uint w = (if sg = [45] then - min (radix_value r ds) (2 ^ 64 - 1) else min (radix_value r ds) (2 ^ 64 - 1)) mod 2 ^ 64"
proof -
  obtain w s where A: "AccumulateDigits (ds @ rest) r 0xFFFFFFFFFFFFFFFF = Inr (True, w, s, rest)"
    "uint w = min (radix_value r ds) (uint (0xFFFFFFFFFFFFFFFF :: u64))"
    using assms(3,4) by (rule AccumulateDigits_form)
  have R: "2 \<le> r" "r \<le> 36" "\<forall>c \<in> set ds. radix_digit r c" using assms(3) by (simp_all add: radix_form_def)
  have w: "uint w = min (radix_value r ds) (2 ^ 64 - 1)" using A(2) by simp
  have "ParseUnsigned (Some (ws @ sg @ prefix @ ds @ rest)) base =
      Inr (Some (if sg = [45] then NOT w + 1 else w, rest))"
    unfolding ParseUnsigned_def option.case parse_start [OF assms(1-3)] bindE_Inr prod.case
      ApplyRadixPrefix_form [OF assms(3,4)] Let_def A(1)
    using R by simp
  moreover have "uint (NOT w + 1) = (- uint w) mod 2 ^ 64"
    using uint_word_ariths(4) [of w] by (simp add: minus_eq_not_plus_1)
  moreover have "uint w = uint w mod 2 ^ 64" using unsigned_less [where 'a = int, of w] by simp
  ultimately show ?thesis using w by auto
qed

text \<open>Where no digit follows, the parsers return false.\<close>

lemma accumulate_none:
  "\<not> radix_digit r c \<Longrightarrow> AccumulateDigits (c # p) r limit = Inr (False, 0, False, c # p)"
  by (simp add: AccumulateDigits_def radix_digit_def Let_def)

text \<open>
  (C20) \<open>ParseInteger\<close> and \<open>ParseUnsigned\<close> read spaces, a sign, the prefix of their radix and digits and stop
  right after them. The first returns the number, or the nearer limit of \<open>i64\<close> if it does not fit.
  Without a minus the second returns the number, or the greatest \<open>u64\<close> if it does not fit; after a minus
  it returns the negation modulo \<open>2 ^ 64\<close> of a number that fits, but one for a number that does not: what
  it negates is the saturated magnitude, and the limit that \<open>number_parse.h\<close> promises is not returned.
\<close>

theorem parse_integers_saturate:
  assumes "\<forall>c \<in> set ws. IsSpace c" and "sign_text sg"
    and "radix_form base prefix ds r" and "digits_end r rest"
  shows "(\<exists>w. ParseInteger (Some (ws @ sg @ prefix @ ds @ rest)) base = Inr (Some (w, rest))
      \<and> sint w = max (- (2 ^ 63)) (min (2 ^ 63 - 1) (if sg = [45] then - radix_value r ds else radix_value r ds)))
    \<and> (\<exists>w. ParseUnsigned (Some (ws @ sg @ prefix @ ds @ rest)) base = Inr (Some (w, rest))
      \<and> uint w = (if sg \<noteq> [45] then min (radix_value r ds) (2 ^ 64 - 1)
                  else if radix_value r ds < 2 ^ 64 then (- radix_value r ds) mod 2 ^ 64 else 1))"
proof
  show "\<exists>w. ParseInteger (Some (ws @ sg @ prefix @ ds @ rest)) base = Inr (Some (w, rest))
      \<and> sint w = max (- (2 ^ 63)) (min (2 ^ 63 - 1) (if sg = [45] then - radix_value r ds else radix_value r ds))"
    by (rule ParseInteger_number [OF assms])
  obtain w where w: "ParseUnsigned (Some (ws @ sg @ prefix @ ds @ rest)) base = Inr (Some (w, rest))"
    "uint w = (if sg = [45] then - min (radix_value r ds) (2 ^ 64 - 1) else min (radix_value r ds) (2 ^ 64 - 1)) mod 2 ^ 64"
    using ParseUnsigned_number [OF assms] by blast
  have "2 \<le> r" "\<forall>c \<in> set ds. radix_digit r c" using assms(3) by (simp_all add: radix_form_def)
  then have "0 \<le> radix_value r ds" unfolding radix_value_def by (rule radix_value_step [OF order_refl])
  then have plus: "min (radix_value r ds) (2 ^ 64 - 1) mod 2 ^ 64 = min (radix_value r ds) (2 ^ 64 - 1)" by (intro mod_pos_pos_trivial) auto
  have minus: "(- min (radix_value r ds) (2 ^ 64 - 1)) mod 2 ^ 64 = (if radix_value r ds < 2 ^ 64 then (- radix_value r ds) mod 2 ^ 64 else 1)"
    by (cases "radix_value r ds < 2 ^ 64") (simp_all add: min_def)
  show "\<exists>w. ParseUnsigned (Some (ws @ sg @ prefix @ ds @ rest)) base = Inr (Some (w, rest))
      \<and> uint w = (if sg \<noteq> [45] then min (radix_value r ds) (2 ^ 64 - 1)
                  else if radix_value r ds < 2 ^ 64 then (- radix_value r ds) mod 2 ^ 64 else 1)"
    using w plus minus by auto
qed

theorem parse_integers_saturate_witness:
  "(\<exists>w. ParseInteger (Some ([32] @ [45] @ [48, 120] @ [49, 70] @ [0])) 0 = Inr (Some (w, [0]))
      \<and> sint w = max (- (2 ^ 63)) (min (2 ^ 63 - 1) (if [45 :: u8] = [45] then - radix_value 16 [49, 70] else radix_value 16 [49, 70])))
    \<and> (\<exists>w. ParseUnsigned (Some ([32] @ [45] @ [48, 120] @ [49, 70] @ [0])) 0 = Inr (Some (w, [0]))
      \<and> uint w = (if [45 :: u8] \<noteq> [45] then min (radix_value 16 [49, 70]) (2 ^ 64 - 1)
                  else if radix_value 16 [49, 70] < 2 ^ 64 then (- radix_value 16 [49, 70]) mod 2 ^ 64 else 1))"
  by (rule parse_integers_saturate)
    (simp_all add: IsSpace_def sign_text_def radix_form_def digits_end_def radix_digit_def DigitValue_def)

end
