(* ===== verification/Unicode.thy ===== *)
theory Unicode
  imports Prelude
begin

text \<open>
  \<open>text/code_convert.cc\<close>, \<open>text/code_point_validation.h\<close> and the macros of \<open>external/icu/icu_utf.h\<close>
  they use. A code point is a 32-bit word, the sentinel of an ill-formed sequence its largest value. A
  source is the list of its code units; a macro that moves an index over it takes the rest of the list.
\<close>

unbundle bit_operations_syntax

section \<open>The macros\<close>

definition CBU_SENTINEL :: "u32" where "CBU_SENTINEL = - 1"

definition CBU8_IS_SINGLE :: "u32 \<Rightarrow> bool" where
  "CBU8_IS_SINGLE c \<longleftrightarrow> c AND 0x80 = 0"

definition CBU8_LEAD3_T1_BITS :: "nat list" where
  "CBU8_LEAD3_T1_BITS = [0x20, 0x30, 0x30, 0x30, 0x30, 0x30, 0x30, 0x30, 0x30, 0x30, 0x30, 0x30, 0x30, 0x10, 0x30, 0x30]"

definition CBU8_LEAD4_T1_BITS :: "nat list" where
  "CBU8_LEAD4_T1_BITS = [0, 0, 0, 0, 0, 0, 0, 0, 0x1E, 0x0F, 0x0F, 0x0F, 0, 0, 0, 0]"

text \<open>
  \<open>CBU8_NEXT\<close> reads all but the last trail byte, then the last one. \<open>Inl\<close> is the index after a
  sequence that breaks off.
\<close>

fun second_of_three :: "u32 \<Rightarrow> u8 list \<Rightarrow> u8 list + u32 \<times> u8 \<times> u8 list" where
  "second_of_three c [] = Inl []"
| "second_of_three c (t # s) =
     (let c = c AND 0xf in
      if CBU8_LEAD3_T1_BITS ! unat c AND push_bit (unat (drop_bit 5 t)) 1 \<noteq> 0 then Inr (c, t AND 0x3f, t # s) else Inl (t # s))"

fun second_of_four :: "u32 \<Rightarrow> u8 list \<Rightarrow> u8 list + u32 \<times> u8 \<times> u8 list" where
  "second_of_four c [] = Inl []"
| "second_of_four c (t # s) =
     (let c = c - 0xf0 in
      if c \<le> 4 \<and> CBU8_LEAD4_T1_BITS ! unat (drop_bit 4 t) AND push_bit (unat c) 1 \<noteq> 0 then
        (let c = push_bit 6 c OR ucast (t AND 0x3f)
         in case s of [] \<Rightarrow> Inl [] | u # s' \<Rightarrow> (let t = u - 0x80 in if t \<le> 0x3f then Inr (c, t, s) else Inl s))
      else Inl (t # s))"

definition but_last_trail :: "u32 \<Rightarrow> u8 list \<Rightarrow> u8 list + u32 \<times> u8 list" where
  "but_last_trail c s =
     (if s = [] then Inl []
      else if c \<ge> 0xe0 then
        (case (if c < 0xf0 then second_of_three c s else second_of_four c s) of
           Inl s \<Rightarrow> Inl s
         | Inr (c, t, s) \<Rightarrow> (let c = push_bit 6 c OR ucast t; s = tl s in if s = [] then Inl [] else Inr (c, s)))
      else if c \<ge> 0xc2 then Inr (c AND 0x1f, s) else Inl s)"

fun CBU8_NEXT :: "u8 list \<Rightarrow> (u32 \<times> u8 list) res" where
  "CBU8_NEXT [] = Inl OutOfBounds"
| "CBU8_NEXT (b # s) =
     (let c = ucast b in
      if CBU8_IS_SINGLE c then Inr (c, s)
      else case but_last_trail c s of
        Inl s \<Rightarrow> Inr (CBU_SENTINEL, s)
      | Inr (c, s) \<Rightarrow>
          (let t = hd s - 0x80 in if t \<le> 0x3f then Inr (push_bit 6 c OR ucast t, tl s) else Inr (CBU_SENTINEL, s)))"

definition CBU8_APPEND_UNSAFE :: "u32 \<Rightarrow> u8 list" where
  "CBU8_APPEND_UNSAFE c =
     (if c \<le> 0x7f then [ucast c]
      else (if c \<le> 0x7ff then [ucast (drop_bit 6 c OR 0xc0)]
            else (if c \<le> 0xffff then [ucast (drop_bit 12 c OR 0xe0)]
                  else [ucast (drop_bit 18 c OR 0xf0), ucast ((drop_bit 12 c AND 0x3f) OR 0x80)])
                 @ [ucast ((drop_bit 6 c AND 0x3f) OR 0x80)])
           @ [ucast ((c AND 0x3f) OR 0x80)])"

definition CBU16_APPEND_UNSAFE :: "u32 \<Rightarrow> u16 list" where
  "CBU16_APPEND_UNSAFE c =
     (if c \<le> 0xffff then [ucast c] else [ucast (drop_bit 10 c + 0xd7c0), ucast ((c AND 0x3ff) OR 0xdc00)])"

definition CBU_IS_SURROGATE :: "u32 \<Rightarrow> bool" where
  "CBU_IS_SURROGATE c \<longleftrightarrow> c AND 0xfffff800 = 0xd800"

definition CBU16_IS_SINGLE :: "u32 \<Rightarrow> bool" where
  "CBU16_IS_SINGLE c \<longleftrightarrow> \<not> CBU_IS_SURROGATE c"

definition CBU16_IS_LEAD :: "u32 \<Rightarrow> bool" where
  "CBU16_IS_LEAD c \<longleftrightarrow> c AND 0xfffffc00 = 0xd800"

definition CBU16_IS_TRAIL :: "u32 \<Rightarrow> bool" where
  "CBU16_IS_TRAIL c \<longleftrightarrow> c AND 0xfffffc00 = 0xdc00"

definition CBU16_SURROGATE_OFFSET :: "u32" where
  "CBU16_SURROGATE_OFFSET = push_bit 10 0xd800 + 0xdc00 - 0x10000"

definition CBU16_GET_SUPPLEMENTARY :: "u32 \<Rightarrow> u32 \<Rightarrow> u32" where
  "CBU16_GET_SUPPLEMENTARY lead trail = push_bit 10 lead + trail - CBU16_SURROGATE_OFFSET"

section \<open>Validation\<close>

definition IsValidCodepoint :: "u32 \<Rightarrow> bool" where
  "IsValidCodepoint c \<longleftrightarrow> c < 0xD800 \<or> c \<ge> 0xE000 \<and> c \<le> 0x10FFFF"

text \<open>A code point is signed here: a negative one is the sentinel.\<close>

definition IsValidUTF8Character :: "u32 \<Rightarrow> bool" where
  "IsValidUTF8Character c \<longleftrightarrow> sint c \<ge> 0 \<and> sint c < 0xD800 \<or> sint c \<ge> 0xE000 \<and> sint c < 0xFDD0
     \<or> sint c > 0xFDEF \<and> sint c \<le> 0x10FFFF \<and> c AND 0xFFFE \<noteq> 0xFFFE"

section \<open>Spec: code points and their encodings\<close>

definition scalar :: "nat \<Rightarrow> bool" where
  "scalar n \<longleftrightarrow> n < 0xD800 \<or> 0xE000 \<le> n \<and> n \<le> 0x10FFFF"

definition byte :: "nat \<Rightarrow> u8" where
  "byte n = of_nat n"

definition utf8 :: "nat \<Rightarrow> u8 list" where
  "utf8 n = (if n < 0x80 then [byte n]
     else if n < 0x800 then [byte (0xC0 + n div 64), byte (0x80 + n mod 64)]
     else if n < 0x10000 then [byte (0xE0 + n div 4096), byte (0x80 + n div 64 mod 64), byte (0x80 + n mod 64)]
     else [byte (0xF0 + n div 262144), byte (0x80 + n div 4096 mod 64), byte (0x80 + n div 64 mod 64), byte (0x80 + n mod 64)])"

definition utf16 :: "nat \<Rightarrow> u16 list" where
  "utf16 n = (if n < 0x10000 then [of_nat n]
     else [of_nat (0xD800 + (n - 0x10000) div 1024), of_nat (0xDC00 + (n - 0x10000) mod 1024)])"

section \<open>Words as numbers\<close>

lemma and_low: "unat (w AND mask k) = unat (w :: 'a::len word) mod 2 ^ k"
  by (simp only: take_bit_eq_mask [symmetric] unsigned_take_bit_eq take_bit_eq_mod [where 'a = nat])

lemma masks: "(0x3f :: 'a::len word) = mask 6" "(0xf :: 'a::len word) = mask 4" "(0x1f :: 'a::len word) = mask 5" "(0x3ff :: 'a::len word) = mask 10"
  by (simp_all add: mask_numeral)

lemma or_high:
  assumes "unat (c :: 'a::len word) < 2 ^ k" and "unat (push_bit k x) + unat c < 2 ^ LENGTH('a)"
  shows "unat (c OR push_bit k x) = unat (push_bit k x) + unat c"
proof -
  have "c OR push_bit k x = push_bit k x OR c" by (rule or.commute)
  also have "\<dots> = push_bit k x + c" by (rule push_or_add [OF assms(1)])
  finally show ?thesis using assms(2) by (simp add: unat_word_ariths)
qed

lemma ucast_byte: "ucast (c :: u32) = byte (unat c)"
  by (simp add: byte_def)

lemma lead_marks:
  "(0xc0 :: u32) = push_bit 6 3" "(0xe0 :: u32) = push_bit 5 7" "(0xf0 :: u32) = push_bit 4 15" "(0x80 :: u32) = push_bit 7 1"
  "(0xdc00 :: u32) = push_bit 10 55"
  by simp_all

lemma drop_or_high:
  assumes "unat (c :: u32) < 2 ^ k" and "x * 2 ^ k + unat c < 2 ^ 32"
  shows "unat (c OR push_bit k (of_nat x)) = x * 2 ^ k + unat c"
proof -
  have "x * 2 ^ k < 2 ^ 32" using assms(2) by simp
  then have "x < 2 ^ 32" by (rule le_less_trans [rotated]) simp
  then have "unat (push_bit k (of_nat x :: u32)) = x * 2 ^ k"
    using \<open>x * 2 ^ k < 2 ^ 32\<close> by (simp add: unat_push unat_of_nat)
  then show ?thesis using or_high [of c k "of_nat x"] assms by simp
qed

lemma append_utf8:
  assumes "scalar (unat c)"
  shows "CBU8_APPEND_UNSAFE c = utf8 (unat c)"
proof -
  define n where "n = unat c"
  have n: "n < 0x110000" using assms by (auto simp: scalar_def n_def)
  have le: "c \<le> 0x7f \<longleftrightarrow> n < 0x80" "c \<le> 0x7ff \<longleftrightarrow> n < 0x800" "c \<le> 0xffff \<longleftrightarrow> n < 0x10000"
    by (auto simp: n_def word_le_nat_alt)
  have low: "unat ((drop_bit k c AND 0x3f) OR 0x80) = 0x80 + n div 2 ^ k mod 64" for k
  proof -
    have "unat (drop_bit k c AND 0x3f) = n div 2 ^ k mod 64"
      unfolding masks and_low unat_shift_right n_def by simp
    then show ?thesis using drop_or_high [of "drop_bit k c AND 0x3f" 7 1] by simp
  qed
  have low0: "unat ((c AND 0x3f) OR 0x80) = 0x80 + n mod 64" using low [of 0] by simp
  have lead: "unat (drop_bit k c OR push_bit j (of_nat x)) = x * 2 ^ j + n div 2 ^ k"
    if "n div 2 ^ k < 2 ^ j" "x * 2 ^ j + n div 2 ^ k < 2 ^ 32" for k j x
    using drop_or_high [of "drop_bit k c" j x] that by (simp add: unat_shift_right n_def)
  have lead2: "unat (drop_bit 6 c OR 0xc0) = 0xC0 + n div 64" if "n < 0x800"
    using lead [of 6 6 3] that by simp
  have lead3: "unat (drop_bit 12 c OR 0xe0) = 0xE0 + n div 4096" if "n < 0x10000"
    using lead [of 12 5 7] that by simp
  have lead4: "unat (drop_bit 18 c OR 0xf0) = 0xF0 + n div 262144"
    using lead [of 18 4 15] n by simp
  show ?thesis
    unfolding CBU8_APPEND_UNSAFE_def utf8_def n_def [symmetric] ucast_byte low low0 le
    using lead2 lead3 lead4 by (simp add: n_def [symmetric])
qed

section \<open>The decoder byte by byte\<close>

definition trail :: "u8 \<Rightarrow> bool" where
  "trail t \<longleftrightarrow> 0x80 \<le> unat t \<and> unat t < 0xC0"

definition second_ok :: "nat \<Rightarrow> nat \<Rightarrow> bool" where
  "second_ok b t \<longleftrightarrow> (if b = 0xE0 then 0xA0 else if b = 0xF0 then 0x90 else 0x80) \<le> t
     \<and> t < (if b = 0xED then 0xA0 else if b = 0xF4 then 0x90 else 0xC0)"

lemma byte_less: "unat (t :: u8) < 256"
  using unsigned_less [where 'a = nat, of t] by simp

lemma trail_minus: "t - 0x80 \<le> (0x3f :: u8) \<longleftrightarrow> trail t" "trail t \<Longrightarrow> unat (t - 0x80) = unat t - 0x80"
proof -
  have "unat (t - 0x80) = (if 0x80 \<le> unat t then unat t - 0x80 else unat t + 0x80)"
    using byte_less [of t] by (simp add: unat_sub_if')
  then show "t - 0x80 \<le> (0x3f :: u8) \<longleftrightarrow> trail t" "trail t \<Longrightarrow> unat (t - 0x80) = unat t - 0x80"
    using byte_less [of t] by (auto simp: word_le_nat_alt trail_def)
qed

text \<open>The two tables, entry by entry.\<close>

lemma lead3_table:
  "\<forall>x \<in> set [0..<16]. \<forall>k \<in> set [0..<8]. CBU8_LEAD3_T1_BITS ! x AND push_bit k 1 \<noteq> 0 \<longleftrightarrow> k = 4 \<and> x \<noteq> 0 \<or> k = 5 \<and> x \<noteq> 13"
  by code_simp

lemma lead4_table:
  "\<forall>x \<in> set [0..<5]. \<forall>k \<in> set [0..<16]. CBU8_LEAD4_T1_BITS ! k AND push_bit x 1 \<noteq> 0 \<longleftrightarrow>
     k = 8 \<and> x \<noteq> 0 \<or> 9 \<le> k \<and> k \<le> 11 \<and> x \<noteq> 4"
  by code_simp

lemma lead3_ok:
  assumes "x < 16"
  shows "CBU8_LEAD3_T1_BITS ! x AND push_bit (unat (drop_bit 5 (t :: u8))) 1 \<noteq> 0 \<longleftrightarrow> second_ok (0xE0 + x) (unat t)"
proof -
  have "x \<in> set [0..<16]" "unat t div 32 \<in> set [0..<8]" using assms byte_less [of t] by auto
  then have "CBU8_LEAD3_T1_BITS ! x AND push_bit (unat t div 32) 1 \<noteq> 0 \<longleftrightarrow> unat t div 32 = 4 \<and> x \<noteq> 0 \<or> unat t div 32 = 5 \<and> x \<noteq> 13"
    by (rule lead3_table [rule_format])
  moreover obtain k where "unat t div 32 = k" "k * 32 \<le> unat t" "unat t < k * 32 + 32"
    using div_mult_mod_eq [of "unat t" 32] mod_less_divisor [of 32 "unat t"] that by fastforce
  moreover have "unat (drop_bit 5 t) = unat t div 32" by (simp add: unat_shift_right)
  ultimately show ?thesis using assms by (auto simp: second_ok_def)
qed

lemma lead4_ok:
  assumes "x \<le> 4"
  shows "CBU8_LEAD4_T1_BITS ! unat (drop_bit 4 (t :: u8)) AND push_bit x 1 \<noteq> 0 \<longleftrightarrow> second_ok (0xF0 + x) (unat t)"
proof -
  have "x \<in> set [0..<5]" "unat t div 16 \<in> set [0..<16]" using assms byte_less [of t] by auto
  then have "CBU8_LEAD4_T1_BITS ! (unat t div 16) AND push_bit x 1 \<noteq> 0 \<longleftrightarrow>
      unat t div 16 = 8 \<and> x \<noteq> 0 \<or> 9 \<le> unat t div 16 \<and> unat t div 16 \<le> 11 \<and> x \<noteq> 4"
    by (rule lead4_table [rule_format])
  moreover obtain k where "unat t div 16 = k" "k * 16 \<le> unat t" "unat t < k * 16 + 16"
    using div_mult_mod_eq [of "unat t" 16] mod_less_divisor [of 16 "unat t"] that by fastforce
  moreover have "unat (drop_bit 4 t) = unat t div 16" by (simp add: unat_shift_right)
  ultimately show ?thesis using assms by (auto simp: second_ok_def)
qed

definition point :: "nat \<Rightarrow> u32" where
  "point n = of_nat n"

lemma unat_point: "n < 2 ^ 32 \<Longrightarrow> unat (point n) = n"
  by (simp add: point_def unat_of_nat)

lemma point_unat: "point (unat c) = c"
  by (simp add: point_def)

lemma append_trail:
  assumes "unat c < 2 ^ 26" and "unat (t :: u8) < 64"
  shows "push_bit 6 c OR ucast t = point (unat c * 64 + unat t)"
proof -
  have t: "unat (ucast t :: u32) = unat t" using byte_less [of t] by (simp add: unsigned_ucast_eq take_bit_nat_eq_self)
  have "unat (push_bit 6 c OR ucast t) = unat c * 64 + unat t"
  proof -
    have "push_bit 6 c OR ucast t = push_bit 6 c + ucast t" by (rule push_or_add) (use assms t in simp)
    moreover have "unat (push_bit 6 c) = unat c * 64" using assms(1) by (simp add: unat_push)
    ultimately show ?thesis using assms t by (simp add: unat_word_ariths)
  qed
  then show ?thesis by (metis point_unat)
qed

text \<open>What \<open>CBU8_NEXT\<close> does with each kind of lead byte.\<close>

lemma lead_word:
  "unat (ucast (b :: u8) :: u32) = unat b"
  "CBU8_IS_SINGLE (ucast b) \<longleftrightarrow> unat b < 0x80"
  "(ucast b :: u32) \<ge> 0xe0 \<longleftrightarrow> 0xE0 \<le> unat b" "(ucast b :: u32) < 0xf0 \<longleftrightarrow> unat b < 0xF0" "(ucast b :: u32) \<ge> 0xc2 \<longleftrightarrow> 0xC2 \<le> unat b"
proof -
  show u: "unat (ucast b :: u32) = unat b" using byte_less [of b] by (simp add: unsigned_ucast_eq take_bit_nat_eq_self)
  show "(ucast b :: u32) \<ge> 0xe0 \<longleftrightarrow> 0xE0 \<le> unat b" "(ucast b :: u32) < 0xf0 \<longleftrightarrow> unat b < 0xF0" "(ucast b :: u32) \<ge> 0xc2 \<longleftrightarrow> 0xC2 \<le> unat b"
    by (simp_all add: word_le_nat_alt word_less_nat_alt u)
  have "\<forall>n \<in> set [0..<256]. ((of_nat n :: u32) AND 0x80 = 0) \<longleftrightarrow> n < 128" by code_simp
  moreover have "(ucast b :: u32) = of_nat (unat b)" by simp
  ultimately show "CBU8_IS_SINGLE (ucast b) \<longleftrightarrow> unat b < 0x80"
    unfolding CBU8_IS_SINGLE_def using byte_less [of b] by (metis atLeastLessThan_iff set_upt zero_le)
qed

lemma next_single: "unat b < 0x80 \<Longrightarrow> CBU8_NEXT (b # s) = Inr (point (unat b), s)"
  by (simp add: lead_word point_def)

lemma last_trail:
  assumes "unat c < 2 ^ 26"
  shows "(let t = u - 0x80 in if t \<le> (0x3f :: u8) then Inr (push_bit 6 c OR ucast t, s) else Inr (CBU_SENTINEL, u # s)) =
    (if trail u then Inr (point (unat c * 64 + (unat u - 0x80)), s) else Inr (CBU_SENTINEL, u # s))"
proof (cases "trail u")
  case True
  then have "unat (u - 0x80) = unat u - 0x80" "unat u - 0x80 < 64" using trail_minus(2) by (auto simp: trail_def)
  then show ?thesis using True append_trail [OF assms, of "u - 0x80"] by (simp add: Let_def trail_minus(1))
qed (simp add: Let_def trail_minus(1))

lemma next_short: "0x80 \<le> unat b \<Longrightarrow> CBU8_NEXT [b] = Inr (CBU_SENTINEL, [])"
  by (simp add: lead_word but_last_trail_def)

lemma next_bad: "0x80 \<le> unat b \<Longrightarrow> unat b < 0xC2 \<Longrightarrow> CBU8_NEXT (b # s) = Inr (CBU_SENTINEL, s)"
  by (cases s) (simp_all add: lead_word but_last_trail_def)

lemma next_two:
  assumes "0xC2 \<le> unat b" and "unat b < 0xE0"
  shows "CBU8_NEXT (b # u # s) = (if trail u then Inr (point ((unat b - 0xC0) * 64 + (unat u - 0x80)), s) else Inr (CBU_SENTINEL, u # s))"
proof -
  have "unat ((ucast b :: u32) AND 0x1f) = unat b mod 32" unfolding masks and_low lead_word by simp
  also have "\<dots> = unat b - 0xC0"
  proof -
    have "unat b = 6 * 32 + (unat b - 0xC0)" "unat b - 0xC0 < 32" using assms by auto
    then show ?thesis by (metis mod_less mod_mult_self3)
  qed
  finally have c: "unat ((ucast b :: u32) AND 0x1f) = unat b - 0xC0" .
  define c where "c = (ucast b :: u32) AND 0x1f"
  have "unat c < 2 ^ 26" using assms c by (simp add: c_def)
  from last_trail [OF this, of u s] show ?thesis
    using assms c by (cases "trail u") (simp_all add: lead_word but_last_trail_def Let_def c_def [symmetric] trail_minus(1))
qed

lemma low_six: "0x80 \<le> unat u \<Longrightarrow> unat u < 0xC0 \<Longrightarrow> unat ((u :: u8) AND 0x3f) = unat u - 0x80"
proof -
  assume u: "0x80 \<le> unat u" "unat u < 0xC0"
  have "unat (u AND 0x3f) = unat u mod 64" unfolding masks and_low by simp
  moreover have "unat u = 2 * 64 + (unat u - 0x80)" "unat u - 0x80 < 64" using u by auto
  ultimately show ?thesis by (metis mod_less mod_mult_self3)
qed

lemma second_ok_trail: "second_ok b t \<Longrightarrow> 0x80 \<le> t \<and> t < 0xC0"
  by (auto simp: second_ok_def split: if_splits)

lemma next_three:
  assumes "0xE0 \<le> unat b" and "unat b < 0xF0"
  shows "CBU8_NEXT (b # u # s) = (if second_ok (unat b) (unat u) then
      (case s of [] \<Rightarrow> Inr (CBU_SENTINEL, [])
       | v # s' \<Rightarrow> if trail v then Inr (point (((unat b - 0xE0) * 64 + (unat u - 0x80)) * 64 + (unat v - 0x80)), s') else Inr (CBU_SENTINEL, s))
    else Inr (CBU_SENTINEL, u # s))"
proof -
  have "unat ((ucast b :: u32) AND 0xf) = unat b mod 16" unfolding masks and_low lead_word by simp
  also have "\<dots> = unat b - 0xE0"
  proof -
    have "unat b = 14 * 16 + (unat b - 0xE0)" "unat b - 0xE0 < 16" using assms by auto
    then show ?thesis by (metis mod_less mod_mult_self3)
  qed
  finally have c: "unat ((ucast b :: u32) AND 0xf) = unat b - 0xE0" .
  have ok: "CBU8_LEAD3_T1_BITS ! unat ((ucast b :: u32) AND 0xf) AND push_bit (unat (drop_bit 5 u)) 1 \<noteq> 0 \<longleftrightarrow> second_ok (unat b) (unat u)"
    using lead3_ok [of "unat b - 0xE0" u] assms unfolding c by simp
  show ?thesis
  proof (cases "second_ok (unat b) (unat u)")
    case True
    define c where "c = (ucast b :: u32) AND 0xf"
    define t where "t = u AND 0x3f"
    define m where "m = push_bit 6 c OR (ucast t :: u32)"
    have u: "0x80 \<le> unat u" "unat u < 0xC0" using second_ok_trail [OF True] by simp_all
    have "m = point ((unat b - 0xE0) * 64 + (unat u - 0x80))"
      unfolding m_def c_def t_def using append_trail [of "ucast b AND 0xf" "u AND 0x3f"] c low_six [OF u] assms u by simp
    then have m: "unat m = (unat b - 0xE0) * 64 + (unat u - 0x80)" using assms u by (simp add: unat_point)
    then have "unat m < 2 ^ 26" using assms u by simp
    note L = last_trail [OF this, unfolded m]
    show ?thesis
    proof (cases s)
      case Nil
      then show ?thesis using True assms ok by (simp add: lead_word but_last_trail_def Let_def c_def [symmetric])
    next
      case (Cons v s')
      show ?thesis using True assms ok L [of v s']
        by (cases "trail v") (simp_all add: lead_word but_last_trail_def Let_def Cons c_def [symmetric] t_def [symmetric] m_def [symmetric] trail_minus(1))
    qed
  next
    case False
    then show ?thesis using assms ok by (simp add: lead_word but_last_trail_def Let_def)
  qed
qed

lemma next_four:
  assumes "0xF0 \<le> unat b"
  shows "CBU8_NEXT (b # u # s) = (if unat b \<le> 0xF4 \<and> second_ok (unat b) (unat u) then
      (case s of [] \<Rightarrow> Inr (CBU_SENTINEL, [])
       | v # s' \<Rightarrow> if trail v then
           (case s' of [] \<Rightarrow> Inr (CBU_SENTINEL, [])
            | w # s'' \<Rightarrow> if trail w then Inr (point ((((unat b - 0xF0) * 64 + (unat u - 0x80)) * 64 + (unat v - 0x80)) * 64 + (unat w - 0x80)), s'')
                else Inr (CBU_SENTINEL, s'))
           else Inr (CBU_SENTINEL, s))
    else Inr (CBU_SENTINEL, u # s))"
proof -
  have c: "unat ((ucast b :: u32) - 0xf0) = unat b - 0xF0" using assms by (simp add: unat_sub_if' lead_word)
  then have c4: "(ucast b :: u32) - 0xf0 \<le> 4 \<longleftrightarrow> unat b \<le> 0xF4" unfolding word_le_nat_alt c by auto
  have ok: "CBU8_LEAD4_T1_BITS ! unat (drop_bit 4 u) AND push_bit (unat ((ucast b :: u32) - 0xf0)) 1 \<noteq> 0 \<longleftrightarrow> second_ok (unat b) (unat u)"
    if "unat b \<le> 0xF4" using lead4_ok [of "unat b - 0xF0" u] assms that unfolding c by simp
  have low: "\<not> (ucast b :: u32) < 0xf0" "(ucast b :: u32) \<ge> 0xe0" "\<not> CBU8_IS_SINGLE (ucast b)" using assms unfolding lead_word by auto
  show ?thesis
  proof (cases "unat b \<le> 0xF4 \<and> second_ok (unat b) (unat u)")
    case True
    define c where "c = (ucast b :: u32) - 0xf0"
    define t where "t = u AND 0x3f"
    define m where "m = push_bit 6 c OR (ucast t :: u32)"
    have u: "0x80 \<le> unat u" "unat u < 0xC0" using second_ok_trail True by blast+
    have small: "unat b - 0xF0 \<le> 4" "unat u - 0x80 < 64" using assms u True by auto
    then have "m = point ((unat b - 0xF0) * 64 + (unat u - 0x80))"
      unfolding m_def c_def t_def using append_trail [of "ucast b - 0xf0" "u AND 0x3f"] c low_six [OF u] by simp
    moreover have "(unat b - 0xF0) * 64 + (unat u - 0x80) < 2 ^ 32" using small by simp
    ultimately have m: "unat m = (unat b - 0xF0) * 64 + (unat u - 0x80)" by (simp only: unat_point)
    show ?thesis
    proof (cases s)
      case Nil
      then show ?thesis using True low ok c4 by (simp add: but_last_trail_def Let_def)
    next
      case (Cons v s')
      show ?thesis
      proof (cases "trail v")
        case tv: True
        define d where "d = v - 0x80"
        define k where "k = push_bit 6 m OR (ucast d :: u32)"
        have v: "unat (v - 0x80) = unat v - 0x80" "unat v - 0x80 < 64" using trail_minus(2) [OF tv] tv by (auto simp: trail_def)
        have "k = point (((unat b - 0xF0) * 64 + (unat u - 0x80)) * 64 + (unat v - 0x80))"
          unfolding k_def d_def using append_trail [of m "v - 0x80"] m v small by simp
        moreover have lt: "((unat b - 0xF0) * 64 + (unat u - 0x80)) * 64 + (unat v - 0x80) < 2 ^ 26" using small v(2) by simp
        then have "((unat b - 0xF0) * 64 + (unat u - 0x80)) * 64 + (unat v - 0x80) < 2 ^ 32" by simp
        ultimately have k: "unat k = ((unat b - 0xF0) * 64 + (unat u - 0x80)) * 64 + (unat v - 0x80)" by (simp only: unat_point)
        then have "unat k < 2 ^ 26" using lt by simp
        note L = last_trail [OF this, unfolded k]
        have d: "d \<le> 0x3f" using tv by (simp add: d_def trail_minus(1))
        show ?thesis
        proof (cases s')
          case Nil
          then show ?thesis using True low ok c4 tv by (simp add: but_last_trail_def Let_def Cons trail_minus(1) c_def [symmetric])
        next
          case c2: (Cons w s'')
          show ?thesis using True low ok c4 tv d L [of w s'']
            by (cases "trail w") (simp_all add: but_last_trail_def Let_def Cons c2 trail_minus(1) c_def [symmetric] t_def [symmetric] m_def [symmetric]
                d_def [symmetric] k_def [symmetric])
        qed
      next
        case False
        then show ?thesis using True low ok c4 by (simp add: but_last_trail_def Let_def Cons trail_minus(1) c_def [symmetric])
      qed
    qed
  next
    case False
    then show ?thesis using low ok c4 by (auto simp: but_last_trail_def Let_def)
  qed
qed

lemma unat_byte: "n < 256 \<Longrightarrow> unat (byte n) = n"
  by (simp add: byte_def unat_of_nat)

lemma byte_unat: "byte (unat b) = b"
  by (simp add: byte_def)

lemma trail_byte: "trail (byte (0x80 + n mod 64))" "unat (byte (0x80 + n mod 64)) - 0x80 = n mod 64" "unat (byte (0x80 + n mod 64)) = 0x80 + n mod 64"
proof -
  have "n mod 64 < 64" by simp
  then show "unat (byte (0x80 + n mod 64)) = 0x80 + n mod 64" by (intro unat_byte) linarith
  then show "trail (byte (0x80 + n mod 64))" "unat (byte (0x80 + n mod 64)) - 0x80 = n mod 64"
    using \<open>n mod 64 < 64\<close> by (auto simp: trail_def)
qed

lemma digits64: "(n :: nat) div 64 * 64 + n mod 64 = n" "n div 4096 * 64 + n div 64 mod 64 = n div 64" "n div 262144 * 64 + n div 4096 mod 64 = n div 4096"
proof -
  have "n div 4096 = n div 64 div 64" "n div 262144 = n div 4096 div 64" by (simp_all add: div_mult2_eq [symmetric])
  then show "n div 64 * 64 + n mod 64 = n" "n div 4096 * 64 + n div 64 mod 64 = n div 64" "n div 262144 * 64 + n div 4096 mod 64 = n div 4096"
    by (simp_all only: div_mult_mod_eq)
qed

lemma next_utf8:
  assumes "scalar n"
  shows "CBU8_NEXT (utf8 n @ rest) = Inr (point n, rest)"
proof -
  consider "n < 0x80" | "0x80 \<le> n" "n < 0x800" | "0x800 \<le> n" "n < 0x10000" | "0x10000 \<le> n" "n \<le> 0x10FFFF"
    using assms unfolding scalar_def by linarith
  then show ?thesis
  proof cases
    case 1
    then show ?thesis using next_single [of "byte n"] by (simp add: utf8_def unat_byte)
  next
    case 2
    define x where "x = n div 64"
    have x: "2 \<le> x" "x < 32" using 2 by (simp_all add: x_def div_le_mono less_mult_imp_div_less)
    then have b: "unat (byte (0xC0 + x)) = 0xC0 + x" by (intro unat_byte) simp
    have "utf8 n = [byte (0xC0 + x), byte (0x80 + n mod 64)]" using 2 by (simp add: utf8_def x_def)
    moreover have "x * 64 + n mod 64 = n" unfolding x_def by (rule digits64)
    ultimately show ?thesis using next_two [of "byte (0xC0 + x)"] x by (simp add: b trail_byte)
  next
    case 3
    define x y where "x = n div 4096" and "y = n div 64"
    have x: "x < 16" using 3 by (simp add: x_def less_mult_imp_div_less)
    have xy: "x * 64 + y mod 64 = y" "y * 64 + n mod 64 = n" unfolding x_def y_def by (rule digits64)+
    have b: "unat (byte (0xE0 + x)) = 0xE0 + x" using x by (intro unat_byte) simp
    have y: "y mod 64 < 64" by simp
    have "second_ok (0xE0 + x) (0x80 + y mod 64)"
    proof -
      have "0x20 \<le> y" using 3 by (simp add: y_def div_le_mono)
      then have "x = 0 \<longrightarrow> 0x20 \<le> y mod 64" using xy(1) by auto
      moreover have "x = 13 \<longrightarrow> y mod 64 < 0x20"
      proof
        assume "x = 13"
        then have "n < 13 * 4096 + 4096" "13 * 4096 \<le> n" using div_mult_mod_eq [of n 4096] mod_less_divisor [of 4096 n] by (auto simp: x_def)
        then have "n < 0xD800" using assms by (auto simp: scalar_def)
        then have "y < 0x360" by (simp add: y_def less_mult_imp_div_less)
        then show "y mod 64 < 0x20" using xy(1) \<open>x = 13\<close> by linarith
      qed
      ultimately show ?thesis using x y by (auto simp: second_ok_def)
    qed
    moreover have "utf8 n = [byte (0xE0 + x), byte (0x80 + y mod 64), byte (0x80 + n mod 64)]" using 3 by (simp add: utf8_def x_def y_def)
    ultimately show ?thesis using next_three [of "byte (0xE0 + x)"] x xy by (simp add: b trail_byte)
  next
    case 4
    define x y z where "x = n div 262144" and "y = n div 4096" and "z = n div 64"
    have x: "x \<le> 4" using 4 by (auto simp: x_def dest: div_le_mono [of n "0x10FFFF" 262144])
    have xy: "x * 64 + y mod 64 = y" "y * 64 + z mod 64 = z" "z * 64 + n mod 64 = n" unfolding x_def y_def z_def by (rule digits64)+
    have b: "unat (byte (0xF0 + x)) = 0xF0 + x" using x by (intro unat_byte) simp
    have y: "y mod 64 < 64" by simp
    have "second_ok (0xF0 + x) (0x80 + y mod 64)"
    proof -
      have "0x10 \<le> y" "y \<le> 0x10F" using 4 div_le_mono [of n "0x10FFFF" 4096] by (simp_all add: y_def div_le_mono)
      then have "x = 0 \<longrightarrow> 0x10 \<le> y mod 64" "x = 4 \<longrightarrow> y mod 64 < 0x10" using xy(1) by auto
      then show ?thesis using x y by (auto simp: second_ok_def)
    qed
    moreover have "utf8 n = [byte (0xF0 + x), byte (0x80 + y mod 64), byte (0x80 + z mod 64), byte (0x80 + n mod 64)]"
      using 4 by (simp add: utf8_def x_def y_def z_def)
    ultimately show ?thesis using next_four [of "byte (0xF0 + x)"] x xy by (simp add: b trail_byte)
  qed
qed

text \<open>Conversely a sequence that is accepted is the encoding of what it gives.\<close>

lemma base64: "(y :: nat) < 64 \<Longrightarrow> (x * 64 + y) div 64 = x \<and> (x * 64 + y) mod 64 = y"
  by simp

lemma trailE: "trail u \<Longrightarrow> (\<And>y. y < 64 \<Longrightarrow> unat u = 0x80 + y \<Longrightarrow> u = byte (0x80 + y) \<Longrightarrow> thesis) \<Longrightarrow> thesis"
proof -
  assume "trail u" and E: "\<And>y. y < 64 \<Longrightarrow> unat u = 0x80 + y \<Longrightarrow> u = byte (0x80 + y) \<Longrightarrow> thesis"
  then have "unat u - 0x80 < 64" "unat u = 0x80 + (unat u - 0x80)" by (auto simp: trail_def)
  then show thesis using E byte_unat by metis
qed

lemma accepted_two:
  assumes "0xC2 \<le> unat b" and "unat b < 0xE0" and "trail u"
  shows "\<exists>n. scalar n \<and> n = (unat b - 0xC0) * 64 + (unat u - 0x80) \<and> [b, u] = utf8 n"
proof -
  obtain y where y: "y < 64" "unat u = 0x80 + y" "u = byte (0x80 + y)" using assms(3) by (rule trailE)
  define x where "x = unat b - 0xC0"
  have x: "unat b = 0xC0 + x" "2 \<le> x" "x < 32" using assms by (auto simp: x_def)
  then have b: "b = byte (0xC0 + x)" by (metis byte_unat)
  have n: "0x80 \<le> x * 64 + y" "x * 64 + y < 0x800" using x y by simp_all
  have "[b, u] = utf8 (x * 64 + y)" using n base64 [OF y(1), of x] by (simp add: utf8_def b y(3))
  moreover have "scalar (x * 64 + y)" using n by (simp add: scalar_def)
  ultimately show ?thesis using y(2) by (auto simp: x_def)
qed

lemma accepted_three:
  assumes "0xE0 \<le> unat b" and "unat b < 0xF0" and "second_ok (unat b) (unat u)" and "trail v"
  shows "\<exists>n. scalar n \<and> n = ((unat b - 0xE0) * 64 + (unat u - 0x80)) * 64 + (unat v - 0x80) \<and> [b, u, v] = utf8 n"
proof -
  have "trail u" using second_ok_trail [OF assms(3)] by (simp add: trail_def)
  then obtain y where y: "y < 64" "unat u = 0x80 + y" "u = byte (0x80 + y)" by (rule trailE)
  obtain z where z: "z < 64" "unat v = 0x80 + z" "v = byte (0x80 + z)" using assms(4) by (rule trailE)
  define x where "x = unat b - 0xE0"
  have x: "unat b = 0xE0 + x" "x < 16" using assms by (auto simp: x_def)
  then have b: "b = byte (0xE0 + x)" by (metis byte_unat)
  define m where "m = x * 64 + y"
  have second: "x = 0 \<longrightarrow> 0x20 \<le> y" "x = 13 \<longrightarrow> y < 0x20" using assms(3) x y(2) by (auto simp: second_ok_def split: if_splits)
  consider "x \<le> 12" | "x = 13" | "14 \<le> x" by linarith
  then have gap: "m < 0x360 \<or> 0x380 \<le> m" using second(2) y(1) unfolding m_def by cases linarith+
  have m: "0x20 \<le> m" "m < 0x400" using second(1) x y by (auto simp: m_def)
  then have n: "0x800 \<le> m * 64 + z" "m * 64 + z < 0x10000" "scalar (m * 64 + z)" using z gap by (auto simp: scalar_def)
  have d: "(m * 64 + z) div 64 = m" "(m * 64 + z) mod 64 = z" "m div 64 = x" "m mod 64 = y"
    using base64 [OF z(1), of m] base64 [OF y(1), of x] by (simp_all add: m_def)
  have "(m * 64 + z) div 4096 = x" using d(1,3) div_mult2_eq [of "m * 64 + z" 64 64] by simp
  then have "[b, u, v] = utf8 (m * 64 + z)" using n d by (simp add: utf8_def b y(3) z(3))
  then show ?thesis using n(3) y(2) z(2) by (auto simp: m_def x_def)
qed

lemma accepted_four:
  assumes "0xF0 \<le> unat b" and "unat b \<le> 0xF4" and "second_ok (unat b) (unat u)" and "trail v" and "trail w"
  shows "\<exists>n. scalar n \<and> n = (((unat b - 0xF0) * 64 + (unat u - 0x80)) * 64 + (unat v - 0x80)) * 64 + (unat w - 0x80) \<and> [b, u, v, w] = utf8 n"
proof -
  have "trail u" using second_ok_trail [OF assms(3)] by (simp add: trail_def)
  then obtain y where y: "y < 64" "unat u = 0x80 + y" "u = byte (0x80 + y)" by (rule trailE)
  obtain z where z: "z < 64" "unat v = 0x80 + z" "v = byte (0x80 + z)" using assms(4) by (rule trailE)
  obtain t where t: "t < 64" "unat w = 0x80 + t" "w = byte (0x80 + t)" using assms(5) by (rule trailE)
  define x where "x = unat b - 0xF0"
  have x: "unat b = 0xF0 + x" "x \<le> 4" using assms by (auto simp: x_def)
  then have b: "b = byte (0xF0 + x)" by (metis byte_unat)
  define m where "m = x * 64 + y"
  define k where "k = m * 64 + z"
  have second: "x = 0 \<longrightarrow> 0x10 \<le> y" "x = 4 \<longrightarrow> y < 0x10" using assms(3) x y(2) by (auto simp: second_ok_def split: if_splits)
  have m: "0x10 \<le> m" "m < 0x110" using second x y by (auto simp: m_def)
  then have n: "0x10000 \<le> k * 64 + t" "k * 64 + t \<le> 0x10FFFF" using z t by (auto simp: k_def)
  then have sc: "scalar (k * 64 + t)" by (simp add: scalar_def)
  have d: "(k * 64 + t) div 64 = k" "(k * 64 + t) mod 64 = t" "k div 64 = m" "k mod 64 = z" "m div 64 = x" "m mod 64 = y"
    using base64 [OF t(1), of k] base64 [OF z(1), of m] base64 [OF y(1), of x] by (simp_all add: m_def k_def)
  have d2: "(k * 64 + t) div 4096 = m" using d(1,3) div_mult2_eq [of "k * 64 + t" 64 64] by simp
  then have "(k * 64 + t) div 262144 = x" using d(5) div_mult2_eq [of "k * 64 + t" 4096 64] by simp
  then have "[b, u, v, w] = utf8 (k * 64 + t)" using n d d2 by (simp add: utf8_def b y(3) z(3) t(3))
  then show ?thesis using sc y(2) z(2) t(2) by (auto simp: m_def k_def x_def)
qed

lemma next_accepts:
  assumes "CBU8_NEXT s = Inr (c, rest)"
  shows "length rest < length s \<and> (c = CBU_SENTINEL \<or> (\<exists>n. scalar n \<and> c = point n \<and> s = utf8 n @ rest))"
proof (cases s)
  case (Cons b r)
  consider "unat b < 0x80" | "0x80 \<le> unat b" "unat b < 0xC2" | "0xC2 \<le> unat b" "unat b < 0xE0"
    | "0xE0 \<le> unat b" "unat b < 0xF0" | "0xF0 \<le> unat b" by linarith
  then show ?thesis
  proof cases
    case 1
    have "scalar (unat b)" "[b] = utf8 (unat b)" using 1 by (simp_all add: scalar_def utf8_def byte_unat)
    then show ?thesis using assms next_single [OF 1, of r] by (auto simp: Cons)
  next
    case 2
    then show ?thesis using assms next_bad [OF 2, of r] by (simp add: Cons)
  next
    case 3
    show ?thesis
    proof (cases r)
      case Nil
      then show ?thesis using assms 3 next_short [of b] by (simp add: Cons)
    next
      case c: (Cons u r')
      show ?thesis using assms next_two [OF 3, of u r'] accepted_two [OF 3, of u]
        by (auto simp: Cons c simp del: CBU8_NEXT.simps split: if_splits)
    qed
  next
    case 4
    show ?thesis
    proof (cases r)
      case Nil
      then show ?thesis using assms 4 next_short [of b] by (simp add: Cons)
    next
      case c: (Cons u r')
      show ?thesis using assms next_three [OF 4, of u r'] accepted_three [OF 4, of u]
        by (fastforce simp: Cons c simp del: CBU8_NEXT.simps split: if_splits list.splits)
    qed
  next
    case 5
    show ?thesis
    proof (cases r)
      case Nil
      then show ?thesis using assms 5 next_short [of b] by (simp add: Cons)
    next
      case c: (Cons u r')
      show ?thesis using assms next_four [OF 5, of u r'] accepted_four [OF 5, of u]
        by (fastforce simp: Cons c simp del: CBU8_NEXT.simps split: if_splits list.splits)
    qed
  qed
qed (use assms in simp)

end
