(* ===== verification/Ascii_Check.thy ===== *)
theory Ascii_Check
  imports Unicode
begin

text \<open>
  \<open>DoIsStringASCII\<close> of \<open>text/code_point_validation.h\<close>, which reads machine words on a 64-bit
  little-endian target, for characters of 8, 16 and 32 bits. The result is that it decides whether every
  character is below 128, whatever the address of the string.
\<close>

section \<open>The ASCII check\<close>

text \<open>
  A machine word read from the characters \<open>cs\<close>, the first in its lowest bits; \<open>w\<close> is the width of a
  character. A single character is widened by \<open>ext\<close>, with or without its sign.
\<close>

definition machine_word :: "'a::len word list \<Rightarrow> u64" where
  "machine_word cs = foldr (\<lambda>c acc. push_bit LENGTH('a) acc OR ucast c) cs 0"

definition NonASCIIMask :: "nat \<Rightarrow> u64" where
  "NonASCIIMask bytes = [0, 0x8080808080808080, 0xFF80FF80FF80FF80, 0, 0xFFFFFF80FFFFFF80] ! bytes"

fun or_chars :: "('a \<Rightarrow> u64) \<Rightarrow> 'a list \<Rightarrow> u64 \<Rightarrow> u64" where
  "or_chars ext [] bits = bits"
| "or_chars ext (c # s) bits = or_chars ext s (bits OR ext c)"

text \<open>The prologue up to an aligned address; \<open>bytes\<close> is the size of a character.\<close>

fun align_loop :: "('a \<Rightarrow> u64) \<Rightarrow> nat \<Rightarrow> nat \<Rightarrow> 'a list \<Rightarrow> u64 \<Rightarrow> u64 \<times> 'a list" where
  "align_loop ext bytes addr [] bits = (bits, [])"
| "align_loop ext bytes addr (c # s) bits =
     (if addr mod 8 \<noteq> 0 then align_loop ext bytes (addr + bytes) s (bits OR ext c) else (bits, c # s))"

text \<open>\<open>count\<close> words of \<open>per\<close> characters each.\<close>

fun or_words :: "nat \<Rightarrow> nat \<Rightarrow> 'a::len word list \<Rightarrow> u64 \<Rightarrow> u64 \<times> 'a word list" where
  "or_words per 0 s bits = (bits, s)"
| "or_words per (Suc count) s bits = or_words per count (drop per s) (bits OR machine_word (take per s))"

lemma or_words_rest: "snd (or_words per count s bits) = drop (count * per) s"
  by (induction per count s bits rule: or_words.induct) (simp_all add: add.commute)

lemma or_words_length: "or_words per count s bits = (x, y) \<Longrightarrow> length y = length s - count * per"
  by (metis or_words_rest snd_conv length_drop)

function batch_loop :: "nat \<Rightarrow> u64 \<Rightarrow> 'a::len word list \<Rightarrow> 'a word list option" where
  "batch_loop per non_ascii s =
     (if 0 < per \<and> 16 * per \<le> length s then
        (let (bits, s) = or_words per 16 s 0 in if bits AND non_ascii \<noteq> 0 then None else batch_loop per non_ascii s)
      else Some s)"
  by auto

termination by (relation "measure (\<lambda>(per, m, s). length s)") (auto dest!: or_words_length [OF sym])

declare batch_loop.simps [simp del]

function word_loop :: "nat \<Rightarrow> 'a::len word list \<Rightarrow> u64 \<Rightarrow> u64 \<times> 'a word list" where
  "word_loop per s bits = (if 0 < per \<and> per \<le> length s then word_loop per (drop per s) (bits OR machine_word (take per s)) else (bits, s))"
  by auto

termination by (relation "measure (\<lambda>(per, s, bits). length s)") auto

declare word_loop.simps [simp del]

definition DoIsStringASCII :: "('a::len word \<Rightarrow> u64) \<Rightarrow> nat \<Rightarrow> 'a word list \<Rightarrow> bool" where
  "DoIsStringASCII ext addr s =
     (if s = [] then True
      else let bytes = LENGTH('a) div 8; non_ascii = NonASCIIMask bytes; per = 8 div bytes;
               (bits, s) = align_loop ext bytes addr s 0
           in if bits AND non_ascii \<noteq> 0 then False
              else case batch_loop per non_ascii s of
                None \<Rightarrow> False
              | Some s \<Rightarrow> let (bits, s) = word_loop per s 0; bits = or_chars ext s bits in bits AND non_ascii = 0)"

text \<open>What the check means: every character is below 128.\<close>

definition ascii :: "'a::len word \<Rightarrow> bool" where
  "ascii c \<longleftrightarrow> unat c < 128"

definition char_width :: "nat \<Rightarrow> bool" where
  "char_width w \<longleftrightarrow> w = 8 \<or> w = 16 \<or> w = 32"

lemma mask_bits:
  assumes "char_width w" and "i < 64"
  shows "bit (NonASCIIMask (w div 8)) i \<longleftrightarrow> 7 \<le> i mod w"
proof -
  have "\<forall>i \<in> set [0..<64]. bit (NonASCIIMask 1) i \<longleftrightarrow> 7 \<le> i mod 8" by code_simp
  moreover have "\<forall>i \<in> set [0..<64]. bit (NonASCIIMask 2) i \<longleftrightarrow> 7 \<le> i mod 16" by code_simp
  moreover have "\<forall>i \<in> set [0..<64]. bit (NonASCIIMask 4) i \<longleftrightarrow> 7 \<le> i mod 32" by code_simp
  ultimately show ?thesis using assms by (auto simp: char_width_def)
qed

lemma and_zero_bits: "(x :: u64) AND m = 0 \<longleftrightarrow> (\<forall>i < 64. bit m i \<longrightarrow> \<not> bit x i)"
  by (auto simp: bit_eq_iff bit_and_iff dest: bit_imp_le_length)

lemma or_and_zero: "((x :: u64) OR y) AND m = 0 \<longleftrightarrow> x AND m = 0 \<and> y AND m = 0"
  by (auto simp: and_zero_bits bit_or_iff)

lemma ascii_bits: "ascii (c :: 'a::len word) \<longleftrightarrow> (\<forall>j < LENGTH('a). 7 \<le> j \<longrightarrow> \<not> bit c j)"
proof -
  have "ascii c \<longleftrightarrow> unat c div 2 ^ 7 = 0" by (auto simp: ascii_def)
  also have "\<dots> \<longleftrightarrow> drop_bit 7 c = 0" by (metis unat_eq_zero unat_shift_right)
  also have "\<dots> \<longleftrightarrow> (\<forall>j. \<not> bit c (7 + j))" 
    by (auto simp: bit_eq_iff bit_drop_bit_eq) (metis add_lessD1 add.commute bit_imp_le_length)
  also have "\<dots> \<longleftrightarrow> (\<forall>j < LENGTH('a). 7 \<le> j \<longrightarrow> \<not> bit c j)"
    by (metis bit_imp_le_length le_iff_add)
  finally show ?thesis .
qed

lemma machine_word_bit:
  "i < 64 \<Longrightarrow> bit (machine_word (cs :: 'a::len word list)) i \<longleftrightarrow> i div LENGTH('a) < length cs \<and> bit (cs ! (i div LENGTH('a))) (i mod LENGTH('a))"
proof (induction cs arbitrary: i)
  case Nil
  then show ?case by (simp add: machine_word_def)
next
  case (Cons c cs)
  have "bit (machine_word (c # cs)) i \<longleftrightarrow> (LENGTH('a) \<le> i \<and> bit (machine_word cs) (i - LENGTH('a))) \<or> bit c i"
    using Cons.prems by (auto simp: machine_word_def bit_or_iff bit_push_bit_iff bit_ucast_iff)
  also have "\<dots> \<longleftrightarrow> i div LENGTH('a) < length (c # cs) \<and> bit ((c # cs) ! (i div LENGTH('a))) (i mod LENGTH('a))"
  proof (cases "i < LENGTH('a)")
    case False
    then have "i div LENGTH('a) = Suc ((i - LENGTH('a)) div LENGTH('a))" "i mod LENGTH('a) = (i - LENGTH('a)) mod LENGTH('a)"
      by (simp_all add: le_div_geq le_mod_geq)
    moreover have "\<not> bit c i" using False bit_imp_le_length by auto
    ultimately show ?thesis using Cons.IH [of "i - LENGTH('a)"] Cons.prems False by simp
  qed simp
  finally show ?case .
qed

text \<open>Widening keeps what the mask sees, with or without the sign.\<close>

definition widens :: "('a::len word \<Rightarrow> u64) \<Rightarrow> bool" where
  "widens ext \<longleftrightarrow> (\<forall>c. ext c AND NonASCIIMask (LENGTH('a) div 8) = 0 \<longleftrightarrow> ascii c)"

lemma word_ascii:
  assumes "char_width LENGTH('a::len)" and "length (cs :: 'a word list) * LENGTH('a) = 64"
  shows "machine_word cs AND NonASCIIMask (LENGTH('a) div 8) = 0 \<longleftrightarrow> list_all ascii cs"
proof -
  have pos: "0 < LENGTH('a)" by simp
  have "machine_word cs AND NonASCIIMask (LENGTH('a) div 8) = 0 \<longleftrightarrow>
      (\<forall>i < 64. 7 \<le> i mod LENGTH('a) \<longrightarrow> \<not> bit (cs ! (i div LENGTH('a))) (i mod LENGTH('a)))"
    unfolding and_zero_bits using assms(2)
    by (auto simp: mask_bits [OF assms(1)] machine_word_bit less_mult_imp_div_less)
  also have "\<dots> \<longleftrightarrow> (\<forall>k < length cs. \<forall>j < LENGTH('a). 7 \<le> j \<longrightarrow> \<not> bit (cs ! k) j)"
  proof (intro iffI allI impI)
    fix k j assume A: "\<forall>i < 64. 7 \<le> i mod LENGTH('a) \<longrightarrow> \<not> bit (cs ! (i div LENGTH('a))) (i mod LENGTH('a))"
      and kj: "k < length cs" "j < LENGTH('a)" "7 \<le> j"
    have "k * LENGTH('a) + j < Suc k * LENGTH('a)" using kj by simp
    also have "\<dots> \<le> length cs * LENGTH('a)" using kj by (intro mult_le_mono1) simp
    finally have "k * LENGTH('a) + j < 64" using assms(2) by simp
    moreover have "(k * LENGTH('a) + j) mod LENGTH('a) = j" "(k * LENGTH('a) + j) div LENGTH('a) = k" using kj(2) by simp_all
    ultimately show "\<not> bit (cs ! k) j" using A kj(3) by metis
  next
    fix i :: nat assume "\<forall>k < length cs. \<forall>j < LENGTH('a). 7 \<le> j \<longrightarrow> \<not> bit (cs ! k) j" "i < 64" "7 \<le> i mod LENGTH('a)"
    then show "\<not> bit (cs ! (i div LENGTH('a))) (i mod LENGTH('a))"
      using assms(2) less_mult_imp_div_less [of i "length cs" "LENGTH('a)"] by simp
  qed
  also have "\<dots> \<longleftrightarrow> list_all ascii cs" by (simp add: list_all_length ascii_bits)
  finally show ?thesis .
qed

lemma widens_by_bits:
  assumes "char_width LENGTH('a::len)"
    and "\<And>(c :: 'a word) i. i < 64 \<Longrightarrow> bit (ext c :: u64) i \<longleftrightarrow> bit c (if i < LENGTH('a) then i else n)" and "n = LENGTH('a) - 1 \<or> n = LENGTH('a)"
  shows "widens ext"
  unfolding widens_def and_zero_bits ascii_bits
proof (intro allI iffI impI)
  fix c :: "'a word" and j
  assume A: "\<forall>i < 64. bit (NonASCIIMask (LENGTH('a) div 8)) i \<longrightarrow> \<not> bit (ext c) i" and j: "j < LENGTH('a)" "7 \<le> j"
  have "j < 64" using j(1) assms(1) by (auto simp: char_width_def)
  then show "\<not> bit c j" using A [rule_format, of j] j by (simp add: mask_bits [OF assms(1)] assms(2))
next
  fix c :: "'a word" and i :: nat
  assume A: "\<forall>j < LENGTH('a). 7 \<le> j \<longrightarrow> \<not> bit c j" and i: "i < 64" "bit (NonASCIIMask (LENGTH('a) div 8)) i"
  have m: "7 \<le> i mod LENGTH('a)" using i by (simp add: mask_bits [OF assms(1)])
  have "\<not> bit c n" using A assms(1,3) bit_imp_le_length [of c n] by (auto simp: char_width_def)
  show "\<not> bit (ext c) i"
  proof (cases "i < LENGTH('a)")
    case True
    then show ?thesis using A m i(1) by (simp add: assms(2))
  next
    case False
    then show ?thesis using \<open>\<not> bit c n\<close> i(1) by (simp add: assms(2))
  qed
qed

lemma widens_ucast:
  assumes "char_width LENGTH('a::len)"
  shows "widens (ucast :: 'a word \<Rightarrow> u64)"
proof (rule widens_by_bits [OF assms, where n = "LENGTH('a)"])
  fix c :: "'a word" and i :: nat assume "i < 64"
  then show "bit (ucast c :: u64) i \<longleftrightarrow> bit c (if i < LENGTH('a) then i else LENGTH('a))"
    using bit_imp_le_length [of c i] bit_imp_le_length [of c "LENGTH('a)"] by (auto simp: bit_ucast_iff)
qed simp

lemma widens_scast:
  assumes "char_width LENGTH('a::len)"
  shows "widens (scast :: 'a word \<Rightarrow> u64)"
proof (rule widens_by_bits [OF assms, where n = "LENGTH('a) - 1"])
  fix c :: "'a word" and i :: nat assume "i < 64"
  then show "bit (scast c :: u64) i \<longleftrightarrow> bit c (if i < LENGTH('a) then i else LENGTH('a) - 1)"
    by (cases "i = LENGTH('a) - 1") (auto simp: bit_signed_iff min_def)
qed simp

lemma or_chars_ascii:
  assumes "widens ext"
  shows "or_chars ext (s :: 'a::len word list) bits AND NonASCIIMask (LENGTH('a) div 8) = 0 \<longleftrightarrow>
    bits AND NonASCIIMask (LENGTH('a) div 8) = 0 \<and> list_all ascii s"
proof (induction s arbitrary: bits)
  case (Cons c s)
  then show ?case using assms by (simp add: or_and_zero widens_def)
qed simp

lemma align_loop_ascii:
  assumes "widens ext" and "align_loop ext bytes addr (s :: 'a::len word list) bits = (b, r)"
  shows "\<exists>k. r = drop k s \<and> (b AND NonASCIIMask (LENGTH('a) div 8) = 0 \<longleftrightarrow> bits AND NonASCIIMask (LENGTH('a) div 8) = 0 \<and> list_all ascii (take k s))"
  using assms(2,1)
proof (induction ext bytes addr s bits rule: align_loop.induct)
  case (2 ext bytes addr c s bits)
  show ?case
  proof (cases "addr mod 8 \<noteq> 0")
    case True
    then obtain k where "r = drop k s" "b AND NonASCIIMask (LENGTH('a) div 8) = 0 \<longleftrightarrow>
        (bits OR ext c) AND NonASCIIMask (LENGTH('a) div 8) = 0 \<and> list_all ascii (take k s)"
      using 2 by auto
    then show ?thesis using 2(3) by (intro exI [of _ "Suc k"]) (simp add: or_and_zero widens_def)
  next
    case False
    then show ?thesis using 2(2) by (intro exI [of _ 0]) simp
  qed
qed auto

lemma or_words_ascii:
  assumes "char_width LENGTH('a::len)" and "per * LENGTH('a) = 64" and "count * per \<le> length s"
  shows "fst (or_words per count (s :: 'a word list) bits) AND NonASCIIMask (LENGTH('a) div 8) = 0 \<longleftrightarrow>
    bits AND NonASCIIMask (LENGTH('a) div 8) = 0 \<and> list_all ascii (take (count * per) s)"
  using assms(2,3)
proof (induction per count s bits rule: or_words.induct)
  case (2 per count s bits)
  have "length (take per s) * LENGTH('a) = 64" using 2(2,3) by simp
  moreover have "take (Suc count * per) s = take per s @ take (count * per) (drop per s)" by (simp add: take_add)
  ultimately show ?case using 2 by (simp add: or_and_zero word_ascii [OF assms(1)])
qed simp

lemma batch_loop_ascii:
  assumes "char_width LENGTH('a::len)" and "per * LENGTH('a) = 64" and "m = NonASCIIMask (LENGTH('a) div 8)"
  shows "case batch_loop per m (s :: 'a word list) of None \<Rightarrow> \<not> list_all ascii s | Some r \<Rightarrow> \<exists>k. r = drop k s \<and> list_all ascii (take k s)"
  using assms(2,3)
proof (induction per m s rule: batch_loop.induct)
  case (1 per m s)
  show ?case
  proof (cases "0 < per \<and> 16 * per \<le> length s")
    case True
    obtain bits r where W: "or_words per 16 s 0 = (bits, r)" by (cases "or_words per 16 s 0")
    have r: "r = drop (16 * per) s" using or_words_rest [of per 16 s 0] W by simp
    have b: "bits AND m = 0 \<longleftrightarrow> list_all ascii (take (16 * per) s)"
      using or_words_ascii [OF assms(1) 1(2), of 16 s 0] W True 1(3) by simp
    have split: "list_all ascii s \<longleftrightarrow> list_all ascii (take (16 * per) s) \<and> list_all ascii r"
      unfolding r by (metis append_take_drop_id list_all_append)
    show ?thesis
    proof (cases "bits AND m = 0")
      case z: True
      have IH: "case batch_loop per m r of None \<Rightarrow> \<not> list_all ascii r | Some r' \<Rightarrow> \<exists>k. r' = drop k r \<and> list_all ascii (take k r)"
        using 1 True W z by simp
      have "batch_loop per m s = batch_loop per m r" using True W z by (subst batch_loop.simps) simp
      moreover have "\<exists>k. drop j r = drop k s \<and> list_all ascii (take k s)" if "list_all ascii (take j r)" for j
        using that z b by (intro exI [of _ "16 * per + j"]) (simp add: r take_add add.commute [of j])
      ultimately show ?thesis using IH split by (auto split: option.splits)
    next
      case False
      then have "batch_loop per m s = None" using True W by (subst batch_loop.simps) simp
      then show ?thesis using False b split by simp
    qed
  next
    case False
    then have "batch_loop per m s = Some s" by (subst batch_loop.simps) auto
    then show ?thesis by (auto intro: exI [of _ 0])
  qed
qed

lemma word_loop_ascii:
  assumes "char_width LENGTH('a::len)" and "per * LENGTH('a) = 64" and "word_loop per (s :: 'a word list) bits = (b, r)"
  shows "\<exists>k. r = drop k s \<and> (b AND NonASCIIMask (LENGTH('a) div 8) = 0 \<longleftrightarrow> bits AND NonASCIIMask (LENGTH('a) div 8) = 0 \<and> list_all ascii (take k s))"
  using assms(2,3)
proof (induction per s bits rule: word_loop.induct)
  case (1 per s bits)
  show ?case
  proof (cases "0 < per \<and> per \<le> length s")
    case True
    have "word_loop per (drop per s) (bits OR machine_word (take per s)) = (b, r)"
      using 1(3) True by (subst (asm) word_loop.simps) simp
    then obtain k where k: "r = drop k (drop per s)" "b AND NonASCIIMask (LENGTH('a) div 8) = 0 \<longleftrightarrow>
        (bits OR machine_word (take per s)) AND NonASCIIMask (LENGTH('a) div 8) = 0 \<and> list_all ascii (take k (drop per s))"
      using 1(1) [OF True 1(2)] by blast
    have "length (take per s) * LENGTH('a) = 64" using 1(2) True by simp
    from word_ascii [OF assms(1) this] show ?thesis
      using k by (intro exI [of _ "per + k"]) (simp add: or_and_zero take_add add.commute [of k])
  next
    case False
    then have "word_loop per s bits = (bits, s)" by (subst word_loop.simps) auto
    then show ?thesis using 1(3) by (intro exI [of _ 0]) simp
  qed
qed

lemma DoIsStringASCII_eq:
  assumes "char_width LENGTH('a::len)" and "widens ext"
  shows "DoIsStringASCII ext addr (s :: 'a word list) \<longleftrightarrow> list_all ascii s"
proof (cases "s = []")
  case False
  define m where "m = NonASCIIMask (LENGTH('a) div 8)"
  define per where "per = 8 div (LENGTH('a) div 8)"
  have per: "per * LENGTH('a) = 64" using assms(1) by (auto simp: per_def char_width_def)
  have split: "list_all ascii s \<longleftrightarrow> list_all ascii (take k s) \<and> list_all ascii (drop k s)" for k and s :: "'a word list"
    by (metis append_take_drop_id list_all_append)
  obtain b1 s1 where A: "align_loop ext (LENGTH('a) div 8) addr s 0 = (b1, s1)" by fastforce
  obtain k where k: "s1 = drop k s" "b1 AND m = 0 \<longleftrightarrow> list_all ascii (take k s)"
    using align_loop_ascii [OF assms(2) A] by (auto simp: m_def)
  note B = batch_loop_ascii [OF assms(1) per m_def, of s1]
  show ?thesis
  proof (cases "b1 AND m = 0")
    case z: True
    show ?thesis
    proof (cases "batch_loop per m s1")
      case None
      then have "\<not> list_all ascii s1" using B by simp
      then show ?thesis using A z None False split [of s k] k
        by (simp add: DoIsStringASCII_def Let_def m_def [symmetric] per_def [symmetric])
    next
      case (Some s2)
      obtain j where j: "s2 = drop j s1" "list_all ascii (take j s1)" using B Some by auto
      obtain b3 s3 where W: "word_loop per s2 0 = (b3, s3)" by fastforce
      obtain i where i: "s3 = drop i s2" "b3 AND m = 0 \<longleftrightarrow> list_all ascii (take i s2)"
        using word_loop_ascii [OF assms(1) per W] by (auto simp: m_def)
      have "DoIsStringASCII ext addr s \<longleftrightarrow> or_chars ext s3 b3 AND m = 0"
        using A z Some W False by (simp add: DoIsStringASCII_def Let_def m_def [symmetric] per_def [symmetric])
      also have "\<dots> \<longleftrightarrow> list_all ascii (take i s2) \<and> list_all ascii s3"
        using or_chars_ascii [OF assms(2), of s3 b3] i(2) by (simp add: m_def)
      finally show ?thesis using split [of s k] split [of s1 j] split [of s2 i] k j i z by blast
    qed
  next
    case False
    then show ?thesis using A \<open>s \<noteq> []\<close> split [of s k] k
      by (simp add: DoIsStringASCII_def Let_def m_def [symmetric] per_def [symmetric])
  qed
qed (simp add: DoIsStringASCII_def)

text \<open>
  (C17) The word-wise ASCII check says whether every character is below 128, for strings of \<open>char\<close>, which is
  widened with its sign, \<open>char8_t\<close>, \<open>char16_t\<close> and \<open>wchar_t\<close> at any address.
\<close>

theorem ascii_check_exact:
  "(DoIsStringASCII scast addr (s :: u8 list) \<longleftrightarrow> list_all ascii s)
   \<and> (DoIsStringASCII ucast addr (s :: u8 list) \<longleftrightarrow> list_all ascii s)
   \<and> (DoIsStringASCII ucast addr (t :: u16 list) \<longleftrightarrow> list_all ascii t)
   \<and> (DoIsStringASCII scast addr (w :: u32 list) \<longleftrightarrow> list_all ascii w)"
  by (simp add: DoIsStringASCII_eq widens_ucast widens_scast char_width_def)

end
