(* ===== verification/Unicode_Convert.thy ===== *)
theory Unicode_Convert
  imports Unicode Ascii_Check
begin

text \<open>
  The conversions of \<open>text/code_convert.cc\<close> between UTF-8, UTF-16 and UTF-32, which a wide string holds
  on Linux. The destination string is resized to a bound on the output, \<open>cap\<close> units, written from its
  start and cut to what was written; the model keeps the units written. Sizes inside a decoder are 32-bit
  signed integers. The sources of a conversion are views, at most \<open>2 ^ 32 - 1\<close> units long; where a length
  cast to 32 bits is exactly \<open>- (2 ^ 31)\<close> the decrement in \<open>DecodeUtf16\<close> is a further overflow, not shown.
\<close>

unbundle bit_operations_syntax

definition kErrorCodePoint :: "u32" where "kErrorCodePoint = 0xFFFD"

section \<open>The decoders\<close>

text \<open>The three overloads of \<open>UnicodeAppendUnsafe\<close> give the units of a code point; \<open>put_units\<close> stores them.\<close>

definition UnicodeAppendUnsafe8 :: "u32 \<Rightarrow> u8 list" where "UnicodeAppendUnsafe8 c = CBU8_APPEND_UNSAFE c"
definition UnicodeAppendUnsafe16 :: "u32 \<Rightarrow> u16 list" where "UnicodeAppendUnsafe16 c = CBU16_APPEND_UNSAFE c"
definition UnicodeAppendUnsafe32 :: "u32 \<Rightarrow> u32 list" where "UnicodeAppendUnsafe32 c = [c]"

definition put_units :: "nat \<Rightarrow> 'd list \<Rightarrow> 'd list \<Rightarrow> 'd list res" where
  "put_units cap us out = bindE (ensure (length out + length us \<le> cap) OutOfBounds) (\<lambda>_.
     bindE (ensure (length out + length us < 2 ^ 31) SignedOverflow) (\<lambda>_. Inr (out @ us)))"

lemma next_shorter: "CBU8_NEXT (b # s) = Inr (c, rest) \<Longrightarrow> length rest < Suc (length s)"
  using next_accepts [of "b # s" c rest] by simp

lemma next_defined: "\<exists>c rest. CBU8_NEXT (b # s) = Inr (c, rest)"
  by (auto simp: Let_def split: sum.splits)

function DecodeUtf8 :: "(u32 \<Rightarrow> 'd list) \<Rightarrow> nat \<Rightarrow> u8 list \<Rightarrow> bool \<Rightarrow> 'd list \<Rightarrow> (bool \<times> 'd list) res" where
  "DecodeUtf8 put cap [] ok out = Inr (ok, out)"
| "DecodeUtf8 put cap (b # s) ok out =
     bindE (CBU8_NEXT (b # s)) (\<lambda>(cp, rest).
       if IsValidCodepoint cp then bindE (put_units cap (put cp) out) (DecodeUtf8 put cap rest ok)
       else bindE (put_units cap (put kErrorCodePoint) out) (DecodeUtf8 put cap rest False))"
  by pat_completeness auto

termination by (relation "measure (\<lambda>(put, cap, s, ok, out). length s)") (auto simp del: CBU8_NEXT.simps dest: next_shorter)

text \<open>The loop ends before the last unit, which is then decoded alone.\<close>

fun DecodeUtf16 :: "(u32 \<Rightarrow> 'd list) \<Rightarrow> nat \<Rightarrow> u16 list \<Rightarrow> bool \<Rightarrow> 'd list \<Rightarrow> (bool \<times> 'd list) res" where
  "DecodeUtf16 put cap [] ok out = Inr (ok, out)"
| "DecodeUtf16 put cap [c] ok out =
     (if \<not> CBU16_IS_SINGLE (ucast c) \<or> \<not> IsValidCodepoint (ucast c) then
        bindE (put_units cap (put kErrorCodePoint) out) (\<lambda>out. Inr (False, out))
      else bindE (put_units cap (put (ucast c)) out) (\<lambda>out. Inr (ok, out)))"
| "DecodeUtf16 put cap (c # d # s) ok out =
     (if CBU16_IS_LEAD (ucast c) \<and> CBU16_IS_TRAIL (ucast d) then
        (let cp = CBU16_GET_SUPPLEMENTARY (ucast c) (ucast d)
         in if IsValidCodepoint cp then bindE (put_units cap (put cp) out) (DecodeUtf16 put cap s ok)
            else bindE (put_units cap (put kErrorCodePoint) out) (DecodeUtf16 put cap s False))
      else if \<not> CBU16_IS_SINGLE (ucast c) \<or> \<not> IsValidCodepoint (ucast c) then
        bindE (put_units cap (put kErrorCodePoint) out) (DecodeUtf16 put cap (d # s) False)
      else bindE (put_units cap (put (ucast c)) out) (DecodeUtf16 put cap (d # s) ok))"

fun DecodeUtf32 :: "(u32 \<Rightarrow> 'd list) \<Rightarrow> nat \<Rightarrow> u32 list \<Rightarrow> bool \<Rightarrow> 'd list \<Rightarrow> (bool \<times> 'd list) res" where
  "DecodeUtf32 put cap [] ok out = Inr (ok, out)"
| "DecodeUtf32 put cap (cp # s) ok out =
     (if IsValidCodepoint cp then bindE (put_units cap (put cp) out) (DecodeUtf32 put cap s ok)
      else bindE (put_units cap (put kErrorCodePoint) out) (DecodeUtf32 put cap s False))"

section \<open>The driver and the conversions\<close>

text \<open>
  \<open>Convert\<close> passes the length of the source as a 32-bit signed integer; a loop of a decoder does nothing
  when that is negative. \<open>ext\<close> widens a source character in the ASCII check and \<open>cast\<close> gives the
  destination character of an ASCII one. \<open>addr\<close> is the address of the source.
\<close>

definition int32_length :: "'s list \<Rightarrow> int" where
  "int32_length src = sint (of_nat (length src) :: u32)"

definition Convert :: "nat \<Rightarrow> ('s::len word \<Rightarrow> u64) \<Rightarrow> ('s word \<Rightarrow> 'd) \<Rightarrow> (nat \<Rightarrow> 's word list \<Rightarrow> bool \<Rightarrow> 'd list \<Rightarrow> (bool \<times> 'd list) res)
    \<Rightarrow> nat \<Rightarrow> 's word list \<Rightarrow> (bool \<times> 'd list) res" where
  "Convert size_coefficient ext cast decoder addr src =
     (if src = [] then Inr (True, [])
      else if DoIsStringASCII ext addr src then Inr (True, map cast src)
      else decoder (length src * size_coefficient) (take (nat (int32_length src)) src) True [])"

definition UTF8ToUTF16 :: "nat \<Rightarrow> u8 list \<Rightarrow> (bool \<times> u16 list) res" where
  "UTF8ToUTF16 = Convert 1 scast scast (DecodeUtf8 UnicodeAppendUnsafe16)"

definition UTF16ToUTF8 :: "nat \<Rightarrow> u16 list \<Rightarrow> (bool \<times> u8 list) res" where
  "UTF16ToUTF8 = Convert 3 ucast ucast (DecodeUtf16 UnicodeAppendUnsafe8)"

definition UTF8ToWide :: "nat \<Rightarrow> u8 list \<Rightarrow> (bool \<times> u32 list) res" where
  "UTF8ToWide = Convert 1 scast scast (DecodeUtf8 UnicodeAppendUnsafe32)"

definition UTF8ToWide_char8 :: "nat \<Rightarrow> u8 list \<Rightarrow> (bool \<times> u32 list) res" where
  "UTF8ToWide_char8 = Convert 1 ucast ucast (DecodeUtf8 UnicodeAppendUnsafe32)"

definition WideToUTF8 :: "nat \<Rightarrow> u32 list \<Rightarrow> (bool \<times> u8 list) res" where
  "WideToUTF8 = Convert 4 scast ucast (DecodeUtf32 UnicodeAppendUnsafe8)"

definition WideToUTF16 :: "nat \<Rightarrow> u32 list \<Rightarrow> (bool \<times> u16 list) res" where
  "WideToUTF16 = Convert 2 scast ucast (DecodeUtf32 UnicodeAppendUnsafe16)"

definition UTF16ToWide :: "nat \<Rightarrow> u16 list \<Rightarrow> (bool \<times> u32 list) res" where
  "UTF16ToWide = Convert 1 ucast ucast (DecodeUtf16 UnicodeAppendUnsafe32)"

text \<open>The overloads that return a string drop the flag.\<close>

definition returned_string :: "(nat \<Rightarrow> 's list \<Rightarrow> (bool \<times> 'd list) res) \<Rightarrow> nat \<Rightarrow> 's list \<Rightarrow> 'd list res" where
  "returned_string conv addr src = bindE (conv addr src) (\<lambda>(_, out). Inr out)"

definition ASCIIToWide :: "nat \<Rightarrow> u8 list \<Rightarrow> u32 list res" where
  "ASCIIToWide addr s = bindE (ensure (DoIsStringASCII scast addr s) (DCheck ''IsStringASCII(ascii)'')) (\<lambda>_. Inr (map ucast s))"

definition WideToASCII :: "nat \<Rightarrow> u32 list \<Rightarrow> u8 list res" where
  "WideToASCII addr s = bindE (ensure (DoIsStringASCII scast addr s) (BugCheck ''IsStringASCII(wide)'')) (\<lambda>_. Inr (map (\<lambda>c. ucast (c AND 0x7F)) s))"

section \<open>What a decoder does\<close>

text \<open>
  The contract the three share, \<open>utf\<close> giving the source units of a code point: encodings of scalar values
  are consumed one after the other, and anything else takes at least one unit, stores U+FFFD and clears
  the flag.
\<close>

definition replacement :: nat where "replacement = 0xFFFD"

lemma scalar_replacement: "scalar replacement" "point replacement = kErrorCodePoint"
  by (simp_all add: scalar_def replacement_def point_def kErrorCodePoint_def)

locale unicode_decoder =
  fixes decode :: "(u32 \<Rightarrow> 'd list) \<Rightarrow> nat \<Rightarrow> 's list \<Rightarrow> bool \<Rightarrow> 'd list \<Rightarrow> (bool \<times> 'd list) res"
    and utf :: "nat \<Rightarrow> 's list"
  assumes finish: "decode put cap [] ok out = Inr (ok, out)"
    and accept: "scalar n \<Longrightarrow> decode put cap (utf n @ s) ok out = bindE (put_units cap (put (point n)) out) (decode put cap s ok)"
    and reject: "s \<noteq> [] \<Longrightarrow> (\<exists>n r. scalar n \<and> s = utf n @ r) \<or> (\<exists>r. length r < length s \<and>
      (\<forall>put cap ok out. decode put cap s ok out = bindE (put_units cap (put kErrorCodePoint) out) (decode put cap r False)))"
    and utf_nonempty: "utf n \<noteq> []"
begin

text \<open>
  With a buffer of \<open>k\<close> units per source unit, which is enough for every code point, nothing is written out
  of bounds and the output is well formed.
\<close>

lemma decode_total:
  assumes "\<And>n. scalar n \<Longrightarrow> put (point n) = enc n" and "\<And>n. scalar n \<Longrightarrow> length (enc n) \<le> k * length (utf n)"
    and "length (enc replacement) \<le> k"
    and "length out + k * length s \<le> cap" and "length out + k * length s < 2 ^ 31"
  shows "\<exists>ps good. list_all scalar ps \<and> decode put cap s ok out = Inr (ok \<and> good, out @ concat (map enc ps))
    \<and> length (concat (map enc ps)) \<le> k * length s \<and> (good \<longrightarrow> s = concat (map utf ps))"
  using assms(4,5)
proof (induction "length s" arbitrary: s ok out rule: less_induct)
  case less
  show ?case
  proof (cases "s = []")
    case True
    then show ?thesis by (intro exI [of _ "[]"] exI [of _ True]) (simp add: finish)
  next
    case False
    from reject [OF this] show ?thesis
    proof (elim disjE exE conjE)
      fix n r assume n: "scalar n" and s: "s = utf n @ r"
      have e: "length (enc n) \<le> k * length (utf n)" by (rule assms(2) [OF n])
      have l: "k * length s = k * length (utf n) + k * length r" by (simp add: s distrib_left)
      have "length r < length s" using utf_nonempty [of n] by (simp add: s)
      moreover have "length (out @ enc n) + k * length r \<le> cap" "length (out @ enc n) + k * length r < 2 ^ 31"
        using less.prems e l by simp_all
      ultimately obtain ps good where IH: "list_all scalar ps" "decode put cap r ok (out @ enc n) = Inr (ok \<and> good, (out @ enc n) @ concat (map enc ps))"
          "length (concat (map enc ps)) \<le> k * length r" "good \<longrightarrow> r = concat (map utf ps)"
        using less.hyps by blast
      have "put_units cap (put (point n)) out = Inr (out @ enc n)"
        using less.prems e l by (simp add: put_units_def assms(1) [OF n])
      then have "decode put cap s ok out = Inr (ok \<and> good, out @ concat (map enc (n # ps)))"
        using IH(2) by (simp add: s accept [OF n])
      then show ?thesis using IH n e l by (intro exI [of _ "n # ps"] exI [of _ good]) (auto simp: s)
    next
      fix r assume r: "length r < length s"
        and D: "\<forall>put cap ok out. decode put cap s ok out = bindE (put_units cap (put kErrorCodePoint) out) (decode put cap r False)"
      have "k * length r + k \<le> k * length s" using r by (metis Suc_leI add.commute mult_Suc_right mult_le_mono2)
      then have l: "length (enc replacement) + k * length r \<le> k * length s" using assms(3) by linarith
      then have "length (out @ enc replacement) + k * length r \<le> cap" "length (out @ enc replacement) + k * length r < 2 ^ 31"
        using less.prems by simp_all
      with less.hyps [OF r] obtain ps good where IH: "list_all scalar ps"
          "decode put cap r False (out @ enc replacement) = Inr (False \<and> good, (out @ enc replacement) @ concat (map enc ps))"
          "length (concat (map enc ps)) \<le> k * length r"
        by blast
      have "put_units cap (put kErrorCodePoint) out = Inr (out @ enc replacement)"
        using less.prems l assms(1) [OF scalar_replacement(1)] by (simp add: put_units_def scalar_replacement(2))
      then have "decode put cap s ok out = Inr (False, out @ concat (map enc (replacement # ps)))"
        using IH(2) D by simp
      then show ?thesis using IH scalar_replacement(1) l by (intro exI [of _ "replacement # ps"] exI [of _ False]) auto
    qed
  qed
qed

lemma decode_encoded:
  assumes "list_all scalar ps" and "\<And>n. scalar n \<Longrightarrow> put (point n) = enc n"
    and "length out + length (concat (map enc ps)) \<le> cap" and "length out + length (concat (map enc ps)) < 2 ^ 31"
  shows "decode put cap (concat (map utf ps)) ok out = Inr (ok, out @ concat (map enc ps))"
  using assms(1,3,4)
proof (induction ps arbitrary: out)
  case (Cons n ps)
  have "put_units cap (put (point n)) out = Inr (out @ enc n)"
    using Cons.prems assms(2) [of n] by (simp add: put_units_def)
  then show ?case using Cons by (simp add: accept)
qed (simp add: finish)

end

end
