(* ===== verification/Unicode_Rules.thy ===== *)
theory Unicode_Rules
  imports Unicode_Convert Checked_Arith
begin

text \<open>
  The decoders meet the contract \<open>unicode_decoder\<close>, and with the parameters of \<open>Convert\<close> the contract
  \<open>unicode_conversion\<close>: a source converts without replacement exactly when it is a text in its encoding,
  the output then being the same text in the other one; the output is a text in any case.
\<close>

unbundle bit_operations_syntax

section \<open>Surrogates\<close>

lemma and_high:
  "unat (c AND 0xfffffc00) = unat (c :: u32) div 1024 * 1024" "unat (c AND 0xfffff800) = unat c div 2048 * 2048"
proof -
  have "(0xfffffc00 :: u32) = NOT (mask 10)" "(0xfffff800 :: u32) = NOT (mask 11)" by (simp_all add: mask_numeral)
  then show "unat (c AND 0xfffffc00) = unat c div 1024 * 1024" "unat (c AND 0xfffff800) = unat c div 2048 * 2048"
    by (simp_all only: and_not_mask_eq unat_push_drop) simp_all
qed

lemma surrogate_iff: "CBU_IS_SURROGATE c \<longleftrightarrow> 0xD800 \<le> unat c \<and> unat c < 0xE000"
proof -
  have "CBU_IS_SURROGATE c \<longleftrightarrow> unat (c AND 0xfffff800) = unat (0xd800 :: u32)" unfolding CBU_IS_SURROGATE_def by (rule word_unat_eq_iff)
  then show ?thesis unfolding and_high by (auto simp: dvd_def) 
qed

lemma lead_iff: "CBU16_IS_LEAD c \<longleftrightarrow> 0xD800 \<le> unat c \<and> unat c < 0xDC00"
proof -
  have "CBU16_IS_LEAD c \<longleftrightarrow> unat (c AND 0xfffffc00) = unat (0xd800 :: u32)" unfolding CBU16_IS_LEAD_def by (rule word_unat_eq_iff)
  then show ?thesis unfolding and_high by auto
qed

lemma trail_iff: "CBU16_IS_TRAIL c \<longleftrightarrow> 0xDC00 \<le> unat c \<and> unat c < 0xE000"
proof -
  have "CBU16_IS_TRAIL c \<longleftrightarrow> unat (c AND 0xfffffc00) = unat (0xdc00 :: u32)" unfolding CBU16_IS_TRAIL_def by (rule word_unat_eq_iff)
  then show ?thesis unfolding and_high by auto
qed

lemma valid_iff: "IsValidCodepoint c \<longleftrightarrow> scalar (unat c)"
  by (auto simp: IsValidCodepoint_def scalar_def word_less_nat_alt word_le_nat_alt)

lemma scalar_less: "scalar n \<Longrightarrow> n < 0x110000"
  by (auto simp: scalar_def)

lemma unat_scalar: "scalar n \<Longrightarrow> unat (point n) = n"
  using scalar_less [of n] by (intro unat_point) simp

lemma valid_point: "scalar n \<Longrightarrow> IsValidCodepoint (point n)"
  by (simp add: valid_iff unat_scalar)

lemma sentinel_invalid: "\<not> IsValidCodepoint CBU_SENTINEL"
  by code_simp

lemma unat_unit: "unat (ucast (c :: u16) :: u32) = unat c"
  using unsigned_less [where 'a = nat, of c] by (simp add: unsigned_ucast_eq take_bit_nat_eq_self)

lemma pair_value:
  assumes "0xD800 \<le> unat c" and "unat c < 0xDC00" and "0xDC00 \<le> unat d" and "unat d < 0xE000"
  shows "CBU16_GET_SUPPLEMENTARY c d = point (0x10000 + (unat c - 0xD800) * 1024 + (unat d - 0xDC00))"
proof -
  have o: "CBU16_SURROGATE_OFFSET = of_nat 0x35FDC00" by (simp add: CBU16_SURROGATE_OFFSET_def push_bit_eq_mult)
  have s: "push_bit 10 c = of_nat (unat c * 1024)" by (simp add: push_bit_eq_mult)
  have "unat c * 1024 + unat d = (0x10000 + (unat c - 0xD800) * 1024 + (unat d - 0xDC00)) + 0x35FDC00" using assms by simp
  then have "of_nat (unat c * 1024 + unat d) = point (0x10000 + (unat c - 0xD800) * 1024 + (unat d - 0xDC00)) + of_nat 0x35FDC00"
    unfolding point_def by (simp only: of_nat_add)
  moreover have "push_bit 10 c + d = of_nat (unat c * 1024 + unat d)" unfolding s by simp
  ultimately have "push_bit 10 c + d = point (0x10000 + (unat c - 0xD800) * 1024 + (unat d - 0xDC00)) + of_nat 0x35FDC00" by (simp only:)
  then show ?thesis unfolding CBU16_GET_SUPPLEMENTARY_def o by simp
qed

lemma unat_unit_of_nat: "n < 0x10000 \<Longrightarrow> unat (of_nat n :: u16) = n"
  by (simp add: unat_of_nat)

lemma utf16_pair:
  assumes "scalar n" and "0x10000 \<le> n"
  obtains c d where "utf16 n = [c, d]" and "0xD800 \<le> unat c" "unat c < 0xDC00" "0xDC00 \<le> unat d" "unat d < 0xE000"
    and "n = 0x10000 + (unat c - 0xD800) * 1024 + (unat d - 0xDC00)"
proof -
  define h l where "h = (n - 0x10000) div 1024" and "l = (n - 0x10000) mod 1024"
  have "h < 1024" using scalar_less [OF assms(1)] by (simp add: h_def less_mult_imp_div_less)
  moreover have "l < 1024" by (simp add: l_def)
  moreover have n: "n = 0x10000 + h * 1024 + l" using assms(2) div_mult_mod_eq [of "n - 0x10000" 1024] unfolding h_def l_def by linarith
  moreover have "utf16 n = [of_nat (0xD800 + h), of_nat (0xDC00 + l)]" using assms(2) by (simp add: utf16_def h_def l_def)
  moreover have "unat (of_nat (0xD800 + h) :: u16) = 0xD800 + h" using calculation(1) by (intro unat_unit_of_nat) simp
  moreover have "unat (of_nat (0xDC00 + l) :: u16) = 0xDC00 + l" using calculation(2) by (intro unat_unit_of_nat) simp
  ultimately show thesis by (intro that [of "of_nat (0xD800 + h)" "of_nat (0xDC00 + l)"]) (simp_all del: of_nat_add)
qed

lemma utf16_of_pair:
  assumes "0xD800 \<le> unat (c :: u16)" and "unat c < 0xDC00" and "0xDC00 \<le> unat (d :: u16)" and "unat d < 0xE000"
  shows "utf16 (0x10000 + (unat c - 0xD800) * 1024 + (unat d - 0xDC00)) = [c, d]" "scalar (0x10000 + (unat c - 0xD800) * 1024 + (unat d - 0xDC00))"
proof -
  define h l where "h = unat c - 0xD800" and "l = unat d - 0xDC00"
  have hl: "h < 1024" "l < 1024" "unat c = 0xD800 + h" "unat d = 0xDC00 + l" using assms by (simp_all add: h_def l_def)
  have "c = of_nat (0xD800 + h)" "d = of_nat (0xDC00 + l)" unfolding hl(3,4) [symmetric] by simp_all
  moreover have "(h * 1024 + l) div 1024 = h" "(h * 1024 + l) mod 1024 = l" using hl by simp_all
  ultimately show "utf16 (0x10000 + h * 1024 + l) = [c, d]" by (simp add: utf16_def add.assoc)
  show "scalar (0x10000 + h * 1024 + l)" using hl by (simp add: scalar_def)
qed

lemma ucast_unit: "ucast (c :: u32) = (of_nat (unat c) :: u16)"
  by simp

lemma append_utf16:
  assumes "scalar n"
  shows "UnicodeAppendUnsafe16 (point n) = utf16 n"
proof -
  have le: "point n \<le> 0xffff \<longleftrightarrow> n < 0x10000" by (auto simp: word_le_nat_alt unat_scalar [OF assms])
  show ?thesis
  proof (cases "n < 0x10000")
    case True
    then show ?thesis unfolding UnicodeAppendUnsafe16_def CBU16_APPEND_UNSAFE_def le ucast_unit unat_scalar [OF assms] by (simp add: utf16_def)
  next
    case False
    define h l where "h = (n - 0x10000) div 1024" and "l = (n - 0x10000) mod 1024"
    have h: "h < 1024" using scalar_less [OF assms] by (simp add: h_def less_mult_imp_div_less)
    have l: "l < 1024" by (simp add: l_def)
    have "n = h * 1024 + 65536 + l" 
      using False div_mult_mod_eq [of "n - 0x10000" 1024] unfolding h_def [symmetric] l_def [symmetric] by linarith
    then have "n = l + 1024 * (h + 64)" by (simp add: distrib_left)
    then have "n div 1024 = h + 64" "n mod 1024 = l" using l by (simp_all only: div_mult_self2 mod_mult_self2 mod_less div_less)
    then have u: "unat (drop_bit 10 (point n)) = h + 64" "unat (point n AND 0x3ff) = l"
      unfolding masks and_low unat_shift_right unat_scalar [OF assms] by simp_all
    have "unat (drop_bit 10 (point n) + 0xd7c0) = 0xD800 + h" using u(1) h by (simp add: unat_word_ariths)
    moreover have "unat ((point n AND 0x3ff) OR 0xdc00) = 0xDC00 + l"
      using drop_or_high [of "point n AND 0x3ff" 10 55] u(2) l by simp
    ultimately show ?thesis using False
      unfolding UnicodeAppendUnsafe16_def CBU16_APPEND_UNSAFE_def le ucast_unit by (simp add: utf16_def h_def l_def)
  qed
qed

lemma DecodeUtf16_end: "DecodeUtf16 put cap [] ok = (\<lambda>out. Inr (ok, out))"
  by (rule ext) simp

section \<open>The decoders meet the contract\<close>

lemma next_utf8_Cons: "scalar n \<Longrightarrow> \<exists>b s. utf8 n @ rest = b # s"
  by (cases "utf8 n @ rest") (auto simp: utf8_def split: if_splits)

lemma utf8_nonempty: "utf8 n \<noteq> []"
  by (simp add: utf8_def)

lemma utf16_nonempty: "utf16 n \<noteq> []"
  by (simp add: utf16_def)

interpretation utf8: unicode_decoder DecodeUtf8 utf8
proof
  fix put :: "u32 \<Rightarrow> 'd list" and cap n s ok out
  assume n: "scalar n"
  obtain b t where b: "utf8 n @ s = b # t" using next_utf8_Cons [OF n] by blast
  then show "DecodeUtf8 put cap (utf8 n @ s) ok out = bindE (put_units cap (put (point n)) out) (DecodeUtf8 put cap s ok)"
    using next_utf8 [OF n, of s] by (simp add: valid_point [OF n] del: CBU8_NEXT.simps)
next
  fix s :: "u8 list"
  assume "s \<noteq> []"
  then obtain b t where s: "s = b # t" by (cases s) auto
  obtain c r where N: "CBU8_NEXT s = Inr (c, r)" using next_defined s by blast
  show "(\<exists>n r. scalar n \<and> s = utf8 n @ r) \<or> (\<exists>r. length r < length s \<and> (\<forall>(put :: u32 \<Rightarrow> 'd list) cap ok out.
      DecodeUtf8 put cap s ok out = bindE (put_units cap (put kErrorCodePoint) out) (DecodeUtf8 put cap r False)))"
  proof (cases "c = CBU_SENTINEL")
    case True
    then show ?thesis using N next_accepts [OF N] sentinel_invalid by (intro disjI2 exI [of _ r]) (simp add: s del: CBU8_NEXT.simps)
  next
    case False
    then show ?thesis using next_accepts [OF N] by blast
  qed
qed (simp_all add: utf8_nonempty)

interpretation utf16: unicode_decoder DecodeUtf16 utf16
proof
  fix put :: "u32 \<Rightarrow> 'd list" and cap n s ok out
  assume n: "scalar n"
  show "DecodeUtf16 put cap (utf16 n @ s) ok out = bindE (put_units cap (put (point n)) out) (DecodeUtf16 put cap s ok)"
  proof (cases "n < 0x10000")
    case True
    define c where "c = (of_nat n :: u16)"
    have c: "utf16 n = [c]" using True by (simp add: utf16_def c_def)
    have u: "unat c = n" using True unfolding c_def by (rule unat_unit_of_nat)
    have "ucast c = point n" by (metis unat_unit u point_unat)
    moreover have "\<not> CBU16_IS_LEAD (point n)" "CBU16_IS_SINGLE (point n)"
      using n True by (auto simp: lead_iff CBU16_IS_SINGLE_def surrogate_iff unat_scalar [OF n] scalar_def)
    ultimately show ?thesis by (cases s) (simp_all add: c valid_point [OF n] DecodeUtf16_end)
  next
    case False
    then obtain c d where P: "utf16 n = [c, d]" "0xD800 \<le> unat c" "unat c < 0xDC00" "0xDC00 \<le> unat d" "unat d < 0xE000"
        "n = 0x10000 + (unat c - 0xD800) * 1024 + (unat d - 0xDC00)"
      using utf16_pair [OF n] by (metis not_less)
    have "CBU16_GET_SUPPLEMENTARY (ucast c) (ucast d) = point n"
      using pair_value [of "ucast c" "ucast d"] P(2-5) unfolding unat_unit P(6) [symmetric] by simp
    moreover have "CBU16_IS_LEAD (ucast c)" "CBU16_IS_TRAIL (ucast d)" unfolding lead_iff trail_iff unat_unit using P by auto
    ultimately show ?thesis by (simp add: P(1) valid_point [OF n])
  qed
next
  fix s :: "u16 list"
  assume "s \<noteq> []"
  then obtain c t where s: "s = c # t" by (cases s) auto
  show "(\<exists>n r. scalar n \<and> s = utf16 n @ r) \<or> (\<exists>r. length r < length s \<and> (\<forall>(put :: u32 \<Rightarrow> 'd list) cap ok out.
      DecodeUtf16 put cap s ok out = bindE (put_units cap (put kErrorCodePoint) out) (DecodeUtf16 put cap r False)))"
  proof (cases "CBU16_IS_SINGLE (ucast c)")
    case True
    have "unat c < 0x10000" using unsigned_less [where 'a = nat, of c] by simp
    moreover have sc: "scalar (unat c)" using True calculation unfolding CBU16_IS_SINGLE_def surrogate_iff unat_unit scalar_def by auto
    ultimately have "s = utf16 (unat c) @ t" by (simp add: s utf16_def)
    then show ?thesis using sc by blast
  next
    case False
    show ?thesis
    proof (cases t)
      case Nil
      then show ?thesis using False by (intro disjI2 exI [of _ "[]"]) (simp add: s DecodeUtf16_end)
    next
      case t: (Cons d t')
      show ?thesis
      proof (cases "CBU16_IS_LEAD (ucast c) \<and> CBU16_IS_TRAIL (ucast d)")
        case True
        then have "0xD800 \<le> unat c" "unat c < 0xDC00" "0xDC00 \<le> unat d" "unat d < 0xE000" unfolding lead_iff trail_iff unat_unit by auto
        note R = utf16_of_pair [OF this]
        then have "s = utf16 (0x10000 + (unat c - 0xD800) * 1024 + (unat d - 0xDC00)) @ t'" by (simp add: s t)
        then show ?thesis using R(2) by blast
      next
        case nt: False
        have "\<not> IsValidCodepoint (ucast c) \<or> \<not> CBU16_IS_SINGLE (ucast c)" using False by simp
        then show ?thesis using nt False by (intro disjI2 exI [of _ t]) (auto simp: s t)
      qed
    qed
  qed
qed (simp_all add: utf16_nonempty)

definition utf32 :: "nat \<Rightarrow> u32 list" where
  "utf32 n = [point n]"

interpretation utf32: unicode_decoder DecodeUtf32 utf32
proof
  fix s :: "u32 list"
  assume "s \<noteq> []"
  then obtain c t where s: "s = c # t" by (cases s) auto
  show "(\<exists>n r. scalar n \<and> s = utf32 n @ r) \<or> (\<exists>r. length r < length s \<and> (\<forall>(put :: u32 \<Rightarrow> 'd list) cap ok out.
      DecodeUtf32 put cap s ok out = bindE (put_units cap (put kErrorCodePoint) out) (DecodeUtf32 put cap r False)))"
  proof (cases "IsValidCodepoint c")
    case True
    then have "scalar (unat c)" "s = utf32 (unat c) @ t" by (simp_all add: valid_iff s utf32_def point_unat)
    then show ?thesis by blast
  next
    case False
    then show ?thesis by (intro disjI2 exI [of _ t]) (simp add: s)
  qed
qed (simp_all add: utf32_def valid_point)

section \<open>The driver\<close>

lemma Convert_short:
  assumes "char_width LENGTH('s::len)" and "widens ext" and "length (src :: 's word list) < 2 ^ 31"
  shows "Convert k ext cast decoder addr src =
    (if list_all ascii src then Inr (True, map cast src) else decoder (length src * k) src True [])"
proof -
  have "int32_length src = int (length src)"
    using assms(3) by (simp add: int32_length_def signed_of_nat signed_take_bit_int_eq_self)
  then show ?thesis using DoIsStringASCII_eq [OF assms(1,2), of addr src] by (auto simp: Convert_def)
qed

text \<open>A text in an encoding: the encodings of its code points, one after the other.\<close>

definition encodes :: "(nat \<Rightarrow> 'a list) \<Rightarrow> nat list \<Rightarrow> 'a list \<Rightarrow> bool" where
  "encodes enc ps s \<longleftrightarrow> list_all scalar ps \<and> s = concat (map enc ps)"

text \<open>A conversion: a decoder, an encoder for its output and the parameters \<open>Convert\<close> gets with them.\<close>

locale unicode_conversion = unicode_decoder decode utf
  for decode :: "(u32 \<Rightarrow> 'd::len word list) \<Rightarrow> nat \<Rightarrow> 's::len word list \<Rightarrow> bool \<Rightarrow> 'd word list \<Rightarrow> (bool \<times> 'd word list) res"
    and utf :: "nat \<Rightarrow> 's word list" +
  fixes put :: "u32 \<Rightarrow> 'd word list" and enc :: "nat \<Rightarrow> 'd word list" and k :: nat
    and ext :: "'s word \<Rightarrow> u64" and cast :: "'s word \<Rightarrow> 'd word"
  assumes width: "char_width LENGTH('s)" and widen: "widens ext"
    and put_enc: "\<And>n. scalar n \<Longrightarrow> put (point n) = enc n"
    and enc_fits: "\<And>n. scalar n \<Longrightarrow> length (enc n) \<le> k * length (utf n)"
    and replacement_fits: "length (enc replacement) \<le> k"
    and ascii_utf: "\<And>n. n < 128 \<Longrightarrow> utf n = [of_nat n]"
    and ascii_enc: "\<And>n. n < 128 \<Longrightarrow> enc n = [of_nat n]"
    and ascii_cast: "\<And>c. ascii c \<Longrightarrow> cast c = of_nat (unat c)"
    and ascii_only: "\<And>n. scalar n \<Longrightarrow> list_all ascii (utf n) \<Longrightarrow> n < 128"
begin

lemma encoded_fits: "list_all scalar ps \<Longrightarrow> length (concat (map enc ps)) \<le> k * length (concat (map utf ps))"
proof (induction ps)
  case (Cons n ps)
  then show ?case using enc_fits [of n] by (simp add: distrib_left add_le_mono)
qed simp

lemma ascii_units: "list_all ascii src \<Longrightarrow> src = concat (map utf (map unat src)) \<and> map cast src = concat (map enc (map unat src))
    \<and> list_all scalar (map unat src)"
proof (induction src)
  case (Cons c src)
  then show ?case using ascii_utf [of "unat c"] ascii_enc [of "unat c"] ascii_cast [of c] by (simp add: ascii_def scalar_def)
qed simp

lemma ascii_points: "list_all scalar ps \<Longrightarrow> list_all ascii (concat (map utf ps)) \<Longrightarrow> map cast (concat (map utf ps)) = concat (map enc ps)"
proof (induction ps)
  case (Cons n ps)
  then have n: "n < 128" using ascii_only [of n] by simp
  then have "ascii (of_nat n :: 's word)" using Cons.prems(2) by (simp add: ascii_utf)
  then have "cast (of_nat n) = of_nat (unat (of_nat n :: 's word))" by (rule ascii_cast)
  moreover have "unat (of_nat n :: 's word) = n"
    using n width by (auto simp: unat_of_nat char_width_def)
  ultimately show ?case using Cons n by (simp add: ascii_utf ascii_enc)
qed simp

lemma convert_total:
  assumes "length src < 2 ^ 31" and "k * length src < 2 ^ 31"
  shows "\<exists>ps good. list_all scalar ps \<and> Convert k ext cast (decode put) addr src = Inr (good, concat (map enc ps))
    \<and> length (concat (map enc ps)) \<le> k * length src \<and> (good \<longrightarrow> src = concat (map utf ps))"
proof (cases "list_all ascii src")
  case True
  from ascii_units [OF this] show ?thesis
    using True encoded_fits [of "map unat src"]
    by (intro exI [of _ "map unat src"] exI [of _ True]) (auto simp: Convert_short [OF width widen assms(1)])
next
  case False
  obtain ps good where "list_all scalar ps" "decode put (length src * k) src True [] = Inr (True \<and> good, [] @ concat (map enc ps))"
      "length (concat (map enc ps)) \<le> k * length src" "good \<longrightarrow> src = concat (map utf ps)"
    using decode_total [where enc = enc and put = put and k = k, OF put_enc enc_fits replacement_fits, of "[]" src "length src * k" True] assms(2)
    by (auto simp: mult.commute)
  then show ?thesis using False by (auto simp: Convert_short [OF width widen assms(1)])
qed

lemma convert_encoded:
  assumes "list_all scalar ps" and "length (concat (map utf ps)) < 2 ^ 31" and "k * length (concat (map utf ps)) < 2 ^ 31"
  shows "Convert k ext cast (decode put) addr (concat (map utf ps)) = Inr (True, concat (map enc ps))"
proof (cases "list_all ascii (concat (map utf ps))")
  case True
  then show ?thesis using ascii_points [OF assms(1)] by (simp add: Convert_short [OF width widen assms(2)])
next
  case False
  have "decode put (length (concat (map utf ps)) * k) (concat (map utf ps)) True [] = Inr (True, [] @ concat (map enc ps))"
    using encoded_fits [OF assms(1)] assms(3) by (intro decode_encoded [where enc = enc, OF assms(1)] put_enc) (simp_all add: mult.commute)
  then show ?thesis using False by (simp add: Convert_short [OF width widen assms(2)])
qed

lemma convert_iff:
  assumes "length src < 2 ^ 31" and "k * length src < 2 ^ 31"
  shows "Convert k ext cast (decode put) addr src = Inr (True, out) \<longleftrightarrow>
    (\<exists>ps. encodes utf ps src \<and> encodes enc ps out)"
proof
  assume "Convert k ext cast (decode put) addr src = Inr (True, out)"
  then show "\<exists>ps. encodes utf ps src \<and> encodes enc ps out"
    using convert_total [OF assms, of addr] by (auto simp: encodes_def)
next
  assume "\<exists>ps. encodes utf ps src \<and> encodes enc ps out"
  then show "Convert k ext cast (decode put) addr src = Inr (True, out)"
    using convert_encoded assms by (auto simp: encodes_def)
qed

lemma convert_formed:
  assumes "length src < 2 ^ 31" and "k * length src < 2 ^ 31"
  shows "\<exists>ok ps out. Convert k ext cast (decode put) addr src = Inr (ok, out) \<and> encodes enc ps out \<and> length out \<le> k * length src"
  using convert_total [OF assms, of addr] by (auto simp: encodes_def)

end

section \<open>The conversions\<close>

lemma append8: "scalar n \<Longrightarrow> UnicodeAppendUnsafe8 (point n) = utf8 n"
  using append_utf8 [of "point n"] by (simp add: UnicodeAppendUnsafe8_def unat_scalar)

lemma append32: "UnicodeAppendUnsafe32 (point n) = utf32 n"
  by (simp add: UnicodeAppendUnsafe32_def utf32_def)

lemma lengths:
  "length (utf16 n) \<le> length (utf8 n)" "length (utf32 n) \<le> length (utf8 n)" "length (utf8 n) \<le> 3 * length (utf16 n)"
  "length (utf32 n) \<le> length (utf16 n)" "length (utf8 n) \<le> 4 * length (utf32 n)" "length (utf16 n) \<le> 2 * length (utf32 n)"
  by (simp_all add: utf8_def utf16_def utf32_def)

lemma replacement_lengths: "length (utf8 replacement) = 3" "length (utf16 replacement) = 1" "length (utf32 replacement) = 1"
  by (simp_all add: utf8_def utf16_def utf32_def replacement_def)

lemma ascii_encodings: "n < 128 \<Longrightarrow> utf8 n = [of_nat n]" "n < 128 \<Longrightarrow> utf16 n = [of_nat n]" "n < 128 \<Longrightarrow> utf32 n = [of_nat n]"
  by (simp_all add: utf8_def utf16_def utf32_def byte_def point_def)

lemma ascii_utf8: "scalar n \<Longrightarrow> list_all ascii (utf8 n) \<Longrightarrow> n < 128"
proof (rule ccontr)
  assume n: "scalar n" "list_all ascii (utf8 n)" "\<not> n < 128"
  then have "ascii (hd (utf8 n))" by (simp add: utf8_def split: if_splits)
  moreover have "n div 64 < 32" if "n < 0x800" using that by (simp add: less_mult_imp_div_less)
  moreover have "n div 4096 < 16" if "n < 0x10000" using that by (simp add: less_mult_imp_div_less)
  moreover have "n div 262144 < 5" using scalar_less [OF n(1)] by (simp add: less_mult_imp_div_less)
  ultimately show False using n(3) by (auto simp: utf8_def ascii_def unat_byte split: if_splits)
qed

lemma ascii_utf16:
  assumes "scalar n" and "list_all ascii (utf16 n)"
  shows "n < 128"
proof (cases "n < 0x10000")
  case True
  then show ?thesis using assms(2) unat_unit_of_nat [OF True] by (simp add: utf16_def ascii_def)
next
  case False
  then obtain c d where "utf16 n = [c, d]" "0xD800 \<le> unat c" using utf16_pair [OF assms(1)] by (metis not_less)
  then show ?thesis using assms(2) by (simp add: ascii_def)
qed

lemma ascii_utf32: "scalar n \<Longrightarrow> list_all ascii (utf32 n) \<Longrightarrow> n < 128"
  by (simp add: utf32_def ascii_def unat_scalar)

lemma scast_ascii: "ascii (c :: 'a::len word) \<Longrightarrow> 8 \<le> LENGTH('a) \<Longrightarrow> scast c = (of_nat (unat c) :: 'b::len word)"
proof -
  assume c: "ascii c" "8 \<le> LENGTH('a)"
  have "sint c = int (unat c)"
  proof -
    have "unat c < 2 ^ (LENGTH('a) - 1)"
    proof -
      have "(2 :: nat) ^ 7 \<le> 2 ^ (LENGTH('a) - 1)" using c(2) by (intro power_increasing) simp_all
      then show ?thesis using c(1) by (simp add: ascii_def)
    qed
    then have "int (unat c) < int (2 ^ (LENGTH('a) - 1))" by (simp only: of_nat_less_iff)
    then have "uint c < 2 ^ (LENGTH('a) - 1)" by simp
    moreover have "- (2 ^ (LENGTH('a) - 1)) \<le> uint c" by (rule order_trans [of _ 0]) simp_all
    ultimately show ?thesis by (simp add: sint_uint signed_take_bit_int_eq_self)
  qed
  then have "(of_int (sint c) :: 'b word) = of_nat (unat c)" by simp
  then show ?thesis by simp
qed

lemma ucast_as_nat: "ucast c = of_nat (unat c)"
  by simp

lemma char_widths: "char_width LENGTH(8)" "char_width LENGTH(16)" "char_width LENGTH(32)"
  by (simp_all add: char_width_def)

interpretation utf8_to_utf16: unicode_conversion DecodeUtf8 utf8 UnicodeAppendUnsafe16 utf16 1 scast scast
  by unfold_locales (rule ascii_utf8 | simp add: char_width_def widens_scast append_utf16 lengths replacement_lengths ascii_encodings scast_ascii)+

interpretation utf16_to_utf8: unicode_conversion DecodeUtf16 utf16 UnicodeAppendUnsafe8 utf8 3 ucast ucast
  by unfold_locales (rule ascii_utf16 | simp add: char_width_def widens_ucast append8 lengths replacement_lengths ascii_encodings)+

interpretation utf8_to_wide: unicode_conversion DecodeUtf8 utf8 UnicodeAppendUnsafe32 utf32 1 scast scast
  by unfold_locales (rule ascii_utf8 | simp add: char_width_def widens_scast append32 lengths replacement_lengths ascii_encodings scast_ascii)+

interpretation utf8_to_wide_char8: unicode_conversion DecodeUtf8 utf8 UnicodeAppendUnsafe32 utf32 1 ucast ucast
  by unfold_locales (rule ascii_utf8 | simp add: char_width_def widens_ucast append32 lengths replacement_lengths ascii_encodings)+

interpretation wide_to_utf8: unicode_conversion DecodeUtf32 utf32 UnicodeAppendUnsafe8 utf8 4 scast ucast
  by unfold_locales (rule ascii_utf32 | simp add: char_width_def widens_scast append8 lengths replacement_lengths ascii_encodings)+

interpretation wide_to_utf16: unicode_conversion DecodeUtf32 utf32 UnicodeAppendUnsafe16 utf16 2 scast ucast
  by unfold_locales (rule ascii_utf32 | simp add: char_width_def widens_scast append_utf16 lengths replacement_lengths ascii_encodings)+

interpretation utf16_to_wide: unicode_conversion DecodeUtf16 utf16 UnicodeAppendUnsafe32 utf32 1 ucast ucast
  by unfold_locales (rule ascii_utf16 | simp add: char_width_def widens_ucast append32 lengths replacement_lengths ascii_encodings)+

text \<open>
  (C10) Each of the seven conversions reports success exactly for a sequence of encodings of Unicode scalar
  values, and then gives the encodings of the same values in the other form, whether or not the ASCII
  path is taken. Sources are short enough for the 32-bit counts of the decoders.
\<close>

theorem conversions_exact:
  assumes "4 * length s8 < 2 ^ 31" and "4 * length s16 < 2 ^ 31" and "4 * length s32 < 2 ^ 31"
  shows "(UTF8ToUTF16 addr s8 = Inr (True, o16) \<longleftrightarrow> (\<exists>ps. encodes utf8 ps s8 \<and> encodes utf16 ps o16))
    \<and> (UTF8ToWide addr s8 = Inr (True, o32) \<longleftrightarrow> (\<exists>ps. encodes utf8 ps s8 \<and> encodes utf32 ps o32))
    \<and> (UTF8ToWide_char8 addr s8 = Inr (True, o32) \<longleftrightarrow> (\<exists>ps. encodes utf8 ps s8 \<and> encodes utf32 ps o32))
    \<and> (UTF16ToUTF8 addr s16 = Inr (True, o8) \<longleftrightarrow> (\<exists>ps. encodes utf16 ps s16 \<and> encodes utf8 ps o8))
    \<and> (UTF16ToWide addr s16 = Inr (True, o32) \<longleftrightarrow> (\<exists>ps. encodes utf16 ps s16 \<and> encodes utf32 ps o32))
    \<and> (WideToUTF8 addr s32 = Inr (True, o8) \<longleftrightarrow> (\<exists>ps. encodes utf32 ps s32 \<and> encodes utf8 ps o8))
    \<and> (WideToUTF16 addr s32 = Inr (True, o16) \<longleftrightarrow> (\<exists>ps. encodes utf32 ps s32 \<and> encodes utf16 ps o16))"
  unfolding UTF8ToUTF16_def UTF8ToWide_def UTF8ToWide_char8_def UTF16ToUTF8_def UTF16ToWide_def WideToUTF8_def WideToUTF16_def
  using assms by (intro conjI utf8_to_utf16.convert_iff utf8_to_wide.convert_iff utf8_to_wide_char8.convert_iff utf16_to_utf8.convert_iff
      utf16_to_wide.convert_iff wide_to_utf8.convert_iff wide_to_utf16.convert_iff) simp_all

theorem conversions_exact_witness:
  "UTF16ToUTF8 1 [0x48, 0xD83D, 0xDE00] = Inr (True, [0x48, 0xF0, 0x9F, 0x98, 0x80])"
proof -
  have e: "encodes utf16 [0x48, 0x1F600] [0x48, 0xD83D, 0xDE00]" "encodes utf8 [0x48, 0x1F600] [0x48, 0xF0, 0x9F, 0x98, 0x80]"
    by (simp_all add: encodes_def scalar_def utf16_def utf8_def byte_def)
  have "UTF16ToUTF8 1 [0x48, 0xD83D, 0xDE00] = Inr (True, [0x48, 0xF0, 0x9F, 0x98, 0x80]) \<longleftrightarrow>
      (\<exists>ps. encodes utf16 ps [0x48, 0xD83D, 0xDE00] \<and> encodes utf8 ps [0x48, 0xF0, 0x9F, 0x98, 0x80])"
    by (rule conversions_exact [of "[]" _ "[]", THEN conjunct2, THEN conjunct2, THEN conjunct2, THEN conjunct1]) simp_all
  then show ?thesis using e by blast
qed

text \<open>
  (C15) Whatever the content of a source of fewer than \<open>2 ^ 29\<close> units, a conversion ends, stays inside the
  buffer it sized beforehand and gives well-formed text: every malformed part has been replaced by U+FFFD.
  From about that length on the 32-bit counts of \<open>Convert\<close> and the decoders overflow.
\<close>

theorem conversions_well_formed:
  assumes "4 * length s8 < 2 ^ 31" and "4 * length s16 < 2 ^ 31" and "4 * length s32 < 2 ^ 31"
  shows "(\<exists>ok ps out. UTF8ToUTF16 addr s8 = Inr (ok, out) \<and> encodes utf16 ps out \<and> length out \<le> length s8)
    \<and> (\<exists>ok ps out. UTF8ToWide addr s8 = Inr (ok, out) \<and> encodes utf32 ps out \<and> length out \<le> length s8)
    \<and> (\<exists>ok ps out. UTF8ToWide_char8 addr s8 = Inr (ok, out) \<and> encodes utf32 ps out \<and> length out \<le> length s8)
    \<and> (\<exists>ok ps out. UTF16ToUTF8 addr s16 = Inr (ok, out) \<and> encodes utf8 ps out \<and> length out \<le> 3 * length s16)
    \<and> (\<exists>ok ps out. UTF16ToWide addr s16 = Inr (ok, out) \<and> encodes utf32 ps out \<and> length out \<le> length s16)
    \<and> (\<exists>ok ps out. WideToUTF8 addr s32 = Inr (ok, out) \<and> encodes utf8 ps out \<and> length out \<le> 4 * length s32)
    \<and> (\<exists>ok ps out. WideToUTF16 addr s32 = Inr (ok, out) \<and> encodes utf16 ps out \<and> length out \<le> 2 * length s32)"
  unfolding UTF8ToUTF16_def UTF8ToWide_def UTF8ToWide_char8_def UTF16ToUTF8_def UTF16ToWide_def WideToUTF8_def WideToUTF16_def
  using assms utf8_to_utf16.convert_formed [of s8 addr] utf8_to_wide.convert_formed [of s8 addr] utf8_to_wide_char8.convert_formed [of s8 addr]
    utf16_to_utf8.convert_formed [of s16 addr] utf16_to_wide.convert_formed [of s16 addr] wide_to_utf8.convert_formed [of s32 addr]
    wide_to_utf16.convert_formed [of s32 addr] by simp

theorem conversions_well_formed_witness:
  "\<exists>ok ps out. UTF8ToUTF16 5 [0xC3, 0x21] = Inr (ok, out) \<and> encodes utf16 ps out \<and> length out \<le> 2"
proof -
  have "\<exists>ok ps out. UTF8ToUTF16 5 [0xC3, 0x21] = Inr (ok, out) \<and> encodes utf16 ps out \<and> length out \<le> length [0xC3 :: u8, 0x21]"
    by (rule conversions_well_formed [of _ "[]" "[]", THEN conjunct1]) simp_all
  then show ?thesis by (simp add: numeral_2_eq_2)
qed

text \<open>A conversion and one in the other direction, with what the first says of the length of its output.\<close>

lemma conversion_back:
  assumes "\<exists>ok ps out. X = Inr (ok, out) \<and> encodes enc ps out \<and> length out \<le> n"
    and "\<And>out. X = Inr (True, out) \<longleftrightarrow> (\<exists>ps. encodes utf ps s \<and> encodes enc ps out)"
    and "\<And>t. length t \<le> n \<Longrightarrow> Y t = Inr (True, s) \<longleftrightarrow> (\<exists>ps. encodes enc ps t \<and> encodes utf ps s)"
  shows "\<forall>t. X = Inr (True, t) \<longrightarrow> Y t = Inr (True, s)"
proof (intro allI impI)
  fix t assume X: "X = Inr (True, t)"
  then have "length t \<le> n" using assms(1) by auto
  then show "Y t = Inr (True, s)" using assms(2) [of t] assms(3) [of t] X by blast
qed

text \<open>
  (C16) Of sources of fewer than \<open>2 ^ 29\<close> units, a text that converts without replacement converts back to the
  same units: in every pair of encodings, in both directions, through either overload for UTF-8 to wide.
\<close>

theorem conversions_round_trip:
  assumes "4 * length s8 < 2 ^ 31" and "4 * length s16 < 2 ^ 31" and "4 * length s32 < 2 ^ 31"
  shows "(\<forall>t. UTF8ToUTF16 a s8 = Inr (True, t) \<longrightarrow> UTF16ToUTF8 b t = Inr (True, s8))
    \<and> (\<forall>t. UTF16ToUTF8 a s16 = Inr (True, t) \<longrightarrow> UTF8ToUTF16 b t = Inr (True, s16))
    \<and> (\<forall>t. UTF8ToWide a s8 = Inr (True, t) \<longrightarrow> WideToUTF8 b t = Inr (True, s8))
    \<and> (\<forall>t. UTF8ToWide_char8 a s8 = Inr (True, t) \<longrightarrow> WideToUTF8 b t = Inr (True, s8))
    \<and> (\<forall>t. WideToUTF8 a s32 = Inr (True, t) \<longrightarrow> UTF8ToWide b t = Inr (True, s32))
    \<and> (\<forall>t. WideToUTF8 a s32 = Inr (True, t) \<longrightarrow> UTF8ToWide_char8 b t = Inr (True, s32))
    \<and> (\<forall>t. UTF16ToWide a s16 = Inr (True, t) \<longrightarrow> WideToUTF16 b t = Inr (True, s16))
    \<and> (\<forall>t. WideToUTF16 a s32 = Inr (True, t) \<longrightarrow> UTF16ToWide b t = Inr (True, s32))"
  unfolding UTF8ToUTF16_def UTF8ToWide_def UTF8ToWide_char8_def UTF16ToUTF8_def UTF16ToWide_def WideToUTF8_def WideToUTF16_def
  using assms
  by (intro conjI
      conversion_back [OF utf8_to_utf16.convert_formed utf8_to_utf16.convert_iff utf16_to_utf8.convert_iff]
      conversion_back [OF utf16_to_utf8.convert_formed utf16_to_utf8.convert_iff utf8_to_utf16.convert_iff]
      conversion_back [OF utf8_to_wide.convert_formed utf8_to_wide.convert_iff wide_to_utf8.convert_iff]
      conversion_back [OF utf8_to_wide_char8.convert_formed utf8_to_wide_char8.convert_iff wide_to_utf8.convert_iff]
      conversion_back [OF wide_to_utf8.convert_formed wide_to_utf8.convert_iff utf8_to_wide.convert_iff]
      conversion_back [OF wide_to_utf8.convert_formed wide_to_utf8.convert_iff utf8_to_wide_char8.convert_iff]
      conversion_back [OF utf16_to_wide.convert_formed utf16_to_wide.convert_iff wide_to_utf16.convert_iff]
      conversion_back [OF wide_to_utf16.convert_formed wide_to_utf16.convert_iff utf16_to_wide.convert_iff]) simp_all

theorem conversions_round_trip_witness:
  "UTF16ToUTF8 9 [0xE9] = Inr (True, [0xC3, 0xA9])"
proof -
  have "UTF8ToUTF16 3 (concat (map utf8 [0xE9])) = Inr (True, concat (map utf16 [0xE9]))"
    unfolding UTF8ToUTF16_def by (rule utf8_to_utf16.convert_encoded) (simp_all add: scalar_def utf8_def)
  then have "UTF8ToUTF16 3 [0xC3, 0xA9] = Inr (True, [0xE9])" by (simp add: utf8_def utf16_def byte_def)
  then show ?thesis using conversions_round_trip [of "[0xC3, 0xA9]" "[]" "[]" 3 9] by simp
qed

lemma masked_ascii: "ascii (c :: u8) \<Longrightarrow> ucast ((ucast c :: u32) AND 0x7F) = c"
proof -
  assume "ascii c"
  moreover have "unat (ucast c :: u32) = unat c" by (simp add: unsigned_ucast_eq take_bit_nat_eq_self less_trans [OF byte_less])
  moreover have "(0x7F :: u32) = mask 7" by (simp add: mask_numeral)
  ultimately have "unat ((ucast c :: u32) AND 0x7F) = unat c" by (simp only: and_low ascii_def) simp
  then show ?thesis by (simp only: ucast_byte byte_unat)
qed

lemma ascii_check: "DoIsStringASCII scast addr (s :: u8 list) \<longleftrightarrow> list_all ascii s" "DoIsStringASCII scast addr (w :: u32 list) \<longleftrightarrow> list_all ascii w"
  by (simp_all add: DoIsStringASCII_eq widens_scast char_width_def)

text \<open>The narrow and wide ASCII conversions refuse other text and undo each other.\<close>

lemma ascii_round_trip:
  "(DoIsStringASCII scast a s \<longleftrightarrow> list_all ascii s) \<and> (\<not> list_all ascii s \<longrightarrow> ASCIIToWide a s = Inl (DCheck ''IsStringASCII(ascii)''))
   \<and> (list_all ascii s \<longrightarrow> (\<exists>w. ASCIIToWide a s = Inr w \<and> WideToASCII b w = Inr s))"
proof (cases "list_all ascii s")
  case True
  have "list_all ascii (map ucast s :: u32 list)" using True by (induction s) (simp_all add: ascii_def unsigned_ucast_eq take_bit_nat_eq_self)
  moreover have "map (\<lambda>c. ucast (c AND 0x7F)) (map ucast s :: u32 list) = s" using True by (induction s) (simp_all add: masked_ascii)
  ultimately show ?thesis using True by (simp add: ASCIIToWide_def WideToASCII_def ascii_check)
next
  case False
  then show ?thesis by (simp add: ASCIIToWide_def ascii_check)
qed

end
