(* ===== verification/Utf8_Scan.thy ===== *)
theory Utf8_Scan
  imports Unicode_Rules
begin

text \<open>
  The validation of UTF-8 text in \<open>text/code_point_validation.h\<close> and the iterator over its code points in
  \<open>text/utf8_codepoint_iterator.h\<close>.
\<close>

unbundle bit_operations_syntax

section \<open>Validation\<close>

function DoIsStringUTF8 :: "u8 list \<Rightarrow> bool res" where
  "DoIsStringUTF8 [] = Inr True"
| "DoIsStringUTF8 (b # s) = bindE (CBU8_NEXT (b # s)) (\<lambda>(code_point, rest).
     if \<not> IsValidUTF8Character code_point then Inr False else DoIsStringUTF8 rest)"
  by pat_completeness auto

termination by (relation "measure length") (auto simp del: CBU8_NEXT.simps dest: next_shorter)

function report_loop :: "nat \<Rightarrow> u8 list \<Rightarrow> nat res" where
  "report_loop char_index [] = Inr 0"
| "report_loop char_index (b # s) = bindE (CBU8_NEXT (b # s)) (\<lambda>(code_point, rest).
     if \<not> IsValidUTF8Character code_point then Inr char_index
     else report_loop (char_index + (length (b # s) - length rest)) rest)"
  by pat_completeness auto

termination by (relation "measure (\<lambda>(i, s). length s)") (auto simp del: CBU8_NEXT.simps dest: next_shorter)

definition IsStringUTF8AndReportIdx :: "u8 list \<Rightarrow> nat res" where
  "IsStringUTF8AndReportIdx s = report_loop 0 s"

text \<open>A scalar value that is not one of the 66 noncharacters.\<close>

definition text_char :: "nat \<Rightarrow> bool" where
  "text_char n \<longleftrightarrow> scalar n \<and> \<not> (0xFDD0 \<le> n \<and> n \<le> 0xFDEF) \<and> n mod 0x10000 < 0xFFFE"

definition utf8_text :: "u8 list \<Rightarrow> bool" where
  "utf8_text s \<longleftrightarrow> (\<exists>ps. list_all text_char ps \<and> s = concat (map utf8 ps))"

lemma sint_point: "n < 2 ^ 31 \<Longrightarrow> sint (point n) = int n"
  by (simp add: point_def signed_of_nat signed_take_bit_int_eq_self)

lemma not_fffe: "n < 2 ^ 32 \<Longrightarrow> point n AND 0xFFFE \<noteq> 0xFFFE \<longleftrightarrow> n mod 0x10000 < 0xFFFE"
proof -
  assume n: "n < 2 ^ 32"
  have "(0xFFFE :: u32) = push_bit 1 (mask 15)" by (simp add: mask_numeral)
  have "point n AND 0xFFFE = 0xFFFE \<longleftrightarrow> unat (point n AND 0xFFFE) = 0xFFFE" by (simp add: word_unat_eq_iff)
  have m: "(0xFFFE :: u32) = mask 16 AND NOT (mask 1)" by (simp add: mask_numeral)
  have "unat (point n AND 0xFFFE) = n mod 2 ^ 16 div 2 * 2"
  proof -
    have "point n AND 0xFFFE = (point n AND mask 16) AND NOT (mask 1)" by (simp only: m and.assoc)
    also have "\<dots> = push_bit 1 (drop_bit 1 (point n AND mask 16))" by (rule and_not_mask_eq)
    finally show ?thesis by (simp only: unat_push_drop and_low unat_point [OF n]) simp
  qed
  moreover have "n mod 2 ^ 16 < 0x10000" by simp
  ultimately show ?thesis unfolding word_unat_eq_iff by auto
qed

lemma valid_character: "scalar n \<Longrightarrow> IsValidUTF8Character (point n) \<longleftrightarrow> text_char n"
proof -
  assume n: "scalar n"
  then have "n < 2 ^ 31" "n < 2 ^ 32" using scalar_less [OF n] by simp_all
  note s = sint_point [OF this(1)] not_fffe [OF this(2)]
  have "n mod 0x10000 = n" if "n < 0x10000" using that by simp
  then show ?thesis using n scalar_less [OF n] unfolding IsValidUTF8Character_def s text_char_def scalar_def by auto
qed

lemma sentinel_not_character: "\<not> IsValidUTF8Character CBU_SENTINEL"
  by code_simp

text \<open>One step of either scan.\<close>

lemma scan_step:
  assumes "s \<noteq> []"
  obtains n rest where "scalar n" "s = utf8 n @ rest" "CBU8_NEXT s = Inr (point n, rest)"
  | rest where "CBU8_NEXT s = Inr (CBU_SENTINEL, rest)" "\<And>n t. scalar n \<Longrightarrow> s \<noteq> utf8 n @ t"
proof -
  obtain b t where "s = b # t" using assms by (cases s) auto
  then obtain c rest where N: "CBU8_NEXT s = Inr (c, rest)" using next_defined by blast
  show thesis
  proof (cases "c = CBU_SENTINEL")
    case True
    have "s \<noteq> utf8 n @ t" if "scalar n" for n t
      using N True next_utf8 [OF that, of t] sentinel_invalid valid_point [OF that] by auto
    then show thesis using that(2) N True by blast
  next
    case False
    then show thesis using that(1) N next_accepts [OF N] by blast
  qed
qed

lemma utf8_text_Nil: "utf8_text []"
  unfolding utf8_text_def by (rule exI [of _ "[]"]) simp

lemma utf8_text_Cons:
  assumes "scalar n"
  shows "utf8_text (utf8 n @ s) \<longleftrightarrow> text_char n \<and> utf8_text s"
proof
  assume "utf8_text (utf8 n @ s)"
  then obtain ps where ps: "list_all text_char ps" "utf8 n @ s = concat (map utf8 ps)" by (auto simp: utf8_text_def)
  then obtain m qs where q: "ps = m # qs" using utf8_nonempty [of n] by (cases ps) auto
  then have "scalar m" using ps(1) by (simp add: text_char_def)
  then have "CBU8_NEXT (utf8 n @ s) = Inr (point m, concat (map utf8 qs))" using ps(2) q next_utf8 by simp
  then have "point m = point n" "s = concat (map utf8 qs)" using next_utf8 [OF assms, of s] by simp_all
  moreover from this(1) have "m = n" using unat_scalar [OF assms] unat_scalar [OF \<open>scalar m\<close>] by metis
  ultimately show "text_char n \<and> utf8_text s" using ps(1) q by (auto simp: utf8_text_def)
next
  assume "text_char n \<and> utf8_text s"
  then obtain ps where "list_all text_char (n # ps)" "utf8 n @ s = concat (map utf8 (n # ps))" by (auto simp: utf8_text_def)
  then show "utf8_text (utf8 n @ s)" unfolding utf8_text_def by blast
qed

lemma utf8_text_head: "utf8_text s \<Longrightarrow> s \<noteq> [] \<Longrightarrow> \<exists>n t. scalar n \<and> s = utf8 n @ t"
  unfolding utf8_text_def
proof (elim exE conjE)
  fix ps assume "list_all text_char ps" "s = concat (map utf8 ps)" "s \<noteq> []"
  then show "\<exists>n t. scalar n \<and> s = utf8 n @ t" by (cases ps) (auto simp: text_char_def)
qed

lemma DoIsStringUTF8_step: "s \<noteq> [] \<Longrightarrow> DoIsStringUTF8 s = bindE (CBU8_NEXT s) (\<lambda>(code_point, rest).
     if \<not> IsValidUTF8Character code_point then Inr False else DoIsStringUTF8 rest)"
  by (cases s) (simp_all del: CBU8_NEXT.simps)

lemma report_step: "s \<noteq> [] \<Longrightarrow> report_loop i s = bindE (CBU8_NEXT s) (\<lambda>(code_point, rest).
     if \<not> IsValidUTF8Character code_point then Inr i else report_loop (i + (length s - length rest)) rest)"
  by (cases s) (simp_all only: report_loop.simps list.distinct not_True_eq_False simp_thms)

text \<open>
  (C30) Validation accepts exactly the sequences of UTF-8 encodings of scalar values that are not noncharacters,
  and ends on every input without a read out of bounds.
\<close>

theorem utf8_validated: "DoIsStringUTF8 s = Inr (utf8_text s)"
proof (induction "length s" arbitrary: s rule: less_induct)
  case less
  show ?case
  proof (cases "s = []")
    case False
    then show ?thesis
    proof (cases rule: scan_step)
      case (1 n rest)
      have "length rest < length s" using 1(2) utf8_nonempty [of n] by simp
      then have "DoIsStringUTF8 rest = Inr (utf8_text rest)" by (rule less)
      moreover have "utf8_text s \<longleftrightarrow> text_char n \<and> utf8_text rest" unfolding 1(2) by (rule utf8_text_Cons [OF 1(1)])
      ultimately show ?thesis unfolding DoIsStringUTF8_step [OF False] 1(3) by (simp add: valid_character [OF 1(1)])
    next
      case (2 rest)
      then have "\<not> utf8_text s" using utf8_text_head [OF _ False] by blast
      then show ?thesis using 2 by (simp add: DoIsStringUTF8_step [OF False] sentinel_not_character del: CBU8_NEXT.simps)
    qed
  qed (simp add: utf8_text_Nil)
qed

text \<open>
  The reported index: zero for valid text; otherwise the length of a prefix that is valid text and that no
  character of text follows.
\<close>

lemma report_loop_spec:
  "utf8_text s \<and> report_loop i s = Inr 0 \<or> \<not> utf8_text s \<and> (\<exists>p t. s = p @ t \<and> utf8_text p \<and> t \<noteq> []
     \<and> (\<forall>n u. text_char n \<longrightarrow> t \<noteq> utf8 n @ u) \<and> report_loop i s = Inr (i + length p))"
proof (induction "length s" arbitrary: s i rule: less_induct)
  case less
  show ?case
  proof (cases "s = []")
    case False
    then show ?thesis
    proof (cases rule: scan_step)
      case (1 n rest)
      have short: "length rest < length s" using 1(2) utf8_nonempty [of n] by simp
      show ?thesis
      proof (cases "text_char n")
        case True
        have step: "report_loop i s = report_loop (i + length (utf8 n)) rest"
          unfolding report_step [OF False] 1(3) using True by (simp add: valid_character [OF 1(1)] 1(2))
        from less.hyps [OF short, of "i + length (utf8 n)"] show ?thesis
        proof (elim disjE conjE exE)
          assume "utf8_text rest" "report_loop (i + length (utf8 n)) rest = Inr 0"
          then show ?thesis using step True 1 by (simp add: utf8_text_Cons)
        next
          fix p t assume "\<not> utf8_text rest" "rest = p @ t" "utf8_text p" "t \<noteq> []" "\<forall>n u. text_char n \<longrightarrow> t \<noteq> utf8 n @ u"
            "report_loop (i + length (utf8 n)) rest = Inr (i + length (utf8 n) + length p)"
          then show ?thesis using step True 1
            by (intro disjI2 conjI exI [of _ "utf8 n @ p"] exI [of _ t]) (simp_all add: utf8_text_Cons)
        qed
      next
        case nt: False
        have "t \<noteq> utf8 m @ u" if "text_char m" "t = s" for m t u
        proof
          assume "t = utf8 m @ u"
          moreover have "scalar m" using that by (simp add: text_char_def)
          ultimately have "point m = point n" using next_utf8 [of m u] 1(3) that by simp
          then have "m = n" using unat_scalar [OF 1(1)] unat_scalar [OF \<open>scalar m\<close>] by metis
          then show False using nt that by simp
        qed
        moreover have "\<not> utf8_text s" using nt 1 by (simp add: utf8_text_Cons)
        moreover have "report_loop i s = Inr i" unfolding report_step [OF False] 1(3) using nt by (simp add: valid_character [OF 1(1)])
        ultimately show ?thesis using False utf8_text_Nil by (intro disjI2 conjI exI [of _ "[]"] exI [of _ s]) auto
      qed
    next
      case (2 rest)
      then have "\<not> utf8_text s" using utf8_text_head [OF _ False] by blast
      moreover have "report_loop i s = Inr i" using 2 by (simp add: report_step [OF False] sentinel_not_character del: CBU8_NEXT.simps)
      ultimately show ?thesis using 2(2) False utf8_text_Nil
        by (intro disjI2 conjI exI [of _ "[]"] exI [of _ s]) (auto simp: text_char_def)
    qed
  qed (simp add: utf8_text_Nil)
qed

text \<open>
  (C39) The reported index is zero for valid text, and for any other string the length of the longest prefix
  that is valid text: what follows it begins with no character. It is zero again where the first character
  is invalid already, so that the index does not tell such strings from valid text.
\<close>

theorem report_index_exact:
  "\<exists>i. IsStringUTF8AndReportIdx s = Inr i
    \<and> (if utf8_text s then i = 0
       else i < length s \<and> utf8_text (take i s) \<and> \<not> (\<exists>n u. text_char n \<and> drop i s = utf8 n @ u))"
proof (cases "utf8_text s")
  case True
  then show ?thesis using report_loop_spec [of s 0] by (simp add: IsStringUTF8AndReportIdx_def)
next
  case False
  then obtain p t where "s = p @ t" "utf8_text p" "t \<noteq> []" "\<forall>n u. text_char n \<longrightarrow> t \<noteq> utf8 n @ u" "report_loop 0 s = Inr (length p)"
    using report_loop_spec [of s 0] by auto
  then show ?thesis using False by (auto simp: IsStringUTF8AndReportIdx_def)
qed

section \<open>The iterator\<close>

text \<open>
  Positions are indices into the units of the view. Decoding at the end of the view reads past its units,
  which the constructor does when the view is empty.
\<close>

record utf8_iter =
  it_str :: "u8 list"
  it_array_pos :: nat
  it_next_pos :: nat
  it_char_pos :: nat
  it_char :: u32

definition next_at :: "u8 list \<Rightarrow> nat \<Rightarrow> (u32 \<times> nat) res" where
  "next_at str pos = bindE (CBU8_NEXT (drop pos str)) (\<lambda>(c, rest). Inr (c, length str - length rest))"

definition UTF8CodePointIterator :: "u8 list \<Rightarrow> utf8_iter res" where
  "UTF8CodePointIterator str = bindE (next_at str 0) (\<lambda>(c, next_pos).
     Inr \<lparr>it_str = str, it_array_pos = 0, it_next_pos = next_pos, it_char_pos = 0, it_char = c\<rparr>)"

definition iter_end :: "utf8_iter \<Rightarrow> bool" where
  "iter_end it \<longleftrightarrow> it_array_pos it = length (it_str it)"

definition Advance :: "utf8_iter \<Rightarrow> (bool \<times> utf8_iter) res" where
  "Advance it =
     (if it_array_pos it \<ge> length (it_str it) then Inr (False, it)
      else let it = it\<lparr>it_array_pos := it_next_pos it, it_char_pos := it_char_pos it + 1\<rparr> in
        if it_next_pos it < length (it_str it) then
          bindE (next_at (it_str it) (it_next_pos it)) (\<lambda>(c, next_pos). Inr (True, it\<lparr>it_next_pos := next_pos, it_char := c\<rparr>))
        else Inr (True, it))"

fun peek_loop :: "u8 list \<Rightarrow> nat \<Rightarrow> nat \<Rightarrow> u32 \<Rightarrow> u32 res" where
  "peek_loop str 0 the_pos the_char = Inr the_char"
| "peek_loop str (Suc n) the_pos the_char =
     (if the_pos \<ge> length str then Inr 0
      else bindE (next_at str the_pos) (\<lambda>(the_char, the_pos). peek_loop str n the_pos the_char))"

definition PeekCharacter :: "utf8_iter \<Rightarrow> nat \<Rightarrow> u32 res" where
  "PeekCharacter it number_of_code_points =
     (if it_array_pos it \<ge> length (it_str it) then Inr 0
      else bindE (next_at (it_str it) (it_array_pos it)) (\<lambda>(the_char, the_pos).
        peek_loop (it_str it) number_of_code_points the_pos the_char))"

fun advance_times :: "nat \<Rightarrow> utf8_iter \<Rightarrow> utf8_iter res" where
  "advance_times 0 it = Inr it"
| "advance_times (Suc k) it = bindE (advance_times k it) (\<lambda>it. bindE (Advance it) (\<lambda>(_, it). Inr it))"

text \<open>Where code point \<open>k\<close> of a text begins.\<close>

definition offset_of :: "nat list \<Rightarrow> nat \<Rightarrow> nat" where
  "offset_of ps k = length (concat (map utf8 (take k ps)))"

definition iter_at :: "nat list \<Rightarrow> nat \<Rightarrow> utf8_iter \<Rightarrow> bool" where
  "iter_at ps k it \<longleftrightarrow> it_str it = concat (map utf8 ps) \<and> it_char_pos it = k \<and> it_array_pos it = offset_of ps k
     \<and> (k < length ps \<longrightarrow> it_char it = point (ps ! k) \<and> it_next_pos it = offset_of ps (Suc k))"

lemma offset_of_Suc: "k < length ps \<Longrightarrow> offset_of ps (Suc k) = offset_of ps k + length (utf8 (ps ! k))"
  by (simp add: offset_of_def take_Suc_conv_app_nth)

lemma offset_of_end: "offset_of ps (length ps) = length (concat (map utf8 ps))"
  by (simp add: offset_of_def)

lemma text_at: "concat (map utf8 ps) = concat (map utf8 (take k ps)) @ concat (map utf8 (drop k ps))"
  by (metis append_take_drop_id concat_append map_append)

lemma offset_of_less:
  assumes "k \<le> length ps"
  shows "offset_of ps k < length (concat (map utf8 ps)) \<longleftrightarrow> k < length ps"
proof (cases "k < length ps")
  case True
  have "length (concat (map utf8 ps)) = offset_of ps k + length (concat (map utf8 (drop k ps)))"
    by (subst text_at [of ps k]) (simp add: offset_of_def)
  moreover have "concat (map utf8 (drop k ps)) \<noteq> []" using True utf8_nonempty by (simp add: Cons_nth_drop_Suc [symmetric])
  ultimately show ?thesis using True by simp
qed (use assms offset_of_end in simp)

lemma next_at_offset:
  assumes "list_all scalar ps" and "k < length ps"
  shows "next_at (concat (map utf8 ps)) (offset_of ps k) = Inr (point (ps ! k), offset_of ps (Suc k))"
proof -
  have d: "drop (offset_of ps k) (concat (map utf8 ps)) = utf8 (ps ! k) @ concat (map utf8 (drop (Suc k) ps))"
    by (subst text_at [of ps k]) (use assms(2) in \<open>simp add: offset_of_def Cons_nth_drop_Suc [symmetric]\<close>)
  have "length (concat (map utf8 ps)) = offset_of ps (Suc k) + length (concat (map utf8 (drop (Suc k) ps)))"
    by (subst text_at [of ps "Suc k"]) (simp add: offset_of_def)
  then show ?thesis
    using next_utf8 [of "ps ! k"] assms unfolding next_at_def d by (simp add: list_all_length)
qed

lemma iter_starts:
  assumes "list_all scalar ps" and "ps \<noteq> []"
  shows "\<exists>it. UTF8CodePointIterator (concat (map utf8 ps)) = Inr it \<and> iter_at ps 0 it"
proof -
  have "offset_of ps 0 = 0" by (simp add: offset_of_def)
  then show ?thesis using next_at_offset [OF assms(1), of 0] assms(2) by (simp add: UTF8CodePointIterator_def iter_at_def)
qed

lemma iter_advances:
  assumes "list_all scalar ps" and "iter_at ps k it" and "k < length ps"
  shows "\<exists>it'. Advance it = Inr (True, it') \<and> iter_at ps (Suc k) it'"
  using assms(2,3) next_at_offset [OF assms(1), of "Suc k"] offset_of_less [of k ps] offset_of_less [of "Suc k" ps]
  by (auto simp: Advance_def iter_at_def Let_def)

lemma iter_walks:
  assumes "list_all scalar ps" and "iter_at ps 0 it" and "k \<le> length ps"
  shows "\<exists>it'. advance_times k it = Inr it' \<and> iter_at ps k it'"
  using assms(3)
proof (induction k)
  case (Suc k)
  then obtain it' where "advance_times k it = Inr it'" "iter_at ps k it'" by auto
  moreover obtain it'' where "Advance it' = Inr (True, it'')" "iter_at ps (Suc k) it''"
    using iter_advances [OF assms(1) calculation(2)] Suc.prems by auto
  ultimately show ?case by auto
qed (use assms(2) in simp)

lemma peek_loop_reads:
  assumes "list_all scalar ps" and "j < length ps"
  shows "peek_loop (concat (map utf8 ps)) n (offset_of ps (Suc j)) (point (ps ! j)) =
    Inr (if j + n < length ps then point (ps ! (j + n)) else 0)"
  using assms(2)
proof (induction n arbitrary: j)
  case (Suc n)
  show ?case
  proof (cases "Suc j < length ps")
    case True
    then show ?thesis using Suc.IH [of "Suc j"] offset_of_less [of "Suc j" ps] next_at_offset [OF assms(1) True] by simp
  next
    case False
    then show ?thesis using Suc.prems offset_of_less [of "Suc j" ps] by simp
  qed
qed (use assms in simp)

lemma iter_peeks:
  assumes "list_all scalar ps" and "iter_at ps k it" and "k \<le> length ps"
  shows "PeekCharacter it n = Inr (if k + n < length ps then point (ps ! (k + n)) else 0)"
  using assms(2,3) offset_of_less [OF assms(3)] next_at_offset [OF assms(1), of k] peek_loop_reads [OF assms(1), of k n]
  by (auto simp: PeekCharacter_def iter_at_def)

text \<open>
  (C31) On a non-empty text the iterator stands, after \<open>k\<close> advances, at code point \<open>k\<close>: its positions count code
  points and units, it is at the end exactly past the last one, and peeking \<open>n\<close> code points ahead gives that
  code point, or zero beyond the end.
\<close>

theorem code_point_iterator:
  assumes "list_all scalar ps" and "ps \<noteq> []" and "k \<le> length ps"
  shows "\<exists>it. bindE (UTF8CodePointIterator (concat (map utf8 ps))) (advance_times k) = Inr it
    \<and> it_char_pos it = k \<and> it_array_pos it = offset_of ps k \<and> (iter_end it \<longleftrightarrow> k = length ps)
    \<and> (k = length ps \<or> it_char it = point (ps ! k))
    \<and> (\<forall>n. PeekCharacter it n = Inr (if k + n < length ps then point (ps ! (k + n)) else 0))"
proof -
  obtain it where it: "UTF8CodePointIterator (concat (map utf8 ps)) = Inr it" "iter_at ps 0 it"
    using iter_starts [OF assms(1,2)] by blast
  obtain it' where w: "advance_times k it = Inr it'" "iter_at ps k it'" using iter_walks [OF assms(1) it(2) assms(3)] by blast
  have e: "iter_end it' \<longleftrightarrow> k = length ps"
  proof -
    have "offset_of ps k \<le> length (concat (map utf8 ps))" by (subst text_at [of ps k]) (simp add: offset_of_def)
    then show ?thesis using w(2) offset_of_less [OF assms(3)] assms(3) by (auto simp: iter_end_def iter_at_def)
  qed
  show ?thesis
    using it(1) w e iter_peeks [OF assms(1) w(2) assms(3)] assms(3) by (intro exI [of _ it']) (auto simp: iter_at_def)
qed

theorem code_point_iterator_witness:
  "\<exists>it. bindE (UTF8CodePointIterator [0x48, 0xE4, 0xB8, 0x96]) (advance_times 1) = Inr it \<and> it_array_pos it = 1
    \<and> it_char it = 0x4E16 \<and> PeekCharacter it 1 = Inr 0"
proof -
  have "concat (map utf8 [0x48, 0x4E16]) = [0x48, 0xE4, 0xB8, 0x96]" by (simp add: utf8_def byte_def)
  moreover have "offset_of [0x48, 0x4E16] 1 = 1" by (simp add: offset_of_def utf8_def)
  moreover have "list_all scalar [0x48, 0x4E16]" by (simp add: scalar_def)
  ultimately show ?thesis using code_point_iterator [of "[0x48, 0x4E16]" 1] by (auto simp: point_def)
qed

end
