(* ===== verification/Mpsc_Queue.thy ===== *)
theory Mpsc_Queue
  imports Storage
begin

text \<open>
  \<open>src/base/containers/mpsc_queue.h\<close>: the queue of many producers and one consumer.

  A producer makes a node, exchanges the head for it and then links it behind the head it got;
  between the two steps the chain is broken. The consumer walks the chain from the tail, which is
  a sentinel without a value. Every atomic access is one step, and the steps of all threads
  interleave in any order; the model is of sequentially consistent accesses, and the allocator may hand out any
  address that is free, a deleted node's again.
\<close>

section \<open>Nodes and the operations on them\<close>

record 'a qnode =
  q_value :: "'a cell"
  q_next :: "nat option"

record 'a mpsc =
  q_nodes :: "nat \<Rightarrow> 'a qnode option"
  q_head :: nat
  q_tail :: nat

definition Node_sentinel :: "'a qnode" where
  "Node_sentinel = \<lparr>q_value = Raw, q_next = None\<rparr>"

definition Node_value :: "'a \<Rightarrow> 'a qnode" where
  "Node_value v = \<lparr>q_value = Obj v, q_next = None\<rparr>"

text \<open>The constructor \<open>new Node(args...)\<close> selects: without arguments it is the sentinel's.\<close>

definition Node_args :: "('b list \<Rightarrow> 'a) \<Rightarrow> 'b list \<Rightarrow> 'a qnode" where
  "Node_args build args = (if args = [] then Node_sentinel else Node_value (build args))"

definition qnode_at :: "'a mpsc \<Rightarrow> nat \<Rightarrow> 'a qnode res" where
  "qnode_at q a = (case q_nodes q a of None \<Rightarrow> Inl Lifetime | Some n \<Rightarrow> Inr n)"

definition put_node :: "'a mpsc \<Rightarrow> nat \<Rightarrow> 'a qnode \<Rightarrow> 'a mpsc" where
  "put_node q a n = q\<lparr>q_nodes := (q_nodes q)(a \<mapsto> n)\<rparr>"

definition delete_qnode :: "'a mpsc \<Rightarrow> nat \<Rightarrow> 'a mpsc res" where
  "delete_qnode q a = bindE (qnode_at q a) (\<lambda>n. bindE (ensure (q_value n = Raw) Leak) (\<lambda>_.
     Inr (q\<lparr>q_nodes := (q_nodes q)(a := None)\<rparr>)))"

definition load_next :: "'a mpsc \<Rightarrow> nat \<Rightarrow> nat option res" where
  "load_next q a = bindE (qnode_at q a) (\<lambda>n. Inr (q_next n))"

definition store_next :: "'a mpsc \<Rightarrow> nat \<Rightarrow> nat \<Rightarrow> 'a mpsc res" where
  "store_next q a b = bindE (qnode_at q a) (\<lambda>n. Inr (put_node q a (n\<lparr>q_next := Some b\<rparr>)))"

definition read_value :: "'a mpsc \<Rightarrow> nat \<Rightarrow> 'a res" where
  "read_value q a = bindE (qnode_at q a) (\<lambda>n. case q_value n of Obj v \<Rightarrow> Inr v | _ \<Rightarrow> Inl Lifetime)"

definition move_value :: "'a mpsc \<Rightarrow> nat \<Rightarrow> ('a \<times> 'a mpsc) res" where
  "move_value q a = bindE (read_value q a) (\<lambda>v. bindE (qnode_at q a) (\<lambda>n.
     Inr (v, put_node q a (n\<lparr>q_value := Moved\<rparr>))))"

definition destroy_value :: "'a mpsc \<Rightarrow> nat \<Rightarrow> 'a mpsc res" where
  "destroy_value q a = bindE (qnode_at q a) (\<lambda>n. bindE (ensure (q_value n \<noteq> Raw) Lifetime) (\<lambda>_.
     Inr (put_node q a (n\<lparr>q_value := Raw\<rparr>))))"

section \<open>The calls, one atomic access at a time\<close>

definition MPSC_init :: "nat \<Rightarrow> 'a mpsc" where
  "MPSC_init a = \<lparr>q_nodes = [a \<mapsto> Node_sentinel], q_head = a, q_tail = a\<rparr>"

text \<open>Where a producer stands in \<open>enqueue\<close> or \<open>emplace\<close>, with the locals of the call.\<close>

datatype producer = Idle | Made nat | Linking nat nat

fun enqueue_step :: "'a mpsc \<Rightarrow> producer \<Rightarrow> ('a mpsc \<times> producer) res" where
  "enqueue_step q Idle = Inr (q, Idle)"
| "enqueue_step q (Made node) = Inr (q\<lparr>q_head := node\<rparr>, Linking (q_head q) node)"
| "enqueue_step q (Linking prev_head node) = bindE (store_next q prev_head node) (\<lambda>q. Inr (q, Idle))"

text \<open>
  Where the consumer stands in \<open>dequeue\<close> (\<open>keep\<close> is True) or \<open>removeFront\<close>: after loading the tail,
  after loading its next, after moving out and destroying the value, after storing the new tail.
\<close>

datatype consumer = Resting | AtTail bool nat | AtNext bool nat nat | Emptied nat nat | Advanced nat

datatype 'a answer = Running | NothingThere | Took "'a option"

fun dequeue_step :: "'a mpsc \<Rightarrow> consumer \<Rightarrow> ('a mpsc \<times> consumer \<times> 'a answer) res" where
  "dequeue_step q Resting = Inr (q, Resting, Running)"
| "dequeue_step q (AtTail keep t) = bindE (load_next q t) (\<lambda>next.
     case next of None \<Rightarrow> Inr (q, Resting, NothingThere) | Some n \<Rightarrow> Inr (q, AtNext keep t n, Running))"
| "dequeue_step q (AtNext keep t n) =
     bindE (if keep then bindE (move_value q n) (\<lambda>(v, q). Inr (Some v, q)) else Inr (None, q)) (\<lambda>(out, q).
     bindE (destroy_value q n) (\<lambda>q. Inr (q, Emptied t n, Took out)))"
| "dequeue_step q (Emptied t n) = Inr (q\<lparr>q_tail := n\<rparr>, Advanced t, Running)"
| "dequeue_step q (Advanced t) = bindE (delete_qnode q t) (\<lambda>q. Inr (q, Resting, Running))"

section \<open>The calls that only read, and the destructor\<close>

definition MPSC_peek :: "'a mpsc \<Rightarrow> 'a option res" where
  "MPSC_peek q = bindE (load_next q (q_tail q)) (\<lambda>next.
     case next of None \<Rightarrow> Inr None | Some n \<Rightarrow> bindE (read_value q n) (\<lambda>v. Inr (Some v)))"

definition MPSC_empty :: "'a mpsc \<Rightarrow> bool res" where
  "MPSC_empty q = bindE (load_next q (q_tail q)) (\<lambda>next. Inr (next = None))"

text \<open>\<open>begin\<close> to \<open>end\<close> with \<open>++\<close> and \<open>*\<close>; the walk may take as many steps as \<open>fuel\<close>.\<close>

fun iterate_nodes :: "nat \<Rightarrow> 'a mpsc \<Rightarrow> nat option \<Rightarrow> 'a list res" where
  "iterate_nodes fuel q None = Inr []"
| "iterate_nodes 0 q (Some n) = Inl Diverges"
| "iterate_nodes (Suc fuel) q (Some n) = bindE (read_value q n) (\<lambda>v. bindE (load_next q n) (\<lambda>next.
     bindE (iterate_nodes fuel q next) (\<lambda>vs. Inr (v # vs))))"

definition MPSC_iterate :: "nat \<Rightarrow> 'a mpsc \<Rightarrow> 'a list res" where
  "MPSC_iterate fuel q = bindE (load_next q (q_tail q)) (iterate_nodes fuel q)"

fun size_loop :: "nat \<Rightarrow> 'a mpsc \<Rightarrow> nat option \<Rightarrow> nat \<Rightarrow> nat res" where
  "size_loop fuel q None count = Inr count"
| "size_loop 0 q (Some current) count = Inl Diverges"
| "size_loop (Suc fuel) q (Some current) count = bindE (load_next q current) (\<lambda>next.
     size_loop fuel q next ((count + 1) mod 2 ^ 64))"

definition MPSC_size_approx :: "nat \<Rightarrow> 'a mpsc \<Rightarrow> nat res" where
  "MPSC_size_approx fuel q = bindE (load_next q (q_tail q)) (\<lambda>next. size_loop fuel q next 0)"

fun destroy_loop :: "nat \<Rightarrow> 'a mpsc \<Rightarrow> nat option \<Rightarrow> 'a mpsc res" where
  "destroy_loop fuel q None = Inr q"
| "destroy_loop 0 q (Some node) = Inl Diverges"
| "destroy_loop (Suc fuel) q (Some node) = bindE (load_next q node) (\<lambda>after.
     bindE (destroy_value q node) (\<lambda>q. bindE (delete_qnode q node) (\<lambda>q. destroy_loop fuel q after)))"

definition MPSC_destroy :: "nat \<Rightarrow> 'a mpsc \<Rightarrow> 'a mpsc res" where
  "MPSC_destroy fuel q = bindE (load_next q (q_tail q)) (\<lambda>next.
     bindE (delete_qnode q (q_tail q)) (\<lambda>q. destroy_loop fuel q next))"

section \<open>The threads together\<close>

text \<open>
  The queue, its threads, and two histories that no code reads: the values in the order of the
  exchanges of the head, and the values taken.
\<close>

record 'a qsys =
  queue :: "'a mpsc"
  producers :: "nat \<Rightarrow> producer"
  reader :: consumer
  entered :: "'a list"
  left_queue :: "'a list"

definition qsys_init :: "nat \<Rightarrow> 'a qsys" where
  "qsys_init a = \<lparr>queue = MPSC_init a, producers = (\<lambda>_. Idle), reader = Resting, entered = [], left_queue = []\<rparr>"

text \<open>What an exchange adds to the history, and what taking a value does.\<close>

definition enters :: "'a mpsc \<Rightarrow> producer \<Rightarrow> 'a list" where
  "enters q pc = (case pc of Made n \<Rightarrow> (case read_value q n of Inr v \<Rightarrow> [v] | Inl _ \<Rightarrow> []) | _ \<Rightarrow> [])"

definition leaves :: "'a mpsc \<Rightarrow> consumer \<Rightarrow> 'a list" where
  "leaves q pc = (case pc of AtNext keep t n \<Rightarrow> (case read_value q n of Inr v \<Rightarrow> [v] | Inl _ \<Rightarrow> []) | _ \<Rightarrow> [])"

inductive mpsc_step :: "'a qsys \<Rightarrow> 'a qsys res \<Rightarrow> bool" where
  call: "producers c p = Idle \<Longrightarrow> q_nodes (queue c) a = None \<Longrightarrow>
     mpsc_step c (Inr (c\<lparr>queue := put_node (queue c) a (Node_value v), producers := (producers c)(p := Made a)\<rparr>))"
| produce: "producers c p \<noteq> Idle \<Longrightarrow>
     mpsc_step c (bindE (enqueue_step (queue c) (producers c p)) (\<lambda>(q, pc).
       Inr (c\<lparr>queue := q, producers := (producers c)(p := pc), entered := entered c @ enters (queue c) (producers c p)\<rparr>)))"
| ask: "reader c = Resting \<Longrightarrow> mpsc_step c (Inr (c\<lparr>reader := AtTail keep (q_tail (queue c))\<rparr>))"
| consume: "reader c \<noteq> Resting \<Longrightarrow>
     mpsc_step c (bindE (dequeue_step (queue c) (reader c)) (\<lambda>(q, pc, ans).
       Inr (c\<lparr>queue := q, reader := pc, left_queue := left_queue c @ leaves (queue c) (reader c)\<rparr>)))"

inductive mpsc_reach :: "'a qsys \<Rightarrow> bool" where
  start: "mpsc_reach (qsys_init a)"
| step: "mpsc_reach c \<Longrightarrow> mpsc_step c (Inr d) \<Longrightarrow> mpsc_reach d"

inductive_cases mpsc_stepE: "mpsc_step c r"

section \<open>The chain\<close>

definition val_at :: "'a mpsc \<Rightarrow> nat \<Rightarrow> 'a cell option" where
  "val_at q a = map_option q_value (q_nodes q a)"

definition nxt :: "'a mpsc \<Rightarrow> nat \<Rightarrow> nat option" where
  "nxt q a = (case q_nodes q a of None \<Rightarrow> None | Some n \<Rightarrow> q_next n)"

text \<open>Two neighbours of the chain are linked, or a producer is about to link them.\<close>

definition linked :: "'a mpsc \<Rightarrow> (nat \<Rightarrow> producer) \<Rightarrow> nat \<Rightarrow> nat \<Rightarrow> bool" where
  "linked q P x y \<longleftrightarrow> nxt q x = Some y \<or> (\<exists>p. P p = Linking x y)"

definition chain_ok :: "'a mpsc \<Rightarrow> (nat \<Rightarrow> producer) \<Rightarrow> nat list \<Rightarrow> bool" where
  "chain_ok q P ns \<longleftrightarrow> ns \<noteq> [] \<and> hd ns = q_tail q \<and> last ns = q_head q \<and> distinct ns \<and> set ns \<subseteq> dom (q_nodes q)
     \<and> successively (linked q P) ns \<and> nxt q (last ns) = None"

text \<open>A node not yet in the chain belongs to one producer; a missing link to one producer.\<close>

definition producers_ok :: "'a mpsc \<Rightarrow> (nat \<Rightarrow> producer) \<Rightarrow> nat list \<Rightarrow> bool" where
  "producers_ok q P ns \<longleftrightarrow>
     (\<forall>p a. P p = Made a \<longrightarrow> a \<notin> set ns \<and> (\<exists>v. q_nodes q a = Some (Node_value v)))
   \<and> (\<forall>p p' a. P p = Made a \<longrightarrow> P p' = Made a \<longrightarrow> p = p')
   \<and> (\<forall>p x y. P p = Linking x y \<longrightarrow> x \<in> set (butlast ns) \<and> nxt q x = None)
   \<and> (\<forall>p p' x y y'. P p = Linking x y \<longrightarrow> P p' = Linking x y' \<longrightarrow> p = p')"

definition reader_ok :: "'a mpsc \<Rightarrow> (nat \<Rightarrow> producer) \<Rightarrow> nat list \<Rightarrow> consumer \<Rightarrow> bool" where
  "reader_ok q P ns r = (case r of
       Resting \<Rightarrow> True
     | AtTail keep t \<Rightarrow> t = q_tail q
     | AtNext keep t n \<Rightarrow> t = q_tail q \<and> nxt q t = Some n
     | Emptied t n \<Rightarrow> t = q_tail q \<and> nxt q t = Some n
     | Advanced t \<Rightarrow> t \<notin> set ns \<and> val_at q t = Some Raw \<and> (\<forall>p. P p \<noteq> Made t))"

text \<open>The nodes in front whose value is gone: the sentinel, and the next one while it is taken.\<close>

definition emptied :: "consumer \<Rightarrow> nat" where
  "emptied r = (case r of Emptied t n \<Rightarrow> 2 | _ \<Rightarrow> 1)"

definition values_ok :: "'a mpsc \<Rightarrow> nat list \<Rightarrow> consumer \<Rightarrow> 'a list \<Rightarrow> bool" where
  "values_ok q ns r vs \<longleftrightarrow> map (val_at q) ns = replicate (emptied r) (Some Raw) @ map (\<lambda>v. Some (Obj v)) vs"

definition leaving :: "consumer \<Rightarrow> nat set" where
  "leaving r = (case r of Advanced t \<Rightarrow> {t} | _ \<Rightarrow> {})"

definition chain_nodes_ok :: "'a mpsc \<Rightarrow> (nat \<Rightarrow> producer) \<Rightarrow> nat list \<Rightarrow> consumer \<Rightarrow> bool" where
  "chain_nodes_ok q P ns r \<longleftrightarrow> dom (q_nodes q) = set ns \<union> {a. \<exists>p. P p = Made a} \<union> leaving r"

definition mpsc_inv :: "'a qsys \<Rightarrow> nat list \<Rightarrow> 'a list \<Rightarrow> bool" where
  "mpsc_inv c ns vs \<longleftrightarrow> chain_ok (queue c) (producers c) ns \<and> producers_ok (queue c) (producers c) ns
     \<and> reader_ok (queue c) (producers c) ns (reader c) \<and> values_ok (queue c) ns (reader c) vs
     \<and> chain_nodes_ok (queue c) (producers c) ns (reader c) \<and> entered c = left_queue c @ vs"

lemmas mpsc_inv_defs = mpsc_inv_def chain_ok_def producers_ok_def reader_ok_def values_ok_def chain_nodes_ok_def

lemma put_node_views [simp]:
  "nxt (put_node q a n) b = (if b = a then q_next n else nxt q b)"
  "val_at (put_node q a n) b = (if b = a then Some (q_value n) else val_at q b)"
  "q_nodes (put_node q a n) b = (if b = a then Some n else q_nodes q b)"
  "dom (q_nodes (put_node q a n)) = insert a (dom (q_nodes q))"
  "q_head (put_node q a n) = q_head q" "q_tail (put_node q a n) = q_tail q"
  by (auto simp: put_node_def nxt_def val_at_def)

lemma head_tail_views [simp]:
  "nxt (q\<lparr>q_head := a\<rparr>) b = nxt q b" "val_at (q\<lparr>q_head := a\<rparr>) b = val_at q b"
  "nxt (q\<lparr>q_tail := a\<rparr>) b = nxt q b" "val_at (q\<lparr>q_tail := a\<rparr>) b = val_at q b"
  by (simp_all add: nxt_def val_at_def)

lemma head_tail_val [simp]: "val_at (q\<lparr>q_head := a\<rparr>) = val_at q" "val_at (q\<lparr>q_tail := a\<rparr>) = val_at q"
  by (simp_all add: fun_eq_iff)

lemma qnode_at_some: "q_nodes q a = Some n \<Longrightarrow> qnode_at q a = Inr n"
  by (simp add: qnode_at_def)

lemma load_next_live: "a \<in> dom (q_nodes q) \<Longrightarrow> load_next q a = Inr (nxt q a)"
  by (auto simp: load_next_def qnode_at_def nxt_def)

lemma val_at_eq: "val_at q a = Some v \<longleftrightarrow> (\<exists>n. q_nodes q a = Some n \<and> q_value n = v)"
  by (auto simp: val_at_def)

lemma read_value_Obj: "val_at q a = Some (Obj v) \<Longrightarrow> read_value q a = Inr v"
  by (auto simp: val_at_eq read_value_def qnode_at_def)

lemma inv_init: "mpsc_inv (qsys_init a) [a] []"
  by (simp add: mpsc_inv_defs qsys_init_def MPSC_init_def Node_sentinel_def nxt_def val_at_def emptied_def leaving_def)

text \<open>Another thread's step keeps the links between the nodes of the chain.\<close>

lemma chain_ok_step:
  assumes "chain_ok q P ns" and "q_head q' = q_head q" and "q_tail q' = q_tail q" and "dom (q_nodes q) \<subseteq> dom (q_nodes q')"
    and "\<And>x y. x \<in> set ns \<Longrightarrow> linked q P x y \<Longrightarrow> linked q' P' x y" and "nxt q' (last ns) = None"
  shows "chain_ok q' P' ns"
proof -
  have "set ns \<subseteq> dom (q_nodes q')" using assms(1,4) unfolding chain_ok_def by blast
  then show ?thesis using assms(1-3,6) by (auto simp: chain_ok_def intro: successively_mono [OF _ assms(5)])
qed

lemma linked_other:
  assumes "linked q P x y" and "nxt q' x = nxt q x" and "\<And>x y. P p \<noteq> Linking x y"
  shows "linked q' (P(p := pc)) x y"
  using assms unfolding linked_def by (metis fun_upd_other)

lemma butlast_not_last: "distinct ns \<Longrightarrow> x \<in> set (butlast ns) \<Longrightarrow> x \<noteq> last ns"
  by (cases ns rule: rev_cases) auto

lemma chain_okD:
  assumes "chain_ok q P ns"
  shows "ns \<noteq> []" and "hd ns = q_tail q" and "q_head q = last ns" and "distinct ns" and "set ns \<subseteq> dom (q_nodes q)"
    and "successively (linked q P) ns" and "nxt q (last ns) = None" and "last ns \<in> set ns" and "last ns \<notin> set (butlast ns)"
  using assms unfolding chain_ok_def by (metis butlast_not_last last_in_set)+

lemma producers_okD:
  assumes "producers_ok q P ns"
  shows "P p = Made a \<Longrightarrow> a \<notin> set ns" and "P p = Made a \<Longrightarrow> \<exists>v. q_nodes q a = Some (Node_value v)"
    and "P p = Linking x y \<Longrightarrow> x \<in> set (butlast ns)" and "P p = Linking x y \<Longrightarrow> nxt q x = None"
    and "P p = Linking x y \<Longrightarrow> P p' = Linking x y' \<Longrightarrow> p = p'" and "P p = Made a \<Longrightarrow> P p' = Made a \<Longrightarrow> p = p'"
  using assms unfolding producers_ok_def by blast+

lemma producers_okI:
  assumes "\<And>p a. P p = Made a \<Longrightarrow> a \<notin> set ns \<and> (\<exists>v. q_nodes q a = Some (Node_value v))"
    and "\<And>p p' a. P p = Made a \<Longrightarrow> P p' = Made a \<Longrightarrow> p = p'"
    and "\<And>p x y. P p = Linking x y \<Longrightarrow> x \<in> set (butlast ns) \<and> nxt q x = None"
    and "\<And>p p' x y y'. P p = Linking x y \<Longrightarrow> P p' = Linking x y' \<Longrightarrow> p = p'"
  shows "producers_ok q P ns"
  unfolding producers_ok_def
  by (intro conjI allI impI)
    ((rule assms(2) assms(4), assumption+) | (drule assms(1), blast) | (drule assms(3), blast))+

text \<open>The nodes that wait for their exchange, after a producer moves on.\<close>

lemma made_by:
  "{a. \<exists>p'. (P(p := pc)) p' = Made a} = {a. pc = Made a} \<union> {a. \<exists>p'. p' \<noteq> p \<and> P p' = Made a}"
  by (auto split: if_splits)

lemma made_others:
  assumes "\<And>a. P p \<noteq> Made a"
  shows "{a. \<exists>p'. p' \<noteq> p \<and> P p' = Made a} = {a. \<exists>p'. P p' = Made a}"
  using assms by (metis (lifting))

lemma made_one:
  assumes "P p = Made a"
  shows "{b. \<exists>p'. P p' = Made b} = insert a {b. \<exists>p'. p' \<noteq> p \<and> P p' = Made b}"
proof (intro equalityI subsetI)
  fix b assume "b \<in> {b. \<exists>p'. P p' = Made b}"
  then obtain p' where "P p' = Made b" by blast
  then show "b \<in> insert a {b. \<exists>p'. p' \<noteq> p \<and> P p' = Made b}" using assms by (cases "p' = p") auto
qed (use assms in auto)

lemma inv_call:
  assumes "mpsc_inv c ns vs" and "producers c p = Idle" and "q_nodes (queue c) a = None"
  shows "mpsc_inv (c\<lparr>queue := put_node (queue c) a (Node_value v), producers := (producers c)(p := Made a)\<rparr>) ns vs"
proof -
  let ?q = "queue c" and ?P = "producers c" and ?r = "reader c"
  let ?q' = "put_node ?q a (Node_value v)" and ?P' = "?P(p := Made a)"
  have I: "chain_ok ?q ?P ns" "producers_ok ?q ?P ns" "reader_ok ?q ?P ns ?r" "values_ok ?q ns ?r vs" "chain_nodes_ok ?q ?P ns ?r"
    "entered c = left_queue c @ vs" using assms(1) by (simp_all add: mpsc_inv_def)
  have a: "a \<notin> set ns" using I(1) assms(3) by (auto simp: chain_ok_def)
  have n: "nxt ?q a = None" "val_at ?q a = None" "\<And>p'. ?P p' \<noteq> Made a"
    using assms(3) producers_okD(2) [OF I(2)] by (auto simp: nxt_def val_at_def) fastforce
  have "chain_ok ?q' ?P' ns"
    using I(1) a by (intro chain_ok_step [OF I(1)] linked_other) (auto simp: assms(2) chain_ok_def Node_value_def)
  moreover have "producers_ok ?q' ?P' ns"
    by (rule producers_okI) (use a n producers_okD [OF I(2)] in \<open>auto simp: Node_value_def split: if_splits\<close>)
  moreover have "reader_ok ?q' ?P' ns ?r"
    using I(3) n by (auto simp: reader_ok_def split: consumer.splits)
  moreover have "values_ok ?q' ns ?r vs"
  proof -
    have "map (val_at ?q') ns = map (val_at ?q) ns" using a by auto
    then show ?thesis using I(4) by (simp only: values_ok_def)
  qed
  moreover have "chain_nodes_ok ?q' ?P' ns ?r"
    using I(5) made_others [of ?P p] assms(2) unfolding chain_nodes_ok_def made_by put_node_views by auto
  ultimately show ?thesis using I(6) by (simp add: mpsc_inv_def)
qed

lemma inv_exchange:
  assumes "mpsc_inv c ns vs" and "producers c p = Made a"
  obtains v where "read_value (queue c) a = Inr v"
    and "mpsc_inv (c\<lparr>queue := (queue c)\<lparr>q_head := a\<rparr>, producers := (producers c)(p := Linking (q_head (queue c)) a),
           entered := entered c @ [v]\<rparr>) (ns @ [a]) (vs @ [v])"
proof -
  let ?q = "queue c" and ?P = "producers c" and ?r = "reader c"
  let ?q' = "?q\<lparr>q_head := a\<rparr>" and ?P' = "?P(p := Linking (q_head ?q) a)"
  have I: "chain_ok ?q ?P ns" "producers_ok ?q ?P ns" "reader_ok ?q ?P ns ?r" "values_ok ?q ns ?r vs" "chain_nodes_ok ?q ?P ns ?r"
    "entered c = left_queue c @ vs" using assms(1) by (simp_all add: mpsc_inv_def)
  obtain v where v: "q_nodes ?q a = Some (Node_value v)" "a \<notin> set ns" using producers_okD(1,2) [OF I(2) assms(2)] by blast
  have V: "read_value ?q a = Inr v" "val_at ?q a = Some (Obj v)" "nxt ?q a = None"
    using v by (simp_all add: read_value_def qnode_at_def val_at_def nxt_def Node_value_def)
  have last: "q_head ?q = last ns" "ns \<noteq> []" "last ns \<in> set ns" "nxt ?q (last ns) = None" "last ns \<notin> set (butlast ns)"
    using chain_okD [OF I(1)] by blast+
  have "chain_ok ?q' ?P' (ns @ [a])"
  proof -
    have "linked ?q' ?P' x y" if "linked ?q ?P x y" for x y
      by (rule linked_other [OF that]) (simp_all add: assms(2))
    then have "successively (linked ?q' ?P') ns"
      using I(1) by (auto simp: chain_ok_def intro: successively_mono)
    moreover have "linked ?q' ?P' (last ns) a" unfolding linked_def last(1) by auto
    ultimately show ?thesis using I(1) v V last(2) by (auto simp: chain_ok_def successively_append_iff)
  qed
  moreover have "producers_ok ?q' ?P' (ns @ [a])"
  proof (rule producers_okI)
    fix p' b assume "?P' p' = Made b"
    then have "p' \<noteq> p" "?P p' = Made b" by (auto split: if_splits)
    then show "b \<notin> set (ns @ [a]) \<and> (\<exists>v. q_nodes ?q' b = Some (Node_value v))"
      using producers_okD [OF I(2)] assms(2) by fastforce
  next
    fix p' x y assume "?P' p' = Linking x y"
    then show "x \<in> set (butlast (ns @ [a])) \<and> nxt ?q' x = None"
      using producers_okD(3,4) [OF I(2), of p' x y] last(2-4) in_set_butlastD [of x ns]
      unfolding last(1) by (auto simp: butlast_append split: if_splits)
  next
    fix p' p'' x y y' assume "?P' p' = Linking x y" "?P' p'' = Linking x y'"
    then show "p' = p''" using producers_okD(3,5) [OF I(2)] last(1,5) by (auto split: if_splits)
  qed (use producers_okD(6) [OF I(2)] in \<open>auto split: if_splits\<close>)
  moreover have "reader_ok ?q' ?P' (ns @ [a]) ?r"
    using I(3) assms(2) by (auto simp: reader_ok_def split: consumer.splits)
  moreover have "values_ok ?q' (ns @ [a]) ?r (vs @ [v])"
    using I(4) V(2) by (simp add: values_ok_def)
  moreover have "chain_nodes_ok ?q' ?P' (ns @ [a]) ?r"
    using I(5) unfolding chain_nodes_ok_def made_by made_one [of ?P, OF assms(2)] by auto
  ultimately show ?thesis using that [OF V(1)] I(6) by (simp add: mpsc_inv_def)
qed

lemma inv_link:
  assumes "mpsc_inv c ns vs" and "producers c p = Linking x y"
  obtains q where "store_next (queue c) x y = Inr q" and "mpsc_inv (c\<lparr>queue := q, producers := (producers c)(p := Idle)\<rparr>) ns vs"
proof -
  let ?q = "queue c" and ?P = "producers c" and ?r = "reader c"
  let ?P' = "?P(p := Idle)"
  have I: "chain_ok ?q ?P ns" "producers_ok ?q ?P ns" "reader_ok ?q ?P ns ?r" "values_ok ?q ns ?r vs" "chain_nodes_ok ?q ?P ns ?r"
    "entered c = left_queue c @ vs" using assms(1) by (simp_all add: mpsc_inv_def)
  have x: "x \<in> set (butlast ns)" "nxt ?q x = None" using producers_okD(3,4) [OF I(2) assms(2)] by simp_all
  have only: "p' = p" if "?P p' = Linking x y'" for p' y' by (rule producers_okD(5) [OF I(2) that assms(2)])
  obtain n where n: "q_nodes ?q x = Some n" using x(1) I(1) by (auto simp: chain_ok_def dest!: in_set_butlastD)
  let ?q' = "put_node ?q x (n\<lparr>q_next := Some y\<rparr>)"
  have S: "store_next ?q x y = Inr ?q'" by (simp add: store_next_def qnode_at_def n)
  have last: "x \<noteq> last ns" using x(1) chain_okD(9) [OF I(1)] by blast
  have vals: "val_at ?q' = val_at ?q" using n by (auto simp: val_at_def put_node_def)
  have "chain_ok ?q' ?P' ns"
  proof (rule chain_ok_step [OF I(1)])
    fix x' y' assume "linked ?q ?P x' y'"
    then consider "nxt ?q x' = Some y'" | p' where "?P p' = Linking x' y'" unfolding linked_def by blast
    then show "linked ?q' ?P' x' y'"
    proof cases
      case 1
      then show ?thesis using x(2) by (auto simp: linked_def)
    next
      case 2
      show ?thesis
      proof (cases "p' = p")
        case True
        then show ?thesis using 2 assms(2) by (simp add: linked_def)
      next
        case False
        then have "?P' p' = Linking x' y'" using 2 by simp
        then show ?thesis unfolding linked_def by blast
      qed
    qed
  qed (use I(1) last in \<open>auto simp: chain_ok_def\<close>)
  moreover have "producers_ok ?q' ?P' ns"
  proof (rule producers_okI)
    fix p' b assume "?P' p' = Made b"
    then have "?P p' = Made b" by (simp split: if_splits)
    then show "b \<notin> set ns \<and> (\<exists>v. q_nodes ?q' b = Some (Node_value v))"
      using producers_okD(1,2) [OF I(2), of p' b] in_set_butlastD [OF x(1)] by auto
  next
    fix p' x' y' assume "?P' p' = Linking x' y'"
    then have "?P p' = Linking x' y'" "p' \<noteq> p" by (simp_all split: if_splits)
    then show "x' \<in> set (butlast ns) \<and> nxt ?q' x' = None"
      using producers_okD(3,4) [OF I(2), of p' x' y'] only [of p'] by auto
  qed (use producers_okD(5,6) [OF I(2)] in \<open>auto split: if_splits\<close>)
  moreover have "reader_ok ?q' ?P' ns ?r"
    using I(3) x(2) unfolding reader_ok_def vals by (auto split: consumer.splits)
  moreover have "values_ok ?q' ns ?r vs" using I(4) by (simp add: values_ok_def vals)
  moreover have "chain_nodes_ok ?q' ?P' ns ?r" using I(5) assms(2) n made_others [of ?P p]
    unfolding chain_nodes_ok_def made_by put_node_views by auto
  ultimately show ?thesis using that [OF S] I(6) by (simp add: mpsc_inv_def)
qed

section \<open>The consumer\<close>

lemma put_put: "put_node (put_node q a m) a n = put_node q a n"
  by (simp add: put_node_def)

lemma chain_second:
  assumes "chain_ok q P ns" and "producers_ok q P ns" and "nxt q (q_tail q) = Some n"
  obtains rest where "ns = q_tail q # n # rest"
proof -
  obtain x xs where ns: "ns = x # xs" using chain_okD(1) [OF assms(1)] by (cases ns) auto
  then have x: "x = q_tail q" using chain_okD(2) [OF assms(1)] by simp
  have "xs \<noteq> []" using chain_okD(7) [OF assms(1)] assms(3) ns x by auto
  then obtain y rest where xs: "xs = y # rest" by (cases xs) auto
  have "linked q P x y" using chain_okD(6) [OF assms(1)] by (simp add: ns xs)
  then have "y = n" using assms(3) producers_okD(4) [OF assms(2)] unfolding linked_def x by fastforce
  then show ?thesis using that ns xs x by simp
qed

lemma inv_take:
  assumes "mpsc_inv c ns vs" and "reader c = AtNext keep t n"
  obtains v vs' q where "vs = v # vs'" and "read_value (queue c) n = Inr v"
    and "dequeue_step (queue c) (reader c) = Inr (q, Emptied t n, Took (if keep then Some v else None))"
    and "mpsc_inv (c\<lparr>queue := q, reader := Emptied t n, left_queue := left_queue c @ [v]\<rparr>) ns vs'"
proof -
  let ?q = "queue c" and ?P = "producers c"
  have I: "chain_ok ?q ?P ns" "producers_ok ?q ?P ns" "reader_ok ?q ?P ns (reader c)" "values_ok ?q ns (reader c) vs"
    "chain_nodes_ok ?q ?P ns (reader c)" "entered c = left_queue c @ vs" using assms(1) by (simp_all add: mpsc_inv_def)
  have t: "t = q_tail ?q" "nxt ?q (q_tail ?q) = Some n" using I(3) by (auto simp: assms(2) reader_ok_def)
  obtain rest where ns: "ns = q_tail ?q # n # rest" using chain_second [OF I(1,2) t(2)] .
  obtain v vs' where vs: "vs = v # vs'" "val_at ?q n = Some (Obj v)" "val_at ?q (q_tail ?q) = Some Raw"
    "map (val_at ?q) rest = map (\<lambda>v. Some (Obj v)) vs'"
    using I(4) by (cases vs) (auto simp: values_ok_def assms(2) emptied_def ns)
  obtain m where m: "q_nodes ?q n = Some m" "q_value m = Obj v" using vs(2) by (auto simp: val_at_eq)
  let ?q' = "put_node ?q n (m\<lparr>q_value := Raw\<rparr>)"
  have R: "read_value ?q n = Inr v" by (rule read_value_Obj [OF vs(2)])
  have step: "dequeue_step ?q (reader c) = Inr (?q', Emptied t n, Took (if keep then Some v else None))"
    by (cases keep) (simp_all add: assms(2) move_value_def R qnode_at_def m destroy_value_def put_put)
  have nx: "nxt ?q' x = nxt ?q x" for x using m by (simp add: nxt_def)
  have "chain_ok ?q' ?P ns"
  proof (rule chain_ok_step [OF I(1)])
    show "linked ?q' ?P x y" if "linked ?q ?P x y" for x y using that by (simp only: linked_def nx)
    show "nxt ?q' (last ns) = None" using chain_okD(7) [OF I(1)] by (simp only: nx)
  qed auto
  moreover have "producers_ok ?q' ?P ns"
  proof (rule producers_okI)
    show "a \<notin> set ns \<and> (\<exists>v. q_nodes ?q' a = Some (Node_value v))" if "?P p = Made a" for p a
      using producers_okD(1,2) [OF I(2) that] by (auto simp: ns)
  qed (use producers_okD(3-6) [OF I(2)] in \<open>simp_all only: nx simp_thms\<close>)
  moreover have "reader_ok ?q' ?P ns (Emptied t n)" using t by (simp only: reader_ok_def nx) simp
  moreover have "values_ok ?q' ns (Emptied t n) vs'"
  proof -
    have "n \<notin> set rest" "n \<noteq> q_tail ?q" using chain_okD(4) [OF I(1)] by (auto simp: ns)
    moreover from this have "map (val_at ?q') rest = map (val_at ?q) rest" by auto
    ultimately show ?thesis using vs(3,4) by (simp add: values_ok_def emptied_def ns numeral_2_eq_2)
  qed
  moreover have "chain_nodes_ok ?q' ?P ns (Emptied t n)"
    using I(5) m unfolding chain_nodes_ok_def put_node_views by (auto simp: leaving_def assms(2))
  ultimately show ?thesis using that [OF vs(1) R step] I(6) vs(1) by (simp add: mpsc_inv_def)
qed

lemma inv_advance:
  assumes "mpsc_inv c ns vs" and "reader c = Emptied t n"
  shows "mpsc_inv (c\<lparr>queue := (queue c)\<lparr>q_tail := n\<rparr>, reader := Advanced t\<rparr>) (tl ns) vs"
proof -
  let ?q = "queue c" and ?P = "producers c"
  let ?q' = "?q\<lparr>q_tail := n\<rparr>"
  have I: "chain_ok ?q ?P ns" "producers_ok ?q ?P ns" "reader_ok ?q ?P ns (reader c)" "values_ok ?q ns (reader c) vs"
    "chain_nodes_ok ?q ?P ns (reader c)" "entered c = left_queue c @ vs" using assms(1) by (simp_all add: mpsc_inv_def)
  have t: "t = q_tail ?q" "nxt ?q (q_tail ?q) = Some n" using I(3) by (auto simp: assms(2) reader_ok_def)
  obtain rest where ns: "ns = t # n # rest" using chain_second [OF I(1,2) t(2)] t(1) by metis
  have "chain_ok ?q' ?P (tl ns)"
    using I(1) by (auto simp: chain_ok_def ns linked_def)
  moreover have "producers_ok ?q' ?P (tl ns)"
  proof (rule producers_okI)
    fix p x y assume "?P p = Linking x y"
    then have "x \<in> set (butlast ns)" "nxt ?q x = None" using producers_okD(3,4) [OF I(2)] by blast+
    then show "x \<in> set (butlast (tl ns)) \<and> nxt ?q' x = None" using t by (auto simp: ns)
  next
    fix p a assume "?P p = Made a"
    then show "a \<notin> set (tl ns) \<and> (\<exists>v. q_nodes ?q' a = Some (Node_value v))"
      using producers_okD(1,2) [OF I(2)] by (auto simp: ns)
  qed (use producers_okD(5,6) [OF I(2)] in blast)+
  moreover have "reader_ok ?q' ?P (tl ns) (Advanced t)"
  proof -
    have "t \<notin> set (tl ns)" using chain_okD(4) [OF I(1)] by (simp add: ns)
    moreover have "val_at ?q t = Some Raw" using I(4) by (simp add: values_ok_def assms(2) emptied_def ns numeral_2_eq_2)
    moreover have "?P p \<noteq> Made t" for p using producers_okD(1) [OF I(2), of p t] by (auto simp: ns)
    ultimately show ?thesis by (simp add: reader_ok_def)
  qed
  moreover have "values_ok ?q' (tl ns) (Advanced t) vs"
    using I(4) by (simp add: values_ok_def assms(2) emptied_def ns numeral_2_eq_2)
  moreover have "chain_nodes_ok ?q' ?P (tl ns) (Advanced t)"
    using I(5) by (auto simp: chain_nodes_ok_def leaving_def assms(2) ns)
  ultimately show ?thesis using I(6) by (simp add: mpsc_inv_def)
qed

lemma inv_delete:
  assumes "mpsc_inv c ns vs" and "reader c = Advanced t"
  obtains q where "delete_qnode (queue c) t = Inr q" and "mpsc_inv (c\<lparr>queue := q, reader := Resting\<rparr>) ns vs"
proof -
  let ?q = "queue c" and ?P = "producers c"
  have I: "chain_ok ?q ?P ns" "producers_ok ?q ?P ns" "reader_ok ?q ?P ns (reader c)" "values_ok ?q ns (reader c) vs"
    "chain_nodes_ok ?q ?P ns (reader c)" "entered c = left_queue c @ vs" using assms(1) by (simp_all add: mpsc_inv_def)
  have t: "t \<notin> set ns" "val_at ?q t = Some Raw" "\<And>p. ?P p \<noteq> Made t" using I(3) by (simp_all add: assms(2) reader_ok_def)
  let ?q' = "?q\<lparr>q_nodes := (q_nodes ?q)(t := None)\<rparr>"
  have D: "delete_qnode ?q t = Inr ?q'" using t(2) by (auto simp: val_at_eq delete_qnode_def qnode_at_def)
  have views: "nxt ?q' x = (if x = t then None else nxt ?q x)" "val_at ?q' x = (if x = t then None else val_at ?q x)" for x
    by (simp_all add: nxt_def val_at_def)
  have "chain_ok ?q' ?P ns"
  proof -
    have "successively (linked ?q' ?P) ns"
      using chain_okD(6) [OF I(1)] by (rule successively_mono) (use t(1) in \<open>auto simp: linked_def views\<close>)
    then show ?thesis using I(1) t(1) by (auto simp: chain_ok_def views)
  qed
  moreover have "producers_ok ?q' ?P ns"
  proof (rule producers_okI)
    fix p a assume "?P p = Made a"
    then show "a \<notin> set ns \<and> (\<exists>v. q_nodes ?q' a = Some (Node_value v))"
      using producers_okD(1,2) [OF I(2)] t(3) by auto
  next
    fix p x y assume "?P p = Linking x y"
    then show "x \<in> set (butlast ns) \<and> nxt ?q' x = None" using producers_okD(3,4) [OF I(2)] by (auto simp: views)
  qed (use producers_okD(5,6) [OF I(2)] in blast)+
  moreover have "values_ok ?q' ns Resting vs"
  proof -
    have "map (val_at ?q') ns = map (val_at ?q) ns" using t(1) by (auto simp: views)
    then show ?thesis using I(4) unfolding values_ok_def by (simp only:) (simp add: assms(2) emptied_def)
  qed
  moreover have "chain_nodes_ok ?q' ?P ns Resting"
    using I(5) t(1,3) unfolding chain_nodes_ok_def by (auto simp: leaving_def assms(2))
  ultimately show ?thesis using that [OF D] I(6) by (simp add: mpsc_inv_def reader_ok_def)
qed

section \<open>Every interleaving\<close>

lemma inv_step:
  assumes "mpsc_inv c ns vs" and "mpsc_step c r"
  obtains d ns' vs' where "r = Inr d" and "mpsc_inv d ns' vs'"
  using assms(2)
proof cases
  case (call p a v)
  then show ?thesis using that inv_call [OF assms(1)] by blast
next
  case (produce p)
  then consider n where "producers c p = Made n" | x y where "producers c p = Linking x y" by (cases "producers c p") auto
  then show ?thesis
  proof cases
    case 1
    obtain v where "read_value (queue c) n = Inr v" "mpsc_inv (c\<lparr>queue := (queue c)\<lparr>q_head := n\<rparr>,
        producers := (producers c)(p := Linking (q_head (queue c)) n), entered := entered c @ [v]\<rparr>) (ns @ [n]) (vs @ [v])"
      by (rule inv_exchange [OF assms(1) 1])
    then show ?thesis using that produce 1 by (simp add: enters_def)
  next
    case 2
    obtain q where "store_next (queue c) x y = Inr q" "mpsc_inv (c\<lparr>queue := q, producers := (producers c)(p := Idle)\<rparr>) ns vs"
      by (rule inv_link [OF assms(1) 2])
    then show ?thesis using that produce 2 by (simp add: enters_def)
  qed
next
  case (ask keep)
  then have "mpsc_inv (c\<lparr>reader := AtTail keep (q_tail (queue c))\<rparr>) ns vs"
    using assms(1) by (simp add: mpsc_inv_def reader_ok_def values_ok_def chain_nodes_ok_def emptied_def leaving_def)
  then show ?thesis using that ask by blast
next
  case consume
  show ?thesis
  proof (cases "reader c")
    case (AtTail keep t)
    then have t: "t = q_tail (queue c)" using assms(1) by (simp add: mpsc_inv_defs)
    have "t \<in> dom (q_nodes (queue c))" using assms(1) unfolding mpsc_inv_def chain_ok_def t by (metis hd_in_set subsetD)
    then have L: "load_next (queue c) t = Inr (nxt (queue c) t)" by (rule load_next_live)
    have "mpsc_inv (c\<lparr>reader := r'\<rparr>) ns vs" if "r' = Resting \<or> (\<exists>n. r' = AtNext keep t n \<and> nxt (queue c) t = Some n)" for r'
      using assms(1) that AtTail t
      by (auto simp: mpsc_inv_def reader_ok_def values_ok_def chain_nodes_ok_def emptied_def leaving_def)
    then show ?thesis
      using that consume AtTail L by (cases "nxt (queue c) t") (auto simp: leaves_def)
  next
    case (AtNext keep t n)
    show ?thesis
      by (rule inv_take [OF assms(1) AtNext]) (use that consume AtNext in \<open>simp add: leaves_def\<close>)
  next
    case (Emptied t n)
    then show ?thesis using that consume inv_advance [OF assms(1) Emptied] by (simp add: leaves_def)
  next
    case (Advanced t)
    obtain q where "delete_qnode (queue c) t = Inr q" "mpsc_inv (c\<lparr>queue := q, reader := Resting\<rparr>) ns vs"
      by (rule inv_delete [OF assms(1) Advanced])
    then show ?thesis using that consume Advanced by (simp add: leaves_def)
  qed (use consume in simp)
qed

lemma mpsc_reach_inv:
  assumes "mpsc_reach c"
  shows "\<exists>ns vs. mpsc_inv c ns vs"
  using assms
proof induction
  case (start a)
  show ?case using inv_init by blast
next
  case (step c d)
  then show ?case using inv_step by (metis sum.inject(2))
qed

section \<open>Reading the queue\<close>

lemma walk_chain:
  assumes "successively (linked q P) (x # rest)" and "map (val_at q) rest = map (\<lambda>v. Some (Obj v)) vs" and "nxt q (last (x # rest)) = None"
    and "\<And>p x y. P p = Linking x y \<Longrightarrow> nxt q x = None" and "length rest \<le> fuel"
  shows "\<exists>k \<le> length vs. iterate_nodes fuel q (nxt q x) = Inr (take k vs)
    \<and> (\<forall>n < 2 ^ 64. size_loop fuel q (nxt q x) n = Inr ((n + k) mod 2 ^ 64))
    \<and> ((\<forall>p x y. P p \<noteq> Linking x y) \<longrightarrow> k = length vs) \<and> (nxt q x = None \<longleftrightarrow> k = 0)"
  using assms(1,2,3,5)
proof (induction rest arbitrary: x vs fuel)
  case Nil
  then show ?case by simp
next
  case (Cons y ys)
  obtain v vs' where vs: "vs = v # vs'" "val_at q y = Some (Obj v)" "map (val_at q) ys = map (\<lambda>v. Some (Obj v)) vs'"
    using Cons.prems(2) by (cases vs) auto
  obtain fuel' where fuel: "fuel = Suc fuel'" "length ys \<le> fuel'" using Cons.prems(4) by (cases fuel) auto
  have y: "load_next q y = Inr (nxt q y)" using vs(2) by (auto simp: val_at_eq intro!: load_next_live)
  have "linked q P x y" using Cons.prems(1) by simp
  then consider "nxt q x = Some y" | p where "P p = Linking x y" "nxt q x = None" using assms(4) unfolding linked_def by blast
  then show ?case
  proof cases
    case 1
    have "successively (linked q P) (y # ys)" "nxt q (last (y # ys)) = None" using Cons.prems(1,3) by simp_all
    from Cons.IH [OF this(1) vs(3) this(2) fuel(2)] obtain k where k: "k \<le> length vs'"
      "iterate_nodes fuel' q (nxt q y) = Inr (take k vs')"
      "\<forall>n < 2 ^ 64. size_loop fuel' q (nxt q y) n = Inr ((n + k) mod 2 ^ 64)"
      "(\<forall>p x y. P p \<noteq> Linking x y) \<longrightarrow> k = length vs'" by blast
    have "size_loop fuel q (nxt q x) n = Inr ((n + Suc k) mod 2 ^ 64)" for n
      using k(3) [rule_format, of "(n + 1) mod 2 ^ 64"] by (simp add: 1 fuel(1) y mod_add_left_eq)
    then show ?thesis
      using k(1,2,4) by (intro exI [of _ "Suc k"]) (simp add: 1 fuel(1) y read_value_Obj [OF vs(2)] vs(1))
  next
    case 2
    then show ?thesis by (intro exI [of _ 0]) (auto simp: vs(1))
  qed
qed

text \<open>Once every producer is done the links of the chain are the stored ones, and the destructor follows them.\<close>

definition without :: "'a mpsc \<Rightarrow> nat set \<Rightarrow> 'a mpsc" where
  "without q A = q\<lparr>q_nodes := q_nodes q |` (- A)\<rparr>"

lemma without_views:
  "a \<notin> A \<Longrightarrow> val_at (without q A) a = val_at q a" "a \<notin> A \<Longrightarrow> nxt (without q A) a = nxt q a"
  by (simp_all add: val_at_def nxt_def without_def)

lemma without_without: "without (without q A) B = without q (A \<union> B)"
  by (simp add: without_def Int_commute)

lemma without_nothing: "without q {} = q"
  by (cases q) (simp add: without_def restrict_map_def)

lemma delete_without:
  assumes "val_at q a = Some Raw"
  shows "delete_qnode q a = Inr (without q {a})"
proof -
  have "(q_nodes q)(a := None) = q_nodes q |` (- {a})" by (auto simp: restrict_map_def fun_eq_iff)
  then show ?thesis using assms by (auto simp: val_at_eq delete_qnode_def qnode_at_def without_def)
qed

lemma destroy_chain:
  assumes "successively (\<lambda>x y. nxt q x = Some y) ns" and "map (val_at q) ns = map (\<lambda>v. Some (Obj v)) vs"
    and "ns \<noteq> [] \<longrightarrow> nxt q (last ns) = None" and "distinct ns" and "length ns \<le> fuel"
  shows "destroy_loop fuel q (if ns = [] then None else Some (hd ns)) = Inr (without q (set ns))"
  using assms
proof (induction ns arbitrary: q vs fuel)
  case Nil
  then show ?case by (simp add: without_nothing)
next
  case (Cons y ys)
  obtain v vs' where vs: "val_at q y = Some (Obj v)" "map (val_at q) ys = map (\<lambda>v. Some (Obj v)) vs'"
    using Cons.prems(2) by (cases vs) auto
  obtain fuel' where fuel: "fuel = Suc fuel'" "length ys \<le> fuel'" using Cons.prems(5) by (cases fuel) auto
  obtain n where n: "q_nodes q y = Some n" "q_value n = Obj v" using vs(1) by (auto simp: val_at_eq)
  let ?q = "put_node q y (n\<lparr>q_value := Raw\<rparr>)"
  have D: "destroy_value q y = Inr ?q" by (simp add: destroy_value_def qnode_at_def n)
  have "without ?q {y} = without q {y}" by (auto simp: without_def put_node_def restrict_map_def fun_eq_iff)
  then have del: "delete_qnode ?q y = Inr (without q {y})" using delete_without [of ?q y] by simp
  have y: "y \<notin> set ys" using Cons.prems(4) by simp
  have nx: "load_next q y = Inr (if ys = [] then None else Some (hd ys))"
    using Cons.prems(1,3) n by (subst load_next_live) (auto simp: successively_Cons)
  have E: "nxt (without q {y}) w = nxt q w" "val_at (without q {y}) w = val_at q w" if "w \<in> set ys" for w
    using that y without_views [of w "{y}"] by auto
  have "destroy_loop fuel' (without q {y}) (if ys = [] then None else Some (hd ys)) = Inr (without (without q {y}) (set ys))"
  proof (rule Cons.IH [OF _ _ _ _ fuel(2)])
    have "successively (\<lambda>x y. nxt q x = Some y) ys" using Cons.prems(1) by (cases ys) auto
    then show "successively (\<lambda>x y'. nxt (without q {y}) x = Some y') ys"
      by (rule successively_mono) (simp add: E)
    show "map (val_at (without q {y})) ys = map (\<lambda>v. Some (Obj v)) vs'"
      using E(2) unfolding vs(2) [symmetric] by (intro map_cong) simp_all
  qed (use Cons.prems(3,4) E in auto)
  then show ?case by (simp add: nx fuel(1) D del without_without)
qed

section \<open>What the queue promises\<close>

text \<open>
  (C14) Whatever the producers and the consumer do in whatever order, no access of a reachable queue is
  undefined: no deleted node is read or written, no value is taken that is not there or is destroyed
  twice, and no node is deleted with a live value in it.
\<close>

theorem mpsc_queue_safe:
  assumes "mpsc_reach c" and "mpsc_step c r"
  shows "\<exists>d. r = Inr d"
  using mpsc_reach_inv [OF assms(1)] inv_step [OF _ assms(2)] by metis

text \<open>Two producers: the first makes its node, and the second is done before it.\<close>

lemma reach_one:
  "mpsc_reach \<lparr>queue = put_node (MPSC_init 0) 1 (Node_value (7 :: nat)), producers = (\<lambda>_. Idle)(0 := Made 1),
     reader = Resting, entered = [], left_queue = []\<rparr>"
  using mpsc_reach.step [OF mpsc_reach.start [of 0] mpsc_step.call [of _ 0 1 7]]
  by (simp add: qsys_init_def MPSC_init_def)

theorem mpsc_queue_safe_witness:
  "\<exists>d. bindE (enqueue_step (put_node (MPSC_init 0) 1 (Node_value (7 :: nat))) (Made 1)) (\<lambda>(q, pc).
       Inr \<lparr>queue = q, producers = (\<lambda>_. Idle)(0 := pc), reader = Resting,
         entered = enters (put_node (MPSC_init 0) 1 (Node_value 7)) (Made 1), left_queue = []\<rparr>) = Inr (d :: nat qsys)"
  using mpsc_queue_safe [OF reach_one mpsc_step.produce [of _ 0]] by simp

text \<open>
  (C11) The values come out in the order in which the producers exchanged the head, none lost and none
  twice. When the consumer is between its calls, a walk from \<open>begin\<close> to \<open>end\<close>, \<open>size_approx\<close>, \<open>peek\<close> and
  \<open>empty\<close> see a prefix of the values still in the queue, and all of them once no producer stands
  between its exchange and its link.
\<close>

theorem mpsc_queue_fifo:
  assumes "mpsc_reach c" and "reader c = Resting" and "length (entered c) \<le> fuel"
  shows "\<exists>vs k. entered c = left_queue c @ vs \<and> k \<le> length vs \<and> MPSC_iterate fuel (queue c) = Inr (take k vs)
    \<and> MPSC_size_approx fuel (queue c) = Inr (k mod 2 ^ 64)
    \<and> MPSC_peek (queue c) = Inr (if k = 0 then None else Some (hd vs)) \<and> MPSC_empty (queue c) = Inr (k = 0)
    \<and> (k = length vs \<or> (\<exists>p x y. producers c p = Linking x y))"
proof -
  obtain ns vs where I: "mpsc_inv c ns vs" using mpsc_reach_inv [OF assms(1)] by blast
  let ?q = "queue c" and ?P = "producers c"
  have C: "chain_ok ?q ?P ns" "producers_ok ?q ?P ns" and vals: "map (val_at ?q) ns = Some Raw # map (\<lambda>v. Some (Obj v)) vs"
    and E: "entered c = left_queue c @ vs"
    using I assms(2) by (simp_all add: mpsc_inv_def values_ok_def emptied_def)
  obtain rest where ns: "ns = q_tail ?q # rest" using chain_okD(1,2) [OF C(1)] by (cases ns) auto
  have rest: "map (val_at ?q) rest = map (\<lambda>v. Some (Obj v)) vs" using vals by (simp add: ns)
  then have len: "length rest \<le> fuel" using assms(3) E by (metis le_add2 le_trans length_append length_map)
  have "\<exists>k \<le> length vs. iterate_nodes fuel ?q (nxt ?q (q_tail ?q)) = Inr (take k vs)
    \<and> (\<forall>n < 2 ^ 64. size_loop fuel ?q (nxt ?q (q_tail ?q)) n = Inr ((n + k) mod 2 ^ 64))
    \<and> ((\<forall>p x y. ?P p \<noteq> Linking x y) \<longrightarrow> k = length vs) \<and> (nxt ?q (q_tail ?q) = None \<longleftrightarrow> k = 0)"
    by (rule walk_chain [OF _ rest _ _ len, of ?P])
      (use chain_okD(6,7) [OF C(1)] producers_okD(4) [OF C(2)] in \<open>auto simp: ns\<close>)
  then obtain k where K: "k \<le> length vs \<and> iterate_nodes fuel ?q (nxt ?q (q_tail ?q)) = Inr (take k vs)
    \<and> (\<forall>n < 2 ^ 64. size_loop fuel ?q (nxt ?q (q_tail ?q)) n = Inr ((n + k) mod 2 ^ 64))
    \<and> ((\<forall>p x y. ?P p \<noteq> Linking x y) \<longrightarrow> k = length vs) \<and> (nxt ?q (q_tail ?q) = None \<longleftrightarrow> k = 0)" ..
  note k = K [THEN conjunct1] K [THEN conjunct2, THEN conjunct1] K [THEN conjunct2, THEN conjunct2, THEN conjunct1]
    K [THEN conjunct2, THEN conjunct2, THEN conjunct2, THEN conjunct1] K [THEN conjunct2, THEN conjunct2, THEN conjunct2, THEN conjunct2]
  have L: "load_next ?q (q_tail ?q) = Inr (nxt ?q (q_tail ?q))"
    by (rule load_next_live) (use chain_okD(5) [OF C(1)] in \<open>simp add: ns\<close>)
  have "MPSC_peek ?q = Inr (if k = 0 then None else Some (hd vs))"
  proof (cases "nxt ?q (q_tail ?q)")
    case None
    then show ?thesis using k(5) by (simp add: MPSC_peek_def L)
  next
    case (Some n)
    obtain rest' where "ns = q_tail ?q # n # rest'" using chain_second [OF C Some] .
    then obtain v vs' where "vs = v # vs'" "val_at ?q n = Some (Obj v)" using rest ns by (cases vs) auto
    then show ?thesis using Some k(5) by (simp add: MPSC_peek_def L read_value_Obj)
  qed
  moreover have "MPSC_size_approx fuel ?q = Inr (k mod 2 ^ 64)" using k(3) by (simp add: MPSC_size_approx_def L)
  moreover have "MPSC_iterate fuel ?q = Inr (take k vs)" "MPSC_empty ?q = Inr (k = 0)"
    using k(2,5) by (simp_all add: MPSC_iterate_def MPSC_empty_def L)
  ultimately show ?thesis using E k(1,4) by blast
qed

theorem mpsc_queue_fifo_witness:
  "\<exists>vs k. [] = [] @ vs \<and> k \<le> length vs \<and> MPSC_iterate 0 (put_node (MPSC_init 0) 1 (Node_value (7 :: nat))) = Inr (take k vs)
    \<and> MPSC_size_approx 0 (put_node (MPSC_init 0) 1 (Node_value (7 :: nat))) = Inr (k mod 2 ^ 64)
    \<and> MPSC_peek (put_node (MPSC_init 0) 1 (Node_value (7 :: nat))) = Inr (if k = 0 then None else Some (hd vs))
    \<and> MPSC_empty (put_node (MPSC_init 0) 1 (Node_value (7 :: nat))) = Inr (k = 0)
    \<and> (k = length vs \<or> (\<exists>p x y. ((\<lambda>_. Idle)(0 := Made 1)) (p :: nat) = Linking x y))"
  using mpsc_queue_fifo [OF reach_one] by simp

text \<open>
  (C32) When every producer is done and the consumer rests, the destructor ends, destroys every value
  still in the queue once and deletes every node: nothing is left of what the queue allocated.
\<close>

theorem mpsc_queue_destroyed:
  assumes "mpsc_reach c" and "reader c = Resting" and "\<forall>p. producers c p = Idle" and "length (entered c) \<le> fuel"
  shows "\<exists>q. MPSC_destroy fuel (queue c) = Inr q \<and> q_nodes q = Map.empty"
proof -
  obtain ns vs where I: "mpsc_inv c ns vs" using mpsc_reach_inv [OF assms(1)] by blast
  let ?q = "queue c" and ?P = "producers c"
  have C: "chain_ok ?q ?P ns" and vals: "map (val_at ?q) ns = Some Raw # map (\<lambda>v. Some (Obj v)) vs"
    and E: "entered c = left_queue c @ vs" and N: "chain_nodes_ok ?q ?P ns Resting"
    using I assms(2) by (simp_all add: mpsc_inv_def values_ok_def emptied_def)
  obtain rest where ns: "ns = q_tail ?q # rest" using chain_okD(1,2) [OF C] by (cases ns) auto
  have rest: "map (val_at ?q) rest = map (\<lambda>v. Some (Obj v)) vs" and tail: "val_at ?q (q_tail ?q) = Some Raw" using vals by (simp_all add: ns)
  then have len: "length rest \<le> fuel" using assms(4) E by (metis le_add2 le_trans length_append length_map)
  have "successively (\<lambda>x y. nxt ?q x = Some y) ns"
    using chain_okD(6) [OF C] by (rule successively_mono) (simp add: linked_def assms(3))
  then have S: "successively (\<lambda>x y. nxt ?q x = Some y) (q_tail ?q # rest)" by (simp add: ns)
  have L: "load_next ?q (q_tail ?q) = Inr (if rest = [] then None else Some (hd rest))"
    using S chain_okD(5,7) [OF C] by (subst load_next_live) (auto simp: ns successively_Cons)
  let ?w = "without ?q {q_tail ?q}"
  have out: "w \<noteq> q_tail ?q" if "w \<in> set rest" for w using that chain_okD(4) [OF C] by (auto simp: ns)
  have views: "nxt ?w w = nxt ?q w" "val_at ?w w = val_at ?q w" if "w \<in> set rest" for w
    using out [OF that] without_views [of w "{q_tail ?q}"] by auto
  have "destroy_loop fuel ?w (if rest = [] then None else Some (hd rest)) = Inr (without ?w (set rest))"
  proof (rule destroy_chain [OF _ _ _ _ len])
    have "successively (\<lambda>x y. nxt ?q x = Some y) rest" using S by (cases rest) auto
    then show "successively (\<lambda>x y. nxt ?w x = Some y) rest" by (rule successively_mono) (simp add: views)
    show "map (val_at ?w) rest = map (\<lambda>v. Some (Obj v)) vs" 
      using views(2) unfolding rest [symmetric] by (intro map_cong) simp_all
    show "rest \<noteq> [] \<longrightarrow> nxt ?w (last rest) = None" using chain_okD(7) [OF C] views(1) by (auto simp: ns)
  qed (use chain_okD(4) [OF C] in \<open>simp add: ns\<close>)
  then have "MPSC_destroy fuel ?q = Inr (without ?q (set ns))"
    by (simp add: MPSC_destroy_def L delete_without [OF tail] without_without ns)
  moreover have "q_nodes (without ?q (set ns)) = Map.empty"
  proof -
    have "dom (q_nodes ?q) = set ns" using N by (simp add: chain_nodes_ok_def leaving_def assms(3))
    then show ?thesis by (auto simp: without_def restrict_map_def fun_eq_iff domIff)
  qed
  ultimately show ?thesis by blast
qed

theorem mpsc_queue_destroyed_witness:
  "\<exists>q. MPSC_destroy 0 (MPSC_init 0 :: nat mpsc) = Inr q \<and> q_nodes q = Map.empty"
  using mpsc_queue_destroyed [OF mpsc_reach.start [of 0]] by (simp add: qsys_init_def)

text \<open>
  \<open>emplace\<close> without arguments makes a node with the constructor of the sentinel, so that the value is
  never constructed: the consumer that takes it moves out of storage without an object.
\<close>

theorem mpsc_emplace_without_arguments:
  "\<exists>q1 q2. enqueue_step (put_node (MPSC_init 0) 1 (Node_args (build :: nat list \<Rightarrow> 'a) [])) (Made 1) = Inr (q1, Linking 0 1)
    \<and> enqueue_step q1 (Linking 0 1) = Inr (q2, Idle)
    \<and> dequeue_step q2 (AtTail True 0) = Inr (q2, AtNext True 0 1, Running)
    \<and> dequeue_step q2 (AtNext True 0 1) = Inl Lifetime \<and> dequeue_step q2 (AtNext False 0 1) = Inl Lifetime"
  by (simp add: Node_args_def Node_sentinel_def MPSC_init_def put_node_def store_next_def qnode_at_def load_next_def
      move_value_def read_value_def destroy_value_def bindE_ensure)

end
