(* ===== verification/Bit_Words.thy ===== *)
theory Bit_Words
  imports Prelude
begin

text \<open>
  The words under the bit sets of \<open>containers/bitsets/\<close>: bit \<open>i\<close> of a set is bit \<open>i mod w\<close> of word \<open>i div w\<close>,
  \<open>w\<close> being the width of a word. \<open>PopCount\<close> is the count of \<open>containers/builtins_bit.h\<close>.
\<close>

unbundle bit_operations_syntax

definition bit_at :: "'a::len word list \<Rightarrow> nat \<Rightarrow> bool" where
  "bit_at ws i \<longleftrightarrow> i < length ws * LENGTH('a) \<and> bit (ws ! (i div LENGTH('a))) (i mod LENGTH('a))"

definition bits_of :: "'a::len word list \<Rightarrow> nat set" where
  "bits_of ws = {i. bit_at ws i}"

definition PopCount :: "'a::len word \<Rightarrow> nat" where
  "PopCount w = length (filter (bit w) [0..<LENGTH('a)])"

definition one_bit :: "nat \<Rightarrow> 'a::len word" where
  "one_bit p = push_bit p 1"

lemma bit_one_bit: "bit (one_bit p :: 'a::len word) j \<longleftrightarrow> j = p \<and> j < LENGTH('a)"
  unfolding one_bit_def bit_push_bit_iff bit_1_iff by auto

lemma div_less_words: "i < n * w \<Longrightarrow> i div w < (n :: nat)"
  by (simp add: less_mult_imp_div_less)

lemma at_iff: "0 < w \<Longrightarrow> i div w = k \<and> i mod w = r \<longleftrightarrow> i = k * w + r \<and> r < (w :: nat)"
  by auto

lemma bit_at_update:
  assumes "k < length ws"
  shows "bit_at (ws[k := w]) i \<longleftrightarrow> (if i div LENGTH('a) = k then bit w (i mod LENGTH('a)) else bit_at (ws :: 'a::len word list) i)"
proof (cases "i div LENGTH('a) = k")
  case True
  then have "i < Suc k * LENGTH('a)" using dividend_less_div_times [of "LENGTH('a)" i] by simp
  also have "\<dots> \<le> length ws * LENGTH('a)" using assms by (intro mult_le_mono1) simp
  finally show ?thesis using True assms by (simp add: bit_at_def)
qed (simp add: bit_at_def)

lemma bit_at_above: "bit_at (ws :: 'a::len word list) i \<Longrightarrow> i < length ws * LENGTH('a)"
  by (simp add: bit_at_def)

lemma words_eqI:
  assumes "length a = length b" and "\<And>i. i < length a * LENGTH('a) \<Longrightarrow> bit_at a i \<longleftrightarrow> bit_at b i"
  shows "a = (b :: 'a::len word list)"
proof (rule nth_equalityI [OF assms(1)])
  fix k assume k: "k < length a"
  show "a ! k = b ! k"
  proof (rule bit_word_eqI)
    fix j assume j: "j < LENGTH('a)"
    have "k * LENGTH('a) + j < Suc k * LENGTH('a)" using j by simp
    also have "\<dots> \<le> length a * LENGTH('a)" using k by (intro mult_le_mono1) simp
    finally have i: "k * LENGTH('a) + j < length a * LENGTH('a)" .
    moreover have "(k * LENGTH('a) + j) div LENGTH('a) = k" "(k * LENGTH('a) + j) mod LENGTH('a) = j" using j by simp_all
    ultimately show "bit (a ! k) j \<longleftrightarrow> bit (b ! k) j" using assms(2) [OF i] assms(1) by (simp add: bit_at_def)
  qed
qed

lemma bits_eq_iff: "length a = length b \<Longrightarrow> bits_of a = bits_of b \<longleftrightarrow> a = (b :: 'a::len word list)"
  by (auto simp: bits_of_def intro: words_eqI)

lemma bits_of_nth:
  assumes "\<And>k. k < length ws \<Longrightarrow> ws ! k = f k" and "length ws = n"
  shows "bit_at ws i \<longleftrightarrow> i < n * LENGTH('a) \<and> bit (f (i div LENGTH('a)) :: 'a::len word) (i mod LENGTH('a))"
  using assms by (auto simp: bit_at_def div_less_words)

section \<open>Counting\<close>

lemma PopCount_card: "PopCount w = card {j. bit (w :: 'a::len word) j}"
proof -
  have "set (filter (bit w) [0..<LENGTH('a)]) = {j. bit w j}" by (auto dest: bit_imp_le_length)
  moreover have "distinct (filter (bit w) [0..<LENGTH('a)])" by simp
  ultimately show ?thesis unfolding PopCount_def by (metis distinct_card)
qed

lemma bits_of_Cons:
  "bits_of ((w :: 'a::len word) # ws) = {j. bit w j} \<union> (\<lambda>i. i + LENGTH('a)) ` bits_of ws"
proof (rule set_eqI)
  fix i
  show "i \<in> bits_of (w # ws) \<longleftrightarrow> i \<in> {j. bit w j} \<union> (\<lambda>i. i + LENGTH('a)) ` bits_of ws"
  proof (cases "i < LENGTH('a)")
    case True
    then show ?thesis by (auto simp: bits_of_def bit_at_def)
  next
    case False
    then obtain k where k: "i = k + LENGTH('a)" by (metis add.commute le_Suc_ex not_less)
    have "\<not> bit w i" using False bit_imp_le_length by blast
    moreover have "k + LENGTH('a) \<in> (\<lambda>i. i + LENGTH('a)) ` bits_of ws \<longleftrightarrow> k \<in> bits_of ws" by auto
    moreover have "k + LENGTH('a) \<in> bits_of (w # ws) \<longleftrightarrow> k \<in> bits_of ws" by (simp add: bits_of_def bit_at_def div_add_self2)
    ultimately show ?thesis using k by simp
  qed
qed

lemma finite_bits: "finite (bits_of (ws :: 'a::len word list))"
  by (rule finite_subset [of _ "{..<length ws * LENGTH('a)}"]) (auto simp: bits_of_def bit_at_def)

lemma count_bits: "sum_list (map PopCount ws) = card (bits_of (ws :: 'a::len word list))"
proof (induction ws)
  case Nil
  then show ?case by (simp add: bits_of_def bit_at_def)
next
  case (Cons w ws)
  have "card (bits_of (w # ws)) = card {j. bit w j} + card ((\<lambda>i. i + LENGTH('a)) ` bits_of ws)"
    unfolding bits_of_Cons
  proof (rule card_Un_disjoint)
    have "{j. bit w j} \<subseteq> {..<LENGTH('a)}" by (auto dest: bit_imp_le_length)
    then show "finite {j. bit w j}" by (rule finite_subset) simp
    show "{j. bit w j} \<inter> (\<lambda>i. i + LENGTH('a)) ` bits_of ws = {}" by (auto dest: bit_imp_le_length)
  qed (simp add: finite_bits)
  then show ?case using Cons by (simp add: PopCount_card card_image)
qed

section \<open>Runs\<close>

text \<open>
  A run of operations, each of which gives a new state and an answer or is refused. A store refines an
  abstract one when every step does; then every run does.
\<close>

fun run_steps :: "('o \<Rightarrow> 's \<Rightarrow> ('s \<times> 'r) option) \<Rightarrow> 'o list \<Rightarrow> 's \<Rightarrow> ('s \<times> 'r list) option" where
  "run_steps step [] s = Some (s, [])"
| "run_steps step (op # ops) s = (case step op s of None \<Rightarrow> None
     | Some (s, r) \<Rightarrow> map_option (\<lambda>(s, rs). (s, r # rs)) (run_steps step ops s))"

definition result_of :: "'a res \<Rightarrow> 'a option" where
  "result_of r = (case r of Inl _ \<Rightarrow> None | Inr x \<Rightarrow> Some x)"

lemma result_simps [simp]: "result_of (Inl e) = None" "result_of (Inr x) = Some x"
  by (simp_all add: result_of_def)

locale refined_store =
  fixes step :: "'o \<Rightarrow> 's \<Rightarrow> ('s \<times> 'r) option" and spec :: "'p \<Rightarrow> 'a \<Rightarrow> ('a \<times> 'r) option"
    and abs_op :: "'o \<Rightarrow> 'p" and abs_state :: "'s \<Rightarrow> 'a" and inv :: "'s \<Rightarrow> bool" and ok :: "'o \<Rightarrow> bool"
  assumes step_refines: "inv s \<Longrightarrow> ok op \<Longrightarrow> spec (abs_op op) (abs_state s) = map_option (apfst abs_state) (step op s)"
    and step_keeps: "inv s \<Longrightarrow> ok op \<Longrightarrow> step op s = Some (s', r) \<Longrightarrow> inv s'"
begin

lemma run_refines:
  "inv s \<Longrightarrow> list_all ok ops \<Longrightarrow> run_steps spec (map abs_op ops) (abs_state s) = map_option (apfst abs_state) (run_steps step ops s)"
proof (induction ops arbitrary: s)
  case (Cons op ops)
  have op: "ok op" "list_all ok ops" using Cons.prems(2) by simp_all
  show ?case
  proof (cases "step op s")
    case None
    then show ?thesis using step_refines [OF Cons.prems(1) op(1)] by simp
  next
    case (Some sr)
    obtain s' r where sr: "sr = (s', r)" by (cases sr)
    then have "inv s'" using step_keeps [OF Cons.prems(1) op(1)] Some by blast
    from Cons.IH [OF this op(2)] show ?thesis using step_refines [OF Cons.prems(1) op(1)] Some sr
      by (cases "run_steps step ops s'") auto
  qed
qed simp

end

end
