(* ===== verification/Bitset.thy ===== *)
theory Bitset
  imports Bit_Words
begin

text \<open>
  \<open>BitSet\<close> of \<open>containers/bitsets/bitset.h\<close>: \<open>n\<close> bits on words of 32 bits, or of 64 for more than 32 bits;
  the theorems hold for any width. \<open>kWords\<close> is the number of words less one.
\<close>

unbundle bit_operations_syntax

section \<open>The operations\<close>

definition kWords :: "nat \<Rightarrow> nat \<Rightarrow> nat" where
  "kWords w n = (if n = 0 then 0 else (n - 1) div w)"

definition sized :: "nat \<Rightarrow> 'a::len word list \<Rightarrow> bool" where
  "sized n s \<longleftrightarrow> length s = kWords LENGTH('a) n + 1"

definition BitSet_init :: "nat \<Rightarrow> 'a::len word list" where
  "BitSet_init n = replicate (kWords LENGTH('a) n + 1) 0"

definition BitSet_value :: "nat \<Rightarrow> u64 \<Rightarrow> 'a::len word list" where
  "BitSet_value n val = (BitSet_init n)[0 := ucast (if n < 64 then val AND (one_bit n - 1) else val)]"

definition BitSet_Reset :: "'a::len word list \<Rightarrow> 'a word list" where
  "BitSet_Reset s = replicate (length s) 0"

definition BitSet_Set :: "nat \<Rightarrow> nat \<Rightarrow> bool \<Rightarrow> 'a::len word list \<Rightarrow> 'a word list res" where
  "BitSet_Set n pos toggle s = bindE (ensure (n > pos) (DCheck ''BitSet::Set(): Invalid bit positional offset'')) (\<lambda>_.
     let k = pos div LENGTH('a); new_bit = one_bit (pos mod LENGTH('a))
     in Inr (s[k := (if toggle then s ! k OR new_bit else s ! k AND NOT new_bit)]))"

definition BitSet_Flip :: "nat \<Rightarrow> nat \<Rightarrow> 'a::len word list \<Rightarrow> 'a word list res" where
  "BitSet_Flip n pos s = bindE (ensure (n > pos) (DCheck ''BitSet::Flip(): Invalid bit positional offset'')) (\<lambda>_.
     let k = pos div LENGTH('a) in Inr (s[k := s ! k XOR one_bit (pos mod LENGTH('a))]))"

definition BitSet_Test :: "nat \<Rightarrow> nat \<Rightarrow> 'a::len word list \<Rightarrow> bool res" where
  "BitSet_Test n pos s = bindE (ensure (n > pos) (DCheck ''BitSet::Test(): Invalid offset'')) (\<lambda>_.
     Inr (s ! (pos div LENGTH('a)) AND one_bit (pos mod LENGTH('a)) \<noteq> 0))"

fun popcount_loop :: "'a::len word list \<Rightarrow> nat \<Rightarrow> nat" where
  "popcount_loop [] count = count"
| "popcount_loop (w # s) count = popcount_loop s (count + PopCount w)"

definition BitSet_CountSetBits :: "'a::len word list \<Rightarrow> nat" where
  "BitSet_CountSetBits s = popcount_loop s 0"

text \<open>The word-wise assignments \<open>&=\<close>, \<open>|=\<close> and \<open>^=\<close>.\<close>

fun assign_words :: "('a::len word \<Rightarrow> 'a word \<Rightarrow> 'a word) \<Rightarrow> 'a word list \<Rightarrow> 'a word list \<Rightarrow> 'a word list" where
  "assign_words f (x # xs) (y # ys) = f x y # assign_words f xs ys"
| "assign_words f xs ys = xs"

definition BitSet_and :: "'a::len word list \<Rightarrow> 'a word list \<Rightarrow> 'a word list" where "BitSet_and s rhs = assign_words (AND) s rhs"
definition BitSet_or :: "'a::len word list \<Rightarrow> 'a word list \<Rightarrow> 'a word list" where "BitSet_or s rhs = assign_words (OR) s rhs"
definition BitSet_xor :: "'a::len word list \<Rightarrow> 'a word list \<Rightarrow> 'a word list" where "BitSet_xor s rhs = assign_words (XOR) s rhs"

text \<open>The shifts go over the words in place, the left shift downwards: \<open>Suc i\<close> words are left to do.\<close>

fun shl_words :: "nat \<Rightarrow> nat \<Rightarrow> 'a::len word list \<Rightarrow> 'a word list" where
  "shl_words word_shift 0 a = a"
| "shl_words word_shift (Suc i) a = shl_words word_shift i (a[i := (if word_shift \<le> i then a ! (i - word_shift) else 0)])"

fun shl_bits :: "nat \<Rightarrow> nat \<Rightarrow> 'a::len word list \<Rightarrow> 'a word list" where
  "shl_bits pos 0 a = a"
| "shl_bits pos (Suc i) a = shl_bits pos i (a[Suc i := push_bit pos (a ! Suc i) OR drop_bit (LENGTH('a) - pos) (a ! i)])"

definition BitSet_shl :: "nat \<Rightarrow> 'a::len word list \<Rightarrow> 'a word list" where
  "BitSet_shl pos s =
     (let word_shift = pos div LENGTH('a); s = (if word_shift \<noteq> 0 then shl_words word_shift (length s) s else s); pos = pos mod LENGTH('a)
      in if pos \<noteq> 0 then (let s = shl_bits pos (length s - 1) s in s[0 := push_bit pos (s ! 0)]) else s)"

fun shr_words :: "nat \<Rightarrow> nat \<Rightarrow> nat \<Rightarrow> 'a::len word list \<Rightarrow> 'a word list" where
  "shr_words word_shift i 0 a = a"
| "shr_words word_shift i (Suc left) a =
     shr_words word_shift (i + 1) left (a[i := (if word_shift \<le> length a - 1 - i then a ! (i + word_shift) else 0)])"

fun shr_bits :: "nat \<Rightarrow> nat \<Rightarrow> nat \<Rightarrow> 'a::len word list \<Rightarrow> 'a word list" where
  "shr_bits pos i 0 a = a"
| "shr_bits pos i (Suc left) a =
     shr_bits pos (i + 1) left (a[i := drop_bit pos (a ! i) OR push_bit (LENGTH('a) - pos) (a ! (i + 1))])"

definition BitSet_shr :: "nat \<Rightarrow> 'a::len word list \<Rightarrow> 'a word list" where
  "BitSet_shr pos s =
     (let word_shift = pos div LENGTH('a); s = (if word_shift \<noteq> 0 then shr_words word_shift 0 (length s) s else s); pos = pos mod LENGTH('a)
      in if pos \<noteq> 0 then (let s = shr_bits pos 0 (length s - 1) s; k = length s - 1 in s[k := drop_bit pos (s ! k)]) else s)"

text \<open>Conversions; the first word is the low one.\<close>

definition BitSet_to_ulong :: "nat \<Rightarrow> 'a::len word list \<Rightarrow> u32 res" where
  "BitSet_to_ulong n s =
     (if n = 0 then Inr 0
      else if n \<le> 32 then Inr (ucast (s ! 0))
      else bindE (ensure (n > 64 \<longrightarrow> list_all (\<lambda>w. w = 0) (tl s)) (DCheck ''fail if any high - order words are nonzero'')) (\<lambda>_.
        bindE (ensure (unat (s ! 0) < 2 ^ 64 - 1) (DCheck ''Overflow'')) (\<lambda>_. Inr (ucast (s ! 0)))))"

definition BitSet_to_ullong :: "nat \<Rightarrow> 'a::len word list \<Rightarrow> u64 res" where
  "BitSet_to_ullong n s =
     (if n = 0 then Inr 0
      else bindE (ensure (n > 64 \<longrightarrow> list_all (\<lambda>w. w = 0) (tl s)) (DCheck ''fail if any high-order words are nonzero'')) (\<lambda>_.
        Inr (ucast (s ! 0))))"

section \<open>Bit by bit\<close>

lemma word_in_range: "sized n (s :: 'a::len word list) \<Longrightarrow> pos < n \<Longrightarrow> pos div LENGTH('a) < length s"
proof -
  assume A: "sized n s" "pos < n"
  then have "pos div LENGTH('a) \<le> (n - 1) div LENGTH('a)" by (intro div_le_mono) simp
  then show ?thesis using A by (simp add: sized_def kWords_def)
qed

lemma sized_range: "sized n (s :: 'a::len word list) \<Longrightarrow> pos < n \<Longrightarrow> pos < length s * LENGTH('a)"
  by (metis div_less_iff_less_mult len_gt_0 word_in_range)

lemma same_position: "i div w = p div w \<and> i mod w = p mod w \<longleftrightarrow> i = (p :: nat)"
  by (metis div_mult_mod_eq)

lemma test_bit: "(w AND one_bit p \<noteq> 0) \<longleftrightarrow> bit (w :: 'a::len word) p"
  by (auto simp: bit_eq_iff [of "w AND one_bit p"] bit_and_iff bit_one_bit dest: bit_imp_le_length)

lemma Test_bits:
  assumes "sized n s" and "pos < n"
  shows "BitSet_Test n pos (s :: 'a::len word list) = Inr (pos \<in> bits_of s)"
  using sized_range [OF assms] assms by (simp add: BitSet_Test_def test_bit bits_of_def bit_at_def)

lemma update_bits:
  assumes "sized n (s :: 'a::len word list)" and "pos < n"
    and "\<And>j. bit (f (s ! (pos div LENGTH('a)))) j \<longleftrightarrow> (if j = pos mod LENGTH('a) then new else bit (s ! (pos div LENGTH('a))) j)"
  shows "bits_of (s[pos div LENGTH('a) := f (s ! (pos div LENGTH('a)))]) = (if new then insert pos (bits_of s) else bits_of s - {pos})"
proof (rule set_eqI)
  fix i
  have k: "pos div LENGTH('a) < length s" by (rule word_in_range [OF assms(1,2)])
  have "i \<in> bits_of (s[pos div LENGTH('a) := f (s ! (pos div LENGTH('a)))]) \<longleftrightarrow> (if i = pos then new else i \<in> bits_of s)"
  proof (cases "i div LENGTH('a) = pos div LENGTH('a)")
    case True
    then have "i mod LENGTH('a) = pos mod LENGTH('a) \<longleftrightarrow> i = pos" using same_position by blast
    moreover have "i < length s * LENGTH('a)" using k True by (metis div_less_iff_less_mult len_gt_0)
    ultimately show ?thesis using True k by (simp add: bits_of_def assms(3) bit_at_def)
  next
    case False
    then show ?thesis by (auto simp: bits_of_def bit_at_update [OF k])
  qed
  then show "i \<in> bits_of (s[pos div LENGTH('a) := f (s ! (pos div LENGTH('a)))]) \<longleftrightarrow> i \<in> (if new then insert pos (bits_of s) else bits_of s - {pos})"
    by auto
qed

lemma Set_bits:
  assumes "sized n s" and "pos < n"
  shows "\<exists>s'. BitSet_Set n pos toggle (s :: 'a::len word list) = Inr s' \<and> sized n s' \<and>
    bits_of s' = (if toggle then insert pos (bits_of s) else bits_of s - {pos})"
proof -
  have lt: "pos mod LENGTH('a) < LENGTH('a)" by simp
  have "bits_of (s[pos div LENGTH('a) := (\<lambda>w. if toggle then w OR one_bit (pos mod LENGTH('a)) else w AND NOT (one_bit (pos mod LENGTH('a)))) (s ! (pos div LENGTH('a)))])
      = (if toggle then insert pos (bits_of s) else bits_of s - {pos})"
    by (rule update_bits [OF assms]) (use lt in \<open>auto simp: bit_or_iff bit_and_iff bit_not_iff bit_one_bit dest: bit_imp_le_length\<close>)
  then show ?thesis using assms by (simp add: BitSet_Set_def Let_def sized_def)
qed

lemma Flip_bits:
  assumes "sized n s" and "pos < n"
  shows "\<exists>s'. BitSet_Flip n pos (s :: 'a::len word list) = Inr s' \<and> sized n s' \<and>
    bits_of s' = (if pos \<in> bits_of s then bits_of s - {pos} else insert pos (bits_of s))"
proof -
  have lt: "pos mod LENGTH('a) < LENGTH('a)" by simp
  have b: "pos \<in> bits_of s \<longleftrightarrow> bit (s ! (pos div LENGTH('a))) (pos mod LENGTH('a))"
    using sized_range [OF assms] by (simp add: bits_of_def bit_at_def)
  have "bits_of (s[pos div LENGTH('a) := (\<lambda>w. w XOR one_bit (pos mod LENGTH('a))) (s ! (pos div LENGTH('a)))])
      = (if pos \<notin> bits_of s then insert pos (bits_of s) else bits_of s - {pos})"
    by (rule update_bits [OF assms]) (use lt b in \<open>auto simp: bit_xor_iff bit_one_bit dest: bit_imp_le_length\<close>)
  then show ?thesis using assms by (auto simp: BitSet_Flip_def Let_def sized_def)
qed

lemma popcount_loop_eq: "popcount_loop s c = c + sum_list (map PopCount s)"
  by (induction s c rule: popcount_loop.induct) simp_all

lemma Count_bits: "BitSet_CountSetBits s = card (bits_of s)"
  by (simp add: BitSet_CountSetBits_def popcount_loop_eq count_bits)

lemma assign_words_eq: "length xs = length ys \<Longrightarrow> assign_words f xs ys = map2 f xs ys"
  by (induction f xs ys rule: assign_words.induct) simp_all

lemma assign_bits:
  assumes "length xs = length ys" and "\<And>x y j. bit (f x y) j \<longleftrightarrow> P (bit x j) (bit y j)" and "\<not> P False False"
  shows "bits_of (assign_words f xs (ys :: 'a::len word list)) = {i. P (i \<in> bits_of xs) (i \<in> bits_of ys)}"
proof (rule set_eqI)
  fix i
  show "i \<in> bits_of (assign_words f xs ys) \<longleftrightarrow> i \<in> {i. P (i \<in> bits_of xs) (i \<in> bits_of ys)}"
    using assms(1,3) by (cases "i < length ys * LENGTH('a)") (simp_all add: bits_of_def bit_at_def assign_words_eq assms(2) div_less_words)
qed

lemma binary_bits:
  assumes "length s = length rhs"
  shows "bits_of (BitSet_and s rhs) = bits_of s \<inter> bits_of rhs" "bits_of (BitSet_or s rhs) = bits_of s \<union> bits_of rhs"
    "bits_of (BitSet_xor s rhs) = (bits_of s - bits_of rhs) \<union> (bits_of rhs - bits_of s)"
proof -
  show "bits_of (BitSet_and s rhs) = bits_of s \<inter> bits_of rhs"
    unfolding BitSet_and_def by (subst assign_bits [OF assms, where P = "(\<and>)"]) (auto simp: bit_and_iff)
  show "bits_of (BitSet_or s rhs) = bits_of s \<union> bits_of rhs"
    unfolding BitSet_or_def by (subst assign_bits [OF assms, where P = "(\<or>)"]) (auto simp: bit_or_iff)
  show "bits_of (BitSet_xor s rhs) = (bits_of s - bits_of rhs) \<union> (bits_of rhs - bits_of s)"
    unfolding BitSet_xor_def by (subst assign_bits [OF assms, where P = "(\<noteq>)"]) (auto simp: bit_xor_iff)
qed

section \<open>Shifts\<close>

lemma shl_words_length [simp]: "length (shl_words ws n a) = length a"
  by (induction ws n a rule: shl_words.induct) simp_all

lemma shl_words_nth:
  "n \<le> length a \<Longrightarrow> j < length a \<Longrightarrow> shl_words ws n a ! j = (if j < n then if ws \<le> j then a ! (j - ws) else 0 else a ! j)"
proof (induction ws n a rule: shl_words.induct)
  case (2 ws i a)
  show ?case using 2 by (cases "j = i") (auto simp: nth_list_update)
qed simp

lemma shl_bits_length [simp]: "length (shl_bits p n a) = length a"
  by (induction p n a rule: shl_bits.induct) simp_all

lemma shl_bits_nth:
  "n < length (a :: 'a::len word list) \<Longrightarrow> j < length a \<Longrightarrow> shl_bits p n a ! j =
    (if 1 \<le> j \<and> j \<le> n then push_bit p (a ! j) OR drop_bit (LENGTH('a) - p) (a ! (j - 1)) else a ! j)"
  by (induction p n a rule: shl_bits.induct) (auto simp: nth_list_update)

lemma shr_words_length [simp]: "length (shr_words ws i n a) = length a"
  by (induction ws i n a rule: shr_words.induct) simp_all

lemma shr_words_nth:
  "i + n = length a \<Longrightarrow> 0 < ws \<Longrightarrow> j < length a \<Longrightarrow>
    shr_words ws i n a ! j = (if i \<le> j then if j + ws < length a then a ! (j + ws) else 0 else a ! j)"
proof (induction ws i n a rule: shr_words.induct)
  case (2 ws i left a)
  show ?case using 2 by (cases "j = i") (auto simp: nth_list_update)
qed auto

lemma shr_bits_length [simp]: "length (shr_bits p i n a) = length a"
  by (induction p i n a rule: shr_bits.induct) simp_all

lemma shr_bits_nth:
  "i + n < length (a :: 'a::len word list) \<Longrightarrow> j < length a \<Longrightarrow> shr_bits p i n a ! j =
    (if i \<le> j \<and> j < i + n then drop_bit p (a ! j) OR push_bit (LENGTH('a) - p) (a ! (j + 1)) else a ! j)"
proof (induction p i n a rule: shr_bits.induct)
  case (2 p i left a)
  show ?case using 2 by (cases "j = i") (auto simp: nth_list_update)
qed auto

lemma div_mod_shift: "0 < w \<Longrightarrow> k * w \<le> i \<Longrightarrow> (i - k * w) div w = i div w - k \<and> (i - k * w) mod w = i mod (w :: nat)"
proof -
  assume w: "0 < w" "k * w \<le> i"
  then obtain d where d: "i = k * w + d" by (metis le_iff_add)
  then show ?thesis using w by simp
qed

lemma div_less_iff: "0 < w \<Longrightarrow> k \<le> i div w \<longleftrightarrow> k * w \<le> (i :: nat)"
  by (simp add: less_eq_div_iff_mult_less_eq)

text \<open>By whole words, then by fewer bits than a word has.\<close>

lemma bit_shl_words:
  "bit_at (shl_words k (length s) s) i \<longleftrightarrow> i < length s * LENGTH('a) \<and> k * LENGTH('a) \<le> i \<and> bit_at (s :: 'a::len word list) (i - k * LENGTH('a))"
proof (cases "i < length s * LENGTH('a) \<and> k * LENGTH('a) \<le> i")
  case True
  have n: "shl_words k (length s) s ! (i div LENGTH('a)) = s ! (i div LENGTH('a) - k)"
    using True shl_words_nth [of "length s" s "i div LENGTH('a)" k] div_less_iff [of "LENGTH('a)" k i] by (simp add: div_less_words)
  then show ?thesis using True div_mod_shift [of "LENGTH('a)" k i] by (auto simp: bit_at_def)
next
  case False
  have "shl_words k (length s) s ! (i div LENGTH('a)) = 0" if "i < length s * LENGTH('a)"
    using False that shl_words_nth [of "length s" s "i div LENGTH('a)" k] div_less_iff [of "LENGTH('a)" k i] by (simp add: div_less_words)
  then show ?thesis using False by (auto simp: bit_at_def)
qed

definition shl_rest :: "nat \<Rightarrow> 'a::len word list \<Rightarrow> 'a word list" where
  "shl_rest p s = (let s = shl_bits p (length s - 1) s in s[0 := push_bit p (s ! 0)])"

lemma shl_rest_nth:
  assumes "s \<noteq> []" and "j < length s"
  shows "shl_rest p (s :: 'a::len word list) ! j = (if j = 0 then push_bit p (s ! 0) else push_bit p (s ! j) OR drop_bit (LENGTH('a) - p) (s ! (j - 1)))"
proof -
  have "length s - 1 < length s" "0 < length s" using assms(1) by simp_all
  then show ?thesis using assms shl_bits_nth [of "length s - 1" s j p] shl_bits_nth [of "length s - 1" s 0 p]
    by (cases j) (auto simp: shl_rest_def Let_def)
qed

lemma bit_shl_rest:
  assumes "s \<noteq> []" and "p < LENGTH('a)"
  shows "bit_at (shl_rest p s) i \<longleftrightarrow> i < length s * LENGTH('a) \<and> p \<le> i \<and> bit_at (s :: 'a::len word list) (i - p)"
proof (cases "i < length s * LENGTH('a)")
  case True
  define j r where "j = i div LENGTH('a)" and "r = i mod LENGTH('a)"
  have i: "i = j * LENGTH('a) + r" "r < LENGTH('a)" by (simp_all add: j_def r_def)
  have j: "j < length s" using True by (simp add: j_def div_less_words)
  have l: "bit_at (shl_rest p s) i \<longleftrightarrow> bit (shl_rest p s ! j) r" using True j_def r_def by (simp add: bit_at_def shl_rest_def Let_def)
  show ?thesis
  proof (cases "p \<le> r")
    case pr: True
    then have "i - p = j * LENGTH('a) + (r - p)" using i by simp
    moreover have "i - p < length s * LENGTH('a)" using True by simp
    ultimately have "bit_at s (i - p) \<longleftrightarrow> bit (s ! j) (r - p)" using i(2) by (simp add: bit_at_def)
    moreover have "\<not> bit (s ! (j - 1)) (r + (LENGTH('a) - p))" using pr assms(2) bit_imp_le_length [of "s ! (j - 1)"] by fastforce
    ultimately show ?thesis using l shl_rest_nth [OF assms(1) j, of p] pr True i
      by (simp add: bit_or_iff bit_push_bit_iff bit_drop_bit_eq add.commute)
  next
    case pr: False
    show ?thesis
    proof (cases j)
      case 0
      then show ?thesis using l shl_rest_nth [OF assms(1) j, of p] pr i by (simp add: bit_push_bit_iff)
    next
      case (Suc k)
      then have e: "i - p = k * LENGTH('a) + (r + (LENGTH('a) - p))" "r + (LENGTH('a) - p) < LENGTH('a)" using pr i assms(2) by simp_all
      moreover have "i - p < length s * LENGTH('a)" using True by simp
      ultimately have "bit_at s (i - p) \<longleftrightarrow> bit (s ! k) (r + (LENGTH('a) - p))" by (simp add: bit_at_def)
      then show ?thesis using l shl_rest_nth [OF assms(1) j, of p] pr True i Suc assms(2)
        by (simp add: bit_or_iff bit_push_bit_iff bit_drop_bit_eq add.commute)
    qed
  qed
qed (simp add: bit_at_def shl_rest_def Let_def)

lemma shl_rest_length [simp]: "length (shl_rest p s) = length s"
  by (simp add: shl_rest_def Let_def)

lemma shl_rest_0: "shl_rest 0 (s :: 'a::len word list) = s"
proof (cases "s = []")
  case False
  then show ?thesis using bit_shl_rest [OF False, of 0] by (intro words_eqI) auto
qed (simp add: shl_rest_def)

lemma shl_words_0: "shl_words 0 (length s) s = s"
  by (intro nth_equalityI) (simp_all add: shl_words_nth)

lemma shl_two: "BitSet_shl pos (s :: 'a::len word list) = shl_rest (pos mod LENGTH('a)) (shl_words (pos div LENGTH('a)) (length s) s)"
proof -
  define t where "t = (if pos div LENGTH('a) \<noteq> 0 then shl_words (pos div LENGTH('a)) (length s) s else s)"
  have "t = shl_words (pos div LENGTH('a)) (length s) s" unfolding t_def using shl_words_0 [of s] by metis
  moreover have "BitSet_shl pos s = (if pos mod LENGTH('a) \<noteq> 0 then shl_rest (pos mod LENGTH('a)) t else t)"
    by (simp only: BitSet_shl_def Let_def t_def shl_rest_def)
  ultimately show ?thesis using shl_rest_0 [of t] by metis
qed

lemma Shl_bits:
  assumes "s \<noteq> []"
  shows "bits_of (BitSet_shl pos (s :: 'a::len word list)) = {i + pos | i. i \<in> bits_of s \<and> i + pos < length s * LENGTH('a)}"
proof (rule set_eqI)
  fix i
  have p: "pos = pos div LENGTH('a) * LENGTH('a) + pos mod LENGTH('a)" by simp
  have ne: "shl_words (pos div LENGTH('a)) (length s) s \<noteq> []" using assms by (metis length_0_conv shl_words_length)
  have "bit_at (BitSet_shl pos s) i \<longleftrightarrow> i < length s * LENGTH('a) \<and> pos mod LENGTH('a) \<le> i \<and> pos div LENGTH('a) * LENGTH('a) \<le> i - pos mod LENGTH('a)
      \<and> bit_at s (i - pos mod LENGTH('a) - pos div LENGTH('a) * LENGTH('a))"
    unfolding shl_two by (auto simp: bit_shl_rest [OF ne] bit_shl_words)
  also have "\<dots> \<longleftrightarrow> i < length s * LENGTH('a) \<and> pos \<le> i \<and> bit_at s (i - pos)" 
  proof -
    have "i - pos mod LENGTH('a) - pos div LENGTH('a) * LENGTH('a) = i - pos" using p by linarith
    moreover have "pos mod LENGTH('a) \<le> i \<and> pos div LENGTH('a) * LENGTH('a) \<le> i - pos mod LENGTH('a) \<longleftrightarrow> pos \<le> i" using p by linarith
    ultimately show ?thesis by auto
  qed
  finally show "i \<in> bits_of (BitSet_shl pos s) \<longleftrightarrow> i \<in> {i + pos | i. i \<in> bits_of s \<and> i + pos < length s * LENGTH('a)}"
    by (auto simp: bits_of_def) (metis le_add_diff_inverse2)
qed

lemma bit_shr_words:
  assumes "0 < k"
  shows "bit_at (shr_words k 0 (length s) s) i \<longleftrightarrow> i < length s * LENGTH('a) \<and> bit_at (s :: 'a::len word list) (i + k * LENGTH('a))"
proof (cases "i < length s * LENGTH('a)")
  case True
  have n: "shr_words k 0 (length s) s ! (i div LENGTH('a)) =
      (if i div LENGTH('a) + k < length s then s ! (i div LENGTH('a) + k) else 0)"
    using True shr_words_nth [of 0 "length s" s k "i div LENGTH('a)"] assms by (simp add: div_less_words)
  have "i div LENGTH('a) + k < length s \<longleftrightarrow> i + k * LENGTH('a) < length s * LENGTH('a)"
    using div_less_iff_less_mult [of "LENGTH('a)" "i + k * LENGTH('a)" "length s"] by (simp add: add.commute)
  then show ?thesis using True n by (auto simp: bit_at_def add.commute [of k])
qed (simp add: bit_at_def)

definition shr_rest :: "nat \<Rightarrow> 'a::len word list \<Rightarrow> 'a word list" where
  "shr_rest p s = (let s = shr_bits p 0 (length s - 1) s; k = length s - 1 in s[k := drop_bit p (s ! k)])"

lemma shr_rest_length [simp]: "length (shr_rest p s) = length s"
  by (simp add: shr_rest_def Let_def)

lemma shr_rest_nth:
  assumes "j < length s"
  shows "shr_rest p (s :: 'a::len word list) ! j =
    (if j + 1 < length s then drop_bit p (s ! j) OR push_bit (LENGTH('a) - p) (s ! (j + 1)) else drop_bit p (s ! j))"
proof -
  have "0 + (length s - 1) < length s" using assms by simp
  note N = shr_bits_nth [OF this]
  show ?thesis using assms N [of j p] N [of "length s - 1" p] by (cases "j = length s - 1") (auto simp: shr_rest_def Let_def)
qed

lemma bit_shr_rest:
  assumes "p < LENGTH('a)"
  shows "bit_at (shr_rest p s) i \<longleftrightarrow> i < length s * LENGTH('a) \<and> bit_at (s :: 'a::len word list) (i + p)"
proof (cases "i < length s * LENGTH('a)")
  case True
  define j r where "j = i div LENGTH('a)" and "r = i mod LENGTH('a)"
  have i: "i = j * LENGTH('a) + r" "r < LENGTH('a)" by (simp_all add: j_def r_def)
  have j: "j < length s" using True by (simp add: j_def div_less_words)
  have l: "bit_at (shr_rest p s) i \<longleftrightarrow> bit (shr_rest p s ! j) r" using True j_def r_def by (simp add: bit_at_def)
  show ?thesis
  proof (cases "r + p < LENGTH('a)")
    case rp: True
    have d: "(i + p) div LENGTH('a) = j" "(i + p) mod LENGTH('a) = r + p" using i(1) rp by (simp_all add: add.assoc)
    then have "i + p < length s * LENGTH('a)" using j by (metis div_less_iff_less_mult len_gt_0)
    then have "bit_at s (i + p) \<longleftrightarrow> bit (s ! j) (r + p)" using d by (simp add: bit_at_def)
    then show ?thesis using l shr_rest_nth [OF j, of p] rp True
      by (auto simp: bit_or_iff bit_push_bit_iff bit_drop_bit_eq add.commute)
  next
    case rp: False
    then have e: "i + p = Suc j * LENGTH('a) + (r + p - LENGTH('a))" "r + p - LENGTH('a) < LENGTH('a)" using i assms by simp_all
    then have d: "(i + p) div LENGTH('a) = Suc j" "(i + p) mod LENGTH('a) = r + p - LENGTH('a)" by (simp_all only: div_mult_self3 mod_mult_self3 div_less mod_less)
    then have "i + p < length s * LENGTH('a) \<longleftrightarrow> Suc j < length s" by (metis div_less_iff_less_mult len_gt_0)
    then have "bit_at s (i + p) \<longleftrightarrow> Suc j < length s \<and> bit (s ! Suc j) (r + p - LENGTH('a))" using d by (simp add: bit_at_def)
    moreover have "\<not> bit (s ! j) (r + p)" using rp bit_imp_le_length by blast
    ultimately show ?thesis using l shr_rest_nth [OF j, of p] rp True i(2) assms
      by (auto simp: bit_or_iff bit_push_bit_iff bit_drop_bit_eq add.commute)
  qed
qed (simp add: bit_at_def)

lemma shr_rest_0: "shr_rest 0 (s :: 'a::len word list) = s"
  using bit_shr_rest [of 0 s] by (intro words_eqI) auto

lemma shr_two:
  "BitSet_shr pos (s :: 'a::len word list) = shr_rest (pos mod LENGTH('a))
    (if pos div LENGTH('a) \<noteq> 0 then shr_words (pos div LENGTH('a)) 0 (length s) s else s)"
proof -
  define t where "t = (if pos div LENGTH('a) \<noteq> 0 then shr_words (pos div LENGTH('a)) 0 (length s) s else s)"
  have "BitSet_shr pos s = (if pos mod LENGTH('a) \<noteq> 0 then shr_rest (pos mod LENGTH('a)) t else t)"
    by (simp only: BitSet_shr_def Let_def t_def shr_rest_def)
  then show ?thesis using shr_rest_0 [of t] unfolding t_def by metis
qed

lemma Shr_bits: "bits_of (BitSet_shr pos (s :: 'a::len word list)) = {i. i + pos \<in> bits_of s}"
proof (rule set_eqI)
  fix i
  define k p where "k = pos div LENGTH('a)" and "p = pos mod LENGTH('a)"
  have pos: "p + k * LENGTH('a) = pos" "p < LENGTH('a)" by (simp_all add: k_def p_def)
  define t where "t = (if k \<noteq> 0 then shr_words k 0 (length s) s else s)"
  have t: "bit_at t j \<longleftrightarrow> j < length s * LENGTH('a) \<and> bit_at s (j + k * LENGTH('a))" "length t = length s" for j
    using bit_shr_words [of k s j] bit_at_above [of s j] by (auto simp: t_def)
  have "bit_at (BitSet_shr pos s) i \<longleftrightarrow> i < length t * LENGTH('a) \<and> bit_at t (i + p)"
    unfolding shr_two k_def [symmetric] p_def [symmetric] t_def [symmetric] by (rule bit_shr_rest [OF pos(2)])
  also have "\<dots> \<longleftrightarrow> bit_at s (i + p + k * LENGTH('a))" unfolding t using bit_at_above [of s "i + p + k * LENGTH('a)"] by auto
  also have "i + p + k * LENGTH('a) = i + pos" using pos(1) by simp
  finally show "i \<in> bits_of (BitSet_shr pos s) \<longleftrightarrow> i \<in> {i. i + pos \<in> bits_of s}" by (simp add: bits_of_def)
qed

section \<open>A run refines a set of positions\<close>

datatype 'x bitset_op = OReset | OSet nat bool | OFlip nat | OTest nat | OCount | OAnd 'x | OOr 'x | OXor 'x | OShl nat | OShr nat | OEqual 'x

datatype bitset_answer = Quiet | Answer bool | Count nat

definition bitset_step :: "nat \<Rightarrow> 'a::len word list bitset_op \<Rightarrow> 'a word list \<Rightarrow> ('a word list \<times> bitset_answer) res" where
  "bitset_step n op s = (case op of
     OReset \<Rightarrow> Inr (BitSet_Reset s, Quiet)
   | OSet pos toggle \<Rightarrow> bindE (BitSet_Set n pos toggle s) (\<lambda>s. Inr (s, Quiet))
   | OFlip pos \<Rightarrow> bindE (BitSet_Flip n pos s) (\<lambda>s. Inr (s, Quiet))
   | OTest pos \<Rightarrow> bindE (BitSet_Test n pos s) (\<lambda>b. Inr (s, Answer b))
   | OCount \<Rightarrow> Inr (s, Count (BitSet_CountSetBits s))
   | OAnd rhs \<Rightarrow> Inr (BitSet_and s rhs, Quiet)
   | OOr rhs \<Rightarrow> Inr (BitSet_or s rhs, Quiet)
   | OXor rhs \<Rightarrow> Inr (BitSet_xor s rhs, Quiet)
   | OShl pos \<Rightarrow> Inr (BitSet_shl pos s, Quiet)
   | OShr pos \<Rightarrow> Inr (BitSet_shr pos s, Quiet)
   | OEqual rhs \<Rightarrow> Inr (s, Answer (s = rhs)))"

text \<open>The abstract step on a set of positions below the capacity \<open>c\<close> of the words; positions have to be below \<open>n\<close>.\<close>

definition set_step :: "nat \<Rightarrow> nat \<Rightarrow> nat set bitset_op \<Rightarrow> nat set \<Rightarrow> (nat set \<times> bitset_answer) option" where
  "set_step n c op S = (case op of
     OReset \<Rightarrow> Some ({}, Quiet)
   | OSet pos toggle \<Rightarrow> if pos < n then Some (if toggle then insert pos S else S - {pos}, Quiet) else None
   | OFlip pos \<Rightarrow> if pos < n then Some (if pos \<in> S then S - {pos} else insert pos S, Quiet) else None
   | OTest pos \<Rightarrow> if pos < n then Some (S, Answer (pos \<in> S)) else None
   | OCount \<Rightarrow> Some (S, Count (card S))
   | OAnd R \<Rightarrow> Some (S \<inter> R, Quiet)
   | OOr R \<Rightarrow> Some (S \<union> R, Quiet)
   | OXor R \<Rightarrow> Some ((S - R) \<union> (R - S), Quiet)
   | OShl pos \<Rightarrow> Some ({i + pos | i. i \<in> S \<and> i + pos < c}, Quiet)
   | OShr pos \<Rightarrow> Some ({i. i + pos \<in> S}, Quiet)
   | OEqual R \<Rightarrow> Some (S, Answer (S = R)))"

definition sized_op :: "nat \<Rightarrow> 'a::len word list bitset_op \<Rightarrow> bool" where
  "sized_op n op = (case op of OAnd r \<Rightarrow> sized n r | OOr r \<Rightarrow> sized n r | OXor r \<Rightarrow> sized n r | OEqual r \<Rightarrow> sized n r | _ \<Rightarrow> True)"

lemma BitSet_lengths:
  "length (BitSet_shl p s) = length s" "length (BitSet_shr p s) = length s"
  "length s = length r \<Longrightarrow> length (BitSet_and s r) = length s" "length s = length r \<Longrightarrow> length (BitSet_or s r) = length s"
  "length s = length r \<Longrightarrow> length (BitSet_xor s r) = length s"
  by (simp_all add: shl_two shr_two BitSet_and_def BitSet_or_def BitSet_xor_def assign_words_eq)

lemma Reset_bits: "bits_of (BitSet_Reset s) = {}"
  by (auto simp: bits_of_def bit_at_def BitSet_Reset_def div_less_words)

lemma bitset_step_refines:
  assumes "sized n (s :: 'a::len word list)" and "sized_op n op"
  shows "set_step n (length s * LENGTH('a)) (map_bitset_op bits_of op) (bits_of s) = map_option (apfst bits_of) (result_of (bitset_step n op s))
    \<and> (\<forall>s' r. result_of (bitset_step n op s) = Some (s', r) \<longrightarrow> sized n s')"
proof (cases op)
  case (OSet pos t)
  then show ?thesis using Set_bits [OF assms(1), of pos t]
    by (cases "pos < n") (auto simp: set_step_def bitset_step_def BitSet_Set_def)
next
  case (OFlip pos)
  then show ?thesis using Flip_bits [OF assms(1), of pos] 
    by (cases "pos < n") (auto simp: set_step_def bitset_step_def BitSet_Flip_def)
next
  case (OTest pos)
  then show ?thesis using Test_bits [OF assms(1), of pos] assms(1)
    by (cases "pos < n") (auto simp: set_step_def bitset_step_def BitSet_Test_def)
next
  case OCount
  then show ?thesis using assms(1) by (simp add: set_step_def bitset_step_def Count_bits)
next
  case (OAnd r)
  then have "length s = length r" using assms by (simp add: sized_op_def sized_def)
  then show ?thesis using assms(1) OAnd by (simp add: set_step_def bitset_step_def binary_bits sized_def BitSet_lengths)
next
  case (OOr r)
  then have "length s = length r" using assms by (simp add: sized_op_def sized_def)
  then show ?thesis using assms(1) OOr by (simp add: set_step_def bitset_step_def binary_bits sized_def BitSet_lengths)
next
  case (OXor r)
  then have "length s = length r" using assms by (simp add: sized_op_def sized_def)
  then show ?thesis using assms(1) OXor by (simp add: set_step_def bitset_step_def binary_bits sized_def BitSet_lengths)
next
  case (OEqual r)
  then have "length s = length r" using assms by (simp add: sized_op_def sized_def)
  then show ?thesis using assms(1) OEqual by (simp add: set_step_def bitset_step_def bits_eq_iff)
next
  case OReset
  then show ?thesis using assms(1) by (simp add: set_step_def bitset_step_def Reset_bits sized_def) (simp add: BitSet_Reset_def)
next
  case (OShl pos)
  have "s \<noteq> []" using assms(1) by (auto simp: sized_def)
  then show ?thesis using assms(1) OShl by (simp add: set_step_def bitset_step_def Shl_bits sized_def BitSet_lengths)
next
  case (OShr pos)
  then show ?thesis using assms(1) by (simp add: set_step_def bitset_step_def Shr_bits sized_def BitSet_lengths)
qed

definition bitset_spec :: "nat \<Rightarrow> nat \<Rightarrow> nat set bitset_op \<Rightarrow> nat set \<Rightarrow> (nat set \<times> bitset_answer) option" where
  "bitset_spec w n = set_step n ((kWords w n + 1) * w)"

interpretation bitset: refined_store "\<lambda>op s. result_of (bitset_step n op (s :: 'a::len word list))" "bitset_spec LENGTH('a) n"
  "map_bitset_op bits_of" bits_of "sized n" "sized_op n" for n
proof
 fix s :: "'a word list" and op :: "'a word list bitset_op"
  assume A: "sized n s" "sized_op n op"
  then have "length s = kWords LENGTH('a) n + 1" by (simp add: sized_def)
  note R = bitset_step_refines [OF A, unfolded this]
  then show "bitset_spec LENGTH('a) n (map_bitset_op bits_of op) (bits_of s) = map_option (apfst bits_of) (result_of (bitset_step n op s))"
    by (simp add: bitset_spec_def)
  show "result_of (bitset_step n op s) = Some (s', r) \<Longrightarrow> sized n s'" for s' r using R by blast
qed

text \<open>
  (C40) A run of \<open>BitSet\<close> on operands of its size is a run on the set of its positions, with the same refusals
  and answers: union, intersection and difference word by word, and shifts by any distance, across words,
  on all the bits of the words.
\<close>

theorem bitset_run_refines:
  assumes "sized n (s :: 'a::len word list)" and "list_all (sized_op n) ops"
  shows "run_steps (bitset_spec LENGTH('a) n) (map (map_bitset_op bits_of) ops) (bits_of s) =
    map_option (apfst bits_of) (run_steps (\<lambda>op s. result_of (bitset_step n op s)) ops s)"
  using assms by (rule bitset.run_refines)

theorem bitset_run_refines_witness:
  "run_steps (\<lambda>op s. result_of (bitset_step 40 op s)) [OSet 33 True, OShr 2, OCount] [0 :: u64] = Some ([0x80000000], [Quiet, Quiet, Count 1])"
proof -
  have s: "sized 40 [0 :: u64]" "list_all (sized_op 40) [OSet 33 True, OShr 2, OCount :: u64 list bitset_op]"
    by (simp_all add: sized_def kWords_def sized_op_def)
  obtain t rs where R: "run_steps (\<lambda>op s. result_of (bitset_step 40 op s)) [OSet 33 True, OShr 2, OCount] [0 :: u64] = Some (t, rs)"
    by (simp add: bitset_step_def BitSet_Set_def Let_def)
  have b0: "bits_of [0 :: u64] = {}" by (simp add: bits_of_def bit_at_def)
  have "{i. i + 2 = (33 :: nat)} = {31}" by auto
  then have S: "run_steps (bitset_spec 64 40) (map (map_bitset_op bits_of) [OSet 33 True, OShr 2, OCount :: u64 list bitset_op]) {} = Some ({31}, [Quiet, Quiet, Count 1])"
    by (simp add: set_step_def bitset_spec_def kWords_def)
  have "Some ({31}, [Quiet, Quiet, Count 1]) = map_option (apfst bits_of) (Some (t, rs))"
    using bitset_run_refines [OF s] R b0 S by (simp add: kWords_def)
  then have t: "bits_of t = {31}" "rs = [Quiet, Quiet, Count 1]" by simp_all
  have l: "length t = 1" using R by (auto simp: bitset_step_def BitSet_Set_def Let_def BitSet_lengths)
  have "i \<in> bits_of [0x80000000 :: u64] \<longleftrightarrow> i = 31" for i
  proof -
    have "(0x80000000 :: u64) = one_bit 31" by (simp add: one_bit_def)
    show ?thesis unfolding \<open>0x80000000 = one_bit 31\<close> by (auto simp: bits_of_def bit_at_def bit_one_bit)
  qed
  then have "t = [0x80000000]" using t(1) l bits_eq_iff [of t "[0x80000000]"] by auto
  then show ?thesis using R t(2) by simp
qed

section \<open>Construction and conversion\<close>

lemma BitSet_value_bits:
  assumes "0 < n" and "LENGTH('a::len) = (if n \<le> 32 then 32 else 64)"
  shows "bits_of (BitSet_value n v :: 'a word list) = {i. i < n \<and> bit v i} \<and> sized n (BitSet_value n v :: 'a word list)"
proof
  show "sized n (BitSet_value n v :: 'a word list)" by (simp add: sized_def BitSet_value_def BitSet_init_def)
  have m: "bit (one_bit n - 1 :: u64) i \<longleftrightarrow> i < n" if "n < 64" "i < 64" for i
    using that by (simp add: one_bit_def push_bit_of_1 mask_eq_exp_minus_1 [symmetric] bit_mask_iff)
  have "bit_at (BitSet_value n v :: 'a word list) i \<longleftrightarrow> i < n \<and> bit v i" for i
  proof (cases "i < LENGTH('a)")
    case True
    have "i < 64" using True assms(2) by (auto split: if_splits)
    have "bit (ucast (if n < 64 then v AND (one_bit n - 1) else v) :: 'a word) i \<longleftrightarrow> (n < 64 \<longrightarrow> i < n) \<and> bit v i"
      using True \<open>i < 64\<close> m by (auto simp: bit_ucast_iff bit_and_iff)
    moreover have "i < n" if "\<not> n < 64" using that \<open>i < 64\<close> by simp
    ultimately show ?thesis using True by (auto simp: bit_at_def BitSet_value_def BitSet_init_def)
  next
    case False
    then have z: "\<not> bit_at (BitSet_value n v :: 'a word list) i"
    proof -
      have "0 < i div LENGTH('a)" using False by (simp add: div_greater_zero_iff)
      then obtain j where "i div LENGTH('a) = Suc j" by (metis gr0_implies_Suc)
      moreover then have "j < kWords LENGTH('a) n" if "i < (kWords LENGTH('a) n + 1) * LENGTH('a)" using div_less_words [OF that] by simp
      ultimately show ?thesis by (auto simp: bit_at_def BitSet_value_def BitSet_init_def)
    qed
    have "\<not> (i < n \<and> bit v i)" using False assms(2) bit_imp_le_length [of v i] by (auto split: if_splits)
    then show ?thesis using z by blast
  qed
  then show "bits_of (BitSet_value n v :: 'a word list) = {i. i < n \<and> bit v i}" by (simp add: bits_of_def)
qed

lemma PopCount_one_bit: "p < LENGTH('a) \<Longrightarrow> PopCount (one_bit p :: 'a::len word) = 1"
proof -
  assume "p < LENGTH('a)"
  then have "{j. bit (one_bit p :: 'a word) j} = {p}" by (auto simp: bit_one_bit)
  then show ?thesis by (simp add: PopCount_card)
qed

text \<open>A left shift moves bits beyond the size, where no test sees them but the count and the comparison do.\<close>

lemma bitset_shift_beyond_size:
  "BitSet_shl 1 [one_bit 3 :: u32] = [one_bit 4] \<and> BitSet_CountSetBits [one_bit 4 :: u32] = 1 \<and> [one_bit 4 :: u32] \<noteq> BitSet_init 4
   \<and> map (\<lambda>pos. BitSet_Test 4 pos [one_bit 4 :: u32]) [0, 1, 2, 3] = [Inr False, Inr False, Inr False, Inr False]"
proof (intro conjI)
  show "BitSet_shl 1 [one_bit 3 :: u32] = [one_bit 4]" by (simp add: BitSet_shl_def Let_def one_bit_def)
  show "BitSet_CountSetBits [one_bit 4 :: u32] = 1" by (simp add: BitSet_CountSetBits_def PopCount_one_bit)
  show "[one_bit 4 :: u32] \<noteq> BitSet_init 4" by (simp add: BitSet_init_def kWords_def one_bit_def)
  show "map (\<lambda>pos. BitSet_Test 4 pos [one_bit 4 :: u32]) [0, 1, 2, 3] = [Inr False, Inr False, Inr False, Inr False]"
    by (simp add: BitSet_Test_def one_bit_def)
qed

lemma bitset_to_ulong_truncates:
  "BitSet_to_ulong 64 [0x100000002 :: u64] = Inr 2 \<and> BitSet_to_ullong 64 [0x100000002 :: u64] = Inr 0x100000002"
  by (simp add: BitSet_to_ulong_def BitSet_to_ullong_def)

end
