(* ===== verification/Better_Bitset.thy ===== *)
theory Better_Bitset
  imports Bitset
begin

text \<open>
  \<open>BetterBitSet\<close> of \<open>containers/bitsets/better_bitset.h\<close>: up to 64 bits in one word of 8, 16, 32 or 64
  bits, more in words of 64 bits. The bits of the last word beyond the size stay zero. \<open>to_number\<close> is
  modelled for up to 32 bits, the sizes for which it compiles.
\<close>

unbundle bit_operations_syntax

section \<open>The operations\<close>

definition width_for :: "nat \<Rightarrow> nat" where
  "width_for n = (if n > 32 then 64 else if n > 16 then 32 else if n > 8 then 16 else 8)"

definition words_for :: "nat \<Rightarrow> nat" where
  "words_for n = (n + 63) div 64"

definition kLastMask :: "nat \<Rightarrow> u64" where
  "kLastMask n = NOT (push_bit ((n - 1) mod 64) (NOT 1))"

definition Better_init :: "nat \<Rightarrow> 'a::len word list" where
  "Better_init n = replicate (words_for n) 0"

definition Better_value :: "nat \<Rightarrow> u64 \<Rightarrow> 'a::len word list" where
  "Better_value n val = (Better_init n)[0 := ucast (if n < 64 then val AND (one_bit n - 1) else val)]"

definition Better_CountSetBits :: "'a::len word list \<Rightarrow> nat" where
  "Better_CountSetBits s = popcount_loop s 0"

definition Better_Set_all :: "nat \<Rightarrow> 'a::len word list \<Rightarrow> 'a word list" where
  "Better_Set_all n s = map (\<lambda>_. - 1) (butlast s) @ [ucast (kLastMask n)]"

definition Better_flip :: "nat \<Rightarrow> 'a::len word list \<Rightarrow> 'a word list" where
  "Better_flip n s = map NOT (butlast s) @ [ucast (NOT (ucast (List.last s)) AND kLastMask n)]"

definition Better_reset_all :: "'a::len word list \<Rightarrow> 'a word list" where
  "Better_reset_all s = map (\<lambda>_. 0) s"

definition Better_reset :: "nat \<Rightarrow> nat \<Rightarrow> 'a::len word list \<Rightarrow> 'a word list res" where
  "Better_reset n pos s = bindE (ensure (pos < n) (DCheck ''BetterBitSet::Reset(): Access out of bounds'')) (\<lambda>_.
     if n > 64 then
       (let chunk = pos div 64; shift = pos mod 64
        in if chunk = words_for n - 1 then Inr (s[chunk := s ! chunk AND ucast (NOT (one_bit shift) AND kLastMask n)])
           else Inr (s[chunk := s ! chunk AND ucast (NOT (one_bit shift) :: u64)]))
     else Inr (s[0 := s ! 0 AND ucast (NOT (one_bit pos) AND kLastMask n)]))"

definition Better_Set :: "nat \<Rightarrow> nat \<Rightarrow> bool \<Rightarrow> 'a::len word list \<Rightarrow> 'a word list res" where
  "Better_Set n pos val s = bindE (ensure (pos < n) (DCheck ''pos < N'')) (\<lambda>_.
     if val = False then Better_reset n pos s
     else if n > 64 then (let chunk = pos div 64; shift = pos mod 64 in Inr (s[chunk := s ! chunk OR ucast (one_bit shift :: u64)]))
     else Inr (s[0 := s ! 0 OR ucast (one_bit pos :: u64)]))"

definition Better_index :: "nat \<Rightarrow> nat \<Rightarrow> 'a::len word list \<Rightarrow> bool res" where
  "Better_index n pos s = bindE (ensure (pos < n) (DCheck ''BetterBitSet::[]: Access out of bounds'')) (\<lambda>_.
     if n > 64 then (let chunk = pos div 64; shift = pos mod 64 in Inr (drop_bit shift (s ! chunk) \<noteq> 0))
     else Inr (drop_bit pos (s ! 0) AND 1 \<noteq> 0))"

definition Better_assign :: "'a::len word \<Rightarrow> 'a word list \<Rightarrow> 'a word list" where
  "Better_assign val s = s[0 := val]"

definition Better_and :: "nat \<Rightarrow> 'a::len word list \<Rightarrow> 'a word list \<Rightarrow> 'a word list" where
  "Better_and n s rhs = assign_words (\<lambda>x y. x AND (y AND ucast (kLastMask n))) s rhs"

fun or_loop :: "nat \<Rightarrow> nat \<Rightarrow> nat \<Rightarrow> 'a::len word list \<Rightarrow> 'a word list \<Rightarrow> 'a word list res" where
  "or_loop n i 0 rhs s = Inr s"
| "or_loop n i (Suc left) rhs s =
     bindE (Better_index n i s) (\<lambda>x. bindE (Better_index n i rhs) (\<lambda>y.
     bindE (Better_Set n i (x \<or> y) s) (\<lambda>s. or_loop n (i + 1) left rhs s)))"

definition Better_or :: "nat \<Rightarrow> 'a::len word list \<Rightarrow> 'a word list \<Rightarrow> 'a word list res" where
  "Better_or n s rhs = or_loop n 0 (words_for n) rhs s"

definition Better_xor :: "'a::len word list \<Rightarrow> 'a word list \<Rightarrow> 'a word list" where
  "Better_xor s rhs = assign_words (XOR) s rhs"

definition Better_to_number :: "'a::len word list \<Rightarrow> u32" where
  "Better_to_number s = ucast (s ! 0)"

section \<open>The last word\<close>

definition trimmed :: "nat \<Rightarrow> 'a::len word list \<Rightarrow> bool" where
  "trimmed n s \<longleftrightarrow> sized n s \<and> bits_of s \<subseteq> {..<n}"

lemma bit_kLastMask: "bit (kLastMask n) i \<longleftrightarrow> i < 64 \<and> i \<le> (n - 1) mod 64"
  unfolding kLastMask_def bit_not_iff bit_push_bit_iff bit_1_iff by auto

lemma words_sized:
  assumes "0 < n" and "LENGTH('a::len) = width_for n"
  shows "words_for n = kWords LENGTH('a) n + 1"
proof (cases "n \<le> 64")
  case True
  then have "n - 1 < LENGTH('a)" using assms by (auto simp: width_for_def)
  then have "kWords LENGTH('a) n = 0" by (simp add: kWords_def)
  moreover have "(n + 63) div 64 = 1" using True assms(1) by (intro div_nat_eqI) simp_all
  ultimately show ?thesis by (simp add: words_for_def)
next
  case False
  then have "LENGTH('a) = 64" using assms(2) by (simp add: width_for_def)
  moreover obtain k where "n = Suc k" using assms(1) by (cases n) auto
  ultimately show ?thesis by (simp add: words_for_def kWords_def add.commute)
qed

lemma sized_words: "0 < n \<Longrightarrow> LENGTH('a::len) = width_for n \<Longrightarrow> sized n (s :: 'a word list) \<longleftrightarrow> length s = words_for n"
  by (simp add: sized_def words_sized)

text \<open>What bit \<open>i\<close> of the last word is in the set, and that the mask keeps those below the size.\<close>

lemma last_word_bit:
  assumes "0 < n" and "LENGTH('a::len) = width_for n" and "i div LENGTH('a) = words_for n - 1"
  shows "bit (kLastMask n) (i mod LENGTH('a)) \<longleftrightarrow> i < n"
proof (cases "n \<le> 64")
  case True
  then have "(n + 63) div 64 = 1" using assms(1) by (intro div_nat_eqI) simp_all
  then have "i div LENGTH('a) = 0" using assms(3) by (simp add: words_for_def)
  then have i: "i < LENGTH('a)" by (simp add: div_eq_0_iff)
  moreover have "LENGTH('a) \<le> 64" using assms(2) by (simp add: width_for_def)
  ultimately show ?thesis using True assms(1) by (auto simp: bit_kLastMask)
next
  case False
  then have w: "LENGTH('a) = 64" using assms(2) by (simp add: width_for_def)
  have "words_for n - 1 = (n - 1) div 64" using words_sized [OF assms(1,2)] assms(1) by (simp add: kWords_def w)
  then have "i div 64 = (n - 1) div 64" using assms(3) w by simp
  then have "i mod 64 \<le> (n - 1) mod 64 \<longleftrightarrow> i \<le> n - 1"
    using div_mult_mod_eq [of i 64] div_mult_mod_eq [of "n - 1" 64] by linarith
  then show ?thesis using assms(1) by (auto simp: bit_kLastMask w)
qed

lemma earlier_word:
  assumes "0 < n" and "LENGTH('a::len) = width_for n" and "i div LENGTH('a) < words_for n - 1"
  shows "i < n"
proof -
  have "i div LENGTH('a) < (n - 1) div LENGTH('a)" using assms(3) words_sized [OF assms(1,2)] assms(1) by (simp add: kWords_def)
  moreover have "(n - 1) div LENGTH('a) \<le> i div LENGTH('a)" if "n \<le> i" using that by (intro div_le_mono) simp
  ultimately show ?thesis by (metis leD not_less)
qed

lemma words_pos: "0 < n \<Longrightarrow> 0 < words_for n"
  by (simp add: words_for_def)

text \<open>A list of words given by a function on all but the last and a masked last word.\<close>

lemma masked_bits:
  assumes "0 < n" and "LENGTH('a::len) = width_for n" and "sized n (s :: 'a word list)"
    and "\<And>w j. j < LENGTH('a) \<Longrightarrow> bit (f w) j \<longleftrightarrow> P (bit w j)"
    and "\<And>w j. j < LENGTH('a) \<Longrightarrow> bit (g w) j \<longleftrightarrow> P (bit w j) \<and> bit (kLastMask n) j"
  shows "bits_of (map f (butlast s) @ [g (List.last s) :: 'a word]) = {i. i < n \<and> P (i \<in> bits_of s)}"
    and "sized n (map f (butlast s) @ [g (List.last s) :: 'a word])"
proof -
  have "length s = words_for n" using sized_words [OF assms(1,2), of s] assms(3) by blast
  moreover then have "s \<noteq> []" using words_pos [OF assms(1)] by auto
  ultimately have l: "length s = words_for n" "s \<noteq> []" by simp_all
  have len: "length (map f (butlast s) @ [g (List.last s)]) = length s" using l(2) by (cases s rule: rev_cases) simp_all
  then show "sized n (map f (butlast s) @ [g (List.last s)])" using assms(3) by (simp add: sized_def)
  have "i \<in> bits_of (map f (butlast s) @ [g (List.last s)]) \<longleftrightarrow> i < n \<and> P (i \<in> bits_of s)" for i
  proof (cases "i < length s * LENGTH('a)")
    case True
    define k where "k = i div LENGTH('a)"
    have k: "k < words_for n" using True l by (simp add: k_def div_less_words)
    have j: "i mod LENGTH('a) < LENGTH('a)" by simp
    have s: "i \<in> bits_of s \<longleftrightarrow> bit (s ! k) (i mod LENGTH('a))" using True by (simp add: bits_of_def bit_at_def k_def)
    have m: "i \<in> bits_of (map f (butlast s) @ [g (List.last s)]) \<longleftrightarrow> bit ((map f (butlast s) @ [g (List.last s)]) ! k) (i mod LENGTH('a))"
      unfolding bits_of_def mem_Collect_eq bit_at_def len using True by (simp add: k_def)
    show ?thesis
    proof (cases "k = words_for n - 1")
      case True
      then have "s ! k = List.last s" using l by (simp add: last_conv_nth)
      then show ?thesis unfolding m s using True l last_word_bit [OF assms(1,2), of i] assms(5) [OF j] by (auto simp: nth_append k_def)
    next
      case False
      then have "k < words_for n - 1" using k by simp
      then show ?thesis unfolding m s using l earlier_word [OF assms(1,2), of i] assms(4) [OF j] by (simp add: nth_append nth_butlast k_def)
    qed
  next
    case False
    then have "\<not> i < n" using sized_range [OF assms(3), of i] by blast
    then show ?thesis unfolding bits_of_def mem_Collect_eq bit_at_def len using False by simp
  qed
  then show "bits_of (map f (butlast s) @ [g (List.last s)]) = {i. i < n \<and> P (i \<in> bits_of s)}" by blast
qed

lemma Set_all_bits:
  assumes "0 < n" and "LENGTH('a::len) = width_for n" and "sized n (s :: 'a word list)"
  shows "bits_of (Better_Set_all n s) = {..<n} \<and> sized n (Better_Set_all n s)"
  using masked_bits [OF assms, of "\<lambda>_. - 1" "\<lambda>_. True" "\<lambda>_. ucast (kLastMask n)"]
  by (auto simp: Better_Set_all_def bit_ucast_iff bit_minus_1_iff)

lemma Flip_all_bits:
  assumes "0 < n" and "LENGTH('a::len) = width_for n" and "sized n (s :: 'a word list)"
  shows "bits_of (Better_flip n s) = {..<n} - bits_of s \<and> sized n (Better_flip n s)"
proof -
  have b: "bit (NOT w :: 'a word) j \<longleftrightarrow> \<not> bit w j" if "j < LENGTH('a)" for w j using that by (simp add: bit_not_iff)
  have "j < 64" if "j < LENGTH('a)" for j using that assms(2) by (auto simp: width_for_def split: if_splits)
  then have "bit (ucast (NOT (ucast w) AND kLastMask n) :: 'a word) j \<longleftrightarrow> \<not> bit w j \<and> bit (kLastMask n) j" if "j < LENGTH('a)" for w :: "'a word" and j
    using that by (auto simp: bit_ucast_iff bit_and_iff bit_not_iff)
  from masked_bits [OF assms b this] show ?thesis by (auto simp: Better_flip_def)
qed

section \<open>Single positions\<close>

lemma width_range: "LENGTH('a::len) = width_for n \<Longrightarrow> LENGTH('a) \<le> 64 \<and> (n \<le> 64 \<longrightarrow> n \<le> LENGTH('a)) \<and> (n > 64 \<longrightarrow> LENGTH('a) = 64)"
  by (auto simp: width_for_def)

lemma ucast_one_bit: "LENGTH('a::len) \<le> 64 \<Longrightarrow> p < LENGTH('a) \<Longrightarrow> ucast (one_bit p :: u64) = (one_bit p :: 'a word)"
  by (rule bit_word_eqI) (auto simp: bit_ucast_iff bit_one_bit)

text \<open>The word and the place in it, whichever branch the code takes.\<close>

lemma bit_place:
  assumes "LENGTH('a::len) = width_for n" and "pos < n"
  shows "n > 64 \<Longrightarrow> pos div 64 = pos div LENGTH('a) \<and> pos mod 64 = pos mod LENGTH('a)"
    and "\<not> n > 64 \<Longrightarrow> pos div LENGTH('a) = 0 \<and> pos mod LENGTH('a) = pos"
  using width_range [OF assms(1)] assms(2) by simp_all

lemma Better_Set_is:
  assumes "LENGTH('a::len) = width_for n" and "pos < n"
  shows "Better_Set n pos True s = BitSet_Set n pos True (s :: 'a word list)"
  using bit_place [OF assms] width_range [OF assms(1)] assms(2)
    ucast_one_bit [of "pos mod LENGTH('a)", where 'a = 'a]
  by (cases "n > 64") (simp_all add: Better_Set_def BitSet_Set_def Let_def)

lemma Better_index_small:
  assumes "LENGTH('a::len) = width_for n" and "pos < n" and "n \<le> 64" and "sized n s"
  shows "Better_index n pos s = Inr (pos \<in> bits_of (s :: 'a word list))"
proof -
  have "drop_bit pos (s ! 0) AND 1 \<noteq> 0 \<longleftrightarrow> bit (s ! 0) pos"
    using test_bit [of "drop_bit pos (s ! 0)" 0] by (simp add: one_bit_def bit_drop_bit_eq)
  moreover have "pos \<in> bits_of s \<longleftrightarrow> bit (s ! 0) pos"
    using bit_place(2) [OF assms(1,2)] assms(3) sized_range [OF assms(4,2)] by (simp add: bits_of_def bit_at_def)
  ultimately show ?thesis using assms(2,3) by (simp add: Better_index_def)
qed

lemma Better_reset_bits:
  assumes "0 < n" and w: "LENGTH('a::len) = width_for n" and "pos < n" and "trimmed n (s :: 'a word list)"
  shows "\<exists>s'. Better_reset n pos s = Inr s' \<and> trimmed n s' \<and> bits_of s' = bits_of s - {pos}"
proof -
  define k j where "k = pos div LENGTH('a)" and "j = pos mod LENGTH('a)"
  have sz: "sized n s" "bits_of s \<subseteq> {..<n}" using assms(4) by (simp_all add: trimmed_def)
  have j: "j < LENGTH('a)" by (simp add: j_def)
  define f where "f = (\<lambda>x :: 'a word. x AND ucast (if n > 64 \<and> k \<noteq> words_for n - 1 then NOT (one_bit j) else NOT (one_bit j) AND kLastMask n))"
  have R: "Better_reset n pos s = Inr (s[k := f (s ! k)])"
    using bit_place [OF w assms(3)] assms(3) by (cases "n > 64") (auto simp: Better_reset_def Let_def f_def k_def j_def)
  have "bit (f (s ! k)) i \<longleftrightarrow> (if i = j then False else bit (s ! k) i)" for i
  proof (cases "bit (s ! k) i")
    case True
    then have i: "i < LENGTH('a)" "i < 64" using bit_imp_le_length [OF True] width_range [OF w] by simp_all
    have d: "(k * LENGTH('a) + i) div LENGTH('a) = k" "(k * LENGTH('a) + i) mod LENGTH('a) = i" using i by simp_all
    have "k < length s" unfolding k_def by (rule word_in_range [OF sz(1) assms(3)])
    then have "k * LENGTH('a) + i < length s * LENGTH('a)" using d(1) by (metis div_less_iff_less_mult len_gt_0)
    then have "k * LENGTH('a) + i \<in> bits_of s" using True d by (simp add: bits_of_def bit_at_def)
    then have "k * LENGTH('a) + i < n" using sz(2) by blast
    then have m: "bit (kLastMask n) i" if "k = words_for n - 1"
      using last_word_bit [OF assms(1) w, of "k * LENGTH('a) + i"] d that by simp
    have "k = words_for n - 1" if "\<not> n > 64"
      using bit_place(2) [OF w assms(3) that] that assms(1) by (simp add: k_def words_for_def)
    then show ?thesis using True i j m by (auto simp: f_def bit_and_iff bit_ucast_iff bit_not_iff bit_one_bit)
  qed (simp add: f_def bit_and_iff)
  then have "bits_of (s[k := f (s ! k)]) = (if False then insert pos (bits_of s) else bits_of s - {pos})"
    unfolding k_def j_def by (rule update_bits [OF sz(1) assms(3)])
  then show ?thesis using R sz by (auto simp: trimmed_def sized_def)
qed

lemma Better_Set_bits:
  assumes "0 < n" and "LENGTH('a::len) = width_for n" and "pos < n" and "trimmed n (s :: 'a word list)"
  shows "\<exists>s'. Better_Set n pos val s = Inr s' \<and> trimmed n s' \<and> bits_of s' = (if val then insert pos (bits_of s) else bits_of s - {pos})"
proof (cases val)
  case True
  then show ?thesis using Set_bits [of n s pos True] Better_Set_is [OF assms(2,3), of s] assms(3,4) by (auto simp: trimmed_def)
next
  case False
  then show ?thesis using Better_reset_bits [OF assms] assms(3) by (simp add: Better_Set_def)
qed

lemma Better_and_bits:
  assumes "0 < n" and "LENGTH('a::len) = width_for n" and "n \<le> 64" and "trimmed n s" and "trimmed n r"
  shows "bits_of (Better_and n s (r :: 'a word list)) = bits_of s \<inter> bits_of r \<and> trimmed n (Better_and n s r)"
proof -
  have l: "length s = length r" using assms(4,5) by (simp add: trimmed_def sized_def)
  have w: "words_for n = 1" using assms(1,3) by (simp add: words_for_def div_nat_eqI)
  then have "length r = 1" using sized_words [OF assms(1,2), of r] assms(5) by (simp add: trimmed_def)
  then obtain x y where xy: "s = [x]" "r = [y]" using l by (metis One_nat_def length_0_conv length_Suc_conv)
  have "bit y i \<longrightarrow> bit (kLastMask n) i" for i
  proof
    assume b: "bit y i"
    have i: "i < LENGTH('a)" using bit_imp_le_length [OF b] .
    then have "i \<in> bits_of r" using b xy by (simp add: bits_of_def bit_at_def)
    then have "i < n" using assms(5) by (auto simp: trimmed_def)
    then show "bit (kLastMask n) i" using last_word_bit [OF assms(1,2), of i] i w by simp
  qed
  then have "y AND ucast (kLastMask n) = y"
    using width_range [OF assms(2)] by (intro bit_word_eqI) (auto simp: bit_and_iff bit_ucast_iff)
  then have "Better_and n s r = BitSet_and s r" using xy by (simp add: Better_and_def BitSet_and_def)
  then show ?thesis using binary_bits(1) [OF l] assms(4) BitSet_lengths(3) [OF l] by (auto simp: trimmed_def sized_def)
qed

lemma Better_xor_bits:
  assumes "trimmed n s" and "trimmed n (r :: 'a::len word list)"
  shows "bits_of (Better_xor s r) = (bits_of s - bits_of r) \<union> (bits_of r - bits_of s) \<and> trimmed n (Better_xor s r)"
proof -
  have l: "length s = length r" using assms by (simp add: trimmed_def sized_def)
  have "Better_xor s r = BitSet_xor s r" by (simp add: Better_xor_def BitSet_xor_def)
  then show ?thesis using binary_bits(3) [OF l] assms BitSet_lengths(5) [OF l] by (auto simp: trimmed_def sized_def)
qed

lemma Better_init_bits:
  assumes "0 < n" and "LENGTH('a::len) = width_for n"
  shows "trimmed n (Better_init n :: 'a word list) \<and> bits_of (Better_init n :: 'a word list) = {}"
proof -
  have "bits_of (Better_init n :: 'a word list) = {}" by (auto simp: bits_of_def bit_at_def Better_init_def div_less_words)
  then show ?thesis using sized_words [OF assms, of "Better_init n"] by (simp add: trimmed_def Better_init_def)
qed

lemma Better_reset_all_bits: "bits_of (Better_reset_all s) = {}"
  by (auto simp: bits_of_def bit_at_def Better_reset_all_def div_less_words)

section \<open>A run refines a set of positions below the size\<close>

datatype 'x better_op = BReset | BResetAt nat | BSet nat bool | BSetAll | BFlip | BTest nat | BCount | BAnd 'x | BXor 'x | BEqual 'x

definition better_step :: "nat \<Rightarrow> 'a::len word list better_op \<Rightarrow> 'a word list \<Rightarrow> ('a word list \<times> bitset_answer) res" where
  "better_step n op s = (case op of
     BReset \<Rightarrow> Inr (Better_reset_all s, Quiet)
   | BResetAt pos \<Rightarrow> bindE (Better_reset n pos s) (\<lambda>s. Inr (s, Quiet))
   | BSet pos val \<Rightarrow> bindE (Better_Set n pos val s) (\<lambda>s. Inr (s, Quiet))
   | BSetAll \<Rightarrow> Inr (Better_Set_all n s, Quiet)
   | BFlip \<Rightarrow> Inr (Better_flip n s, Quiet)
   | BTest pos \<Rightarrow> bindE (Better_index n pos s) (\<lambda>b. Inr (s, Answer b))
   | BCount \<Rightarrow> Inr (s, Count (Better_CountSetBits s))
   | BAnd rhs \<Rightarrow> Inr (Better_and n s rhs, Quiet)
   | BXor rhs \<Rightarrow> Inr (Better_xor s rhs, Quiet)
   | BEqual rhs \<Rightarrow> Inr (s, Answer (s = rhs)))"

definition below_step :: "nat \<Rightarrow> nat set better_op \<Rightarrow> nat set \<Rightarrow> (nat set \<times> bitset_answer) option" where
  "below_step n op S = (case op of
     BReset \<Rightarrow> Some ({}, Quiet)
   | BResetAt pos \<Rightarrow> if pos < n then Some (S - {pos}, Quiet) else None
   | BSet pos val \<Rightarrow> if pos < n then Some (if val then insert pos S else S - {pos}, Quiet) else None
   | BSetAll \<Rightarrow> Some ({..<n}, Quiet)
   | BFlip \<Rightarrow> Some ({..<n} - S, Quiet)
   | BTest pos \<Rightarrow> if pos < n then Some (S, Answer (pos \<in> S)) else None
   | BCount \<Rightarrow> Some (S, Count (card S))
   | BAnd R \<Rightarrow> Some (S \<inter> R, Quiet)
   | BXor R \<Rightarrow> Some ((S - R) \<union> (R - S), Quiet)
   | BEqual R \<Rightarrow> Some (S, Answer (S = R)))"

text \<open>The operator \<open>&=\<close> exists for up to 64 bits only, and only there does the test look at one bit.\<close>

definition better_ok :: "nat \<Rightarrow> 'a::len word list better_op \<Rightarrow> bool" where
  "better_ok n op = (case op of BTest pos \<Rightarrow> n \<le> 64 | BAnd r \<Rightarrow> n \<le> 64 \<and> trimmed n r | BXor r \<Rightarrow> trimmed n r | BEqual r \<Rightarrow> trimmed n r | _ \<Rightarrow> True)"

definition better_inv :: "nat \<Rightarrow> 'a::len word list \<Rightarrow> bool" where
  "better_inv n s \<longleftrightarrow> 0 < n \<and> LENGTH('a) = width_for n \<and> trimmed n s"

lemma better_step_refines:
  assumes "better_inv n (s :: 'a::len word list)" and "better_ok n op"
  shows "below_step n (map_better_op bits_of op) (bits_of s) = map_option (apfst bits_of) (result_of (better_step n op s))
    \<and> (\<forall>s' r. result_of (better_step n op s) = Some (s', r) \<longrightarrow> trimmed n s')"
proof -
  have n: "0 < n" and w: "LENGTH('a) = width_for n" and t: "trimmed n s" using assms(1) by (simp_all add: better_inv_def)
  then have sz: "sized n s" by (simp add: trimmed_def)
  show ?thesis
  proof (cases op)
    case BReset
    have "trimmed n (Better_reset_all s)" using sz by (simp add: trimmed_def Better_reset_all_bits sized_def) (simp add: Better_reset_all_def)
    then show ?thesis using BReset by (simp add: below_step_def better_step_def Better_reset_all_bits)
  next
    case (BResetAt pos)
    show ?thesis
    proof (cases "pos < n")
      case True
      obtain s' where "Better_reset n pos s = Inr s'" "trimmed n s'" "bits_of s' = bits_of s - {pos}"
        using Better_reset_bits [OF n w True t] by blast
      then show ?thesis using True BResetAt by (simp add: below_step_def better_step_def)
    next
      case False
      then show ?thesis using BResetAt by (simp add: below_step_def better_step_def Better_reset_def)
    qed
  next
    case (BSet pos v)
    show ?thesis
    proof (cases "pos < n")
      case True
      obtain s' where "Better_Set n pos v s = Inr s'" "trimmed n s'" "bits_of s' = (if v then insert pos (bits_of s) else bits_of s - {pos})"
        using Better_Set_bits [OF n w True t, of v] by blast
      then show ?thesis using True BSet by (simp add: below_step_def better_step_def)
    next
      case False
      then show ?thesis using BSet by (simp add: below_step_def better_step_def Better_Set_def)
    qed
  next
    case BSetAll
    then show ?thesis using Set_all_bits [OF n w sz] by (simp add: below_step_def better_step_def trimmed_def)
  next
    case BFlip
    then show ?thesis using Flip_all_bits [OF n w sz] by (auto simp: below_step_def better_step_def trimmed_def)
  next
    case (BTest pos)
    then have "n \<le> 64" using assms(2) by (simp add: better_ok_def)
    then show ?thesis using BTest t Better_index_small [OF w _ _ sz, of pos]
      by (cases "pos < n") (simp_all add: below_step_def better_step_def, simp add: Better_index_def)
  next
    case BCount
    then show ?thesis using t by (simp add: below_step_def better_step_def Better_CountSetBits_def popcount_loop_eq count_bits)
  next
    case (BAnd r)
    then show ?thesis using Better_and_bits [OF n w _ t, of r] assms(2) by (simp add: below_step_def better_step_def better_ok_def)
  next
    case (BXor r)
    then show ?thesis using Better_xor_bits [OF t, of r] assms(2) by (simp add: below_step_def better_step_def better_ok_def)
  next
    case (BEqual r)
    then have "length s = length r" using assms(2) sz by (simp add: better_ok_def trimmed_def sized_def)
    then show ?thesis using BEqual t by (simp add: below_step_def better_step_def bits_eq_iff)
  qed
qed

interpretation better_bitset: refined_store "\<lambda>op s. result_of (better_step n op (s :: 'a::len word list))" "below_step n"
  "map_better_op bits_of" bits_of "better_inv n" "better_ok n" for n
proof
  fix s :: "'a word list" and op :: "'a word list better_op"
  assume A: "better_inv n s" "better_ok n op"
  note R = better_step_refines [OF A]
  show "below_step n (map_better_op bits_of op) (bits_of s) = map_option (apfst bits_of) (result_of (better_step n op s))" using R by blast
  show "result_of (better_step n op s) = Some (s', r) \<Longrightarrow> better_inv n s'" for s' r using R A(1) by (simp add: better_inv_def)
qed

text \<open>
  A run of \<open>BetterBitSet\<close> from any set whose bits beyond the size are zero, without the operator \<open>|=\<close> and
  the tests on more than 64 bits, is a run on the set of its positions: the same refusals, the same
  answers, and bits beyond the size stay zero.
\<close>

theorem better_bitset_run_refines:
  assumes "better_inv n (s :: 'a::len word list)" and "list_all (better_ok n) ops"
  shows "run_steps (below_step n) (map (map_better_op bits_of) ops) (bits_of s) =
    map_option (apfst bits_of) (run_steps (\<lambda>op s. result_of (better_step n op s)) ops s)"
  using assms by (rule better_bitset.run_refines)

theorem better_bitset_run_refines_witness:
  "map_option snd (run_steps (\<lambda>op s. result_of (better_step 70 op s)) [BSetAll, BResetAt 69, BCount] [0 :: u64, 0]) = Some [Quiet, Quiet, Count 69]"
proof -
  have i: "better_inv 70 [0 :: u64, 0]" "list_all (better_ok 70) [BSetAll, BResetAt 69, BCount :: u64 list better_op]"
    using Better_init_bits [of 70, where 'a = 64]
    by (simp_all add: better_inv_def better_ok_def width_for_def Better_init_def words_for_def numeral_2_eq_2)
  have "map_option snd (run_steps (below_step 70) (map (map_better_op bits_of) [BSetAll, BResetAt 69, BCount :: u64 list better_op]) (bits_of [0 :: u64, 0])) = Some [Quiet, Quiet, Count 69]"
    by (simp add: below_step_def card_Diff_subset)
  then show ?thesis unfolding better_bitset_run_refines [OF i] by (simp add: option.map_comp comp_def)
qed

section \<open>Where the code does something else\<close>

text \<open>\<open>|=\<close> counts words where it means bits: on one word it moves bit 0 only.\<close>

lemma Better_or_small:
  assumes "0 < n" and "n \<le> 64" and "LENGTH('a::len) = width_for n" and "trimmed n s" and "trimmed n r"
  shows "\<exists>s'. Better_or n s (r :: 'a word list) = Inr s' \<and> bits_of s' = bits_of s \<union> (bits_of r \<inter> {0})"
proof -
  have w: "words_for n = 1" using assms(1,2) by (simp add: words_for_def div_nat_eqI)
  have sz: "sized n s" "sized n r" using assms(4,5) by (simp_all add: trimmed_def)
  have i: "Better_index n 0 s = Inr (0 \<in> bits_of s)" "Better_index n 0 r = Inr (0 \<in> bits_of r)"
    using Better_index_small [OF assms(3,1,2)] sz by blast+
  obtain s' where s': "Better_Set n 0 (0 \<in> bits_of s \<or> 0 \<in> bits_of r) s = Inr s'"
      "bits_of s' = (if 0 \<in> bits_of s \<or> 0 \<in> bits_of r then insert 0 (bits_of s) else bits_of s - {0})"
    using Better_Set_bits [OF assms(1,3,1,4)] by blast
  then have "Better_or n s r = Inr s'" using i w by (simp add: Better_or_def)
  then show ?thesis using s'(2) by auto
qed

text \<open>Beyond 64 bits a test answers whether this bit or a higher one of its word is set.\<close>

lemma Better_index_large:
  assumes "LENGTH('a::len) = width_for n" and "pos < n" and "64 < n" and "sized n s"
  shows "Better_index n pos s = Inr (\<exists>q. pos \<le> q \<and> q div 64 = pos div 64 \<and> q \<in> bits_of (s :: 'a word list))"
proof -
  have w: "LENGTH('a) = 64" using width_range [OF assms(1)] assms(3) by blast
  define k where "k = pos div 64"
  have k: "k < length s" using word_in_range [OF assms(4,2)] by (simp add: k_def w)
  have "drop_bit (pos mod 64) (s ! k) \<noteq> 0 \<longleftrightarrow> (\<exists>i. bit (s ! k) (pos mod 64 + i))"
    by (auto simp: bit_eq_iff bit_drop_bit_eq) (metis add.commute bit_imp_le_length add_lessD1)
  also have "\<dots> \<longleftrightarrow> (\<exists>q. pos \<le> q \<and> q div 64 = k \<and> q \<in> bits_of s)"
  proof
    assume "\<exists>i. bit (s ! k) (pos mod 64 + i)"
    then obtain i where i: "bit (s ! k) (pos mod 64 + i)" by blast
    then have "pos mod 64 + i < 64" using bit_imp_le_length w by metis
    moreover have "pos + i = k * 64 + (pos mod 64 + i)" by (simp add: k_def)
    moreover have "(k * 64 + r) div 64 = k" "(k * 64 + r) mod 64 = r" if "r < 64" for r using that by simp_all
    ultimately have d: "(pos + i) div 64 = k" "(pos + i) mod 64 = pos mod 64 + i" by metis+
    then have "pos + i < length s * 64" using k by simp
    then have "pos + i \<in> bits_of s" using i d by (simp add: bits_of_def bit_at_def w)
    then show "\<exists>q. pos \<le> q \<and> q div 64 = k \<and> q \<in> bits_of s" using d(1) by (intro exI [of _ "pos + i"]) simp
  next
    assume "\<exists>q. pos \<le> q \<and> q div 64 = k \<and> q \<in> bits_of s"
    then obtain q where q: "pos \<le> q" "q div 64 = k" "q \<in> bits_of s" by blast
    then have "pos mod 64 \<le> q mod 64" using div_mult_mod_eq [of pos 64] div_mult_mod_eq [of q 64] unfolding k_def by linarith
    moreover have "bit (s ! k) (q mod 64)" using q by (simp add: bits_of_def bit_at_def w)
    ultimately show "\<exists>i. bit (s ! k) (pos mod 64 + i)" by (intro exI [of _ "q mod 64 - pos mod 64"]) simp
  qed
  finally show ?thesis using assms(2,3) by (simp add: Better_index_def Let_def k_def)
qed

text \<open>
  On 128 bits a test is true below a bit that is set; and \<open>|=\<close> on eight bits loses every bit of its operand
  but the first.
\<close>

lemma better_bitset_wrong:
  "Better_index 128 0 [one_bit 5 :: u64, 0] = Inr True \<and> 0 \<notin> bits_of [one_bit 5 :: u64, 0]
   \<and> Better_or 8 [0 :: u8] [one_bit 3] = Inr [0] \<and> 3 \<in> bits_of [one_bit 3 :: u8]"
proof (intro conjI)
  show "Better_index 128 0 [one_bit 5 :: u64, 0] = Inr True" by (simp add: Better_index_def one_bit_def)
  show "0 \<notin> bits_of [one_bit 5 :: u64, 0]" by (simp add: bits_of_def bit_at_def bit_one_bit)
  show "Better_or 8 [0 :: u8] [one_bit 3] = Inr [0]"
    by (simp add: Better_or_def words_for_def Better_index_def Better_Set_def Better_reset_def one_bit_def)
  show "3 \<in> bits_of [one_bit 3 :: u8]" by (simp add: bits_of_def bit_at_def bit_one_bit)
qed

end
