(* ===== verification/Spinning_Mutex.thy ===== *)
theory Spinning_Mutex
  imports Prelude
begin

text \<open>
  \<open>src/base/threading/spinning_mutex.h\<close> and \<open>spinning_mutex.cc\<close> as compiled on Linux: a lock word with
  the values unlocked, locked, and locked with waiters, a bounded spin, and a futex to block on.

  Each atomic access is a step and the steps of the threads interleave. The two system calls are
  parameters: \<open>blocks v e\<close> says that FUTEX_WAIT may put the caller to sleep when the word holds \<open>v\<close>
  and \<open>e\<close> is the expected value, and \<open>wakes S W\<close> that FUTEX_WAKE with one sleeper of \<open>S\<close> to wake may
  wake the set \<open>W\<close>. A sleeper may also return for no reason.
\<close>

section \<open>The spin\<close>

definition kUnlocked :: int where "kUnlocked = 0"
definition kLockedUncontended :: int where "kLockedUncontended = 1"
definition kLockedContended :: int where "kLockedContended = 2"
definition kSpinCount :: int where "kSpinCount = 64"
definition kMaxBackoff :: int where "kMaxBackoff = 16"

lemmas lock_values = kUnlocked_def kLockedUncontended_def kLockedContended_def

text \<open>The loop of pauses counts a try for each.\<close>

function yield_loop :: "int \<Rightarrow> int \<Rightarrow> int \<Rightarrow> int" where
  "yield_loop yields backoff tries = (if yields < backoff then yield_loop (yields + 1) backoff (tries + 1) else tries)"
  by auto

termination by (relation "measure (\<lambda>(yields, backoff, tries). nat (backoff - yields))") auto

declare yield_loop.simps [simp del]

text \<open>
  What follows a failed \<open>Try\<close> of the spin: another with the next backoff, or None to block. The loop
  is a \<open>do while\<close> without a bound of its own; \<open>got i\<close> is what its \<open>i\<close>-th call of \<open>Try\<close> returns.
\<close>

definition spin_next :: "int \<Rightarrow> int \<Rightarrow> (int \<times> int) option" where
  "spin_next tries backoff =
     (let tries = yield_loop 0 backoff tries;
          backoff = min kMaxBackoff (backoff * 2)
      in if tries < kSpinCount then Some (tries, backoff) else None)"

partial_function (option) spin_loop :: "(nat \<Rightarrow> bool) \<Rightarrow> nat \<Rightarrow> int \<Rightarrow> int \<Rightarrow> (nat + nat) option" where
  "spin_loop got i tries backoff =
     (if got i then Some (Inl i)
      else case spin_next tries backoff of None \<Rightarrow> Some (Inr (Suc i)) | Some (tries, backoff) \<Rightarrow> spin_loop got (Suc i) tries backoff)"

text \<open>\<open>Inl i\<close>: acquired by the \<open>i\<close>-th try; \<open>Inr n\<close>: went on to \<open>LockSlow\<close> after \<open>n\<close> tries.\<close>

definition AcquireSpinThenBlock :: "(nat \<Rightarrow> bool) \<Rightarrow> (nat + nat) option" where
  "AcquireSpinThenBlock got = spin_loop got 0 0 1"

lemma yield_loop_adds: "yields \<le> backoff \<Longrightarrow> yield_loop yields backoff tries = tries + (backoff - yields)"
proof (induction yields backoff tries rule: yield_loop.induct)
  case (1 yields backoff tries)
  then show ?case by (subst yield_loop.simps) (auto simp: algebra_simps)
qed

lemma spin_next_eq:
  "0 \<le> backoff \<Longrightarrow> spin_next tries backoff = (if tries + backoff < 64 then Some (tries + backoff, min 16 (backoff * 2)) else None)"
  by (simp add: spin_next_def yield_loop_adds kSpinCount_def kMaxBackoff_def Let_def)

lemma spin_loop_step:
  "\<not> got i \<Longrightarrow> 0 \<le> backoff \<Longrightarrow> tries + backoff < 64 \<Longrightarrow>
   spin_loop got i tries backoff = spin_loop got (Suc i) (tries + backoff) (min 16 (backoff * 2))"
  by (subst spin_loop.simps) (simp add: spin_next_eq)

lemma spin_loop_tries:
  "m < 8 \<Longrightarrow> \<forall>j < m. \<not> got j \<Longrightarrow>
   AcquireSpinThenBlock got = spin_loop got m ([0, 1, 3, 7, 15, 31, 47, 63] ! m) ([1, 2, 4, 8, 16, 16, 16, 16] ! m)"
proof (induction m)
  case (Suc m)
  then have "m \<in> {0, 1, 2, 3, 4, 5, 6}" by auto
  then show ?case using Suc by (auto simp: spin_loop_step)
qed (simp add: AcquireSpinThenBlock_def)

text \<open>
  (C29) The spin ends: it acquires the lock with the first of at most eight tries that succeeds, and
  otherwise blocks after exactly eight.
\<close>

theorem spin_ends:
  "AcquireSpinThenBlock got = Some (if \<exists>i < 8. got i then Inl (LEAST i. got i) else Inr 8)"
proof (cases "\<exists>i < 8. got i")
  case True
  define n where "n = (LEAST i. got i)"
  have n: "got n" "n < 8" "\<forall>j < n. \<not> got j"
    using True unfolding n_def by (auto intro: LeastI Least_le [THEN le_less_trans] dest: not_less_Least)
  have "spin_loop got n t b = Some (Inl n)" for t b using n(1) by (subst spin_loop.simps) simp
  then show ?thesis using True spin_loop_tries [OF n(2,3)] unfolding n_def [symmetric] by presburger
next
  case False
  then have "AcquireSpinThenBlock got = spin_loop got 7 63 16" "\<not> got 7" using spin_loop_tries [of 7 got] by auto
  then show ?thesis using False by (simp add: spin_loop.simps [of got 7] spin_next_eq)
qed

section \<open>The threads and the lock word\<close>

text \<open>Which call a \<open>Try\<close> belongs to: \<open>try_lock\<close>, the start of \<open>Acquire\<close>, or the spin with its counters.\<close>

datatype attempt = Single | First | Spinning int int

text \<open>
  Where a thread is: outside, in \<open>Try\<close> before the load or before the exchange, in \<open>LockSlow\<close> before
  its exchange or before or in its wait, holding the lock, or in \<open>Release\<close> before the wake.
\<close>

datatype place = Outside | Loads attempt | Swaps attempt | Exchanges | Waits | Asleep | Inside | Wakes

definition after_failed_try :: "attempt \<Rightarrow> place" where
  "after_failed_try k = (case k of
       Single \<Rightarrow> Outside
     | First \<Rightarrow> Loads (Spinning 0 1)
     | Spinning tries backoff \<Rightarrow>
         (case spin_next tries backoff of None \<Rightarrow> Exchanges | Some (tries, backoff) \<Rightarrow> Loads (Spinning tries backoff)))"

definition Try_load :: "int \<Rightarrow> attempt \<Rightarrow> place" where
  "Try_load state k = (if state = kUnlocked then Swaps k else after_failed_try k)"

text \<open>The weak compare-exchange may fail for no reason.\<close>

definition Try_swap :: "bool \<Rightarrow> int \<Rightarrow> attempt \<Rightarrow> int \<times> place" where
  "Try_swap spurious state k = (if state = kUnlocked \<and> \<not> spurious then (kLockedUncontended, Inside) else (state, after_failed_try k))"

definition LockSlow_exchange :: "int \<Rightarrow> int \<times> place" where
  "LockSlow_exchange state = (kLockedContended, if state \<noteq> kUnlocked then Waits else Inside)"

definition Release_exchange :: "int \<Rightarrow> int \<times> place" where
  "Release_exchange state = (kUnlocked, if state = kLockedContended then Wakes else Outside)"

record mutex =
  lock_word :: int
  places :: "nat \<Rightarrow> place"

definition mutex_init :: mutex where
  "mutex_init = \<lparr>lock_word = kUnlocked, places = (\<lambda>_. Outside)\<rparr>"

definition goes :: "mutex \<Rightarrow> nat \<Rightarrow> int \<times> place \<Rightarrow> mutex" where
  "goes m p r = m\<lparr>lock_word := fst r, places := (places m)(p := snd r)\<rparr>"

definition asleep :: "mutex \<Rightarrow> nat set" where
  "asleep m = {p. places m p = Asleep}"

text \<open>Woken threads go on with the next exchange of \<open>LockSlow\<close>.\<close>

definition FutexWake :: "mutex \<Rightarrow> nat \<Rightarrow> nat set \<Rightarrow> mutex" where
  "FutexWake m p W = m\<lparr>places := (\<lambda>q. if q = p then Outside else if q \<in> W \<and> places m q = Asleep then Exchanges else places m q)\<rparr>"

text \<open>
  One step of thread \<open>p\<close>. \<open>flaky\<close> allows what happens for no reason: a weak exchange that fails, a
  wait that returns.
\<close>

inductive mutex_step :: "bool \<Rightarrow> (int \<Rightarrow> int \<Rightarrow> bool) \<Rightarrow> (nat set \<Rightarrow> nat set \<Rightarrow> bool) \<Rightarrow> nat \<Rightarrow> mutex \<Rightarrow> mutex \<Rightarrow> bool"
  for flaky blocks wakes p where
  try_lock: "places m p = Outside \<Longrightarrow> mutex_step flaky blocks wakes p m (goes m p (lock_word m, Loads Single))"
| acquire: "places m p = Outside \<Longrightarrow> mutex_step flaky blocks wakes p m (goes m p (lock_word m, Loads First))"
| load: "places m p = Loads k \<Longrightarrow> mutex_step flaky blocks wakes p m (goes m p (lock_word m, Try_load (lock_word m) k))"
| swap: "places m p = Swaps k \<Longrightarrow> spurious \<longrightarrow> flaky \<Longrightarrow>
     mutex_step flaky blocks wakes p m (goes m p (Try_swap spurious (lock_word m) k))"
| exchange: "places m p = Exchanges \<Longrightarrow> mutex_step flaky blocks wakes p m (goes m p (LockSlow_exchange (lock_word m)))"
| wait: "places m p = Waits \<Longrightarrow> blocks (lock_word m) kLockedContended \<Longrightarrow>
     mutex_step flaky blocks wakes p m (goes m p (lock_word m, Asleep))"
| no_wait: "places m p = Waits \<Longrightarrow> flaky \<or> \<not> blocks (lock_word m) kLockedContended \<Longrightarrow>
     mutex_step flaky blocks wakes p m (goes m p (lock_word m, Exchanges))"
| returns: "places m p = Asleep \<Longrightarrow> flaky \<Longrightarrow> mutex_step flaky blocks wakes p m (goes m p (lock_word m, Exchanges))"
| release: "places m p = Inside \<Longrightarrow> mutex_step flaky blocks wakes p m (goes m p (Release_exchange (lock_word m)))"
| wake: "places m p = Wakes \<Longrightarrow> wakes (asleep m) W \<Longrightarrow> mutex_step flaky blocks wakes p m (FutexWake m p W)"

inductive mutex_reach :: "bool \<Rightarrow> (int \<Rightarrow> int \<Rightarrow> bool) \<Rightarrow> (nat set \<Rightarrow> nat set \<Rightarrow> bool) \<Rightarrow> mutex \<Rightarrow> bool" for flaky blocks wakes where
  start: "mutex_reach flaky blocks wakes mutex_init"
| step: "mutex_reach flaky blocks wakes m \<Longrightarrow> mutex_step flaky blocks wakes p m m' \<Longrightarrow> mutex_reach flaky blocks wakes m'"

section \<open>Mutual exclusion\<close>

definition holders :: "mutex \<Rightarrow> nat set" where
  "holders m = {p. places m p = Inside}"

definition lock_inv :: "mutex \<Rightarrow> bool" where
  "lock_inv m \<longleftrightarrow> lock_word m = kUnlocked \<and> holders m = {}
     \<or> (lock_word m = kLockedUncontended \<or> lock_word m = kLockedContended) \<and> (\<exists>p. holders m = {p})"

lemma after_failed_try_places: "after_failed_try k \<noteq> Inside" "after_failed_try k \<noteq> Asleep" "after_failed_try k \<noteq> Wakes"
  by (auto simp: after_failed_try_def split: attempt.splits option.splits)

lemma goes_views [simp]:
  "lock_word (goes m p r) = fst r" "places (goes m p r) q = (if q = p then snd r else places m q)"
  by (simp_all add: goes_def)

lemma FutexWake_views [simp]:
  "lock_word (FutexWake m p W) = lock_word m"
  "places (FutexWake m p W) q = (if q = p then Outside else if q \<in> W \<and> places m q = Asleep then Exchanges else places m q)"
  by (simp_all add: FutexWake_def)

lemma lock_inv_moves:
  assumes "lock_inv m" and "places m p \<noteq> Inside" and "w \<noteq> Inside"
  shows "lock_inv (goes m p (lock_word m, w))"
proof -
  have "holders (goes m p (lock_word m, w)) = holders m" using assms(2,3) by (auto simp: holders_def)
  then show ?thesis using assms(1) by (simp add: lock_inv_def)
qed

lemma lock_inv_enters:
  assumes "lock_inv m" and "lock_word m = kUnlocked" and "v = kLockedUncontended \<or> v = kLockedContended"
  shows "lock_inv (goes m p (v, Inside))"
proof -
  have "holders m = {}" using assms(1,2) by (auto simp: lock_inv_def lock_values)
  then have "holders (goes m p (v, Inside)) = {p}" by (auto simp: holders_def)
  then show ?thesis using assms(3) by (simp add: lock_inv_def)
qed

lemma lock_inv_step:
  assumes "mutex_step flaky blocks wakes p m m'" and "lock_inv m"
  shows "lock_inv m'"
  using assms(1)
proof cases
  case (swap k spurious)
  show ?thesis
  proof (cases "lock_word m = kUnlocked \<and> \<not> spurious")
    case True
    then show ?thesis using lock_inv_enters [OF assms(2), of kLockedUncontended p] swap by (simp add: Try_swap_def)
  next
    case False
    then have "Try_swap spurious (lock_word m) k = (lock_word m, after_failed_try k)" by (auto simp: Try_swap_def)
    then show ?thesis using lock_inv_moves [OF assms(2)] swap after_failed_try_places by simp
  qed
next
  case exchange
  show ?thesis
  proof (cases "lock_word m = kUnlocked")
    case True
    then show ?thesis using lock_inv_enters [OF assms(2), of kLockedContended p] exchange by (simp add: LockSlow_exchange_def)
  next
    case False
    have "holders m' = holders m" using exchange False by (auto simp: holders_def LockSlow_exchange_def)
    then show ?thesis using assms(2) False exchange by (simp add: lock_inv_def LockSlow_exchange_def)
  qed
next
  case release
  then have "p \<in> holders m" by (simp add: holders_def)
  then have "holders m = {p}" using assms(2) by (auto simp: lock_inv_def)
  then have "holders m' = {}" using release by (auto simp: holders_def Release_exchange_def split: if_splits)
  then show ?thesis using release by (simp add: lock_inv_def Release_exchange_def)
next
  case (load k)
  then show ?thesis using lock_inv_moves [OF assms(2)] after_failed_try_places by (simp add: Try_load_def)
next
  case (wake W)
  then have "holders m' = holders m" by (auto simp: holders_def)
  then show ?thesis using wake assms(2) by (simp add: lock_inv_def)
qed (use lock_inv_moves [OF assms(2)] in simp_all)

lemma lock_inv_init: "lock_inv mutex_init"
  by (simp add: mutex_init_def lock_inv_def holders_def)

lemma lock_inv_reach: "mutex_reach flaky blocks wakes m \<Longrightarrow> lock_inv m"
  by (induction rule: mutex_reach.induct) (blast intro: lock_inv_init lock_inv_step)+

text \<open>
  (C12) In every reachable state the lock word is unlocked exactly when no thread is inside, and otherwise
  exactly one is: whatever the system calls do, whenever they return.
\<close>

theorem mutex_exclusion:
  assumes "mutex_reach flaky blocks wakes m"
  shows "(lock_word m = kUnlocked \<longleftrightarrow> holders m = {}) \<and> (holders m = {} \<or> (\<exists>p. holders m = {p}))"
  using lock_inv_reach [OF assms] by (auto simp: lock_inv_def lock_values)

section \<open>No lost wakeup\<close>

text \<open>What the two system calls are documented to do.\<close>

definition futex_waits :: "(int \<Rightarrow> int \<Rightarrow> bool) \<Rightarrow> bool" where
  "futex_waits blocks \<longleftrightarrow> (\<forall>v e. blocks v e \<longrightarrow> v = e)"

definition futex_wakes :: "(nat set \<Rightarrow> nat set \<Rightarrow> bool) \<Rightarrow> bool" where
  "futex_wakes wakes \<longleftrightarrow> (\<forall>S. \<exists>W. wakes S W) \<and> (\<forall>S W. wakes S W \<longrightarrow> S \<noteq> {} \<longrightarrow> S \<inter> W \<noteq> {})"

definition wake_inv :: "mutex \<Rightarrow> bool" where
  "wake_inv m \<longleftrightarrow> asleep m \<noteq> {} \<longrightarrow> lock_word m = kLockedContended \<or> (\<exists>p. places m p = Exchanges \<or> places m p = Wakes)"

lemma wake_inv_moves:
  assumes "wake_inv m" and "places m p \<noteq> Exchanges" and "places m p \<noteq> Wakes" and "w \<noteq> Asleep"
    and "v = lock_word m \<or> lock_word m \<noteq> kLockedContended"
  shows "wake_inv (goes m p (v, w))"
  unfolding wake_inv_def
proof
  assume "asleep (goes m p (v, w)) \<noteq> {}"
  then have "asleep m \<noteq> {}" using assms(4) by (auto simp: asleep_def split: if_splits)
  then consider "lock_word m = kLockedContended" | q where "places m q = Exchanges \<or> places m q = Wakes"
    using assms(1) by (auto simp: wake_inv_def)
  then show "lock_word (goes m p (v, w)) = kLockedContended \<or> (\<exists>q. places (goes m p (v, w)) q = Exchanges \<or> places (goes m p (v, w)) q = Wakes)"
  proof cases
    case 2
    then have "places (goes m p (v, w)) q = places m q" using assms(2,3) by auto
    then show ?thesis using 2 by metis
  qed (use assms(5) in auto)
qed

lemma wake_inv_by:
  assumes "places m q = Exchanges \<or> places m q = Wakes"
  shows "wake_inv m"
  using assms unfolding wake_inv_def by blast

lemma wake_inv_step:
  assumes "mutex_step flaky blocks wakes p m m'" and "futex_waits blocks" and "futex_wakes wakes" and "lock_inv m" and "wake_inv m"
  shows "wake_inv m'"
  using assms(1)
proof cases
  case (wake W)
  show ?thesis
  proof (cases "asleep m = {}")
    case True
    then have "asleep m' = {}" using wake by (auto simp: asleep_def)
    then show ?thesis by (simp add: wake_inv_def)
  next
    case False
    then obtain q where "q \<in> asleep m" "q \<in> W" using wake assms(3) unfolding futex_wakes_def by blast
    then have "places m' q = Exchanges" using wake by (auto simp: asleep_def)
    then show ?thesis by (blast intro: wake_inv_by)
  qed
next
  case (load k)
  then show ?thesis using wake_inv_moves [OF assms(5)] after_failed_try_places by (simp add: Try_load_def)
next
  case (swap k spurious)
  then show ?thesis using wake_inv_moves [OF assms(5)] after_failed_try_places by (simp add: Try_swap_def lock_values)
next
  case exchange
  then show ?thesis by (simp add: wake_inv_def LockSlow_exchange_def)
next
  case wait
  then have "lock_word m = kLockedContended" using assms(2) unfolding futex_waits_def by blast
  then show ?thesis using wait by (simp add: wake_inv_def)
next
  case release
  show ?thesis
  proof (cases "lock_word m = kLockedContended")
    case True
    then have "places m' p = Wakes" using release by (simp add: Release_exchange_def)
    then show ?thesis by (blast intro: wake_inv_by)
  next
    case False
    then show ?thesis using release wake_inv_moves [OF assms(5)] by (simp add: Release_exchange_def)
  qed
next
  case no_wait
  then have "places m' p = Exchanges" by simp
  then show ?thesis by (blast intro: wake_inv_by)
next
  case returns
  then have "places m' p = Exchanges" by simp
  then show ?thesis by (blast intro: wake_inv_by)
qed (use wake_inv_moves [OF assms(5)] in simp_all)

lemma wake_inv_reach:
  assumes "mutex_reach flaky blocks wakes m" and "futex_waits blocks" and "futex_wakes wakes"
  shows "wake_inv m"
  using assms(1)
proof (induction rule: mutex_reach.induct)
  case start
  show ?case by (simp add: mutex_init_def wake_inv_def asleep_def)
next
  case (step m p m')
  then show ?case using wake_inv_step assms(2,3) lock_inv_reach by blast
qed

definition waiting :: "place \<Rightarrow> bool" where
  "waiting w \<longleftrightarrow> w \<noteq> Outside \<and> w \<noteq> Inside \<and> w \<noteq> Wakes"

text \<open>
  A run of the threads that are in a call or inside: none starts a new call, so that whoever gets the lock
  was waiting for it, and nothing happens for no reason.
\<close>

definition mutex_run :: "(int \<Rightarrow> int \<Rightarrow> bool) \<Rightarrow> (nat set \<Rightarrow> nat set \<Rightarrow> bool) \<Rightarrow> mutex \<Rightarrow> mutex \<Rightarrow> bool" where
  "mutex_run blocks wakes = (\<lambda>m m'. \<exists>p. places m p \<noteq> Outside \<and> mutex_step False blocks wakes p m m')\<^sup>*\<^sup>*"

lemma run_step: "mutex_step False blocks wakes p m m' \<Longrightarrow> places m p \<noteq> Outside \<Longrightarrow> mutex_run blocks wakes m' m'' \<Longrightarrow> mutex_run blocks wakes m m''"
  unfolding mutex_run_def by (rule converse_rtranclp_into_rtranclp) blast+

lemma run_refl: "mutex_run blocks wakes m m"
  by (simp add: mutex_run_def)

lemma enters_after:
  assumes "mutex_step False blocks wakes p m m'" and "places m p \<noteq> Outside" and "\<exists>n. mutex_run blocks wakes m' n \<and> (\<exists>q. places n q = Inside)"
  shows "\<exists>n. mutex_run blocks wakes m n \<and> (\<exists>q. places n q = Inside)"
  using run_step [OF assms(1,2)] assms(3) by blast

lemma exchange_enters:
  assumes "places m p = Exchanges" and "lock_word m = kUnlocked"
  shows "\<exists>m'. mutex_run blocks wakes m m' \<and> (\<exists>q. places m' q = Inside)"
proof (intro exI conjI)
  show "mutex_run blocks wakes m (goes m p (LockSlow_exchange (lock_word m)))"
    by (rule run_step [OF mutex_step.exchange [OF assms(1)] _ run_refl]) (simp add: assms(1))
  show "places (goes m p (LockSlow_exchange (lock_word m))) p = Inside" by (simp add: LockSlow_exchange_def assms(2))
qed

lemma swap_enters:
  assumes "places m p = Swaps k" and "lock_word m = kUnlocked"
  shows "\<exists>m'. mutex_run blocks wakes m m' \<and> (\<exists>q. places m' q = Inside)"
proof (intro exI conjI)
  show "mutex_run blocks wakes m (goes m p (Try_swap False (lock_word m) k))"
    by (rule run_step [OF mutex_step.swap [OF assms(1)] _ run_refl]) (simp_all add: assms(1))
  show "places (goes m p (Try_swap False (lock_word m) k)) p = Inside" by (simp add: Try_swap_def assms(2))
qed

text \<open>A futex that sleeps exactly on the expected value and wakes one sleeper.\<close>

definition one_waker :: "nat set \<Rightarrow> nat set \<Rightarrow> bool" where
  "one_waker S W \<longleftrightarrow> (if S = {} then W = {} else \<exists>p \<in> S. W = {p})"

lemma futex_example: "futex_waits (=)" "futex_wakes one_waker"
  by (auto simp: futex_waits_def futex_wakes_def one_waker_def)

lemma reach_loading: "mutex_reach flaky blocks wakes (goes mutex_init 0 (kUnlocked, Loads First))"
  using mutex_reach.step [OF mutex_reach.start mutex_step.acquire [of mutex_init 0]] by (simp add: mutex_init_def)

lemma reach_inside: "mutex_reach flaky blocks wakes (goes mutex_init 0 (kLockedUncontended, Inside))"
proof -
  have "mutex_reach flaky blocks wakes (goes mutex_init 0 (kUnlocked, Swaps First))"
    using mutex_reach.step [OF reach_loading mutex_step.load [of _ 0 First]] by (simp add: goes_def Try_load_def)
  from mutex_reach.step [OF this mutex_step.swap [of _ 0 First False]] show ?thesis by (simp add: goes_def Try_swap_def)
qed

theorem mutex_exclusion_witness:
  "lock_word (goes mutex_init 0 (kLockedUncontended, Inside)) \<noteq> kUnlocked \<and> (\<exists>p. holders (goes mutex_init 0 (kLockedUncontended, Inside)) = {p})"
proof -
  have "0 \<in> holders (goes mutex_init 0 (kLockedUncontended, Inside))" by (simp add: holders_def)
  then show ?thesis using mutex_exclusion [OF reach_inside [of False "(=)" one_waker]] by blast
qed

text \<open>
  (C18) No wakeup is lost: whenever the lock is free and some thread is in \<open>Acquire\<close> or \<open>try_lock\<close>, even if
  all of them are asleep, the threads that are already in a call can go on until one of them is inside, without
  a newcomer and without a spurious return. The futex is as documented: it sleeps only on the expected value,
  and a wake with sleepers wakes one.
\<close>

theorem mutex_progress:
  assumes "futex_waits blocks" and "futex_wakes wakes" and "mutex_reach flaky blocks wakes m"
    and "\<forall>q. places m q \<noteq> Inside" and "waiting (places m p)"
  shows "\<exists>m'. mutex_run blocks wakes m m' \<and> (\<exists>q. places m' q = Inside)"
proof -
  have free: "lock_word m = kUnlocked" using lock_inv_reach [OF assms(3)] assms(4) by (auto simp: lock_inv_def holders_def)
  have W: "\<exists>m'. mutex_run blocks wakes m m' \<and> (\<exists>q. places m' q = Inside)" if "places m q = Asleep" for q
  proof -
    have "asleep m \<noteq> {}" using that by (auto simp: asleep_def)
    then obtain r where "places m r = Exchanges \<or> places m r = Wakes"
      using wake_inv_reach [OF assms(3,1,2)] free by (auto simp: wake_inv_def lock_values)
    then show ?thesis
    proof
      assume r: "places m r = Wakes"
      obtain W where W: "wakes (asleep m) W" using assms(2) unfolding futex_wakes_def by blast
      then obtain s where "s \<in> asleep m" "s \<in> W" using \<open>asleep m \<noteq> {}\<close> assms(2) unfolding futex_wakes_def by blast
      then have "places (FutexWake m r W) s = Exchanges" using r by (auto simp: asleep_def)
      then show ?thesis
        by (intro enters_after [OF mutex_step.wake [of m r wakes W, OF r W]] exchange_enters) (simp_all add: free r)
    qed (rule exchange_enters [OF _ free])
  qed
  consider "places m p = Asleep" | "places m p = Exchanges" | k where "places m p = Swaps k" | "places m p = Waits"
    | k where "places m p = Loads k" using assms(5) by (cases "places m p") (auto simp: waiting_def)
  then show ?thesis
  proof cases
    case 4
    have "\<not> blocks (lock_word m) kLockedContended" using assms(1) free by (simp add: futex_waits_def lock_values) fastforce
    then show ?thesis
      by (intro enters_after [OF mutex_step.no_wait [OF 4]] exchange_enters [of _ p]) (simp_all add: free 4)
  next
    case 5
    then show ?thesis
      by (intro enters_after [OF mutex_step.load [OF 5]] swap_enters [of _ p k]) (simp_all add: free Try_load_def 5)
  qed (use W exchange_enters swap_enters free in blast)+
qed

theorem mutex_progress_witness:
  "\<exists>m'. mutex_run (=) one_waker (goes mutex_init 0 (kUnlocked, Loads First)) m' \<and> (\<exists>q. places m' q = Inside)"
  by (rule mutex_progress [OF futex_example reach_loading [of False], of 0]) (simp_all add: waiting_def mutex_init_def)

end
