(* ===== verification/Recursive_Mutex.thy ===== *)
theory Recursive_Mutex
  imports Spinning_Mutex
begin

text \<open>
  \<open>src/base/threading/recursive_mutex.h\<close> over the steps of the mutex it holds. \<open>tag\<close> is the address of
  a thread's own thread-local variable: not null and different for every live thread.
\<close>

section \<open>The calls\<close>

text \<open>
  Where a thread is: in no call and without the lock, in \<open>mutex_.lock\<close> or \<open>mutex_.try_lock\<close>, having
  stored itself as the owner, in possession of the lock, before it clears the owner, and in
  \<open>mutex_.unlock\<close>.
\<close>

datatype spot = Away | Locking | Trying | Owned | Holding | Clearing | Unlocking

record rmutex =
  inner :: mutex
  owner_word :: nat
  depth_word :: nat
  spots :: "nat \<Rightarrow> spot"
  held :: "nat \<Rightarrow> nat"

text \<open>\<open>held\<close> is a history that no code reads: how many locks of a thread have returned and are not undone.\<close>

definition rmutex_init :: rmutex where
  "rmutex_init = \<lparr>inner = mutex_init, owner_word = 0, depth_word = 0, spots = (\<lambda>_. Away), held = (\<lambda>_. 0)\<rparr>"

definition lock_again :: "rmutex \<Rightarrow> nat \<Rightarrow> rmutex" where
  "lock_again r p = r\<lparr>depth_word := (depth_word r + 1) mod 2 ^ 64, held := (held r)(p := held r p + 1)\<rparr>"

definition store_owner :: "rmutex \<Rightarrow> nat \<Rightarrow> nat \<Rightarrow> rmutex" where
  "store_owner r p self = r\<lparr>owner_word := self, spots := (spots r)(p := Owned)\<rparr>"

definition set_depth :: "rmutex \<Rightarrow> nat \<Rightarrow> rmutex" where
  "set_depth r p = r\<lparr>depth_word := 1, spots := (spots r)(p := Holding), held := (held r)(p := 1)\<rparr>"

definition unlock :: "rmutex \<Rightarrow> nat \<Rightarrow> rmutex" where
  "unlock r p = (let depth = (depth_word r + 2 ^ 64 - 1) mod 2 ^ 64
     in r\<lparr>depth_word := depth, spots := (spots r)(p := if depth \<noteq> 0 then Holding else Clearing), held := (held r)(p := held r p - 1)\<rparr>)"

definition clear_owner :: "rmutex \<Rightarrow> nat \<Rightarrow> rmutex" where
  "clear_owner r p = r\<lparr>owner_word := 0, spots := (spots r)(p := Unlocking)\<rparr>"

definition at_spot :: "rmutex \<Rightarrow> nat \<Rightarrow> spot \<Rightarrow> rmutex" where
  "at_spot r p s = r\<lparr>spots := (spots r)(p := s)\<rparr>"

definition with_mutex :: "rmutex \<Rightarrow> mutex \<Rightarrow> rmutex" where
  "with_mutex r m = r\<lparr>inner := m\<rparr>"

text \<open>A thread without the lock or inside it may lock; one that holds it may unlock.\<close>

inductive rmutex_step :: "bool \<Rightarrow> (int \<Rightarrow> int \<Rightarrow> bool) \<Rightarrow> (nat set \<Rightarrow> nat set \<Rightarrow> bool) \<Rightarrow> (nat \<Rightarrow> nat) \<Rightarrow> nat \<Rightarrow> rmutex \<Rightarrow> rmutex \<Rightarrow> bool"
  for flaky blocks wakes tag p where
  again: "spots r p = Away \<or> spots r p = Holding \<Longrightarrow> owner_word r = tag p \<Longrightarrow> held r p + 1 < 2 ^ 64 \<Longrightarrow>
     rmutex_step flaky blocks wakes tag p r (lock_again r p)"
| lock: "spots r p = Away \<or> spots r p = Holding \<Longrightarrow> owner_word r \<noteq> tag p \<Longrightarrow> places (inner r) p = Outside \<Longrightarrow>
     rmutex_step flaky blocks wakes tag p r
       (at_spot (with_mutex r (goes (inner r) p (lock_word (inner r), Loads First))) p Locking)"
| try_lock: "spots r p = Away \<or> spots r p = Holding \<Longrightarrow> owner_word r \<noteq> tag p \<Longrightarrow> places (inner r) p = Outside \<Longrightarrow>
     rmutex_step flaky blocks wakes tag p r
       (at_spot (with_mutex r (goes (inner r) p (lock_word (inner r), Loads Single))) p Trying)"
| locking: "spots r p = Locking \<or> spots r p = Trying \<Longrightarrow> places (inner r) p \<noteq> Outside \<Longrightarrow> places (inner r) p \<noteq> Inside \<Longrightarrow>
     mutex_step flaky blocks wakes p (inner r) m \<Longrightarrow> rmutex_step flaky blocks wakes tag p r (with_mutex r m)"
| refused: "spots r p = Trying \<Longrightarrow> places (inner r) p = Outside \<Longrightarrow> rmutex_step flaky blocks wakes tag p r (at_spot r p Away)"
| acquired: "spots r p = Locking \<or> spots r p = Trying \<Longrightarrow> places (inner r) p = Inside \<Longrightarrow>
     rmutex_step flaky blocks wakes tag p r (store_owner r p (tag p))"
| owned: "spots r p = Owned \<Longrightarrow> rmutex_step flaky blocks wakes tag p r (set_depth r p)"
| unlock: "spots r p = Holding \<Longrightarrow> rmutex_step flaky blocks wakes tag p r (unlock r p)"
| clear: "spots r p = Clearing \<Longrightarrow> rmutex_step flaky blocks wakes tag p r (clear_owner r p)"
| unlocking: "spots r p = Unlocking \<Longrightarrow> places (inner r) p \<noteq> Outside \<Longrightarrow> mutex_step flaky blocks wakes p (inner r) m \<Longrightarrow>
     rmutex_step flaky blocks wakes tag p r (with_mutex r m)"
| unlocked: "spots r p = Unlocking \<Longrightarrow> places (inner r) p = Outside \<Longrightarrow> rmutex_step flaky blocks wakes tag p r (at_spot r p Away)"

inductive rmutex_reach :: "bool \<Rightarrow> (int \<Rightarrow> int \<Rightarrow> bool) \<Rightarrow> (nat set \<Rightarrow> nat set \<Rightarrow> bool) \<Rightarrow> (nat \<Rightarrow> nat) \<Rightarrow> rmutex \<Rightarrow> bool"
  for flaky blocks wakes tag where
  start: "rmutex_reach flaky blocks wakes tag rmutex_init"
| step: "rmutex_reach flaky blocks wakes tag r \<Longrightarrow> rmutex_step flaky blocks wakes tag p r r' \<Longrightarrow> rmutex_reach flaky blocks wakes tag r'"

section \<open>The owner\<close>

definition tags_ok :: "(nat \<Rightarrow> nat) \<Rightarrow> bool" where
  "tags_ok tag \<longleftrightarrow> inj tag \<and> (\<forall>p. tag p \<noteq> 0)"

definition owning :: "spot \<Rightarrow> bool" where
  "owning s \<longleftrightarrow> s = Owned \<or> s = Holding \<or> s = Clearing"

definition rmutex_inv :: "(nat \<Rightarrow> nat) \<Rightarrow> rmutex \<Rightarrow> bool" where
  "rmutex_inv tag r \<longleftrightarrow> lock_inv (inner r)
     \<and> (\<forall>p. owning (spots r p) \<longrightarrow> places (inner r) p = Inside)
     \<and> (\<forall>p. spots r p = Away \<longrightarrow> places (inner r) p = Outside)
     \<and> (owner_word r = 0 \<and> (\<forall>p. \<not> owning (spots r p)) \<or> (\<exists>p. owning (spots r p) \<and> owner_word r = tag p))
     \<and> (\<forall>p. spots r p = Holding \<longrightarrow> depth_word r = held r p \<and> 0 < held r p \<and> held r p < 2 ^ 64)
     \<and> (\<forall>p. spots r p \<noteq> Holding \<longrightarrow> held r p = 0)"

lemma inside_unique: "lock_inv m \<Longrightarrow> places m p = Inside \<Longrightarrow> places m q = Inside \<Longrightarrow> p = q"
proof -
  assume "lock_inv m" "places m p = Inside" "places m q = Inside"
  then have "p \<in> holders m" "q \<in> holders m" "holders m = {} \<or> (\<exists>r. holders m = {r})" by (auto simp: lock_inv_def holders_def)
  then show ?thesis by auto
qed

text \<open>A step of the mutex leaves the other threads inside, outside or neither as they are.\<close>

lemma mutex_step_others:
  assumes "mutex_step flaky blocks wakes p m m'" and "q \<noteq> p"
  shows "places m' q = places m q \<or> places m q = Asleep \<and> places m' q = Exchanges"
  using assms by cases auto

lemma rmutex_invD:
  assumes "rmutex_inv tag r"
  shows "lock_inv (inner r)" and "owning (spots r p) \<Longrightarrow> places (inner r) p = Inside"
    and "spots r p = Away \<Longrightarrow> places (inner r) p = Outside"
    and "owner_word r = 0 \<and> (\<forall>p. \<not> owning (spots r p)) \<or> (\<exists>p. owning (spots r p) \<and> owner_word r = tag p)"
    and "spots r p = Holding \<Longrightarrow> depth_word r = held r p \<and> 0 < held r p \<and> held r p < 2 ^ 64"
    and "spots r p \<noteq> Holding \<Longrightarrow> held r p = 0"
  using assms unfolding rmutex_inv_def by blast+

lemma rmutex_inv_mutex:
  assumes "rmutex_inv tag r" and "mutex_step flaky blocks wakes p (inner r) m" and "\<not> owning (spots r p)" and "spots r p \<noteq> Away"
  shows "rmutex_inv tag (with_mutex r m)"
proof -
  have I: "places m q = Inside" if "owning (spots r q)" for q
  proof -
    have "q \<noteq> p" using that assms(3) by auto
    then show ?thesis using mutex_step_others [OF assms(2)] rmutex_invD(2) [OF assms(1) that] by fastforce
  qed
  have O: "places m q = Outside" if "spots r q = Away" for q
  proof -
    have "q \<noteq> p" using that assms(4) by auto
    then show ?thesis using mutex_step_others [OF assms(2)] rmutex_invD(3) [OF assms(1) that] by fastforce
  qed
  show ?thesis
    using assms(1) I O lock_inv_step [OF assms(2)] unfolding rmutex_inv_def by (simp add: with_mutex_def)
qed

lemma only_owner:
  assumes "rmutex_inv tag r" and "places (inner r) p = Inside" and "owning (spots r q)"
  shows "q = p"
  using inside_unique [OF rmutex_invD(1) [OF assms(1)] assms(2)] rmutex_invD(2) [OF assms(1,3)] by blast

text \<open>A thread that neither has the lock nor gets it moves between spots.\<close>

lemma rmutex_inv_spot:
  assumes "rmutex_inv tag r" and "\<not> owning (spots r p)" and "\<not> owning s" and "s = Away \<longrightarrow> places (inner r) p = Outside"
  shows "rmutex_inv tag (at_spot r p s)"
proof -
  have "owning (spots (at_spot r p s) q) \<longleftrightarrow> owning (spots r q)" for q using assms(2,3) by (simp add: at_spot_def)
  moreover have "spots (at_spot r p s) q = Holding \<longleftrightarrow> spots r q = Holding" for q
    using assms(2,3) by (auto simp: at_spot_def owning_def)
  moreover have "places (inner r) q = Outside" if "spots (at_spot r p s) q = Away" for q
    using that assms(4) rmutex_invD(3) [OF assms(1), of q] by (simp add: at_spot_def split: if_splits)
  ultimately show ?thesis using assms(1) unfolding rmutex_inv_def by (simp add: at_spot_def)
qed

lemma not_owning: "\<not> owning Away" "\<not> owning Locking" "\<not> owning Trying" "\<not> owning Unlocking"
  by (simp_all add: owning_def)

lemma rmutex_inv_enter:
  assumes "rmutex_inv tag r" and "spots r p = Away \<or> spots r p = Holding" and "places (inner r) p = Outside"
    and "mutex_step flaky blocks wakes p (inner r) m" and "s = Locking \<or> s = Trying"
  shows "rmutex_inv tag (at_spot (with_mutex r m) p s)"
proof -
  have "spots r p = Away" using assms(2,3) rmutex_invD(2) [OF assms(1), of p] by (auto simp: owning_def)
  then have "rmutex_inv tag (at_spot r p s)" "spots (at_spot r p s) p = s"
    using rmutex_inv_spot [OF assms(1), of p s] assms(5) by (auto simp: not_owning at_spot_def)
  moreover have "inner (at_spot r p s) = inner r" by (simp add: at_spot_def)
  ultimately have "rmutex_inv tag (with_mutex (at_spot r p s) m)"
    using rmutex_inv_mutex [of tag "at_spot r p s" flaky blocks wakes p m] assms(4,5) by (auto simp: not_owning)
  moreover have "with_mutex (at_spot r p s) m = at_spot (with_mutex r m) p s"
    by (cases r) (simp add: with_mutex_def at_spot_def)
  ultimately show ?thesis by simp
qed

text \<open>The thread inside the mutex takes the whole of the state.\<close>

lemma rmutex_inv_owner:
  assumes "rmutex_inv tag r" and "places (inner r) p = Inside" and "inner r' = inner r"
    and "\<forall>q. q \<noteq> p \<longrightarrow> spots r' q = spots r q \<and> held r' q = held r q"
    and "owning (spots r' p) \<and> owner_word r' = tag p \<or> \<not> owning (spots r' p) \<and> spots r' p \<noteq> Away \<and> owner_word r' = 0"
    and "if spots r' p = Holding then depth_word r' = held r' p \<and> 0 < held r' p \<and> held r' p < 2 ^ 64 else held r' p = 0"
  shows "rmutex_inv tag r'"
proof -
  have others: "\<not> owning (spots r q)" if "q \<noteq> p" for q using only_owner [OF assms(1,2)] that by blast
  have away: "spots r' p \<noteq> Away" using assms(5) by (auto simp: owning_def)
  show ?thesis
    unfolding rmutex_inv_def
  proof (intro conjI allI impI)
    show "lock_inv (inner r')" using rmutex_invD(1) [OF assms(1)] assms(3) by simp
    show "places (inner r') q = Inside" if "owning (spots r' q)" for q
      using that others assms(2-4) by (cases "q = p") auto
    show "places (inner r') q = Outside" if "spots r' q = Away" for q
      using that away assms(3,4) rmutex_invD(3) [OF assms(1)] by (cases "q = p") auto
    show "owner_word r' = 0 \<and> (\<forall>q. \<not> owning (spots r' q)) \<or> (\<exists>q. owning (spots r' q) \<and> owner_word r' = tag q)"
      using assms(4,5) others by metis
    show "depth_word r' = held r' q" "0 < held r' q" "held r' q < 2 ^ 64" if "spots r' q = Holding" for q
    proof -
      have "q = p" using that others assms(4) by (metis owning_def)
      then show "depth_word r' = held r' q" "0 < held r' q" "held r' q < 2 ^ 64" using that assms(6) by simp_all
    qed
    show "held r' q = 0" if "spots r' q \<noteq> Holding" for q
      using that assms(4,6) rmutex_invD(6) [OF assms(1)] by (cases "q = p") auto
  qed
qed

lemma unlock_depth: "0 < n \<Longrightarrow> n < 2 ^ 64 \<Longrightarrow> (n + 2 ^ 64 - 1) mod 2 ^ 64 = n - (1 :: nat)"
  by (simp add: mod_if)

lemma rmutex_inv_step:
  assumes "rmutex_step flaky blocks wakes tag p r r'" and "tags_ok tag" and "rmutex_inv tag r"
  shows "rmutex_inv tag r'"
  using assms(1)
proof cases
  case again
  have "owner_word r \<noteq> 0" using again assms(2) by (simp add: tags_ok_def)
  then obtain q where q: "owning (spots r q)" "owner_word r = tag q" using rmutex_invD(4) [OF assms(3)] by auto
  then have "q = p" using again assms(2) by (simp add: tags_ok_def inj_eq)
  then have h: "spots r p = Holding" using again(2) q(1) by (auto simp: owning_def)
  then have "places (inner r) p = Inside" using rmutex_invD(2) [OF assms(3), of p] by (simp add: owning_def)
  then show ?thesis
    by (rule rmutex_inv_owner [OF assms(3)])
      (use again h rmutex_invD(5) [OF assms(3), of p] in \<open>auto simp: lock_again_def owning_def\<close>)
next
  case lock
  then show ?thesis
    using rmutex_inv_enter [OF assms(3) _ _ mutex_step.acquire [of "inner r" p flaky blocks wakes]] by simp
next
  case try_lock
  then show ?thesis
    using rmutex_inv_enter [OF assms(3) _ _ mutex_step.try_lock [of "inner r" p flaky blocks wakes]] by simp
next
  case (locking m)
  then show ?thesis using rmutex_inv_mutex [OF assms(3) locking(5)] by (auto simp: not_owning)
next
  case refused
  then show ?thesis using rmutex_inv_spot [OF assms(3), of p Away] by (simp add: not_owning)
next
  case acquired
  show ?thesis
    by (rule rmutex_inv_owner [OF assms(3) acquired(3)])
      (use acquired rmutex_invD(6) [OF assms(3), of p] in \<open>auto simp: store_owner_def owning_def\<close>)
next
  case owned
  then have "places (inner r) p = Inside" using rmutex_invD(2) [OF assms(3), of p] by (simp add: owning_def)
  moreover from this have "owner_word r = tag p"
    using rmutex_invD(4) [OF assms(3)] only_owner [OF assms(3)] owned by (metis owning_def)
  ultimately show ?thesis
    by (intro rmutex_inv_owner [OF assms(3)]) (use owned in \<open>auto simp: set_depth_def owning_def\<close>)
next
  case unlock
  then have i: "places (inner r) p = Inside" using rmutex_invD(2) [OF assms(3), of p] by (simp add: owning_def)
  moreover from this have "owner_word r = tag p"
    using rmutex_invD(4) [OF assms(3)] only_owner [OF assms(3)] unlock by (metis owning_def)
  moreover have "(depth_word r + 2 ^ 64 - 1) mod 2 ^ 64 = held r p - 1" "0 < held r p" "held r p < 2 ^ 64"
    using rmutex_invD(5) [OF assms(3), of p] unlock unlock_depth by simp_all
  ultimately show ?thesis
    by (intro rmutex_inv_owner [OF assms(3) i]) (use unlock in \<open>auto simp: unlock_def owning_def Let_def\<close>)
next
  case clear
  then have "places (inner r) p = Inside" using rmutex_invD(2) [OF assms(3), of p] by (simp add: owning_def)
  then show ?thesis
    by (rule rmutex_inv_owner [OF assms(3)])
      (use clear rmutex_invD(6) [OF assms(3), of p] in \<open>auto simp: clear_owner_def owning_def\<close>)
next
  case (unlocking m)
  then show ?thesis using rmutex_inv_mutex [OF assms(3) unlocking(4)] by (auto simp: not_owning)
next
  case unlocked
  then show ?thesis using rmutex_inv_spot [OF assms(3), of p Away] by (simp add: not_owning)
qed

lemma rmutex_inv_init: "rmutex_inv tag rmutex_init"
  using lock_inv_init by (simp add: rmutex_inv_def rmutex_init_def owning_def) (simp add: mutex_init_def)

lemma rmutex_inv_reach:
  assumes "rmutex_reach flaky blocks wakes tag r" and "tags_ok tag"
  shows "rmutex_inv tag r"
  using assms(1)
  by (induction rule: rmutex_reach.induct) (blast intro: rmutex_inv_init rmutex_inv_step assms(2))+

text \<open>
  (C13) A thread whose locks are not all undone has the mutex to itself: it alone is inside, the owner word
  is its tag, the depth word is the number of its locks, and no other thread has any. The mutex is
  given up exactly with the last unlock.
\<close>

theorem recursive_mutex_depth:
  assumes "tags_ok tag" and "rmutex_reach flaky blocks wakes tag r" and "0 < held r p"
  shows "spots r p = Holding \<and> holders (inner r) = {p} \<and> owner_word r = tag p \<and> depth_word r = held r p
    \<and> {q. 0 < held r q} = {p}"
proof -
  have I: "rmutex_inv tag r" by (rule rmutex_inv_reach [OF assms(2,1)])
  have h: "spots r p = Holding" using rmutex_invD(6) [OF I, of p] assms(3) by auto
  then have i: "places (inner r) p = Inside" using rmutex_invD(2) [OF I, of p] by (simp add: owning_def)
  then have "holders (inner r) = {p}" using inside_unique [OF rmutex_invD(1) [OF I]] by (auto simp: holders_def)
  moreover have "owner_word r = tag p" using rmutex_invD(4) [OF I] only_owner [OF I i] h by (metis owning_def)
  moreover have "held r q = 0" if "q \<noteq> p" for q
    using rmutex_invD(6) [OF I, of q] only_owner [OF I i, of q] that by (auto simp: owning_def)
  moreover from this have "{q. 0 < held r q} = {p}" using assms(3) by fastforce
  ultimately show ?thesis using h rmutex_invD(5) [OF I h] by blast
qed

text \<open>One thread locks twice: the second lock only counts.\<close>

definition tag_example :: "nat \<Rightarrow> nat" where
  "tag_example p = p + 1"

definition twice_locked :: rmutex where
  "twice_locked = \<lparr>inner = goes mutex_init 0 (kLockedUncontended, Inside), owner_word = 1, depth_word = 2,
     spots = (\<lambda>_. Away)(0 := Holding), held = (\<lambda>_. 0)(0 := 2)\<rparr>"

lemma twice_locked_Suc: "twice_locked = \<lparr>inner = goes mutex_init 0 (kLockedUncontended, Inside), owner_word = 1, depth_word = Suc (Suc 0),
     spots = (\<lambda>_. Away)(0 := Holding), held = (\<lambda>_. 0)(0 := Suc (Suc 0))\<rparr>"
  by (simp add: twice_locked_def numeral_2_eq_2)

lemma reach_twice_locked: "rmutex_reach flaky blocks wakes tag_example twice_locked"
proof -
  define at where "at = (\<lambda>s w. at_spot (with_mutex rmutex_init (goes mutex_init 0 w)) 0 s)"
  have step: "rmutex_reach flaky blocks wakes tag_example r'"
    if "rmutex_reach flaky blocks wakes tag_example r" "rmutex_step flaky blocks wakes tag_example 0 r r'" for r r'
    by (rule rmutex_reach.step [OF that])
  have "rmutex_reach flaky blocks wakes tag_example (at Locking (kUnlocked, Loads First))"
    using step [OF rmutex_reach.start rmutex_step.lock [of rmutex_init 0]]
    by (simp add: at_def rmutex_init_def mutex_init_def tag_example_def at_spot_def with_mutex_def)
  note this [THEN step, OF rmutex_step.locking [OF _ _ _ mutex_step.load [of _ 0 First]]]
  then have "rmutex_reach flaky blocks wakes tag_example (at Locking (kUnlocked, Swaps First))"
    by (simp add: at_def goes_def Try_load_def at_spot_def with_mutex_def rmutex_init_def)
  note this [THEN step, OF rmutex_step.locking [OF _ _ _ mutex_step.swap [of _ 0 First False]]]
  then have "rmutex_reach flaky blocks wakes tag_example (at Locking (kLockedUncontended, Inside))"
    by (simp add: at_def goes_def Try_swap_def at_spot_def with_mutex_def mutex_init_def rmutex_init_def)
  note step [OF step [OF step [OF this rmutex_step.acquired] rmutex_step.owned] rmutex_step.again]
  then show ?thesis
    by (simp add: at_def store_owner_def set_depth_def lock_again_def twice_locked_Suc at_spot_def with_mutex_def rmutex_init_def tag_example_def)
qed

theorem recursive_mutex_depth_witness:
  "spots twice_locked 0 = Holding \<and> holders (inner twice_locked) = {0} \<and> owner_word twice_locked = tag_example 0
    \<and> depth_word twice_locked = held twice_locked 0 \<and> {q. 0 < held twice_locked q} = {0}"
  by (rule recursive_mutex_depth [OF _ reach_twice_locked [of False "(=)" one_waker]])
    (auto simp: tags_ok_def tag_example_def inj_def twice_locked_def)

end
