(* ===== verification/Condition_Variable.thy ===== *)
theory Condition_Variable
  imports Prelude
begin

text \<open>
  \<open>src/base/threading/condition_variable.h\<close>: a sequence word and a count of waiters.

  A waiter reads the sequence under its lock, releases the lock, registers, and sleeps only while the
  sequence is still what it read; a notifier moves the sequence on and makes the system call only
  when a waiter is registered. The system calls are parameters: \<open>blocks v s\<close> says that the wait may sleep
  when the word holds \<open>v\<close> and \<open>s\<close> is expected, \<open>wakes every S W\<close> that a wake of one or of every sleeper
  of \<open>S\<close> may wake \<open>W\<close>. A sleeper may also return for no reason or because its time has passed.
\<close>

text \<open>
  A waiter has read a sequence and is before its registration, before its sleep, asleep, or before it
  takes its registration back; a notifier has advanced the sequence, or is about to wake. The flag
  tells \<open>NotifyAll\<close> from \<open>NotifyOne\<close>.
\<close>

datatype cv_place = Elsewhere | Read_seq u32 | Registered u32 | Sleeping u32 | Returned | Advanced bool | Waking bool

record condvar =
  seq_word :: u32
  waiters_word :: u32
  cv_places :: "nat \<Rightarrow> cv_place"
  advances :: nat
  notified :: "nat \<Rightarrow> bool"

text \<open>
  Two histories that no code reads: how often the sequence has moved, and whether \<open>NotifyAll\<close> has moved
  it since a waiter read it.
\<close>

definition cv_init :: condvar where
  "cv_init = \<lparr>seq_word = 0, waiters_word = 0, cv_places = (\<lambda>_. Elsewhere), advances = 0, notified = (\<lambda>_. False)\<rparr>"

definition cv_goes :: "condvar \<Rightarrow> nat \<Rightarrow> cv_place \<Rightarrow> condvar" where
  "cv_goes c p w = c\<lparr>cv_places := (cv_places c)(p := w)\<rparr>"

definition read_seq :: "condvar \<Rightarrow> nat \<Rightarrow> condvar" where
  "read_seq c p = (cv_goes c p (Read_seq (seq_word c)))\<lparr>notified := (notified c)(p := False)\<rparr>"

definition WaitWhileEquals_register :: "condvar \<Rightarrow> nat \<Rightarrow> u32 \<Rightarrow> condvar" where
  "WaitWhileEquals_register c p s = (cv_goes c p (Registered s))\<lparr>waiters_word := waiters_word c + 1\<rparr>"

definition WaitWhileEquals_return :: "condvar \<Rightarrow> nat \<Rightarrow> condvar" where
  "WaitWhileEquals_return c p = (cv_goes c p Elsewhere)\<lparr>waiters_word := waiters_word c - 1\<rparr>"

definition Advance_add :: "condvar \<Rightarrow> nat \<Rightarrow> bool \<Rightarrow> condvar" where
  "Advance_add c p every = (cv_goes c p (Advanced every))\<lparr>seq_word := seq_word c + 1, advances := advances c + 1,
     notified := (\<lambda>q. notified c q \<or> every)\<rparr>"

definition Advance_load :: "condvar \<Rightarrow> nat \<Rightarrow> bool \<Rightarrow> condvar" where
  "Advance_load c p every = cv_goes c p (if waiters_word c \<noteq> 0 then Waking every else Elsewhere)"

definition is_sleeping :: "cv_place \<Rightarrow> bool" where
  "is_sleeping w = (case w of Sleeping s \<Rightarrow> True | _ \<Rightarrow> False)"

definition sleeping :: "condvar \<Rightarrow> nat set" where
  "sleeping c = {p. is_sleeping (cv_places c p)}"

definition WakeAddress :: "condvar \<Rightarrow> nat \<Rightarrow> nat set \<Rightarrow> condvar" where
  "WakeAddress c p W = c\<lparr>cv_places := (\<lambda>q. if q = p then Elsewhere
     else if q \<in> W \<and> is_sleeping (cv_places c q) then Returned else cv_places c q)\<rparr>"

inductive cv_step :: "(u32 \<Rightarrow> u32 \<Rightarrow> bool) \<Rightarrow> (bool \<Rightarrow> nat set \<Rightarrow> nat set \<Rightarrow> bool) \<Rightarrow> nat \<Rightarrow> condvar \<Rightarrow> condvar \<Rightarrow> bool"
  for blocks wakes p where
  read: "cv_places c p = Elsewhere \<Longrightarrow> cv_step blocks wakes p c (read_seq c p)"
| register: "cv_places c p = Read_seq s \<Longrightarrow> cv_step blocks wakes p c (WaitWhileEquals_register c p s)"
| sleep: "cv_places c p = Registered s \<Longrightarrow> blocks (seq_word c) s \<Longrightarrow> cv_step blocks wakes p c (cv_goes c p (Sleeping s))"
| no_sleep: "cv_places c p = Registered s \<Longrightarrow> cv_step blocks wakes p c (cv_goes c p Returned)"
| returns: "cv_places c p = Sleeping s \<Longrightarrow> cv_step blocks wakes p c (cv_goes c p Returned)"
| leave: "cv_places c p = Returned \<Longrightarrow> cv_step blocks wakes p c (WaitWhileEquals_return c p)"
| notify: "cv_places c p = Elsewhere \<Longrightarrow> cv_step blocks wakes p c (Advance_add c p every)"
| look: "cv_places c p = Advanced every \<Longrightarrow> cv_step blocks wakes p c (Advance_load c p every)"
| wake: "cv_places c p = Waking every \<Longrightarrow> wakes every (sleeping c) W \<Longrightarrow> cv_step blocks wakes p c (WakeAddress c p W)"

text \<open>\<open>threads\<close> bounds the number of threads.\<close>

inductive cv_reach :: "(u32 \<Rightarrow> u32 \<Rightarrow> bool) \<Rightarrow> (bool \<Rightarrow> nat set \<Rightarrow> nat set \<Rightarrow> bool) \<Rightarrow> nat \<Rightarrow> condvar \<Rightarrow> bool" for blocks wakes threads where
  start: "cv_reach blocks wakes threads cv_init"
| step: "cv_reach blocks wakes threads c \<Longrightarrow> p < threads \<Longrightarrow> cv_step blocks wakes p c d \<Longrightarrow> cv_reach blocks wakes threads d"

section \<open>The count of waiters\<close>

definition registered :: "cv_place \<Rightarrow> bool" where
  "registered w = (case w of Registered s \<Rightarrow> True | Sleeping s \<Rightarrow> True | Returned \<Rightarrow> True | _ \<Rightarrow> False)"

definition waiting_set :: "condvar \<Rightarrow> nat set" where
  "waiting_set c = {p. registered (cv_places c p)}"

definition count_inv :: "nat \<Rightarrow> condvar \<Rightarrow> bool" where
  "count_inv threads c \<longleftrightarrow> (\<forall>p. threads \<le> p \<longrightarrow> cv_places c p = Elsewhere) \<and> waiters_word c = of_nat (card (waiting_set c))"

lemma cv_goes_views [simp]:
  "cv_places (cv_goes c p w) = (cv_places c)(p := w)" "seq_word (cv_goes c p w) = seq_word c"
  "waiters_word (cv_goes c p w) = waiters_word c" "advances (cv_goes c p w) = advances c" "notified (cv_goes c p w) = notified c"
  by (simp_all add: cv_goes_def)

lemma waiting_finite: "count_inv threads c \<Longrightarrow> finite (waiting_set c) \<and> card (waiting_set c) \<le> threads"
proof -
  assume "count_inv threads c"
  then have "\<not> registered (cv_places c p)" if "threads \<le> p" for p using that by (simp add: count_inv_def registered_def)
  then have "waiting_set c \<subseteq> {..<threads}" by (auto simp: waiting_set_def not_less [symmetric])
  then show ?thesis using finite_subset card_mono by (metis card_lessThan finite_lessThan)
qed

text \<open>A thread that stays registered or unregistered keeps the count.\<close>

lemma count_same:
  assumes "count_inv threads c" and "p < threads" and "waiters_word d = waiters_word c"
    and "\<And>q. registered (cv_places d q) = registered (cv_places c q)" and "\<And>q. threads \<le> q \<Longrightarrow> cv_places d q = cv_places c q"
  shows "count_inv threads d"
  using assms by (simp add: count_inv_def waiting_set_def)

lemma count_step:
  assumes "cv_step blocks wakes p c d" and "p < threads" and "count_inv threads c"
  shows "count_inv threads d"
  using assms(1)
proof cases
  case (register s)
  have "waiting_set d = insert p (waiting_set c)"
    using register by (auto simp: waiting_set_def WaitWhileEquals_register_def registered_def)
  moreover have "p \<notin> waiting_set c" using register by (simp add: waiting_set_def registered_def)
  ultimately show ?thesis
    using assms(2,3) waiting_finite [OF assms(3)] register by (auto simp: count_inv_def WaitWhileEquals_register_def)
next
  case leave
  have "waiting_set c = insert p (waiting_set d)" "p \<notin> waiting_set d"
    using leave by (auto simp: waiting_set_def WaitWhileEquals_return_def registered_def)
  moreover from this have "finite (waiting_set d)" using waiting_finite [OF assms(3)] by (metis finite_insert)
  ultimately have "waiters_word c - 1 = of_nat (card (waiting_set d))" using assms(3) by (simp add: count_inv_def)
  then show ?thesis
    using assms(2,3) leave by (simp add: count_inv_def WaitWhileEquals_return_def)
next
  case read
  show ?thesis by (rule count_same [OF assms(3,2)]) (use read assms(2) in \<open>auto simp: read_seq_def registered_def\<close>)
next
  case (sleep s)
  show ?thesis by (rule count_same [OF assms(3,2)]) (use sleep assms(2) in \<open>auto simp: registered_def\<close>)
next
  case (no_sleep s)
  show ?thesis by (rule count_same [OF assms(3,2)]) (use no_sleep assms(2) in \<open>auto simp: registered_def\<close>)
next
  case (returns s)
  show ?thesis by (rule count_same [OF assms(3,2)]) (use returns assms(2) in \<open>auto simp: registered_def\<close>)
next
  case (notify every)
  show ?thesis by (rule count_same [OF assms(3,2)]) (use notify assms(2) in \<open>auto simp: registered_def Advance_add_def\<close>)
next
  case (look every)
  show ?thesis by (rule count_same [OF assms(3,2)]) (use look assms(2) in \<open>auto simp: registered_def Advance_load_def\<close>)
next
  case (wake every W)
  have "cv_places c q = Elsewhere" if "threads \<le> q" for q using assms(3) that by (simp add: count_inv_def)
  then show ?thesis
    by (intro count_same [OF assms(3,2)])
      (use wake assms(2) in \<open>auto simp: registered_def is_sleeping_def WakeAddress_def split: cv_place.splits\<close>)
qed

lemma count_init: "count_inv threads cv_init"
  by (simp add: cv_init_def count_inv_def waiting_set_def registered_def)

lemma count_reach: "cv_reach blocks wakes threads c \<Longrightarrow> count_inv threads c"
  by (induction rule: cv_reach.induct) (blast intro: count_init count_step)+

text \<open>While anyone sleeps the count is not zero, so that a notifier does not skip its wake.\<close>

lemma sleeper_counted:
  assumes "count_inv threads c" and "threads < 2 ^ 32" and "cv_places c p = Sleeping s"
  shows "waiters_word c \<noteq> 0"
proof -
  have "p \<in> waiting_set c" using assms(3) by (simp add: waiting_set_def registered_def)
  then have "0 < card (waiting_set c)" "card (waiting_set c) < 2 ^ 32"
    using waiting_finite [OF assms(1)] assms(2) by (auto simp: card_gt_0_iff)
  then have "unat (of_nat (card (waiting_set c)) :: u32) \<noteq> 0" by (simp add: unat_of_nat)
  then show ?thesis using assms(1) by (auto simp: count_inv_def)
qed

section \<open>No lost notification\<close>

definition cv_waits :: "(u32 \<Rightarrow> u32 \<Rightarrow> bool) \<Rightarrow> bool" where
  "cv_waits blocks \<longleftrightarrow> (\<forall>v s. blocks v s \<longrightarrow> v = s)"

definition cv_wakes :: "(bool \<Rightarrow> nat set \<Rightarrow> nat set \<Rightarrow> bool) \<Rightarrow> bool" where
  "cv_wakes wakes \<longleftrightarrow> (\<forall>S W. wakes True S W \<longrightarrow> S \<subseteq> W)"

definition saw :: "cv_place \<Rightarrow> u32 option" where
  "saw w = (case w of Read_seq s \<Rightarrow> Some s | Registered s \<Rightarrow> Some s | Sleeping s \<Rightarrow> Some s | _ \<Rightarrow> None)"

definition seq_inv :: "condvar \<Rightarrow> bool" where
  "seq_inv c \<longleftrightarrow> seq_word c = of_nat (advances c)
     \<and> (\<forall>p s. saw (cv_places c p) = Some s \<longrightarrow> (\<exists>k \<le> advances c. s = of_nat k \<and> (notified c p \<longrightarrow> k < advances c)))"

definition notify_inv :: "condvar \<Rightarrow> bool" where
  "notify_inv c \<longleftrightarrow> (\<forall>p s. cv_places c p = Sleeping s \<longrightarrow> notified c p \<longrightarrow>
     (\<exists>q. cv_places c q = Advanced True \<or> cv_places c q = Waking True))"

lemma seq_inv_keeps:
  assumes "seq_inv c" and "advances d = advances c" and "seq_word d = seq_word c"
    and "\<And>q. saw (cv_places d q) = None \<or> saw (cv_places d q) = saw (cv_places c q) \<and> (notified d q \<longrightarrow> notified c q)"
  shows "seq_inv d"
  unfolding seq_inv_def
proof (intro conjI allI impI)
  show "seq_word d = of_nat (advances d)" using assms(1-3) by (simp add: seq_inv_def)
  fix q s assume "saw (cv_places d q) = Some s"
  then have "saw (cv_places c q) = Some s" "notified d q \<longrightarrow> notified c q" using assms(4) [of q] by auto
  then show "\<exists>k \<le> advances d. s = of_nat k \<and> (notified d q \<longrightarrow> k < advances d)"
    using assms(1,2) unfolding seq_inv_def by metis
qed

lemma seq_inv_step:
  assumes "cv_step blocks wakes p c d" and "seq_inv c"
  shows "seq_inv d"
  using assms(1)
proof cases
  case read
  show ?thesis
    unfolding seq_inv_def
  proof (intro conjI allI impI)
    show "seq_word d = of_nat (advances d)" using assms(2) read by (simp add: seq_inv_def read_seq_def)
    fix q s assume s: "saw (cv_places d q) = Some s"
    show "\<exists>k \<le> advances d. s = of_nat k \<and> (notified d q \<longrightarrow> k < advances d)"
    proof (cases "q = p")
      case True
      then show ?thesis using s read assms(2) by (auto simp: read_seq_def saw_def seq_inv_def)
    next
      case False
      then show ?thesis using s read assms(2) by (simp add: read_seq_def seq_inv_def)
    qed
  qed
next
  case (notify every)
  show ?thesis
    unfolding seq_inv_def
  proof (intro conjI allI impI)
    show "seq_word d = of_nat (advances d)" using assms(2) notify by (simp add: seq_inv_def Advance_add_def)
    fix q s assume "saw (cv_places d q) = Some s"
    then have "saw (cv_places c q) = Some s" using notify by (auto simp: Advance_add_def saw_def split: if_splits)
    then obtain k where "k \<le> advances c" "s = of_nat k" using assms(2) unfolding seq_inv_def by blast
    then show "\<exists>k \<le> advances d. s = of_nat k \<and> (notified d q \<longrightarrow> k < advances d)"
      using notify by (intro exI [of _ k]) (simp add: Advance_add_def)
  qed
next
  case (register s)
  show ?thesis by (rule seq_inv_keeps [OF assms(2)]) (use register in \<open>auto simp: WaitWhileEquals_register_def saw_def\<close>)
next
  case leave
  show ?thesis by (rule seq_inv_keeps [OF assms(2)]) (use leave in \<open>auto simp: WaitWhileEquals_return_def saw_def\<close>)
next
  case (sleep s)
  show ?thesis by (rule seq_inv_keeps [OF assms(2)]) (use sleep in \<open>auto simp: saw_def\<close>)
next
  case (no_sleep s)
  show ?thesis by (rule seq_inv_keeps [OF assms(2)]) (use no_sleep in \<open>auto simp: saw_def\<close>)
next
  case (returns s)
  show ?thesis by (rule seq_inv_keeps [OF assms(2)]) (use returns in \<open>auto simp: saw_def\<close>)
next
  case (look every)
  show ?thesis by (rule seq_inv_keeps [OF assms(2)]) (use look in \<open>auto simp: Advance_load_def saw_def\<close>)
next
  case (wake every W)
  show ?thesis by (rule seq_inv_keeps [OF assms(2)]) (use wake in \<open>auto simp: WakeAddress_def saw_def\<close>)
qed

lemma seq_reach: "cv_reach blocks wakes threads c \<Longrightarrow> seq_inv c"
proof (induction rule: cv_reach.induct)
  case start
  show ?case by (simp add: cv_init_def seq_inv_def saw_def)
qed (rule seq_inv_step)

lemma notify_invD:
  "notify_inv c \<Longrightarrow> cv_places c p = Sleeping s \<Longrightarrow> notified c p \<Longrightarrow> \<exists>q. cv_places c q = Advanced True \<or> cv_places c q = Waking True"
  unfolding notify_inv_def by blast

text \<open>A step that neither puts to sleep, nor notifies, nor ends a notification for all.\<close>

lemma notify_inv_keeps:
  assumes "notify_inv c" and "\<And>q s. cv_places d q = Sleeping s \<Longrightarrow> cv_places c q = Sleeping s \<and> (notified d q \<longrightarrow> notified c q)"
    and "\<And>q. cv_places c q = Advanced True \<or> cv_places c q = Waking True \<Longrightarrow> cv_places d q = Advanced True \<or> cv_places d q = Waking True"
  shows "notify_inv d"
  unfolding notify_inv_def
proof (intro allI impI)
  fix p s assume "cv_places d p = Sleeping s" "notified d p"
  then have "cv_places c p = Sleeping s" "notified c p" using assms(2) by blast+
  then show "\<exists>q. cv_places d q = Advanced True \<or> cv_places d q = Waking True" using notify_invD [OF assms(1)] assms(3) by blast
qed

lemma notify_inv_step:
  assumes "cv_step blocks wakes p c d" and "cv_waits blocks" and "cv_wakes wakes" and "count_inv threads c" and "threads < 2 ^ 32"
    and "seq_inv c" and "advances c < 2 ^ 32" and "notify_inv c"
  shows "notify_inv d"
  using assms(1)
proof cases
  case (sleep s)
  have "seq_word c = s" using sleep assms(2) unfolding cv_waits_def by blast
  moreover obtain k where k: "k \<le> advances c" "s = of_nat k" "notified c p \<longrightarrow> k < advances c"
    using assms(6) sleep(2) unfolding seq_inv_def by (force simp: saw_def)
  ultimately have "of_nat (advances c) = (of_nat k :: u32)" using assms(6) by (simp add: seq_inv_def)
  then have "unat (of_nat (advances c) :: u32) = unat (of_nat k :: u32)" by simp
  then have "advances c = k" using assms(7) k(1) by (simp add: unat_of_nat)
  then have "\<not> notified c p" using k(3) by simp
  then show ?thesis
    unfolding notify_inv_def using sleep notify_invD [OF assms(8)]
    by (metis (no_types, lifting) cv_place.distinct fun_upd_apply cv_goes_views(1,5) sleep(1))
next
  case (notify every)
  show ?thesis
  proof (cases every)
    case True
    then have "cv_places d p = Advanced True" using notify by (simp add: Advance_add_def)
    then show ?thesis unfolding notify_inv_def by blast
  next
    case False
    show ?thesis by (rule notify_inv_keeps [OF assms(8)]) (use notify False in \<open>auto simp: Advance_add_def split: if_splits\<close>)
  qed
next
  case (look every)
  show ?thesis
  proof (cases "waiters_word c = 0")
    case True
    then have "cv_places c q \<noteq> Sleeping s" for q s using sleeper_counted [OF assms(4,5)] by blast
    then have "cv_places d q \<noteq> Sleeping s" for q s using look True by (simp add: Advance_load_def)
    then show ?thesis by (simp add: notify_inv_def)
  next
    case False
    show ?thesis by (rule notify_inv_keeps [OF assms(8)]) (use look False in \<open>auto simp: Advance_load_def split: if_splits\<close>)
  qed
next
  case (wake every W)
  show ?thesis
  proof (cases every)
    case True
    then have "wakes True (sleeping c) W" using wake by simp
    then have "sleeping c \<subseteq> W" using assms(3) by (simp add: cv_wakes_def)
    then have "q \<in> W" if "is_sleeping (cv_places c q)" for q using that by (auto simp: sleeping_def)
    then have "cv_places d q \<noteq> Sleeping s" for q s using wake by (auto simp: WakeAddress_def is_sleeping_def)
    then show ?thesis by (simp add: notify_inv_def)
  next
    case False
    show ?thesis
      by (rule notify_inv_keeps [OF assms(8)]) (use wake False in \<open>auto simp: WakeAddress_def is_sleeping_def split: if_splits\<close>)
  qed
next
  case read
  show ?thesis by (rule notify_inv_keeps [OF assms(8)]) (use read in \<open>auto simp: read_seq_def split: if_splits\<close>)
next
  case (register s)
  show ?thesis by (rule notify_inv_keeps [OF assms(8)]) (use register in \<open>auto simp: WaitWhileEquals_register_def split: if_splits\<close>)
next
  case (no_sleep s)
  show ?thesis by (rule notify_inv_keeps [OF assms(8)]) (use no_sleep in \<open>auto split: if_splits\<close>)
next
  case (returns s)
  show ?thesis by (rule notify_inv_keeps [OF assms(8)]) (use returns in \<open>auto split: if_splits\<close>)
next
  case leave
  show ?thesis by (rule notify_inv_keeps [OF assms(8)]) (use leave in \<open>auto simp: WaitWhileEquals_return_def split: if_splits\<close>)
qed

lemma advances_mono: "cv_step blocks wakes p c d \<Longrightarrow> advances c \<le> advances d"
  by (induction rule: cv_step.induct)
    (simp_all add: read_seq_def WaitWhileEquals_register_def WaitWhileEquals_return_def Advance_add_def Advance_load_def WakeAddress_def)

lemma notify_reach:
  assumes "cv_reach blocks wakes threads c" and "cv_waits blocks" and "cv_wakes wakes" and "threads < 2 ^ 32"
  shows "advances c < 2 ^ 32 \<Longrightarrow> notify_inv c"
  using assms(1)
proof (induction rule: cv_reach.induct)
  case start
  show ?case by (simp add: cv_init_def notify_inv_def)
next
  case (step c p d)
  have "advances c < 2 ^ 32" using advances_mono [OF step(3)] step(5) by simp
  then show ?case
    using notify_inv_step [OF step(3) assms(2,3) count_reach [OF step(1)] assms(4) seq_reach [OF step(1)]] step(4) by blast
qed

text \<open>
  (C28) No notification is lost: a thread that sleeps after \<open>NotifyAll\<close> has moved the sequence it read is
  about to be woken, by a notifier that has not made its system call yet and, since the sleeper is
  counted, will make it. This holds for fewer than 2 ^ 32 threads until the sequence has moved 2 ^ 32 times.
\<close>

theorem condition_variable_notifies:
  assumes "cv_waits blocks" and "cv_wakes wakes" and "threads < 2 ^ 32" and "cv_reach blocks wakes threads c"
    and "advances c < 2 ^ 32" and "cv_places c p = Sleeping s" and "notified c p"
  shows "waiters_word c \<noteq> 0 \<and> (\<exists>q. cv_places c q = Advanced True \<or> cv_places c q = Waking True)"
  using sleeper_counted [OF count_reach [OF assms(4)] assms(3,6)] notify_invD [OF notify_reach [OF assms(4,1,2,3,5)] assms(6,7)]
  by blast

lemma reach_sleeping:
  "cv_reach (=) (\<lambda>every S W. W = S) 2
     \<lparr>seq_word = 1, waiters_word = 1, cv_places = (\<lambda>_. Elsewhere)(0 := Sleeping 0, 1 := Advanced True), advances = 1,
      notified = (\<lambda>_. True)\<rparr>"
proof -
  note r = cv_reach.step [of "(=)" "\<lambda>every S W. W = S" 2]
  have "cv_reach (=) (\<lambda>every S W. W = S) 2 (cv_goes (WaitWhileEquals_register (read_seq cv_init 0) 0 0) 0 (Sleeping 0))"
    by (rule r [OF r [OF r [OF cv_reach.start _ cv_step.read [of _ 0]] _ cv_step.register] _ cv_step.sleep])
      (simp_all add: cv_init_def read_seq_def WaitWhileEquals_register_def)
  from r [OF this _ cv_step.notify [of _ 1 _ _ True]] show ?thesis
    by (simp add: cv_init_def read_seq_def WaitWhileEquals_register_def Advance_add_def cv_goes_def fun_eq_iff)
qed

theorem condition_variable_notifies_witness:
  "(1 :: u32) \<noteq> 0 \<and> (\<exists>q. ((\<lambda>_. Elsewhere)(0 := Sleeping 0, 1 := Advanced True)) (q :: nat) = Advanced True
     \<or> ((\<lambda>_. Elsewhere)(0 := Sleeping 0, 1 := Advanced True)) q = Waking True)"
  using condition_variable_notifies [OF _ _ _ reach_sleeping, of 0 0] by (simp add: cv_waits_def cv_wakes_def)

end
