(* ===== verification/Spec2Isabelle.thy ===== *)
theory Spec2Isabelle
  imports Vector Deque Ring_Buffer Unordered_Set Hash_Map Algorithms Base_String_Query Ordered_Set Ordered_Map
    Float_Round_Trip Integer_Text Utf8_Scan Mpsc_Queue
    Better_Bitset Recursive_Mutex Condition_Variable
begin

text \<open>
  Verification of the base library (\<open>src/base\<close>): its containers, algorithms, strings and number
  conversions, a replacement for the standard library written without exceptions and without the
  standard library.

  \<^bold>\<open>How the program is put together.\<close> Containers own raw blocks from an allocator and manage the
  lifetimes of the objects in them by hand; they take their capacities from the overflow-checked
  arithmetic of \<open>memory/allocation_size.h\<close>. The node containers \<open>Map\<close> and \<open>Set\<close> share one red-black
  tree; \<open>HashMap\<close> and \<open>HashSet\<close> chain nodes from buckets and \<open>UnorderedMap\<close> and \<open>UnorderedSet\<close> probe
  an open-addressed table. \<open>algorithm.h\<close> sorts and searches index ranges. \<open>BasicBaseString\<close> keeps short
  strings inside its own bytes and borrows its scans from \<open>char_algorithms.h\<close> and \<open>string_search.h\<close>.
  The number conversions of \<open>strings/\<close> go through one fixed-capacity big integer; \<open>text/\<close> converts
  between encodings. \<open>threading/\<close> builds its locks on atomics and futexes.

  \<^bold>\<open>How the model corresponds to the code.\<close> A C++ object is a value that its member functions take
  and return updated. A computation that can stop returns a \<open>res\<close>: a fault or a value. Failed checks
  (\<open>check.h\<close>) and undefined behaviour (a touch of storage that holds no object, a read out of bounds,
  a block freed twice or leaked, a loop that never ends) are different faults, so that a theorem that
  says a run never faults covers memory safety, and \<open>outcome\<close> allows refusals only. Sizes are natural
  numbers with the wrap-around at \<open>2 ^ 64\<close> written out, or words where the code works on bits.

  \<^item> \<open>Prelude\<close>: faults, the sequencing \<open>bindE\<close>, machine sizes, lemmas on lists and moduli.
  \<^item> \<open>Checked_Arith\<close>: \<open>memory/allocation_size.h\<close> and the integer helpers of \<open>math/\<close>.
  \<^item> \<open>Storage\<close>: a block is a list of cells that hold an object or nothing; construction,
    destruction and relocation between blocks (\<open>memory/object_storage.h\<close> and its callers).
  \<^item> \<open>Sequence_Spec\<close>, \<open>Map_Spec\<close>, \<open>Order_Spec\<close>: locales. A sequence store refines a list, a map
    store a partial map, a keyed order compares by a key; each is interpreted on the containers
    that provide it, and the run-level theorems are proved once inside.
  \<^item> \<open>Vector\<close>, \<open>Deque\<close>, \<open>Ring_Buffer\<close>: \<open>containers/vector.h\<close>, \<open>simple_deque.h\<close> with \<open>queue.h\<close>, and
    \<open>ring_buffer.h\<close>.
  \<^item> \<open>Unordered_Map\<close>, \<open>Unordered_Set\<close>, \<open>Hash_Map\<close>: \<open>containers/unordered_map.h\<close>, \<open>unordered_set.h\<close>,
    \<open>hash_map.h\<close>.
  \<^item> \<open>RB_Tree\<close> holds the definitions of \<open>containers/tree/red_black_tree_2.h\<close> over a heap of nodes with
    parent pointers; \<open>RB_Heap\<close> relates a heap to a tree, \<open>RB_Relink\<close>, \<open>RB_Insertion\<close>, \<open>RB_Deletion\<close>,
    \<open>RB_Search\<close> and \<open>RB_Operations\<close> prove the steps, \<open>RB_Reach\<close> the invariants of every reachable
    tree. \<open>Ordered_Set\<close> and \<open>Ordered_Map\<close> are \<open>containers/set.h\<close> and \<open>map.h\<close> on top of it.
  \<^item> \<open>Algorithms\<close>: \<open>algorithm.h\<close>.
  \<^item> \<open>Char_Algorithms\<close>: \<open>strings/char_algorithms.h\<close>, \<open>string_search.h\<close>; \<open>Base_String\<close> and
    \<open>Base_String_Query\<close>: \<open>strings/base_string.h\<close> on the bytes of its union.
  \<^item> \<open>Decimal_Bignum\<close>: \<open>strings/decimal_bignum.h\<close>, every operation refined to natural numbers.
    \<open>Float_Value\<close> says what a double and correct rounding are; \<open>Number_Parse\<close> holds the definitions
    of \<open>strings/number_parse.cc\<close>, \<open>Number_Rounding\<close> and \<open>Number_Decimal\<close> prove its numeric core,
    \<open>Float_Text\<close> and \<open>Integer_Text\<close> its parsers. \<open>Float_Format\<close> and \<open>Float_Print\<close> are
    \<open>strings/float_format.cc\<close>, and \<open>Float_Round_Trip\<close> joins printing and parsing.
  \<^item> \<open>Unicode\<close>: the macros of \<open>external/icu/icu_utf.h\<close> and what UTF-8 and UTF-16 are; \<open>Ascii_Check\<close> and
    \<open>Utf8_Scan\<close>: \<open>text/code_point_validation.h\<close> and \<open>utf8_codepoint_iterator.h\<close>; \<open>Unicode_Convert\<close>
    holds the definitions of \<open>text/code_convert.cc\<close> and the contract of a decoder, \<open>Unicode_Rules\<close> the
    decoders that meet it and the theorems on the seven conversions.
  \<^item> \<open>Bit_Words\<close>: lists of words as sets of bits, \<open>PopCount\<close>, and the locale of a store whose runs refine an
    abstract one; \<open>Bitset\<close> and \<open>Better_Bitset\<close>: \<open>containers/bitsets/bitset.h\<close> and \<open>better_bitset.h\<close>.
  \<^item> \<open>Mpsc_Queue\<close>: \<open>containers/mpsc_queue.h\<close>; \<open>Spinning_Mutex\<close>, \<open>Recursive_Mutex\<close>, \<open>Condition_Variable\<close>:
    the files of these names in \<open>threading/\<close>. Each is a step relation in which a thread does one atomic
    access at a time; a call is the sequence of its steps, and the state says where every thread is.

  \<^bold>\<open>What the lemmas show.\<close> For every container: an invariant that each operation keeps, and a
  refinement of the abstract sequence, set or map by every run of operations, with the errors of the
  code as outcomes of the run (full, out of range, size overflow). Stability of addresses where the
  code promises it, iteration orders, the cost bound of the tree search, termination of the probing
  loops, equivalence of the sort and of the searches with their specifications, the layout round trip
  of the small-string union, correct rounding of parsed doubles, saturation of parsed integers and where
  it fails, doubles that are printed and parsed back unchanged. Unicode conversions accept exactly
  the well-formed texts, give the same text, never leave their buffer and undo each other. In every
  interleaving the queue of many producers is safe and first-in first-out, the mutex admits one thread
  and loses no wakeup even when no new thread comes, the recursive mutex counts its locks and a
  notification reaches the waiters asleep on the old sequence.

  \<^bold>\<open>Bounds and fuel.\<close> Loops that count down a list or an index recurse on it. Probing a hash table
  carries the table size as fuel, since a cycle of probes visits each slot once; tree walks carry the
  number of nodes; the doubling loop of capacities and the loops of \<open>algorithm.h\<close> that the code does
  not bound are partial functions or end in the fault \<open>Diverges\<close>, which the theorems exclude. The big
  integer has 224 limbs; a parsed number needs at most 6814 of its 7168 bits. A decoder consumes at
  least one unit a step; the spin of the mutex is the eight tries of the code. The theorems on
  conversions ask for sources short enough for the 32-bit counts of the decoders.

  \<^bold>\<open>Not modelled.\<close> Atomic accesses are taken to be sequentially consistent: the memory orders the code
  asks for are not modelled, nor are the other lock-free containers. The futex calls are parameters of
  the mutex with their documented behaviour. Threads, processes, files, sockets, time, logging,
  profiling and platform code are calls to the operating system. The allocator behind the
  containers is the fresh-block contract of \<open>Storage\<close>. Template machinery (\<open>meta/\<close>) has no run-time
  behaviour. The manifest lists every part with its reason.
\<close>

end
